(* ===== verification/Prelude.thy ===== *)
theory Prelude
  imports Main "HOL-Library.Word"
begin

text \<open>
  Shared vocabulary of the development.

  Every operation of the modelled C code returns a value of type \<open>'a res\<close>: \<open>Ok\<close> is a normal
  return (the new state is part of the value), \<open>Panic\<close> is the kernel's \<open>panic()\<close>, \<open>Undef\<close> is
  a step the C standard gives no meaning to (an array written past its end, an uninitialised
  read, signed overflow), and \<open>Spin\<close> is a wait that nothing ends.  \<open>bnd\<close> is the semicolon.
\<close>

section \<open>Results\<close>

datatype 'a res = Ok 'a | Panic string | Undef string | Spin

definition bnd :: "'a res \<Rightarrow> ('a \<Rightarrow> 'b res) \<Rightarrow> 'b res" where
  "bnd m f = (case m of Ok x \<Rightarrow> f x | Panic e \<Rightarrow> Panic e | Undef e \<Rightarrow> Undef e | Spin \<Rightarrow> Spin)"

lemma bnd_simps [simp]:
  "bnd (Ok x) f = f x"
  "bnd (Panic e) f = Panic e"
  "bnd (Undef e) f = Undef e"
  "bnd Spin f = Spin"
  by (simp_all add: bnd_def)

lemma bnd_eq_Ok: "bnd m f = Ok y \<longleftrightarrow> (\<exists>x. m = Ok x \<and> f x = Ok y)"
  by (cases m) simp_all

lemma bnd_OkE:
  assumes "bnd m f = Ok y"
  obtains x where "m = Ok x" and "f x = Ok y"
  using assms by (auto simp: bnd_eq_Ok)

lemma bnd_cong [fundef_cong]:
  assumes "m = m'" and "\<And>x. m' = Ok x \<Longrightarrow> f x = f' x"
  shows "bnd m f = bnd m' f'"
  using assms by (cases m') auto

lemma bnd_assoc: "bnd (bnd m f) g = bnd m (\<lambda>x. bnd (f x) g)"
  by (cases m) simp_all

lemma bnd_Ok [simp]: "bnd m Ok = m"
  by (cases m) simp_all

text \<open>An array write or read checked against the array's size.\<close>

definition guard :: "bool \<Rightarrow> string \<Rightarrow> unit res" where
  "guard b why = (if b then Ok () else Undef why)"

lemma guard_simps [simp]: "guard True why = Ok ()" "guard False why = Undef why"
  by (simp_all add: guard_def)

lemma bnd_guard: "bnd (guard b why) f = (if b then f () else Undef why)"
  by (simp add: guard_def)

text \<open>The kernel's \<open>if (!b) panic(why)\<close>.\<close>

definition assertk :: "bool \<Rightarrow> string \<Rightarrow> unit res" where
  "assertk b why = (if b then Ok () else Panic why)"

lemma assertk_simps [simp]: "assertk True why = Ok ()" "assertk False why = Panic why"
  by (simp_all add: assertk_def)

lemma bnd_assertk: "bnd (assertk b why) f = (if b then f () else Panic why)"
  by (simp add: assertk_def)

definition is_ok :: "'a res \<Rightarrow> bool" where
  "is_ok m = (case m of Ok _ \<Rightarrow> True | _ \<Rightarrow> False)"

lemma is_ok_simps [simp]:
  "is_ok (Ok x)" "\<not> is_ok (Panic e)" "\<not> is_ok (Undef e)" "\<not> is_ok Spin"
  by (simp_all add: is_ok_def)

lemma is_ok_iff: "is_ok m \<longleftrightarrow> (\<exists>x. m = Ok x)"
  by (cases m) simp_all

section \<open>C integers\<close>

text \<open>
  A C \<open>int\<close> is an Isabelle \<open>int\<close> whose arithmetic is checked where the program computes with
  it (signed overflow has no meaning in C); \<open>unsigned int\<close> and \<open>uint64\<close> are words, which wrap.
\<close>

definition INT_MAX :: int where "INT_MAX = 2147483647"

definition sadd32 :: "int \<Rightarrow> int \<Rightarrow> int res" where
  "sadd32 a b =
     (if - INT_MAX - 1 \<le> a + b \<and> a + b \<le> INT_MAX then Ok (a + b) else Undef ''signed overflow'')"

text \<open>The value an \<open>int\<close> keeps of a wider integer: the low 32 bits, read as two's complement.\<close>

definition to_int32 :: "int \<Rightarrow> int" where
  "to_int32 x = (x + 2147483648) mod 4294967296 - 2147483648"

lemma to_int32_id: "- 2147483648 \<le> x \<Longrightarrow> x \<le> 2147483647 \<Longrightarrow> to_int32 x = x"
  by (simp add: to_int32_def)

section \<open>Postconditions\<close>

text \<open>
  \<open>post m P\<close>: if \<open>m\<close> returns, \<open>P\<close> holds of what it returns.  The rules follow the statements of a body,
  so that \<open>intro\<close> with the rules of the operations it calls goes through it.
\<close>

definition post :: "'a res \<Rightarrow> ('a \<Rightarrow> bool) \<Rightarrow> bool" where
  "post m P \<longleftrightarrow> (\<forall>x. m = Ok x \<longrightarrow> P x)"

named_theorems posts \<open>rules for the postcondition of a statement\<close>

lemma postD: "post m P \<Longrightarrow> m = Ok x \<Longrightarrow> P x"
  by (simp add: post_def)

lemma postI: "(\<And>x. m = Ok x \<Longrightarrow> P x) \<Longrightarrow> post m P"
  by (simp add: post_def)

lemma post_Ok [posts]: "P x \<Longrightarrow> post (Ok x) P"
  by (simp add: post_def)

lemma post_Ok_pair [posts]: "P r t \<Longrightarrow> post (Ok (r, t)) (\<lambda>(r, t). P r t)"
  by (simp add: post_def)

lemma post_fail [posts]: "post (Panic e) P" "post (Undef e) P" "post Spin P"
  by (simp_all add: post_def)

lemma post_bnd_pair [posts]:
  "post m (\<lambda>(r, t). Q r t) \<Longrightarrow> (\<And>r t. Q r t \<Longrightarrow> post (f r t) P) \<Longrightarrow> post (bnd m (\<lambda>(r, t). f r t)) P"
  by (cases m) (auto simp: post_def)

lemma post_bnd [posts]: "post m Q \<Longrightarrow> (\<And>x. Q x \<Longrightarrow> post (f x) P) \<Longrightarrow> post (bnd m f) P"
  by (cases m) (simp_all add: post_def)

lemma post_if [posts]: "(b \<Longrightarrow> post m P) \<Longrightarrow> (\<not> b \<Longrightarrow> post n P) \<Longrightarrow> post (if b then m else n) P"
  by simp

lemma post_let [posts]: "post (f x) P \<Longrightarrow> post (Let x f) P"
  by simp

lemma post_case_prod [posts]: "(\<And>a b. x = (a, b) \<Longrightarrow> post (f a b) P) \<Longrightarrow> post (case x of (a, b) \<Rightarrow> f a b) P"
  by (cases x) simp

lemma post_case_option [posts]:
  "(x = None \<Longrightarrow> post m P) \<Longrightarrow> (\<And>a. x = Some a \<Longrightarrow> post (f a) P) \<Longrightarrow>
   post (case x of None \<Rightarrow> m | Some a \<Rightarrow> f a) P"
  by (cases x) simp_all

lemma post_assertk [posts]: "post (assertk b e) (\<lambda>_. b)"
  by (cases b) (simp_all add: post_def)

lemma post_guard [posts]: "post (guard b e) (\<lambda>_. b)"
  by (cases b) (simp_all add: post_def)

text \<open>
  The same with one predicate \<open>I\<close> of the state at every step, for invariants and frames: nothing is
  left to unification.
\<close>

named_theorems keeps \<open>rules for a predicate of the state that every statement keeps\<close>

lemma keep_bnd [keeps]:
  "post m (\<lambda>(r, t). I t) \<Longrightarrow> (\<And>r t. I t \<Longrightarrow> post (f r t) (\<lambda>(r, t). I t)) \<Longrightarrow> post (bnd m (\<lambda>(r, t). f r t)) (\<lambda>(r, t). I t)"
  "post m (\<lambda>(r, t). I t) \<Longrightarrow> (\<And>r t. I t \<Longrightarrow> post (g r t) I) \<Longrightarrow> post (bnd m (\<lambda>(r, t). g r t)) I"
  "post n I \<Longrightarrow> (\<And>t. I t \<Longrightarrow> post (h t) (\<lambda>(r, t). I t)) \<Longrightarrow> post (bnd n h) (\<lambda>(r, t). I t)"
  "post n I \<Longrightarrow> (\<And>t. I t \<Longrightarrow> post (k t) I) \<Longrightarrow> post (bnd n k) I"
  by (cases m; cases n; auto simp: post_def)+

lemma post_bnd_any: "(\<And>x. post (f x) P) \<Longrightarrow> post (bnd m f) P"
  by (cases m) (auto simp: post_def)

lemma keep_check [keeps]:
  "(b \<Longrightarrow> post (f ()) P) \<Longrightarrow> post (bnd (assertk b e) f) P"
  "(b \<Longrightarrow> post (f ()) P) \<Longrightarrow> post (bnd (guard b e) f) P"
  by (auto simp: bnd_assertk bnd_guard post_def)

lemma keep_sadd32 [keeps]: "(\<And>x. x = a + b \<Longrightarrow> post (f x) P) \<Longrightarrow> post (bnd (sadd32 a b) f) P"
  by (simp add: sadd32_def post_def)

lemmas keep_simple [keeps] = post_Ok_pair post_Ok post_fail post_if post_let post_case_prod post_case_option

lemma post_mono: "post m P \<Longrightarrow> (\<And>x. P x \<Longrightarrow> Q x) \<Longrightarrow> post m Q"
  by (simp add: post_def)

section \<open>Loops\<close>

text \<open>\<open>for_each f is s\<close> is \<open>for (i : is) body\<close> over a state.\<close>

fun for_each :: "('i \<Rightarrow> 's \<Rightarrow> 's res) \<Rightarrow> 'i list \<Rightarrow> 's \<Rightarrow> 's res" where
  "for_each f [] s = Ok s"
| "for_each f (i # is) s = bnd (f i s) (for_each f is)"

lemma for_each_append: "for_each f (is @ js) s = bnd (for_each f is s) (for_each f js)"
proof (induction "is" arbitrary: s)
  case Nil
  then show ?case by simp
next
  case (Cons i "is")
  then show ?case by (cases "f i s") simp_all
qed

lemma for_each_invariant:
  assumes "\<And>i s s'. i \<in> set is \<Longrightarrow> P s \<Longrightarrow> f i s = Ok s' \<Longrightarrow> P s'"
    and "P s" and "for_each f is s = Ok s'"
  shows "P s'"
  using assms
proof (induction "is" arbitrary: s)
  case Nil
  then show ?case by simp
next
  case (Cons i "is")
  from Cons.prems(3) obtain t where t: "f i s = Ok t" "for_each f is t = Ok s'"
    by (auto simp: bnd_eq_Ok)
  have "P t" by (rule Cons.prems(1)[of i s t]) (use Cons.prems(2) t(1) in simp_all)
  show ?case by (rule Cons.IH[of t]) (use Cons.prems(1) t(2) \<open>P t\<close> in auto)
qed

lemma post_for_each:
  assumes "\<And>i s. i \<in> set is \<Longrightarrow> P s \<Longrightarrow> post (f i s) P" and "P s"
  shows "post (for_each f is s) P"
  by (rule postI) (rule for_each_invariant[of "is" P f s], use assms in \<open>auto simp: post_def\<close>)

lemma for_each_total:
  assumes "\<And>i s. i \<in> set is \<Longrightarrow> P s \<Longrightarrow> \<exists>s'. f i s = Ok s' \<and> P s'" and "P s"
  shows "\<exists>s'. for_each f is s = Ok s' \<and> P s'"
  using assms
proof (induction "is" arbitrary: s)
  case Nil
  then show ?case by simp
next
  case (Cons i "is")
  from Cons.prems obtain t where "f i s = Ok t" "P t" by auto
  with Cons.IH[of t] Cons.prems(1) show ?case by simp
qed

section \<open>Characters\<close>

text \<open>
  A C string is the list of its characters without the terminating NUL, so reading the character
  after the last one (\<open>'\\0'\<close>) is finding the list empty.
\<close>

abbreviation c_bslash :: char where "c_bslash \<equiv> CHR 0x5C"
abbreviation c_squote :: char where "c_squote \<equiv> CHR 0x27"
abbreviation c_dquote :: char where "c_dquote \<equiv> CHR 0x22"
abbreviation c_nl :: char where "c_nl \<equiv> CHR 0x0A"
abbreviation c_tab :: char where "c_tab \<equiv> CHR 0x09"
abbreviation c_cr :: char where "c_cr \<equiv> CHR 0x0D"
abbreviation c_space :: char where "c_space \<equiv> CHR 0x20"
abbreviation c_nul :: char where "c_nul \<equiv> CHR 0x00"

definition nl :: string where "nl = [c_nl]"

section \<open>Lists\<close>

lemma take_drop_update_swap:
  "i < length xs \<Longrightarrow> xs[i := x] = take i xs @ x # drop (Suc i) xs"
  by (rule upd_conv_take_nth_drop)

end
