(* ===== verification/CLib.thy ===== *)
theory CLib
  imports Prelude
begin

text \<open>
  The C library functions the shell uses on strings: \<open>strtol\<close> in base 10, \<open>%d\<close>, \<open>strtok\<close> with one
  delimiter, \<open>strstr\<close>, \<open>strchr\<close>, and the truncation of \<open>snprintf\<close> and \<open>strncpy\<close>.  Strings are
  lists of characters without the terminating NUL.
\<close>

section \<open>Decimal numbers\<close>

definition is_digit :: "char \<Rightarrow> bool" where
  "is_digit c \<longleftrightarrow> 48 \<le> (of_char c :: nat) \<and> (of_char c :: nat) \<le> 57"

definition digit_val :: "char \<Rightarrow> nat" where
  "digit_val c = of_char c - 48"

definition digit_char :: "nat \<Rightarrow> char" where
  "digit_char n = char_of (48 + n)"

definition is_space :: "char \<Rightarrow> bool" where
  "is_space c \<longleftrightarrow> c \<in> {c_space, c_tab, c_nl, CHR 0x0B, CHR 0x0C, c_cr}"

fun show_nat :: "nat \<Rightarrow> string" where
  "show_nat n = (if n < 10 then [digit_char n] else show_nat (n div 10) @ [digit_char (n mod 10)])"

declare show_nat.simps [simp del]

definition show_int :: "int \<Rightarrow> string" where
  "show_int i = (if i < 0 then CHR ''-'' # show_nat (nat (- i)) else show_nat (nat i))"

definition digits_val :: "string \<Rightarrow> nat" where
  "digits_val ds = foldl (\<lambda>a c. 10 * a + digit_val c) 0 ds"

text \<open>
  \<open>strtol(s, &end, 10)\<close> as the value and the text \<open>end\<close> points at: blanks, a sign, digits; the
  value saturates at the range of \<open>long\<close>, and with no digits nothing is consumed.
\<close>

definition LONG_MAX :: int where "LONG_MAX = 9223372036854775807"

definition clamp_long :: "int \<Rightarrow> int" where
  "clamp_long v = max (- LONG_MAX - 1) (min LONG_MAX v)"

definition strtol :: "string \<Rightarrow> int \<times> string" where
  "strtol s =
     (let t = dropWhile is_space s;
          neg = (t \<noteq> [] \<and> hd t = CHR ''-'');
          u = (if t \<noteq> [] \<and> (hd t = CHR ''-'' \<or> hd t = CHR ''+'') then tl t else t);
          ds = takeWhile is_digit u
      in if ds = [] then (0, s)
         else (clamp_long (if neg then - int (digits_val ds) else int (digits_val ds)),
               dropWhile is_digit u))"

lemma is_digit_char: "n < 10 \<Longrightarrow> is_digit (digit_char n)"
  by (simp add: is_digit_def digit_char_def take_bit_nat_eq_self_iff)

lemma digit_val_char: "n < 10 \<Longrightarrow> digit_val (digit_char n) = n"
  by (simp add: digit_val_def digit_char_def take_bit_nat_eq_self_iff)

lemma show_nat_ne [simp]: "show_nat n \<noteq> []"
  by (subst show_nat.simps) simp

lemma show_nat_digits: "list_all is_digit (show_nat n)"
proof (induction n rule: show_nat.induct)
  case (1 n)
  then show ?case by (subst show_nat.simps) (simp add: is_digit_char)
qed

lemma digits_val_show_nat: "digits_val (show_nat n) = n"
proof (induction n rule: show_nat.induct)
  case (1 n)
  show ?case
  proof (cases "n < 10")
    case True
    then show ?thesis by (subst show_nat.simps) (simp add: digits_val_def digit_val_char)
  next
    case False
    with 1 have "digits_val (show_nat (n div 10)) = n div 10" by simp
    with False show ?thesis
      by (subst show_nat.simps) (simp add: digits_val_def digit_val_char)
  qed
qed

lemma digit_classes:
  "is_digit c \<Longrightarrow> \<not> is_space c \<and> c \<noteq> CHR ''-'' \<and> c \<noteq> CHR ''+''"
  by (auto simp: is_digit_def is_space_def)

lemma takeWhile_digits:
  "list_all is_digit ds \<Longrightarrow> rest = [] \<or> \<not> is_digit (hd rest) \<Longrightarrow>
   takeWhile is_digit (ds @ rest) = ds \<and> dropWhile is_digit (ds @ rest) = rest"
  by (induction ds) (auto simp: neq_Nil_conv dropWhile_eq_self_iff takeWhile_eq_Nil_iff)

lemma strtol_digits:
  assumes "list_all is_digit ds" and "ds \<noteq> []" and "rest = [] \<or> \<not> is_digit (hd rest)"
  shows "strtol (ds @ rest) = (clamp_long (int (digits_val ds)), rest)"
    and "strtol (CHR ''-'' # ds @ rest) = (clamp_long (- int (digits_val ds)), rest)"
proof -
  obtain d ds' where ds: "ds = d # ds'" using assms(2) by (cases ds) auto
  with assms(1) have d: "\<not> is_space d" "d \<noteq> CHR ''-''" "d \<noteq> CHR ''+''"
    by (simp_all add: digit_classes)
  have "\<not> is_space (CHR ''-'')" by (simp add: is_space_def)
  with d ds takeWhile_digits[OF assms(1,3)] assms(2)
  show "strtol (ds @ rest) = (clamp_long (int (digits_val ds)), rest)"
    and "strtol (CHR ''-'' # ds @ rest) = (clamp_long (- int (digits_val ds)), rest)"
    by (simp_all add: strtol_def Let_def)
qed

text \<open>Reading back a printed number.\<close>

lemma strtol_show_int:
  assumes "- LONG_MAX - 1 \<le> i" and "i \<le> LONG_MAX" and "rest = [] \<or> \<not> is_digit (hd rest)"
  shows "strtol (show_int i @ rest) = (i, rest)"
  using assms strtol_digits[OF show_nat_digits show_nat_ne assms(3)]
  by (auto simp: show_int_def digits_val_show_nat clamp_long_def)

lemma length_show_nat: "n < 10 ^ Suc k \<Longrightarrow> length (show_nat n) \<le> Suc k"
proof (induction k arbitrary: n)
  case 0
  then show ?case by (subst show_nat.simps) simp
next
  case (Suc k)
  then have "n div 10 < 10 ^ Suc k" by auto
  with Suc.IH show ?case by (subst show_nat.simps) auto
qed

lemma length_show_int:
  assumes "- 2147483648 \<le> i" and "i \<le> 2147483647"
  shows "length (show_int i) \<le> 11"
proof -
  have "nat i < 10 ^ Suc 9" "nat (- i) < 10 ^ Suc 9" using assms by auto
  then show ?thesis
    using length_show_nat[of "nat i" 9] length_show_nat[of "nat (- i)" 9]
    by (auto simp: show_int_def)
qed

lemma show_nat_char: "c \<in> set (show_nat n) \<Longrightarrow> is_digit c"
  using show_nat_digits[of n] by (simp add: list_all_iff)

section \<open>Searching and splitting\<close>

fun is_prefix :: "string \<Rightarrow> string \<Rightarrow> bool" where
  "is_prefix [] _ = True"
| "is_prefix (p # ps) [] = False"
| "is_prefix (p # ps) (x # xs) = (p = x \<and> is_prefix ps xs)"

lemma is_prefix_iff: "is_prefix p s \<longleftrightarrow> (\<exists>r. s = p @ r)"
  by (induction p s rule: is_prefix.induct) auto

text \<open>\<open>strstr(s, t) != NULL\<close>\<close>

fun strstr :: "string \<Rightarrow> string \<Rightarrow> bool" where
  "strstr [] t = (t = [])"
| "strstr (c # s) t = (is_prefix t (c # s) \<or> strstr s t)"

lemma strstr_iff: "strstr s t \<longleftrightarrow> (\<exists>u v. s = u @ t @ v)"
proof (induction s)
  case Nil
  then show ?case by simp
next
  case (Cons c s)
  have "(\<exists>u v. c # s = u @ t @ v) \<longleftrightarrow> is_prefix t (c # s) \<or> (\<exists>u v. s = u @ t @ v)"
  proof
    assume "\<exists>u v. c # s = u @ t @ v"
    then obtain u v where "c # s = u @ t @ v" by blast
    then show "is_prefix t (c # s) \<or> (\<exists>u v. s = u @ t @ v)"
      by (cases u) (auto simp: is_prefix_iff)
  next
    assume "is_prefix t (c # s) \<or> (\<exists>u v. s = u @ t @ v)"
    then show "\<exists>u v. c # s = u @ t @ v"
      by (metis append_Cons append_Nil is_prefix_iff)
  qed
  with Cons show ?case by simp
qed

text \<open>The pieces \<open>strtok(s, "d")\<close> returns: the maximal runs without the delimiter, none empty.\<close>

fun strtok :: "char \<Rightarrow> string \<Rightarrow> string \<Rightarrow> string list" where
  "strtok d acc [] = (if acc = [] then [] else [acc])"
| "strtok d acc (c # s) =
     (if c = d then (if acc = [] then strtok d [] s else acc # strtok d [] s)
      else strtok d (acc @ [c]) s)"

lemma strtok_pieces: "d \<notin> set acc \<Longrightarrow> p \<in> set (strtok d acc s) \<Longrightarrow> p \<noteq> [] \<and> d \<notin> set p"
  by (induction d acc s rule: strtok.induct) (auto split: if_splits)

text \<open>\<open>snprintf(buf, n, ...)\<close> and \<open>strncpy(buf, s, n - 1); buf[n - 1] = 0\<close>\<close>

definition cut :: "nat \<Rightarrow> string \<Rightarrow> string" where
  "cut n s = take (n - 1) s"

lemma cut_id: "length s < n \<Longrightarrow> cut n s = s"
  by (simp add: cut_def)

lemma length_cut: "0 < n \<Longrightarrow> length (cut n s) < n"
  by (auto simp: cut_def)

end
