(* ===== verification/Sh_Jobs.thy ===== *)
theory Sh_Jobs
  imports CLib "HOL-Library.Multiset"
begin

text \<open>
  The job table of the shell, \<open>c-shell/src/jobs.c\<close>, with the \<open>jobb\<close> record of \<open>include/shell.h\<close>
  and the listing of \<open>activites.c\<close>.  The table is the used prefix of \<open>jobs[256]\<close> (its length is
  \<open>job_count\<close>), a job's processes the used prefix of \<open>pids[16]\<close> and \<open>names[16]\<close> (its length is
  \<open>nproc\<close>).  What the kernel answers to \<open>waitpid\<close> is an argument; what the shell asks it to do
  is recorded in order in \<open>trace\<close>.
\<close>

section \<open>State\<close>

definition maxjobs :: nat where "maxjobs = 256"
definition maxjob_process :: nat where "maxjob_process = 16"
definition max_pending :: nat where "max_pending = 64"

datatype jobstate = job_running | job_stopped

record job =
  job_number :: int
  pgid :: int
  procs :: "(int \<times> string) list"
  command :: string
  jstate :: jobstate
  background :: bool
  active :: bool

text \<open>Effects outside the shell, in program order.\<close>

datatype sysev =
    Print string
  | Eprint string
  | Kill int int
  | Tcsetpgrp int
  | Setpgid int int
  | Fork nat int
  | Alarm int

record shell =
  jobs :: "job list"
  next_job :: int
  fg_running :: bool
  pending_msg :: "string list"
  trace :: "sysev list"

definition emit :: "sysev \<Rightarrow> 'a shell_scheme \<Rightarrow> 'a shell_scheme" where
  "emit e s = s\<lparr>trace := trace s @ [e]\<rparr>"

definition printf :: "string \<Rightarrow> 'a shell_scheme \<Rightarrow> 'a shell_scheme" where
  "printf m s = emit (Print m) s"

lemma emit_fields [simp]:
  "jobs (emit e s) = jobs s" "next_job (emit e s) = next_job s"
  "fg_running (emit e s) = fg_running s" "pending_msg (emit e s) = pending_msg s"
  "trace (emit e s) = trace s @ [e]"
  by (simp_all add: emit_def)

lemma printf_fields [simp]:
  "jobs (printf m s) = jobs s" "next_job (printf m s) = next_job s"
  "fg_running (printf m s) = fg_running s" "pending_msg (printf m s) = pending_msg s"
  "trace (printf m s) = trace s @ [Print m]"
  by (simp_all add: printf_def)

datatype wstatus = WExited int | WSignaled int | WStopped int | WContinued

section \<open>Operations\<close>

definition exit_message :: "string \<Rightarrow> int \<Rightarrow> bool \<Rightarrow> string" where
  "exit_message cmdname pid normal =
     cmdname @ '' with pid '' @ show_int pid @ '' exited '' @
     (if normal then ''normally'' else ''abnormally'') @ nl"

text \<open>
  \<open>snprintf\<close> fills \<open>buffer[300]\<close> and returns the untruncated length, which \<open>memcpy\<close> and \<open>write\<close>
  then read from the buffer.
\<close>

definition queue_or_print :: "string \<Rightarrow> int \<Rightarrow> bool \<Rightarrow> 'a shell_scheme \<Rightarrow> 'a shell_scheme res" where
  "queue_or_print cmdname pid normal s =
     (let m = exit_message cmdname pid normal in
      bnd (guard (length m < 300) ''buffer overread'') (\<lambda>_.
        if fg_running s then
          Ok (if length (pending_msg s) < max_pending then s\<lparr>pending_msg := pending_msg s @ [m]\<rparr> else s)
        else Ok (printf m s)))"

definition flush_pending_bg_msg :: "'a shell_scheme \<Rightarrow> 'a shell_scheme" where
  "flush_pending_bg_msg s =
     (let ms = pending_msg s in foldl (\<lambda>s m. printf m s) (s\<lparr>pending_msg := []\<rparr>) ms)"

text \<open>A process list is given as the arrays \<open>pids\<close> and \<open>names\<close>; a NULL name is \<open>None\<close>.\<close>

definition register_job ::
  "int \<Rightarrow> int list \<Rightarrow> string option list \<Rightarrow> string \<Rightarrow> bool \<Rightarrow> 'a shell_scheme \<Rightarrow>
   (int \<times> 'a shell_scheme) res" where
  "register_job pg pids names cmd bg s =
     bnd (sadd32 (next_job s) 1) (\<lambda>next.
     bnd (guard (length (jobs s) < maxjobs) ''jobs overflow'') (\<lambda>_.
     bnd (guard (length pids \<le> maxjob_process) ''pids overflow'') (\<lambda>_.
     bnd (guard (list_all (\<lambda>n. n \<noteq> None) names) ''null name'') (\<lambda>_.
       Ok (next_job s,
         s\<lparr>next_job := next,
           jobs := jobs s @
             [\<lparr>job_number = next_job s, pgid = pg,
               procs = zip pids (map (\<lambda>n. cut 256 (the n)) names),
               command = cut 512 cmd, jstate = job_running, background = bg, active = True\<rparr>]\<rparr>)))))"

text \<open>The first index in the table with the property, as the loops find it.\<close>

fun index_of :: "('a \<Rightarrow> bool) \<Rightarrow> 'a list \<Rightarrow> nat option" where
  "index_of P [] = None"
| "index_of P (x # xs) = (if P x then Some 0 else map_option Suc (index_of P xs))"

definition find_job_by_number :: "int \<Rightarrow> 'a shell_scheme \<Rightarrow> nat option" where
  "find_job_by_number num s = index_of (\<lambda>j. active j \<and> job_number j = num) (jobs s)"

definition find_job_containing_pid :: "int \<Rightarrow> 'a shell_scheme \<Rightarrow> nat option" where
  "find_job_containing_pid pid s =
     index_of (\<lambda>j. active j \<and> list_ex (\<lambda>(p, n). p = pid) (procs j)) (jobs s)"

definition upd_job :: "nat \<Rightarrow> (job \<Rightarrow> job) \<Rightarrow> 'a shell_scheme \<Rightarrow> 'a shell_scheme" where
  "upd_job i f s = s\<lparr>jobs := (jobs s)[i := f (jobs s ! i)]\<rparr>"

text \<open>
  The process is replaced by the last one and the count decreased.  For the last process itself
  \<open>strcpy\<close> copies \<open>names[nproc - 1]\<close> onto itself, and C gives no meaning to a \<open>strcpy\<close> between
  overlapping objects.
\<close>

definition drop_proc :: "int \<Rightarrow> job \<Rightarrow> job res" where
  "drop_proc pid j =
     (case index_of (\<lambda>(p, n). p = pid) (procs j) of
        None \<Rightarrow> Ok j
      | Some k \<Rightarrow>
          bnd (guard (k \<noteq> length (procs j) - 1) ''strcpy overlap'') (\<lambda>_.
          Ok (j\<lparr>procs := butlast ((procs j)[k := last (procs j)])\<rparr>)))"

definition remove_pid_from_job :: "int \<Rightarrow> 'a shell_scheme \<Rightarrow> 'a shell_scheme res" where
  "remove_pid_from_job pid s =
     (case find_job_containing_pid pid s of
        None \<Rightarrow> Ok s
      | Some i \<Rightarrow>
          bnd (drop_proc pid (jobs s ! i)) (\<lambda>j.
          Ok (upd_job i (\<lambda>_. if procs j = [] then j\<lparr>active := False\<rparr> else j) s)))"

definition exited_or_signaled :: "wstatus \<Rightarrow> bool" where
  "exited_or_signaled st = (case st of WExited _ \<Rightarrow> True | WSignaled _ \<Rightarrow> True | _ \<Rightarrow> False)"

definition is_exited :: "wstatus \<Rightarrow> bool" where
  "is_exited st = (case st of WExited _ \<Rightarrow> True | _ \<Rightarrow> False)"

text \<open>
  \<open>reap_finished\<close> over the answers \<open>waitpid(-1, _, WNOHANG)\<close> gives until it has none; it is also
  the body of the SIGCHLD handler.  The name printed is \<open>names[0]\<close> of the job.
\<close>

fun reap_finished :: "(int \<times> wstatus) list \<Rightarrow> 'a shell_scheme \<Rightarrow> 'a shell_scheme res" where
  "reap_finished [] s = Ok s"
| "reap_finished ((pid, status) # ws) s =
     (if exited_or_signaled status then
        (case find_job_containing_pid pid s of
           None \<Rightarrow> reap_finished ws s
         | Some i \<Rightarrow>
             bnd (if background (jobs s ! i)
                  then queue_or_print (snd (hd (procs (jobs s ! i)))) pid (is_exited status) s
                  else Ok s) (\<lambda>s.
             bnd (remove_pid_from_job pid s) (\<lambda>s. reap_finished ws s)))
      else reap_finished ws s)"

definition SIGHUP :: int where "SIGHUP = 1"
definition SIGTERM :: int where "SIGTERM = 15"
definition SIGCONT :: int where "SIGCONT = 18"

definition send_sighup_to_all_jobs :: "'a shell_scheme \<Rightarrow> 'a shell_scheme" where
  "send_sighup_to_all_jobs s =
     foldl (\<lambda>s j. if active j then emit (Kill (- pgid j) SIGHUP) s else s) s (jobs s)"

text \<open>\<open>activites.c\<close>\<close>

definition job_lines :: "job \<Rightarrow> string list" where
  "job_lines j =
     (''['' @ show_int (job_number j) @ ''] pgid '' @ show_int (pgid j) @ nl) #
     map (\<lambda>(p, n). ''  '' @ show_int p @ '' '' @ n @ '' '' @
       (if jstate j = job_stopped then ''Stopped'' else ''Running'') @ nl) (procs j)"

definition activities :: "(int \<times> wstatus) list \<Rightarrow> 'a shell_scheme \<Rightarrow> 'a shell_scheme res" where
  "activities ws s =
     bnd (reap_finished ws s) (\<lambda>s.
       Ok (foldl (\<lambda>s m. printf m s) s (concat (map job_lines (filter active (jobs s))))))"

section \<open>The table's invariant\<close>

definition int32 :: "int \<Rightarrow> bool" where
  "int32 x \<longleftrightarrow> - 2147483648 \<le> x \<and> x \<le> 2147483647"

definition job_ok :: "job \<Rightarrow> bool" where
  "job_ok j \<longleftrightarrow>
     (active j \<longrightarrow> procs j \<noteq> []) \<and> length (procs j) \<le> maxjob_process \<and>
     list_all (\<lambda>(p, n). int32 p \<and> length n < 256) (procs j)"

definition jobs_ok :: "'a shell_scheme \<Rightarrow> bool" where
  "jobs_ok s \<longleftrightarrow>
     list_all job_ok (jobs s) \<and> length (jobs s) \<le> maxjobs \<and>
     distinct (map job_number (jobs s)) \<and>
     list_all (\<lambda>j. job_number j < next_job s) (jobs s) \<and>
     length (pending_msg s) \<le> max_pending"

lemma index_of_Some:
  "index_of P xs = Some i \<Longrightarrow> i < length xs \<and> P (xs ! i) \<and> (\<forall>j < i. \<not> P (xs ! j))"
proof (induction xs arbitrary: i)
  case Nil
  then show ?case by simp
next
  case (Cons x xs)
  then show ?case by (auto simp: less_Suc_eq_0_disj split: if_splits)
qed

lemma index_of_None: "index_of P xs = None \<longleftrightarrow> (\<forall>x \<in> set xs. \<not> P x)"
  by (induction xs) auto

lemma index_of_append_last:
  "\<forall>x \<in> set xs. \<not> P x \<Longrightarrow> P y \<Longrightarrow> index_of P (xs @ [y]) = Some (length xs)"
  by (induction xs) auto

lemma upd_job_fields [simp]:
  "next_job (upd_job i f s) = next_job s" "pending_msg (upd_job i f s) = pending_msg s"
  "fg_running (upd_job i f s) = fg_running s" "trace (upd_job i f s) = trace s"
  "jobs (upd_job i f s) = (jobs s)[i := f (jobs s ! i)]"
  by (simp_all add: upd_job_def)

text \<open>Changing one job without renumbering it keeps the table.\<close>

lemma jobs_ok_upd_job:
  assumes "jobs_ok s" and "i < length (jobs s)" and "job_ok (f (jobs s ! i))"
    and "job_number (f (jobs s ! i)) = job_number (jobs s ! i)"
  shows "jobs_ok (upd_job i f s)"
proof -
  have "map job_number ((jobs s)[i := f (jobs s ! i)]) = map job_number (jobs s)"
    using assms(2,4) by (simp add: map_update list_update_same_conv)
  moreover have "list_all (\<lambda>j. job_number j < next_job s) ((jobs s)[i := f (jobs s ! i)])"
    using assms by (auto simp: jobs_ok_def list_all_length nth_list_update)
  moreover have "list_all job_ok ((jobs s)[i := f (jobs s ! i)])"
    using assms by (auto simp: jobs_ok_def list_all_length nth_list_update)
  ultimately show ?thesis using assms(1) by (simp add: jobs_ok_def)
qed

section \<open>Removing a process\<close>

definition live_pids :: "'a shell_scheme \<Rightarrow> int list" where
  "live_pids s = concat (map (\<lambda>j. map fst (procs j)) (filter active (jobs s)))"

lemma mset_swap_remove:
  assumes "k < length xs"
  shows "mset (butlast (xs[k := last xs])) = mset xs - {#xs ! k#}"
proof -
  let ?ys = "xs[k := last xs]"
  have "?ys \<noteq> []" using assms by auto
  have "last ?ys = last xs" using assms last_list_update[of xs k "last xs"] by fastforce
  moreover have "mset ?ys = add_mset (last ?ys) (mset (butlast ?ys))"
    using append_butlast_last_id[OF \<open>?ys \<noteq> []\<close>] by (metis add_mset_add_single mset_append mset_single_iff mset.simps(1) mset.simps(2))
  moreover have "mset ?ys = add_mset (last xs) (mset xs - {#xs ! k#})"
    using assms by (simp add: mset_update)
  ultimately show ?thesis by simp
qed

lemma index_of_butlast:
  assumes "index_of P xs = Some k"
  shows "k = length xs - 1 \<longleftrightarrow> (\<forall>x \<in> set (butlast xs). \<not> P x)"
proof -
  from index_of_Some[OF assms] have k: "k < length xs" "P (xs ! k)" "\<forall>j < k. \<not> P (xs ! j)" by auto
  show ?thesis
  proof
    assume "k = length xs - 1"
    with k(3) show "\<forall>x \<in> set (butlast xs). \<not> P x" by (auto simp: in_set_conv_nth nth_butlast)
  next
    assume a: "\<forall>x \<in> set (butlast xs). \<not> P x"
    show "k = length xs - 1"
    proof (rule ccontr)
      assume "k \<noteq> length xs - 1"
      with k(1) have "k < length (butlast xs)" by simp
      then have "xs ! k \<in> set (butlast xs)" by (metis nth_butlast nth_mem)
      with a k(2) show False by blast
    qed
  qed
qed

text \<open>The pid stands in the last place of its job's list, and nowhere before.\<close>

definition last_listed :: "int \<Rightarrow> job \<Rightarrow> bool" where
  "last_listed pid j \<longleftrightarrow>
     pid \<in> set (map fst (procs j)) \<and> pid \<notin> set (map fst (butlast (procs j)))"

lemma drop_proc_last:
  assumes "last_listed pid j"
  shows "drop_proc pid j = Undef ''strcpy overlap''"
proof -
  let ?P = "\<lambda>(p, n :: string). p = pid"
  from assms have "\<exists>x \<in> set (procs j). ?P x" by (auto simp: last_listed_def)
  then obtain k where k: "index_of ?P (procs j) = Some k"
    using index_of_None[of ?P "procs j"] by (cases "index_of ?P (procs j)") auto
  have "\<forall>x \<in> set (butlast (procs j)). \<not> ?P x" using assms by (force simp: last_listed_def)
  with index_of_butlast[OF k] show ?thesis using k by (simp add: drop_proc_def)
qed

lemma drop_proc_ok:
  assumes "\<not> last_listed pid j"
  obtains k where "drop_proc pid j = Ok k"
    and "mset (map fst (procs k)) = mset (map fst (procs j)) - {#pid#}"
    and "mset (procs k) \<subseteq># mset (procs j)" and "procs k = [] \<longleftrightarrow> procs j = []"
    and "active k = active j" and "job_number k = job_number j"
proof (cases "index_of (\<lambda>(p, n). p = pid) (procs j)")
  case None
  then have "pid \<notin> set (map fst (procs j))" by (auto simp: index_of_None)
  then have "pid \<notin># mset (map fst (procs j))" by (simp only: set_mset_mset not_False_eq_True)
  with None show ?thesis by (intro that[of j]) (simp_all add: drop_proc_def diff_single_trivial)
next
  case (Some k)
  from index_of_Some[OF Some] have k: "k < length (procs j)" "fst (procs j ! k) = pid" by auto
  then have "pid \<in> set (map fst (procs j))" by (metis length_map nth_map nth_mem)
  with assms have "\<exists>x \<in> set (butlast (procs j)). fst x = pid" by (auto simp: last_listed_def)
  with index_of_butlast[OF Some] have n: "k \<noteq> length (procs j) - 1" by force
  let ?j = "j\<lparr>procs := butlast ((procs j)[k := last (procs j)])\<rparr>"
  have ne: "procs ?j \<noteq> []" using k(1) n by (cases "procs j" rule: rev_cases) (auto simp: butlast_list_update)
  show ?thesis
  proof (rule that[of ?j])
    show "drop_proc pid j = Ok ?j" using Some n by (simp add: drop_proc_def)
    show "mset (map fst (procs ?j)) = mset (map fst (procs j)) - {#pid#}"
      using k by (simp add: mset_swap_remove image_mset_Diff nth_mem_mset)
    show "mset (procs ?j) \<subseteq># mset (procs j)" using k(1) by (simp add: mset_swap_remove)
    show "procs ?j = [] \<longleftrightarrow> procs j = []" using ne k(1) by auto
  qed simp_all
qed

lemma drop_proc_Ok_iff: "(\<exists>k. drop_proc pid j = Ok k) \<longleftrightarrow> \<not> last_listed pid j"
  using drop_proc_last[of pid j] by (metis drop_proc_ok res.distinct(3))

lemma job_ok_drop_proc:
  assumes "job_ok j" and "drop_proc pid j = Ok k"
  shows "job_ok k" and "procs k = [] \<longleftrightarrow> procs j = []"
    and "active k = active j" and "job_number k = job_number j"
proof -
  have "\<not> last_listed pid j" using assms(2) drop_proc_Ok_iff by blast
  from drop_proc_ok[OF this] assms(2) have k: "mset (procs k) \<subseteq># mset (procs j)"
    "procs k = [] \<longleftrightarrow> procs j = []" "active k = active j" "job_number k = job_number j"
    by auto
  then have "set (procs k) \<subseteq> set (procs j)" "length (procs k) \<le> length (procs j)"
    by (metis set_mset_mono set_mset_mset, metis size_mset size_mset_mono)
  with assms(1) k show "job_ok k" by (auto simp: job_ok_def list_all_iff)
  from k show "procs k = [] \<longleftrightarrow> procs j = []" "active k = active j" "job_number k = job_number j"
    by simp_all
qed

lemma mset_concat_filter_update:
  assumes "i < length xs" and "P (xs ! i)"
  shows "mset (concat (map g (filter P (xs[i := y])))) =
    mset (concat (map g (filter P xs))) - mset (g (xs ! i)) + (if P y then mset (g y) else {#})"
proof -
  have "xs = take i xs @ xs ! i # drop (Suc i) xs" using assms(1) by (rule id_take_nth_drop)
  then have "mset (concat (map g (filter P xs))) =
      mset (concat (map g (filter P (take i xs)))) + mset (g (xs ! i)) +
      mset (concat (map g (filter P (drop (Suc i) xs))))"
    using assms(2) by (metis (no_types, lifting) concat.simps(2) concat_append filter.simps(2)
        filter_append list.simps(9) map_append mset_append union_assoc)
  then show ?thesis
    using assms(1) by (simp add: upd_conv_take_nth_drop)
qed

lemma mset_in_concat: "x \<in> set ys \<Longrightarrow> mset (g x) \<subseteq># mset (concat (map g ys))"
  by (induction ys) (auto intro: subset_mset.order_trans)

text \<open>The process whose removal is undefined: the last one listed in the job that holds it.\<close>

definition last_of_job :: "int \<Rightarrow> 'a shell_scheme \<Rightarrow> bool" where
  "last_of_job pid s =
     (case find_job_containing_pid pid s of None \<Rightarrow> False | Some i \<Rightarrow> last_listed pid (jobs s ! i))"

lemma remove_last_of_job:
  "last_of_job pid s \<Longrightarrow> remove_pid_from_job pid s = Undef ''strcpy overlap''"
  by (auto simp: last_of_job_def remove_pid_from_job_def drop_proc_last split: option.splits)

lemma live_pids_remove:
  assumes "remove_pid_from_job pid s = Ok t"
  shows "mset (live_pids t) = mset (live_pids s) - {#pid#}"
proof (cases "find_job_containing_pid pid s")
  case None
  then have "pid \<notin> set (live_pids s)"
    by (force simp: find_job_containing_pid_def index_of_None live_pids_def list_ex_iff)
  then have "pid \<notin># mset (live_pids s)" by simp
  with None assms show ?thesis by (simp add: remove_pid_from_job_def diff_single_trivial)
next
  case (Some i)
  let ?j = "jobs s ! i"
  from index_of_Some[OF Some[unfolded find_job_containing_pid_def]]
  have i: "i < length (jobs s)" "active ?j" "pid \<in># mset (map fst (procs ?j))"
    by (force simp: list_ex_iff)+
  obtain k where d: "drop_proc pid ?j = Ok k"
    and t: "t = upd_job i (\<lambda>_. if procs k = [] then k\<lparr>active := False\<rparr> else k) s"
    using assms Some by (auto simp: remove_pid_from_job_def bnd_eq_Ok)
  have "\<not> last_listed pid ?j" using d drop_proc_Ok_iff by blast
  from drop_proc_ok[OF this] d have k: "active k = active ?j"
    "mset (map fst (procs k)) = mset (map fst (procs ?j)) - {#pid#}" by auto
  let ?k = "if procs k = [] then k\<lparr>active := False\<rparr> else k"
  have "mset (live_pids t) =
      mset (live_pids s) - mset (map fst (procs ?j)) + mset (map fst (procs k))"
    using mset_concat_filter_update[OF i(1), of active "\<lambda>j. map fst (procs j)" ?k] i k(1)
    by (auto simp: live_pids_def t)
  also have "\<dots> = mset (live_pids s) - {#pid#}"
  proof -
    have "mset (map fst (procs ?j)) \<subseteq># mset (live_pids s)"
      unfolding live_pids_def by (rule mset_in_concat) (use i in simp)
    then obtain M where M: "mset (live_pids s) = mset (map fst (procs ?j)) + M"
      by (auto simp: mset_subset_eq_exists_conv)
    obtain N where N: "mset (map fst (procs ?j)) = add_mset pid N"
      using i(3) by (blast dest: multi_member_split)
    show ?thesis unfolding k(2) M N by simp
  qed
  finally show ?thesis .
qed

section \<open>Each operation keeps the table\<close>

lemma length_exit_message:
  assumes "length n < 256" and "int32 pid"
  shows "length (exit_message n pid b) < 300"
  using assms length_show_int[of pid] by (simp add: exit_message_def nl_def int32_def)

lemma queue_or_print_ok:
  assumes "jobs_ok s" and "length n < 256" and "int32 pid"
  obtains s' where "queue_or_print n pid b s = Ok s'" and "jobs_ok s'" and "jobs s' = jobs s"
    and "next_job s' = next_job s"
proof (cases "fg_running s")
  case True
  with assms(1) length_exit_message[OF assms(2,3), of b] show ?thesis
    by (intro that[of "if length (pending_msg s) < max_pending
          then s\<lparr>pending_msg := pending_msg s @ [exit_message n pid b]\<rparr> else s"])
      (auto simp: queue_or_print_def jobs_ok_def Let_def)
next
  case False
  with assms(1) length_exit_message[OF assms(2,3), of b] show ?thesis
    by (intro that[of "printf (exit_message n pid b) s"])
      (auto simp: queue_or_print_def jobs_ok_def Let_def)
qed

lemma find_by_pid_index:
  "find_job_containing_pid pid s = Some i \<Longrightarrow>
   i < length (jobs s) \<and> active (jobs s ! i) \<and> pid \<in> set (map fst (procs (jobs s ! i)))"
  by (force simp: find_job_containing_pid_def list_ex_iff dest!: index_of_Some)

lemma remove_pid_Ok:
  assumes "jobs_ok s" and "remove_pid_from_job pid s = Ok t"
  shows "jobs_ok t" and "next_job t = next_job s" and "map active (jobs t) = map active (jobs s)"
proof -
  have "jobs_ok t \<and> next_job t = next_job s \<and> map active (jobs t) = map active (jobs s)"
  proof (cases "find_job_containing_pid pid s")
    case None
    with assms show ?thesis by (simp add: remove_pid_from_job_def)
  next
    case (Some i)
    from find_by_pid_index[OF Some] have i: "i < length (jobs s)" "procs (jobs s ! i) \<noteq> []" by auto
    with assms(1) have j: "job_ok (jobs s ! i)" by (simp add: jobs_ok_def list_all_length)
    obtain k where d: "drop_proc pid (jobs s ! i) = Ok k"
      and t: "t = upd_job i (\<lambda>_. if procs k = [] then k\<lparr>active := False\<rparr> else k) s"
      using assms(2) Some by (auto simp: remove_pid_from_job_def bnd_eq_Ok)
    note k = job_ok_drop_proc[OF j d]
    have t: "t = upd_job i (\<lambda>_. k) s" using t k(2) i(2) by simp
    have "jobs_ok t" unfolding t by (rule jobs_ok_upd_job[OF assms(1) i(1)]) (use k in simp_all)
    moreover have "map active (jobs t) = map active (jobs s)"
      using i(1) k(3) by (simp add: t map_update list_update_same_conv)
    ultimately show ?thesis using t by simp
  qed
  then show "jobs_ok t" "next_job t = next_job s" "map active (jobs t) = map active (jobs s)"
    by simp_all
qed

lemma remove_pid_ok:
  assumes "jobs_ok s" and "\<not> last_of_job pid s"
  obtains t where "remove_pid_from_job pid s = Ok t"
proof (cases "find_job_containing_pid pid s")
  case None
  then show ?thesis by (intro that[of s]) (simp add: remove_pid_from_job_def)
next
  case (Some i)
  with assms(2) have "\<not> last_listed pid (jobs s ! i)" by (simp add: last_of_job_def)
  then obtain k where "drop_proc pid (jobs s ! i) = Ok k" using drop_proc_Ok_iff by blast
  then show ?thesis using Some that by (simp add: remove_pid_from_job_def)
qed

definition reaped :: "(int \<times> wstatus) list \<Rightarrow> int list" where
  "reaped ws = map fst (filter (\<lambda>w. exited_or_signaled (snd w)) ws)"

lemma reap_append: "reap_finished (u @ v) s = bnd (reap_finished u s) (reap_finished v)"
proof (induction u s rule: reap_finished.induct)
  case (2 pid status ws s)
  then show ?case by (simp add: bnd_assoc cong: bnd_cong split: option.split)
qed simp

text \<open>One answer: undefined for the last process of a job, else the process is gone.\<close>

lemma reap_one:
  assumes "jobs_ok s" and "int32 (fst w)"
  shows "if exited_or_signaled (snd w) \<and> last_of_job (fst w) s
    then reap_finished [w] s = Undef ''strcpy overlap''
    else \<exists>t. reap_finished [w] s = Ok t \<and> jobs_ok t \<and> next_job t = next_job s \<and>
      map active (jobs t) = map active (jobs s) \<and>
      mset (live_pids t) = mset (live_pids s) - mset (reaped [w])"
proof -
  obtain pid st where w: "w = (pid, st)" by force
  show ?thesis
  proof (cases "exited_or_signaled st \<and> find_job_containing_pid pid s \<noteq> None")
    case False
    moreover have "mset (live_pids s) - {#pid#} = mset (live_pids s)"
      if "find_job_containing_pid pid s = None"
      using that live_pids_remove[of pid s s] by (simp add: remove_pid_from_job_def)
    ultimately show ?thesis
      using assms(1) w by (auto simp: reaped_def last_of_job_def)
  next
    case True
    then obtain i where i: "find_job_containing_pid pid s = Some i" and st: "exited_or_signaled st"
      by auto
    let ?j = "jobs s ! i"
    from find_by_pid_index[OF i] have ix: "i < length (jobs s)" "procs ?j \<noteq> []" by auto
    with assms(1) have "job_ok ?j" by (simp add: jobs_ok_def list_all_length)
    with ix(2) have n: "length (snd (hd (procs ?j))) < 256"
      by (cases "procs ?j") (auto simp: job_ok_def split: prod.splits)
    obtain t where t: "(if background ?j then queue_or_print (snd (hd (procs ?j))) pid (is_exited st) s
        else Ok s) = Ok t" "jobs_ok t" "jobs t = jobs s" "next_job t = next_job s"
    proof (cases "background ?j")
      case True
      have "int32 pid" using assms(2) w by simp
      from queue_or_print_ok[OF assms(1) n this, where b = "is_exited st"] that True
      show ?thesis by auto
    next
      case False
      with that assms(1) show ?thesis by simp
    qed
    have "reap_finished [] = (Ok :: 'a shell_scheme \<Rightarrow> 'a shell_scheme res)" by (rule ext) simp
    then have eq: "reap_finished [w] s = remove_pid_from_job pid t"
      using w st i t(1) by (simp del: reap_finished.simps(1))
    have same: "last_of_job pid t = last_of_job pid s" "live_pids t = live_pids s"
      using t(3) by (simp_all add: last_of_job_def find_job_containing_pid_def live_pids_def split: option.split)
    show ?thesis
    proof (cases "last_of_job pid s")
      case True
      with eq same(1) st w show ?thesis by (simp add: remove_last_of_job)
    next
      case False
      with same(1) obtain u where u: "remove_pid_from_job pid t = Ok u"
        using remove_pid_ok[OF t(2)] by blast
      from remove_pid_Ok[OF t(2) u] live_pids_remove[OF u] eq u False t(3,4) same(2) st w
      show ?thesis by (simp add: reaped_def del: mset_map)
    qed
  qed
qed

text \<open>The answers up to the first one whose removal is undefined.\<close>

definition fatal_answer :: "(int \<times> wstatus) list \<Rightarrow> 'a shell_scheme \<Rightarrow> bool" where
  "fatal_answer ws s \<longleftrightarrow>
     (\<exists>u pid st v t. ws = u @ (pid, st) # v \<and> exited_or_signaled st \<and>
        reap_finished u s = Ok t \<and> last_of_job pid t)"

lemma fatal_answer_Cons:
  "fatal_answer (w # ws) s \<longleftrightarrow>
     exited_or_signaled (snd w) \<and> last_of_job (fst w) s \<or>
     (\<exists>t. reap_finished [w] s = Ok t \<and> fatal_answer ws t)"
proof
  assume "fatal_answer (w # ws) s"
  then obtain u pid st v t where a: "w # ws = u @ (pid, st) # v" "exited_or_signaled st"
      "reap_finished u s = Ok t" "last_of_job pid t"
    by (auto simp: fatal_answer_def)
  show "exited_or_signaled (snd w) \<and> last_of_job (fst w) s \<or>
     (\<exists>t. reap_finished [w] s = Ok t \<and> fatal_answer ws t)"
  proof (cases u)
    case Nil
    with a show ?thesis by auto
  next
    case (Cons x u')
    with a(1,3) have "bnd (reap_finished [w] s) (reap_finished u') = Ok t"
      using reap_append[of "[w]" u' s] by (simp del: reap_finished.simps)
    then obtain y where "reap_finished [w] s = Ok y" "reap_finished u' y = Ok t" by (rule bnd_OkE)
    with a Cons show ?thesis by (auto simp: fatal_answer_def simp del: reap_finished.simps)
  qed
next
  assume b: "exited_or_signaled (snd w) \<and> last_of_job (fst w) s \<or>
     (\<exists>t. reap_finished [w] s = Ok t \<and> fatal_answer ws t)"
  then show "fatal_answer (w # ws) s"
  proof
    assume "exited_or_signaled (snd w) \<and> last_of_job (fst w) s"
    then show ?thesis
      unfolding fatal_answer_def
      by (intro exI[of _ "[]"] exI[of _ "fst w"] exI[of _ "snd w"] exI[of _ ws] exI[of _ s]) simp
  next
    assume "\<exists>t. reap_finished [w] s = Ok t \<and> fatal_answer ws t"
    then obtain t u pid st v x where a: "reap_finished [w] s = Ok t" "ws = u @ (pid, st) # v"
        "exited_or_signaled st" "reap_finished u t = Ok x" "last_of_job pid x"
      by (auto simp: fatal_answer_def)
    then have "reap_finished (w # u) s = Ok x"
      using reap_append[of "[w]" u s] by (simp del: reap_finished.simps)
    with a show ?thesis
      unfolding fatal_answer_def by (intro exI[of _ "w # u"]) auto
  qed
qed

lemma diff_reaped_Cons:
  "A - mset (reaped [w]) - mset (reaped ws) = A - mset (reaped (w # ws))"
  by (simp add: reaped_def)

lemma reap_finished_spec:
  "jobs_ok s \<Longrightarrow> list_all (\<lambda>w. int32 (fst w)) ws \<Longrightarrow>
   if fatal_answer ws s then reap_finished ws s = Undef ''strcpy overlap''
   else \<exists>s'. reap_finished ws s = Ok s' \<and> jobs_ok s' \<and> next_job s' = next_job s \<and>
     map active (jobs s') = map active (jobs s) \<and>
     mset (live_pids s') = mset (live_pids s) - mset (reaped ws)"
proof (induction ws arbitrary: s)
  case Nil
  then show ?case by (simp add: reaped_def fatal_answer_def)
next
  case (Cons w ws)
  have w: "int32 (fst w)" and ws: "list_all (\<lambda>w. int32 (fst w)) ws" using Cons.prems(2) by simp_all
  note app = reap_append[of "[w]" ws s, simplified append_Cons append_Nil]
  show ?case
  proof (cases "exited_or_signaled (snd w) \<and> last_of_job (fst w) s")
    case True
    with reap_one[OF Cons.prems(1) w] app show ?thesis
      by (simp add: fatal_answer_Cons del: reap_finished.simps)
  next
    case False
    with reap_one[OF Cons.prems(1) w] obtain t where t: "reap_finished [w] s = Ok t" "jobs_ok t"
        "next_job t = next_job s" "map active (jobs t) = map active (jobs s)"
        "mset (live_pids t) = mset (live_pids s) - mset (reaped [w])"
      by (auto simp del: reap_finished.simps)
    have r: "reap_finished (w # ws) s = reap_finished ws t" using app t(1) by (simp del: reap_finished.simps)
    have f: "fatal_answer (w # ws) s = fatal_answer ws t"
      using False t(1) by (auto simp: fatal_answer_Cons simp del: reap_finished.simps)
    have l: "mset (live_pids t) - mset (reaped ws) = mset (live_pids s) - mset (reaped (w # ws))"
      by (simp only: t(5) diff_reaped_Cons)
    show ?thesis using Cons.IH[OF t(2) ws] unfolding r f t(3) t(4) l .
  qed
qed

lemma register_job_ok:
  assumes "jobs_ok s" and "length (jobs s) < maxjobs" and "next_job s < INT_MAX" and "- INT_MAX - 2 \<le> next_job s"
    and "pids \<noteq> []" and "length pids \<le> maxjob_process" and "length names = length pids"
    and "list_all int32 pids" and "list_all (\<lambda>n. n \<noteq> None) names"
  shows "\<exists>s'. register_job pg pids names cmd bg s = Ok (next_job s, s') \<and> jobs_ok s' \<and>
    find_job_by_number (next_job s) s' = Some (length (jobs s)) \<and>
    live_pids s' = live_pids s @ pids \<and> next_job s' = next_job s + 1"
proof -
  let ?ns = "map (\<lambda>n. cut 256 (the n)) names"
  let ?j = "\<lparr>job_number = next_job s, pgid = pg, procs = zip pids ?ns, command = cut 512 cmd,
    jstate = job_running, background = bg, active = True\<rparr>"
  let ?s = "s\<lparr>next_job := next_job s + 1, jobs := jobs s @ [?j]\<rparr>"
  have reg: "register_job pg pids names cmd bg s = Ok (next_job s, ?s)"
    using assms by (simp add: register_job_def sadd32_def INT_MAX_def bnd_guard)
  have "list_all (\<lambda>(p, n). int32 p \<and> length n < 256) (zip pids ?ns)"
    using assms(8) by (fastforce simp: list_all_iff cut_def dest: set_zip_leftD set_zip_rightD)
  then have "job_ok ?j"
    using assms(5-7) by (cases pids; cases names) (auto simp: job_ok_def)
  moreover have fresh: "\<forall>j \<in> set (jobs s). job_number j \<noteq> next_job s"
    using assms(1) by (auto simp: jobs_ok_def list_all_iff)
  ultimately have "jobs_ok ?s"
    using assms(1,2) by (force simp: jobs_ok_def list_all_iff)
  moreover have "find_job_by_number (next_job s) ?s = Some (length (jobs s))"
    unfolding find_job_by_number_def using fresh by (simp add: index_of_append_last)
  moreover have "live_pids ?s = live_pids s @ pids"
    using assms(7) by (simp add: live_pids_def)
  ultimately show ?thesis using reg by simp
qed

lemma printf_foldl:
  "foldl (\<lambda>s m. printf m s) s ms = s\<lparr>trace := trace s @ map Print ms\<rparr>"
  by (induction ms arbitrary: s) (simp_all add: printf_def emit_def)

lemma flush_pending_eq:
  "flush_pending_bg_msg s = s\<lparr>pending_msg := [], trace := trace s @ map Print (pending_msg s)\<rparr>"
  by (simp add: flush_pending_bg_msg_def printf_foldl)

lemma flush_pending_ok: "jobs_ok s \<Longrightarrow> jobs_ok (flush_pending_bg_msg s)"
  by (simp add: flush_pending_eq jobs_ok_def)


end
