(* ===== verification/Sh_Hop.thy ===== *)
theory Sh_Hop
  imports Sh_Jobs
begin

text \<open>
  The \<open>hop\<close> builtin and its frecency table, \<open>c-shell/src/hop.c\<close>.  The table is kept as the code
  keeps it, as the text of a file, read with \<open>fscanf("%4999s %d %ld")\<close> and written with
  \<open>fprintf("%s %d %ld\\n")\<close>.  The operating system's answers (which paths are directories, where
  \<open>chdir\<close> leads, what \<open>realpath\<close> resolves to, each seen from a working directory, and the clock)
  are the record \<open>osenv\<close>.
\<close>

section \<open>State\<close>

record world = shell +
  cwd :: string
  previous :: string
  files :: "string \<Rightarrow> string option"

record osenv =
  stat_isdir :: "string \<Rightarrow> string \<Rightarrow> bool"
  os_chdir :: "string \<Rightarrow> string \<Rightarrow> string option"
  os_realpath :: "string \<Rightarrow> string \<Rightarrow> string option"
  os_time :: int
  os_writable :: "string \<Rightarrow> bool"
  os_getcwd :: "string \<Rightarrow> string option"

lemma emit_world [simp]:
  "cwd (emit e w) = cwd w" "previous (emit e w) = previous w" "files (emit e w) = files w"
  "cwd (printf m w) = cwd w" "previous (printf m w) = previous w" "files (printf m w) = files w"
  by (simp_all add: emit_def printf_def)

definition PATH_BUF :: nat where "PATH_BUF = 5000"
definition MAX_ENTRIES :: nat where "MAX_ENTRIES = 1024"

type_synonym entry = "string \<times> int \<times> int"

section \<open>The file's text\<close>

text \<open>\<open>%4999s\<close>: skip blanks, then up to 4999 characters that are not blank.\<close>

definition scan_word :: "string \<Rightarrow> (string \<times> string) option" where
  "scan_word s =
     (let t = dropWhile is_space s;
          w = take 4999 (takeWhile (\<lambda>c. \<not> is_space c) t)
      in if w = [] then None else Some (w, drop (length w) t))"

text \<open>\<open>%d\<close> and \<open>%ld\<close>: as \<open>strtol\<close> reads, failing without digits.\<close>

definition scan_long :: "string \<Rightarrow> (int \<times> string) option" where
  "scan_long s = (case strtol s of (v, r) \<Rightarrow> if r = s then None else Some (v, r))"

definition scan_entry :: "string \<Rightarrow> (entry \<times> string) option" where
  "scan_entry s =
     (case scan_word s of None \<Rightarrow> None
      | Some (p, s) \<Rightarrow>
        (case scan_long s of None \<Rightarrow> None
         | Some (f, s) \<Rightarrow>
           (case scan_long s of None \<Rightarrow> None
            | Some (t, s) \<Rightarrow> Some ((p, to_int32 f, t), s))))"

lemma scan_word_shorter: "scan_word s = Some (w, r) \<Longrightarrow> length r < length s"
proof -
  assume a: "scan_word s = Some (w, r)"
  let ?t = "dropWhile is_space s"
  from a have w: "w \<noteq> []" "r = drop (length w) ?t" "w = take 4999 (takeWhile (\<lambda>c. \<not> is_space c) ?t)"
    by (auto simp: scan_word_def Let_def split: if_splits)
  from w(1,3) have "?t \<noteq> []" by (cases "?t") (simp_all del: dropWhile_eq_Nil_conv)
  have "length ?t \<le> length s" by (rule length_dropWhile_le)
  with w \<open>?t \<noteq> []\<close> show ?thesis by (cases w; cases ?t) auto
qed

lemma strtol_length: "length (snd (strtol s)) \<le> length s"
proof -
  let ?t = "dropWhile is_space s"
  let ?u = "if ?t \<noteq> [] \<and> (hd ?t = CHR ''-'' \<or> hd ?t = CHR ''+'') then tl ?t else ?t"
  have "length (dropWhile is_digit ?u) \<le> length ?u" by (rule length_dropWhile_le)
  also have "\<dots> \<le> length ?t" by simp
  also have "\<dots> \<le> length s" by (rule length_dropWhile_le)
  finally show ?thesis by (auto simp: strtol_def Let_def)
qed

lemma scan_long_shorter: "scan_long s = Some (v, r) \<Longrightarrow> length r \<le> length s"
  using strtol_length[of s] by (auto simp: scan_long_def split: prod.splits if_splits)

lemma scan_entry_shorter: "scan_entry s = Some (e, r) \<Longrightarrow> length r < length s"
  by (auto simp: scan_entry_def split: option.splits prod.splits
      dest!: scan_word_shorter scan_long_shorter)

text \<open>The reading loop: the entries until the first that does not match, and the text left.\<close>

function scan_all :: "string \<Rightarrow> entry list \<times> string" where
  "scan_all s =
     (case scan_entry s of
        None \<Rightarrow> ([], s)
      | Some (e, r) \<Rightarrow> (case scan_all r of (es, r') \<Rightarrow> (e # es, r')))"
  by pat_completeness auto
termination
  by (relation "measure length") (auto dest: scan_entry_shorter)

declare scan_all.simps [simp del]

definition print_entry :: "entry \<Rightarrow> string" where
  "print_entry e =
     (case e of (p, f, t) \<Rightarrow> p @ '' '' @ show_int f @ '' '' @ show_int t @ nl)"

definition print_all :: "entry list \<Rightarrow> string" where
  "print_all es = concat (map print_entry es)"

section \<open>The frecency table\<close>

definition frecency_file :: "string \<Rightarrow> string" where
  "frecency_file shome = cut PATH_BUF (shome @ ''/.frecency'')"

text \<open>One visited entry: a duplicate of the path is counted too.\<close>

fun bump_entries :: "string \<Rightarrow> int \<Rightarrow> entry list \<Rightarrow> entry list res" where
  "bump_entries path now [] = Ok []"
| "bump_entries path now ((p, f, t) # es) =
     (if p = path then
        bnd (sadd32 f 1) (\<lambda>f'.
        bnd (bump_entries path now es) (\<lambda>es'. Ok ((p, f', now) # es')))
      else bnd (bump_entries path now es) (\<lambda>es'. Ok ((p, f, t) # es')))"

definition freq_update :: "osenv \<Rightarrow> string \<Rightarrow> string \<Rightarrow> 'a world_scheme \<Rightarrow> 'a world_scheme res" where
  "freq_update e shome path w =
     (let file_path = frecency_file shome;
          (es, rest) = (case files w file_path of None \<Rightarrow> ([], []) | Some txt \<Rightarrow> scan_all txt) in
      bnd (guard (length es < MAX_ENTRIES \<or> length es = MAX_ENTRIES \<and> scan_word rest = None)
             ''lines overflow'') (\<lambda>_.
      bnd (bump_entries path (os_time e) es) (\<lambda>es.
        let es = (if path \<notin> fst ` set es \<and> length es < MAX_ENTRIES
                  then es @ [(path, 1, os_time e)] else es) in
        Ok (if os_writable e file_path
            then w\<lparr>files := (files w)(file_path \<mapsto> print_all es)\<rparr> else w))))"

text \<open>The best entry so far is \<open>best_path\<close> with \<open>best_freq\<close> and \<open>best_time\<close>.\<close>

fun pick_best :: "(string \<Rightarrow> bool) \<Rightarrow> string \<Rightarrow> entry list \<Rightarrow> entry \<Rightarrow> entry" where
  "pick_best isdir target [] best = best"
| "pick_best isdir target ((path, freq, t) # es) (best_path, best_freq, best_time) =
     (if strstr path target \<and> isdir path \<and>
         (freq > best_freq \<or> (freq = best_freq \<and> t > best_time))
      then pick_best isdir target es (path, freq, t)
      else pick_best isdir target es (best_path, best_freq, best_time))"

definition get_frecency :: "osenv \<Rightarrow> string \<Rightarrow> string \<Rightarrow> 'a world_scheme \<Rightarrow> string option" where
  "get_frecency e shome target w =
     (case files w (frecency_file shome) of
        None \<Rightarrow> None
      | Some txt \<Rightarrow>
          (case pick_best (stat_isdir e (cwd w)) target (fst (scan_all txt)) ('''', -1, -1) of
             (path, freq, t) \<Rightarrow> if freq \<noteq> -1 then Some path else None))"

section \<open>The builtin\<close>

definition no_such_directory :: string where
  "no_such_directory = ''hop: no such directory'' @ nl"

text \<open>What one argument asks for: \<open>continue\<close>, \<open>break\<close>, or a directory to change to.\<close>

datatype hop_choice = Hop_continue | Hop_break | Hop_to string

definition hop_choose ::
  "osenv \<Rightarrow> string \<Rightarrow> string \<Rightarrow> 'a world_scheme \<Rightarrow> hop_choice \<times> 'a world_scheme" where
  "hop_choose e shome arg w =
     (if arg = ''~'' then (Hop_to shome, w)
      else if arg = ''-'' then
        (if previous w = [] then (Hop_continue, printf no_such_directory w)
         else (Hop_to (previous w), w))
      else if arg = ''.'' then (Hop_continue, w)
      else if \<not> stat_isdir e (cwd w) arg then
        (case get_frecency e shome arg w of
           Some path \<Rightarrow> (Hop_to path, w)
         | None \<Rightarrow> (Hop_break, printf no_such_directory w))
      else (Hop_to arg, w))"

text \<open>
  \<open>chdir\<close>, then \<open>realpath\<close> of the same argument from the new working directory.  The result of
  \<open>getcwd\<close> before it is not checked: when it failed, \<open>previous\<close> is copied from a buffer whose
  contents are indeterminate.
\<close>

definition hop_go :: "osenv \<Rightarrow> string \<Rightarrow> string \<Rightarrow> 'a world_scheme \<Rightarrow> 'a world_scheme res" where
  "hop_go e shome target w =
     (case os_chdir e (cwd w) target of
        None \<Rightarrow> Ok (emit (Eprint ''hop'') w)
      | Some new \<Rightarrow>
          bnd (guard (os_getcwd e (cwd w) \<noteq> None) ''indeterminate cwd'') (\<lambda>_.
          let w = w\<lparr>previous := the (os_getcwd e (cwd w)), cwd := new\<rparr> in
          (case os_realpath e (cwd w) target of
             None \<Rightarrow> Ok w
           | Some resolved \<Rightarrow> freq_update e shome resolved w)))"

fun hop_loop :: "osenv \<Rightarrow> string \<Rightarrow> string list \<Rightarrow> 'a world_scheme \<Rightarrow> 'a world_scheme res" where
  "hop_loop e shome [] w = Ok w"
| "hop_loop e shome (arg # args) w =
     (case hop_choose e shome arg w of
        (Hop_continue, w) \<Rightarrow> hop_loop e shome args w
      | (Hop_break, w) \<Rightarrow> Ok w
      | (Hop_to target, w) \<Rightarrow> bnd (hop_go e shome target w) (\<lambda>w. hop_loop e shome args w))"

definition hopping :: "osenv \<Rightarrow> string list \<Rightarrow> string \<Rightarrow> 'a world_scheme \<Rightarrow> 'a world_scheme res" where
  "hopping e args shome w = hop_loop e shome (if args = [] then [''~''] else args) w"

section \<open>Reading back what was written\<close>

definition entry_ok :: "entry \<Rightarrow> bool" where
  "entry_ok e \<longleftrightarrow>
     (case e of (p, f, t) \<Rightarrow>
        p \<noteq> [] \<and> length p \<le> 4999 \<and> list_all (\<lambda>c. \<not> is_space c) p \<and> int32 f \<and>
        - LONG_MAX - 1 \<le> t \<and> t \<le> LONG_MAX)"

lemma scan_word_word:
  assumes "list_all (\<lambda>c. \<not> is_space c) p" and "p \<noteq> []" and "length p \<le> 4999"
  shows "scan_word (p @ c_space # r) = Some (p, c_space # r)"
proof -
  have "dropWhile is_space (p @ c_space # r) = p @ c_space # r"
    using assms(1,2) by (cases p) simp_all
  moreover have "takeWhile (\<lambda>c. \<not> is_space c) (p @ c_space # r) = p"
    using assms(1) by (induction p) (simp_all add: is_space_def)
  ultimately show ?thesis using assms(2,3) by (simp add: scan_word_def)
qed

lemma strtol_space:
  assumes "snd (strtol s) \<noteq> s"
  shows "strtol (c_space # s) = strtol s"
proof -
  let ?t = "dropWhile is_space s"
  let ?u = "if ?t \<noteq> [] \<and> (hd ?t = CHR ''-'' \<or> hd ?t = CHR ''+'') then tl ?t else ?t"
  have "dropWhile is_space (c_space # s) = ?t" by (simp add: is_space_def)
  moreover have "takeWhile is_digit ?u \<noteq> []"
    using assms unfolding strtol_def Let_def by (rule contrapos_nn) (simp only: simp_thms if_True snd_conv)
  ultimately show ?thesis unfolding strtol_def Let_def by (simp only: if_False)
qed

lemma scan_long_show:
  assumes "- LONG_MAX - 1 \<le> i" and "i \<le> LONG_MAX" and "r = [] \<or> \<not> is_digit (hd r)"
  shows "scan_long (c_space # show_int i @ r) = Some (i, r)"
proof -
  have ne: "snd (strtol (show_int i @ r)) \<noteq> show_int i @ r"
    using strtol_show_int[OF assms] by (simp add: show_int_def)
  have "strtol (c_space # show_int i @ r) = (i, r)"
    using strtol_space[of "show_int i @ r"] strtol_show_int[OF assms] ne by metis
  moreover have "c_space # show_int i @ r \<noteq> r"
  proof
    assume "c_space # show_int i @ r = r"
    then have "length (c_space # show_int i @ r) = length r" by (rule arg_cong)
    then show False by simp
  qed
  ultimately show ?thesis by (simp add: scan_long_def)
qed

lemma scan_print_entry:
  assumes "entry_ok e"
  shows "scan_entry (print_entry e @ r) = Some (e, nl @ r)"
proof -
  obtain p f t where e: "e = (p, f, t)" by (cases e) auto
  have "f \<le> LONG_MAX" "- LONG_MAX - 1 \<le> f" "to_int32 f = f"
    using assms by (simp_all add: e entry_ok_def int32_def LONG_MAX_def to_int32_id)
  then show ?thesis
    using assms
    by (simp add: e entry_ok_def scan_entry_def print_entry_def scan_word_word scan_long_show
        nl_def is_digit_def)
qed

lemma scan_entry_nl: "scan_entry (nl @ s) = scan_entry s"
  by (simp add: scan_entry_def scan_word_def nl_def is_space_def)

lemma scan_all_nl: "fst (scan_all (nl @ s)) = fst (scan_all s)"
  by (subst (1 2) scan_all.simps) (simp add: scan_entry_nl split: option.splits prod.splits)

lemma scan_print_all:
  "list_all entry_ok es \<Longrightarrow> fst (scan_all (print_all es)) = es"
proof (induction es)
  case Nil
  then show ?case
    by (subst scan_all.simps) (simp add: print_all_def scan_entry_def scan_word_def)
next
  case (Cons e es)
  then have "scan_entry (print_all (e # es)) = Some (e, nl @ print_all es)"
    by (simp add: print_all_def scan_print_entry)
  with Cons scan_all_nl[of "print_all es"] show ?case
    by (subst scan_all.simps) (simp add: case_prod_beta)
qed

section \<open>The best entry\<close>

definition score_le :: "entry \<Rightarrow> entry \<Rightarrow> bool" where
  "score_le a b \<longleftrightarrow>
     (case a of (_, f, t) \<Rightarrow> case b of (_, g, u) \<Rightarrow> f < g \<or> f = g \<and> t \<le> u)"

definition eligible :: "(string \<Rightarrow> bool) \<Rightarrow> string \<Rightarrow> entry \<Rightarrow> bool" where
  "eligible isdir target e \<longleftrightarrow> strstr (fst e) target \<and> isdir (fst e)"

lemma score_le_refl [simp]: "score_le a a"
  by (simp add: score_le_def split: prod.splits)

lemma score_le_trans: "score_le a b \<Longrightarrow> score_le b c \<Longrightarrow> score_le a c"
  by (auto simp: score_le_def split: prod.splits)

lemma pick_best_spec:
  "pick_best isdir target es best = r \<Longrightarrow>
   (r = best \<or> r \<in> set es \<and> eligible isdir target r) \<and> score_le best r \<and>
   (\<forall>e \<in> set es. eligible isdir target e \<longrightarrow> score_le e r)"
proof (induction isdir target es best rule: pick_best.induct)
  case (1 isdir target best)
  then show ?case by simp
next
  case (2 isdir target path freq t es best_path best_freq best_time)
  show ?case
  proof (cases "strstr path target \<and> isdir path \<and>
      (freq > best_freq \<or> (freq = best_freq \<and> t > best_time))")
    case True
    from "2.IH"(1)[OF True] "2.prems" True
    have r: "(r = (path, freq, t) \<or> r \<in> set es \<and> eligible isdir target r)"
      "score_le (path, freq, t) r" "\<forall>e \<in> set es. eligible isdir target e \<longrightarrow> score_le e r" by simp_all
    have "score_le (best_path, best_freq, best_time) (path, freq, t)"
      using True by (auto simp: score_le_def)
    with r True show ?thesis by (auto simp: eligible_def intro: score_le_trans)
  next
    case False
    then have eq: "pick_best isdir target es (best_path, best_freq, best_time) = r"
      using "2.prems" by auto
    from "2.IH"(2)[OF False eq]
    have r: "(r = (best_path, best_freq, best_time) \<or> r \<in> set es \<and> eligible isdir target r)"
      "score_le (best_path, best_freq, best_time) r"
      "\<forall>e \<in> set es. eligible isdir target e \<longrightarrow> score_le e r" by simp_all
    have "eligible isdir target (path, freq, t) \<Longrightarrow>
        score_le (path, freq, t) (best_path, best_freq, best_time)"
      using False by (auto simp: score_le_def eligible_def)
    with r show ?thesis by (auto intro: score_le_trans)
  qed
qed

lemma get_frecency_best:
  assumes "files w (frecency_file shome) = Some (print_all es)" and "list_all entry_ok es"
    and "\<forall>(p, f, t) \<in> set es. 0 \<le> f"
  shows "(case get_frecency e shome target w of
      Some path \<Rightarrow> \<exists>b \<in> set es. fst b = path \<and> eligible (stat_isdir e (cwd w)) target b \<and>
        (\<forall>x \<in> set es. eligible (stat_isdir e (cwd w)) target x \<longrightarrow> score_le x b)
    | None \<Rightarrow> \<forall>x \<in> set es. \<not> eligible (stat_isdir e (cwd w)) target x)"
proof -
  let ?P = "eligible (stat_isdir e (cwd w)) target"
  obtain p f t where r: "pick_best (stat_isdir e (cwd w)) target es ('''', -1, -1) = (p, f, t)"
    by (metis prod.exhaust)
  note spec = pick_best_spec[OF r]
  have get: "get_frecency e shome target w = (if f \<noteq> -1 then Some p else None)"
    using assms(1) r by (simp add: get_frecency_def scan_print_all[OF assms(2)])
  show ?thesis
  proof (cases "f = -1")
    case True
    have "\<not> ?P x" if "x \<in> set es" for x
    proof
      assume "?P x"
      with spec that have "score_le x (p, f, t)" by blast
      moreover obtain q g u where "x = (q, g, u)" by (cases x) auto
      ultimately show False using assms(3) that True by (auto simp: score_le_def)
    qed
    with True get show ?thesis by simp
  next
    case False
    with spec have "(p, f, t) \<in> set es \<and> ?P (p, f, t)" by auto
    with spec False get show ?thesis by (auto intro!: bexI[of _ "(p, f, t)"])
  qed
qed

section \<open>What an update does\<close>

definition visited :: "string \<Rightarrow> int \<Rightarrow> entry list \<Rightarrow> entry list" where
  "visited path now es =
     (let es' = map (\<lambda>(p, f, t). if p = path then (p, f + 1, now) else (p, f, t)) es in
      if path \<notin> fst ` set es \<and> length es < MAX_ENTRIES then es' @ [(path, 1, now)] else es')"

lemma bump_entries_map:
  "list_all (\<lambda>(p, f, t). - INT_MAX \<le> f \<and> f < INT_MAX) es \<Longrightarrow>
   bump_entries path now es =
     Ok (map (\<lambda>(p, f, t). if p = path then (p, f + 1, now) else (p, f, t)) es)"
  by (induction path now es rule: bump_entries.induct) (auto simp: sadd32_def)

lemma freq_update_eq:
  assumes "files w (frecency_file shome) = Some (print_all es)" and "list_all entry_ok es"
    and "list_all (\<lambda>(p, f, t). f < INT_MAX \<and> - INT_MAX \<le> f) es" and "length es < MAX_ENTRIES"
    and "os_writable e (frecency_file shome)"
  shows "freq_update e shome path w =
    Ok (w\<lparr>files := (files w)(frecency_file shome \<mapsto> print_all (visited path (os_time e) es))\<rparr>)"
proof -
  have "bump_entries path (os_time e) es =
      Ok (map (\<lambda>(p, f, t). if p = path then (p, f + 1, os_time e) else (p, f, t)) es)"
    by (rule bump_entries_map) (use assms(3) in \<open>auto simp: list_all_iff\<close>)
  moreover have "fst ` set (map (\<lambda>(p, f, t). if p = path then (p, f + 1, os_time e) else (p, f, t)) es)
      = fst ` set es" by force
  moreover obtain rest where "scan_all (print_all es) = (es, rest)"
    using scan_print_all[OF assms(2)] by (metis fst_conv prod.exhaust)
  ultimately show ?thesis
    using assms(1,4,5) by (simp add: freq_update_def visited_def Let_def bnd_guard)
qed

section \<open>Arguments in order\<close>

text \<open>A directory reached from itself by the same relative name is the only one recorded.\<close>

lemma hop_relative_not_recorded:
  assumes "arg \<notin> {''~'', ''-'', ''.''}" and "stat_isdir e (cwd w) arg"
    and "os_chdir e (cwd w) arg = Some new" and "os_realpath e new arg = None"
    and "os_getcwd e (cwd w) = Some old"
  shows "hopping e [arg] shome w = Ok (w\<lparr>previous := old, cwd := new\<rparr>)"
  using assms by (simp add: hopping_def hop_choose_def hop_go_def Let_def)

lemma hop_dash_goes_on:
  assumes "previous w = []"
  shows "hop_loop e shome (''-'' # args) w = hop_loop e shome args (printf no_such_directory w)"
  using assms by (simp add: hop_choose_def)

lemma hop_missing_stops:
  assumes "arg \<notin> {''~'', ''-'', ''.''}" and "\<not> stat_isdir e (cwd w) arg"
    and "get_frecency e shome arg w = None"
  shows "hop_loop e shome (arg # args) w = Ok (printf no_such_directory w)"
  using assms by (simp add: hop_choose_def)

text \<open>Every successful change of directory remembers where it came from.\<close>

lemma freq_update_dirs:
  "freq_update e shome path w = Ok w' \<Longrightarrow> cwd w' = cwd w \<and> previous w' = previous w \<and> jobs w' = jobs w"
  by (auto simp: freq_update_def bnd_eq_Ok Let_def split: prod.splits option.splits if_splits)

lemma hop_go_dirs:
  assumes "hop_go e shome target w = Ok w'" and "os_chdir e (cwd w) target = Some new"
  shows "cwd w' = new \<and> os_getcwd e (cwd w) = Some (previous w')"
  using assms freq_update_dirs
  by (fastforce simp: hop_go_def Let_def bnd_guard split: option.splits if_splits)

lemma visited_entry_ok:
  assumes "list_all entry_ok es" and "list_all (\<lambda>(p, f, t). f < INT_MAX \<and> - INT_MAX \<le> f) es"
    and new: "entry_ok (path, 1, now)"
  shows "list_all entry_ok (visited path now es)"
proof -
  have "entry_ok (case x of (p, f, t) \<Rightarrow> if p = path then (p, f + 1, now) else (p, f, t))"
    if "x \<in> set es" for x
  proof -
    obtain p f t where x: "x = (p, f, t)" by (cases x) auto
    have "entry_ok (p, f, t)" "f < INT_MAX" "- INT_MAX \<le> f"
      using that assms(1,2) by (auto simp: x list_all_iff)
    with new show ?thesis by (cases "p = path") (simp_all add: x entry_ok_def int32_def INT_MAX_def)
  qed
  then have "list_all entry_ok (map (\<lambda>(p, f, t). if p = path then (p, f + 1, now) else (p, f, t)) es)"
    by (simp add: list_all_iff)
  with new show ?thesis by (simp add: visited_def Let_def)
qed

end
