(* ===== verification/Sh_Fds.thy ===== *)
theory Sh_Fds
  imports Sh_Hop
begin

text \<open>
  File descriptors of the shell process, as \<open>c-shell/src/execute.c\<close> uses them: the descriptor
  table (a new descriptor is the lowest free one), temporary files, output files with their
  offsets, and the plumbing of \<open>build_input_tmp\<close>, \<open>prepare_output\<close> and \<open>flush_output\<close>.
\<close>

section \<open>The table\<close>

datatype fdobj = Tty | Tmp_file nat | Out_desc nat | In_desc string | Pipe_r nat | Pipe_w nat | Dev_null

type_synonym fdtab = "fdobj option list"

definition fd_at :: "fdtab \<Rightarrow> nat \<Rightarrow> fdobj option" where
  "fd_at t i = (if i < length t then t ! i else None)"

definition fd_alloc :: "fdobj \<Rightarrow> fdtab \<Rightarrow> nat \<times> fdtab" where
  "fd_alloc ob t =
     (case index_of (\<lambda>x. x = None) t of
        Some i \<Rightarrow> (i, t[i := Some ob])
      | None \<Rightarrow> (length t, t @ [Some ob]))"

definition fd_close :: "nat \<Rightarrow> fdtab \<Rightarrow> fdtab" where
  "fd_close i t = t[i := None]"

definition fd_dup2 :: "nat \<Rightarrow> nat \<Rightarrow> fdtab \<Rightarrow> fdtab" where
  "fd_dup2 a b t =
     (if fd_at t a = None then t
      else (t @ replicate (Suc b - length t) None)[b := fd_at t a])"

lemma fd_alloc_at:
  assumes "fd_alloc ob t = (i, t')"
  shows "fd_at t i = None" and "fd_at t' = (fd_at t)(i := Some ob)"
proof -
  show "fd_at t i = None"
    using assms by (auto simp: fd_alloc_def fd_at_def dest: index_of_Some split: option.splits)
  show "fd_at t' = (fd_at t)(i := Some ob)"
    using assms
    by (auto simp: fd_alloc_def fd_at_def nth_append fun_eq_iff dest: index_of_Some split: option.splits)
qed

lemma fd_close_at: "fd_at (fd_close i t) = (fd_at t)(i := None)"
  by (auto simp: fd_close_def fd_at_def)

lemma fd_dup2_at:
  assumes "fd_at t a = Some ob"
  shows "fd_at (fd_dup2 a b t) = (fd_at t)(b := Some ob)"
proof
  fix i
  show "fd_at (fd_dup2 a b t) i = ((fd_at t)(b := Some ob)) i"
    using assms by (auto simp: fd_dup2_def fd_at_def nth_append nth_list_update)
qed

text \<open>\<open>L\<close> lists the descriptors opened between two tables.\<close>

definition opened :: "fdtab \<Rightarrow> nat list \<Rightarrow> fdtab \<Rightarrow> bool" where
  "opened t L t' \<longleftrightarrow>
     (\<forall>i \<in> set L. fd_at t i = None \<and> fd_at t' i \<noteq> None) \<and>
     (\<forall>i. i \<notin> set L \<longrightarrow> fd_at t' i = fd_at t i)"

lemma opened_Nil [simp]: "opened t [] t"
  by (simp add: opened_def)

lemma opened_alloc: "fd_alloc ob t = (i, t') \<Longrightarrow> opened t [i] t'"
  using fd_alloc_at[of ob t i t'] by (simp add: opened_def)

lemma opened_trans:
  assumes "opened t L t'" and "opened t' M t''"
  shows "opened t (L @ M) t''"
proof -
  have "\<forall>i \<in> set M. i \<notin> set L" using assms by (auto simp: opened_def)
  with assms show ?thesis unfolding opened_def by (metis UnE set_append UnI1 UnI2)
qed

lemma opened_old: "opened t L t' \<Longrightarrow> fd_at t i = Some ob \<Longrightarrow> fd_at t' i = Some ob \<and> i \<notin> set L"
  unfolding opened_def by (metis option.distinct(1))

definition close_all :: "nat list \<Rightarrow> fdtab \<Rightarrow> fdtab" where
  "close_all L t = fold fd_close L t"

lemma close_all_simps [simp]:
  "close_all [] t = t" "close_all (i # L) t = close_all L (fd_close i t)"
  "close_all (L @ M) t = close_all M (close_all L t)"
  by (simp_all add: close_all_def)

lemma close_all_at: "fd_at (close_all L t) = (\<lambda>i. if i \<in> set L then None else fd_at t i)"
  by (induction L arbitrary: t) (auto simp: fd_close_at)

lemma opened_close_all:
  assumes "opened t L t'" and "set M = set L"
  shows "fd_at (close_all M t') = fd_at t"
  using assms by (auto simp: close_all_at opened_def)

section \<open>The shell's process\<close>

datatype child_run = Run_builtin "string list" | Run_nothing | Run_exec string "string list"

record child =
  cpid :: int
  cfds :: fdtab
  crun :: child_run

datatype waitev = Wait_ok int wstatus | Wait_eintr | Wait_fail | Handler "(int \<times> wstatus) list" | Timeout

text \<open>
  The \<open>os_\<close> fields are what the operating system will answer, in order: the pids of the next
  forks, the next results of a blocking \<open>waitpid\<close> (with the SIGCHLD and SIGALRM handlers that run
  in between), what the next pipeline writes to its temporary output file, the next answers to
  the non-blocking \<open>waitpid\<close>s of \<open>activities\<close>.
\<close>

record xworld = world +
  fds :: fdtab
  tmps :: "string list"
  descs :: "(string \<times> bool \<times> nat) list"
  npipes :: nat
  children :: "child list"
  exited :: bool
  os_pids :: "int list"
  os_waits :: "waitev list"
  os_outs :: "string list"
  os_reaps :: "(int \<times> wstatus) list list"

lemma emit_xworld [simp]:
  "fds (emit e s) = fds s" "tmps (emit e s) = tmps s" "descs (emit e s) = descs s"
  "npipes (emit e s) = npipes s" "children (emit e s) = children s" "exited (emit e s) = exited s"
  "fds (printf m s) = fds s" "tmps (printf m s) = tmps s" "descs (printf m s) = descs s"
  "npipes (printf m s) = npipes s" "children (printf m s) = children s" "exited (printf m s) = exited s"
  by (simp_all add: emit_def printf_def)

definition new_fd :: "fdobj \<Rightarrow> 'a xworld_scheme \<Rightarrow> nat \<times> 'a xworld_scheme" where
  "new_fd ob s = (case fd_alloc ob (fds s) of (i, t) \<Rightarrow> (i, s\<lparr>fds := t\<rparr>))"

definition close_fds :: "nat list \<Rightarrow> 'a xworld_scheme \<Rightarrow> 'a xworld_scheme" where
  "close_fds L s = s\<lparr>fds := close_all L (fds s)\<rparr>"

text \<open>\<open>mkstemp\<close> followed by \<open>unlink\<close>.\<close>

definition new_tmp :: "'a xworld_scheme \<Rightarrow> nat \<times> 'a xworld_scheme" where
  "new_tmp s = new_fd (Tmp_file (length (tmps s))) (s\<lparr>tmps := tmps s @ ['''']\<rparr>)"

definition new_pipe :: "'a xworld_scheme \<Rightarrow> (nat \<times> nat) \<times> 'a xworld_scheme" where
  "new_pipe s =
     (let n = npipes s;
          (r, s) = new_fd (Pipe_r n) (s\<lparr>npipes := Suc n\<rparr>);
          (w, s) = new_fd (Pipe_w n) s
      in ((r, w), s))"

fun new_pipes :: "nat \<Rightarrow> 'a xworld_scheme \<Rightarrow> (nat \<times> nat) list \<times> 'a xworld_scheme" where
  "new_pipes 0 s = ([], s)"
| "new_pipes (Suc k) s =
     (let (p, s) = new_pipe s; (ps, s) = new_pipes k s in (p # ps, s))"

definition pipe_fds :: "(nat \<times> nat) list \<Rightarrow> nat list" where
  "pipe_fds ps = concat (map (\<lambda>(r, w). [r, w]) ps)"

lemma new_fd_opened: "new_fd ob s = (i, s') \<Longrightarrow> opened (fds s) [i] (fds s')"
  by (auto simp: new_fd_def intro: opened_alloc split: prod.splits)

lemma new_fd_keeps:
  "new_fd ob s = (i, s') \<Longrightarrow> \<exists>t. s' = s\<lparr>fds := t\<rparr> \<and> fd_at t = (fd_at (fds s))(i := Some ob)"
  by (auto simp: new_fd_def dest: fd_alloc_at(2) split: prod.splits)

lemma new_pipe_opened: "new_pipe s = ((r, w), s') \<Longrightarrow> opened (fds s) [r, w] (fds s')"
proof -
  let ?n = "npipes s" and ?q = "s\<lparr>npipes := Suc (npipes s)\<rparr>"
  assume a: "new_pipe s = ((r, w), s')"
  obtain r' s1 where r: "new_fd (Pipe_r ?n) ?q = (r', s1)" by fastforce
  obtain w' s2 where w: "new_fd (Pipe_w ?n) s1 = (w', s2)" by fastforce
  from a r w have "r = r'" "w = w'" "s' = s2" by (simp_all add: new_pipe_def Let_def)
  with opened_trans[OF new_fd_opened[OF r] new_fd_opened[OF w]] show ?thesis by simp
qed

lemma new_pipes_opened: "new_pipes k s = (ps, s') \<Longrightarrow> opened (fds s) (pipe_fds ps) (fds s')"
proof (induction k arbitrary: s ps s')
  case 0
  then show ?case by (simp add: pipe_fds_def)
next
  case (Suc k)
  obtain r w s1 where p: "new_pipe s = ((r, w), s1)" by (metis prod.exhaust)
  obtain qs s2 where q: "new_pipes k s1 = (qs, s2)" by fastforce
  from Suc.prems p q have "ps = (r, w) # qs" "s' = s2" by simp_all
  with opened_trans[OF new_pipe_opened[OF p] Suc.IH[OF q]] show ?case
    by (simp add: pipe_fds_def)
qed

section \<open>Redirections\<close>

record fsenv =
  os :: osenv
  abs_path :: "string \<Rightarrow> string \<Rightarrow> string"
  readable :: "string \<Rightarrow> bool"
  mkstemp_ok :: bool

datatype in_tmp = No_input | Input_error | Input_fd nat

text \<open>The pieces a loop of \<open>read(fd, buf, n)\<close> returns.\<close>

function chunks :: "nat \<Rightarrow> string \<Rightarrow> string list" where
  "chunks n s = (if s = [] \<or> n = 0 then [] else take n s # chunks n (drop n s))"
  by pat_completeness auto
termination by (relation "measure (\<lambda>(n, s). length s)") auto

declare chunks.simps [simp del]

lemma concat_chunks: "0 < n \<Longrightarrow> concat (chunks n s) = s"
proof (induction n s rule: chunks.induct)
  case (1 n s)
  then show ?case by (subst chunks.simps) auto
qed

definition path_exists :: "('b fsenv_scheme) \<Rightarrow> string \<Rightarrow> 'a xworld_scheme \<Rightarrow> bool" where
  "path_exists e f s \<longleftrightarrow>
     files s (abs_path e (cwd s) f) \<noteq> None \<or> stat_isdir (os e) (cwd s) f"

text \<open>What reading a file from its start gives: nothing if it cannot be opened or is a directory.\<close>

definition read_file :: "('b fsenv_scheme) \<Rightarrow> string \<Rightarrow> 'a xworld_scheme \<Rightarrow> string" where
  "read_file e f s =
     (let p = abs_path e (cwd s) f in
      if readable e p then (case files s p of None \<Rightarrow> '''' | Some c \<Rightarrow> c) else '''')"

definition write_tmp :: "nat \<Rightarrow> string \<Rightarrow> 'a xworld_scheme \<Rightarrow> 'a xworld_scheme" where
  "write_tmp k buf s = s\<lparr>tmps := (tmps s)[k := tmps s ! k @ buf]\<rparr>"

text \<open>One input file: opened, copied in pieces of 8192 bytes to the temporary file, closed.\<close>

definition copy_input :: "('b fsenv_scheme) \<Rightarrow> nat \<Rightarrow> string \<Rightarrow> 'a xworld_scheme \<Rightarrow> 'a xworld_scheme" where
  "copy_input e k f s =
     (let p = abs_path e (cwd s) f in
      if readable e p \<and> path_exists e f s then
        (let (fd, s) = new_fd (In_desc p) s;
             s = foldl (\<lambda>s buf. write_tmp k buf s) s (chunks 8192 (read_file e f s))
         in close_fds [fd] s)
      else s)"

definition build_input_tmp ::
  "('b fsenv_scheme) \<Rightarrow> string list \<Rightarrow> 'a xworld_scheme \<Rightarrow> in_tmp \<times> 'a xworld_scheme" where
  "build_input_tmp e in_fs s =
     (if in_fs = [] then (No_input, s)
      else if \<not> list_all (\<lambda>f. path_exists e f s) in_fs then
        (Input_error, printf (''cshell: no such file or directory'' @ nl) s)
      else if \<not> mkstemp_ok e then (Input_error, s)
      else
        (let k = length (tmps s);
             (tfd, s) = new_tmp s
         in (Input_fd tfd, foldl (\<lambda>s f. copy_input e k f s) s in_fs)))"

record out_ctx =
  tmp_fd :: "nat option"
  real_fds :: "nat list"

text \<open>\<open>open(file, O_WRONLY | O_CREAT | O_APPEND or O_TRUNC, 0644)\<close>\<close>

definition open_out ::
  "('b fsenv_scheme) \<Rightarrow> string \<Rightarrow> bool \<Rightarrow> 'a xworld_scheme \<Rightarrow> (nat \<times> 'a xworld_scheme) option" where
  "open_out e f app s =
     (let p = abs_path e (cwd s) f in
      if os_writable (os e) p \<and> \<not> stat_isdir (os e) (cwd s) f then
        (let old = (case files s p of None \<Rightarrow> '''' | Some c \<Rightarrow> c);
             s = s\<lparr>files := (files s)(p \<mapsto> (if app then old else '''')),
                   descs := descs s @ [(p, app, 0)]\<rparr>
         in Some (new_fd (Out_desc (length (descs s) - 1)) s))
      else None)"

text \<open>The loop that opens the output files; on failure those opened so far are closed.\<close>

fun open_outs ::
  "('b fsenv_scheme) \<Rightarrow> (string \<times> bool) list \<Rightarrow> nat list \<Rightarrow> 'a xworld_scheme \<Rightarrow>
   nat list option \<times> 'a xworld_scheme" where
  "open_outs e [] acc s = (Some acc, s)"
| "open_outs e ((f, app) # fs) acc s =
     (case open_out e f app s of
        None \<Rightarrow>
          (None, close_fds acc (printf (''cshell: unable to create file for writing'' @ nl) s))
      | Some (fd, s) \<Rightarrow> open_outs e fs (acc @ [fd]) s)"

definition prepare_output ::
  "('b fsenv_scheme) \<Rightarrow> (string \<times> bool) list \<Rightarrow> 'a xworld_scheme \<Rightarrow>
   out_ctx option \<times> 'a xworld_scheme" where
  "prepare_output e outs s =
     (if outs = [] then (Some \<lparr>tmp_fd = None, real_fds = []\<rparr>, s)
      else
        (case open_outs e outs [] s of
           (None, s) \<Rightarrow> (None, s)
         | (Some rs, s) \<Rightarrow>
             if \<not> mkstemp_ok e then (None, close_fds rs s)
             else
               (let (tfd, s) = new_tmp s
                in (Some \<lparr>tmp_fd = Some tfd, real_fds = rs\<rparr>, s))))"

definition content :: "'a xworld_scheme \<Rightarrow> string \<Rightarrow> string" where
  "content s p = (case files s p of None \<Rightarrow> '''' | Some c \<Rightarrow> c)"

text \<open>
  \<open>write(fd, buf, n)\<close> on an output file, at its offset, or at the end of the file with
  \<open>O_APPEND\<close>.
\<close>

definition write_desc :: "nat \<Rightarrow> string \<Rightarrow> 'a xworld_scheme \<Rightarrow> 'a xworld_scheme" where
  "write_desc d buf s =
     (case descs s ! d of (p, app, off) \<Rightarrow>
        let old = content s p;
            at = (if app then length old else off);
            old = old @ replicate (at - length old) c_nul
        in s\<lparr>files := (files s)(p \<mapsto> (take at old @ buf @ drop (at + length buf) old)),
             descs := (descs s)[d := (p, app, at + length buf)]\<rparr>)"

definition write_fd :: "nat \<Rightarrow> string \<Rightarrow> 'a xworld_scheme \<Rightarrow> 'a xworld_scheme" where
  "write_fd fd buf s =
     (case fd_at (fds s) fd of Some (Out_desc d) \<Rightarrow> write_desc d buf s | _ \<Rightarrow> s)"

definition flush_output :: "out_ctx \<Rightarrow> 'a xworld_scheme \<Rightarrow> 'a xworld_scheme" where
  "flush_output ctx s =
     (case tmp_fd ctx of
        None \<Rightarrow> s
      | Some tfd \<Rightarrow>
          let txt = (case fd_at (fds s) tfd of Some (Tmp_file k) \<Rightarrow> tmps s ! k | _ \<Rightarrow> '''');
              s = foldl (\<lambda>s buf. foldl (\<lambda>s fd. write_fd fd buf s) s (real_fds ctx)) s
                    (chunks 8192 txt)
          in close_fds (tfd # real_fds ctx) s)"

section \<open>No descriptor is lost\<close>

lemma opened_cong:
  "fd_at t = fd_at u \<Longrightarrow> fd_at t' = fd_at u' \<Longrightarrow> opened t L t' = opened u L u'"
  by (simp add: opened_def)

lemma close_fds_fields [simp]:
  "fds (close_fds L s) = close_all L (fds s)" "tmps (close_fds L s) = tmps s"
  "files (close_fds L s) = files s" "descs (close_fds L s) = descs s"
  "cwd (close_fds L s) = cwd s" "jobs (close_fds L s) = jobs s"
  by (simp_all add: close_fds_def)

lemma write_tmp_fields [simp]:
  "fds (write_tmp k buf s) = fds s" "files (write_tmp k buf s) = files s"
  "cwd (write_tmp k buf s) = cwd s"
  by (simp_all add: write_tmp_def)

lemma write_tmps_fields [simp]:
  "fds (foldl (\<lambda>s buf. write_tmp k buf s) s bs) = fds s"
  "files (foldl (\<lambda>s buf. write_tmp k buf s) s bs) = files s"
  "cwd (foldl (\<lambda>s buf. write_tmp k buf s) s bs) = cwd s"
  by (induction bs arbitrary: s) simp_all

lemma write_tmps_content:
  "k < length (tmps s) \<Longrightarrow>
   tmps (foldl (\<lambda>s buf. write_tmp k buf s) s bs) = (tmps s)[k := tmps s ! k @ concat bs]"
  by (induction bs arbitrary: s) (simp_all add: write_tmp_def)

lemma copy_input_result:
  assumes "k < length (tmps s)"
  shows "fd_at (fds (copy_input e k f s)) = fd_at (fds s)"
    and "files (copy_input e k f s) = files s" and "cwd (copy_input e k f s) = cwd s"
    and "tmps (copy_input e k f s) = (tmps s)[k := tmps s ! k @ read_file e f s]"
proof -
  let ?p = "abs_path e (cwd s) f"
  have "fd_at (fds (copy_input e k f s)) = fd_at (fds s) \<and>
    files (copy_input e k f s) = files s \<and> cwd (copy_input e k f s) = cwd s \<and>
    tmps (copy_input e k f s) = (tmps s)[k := tmps s ! k @ read_file e f s]"
  proof (cases "readable e ?p \<and> path_exists e f s")
    case True
    obtain fd s1 where fd: "new_fd (In_desc ?p) s = (fd, s1)" by fastforce
    obtain t where t: "s1 = s\<lparr>fds := t\<rparr>" "fd_at t = (fd_at (fds s))(fd \<mapsto> In_desc ?p)"
      using new_fd_keeps[OF fd] by blast
    have "fd_at (fds s) fd = None"
      using new_fd_opened[OF fd] by (simp add: opened_def)
    then have bck: "fd_at (fd_close fd t) = fd_at (fds s)" by (auto simp: fd_close_at t(2))
    have rd: "read_file e f s1 = read_file e f s" by (simp add: read_file_def Let_def t(1))
    have copied: "copy_input e k f s =
        close_fds [fd] (foldl (\<lambda>s buf. write_tmp k buf s) s1 (chunks 8192 (read_file e f s1)))"
      using True fd by (simp add: copy_input_def Let_def)
    have "k < length (tmps s1)" using assms t(1) by simp
    with rd bck t(1) show ?thesis
      unfolding copied by (simp add: write_tmps_content concat_chunks)
  next
    case False
    then have "read_file e f s = ''''"
      by (auto simp: read_file_def path_exists_def Let_def split: option.splits)
    with False show ?thesis by (auto simp: copy_input_def Let_def)
  qed
  then show "fd_at (fds (copy_input e k f s)) = fd_at (fds s)"
    and "files (copy_input e k f s) = files s" and "cwd (copy_input e k f s) = cwd s"
    and "tmps (copy_input e k f s) = (tmps s)[k := tmps s ! k @ read_file e f s]" by blast+
qed

lemma copy_inputs_result:
  "k < length (tmps s) \<Longrightarrow>
   fd_at (fds (foldl (\<lambda>s f. copy_input e k f s) s fs)) = fd_at (fds s) \<and>
   files (foldl (\<lambda>s f. copy_input e k f s) s fs) = files s \<and>
   tmps (foldl (\<lambda>s f. copy_input e k f s) s fs) =
     (tmps s)[k := tmps s ! k @ concat (map (\<lambda>f. read_file e f s) fs)]"
proof (induction fs arbitrary: s)
  case Nil
  then show ?case by simp
next
  case (Cons f fs)
  note r = copy_input_result[OF Cons.prems, of e f]
  have "k < length (tmps (copy_input e k f s))" using r(4) Cons.prems by simp
  note IH = Cons.IH[OF this]
  have "read_file e g (copy_input e k f s) = read_file e g s" for g
    using r(2,3) by (simp add: read_file_def Let_def)
  with IH r Cons.prems show ?case by simp
qed

text \<open>
  \<open>build_input_tmp\<close>: the temporary file holds the input files one after another, and its
  descriptor is the only one added.
\<close>

lemma build_input_tmp_result:
  assumes "build_input_tmp e in_fs s = (r, s')"
  shows "case r of
      Input_fd tfd \<Rightarrow> opened (fds s) [tfd] (fds s') \<and>
        fd_at (fds s') tfd = Some (Tmp_file (length (tmps s))) \<and>
        tmps s' = tmps s @ [concat (map (\<lambda>f. read_file e f s) in_fs)]
    | _ \<Rightarrow> fds s' = fds s"
proof (cases "in_fs = [] \<or> \<not> list_all (\<lambda>f. path_exists e f s) in_fs \<or> \<not> mkstemp_ok e")
  case True
  with assms show ?thesis by (auto simp: build_input_tmp_def split: if_splits)
next
  case False
  let ?k = "length (tmps s)" and ?q = "s\<lparr>tmps := tmps s @ ['''']\<rparr>"
  obtain tfd s1 where n: "new_fd (Tmp_file ?k) ?q = (tfd, s1)" by fastforce
  obtain t where t: "s1 = ?q\<lparr>fds := t\<rparr>" "fd_at t = (fd_at (fds s))(tfd \<mapsto> Tmp_file ?k)"
    using new_fd_keeps[OF n] by auto
  have r: "r = Input_fd tfd" "s' = foldl (\<lambda>s f. copy_input e ?k f s) s1 in_fs"
    using assms False n by (auto simp: build_input_tmp_def new_tmp_def Let_def split: if_splits)
  have rd: "read_file e f s1 = read_file e f s" for f by (simp add: read_file_def Let_def t(1))
  have "?k < length (tmps s1)" using t(1) by simp
  note c = copy_inputs_result[OF this, of e in_fs]
  have "opened (fds s) [tfd] (fds s1)" using new_fd_opened[OF n] by simp
  moreover have "fd_at (fds s') = fd_at (fds s1)" using c r(2) by simp
  ultimately have "opened (fds s) [tfd] (fds s')" using opened_cong[of "fds s" "fds s" "fds s'"] by blast
  moreover have "tmps s' = tmps s @ [concat (map (\<lambda>f. read_file e f s) in_fs)]"
    using c r(2) t(1) rd by simp
  moreover have "fd_at (fds s') tfd = Some (Tmp_file ?k)" using c r(2) t by simp
  ultimately show ?thesis using r(1) by simp
qed

definition ctx_fds :: "out_ctx \<Rightarrow> nat list" where
  "ctx_fds ctx = (case tmp_fd ctx of None \<Rightarrow> [] | Some t \<Rightarrow> [t]) @ real_fds ctx"

lemma open_out_result:
  assumes "open_out e f app s = Some (fd, s')"
  shows "opened (fds s) [fd] (fds s')"
    and "fd_at (fds s') = (fd_at (fds s))(fd \<mapsto> Out_desc (length (descs s)))"
    and "descs s' = descs s @ [(abs_path e (cwd s) f, app, 0)]"
    and "files s' = (files s)(abs_path e (cwd s) f \<mapsto>
           (if app then content s (abs_path e (cwd s) f) else ''''))"
    and "cwd s' = cwd s" and "tmps s' = tmps s"
proof -
  let ?p = "abs_path e (cwd s) f"
  let ?q = "s\<lparr>files := (files s)(?p \<mapsto> (if app then content s ?p else '''')),
              descs := descs s @ [(?p, app, 0)]\<rparr>"
  have n: "new_fd (Out_desc (length (descs s))) ?q = (fd, s')"
    using assms by (auto simp: open_out_def content_def Let_def split: if_splits)
  obtain t where t: "s' = ?q\<lparr>fds := t\<rparr>" "fd_at t = (fd_at (fds s))(fd \<mapsto> Out_desc (length (descs s)))"
    using new_fd_keeps[OF n] by auto
  show "opened (fds s) [fd] (fds s')" using new_fd_opened[OF n] by simp
  show "fd_at (fds s') = (fd_at (fds s))(fd \<mapsto> Out_desc (length (descs s)))"
    and "descs s' = descs s @ [(?p, app, 0)]"
    and "files s' = (files s)(?p \<mapsto> (if app then content s ?p else ''''))"
    and "cwd s' = cwd s" and "tmps s' = tmps s"
    using t by simp_all
qed

lemma open_outs_result:
  "open_outs e outs acc s = (r, s') \<Longrightarrow> opened t acc (fds s) \<Longrightarrow>
   (case r of None \<Rightarrow> fd_at (fds s') = fd_at t | Some rs \<Rightarrow> opened t rs (fds s'))"
proof (induction outs arbitrary: acc s)
  case Nil
  then show ?case by auto
next
  case (Cons fa outs)
  obtain f app where fa: "fa = (f, app)" by fastforce
  show ?case
  proof (cases "open_out e f app s")
    case None
    with Cons.prems fa have "r = None" "fds s' = close_all acc (fds s)" by auto
    with opened_close_all[OF Cons.prems(2)] show ?thesis by simp
  next
    case (Some fs)
    obtain fd s1 where fs: "fs = (fd, s1)" by fastforce
    from Cons.prems fa Some fs have "open_outs e outs (acc @ [fd]) s1 = (r, s')" by simp
    from Cons.IH[OF this] opened_trans[OF Cons.prems(2) open_out_result(1)[OF Some[unfolded fs]]]
    show ?thesis by simp
  qed
qed

lemma prepare_output_result:
  assumes "prepare_output e outs s = (r, s')"
  shows "case r of None \<Rightarrow> fd_at (fds s') = fd_at (fds s)
    | Some ctx \<Rightarrow> opened (fds s) (ctx_fds ctx) (fds s') \<and> (tmp_fd ctx = None \<longrightarrow> real_fds ctx = [])"
proof (cases "outs = []")
  case True
  with assms show ?thesis by (auto simp: prepare_output_def ctx_fds_def)
next
  case False
  obtain r1 s1 where o: "open_outs e outs [] s = (r1, s1)" by fastforce
  note oo = open_outs_result[OF o opened_Nil]
  show ?thesis
  proof (cases r1)
    case None
    with assms o oo False show ?thesis by (auto simp: prepare_output_def)
  next
    case (Some rs)
    with oo have rs: "opened (fds s) rs (fds s1)" by simp
    show ?thesis
    proof (cases "mkstemp_ok e")
      case False
      with assms o Some \<open>outs \<noteq> []\<close> have "r = None" "fds s' = close_all rs (fds s1)"
        by (auto simp: prepare_output_def)
      with opened_close_all[OF rs] show ?thesis by simp
    next
      case True
      obtain tfd s2 where n: "new_tmp s1 = (tfd, s2)" by fastforce
      from n have "opened (fds s1) [tfd] (fds s2)" by (auto simp: new_tmp_def dest: new_fd_opened)
      from opened_trans[OF rs this] have "opened (fds s) (tfd # rs) (fds s2)"
        by (simp add: opened_def)
      with assms o Some True n \<open>outs \<noteq> []\<close> show ?thesis
        by (auto simp: prepare_output_def ctx_fds_def)
    qed
  qed
qed

lemma write_desc_fields [simp]:
  "fds (write_desc d buf s) = fds s" "tmps (write_desc d buf s) = tmps s"
  by (simp_all add: write_desc_def Let_def split: prod.split)

lemma write_fd_fields [simp]:
  "fds (write_fd fd buf s) = fds s" "tmps (write_fd fd buf s) = tmps s"
  by (simp_all add: write_fd_def split: option.split fdobj.split)

lemma write_fds_fields [simp]:
  "fds (foldl (\<lambda>s fd. write_fd fd buf s) s rs) = fds s"
  "tmps (foldl (\<lambda>s fd. write_fd fd buf s) s rs) = tmps s"
  by (induction rs arbitrary: s) simp_all

lemma write_chunks_fds [simp]:
  "fds (foldl (\<lambda>s buf. foldl (\<lambda>s fd. write_fd fd buf s) s rs) s bs) = fds s"
  by (induction bs arbitrary: s) simp_all

lemma flush_output_fds:
  "tmp_fd ctx = None \<longrightarrow> real_fds ctx = [] \<Longrightarrow>
   fds (flush_output ctx s) = close_all (ctx_fds ctx) (fds s)"
  by (auto simp: flush_output_def ctx_fds_def Let_def split: option.split)

section \<open>What the output files hold\<close>

lemma write_desc_appends:
  assumes "d < length (descs s)" and "descs s ! d = (p, app, off)"
    and "app \<or> off = length (content s p)"
  shows "content (write_desc d buf s) = (content s)(p := content s p @ buf)"
    and "descs (write_desc d buf s) = (descs s)[d := (p, app, length (content s p) + length buf)]"
  using assms by (auto simp: write_desc_def content_def Let_def fun_eq_iff)

text \<open>
  The descriptor, the open file behind it and its path; each is at the end of its file, and no
  file is open twice.
\<close>

definition at_end :: "(nat \<times> nat \<times> string) list \<Rightarrow> 'a xworld_scheme \<Rightarrow> bool" where
  "at_end T s \<longleftrightarrow>
     distinct (map (\<lambda>(fd, d, p). p) T) \<and>
     (\<forall>(fd, d, p) \<in> set T.
        fd_at (fds s) fd = Some (Out_desc d) \<and> d < length (descs s) \<and>
        (\<exists>app off. descs s ! d = (p, app, off) \<and> (app \<or> off = length (content s p))))"

lemma write_fd_at_end:
  assumes "at_end T s" and "(fd, d, p) \<in> set T"
  shows "at_end T (write_fd fd buf s)"
    and "content (write_fd fd buf s) = (content s)(p := content s p @ buf)"
proof -
  from assms obtain app off where d: "fd_at (fds s) fd = Some (Out_desc d)" "d < length (descs s)"
    "descs s ! d = (p, app, off)" "app \<or> off = length (content s p)"
    by (auto simp: at_end_def)
  have w: "write_fd fd buf s = write_desc d buf s" by (simp add: write_fd_def d(1))
  note wd = write_desc_appends[OF d(2-4), of buf]
  show "content (write_fd fd buf s) = (content s)(p := content s p @ buf)" by (simp add: w wd)
  let ?t = "write_fd fd buf s"
  have each: "fd_at (fds ?t) fd' = Some (Out_desc d') \<and> d' < length (descs ?t) \<and>
      (\<exists>app off. descs ?t ! d' = (p', app, off) \<and> (app \<or> off = length (content ?t p')))"
    if "(fd', d', p') \<in> set T" for fd' d' p'
  proof (cases "p' = p")
    case True
    with assms that have "(fd', d', p') = (fd, d, p)"
      unfolding at_end_def by (metis (mono_tags, lifting) distinct_map inj_on_def case_prod_conv)
    with d show ?thesis by (simp add: w wd)
  next
    case False
    from assms(1) that obtain a f where x: "fd_at (fds s) fd' = Some (Out_desc d')"
        "d' < length (descs s)" "descs s ! d' = (p', a, f)" "a \<or> f = length (content s p')"
      by (auto simp: at_end_def)
    with False d(3) have "d' \<noteq> d" by auto
    with x False show ?thesis by (simp add: w wd)
  qed
  then have "\<forall>u \<in> set T. case u of (fd, d, p) \<Rightarrow>
      fd_at (fds ?t) fd = Some (Out_desc d) \<and> d < length (descs ?t) \<and>
      (\<exists>app off. descs ?t ! d = (p, app, off) \<and> (app \<or> off = length (content ?t p)))"
    by blast
  with assms(1) show "at_end T ?t" by (simp only: at_end_def simp_thms)
qed

lemma write_fds_at_end:
  "set U \<subseteq> set T \<Longrightarrow> distinct (map (\<lambda>(fd, d, p). p) U) \<Longrightarrow> at_end T s \<Longrightarrow>
   at_end T (foldl (\<lambda>s fd. write_fd fd buf s) s (map fst U)) \<and>
   content (foldl (\<lambda>s fd. write_fd fd buf s) s (map fst U)) =
     (\<lambda>q. if q \<in> (\<lambda>(fd, d, p). p) ` set U then content s q @ buf else content s q)"
proof (induction U arbitrary: s)
  case Nil
  then show ?case by simp
next
  case (Cons u U)
  obtain fd d p where u: "u = (fd, d, p)" by (cases u) auto
  from Cons.prems u have "(fd, d, p) \<in> set T" by simp
  note w = write_fd_at_end[OF Cons.prems(3) this, of buf]
  show ?case
    using Cons.IH[OF _ _ w(1)] Cons.prems(1,2) u w(2) by (auto simp: fun_eq_iff)
qed

lemma write_chunks_at_end:
  "at_end T s \<Longrightarrow>
   content (foldl (\<lambda>s buf. foldl (\<lambda>s fd. write_fd fd buf s) s (map fst T)) s bs) =
     (\<lambda>q. if q \<in> (\<lambda>(fd, d, p). p) ` set T then content s q @ concat bs else content s q)"
proof (induction bs arbitrary: s)
  case Nil
  then show ?case by (simp add: fun_eq_iff)
next
  case (Cons b bs)
  have "distinct (map (\<lambda>(fd, d, p). p) T)" using Cons.prems by (simp add: at_end_def)
  note w = write_fds_at_end[OF subset_refl this Cons.prems, of b]
  with Cons.IH[of "foldl (\<lambda>s fd. write_fd fd b s) s (map fst T)"] show ?case by (simp add: fun_eq_iff)
qed

definition out_paths :: "('b fsenv_scheme) \<Rightarrow> (string \<times> bool) list \<Rightarrow> 'a xworld_scheme \<Rightarrow> string list" where
  "out_paths e outs s = map (\<lambda>(f, app). abs_path e (cwd s) f) outs"

text \<open>Opening: the files are emptied or kept, and every descriptor stands at its file's end.\<close>

lemma open_outs_at_end:
  "open_outs e outs acc s = (Some rs, s') \<Longrightarrow> distinct (out_paths e outs s) \<Longrightarrow>
   at_end T s \<Longrightarrow> map fst T = acc \<Longrightarrow> (\<lambda>(fd, d, p). p) ` set T \<inter> set (out_paths e outs s) = {} \<Longrightarrow>
   \<exists>U. rs = map fst U \<and> at_end U s' \<and> map (\<lambda>(fd, d, p). p) U = map (\<lambda>(fd, d, p). p) T @ out_paths e outs s \<and>
     tmps s' = tmps s \<and>
     content s' = (\<lambda>q. case map_of (map (\<lambda>(f, app). (abs_path e (cwd s) f, app)) outs) q of
        None \<Rightarrow> content s q | Some app \<Rightarrow> if app then content s q else '''')"
proof (induction outs arbitrary: acc s T)
  case Nil
  then show ?case by (auto simp: out_paths_def)
next
  case (Cons fa outs)
  obtain f app where fa: "fa = (f, app)" by fastforce
  let ?p = "abs_path e (cwd s) f"
  from Cons.prems(1) fa obtain fd s1 where o: "open_out e f app s = Some (fd, s1)"
    and rest: "open_outs e outs (acc @ [fd]) s1 = (Some rs, s')"
    by (auto split: option.splits)
  note r = open_out_result[OF o]
  have new: "fd_at (fds s) fd = None" using r(1) by (simp add: opened_def)
  have c1: "content s1 = (content s)(?p := (if app then content s ?p else ''''))"
    by (auto simp: content_def r(4) fun_eq_iff)
  have paths: "out_paths e (fa # outs) s = ?p # out_paths e outs s1"
    by (simp add: out_paths_def fa r(5))
  let ?T = "T @ [(fd, length (descs s), ?p)]"
  have ends: "at_end ?T s1"
    unfolding at_end_def
  proof (intro conjI ballI)
    show "distinct (map (\<lambda>(fd, d, p). p) ?T)"
      using Cons.prems(3,5) paths by (auto simp: at_end_def)
    fix u assume u: "u \<in> set ?T"
    obtain fd' d' p' where u3: "u = (fd', d', p')" by (cases u) auto
    have "fd_at (fds s1) fd' = Some (Out_desc d') \<and> d' < length (descs s1) \<and>
        (\<exists>app off. descs s1 ! d' = (p', app, off) \<and> (app \<or> off = length (content s1 p')))"
    proof (cases "u = (fd, length (descs s), ?p)")
      case True
      then show ?thesis using u3 by (simp add: r c1)
    next
      case False
      with u u3 have t: "(fd', d', p') \<in> set T" by auto
      with Cons.prems(5) paths have "p' \<noteq> ?p" by force
      with t Cons.prems(3) new show ?thesis by (force simp: at_end_def r c1 nth_append)
    qed
    then show "case u of (fd, d, p) \<Rightarrow> fd_at (fds s1) fd = Some (Out_desc d) \<and> d < length (descs s1) \<and>
        (\<exists>app off. descs s1 ! d = (p, app, off) \<and> (app \<or> off = length (content s1 p)))"
      by (simp add: u3)
  qed
  have d: "distinct (out_paths e outs s1)" "?p \<notin> set (out_paths e outs s1)"
    using Cons.prems(2) paths by simp_all
  have "map fst ?T = acc @ [fd]" using Cons.prems(4) by simp
  moreover have "(\<lambda>(fd, d, p). p) ` set ?T \<inter> set (out_paths e outs s1) = {}"
    using Cons.prems(5) paths d by auto
  ultimately obtain U where U: "rs = map fst U" "at_end U s'"
      "map (\<lambda>(fd, d, p). p) U = map (\<lambda>(fd, d, p). p) ?T @ out_paths e outs s1"
      "tmps s' = tmps s1"
      "content s' = (\<lambda>q. case map_of (map (\<lambda>(f, app). (abs_path e (cwd s1) f, app)) outs) q of
        None \<Rightarrow> content s1 q | Some app \<Rightarrow> if app then content s1 q else '''')"
    using Cons.IH[OF rest d(1) ends] by blast
  have "map_of (map (\<lambda>(f, app). (abs_path e (cwd s) f, app)) outs) ?p = None"
    using d(2) by (force simp: map_of_eq_None_iff out_paths_def r(5))
  with U(5) have "content s' = (\<lambda>q. case map_of (map (\<lambda>(f, app). (abs_path e (cwd s) f, app)) (fa # outs)) q of
        None \<Rightarrow> content s q | Some app \<Rightarrow> if app then content s q else '''')"
    by (auto simp: fa r(5) c1 fun_eq_iff split: option.splits)
  moreover have "tmps s' = tmps s" using U(4) r(6) by simp
  ultimately show ?case using U(1-3) paths by auto
qed

text \<open>What the last stage of the pipeline wrote to its standard output.\<close>

definition child_output :: "out_ctx \<Rightarrow> string \<Rightarrow> 'a xworld_scheme \<Rightarrow> 'a xworld_scheme" where
  "child_output ctx txt s =
     (case tmp_fd ctx of
        None \<Rightarrow> s
      | Some tfd \<Rightarrow>
          (case fd_at (fds s) tfd of
             Some (Tmp_file k) \<Rightarrow> s\<lparr>tmps := (tmps s)[k := tmps s ! k @ txt]\<rparr>
           | _ \<Rightarrow> s))"

lemma redirected_output:
  assumes "prepare_output e outs s = (Some ctx, s1)" and "outs \<noteq> []"
    and "distinct (out_paths e outs s)"
  shows "content (flush_output ctx (child_output ctx txt s1)) p =
    (case map_of (map (\<lambda>(f, app). (abs_path e (cwd s) f, app)) outs) p of
       None \<Rightarrow> content s p
     | Some app \<Rightarrow> (if app then content s p else '''') @ txt)"
proof -
  from assms(1,2) obtain rs s0 tfd where o: "open_outs e outs [] s = (Some rs, s0)"
    and n: "new_tmp s0 = (tfd, s1)" and ctx: "ctx = \<lparr>tmp_fd = Some tfd, real_fds = rs\<rparr>"
    by (auto simp: prepare_output_def split: prod.splits option.splits if_splits)
  have "at_end [] s" by (simp add: at_end_def)
  from open_outs_at_end[OF o assms(3) this] obtain U where U: "rs = map fst U" "at_end U s0"
      "map (\<lambda>(fd, d, p). p) U = out_paths e outs s" "tmps s0 = tmps s"
      "content s0 = (\<lambda>q. case map_of (map (\<lambda>(f, app). (abs_path e (cwd s) f, app)) outs) q of
        None \<Rightarrow> content s q | Some app \<Rightarrow> if app then content s q else '''')"
    by auto
  let ?k = "length (tmps s0)" and ?q = "s0\<lparr>tmps := tmps s0 @ ['''']\<rparr>"
  from n have nf: "new_fd (Tmp_file ?k) ?q = (tfd, s1)" by (simp add: new_tmp_def)
  obtain t where t: "s1 = ?q\<lparr>fds := t\<rparr>" "fd_at t = (fd_at (fds s0))(tfd \<mapsto> Tmp_file ?k)"
    using new_fd_keeps[OF nf] by auto
  have fresh: "fd_at (fds s0) tfd = None" using new_fd_opened[OF nf] by (simp add: opened_def)
  let ?s2 = "child_output ctx txt s1"
  have s2: "?s2 = s1\<lparr>tmps := tmps s0 @ [txt]\<rparr>"
    using t by (simp add: child_output_def ctx)
  have c: "content ?s2 = content s0" unfolding s2 by (simp add: t content_def fun_eq_iff)
  have "at_end U ?s2"
    using U(2) fresh unfolding at_end_def s2 by (force simp: t content_def)
  from write_chunks_at_end[OF this, of "chunks 8192 txt"]
  have w: "content (foldl (\<lambda>s buf. foldl (\<lambda>s fd. write_fd fd buf s) s rs) ?s2 (chunks 8192 txt)) =
      (\<lambda>q. if q \<in> set (out_paths e outs s) then content s0 q @ txt else content s0 q)"
    using c by (simp add: U(1) concat_chunks fun_eq_iff flip: U(3))
  have "flush_output ctx ?s2 =
      close_fds (tfd # rs) (foldl (\<lambda>s buf. foldl (\<lambda>s fd. write_fd fd buf s) s rs) ?s2 (chunks 8192 txt))"
    unfolding s2 by (simp add: flush_output_def ctx t)
  then have "content (flush_output ctx ?s2) p = (if p \<in> set (out_paths e outs s) then content s0 p @ txt else content s0 p)"
    using fun_cong[OF w, of p] by (simp add: content_def)
  moreover have "p \<in> set (out_paths e outs s) \<longleftrightarrow>
      map_of (map (\<lambda>(f, app). (abs_path e (cwd s) f, app)) outs) p \<noteq> None"
    by (force simp: map_of_eq_None_iff out_paths_def)
  ultimately show ?thesis by (auto simp: U(5) split: option.splits)
qed

end
