(* ===== verification/Sh_Lexer.thy ===== *)
theory Sh_Lexer
  imports Prelude
begin

text \<open>
  The shell's tokeniser, \<open>c-shell/src/lexer.c\<close>: the token type of \<open>include/lexer.h\<close>, the loop of
  \<open>maketoken\<close> as a recursion on the unread input with the code's variables (\<open>state\<close>, \<open>word\<close> up
  to \<open>index\<close>, \<open>content\<close>, the tokens written so far), and its two arrays with their sizes:
  \<open>word[1024]\<close> and the caller's \<open>tokens[256]\<close>.
\<close>

section \<open>Tokens\<close>

datatype tokentype =
    token_pipe | token_amp | token_semi | token_lt | token_gt | token_gtgt
  | token_word | token_fragment | token_dq | token_sq

text \<open>
  The code writes \<open>value\<close> for words only; for an operator the array stays uninitialised, which is
  \<open>None\<close> here.
\<close>

record token =
  ttype :: tokentype
  tvalue :: "string option"

definition mkop :: "tokentype \<Rightarrow> token" where
  "mkop t = \<lparr>ttype = t, tvalue = None\<rparr>"

definition mkword :: "string \<Rightarrow> token" where
  "mkword w = \<lparr>ttype = token_word, tvalue = Some w\<rparr>"

lemma ttype_mk [simp]: "ttype (mkop t) = t" "ttype (mkword w) = token_word"
  by (simp_all add: mkop_def mkword_def)

lemma tvalue_mk [simp]: "tvalue (mkop t) = None" "tvalue (mkword w) = Some w"
  by (simp_all add: mkop_def mkword_def)

definition WORD_SIZE :: nat where "WORD_SIZE = 1024"
definition maxtok :: nat where "maxtok = 256"

definition invalid_syntax :: string where
  "invalid_syntax = ''cshell: invalid syntax'' @ nl"

section \<open>The tokeniser\<close>

text \<open>\<open>word[index++] = c\<close>\<close>

definition put_char :: "string \<Rightarrow> char \<Rightarrow> string res" where
  "put_char w c = bnd (guard (length w < WORD_SIZE) ''word overflow'') (\<lambda>_. Ok (w @ [c]))"

text \<open>\<open>tokens[(*tok_count)++] = ...\<close>\<close>

definition put_token :: "token list \<Rightarrow> token \<Rightarrow> token list res" where
  "put_token ts t = bnd (guard (length ts < maxtok) ''tokens overflow'') (\<lambda>_. Ok (ts @ [t]))"

text \<open>The block \<open>if(content){ word[index] = '\0'; ... index=0; content=0; }\<close>.\<close>

definition flush_word :: "bool \<Rightarrow> string \<Rightarrow> token list \<Rightarrow> (string \<times> token list) res" where
  "flush_word content w ts =
     (if content then
        bnd (guard (length w < WORD_SIZE) ''word overflow'') (\<lambda>_.
        bnd (put_token ts (mkword w)) (\<lambda>ts. Ok ([], ts)))
      else Ok (w, ts))"

definition is_blank :: "char \<Rightarrow> bool" where
  "is_blank c \<longleftrightarrow> c = c_nl \<or> c = c_tab \<or> c = c_space \<or> c = c_cr"

definition is_operator :: "char \<Rightarrow> bool" where
  "is_operator c \<longleftrightarrow>
     c = CHR ''|'' \<or> c = CHR ''&'' \<or> c = CHR '';'' \<or> c = CHR ''<'' \<or> c = CHR ''>''"

text \<open>The one-character operators; \<open>>>\<close> is looked for first.\<close>

definition operator_type :: "char \<Rightarrow> tokentype" where
  "operator_type c =
     (if c = CHR ''>'' then token_gt else if c = CHR ''<'' then token_lt
      else if c = CHR ''|'' then token_pipe else if c = CHR ''&'' then token_amp else token_semi)"

text \<open>
  The return value, the tokens and what was printed.  \<open>state\<close> is 0 outside quotes, 1 inside
  single quotes, 2 inside double quotes.
\<close>

type_synonym lexresult = "(bool \<times> token list \<times> string) res"

definition maketoken_end :: "nat \<Rightarrow> string \<Rightarrow> bool \<Rightarrow> token list \<Rightarrow> lexresult" where
  "maketoken_end state w content ts =
     bnd (flush_word content w ts) (\<lambda>(w, ts).
       if state \<noteq> 0 then Ok (False, ts, invalid_syntax) else Ok (True, ts, ''''))"

fun maketoken_loop :: "string \<Rightarrow> nat \<Rightarrow> string \<Rightarrow> bool \<Rightarrow> token list \<Rightarrow> lexresult" where
  "maketoken_loop [] state w content ts = maketoken_end state w content ts"
| "maketoken_loop (c # rest) state w content ts =
    (if state = 0 then
       (if c = c_bslash then
          (case rest of
             [] \<Rightarrow> Ok (False, ts, invalid_syntax)
           | d # rest' \<Rightarrow> bnd (put_char w d) (\<lambda>w. maketoken_loop rest' 0 w True ts))
        else if c = c_squote then maketoken_loop rest 1 w True ts
        else if c = c_dquote then maketoken_loop rest 2 w True ts
        else if is_blank c then
          bnd (flush_word content w ts) (\<lambda>(w, ts). maketoken_loop rest 0 w False ts)
        else if is_operator c then
          bnd (flush_word content w ts) (\<lambda>(w, ts).
            (case rest of
               d # rest' \<Rightarrow>
                 if c = CHR ''>'' \<and> d = CHR ''>'' then
                   bnd (put_token ts (mkop token_gtgt)) (\<lambda>ts. maketoken_loop rest' 0 w False ts)
                 else
                   bnd (put_token ts (mkop (operator_type c))) (\<lambda>ts. maketoken_loop rest 0 w False ts)
             | [] \<Rightarrow>
                 bnd (put_token ts (mkop (operator_type c))) (\<lambda>ts. maketoken_loop rest 0 w False ts)))
        else bnd (put_char w c) (\<lambda>w. maketoken_loop rest 0 w True ts))
     else if state = 1 then
       (if c = c_squote then maketoken_loop rest 0 w content ts
        else bnd (put_char w c) (\<lambda>w. maketoken_loop rest 1 w True ts))
     else
       (case rest of
          d # rest' \<Rightarrow>
            if c = c_bslash \<and> (d = c_dquote \<or> d = c_bslash) then
              bnd (put_char w d) (\<lambda>w. maketoken_loop rest' 2 w True ts)
            else if c = c_dquote then maketoken_loop rest 0 w content ts
            else bnd (put_char w c) (\<lambda>w. maketoken_loop rest 2 w True ts)
        | [] \<Rightarrow>
            if c = c_dquote then maketoken_loop rest 0 w content ts
            else bnd (put_char w c) (\<lambda>w. maketoken_loop rest 2 w True ts)))"

definition maketoken :: "string \<Rightarrow> lexresult" where
  "maketoken input = maketoken_loop input 0 [] False []"

section \<open>One character at a time\<close>

text \<open>
  The loop's cases as separate equations, one per class of character; they replace the defining
  equation in every proof below.
\<close>

definition plain_char :: "char \<Rightarrow> bool" where
  "plain_char c \<longleftrightarrow> c \<noteq> c_bslash \<and> c \<noteq> c_squote \<and> c \<noteq> c_dquote \<and> \<not> is_blank c \<and> \<not> is_operator c"

text \<open>Inside double quotes a backslash is special before another backslash or a double quote.\<close>

definition dq_escape :: "char \<Rightarrow> string \<Rightarrow> bool" where
  "dq_escape c rest \<longleftrightarrow> c = c_bslash \<and> rest \<noteq> [] \<and> (hd rest = c_dquote \<or> hd rest = c_bslash)"

lemma blank_classes:
  "is_blank c \<Longrightarrow> c \<noteq> c_bslash \<and> c \<noteq> c_squote \<and> c \<noteq> c_dquote"
  "is_operator c \<Longrightarrow> c \<noteq> c_bslash \<and> c \<noteq> c_squote \<and> c \<noteq> c_dquote \<and> \<not> is_blank c"
  by (auto simp: is_blank_def is_operator_def)

lemma lex_step0:
  "maketoken_loop [c_bslash] 0 w b ts = Ok (False, ts, invalid_syntax)"
  "maketoken_loop (c_bslash # d # r) 0 w b ts = bnd (put_char w d) (\<lambda>w. maketoken_loop r 0 w True ts)"
  "maketoken_loop (c_squote # r) 0 w b ts = maketoken_loop r 1 w True ts"
  "maketoken_loop (c_dquote # r) 0 w b ts = maketoken_loop r 2 w True ts"
  "is_blank c \<Longrightarrow> maketoken_loop (c # r) 0 w b ts =
     bnd (flush_word b w ts) (\<lambda>(w, ts). maketoken_loop r 0 w False ts)"
  "plain_char c \<Longrightarrow> maketoken_loop (c # r) 0 w b ts =
     bnd (put_char w c) (\<lambda>w. maketoken_loop r 0 w True ts)"
  by (simp_all add: plain_char_def blank_classes)

lemma lex_step_operator:
  "maketoken_loop (CHR ''>'' # CHR ''>'' # r) 0 w b ts =
     bnd (flush_word b w ts) (\<lambda>(w, ts).
     bnd (put_token ts (mkop token_gtgt)) (\<lambda>ts. maketoken_loop r 0 w False ts))"
  "is_operator c \<Longrightarrow> c \<noteq> CHR ''>'' \<or> r = [] \<or> hd r \<noteq> CHR ''>'' \<Longrightarrow>
     maketoken_loop (c # r) 0 w b ts =
     bnd (flush_word b w ts) (\<lambda>(w, ts).
     bnd (put_token ts (mkop (operator_type c))) (\<lambda>ts. maketoken_loop r 0 w False ts))"
  by (subst maketoken_loop.simps(2), simp add: is_operator_def is_blank_def)
    (subst maketoken_loop.simps(2), cases r, auto simp: blank_classes)

lemma lex_step1:
  "maketoken_loop (c_squote # r) (Suc 0) w b ts = maketoken_loop r 0 w b ts"
  "c \<noteq> c_squote \<Longrightarrow> maketoken_loop (c # r) (Suc 0) w b ts =
     bnd (put_char w c) (\<lambda>w. maketoken_loop r 1 w True ts)"
  by simp_all

lemma lex_step2:
  "dq_escape c (d # r) \<Longrightarrow> maketoken_loop (c # d # r) 2 w b ts =
     bnd (put_char w d) (\<lambda>w. maketoken_loop r 2 w True ts)"
  "maketoken_loop (c_dquote # r) 2 w b ts = maketoken_loop r 0 w b ts"
  "\<not> dq_escape c r \<Longrightarrow> c \<noteq> c_dquote \<Longrightarrow> maketoken_loop (c # r) 2 w b ts =
     bnd (put_char w c) (\<lambda>w. maketoken_loop r 2 w True ts)"
  by (cases r; auto simp: dq_escape_def)+

lemmas lex_steps = lex_step0 lex_step_operator lex_step1 lex_step2

declare maketoken_loop.simps(2) [simp del]

lemma char_cases0:
  obtains (bslash) "c = c_bslash" | (squote) "c = c_squote" | (dquote) "c = c_dquote"
  | (blank) "is_blank c" | (gtgt) r' where "c = CHR ''>''" "r = CHR ''>'' # r'"
  | (op) "is_operator c" "c \<noteq> CHR ''>'' \<or> r = [] \<or> hd r \<noteq> CHR ''>''"
  | (plain) "plain_char c"
  by (cases r) (auto simp: plain_char_def)

section \<open>Bounds\<close>

text \<open>
  What is left of the two arrays never runs out on a short line: every character of the input
  stores at most one character and emits at most one token, beside the word it may end.
\<close>

definition room :: "token list \<Rightarrow> bool \<Rightarrow> string \<Rightarrow> string \<Rightarrow> bool" where
  "room ts content w inp \<longleftrightarrow>
     length ts + length inp + (if content then 1 else 0) \<le> maxtok \<and>
     length w + length inp < WORD_SIZE"

lemma flush_word_room:
  assumes "room ts b w (c # r)"
  obtains w' ts' where "flush_word b w ts = Ok (w', ts')" and "length ts' < maxtok"
    and "room ts' False w' r" and "length ts' + length r < maxtok"
  using assms that
  by (cases b) (simp_all add: room_def flush_word_def put_token_def bnd_guard)

lemma put_token_room:
  "length ts + length r < maxtok \<Longrightarrow> room ts b w r \<Longrightarrow>
   put_token ts t = Ok (ts @ [t]) \<and> room (ts @ [t]) False w r"
  by (simp add: put_token_def room_def bnd_guard)

lemma put_char_room:
  "room ts b w (c # r) \<Longrightarrow> put_char w d = Ok (w @ [d]) \<and> room ts True (w @ [d]) r"
  by (auto simp: put_char_def room_def bnd_guard split: if_splits)

lemma room_mono: "room ts b w (c # r) \<Longrightarrow> room ts b' w r"
  by (auto simp: room_def split: if_splits)

lemma operator_room:
  assumes "room ts b w (c # r)" and "\<And>w ts. room ts False w r \<Longrightarrow> is_ok (f w ts)"
  shows "is_ok (bnd (flush_word b w ts) (\<lambda>(w, ts). bnd (put_token ts t) (f w)))"
proof -
  obtain w' ts' where fl: "flush_word b w ts = Ok (w', ts')" "room ts' False w' r"
    "length ts' + length r < maxtok"
    using assms(1) by (rule flush_word_room)
  with assms(2) put_token_room[OF fl(3) fl(2)] show ?thesis by auto
qed

lemma maketoken_loop_no_overflow:
  "room ts content w inp \<Longrightarrow> state \<in> {0, 1, 2} \<Longrightarrow> is_ok (maketoken_loop inp state w content ts)"
proof (induction inp arbitrary: state w content ts rule: length_induct)
  case (1 inp)
  note IH = "1.IH"[rule_format] and room = "1.prems"(1)
  show ?case
  proof (cases inp)
    case Nil
    with room show ?thesis
      by (auto simp: maketoken_end_def flush_word_def put_token_def bnd_guard room_def)
  next
    case (Cons c r)
    note room = room[unfolded Cons]
    have rec: "room ts' b' w' r \<Longrightarrow> s \<in> {0, 1, 2} \<Longrightarrow> is_ok (maketoken_loop r s w' b' ts')"
      for ts' b' w' s by (rule IH) (simp_all add: Cons)
    have rec2: "r = d # r' \<Longrightarrow> room ts' True w' r \<Longrightarrow> s \<in> {0, 1, 2} \<Longrightarrow>
        is_ok (maketoken_loop r' s w' True ts')" for d r' ts' w' s
      by (rule IH) (auto simp: Cons dest: room_mono)
    consider "state = 0" | "state = 1" | "state = 2" using "1.prems"(2) by auto
    then show ?thesis
    proof cases
      case 1
      show ?thesis
      proof (cases rule: char_cases0[where c = c and r = r])
        case bslash
        then show ?thesis
          using 1 Cons put_char_room[OF room] rec2 by (cases r) (auto simp: lex_steps)
      next
        case squote
        then show ?thesis using 1 Cons rec room_mono[OF room] by (simp add: lex_steps)
      next
        case dquote
        then show ?thesis using 1 Cons rec room_mono[OF room] by (simp add: lex_steps)
      next
        case blank
        obtain w' ts' where "flush_word content w ts = Ok (w', ts')" "room ts' False w' r"
          using room by (rule flush_word_room)
        with blank 1 Cons rec show ?thesis by (simp add: lex_steps)
      next
        case (gtgt r')
        have "is_ok (bnd (flush_word content w ts) (\<lambda>(w, ts). bnd (put_token ts (mkop token_gtgt))
            (\<lambda>ts. maketoken_loop r' 0 w False ts)))"
          by (rule operator_room[OF room], rule IH) (auto simp: Cons gtgt dest: room_mono)
        with gtgt 1 Cons show ?thesis by (simp add: lex_steps)
      next
        case op
        have "is_ok (bnd (flush_word content w ts) (\<lambda>(w, ts). bnd (put_token ts (mkop (operator_type c)))
            (\<lambda>ts. maketoken_loop r 0 w False ts)))"
          by (rule operator_room[OF room], rule rec) simp_all
        with op 1 Cons show ?thesis by (simp add: lex_steps)
      next
        case plain
        then show ?thesis using 1 Cons rec put_char_room[OF room] by (simp add: lex_steps)
      qed
    next
      case 2
      then show ?thesis
        using Cons rec put_char_room[OF room] room_mono[OF room]
        by (cases "c = c_squote") (simp_all add: lex_steps)
    next
      case 3
      then show ?thesis
        using Cons rec rec2 put_char_room[OF room] room_mono[OF room]
        by (cases "dq_escape c r"; cases "c = c_dquote"; cases r)
          (auto simp: lex_steps dq_escape_def)
    qed
  qed
qed

section \<open>Quoting and its inverse\<close>

text \<open>
  The ways to write a word on a command line: as it is, with a backslash before every character,
  in single quotes, and in double quotes with the two escapes that are special there.
\<close>

datatype quoting = Plain | Escaped | Single | Double

definition dquote_char :: "char \<Rightarrow> string" where
  "dquote_char c = (if c = c_dquote \<or> c = c_bslash then [c_bslash, c] else [c])"

fun quote_word :: "quoting \<Rightarrow> string \<Rightarrow> string" where
  "quote_word Plain w = w"
| "quote_word Escaped w = concat (map (\<lambda>c. [c_bslash, c]) w)"
| "quote_word Single w = c_squote # w @ [c_squote]"
| "quote_word Double w = c_dquote # concat (map dquote_char w) @ [c_dquote]"

fun quotable :: "quoting \<Rightarrow> string \<Rightarrow> bool" where
  "quotable Plain w \<longleftrightarrow> w \<noteq> [] \<and> list_all plain_char w"
| "quotable Escaped w \<longleftrightarrow> w \<noteq> []"
| "quotable Single w \<longleftrightarrow> c_squote \<notin> set w"
| "quotable Double w \<longleftrightarrow> True"

lemma lex_plain:
  "list_all plain_char w \<Longrightarrow> w \<noteq> [] \<Longrightarrow> length u + length w \<le> WORD_SIZE \<Longrightarrow>
   maketoken_loop (w @ rest) 0 u content ts = maketoken_loop rest 0 (u @ w) True ts"
proof (induction w arbitrary: u content)
  case Nil
  then show ?case by simp
next
  case (Cons c w)
  then show ?case by (cases "w = []") (auto simp: lex_steps put_char_def bnd_guard)
qed

lemma lex_escaped:
  "w \<noteq> [] \<Longrightarrow> length u + length w \<le> WORD_SIZE \<Longrightarrow>
   maketoken_loop (concat (map (\<lambda>c. [c_bslash, c]) w) @ rest) 0 u content ts =
   maketoken_loop rest 0 (u @ w) True ts"
proof (induction w arbitrary: u content)
  case Nil
  then show ?case by simp
next
  case (Cons c w)
  then show ?case by (cases "w = []") (auto simp: lex_steps put_char_def bnd_guard)
qed

lemma lex_single:
  "c_squote \<notin> set w \<Longrightarrow> length u + length w \<le> WORD_SIZE \<Longrightarrow>
   maketoken_loop (w @ c_squote # rest) (Suc 0) u True ts = maketoken_loop rest 0 (u @ w) True ts"
  by (induction w arbitrary: u) (auto simp: lex_steps put_char_def bnd_guard)

lemma hd_dquoted: "hd (concat (map dquote_char w) @ c_dquote # rest) = c_dquote \<or>
    hd (concat (map dquote_char w) @ c_dquote # rest) = hd w \<or>
    hd (concat (map dquote_char w) @ c_dquote # rest) = c_bslash"
  by (cases w) (simp_all add: dquote_char_def)

lemma lex_double:
  "length u + length w \<le> WORD_SIZE \<Longrightarrow>
   maketoken_loop (concat (map dquote_char w) @ c_dquote # rest) 2 u True ts =
   maketoken_loop rest 0 (u @ w) True ts"
proof (induction w arbitrary: u)
  case Nil
  then show ?case by (simp add: lex_steps)
next
  case (Cons c w)
  then show ?case
    by (cases "c = c_dquote \<or> c = c_bslash")
      (auto simp: dquote_char_def[of c] put_char_def bnd_guard lex_steps dq_escape_def)
qed

lemma lex_quoted:
  assumes "quotable q w" and "length w < WORD_SIZE"
  shows "maketoken_loop (quote_word q w @ rest) 0 [] False ts = maketoken_loop rest 0 w True ts"
  using assms
  by (cases q) (simp_all add: lex_plain lex_escaped lex_single lex_double lex_steps)

text \<open>A command line: its tokens, each word with a way to quote it, with a blank after each.\<close>

fun render_token :: "quoting \<Rightarrow> token \<Rightarrow> string" where
  "render_token q t =
     (case ttype t of
        token_pipe \<Rightarrow> ''|'' | token_amp \<Rightarrow> ''&'' | token_semi \<Rightarrow> '';'' | token_lt \<Rightarrow> ''<''
      | token_gt \<Rightarrow> ''>'' | token_gtgt \<Rightarrow> ''>>''
      | _ \<Rightarrow> quote_word q (case tvalue t of Some w \<Rightarrow> w | None \<Rightarrow> []))"

definition render :: "(quoting \<times> token) list \<Rightarrow> string" where
  "render qts = concat (map (\<lambda>(q, t). render_token q t @ [c_space]) qts)"

definition renderable :: "quoting \<times> token \<Rightarrow> bool" where
  "renderable qt =
     (case qt of (q, t) \<Rightarrow>
        (case tvalue t of
           Some w \<Rightarrow> ttype t = token_word \<and> quotable q w \<and> length w < WORD_SIZE
         | None \<Rightarrow> ttype t \<in> {token_pipe, token_amp, token_semi, token_lt, token_gt, token_gtgt}))"

lemma token_eq_mk:
  "ttype t = token_word \<Longrightarrow> tvalue t = Some w \<Longrightarrow> (t :: token) = mkword w"
  "tvalue t = None \<Longrightarrow> (t :: token) = mkop (ttype t)"
  by (simp_all add: mkword_def mkop_def)

lemma lex_render_token:
  assumes "renderable (q, t)" and "length ts < maxtok"
  shows "maketoken_loop (render_token q t @ c_space # rest) 0 [] False ts =
    maketoken_loop rest 0 [] False (ts @ [t])"
proof (cases "tvalue t")
  case (Some w)
  with assms have t: "t = mkword w" and q: "quotable q w" "length w < WORD_SIZE"
    by (simp_all add: renderable_def token_eq_mk)
  have "maketoken_loop (c_space # rest) 0 w True ts = maketoken_loop rest 0 [] False (ts @ [t])"
    using q(2) assms(2) t
    by (simp add: lex_steps is_blank_def flush_word_def put_token_def bnd_guard)
  then show ?thesis using q t by (simp add: lex_quoted)
next
  case None
  then obtain y where t: "t = mkop y" using token_eq_mk(2) by blast
  show ?thesis
    using assms None unfolding t
    by (auto simp: renderable_def lex_steps is_blank_def is_operator_def flush_word_def
        put_token_def bnd_guard operator_type_def)
qed

lemma lex_render:
  "list_all renderable qts \<Longrightarrow> length ts + length qts \<le> maxtok \<Longrightarrow>
   maketoken_loop (render qts) 0 [] False ts = Ok (True, ts @ map snd qts, '''')"
proof (induction qts arbitrary: ts)
  case Nil
  then show ?case by (simp add: render_def maketoken_end_def flush_word_def)
next
  case (Cons qt qts)
  obtain q t where "qt = (q, t)" by force
  with Cons lex_render_token[of q t ts "render qts"] show ?case
    by (simp add: render_def del: render_token.simps)
qed

section \<open>The tokens produced\<close>

definition wf_token :: "token \<Rightarrow> bool" where
  "wf_token t \<longleftrightarrow>
     (case tvalue t of
        Some w \<Rightarrow> ttype t = token_word \<and> length w < WORD_SIZE
      | None \<Rightarrow> ttype t \<in> {token_pipe, token_amp, token_semi, token_lt, token_gt, token_gtgt})"

lemma wf_mk [simp]:
  "wf_token (mkword w) \<longleftrightarrow> length w < WORD_SIZE"
  "wf_token (mkop t) \<longleftrightarrow> t \<in> {token_pipe, token_amp, token_semi, token_lt, token_gt, token_gtgt}"
  by (auto simp: wf_token_def)

definition wf_tokens :: "token list \<Rightarrow> bool" where
  "wf_tokens ts \<longleftrightarrow> list_all wf_token ts \<and> length ts \<le> maxtok"

lemma flush_word_wf:
  "wf_tokens ts \<Longrightarrow> flush_word b w ts = Ok (w', ts') \<Longrightarrow> wf_tokens ts'"
  by (auto simp: flush_word_def put_token_def bnd_guard wf_tokens_def split: if_splits)

lemma put_token_wf:
  "wf_tokens ts \<Longrightarrow> wf_token t \<Longrightarrow> put_token ts t = Ok ts' \<Longrightarrow> wf_tokens ts'"
  by (auto simp: put_token_def bnd_guard wf_tokens_def split: if_splits)

text \<open>A result that, if the lexer returns, is well formed and prints as it should.\<close>

definition lex_good :: "lexresult \<Rightarrow> bool" where
  "lex_good m \<longleftrightarrow>
     (\<forall>ok ts out. m = Ok (ok, ts, out) \<longrightarrow> wf_tokens ts \<and> out = (if ok then [] else invalid_syntax))"

lemma lex_good_bnd: "(\<And>x. m = Ok x \<Longrightarrow> lex_good (f x)) \<Longrightarrow> lex_good (bnd m f)"
  by (cases m) (simp_all add: lex_good_def)

lemma lex_good_operator:
  assumes "wf_tokens ts" and "wf_token t" and "\<And>w ts. wf_tokens ts \<Longrightarrow> lex_good (f w ts)"
  shows "lex_good (bnd (flush_word b w ts) (\<lambda>(w, ts). bnd (put_token ts t) (f w)))"
proof (rule lex_good_bnd)
  fix x
  assume x: "flush_word b w ts = Ok x"
  obtain w' us where "x = (w', us)" by force
  with x assms(1) have "wf_tokens us" by (simp add: flush_word_wf)
  have "lex_good (bnd (put_token us t) (f w'))"
  proof (rule lex_good_bnd)
    fix vs
    assume "put_token us t = Ok vs"
    then show "lex_good (f w' vs)" by (rule assms(3)[OF put_token_wf[OF \<open>wf_tokens us\<close> assms(2)]])
  qed
  with \<open>x = (w', us)\<close> show "lex_good (case x of (w, ts) \<Rightarrow> bnd (put_token ts t) (f w))" by simp
qed

lemma maketoken_loop_wf:
  "wf_tokens ts \<Longrightarrow> state \<in> {0, 1, 2} \<Longrightarrow> lex_good (maketoken_loop inp state w content ts)"
proof (induction inp arbitrary: state w content ts rule: length_induct)
  case (1 inp)
  note IH = "1.IH"[rule_format] and wf = "1.prems"(1)
  show ?case
  proof (cases inp)
    case Nil
    with wf show ?thesis
      by (auto simp: maketoken_end_def lex_good_def bnd_eq_Ok dest: flush_word_wf split: if_splits)
  next
    case (Cons c r)
    have rec: "wf_tokens us \<Longrightarrow> s \<in> {0, 1, 2} \<Longrightarrow> lex_good (maketoken_loop r s w' b' us)"
      for us s w' b' by (rule IH) (simp_all add: Cons)
    have rec2: "r = d # r' \<Longrightarrow> wf_tokens us \<Longrightarrow> s \<in> {0, 1, 2} \<Longrightarrow>
      lex_good (maketoken_loop r' s w' b' us)" for d r' us s w' b' by (rule IH) (simp_all add: Cons)
    consider "state = 0" | "state = 1" | "state = 2" using "1.prems"(2) by auto
    then show ?thesis
    proof cases
      case 1
      show ?thesis
      proof (cases rule: char_cases0[where c = c and r = r])
        case bslash
        with 1 Cons wf rec2 show ?thesis
          by (cases r) (auto simp: lex_steps lex_good_def[of "Ok _"] intro!: lex_good_bnd)
      next
        case blank
        with 1 Cons wf rec show ?thesis
          by (auto simp: lex_steps dest: flush_word_wf intro!: lex_good_bnd)
      next
        case (gtgt r')
        with 1 Cons wf rec2[OF gtgt(2)] show ?thesis
          by (simp add: lex_steps) (rule lex_good_operator, simp_all)
      next
        case op
        with 1 Cons wf rec show ?thesis
          by (simp add: lex_steps) (rule lex_good_operator, simp_all add: operator_type_def)
      next
        case plain
        with 1 Cons wf rec show ?thesis by (auto simp: lex_steps intro!: lex_good_bnd)
      qed (use 1 Cons wf rec in \<open>simp_all add: lex_steps\<close>)
    next
      case 2
      with Cons wf rec show ?thesis
        by (cases "c = c_squote") (auto simp: lex_steps intro!: lex_good_bnd)
    next
      case 3
      with Cons wf rec rec2 show ?thesis
        by (cases "dq_escape c r"; cases "c = c_dquote"; cases r)
          (auto simp: lex_steps dq_escape_def intro!: lex_good_bnd)
    qed
  qed
qed

lemma maketoken_wf:
  "maketoken inp = Ok (ok, ts, out) \<Longrightarrow> wf_tokens ts \<and> out = (if ok then [] else invalid_syntax)"
  using maketoken_loop_wf[of "[]" 0 inp "[]" False]
  by (simp add: maketoken_def lex_good_def wf_tokens_def)

section \<open>Overflow\<close>

lemma lex_repeat_operator:
  "maketoken_loop (replicate n (CHR '';'')) 0 [] False ts =
     (if length ts + n \<le> maxtok then Ok (True, ts @ replicate n (mkop token_semi), [])
      else Undef ''tokens overflow'')"
  if "length ts \<le> maxtok"
  using that
proof (induction n arbitrary: ts)
  case 0
  then show ?case by (simp add: maketoken_end_def flush_word_def)
next
  case (Suc n)
  then show ?case
    by (cases "length ts < maxtok")
      (simp_all add: lex_steps is_operator_def operator_type_def flush_word_def put_token_def
        bnd_guard)
qed

lemma lex_repeat_plain:
  "plain_char c \<Longrightarrow> length w \<le> WORD_SIZE \<Longrightarrow> length w + n > 0 \<Longrightarrow>
   maketoken_loop (replicate n c) 0 w (w \<noteq> []) [] =
     (if length w + n < WORD_SIZE then Ok (True, [mkword (w @ replicate n c)], [])
      else Undef ''word overflow'')"
proof (induction n arbitrary: w)
  case 0
  then show ?case
    by (auto simp: maketoken_end_def flush_word_def put_token_def bnd_guard maxtok_def)
next
  case (Suc n)
  from Suc.IH[of "w @ [c]"] Suc.prems show ?case
    by (auto simp: lex_steps put_char_def bnd_guard replicate_app_Cons_same)
qed

end
