(* ===== verification/Sh_Parser.thy ===== *)
theory Sh_Parser
  imports Sh_Lexer
begin

text \<open>
  The syntax check of \<open>c-shell/src/parser.c\<close>: the four-state automaton of \<open>parsing\<close>, and the
  language it accepts, stated without states: no two operators next to each other, a word first,
  a word or \<open>&\<close> last.
\<close>

section \<open>The automaton\<close>

text \<open>One round of the loop: the next state, or \<open>None\<close> where it prints and returns 0.\<close>

definition parse_step :: "nat \<Rightarrow> tokentype \<Rightarrow> nat option" where
  "parse_step state t =
     (if state = 0 then (if t = token_word then Some 1 else None)
      else if state = 1 then
        (if t = token_word then Some 1
         else if t = token_lt \<or> t = token_gt \<or> t = token_gtgt then Some 2
         else if t = token_pipe \<or> t = token_semi then Some 0
         else if t = token_amp then Some 3
         else Some 1)
      else if state = 2 then (if t = token_word then Some 1 else None)
      else if state = 3 then (if t = token_word then Some 1 else None)
      else Some state)"

fun parsing_loop :: "token list \<Rightarrow> nat \<Rightarrow> bool \<times> string" where
  "parsing_loop [] state =
     (if state = 0 then (False, invalid_syntax)
      else if state = 2 then (False, invalid_syntax)
      else (True, ''''))"
| "parsing_loop (t # ts) state =
     (case parse_step state (ttype t) of
        None \<Rightarrow> (False, invalid_syntax)
      | Some state' \<Rightarrow> parsing_loop ts state')"

definition parsing :: "token list \<Rightarrow> bool \<times> string" where
  "parsing tokens = (if tokens = [] then (True, '''') else parsing_loop tokens 0)"

section \<open>The language accepted\<close>

abbreviation is_word :: "token \<Rightarrow> bool" where
  "is_word t \<equiv> ttype t = token_word"

fun no_adjacent_operators :: "token list \<Rightarrow> bool" where
  "no_adjacent_operators (t # u # ts) \<longleftrightarrow>
     (is_word t \<or> is_word u) \<and> no_adjacent_operators (u # ts)"
| "no_adjacent_operators _ \<longleftrightarrow> True"

definition command_line :: "token list \<Rightarrow> bool" where
  "command_line ts \<longleftrightarrow>
     ts = [] \<or>
     is_word (hd ts) \<and> (is_word (last ts) \<or> ttype (last ts) = token_amp) \<and>
     no_adjacent_operators ts"

text \<open>The state the automaton is in after a token that it did not reject.\<close>

definition state_after :: "tokentype \<Rightarrow> nat" where
  "state_after t =
     (if t = token_word then 1
      else if t = token_lt \<or> t = token_gt \<or> t = token_gtgt then 2
      else if t = token_amp then 3 else 0)"

lemma parse_step_after:
  "wf_token t \<Longrightarrow> wf_token u \<Longrightarrow>
   parse_step (state_after (ttype t)) (ttype u) =
     (if is_word t \<or> is_word u then Some (state_after (ttype u)) else None)"
  by (auto simp: parse_step_def state_after_def wf_token_def split: option.splits)

lemma parsing_loop_after:
  "wf_token t \<Longrightarrow> list_all wf_token ts \<Longrightarrow>
   fst (parsing_loop ts (state_after (ttype t))) \<longleftrightarrow>
     no_adjacent_operators (t # ts) \<and>
     (is_word (last (t # ts)) \<or> ttype (last (t # ts)) = token_amp)"
proof (induction ts arbitrary: t)
  case Nil
  then show ?case by (auto simp: state_after_def wf_token_def split: option.splits)
next
  case (Cons u ts)
  then show ?case by (auto simp: parse_step_after split: option.splits)
qed

lemma parsing_iff:
  assumes "list_all wf_token ts"
  shows "fst (parsing ts) \<longleftrightarrow> command_line ts"
proof (cases ts)
  case Nil
  then show ?thesis by (simp add: parsing_def command_line_def)
next
  case (Cons t us)
  then show ?thesis
  proof (cases "is_word t")
    case True
    then have "parse_step 0 (ttype t) = Some (state_after (ttype t))"
      by (simp add: parse_step_def state_after_def)
    with Cons True assms parsing_loop_after[of t us] show ?thesis
      by (simp add: parsing_def command_line_def conj_commute)
  next
    case False
    with Cons show ?thesis by (simp add: parsing_def command_line_def parse_step_def)
  qed
qed

lemma parsing_loop_output:
  "snd (parsing_loop ts s) = (if fst (parsing_loop ts s) then [] else invalid_syntax)"
  by (induction ts s rule: parsing_loop.induct) (auto split: option.splits)

lemma parsing_output:
  "snd (parsing ts) = (if fst (parsing ts) then [] else invalid_syntax)"
  by (simp add: parsing_def parsing_loop_output)

end
