(* ===== verification/Sh_Pipeline.thy ===== *)
theory Sh_Pipeline
  imports Sh_Parser
begin

text \<open>
  How a checked token list becomes commands: the \<open>commands\<close> struct of \<open>include/shell.h\<close> with the
  sizes of its arrays, the inner loop of \<open>run_cmd\<close> (\<open>c-shell/src/execute.c\<close>) that fills one
  pipeline up to \<open>;\<close>, \<open>&\<close> or the end, and its outer loop over the line, generic in what runs a
  foreground and a background pipeline.
\<close>

section \<open>Commands\<close>

definition ARGV_SIZE :: nat where "ARGV_SIZE = 100"
definition FILES_SIZE :: nat where "FILES_SIZE = 20"
definition STAGES_SIZE :: nat where "STAGES_SIZE = 100"

text \<open>The used prefixes of the arrays; \<open>argcount\<close>, \<open>incount\<close> and \<open>outcount\<close> are their lengths.\<close>

record commands =
  argv :: "string list"
  in_files :: "string list"
  out_files :: "(string \<times> bool) list"

definition no_command :: commands where
  "no_command = \<lparr>argv = [], in_files = [], out_files = []\<rparr>"

datatype terminator = TERM_SEMI | TERM_AMP | TERM_END

text \<open>\<open>tokens[i].value\<close>: only a word's value has been written.\<close>

definition value_of :: "token \<Rightarrow> string res" where
  "value_of t = (case tvalue t of Some w \<Rightarrow> Ok w | None \<Rightarrow> Undef ''uninitialised token value'')"

definition push_arg :: "commands \<Rightarrow> token \<Rightarrow> commands res" where
  "push_arg cur t =
     bnd (guard (length (argv cur) < ARGV_SIZE) ''argv overflow'') (\<lambda>_.
     bnd (value_of t) (\<lambda>w. Ok (cur\<lparr>argv := argv cur @ [w]\<rparr>)))"

definition push_in :: "commands \<Rightarrow> token \<Rightarrow> commands res" where
  "push_in cur t =
     bnd (guard (length (in_files cur) < FILES_SIZE) ''in_files overflow'') (\<lambda>_.
     bnd (value_of t) (\<lambda>w. Ok (cur\<lparr>in_files := in_files cur @ [w]\<rparr>)))"

definition push_out :: "bool \<Rightarrow> commands \<Rightarrow> token \<Rightarrow> commands res" where
  "push_out app cur t =
     bnd (guard (length (out_files cur) < FILES_SIZE) ''out_files overflow'') (\<lambda>_.
     bnd (value_of t) (\<lambda>w. Ok (cur\<lparr>out_files := out_files cur @ [(w, app)]\<rparr>)))"

text \<open>\<open>cur->argv[cur->argcount] = NULL\<close>\<close>

definition null_terminate :: "commands \<Rightarrow> unit res" where
  "null_terminate cur = guard (length (argv cur) < ARGV_SIZE) ''argv overflow''"

text \<open>
  The inner loop: the finished stages, the current one, and the tokens from \<open>tokens[i]\<close> on.  It
  returns the pipeline and the tokens from the terminator on.
\<close>

fun build_stages :: "token list \<Rightarrow> commands list \<Rightarrow> commands \<Rightarrow> (commands list \<times> token list) res" where
  "build_stages [] stgs cur = bnd (null_terminate cur) (\<lambda>_. Ok (stgs @ [cur], []))"
| "build_stages (t # ts) stgs cur =
    (if ttype t = token_semi \<or> ttype t = token_amp then
       bnd (null_terminate cur) (\<lambda>_. Ok (stgs @ [cur], t # ts))
     else if ttype t = token_word then
       bnd (push_arg cur t) (\<lambda>cur. build_stages ts stgs cur)
     else
       (case ts of
          u # ts' \<Rightarrow>
            if ttype t = token_lt then bnd (push_in cur u) (\<lambda>cur. build_stages ts' stgs cur)
            else if ttype t = token_gt then bnd (push_out False cur u) (\<lambda>cur. build_stages ts' stgs cur)
            else if ttype t = token_gtgt then bnd (push_out True cur u) (\<lambda>cur. build_stages ts' stgs cur)
            else if ttype t = token_pipe then
              bnd (null_terminate cur) (\<lambda>_.
              bnd (guard (Suc (length stgs) < STAGES_SIZE) ''pipeline overflow'') (\<lambda>_.
                build_stages ts (stgs @ [cur]) no_command))
            else build_stages ts stgs cur
        | [] \<Rightarrow>
            if ttype t = token_pipe then
              bnd (null_terminate cur) (\<lambda>_.
              bnd (guard (Suc (length stgs) < STAGES_SIZE) ''pipeline overflow'') (\<lambda>_.
                build_stages ts (stgs @ [cur]) no_command))
            else build_stages ts stgs cur))"

declare build_stages.simps(2) [simp del]

definition terminator_of :: "token list \<Rightarrow> terminator" where
  "terminator_of rest =
     (case rest of [] \<Rightarrow> TERM_END
      | t # _ \<Rightarrow> if ttype t = token_semi then TERM_SEMI else TERM_AMP)"

definition shorter :: "nat \<Rightarrow> ('a \<times> 'b list) res \<Rightarrow> bool" where
  "shorter n m \<longleftrightarrow> (\<forall>x r. m = Ok (x, r) \<longrightarrow> length r \<le> n)"

lemma shorter_bnd: "(\<And>x. m = Ok x \<Longrightarrow> shorter n (f x)) \<Longrightarrow> shorter n (bnd m f)"
  by (cases m) (simp_all add: shorter_def)

lemma shorter_mono: "shorter n m \<Longrightarrow> n \<le> k \<Longrightarrow> shorter k m"
  by (auto simp: shorter_def)

lemma build_stages_shorter: "shorter (length ts) (build_stages ts stgs cur)"
proof (induction ts arbitrary: stgs cur rule: length_induct)
  case (1 ts)
  show ?case
  proof (cases ts)
    case Nil
    then show ?thesis by (auto simp: shorter_def bnd_eq_Ok)
  next
    case (Cons t us)
    have rec: "length vs \<le> length us \<Longrightarrow> length vs \<le> n \<Longrightarrow> shorter n (build_stages vs x c)" for vs x c n
      using 1 Cons by (metis le_imp_less_Suc length_Cons shorter_mono)
    show ?thesis
      unfolding Cons build_stages.simps(2)
      by (cases us) (auto intro!: shorter_bnd rec simp: shorter_def[of _ "Ok _"])
  qed
qed

definition good_stages :: "(commands list \<times> token list) res \<Rightarrow> bool" where
  "good_stages m \<longleftrightarrow> (\<forall>p r. m = Ok (p, r) \<longrightarrow> p \<noteq> [])"

lemma good_stages_bnd: "(\<And>x. m = Ok x \<Longrightarrow> good_stages (f x)) \<Longrightarrow> good_stages (bnd m f)"
  by (cases m) (simp_all add: good_stages_def)

lemma build_stages_ne: "good_stages (build_stages ts stgs cur)"
proof (induction ts arbitrary: stgs cur rule: length_induct)
  case (1 ts)
  show ?case
  proof (cases ts)
    case Nil
    then show ?thesis by (auto simp: good_stages_def bnd_eq_Ok)
  next
    case (Cons t us)
    have rec: "length vs \<le> length us \<Longrightarrow> good_stages (build_stages vs x c)" for vs x c
      using 1 Cons by (metis le_imp_less_Suc length_Cons)
    show ?thesis
      unfolding Cons build_stages.simps(2)
      by (cases us) (auto intro!: good_stages_bnd rec simp: good_stages_def[of "Ok _"])
  qed
qed

lemma build_stages_rest:
  "build_stages ts stgs cur = Ok (stages, rest) \<Longrightarrow> length rest \<le> length ts"
  using build_stages_shorter[of ts stgs cur] by (simp add: shorter_def)

text \<open>The loop body, one kind of token at a time.\<close>

lemma build_step:
  "ttype t = token_semi \<or> ttype t = token_amp \<Longrightarrow>
     build_stages (t # ts) stgs cur = bnd (null_terminate cur) (\<lambda>_. Ok (stgs @ [cur], t # ts))"
  "ttype t = token_word \<Longrightarrow>
     build_stages (t # ts) stgs cur = bnd (push_arg cur t) (\<lambda>cur. build_stages ts stgs cur)"
  "ttype t = token_lt \<Longrightarrow>
     build_stages (t # u # ts) stgs cur = bnd (push_in cur u) (\<lambda>cur. build_stages ts stgs cur)"
  "ttype t = token_gt \<Longrightarrow>
     build_stages (t # u # ts) stgs cur = bnd (push_out False cur u) (\<lambda>cur. build_stages ts stgs cur)"
  "ttype t = token_gtgt \<Longrightarrow>
     build_stages (t # u # ts) stgs cur = bnd (push_out True cur u) (\<lambda>cur. build_stages ts stgs cur)"
  "ttype t = token_pipe \<Longrightarrow>
     build_stages (t # ts) stgs cur =
       bnd (null_terminate cur) (\<lambda>_.
       bnd (guard (Suc (length stgs) < STAGES_SIZE) ''pipeline overflow'') (\<lambda>_.
         build_stages ts (stgs @ [cur]) no_command))"
       apply (subst build_stages.simps(2), simp)
      apply (subst build_stages.simps(2), simp)
     apply (subst build_stages.simps(2), simp)
    apply (subst build_stages.simps(2), simp)
   apply (subst build_stages.simps(2), simp)
  apply (subst build_stages.simps(2), cases ts, simp, simp)
  done

section \<open>The whole line\<close>

text \<open>
  \<open>fg\<close> and \<open>bg\<close> stand for \<open>run_foreground\<close> and \<open>run_background\<close>; \<open>fg\<close> returns whether to go on.
\<close>

function run_cmd_loop ::
  "(commands list \<Rightarrow> 's \<Rightarrow> (bool \<times> 's) res) \<Rightarrow> (commands list \<Rightarrow> 's \<Rightarrow> 's res) \<Rightarrow>
   token list \<Rightarrow> 's \<Rightarrow> 's res" where
  "run_cmd_loop fg bg ts s =
     (if ts = [] then Ok s
      else
        bnd (build_stages ts [] no_command) (\<lambda>(pipeline, rest).
          if argv (hd pipeline) = [] then run_cmd_loop fg bg (drop 1 rest) s
          else if terminator_of rest = TERM_AMP then
            bnd (bg pipeline s) (\<lambda>s. run_cmd_loop fg bg (drop 1 rest) s)
          else
            bnd (fg pipeline s) (\<lambda>(ok, s).
              if ok then run_cmd_loop fg bg (drop 1 rest) s else Ok s)))"
  by pat_completeness auto

lemma build_stages_consumes:
  assumes "build_stages ts [] no_command = Ok (stages, rest)" and "ts \<noteq> []"
  shows "length (drop 1 rest) < length ts"
  using build_stages_rest[OF assms(1)] assms(2) by (cases ts) auto

termination run_cmd_loop
  by (relation "measure (\<lambda>(fg, bg, ts, s). length ts)")
    (auto dest: build_stages_consumes)

declare run_cmd_loop.simps [simp del]

section \<open>Syntax trees\<close>

text \<open>
  What a command line denotes: a sequence of pipelines with their terminators, a pipeline a list
  of simple commands, a simple command a list of arguments and redirections in any order that
  begins with an argument.
\<close>

datatype item = Arg string | In_file string | Out_file bool string

type_synonym simple_command = "item list"

fun item_tokens :: "item \<Rightarrow> token list" where
  "item_tokens (Arg w) = [mkword w]"
| "item_tokens (In_file f) = [mkop token_lt, mkword f]"
| "item_tokens (Out_file app f) = [mkop (if app then token_gtgt else token_gt), mkword f]"

definition simple_tokens :: "simple_command \<Rightarrow> token list" where
  "simple_tokens c = concat (map item_tokens c)"

fun pipe_tokens :: "simple_command list \<Rightarrow> token list" where
  "pipe_tokens [] = []"
| "pipe_tokens [c] = simple_tokens c"
| "pipe_tokens (c # d # cs) = simple_tokens c @ mkop token_pipe # pipe_tokens (d # cs)"

definition command_of :: "simple_command \<Rightarrow> commands" where
  "command_of c =
     \<lparr>argv = concat (map (\<lambda>i. case i of Arg w \<Rightarrow> [w] | _ \<Rightarrow> []) c),
      in_files = concat (map (\<lambda>i. case i of In_file f \<Rightarrow> [f] | _ \<Rightarrow> []) c),
      out_files = concat (map (\<lambda>i. case i of Out_file app f \<Rightarrow> [(f, app)] | _ \<Rightarrow> []) c)\<rparr>"

definition fits :: "commands \<Rightarrow> bool" where
  "fits c \<longleftrightarrow>
     length (argv c) < ARGV_SIZE \<and> length (in_files c) \<le> FILES_SIZE \<and> length (out_files c) \<le> FILES_SIZE"

definition join :: "commands \<Rightarrow> commands \<Rightarrow> commands" where
  "join a b = \<lparr>argv = argv a @ argv b, in_files = in_files a @ in_files b,
     out_files = out_files a @ out_files b\<rparr>"

lemma join_no_command [simp]: "join no_command c = c" "join c no_command = c"
  by (simp_all add: join_def no_command_def)

lemma command_of_Nil [simp]: "command_of [] = no_command"
  by (simp add: command_of_def no_command_def)

lemma command_of_Cons: "command_of (i # c) = join (command_of [i]) (command_of c)"
  by (simp add: command_of_def join_def)

lemma join_assoc: "join (join a b) c = join a (join b c)"
  by (simp add: join_def)

lemma fits_joinD: "fits (join a b) \<Longrightarrow> fits a"
  by (auto simp: fits_def join_def)

lemma build_item:
  assumes "fits (join cur (command_of [i]))"
  shows "build_stages (item_tokens i @ rest) stgs cur =
    build_stages rest stgs (join cur (command_of [i]))"
  using assms
  by (cases i; cases cur)
    (simp_all add: build_step push_arg_def push_in_def push_out_def value_of_def fits_def join_def
      command_of_def bnd_guard)

lemma build_simple:
  "fits (join cur (command_of c)) \<Longrightarrow>
   build_stages (simple_tokens c @ rest) stgs cur = build_stages rest stgs (join cur (command_of c))"
proof (induction c arbitrary: cur)
  case Nil
  then show ?case by (simp add: simple_tokens_def)
next
  case (Cons i c)
  have cur: "join cur (command_of (i # c)) = join (join cur (command_of [i])) (command_of c)"
    by (simp add: command_of_Cons[of i c] join_assoc)
  then have "fits (join (join cur (command_of [i])) (command_of c))" using Cons.prems by simp
  then have "fits (join cur (command_of [i]))" by (rule fits_joinD)
  with Cons.IH Cons.prems show ?case unfolding cur
    by (simp add: simple_tokens_def build_item)
qed

definition ends_pipeline :: "token list \<Rightarrow> bool" where
  "ends_pipeline rest \<longleftrightarrow> rest = [] \<or> ttype (hd rest) = token_semi \<or> ttype (hd rest) = token_amp"

lemma build_end:
  "ends_pipeline rest \<Longrightarrow> fits cur \<Longrightarrow> build_stages rest stgs cur = Ok (stgs @ [cur], rest)"
  by (cases rest) (auto simp: build_step ends_pipeline_def null_terminate_def fits_def bnd_guard)

lemma build_pipe:
  "fits cur \<Longrightarrow> Suc (length stgs) < STAGES_SIZE \<Longrightarrow>
   build_stages (mkop token_pipe # rest) stgs cur = build_stages rest (stgs @ [cur]) no_command"
  by (simp add: build_step null_terminate_def fits_def bnd_guard)

text \<open>The loop reads back the syntax tree its tokens were written from.\<close>

lemma build_pipeline:
  "cs \<noteq> [] \<Longrightarrow> list_all (\<lambda>c. fits (command_of c)) cs \<Longrightarrow> length stgs + length cs \<le> STAGES_SIZE \<Longrightarrow>
   ends_pipeline rest \<Longrightarrow>
   build_stages (pipe_tokens cs @ rest) stgs no_command = Ok (stgs @ map command_of cs, rest)"
proof (induction cs arbitrary: stgs rule: pipe_tokens.induct)
  case 1
  then show ?case by simp
next
  case (2 c)
  then show ?case by (simp add: build_simple build_end)
next
  case (3 c d cs)
  then show ?case by (simp add: build_simple build_pipe)
qed

text \<open>A whole line.\<close>

fun term_tokens :: "terminator \<Rightarrow> token list" where
  "term_tokens TERM_SEMI = [mkop token_semi]"
| "term_tokens TERM_AMP = [mkop token_amp]"
| "term_tokens TERM_END = []"

type_synonym line = "(simple_command list \<times> terminator) list"

fun line_tokens :: "line \<Rightarrow> token list" where
  "line_tokens [] = []"
| "line_tokens ((p, t) # l) = pipe_tokens p @ term_tokens t @ line_tokens l"

definition starts_with_arg :: "simple_command \<Rightarrow> bool" where
  "starts_with_arg c \<longleftrightarrow> (case c of Arg _ # _ \<Rightarrow> True | _ \<Rightarrow> False)"

text \<open>A pipeline has a stage; the line's terminators separate, and \<open>;\<close> never ends it.\<close>

fun wf_terms :: "line \<Rightarrow> bool" where
  "wf_terms [] = True"
| "wf_terms [(p, t)] = (t \<noteq> TERM_SEMI)"
| "wf_terms ((p, t) # s # l) = (t \<noteq> TERM_END \<and> wf_terms (s # l))"

definition wf_line :: "line \<Rightarrow> bool" where
  "wf_line l \<longleftrightarrow>
     wf_terms l \<and> list_all (\<lambda>(p, t). p \<noteq> [] \<and> list_all starts_with_arg p) l"

definition short_words :: "token list \<Rightarrow> bool" where
  "short_words ts \<longleftrightarrow> list_all wf_token ts"

subsection \<open>Running a syntax tree\<close>

fun run_segments ::
  "(commands list \<Rightarrow> 's \<Rightarrow> (bool \<times> 's) res) \<Rightarrow> (commands list \<Rightarrow> 's \<Rightarrow> 's res) \<Rightarrow>
   (commands list \<times> terminator) list \<Rightarrow> 's \<Rightarrow> 's res" where
  "run_segments fg bg [] s = Ok s"
| "run_segments fg bg ((p, t) # ps) s =
     (if t = TERM_AMP then bnd (bg p s) (run_segments fg bg ps)
      else bnd (fg p s) (\<lambda>(ok, s). if ok then run_segments fg bg ps s else Ok s))"

definition line_fits :: "line \<Rightarrow> bool" where
  "line_fits l \<longleftrightarrow>
     list_all (\<lambda>(p, t). length p \<le> STAGES_SIZE \<and> list_all (\<lambda>c. fits (command_of c)) p) l"

lemma argv_starts: "starts_with_arg c \<Longrightarrow> argv (command_of c) \<noteq> []"
  by (auto simp: starts_with_arg_def command_of_def split: list.splits item.splits)

lemma line_tokens_ne: "wf_line ((p, t) # l) \<Longrightarrow> line_tokens ((p, t) # l) \<noteq> []"
  by (cases p rule: pipe_tokens.cases)
    (auto simp: wf_line_def starts_with_arg_def simple_tokens_def split: list.splits item.splits)

lemma wf_line_Cons:
  "wf_line ((p, t) # l) \<Longrightarrow> wf_line l"
  "wf_line ((p, t) # l) \<Longrightarrow> t = TERM_END \<Longrightarrow> l = []"
  by (cases l; auto simp: wf_line_def)+

lemma wf_line_ends:
  assumes "wf_line ((p, t) # l)"
  shows "ends_pipeline (term_tokens t @ line_tokens l)"
    and "drop 1 (term_tokens t @ line_tokens l) = line_tokens l"
    and "terminator_of (term_tokens t @ line_tokens l) = t"
  using wf_line_Cons[OF assms] by (cases t; simp add: ends_pipeline_def terminator_of_def)+

text \<open>The loop of \<open>run_cmd\<close> executes the syntax tree its tokens spell.\<close>

lemma run_cmd_line:
  "wf_line l \<Longrightarrow> line_fits l \<Longrightarrow>
   run_cmd_loop fg bg (line_tokens l) s =
   run_segments fg bg (map (\<lambda>(p, t). (map command_of p, t)) l) s"
proof (induction l arbitrary: s)
  case Nil
  then show ?case by (simp add: run_cmd_loop.simps)
next
  case (Cons pt l)
  obtain p t where pt: "pt = (p, t)" by force
  from Cons.prems have p: "p \<noteq> []" "list_all starts_with_arg p" "length p \<le> STAGES_SIZE"
    "list_all (\<lambda>c. fits (command_of c)) p"
    by (simp_all add: wf_line_def line_fits_def pt)
  note ends = wf_line_ends[OF Cons.prems(1)[unfolded pt]]
  have build: "build_stages (line_tokens ((p, t) # l)) [] no_command =
      Ok (map command_of p, term_tokens t @ line_tokens l)"
    using build_pipeline[OF p(1,4), of "[]", OF _ ends(1)] p(3) by simp
  have hd: "argv (hd (map command_of p)) \<noteq> []"
    using p(1,2) by (cases p) (simp_all add: argv_starts)
  have IH: "run_cmd_loop fg bg (line_tokens l) s =
      run_segments fg bg (map (\<lambda>(p, t). (map command_of p, t)) l) s" for s
    using Cons wf_line_Cons(1) pt by (simp add: line_fits_def)
  then have IH_fun: "run_cmd_loop fg bg (line_tokens l) =
      run_segments fg bg (map (\<lambda>(p, t). (map command_of p, t)) l)" by (rule ext)
  show ?case
    using line_tokens_ne[OF Cons.prems(1)[unfolded pt]] ends(2,3) hd unfolding pt
    by (subst run_cmd_loop.simps)
      (simp only: build bnd_simps prod.case IH_fun if_False if_True run_segments.simps list.map)
qed

subsection \<open>Every accepted line is one\<close>

text \<open>
  What may follow a word: the rest of a simple command (perhaps nothing), more stages, more
  pipelines.
\<close>

definition tail_tokens :: "simple_command \<Rightarrow> simple_command list \<Rightarrow> terminator \<Rightarrow> line \<Rightarrow> token list" where
  "tail_tokens c cs t l = pipe_tokens (c # cs) @ term_tokens t @ line_tokens l"

definition wf_tail :: "simple_command list \<Rightarrow> terminator \<Rightarrow> line \<Rightarrow> bool" where
  "wf_tail cs t l \<longleftrightarrow> wf_terms (([], t) # l) \<and> list_all starts_with_arg cs \<and> wf_line l"

lemma tail_item: "tail_tokens (i # c) cs t l = item_tokens i @ tail_tokens c cs t l"
  by (cases cs) (simp_all add: tail_tokens_def simple_tokens_def)

lemma tail_pipe: "tail_tokens [] (c # cs) t l = mkop token_pipe # tail_tokens c cs t l"
  by (simp add: tail_tokens_def simple_tokens_def)

lemma tail_seg: "tail_tokens [] [] t ((c # cs, u) # l) = term_tokens t @ tail_tokens c cs u l"
  by (simp add: tail_tokens_def simple_tokens_def)

lemma starts_Arg [simp]: "starts_with_arg (Arg w # c)"
  by (simp add: starts_with_arg_def)

lemma wf_terms_fst: "wf_terms ((p, t) # l) = wf_terms ((q, t) # l)"
  by (cases l) simp_all

lemma wf_tail_seg:
  "wf_tail cs u l \<Longrightarrow> t \<noteq> TERM_END \<Longrightarrow> wf_tail [] t (((Arg w # c) # cs, u) # l)"
  by (cases l) (auto simp: wf_tail_def wf_line_def)

lemma wf_wordE:
  assumes "wf_token t" and "is_word t"
  obtains w where "t = mkword w"
proof -
  from assms obtain w where "tvalue t = Some w" by (auto simp: wf_token_def split: option.splits)
  with assms(2) that[of w] show thesis by (simp add: token_eq_mk)
qed

definition continues :: "token list \<Rightarrow> bool" where
  "continues ts \<longleftrightarrow>
     list_all wf_token ts \<and> (ts = [] \<or> is_word (last ts) \<or> ttype (last ts) = token_amp) \<and>
     no_adjacent_operators ts"

lemma continues_after_op:
  assumes "continues (t # ts)" and "\<not> is_word t"
  shows "(ts = [] \<and> ttype t = token_amp) \<or>
    (\<exists>w us. ts = mkword w # us \<and> continues us)"
proof (cases ts)
  case Nil
  with assms show ?thesis by (auto simp: continues_def)
next
  case (Cons u us)
  with assms have "is_word u" "wf_token u" by (auto simp: continues_def)
  then obtain w where "u = mkword w" by (auto elim: wf_wordE)
  moreover have "continues us"
    using assms Cons by (cases us) (auto simp: continues_def)
  ultimately show ?thesis using Cons by blast
qed

lemma continues_after_word: "continues (t # ts) \<Longrightarrow> continues ts"
  by (cases ts) (auto simp: continues_def)

lemma accepted_tail:
  "continues ts \<Longrightarrow> \<exists>c cs t l. ts = tail_tokens c cs t l \<and> wf_tail cs t l"
proof (induction ts rule: length_induct)
  case (1 ts)
  note IH = "1.IH"[rule_format]
  show ?case
  proof (cases ts)
    case Nil
    then have "ts = tail_tokens [] [] TERM_END []" "wf_tail [] TERM_END []"
      by (simp_all add: tail_tokens_def simple_tokens_def wf_tail_def wf_line_def)
    then show ?thesis by blast
  next
    case (Cons t us)
    show ?thesis
    proof (cases "is_word t")
      case True
      with "1.prems" Cons obtain w where t: "t = mkword w"
        by (auto simp: continues_def elim: wf_wordE)
      from IH[of us] "1.prems" Cons obtain c cs u l
        where "us = tail_tokens c cs u l" "wf_tail cs u l"
        using continues_after_word[of t us] by auto
      with t Cons have "ts = tail_tokens (Arg w # c) cs u l" "wf_tail cs u l"
        by (simp_all add: tail_item)
      then show ?thesis by blast
    next
      case False
      consider (amp) "us = []" "t = mkop token_amp"
        | (word) w vs where "us = mkword w # vs" "continues vs"
        using continues_after_op[of t us] "1.prems" Cons False
        by (fastforce simp: continues_def wf_token_def token_eq_mk split: option.splits)
      then show ?thesis
      proof cases
        case amp
        with Cons have "ts = tail_tokens [] [] TERM_AMP []" "wf_tail [] TERM_AMP []"
          by (simp_all add: tail_tokens_def simple_tokens_def wf_tail_def wf_line_def)
        then show ?thesis by blast
      next
        case word
        from IH[of vs] word Cons obtain c cs u l
          where vs: "vs = tail_tokens c cs u l" "wf_tail cs u l" by auto
        from "1.prems" Cons False obtain y where t: "t = mkop y"
          "y \<in> {token_pipe, token_amp, token_semi, token_lt, token_gt, token_gtgt}"
          by (auto simp: continues_def wf_token_def dest: token_eq_mk split: option.splits)
        have arg: "tail_tokens (Arg w # c) cs u l = us" using word vs by (simp add: tail_item)
        from t(2) show ?thesis
        proof (elim insertE)
          assume "y = token_pipe"
          then have "ts = tail_tokens [] ((Arg w # c) # cs) u l" "wf_tail ((Arg w # c) # cs) u l"
            using Cons t vs(2) by (simp_all add: tail_pipe arg wf_tail_def)
          then show ?thesis by blast
        next
          assume "y = token_amp"
          then have "ts = tail_tokens [] [] TERM_AMP (((Arg w # c) # cs, u) # l)"
            using Cons t by (simp add: tail_seg arg)
          then show ?thesis using wf_tail_seg[OF vs(2)] by blast
        next
          assume "y = token_semi"
          then have "ts = tail_tokens [] [] TERM_SEMI (((Arg w # c) # cs, u) # l)"
            using Cons t by (simp add: tail_seg arg)
          then show ?thesis using wf_tail_seg[OF vs(2)] by blast
        next
          assume "y = token_lt"
          then have "ts = tail_tokens (In_file w # c) cs u l"
            using Cons t word vs(1) by (simp add: tail_item)
          then show ?thesis using vs(2) by blast
        next
          assume "y = token_gt"
          then have "ts = tail_tokens (Out_file False w # c) cs u l"
            using Cons t word vs(1) by (simp add: tail_item)
          then show ?thesis using vs(2) by blast
        next
          assume "y = token_gtgt"
          then have "ts = tail_tokens (Out_file True w # c) cs u l"
            using Cons t word vs(1) by (simp add: tail_item)
          then show ?thesis using vs(2) by blast
        qed simp
      qed
    qed
  qed
qed

lemma accepted_has_tree:
  assumes "command_line ts" and "list_all wf_token ts"
  shows "\<exists>l. wf_line l \<and> ts = line_tokens l"
proof (cases ts)
  case Nil
  then have "wf_line [] \<and> ts = line_tokens []" by (simp add: wf_line_def)
  then show ?thesis by blast
next
  case (Cons t us)
  with assms obtain w where t: "t = mkword w"
    by (auto simp: command_line_def elim: wf_wordE)
  have "continues us"
    using assms Cons by (cases us) (auto simp: continues_def command_line_def)
  then obtain c cs u l where "us = tail_tokens c cs u l" "wf_tail cs u l"
    using accepted_tail by blast
  then have "ts = line_tokens (((Arg w # c) # cs, u) # l)" "wf_line (((Arg w # c) # cs, u) # l)"
    using Cons t wf_terms_fst[of "[]" u l "(Arg w # c) # cs"] tail_item[of "Arg w" c cs u l]
    by (simp_all add: tail_tokens_def wf_tail_def wf_line_def)
  then show ?thesis by blast
qed

subsection \<open>Short lines fit\<close>

lemma length_simple_tokens:
  "length (simple_tokens c) =
     length (argv (command_of c)) + 2 * length (in_files (command_of c)) +
     2 * length (out_files (command_of c))"
proof (induction c)
  case Nil
  then show ?case by (simp add: simple_tokens_def no_command_def)
next
  case (Cons i c)
  have "length (item_tokens i) = length (argv (command_of [i])) +
      2 * length (in_files (command_of [i])) + 2 * length (out_files (command_of [i]))"
    by (cases i) (simp_all add: command_of_def)
  with Cons show ?case
    by (subst (1 2 3) command_of_Cons) (simp add: simple_tokens_def join_def)
qed

lemma length_pipe_tokens:
  "list_all starts_with_arg p \<Longrightarrow> length p \<le> length (pipe_tokens p)"
  "c \<in> set p \<Longrightarrow> length (simple_tokens c) \<le> length (pipe_tokens p)"
proof (induction p rule: pipe_tokens.induct)
  case 1
  {
    case 1
    then show ?case by simp
  next
    case 2
    then show ?case by simp
  }
next
  case (2 d)
  {
    case 1
    then show ?case
      using argv_starts[of d] by (simp add: length_simple_tokens Suc_leI trans_le_add1)
  next
    case 2
    then show ?case by simp
  }
next
  case (3 d e ds)
  {
    case 1
    then show ?case using 3(1) by simp
  next
    case 2
    then show ?case using 3(2) by fastforce
  }
qed

lemma short_line_fits:
  "wf_line l \<Longrightarrow> length (line_tokens l) \<le> 41 \<Longrightarrow> line_fits l"
proof (induction l)
  case Nil
  then show ?case by (simp add: line_fits_def)
next
  case (Cons pt l)
  obtain p t where pt: "pt = (p, t)" by force
  with Cons.prems have p: "list_all starts_with_arg p" "length (pipe_tokens p) \<le> 41"
    by (simp_all add: wf_line_def)
  have "fits (command_of c)" if "c \<in> set p" for c
  proof -
    have "argv (command_of c) \<noteq> []" using p(1) that by (simp add: argv_starts list_all_iff)
    then have "1 \<le> length (argv (command_of c))" by (cases "argv (command_of c)") auto
    moreover have "length (simple_tokens c) \<le> 41" using length_pipe_tokens(2)[OF that] p(2) by simp
    ultimately show ?thesis
      by (simp add: fits_def length_simple_tokens ARGV_SIZE_def FILES_SIZE_def)
  qed
  moreover have "length p \<le> STAGES_SIZE"
    using length_pipe_tokens(1)[OF p(1)] p(2) by (simp add: STAGES_SIZE_def)
  ultimately show ?case
    using Cons wf_line_Cons(1)[of p t l] pt by (simp add: line_fits_def list_all_iff)
qed

end
