(* ===== verification/Sh_Reveal.thy ===== *)
theory Sh_Reveal
  imports CLib "HOL-Library.List_Lexorder"
begin

text \<open>
  The \<open>reveal\<close> builtin, \<open>c-shell/src/reveal.c\<close>.  The file system answers two questions: the names
  \<open>readdir\<close> gives for a directory, in its order (\<open>None\<close> when \<open>opendir\<close> fails), and whether
  \<open>lstat\<close> finds a directory at a path.  The recursion follows the file system, so it runs on fuel;
  \<open>reveal_dir_tree\<close> says how much is enough.
\<close>

section \<open>Comparing names\<close>

abbreviation byte_of :: "char \<Rightarrow> nat" where "byte_of \<equiv> of_char"

text \<open>\<open>strcmp\<close> on the bytes; the end of a string reads as 0.\<close>

fun strcmp :: "string \<Rightarrow> string \<Rightarrow> int" where
  "strcmp [] [] = 0"
| "strcmp [] (d # ds) = - int (byte_of d)"
| "strcmp (c # cs) [] = int (byte_of c)"
| "strcmp (c # cs) (d # ds) = (if c = d then strcmp cs ds else int (byte_of c) - int (byte_of d))"

definition cmp_names :: "string \<Rightarrow> string \<Rightarrow> int" where
  "cmp_names a b = strcmp a b"

definition bytes :: "string \<Rightarrow> nat list" where "bytes s = map byte_of s"

lemma bytes_inj: "bytes a = bytes b \<longleftrightarrow> a = b"
  by (simp add: bytes_def inj_map_eq_map inj_on_def)

lemma of_char_c_nul: "byte_of c_nul = 0"
  by simp

lemma cmp_names_le: "c_nul \<notin> set a \<Longrightarrow> c_nul \<notin> set b \<Longrightarrow> cmp_names a b \<le> 0 \<longleftrightarrow> bytes a \<le> bytes b"
proof -
  have nz: "c_nul \<noteq> c \<Longrightarrow> 0 < byte_of c" for c
    by (metis gr0I of_char_eq_iff of_char_c_nul)
  assume "c_nul \<notin> set a" "c_nul \<notin> set b"
  then have "strcmp a b \<le> 0 \<longleftrightarrow> bytes a \<le> bytes b"
    by (induction a b rule: strcmp.induct)
      (auto simp: bytes_def order.order_iff_strict dest: nz)
  then show ?thesis by (simp add: cmp_names_def)
qed

text \<open>\<open>qsort\<close> with \<open>cmp_names\<close>: the sorted permutation is unique.\<close>

definition qsort_names :: "string list \<Rightarrow> string list" where
  "qsort_names ns = sort_key bytes ns"

section \<open>Listing a directory\<close>

record dirs =
  readdir :: "string \<Rightarrow> string list option"
  lstat_isdir :: "string \<Rightarrow> bool"

definition MAX_DIRENTS :: nat where "MAX_DIRENTS = 5000"

fun collect :: "bool \<Rightarrow> string list \<Rightarrow> string list \<Rightarrow> string list" where
  "collect hidden [] entries = entries"
| "collect hidden (d # ds) entries =
     (if \<not> length entries < MAX_DIRENTS then entries
      else if d = ''.'' \<or> d = ''..'' then collect hidden ds entries
      else if \<not> hidden \<and> d \<noteq> [] \<and> hd d = CHR ''.'' then collect hidden ds entries
      else collect hidden ds (entries @ [d]))"

definition quote_name :: "string \<Rightarrow> string" where
  "quote_name display_name =
     (if c_space \<in> set display_name then cut 5110 (c_squote # display_name @ [c_squote])
      else display_name)"

fun reveal_dir :: "nat \<Rightarrow> dirs \<Rightarrow> string \<Rightarrow> string \<Rightarrow> bool \<Rightarrow> bool \<Rightarrow> string option"
  and reveal_entries :: "nat \<Rightarrow> dirs \<Rightarrow> string \<Rightarrow> string \<Rightarrow> bool \<Rightarrow> bool \<Rightarrow> string list \<Rightarrow> string option"
where
  "reveal_dir 0 e path prefx hidden rec = None"
| "reveal_dir (Suc k) e path prefx hidden rec =
     (case readdir e path of
        None \<Rightarrow> Some (''reveal: no such directory'' @ nl)
      | Some names \<Rightarrow>
          reveal_entries k e path prefx hidden rec (qsort_names (collect hidden names [])))"
| "reveal_entries k e path prefx hidden rec [] = Some ''''"
| "reveal_entries k e path prefx hidden rec (n # ns) =
     (let full_path = cut 5100 (path @ ''/'' @ n);
          display_name = cut 5100 (prefx @ n);
          quoted_name = quote_name display_name;
          is_dir = lstat_isdir e full_path;
          out = quoted_name @ (if is_dir \<and> rec then ''/'' else '''') @ nl
      in case (if is_dir \<and> rec
               then reveal_dir k e full_path (cut 5110 (display_name @ ''/'')) hidden rec
               else Some '''') of
           None \<Rightarrow> None
         | Some sub \<Rightarrow>
             map_option (\<lambda>more. out @ sub @ more) (reveal_entries k e path prefx hidden rec ns))"

section \<open>Arguments\<close>

text \<open>Flags, and the target once it is set; \<open>Inl\<close> is an early return with its message.\<close>

fun reveal_args ::
  "string \<Rightarrow> string \<Rightarrow> string list \<Rightarrow> bool \<Rightarrow> bool \<Rightarrow> string option \<Rightarrow>
   string + bool \<times> bool \<times> string" where
  "reveal_args shome prev [] hidden rec target =
     Inr (hidden, rec, case target of None \<Rightarrow> ''.'' | Some t \<Rightarrow> t)"
| "reveal_args shome prev (a # as) hidden rec target =
     (if a \<noteq> [] \<and> hd a = CHR ''-'' \<and> 1 < length a \<and> target = None then
        (if list_all (\<lambda>c. c = CHR ''a'' \<or> c = CHR ''t'') (tl a)
         then reveal_args shome prev as (hidden \<or> CHR ''a'' \<in> set (tl a)) (rec \<or> CHR ''t'' \<in> set (tl a)) target
         else Inl (''reveal: invalid syntax'' @ nl))
      else if target \<noteq> None then Inl (''reveal: invalid syntax'' @ nl)
      else if a = ''~'' then reveal_args shome prev as hidden rec (Some shome)
      else if a = ''-'' then
        (if prev = [] then Inl (''reveal: no such directory'' @ nl)
         else reveal_args shome prev as hidden rec (Some prev))
      else reveal_args shome prev as hidden rec (Some a))"

definition revealing :: "nat \<Rightarrow> dirs \<Rightarrow> string \<Rightarrow> string \<Rightarrow> string list \<Rightarrow> string option" where
  "revealing fuel e shome prev args =
     (case reveal_args shome prev args False False None of
        Inl msg \<Rightarrow> Some msg
      | Inr (hidden, rec, target) \<Rightarrow> reveal_dir fuel e target '''' hidden rec)"

section \<open>The listing of a tree\<close>

definition visible :: "bool \<Rightarrow> string \<Rightarrow> bool" where
  "visible hidden d \<longleftrightarrow> d \<noteq> ''.'' \<and> d \<noteq> ''..'' \<and> (hidden \<or> \<not> (d \<noteq> [] \<and> hd d = CHR ''.''))"

lemma collect_eq:
  "length entries + length (filter (visible hidden) ds) \<le> MAX_DIRENTS \<Longrightarrow>
   collect hidden ds entries = entries @ filter (visible hidden) ds"
proof (induction ds arbitrary: entries)
  case Nil
  then show ?case by simp
next
  case (Cons d ds)
  show ?case
  proof (cases "visible hidden d")
    case True
    with Cons show ?thesis by (auto simp: visible_def)
  next
    case False
    with Cons.prems have p: "length entries + length (filter (visible hidden) ds) \<le> MAX_DIRENTS" by simp
    show ?thesis
    proof (cases "length entries < MAX_DIRENTS")
      case True
      with False Cons.IH[OF p] show ?thesis by (auto simp: visible_def)
    next
      case full: False
      with p have "length (filter (visible hidden) ds) = 0" by linarith
      then have "filter (visible hidden) ds = []" by (simp only: length_0_conv)
      with full False show ?thesis by simp
    qed
  qed
qed

datatype node = Leaf | Dir "(string \<times> node) list"

definition is_Dir :: "node \<Rightarrow> bool" where
  "is_Dir t = (case t of Leaf \<Rightarrow> False | Dir _ \<Rightarrow> True)"

text \<open>
  The file system has the tree at the path (\<open>prefx\<close> is what is displayed before the names in it),
  in any order, and no buffer is too small.
\<close>

fun shows_tree :: "dirs \<Rightarrow> string \<Rightarrow> string \<Rightarrow> node \<Rightarrow> bool" where
  "shows_tree e path prefx Leaf = True"
| "shows_tree e path prefx (Dir kids) =
     (length kids \<le> MAX_DIRENTS \<and>
      (case readdir e path of
         None \<Rightarrow> False
       | Some names \<Rightarrow> filter (\<lambda>d. d \<noteq> ''.'' \<and> d \<noteq> ''..'') names = map fst kids) \<and>
      list_all (\<lambda>(n, t).
         length (path @ ''/'' @ n) < 5100 \<and> length (prefx @ n) < 5100 \<and>
         lstat_isdir e (path @ ''/'' @ n) = is_Dir t \<and>
         shows_tree e (path @ ''/'' @ n) (prefx @ n @ ''/'') t) kids)"

fun depth :: "node \<Rightarrow> nat" where
  "depth Leaf = 0"
| "depth (Dir kids) = Suc (foldr max (map (\<lambda>(n, t). depth t) kids) 0)"

text \<open>The lines of the tree, each directory followed by what is in it.\<close>

fun tree_listing :: "bool \<Rightarrow> string \<Rightarrow> node \<Rightarrow> string" where
  "tree_listing hidden prefx Leaf = ''''"
| "tree_listing hidden prefx (Dir kids) =
     concat (map (\<lambda>(n, t).
         quote_name (prefx @ n) @ (if is_Dir t then ''/'' else '''') @ nl @
         tree_listing hidden (prefx @ n @ ''/'') t)
       (sort_key (\<lambda>k. bytes (fst k)) (filter (\<lambda>k. visible hidden (fst k)) kids)))"

lemma insort_map_fst: "insort_key f (fst x) (map fst xs) = map fst (insort_key (\<lambda>k. f (fst k)) x xs)"
  by (induction xs) auto

lemma qsort_names_map_fst: "qsort_names (map fst xs) = map fst (sort_key (\<lambda>k. bytes (fst k)) xs)"
  by (induction xs) (simp_all add: qsort_names_def insort_map_fst sort_key_def)

lemma depth_kid: "(n, t) \<in> set kids \<Longrightarrow> depth t \<le> foldr max (map (\<lambda>(n, t). depth t) kids) 0"
  by (induction kids) auto

definition kid_ok :: "dirs \<Rightarrow> string \<Rightarrow> string \<Rightarrow> nat \<Rightarrow> string \<times> node \<Rightarrow> bool" where
  "kid_ok e path prefx k = (\<lambda>(n, t).
     length (path @ ''/'' @ n) < 5100 \<and> length (prefx @ n) < 5100 \<and>
     lstat_isdir e (path @ ''/'' @ n) = is_Dir t \<and>
     shows_tree e (path @ ''/'' @ n) (prefx @ n @ ''/'') t \<and> depth t \<le> k)"

lemma reveal_entries_tree:
  assumes "\<And>path prefx t. shows_tree e path prefx t \<Longrightarrow> is_Dir t \<Longrightarrow> depth t \<le> k \<Longrightarrow>
      reveal_dir k e path prefx hidden True = Some (tree_listing hidden prefx t)"
    and "list_all (kid_ok e path prefx k) ks"
  shows "reveal_entries k e path prefx hidden True (map fst ks) =
    Some (concat (map (\<lambda>(n, t).
         quote_name (prefx @ n) @ (if is_Dir t then ''/'' else '''') @ nl @
         tree_listing hidden (prefx @ n @ ''/'') t) ks))"
  using assms(2)
proof (induction ks)
  case Nil
  then show ?case by simp
next
  case (Cons nt ks)
  obtain n t where nt: "nt = (n, t)" by fastforce
  from Cons.prems nt have p: "length (path @ ''/'' @ n) < 5100" "length (prefx @ n) < 5100"
     "lstat_isdir e (path @ ''/'' @ n) = is_Dir t"
     "shows_tree e (path @ ''/'' @ n) (prefx @ n @ ''/'') t" "depth t \<le> k"
     and rest: "list_all (kid_ok e path prefx k) ks" by (simp_all add: kid_ok_def)
  have sub: "is_Dir t \<Longrightarrow> reveal_dir k e (path @ ''/'' @ n) (prefx @ n @ ''/'') hidden True
      = Some (tree_listing hidden (prefx @ n @ ''/'') t)"
    using assms(1) p by blast
  have leaf: "\<not> is_Dir t \<Longrightarrow> tree_listing hidden (prefx @ n @ ''/'') t = ''''"
    by (cases t) (simp_all add: is_Dir_def)
  have cuts: "cut 5100 (path @ ''/'' @ n) = path @ ''/'' @ n" "cut 5100 (prefx @ n) = prefx @ n"
    "cut 5110 ((prefx @ n) @ ''/'') = prefx @ n @ ''/''"
    using p(1,2) by (simp_all add: cut_id)
  show ?case
    using Cons.IH[OF rest] p(3) sub leaf
    by (simp only: nt list.map fst_conv reveal_entries.simps Let_def cuts) simp
qed

lemma reveal_dir_tree:
  "shows_tree e path prefx t \<Longrightarrow> is_Dir t \<Longrightarrow> depth t \<le> fuel \<Longrightarrow>
   reveal_dir fuel e path prefx hidden True = Some (tree_listing hidden prefx t)"
proof (induction fuel arbitrary: path prefx t)
  case 0
  then show ?case by (cases t) (simp_all add: is_Dir_def)
next
  case (Suc k)
  obtain kids where t: "t = Dir kids" using Suc.prems(2) by (cases t) (auto simp: is_Dir_def)
  let ?vis = "filter (\<lambda>k. visible hidden (fst k)) kids"
  from Suc.prems(1) t obtain names where
    names: "readdir e path = Some names" "filter (\<lambda>d. d \<noteq> ''.'' \<and> d \<noteq> ''..'') names = map fst kids"
    and len: "length kids \<le> MAX_DIRENTS"
    by (auto split: option.splits)
  have "filter (visible hidden) names =
      filter (visible hidden) (filter (\<lambda>d. d \<noteq> ''.'' \<and> d \<noteq> ''..'') names)"
    unfolding filter_filter by (rule filter_cong) (auto simp: visible_def)
  also have "\<dots> = map fst ?vis" unfolding names(2) by (simp add: filter_map comp_def)
  finally have vis: "filter (visible hidden) names = map fst ?vis" .
  have "length ?vis \<le> MAX_DIRENTS" using len le_trans[OF length_filter_le] by blast
  then have c: "collect hidden names [] = map fst ?vis" by (simp add: collect_eq vis)
  have "kid_ok e path prefx k nt" if "nt \<in> set kids" for nt
  proof -
    obtain n s where nt: "nt = (n, s)" by fastforce
    have "depth s \<le> k" using depth_kid[of n s kids] that Suc.prems(3) t nt by simp
    then show ?thesis using Suc.prems(1) t that nt by (auto simp: kid_ok_def list_all_iff)
  qed
  then have "list_all (kid_ok e path prefx k) (sort_key (\<lambda>k. bytes (fst k)) ?vis)"
    by (simp add: list_all_iff)
  from reveal_entries_tree[OF Suc.IH this]
  show ?case by (simp add: names(1) c t qsort_names_map_fst)
qed

end
