(* ===== verification/Sh_Peek.thy ===== *)
theory Sh_Peek
  imports CLib
begin

text \<open>
  The \<open>peek\<close> builtin, \<open>c-shell/src/peek.c\<close>: the bytes of a file (or of standard input) are an
  argument, \<open>None\<close> when \<open>open\<close> fails; \<open>processing\<close> splits them at newlines, numbers the non-empty
  lines with a counter that runs on over the files, and prints them forward or backward;
  \<open>peeking\<close> reads the flags.
\<close>

datatype source = Missing | Is_dir | Bytes string

text \<open>
  The splitting loop: \<open>acc\<close> is \<open>buf[start..i)\<close>.  A line is its text with its number, 0 for an
  empty line.
\<close>

type_synonym pline = "string \<times> nat"

definition mk_line :: "string \<Rightarrow> nat \<Rightarrow> pline \<times> nat" where
  "mk_line text num = (if text = [] then ((text, 0), num) else ((text, num), Suc num))"

fun split_lines :: "string \<Rightarrow> string \<Rightarrow> nat \<Rightarrow> pline list \<times> nat" where
  "split_lines [] acc num =
     (if acc = [] then ([], num)
      else case mk_line acc num of (l, num) \<Rightarrow> ([l], num))"
| "split_lines (c # s) acc num =
     (if c = c_nl then
        (case mk_line acc num of (l, num) \<Rightarrow>
          case split_lines s [] num of (ls, num) \<Rightarrow> (l # ls, num))
      else split_lines s (acc @ [c]) num)"

text \<open>\<open>printf("%s", text)\<close> stops at a NUL byte.\<close>

definition c_text :: "string \<Rightarrow> string" where
  "c_text s = takeWhile (\<lambda>c. c \<noteq> c_nul) s"

definition show_line :: "bool \<Rightarrow> pline \<Rightarrow> string" where
  "show_line nflag l =
     (if nflag \<and> snd l \<noteq> 0 then show_nat (snd l) @ '' '' else '''') @ c_text (fst l)"

text \<open>The newline after a line is left out after the last one printed unless the file ends in one.\<close>

fun print_lines :: "bool \<Rightarrow> bool \<Rightarrow> pline list \<Rightarrow> string" where
  "print_lines nflag trailing [] = ''''"
| "print_lines nflag trailing (l # ls) =
     show_line nflag l @ (if ls \<noteq> [] \<or> trailing then nl else '''') @ print_lines nflag trailing ls"

definition processing :: "source \<Rightarrow> bool \<Rightarrow> bool \<Rightarrow> nat \<Rightarrow> string \<times> nat" where
  "processing src nflag rflag num =
     (case src of
        Missing \<Rightarrow> (''peek: no such file or directory'' @ nl, num)
      | Is_dir \<Rightarrow> (''peek: is a directory'' @ nl, num)
      | Bytes buf \<Rightarrow>
          if buf = [] then ('''', num)
          else
            (case split_lines buf [] num of (ls, num) \<Rightarrow>
               (print_lines nflag (last buf = c_nl) (if rflag then rev ls else ls), num)))"

section \<open>Flags and files\<close>

definition is_flag_arg :: "string \<Rightarrow> bool" where
  "is_flag_arg a \<longleftrightarrow> a \<noteq> [] \<and> hd a = CHR ''-'' \<and> 1 < length a"

definition good_flags :: "string \<Rightarrow> bool" where
  "good_flags a \<longleftrightarrow> list_all (\<lambda>c. c = CHR ''n'' \<or> c = CHR ''r'') (tl a)"

text \<open>The loop over the arguments: flags so far, and the index of the first file.\<close>

fun peek_args :: "string list \<Rightarrow> nat \<Rightarrow> bool \<Rightarrow> bool \<Rightarrow> nat option \<Rightarrow>
    (bool \<times> bool \<times> nat option) option" where
  "peek_args [] i nflag rflag first = Some (nflag, rflag, first)"
| "peek_args (a # as) i nflag rflag first =
     (if is_flag_arg a then
        (if \<not> good_flags a then None
         else if first \<noteq> None then None
         else peek_args as (Suc i) (nflag \<or> CHR ''n'' \<in> set (tl a)) (rflag \<or> CHR ''r'' \<in> set (tl a)) first)
      else peek_args as (Suc i) nflag rflag (if first = None then Some i else first))"

fun process_all :: "(string \<Rightarrow> source) \<Rightarrow> bool \<Rightarrow> bool \<Rightarrow> string list \<Rightarrow> nat \<Rightarrow> string" where
  "process_all open nflag rflag [] num = ''''"
| "process_all open nflag rflag (f # fs) num =
     (case processing (open f) nflag rflag num of (out, num) \<Rightarrow>
        out @ process_all open nflag rflag fs num)"

definition peeking :: "(string \<Rightarrow> source) \<Rightarrow> string list \<Rightarrow> string" where
  "peeking open args =
     (case peek_args args 0 False False None of
        None \<Rightarrow> ''peek: invalid syntax'' @ nl
      | Some (nflag, rflag, first) \<Rightarrow>
          (case first of
             None \<Rightarrow> process_all open nflag rflag [''-''] 1
           | Some i \<Rightarrow> process_all open nflag rflag (drop i args) 1))"

section \<open>Splitting and printing\<close>

text \<open>The texts of the lines, without numbers.\<close>

fun line_texts :: "string \<Rightarrow> string \<Rightarrow> string list" where
  "line_texts [] acc = (if acc = [] then [] else [acc])"
| "line_texts (c # s) acc = (if c = c_nl then acc # line_texts s [] else line_texts s (acc @ [c]))"

fun number_lines :: "string list \<Rightarrow> nat \<Rightarrow> pline list" where
  "number_lines [] num = []"
| "number_lines (t # ts) num =
     (if t = [] then (t, 0) # number_lines ts num else (t, num) # number_lines ts (Suc num))"

definition count_nonempty :: "string list \<Rightarrow> nat" where
  "count_nonempty ts = length (filter (\<lambda>t. t \<noteq> []) ts)"

lemma split_lines_eq:
  "split_lines s acc num =
     (number_lines (line_texts s acc) num, num + count_nonempty (line_texts s acc))"
  by (induction s acc num rule: split_lines.induct)
    (auto simp: mk_line_def count_nonempty_def split: prod.splits)

text \<open>What the lines spell, with the final newline if the file has one.\<close>

fun unlines :: "bool \<Rightarrow> string list \<Rightarrow> string" where
  "unlines trailing [] = ''''"
| "unlines trailing (t # ts) =
     t @ (if ts \<noteq> [] \<or> trailing then nl else '''') @ unlines trailing ts"

lemma line_texts_ne: "s \<noteq> [] \<or> acc \<noteq> [] \<Longrightarrow> line_texts s acc \<noteq> []"
  by (induction s acc rule: line_texts.induct) auto

lemma unlines_line_texts:
  "s \<noteq> [] \<Longrightarrow> unlines (last s = c_nl) (line_texts s acc) = acc @ s"
proof (induction s acc rule: line_texts.induct)
  case (1 acc)
  then show ?case by simp
next
  case (2 c s acc)
  show ?case
  proof (cases "s = []")
    case True
    then show ?thesis by (simp add: nl_def)
  next
    case False
    with 2 show ?thesis using line_texts_ne[of s "[]"] by (auto simp: nl_def)
  qed
qed

lemma print_lines_plain:
  "list_all (\<lambda>l. c_nul \<notin> set (fst l)) ls \<Longrightarrow>
   print_lines False trailing ls = unlines trailing (map fst ls)"
proof (induction ls)
  case Nil
  then show ?case by simp
next
  case (Cons l ls)
  then have "c_text (fst l) = fst l" by (auto simp: c_text_def takeWhile_eq_all_conv)
  with Cons show ?case by (simp add: show_line_def)
qed

lemma map_fst_number_lines [simp]: "map fst (number_lines ts num) = ts"
  by (induction ts num rule: number_lines.induct) auto

lemma line_texts_chars:
  "t \<in> set (line_texts s acc) \<Longrightarrow> c \<in> set t \<Longrightarrow> (c \<in> set s \<and> c \<noteq> c_nl) \<or> c \<in> set acc"
  by (induction s acc rule: line_texts.induct) (auto split: if_splits)

lemma processing_plain:
  assumes "c_nul \<notin> set buf"
  shows "fst (processing (Bytes buf) False False num) = buf"
proof (cases "buf = []")
  case False
  have "list_all (\<lambda>l. c_nul \<notin> set (fst l)) (number_lines (line_texts buf []) num)"
  proof -
    have "list_all (\<lambda>t. c_nul \<notin> set t) (map fst (number_lines (line_texts buf []) num))"
      using assms line_texts_chars[of _ buf "[]" c_nul] by (auto simp: list_all_iff)
    then show ?thesis by (simp only: list.pred_map comp_def)
  qed
  then show ?thesis
    using False by (simp add: processing_def split_lines_eq print_lines_plain unlines_line_texts)
qed (simp add: processing_def)

text \<open>Lines joined again split into the same lines.\<close>

lemma line_texts_append: "c_nl \<notin> set t \<Longrightarrow> line_texts (t @ s) acc = line_texts s (acc @ t)"
  by (induction t arbitrary: acc) auto

lemma line_texts_unlines:
  "ts \<noteq> [] \<Longrightarrow> list_all (\<lambda>t. c_nl \<notin> set t) ts \<Longrightarrow> trailing \<or> last ts \<noteq> [] \<Longrightarrow>
   line_texts (unlines trailing ts) [] = ts"
proof (induction ts)
  case Nil
  then show ?case by simp
next
  case (Cons t ts)
  then show ?case
    by (cases "ts = []") (auto simp: line_texts_append nl_def)
qed

lemma unlines_ends:
  "ts \<noteq> [] \<Longrightarrow> list_all (\<lambda>t. c_nl \<notin> set t) ts \<Longrightarrow> trailing \<or> last ts \<noteq> [] \<Longrightarrow>
   unlines trailing ts \<noteq> [] \<and> (last (unlines trailing ts) = c_nl \<longleftrightarrow> trailing)"
proof (induction ts)
  case Nil
  then show ?case by simp
next
  case (Cons t ts)
  show ?case
  proof (cases "ts = []")
    case True
    with Cons.prems show ?thesis by (cases t rule: rev_cases) (auto simp: nl_def)
  next
    case False
    with Cons show ?thesis by (auto simp: nl_def)
  qed
qed

lemma line_texts_no_nl: "c_nl \<notin> set acc \<Longrightarrow> list_all (\<lambda>t. c_nl \<notin> set t) (line_texts s acc)"
  by (induction s acc rule: line_texts.induct) auto

lemma line_texts_last:
  "s \<noteq> [] \<Longrightarrow> last s \<noteq> c_nl \<Longrightarrow> last (line_texts s acc) \<noteq> []"
proof (induction s acc rule: line_texts.induct)
  case (2 c s acc)
  then show ?case using line_texts_ne[of s "[]"] by (cases "s = []") auto
qed simp

lemma processing_reverse:
  assumes "c_nul \<notin> set buf" and "buf \<noteq> []"
  shows "fst (processing (Bytes buf) False True num) = unlines (last buf = c_nl) (rev (line_texts buf []))"
proof -
  have "list_all (\<lambda>t. c_nul \<notin> set t) (map fst (number_lines (line_texts buf []) num))"
    using assms line_texts_chars[of _ buf "[]" c_nul] by (auto simp: list_all_iff)
  then have "list_all (\<lambda>l. c_nul \<notin> set (fst l)) (rev (number_lines (line_texts buf []) num))"
    by (simp only: list.pred_map comp_def list_all_rev)
  then show ?thesis
    using assms(2) by (simp add: processing_def split_lines_eq print_lines_plain rev_map[symmetric])
qed

text \<open>
  Reversing twice gives the file back, if its first line is not empty or the file ends in a
  newline (otherwise the reversed text ends in a newline of its own).
\<close>

lemma processing_reverse_twice:
  assumes "c_nul \<notin> set buf" and "buf \<noteq> []" and "last buf = c_nl \<or> hd buf \<noteq> c_nl"
  shows "fst (processing (Bytes (fst (processing (Bytes buf) False True n))) False True m) = buf"
proof -
  let ?t = "last buf = c_nl" and ?ls = "line_texts buf []"
  have ls: "rev ?ls \<noteq> []" "list_all (\<lambda>t. c_nl \<notin> set t) (rev ?ls)"
    using line_texts_ne[of buf "[]"] assms(2) line_texts_no_nl[of "[]" buf] by simp_all
  have "?t \<or> hd ?ls \<noteq> []"
  proof (cases buf)
    case (Cons c s)
    have "hd (line_texts s a) \<noteq> []" if "a \<noteq> []" for s a
      using that by (induction s a rule: line_texts.induct) auto
    with assms(3) Cons show ?thesis by auto
  qed (use assms(2) in simp)
  then have e: "?t \<or> last (rev ?ls) \<noteq> []" by (simp add: last_rev)
  let ?b = "unlines ?t (rev ?ls)"
  note uends = unlines_ends[OF ls e] and bck = line_texts_unlines[OF ls e]
  have "c_nul \<notin> set ?b"
  proof -
    have "set (unlines t xs) \<subseteq> insert c_nl (\<Union> (set ` set xs))" for t xs
      by (induction xs) (auto simp: nl_def)
    then have "set ?b \<subseteq> insert c_nl (\<Union> (set ` set (rev ?ls)))" .
    moreover have "c_nul \<notin> set t" if "t \<in> set ?ls" for t
      using assms(1) line_texts_chars[of t buf "[]" c_nul] that by auto
    moreover have "c_nul \<noteq> c_nl" by simp
    ultimately show ?thesis by (fastforce simp del: char.inject)
  qed
  with uends bck have "fst (processing (Bytes ?b) False True m) = unlines ?t ?ls"
    by (simp add: processing_reverse)
  then show ?thesis
    using assms(1,2) by (simp add: processing_reverse unlines_line_texts)
qed

text \<open>The counter runs on: numbering the files one after another numbers their lines in sequence.\<close>

lemma number_lines_append:
  "number_lines (ts @ us) num = number_lines ts num @ number_lines us (num + count_nonempty ts)"
  by (induction ts num rule: number_lines.induct) (simp_all add: count_nonempty_def)

lemma processing_next:
  "snd (processing (Bytes buf) nflag rflag num) = num + count_nonempty (line_texts buf [])"
  by (auto simp: processing_def split_lines_eq count_nonempty_def)

end
