(* ===== verification/Sh_Spy.thy ===== *)
theory Sh_Spy
  imports CLib
begin

text \<open>
  The \<open>spy\<close> builtin, \<open>c-shell/src/spying.c\<close>: what it prints, given what \<open>/proc\<close> answers.
\<close>

section \<open>What the kernel answers\<close>

datatype ftype = REG | DIR | CHRDEV | BLK | FIFO | LNK | SOCK | UNKNOWN_MODE

record procfs =
  self_pid :: int
  proc_exists :: "int \<Rightarrow> bool"
  kill_eperm :: "int \<Rightarrow> bool"
  fd_eacces :: "int \<Rightarrow> bool"
  readlink :: "string \<Rightarrow> string option"
  stat_mode :: "string \<Rightarrow> ftype option"
  maps_of :: "int \<Rightarrow> string list option"
  fd_names :: "int \<Rightarrow> string list option"

definition type_from_mode :: "ftype \<Rightarrow> string" where
  "type_from_mode mode =
     (case mode of REG \<Rightarrow> ''REG'' | DIR \<Rightarrow> ''DIR'' | CHRDEV \<Rightarrow> ''CHR'' | BLK \<Rightarrow> ''BLK''
      | FIFO \<Rightarrow> ''FIFO'' | LNK \<Rightarrow> ''LNK'' | SOCK \<Rightarrow> ''SOCK'' | UNKNOWN_MODE \<Rightarrow> ''UNKNOWN'')"

definition type_of_path :: "procfs \<Rightarrow> string \<Rightarrow> string" where
  "type_of_path e path =
     (case stat_mode e path of None \<Rightarrow> ''UNKNOWN'' | Some m \<Rightarrow> type_from_mode m)"

text \<open>\<open>atoi\<close> is \<open>strtol\<close> brought to \<open>int\<close>; \<open>qsort\<close> with this comparison sorts by the number.\<close>

definition atoi :: "string \<Rightarrow> int" where
  "atoi s = to_int32 (fst (strtol s))"

definition cmp_fd_names :: "string \<Rightarrow> string \<Rightarrow> int" where
  "cmp_fd_names a b = atoi a - atoi b"

section \<open>The report\<close>

definition report :: "int \<Rightarrow> string \<Rightarrow> string \<Rightarrow> string \<Rightarrow> string" where
  "report pid what type path =
     show_int pid @ [c_tab] @ what @ [c_tab] @ type @ [c_tab] @ path @ nl"

definition proc_path :: "int \<Rightarrow> string \<Rightarrow> string" where
  "proc_path pid file = ''/proc/'' @ show_int pid @ file"

text \<open>\<open>readlink(link, buf, 4095)\<close> with \<open>n > 0\<close>.\<close>

definition read_link :: "procfs \<Rightarrow> string \<Rightarrow> string option" where
  "read_link e link =
     (case readlink e link of None \<Rightarrow> None
      | Some t \<Rightarrow> if t = [] then None else Some (take 4095 t))"

text \<open>\<open>strrchr(line, ' ') + 1\<close> up to the newline.\<close>

definition maps_path :: "string \<Rightarrow> string option" where
  "maps_path line =
     (if c_space \<in> set line
      then Some (takeWhile (\<lambda>c. c \<noteq> c_nl) (rev (takeWhile (\<lambda>c. c \<noteq> c_space) (rev line))))
      else None)"

fun mem_lines :: "procfs \<Rightarrow> int \<Rightarrow> string list \<Rightarrow> string list \<Rightarrow> string" where
  "mem_lines e pid [] seen = ''''"
| "mem_lines e pid (line # lines) seen =
     (case maps_path line of
        None \<Rightarrow> mem_lines e pid lines seen
      | Some path \<Rightarrow>
          if path = [] \<or> hd path \<noteq> CHR ''/'' then mem_lines e pid lines seen
          else if path \<in> set seen then mem_lines e pid lines seen
          else
            let seen' = (if length seen < 256 then seen @ [cut 4096 path] else seen) in
            report pid ''mem'' (type_of_path e path) path @ mem_lines e pid lines seen')"

definition fd_line :: "procfs \<Rightarrow> int \<Rightarrow> string \<Rightarrow> string" where
  "fd_line e pid name =
     (let fdlink = proc_path pid (''/fd/'' @ name) in
      case read_link e fdlink of
        None \<Rightarrow> ''''
      | Some buf \<Rightarrow>
          let type = type_of_path e fdlink in
          if type = ''SOCK'' then '''' else report pid name type buf)"

definition fd_lines :: "procfs \<Rightarrow> int \<Rightarrow> string" where
  "fd_lines e pid =
     (case fd_names e pid of
        None \<Rightarrow> ''''
      | Some ds \<Rightarrow>
          concat (map (fd_line e pid)
            (sort_key atoi (take 4096 (filter (\<lambda>d. d \<noteq> ''.'' \<and> d \<noteq> ''..'') ds)))))"

definition spy_report :: "procfs \<Rightarrow> int \<Rightarrow> string" where
  "spy_report e pid =
     ''PID'' @ [c_tab] @ ''FD'' @ [c_tab] @ ''TYPE'' @ [c_tab] @ ''PATH'' @ nl @
     (case read_link e (proc_path pid ''/cwd'') of
        None \<Rightarrow> '''' | Some buf \<Rightarrow> report pid ''cwd'' ''DIR'' buf) @
     (case read_link e (proc_path pid ''/exe'') of
        None \<Rightarrow> '''' | Some buf \<Rightarrow> report pid ''txt'' (type_of_path e buf) buf) @
     (case maps_of e pid of None \<Rightarrow> '''' | Some lines \<Rightarrow> mem_lines e pid lines []) @
     fd_lines e pid"

definition spying :: "procfs \<Rightarrow> string list \<Rightarrow> string" where
  "spying e args =
     (if 1 < length args then ''spy: invalid syntax'' @ nl
      else
        let parsed = (case args of
              [] \<Rightarrow> Some (self_pid e)
            | a # _ \<Rightarrow> (case strtol a of (v, end) \<Rightarrow>
                if end \<noteq> [] \<or> v < 0 then None else Some (to_int32 v)))
        in case parsed of
             None \<Rightarrow> ''spy: no such process'' @ nl
           | Some pid \<Rightarrow>
               if \<not> proc_exists e pid then ''spy: no such process'' @ nl
               else if kill_eperm e pid \<or> fd_eacces e pid then ''spy: permission denied'' @ nl
               else spy_report e pid)"

section \<open>Every mapped file once\<close>

text \<open>The paths of the maps file in the order of their first occurrence.\<close>

definition mapped_paths :: "string list \<Rightarrow> string list" where
  "mapped_paths lines =
     filter (\<lambda>p. p \<noteq> [] \<and> hd p = CHR ''/'') (List.map_filter maps_path lines)"

fun firsts :: "'a list \<Rightarrow> 'a list \<Rightarrow> 'a list" where
  "firsts seen [] = []"
| "firsts seen (x # xs) = (if x \<in> set seen then firsts seen xs else x # firsts (seen @ [x]) xs)"

lemma firsts_distinct: "distinct (firsts seen xs) \<and> set (firsts seen xs) = set xs - set seen"
  by (induction seen xs rule: firsts.induct) auto

lemma mem_lines_firsts:
  "length seen + length (firsts seen (mapped_paths lines)) \<le> 256 \<Longrightarrow>
   list_all (\<lambda>p. length p < 4096) (mapped_paths lines) \<Longrightarrow>
   mem_lines e pid lines seen =
     concat (map (\<lambda>p. report pid ''mem'' (type_of_path e p) p) (firsts seen (mapped_paths lines)))"
proof (induction lines arbitrary: seen)
  case Nil
  then show ?case by (simp add: mapped_paths_def map_filter_simps)
next
  case (Cons line lines)
  show ?case
  proof (cases "maps_path line")
    case None
    then have "mapped_paths (line # lines) = mapped_paths lines"
      by (simp add: mapped_paths_def map_filter_simps)
    with None Cons show ?thesis by simp
  next
    case (Some p)
    then have m: "mapped_paths (line # lines) =
        (if p \<noteq> [] \<and> hd p = CHR ''/'' then [p] else []) @ mapped_paths lines"
      by (simp add: mapped_paths_def map_filter_simps)
    with Some Cons show ?thesis by (auto simp: cut_id Let_def)
  qed
qed


end
