(* ===== verification/Sh_Resolve.thy ===== *)
theory Sh_Resolve
  imports CLib
begin

text \<open>
  Finding programs: \<open>c-shell/src/resolve.c\<close> and \<open>locate.c\<close>.  What the file system and the
  environment answer is an argument: the kind of file \<open>stat\<close> reports for a path, whether
  \<open>access(path, X_OK)\<close> succeeds, \<open>getcwd\<close> and \<open>getenv("PATH")\<close>.
\<close>

datatype fkind = Regular | Directory | Other

record pathenv =
  stat_kind :: "string \<Rightarrow> fkind option"
  access_x :: "string \<Rightarrow> bool"
  getcwd :: "string option"
  getenv_PATH :: "string option"

definition is_executable_file :: "pathenv \<Rightarrow> string \<Rightarrow> bool" where
  "is_executable_file e path =
     (case stat_kind e path of
        None \<Rightarrow> False
      | Some k \<Rightarrow> k = Regular \<and> access_x e path)"

definition path_join :: "string \<Rightarrow> string \<Rightarrow> string" where
  "path_join d f = d @ ''/'' @ f"

text \<open>The loop over \<open>strtok\<close>'s pieces of \<open>PATH\<close>, with \<open>res[10100]\<close>.\<close>

fun resolve_dirs :: "pathenv \<Rightarrow> string \<Rightarrow> string list \<Rightarrow> string option" where
  "resolve_dirs e searchname [] = None"
| "resolve_dirs e searchname (dir # dirs) =
     (let res = cut 10100 (path_join dir searchname) in
      if is_executable_file e res then Some res else resolve_dirs e searchname dirs)"

text \<open>\<open>resolving\<close> returns the path and, through \<open>stripped\<close>, the name without the \<open>%\<close>.\<close>

definition resolving :: "pathenv \<Rightarrow> string \<Rightarrow> string option \<times> string" where
  "resolving e name =
     (let skipp = (name \<noteq> [] \<and> hd name = CHR ''%'');
          searchname = (if skipp then tl name else name)
      in (if CHR ''/'' \<in> set searchname then
            (if is_executable_file e searchname then Some searchname else None)
          else
            let here = (if skipp then None
                        else case getcwd e of
                               None \<Rightarrow> None
                             | Some cwd \<Rightarrow>
                                 let res = cut 10100 (path_join cwd searchname) in
                                 if is_executable_file e res then Some res else None)
            in case here of
                 Some r \<Rightarrow> Some r
               | None \<Rightarrow>
                   (case getenv_PATH e of
                      None \<Rightarrow> None
                    | Some pather \<Rightarrow> resolve_dirs e searchname (strtok (CHR '':'') [] pather)),
          searchname))"

text \<open>\<open>check_dir\<close> and \<open>locating\<close>: what is printed, with \<open>full_path[5000]\<close>.\<close>

definition check_dir :: "pathenv \<Rightarrow> string \<Rightarrow> string \<Rightarrow> string \<times> bool \<Rightarrow> string \<times> bool" where
  "check_dir e dir_path target acc =
     (case acc of (out, found) \<Rightarrow>
        let full_path = cut 5000 (path_join dir_path target) in
        if stat_kind e full_path = Some Regular \<and> access_x e full_path
        then (out @ full_path @ nl, True) else (out, found))"

definition locate_one :: "pathenv \<Rightarrow> string \<Rightarrow> string \<Rightarrow> string \<Rightarrow> string" where
  "locate_one e cwd paths target =
     (let (out, found) =
            foldl (\<lambda>acc dir. check_dir e dir target acc) (check_dir e cwd target ('''', False))
              (strtok (CHR '':'') [] paths)
      in if found then out else out @ ''locate: command not found ('' @ target @ '')'' @ nl)"

definition locating :: "pathenv \<Rightarrow> string list \<Rightarrow> string" where
  "locating e args =
     (if args = [] then ''locate: invalid syntax'' @ nl
      else
        (case getcwd e of
           None \<Rightarrow> ''''
         | Some cwd \<Rightarrow>
             concat (map (locate_one e cwd (case getenv_PATH e of None \<Rightarrow> '''' | Some p \<Rightarrow> p)) args)))"

section \<open>The search order\<close>

text \<open>Every place a plain name is looked for, in order.\<close>

definition candidates :: "pathenv \<Rightarrow> bool \<Rightarrow> string \<Rightarrow> string list" where
  "candidates e skipp name =
     map (\<lambda>d. path_join d name)
       ((if skipp then [] else case getcwd e of None \<Rightarrow> [] | Some d \<Rightarrow> [d]) @
        (case getenv_PATH e of None \<Rightarrow> [] | Some p \<Rightarrow> strtok (CHR '':'') [] p))"

lemma resolve_dirs_find:
  "list_all (\<lambda>d. length (path_join d name) < 10100) ds \<Longrightarrow>
   resolve_dirs e name ds = find (is_executable_file e) (map (\<lambda>d. path_join d name) ds)"
  by (induction ds) (auto simp: cut_id Let_def)

lemma resolving_plain:
  assumes "CHR ''/'' \<notin> set name" and "name = [] \<or> hd name \<noteq> CHR ''%''"
    and "list_all (\<lambda>p. length p < 10100) (candidates e False name)"
  shows "resolving e name = (find (is_executable_file e) (candidates e False name), name)"
    and "resolving e (CHR ''%'' # name) = (find (is_executable_file e) (candidates e True name), name)"
  using assms resolve_dirs_find[of name _ e]
  by (auto simp: resolving_def candidates_def Let_def list_all_iff cut_id
      split: option.splits)

text \<open>What \<open>locate\<close> prints: every executable candidate with its multiplicity, in the same order.\<close>

lemma check_dirs_fold:
  "list_all (\<lambda>d. length (path_join d t) < 5000) ds \<Longrightarrow>
   foldl (\<lambda>acc dir. check_dir e dir t acc) (out, found) ds =
     (let hits = filter (is_executable_file e) (map (\<lambda>d. path_join d t) ds) in
      (out @ concat (map (\<lambda>p. p @ nl) hits), found \<or> hits \<noteq> []))"
proof (induction ds arbitrary: out found)
  case Nil
  then show ?case by simp
next
  case (Cons d ds)
  then show ?case
    by (auto simp: check_dir_def Let_def cut_id is_executable_file_def split: option.splits)
qed

lemma locate_one_eq:
  assumes "getcwd e = Some cwd" and "getenv_PATH e = Some paths"
    and "list_all (\<lambda>p. length p < 5000) (candidates e False t)"
  shows "locate_one e cwd paths t =
    (let hits = filter (is_executable_file e) (candidates e False t) in
     if hits = [] then ''locate: command not found ('' @ t @ '')'' @ nl
     else concat (map (\<lambda>p. p @ nl) hits))"
proof -
  let ?ds = "cwd # strtok (CHR '':'') [] paths"
  have c: "candidates e False t = map (\<lambda>d. path_join d t) ?ds"
    using assms(1,2) by (simp add: candidates_def)
  then have "list_all (\<lambda>d. length (path_join d t) < 5000) ?ds"
    using assms(3) by (simp add: list_all_iff)
  from check_dirs_fold[OF this, of e "[]" False]
  have "foldl (\<lambda>acc dir. check_dir e dir t acc) (check_dir e cwd t ([], False))
      (strtok (CHR '':'') [] paths) =
    (let hits = filter (is_executable_file e) (candidates e False t) in
      (concat (map (\<lambda>p. p @ nl) hits), hits \<noteq> []))"
    unfolding c by simp
  then show ?thesis by (auto simp: locate_one_def Let_def)
qed

end
