(* ===== verification/Sh_Snoop.thy ===== *)
theory Sh_Snoop
  imports Sh_Resolve "HOL-Library.Multiset"
begin

text \<open>
  The \<open>snoop\<close> builtin, \<open>c-shell/src/snooping.c\<close>: the names of the system calls, the table of
  statistics and the tracing loop over the stops \<open>waitpid\<close> reports.  Times are in nanoseconds of
  the monotonic clock (the rounding of \<open>double\<close> arithmetic is left out).
\<close>

section \<open>Names\<close>

definition syscall_table1 :: "(int \<times> string) list" where
  "syscall_table1 = [
    (0, ''read''), (1, ''write''), (2, ''open''), (3, ''close''), (4, ''stat''), (5, ''fstat''),
    (6, ''lstat''), (7, ''poll''), (8, ''lseek''), (9, ''mmap''), (10, ''mprotect''),
    (11, ''munmap''), (12, ''brk''), (13, ''rt_sigaction''), (14, ''rt_sigprocmask''),
    (15, ''rt_sigreturn''), (16, ''ioctl''), (17, ''pread64''), (18, ''pwrite64''),
    (19, ''readv''), (20, ''writev''), (21, ''access''), (22, ''pipe''), (23, ''select''),
    (24, ''sched_yield''), (25, ''mremap''), (26, ''msync''), (27, ''mincore''),
    (28, ''madvise''), (29, ''shmget''), (30, ''shmat''), (31, ''shmdt''), (32, ''dup''),
    (33, ''dup2''), (34, ''pause''), (35, ''nanosleep''), (36, ''getitimer''), (37, ''alarm''),
    (38, ''setitimer''), (39, ''getpid''), (40, ''sendfile''), (41, ''socket''),
    (42, ''connect''), (43, ''accept''), (44, ''sendto''), (45, ''recvfrom''), (46, ''sendmsg''),
    (47, ''recvmsg''), (48, ''shutdown''), (49, ''bind''), (50, ''listen''),
    (51, ''getsockname''), (52, ''getpeername''), (53, ''socketpair''), (54, ''setsockopt''),
    (55, ''getsockopt''), (56, ''clone''), (57, ''fork''), (58, ''vfork''), (59, ''execve''),
    (60, ''exit''), (61, ''wait4''), (62, ''kill''), (63, ''uname''), (64, ''semget''),
    (65, ''semop''), (66, ''semctl''), (67, ''shmctl''), (68, ''msgget''), (69, ''msgsnd''),
    (70, ''msgrcv''), (71, ''msgctl''), (72, ''fcntl''), (73, ''flock''), (74, ''fsync''),
    (75, ''fdatasync''), (76, ''truncate''), (77, ''ftruncate''), (78, ''getdents''),
    (79, ''getcwd''), (80, ''chdir''), (81, ''fchdir''), (82, ''rename''), (83, ''mkdir''),
    (84, ''rmdir''), (85, ''creat''), (86, ''link''), (87, ''unlink''), (88, ''symlink''),
    (89, ''readlink''), (90, ''chmod''), (91, ''fchmod''), (92, ''chown''), (93, ''fchown''),
    (94, ''lchown''), (95, ''umask''), (96, ''gettimeofday''), (97, ''getrlimit''),
    (98, ''getrusage''), (99, ''sysinfo''), (100, ''times''), (101, ''ptrace''),
    (102, ''getuid''), (103, ''syslog''), (104, ''getgid''), (105, ''setuid''),
    (106, ''setgid''), (107, ''geteuid''), (108, ''getegid''), (109, ''setpgid''),
    (110, ''getppid''), (111, ''getpgrp''), (112, ''setsid''), (113, ''setreuid''),
    (114, ''setregid'')]"

definition syscall_table2 :: "(int \<times> string) list" where
  "syscall_table2 = [
    (115, ''getgroups''), (116, ''setgroups''), (117, ''setresuid''), (118, ''getresuid''),
    (119, ''setresgid''), (120, ''getresgid''), (121, ''getpgid''), (122, ''setfsuid''),
    (123, ''setfsgid''), (124, ''getsid''), (125, ''capget''), (126, ''capset''),
    (127, ''rt_sigpending''), (128, ''rt_sigtimedwait''), (129, ''rt_sigqueueinfo''),
    (130, ''rt_sigsuspend''), (131, ''sigaltstack''), (132, ''utime''), (133, ''mknod''),
    (134, ''uselib''), (135, ''personality''), (136, ''ustat''), (137, ''statfs''),
    (138, ''fstatfs''), (139, ''sysfs''), (140, ''getpriority''), (141, ''setpriority''),
    (142, ''sched_setparam''), (143, ''sched_getparam''), (144, ''sched_setscheduler''),
    (145, ''sched_getscheduler''), (146, ''sched_get_priority_max''),
    (147, ''sched_get_priority_min''), (148, ''sched_rr_get_interval''), (149, ''mlock''),
    (150, ''munlock''), (151, ''mlockall''), (152, ''munlockall''), (153, ''vhangup''),
    (154, ''modify_ldt''), (155, ''pivot_root''), (156, ''_sysctl''), (157, ''prctl''),
    (158, ''arch_prctl''), (159, ''adjtimex''), (160, ''setrlimit''), (161, ''chroot''),
    (162, ''sync''), (163, ''acct''), (164, ''settimeofday''), (165, ''mount''),
    (166, ''umount2''), (167, ''swapon''), (168, ''swapoff''), (169, ''reboot''),
    (170, ''sethostname''), (171, ''setdomainname''), (172, ''iopl''), (173, ''ioperm''),
    (174, ''create_module''), (175, ''init_module''), (176, ''delete_module''),
    (177, ''get_kernel_syms''), (178, ''query_module''), (179, ''quotactl''),
    (180, ''nfsservctl''), (181, ''getpmsg''), (182, ''putpmsg''), (183, ''afs_syscall''),
    (184, ''tuxcall''), (185, ''security''), (186, ''gettid''), (187, ''readahead''),
    (188, ''setxattr''), (189, ''lsetxattr''), (190, ''fsetxattr''), (191, ''getxattr''),
    (192, ''lgetxattr''), (193, ''fgetxattr''), (194, ''listxattr''), (195, ''llistxattr''),
    (196, ''flistxattr''), (197, ''removexattr''), (198, ''lremovexattr''),
    (199, ''fremovexattr''), (200, ''tkill''), (201, ''time''), (202, ''futex''),
    (203, ''sched_setaffinity''), (204, ''sched_getaffinity''), (205, ''set_thread_area''),
    (206, ''io_setup''), (207, ''io_destroy''), (208, ''io_getevents''), (209, ''io_submit''),
    (210, ''io_cancel''), (211, ''get_thread_area''), (212, ''lookup_dcookie''),
    (213, ''epoll_create''), (214, ''epoll_ctl_old''), (215, ''epoll_wait_old''),
    (216, ''remap_file_pages''), (217, ''getdents64''), (218, ''set_tid_address''),
    (219, ''restart_syscall''), (220, ''semtimedop''), (221, ''fadvise64''),
    (222, ''timer_create''), (223, ''timer_settime''), (224, ''timer_gettime''),
    (225, ''timer_getoverrun''), (226, ''timer_delete''), (227, ''clock_settime''),
    (228, ''clock_gettime''), (229, ''clock_getres'')]"

definition syscall_table3 :: "(int \<times> string) list" where
  "syscall_table3 = [
    (230, ''clock_nanosleep''), (231, ''exit_group''), (232, ''epoll_wait''),
    (233, ''epoll_ctl''), (234, ''tgkill''), (235, ''utimes''), (236, ''vserver''),
    (237, ''mbind''), (238, ''set_mempolicy''), (239, ''get_mempolicy''), (240, ''mq_open''),
    (241, ''mq_unlink''), (242, ''mq_timedsend''), (243, ''mq_timedreceive''),
    (244, ''mq_notify''), (245, ''mq_getsetattr''), (246, ''kexec_load''), (247, ''waitid''),
    (248, ''add_key''), (249, ''request_key''), (250, ''keyctl''), (251, ''ioprio_set''),
    (252, ''ioprio_get''), (253, ''inotify_init''), (254, ''inotify_add_watch''),
    (255, ''inotify_rm_watch''), (256, ''migrate_pages''), (257, ''openat''), (258, ''mkdirat''),
    (259, ''mknodat''), (260, ''fchownat''), (261, ''futimesat''), (262, ''newfstatat''),
    (263, ''unlinkat''), (264, ''renameat''), (265, ''linkat''), (266, ''symlinkat''),
    (267, ''readlinkat''), (268, ''fchmodat''), (269, ''faccessat''), (270, ''pselect6''),
    (271, ''ppoll''), (272, ''unshare''), (273, ''set_robust_list''), (274, ''get_robust_list''),
    (275, ''splice''), (276, ''tee''), (277, ''sync_file_range''), (278, ''vmsplice''),
    (279, ''move_pages''), (280, ''utimensat''), (281, ''epoll_pwait''), (282, ''signalfd''),
    (283, ''timerfd_create''), (284, ''eventfd''), (285, ''fallocate''),
    (286, ''timerfd_settime''), (287, ''timerfd_gettime''), (288, ''accept4''),
    (289, ''signalfd4''), (290, ''eventfd2''), (291, ''epoll_create1''), (292, ''dup3''),
    (293, ''pipe2''), (294, ''inotify_init1''), (295, ''preadv''), (296, ''pwritev''),
    (297, ''rt_tgsigqueueinfo''), (298, ''perf_event_open''), (299, ''recvmmsg''),
    (300, ''fanotify_init''), (301, ''fanotify_mark''), (302, ''prlimit64''),
    (303, ''name_to_handle_at''), (304, ''open_by_handle_at''), (305, ''clock_adjtime''),
    (306, ''syncfs''), (307, ''sendmmsg''), (308, ''setns''), (309, ''getcpu''),
    (310, ''process_vm_readv''), (311, ''process_vm_writev''), (312, ''kcmp''),
    (313, ''finit_module''), (314, ''sched_setattr''), (315, ''sched_getattr''),
    (316, ''renameat2''), (317, ''seccomp''), (318, ''getrandom''), (319, ''memfd_create''),
    (320, ''kexec_file_load''), (321, ''bpf''), (322, ''execveat''), (323, ''userfaultfd''),
    (324, ''membarrier''), (325, ''mlock2''), (326, ''copy_file_range''), (327, ''preadv2''),
    (328, ''pwritev2''), (329, ''pkey_mprotect''), (330, ''pkey_alloc''), (331, ''pkey_free''),
    (332, ''statx''), (333, ''io_pgetevents''), (334, ''rseq'')]"

definition syscall_name :: "int \<Rightarrow> string option" where
  "syscall_name num = map_of (syscall_table1 @ syscall_table2 @ syscall_table3) num"

section \<open>Statistics\<close>

record snoop_stat =
  num :: int
  scount :: int
  total_time :: int
  first_seen :: int

definition cmp_stats :: "snoop_stat \<Rightarrow> snoop_stat \<Rightarrow> int" where
  "cmp_stats sa sb =
     (if scount sb \<noteq> scount sa then to_int32 (scount sb - scount sa)
      else first_seen sa - first_seen sb)"

definition MAX_STATS :: nat where "MAX_STATS = 512"

text \<open>Why \<open>waitpid\<close> returned: a system-call stop with its number and the time, another stop, the end.\<close>

datatype tstop = Sys_stop int int | Sig_stop int | Ended

record snoop_state =
  stats :: "snoop_stat list"
  order :: int
  in_syscall :: bool
  current_num :: int
  entry_time :: int
  sig_to_forward :: int

definition snoop_init :: snoop_state where
  "snoop_init = \<lparr>stats = [], order = 0, in_syscall = False, current_num = - 1,
     entry_time = 0, sig_to_forward = 0\<rparr>"

fun stat_index :: "int \<Rightarrow> snoop_stat list \<Rightarrow> nat option" where
  "stat_index n [] = None"
| "stat_index n (x # xs) = (if num x = n then Some 0 else map_option Suc (stat_index n xs))"

definition bump_stat :: "nat \<Rightarrow> int \<Rightarrow> snoop_stat list \<Rightarrow> snoop_stat list" where
  "bump_stat i dt xs =
     xs[i := (xs ! i)\<lparr>scount := scount (xs ! i) + 1, total_time := total_time (xs ! i) + dt\<rparr>]"

text \<open>The exit from a system call.\<close>

definition finish_call :: "int \<Rightarrow> snoop_state \<Rightarrow> snoop_state" where
  "finish_call now s =
     (let dt = now - entry_time s;
          s = (case stat_index (current_num s) (stats s) of
                 Some i \<Rightarrow> s\<lparr>stats := bump_stat i dt (stats s)\<rparr>
               | None \<Rightarrow>
                   if length (stats s) < MAX_STATS then
                     s\<lparr>stats := bump_stat (length (stats s)) dt
                         (stats s @ [\<lparr>num = current_num s, scount = 0, total_time = 0,
                            first_seen = order s\<rparr>]),
                       order := order s + 1\<rparr>
                   else s)
      in s\<lparr>in_syscall := False\<rparr>)"

text \<open>
  The loop: each turn resumes the process with \<open>sig_to_forward\<close> (the list returned), then looks
  at the next stop.  Without an end of the process it waits for ever.
\<close>

fun snoop_loop :: "tstop list \<Rightarrow> snoop_state \<Rightarrow> (snoop_state \<times> int list) res" where
  "snoop_loop [] s = Spin"
| "snoop_loop (st # sts) s =
     (let resumed = sig_to_forward s;
          s = s\<lparr>sig_to_forward := 0\<rparr>
      in case st of
           Ended \<Rightarrow> Ok (s, [resumed])
         | Sys_stop n now \<Rightarrow>
             bnd (snoop_loop sts
               (if \<not> in_syscall s
                then s\<lparr>current_num := n, entry_time := now, in_syscall := True\<rparr>
                else finish_call now s)) (\<lambda>(s, fw). Ok (s, resumed # fw))
         | Sig_stop sig \<Rightarrow>
             bnd (snoop_loop sts (s\<lparr>sig_to_forward := sig\<rparr>)) (\<lambda>(s, fw). Ok (s, resumed # fw)))"

definition stat_key :: "snoop_stat \<Rightarrow> int \<times> int" where
  "stat_key x = (- scount x, first_seen x)"

text \<open>\<open>%-16s%ld\\t%.3fs\<close>\<close>

definition pad_right :: "nat \<Rightarrow> string \<Rightarrow> string" where
  "pad_right n s = s @ replicate (n - length s) c_space"

definition show_seconds :: "int \<Rightarrow> string" where
  "show_seconds ns =
     (let ms = (ns + 500000) div 1000000;
          frac = show_nat (nat (ms mod 1000))
      in show_int (ms div 1000) @ ''.'' @ replicate (3 - length frac) (CHR ''0'') @ frac)"

definition stat_line :: "snoop_stat \<Rightarrow> string" where
  "stat_line x =
     pad_right 16 (case syscall_name (num x) of
         Some n \<Rightarrow> n
       | None \<Rightarrow> cut 32 (''syscall_'' @ show_int (num x))) @
     show_int (scount x) @ [c_tab] @ show_seconds (total_time x) @ ''s'' @ nl"

text \<open>\<open>qsort\<close> with \<open>cmp_stats\<close>, as an insertion sort.\<close>

fun insert_stat :: "snoop_stat \<Rightarrow> snoop_stat list \<Rightarrow> snoop_stat list" where
  "insert_stat x [] = [x]"
| "insert_stat x (y # ys) = (if cmp_stats x y \<le> 0 then x # y # ys else y # insert_stat x ys)"

definition qsort_stats :: "snoop_stat list \<Rightarrow> snoop_stat list" where
  "qsort_stats xs = foldr insert_stat xs []"

definition snoop_table :: "snoop_stat list \<Rightarrow> string" where
  "snoop_table xs =
     ''syscall'' @ [c_tab, c_tab] @ ''calls'' @ [c_tab] @ ''time'' @ nl @
     concat (map stat_line (qsort_stats xs))"

section \<open>The builtin\<close>

text \<open>What \<open>/proc\<close> and \<open>ptrace(PTRACE_ATTACH)\<close> answer for a process.\<close>

record tracer =
  tr_exists :: "int \<Rightarrow> bool"
  tr_attach :: "int \<Rightarrow> bool"
  tr_stops :: "tstop list"

definition snoop_run :: "tracer \<Rightarrow> string res" where
  "snoop_run e =
     bnd (snoop_loop (tr_stops e) snoop_init) (\<lambda>(s, fw). Ok (snoop_table (stats s)))"

definition snooping :: "pathenv \<Rightarrow> tracer \<Rightarrow> string list \<Rightarrow> string res" where
  "snooping pe e args =
     (if args \<noteq> [] \<and> hd args = ''-p'' then
        (if length args < 2 then Ok (''snoop: no such process'' @ nl)
         else
           (case strtol (args ! 1) of (v, end) \<Rightarrow>
              if end \<noteq> [] \<or> \<not> tr_exists e (to_int32 v) \<or> \<not> tr_attach e (to_int32 v)
              then Ok (''snoop: no such process'' @ nl)
              else snoop_run e))
      else if args = [] then Ok (''snoop: command not found'' @ nl)
      else
        (case fst (resolving pe (hd args)) of
           None \<Rightarrow> Ok (''snoop: command not found'' @ nl)
         | Some path \<Rightarrow> snoop_run e))"

section \<open>The table counts the calls\<close>

text \<open>The finished calls of a trace, each with its number and duration.\<close>

fun finished :: "tstop list \<Rightarrow> (int \<times> int) option \<Rightarrow> (int \<times> int) list" where
  "finished [] cur = []"
| "finished (Ended # sts) cur = []"
| "finished (Sig_stop sig # sts) cur = finished sts cur"
| "finished (Sys_stop n t # sts) None = finished sts (Some (n, t))"
| "finished (Sys_stop n t # sts) (Some (m, t0)) = (m, t - t0) # finished sts None"

definition calls_of :: "int \<Rightarrow> (int \<times> int) list \<Rightarrow> int list" where
  "calls_of n cs = map snd (filter (\<lambda>c. fst c = n) cs)"

definition stat_of :: "int \<Rightarrow> snoop_stat list \<Rightarrow> int \<times> int" where
  "stat_of n xs =
     (case stat_index n xs of None \<Rightarrow> (0, 0) | Some i \<Rightarrow> (scount (xs ! i), total_time (xs ! i)))"

lemma stat_index_Some: "stat_index n xs = Some i \<Longrightarrow> i < length xs \<and> num (xs ! i) = n"
  by (induction xs arbitrary: i) (auto split: if_splits)

lemma stat_index_None: "stat_index n xs = None \<longleftrightarrow> n \<notin> num ` set xs"
  by (induction xs) auto

lemma stat_index_append:
  "stat_index n (xs @ [y]) =
     (case stat_index n xs of Some i \<Rightarrow> Some i
      | None \<Rightarrow> if num y = n then Some (length xs) else None)"
  by (induction xs) (auto split: option.splits)

lemma stat_index_bump: "i < length xs \<Longrightarrow> stat_index n (bump_stat i dt xs) = stat_index n xs"
  by (induction xs arbitrary: i) (auto simp: bump_stat_def split: nat.splits)

lemma map_num_bump: "i < length xs \<Longrightarrow> map num (bump_stat i dt xs) = map num xs"
  by (simp add: bump_stat_def map_update list_update_same_conv)

lemma stat_of_bump:
  "i < length xs \<Longrightarrow> stat_of n (bump_stat i dt xs) =
     (if stat_index n xs = Some i then (scount (xs ! i) + 1, total_time (xs ! i) + dt)
      else stat_of n xs)"
proof -
  assume i: "i < length xs"
  have "bump_stat i dt xs ! j = (if i = j then (xs ! i)\<lparr>scount := scount (xs ! i) + 1,
      total_time := total_time (xs ! i) + dt\<rparr> else xs ! j)" for j
    using i by (simp add: bump_stat_def)
  with i show ?thesis by (simp add: stat_of_def stat_index_bump split: option.split)
qed

lemma stat_of_append:
  "num y \<notin> num ` set xs \<Longrightarrow> stat_of n (xs @ [y]) =
     (if num y = n then (scount y, total_time y) else stat_of n xs)"
  by (auto simp: stat_of_def stat_index_append nth_append stat_index_None[symmetric]
      dest: stat_index_Some split: option.splits)

definition stats_ok :: "int set \<Rightarrow> snoop_state \<Rightarrow> bool" where
  "stats_ok S s \<longleftrightarrow> distinct (map num (stats s)) \<and> num ` set (stats s) \<subseteq> S"

text \<open>With room for the numbers in play, finishing a call adds it to its row and no other.\<close>

lemma finish_call_stats:
  assumes ok: "stats_ok S s" and S: "finite S" "card S \<le> MAX_STATS" "current_num s \<in> S"
  shows "stats_ok S (finish_call now s)"
    and "stat_of n (stats (finish_call now s)) =
      (if n = current_num s
       then (fst (stat_of n (stats s)) + 1, snd (stat_of n (stats s)) + (now - entry_time s))
       else stat_of n (stats s))"
proof -
  let ?c = "current_num s" and ?xs = "stats s"
  have "stats_ok S (finish_call now s) \<and> stat_of n (stats (finish_call now s)) =
      (if n = ?c then (fst (stat_of n ?xs) + 1, snd (stat_of n ?xs) + (now - entry_time s))
       else stat_of n ?xs)"
  proof (cases "stat_index ?c ?xs")
    case (Some i)
    then have i: "i < length ?xs" "num (?xs ! i) = ?c" by (auto dest: stat_index_Some)
    have m: "map num (bump_stat i dt ?xs) = map num ?xs" for dt using i(1) by (rule map_num_bump)
    then have "num ` set (bump_stat i dt ?xs) = num ` set ?xs" for dt by (metis set_map)
    moreover have "stat_index n ?xs = Some i \<longleftrightarrow> n = ?c"
      using Some i(2) by (auto dest: stat_index_Some)
    moreover have "stat_of ?c ?xs = (scount (?xs ! i), total_time (?xs ! i))"
      using Some by (simp add: stat_of_def)
    ultimately show ?thesis
      using ok m Some i(1) by (auto simp: finish_call_def stats_ok_def stat_of_bump)
  next
    case None
    then have new: "?c \<notin> num ` set ?xs" by (simp add: stat_index_None)
    have "card (num ` set ?xs) < card S"
      using ok new S by (auto simp: stats_ok_def intro!: psubset_card_mono)
    moreover have "card (num ` set ?xs) = length ?xs"
      using ok by (metis distinct_card length_map set_map stats_ok_def)
    ultimately have room: "length ?xs < MAX_STATS" using S(2) by simp
    define y where "y = \<lparr>num = ?c, scount = 0, total_time = 0, first_seen = order s\<rparr>"
    have y: "num y = ?c" "scount y = 0" "total_time y = 0" by (simp_all add: y_def)
    have fin: "stats (finish_call now s) = bump_stat (length ?xs) (now - entry_time s) (?xs @ [y])"
      using None room by (simp add: finish_call_def y_def)
    have m: "map num (bump_stat (length ?xs) dt (?xs @ [y])) = map num (?xs @ [y])" for dt
      by (rule map_num_bump) simp
    then have "num ` set (bump_stat (length ?xs) dt (?xs @ [y])) = insert ?c (num ` set ?xs)" for dt
      by (metis (no_types, lifting) list.simps(15) rotate1.simps(2) set_map set_rotate1 map_append list.map y(1))
    moreover have "stat_index n (?xs @ [y]) = Some (length ?xs) \<longleftrightarrow> n = ?c"
      using None y(1) by (auto simp: stat_index_append dest: stat_index_Some split: option.splits)
    moreover have "stat_of ?c ?xs = (0, 0)" using None by (simp add: stat_of_def)
    ultimately show ?thesis
      using ok new S(3) m y by (auto simp: fin stats_ok_def stat_of_bump stat_of_append)
  qed
  then show "stats_ok S (finish_call now s)"
    and "stat_of n (stats (finish_call now s)) =
      (if n = ?c then (fst (stat_of n ?xs) + 1, snd (stat_of n ?xs) + (now - entry_time s))
       else stat_of n ?xs)" by blast+
qed

definition numbers :: "tstop list \<Rightarrow> int set" where
  "numbers sts = {n. \<exists>t. Sys_stop n t \<in> set sts}"

definition in_flight :: "snoop_state \<Rightarrow> (int \<times> int) option" where
  "in_flight s = (if in_syscall s then Some (current_num s, entry_time s) else None)"

text \<open>The signals of the other stops, each delivered when the process is next resumed.\<close>

fun delivered :: "tstop list \<Rightarrow> int \<Rightarrow> int list" where
  "delivered [] pend = [pend]"
| "delivered (Ended # sts) pend = [pend]"
| "delivered (Sig_stop sig # sts) pend = pend # delivered sts sig"
| "delivered (Sys_stop n t # sts) pend = pend # delivered sts 0"

lemma finish_call_other [simp]:
  "sig_to_forward (finish_call now s) = sig_to_forward s" "in_syscall (finish_call now s) = False"
  by (auto simp: finish_call_def Let_def split: option.splits)

lemma snoop_loop_counts:
  assumes "finite S" and "card S \<le> MAX_STATS"
  shows "Ended \<in> set sts \<Longrightarrow> stats_ok S s \<Longrightarrow> numbers sts \<subseteq> S \<Longrightarrow>
     (in_syscall s \<Longrightarrow> current_num s \<in> S) \<Longrightarrow>
     \<exists>s'. snoop_loop sts s = Ok (s', delivered sts (sig_to_forward s)) \<and>
       stats_ok S s' \<and>
       (\<forall>n. stat_of n (stats s') =
          (fst (stat_of n (stats s)) + int (length (calls_of n (finished sts (in_flight s)))),
           snd (stat_of n (stats s)) + sum_list (calls_of n (finished sts (in_flight s)))))"
proof (induction sts arbitrary: s)
  case Nil
  then show ?case by simp
next
  case (Cons st sts)
  show ?case
  proof (cases st)
    case Ended
    with Cons.prems(2) show ?thesis by (auto simp: stats_ok_def calls_of_def Let_def)
  next
    case (Sig_stop sig)
    let ?s = "s\<lparr>sig_to_forward := sig\<rparr>"
    have "Ended \<in> set sts" "stats_ok S ?s" "numbers sts \<subseteq> S" "in_syscall ?s \<Longrightarrow> current_num ?s \<in> S"
      using Cons.prems Sig_stop by (auto simp: stats_ok_def numbers_def)
    from Cons.IH[OF this] show ?thesis
      by (auto simp: Sig_stop Let_def in_flight_def)
  next
    case (Sys_stop n t)
    have p: "Ended \<in> set sts" "numbers sts \<subseteq> S" "n \<in> S"
      using Cons.prems Sys_stop by (auto simp: numbers_def)
    show ?thesis
    proof (cases "in_syscall s")
      case False
      let ?s = "s\<lparr>sig_to_forward := 0, current_num := n, entry_time := t, in_syscall := True\<rparr>"
      have "stats_ok S ?s" "in_syscall ?s \<Longrightarrow> current_num ?s \<in> S"
        using Cons.prems p(3) by (simp_all add: stats_ok_def)
      from Cons.IH[OF p(1) this(1) p(2) this(2)] show ?thesis
        using False by (auto simp: Sys_stop Let_def in_flight_def)
    next
      case True
      let ?q = "s\<lparr>sig_to_forward := 0\<rparr>"
      let ?s = "finish_call t ?q"
      have ok0: "stats_ok S ?q" "current_num ?q \<in> S"
        using Cons.prems(2,4) True by (simp_all add: stats_ok_def)
      note fin = finish_call_stats[OF ok0(1) assms ok0(2)]
      have c: "in_syscall ?s \<Longrightarrow> current_num ?s \<in> S" by simp
      obtain s' where s': "snoop_loop sts ?s = Ok (s', delivered sts (sig_to_forward ?s))" "stats_ok S s'"
        "\<And>k. stat_of k (stats s') =
          (fst (stat_of k (stats ?s)) + int (length (calls_of k (finished sts (in_flight ?s)))),
           snd (stat_of k (stats ?s)) + sum_list (calls_of k (finished sts (in_flight ?s))))"
        using Cons.IH[OF p(1) fin(1)[of t] p(2) c] by blast
      have "stat_of k (stats ?s) =
          (if k = current_num s
           then (fst (stat_of k (stats s)) + 1, snd (stat_of k (stats s)) + (t - entry_time s))
           else stat_of k (stats s))" for k
        using fin(2)[of k t] by simp
      with s' show ?thesis
        using True by (auto simp: Sys_stop Let_def in_flight_def calls_of_def)
    qed
  qed
qed

end
