(* ===== verification/Sh_Exec.thy ===== *)
theory Sh_Exec
  imports Sh_Fds Sh_Pipeline Sh_Reveal Sh_Peek Sh_Spy Sh_Snoop
begin

text \<open>
  Running command lines, \<open>c-shell/src/execute.c\<close>: the builtins, foreground and background
  pipelines with their descriptors, jobs and waits, \<open>resume\<close> and \<open>ping\<close>, and \<open>run_cmd\<close>.
\<close>

record xenv = fsenv +
  path_of :: "string \<Rightarrow> pathenv"
  dirs_of :: "string \<Rightarrow> dirs"
  tty_input :: string
  proc_fs :: procfs
  tracee :: tracer
  shell_pgrp :: int
  walk_fuel :: nat

section \<open>Waiting, resume and ping\<close>

text \<open>The wait loop of \<open>run_foreground\<close>: returns whether the job stopped, and the answers left.\<close>

fun fg_wait ::
  "waitev list \<Rightarrow> int \<Rightarrow> string \<Rightarrow> nat option \<Rightarrow> nat \<Rightarrow> 'a xworld_scheme \<Rightarrow>
   (bool \<times> waitev list \<times> 'a xworld_scheme) res" where
  "fg_wait evs job_num cmdline j 0 s = Ok (False, evs, s)"
| "fg_wait [] job_num cmdline j (Suc r) s = Spin"
| "fg_wait (Wait_ok pid st # evs) job_num cmdline j (Suc r) s =
     (case st of
        WStopped _ \<Rightarrow>
          (let s = (case j of None \<Rightarrow> s | Some i \<Rightarrow> upd_job i (\<lambda>j. j\<lparr>jstate := job_stopped\<rparr>) s) in
           Ok (True, evs,
             printf (''['' @ show_int job_num @ ''] + Stopped'' @ [c_tab] @ cmdline @ nl) s))
      | WExited _ \<Rightarrow> fg_wait evs job_num cmdline j r s
      | WSignaled _ \<Rightarrow> fg_wait evs job_num cmdline j r s
      | WContinued \<Rightarrow> fg_wait evs job_num cmdline j (Suc r) s)"
| "fg_wait (Wait_eintr # evs) job_num cmdline j (Suc r) s = fg_wait evs job_num cmdline j (Suc r) s"
| "fg_wait (Wait_fail # evs) job_num cmdline j (Suc r) s = Ok (False, evs, s)"
| "fg_wait (Handler ws # evs) job_num cmdline j (Suc r) s =
     bnd (reap_finished ws s) (\<lambda>s. fg_wait evs job_num cmdline j (Suc r) s)"
| "fg_wait (Timeout # evs) job_num cmdline j (Suc r) s = fg_wait evs job_num cmdline j (Suc r) s"

text \<open>
  The wait loop of \<open>resuming\<close>: returns the processes that remain, whether it timed out, and the
  answers left.  \<open>timed\<close> is \<open>timeout > 0\<close>: only then the alarm is set.
\<close>

fun resume_wait ::
  "waitev list \<Rightarrow> bool \<Rightarrow> nat \<Rightarrow> nat \<Rightarrow> 'a xworld_scheme \<Rightarrow>
   (nat \<times> bool \<times> waitev list \<times> 'a xworld_scheme) res" where
  "resume_wait evs timed j 0 s = Ok (0, False, evs, s)"
| "resume_wait [] timed j (Suc r) s = Spin"
| "resume_wait (Wait_ok pid st # evs) timed j (Suc r) s =
     (case st of
        WStopped _ \<Rightarrow> Ok (Suc r, False, evs, upd_job j (\<lambda>j. j\<lparr>jstate := job_stopped\<rparr>) s)
      | WExited _ \<Rightarrow> resume_wait evs timed j r s
      | WSignaled _ \<Rightarrow> resume_wait evs timed j r s
      | WContinued \<Rightarrow> resume_wait evs timed j (Suc r) s)"
| "resume_wait (Wait_eintr # evs) timed j (Suc r) s = resume_wait evs timed j (Suc r) s"
| "resume_wait (Wait_fail # evs) timed j (Suc r) s = Ok (Suc r, False, evs, s)"
| "resume_wait (Handler ws # evs) timed j (Suc r) s =
     bnd (reap_finished ws s) (\<lambda>s. resume_wait evs timed j (Suc r) s)"
| "resume_wait (Timeout # evs) timed j (Suc r) s =
     (if timed then Ok (Suc r, True, evs, s) else resume_wait evs timed j (Suc r) s)"

text \<open>The checks on the arguments of \<open>resume\<close>: the job, foreground or not, the timeout.\<close>

definition resume_args ::
  "string list \<Rightarrow> 'a xworld_scheme \<Rightarrow> string + nat \<times> bool \<times> int" where
  "resume_args args s =
     (let bad = Inl (''resume: invalid syntax'' @ nl) in
      if length args < 2 \<or> args ! 0 = [] \<or> hd (args ! 0) \<noteq> CHR ''%'' then bad
      else
        (case strtol (tl (args ! 0)) of (jn, rest) \<Rightarrow>
          if rest \<noteq> [] then bad
          else
            (case find_job_by_number (to_int32 jn) s of
               None \<Rightarrow> Inl (''resume: no such job'' @ nl)
             | Some j \<Rightarrow>
                 let is_fg = (args ! 1 = ''fg''); is_bg = (args ! 1 = ''bg'') in
                 if \<not> is_fg \<and> \<not> is_bg then bad
                 else if is_fg \<and> 4 \<le> length args \<and> args ! 2 = ''--timeout'' then
                   (case strtol (args ! 3) of (t, rest2) \<Rightarrow>
                      if rest2 \<noteq> [] \<or> to_int32 t \<le> 0 then bad
                      else Inr (j, is_fg, to_int32 t))
                 else if is_bg \<and> 2 < length args then bad
                 else if is_fg \<and> 2 < length args \<and> args ! 2 \<noteq> ''--timeout'' then bad
                 else Inr (j, is_fg, 0))))"

definition resuming :: "('b xenv_scheme) \<Rightarrow> string list \<Rightarrow> 'a xworld_scheme \<Rightarrow> 'a xworld_scheme res" where
  "resuming e args s =
     (case resume_args args s of
        Inl msg \<Rightarrow> Ok (printf msg s)
      | Inr (j, is_fg, timeout) \<Rightarrow>
          let jb = jobs s ! j; s = emit (Kill (- pgid jb) SIGCONT) s in
          if \<not> is_fg then
            Ok (printf (''['' @ show_int (job_number jb) @ ''] + Running'' @ [c_tab] @ command jb @ nl)
                 (upd_job j (\<lambda>j. j\<lparr>jstate := job_running\<rparr>) s))
          else
            let s = emit (Tcsetpgrp (pgid jb)) (printf (command jb @ nl) s);
                s = upd_job j (\<lambda>j. j\<lparr>jstate := job_running\<rparr>) s;
                s = (if 0 < timeout then emit (Alarm timeout) s else s) in
            bnd (resume_wait (os_waits s) (0 < timeout) j (length (procs (jobs s ! j))) s)
              (\<lambda>(remaining, timed_out, evs, s).
                let s = s\<lparr>os_waits := evs\<rparr>;
                    s = (if 0 < timeout then
                           (if timed_out then
                              upd_job j (\<lambda>j. j\<lparr>active := False\<rparr>)
                                (printf (''resume: job timed out'' @ nl)
                                  (emit (Kill (- pgid jb) SIGTERM) s))
                            else emit (Alarm 0) s)
                         else if remaining = 0 then upd_job j (\<lambda>j. j\<lparr>active := False\<rparr>) s
                         else s)
                in Ok (emit (Tcsetpgrp (shell_pgrp e)) s)))"

definition pinging :: "string list \<Rightarrow> 'a xworld_scheme \<Rightarrow> 'a xworld_scheme" where
  "pinging args s =
     (let none = ''ping: no such process found'' @ nl in
      if length args \<noteq> 2 then printf (''ping: invalid syntax'' @ nl) s
      else
        (case strtol (args ! 1) of (sig_num, rest) \<Rightarrow>
          if rest \<noteq> [] \<or> sig_num < 0 then printf (''ping: invalid syntax'' @ nl) s
          else
            let real_sig = sig_num mod 64;
                target = args ! 0;
                sent = printf (''Sent signal '' @ args ! 1 @ '' to '' @ target @ nl)
            in if target \<noteq> [] \<and> hd target = CHR ''%'' then
                 (case strtol (tl target) of (jn, rest) \<Rightarrow>
                    if rest \<noteq> [] then printf none s
                    else
                      (case find_job_by_number (to_int32 jn) s of
                         None \<Rightarrow> printf none s
                       | Some j \<Rightarrow> sent (emit (Kill (- pgid (jobs s ! j)) real_sig) s)))
               else
                 (case strtol target of (pid, rest) \<Rightarrow>
                    if rest \<noteq> [] \<or> find_job_containing_pid (to_int32 pid) s = None then printf none s
                    else sent (emit (Kill (to_int32 pid) real_sig) s))))"

section \<open>Builtins\<close>

definition is_shell_only_builtin :: "string \<Rightarrow> bool" where
  "is_shell_only_builtin cmd \<longleftrightarrow>
     cmd = ''hop'' \<or> cmd = ''exit'' \<or> cmd = ''activities'' \<or> cmd = ''resume'' \<or> cmd = ''ping'' \<or>
     cmd = ''spy'' \<or> cmd = ''snoop''"

definition is_builtin :: "string \<Rightarrow> bool" where
  "is_builtin cmd \<longleftrightarrow>
     cmd = ''hop'' \<or> cmd = ''reveal'' \<or> cmd = ''peek'' \<or> cmd = ''locate'' \<or> cmd = ''exit'' \<or>
     cmd = ''activities'' \<or> cmd = ''resume'' \<or> cmd = ''ping'' \<or> cmd = ''spy'' \<or> cmd = ''snoop''"

text \<open>What \<open>peek\<close> finds at a name; \<open>-\<close> is standard input.\<close>

definition source_of :: "('b xenv_scheme) \<Rightarrow> 'a xworld_scheme \<Rightarrow> string \<Rightarrow> source" where
  "source_of e s name =
     (if name = ''-'' then Bytes (tty_input e)
      else if stat_isdir (os e) (cwd s) name then Is_dir
      else if path_exists e name s \<and> readable e (abs_path e (cwd s) name)
      then Bytes (content s (abs_path e (cwd s) name)) else Missing)"

text \<open>\<open>exit(0)\<close> ends the shell: \<open>exited\<close> is set and nothing runs after it.\<close>

definition run_builtin ::
  "('b xenv_scheme) \<Rightarrow> string \<Rightarrow> string list \<Rightarrow> 'a xworld_scheme \<Rightarrow> 'a xworld_scheme res" where
  "run_builtin e shome args s =
     (let cmd = hd args; rest = tl args in
      if cmd = ''hop'' then hopping (os e) rest shome s
      else if cmd = ''reveal'' then
        (case revealing (walk_fuel e) (dirs_of e (cwd s)) shome (previous s) rest of
           None \<Rightarrow> Spin | Some out \<Rightarrow> Ok (printf out s))
      else if cmd = ''peek'' then Ok (printf (peeking (source_of e s) rest) s)
      else if cmd = ''locate'' then Ok (printf (locating (path_of e (cwd s)) rest) s)
      else if cmd = ''exit'' then Ok (s\<lparr>exited := True\<rparr>)
      else if cmd = ''activities'' then
        (case os_reaps s of
           [] \<Rightarrow> activities [] s
         | ws # later \<Rightarrow> activities ws (s\<lparr>os_reaps := later\<rparr>))
      else if cmd = ''resume'' then resuming e rest s
      else if cmd = ''ping'' then Ok (pinging rest s)
      else if cmd = ''spy'' then Ok (printf (spying (proc_fs e) rest) s)
      else if cmd = ''snoop'' then
        bnd (snooping (path_of e (cwd s)) (tracee e) rest) (\<lambda>out. Ok (printf out s))
      else Ok s)"

section \<open>Preparing a pipeline\<close>

text \<open>
  \<open>presolve\<close> from stage \<open>i\<close> on: \<open>None\<close> is the early \<open>return 0\<close>; otherwise \<open>resolved\<close>, where \<open>None\<close>
  is the empty string.
\<close>

fun presolve ::
  "('b xenv_scheme) \<Rightarrow> nat \<Rightarrow> commands list \<Rightarrow> 'a xworld_scheme \<Rightarrow>
   string option list option \<times> 'a xworld_scheme" where
  "presolve e stage_count [] s = (Some [], s)"
| "presolve e stage_count (c # cs) s =
     (if argv c = [] \<or> is_builtin (hd (argv c)) then
        (case presolve e stage_count cs s of (r, s) \<Rightarrow> (map_option ((#) None) r, s))
      else
        (case resolving (path_of e (cwd s)) (hd (argv c)) of (path, stripped) \<Rightarrow>
           case path of
             None \<Rightarrow>
               (let s = printf (''cshell: command not found ('' @ stripped @ '')'' @ nl) s in
                if stage_count = 1 then (None, s)
                else (case presolve e stage_count cs s of (r, s) \<Rightarrow> (map_option ((#) None) r, s)))
           | Some p \<Rightarrow>
               (case presolve e stage_count cs s of (r, s) \<Rightarrow>
                  (map_option ((#) (if p = [] then None else Some (cut 5000 p))) r, s))))"

text \<open>\<open>strncat(out, x, outsize - strlen(out) - 1)\<close>\<close>

definition strncat :: "nat \<Rightarrow> string \<Rightarrow> string \<Rightarrow> string" where
  "strncat outsize out x = out @ take (outsize - length out - 1) x"

fun add_args :: "nat \<Rightarrow> string list \<Rightarrow> bool \<Rightarrow> string \<Rightarrow> string" where
  "add_args n [] first out = out"
| "add_args n (a # as) first out =
     add_args n as False (strncat n (if first then out else strncat n out '' '') a)"

fun build_command_string :: "nat \<Rightarrow> commands list \<Rightarrow> bool \<Rightarrow> string \<Rightarrow> string" where
  "build_command_string n [] first out = out"
| "build_command_string n (c # cs) first out =
     build_command_string n cs False
       (add_args n (argv c) True (if first then out else strncat n out '' | ''))"

text \<open>What the child of a stage runs.\<close>

definition child_runs :: "commands \<Rightarrow> string option \<Rightarrow> child_run" where
  "child_runs c resolved =
     (if is_builtin (hd (argv c)) then Run_builtin (argv c)
      else case resolved of None \<Rightarrow> Run_nothing | Some p \<Rightarrow> Run_exec p (argv c))"

definition in_fds :: "in_tmp \<Rightarrow> nat list" where
  "in_fds r = (case r of Input_fd f \<Rightarrow> [f] | _ \<Rightarrow> [])"

text \<open>The \<open>dup2\<close>s and \<open>close\<close>s of the child of stage \<open>i\<close> of \<open>n\<close>, in the foreground.\<close>

definition fg_child_fds ::
  "(nat \<times> nat) list \<Rightarrow> in_tmp \<Rightarrow> out_ctx \<Rightarrow> nat \<Rightarrow> nat \<Rightarrow> fdtab \<Rightarrow> fdtab" where
  "fg_child_fds pipes inr ctx n i t =
     (let t = (if 0 < i then fd_dup2 (fst (pipes ! (i - 1))) 0 t
               else case inr of Input_fd f \<Rightarrow> fd_dup2 f 0 t | _ \<Rightarrow> t);
          t = (if i < n - 1 then fd_dup2 (snd (pipes ! i)) 1 t
               else case tmp_fd ctx of Some f \<Rightarrow> fd_dup2 f 1 t | None \<Rightarrow> t);
          t = close_all (pipe_fds pipes) t;
          t = close_all (in_fds inr) t
      in close_all (ctx_fds ctx) t)"

text \<open>In the background: the first stage waits at the gate and reads \<open>/dev/null\<close>.\<close>

definition bg_child_fds ::
  "(nat \<times> nat) list \<Rightarrow> nat \<times> nat \<Rightarrow> in_tmp \<Rightarrow> out_ctx \<Rightarrow> nat \<Rightarrow> nat \<Rightarrow> fdtab \<Rightarrow> fdtab" where
  "bg_child_fds pipes gate inr ctx n i t =
     (let t = (if i = 0 then
                 (let t = fd_close (fst gate) (fd_close (snd gate) t) in
                  case inr of
                    Input_fd f \<Rightarrow> fd_dup2 f 0 t
                  | _ \<Rightarrow> (case fd_alloc Dev_null t of (d, t) \<Rightarrow> fd_close d (fd_dup2 d 0 t)))
               else fd_dup2 (fst (pipes ! (i - 1))) 0 t);
          t = (if i < n - 1 then fd_dup2 (snd (pipes ! i)) 1 t
               else case tmp_fd ctx of Some f \<Rightarrow> fd_dup2 f 1 t | None \<Rightarrow> t);
          t = close_all [fst gate, snd gate] t;
          t = close_all (pipe_fds pipes) t;
          t = close_all (in_fds inr) t
      in close_all (ctx_fds ctx) t)"

text \<open>
  The fork loop from stage \<open>i\<close> on: the pids (\<open>None\<close> for a stage without arguments, whose entry is
  never written) and the process group.
\<close>

fun fork_stages ::
  "(nat \<Rightarrow> fdtab \<Rightarrow> fdtab) \<Rightarrow> commands list \<Rightarrow> string option list \<Rightarrow> nat \<Rightarrow> int \<Rightarrow>
   'a xworld_scheme \<Rightarrow> (int option list \<times> int \<times> 'a xworld_scheme) res" where
  "fork_stages cf [] rs i grp s = Ok ([], grp, s)"
| "fork_stages cf (c # cs) rs i grp s =
     (if argv c = [] then
        bnd (fork_stages cf cs (tl rs) (Suc i) grp s) (\<lambda>(ps, grp, s). Ok (None # ps, grp, s))
      else
        (case os_pids s of
           [] \<Rightarrow> Spin
         | pid # later \<Rightarrow>
             let s = s\<lparr>os_pids := later,
                       children := children s @
                         (if 0 < pid
                          then [\<lparr>cpid = pid, cfds = cf i (fds s), crun = child_runs c (hd rs)\<rparr>]
                          else [])\<rparr>;
                 s = emit (Setpgid pid grp) (emit (Fork i pid) s)
             in bnd (fork_stages cf cs (tl rs) (Suc i) (if i = 0 then pid else grp) s)
                  (\<lambda>(ps, grp, s). Ok (Some pid # ps, grp, s))))"

definition stage_names :: "commands list \<Rightarrow> string option list" where
  "stage_names pipeline =
     map (\<lambda>c. if argv c = [] then None else Some (hd (argv c))) pipeline"

definition read_pids :: "int option list \<Rightarrow> int list res" where
  "read_pids ps =
     (if list_all (\<lambda>p. p \<noteq> None) ps then Ok (map the ps) else Undef ''uninitialised pid'')"

section \<open>Foreground and background\<close>

definition next_output :: "out_ctx \<Rightarrow> 'a xworld_scheme \<Rightarrow> 'a xworld_scheme" where
  "next_output ctx s =
     (case os_outs s of [] \<Rightarrow> s | txt # later \<Rightarrow> child_output ctx txt (s\<lparr>os_outs := later\<rparr>))"

text \<open>\<open>run_foreground\<close> from the fork loop on, with the descriptors set up.\<close>

definition fg_job ::
  "('b xenv_scheme) \<Rightarrow> commands list \<Rightarrow> string option list \<Rightarrow> in_tmp \<Rightarrow> out_ctx \<Rightarrow>
   (nat \<times> nat) list \<Rightarrow> 'a xworld_scheme \<Rightarrow> 'a xworld_scheme res" where
  "fg_job e pipeline resolved inr ctx pipes s =
     bnd (fork_stages (fg_child_fds pipes inr ctx (length pipeline)) pipeline resolved 0 0
            (s\<lparr>fg_running := True\<rparr>)) (\<lambda>(ps, grp, s).
     let s = close_fds (in_fds inr) (close_fds (pipe_fds pipes) s);
         cmdline = build_command_string 512 pipeline True '''' in
     bnd (read_pids ps) (\<lambda>pids.
     bnd (register_job grp pids (stage_names pipeline) cmdline False s) (\<lambda>(job_num, s).
     let j = find_job_by_number job_num s; s = emit (Tcsetpgrp grp) s in
     bnd (fg_wait (os_waits s) job_num cmdline j (length pipeline) s) (\<lambda>(stopped, evs, s).
     let s = emit (Tcsetpgrp (shell_pgrp e)) (s\<lparr>os_waits := evs\<rparr>);
         s = (case j of
                None \<Rightarrow> s
              | Some i \<Rightarrow> if stopped then s else upd_job i (\<lambda>j. j\<lparr>active := False\<rparr>) s);
         s = flush_output ctx (next_output ctx (s\<lparr>fg_running := False\<rparr>))
     in Ok (flush_pending_bg_msg s)))))"

definition run_foreground ::
  "('b xenv_scheme) \<Rightarrow> string \<Rightarrow> commands list \<Rightarrow> 'a xworld_scheme \<Rightarrow>
   (bool \<times> 'a xworld_scheme) res" where
  "run_foreground e shome pipeline s =
     (let n = length pipeline; first = hd pipeline in
      case presolve e n pipeline s of (res, s) \<Rightarrow>
      case res of
        None \<Rightarrow> Ok (False, s)
      | Some resolved \<Rightarrow>
        if n = 1 \<and> in_files first = [] \<and> out_files first = [] \<and>
           is_shell_only_builtin (hd (argv first))
        then bnd (run_builtin e shome (argv first) s) (\<lambda>s. Ok (\<not> exited s, s))
        else
        case build_input_tmp e (in_files first) s of (inr, s) \<Rightarrow>
        if inr = Input_error then Ok (False, s)
        else
        case prepare_output e (out_files (last pipeline)) s of (ctx, s) \<Rightarrow>
        case ctx of
          None \<Rightarrow> Ok (False, close_fds (in_fds inr) s)
        | Some ctx \<Rightarrow>
          case new_pipes (n - 1) s of (pipes, s) \<Rightarrow>
          bnd (fg_job e pipeline resolved inr ctx pipes s) (\<lambda>s. Ok (True, s)))"

definition bg_job ::
  "commands list \<Rightarrow> string option list \<Rightarrow> in_tmp \<Rightarrow> out_ctx \<Rightarrow>
   (nat \<times> nat) list \<Rightarrow> nat \<times> nat \<Rightarrow> 'a xworld_scheme \<Rightarrow> 'a xworld_scheme res" where
  "bg_job pipeline resolved inr ctx pipes gate s =
     bnd (fork_stages (bg_child_fds pipes gate inr ctx (length pipeline)) pipeline resolved 0 0 s)
       (\<lambda>(ps, grp, s).
     let cmdline = build_command_string 512 pipeline True '''' in
     bnd (read_pids ps) (\<lambda>pids.
     bnd (register_job grp pids (stage_names pipeline) cmdline True s) (\<lambda>(job_num, s).
     let s = printf (''['' @ show_int job_num @ ''] '' @ show_int grp @ nl) s;
         s = close_fds [fst gate, snd gate] s;
         s = close_fds (in_fds inr) (close_fds (pipe_fds pipes) s)
     in Ok (close_fds (ctx_fds ctx) s))))"

definition run_background ::
  "('b xenv_scheme) \<Rightarrow> string \<Rightarrow> commands list \<Rightarrow> 'a xworld_scheme \<Rightarrow> 'a xworld_scheme res" where
  "run_background e shome pipeline s =
     (let n = length pipeline; first = hd pipeline in
      case presolve e n pipeline s of (res, s) \<Rightarrow>
      case res of
        None \<Rightarrow> Ok s
      | Some resolved \<Rightarrow>
        case build_input_tmp e (in_files first) s of (inr, s) \<Rightarrow>
        if inr = Input_error then Ok s
        else
        case prepare_output e (out_files (last pipeline)) s of (ctx, s) \<Rightarrow>
        case ctx of
          None \<Rightarrow> Ok (close_fds (in_fds inr) s)
        | Some ctx \<Rightarrow>
          case new_pipes (n - 1) s of (pipes, s) \<Rightarrow>
          case new_pipe s of (gate, s) \<Rightarrow>
          bg_job pipeline resolved inr ctx pipes gate s)"

text \<open>\<open>run_cmd\<close>: the loop of \<open>Sh_Pipeline\<close> with these two, then the pending messages.\<close>

definition run_cmd ::
  "('b xenv_scheme) \<Rightarrow> string \<Rightarrow> token list \<Rightarrow> 'a xworld_scheme \<Rightarrow> 'a xworld_scheme res" where
  "run_cmd e shome ts s =
     bnd (run_cmd_loop (run_foreground e shome) (run_background e shome) ts s) (\<lambda>s.
       Ok (if exited s then s else flush_pending_bg_msg s))"

section \<open>The paths through the two runners\<close>

text \<open>
  Both runners set up the descriptors in the same way.  A predicate that each step of the setup,
  the builtins and the job keep is kept by the runners.
\<close>

definition setup_steps ::
  "('b xenv_scheme) \<Rightarrow> commands list \<Rightarrow> 'a xworld_scheme \<Rightarrow> string option list \<Rightarrow> in_tmp \<Rightarrow>
   out_ctx \<Rightarrow> 'a xworld_scheme \<Rightarrow> bool" where
  "setup_steps e pipeline s resolved inr ctx s' \<longleftrightarrow>
     (\<exists>s1 s2.
        presolve e (length pipeline) pipeline s = (Some resolved, s1) \<and>
        build_input_tmp e (in_files (hd pipeline)) s1 = (inr, s2) \<and> inr \<noteq> Input_error \<and>
        prepare_output e (out_files (last pipeline)) s2 = (Some ctx, s'))"

definition setup_fails :: "('b xenv_scheme) \<Rightarrow> commands list \<Rightarrow> 'a xworld_scheme \<Rightarrow> 'a xworld_scheme \<Rightarrow> bool" where
  "setup_fails e pipeline s s' \<longleftrightarrow>
     presolve e (length pipeline) pipeline s = (None, s') \<or>
     (\<exists>resolved s1. presolve e (length pipeline) pipeline s = (Some resolved, s1) \<and>
        (build_input_tmp e (in_files (hd pipeline)) s1 = (Input_error, s') \<or>
         (\<exists>inr s2 s3. build_input_tmp e (in_files (hd pipeline)) s1 = (inr, s2) \<and> inr \<noteq> Input_error \<and>
            prepare_output e (out_files (last pipeline)) s2 = (None, s3) \<and>
            s' = close_fds (in_fds inr) s3)))"

lemma run_foreground_cases:
  assumes "run_foreground e shome pipeline s = Ok (b, s')"
  obtains
    (failed) "setup_fails e pipeline s s'" and "b = False"
  | (builtin) resolved s1 where "presolve e (length pipeline) pipeline s = (Some resolved, s1)"
      and "run_builtin e shome (argv (hd pipeline)) s1 = Ok s'" and "b = (\<not> exited s')"
  | (job) resolved inr ctx s3 pipes s4 where
      "setup_steps e pipeline s resolved inr ctx s3"
      and "new_pipes (length pipeline - 1) s3 = (pipes, s4)"
      and "fg_job e pipeline resolved inr ctx pipes s4 = Ok s'" and "b = True"
proof -
  obtain res s1 where pre: "presolve e (length pipeline) pipeline s = (res, s1)" by fastforce
  show ?thesis
  proof (cases res)
    case None
    with assms pre show ?thesis by (intro failed) (auto simp: run_foreground_def setup_fails_def Let_def)
  next
    case (Some resolved)
    note pre = pre[unfolded Some]
    show ?thesis
    proof (cases "length pipeline = 1 \<and> in_files (hd pipeline) = [] \<and> out_files (hd pipeline) = [] \<and>
           is_shell_only_builtin (hd (argv (hd pipeline)))")
      case True
      with assms pre show ?thesis
        by (intro builtin[OF pre]) (auto simp: run_foreground_def Let_def bnd_eq_Ok)
    next
      case False
      obtain inr s2 where inp: "build_input_tmp e (in_files (hd pipeline)) s1 = (inr, s2)" by fastforce
      obtain octx s3 where out: "prepare_output e (out_files (last pipeline)) s2 = (octx, s3)" by fastforce
      obtain pipes s4 where p: "new_pipes (length pipeline - 1) s3 = (pipes, s4)" by fastforce
      consider "inr = Input_error" | "inr \<noteq> Input_error" "octx = None"
        | ctx where "inr \<noteq> Input_error" "octx = Some ctx" by (cases octx) auto
      then show ?thesis
      proof cases
        case 3
        then have "setup_steps e pipeline s resolved inr ctx s3"
          using pre inp out by (auto simp: setup_steps_def)
        note j = job[OF this p]
        show ?thesis
          using assms pre inp False 3 out p
          by (auto simp: run_foreground_def Let_def bnd_eq_Ok simp del: One_nat_def intro!: j)
      next
        case 1
        then have "setup_fails e pipeline s s'" "b = False"
          using assms pre inp False by (auto simp: run_foreground_def setup_fails_def Let_def)
        then show ?thesis by (rule failed)
      next
        case 2
        then have "s' = close_fds (in_fds inr) s3" "b = False"
          using assms pre inp False out by (auto simp: run_foreground_def Let_def)
        with 2 pre inp out have "setup_fails e pipeline s s'" unfolding setup_fails_def by blast
        from failed[OF this \<open>b = False\<close>] show ?thesis .
      qed
    qed
  qed
qed

lemma run_background_cases:
  assumes "run_background e shome pipeline s = Ok s'"
  obtains
    (failed) "setup_fails e pipeline s s'"
  | (job) resolved inr ctx s3 pipes s4 gate s5 where
      "setup_steps e pipeline s resolved inr ctx s3"
      and "new_pipes (length pipeline - 1) s3 = (pipes, s4)" and "new_pipe s4 = (gate, s5)"
      and "bg_job pipeline resolved inr ctx pipes gate s5 = Ok s'"
proof -
  obtain res s1 where pre: "presolve e (length pipeline) pipeline s = (res, s1)" by fastforce
  show ?thesis
  proof (cases res)
    case None
    with assms pre show ?thesis by (intro failed) (auto simp: run_background_def setup_fails_def Let_def)
  next
    case (Some resolved)
    note pre = pre[unfolded Some]
    obtain inr s2 where inp: "build_input_tmp e (in_files (hd pipeline)) s1 = (inr, s2)" by fastforce
    obtain octx s3 where out: "prepare_output e (out_files (last pipeline)) s2 = (octx, s3)" by fastforce
    obtain pipes s4 where p: "new_pipes (length pipeline - 1) s3 = (pipes, s4)" by fastforce
    obtain gate s5 where g: "new_pipe s4 = (gate, s5)" by fastforce
    consider "inr = Input_error" | "inr \<noteq> Input_error" "octx = None"
      | ctx where "inr \<noteq> Input_error" "octx = Some ctx" by (cases octx) auto
    then show ?thesis
    proof cases
      case 3
      then have "setup_steps e pipeline s resolved inr ctx s3"
        using pre inp out by (auto simp: setup_steps_def)
      note j = job[OF this p g]
      show ?thesis
        using assms pre inp 3 out p g
        by (auto simp: run_background_def Let_def bnd_eq_Ok simp del: One_nat_def intro!: j)
    next
      case 1
      then have "setup_fails e pipeline s s'"
        using assms pre inp by (auto simp: run_background_def setup_fails_def Let_def)
      then show ?thesis by (rule failed)
    next
      case 2
      then have "s' = close_fds (in_fds inr) s3"
        using assms pre inp out by (auto simp: run_background_def Let_def)
      with 2 pre inp out have "setup_fails e pipeline s s'" unfolding setup_fails_def by blast
      from failed[OF this] show ?thesis .
    qed
  qed
qed

end
