(* ===== verification/Sh_Run.thy ===== *)
theory Sh_Run
  imports Sh_Exec
begin

text \<open>
  What \<open>run_cmd\<close> keeps: the shell's descriptor table and the job table, as two invariants of one
  interface, the pair of runners \<open>run_cmd_loop\<close> is given.  Then the plumbing of the children.
\<close>

section \<open>The interface of the runners\<close>

locale pipeline_runner =
  fixes fg :: "commands list \<Rightarrow> 's \<Rightarrow> (bool \<times> 's) res"
    and bg :: "commands list \<Rightarrow> 's \<Rightarrow> 's res"
    and inv :: "'s \<Rightarrow> bool"
  assumes fg_keeps: "p \<noteq> [] \<Longrightarrow> inv s \<Longrightarrow> fg p s = Ok (b, s') \<Longrightarrow> inv s'"
    and bg_keeps: "p \<noteq> [] \<Longrightarrow> inv s \<Longrightarrow> bg p s = Ok s' \<Longrightarrow> inv s'"
begin

lemma loop_keeps: "inv s \<Longrightarrow> run_cmd_loop fg bg ts s = Ok s' \<Longrightarrow> inv s'"
proof (induction ts arbitrary: s rule: length_induct)
  case (1 ts)
  show ?case
  proof (cases "ts = []")
    case True
    with 1 show ?thesis by (simp add: run_cmd_loop.simps)
  next
    case False
    note eq = run_cmd_loop.simps[of fg bg ts s, unfolded if_not_P[OF False]]
    from 1(3)[unfolded eq] obtain p rest where b: "build_stages ts [] no_command = Ok (p, rest)"
      by (auto simp: bnd_eq_Ok)
    have ne: "p \<noteq> []"
      using build_stages_ne[of ts "[]" no_command] b by (auto simp: good_stages_def)
    have IH: "inv t \<Longrightarrow> run_cmd_loop fg bg (drop 1 rest) t = Ok s' \<Longrightarrow> inv s'" for t
      using 1(1) build_stages_consumes[OF b False] by blast
    from 1(3)[unfolded eq b bnd_simps prod.case]
    consider "run_cmd_loop fg bg (drop 1 rest) s = Ok s'"
      | t where "bg p s = Ok t" "run_cmd_loop fg bg (drop 1 rest) t = Ok s'"
      | t ok where "fg p s = Ok (ok, t)" "if ok then run_cmd_loop fg bg (drop 1 rest) t = Ok s' else t = s'"
      by (auto simp: bnd_eq_Ok simp del: drop_Suc split: if_splits)
    then show ?thesis
    proof cases
      case 1
      with IH \<open>inv s\<close> show ?thesis by blast
    next
      case (2 t)
      with IH bg_keeps[OF ne \<open>inv s\<close>] show ?thesis by blast
    next
      case (3 t ok)
      with IH fg_keeps[OF ne \<open>inv s\<close> 3(1)] show ?thesis by (cases ok) auto
    qed
  qed
qed

end

section \<open>Frames\<close>

text \<open>The fields no builtin and no wait touches.\<close>

definition frame :: "'a xworld_scheme \<Rightarrow> 'a xworld_scheme \<Rightarrow> bool" where
  "frame s s' \<longleftrightarrow> fds s' = fds s \<and> os_pids s' = os_pids s \<and> children s' = children s"

lemma frame_refl [simp]: "frame s s"
  by (simp add: frame_def)

lemma frame_trans: "frame s t \<Longrightarrow> frame t u \<Longrightarrow> frame s u"
  by (simp add: frame_def)

lemma frame_right [simp]:
  "frame s (emit e t) = frame s t" "frame s (printf m t) = frame s t"
  "frame s (upd_job i f t) = frame s t" "frame s (t\<lparr>os_waits := w\<rparr>) = frame s t"
  "frame s (t\<lparr>fg_running := b\<rparr>) = frame s t" "frame s (t\<lparr>exited := b\<rparr>) = frame s t"
  "frame s (t\<lparr>os_reaps := r\<rparr>) = frame s t" "frame s (t\<lparr>pending_msg := p\<rparr>) = frame s t"
  "frame s (t\<lparr>files := fs\<rparr>) = frame s t"
  by (simp_all add: frame_def emit_def printf_def upd_job_def)

lemma frame_left [simp]:
  "frame (emit e s) t = frame s t" "frame (printf m s) t = frame s t"
  "frame (upd_job i f s) t = frame s t" "frame (s\<lparr>os_waits := w\<rparr>) t = frame s t"
  "frame (s\<lparr>fg_running := b\<rparr>) t = frame s t" "frame (s\<lparr>os_reaps := r\<rparr>) t = frame s t"
  by (simp_all add: frame_def emit_def printf_def upd_job_def)

lemma frame_queue: "queue_or_print n pid b s = Ok s' \<Longrightarrow> frame s s'"
  by (auto simp: queue_or_print_def Let_def bnd_guard split: if_splits)

lemma frame_remove: "remove_pid_from_job pid s = Ok s' \<Longrightarrow> frame s s'"
  by (auto simp: remove_pid_from_job_def bnd_eq_Ok split: option.splits)

lemma frame_reap: "reap_finished ws s = Ok s' \<Longrightarrow> frame s s'"
proof (induction ws s arbitrary: s' rule: reap_finished.induct)
  case (1 s)
  then show ?case by simp
next
  case (2 pid status ws s)
  show ?case
  proof (cases "exited_or_signaled status \<and> find_job_containing_pid pid s \<noteq> None")
    case False
    with 2 show ?thesis by (auto split: if_splits)
  next
    case True
    then obtain i where i: "find_job_containing_pid pid s = Some i" by auto
    with 2(4) True obtain t u where
      t: "(if background (jobs s ! i)
           then queue_or_print (snd (hd (procs (jobs s ! i)))) pid (is_exited status) s else Ok s) = Ok t"
      and u: "remove_pid_from_job pid t = Ok u" and rest: "reap_finished ws u = Ok s'"
      by (auto simp: bnd_eq_Ok)
    have "frame s t" using t frame_queue by (auto split: if_splits)
    moreover have "frame t u" using u by (rule frame_remove)
    moreover have "frame u s'" using 2(2) True i t u rest by blast
    ultimately show ?thesis by (meson frame_trans)
  qed
qed

lemma frame_printfs [simp]: "frame s (foldl (\<lambda>s m. printf m s) s ms)"
  by (simp add: printf_foldl frame_def)

lemma frame_activities: "activities ws s = Ok s' \<Longrightarrow> frame s s'"
  by (auto simp: activities_def bnd_eq_Ok dest!: frame_reap intro: frame_trans)

lemma frame_hop_choose: "hop_choose e shome arg s = (c, s') \<Longrightarrow> frame s s'"
  by (auto simp: hop_choose_def split: if_splits option.splits)

lemma frame_freq: "freq_update e shome path s = Ok s' \<Longrightarrow> frame s s'"
  by (auto simp: freq_update_def Let_def bnd_eq_Ok bnd_guard frame_def split: if_splits prod.splits)

lemma frame_hop_go: "hop_go e shome target s = Ok s' \<Longrightarrow> frame s s'"
  by (auto simp: hop_go_def Let_def bnd_guard split: option.splits if_splits dest!: frame_freq)
    (simp_all add: frame_def)

lemma frame_hop_loop: "hop_loop e shome args s = Ok s' \<Longrightarrow> frame s s'"
proof (induction args arbitrary: s)
  case Nil
  then show ?case by simp
next
  case (Cons a args)
  obtain c t where c: "hop_choose e shome a s = (c, t)" by fastforce
  note f = frame_hop_choose[OF c]
  show ?case
  proof (cases c)
    case Hop_continue
    with Cons c f show ?thesis by (auto intro: frame_trans)
  next
    case Hop_break
    with Cons c f show ?thesis by auto
  next
    case (Hop_to target)
    with Cons.prems c obtain u where "hop_go e shome target t = Ok u" "hop_loop e shome args u = Ok s'"
      by (auto simp: bnd_eq_Ok)
    with Cons.IH f frame_hop_go show ?thesis by (meson frame_trans)
  qed
qed

lemma frame_resume_wait:
  "resume_wait evs timed j r s = Ok (r', t, evs', s') \<Longrightarrow> frame s s'"
proof (induction evs timed j r s rule: resume_wait.induct)
  case (6 ws evs timed j r s)
  then obtain x where "reap_finished ws s = Ok x" "frame x s'" by (auto simp: bnd_eq_Ok)
  then show ?case by (blast dest: frame_reap intro: frame_trans)
qed (auto split: wstatus.splits if_splits)

lemma frame_fg_wait:
  "fg_wait evs n c j r s = Ok (b, evs', s') \<Longrightarrow> frame s s'"
proof (induction evs n c j r s rule: fg_wait.induct)
  case (6 ws evs n c j r s)
  then obtain x where "reap_finished ws s = Ok x" "frame x s'" by (auto simp: bnd_eq_Ok)
  then show ?case by (blast dest: frame_reap intro: frame_trans)
qed (auto simp: Let_def split: wstatus.splits option.splits)

lemma frame_resuming:
  assumes "resuming e args s = Ok s'"
  shows "frame s s'"
proof (cases "resume_args args s")
  case (Inl m)
  with assms show ?thesis by (auto simp: resuming_def)
next
  case (Inr r)
  obtain j is_fg timeout where r: "r = (j, is_fg, timeout)" by (cases r) auto
  let ?jb = "jobs s ! j"
  let ?s1 = "emit (Kill (- pgid ?jb) SIGCONT) s"
  let ?s2 = "upd_job j (\<lambda>j. j\<lparr>jstate := job_running\<rparr>)
    (emit (Tcsetpgrp (pgid ?jb)) (printf (command ?jb @ nl) ?s1))"
  let ?s3 = "upd_job j (\<lambda>j. j\<lparr>jstate := job_running\<rparr>)
    (emit (Tcsetpgrp (pgid ?jb)) (printf (command ?jb @ nl) ?s1))"
  show ?thesis
  proof (cases is_fg)
    case False
    with assms Inr r show ?thesis by (auto simp: resuming_def Let_def)
  next
    case True
    let ?s4 = "if 0 < timeout then emit (Alarm timeout) ?s3 else ?s3"
    from assms Inr r True obtain remaining timed evs t where
      w: "resume_wait (os_waits ?s4) (0 < timeout) j (length (procs (jobs ?s4 ! j))) ?s4
        = Ok (remaining, timed, evs, t)"
      and s': "frame t s'"
      by (auto simp: resuming_def Let_def bnd_eq_Ok split: if_splits)
    have "frame s ?s4" by simp
    with frame_resume_wait[OF w] s' show ?thesis by (meson frame_trans)
  qed
qed

lemma frame_pinging [simp]: "frame s (pinging args s)"
  by (simp add: pinging_def Let_def split: prod.split option.split)

lemma frame_hopping: "hopping e args shome s = Ok s' \<Longrightarrow> frame s s'"
  unfolding hopping_def by (rule frame_hop_loop)

lemma frame_builtin: "run_builtin e shome args s = Ok s' \<Longrightarrow> frame s s'"
  by (auto simp: run_builtin_def Let_def bnd_eq_Ok
      dest!: frame_hopping frame_resuming frame_activities
      split: if_splits option.splits list.splits)

lemma frame_presolve: "presolve e n cs s = (r, s') \<Longrightarrow> frame s s'"
proof (induction cs arbitrary: s r)
  case Nil
  then show ?case by simp
next
  case (Cons c cs)
  from Cons.prems have "frame s s' \<or>
      (\<exists>t r'. frame s t \<and> presolve e n cs t = (r', s'))"
    by (auto simp: Let_def split: if_splits prod.splits option.splits)
  with Cons.IH show ?case by (blast intro: frame_trans)
qed

section \<open>The descriptor table is as before\<close>

lemma setup_opened:
  assumes "setup_steps e p s resolved inr ctx s3"
  shows "opened (fds s) (in_fds inr @ ctx_fds ctx) (fds s3)"
    and "tmp_fd ctx = None \<longrightarrow> real_fds ctx = []"
proof -
  from assms obtain s1 s2 where
    a: "presolve e (length p) p s = (Some resolved, s1)"
    and b: "build_input_tmp e (in_files (hd p)) s1 = (inr, s2)" "inr \<noteq> Input_error"
    and c: "prepare_output e (out_files (last p)) s2 = (Some ctx, s3)"
    by (auto simp: setup_steps_def)
  have "fds s1 = fds s" using frame_presolve[OF a] by (simp add: frame_def)
  with build_input_tmp_result[OF b(1)] b(2) have "opened (fds s) (in_fds inr) (fds s2)"
    by (cases inr) (simp_all add: in_fds_def)
  with prepare_output_result[OF c]
  show "opened (fds s) (in_fds inr @ ctx_fds ctx) (fds s3)"
    and "tmp_fd ctx = None \<longrightarrow> real_fds ctx = []" by (auto intro: opened_trans)
qed

lemma setup_fails_fds:
  assumes "setup_fails e p s s'"
  shows "fd_at (fds s') = fd_at (fds s)"
  using assms unfolding setup_fails_def
proof (elim disjE exE conjE)
  assume "presolve e (length p) p s = (None, s')"
  then show ?thesis by (auto dest: frame_presolve simp: frame_def)
next
  fix resolved s1
  assume a: "presolve e (length p) p s = (Some resolved, s1)"
    and b: "build_input_tmp e (in_files (hd p)) s1 = (Input_error, s')"
  with build_input_tmp_result[OF b] frame_presolve[OF a] show ?thesis by (simp add: frame_def)
next
  fix resolved s1 inr s2 s3
  assume a: "presolve e (length p) p s = (Some resolved, s1)"
    and b: "build_input_tmp e (in_files (hd p)) s1 = (inr, s2)" "inr \<noteq> Input_error"
    and c: "prepare_output e (out_files (last p)) s2 = (None, s3)"
    and s': "s' = close_fds (in_fds inr) s3"
  have "fds s1 = fds s" using frame_presolve[OF a] by (simp add: frame_def)
  with build_input_tmp_result[OF b(1)] b(2) have o: "opened (fds s) (in_fds inr) (fds s2)"
    by (cases inr) (simp_all add: in_fds_def)
  have "fd_at (fds s3) = fd_at (fds s2)" using prepare_output_result[OF c] by simp
  with o have "opened (fds s) (in_fds inr) (fds s3)"
    using opened_cong[of "fds s" "fds s" "fds s2" "fds s3"] by simp
  with s' show ?thesis by (simp add: opened_close_all)
qed

lemma fork_stages_keeps:
  "fork_stages cf cs rs i grp s = Ok (ps, g, s') \<Longrightarrow>
   fds s' = fds s \<and> jobs s' = jobs s \<and> next_job s' = next_job s \<and> pending_msg s' = pending_msg s \<and>
   length ps = length cs \<and>
   (list_all int32 (os_pids s) \<longrightarrow>
      list_all int32 (os_pids s') \<and> list_all (\<lambda>p. \<forall>x. p = Some x \<longrightarrow> int32 x) ps)"
proof (induction cs arbitrary: rs i grp s ps)
  case Nil
  then show ?case by auto
next
  case (Cons c cs)
  show ?case
  proof (cases "argv c = []")
    case True
    with Cons.prems obtain qs where "fork_stages cf cs (tl rs) (Suc i) grp s = Ok (qs, g, s')" "ps = None # qs"
      by (auto simp: bnd_eq_Ok)
    with Cons.IH[of "tl rs" "Suc i" grp s qs] show ?thesis by simp
  next
    case False
    with Cons.prems obtain pid pids where pids: "os_pids s = pid # pids" by (auto split: list.splits)
    let ?kid = "if 0 < pid then [\<lparr>cpid = pid, cfds = cf i (fds s), crun = child_runs c (hd rs)\<rparr>] else []"
    let ?s = "emit (Setpgid pid grp) (emit (Fork i pid)
      (s\<lparr>os_pids := pids, children := children s @ ?kid\<rparr>))"
    from Cons.prems False pids obtain qs where
      "fork_stages cf cs (tl rs) (Suc i) (if i = 0 then pid else grp) ?s = Ok (qs, g, s')"
      and ps: "ps = Some pid # qs"
      by (auto simp: bnd_eq_Ok Let_def)
    from Cons.IH[OF this(1)] show ?thesis by (simp add: pids ps emit_def)
  qed
qed

lemma register_frame: "register_job g pids ns c bg s = Ok (n, s') \<Longrightarrow> frame s s'"
  by (auto simp: register_job_def bnd_eq_Ok bnd_guard frame_def split: if_splits)

lemma next_output_fields [simp]:
  "fds (next_output ctx s) = fds s" "jobs (next_output ctx s) = jobs s"
  "next_job (next_output ctx s) = next_job s" "pending_msg (next_output ctx s) = pending_msg s"
  "os_pids (next_output ctx s) = os_pids s" "children (next_output ctx s) = children s"
  by (auto simp: next_output_def child_output_def split: list.split option.split fdobj.split)

lemma flush_pending_frame [simp]: "frame s (flush_pending_bg_msg t) = frame s t"
  by (simp add: flush_pending_eq frame_def)

definition after_wait :: "('b xenv_scheme) \<Rightarrow> nat option \<Rightarrow> bool \<Rightarrow> waitev list \<Rightarrow> 'a xworld_scheme \<Rightarrow> 'a xworld_scheme" where
  "after_wait e j stopped evs s =
     (let s = emit (Tcsetpgrp (shell_pgrp e)) (s\<lparr>os_waits := evs\<rparr>) in
      case j of None \<Rightarrow> s | Some i \<Rightarrow> if stopped then s else upd_job i (\<lambda>j. j\<lparr>active := False\<rparr>) s)"

lemma fg_jobE:
  assumes "fg_job e p resolved inr ctx pipes s = Ok s'"
  obtains ps grp s5 pids n s6 stopped evs s7 where
    "fork_stages (fg_child_fds pipes inr ctx (length p)) p resolved 0 0 (s\<lparr>fg_running := True\<rparr>)
      = Ok (ps, grp, s5)"
    "read_pids ps = Ok pids"
    "register_job grp pids (stage_names p) (build_command_string 512 p True '''') False
      (close_fds (in_fds inr) (close_fds (pipe_fds pipes) s5)) = Ok (n, s6)"
    "fg_wait (os_waits (emit (Tcsetpgrp grp) s6)) n (build_command_string 512 p True '''')
      (find_job_by_number n s6) (length p) (emit (Tcsetpgrp grp) s6) = Ok (stopped, evs, s7)"
    "s' = flush_pending_bg_msg (flush_output ctx (next_output ctx
       ((after_wait e (find_job_by_number n s6) stopped evs s7)\<lparr>fg_running := False\<rparr>)))"
proof -
  from assms[unfolded fg_job_def] obtain ps grp s5 where
    1: "fork_stages (fg_child_fds pipes inr ctx (length p)) p resolved 0 0 (s\<lparr>fg_running := True\<rparr>)
      = Ok (ps, grp, s5)" by (elim bnd_OkE) auto
  note a = assms[unfolded fg_job_def 1 bnd_simps prod.case Let_def]
  from a obtain pids where 2: "read_pids ps = Ok pids" by (elim bnd_OkE) auto
  note a = a[unfolded 2 bnd_simps]
  from a obtain n s6 where
    3: "register_job grp pids (stage_names p) (build_command_string 512 p True '''') False
      (close_fds (in_fds inr) (close_fds (pipe_fds pipes) s5)) = Ok (n, s6)" by (elim bnd_OkE) auto
  note a = a[unfolded 3 bnd_simps prod.case]
  from a obtain stopped evs s7 where
    4: "fg_wait (os_waits (emit (Tcsetpgrp grp) s6)) n (build_command_string 512 p True '''')
      (find_job_by_number n s6) (length p) (emit (Tcsetpgrp grp) s6) = Ok (stopped, evs, s7)"
    by (elim bnd_OkE) auto
  note a = a[unfolded 4 bnd_simps prod.case]
  show thesis
    by (rule that[OF 1 2 3 4]) (use a in \<open>simp add: after_wait_def Let_def\<close>)
qed

lemma after_wait_frame [simp]: "frame s (after_wait e j stopped evs t) = frame s t"
  by (simp add: after_wait_def Let_def split: option.split)

lemma fg_job_fds:
  assumes "fg_job e p resolved inr ctx pipes s = Ok s'" and "tmp_fd ctx = None \<longrightarrow> real_fds ctx = []"
  shows "fds s' = close_all (pipe_fds pipes @ in_fds inr @ ctx_fds ctx) (fds s)"
proof -
  from assms(1) show ?thesis
  proof (rule fg_jobE)
    fix ps grp s5 pids n s6 stopped evs s7
    assume f: "fork_stages (fg_child_fds pipes inr ctx (length p)) p resolved 0 0 (s\<lparr>fg_running := True\<rparr>)
        = Ok (ps, grp, s5)"
      and r: "register_job grp pids (stage_names p) (build_command_string 512 p True '''') False
        (close_fds (in_fds inr) (close_fds (pipe_fds pipes) s5)) = Ok (n, s6)"
      and w: "fg_wait (os_waits (emit (Tcsetpgrp grp) s6)) n (build_command_string 512 p True '''')
        (find_job_by_number n s6) (length p) (emit (Tcsetpgrp grp) s6) = Ok (stopped, evs, s7)"
      and s': "s' = flush_pending_bg_msg (flush_output ctx (next_output ctx
        ((after_wait e (find_job_by_number n s6) stopped evs s7)\<lparr>fg_running := False\<rparr>)))"
    have "frame s7 (after_wait e (find_job_by_number n s6) stopped evs s7)" by simp
    with s' have "fds s' = close_all (ctx_fds ctx) (fds s7)"
      using assms(2) by (simp add: flush_output_fds frame_def flush_pending_eq)
    also have "fds s7 = fds s6" using frame_fg_wait[OF w] by (simp add: frame_def)
    also have "\<dots> = close_all (pipe_fds pipes @ in_fds inr) (fds s5)"
      using register_frame[OF r] by (simp add: frame_def)
    also have "fds s5 = fds s" using fork_stages_keeps[OF f] by simp
    finally show ?thesis by simp
  qed
qed

lemma bg_job_fds:
  assumes "bg_job p resolved inr ctx pipes gate s = Ok s'"
  shows "fds s' = close_all ([fst gate, snd gate] @ pipe_fds pipes @ in_fds inr @ ctx_fds ctx) (fds s)"
proof -
  from assms obtain ps grp s5 pids n s6 where
    f: "fork_stages (bg_child_fds pipes gate inr ctx (length p)) p resolved 0 0 s = Ok (ps, grp, s5)"
    and r: "register_job grp pids (stage_names p) (build_command_string 512 p True '''') True s5 = Ok (n, s6)"
    and s': "fds s' = close_all ([fst gate, snd gate] @ pipe_fds pipes @ in_fds inr @ ctx_fds ctx) (fds s6)"
    by (force simp: bg_job_def Let_def bnd_eq_Ok)
  have "fds s6 = fds s"
    using register_frame[OF r] fork_stages_keeps[OF f] by (simp add: frame_def)
  with s' show ?thesis by simp
qed

lemma run_foreground_fds:
  assumes "run_foreground e shome p s = Ok (b, s')"
  shows "fd_at (fds s') = fd_at (fds s)"
  using assms
proof (cases rule: run_foreground_cases)
  case failed
  then show ?thesis by (simp add: setup_fails_fds)
next
  case (builtin resolved s1)
  then show ?thesis using frame_presolve frame_builtin by (fastforce simp: frame_def)
next
  case (job resolved inr ctx s3 pipes s4)
  note o = setup_opened[OF job(1)]
  have "opened (fds s) ((in_fds inr @ ctx_fds ctx) @ pipe_fds pipes) (fds s4)"
    by (rule opened_trans[OF o(1) new_pipes_opened[OF job(2)]])
  with fg_job_fds[OF job(3) o(2)] show ?thesis
    by (auto intro!: opened_close_all simp del: close_all_simps)
qed

lemma run_background_fds:
  assumes "run_background e shome p s = Ok s'"
  shows "fd_at (fds s') = fd_at (fds s)"
  using assms
proof (cases rule: run_background_cases)
  case failed
  then show ?thesis by (simp add: setup_fails_fds)
next
  case (job resolved inr ctx s3 pipes s4 gate s5)
  obtain r w where g: "gate = (r, w)" by fastforce
  have "opened (fds s) (((in_fds inr @ ctx_fds ctx) @ pipe_fds pipes) @ [r, w]) (fds s5)"
    by (rule opened_trans[OF opened_trans[OF setup_opened(1)[OF job(1)] new_pipes_opened[OF job(2)]]
          new_pipe_opened[OF job(3)[unfolded g]]])
  with bg_job_fds[OF job(4)] g show ?thesis
    by (auto intro!: opened_close_all simp del: close_all_simps)
qed

interpretation descriptors: pipeline_runner "run_foreground e shome" "run_background e shome"
    "\<lambda>s :: 'a xworld_scheme. fd_at (fds s) = T" for e shome T
  by unfold_locales (simp_all add: run_foreground_fds run_background_fds)

section \<open>The job table stays well formed\<close>

definition same_jobs :: "'a shell_scheme \<Rightarrow> 'a shell_scheme \<Rightarrow> bool" where
  "same_jobs s s' \<longleftrightarrow> jobs s' = jobs s \<and> next_job s' = next_job s \<and> pending_msg s' = pending_msg s"

lemma same_jobs_ok: "same_jobs s s' \<Longrightarrow> jobs_ok s \<Longrightarrow> jobs_ok s'"
  by (simp add: same_jobs_def jobs_ok_def)

lemma same_jobs_refl [simp]: "same_jobs s s"
  by (simp add: same_jobs_def)

lemma same_jobs_trans: "same_jobs s t \<Longrightarrow> same_jobs t u \<Longrightarrow> same_jobs s u"
  by (simp add: same_jobs_def)

lemma jobs_ok_simps [simp]:
  "jobs_ok (emit e s) = jobs_ok s" "jobs_ok (printf m s) = jobs_ok s"
  "jobs_ok (fg_running_update f s) = jobs_ok s"
  by (simp_all add: jobs_ok_def)

lemma jobs_ok_fields [simp]:
  "jobs_ok (os_waits_update w x) = jobs_ok x" "jobs_ok (os_reaps_update r x) = jobs_ok x"
  "jobs_ok (exited_update b x) = jobs_ok x" "jobs_ok (files_update fs x) = jobs_ok x"
  "jobs_ok (fds_update t x) = jobs_ok x"
  by (simp_all add: jobs_ok_def)

lemma jobs_ok_upd:
  assumes "jobs_ok s" and "\<And>j. job_ok j \<Longrightarrow> job_ok (f j)" and "\<And>j. job_number (f j) = job_number j"
  shows "jobs_ok (upd_job i f s)"
proof (cases "i < length (jobs s)")
  case True
  with assms(1) have "job_ok (jobs s ! i)" by (simp add: jobs_ok_def list_all_length)
  with assms True show ?thesis by (intro jobs_ok_upd_job) simp_all
next
  case False
  then have "same_jobs s (upd_job i f s)" by (simp add: same_jobs_def list_update_beyond)
  with assms(1) show ?thesis by (rule same_jobs_ok[rotated])
qed

lemma jobs_ok_state [simp]: "jobs_ok s \<Longrightarrow> jobs_ok (upd_job i (\<lambda>j. j\<lparr>jstate := x\<rparr>) s)"
  by (rule jobs_ok_upd) (simp_all add: job_ok_def)

lemma jobs_ok_inactive [simp]: "jobs_ok s \<Longrightarrow> jobs_ok (upd_job i (\<lambda>j. j\<lparr>active := False\<rparr>) s)"
  by (rule jobs_ok_upd) (simp_all add: job_ok_def)

lemma jobs_ok_queue: "jobs_ok s \<Longrightarrow> queue_or_print n pid b s = Ok s' \<Longrightarrow> jobs_ok s'"
  by (auto simp: queue_or_print_def Let_def bnd_guard jobs_ok_def split: if_splits)

lemma jobs_ok_reap: "jobs_ok s \<Longrightarrow> reap_finished ws s = Ok s' \<Longrightarrow> jobs_ok s'"
proof (induction ws s arbitrary: s' rule: reap_finished.induct)
  case (1 s)
  then show ?case by simp
next
  case (2 pid status ws s)
  show ?case
  proof (cases "exited_or_signaled status \<and> find_job_containing_pid pid s \<noteq> None")
    case False
    with 2 show ?thesis by (auto split: if_splits)
  next
    case True
    then obtain i where i: "find_job_containing_pid pid s = Some i" by auto
    with 2(5) True obtain t u where
      t: "(if background (jobs s ! i)
           then queue_or_print (snd (hd (procs (jobs s ! i)))) pid (is_exited status) s else Ok s) = Ok t"
      and u: "remove_pid_from_job pid t = Ok u" and rest: "reap_finished ws u = Ok s'"
      by (auto simp: bnd_eq_Ok)
    have "jobs_ok t" using t jobs_ok_queue 2(4) by (auto split: if_splits)
    then have "jobs_ok u" using u by (rule remove_pid_Ok(1))
    then show ?thesis using 2(2) True i t u rest by blast
  qed
qed

lemma jobs_ok_resume_wait:
  "jobs_ok s \<Longrightarrow> resume_wait evs timed j r s = Ok (r', t, evs', s') \<Longrightarrow> jobs_ok s'"
proof (induction evs timed j r s rule: resume_wait.induct)
  case (6 ws evs timed j r s)
  then show ?case by (auto simp: bnd_eq_Ok dest: jobs_ok_reap)
qed (auto split: wstatus.splits if_splits)

lemma jobs_ok_fg_wait:
  "jobs_ok s \<Longrightarrow> fg_wait evs n c j r s = Ok (b, evs', s') \<Longrightarrow> jobs_ok s'"
proof (induction evs n c j r s rule: fg_wait.induct)
  case (6 ws evs n c j r s)
  then show ?case by (auto simp: bnd_eq_Ok dest: jobs_ok_reap)
qed (auto simp: Let_def split: wstatus.splits option.splits)

lemma jobs_ok_activities: "jobs_ok s \<Longrightarrow> activities ws s = Ok s' \<Longrightarrow> jobs_ok s'"
proof -
  have p: "jobs_ok (foldl (\<lambda>s m. printf m s) t ms) = jobs_ok t" for t :: "'a shell_scheme" and ms
    by (simp add: printf_foldl jobs_ok_def)
  assume "jobs_ok s" "activities ws s = Ok s'"
  then show "jobs_ok s'" by (auto simp: activities_def bnd_eq_Ok p dest: jobs_ok_reap)
qed

lemma same_jobs_simple [simp]:
  "same_jobs s (emit e t) = same_jobs s t" "same_jobs s (printf m t) = same_jobs s t"
  by (simp_all add: same_jobs_def)

lemma same_jobs_hop_choose: "hop_choose e shome arg s = (c, s') \<Longrightarrow> same_jobs s s'"
  by (auto simp: hop_choose_def split: if_splits option.splits)

lemma same_jobs_freq: "freq_update e shome path s = Ok s' \<Longrightarrow> same_jobs s s'"
  by (auto simp: freq_update_def Let_def bnd_eq_Ok bnd_guard same_jobs_def split: if_splits prod.splits)

lemma same_jobs_hop_go: "hop_go e shome target s = Ok s' \<Longrightarrow> same_jobs s s'"
  by (auto simp: hop_go_def Let_def bnd_guard split: option.splits if_splits dest!: same_jobs_freq)
    (simp_all add: same_jobs_def)

lemma same_jobs_hop_loop: "hop_loop e shome args s = Ok s' \<Longrightarrow> same_jobs s s'"
proof (induction args arbitrary: s)
  case Nil
  then show ?case by simp
next
  case (Cons a args)
  obtain c t where c: "hop_choose e shome a s = (c, t)" by fastforce
  note f = same_jobs_hop_choose[OF c]
  show ?case
  proof (cases c)
    case Hop_continue
    with Cons c f show ?thesis by (auto intro: same_jobs_trans)
  next
    case Hop_break
    with Cons c f show ?thesis by auto
  next
    case (Hop_to target)
    with Cons.prems c obtain u where "hop_go e shome target t = Ok u" "hop_loop e shome args u = Ok s'"
      by (auto simp: bnd_eq_Ok)
    with Cons.IH f same_jobs_hop_go show ?thesis by (meson same_jobs_trans)
  qed
qed

lemma jobs_ok_resuming:
  assumes "jobs_ok s" and "resuming e args s = Ok s'"
  shows "jobs_ok s'"
proof (cases "resume_args args s")
  case (Inl m)
  with assms show ?thesis by (auto simp: resuming_def)
next
  case (Inr r)
  obtain j is_fg timeout where r: "r = (j, is_fg, timeout)" by (cases r) auto
  let ?jb = "jobs s ! j"
  let ?u = "upd_job j (\<lambda>j. j\<lparr>jstate := job_running\<rparr>)
    (emit (Tcsetpgrp (pgid ?jb)) (printf (command ?jb @ nl) (emit (Kill (- pgid ?jb) SIGCONT) s)))"
  show ?thesis
  proof (cases is_fg)
    case False
    with assms Inr r show ?thesis by (auto simp: resuming_def Let_def)
  next
    case True
    let ?v = "if 0 < timeout then emit (Alarm timeout) ?u else ?u"
    from assms Inr r True obtain remaining timed evs t where
      w: "resume_wait (os_waits ?v) (0 < timeout) j (length (procs (jobs ?v ! j))) ?v
        = Ok (remaining, timed, evs, t)"
      and s': "jobs_ok t \<Longrightarrow> jobs_ok s'"
      by (auto simp: resuming_def Let_def bnd_eq_Ok split: if_splits)
    have "jobs_ok ?v" using assms(1) by simp
    with jobs_ok_resume_wait[OF _ w] s' show ?thesis by blast
  qed
qed

lemma jobs_ok_pinging: "jobs_ok s \<Longrightarrow> jobs_ok (pinging args s)"
  by (simp add: pinging_def Let_def split: prod.split option.split)

lemma jobs_ok_hopping: "jobs_ok s \<Longrightarrow> hopping e args shome s = Ok s' \<Longrightarrow> jobs_ok s'"
  unfolding hopping_def by (rule same_jobs_ok[OF same_jobs_hop_loop])

lemma jobs_ok_pop_activities:
  "jobs_ok s \<Longrightarrow> activities ws (s\<lparr>os_reaps := r\<rparr>) = Ok s' \<Longrightarrow> jobs_ok s'"
  by (rule jobs_ok_activities[of "s\<lparr>os_reaps := r\<rparr>"]) simp_all

lemma jobs_ok_builtin: "jobs_ok s \<Longrightarrow> run_builtin e shome args s = Ok s' \<Longrightarrow> jobs_ok s'"
  by (auto simp: run_builtin_def Let_def bnd_eq_Ok jobs_ok_pinging
      dest: jobs_ok_hopping jobs_ok_resuming jobs_ok_activities jobs_ok_pop_activities
      split: if_splits option.splits list.splits)

section \<open>The setup leaves the jobs alone\<close>

definition quiet :: "'a xworld_scheme \<Rightarrow> 'a xworld_scheme \<Rightarrow> bool" where
  "quiet s s' \<longleftrightarrow> jobs s' = jobs s \<and> next_job s' = next_job s \<and> pending_msg s' = pending_msg s \<and>
     os_pids s' = os_pids s \<and> children s' = children s"

lemma quiet_refl [simp]: "quiet s s"
  by (simp add: quiet_def)

lemma quiet_trans: "quiet s t \<Longrightarrow> quiet t u \<Longrightarrow> quiet s u"
  by (simp add: quiet_def)

lemma quiet_simple [simp]:
  "quiet s (emit e t) = quiet s t" "quiet s (printf m t) = quiet s t"
  "quiet s (close_fds L t) = quiet s t" "quiet s (write_tmp k b t) = quiet s t"
  "quiet s (write_desc d b t) = quiet s t" "quiet s (t\<lparr>fg_running := f\<rparr>) = quiet s t"
  "quiet s (t\<lparr>tmps := tm\<rparr>) = quiet s t" "quiet s (t\<lparr>npipes := n\<rparr>) = quiet s t"
  "quiet s (t\<lparr>files := fs\<rparr>) = quiet s t" "quiet s (t\<lparr>descs := ds\<rparr>) = quiet s t"
  "quiet s (t\<lparr>fds := tb\<rparr>) = quiet s t" "quiet s (t\<lparr>os_outs := outs\<rparr>) = quiet s t"
  by (simp_all add: quiet_def emit_def printf_def close_fds_def write_tmp_def write_desc_def Let_def
      split: prod.split)

lemma quiet_foldl: "(\<And>s x. quiet s (f s x)) \<Longrightarrow> quiet s (foldl f s xs)"
  by (induction xs arbitrary: s) (auto intro: quiet_trans)

lemma quiet_new_fd: "new_fd ob s = (i, s') \<Longrightarrow> quiet s s'"
  by (auto simp: new_fd_def split: prod.splits)

lemma quiet_new_tmp: "new_tmp s = (i, s') \<Longrightarrow> quiet s s'"
  by (auto simp: new_tmp_def dest!: quiet_new_fd) (simp add: quiet_def)

lemma quiet_new_pipe:
  assumes "new_pipe s = (p, s')"
  shows "quiet s s'"
proof -
  let ?q = "s\<lparr>npipes := Suc (npipes s)\<rparr>"
  obtain r s1 where r: "new_fd (Pipe_r (npipes s)) ?q = (r, s1)" by fastforce
  obtain w s2 where w: "new_fd (Pipe_w (npipes s)) s1 = (w, s2)" by fastforce
  have "quiet s ?q" by simp
  with quiet_new_fd[OF r] quiet_new_fd[OF w] have "quiet s s2" by (blast intro: quiet_trans)
  then show ?thesis using assms r w by (simp add: new_pipe_def Let_def)
qed

lemma quiet_new_pipes: "new_pipes k s = (ps, s') \<Longrightarrow> quiet s s'"
proof (induction k arbitrary: s ps s')
  case 0
  then show ?case by simp
next
  case (Suc k)
  obtain p s1 where p: "new_pipe s = (p, s1)" by fastforce
  obtain qs s2 where q: "new_pipes k s1 = (qs, s2)" by fastforce
  from Suc.prems p q have "s' = s2" by simp
  with quiet_new_pipe[OF p] Suc.IH[OF q] show ?case by (simp add: quiet_def)
qed

lemma quiet_copy_input: "quiet s (copy_input e k f s)"
proof -
  let ?p = "abs_path e (cwd s) f"
  obtain fd s1 where n: "new_fd (In_desc ?p) s = (fd, s1)" by fastforce
  have "quiet s1 (foldl (\<lambda>s buf. write_tmp k buf s) s1 bs)" for bs by (rule quiet_foldl) simp
  with quiet_new_fd[OF n] n show ?thesis by (auto simp: copy_input_def Let_def intro: quiet_trans)
qed

lemma quiet_build_input: "build_input_tmp e fs s = (r, s') \<Longrightarrow> quiet s s'"
proof -
  assume a: "build_input_tmp e fs s = (r, s')"
  obtain tfd s1 where n: "new_tmp s = (tfd, s1)" by fastforce
  have "quiet s1 (foldl (\<lambda>s f. copy_input e (length (tmps s)) f s) s1 fs)" for s1 :: "'a xworld_scheme"
    by (rule quiet_foldl) (rule quiet_copy_input)
  moreover have "quiet s1 (foldl (\<lambda>s f. copy_input e k f s) s1 fs)" for k
    by (rule quiet_foldl) (rule quiet_copy_input)
  ultimately show ?thesis
    using a n quiet_new_tmp[OF n]
    by (auto simp: build_input_tmp_def Let_def intro: quiet_trans split: if_splits)
qed

lemma quiet_open_out: "open_out e f app s = Some (fd, s') \<Longrightarrow> quiet s s'"
  by (auto simp: open_out_def Let_def dest!: quiet_new_fd split: if_splits)
    (simp_all add: quiet_def)

lemma quiet_open_outs: "open_outs e outs acc s = (r, s') \<Longrightarrow> quiet s s'"
proof (induction outs arbitrary: acc s)
  case Nil
  then show ?case by simp
next
  case (Cons fa outs)
  obtain f app where fa: "fa = (f, app)" by fastforce
  from Cons show ?case
    by (cases "open_out e f app s") (auto simp: fa dest: quiet_open_out intro: quiet_trans)
qed

lemma quiet_prepare: "prepare_output e outs s = (r, s') \<Longrightarrow> quiet s s'"
  by (auto simp: prepare_output_def split: if_splits prod.splits option.splits
      dest!: quiet_open_outs quiet_new_tmp intro: quiet_trans)

lemma quiet_presolve: "presolve e n cs s = (r, s') \<Longrightarrow> quiet s s'"
proof (induction cs arbitrary: s r)
  case Nil
  then show ?case by simp
next
  case (Cons c cs)
  from Cons.prems have "quiet s s' \<or>
      (\<exists>t r'. quiet s t \<and> presolve e n cs t = (r', s'))"
    by (auto simp: Let_def split: if_splits prod.splits option.splits)
  with Cons.IH show ?case by (blast intro: quiet_trans)
qed

lemma quiet_setup: "setup_steps e p s resolved inr ctx s' \<Longrightarrow> quiet s s'"
  by (auto simp: setup_steps_def dest!: quiet_presolve quiet_build_input quiet_prepare
      intro: quiet_trans)

lemma quiet_fails: "setup_fails e p s s' \<Longrightarrow> quiet s s'"
  by (auto simp: setup_fails_def dest!: quiet_presolve quiet_build_input quiet_prepare
      intro: quiet_trans)

lemma quiet_write_fd [simp]: "quiet s (write_fd fd b t) = quiet s t"
  by (simp add: write_fd_def split: option.split fdobj.split)

lemma quiet_flush: "quiet s (flush_output ctx s)"
proof -
  have "quiet s (foldl (\<lambda>s fd. write_fd fd b s) s rs)" for s :: "'a xworld_scheme" and b rs
    by (rule quiet_foldl) simp
  then have "quiet s (foldl (\<lambda>s b. foldl (\<lambda>s fd. write_fd fd b s) s rs) s bs)" for bs rs
    by (rule quiet_foldl)
  then show ?thesis by (simp add: flush_output_def Let_def split: option.split)
qed

section \<open>Jobs across the runners\<close>

definition table_ok :: "'a xworld_scheme \<Rightarrow> bool" where
  "table_ok s \<longleftrightarrow> jobs_ok s \<and> list_all int32 (os_pids s)"

lemma quiet_table: "quiet s s' \<Longrightarrow> table_ok s \<Longrightarrow> table_ok s'"
  by (simp add: quiet_def table_ok_def jobs_ok_def)

lemma frame_table: "frame s s' \<Longrightarrow> jobs_ok s' \<Longrightarrow> table_ok s \<Longrightarrow> table_ok s'"
  by (simp add: frame_def table_ok_def)

lemma register_keeps:
  assumes "register_job g pids names cmd bg s = Ok (n, s')" and "jobs_ok s"
    and "list_all int32 pids" and "pids \<noteq> []" and "length names = length pids"
  shows "jobs_ok s'"
proof -
  from assms(1) have g: "length (jobs s) < maxjobs" "length pids \<le> maxjob_process"
    "list_all (\<lambda>n. n \<noteq> None) names" "next_job s < INT_MAX" "- INT_MAX - 2 \<le> next_job s"
    by (auto simp: register_job_def bnd_eq_Ok bnd_guard sadd32_def INT_MAX_def split: if_splits)
  from register_job_ok[OF assms(2) g(1,4,5) assms(4) g(2) assms(5,3) g(3), of g cmd bg] assms(1)
  show ?thesis by auto
qed

lemma read_pids_all:
  "read_pids ps = Ok pids \<Longrightarrow> list_all (\<lambda>p. \<forall>x. p = Some x \<longrightarrow> int32 x) ps \<Longrightarrow>
   list_all int32 pids \<and> length pids = length ps"
  by (auto simp: read_pids_def list_all_iff split: if_splits)

lemma fork_register_table:
  assumes "table_ok s" and "p \<noteq> []"
    and f: "fork_stages cf p res 0 0 s = Ok (ps, grp, s5)" and r: "read_pids ps = Ok pids"
    and q: "quiet s5 s5'"
    and reg: "register_job grp pids (stage_names p) cmd bg s5' = Ok (n, s6)"
  shows "table_ok s6"
proof -
  note fk = fork_stages_keeps[OF f]
  have "list_all int32 (os_pids s5)" and "list_all (\<lambda>p. \<forall>x. p = Some x \<longrightarrow> int32 x) ps"
    using fk assms(1) by (simp_all add: table_ok_def)
  with read_pids_all[OF r] fk have "list_all int32 pids" "length pids = length p" by simp_all
  moreover have "jobs_ok s5'" using fk q assms(1) by (simp add: table_ok_def jobs_ok_def quiet_def)
  moreover have "pids \<noteq> []" using \<open>length pids = length p\<close> \<open>p \<noteq> []\<close> by (cases pids) auto
  moreover have "length (stage_names p) = length pids"
    using \<open>length pids = length p\<close> by (simp add: stage_names_def)
  ultimately have "jobs_ok s6" by (intro register_keeps[OF reg])
  moreover have "os_pids s6 = os_pids s5" using register_frame[OF reg] q by (simp add: frame_def quiet_def)
  ultimately show ?thesis using \<open>list_all int32 (os_pids s5)\<close> by (simp add: table_ok_def)
qed

lemma run_foreground_table:
  assumes "table_ok s" and "p \<noteq> []" and "run_foreground e shome p s = Ok (b, s')"
  shows "table_ok s'"
  using assms(3)
proof (cases rule: run_foreground_cases)
  case failed
  with assms(1) show ?thesis by (blast intro: quiet_table quiet_fails)
next
  case (builtin resolved s1)
  have "table_ok s1" using assms(1) quiet_presolve[OF builtin(1)] by (rule quiet_table[rotated])
  with builtin(2) show ?thesis
    by (auto simp: table_ok_def frame_def dest: jobs_ok_builtin frame_builtin)
next
  case (job resolved inr ctx s3 pipes s4)
  have "quiet s s4" using quiet_setup[OF job(1)] quiet_new_pipes[OF job(2)] by (rule quiet_trans)
  then have "quiet s (s4\<lparr>fg_running := True\<rparr>)" by simp
  with assms(1) have t4: "table_ok (s4\<lparr>fg_running := True\<rparr>)" by (rule quiet_table[rotated])
  from job(3) show ?thesis
  proof (rule fg_jobE)
    fix ps grp s5 pids n s6 stopped evs s7
    assume f: "fork_stages (fg_child_fds pipes inr ctx (length p)) p resolved 0 0 (s4\<lparr>fg_running := True\<rparr>)
        = Ok (ps, grp, s5)"
      and rp: "read_pids ps = Ok pids"
      and r: "register_job grp pids (stage_names p) (build_command_string 512 p True '''') False
        (close_fds (in_fds inr) (close_fds (pipe_fds pipes) s5)) = Ok (n, s6)"
      and w: "fg_wait (os_waits (emit (Tcsetpgrp grp) s6)) n (build_command_string 512 p True '''')
        (find_job_by_number n s6) (length p) (emit (Tcsetpgrp grp) s6) = Ok (stopped, evs, s7)"
      and s': "s' = flush_pending_bg_msg (flush_output ctx (next_output ctx
        ((after_wait e (find_job_by_number n s6) stopped evs s7)\<lparr>fg_running := False\<rparr>)))"
    have t6: "table_ok s6" by (rule fork_register_table[OF t4 assms(2) f rp _ r]) simp
    then have "jobs_ok (emit (Tcsetpgrp grp) s6)" by (simp add: table_ok_def)
    from jobs_ok_fg_wait[OF this w] have "jobs_ok (after_wait e (find_job_by_number n s6) stopped evs s7)"
      by (simp add: after_wait_def Let_def split: option.split)
    moreover have "frame s6 (after_wait e (find_job_by_number n s6) stopped evs s7)"
      using frame_fg_wait[OF w] by simp
    ultimately have "table_ok (next_output ctx
        ((after_wait e (find_job_by_number n s6) stopped evs s7)\<lparr>fg_running := False\<rparr>))"
      using t6 by (simp add: table_ok_def frame_def jobs_ok_def)
    from quiet_table[OF quiet_flush this] s' show ?thesis
      by (simp add: table_ok_def flush_pending_ok) (simp add: flush_pending_eq)
  qed
qed

lemma run_background_table:
  assumes "table_ok s" and "p \<noteq> []" and "run_background e shome p s = Ok s'"
  shows "table_ok s'"
  using assms(3)
proof (cases rule: run_background_cases)
  case failed
  with assms(1) show ?thesis by (blast intro: quiet_table quiet_fails)
next
  case (job resolved inr ctx s3 pipes s4 gate s5)
  have "quiet s s5"
    using quiet_setup[OF job(1)] quiet_new_pipes[OF job(2)] quiet_new_pipe[OF job(3)]
    by (blast intro: quiet_trans)
  with assms(1) have t5: "table_ok s5" by (rule quiet_table[rotated])
  from job(4)[unfolded bg_job_def] obtain ps grp s6 where
    f: "fork_stages (bg_child_fds pipes gate inr ctx (length p)) p resolved 0 0 s5 = Ok (ps, grp, s6)"
    by (elim bnd_OkE) auto
  note a = job(4)[unfolded bg_job_def f bnd_simps prod.case Let_def]
  from a obtain pids where rp: "read_pids ps = Ok pids" by (elim bnd_OkE) auto
  note a = a[unfolded rp bnd_simps]
  from a obtain n s7 where
    r: "register_job grp pids (stage_names p) (build_command_string 512 p True '''') True s6 = Ok (n, s7)"
    by (elim bnd_OkE) auto
  note a = a[unfolded r bnd_simps prod.case]
  have "table_ok s7" by (rule fork_register_table[OF t5 assms(2) f rp quiet_refl r])
  moreover have "quiet s7 s'" using a by auto
  ultimately show ?thesis by (rule quiet_table[rotated])
qed

interpretation job_table: pipeline_runner "run_foreground e shome" "run_background e shome"
    "table_ok :: 'a xworld_scheme \<Rightarrow> bool" for e shome
  by unfold_locales (rule run_foreground_table run_background_table; assumption)+

section \<open>What each child has open\<close>

lemma new_pipe_at:
  assumes "new_pipe s = ((r, w), s')"
  shows "fd_at (fds s') = (fd_at (fds s))(r \<mapsto> Pipe_r (npipes s), w \<mapsto> Pipe_w (npipes s))"
    and "npipes s' = Suc (npipes s)"
proof -
  let ?q = "s\<lparr>npipes := Suc (npipes s)\<rparr>"
  obtain r' s1 where r: "new_fd (Pipe_r (npipes s)) ?q = (r', s1)" by fastforce
  obtain w' s2 where w: "new_fd (Pipe_w (npipes s)) s1 = (w', s2)" by fastforce
  from assms r w have "r = r'" "w = w'" "s' = s2" by (simp_all add: new_pipe_def Let_def)
  with new_fd_keeps[OF r] new_fd_keeps[OF w]
  show "fd_at (fds s') = (fd_at (fds s))(r \<mapsto> Pipe_r (npipes s), w \<mapsto> Pipe_w (npipes s))"
    and "npipes s' = Suc (npipes s)" by auto
qed

lemma new_pipes_at:
  "new_pipes k s = (ps, s') \<Longrightarrow> length ps = k \<and>
   (\<forall>i < k. fd_at (fds s') (fst (ps ! i)) = Some (Pipe_r (npipes s + i)) \<and>
            fd_at (fds s') (snd (ps ! i)) = Some (Pipe_w (npipes s + i)))"
proof (induction k arbitrary: s ps s')
  case 0
  then show ?case by simp
next
  case (Suc k)
  obtain r w s1 where p: "new_pipe s = ((r, w), s1)" by (metis prod.exhaust)
  obtain qs s2 where q: "new_pipes k s1 = (qs, s2)" by fastforce
  from Suc.prems p q have r: "ps = (r, w) # qs" "s' = s2" by simp_all
  have "r \<noteq> w"
  proof
    assume "r = w"
    obtain s0 where "new_fd (Pipe_r (npipes s)) (s\<lparr>npipes := Suc (npipes s)\<rparr>) = (r, s0)"
      and "new_fd (Pipe_w (npipes s)) s0 = (w, s1)"
      using p by (auto simp: new_pipe_def Let_def split: prod.splits)
    then show False
      using new_fd_keeps[of _ _ r s0] new_fd_opened[of _ s0 w s1] \<open>r = w\<close> by (fastforce simp: opened_def)
  qed
  then have "fd_at (fds s1) r = Some (Pipe_r (npipes s))" "fd_at (fds s1) w = Some (Pipe_w (npipes s))"
    using new_pipe_at(1)[OF p] by simp_all
  with new_pipes_opened[OF q]
  have "fd_at (fds s2) r = Some (Pipe_r (npipes s))" "fd_at (fds s2) w = Some (Pipe_w (npipes s))"
    by (auto dest: opened_old)
  moreover note IH = Suc.IH[OF q]
  ultimately show ?case using r new_pipe_at(2)[OF p] by (auto simp: less_Suc_eq_0_disj)
qed

lemma pipe_fds_nth:
  "i < length ps \<Longrightarrow> fst (ps ! i) \<in> set (pipe_fds ps) \<and> snd (ps ! i) \<in> set (pipe_fds ps)"
proof -
  assume "i < length ps"
  then have "ps ! i \<in> set ps" by simp
  moreover have "p \<in> set ps \<Longrightarrow> fst p \<in> set (pipe_fds ps) \<and> snd p \<in> set (pipe_fds ps)" for p
    by (cases p) (force simp: pipe_fds_def)
  ultimately show ?thesis by blast
qed

text \<open>Standard input and output of stage \<open>i\<close> of \<open>n\<close> before its table is cleaned up.\<close>

definition stage_in :: "(nat \<times> nat) list \<Rightarrow> in_tmp \<Rightarrow> nat \<Rightarrow> nat" where
  "stage_in pipes inr i =
     (if 0 < i then fst (pipes ! (i - 1)) else case inr of Input_fd f \<Rightarrow> f | _ \<Rightarrow> 0)"

definition stage_out :: "(nat \<times> nat) list \<Rightarrow> out_ctx \<Rightarrow> nat \<Rightarrow> nat \<Rightarrow> nat" where
  "stage_out pipes ctx n i =
     (if i < n - 1 then snd (pipes ! i) else case tmp_fd ctx of Some f \<Rightarrow> f | None \<Rightarrow> 1)"

lemma fd_dup2_open: "fd_at t a \<noteq> None \<Longrightarrow> fd_at (fd_dup2 a b t) = (fd_at t)(b := fd_at t a)"
  by (auto simp: fd_dup2_at)

lemma fd_dup2_self: "fd_at (fd_dup2 a a t) = fd_at t"
proof (cases "fd_at t a")
  case None
  then show ?thesis by (simp add: fd_dup2_def)
next
  case (Some ob)
  from fd_dup2_at[OF this, of a] Some show ?thesis by (simp add: fun_upd_idem)
qed

lemma fg_child_table:
  assumes o: "opened t0 L t" and L: "set L = set (pipe_fds pipes) \<union> set (in_fds inr) \<union> set (ctx_fds ctx)"
    and std: "fd_at t0 0 \<noteq> None" "fd_at t0 1 \<noteq> None"
    and i: "length pipes = n - 1" "i < n"
  shows "fd_at (fg_child_fds pipes inr ctx n i t) =
    (fd_at t0)(0 := fd_at t (stage_in pipes inr i), 1 := fd_at t (stage_out pipes ctx n i))"
proof -
  have nL: "0 \<notin> set L" "1 \<notin> set L" and old: "fd_at t 0 = fd_at t0 0" "fd_at t 1 = fd_at t0 1"
    using o std opened_old[OF o] by (auto simp: opened_def)
  have open_L: "fd_at t f \<noteq> None" if "f \<in> set L" for f using o that by (auto simp: opened_def)
  let ?a = "stage_in pipes inr i" and ?b = "stage_out pipes ctx n i"
  have a: "?a \<in> set L \<or> ?a = 0"
    using L i pipe_fds_nth[of "i - 1" pipes]
    by (auto simp: stage_in_def in_fds_def split: in_tmp.split)
  have b: "?b \<in> set L \<or> ?b = 1"
    using L i pipe_fds_nth[of i pipes]
    by (auto simp: stage_out_def ctx_fds_def split: option.split)
  let ?t1 = "if 0 < i then fd_dup2 (fst (pipes ! (i - 1))) 0 t
             else case inr of Input_fd f \<Rightarrow> fd_dup2 f 0 t | _ \<Rightarrow> t"
  let ?t2 = "if i < n - 1 then fd_dup2 (snd (pipes ! i)) 1 ?t1
             else case tmp_fd ctx of Some f \<Rightarrow> fd_dup2 f 1 ?t1 | None \<Rightarrow> ?t1"
  have "fd_at ?t1 = fd_at (fd_dup2 ?a 0 t)"
    by (auto simp: stage_in_def fd_dup2_self split: in_tmp.split)
  also have "\<dots> = (fd_at t)(0 := fd_at t ?a)"
    by (rule fd_dup2_open) (use a open_L old std in auto)
  finally have t1: "fd_at ?t1 = (fd_at t)(0 := fd_at t ?a)" .
  have "fd_at ?t2 = fd_at (fd_dup2 ?b 1 ?t1)"
    by (auto simp: stage_out_def fd_dup2_self split: option.split)
  also have "\<dots> = (fd_at ?t1)(1 := fd_at ?t1 ?b)"
  proof -
    have "fd_at ?t1 ?b \<noteq> None" using b nL open_L old std t1 by auto
    then show ?thesis by (rule fd_dup2_open)
  qed
  also have "fd_at ?t1 ?b = fd_at t ?b" using b nL t1 by auto
  finally have t2: "fd_at ?t2 = (fd_at t)(0 := fd_at t ?a, 1 := fd_at t ?b)"
    unfolding t1 .
  have "fd_at (fg_child_fds pipes inr ctx n i t) =
      (\<lambda>f. if f \<in> set L then None else fd_at ?t2 f)"
    unfolding fg_child_fds_def Let_def close_all_at using L by (auto simp: fun_eq_iff)
  also have "\<dots> = (fd_at t0)(0 := fd_at t ?a, 1 := fd_at t ?b)"
    unfolding t2 using o nL by (auto simp: fun_eq_iff opened_def)
  finally show ?thesis .
qed

lemma fork_stages_children:
  "fork_stages cf cs rs i grp s = Ok (ps, g, s') \<Longrightarrow> list_all (\<lambda>c. argv c \<noteq> []) cs \<Longrightarrow>
   list_all (\<lambda>x. 0 < x) (os_pids s) \<Longrightarrow>
   \<exists>kids. children s' = children s @ kids \<and>
     map cfds kids = map (\<lambda>k. cf k (fds s)) [i..<i + length cs]"
proof (induction cs arbitrary: rs i grp s ps)
  case Nil
  then show ?case by simp
next
  case (Cons c cs)
  from Cons.prems obtain pid pids where pids: "os_pids s = pid # pids" by (auto split: list.splits)
  with Cons.prems(3) have pos: "0 < pid" "list_all (\<lambda>x. 0 < x) pids" by simp_all
  let ?kid = "\<lparr>cpid = pid, cfds = cf i (fds s), crun = child_runs c (hd rs)\<rparr>"
  let ?s = "emit (Setpgid pid grp) (emit (Fork i pid)
    (s\<lparr>os_pids := pids, children := children s @ [?kid]\<rparr>))"
  from Cons.prems pids pos obtain qs where
    f: "fork_stages cf cs (tl rs) (Suc i) (if i = 0 then pid else grp) ?s = Ok (qs, g, s')"
    by (auto simp: bnd_eq_Ok Let_def)
  have "list_all (\<lambda>c. argv c \<noteq> []) cs" "list_all (\<lambda>x. 0 < x) (os_pids ?s)"
    using Cons.prems(2) pos by (simp_all add: emit_def)
  from Cons.IH[OF f this] obtain kids where
    k: "children s' = children ?s @ kids" "map cfds kids = map (\<lambda>k. cf k (fds s)) [Suc i..<Suc i + length cs]"
    by auto
  have "[i..<i + length (c # cs)] = i # [Suc i..<Suc i + length cs]" by (simp add: upt_rec)
  with k have "children s' = children s @ ?kid # kids \<and>
      map cfds (?kid # kids) = map (\<lambda>k. cf k (fds s)) [i..<i + length (c # cs)]" by simp
  then show ?case by blast
qed

lemma prepare_output_fd:
  assumes "prepare_output e outs s = (Some ctx, s')"
  shows "npipes s' = npipes s"
    and "(case tmp_fd ctx of None \<Rightarrow> outs = []
          | Some f \<Rightarrow> outs \<noteq> [] \<and> fd_at (fds s') f = Some (Tmp_file (length (tmps s))))"
proof -
  have open_outs: "npipes t = npipes u \<and> tmps t = tmps u" if "open_outs e os acc u = (r, t)" for os acc u r t
    using that
  proof (induction os arbitrary: acc u)
    case Nil
    then show ?case by simp
  next
    case (Cons fa os)
    obtain f app where fa: "fa = (f, app)" by fastforce
    show ?case
    proof (cases "open_out e f app u")
      case None
      with Cons.prems fa show ?thesis by (auto simp: close_fds_def)
    next
      case (Some x)
      obtain fd u1 where x: "x = (fd, u1)" by fastforce
      have "npipes u1 = npipes u \<and> tmps u1 = tmps u"
        using Some x by (auto simp: open_out_def Let_def dest!: new_fd_keeps split: if_splits)
      with Cons fa Some x show ?thesis by fastforce
    qed
  qed
  have "npipes s' = npipes s \<and> (case tmp_fd ctx of None \<Rightarrow> outs = []
          | Some f \<Rightarrow> outs \<noteq> [] \<and> fd_at (fds s') f = Some (Tmp_file (length (tmps s))))"
  proof (cases "outs = []")
    case True
    with assms show ?thesis by (auto simp: prepare_output_def)
  next
    case False
    from assms False obtain rs s0 tfd where o: "open_outs e outs [] s = (Some rs, s0)"
      and n: "new_fd (Tmp_file (length (tmps s0))) (s0\<lparr>tmps := tmps s0 @ ['''']\<rparr>) = (tfd, s')"
      and ctx: "ctx = \<lparr>tmp_fd = Some tfd, real_fds = rs\<rparr>"
      by (auto simp: prepare_output_def new_tmp_def split: prod.splits option.splits if_splits)
    from new_fd_keeps[OF n] open_outs[OF o] ctx False show ?thesis by auto
  qed
  then show "npipes s' = npipes s"
    and "(case tmp_fd ctx of None \<Rightarrow> outs = []
          | Some f \<Rightarrow> outs \<noteq> [] \<and> fd_at (fds s') f = Some (Tmp_file (length (tmps s))))" by blast+
qed

lemma quiet_more: "new_fd ob s = (i, s') \<Longrightarrow> npipes s' = npipes s \<and> tmps s' = tmps s"
  by (auto dest: new_fd_keeps)

lemma copy_input_npipes: "npipes (copy_input e k f s) = npipes s"
proof -
  obtain fd s1 where n: "new_fd (In_desc (abs_path e (cwd s) f)) s = (fd, s1)" by fastforce
  have "npipes (foldl (\<lambda>s buf. write_tmp k buf s) s1 bs) = npipes s1" for bs
    by (induction bs arbitrary: s1) (simp_all add: write_tmp_def)
  with n quiet_more[OF n] show ?thesis by (simp add: copy_input_def Let_def close_fds_def)
qed

lemma build_input_npipes: "build_input_tmp e in_fs s = (r, s') \<Longrightarrow> npipes s' = npipes s"
proof -
  have "npipes (foldl (\<lambda>s f. copy_input e k f s) t in_fs) = npipes t" for k and t :: "'a xworld_scheme"
    by (induction in_fs arbitrary: t) (simp_all add: copy_input_npipes)
  then show "build_input_tmp e in_fs s = (r, s') \<Longrightarrow> npipes s' = npipes s"
    by (auto simp: build_input_tmp_def new_tmp_def Let_def split: if_splits prod.splits dest!: quiet_more)
qed

lemma presolve_pipes: "presolve e n cs s = (r, s') \<Longrightarrow> npipes s' = npipes s \<and> tmps s' = tmps s"
proof (induction cs arbitrary: s r)
  case Nil
  then show ?case by simp
next
  case (Cons c cs)
  from Cons.prems have "(npipes s' = npipes s \<and> tmps s' = tmps s) \<or>
      (\<exists>t r'. npipes t = npipes s \<and> tmps t = tmps s \<and> presolve e n cs t = (r', s'))"
    by (auto simp: Let_def split: if_splits prod.splits option.splits)
  with Cons.IH show ?case by fastforce
qed

text \<open>
  A foreground pipeline of at least two stages: stage \<open>i\<close> writes the pipe stage \<open>i + 1\<close> reads,
  the ends are redirected, and nothing else differs from the shell's own table; in particular no
  child holds an end of a pipe of the others.
\<close>

definition first_input :: "commands list \<Rightarrow> 'a xworld_scheme \<Rightarrow> fdobj option" where
  "first_input p s = (if in_files (hd p) = [] then fd_at (fds s) 0 else Some (Tmp_file (length (tmps s))))"

definition last_output :: "commands list \<Rightarrow> 'a xworld_scheme \<Rightarrow> fdobj option" where
  "last_output p s =
     (if out_files (last p) = [] then fd_at (fds s) 1
      else Some (Tmp_file (length (tmps s) + (if in_files (hd p) = [] then 0 else 1))))"

lemma build_input_cases:
  "build_input_tmp e fs s = (r, s') \<Longrightarrow> r \<noteq> Input_error \<Longrightarrow>
   (fs = [] \<longrightarrow> r = No_input \<and> s' = s) \<and> (fs \<noteq> [] \<longrightarrow> (\<exists>f. r = Input_fd f))"
  by (auto simp: build_input_tmp_def Let_def split: if_splits prod.splits)

lemma setup_ends:
  assumes "setup_steps e p s resolved inr ctx s3"
  shows "npipes s3 = npipes s"
    and "in_files (hd p) = [] \<and> inr = No_input \<or>
         in_files (hd p) \<noteq> [] \<and> (\<exists>f. inr = Input_fd f \<and> fd_at (fds s3) f = Some (Tmp_file (length (tmps s))))"
    and "out_files (last p) = [] \<and> tmp_fd ctx = None \<or>
         out_files (last p) \<noteq> [] \<and> (\<exists>f. tmp_fd ctx = Some f \<and>
           fd_at (fds s3) f = Some (Tmp_file (length (tmps s) + (if in_files (hd p) = [] then 0 else 1))))"
proof -
  from assms obtain s1 s2 where
    a: "presolve e (length p) p s = (Some resolved, s1)"
    and b: "build_input_tmp e (in_files (hd p)) s1 = (inr, s2)" "inr \<noteq> Input_error"
    and c: "prepare_output e (out_files (last p)) s2 = (Some ctx, s3)"
    by (auto simp: setup_steps_def)
  note pa = presolve_pipes[OF a] and pb = build_input_npipes[OF b(1)]
    and rb = build_input_tmp_result[OF b(1)] and pc = prepare_output_fd[OF c]
    and cb = build_input_cases[OF b]
  show "npipes s3 = npipes s" using pa pb pc(1) by simp
  have grow: "fd_at (fds s2) f = Some ob \<Longrightarrow> fd_at (fds s3) f = Some ob" for f ob
    using prepare_output_result[OF c] by (auto dest: opened_old)
  show "in_files (hd p) = [] \<and> inr = No_input \<or>
         in_files (hd p) \<noteq> [] \<and> (\<exists>f. inr = Input_fd f \<and> fd_at (fds s3) f = Some (Tmp_file (length (tmps s))))"
    using cb rb pa grow by (cases "in_files (hd p) = []") auto
  have "length (tmps s2) = length (tmps s) + (if in_files (hd p) = [] then 0 else 1)"
    using cb rb pa by (cases "in_files (hd p) = []") auto
  then show "out_files (last p) = [] \<and> tmp_fd ctx = None \<or>
         out_files (last p) \<noteq> [] \<and> (\<exists>f. tmp_fd ctx = Some f \<and>
           fd_at (fds s3) f = Some (Tmp_file (length (tmps s) + (if in_files (hd p) = [] then 0 else 1))))"
    using pc(2) by (auto split: option.splits)
qed

lemma fg_children:
  assumes run: "run_foreground e shome p s = Ok (True, s')"
    and p: "2 \<le> length p" "list_all (\<lambda>c. argv c \<noteq> []) p" and pids: "list_all (\<lambda>x. 0 < x) (os_pids s)"
    and std: "fd_at (fds s) 0 \<noteq> None" "fd_at (fds s) 1 \<noteq> None"
    and i: "i < length p"
  shows "length (children s') = length (children s) + length p"
    and "fd_at (cfds (children s' ! (length (children s) + i))) =
      (fd_at (fds s))
        (0 := (if i = 0 then first_input p s else Some (Pipe_r (npipes s + (i - 1)))),
         1 := (if i = length p - 1 then last_output p s else Some (Pipe_w (npipes s + i))))"
proof -
  have n1: "length p \<noteq> 1" using p(1) by simp
  from run obtain resolved inr ctx s3 pipes s4 where
    su: "setup_steps e p s resolved inr ctx s3"
    and np: "new_pipes (length p - 1) s3 = (pipes, s4)"
    and fj: "fg_job e p resolved inr ctx pipes s4 = Ok s'"
  proof (cases rule: run_foreground_cases)
    case (builtin resolved s1)
    with run n1 that show ?thesis
      by (auto simp: run_foreground_def Let_def bnd_eq_Ok setup_steps_def split: prod.splits option.splits if_splits)
  qed (use that in auto)
  from fj obtain kids where ch: "children s' = children s4 @ kids"
    and kids: "map cfds kids = map (\<lambda>k. fg_child_fds pipes inr ctx (length p) k (fds s4)) [0..<length p]"
  proof (rule fg_jobE)
    fix ps grp s5 pids n s6 stopped evs s7
    assume f: "fork_stages (fg_child_fds pipes inr ctx (length p)) p resolved 0 0 (s4\<lparr>fg_running := True\<rparr>)
        = Ok (ps, grp, s5)"
      and r: "register_job grp pids (stage_names p) (build_command_string 512 p True '''') False
        (close_fds (in_fds inr) (close_fds (pipe_fds pipes) s5)) = Ok (n, s6)"
      and w: "fg_wait (os_waits (emit (Tcsetpgrp grp) s6)) n (build_command_string 512 p True '''')
        (find_job_by_number n s6) (length p) (emit (Tcsetpgrp grp) s6) = Ok (stopped, evs, s7)"
      and s': "s' = flush_pending_bg_msg (flush_output ctx (next_output ctx
        ((after_wait e (find_job_by_number n s6) stopped evs s7)\<lparr>fg_running := False\<rparr>)))"
    have "list_all (\<lambda>x. 0 < x) (os_pids (s4\<lparr>fg_running := True\<rparr>))"
      using pids quiet_setup[OF su] quiet_new_pipes[OF np] by (simp add: quiet_def)
    from fork_stages_children[OF f p(2) this] obtain kids where
      k: "children s5 = children s4 @ kids"
         "map cfds kids = map (\<lambda>k. fg_child_fds pipes inr ctx (length p) k (fds s4)) [0..<length p]" by auto
    have "children s6 = children s5" using register_frame[OF r] by (simp add: frame_def close_fds_def)
    moreover have "frame s7 (after_wait e (find_job_by_number n s6) stopped evs s7)" by simp
    moreover have "children s7 = children s6" using frame_fg_wait[OF w] by (simp add: frame_def)
    moreover have "children s' = children (next_output ctx
        ((after_wait e (find_job_by_number n s6) stopped evs s7)\<lparr>fg_running := False\<rparr>))"
      using quiet_flush[of "next_output ctx ((after_wait e (find_job_by_number n s6) stopped evs s7)\<lparr>fg_running := False\<rparr>)" ctx] s'
      by (simp only: quiet_def flush_pending_eq shell.simps xworld.simps world.simps) simp
    ultimately have "children s' = children s4 @ kids" using k(1) by (simp add: frame_def)
    with k(2) that show thesis by blast
  qed
  have len: "length kids = length p" using arg_cong[OF kids, of length] by simp
  have c4: "children s4 = children s"
    using quiet_setup[OF su] quiet_new_pipes[OF np] by (simp add: quiet_def)
  show "length (children s') = length (children s) + length p" using ch c4 len by simp
  have "cfds (kids ! i) = fg_child_fds pipes inr ctx (length p) i (fds s4)"
    using arg_cong[OF kids, of "\<lambda>xs. xs ! i"] i len by simp
  moreover have "children s' ! (length (children s) + i) = kids ! i" using ch c4 by simp
  moreover have "fd_at (fg_child_fds pipes inr ctx (length p) i (fds s4)) =
      (fd_at (fds s))(0 := fd_at (fds s4) (stage_in pipes inr i), 1 := fd_at (fds s4) (stage_out pipes ctx (length p) i))"
  proof (rule fg_child_table[where L = "(in_fds inr @ ctx_fds ctx) @ pipe_fds pipes"])
    show "opened (fds s) ((in_fds inr @ ctx_fds ctx) @ pipe_fds pipes) (fds s4)"
      by (rule opened_trans[OF setup_opened(1)[OF su] new_pipes_opened[OF np]])
    show "length pipes = length p - 1" using new_pipes_at[OF np] by simp
  qed (use std i in auto)
  moreover note ends = setup_ends[OF su] and pip = new_pipes_at[OF np]
  have o4: "opened (fds s) ((in_fds inr @ ctx_fds ctx) @ pipe_fds pipes) (fds s4)"
    by (rule opened_trans[OF setup_opened(1)[OF su] new_pipes_opened[OF np]])
  have grow: "fd_at (fds s3) f = Some ob \<Longrightarrow> fd_at (fds s4) f = Some ob" for f ob
    using new_pipes_opened[OF np] by (auto dest: opened_old)
  have std4: "fd_at (fds s4) 0 = fd_at (fds s) 0" "fd_at (fds s4) 1 = fd_at (fds s) 1"
    using std opened_old[OF o4] by auto
  have "fd_at (fds s4) (stage_in pipes inr i) = (if i = 0 then first_input p s else Some (Pipe_r (npipes s + (i - 1))))"
    using ends(1,2) pip i std4 grow by (auto simp: stage_in_def first_input_def)
  moreover have "fd_at (fds s4) (stage_out pipes ctx (length p) i) =
      (if i = length p - 1 then last_output p s else Some (Pipe_w (npipes s + i)))"
    using ends(1,3) pip i std4 grow by (auto simp: stage_out_def last_output_def)
  ultimately show "fd_at (cfds (children s' ! (length (children s) + i))) =
      (fd_at (fds s))
        (0 := (if i = 0 then first_input p s else Some (Pipe_r (npipes s + (i - 1)))),
         1 := (if i = length p - 1 then last_output p s else Some (Pipe_w (npipes s + i))))"
    by simp
qed

end
