(* ===== verification/Sh_Main.thy ===== *)
theory Sh_Main
  imports Sh_Run
begin

text \<open>
  The shell's main loop: the prompt (\<open>c-shell/src/prompt.c\<close>) and \<open>main\<close> (\<open>c-shell/src/main.c\<close>),
  which composes the lexer, the syntax check and \<open>run_cmd\<close>.
\<close>

section \<open>The prompt\<close>

text \<open>\<open>user\<close> and \<open>host\<close> are \<open>None\<close> where \<open>getpwuid\<close> and \<open>gethostname\<close> fail.\<close>

definition prompt_text :: "string option \<Rightarrow> string option \<Rightarrow> string \<Rightarrow> string \<Rightarrow> string" where
  "prompt_text user host shome cw =
     (let username = (case user of Some u \<Rightarrow> u | None \<Rightarrow> ''unknown'');
          hostname = (case host of Some h \<Rightarrow> h | None \<Rightarrow> ''unknown'');
          homelength = length shome;
          after = drop homelength cw
      in if is_prefix shome cw \<and> (after = [] \<or> hd after = CHR ''/'')
         then ''<'' @ username @ ''@'' @ hostname @ '':~'' @ after @ ''> ''
         else ''<'' @ username @ ''@'' @ hostname @ '':'' @ cw @ ''> '')"

record menv = xenv +
  user_name :: "string option"
  host_name :: "string option"

text \<open>When \<open>getcwd\<close> fails, \<open>printing\<close> returns without printing.\<close>

definition printing :: "('b menv_scheme) \<Rightarrow> string \<Rightarrow> 'a xworld_scheme \<Rightarrow> 'a xworld_scheme" where
  "printing e shome s =
     (case os_getcwd (os e) (cwd s) of
        None \<Rightarrow> s
      | Some cw \<Rightarrow> printf (prompt_text (user_name e) (host_name e) shome cw) s)"

section \<open>The loop\<close>

text \<open>One line: \<open>input\<close> is what \<open>fgets\<close> stored.\<close>

definition run_line :: "('b menv_scheme) \<Rightarrow> string \<Rightarrow> string \<Rightarrow> 'a xworld_scheme \<Rightarrow> 'a xworld_scheme res" where
  "run_line e shome input s =
     (let input = takeWhile (\<lambda>c. c \<noteq> c_nl \<and> c \<noteq> c_nul) input in
      if input = [] then Ok s
      else
        bnd (maketoken input) (\<lambda>(ok, tokens, out).
          let s = (if out = [] then s else printf out s) in
          if \<not> ok then Ok s
          else
            (case parsing tokens of (ok, out) \<Rightarrow>
               let s = (if out = [] then s else printf out s) in
               if \<not> ok then Ok s else run_cmd e shome tokens s)))"

text \<open>
  What ends a wait for input: a line (at most 4999 characters of it), end of file, an error, or
  a SIGCHLD whose handler runs and lets the wait go on.
\<close>

datatype input_event = Got_line string | End_of_file | Read_error | Child_signal "(int \<times> wstatus) list"

definition any_stopped :: "'a shell_scheme \<Rightarrow> bool" where
  "any_stopped s \<longleftrightarrow> list_ex (\<lambda>j. active j \<and> jstate j = job_stopped) (jobs s)"

definition leave :: "'a xworld_scheme \<Rightarrow> 'a xworld_scheme" where
  "leave s = send_sighup_to_all_jobs (printf nl s)"

text \<open>\<open>fgets\<close> and what follows it in the loop; the prompt has been printed.\<close>

fun main_read ::
  "('b menv_scheme) \<Rightarrow> string \<Rightarrow> input_event list \<Rightarrow> bool \<Rightarrow> 'a xworld_scheme \<Rightarrow> 'a xworld_scheme res" where
  "main_read e shome [] eof_warned s = Spin"
| "main_read e shome (Child_signal ws # evs) eof_warned s =
     bnd (reap_finished ws s) (\<lambda>s. main_read e shome evs eof_warned s)"
| "main_read e shome (Read_error # evs) eof_warned s = Ok (leave s)"
| "main_read e shome (End_of_file # evs) eof_warned s =
     (if any_stopped s \<and> \<not> eof_warned
      then main_read e shome evs True
             (printing e shome (printf (nl @ ''cshell: there are stopped jobs'' @ nl) s))
      else Ok (leave s))"
| "main_read e shome (Got_line input # evs) eof_warned s =
     bnd (run_line e shome input s) (\<lambda>s.
       if exited s then Ok s else main_read e shome evs False (printing e shome s))"

definition shell_main :: "('b menv_scheme) \<Rightarrow> input_event list \<Rightarrow> 'a xworld_scheme \<Rightarrow> 'a xworld_scheme res" where
  "shell_main e evs s =
     (case os_getcwd (os e) (cwd s) of
        None \<Rightarrow> Ok s
      | Some shome \<Rightarrow> main_read e shome evs False (printing e shome s))"

section \<open>A line means its syntax tree\<close>

lemma parse_item: "fst (parsing_loop (item_tokens i @ rest) (Suc 0)) = fst (parsing_loop rest (Suc 0))"
  by (cases i) (simp_all add: parse_step_def mkword_def mkop_def)

lemma parse_items: "fst (parsing_loop (simple_tokens c @ rest) (Suc 0)) = fst (parsing_loop rest (Suc 0))"
  by (induction c) (simp_all add: simple_tokens_def parse_item)

lemma parse_simple:
  assumes "starts_with_arg c" and "st \<in> {0, 3}"
  shows "fst (parsing_loop (simple_tokens c @ rest) st) = fst (parsing_loop rest (Suc 0))"
proof -
  from assms(1) obtain w d where "c = Arg w # d"
    by (auto simp: starts_with_arg_def split: list.splits item.splits)
  moreover have "parse_step st token_word = Some (Suc 0)" using assms(2) by (auto simp: parse_step_def)
  ultimately show ?thesis
    using parse_items[of d rest] by (simp add: simple_tokens_def mkword_def)
qed

lemma parse_pipe:
  "p \<noteq> [] \<Longrightarrow> list_all starts_with_arg p \<Longrightarrow> st \<in> {0, 3} \<Longrightarrow>
   fst (parsing_loop (pipe_tokens p @ rest) st) = fst (parsing_loop rest (Suc 0))"
proof (induction p arbitrary: st rule: pipe_tokens.induct)
  case 1
  then show ?case by simp
next
  case (2 c)
  then show ?case by (simp add: parse_simple)
next
  case (3 c d cs)
  have "fst (parsing_loop (pipe_tokens (d # cs) @ rest) 0) = fst (parsing_loop rest (Suc 0))"
    by (rule 3(1)) (use 3(3) in simp_all)
  moreover have "parse_step (Suc 0) token_pipe = Some 0" by (simp add: parse_step_def)
  ultimately show ?case using 3(3,4) by (simp add: parse_simple mkop_def)
qed

lemma parse_line:
  "wf_line l \<Longrightarrow> l \<noteq> [] \<Longrightarrow> st \<in> {0, 3} \<Longrightarrow> fst (parsing_loop (line_tokens l) st)"
proof (induction l arbitrary: st)
  case Nil
  then show ?case by simp
next
  case (Cons pt l)
  obtain p t where pt: "pt = (p, t)" by fastforce
  from Cons.prems(1) pt have p: "p \<noteq> []" "list_all starts_with_arg p" by (simp_all add: wf_line_def)
  note wl = wf_line_Cons[OF Cons.prems(1)[unfolded pt]]
  have "fst (parsing_loop (term_tokens t @ line_tokens l) (Suc 0))"
  proof (cases t)
    case TERM_SEMI
    have "l \<noteq> []" using Cons.prems(1) TERM_SEMI by (auto simp: wf_line_def pt)
    with Cons.IH[OF wl(1)] TERM_SEMI show ?thesis by (simp add: mkop_def parse_step_def)
  next
    case TERM_AMP
    with Cons.IH[OF wl(1)] show ?thesis by (cases "l = []") (simp_all add: mkop_def parse_step_def)
  next
    case TERM_END
    with wl(2) show ?thesis by simp
  qed
  with parse_pipe[OF p Cons.prems(3)] show ?case by (simp add: pt)
qed

lemma parsing_tree:
  assumes "wf_line l"
  shows "parsing (line_tokens l) = (True, '''')"
proof -
  have "fst (parsing (line_tokens l))"
    using parse_line[OF assms, of 0] by (cases "l = []") (auto simp: parsing_def)
  with parsing_output[of "line_tokens l"] show ?thesis by (simp add: prod_eq_iff)
qed

lemma run_line_tree:
  assumes wf: "wf_line l" "l \<noteq> []" and fits: "line_fits l"
    and q: "list_all renderable qts" "map snd qts = line_tokens l" "length qts \<le> maxtok"
    and nl: "c_nl \<notin> set (render qts)" "c_nul \<notin> set (render qts)"
    and rest: "rest = [] \<or> hd rest = c_nl"
  shows "run_line e shome (render qts @ rest) s =
    bnd (run_segments (run_foreground e shome) (run_background e shome)
           (map (\<lambda>(p, t). (map command_of p, t)) l) s)
        (\<lambda>s. Ok (if exited s then s else flush_pending_bg_msg s))"
proof -
  obtain p t l' where l: "l = (p, t) # l'" using wf(2) by (cases l) auto
  have "qts \<noteq> []" using line_tokens_ne[OF wf(1)[unfolded l]] q(2) l by auto
  then have ne: "render qts \<noteq> []" by (cases qts) (auto simp: render_def)
  have "takeWhile (\<lambda>c. c \<noteq> c_nl \<and> c \<noteq> c_nul) (render qts @ rest) = render qts"
  proof -
    have "takeWhile (\<lambda>c. c \<noteq> c_nl \<and> c \<noteq> c_nul) (render qts @ rest) =
        render qts @ takeWhile (\<lambda>c. c \<noteq> c_nl \<and> c \<noteq> c_nul) rest"
      by (rule takeWhile_append2) (use nl in auto)
    with rest show ?thesis by (cases rest) auto
  qed
  moreover have "maketoken (render qts) = Ok (True, line_tokens l, '''')"
    using lex_render[OF q(1), of "[]"] q(2,3) by (simp add: maketoken_def)
  ultimately show ?thesis
    using ne parsing_tree[OF wf(1)]
      run_cmd_line[OF wf(1) fits, of "run_foreground e shome" "run_background e shome" s]
    by (simp add: run_line_def run_cmd_def)
qed

section \<open>Leaving\<close>

lemma send_sighup_trace:
  "trace (send_sighup_to_all_jobs s) =
     trace s @ map (\<lambda>j. Kill (- pgid j) SIGHUP) (filter active (jobs s))"
proof -
  have "trace (foldl (\<lambda>s j. if active j then emit (Kill (- pgid j) SIGHUP) s else s) t js) =
      trace t @ map (\<lambda>j. Kill (- pgid j) SIGHUP) (filter active js)" for t :: "'a shell_scheme" and js
    by (induction js arbitrary: t) simp_all
  then show ?thesis by (simp add: send_sighup_to_all_jobs_def)
qed

lemma two_eofs:
  assumes "any_stopped s"
  shows "\<exists>s'. main_read e shome [End_of_file, End_of_file] False s = Ok s' \<and>
    trace s' = trace s @
      [Print (nl @ ''cshell: there are stopped jobs'' @ nl)] @
      (case os_getcwd (os e) (cwd s) of
         None \<Rightarrow> []
       | Some cw \<Rightarrow> [Print (prompt_text (user_name e) (host_name e) shome cw)]) @
      [Print nl] @ map (\<lambda>j. Kill (- pgid j) SIGHUP) (filter active (jobs s))"
  using assms by (simp add: leave_def send_sighup_trace printing_def split: option.split)

end
