(* ===== verification/Sh_Properties.thy ===== *)
theory Sh_Properties
  imports Sh_Main
begin

text \<open>
  The properties of the shell, each with a concrete instance.  The instances run in \<open>demo_env\<close>, an
  operating system with one directory \<open>/h\<close> in which every program exists, from \<open>demo_world\<close>.
\<close>

definition demo_os :: osenv where
  "demo_os = \<lparr>stat_isdir = (\<lambda>c p. p = ''/h''), os_chdir = (\<lambda>c p. Some p), os_realpath = (\<lambda>c p. Some p),
     os_time = 7, os_writable = (\<lambda>p. True), os_getcwd = Some\<rparr>"

definition demo_paths :: pathenv where
  "demo_paths = \<lparr>stat_kind = (\<lambda>p. Some Regular), access_x = (\<lambda>p. True), getcwd = Some ''/h'',
     getenv_PATH = Some ''/b:/c''\<rparr>"

definition demo_env :: menv where
  "demo_env = \<lparr>os = demo_os, abs_path = (\<lambda>c f. c @ ''/'' @ f), readable = (\<lambda>p. True),
     mkstemp_ok = True, path_of = (\<lambda>c. demo_paths),
     dirs_of = (\<lambda>c. \<lparr>readdir = (\<lambda>p. None), lstat_isdir = (\<lambda>p. False)\<rparr>), tty_input = '''',
     proc_fs = \<lparr>self_pid = 5, proc_exists = (\<lambda>p. False), kill_eperm = (\<lambda>p. False),
       fd_eacces = (\<lambda>p. False), readlink = (\<lambda>p. None), stat_mode = (\<lambda>p. None),
       maps_of = (\<lambda>p. None), fd_names = (\<lambda>p. None)\<rparr>,
     tracee = \<lparr>tr_exists = (\<lambda>p. False), tr_attach = (\<lambda>p. False), tr_stops = []\<rparr>,
     shell_pgrp = 5, walk_fuel = 3, user_name = Some ''u'', host_name = Some ''n''\<rparr>"

definition demo_world :: xworld where
  "demo_world = \<lparr>jobs = [], next_job = 1, fg_running = False, pending_msg = [], trace = [],
     cwd = ''/h'', previous = '''', files = (\<lambda>p. if p = ''/h/in'' then Some ''xy'' else None),
     fds = [Some Tty, Some Tty, Some Tty], tmps = [], descs = [], npipes = 0, children = [],
     exited = False, os_pids = [101, 102],
     os_waits = [Wait_ok 101 (WExited 0), Wait_ok 102 (WExited 0)], os_outs = [''out''],
     os_reaps = []\<rparr>"

text \<open>\<open>a < in | b > o\<close>\<close>

definition demo_line :: line where
  "demo_line = [([[Arg ''a'', In_file ''in''], [Arg ''b'', Out_file False ''o'']], TERM_END)]"

definition demo_text :: "(quoting \<times> token) list" where
  "demo_text = map (\<lambda>t. (Escaped, t)) (line_tokens demo_line)"

lemmas exec_defs =
  run_foreground_def is_builtin_def resolving_def is_executable_file_def cut_def path_join_def
  build_input_tmp_def path_exists_def new_tmp_def new_fd_def fd_alloc_def copy_input_def
  read_file_def close_fds_def fd_close_def write_tmp_def prepare_output_def open_out_def
  new_pipe_def fg_job_def child_runs_def emit_def printf_def pipe_fds_def in_fds_def ctx_fds_def
  fg_child_fds_def fd_dup2_def fd_at_def read_pids_def register_job_def sadd32_def INT_MAX_def
  maxjobs_def maxjob_process_def stage_names_def strncat_def find_job_by_number_def upd_job_def
  flush_output_def next_output_def child_output_def write_fd_def write_desc_def content_def
  flush_pending_eq Let_def bnd_guard

lemmas demo_defs = demo_world_def demo_env_def demo_os_def demo_paths_def

abbreviation demo_pipeline :: "commands list" where
  "demo_pipeline \<equiv> map command_of (fst (hd demo_line))"

text \<open>The demonstration pipeline runs.\<close>

lemma demo_run:
  "\<exists>s'. run_foreground demo_env ''/h'' demo_pipeline demo_world = Ok (True, s')"
proof -
  have c: "chunks 8192 ''xy'' = [''xy'']" "chunks 8192 ''out'' = [''out'']"
    by (simp_all add: chunks.simps)
  show ?thesis by (simp add: demo_line_def command_of_def demo_defs c exec_defs)
qed

lemma demo_line_ok: "wf_line demo_line" "line_fits demo_line" "demo_line \<noteq> []"
  by code_simp+

lemma demo_run_cmd:
  "\<exists>s'. run_cmd demo_env ''/h'' (line_tokens demo_line) demo_world = Ok s'"
proof -
  obtain s' where "run_foreground demo_env ''/h'' demo_pipeline demo_world = Ok (True, s')"
    using demo_run by blast
  then have "run_segments (run_foreground demo_env ''/h'') (run_background demo_env ''/h'')
      (map (\<lambda>(p, t). (map command_of p, t)) demo_line) demo_world = Ok s'"
    by (simp add: demo_line_def)
  then show ?thesis by (simp add: run_cmd_def run_cmd_line[OF demo_line_ok(1,2)])
qed

section \<open>From characters to execution\<close>

text \<open>C1: A command line typed from a syntax tree, every word in any style of quoting and the tokens
separated by blanks, is lexed, accepted by the syntax check and executed exactly as the tree says:
the pipelines in order, in the background after an ampersand, stopping at a foreground pipeline that
reports failure; then the pending messages are printed unless the shell has exited.\<close>

theorem line_runs_its_tree:
  assumes "wf_line l" and "l \<noteq> []" and "line_fits l"
    and "list_all renderable qts" and "map snd qts = line_tokens l" and "length qts \<le> maxtok"
    and "c_nl \<notin> set (render qts)" and "c_nul \<notin> set (render qts)"
    and "rest = [] \<or> hd rest = c_nl"
  shows "run_line e shome (render qts @ rest) s =
    bnd (run_segments (run_foreground e shome) (run_background e shome)
           (map (\<lambda>(p, t). (map command_of p, t)) l) s)
        (\<lambda>s. Ok (if exited s then s else flush_pending_bg_msg s))"
  using assms by (rule run_line_tree)

lemma line_runs_its_tree_witness:
  "run_line demo_env ''/h'' (render demo_text @ nl) demo_world =
    bnd (run_segments (run_foreground demo_env ''/h'') (run_background demo_env ''/h'')
           (map (\<lambda>(p, t). (map command_of p, t)) demo_line) demo_world)
        (\<lambda>s. Ok (if exited s then s else flush_pending_bg_msg s))"
  by (rule line_runs_its_tree) code_simp+

text \<open>C2: On any token list the lexer can produce, the syntax check accepts exactly the lists that
spell a command line: empty, or starting with a word, ending in a word or an ampersand, with no two
operators next to each other; it prints its message exactly when it rejects.\<close>

theorem parsing_accepts:
  assumes "list_all wf_token ts"
  shows "parsing ts = (if command_line ts then (True, '''') else (False, invalid_syntax))"
  using parsing_iff[OF assms] parsing_output[of ts] by (auto simp: prod_eq_iff)

lemma parsing_accepts_witness:
  "parsing (line_tokens demo_line) = (True, '''')"
proof -
  have "list_all wf_token (line_tokens demo_line)" by code_simp
  from parsing_accepts[OF this] show ?thesis by code_simp
qed

text \<open>Every token list that passes the syntax check is the token list of a syntax tree, so the
check lets no line through that \<open>run_cmd\<close> cannot read.\<close>

theorem accepted_lines_are_trees:
  assumes "list_all wf_token ts" and "fst (parsing ts)"
  shows "\<exists>l. wf_line l \<and> ts = line_tokens l"
  using assms parsing_iff[of ts] accepted_has_tree[of ts] by blast

lemma accepted_lines_are_trees_witness:
  "\<exists>l. wf_line l \<and> [mkword ''a'', mkop token_amp, mkword ''b''] = line_tokens l"
  by (rule accepted_lines_are_trees) code_simp+

section \<open>Running pipelines\<close>

text \<open>C3: Running a command line leaves the shell's descriptor table as it was: every temporary file,
redirection, pipe and gate descriptor opened on any path, failing ones included, is closed again.\<close>

theorem run_cmd_no_descriptor_leak:
  assumes "run_cmd e shome ts s = Ok s'"
  shows "fd_at (fds s') = fd_at (fds s)"
proof -
  from assms obtain t where t: "run_cmd_loop (run_foreground e shome) (run_background e shome) ts s = Ok t"
    and s': "s' = (if exited t then t else flush_pending_bg_msg t)"
    by (auto simp: run_cmd_def bnd_eq_Ok)
  have "fd_at (fds t) = fd_at (fds s)" using descriptors.loop_keeps[OF refl t] .
  with s' show ?thesis by (simp add: flush_pending_eq)
qed

lemma run_cmd_no_descriptor_leak_witness:
  "\<exists>s'. run_cmd demo_env ''/h'' (line_tokens demo_line) demo_world = Ok s' \<and>
     fd_at (fds s') = fd_at (fds demo_world)"
  using demo_run_cmd run_cmd_no_descriptor_leak by blast

text \<open>C4: Running a command line keeps the job table well formed: job numbers are distinct and below
the next one, every active job has a process, every recorded pid and name fits its field, and no
more messages are queued than the queue holds.\<close>

theorem run_cmd_keeps_job_table:
  assumes "run_cmd e shome ts s = Ok s'" and "jobs_ok s" and "list_all int32 (os_pids s)"
  shows "jobs_ok s'"
proof -
  from assms(1) obtain t where t: "run_cmd_loop (run_foreground e shome) (run_background e shome) ts s = Ok t"
    and s': "s' = (if exited t then t else flush_pending_bg_msg t)"
    by (auto simp: run_cmd_def bnd_eq_Ok)
  have "table_ok s" using assms(2,3) by (simp add: table_ok_def)
  from job_table.loop_keeps[OF this t] s' show ?thesis by (simp add: table_ok_def flush_pending_ok)
qed

lemma run_cmd_keeps_job_table_witness:
  "\<exists>s'. run_cmd demo_env ''/h'' (line_tokens demo_line) demo_world = Ok s' \<and> jobs_ok s'"
proof -
  have "jobs_ok demo_world" "list_all int32 (os_pids demo_world)"
    by (simp_all add: demo_world_def jobs_ok_def int32_def)
  with demo_run_cmd run_cmd_keeps_job_table show ?thesis by blast
qed

text \<open>C5: In a foreground pipeline of two or more stages, the child of each stage has as standard input
the read end of the pipe whose write end is the standard output of the stage before (the first stage
the redirected input or the terminal, the last stage the redirected output or the terminal), and
otherwise exactly the shell's own descriptors: no child holds an end of a pipe it does not use.\<close>

theorem pipeline_plumbing:
  assumes "run_foreground e shome p s = Ok (True, s')"
    and "2 \<le> length p" and "list_all (\<lambda>c. argv c \<noteq> []) p" and "list_all (\<lambda>x. 0 < x) (os_pids s)"
    and "fd_at (fds s) 0 \<noteq> None" and "fd_at (fds s) 1 \<noteq> None" and "i < length p"
  shows "length (children s') = length (children s) + length p \<and>
    fd_at (cfds (children s' ! (length (children s) + i))) =
      (fd_at (fds s))
        (0 := (if i = 0 then first_input p s else Some (Pipe_r (npipes s + (i - 1)))),
         1 := (if i = length p - 1 then last_output p s else Some (Pipe_w (npipes s + i))))"
  using fg_children[OF assms] by blast

lemma pipeline_plumbing_witness:
  "\<exists>s'. run_foreground demo_env ''/h'' demo_pipeline demo_world = Ok (True, s') \<and>
     fd_at (cfds (children s' ! 1)) 0 = Some (Pipe_r 0) \<and>
     fd_at (cfds (children s' ! 1)) 6 = None"
proof -
  obtain s' where r: "run_foreground demo_env ''/h'' demo_pipeline demo_world = Ok (True, s')"
    using demo_run by blast
  have "2 \<le> length demo_pipeline" "list_all (\<lambda>c. argv c \<noteq> []) demo_pipeline"
    "list_all (\<lambda>x. 0 < x) (os_pids demo_world)" "fd_at (fds demo_world) 0 \<noteq> None"
    "fd_at (fds demo_world) 1 \<noteq> None" "1 < length demo_pipeline"
    by (simp_all add: demo_line_def command_of_def demo_world_def fd_at_def)
  note p = pipeline_plumbing[OF r this]
  have "children demo_world = []" "npipes demo_world = 0"
    "fd_at (fds demo_world) 6 = None" by (simp_all add: demo_world_def fd_at_def)
  with p have "fd_at (cfds (children s' ! 1)) 0 = Some (Pipe_r 0)"
    and "fd_at (cfds (children s' ! 1)) 6 = None" by simp_all
  with r show ?thesis by blast
qed

text \<open>C6: Output redirection: after the output is flushed, each target file of the last stage holds
exactly what the pipeline wrote, after its old content if it was opened to append and alone
otherwise, whatever the number of read and write steps; no other file changes.\<close>

theorem redirection_writes_all:
  assumes "prepare_output e outs s = (Some ctx, s1)" and "outs \<noteq> []"
    and "distinct (out_paths e outs s)"
  shows "content (flush_output ctx (child_output ctx txt s1)) p =
    (case map_of (map (\<lambda>(f, app). (abs_path e (cwd s) f, app)) outs) p of
       None \<Rightarrow> content s p
     | Some app \<Rightarrow> (if app then content s p else '''') @ txt)"
  using assms by (rule redirected_output)

lemma redirection_writes_all_witness:
  "\<exists>ctx s1. prepare_output demo_env [(''in'', True), (''o'', False)] demo_world = (Some ctx, s1) \<and>
     content (flush_output ctx (child_output ctx ''z'' s1)) ''/h/in'' = ''xyz'' \<and>
     content (flush_output ctx (child_output ctx ''z'' s1)) ''/h/o'' = ''z''"
proof -
  let ?outs = "[(''in'', True), (''o'', False)]"
  obtain ctx s1 where p: "prepare_output demo_env ?outs demo_world = (Some ctx, s1)"
    by (simp add: demo_defs exec_defs)
  have "distinct (out_paths demo_env ?outs demo_world)" by (simp add: out_paths_def demo_defs)
  from redirection_writes_all[OF p _ this, of "''z''"] p show ?thesis
    by (auto simp: demo_defs content_def)
qed

text \<open>C7: Input redirection: the temporary file given to the first stage holds the input files one
after another, in the order of the command line, and its descriptor is the only one added; when a
file is missing, no descriptor is added.\<close>

theorem input_files_concatenated:
  assumes "build_input_tmp e in_fs s = (r, s')"
  shows "case r of
      Input_fd tfd \<Rightarrow> opened (fds s) [tfd] (fds s') \<and>
        fd_at (fds s') tfd = Some (Tmp_file (length (tmps s))) \<and>
        tmps s' = tmps s @ [concat (map (\<lambda>f. read_file e f s) in_fs)]
    | _ \<Rightarrow> fds s' = fds s"
  using assms by (rule build_input_tmp_result)

lemma input_files_concatenated_witness:
  "\<exists>f s'. build_input_tmp demo_env [''in'', ''in''] demo_world = (Input_fd f, s') \<and>
     tmps s' = [''xyxy'']"
proof -
  have "\<exists>f s'. build_input_tmp demo_env [''in'', ''in''] demo_world = (Input_fd f, s')"
    by (simp add: demo_defs exec_defs)
  then obtain f s' where b: "build_input_tmp demo_env [''in'', ''in''] demo_world = (Input_fd f, s')"
    by blast
  from input_files_concatenated[OF b] b show ?thesis
    by (simp add: demo_defs read_file_def Let_def)
qed

section \<open>Jobs\<close>


definition demo_jobs :: shell where
  "demo_jobs = \<lparr>jobs = [\<lparr>job_number = 1, pgid = 101, procs = [(101, ''a''), (102, ''b'')],
      command = ''a | b'', jstate = job_stopped, background = True, active = True\<rparr>],
     next_job = 2, fg_running = False, pending_msg = [], trace = []\<rparr>"




text \<open>C9: End of file with a stopped job in the table first only warns and prompts again, the prompt
being left out when the working directory cannot be read; a second end of file leaves the shell and
sends SIGHUP to the process group of every active job, in table order.\<close>

theorem second_eof_leaves:
  assumes "any_stopped s"
  shows "\<exists>s'. main_read e shome [End_of_file, End_of_file] False s = Ok s' \<and>
    trace s' = trace s @
      [Print (nl @ ''cshell: there are stopped jobs'' @ nl)] @
      (case os_getcwd (os e) (cwd s) of
         None \<Rightarrow> []
       | Some cw \<Rightarrow> [Print (prompt_text (user_name e) (host_name e) shome cw)]) @
      [Print nl] @ map (\<lambda>j. Kill (- pgid j) SIGHUP) (filter active (jobs s))"
  using assms by (rule two_eofs)

lemma second_eof_leaves_witness:
  "\<exists>s'. main_read demo_env ''/h'' [End_of_file, End_of_file] False
       (demo_world\<lparr>jobs := jobs demo_jobs\<rparr>) = Ok s' \<and>
     tl (trace s') = [Print ''<u@n:~> '', Print nl, Kill (- 101) SIGHUP]"
proof -
  have "any_stopped (demo_world\<lparr>jobs := jobs demo_jobs\<rparr>)"
    by (simp add: any_stopped_def demo_world_def demo_jobs_def)
  from second_eof_leaves[OF this, of demo_env "''/h''"] show ?thesis
    by (auto simp: demo_jobs_def demo_defs prompt_text_def is_prefix_iff)
qed

section \<open>Builtins\<close>

text \<open>C10: The frecency table survives being written and read back: after a directory is visited, the
file's entries are those before with the visited one's count raised and time set, or the directory
appended with count one.\<close>

theorem frecency_update_roundtrip:
  assumes "files w (frecency_file shome) = Some (print_all es)" and "list_all entry_ok es"
    and "list_all (\<lambda>(p, f, t). f < INT_MAX \<and> - INT_MAX \<le> f) es" and "length es < MAX_ENTRIES"
    and "os_writable e (frecency_file shome)" and "entry_ok (path, 1, os_time e)"
  shows "\<exists>w'. freq_update e shome path w = Ok w' \<and>
    (case files w' (frecency_file shome) of
       None \<Rightarrow> False
     | Some txt \<Rightarrow> fst (scan_all txt) = visited path (os_time e) es)"
proof -
  have "list_all entry_ok (visited path (os_time e) es)"
    using assms(2,3,6) by (rule visited_entry_ok)
  with freq_update_eq[OF assms(1-5), of path] show ?thesis by (simp add: scan_print_all)
qed

lemma frecency_update_roundtrip_witness:
  "\<exists>w'. freq_update demo_os ''/h'' ''/b''
       (demo_world\<lparr>files := (\<lambda>p. Some (print_all [(''/b'', 2, 3)]))\<rparr>) = Ok w' \<and>
     (case files w' (frecency_file ''/h'') of
        None \<Rightarrow> False | Some txt \<Rightarrow> fst (scan_all txt) = [(''/b'', 3, 7)])"
proof -
  let ?w = "demo_world\<lparr>files := (\<lambda>p. Some (print_all [(''/b'', 2, 3)]))\<rparr>"
  have "files ?w (frecency_file ''/h'') = Some (print_all [(''/b'', 2, 3)])"
    "list_all entry_ok [(''/b'', 2, 3)]" "list_all (\<lambda>(p, f, t). f < INT_MAX \<and> - INT_MAX \<le> f) [(''/b'', 2, 3)]"
    "length [(''/b'', 2, 3)] < MAX_ENTRIES" "os_writable demo_os (frecency_file ''/h'')"
    "entry_ok (''/b'', 1, os_time demo_os)"
    by (simp_all add: entry_ok_def int32_def LONG_MAX_def INT_MAX_def MAX_ENTRIES_def demo_os_def is_space_def)
  note r = frecency_update_roundtrip[OF this]
  have "visited ''/b'' (os_time demo_os) [(''/b'', 2, 3)] = [(''/b'', 3, 7)]"
    by (simp add: visited_def demo_os_def)
  from r[unfolded this] show ?thesis .
qed

text \<open>C11: A jump by name goes to an existing directory of the table whose path contains the name and
which no other such directory beats in visits, or in time of the last visit at equal visits; if
there is none, there is no jump.\<close>

theorem frecency_jump_is_best:
  assumes "files w (frecency_file shome) = Some (print_all es)" and "list_all entry_ok es"
    and "\<forall>(p, f, t) \<in> set es. 0 \<le> f"
  shows "(case get_frecency e shome target w of
      Some path \<Rightarrow> \<exists>b \<in> set es. fst b = path \<and> eligible (stat_isdir e (cwd w)) target b \<and>
        (\<forall>x \<in> set es. eligible (stat_isdir e (cwd w)) target x \<longrightarrow> score_le x b)
    | None \<Rightarrow> \<forall>x \<in> set es. \<not> eligible (stat_isdir e (cwd w)) target x)"
  using assms by (rule get_frecency_best)

lemma frecency_jump_is_best_witness:
  "get_frecency demo_os ''/h'' ''h''
     (demo_world\<lparr>files := (\<lambda>p. Some (print_all [(''/b'', 2, 3), (''/h'', 1, 3)]))\<rparr>) \<noteq> None"
proof -
  let ?es = "[(''/b'', 2, 3), (''/h'', 1, 3)] :: entry list"
  let ?w = "demo_world\<lparr>files := (\<lambda>p. Some (print_all ?es))\<rparr>"
  have "files ?w (frecency_file ''/h'') = Some (print_all ?es)" "list_all entry_ok ?es"
    "\<forall>(p, f, t) \<in> set ?es. 0 \<le> f"
    by (simp_all add: entry_ok_def int32_def LONG_MAX_def is_space_def)
  from frecency_jump_is_best[OF this, of demo_os "''h''"] show ?thesis
    by (auto simp: eligible_def demo_os_def split: option.splits)
qed

text \<open>C12: \<open>snoop\<close> on a process that ends: each row of the table counts the finished calls of its
system call and adds up their durations, and every other signal is delivered once, when the process
is next resumed.\<close>

theorem snoop_counts_calls:
  assumes "Ended \<in> set sts" and "finite S" and "card S \<le> MAX_STATS" and "numbers sts \<subseteq> S"
  shows "\<exists>s'. snoop_loop sts snoop_init = Ok (s', delivered sts 0) \<and>
    (\<forall>n. stat_of n (stats s') =
       (int (length (calls_of n (finished sts None))), sum_list (calls_of n (finished sts None))))"
proof -
  have "stats_ok S snoop_init" "in_syscall snoop_init \<Longrightarrow> current_num snoop_init \<in> S"
    by (simp_all add: snoop_init_def stats_ok_def)
  from snoop_loop_counts[OF assms(2,3,1) this(1) assms(4) this(2)] show ?thesis
    by (auto simp: snoop_init_def in_flight_def stat_of_def)
qed

lemma snoop_counts_calls_witness:
  "\<exists>s' fw. snoop_loop [Sys_stop 1 10, Sys_stop 1 15, Sig_stop 17, Sys_stop 1 20, Sys_stop 1 22, Ended]
       snoop_init = Ok (s', fw) \<and> stat_of 1 (stats s') = (2, 7) \<and> fw = [0, 0, 0, 17, 0, 0]"
proof -
  let ?sts = "[Sys_stop 1 10, Sys_stop 1 15, Sig_stop 17, Sys_stop 1 20, Sys_stop 1 22, Ended]"
  have "Ended \<in> set ?sts" "finite {1}" "card {1} \<le> MAX_STATS" "numbers ?sts \<subseteq> {1}"
    by (auto simp: MAX_STATS_def numbers_def)
  from snoop_counts_calls[OF this] show ?thesis by (auto simp: calls_of_def)
qed

text \<open>C13: \<open>reveal -t\<close> on a directory tree prints the tree: the visible names of each directory in byte
order, each directory followed by its own listing; fuel equal to the depth of the tree is enough.\<close>

theorem reveal_lists_the_tree:
  assumes "shows_tree e path prefx t" and "is_Dir t" and "depth t \<le> fuel"
  shows "reveal_dir fuel e path prefx hidden True = Some (tree_listing hidden prefx t)"
  using assms by (rule reveal_dir_tree)

lemma reveal_lists_the_tree_witness:
  "reveal_dir 2
     \<lparr>readdir = (\<lambda>p. if p = ''d'' then Some [''.'', ''z'', ''..'', ''a''] else Some [''x'']),
      lstat_isdir = (\<lambda>p. p = ''d/a'')\<rparr> ''d'' '''' False True = Some (''a/'' @ nl @ ''a/x'' @ nl @ ''z'' @ nl)"
proof -
  let ?e = "\<lparr>readdir = (\<lambda>p. if p = ''d'' then Some [''.'', ''z'', ''..'', ''a''] else Some [''x'']),
      lstat_isdir = (\<lambda>p. p = ''d/a'')\<rparr>"
  let ?t = "Dir [(''z'', Leaf), (''a'', Dir [(''x'', Leaf)])]"
  have "shows_tree ?e ''d'' '''' ?t" "is_Dir ?t" "depth ?t \<le> 2"
    by (simp_all add: is_Dir_def MAX_DIRENTS_def)
  from reveal_lists_the_tree[OF this] show ?thesis
    by (simp add: is_Dir_def visible_def quote_name_def bytes_def sort_key_def)
qed

text \<open>\<open>peek -r\<close> twice gives a file back unchanged, if it ends in a newline or does not start with
one.\<close>

theorem peek_reverse_twice:
  assumes "c_nul \<notin> set buf" and "buf \<noteq> []" and "last buf = c_nl \<or> hd buf \<noteq> c_nl"
  shows "fst (processing (Bytes (fst (processing (Bytes buf) False True n))) False True m) = buf"
  using assms by (rule processing_reverse_twice)

lemma peek_reverse_twice_witness:
  "fst (processing (Bytes (fst (processing (Bytes (''ab'' @ nl @ ''c'')) False True 1))) False True 1) =
    ''ab'' @ nl @ ''c''"
  by (rule peek_reverse_twice) (simp_all add: nl_def)

text \<open>\<open>locate\<close> prints every executable regular file of the name in the working directory and the
directories of PATH, in that order, and reports the name not found exactly when there is none.\<close>

theorem locate_lists_candidates:
  assumes "getcwd e = Some here" and "getenv_PATH e = Some paths"
    and "list_all (\<lambda>p. length p < 5000) (candidates e False t)"
  shows "locate_one e here paths t =
    (let hits = filter (is_executable_file e) (candidates e False t) in
     if hits = [] then ''locate: command not found ('' @ t @ '')'' @ nl
     else concat (map (\<lambda>p. p @ nl) hits))"
  using assms by (rule locate_one_eq)

lemma locate_lists_candidates_witness:
  "locate_one demo_paths ''/h'' ''/b:/c'' ''x'' = ''/h/x'' @ nl @ ''/b/x'' @ nl @ ''/c/x'' @ nl"
proof -
  have "getcwd demo_paths = Some ''/h''" "getenv_PATH demo_paths = Some ''/b:/c''"
    "list_all (\<lambda>p. length p < 5000) (candidates demo_paths False ''x'')"
    by (simp_all add: demo_paths_def candidates_def path_join_def)
  from locate_lists_candidates[OF this] show ?thesis
    by (simp add: demo_paths_def candidates_def path_join_def is_executable_file_def)
qed

end
