(* ===== verification/K_Lock.thy ===== *)
theory K_Lock
  imports Prelude
begin

text \<open>
  Spinlocks, \<open>xv6/kernel/spinlock.c\<close>.  First the code as it is: \<open>struct spinlock\<close> and the fields
  \<open>noff\<close> and \<open>intena\<close> of \<open>struct cpu\<close> with the interrupt-enable bit of each hart, one definition per
  function.  Then \<open>acquire\<close> and \<open>release\<close> split at their atomic accesses, any harts interleaved.
  Last the view one hart has of its own locks, the state the sequential models of the kernel use.
\<close>

section \<open>The code\<close>

text \<open>Sleep locks belong to the buffers of the block cache, to the inodes of the inode table and to the UART.\<close>

datatype slockid = SL_buf nat | SL_inode nat | SL_uart

datatype lockid =
    L_pid | L_wait | L_proc nat | L_kmem | L_ticks | L_cons | L_pr | L_uart
  | L_pipe "64 word" | L_ftable | L_itable | L_bcache | L_log | L_sleep slockid | L_disk

record spinlock =
  locked :: bool
  lk_cpu :: "nat option"

record hart =
  noff :: int
  intena :: bool
  sie :: bool

record mach =
  locks :: "lockid \<Rightarrow> spinlock"
  harts :: "nat \<Rightarrow> hart"

definition upd_hart :: "nat \<Rightarrow> (hart \<Rightarrow> hart) \<Rightarrow> 'a mach_scheme \<Rightarrow> 'a mach_scheme" where
  "upd_hart h f m = m\<lparr>harts := (harts m)(h := f (harts m h))\<rparr>"

definition upd_lock :: "lockid \<Rightarrow> (spinlock \<Rightarrow> spinlock) \<Rightarrow> 'a mach_scheme \<Rightarrow> 'a mach_scheme" where
  "upd_lock l f m = m\<lparr>locks := (locks m)(l := f (locks m l))\<rparr>"

definition initlock :: "lockid \<Rightarrow> 'a mach_scheme \<Rightarrow> 'a mach_scheme" where
  "initlock l m = upd_lock l (\<lambda>k. k\<lparr>locked := False, lk_cpu := None\<rparr>) m"

definition holding :: "nat \<Rightarrow> lockid \<Rightarrow> 'a mach_scheme \<Rightarrow> bool" where
  "holding h l m \<longleftrightarrow> locked (locks m l) \<and> lk_cpu (locks m l) = Some h"

definition push_off :: "nat \<Rightarrow> 'a mach_scheme \<Rightarrow> 'a mach_scheme res" where
  "push_off h m =
     (let old = sie (harts m h);
          m = upd_hart h (\<lambda>c. c\<lparr>sie := False\<rparr>) m;
          m = (if noff (harts m h) = 0 then upd_hart h (\<lambda>c. c\<lparr>intena := old\<rparr>) m else m)
      in bnd (sadd32 (noff (harts m h)) 1) (\<lambda>n. Ok (upd_hart h (\<lambda>c. c\<lparr>noff := n\<rparr>) m)))"

definition pop_off :: "nat \<Rightarrow> 'a mach_scheme \<Rightarrow> 'a mach_scheme res" where
  "pop_off h m =
     bnd (assertk (\<not> sie (harts m h)) ''pop_off - interruptible'') (\<lambda>_.
     bnd (assertk (1 \<le> noff (harts m h)) ''pop_off'') (\<lambda>_.
       let m = upd_hart h (\<lambda>c. c\<lparr>noff := noff c - 1\<rparr>) m in
       Ok (if noff (harts m h) = 0 \<and> intena (harts m h)
           then upd_hart h (\<lambda>c. c\<lparr>sie := True\<rparr>) m else m)))"

text \<open>\<open>Spin\<close>: another hart has the lock, and this one goes round the exchange until it is free.\<close>

definition acquire_hw :: "nat \<Rightarrow> lockid \<Rightarrow> 'a mach_scheme \<Rightarrow> 'a mach_scheme res" where
  "acquire_hw h l m =
     bnd (push_off h m) (\<lambda>m.
     bnd (assertk (\<not> holding h l m) ''acquire'') (\<lambda>_.
       if locked (locks m l) then Spin
       else Ok (upd_lock l (\<lambda>k. k\<lparr>locked := True, lk_cpu := Some h\<rparr>) m)))"

definition release_hw :: "nat \<Rightarrow> lockid \<Rightarrow> 'a mach_scheme \<Rightarrow> 'a mach_scheme res" where
  "release_hw h l m =
     bnd (assertk (holding h l m) ''release'') (\<lambda>_.
       pop_off h (upd_lock l (\<lambda>k. k\<lparr>lk_cpu := None, locked := False\<rparr>) m))"

lemma upd_hart_simps [simp]:
  "harts (upd_hart h f m) = (harts m)(h := f (harts m h))" "locks (upd_hart h f m) = locks m"
  by (simp_all add: upd_hart_def)

lemma upd_lock_simps [simp]:
  "locks (upd_lock l f m) = (locks m)(l := f (locks m l))" "harts (upd_lock l f m) = harts m"
  by (simp_all add: upd_lock_def)

lemma push_off_Ok:
  "push_off h m = Ok m' \<Longrightarrow>
   locks m' = locks m \<and> noff (harts m' h) = noff (harts m h) + 1 \<and> \<not> sie (harts m' h) \<and>
   intena (harts m' h) = (if noff (harts m h) = 0 then sie (harts m h) else intena (harts m h)) \<and>
   (\<forall>k. k \<noteq> h \<longrightarrow> harts m' k = harts m k)"
  by (auto simp: push_off_def Let_def bnd_eq_Ok sadd32_def split: if_splits)

lemma pop_off_Ok:
  "pop_off h m = Ok m' \<Longrightarrow>
   locks m' = locks m \<and> noff (harts m' h) = noff (harts m h) - 1 \<and> 1 \<le> noff (harts m h) \<and>
   \<not> sie (harts m h) \<and> sie (harts m' h) = (noff (harts m h) = 1 \<and> intena (harts m h)) \<and>
   intena (harts m' h) = intena (harts m h) \<and>
   (\<forall>k. k \<noteq> h \<longrightarrow> harts m' k = harts m k)"
  by (auto simp: pop_off_def Let_def bnd_assertk split: if_splits)

section \<open>Any harts interleaved\<close>

text \<open>
  Where a hart is: outside the two functions, spinning at the exchange, between the exchange and
  \<open>lk->cpu = mycpu()\<close>, between \<open>lk->cpu = 0\<close> and the store to \<open>lk->locked\<close>.
\<close>

datatype lpc = Out | Spinning lockid | Won lockid | Dropping lockid

record conc = mach +
  pcs :: "nat \<Rightarrow> lpc"
  owns :: "nat \<Rightarrow> lockid set"

text \<open>\<open>owns\<close> is a ghost: the locks between the hart's exchange and its store of 0.\<close>

definition set_pc :: "nat \<Rightarrow> lpc \<Rightarrow> conc \<Rightarrow> conc" where
  "set_pc h p m = m\<lparr>pcs := (pcs m)(h := p)\<rparr>"

inductive lock_step :: "conc \<Rightarrow> conc \<Rightarrow> bool" where
  acquire_begin:
    "pcs m h = Out \<Longrightarrow> push_off h m = Ok m' \<Longrightarrow> \<not> holding h l m' \<Longrightarrow>
     lock_step m (set_pc h (Spinning l) m')"
| acquire_exchange:
    "pcs m h = Spinning l \<Longrightarrow> \<not> locked (locks m l) \<Longrightarrow>
     lock_step m (set_pc h (Won l)
       ((upd_lock l (\<lambda>k. k\<lparr>locked := True\<rparr>) m)\<lparr>owns := (owns m)(h := insert l (owns m h))\<rparr>))"
| acquire_end:
    "pcs m h = Won l \<Longrightarrow>
     lock_step m (set_pc h Out (upd_lock l (\<lambda>k. k\<lparr>lk_cpu := Some h\<rparr>) m))"
| release_begin:
    "pcs m h = Out \<Longrightarrow> holding h l m \<Longrightarrow>
     lock_step m (set_pc h (Dropping l) (upd_lock l (\<lambda>k. k\<lparr>lk_cpu := None\<rparr>) m))"
| release_end:
    "pcs m h = Dropping l \<Longrightarrow>
     pop_off h ((upd_lock l (\<lambda>k. k\<lparr>locked := False\<rparr>) m)\<lparr>owns := (owns m)(h := owns m h - {l})\<rparr>) = Ok m' \<Longrightarrow>
     lock_step m (set_pc h Out m')"

inductive lock_reach :: "conc \<Rightarrow> conc \<Rightarrow> bool" where
  lock_refl: "lock_reach m m"
| lock_more: "lock_reach m m' \<Longrightarrow> lock_step m' m'' \<Longrightarrow> lock_reach m m''"

definition depth_of :: "lpc \<Rightarrow> int" where
  "depth_of p = (case p of Spinning _ \<Rightarrow> 1 | _ \<Rightarrow> 0)"

definition lock_inv :: "conc \<Rightarrow> bool" where
  "lock_inv m \<longleftrightarrow>
     (\<forall>l. locked (locks m l) \<longleftrightarrow> (\<exists>h. l \<in> owns m h)) \<and>
     (\<forall>h k l. l \<in> owns m h \<and> l \<in> owns m k \<longrightarrow> h = k) \<and>
     (\<forall>h l. lk_cpu (locks m l) = Some h \<longleftrightarrow> l \<in> owns m h \<and> pcs m h \<noteq> Won l \<and> pcs m h \<noteq> Dropping l) \<and>
     (\<forall>h l. pcs m h = Won l \<or> pcs m h = Dropping l \<longrightarrow> l \<in> owns m h) \<and>
     (\<forall>h. finite (owns m h) \<and> noff (harts m h) = int (card (owns m h)) + depth_of (pcs m h)) \<and>
     (\<forall>h. 0 < noff (harts m h) \<longrightarrow> \<not> sie (harts m h))"

lemma push_off_conc: "push_off h m = Ok m' \<Longrightarrow> pcs m' = pcs m \<and> owns m' = owns m"
  by (auto simp: push_off_def Let_def bnd_eq_Ok upd_hart_def split: if_splits)

lemma pop_off_conc: "pop_off h m = Ok m' \<Longrightarrow> pcs m' = pcs m \<and> owns m' = owns m"
  by (auto simp: pop_off_def Let_def bnd_assertk upd_hart_def split: if_splits)

lemma set_pc_simps [simp]:
  "pcs (set_pc h p m) = (pcs m)(h := p)" "owns (set_pc h p m) = owns m"
  "locks (set_pc h p m) = locks m" "harts (set_pc h p m) = harts m"
  by (simp_all add: set_pc_def)

lemma upd_lock_conc [simp]:
  "pcs (upd_lock l f m) = pcs m" "owns (upd_lock l f m) = owns m"
  by (simp_all add: upd_lock_def)

lemma push_off_frame:
  assumes "push_off h m = Ok m'"
  obtains c where "pcs m' = pcs m" "owns m' = owns m" "locks m' = locks m"
    "harts m' = (harts m)(h := c)" "noff c = noff (harts m h) + 1" "\<not> sie c"
proof
  show "harts m' = (harts m)(h := harts m' h)" using push_off_Ok[OF assms] by (auto simp: fun_eq_iff)
qed (use push_off_conc[OF assms] push_off_Ok[OF assms] in auto)

lemma pop_off_frame:
  assumes "pop_off h m = Ok m'"
  obtains c where "pcs m' = pcs m" "owns m' = owns m" "locks m' = locks m"
    "harts m' = (harts m)(h := c)" "noff c = noff (harts m h) - 1" "\<not> sie (harts m h)"
    "sie c = (noff (harts m h) = 1 \<and> intena (harts m h))"
proof
  show "harts m' = (harts m)(h := harts m' h)" using pop_off_Ok[OF assms] by (auto simp: fun_eq_iff)
qed (use pop_off_conc[OF assms] pop_off_Ok[OF assms] in auto)

text \<open>The invariant, conjunct by conjunct.\<close>

definition inv_owner :: "conc \<Rightarrow> bool" where
  "inv_owner m \<longleftrightarrow>
     (\<forall>l. locked (locks m l) \<longleftrightarrow> (\<exists>h. l \<in> owns m h)) \<and>
     (\<forall>h k l. l \<in> owns m h \<and> l \<in> owns m k \<longrightarrow> h = k) \<and>
     (\<forall>h l. lk_cpu (locks m l) = Some h \<longleftrightarrow> l \<in> owns m h \<and> pcs m h \<noteq> Won l \<and> pcs m h \<noteq> Dropping l) \<and>
     (\<forall>h l. pcs m h = Won l \<or> pcs m h = Dropping l \<longrightarrow> l \<in> owns m h)"

definition inv_depth :: "conc \<Rightarrow> bool" where
  "inv_depth m \<longleftrightarrow>
     (\<forall>h. finite (owns m h) \<and> noff (harts m h) = int (card (owns m h)) + depth_of (pcs m h)) \<and>
     (\<forall>h. 0 < noff (harts m h) \<longrightarrow> \<not> sie (harts m h))"

lemma lock_inv_split: "lock_inv m \<longleftrightarrow> inv_owner m \<and> inv_depth m"
  by (simp add: lock_inv_def inv_owner_def inv_depth_def conj_assoc)

lemma inv_ownerD:
  assumes "inv_owner m"
  shows
    "locked (locks m x) \<longleftrightarrow> (\<exists>k. x \<in> owns m k)"
    "x \<in> owns m k \<Longrightarrow> x \<in> owns m j \<Longrightarrow> k = j"
    "lk_cpu (locks m x) = Some k \<longleftrightarrow> x \<in> owns m k \<and> pcs m k \<noteq> Won x \<and> pcs m k \<noteq> Dropping x"
    "pcs m k = Won x \<or> pcs m k = Dropping x \<Longrightarrow> x \<in> owns m k"
  using assms unfolding inv_owner_def by metis+

lemma inv_owner_step:
  assumes "lock_step m m'" and "inv_owner m"
  shows "inv_owner m'"
  using assms
proof (induction rule: lock_step.induct)
  case (acquire_begin m h m' l)
  obtain c where f: "pcs m' = pcs m" "owns m' = owns m" "locks m' = locks m"
    by (rule push_off_frame[OF acquire_begin.hyps(2)])
  from acquire_begin.prems acquire_begin.hyps(1) show ?case
    unfolding inv_owner_def by (auto simp: f)
next
  case (acquire_exchange m h l)
  from acquire_exchange.prems acquire_exchange.hyps(2) have n: "\<And>k. l \<notin> owns m k"
    unfolding inv_owner_def by metis
  define m' where "m' = set_pc h (Won l)
    ((upd_lock l (\<lambda>k. k\<lparr>locked := True\<rparr>) m)\<lparr>owns := (owns m)(h := insert l (owns m h))\<rparr>)"
  have own: "x \<in> owns m' k \<longleftrightarrow> x \<in> owns m k \<or> k = h \<and> x = l" for k x
    by (auto simp: m'_def)
  have pc: "pcs m' = (pcs m)(h := Won l)" by (simp add: m'_def)
  have lk: "locked (locks m' x) \<longleftrightarrow> x = l \<or> locked (locks m x)"
    "lk_cpu (locks m' x) = lk_cpu (locks m x)" for x by (simp_all add: m'_def)
  note i = inv_ownerD[OF acquire_exchange.prems]
  have "inv_owner m'"
    unfolding inv_owner_def lk i(1) i(3) own pc
  proof (intro conjI allI impI)
    fix x k j assume "(x \<in> owns m k \<or> k = h \<and> x = l) \<and> (x \<in> owns m j \<or> j = h \<and> x = l)"
    then show "k = j" using i(2) n by auto
  next
    fix k x assume "((pcs m)(h := Won l)) k = Won x \<or> ((pcs m)(h := Won l)) k = Dropping x"
    then show "x \<in> owns m k \<or> k = h \<and> x = l" using i(4) by (auto split: if_splits)
  qed (use n acquire_exchange.hyps(1) in auto)
  then show ?case by (simp add: m'_def)
next
  case (acquire_end m h l)
  note i = inv_ownerD[OF acquire_end.prems]
  define m' where "m' = set_pc h Out (upd_lock l (\<lambda>k. k\<lparr>lk_cpu := Some h\<rparr>) m)"
  have fr: "owns m' = owns m" "pcs m' = (pcs m)(h := Out)"
    "locked (locks m' x) = locked (locks m x)"
    "lk_cpu (locks m' x) = (if x = l then Some h else lk_cpu (locks m x))" for x
    by (simp_all add: m'_def)
  have l: "l \<in> owns m h" using i(4) acquire_end.hyps by blast
  have "inv_owner m'"
    unfolding inv_owner_def fr i(1)
  proof (intro conjI allI)
    fix k x
    show "(if x = l then Some h else lk_cpu (locks m x)) = Some k \<longleftrightarrow>
      x \<in> owns m k \<and> ((pcs m)(h := Out)) k \<noteq> Won x \<and> ((pcs m)(h := Out)) k \<noteq> Dropping x"
    proof (cases "k = h")
      case True
      then show ?thesis using l acquire_end.hyps i(3)[of x k] by (cases "x = l") simp_all
    next
      case False
      have "l \<notin> owns m k" using False i(2)[OF l, of k] by blast
      with False show ?thesis using i(3)[of x k] by (cases "x = l") simp_all
    qed
  next
    show "x \<in> owns m k \<and> x \<in> owns m j \<longrightarrow> k = j" for k j x using i(2) by blast
  next
    show "((pcs m)(h := Out)) k = Won x \<or> ((pcs m)(h := Out)) k = Dropping x \<longrightarrow> x \<in> owns m k" for k x
      using i(4)[of k x] by (simp split: if_split)
  qed simp
  then show ?case by (simp add: m'_def)
next
  case (release_begin m h l)
  note i = inv_ownerD[OF release_begin.prems]
  define m' where "m' = set_pc h (Dropping l) (upd_lock l (\<lambda>k. k\<lparr>lk_cpu := None\<rparr>) m)"
  have fr: "owns m' = owns m" "pcs m' = (pcs m)(h := Dropping l)"
    "locked (locks m' x) = locked (locks m x)"
    "lk_cpu (locks m' x) = (if x = l then None else lk_cpu (locks m x))" for x
    by (simp_all add: m'_def)
  have l: "l \<in> owns m h" using i(3) release_begin.hyps(2) by (simp add: holding_def)
  have "inv_owner m'"
    unfolding inv_owner_def fr i(1)
  proof (intro conjI allI)
    fix k x
    show "(if x = l then None else lk_cpu (locks m x)) = Some k \<longleftrightarrow>
      x \<in> owns m k \<and> ((pcs m)(h := Dropping l)) k \<noteq> Won x \<and> ((pcs m)(h := Dropping l)) k \<noteq> Dropping x"
    proof (cases "k = h")
      case True
      then show ?thesis using l release_begin.hyps(1) i(3)[of x k] by (cases "x = l") simp_all
    next
      case False
      have "l \<notin> owns m k" using False i(2)[OF l, of k] by blast
      with False show ?thesis using i(3)[of x k] by (cases "x = l") simp_all
    qed
  next
    show "x \<in> owns m k \<and> x \<in> owns m j \<longrightarrow> k = j" for k j x using i(2) by blast
  next
    show "((pcs m)(h := Dropping l)) k = Won x \<or> ((pcs m)(h := Dropping l)) k = Dropping x \<longrightarrow> x \<in> owns m k" for k x
      using i(4)[of k x] l by auto
  qed simp
  then show ?case by (simp add: m'_def)
next
  case (release_end m h l m')
  obtain c where f: "pcs m' = pcs m" "owns m' = (owns m)(h := owns m h - {l})"
    "locks m' = (locks m)(l := (locks m l)\<lparr>locked := False\<rparr>)"
    by (rule pop_off_frame[OF release_end.hyps(2)]) simp
  note i = inv_ownerD[OF release_end.prems]
  have l: "l \<in> owns m h" using i(4) release_end.hyps(1) by blast
  have u: "l \<in> owns m k \<Longrightarrow> k = h" for k using i(2)[OF l] by blast
  have n: "lk_cpu (locks m l) = None"
    using i(3)[of l] u release_end.hyps(1) by (metis option.exhaust)
  have fr: "pcs (set_pc h Out m') = (pcs m)(h := Out)"
    "x \<in> owns (set_pc h Out m') k \<longleftrightarrow> x \<in> owns m k \<and> x \<noteq> l"
    "locked (locks (set_pc h Out m') x) \<longleftrightarrow> x \<noteq> l \<and> locked (locks m x)"
    "lk_cpu (locks (set_pc h Out m') x) = lk_cpu (locks m x)" for x k
    using u by (auto simp: f)
  show ?case
    unfolding inv_owner_def fr i(1)
  proof (intro conjI allI)
    fix k x
    show "lk_cpu (locks m x) = Some k \<longleftrightarrow>
      (x \<in> owns m k \<and> x \<noteq> l) \<and> ((pcs m)(h := Out)) k \<noteq> Won x \<and> ((pcs m)(h := Out)) k \<noteq> Dropping x"
      using i(3)[of x k] n release_end.hyps(1) by (cases "k = h"; cases "x = l") simp_all
  next
    show "(x \<in> owns m k \<and> x \<noteq> l) \<and> x \<in> owns m j \<and> x \<noteq> l \<longrightarrow> k = j" for k j x using i(2) by blast
  next
    show "((pcs m)(h := Out)) k = Won x \<or> ((pcs m)(h := Out)) k = Dropping x \<longrightarrow> x \<in> owns m k \<and> x \<noteq> l" for k x
      using i(4)[of k x] u[of k] by (auto split: if_splits)
  next
    show "(x \<noteq> l \<and> (\<exists>k. x \<in> owns m k)) = (\<exists>k. x \<in> owns m k \<and> x \<noteq> l)" for x by blast
  qed
qed

lemma inv_depth_step:
  assumes "lock_step m m'" and "inv_owner m" and "inv_depth m"
  shows "inv_depth m'"
  using assms
proof (induction rule: lock_step.induct)
  case (acquire_begin m h m' l)
  obtain c where f: "pcs m' = pcs m" "owns m' = owns m" "harts m' = (harts m)(h := c)"
    "noff c = noff (harts m h) + 1" "\<not> sie c"
    by (rule push_off_frame[OF acquire_begin.hyps(2)])
  from acquire_begin.prems(2) acquire_begin.hyps(1) show ?case
    unfolding inv_depth_def by (auto simp: f depth_of_def)
next
  case (acquire_exchange m h l)
  from acquire_exchange.prems(1) acquire_exchange.hyps(2) have n: "l \<notin> owns m h"
    unfolding inv_owner_def by metis
  from acquire_exchange.prems(2) acquire_exchange.hyps(1) n show ?case
    unfolding inv_depth_def by (auto simp: depth_of_def)
next
  case (acquire_end m h l)
  then show ?case unfolding inv_depth_def by (auto simp: depth_of_def)
next
  case (release_begin m h l)
  then show ?case unfolding inv_depth_def by (auto simp: depth_of_def)
next
  case (release_end m h l m')
  obtain c where f: "pcs m' = pcs m" "owns m' = (owns m)(h := owns m h - {l})"
    "harts m' = (harts m)(h := c)" "noff c = noff (harts m h) - 1"
    "sie c = (noff (harts m h) = 1 \<and> intena (harts m h))"
    by (rule pop_off_frame[OF release_end.hyps(2)]) simp
  from release_end.prems(1) release_end.hyps(1) have n: "l \<in> owns m h"
    unfolding inv_owner_def by metis
  have d: "finite (owns m h)" "noff (harts m h) = int (card (owns m h))"
    using release_end.prems(2) release_end.hyps(1) unfolding inv_depth_def by (auto simp: depth_of_def)
  have "0 < card (owns m h)" using d(1) n by (auto simp: card_gt_0_iff)
  then have "int (card (owns m h - {l})) = int (card (owns m h)) - 1"
    using d(1) n by (simp add: card_Diff_singleton of_nat_diff)
  with release_end.prems(2) release_end.hyps(1) d show ?case
    unfolding inv_depth_def by (auto simp: f depth_of_def split: if_splits)
qed

lemma lock_inv_step: "lock_step m m' \<Longrightarrow> lock_inv m \<Longrightarrow> lock_inv m'"
  using inv_owner_step inv_depth_step by (simp add: lock_inv_split)

lemma lock_inv_reach: "lock_reach m m' \<Longrightarrow> lock_inv m \<Longrightarrow> lock_inv m'"
  by (induction rule: lock_reach.induct) (auto intro: lock_inv_step)

text \<open>All locks initialised, all harts outside with interrupts as they are.\<close>

definition lock_start :: "conc \<Rightarrow> bool" where
  "lock_start m \<longleftrightarrow>
     (\<forall>l. \<not> locked (locks m l) \<and> lk_cpu (locks m l) = None) \<and>
     (\<forall>h. pcs m h = Out \<and> owns m h = {} \<and> noff (harts m h) = 0)"

lemma lock_inv_start: "lock_start m \<Longrightarrow> lock_inv m"
  by (simp add: lock_start_def lock_inv_def depth_of_def)

text \<open>\<open>holding\<close> is exact for a hart outside the two functions.\<close>

lemma holding_iff_owns:
  "lock_inv m \<Longrightarrow> pcs m h = Out \<Longrightarrow> holding h l m \<longleftrightarrow> l \<in> owns m h"
  unfolding lock_inv_def holding_def by (metis lpc.distinct(3) lpc.distinct(5))

lemma owned_exclusive:
  "lock_inv m \<Longrightarrow> l \<in> owns m h \<Longrightarrow> l \<in> owns m k \<Longrightarrow> h = k"
  unfolding lock_inv_def by metis

lemma owner_quiet: "lock_inv m \<Longrightarrow> l \<in> owns m h \<Longrightarrow> \<not> sie (harts m h)"
proof -
  assume inv: "lock_inv m" and l: "l \<in> owns m h"
  have c: "finite (owns m h)" "noff (harts m h) = int (card (owns m h)) + depth_of (pcs m h)"
    using inv unfolding lock_inv_def by auto
  have "0 < card (owns m h)" using c(1) l by (auto simp: card_gt_0_iff)
  moreover have "0 \<le> depth_of (pcs m h)" by (simp add: depth_of_def split: lpc.split)
  ultimately show ?thesis using inv c(2) unfolding lock_inv_def by auto
qed

section \<open>The locks of one hart\<close>

text \<open>
  The rest of the kernel is modelled one hart at a time: \<open>held\<close> is the stack of locks the hart has
  acquired and not released, so \<open>mycpu()->noff\<close> is its length, and \<open>irq\<close> is whether interrupts are on
  when it is empty.  Acquiring a lock another hart has waits until that hart drops it.
\<close>

record kst =
  held :: "lockid list"
  irq :: bool

definition acquire :: "lockid \<Rightarrow> 'a kst_scheme \<Rightarrow> 'a kst_scheme res" where
  "acquire l s = bnd (assertk (l \<notin> set (held s)) ''acquire'') (\<lambda>_. Ok (s\<lparr>held := l # held s\<rparr>))"

definition release :: "lockid \<Rightarrow> 'a kst_scheme \<Rightarrow> 'a kst_scheme res" where
  "release l s = bnd (assertk (l \<in> set (held s)) ''release'') (\<lambda>_. Ok (s\<lparr>held := remove1 l (held s)\<rparr>))"

definition intr_get :: "'a kst_scheme \<Rightarrow> bool" where
  "intr_get s \<longleftrightarrow> held s = [] \<and> irq s"

lemma acquire_Ok: "acquire l s = Ok t \<longleftrightarrow> l \<notin> set (held s) \<and> t = s\<lparr>held := l # held s\<rparr>"
  by (auto simp: acquire_def bnd_assertk)

lemma release_Ok: "release l s = Ok t \<longleftrightarrow> l \<in> set (held s) \<and> t = s\<lparr>held := remove1 l (held s)\<rparr>"
  by (auto simp: release_def bnd_assertk)

lemma acquire_free [simp]: "l \<notin> set (held s) \<Longrightarrow> acquire l s = Ok (s\<lparr>held := l # held s\<rparr>)"
  by (simp add: acquire_Ok)

lemma acquire_held [simp]: "l \<in> set (held s) \<Longrightarrow> acquire l s = Panic ''acquire''"
  by (simp add: acquire_def)

lemma release_top [simp]: "held s = l # ls \<Longrightarrow> release l s = Ok (s\<lparr>held := ls\<rparr>)"
  by (simp add: release_Ok)

text \<open>The one-hart state is a view of the machine.\<close>

definition hart_view :: "nat \<Rightarrow> 'a mach_scheme \<Rightarrow> 'b kst_scheme \<Rightarrow> bool" where
  "hart_view h m s \<longleftrightarrow>
     (\<forall>l. holding h l m \<longleftrightarrow> l \<in> set (held s)) \<and> distinct (held s) \<and>
     noff (harts m h) = int (length (held s)) \<and>
     (sie (harts m h) \<longleftrightarrow> intr_get s) \<and> (held s \<noteq> [] \<longrightarrow> (intena (harts m h) \<longleftrightarrow> irq s))"

definition res_rel :: "('a \<Rightarrow> 'b \<Rightarrow> bool) \<Rightarrow> 'a res \<Rightarrow> 'b res \<Rightarrow> bool" where
  "res_rel R x y \<longleftrightarrow>
     (case x of Ok a \<Rightarrow> (case y of Ok b \<Rightarrow> R a b | _ \<Rightarrow> False) | Panic e \<Rightarrow> y = Panic e | Undef e \<Rightarrow> y = Undef e
      | Spin \<Rightarrow> True)"

lemma res_rel_simps [simp]:
  "res_rel R (Ok a) (Ok b) = R a b" "res_rel R (Panic e) (Panic e')  = (e = e')"
  "res_rel R Spin y" "\<not> res_rel R (Ok a) (Panic e)" "\<not> res_rel R (Panic e) (Ok b)"
  by (auto simp: res_rel_def)

lemma hw_acquire:
  assumes v: "hart_view h m s" and n: "int (length (held s)) < INT_MAX"
  shows "res_rel (hart_view h) (acquire_hw h l m) (acquire l s)"
proof -
  have "\<exists>m'. push_off h m = Ok m'"
    using v n by (simp add: push_off_def Let_def sadd32_def hart_view_def INT_MAX_def)
  then obtain m' where p: "push_off h m = Ok m'" ..
  note q = push_off_Ok[OF p]
  have hl: "holding h x m' \<longleftrightarrow> x \<in> set (held s)" for x
    using q v by (simp add: holding_def hart_view_def)
  have en: "intena (harts m' h) \<longleftrightarrow> irq s"
    using q v by (auto simp: hart_view_def intr_get_def)
  show ?thesis
  proof (cases "l \<in> set (held s)")
    case True
    then show ?thesis by (simp add: acquire_hw_def p hl)
  next
    case False
    show ?thesis
    proof (cases "locked (locks m' l)")
      case True
      with False show ?thesis by (simp add: acquire_hw_def p hl)
    next
      case free: False
      have "hart_view h (upd_lock l (\<lambda>k. k\<lparr>locked := True, lk_cpu := Some h\<rparr>) m') (s\<lparr>held := l # held s\<rparr>)"
        using False q v hl en by (auto simp: hart_view_def intr_get_def holding_def)
      with False free show ?thesis by (simp add: acquire_hw_def p hl)
    qed
  qed
qed

lemma hw_release:
  assumes v: "hart_view h m s"
  shows "res_rel (hart_view h) (release_hw h l m) (release l s)"
proof (cases "l \<in> set (held s)")
  case False
  with v show ?thesis by (simp add: release_hw_def release_def hart_view_def)
next
  case True
  define m1 where "m1 = upd_lock l (\<lambda>k. k\<lparr>lk_cpu := None, locked := False\<rparr>) m"
  have h1: "harts m1 = harts m" by (simp add: m1_def)
  have ne: "held s \<noteq> []" using True by auto
  have noff: "noff (harts m h) = int (length (held s))" using v by (simp add: hart_view_def)
  have len: "length (remove1 l (held s)) = length (held s) - 1" using True by (simp add: length_remove1)
  have ge: "1 \<le> length (held s)" using ne by (cases "held s") auto
  have "\<exists>m'. pop_off h m1 = Ok m'"
    using v ge ne by (simp add: pop_off_def Let_def h1 hart_view_def intr_get_def)
  then obtain m' where p: "pop_off h m1 = Ok m'" ..
  note q = pop_off_Ok[OF p, unfolded h1]
  have hl: "holding h x m' \<longleftrightarrow> x \<in> set (remove1 l (held s))" for x
    using q v by (auto simp: holding_def hart_view_def m1_def)
  have em: "remove1 l (held s) = [] \<longleftrightarrow> length (held s) = 1"
    using len ge by (metis One_nat_def diff_Suc_1 diff_is_0_eq le_antisym length_0_conv)
  have "hart_view h m' (s\<lparr>held := remove1 l (held s)\<rparr>)"
    unfolding hart_view_def intr_get_def
    using q hl v noff ne len ge by (auto simp: em hart_view_def of_nat_diff)
  moreover have "holding h l m" using True v by (simp add: hart_view_def)
  ultimately show ?thesis using True by (simp add: release_hw_def release_def p flip: m1_def)
qed

end
