(* ===== verification/K_Printk.thy ===== *)
theory K_Printk
  imports K_Lock
begin

text \<open>
  \<open>xv6/kernel/printk.c\<close>.  The console is the string of the characters put out so far; a variadic
  argument is a 32-bit or a 64-bit word or a string (None is a null pointer), and reading one at
  another type than it was passed is undefined.
\<close>

section \<open>The code\<close>

record out_st = kst +
  kout :: string
  panicking :: bool

definition consputc :: "char \<Rightarrow> 'a out_st_scheme \<Rightarrow> 'a out_st_scheme" where
  "consputc c s = s\<lparr>kout := kout s @ [c]\<rparr>"

definition digits :: string where "digits = ''0123456789abcdef''"

lemma div_shrinks: "2 \<le> b \<Longrightarrow> x div b \<noteq> 0 \<Longrightarrow> x div b < (x :: nat)"
  by (cases "x = 0") auto

text \<open>The digits as the loop of \<open>printint\<close> stores them, the last one first.\<close>

function digit_loop :: "nat \<Rightarrow> nat \<Rightarrow> string" where
  "digit_loop base x =
     (if base < 2 then [] else
      digits ! (x mod base) # (if x div base \<noteq> 0 then digit_loop base (x div base) else []))"
  by auto
termination
  by (relation "measure snd") (simp_all add: div_shrinks)

declare digit_loop.simps [simp del]

text \<open>
  \<open>xx\<close> is a \<open>long long\<close>, so it is compared as a signed number and \<open>- xx\<close> overflows for the least one;
  \<open>x\<close> is the \<open>unsigned long long\<close> of the same 64 bits.  \<open>buf\<close> has 20 characters.
\<close>

definition printint :: "64 word \<Rightarrow> nat \<Rightarrow> bool \<Rightarrow> string res" where
  "printint xx base sign =
     bnd (guard (\<not> (sign \<and> sint xx = - (2 ^ 63))) ''signed overflow'') (\<lambda>_.
       let minus = (sign \<and> sint xx < 0);
           x = (if minus then - xx else xx);
           buf = digit_loop base (unat x);
           buf = (if minus then buf @ ''-'' else buf)
       in bnd (guard (length buf \<le> 20) ''buf overflow'') (\<lambda>_. Ok (rev buf)))"

text \<open>\<open>printptr\<close>: sixteen digits, the highest first.\<close>

definition printptr :: "64 word \<Rightarrow> string" where
  "printptr x = ''0x'' @ map (\<lambda>i. digits ! unat (drop_bit 60 (push_bit (4 * i) x))) [0..<16]"

datatype karg = A32 "32 word" | A64 "64 word" | AStr "string option"

text \<open>
  The three ways a number is read for \<open>printint\<close>, with its conversion to \<open>long long\<close>: an \<open>int\<close> is
  extended with its sign, a \<open>uint32\<close> with zeros, a \<open>uint64\<close> keeps its bits.
\<close>

definition va_int :: "karg list \<Rightarrow> (64 word \<times> karg list) res" where
  "va_int ap = (case ap of A32 w # r \<Rightarrow> Ok (scast w, r) | _ \<Rightarrow> Undef ''va_arg'')"

definition va_uint :: "karg list \<Rightarrow> (64 word \<times> karg list) res" where
  "va_uint ap = (case ap of A32 w # r \<Rightarrow> Ok (ucast w, r) | _ \<Rightarrow> Undef ''va_arg'')"

definition va_64 :: "karg list \<Rightarrow> (64 word \<times> karg list) res" where
  "va_64 ap = (case ap of A64 w # r \<Rightarrow> Ok (w, r) | _ \<Rightarrow> Undef ''va_arg'')"

definition va_ptr :: "karg list \<Rightarrow> (64 word \<times> karg list) res" where
  "va_ptr ap = (case ap of A64 w # r \<Rightarrow> Ok (w, r) | _ \<Rightarrow> Undef ''va_arg'')"

definition va_str :: "karg list \<Rightarrow> (string \<times> karg list) res" where
  "va_str ap = (case ap of AStr s # r \<Rightarrow> Ok (case s of None \<Rightarrow> ''(null)'' | Some t \<Rightarrow> t, r) | _ \<Rightarrow> Undef ''va_arg'')"

text \<open>The conversion after a \<open>%\<close>: what it prints, how many characters it takes, the arguments left.\<close>

definition nth0 :: "string \<Rightarrow> nat \<Rightarrow> char" where
  "nth0 s i = (if i < length s then s ! i else c_nul)"

text \<open>What \<open>consputc\<close> puts out for an \<open>int\<close>: \<open>BACKSPACE\<close>, 0x100, rubs out a character.\<close>

definition putc_text :: "nat \<Rightarrow> string" where
  "putc_text c = (if c = 0x100 then [CHR 0x08, c_space, CHR 0x08] else [char_of c])"

definition conversion :: "string \<Rightarrow> karg list \<Rightarrow> (string \<times> nat \<times> karg list) res" where
  "conversion f ap =
     (let c0 = nth0 f 0;
          c1 = (if c0 \<noteq> c_nul then nth0 f 1 else c_nul);
          c2 = (if c1 \<noteq> c_nul then nth0 f 2 else c_nul);
          num = (\<lambda>arg base sign n. bnd arg (\<lambda>(x, ap). bnd (printint x base sign) (\<lambda>t. Ok (t, n, ap))))
      in
      if c0 = CHR ''d'' then num (va_int ap) 10 True 1
      else if c0 = CHR ''l'' \<and> c1 = CHR ''d'' then num (va_64 ap) 10 True 2
      else if c0 = CHR ''l'' \<and> c1 = CHR ''l'' \<and> c2 = CHR ''d'' then num (va_64 ap) 10 True 3
      else if c0 = CHR ''u'' then num (va_uint ap) 10 False 1
      else if c0 = CHR ''l'' \<and> c1 = CHR ''u'' then num (va_64 ap) 10 False 2
      else if c0 = CHR ''l'' \<and> c1 = CHR ''l'' \<and> c2 = CHR ''u'' then num (va_64 ap) 10 False 3
      else if c0 = CHR ''x'' then num (va_uint ap) 16 False 1
      else if c0 = CHR ''l'' \<and> c1 = CHR ''x'' then num (va_64 ap) 16 False 2
      else if c0 = CHR ''l'' \<and> c1 = CHR ''l'' \<and> c2 = CHR ''x'' then num (va_64 ap) 16 False 3
      else if c0 = CHR ''p'' then bnd (va_ptr ap) (\<lambda>(x, ap). Ok (printptr x, 1, ap))
      else if c0 = CHR ''c'' then bnd (va_uint ap) (\<lambda>(x, ap). Ok (putc_text (unat x), 1, ap))
      else if c0 = CHR ''s'' then bnd (va_str ap) (\<lambda>(t, ap). Ok (t, 1, ap))
      else if c0 = CHR ''%'' then Ok (''%'', 1, ap)
      else Ok ([CHR ''%'', c0], 1, ap))"

text \<open>The text the loop of \<open>printk\<close> puts out; a \<open>%\<close> at the end of the format ends it.\<close>

function printk_text :: "string \<Rightarrow> karg list \<Rightarrow> string res" where
  "printk_text [] ap = Ok []"
| "printk_text (c # f) ap =
     (if c \<noteq> CHR ''%'' then bnd (printk_text f ap) (\<lambda>t. Ok (c # t))
      else if f = [] then Ok []
      else bnd (conversion f ap) (\<lambda>(t, n, ap).
             bnd (printk_text (drop n f) ap) (\<lambda>u. Ok (t @ u))))"
  by pat_completeness auto
termination
  by (relation "measure (length \<circ> fst)") auto

definition put_string :: "string \<Rightarrow> 'a out_st_scheme \<Rightarrow> 'a out_st_scheme" where
  "put_string t s = foldl (\<lambda>s c. consputc c s) s t"

definition printk :: "string \<Rightarrow> karg list \<Rightarrow> 'a out_st_scheme \<Rightarrow> 'a out_st_scheme res" where
  "printk fmt ap s =
     bnd (if panicking s then Ok s else acquire L_pr s) (\<lambda>s.
     bnd (printk_text fmt ap) (\<lambda>t.
       let s = put_string t s in
       if panicking s then Ok s else release L_pr s))"

text \<open>What \<open>panic\<close> leaves on the console before it stops the machine.\<close>

definition panic_out :: "string \<Rightarrow> 'a out_st_scheme \<Rightarrow> 'a out_st_scheme res" where
  "panic_out e s =
     bnd (printk ''panic: '' [] (s\<lparr>panicking := True\<rparr>)) (printk (''%s'' @ nl) [AStr (Some e)])"

section \<open>Numbers\<close>

text \<open>The value of a string of digits, the first the highest.\<close>

fun digit_val :: "char \<Rightarrow> nat" where
  "digit_val c = (if of_char c \<le> (57 :: nat) then of_char c - 48 else of_char c - 87)"

definition number :: "nat \<Rightarrow> string \<Rightarrow> nat" where
  "number base = foldl (\<lambda>n c. base * n + digit_val c) 0"

lemma digit_val_digits: "d < 16 \<Longrightarrow> digit_val (digits ! d) = d"
proof -
  assume "d < 16"
  then have "d = 0 \<or> d = 1 \<or> d = 2 \<or> d = 3 \<or> d = 4 \<or> d = 5 \<or> d = 6 \<or> d = 7 \<or> d = 8 \<or> d = 9 \<or>
    d = 10 \<or> d = 11 \<or> d = 12 \<or> d = 13 \<or> d = 14 \<or> d = 15" by arith
  then show ?thesis by (auto simp: digits_def)
qed

lemma digit_loop_number:
  assumes "2 \<le> base" "base \<le> 16" shows "number base (rev (digit_loop base x)) = x"
proof (induction x rule: less_induct)
  case (less x)
  have d: "digit_val (digits ! (x mod base)) = x mod base"
    by (rule digit_val_digits) (use assms in \<open>auto intro: order.strict_trans2[OF mod_less_divisor]\<close>)
  show ?case
  proof (cases "x div base = 0")
    case True
    then show ?thesis using assms d by (subst digit_loop.simps) (simp add: number_def div_eq_0_iff)
  next
    case False
    then have "x div base < x" by (rule div_shrinks[OF assms(1)])
    from less.IH[OF this] have "base * number base (rev (digit_loop base (x div base))) = base * (x div base)" by simp
    then show ?thesis using False assms d by (subst digit_loop.simps) (simp add: number_def)
  qed
qed

lemma digit_loop_length:
  assumes "2 \<le> base" "x < base ^ n" "0 < n" shows "length (digit_loop base x) \<le> n"
  using assms(2,3)
proof (induction n arbitrary: x)
  case (Suc n)
  show ?case
  proof (cases "x div base = 0")
    case True
    then show ?thesis using assms(1) by (subst digit_loop.simps) simp
  next
    case False
    have "x div base < base ^ n" using Suc.prems(1) assms(1) by (simp add: less_mult_imp_div_less mult.commute)
    moreover have "0 < n" using False calculation by (cases n) auto
    ultimately show ?thesis using Suc.IH False assms(1) by (subst digit_loop.simps) simp
  qed
qed simp

text \<open>The number \<open>printint\<close> is asked to print: its 64 bits, signed or not.\<close>

definition print_value :: "64 word \<Rightarrow> bool \<Rightarrow> int" where
  "print_value xx sign = (if sign then sint xx else uint xx)"

lemma uint_of_sint: "uint (x :: 64 word) = (if sint x < 0 then sint x + 2 ^ 64 else sint x)"
proof -
  have u: "uint x = sint x mod 2 ^ 64" by (simp add: uint_sint take_bit_eq_mod)
  have b: "- (2 ^ 63) \<le> sint x" "sint x < 2 ^ 63" using sint_ge[of x] sint_lt[of x] by simp_all
  show ?thesis
  proof (cases "sint x < 0")
    case True
    have "sint x mod 2 ^ 64 = (sint x + 2 ^ 64) mod 2 ^ 64" by simp
    also have "\<dots> = sint x + 2 ^ 64" using True b(1) by (intro mod_pos_pos_trivial) simp_all
    finally show ?thesis using u True by simp
  next
    case False
    then have "sint x mod 2 ^ 64 = sint x" using b(2) by (intro mod_pos_pos_trivial) simp_all
    then show ?thesis using u False by simp
  qed
qed

lemma uint_minus_neg:
  assumes "sint (x :: 64 word) < 0"
  shows "uint (- x) = - sint x"
proof -
  have b: "- (2 ^ 63) \<le> sint x" using sint_ge[of x] by simp
  have "uint (- x) = (- uint x) mod 2 ^ 64" by (simp add: uint_word_ariths(4))
  also have "\<dots> = (- sint x + (- 1) * 2 ^ 64) mod 2 ^ 64" using assms by (simp add: uint_of_sint)
  also have "\<dots> = - sint x mod 2 ^ 64" by (simp only: mod_mult_self1)
  also have "\<dots> = - sint x" using assms b by (intro mod_pos_pos_trivial) simp_all
  finally show ?thesis .
qed

lemma print_magnitude:
  "unat (if sign \<and> sint xx < 0 then - xx else xx) = nat \<bar>print_value xx sign\<bar>"
proof (cases "sign \<and> sint xx < 0")
  case True
  then show ?thesis by (simp add: print_value_def unat_eq_nat_uint uint_minus_neg)
next
  case False
  then have "nat (uint xx) = nat \<bar>print_value xx sign\<bar>"
  proof (cases sign)
    case True
    with False uint_of_sint[of xx] show ?thesis by (simp add: print_value_def)
  qed (simp add: print_value_def)
  then show ?thesis unfolding unat_eq_nat_uint if_not_P[OF False] .
qed

lemma print_value_range: "- (2 ^ 63) \<le> print_value xx sign \<and> print_value xx sign < 2 ^ 64"
proof (cases sign)
  case True
  with sint_ge[of xx] sint_lt[of xx] show ?thesis by (simp add: print_value_def)
next
  case False
  have "- (2 ^ 63) \<le> (0 :: int)" by simp
  also have "0 \<le> uint xx" by simp
  finally show ?thesis using False uint_lt2p[of xx] by (simp add: print_value_def)
qed

lemma printint_unfold:
  assumes x: "\<not> (sign \<and> sint xx = - (2 ^ 63))" and v: "v = print_value xx sign"
    and ds: "ds = digit_loop base (nat \<bar>v\<bar>)"
  shows "printint xx base sign =
    bnd (guard (length (if v < 0 then ds @ ''-'' else ds) \<le> 20) ''buf overflow'')
      (\<lambda>_. Ok (rev (if v < 0 then ds @ ''-'' else ds)))"
proof -
  have m: "(sign \<and> sint xx < 0) = (v < 0)" by (simp add: v print_value_def)
  have "unat (if v < 0 then - xx else xx) = nat \<bar>v\<bar>"
    using print_magnitude[of sign xx] unfolding m v[symmetric] .
  then show ?thesis
    using x unfolding printint_def Let_def m by (simp only: ds simp_thms guard_simps bnd_simps)
qed

text \<open>
  The buffer of 20 characters holds every number \<open>printk\<close> is given: a signed 64-bit number, or an
  unsigned one in either base.
\<close>

lemma printint_fits:
  assumes base: "base = 10 \<or> base = 16" and x: "\<not> (sign \<and> sint xx = - (2 ^ 63))"
  shows "\<exists>t. printint xx base sign = Ok t \<and> length t \<le> 20"
proof -
  define v u where "v = print_value xx sign" and "u = nat \<bar>v\<bar>"
  have r: "- (2 ^ 63) \<le> v" "v < 2 ^ 64" using print_value_range[of xx sign] by (simp_all add: v_def)
  have b: "2 \<le> base" "10 \<le> base" using base by auto
  have mono: "10 ^ n \<le> base ^ n" for n using b by (intro power_mono) auto
  have "length (digit_loop base u) \<le> (if v < 0 then 19 else 20)"
  proof (cases "v < 0")
    case True
    then have "u < 10 ^ 19" using r(1) by (simp add: u_def)
    then show ?thesis using True mono[of 19] by (auto intro!: digit_loop_length[OF b(1)])
  next
    case False
    then have "u < 10 ^ 20" using r(2) by (simp add: u_def)
    then show ?thesis using False mono[of 20] by (auto intro!: digit_loop_length[OF b(1)])
  qed
  then show ?thesis
    unfolding printint_unfold[OF x v_def refl] u_def by (auto simp: bnd_guard)
qed

lemma sint_scast32: "sint (scast (w :: 32 word) :: 64 word) = sint w"
proof -
  have "- (2 ^ 31) \<le> sint w" "sint w < 2 ^ 31" using sint_ge[of w] sint_lt[of w] by simp_all
  then show ?thesis
    by (simp add: signed_scast_eq signed_take_bit_int_eq_self)
qed

text \<open>A printed number reads back as itself.\<close>

definition read_int :: "nat \<Rightarrow> string \<Rightarrow> int" where
  "read_int base t = (case t of c # r \<Rightarrow> if c = CHR ''-'' then - int (number base r) else int (number base t) | [] \<Rightarrow> 0)"

lemma digit_not_minus: "d < 16 \<Longrightarrow> digits ! d \<noteq> CHR ''-''"
proof -
  assume "d < 16"
  then have "d = 0 \<or> d = 1 \<or> d = 2 \<or> d = 3 \<or> d = 4 \<or> d = 5 \<or> d = 6 \<or> d = 7 \<or> d = 8 \<or> d = 9 \<or>
    d = 10 \<or> d = 11 \<or> d = 12 \<or> d = 13 \<or> d = 14 \<or> d = 15" by arith
  then show ?thesis by (auto simp: digits_def)
qed

lemma digit_loop_last:
  assumes "2 \<le> base" "base \<le> 16" shows "digit_loop base x \<noteq> [] \<and> last (digit_loop base x) \<noteq> CHR ''-''"
proof (induction x rule: less_induct)
  case (less x)
  have d: "x mod base < 16" using assms by (auto intro: order.strict_trans2[OF mod_less_divisor])
  show ?case
  proof (cases "x div base = 0")
    case True
    then show ?thesis using assms digit_not_minus[OF d] by (subst (1 2) digit_loop.simps) simp
  next
    case False
    then have "x div base < x" by (rule div_shrinks[OF assms(1)])
    from less.IH[OF this] show ?thesis using False assms by (subst (1 2) digit_loop.simps) simp
  qed
qed

lemma printint_reads_back:
  assumes base: "base = 10 \<or> base = 16" and x: "\<not> (sign \<and> sint xx = - (2 ^ 63))"
    and t: "printint xx base sign = Ok t"
  shows "read_int base t = print_value xx sign"
proof -
  define v where "v = print_value xx sign"
  define ds where "ds = digit_loop base (nat \<bar>v\<bar>)"
  have b: "2 \<le> base" "base \<le> 16" using base by auto
  have n: "number base (rev ds) = nat \<bar>v\<bar>"
    unfolding ds_def by (rule digit_loop_number[OF b])
  have l: "ds \<noteq> []" "last ds \<noteq> CHR ''-''" using digit_loop_last[OF b] by (simp_all add: ds_def)
  have t: "t = rev (if v < 0 then ds @ ''-'' else ds)"
    using t unfolding printint_unfold[OF x v_def ds_def] by (auto simp: bnd_guard split: if_splits)
  have "read_int base t = v"
  proof (cases "v < 0")
    case True
    with t n show ?thesis by (simp add: read_int_def)
  next
    case False
    obtain c r where cr: "rev ds = c # r" using l(1) by (cases "rev ds") auto
    then have "c = last ds" using l(1) by (metis hd_rev list.sel(1))
    moreover have "t = c # r" using t cr False by simp
    moreover have "number base (c # r) = nat v" using n cr False by simp
    ultimately show ?thesis using False l(2) by (simp add: read_int_def)
  qed
  then show ?thesis by (simp add: v_def)
qed

section \<open>printk\<close>

lemma put_string_append: "put_string t s = s\<lparr>kout := kout s @ t\<rparr>"
  unfolding put_string_def by (induction t arbitrary: s) (simp_all add: consputc_def)

text \<open>Outside a panic \<open>printk\<close> appends its text and leaves the locks as they were.\<close>

lemma printk_Ok:
  assumes "L_pr \<notin> set (held s)" "printk_text fmt ap = Ok t" "\<not> panicking s"
  shows "printk fmt ap s = Ok (s\<lparr>kout := kout s @ t\<rparr>)"
  using assms by (simp add: printk_def Let_def put_string_append)

end
