(* ===== verification/K_String.thy ===== *)
theory K_String
  imports Prelude
begin

text \<open>
  \<open>xv6/kernel/string.c\<close> over a memory of bytes at 64-bit addresses.  Pointers are addresses, \<open>p++\<close> is
  \<open>p + 1\<close> and wraps as the machine's does.  The counters are \<open>nat\<close>s: the callers pass at most a page,
  far from the 2^31 bytes where the \<open>int i\<close> of \<open>memset\<close> would overflow.
\<close>

type_synonym addr = "64 word"
type_synonym byte = "8 word"
type_synonym bytes = "addr \<Rightarrow> byte"

section \<open>The code\<close>

fun memset :: "bytes \<Rightarrow> addr \<Rightarrow> byte \<Rightarrow> nat \<Rightarrow> bytes" where
  "memset m d c 0 = m"
| "memset m d c (Suc n) = memset (m(d := c)) (d + 1) c n"

fun memcmp :: "bytes \<Rightarrow> addr \<Rightarrow> addr \<Rightarrow> nat \<Rightarrow> int" where
  "memcmp m p q 0 = 0"
| "memcmp m p q (Suc n) =
     (if m p \<noteq> m q then uint (m p) - uint (m q) else memcmp m (p + 1) (q + 1) n)"

text \<open>The two loops of \<open>memmove\<close>: \<open>*--d = *--s\<close> from the ends, \<open>*d++ = *s++\<close> from the starts.\<close>

fun copy_down :: "bytes \<Rightarrow> addr \<Rightarrow> addr \<Rightarrow> nat \<Rightarrow> bytes" where
  "copy_down m d s 0 = m"
| "copy_down m d s (Suc n) = copy_down (m(d - 1 := m (s - 1))) (d - 1) (s - 1) n"

fun copy_up :: "bytes \<Rightarrow> addr \<Rightarrow> addr \<Rightarrow> nat \<Rightarrow> bytes" where
  "copy_up m d s 0 = m"
| "copy_up m d s (Suc n) = copy_up (m(d := m s)) (d + 1) (s + 1) n"

definition memmove :: "bytes \<Rightarrow> addr \<Rightarrow> addr \<Rightarrow> nat \<Rightarrow> bytes" where
  "memmove m d s n =
     (if n = 0 then m
      else if s < d \<and> d < s + of_nat n then copy_down m (d + of_nat n) (s + of_nat n) n
      else copy_up m d s n)"

definition memcpy :: "bytes \<Rightarrow> addr \<Rightarrow> addr \<Rightarrow> nat \<Rightarrow> bytes" where
  "memcpy m d s n = memmove m d s n"

fun strncmp :: "bytes \<Rightarrow> addr \<Rightarrow> addr \<Rightarrow> nat \<Rightarrow> int" where
  "strncmp m p q 0 = 0"
| "strncmp m p q (Suc n) =
     (if m p \<noteq> 0 \<and> m p = m q then strncmp m (p + 1) (q + 1) n else uint (m p) - uint (m q))"

fun strncpy :: "bytes \<Rightarrow> addr \<Rightarrow> addr \<Rightarrow> nat \<Rightarrow> bytes" where
  "strncpy m s t 0 = m"
| "strncpy m s t (Suc n) =
     (let m' = m(s := m t) in
      if m t \<noteq> 0 then strncpy m' (s + 1) (t + 1) n else memset m' (s + 1) 0 n)"

text \<open>\<open>while(--n > 0 && (*s++ = *t++) != 0); *s = 0;\<close> with the decremented \<open>n\<close> as the argument.\<close>

fun safe_copy :: "bytes \<Rightarrow> addr \<Rightarrow> addr \<Rightarrow> nat \<Rightarrow> bytes" where
  "safe_copy m s t 0 = m(s := 0)"
| "safe_copy m s t (Suc n) =
     (let m' = m(s := m t) in
      if m t \<noteq> 0 then safe_copy m' (s + 1) (t + 1) n else m'(s + 1 := 0))"

definition safestrcpy :: "bytes \<Rightarrow> addr \<Rightarrow> addr \<Rightarrow> int \<Rightarrow> bytes" where
  "safestrcpy m s t n = (if n \<le> 0 then m else safe_copy m s t (nat (n - 1)))"

text \<open>\<open>strlen\<close> stops at the first NUL; None is a memory without one.\<close>

partial_function (option) strlen_from :: "bytes \<Rightarrow> addr \<Rightarrow> nat \<Rightarrow> nat option" where
  "strlen_from m s n = (if m (s + of_nat n) = 0 then Some n else strlen_from m s (n + 1))"

definition strlen :: "bytes \<Rightarrow> addr \<Rightarrow> nat option" where
  "strlen m s = strlen_from m s 0"

section \<open>Offsets\<close>

text \<open>\<open>a\<close> is one of the \<open>n\<close> bytes from \<open>d\<close> on.\<close>

definition within :: "addr \<Rightarrow> addr \<Rightarrow> nat \<Rightarrow> bool" where
  "within a d n \<longleftrightarrow> unat (a - d) < n"

lemma within_0 [simp]: "\<not> within a d 0"
  by (simp add: within_def)

lemma unat_pred:
  fixes x :: addr
  assumes "x \<noteq> 0" shows "unat (x - 1) = unat x - 1"
  using assms by (simp add: unat_minus_one)

lemma within_Suc:
  assumes "n < 2 ^ 64"
  shows "within a d (Suc n) \<longleftrightarrow> a = d \<or> within a (d + 1) n"
proof (cases "a = d")
  case True
  then show ?thesis by (simp add: within_def)
next
  case False
  then have nz: "a - d \<noteq> 0" by simp
  have "a - (d + 1) = (a - d) - 1" by (simp only: diff_diff_eq)
  then have "unat (a - (d + 1)) = unat (a - d) - 1" using unat_pred[OF nz] by argo
  moreover have "0 < unat (a - d)" using nz by (simp add: unat_gt_0)
  ultimately show ?thesis using False by (auto simp: within_def)
qed

lemma within_last:
  assumes "n < 2 ^ 64"
  shows "within a d (Suc n) \<longleftrightarrow> a = d + of_nat n \<or> within a d n"
proof -
  have "a = d + of_nat n \<longleftrightarrow> a - d = of_nat n" by (auto simp: algebra_simps)
  also have "\<dots> \<longleftrightarrow> unat (a - d) = n"
    using assms by (auto simp: unat_of_nat take_bit_eq_mod)
  finally show ?thesis by (auto simp: within_def)
qed

lemma not_within_start:
  assumes "n < 2 ^ 64" shows "\<not> within d (d + 1) n"
proof -
  have "d - (d + 1) = (- 1 :: addr)" by simp
  then have "unat (d - (d + 1)) = unat (- 1 :: addr)" by argo
  also have "\<dots> = 2 ^ 64 - 1" by (simp add: unsigned_minus_1_eq_mask mask_eq_exp_minus_1)
  finally have "unat (d - (d + 1)) = 2 ^ 64 - 1" .
  with assms show ?thesis by (simp add: within_def)
qed

section \<open>memset and memmove\<close>

lemma memset_apply:
  "n \<le> 2 ^ 64 \<Longrightarrow> memset m d c n a = (if within a d n then c else m a)"
proof (induction m d c n rule: memset.induct)
  case (2 m d c n)
  then have n: "n < 2 ^ 64" by simp
  have ih: "memset (m(d := c)) (d + 1) c n a = (if within a (d + 1) n then c else (m(d := c)) a)"
    by (rule "2.IH") (use n in simp)
  then show ?case using not_within_start[OF n, of d] by (cases "a = d") (simp_all add: within_Suc[OF n])
qed simp

lemma copy_up_apply:
  assumes "n \<le> 2 ^ 64" and "\<And>i j. j < i \<Longrightarrow> i < n \<Longrightarrow> s + of_nat i \<noteq> d + of_nat j"
  shows "copy_up m d s n a = (if within a d n then m (s + (a - d)) else m a)"
  using assms
proof (induction m d s n rule: copy_up.induct)
  case (2 m d s n)
  then have n: "n < 2 ^ 64" by simp
  have ih: "copy_up (m(d := m s)) (d + 1) (s + 1) n a =
    (if within a (d + 1) n then (m(d := m s)) (s + 1 + (a - (d + 1))) else (m(d := m s)) a)"
  proof (rule "2.IH")
    fix i j assume "j < i" "i < n"
    then show "s + 1 + of_nat i \<noteq> d + 1 + of_nat j"
      using "2.prems"(2)[of "Suc j" "Suc i"] by (simp add: add.commute add.left_commute)
  qed (use n in simp)
  have off: "s + 1 + (a - (d + 1)) = s + (a - d)" by simp
  show ?case
  proof (cases "a = d")
    case True
    then show ?thesis using ih not_within_start[OF n] by (simp add: within_Suc[OF n])
  next
    case False
    have ne: "s + (a - d) \<noteq> d" if w: "within a (d + 1) n"
    proof -
      from w have w': "unat (a - d) < Suc n" using within_Suc[OF n, of a d] by (simp add: within_def)
      moreover have "unat (a - d) \<noteq> 0" using False by (simp add: unat_eq_0)
      ultimately have "s + of_nat (unat (a - d)) \<noteq> d + of_nat 0"
        by (intro "2.prems"(2)) simp_all
      then show ?thesis by simp
    qed
    show ?thesis
    proof (cases "within a (d + 1) n")
      case True
      with ih ne off show ?thesis by (simp add: within_Suc[OF n])
    next
      case False
      with ih \<open>a \<noteq> d\<close> show ?thesis by (simp add: within_Suc[OF n])
    qed
  qed
qed simp

lemma copy_down_apply:
  assumes "n < 2 ^ 64" and "\<And>i j. i < j \<Longrightarrow> j < n \<Longrightarrow> s + of_nat i \<noteq> d + of_nat j"
  shows "copy_down m (d + of_nat n) (s + of_nat n) n a =
    (if within a d n then m (s + (a - d)) else m a)"
  using assms
proof (induction n arbitrary: m)
  case (Suc n)
  then have n: "n < 2 ^ 64" by simp
  define m1 where "m1 = m(d + of_nat n := m (s + of_nat n))"
  have "copy_down m (d + of_nat (Suc n)) (s + of_nat (Suc n)) (Suc n) a =
    copy_down m1 (d + of_nat n) (s + of_nat n) n a"
    by (simp add: m1_def add.commute add.left_commute)
  also have "\<dots> = (if within a d n then m1 (s + (a - d)) else m1 a)"
    by (rule Suc.IH) (use n Suc.prems(2) in auto)
  also have "\<dots> = (if within a d (Suc n) then m (s + (a - d)) else m a)"
  proof (cases "within a d n")
    case True
    then have "unat (a - d) < n" by (simp add: within_def)
    then have "s + of_nat (unat (a - d)) \<noteq> d + of_nat n" by (intro Suc.prems(2)) simp_all
    then have "m1 (s + (a - d)) = m (s + (a - d))" by (simp add: m1_def)
    with True show ?thesis by (simp add: within_last[OF n])
  next
    case False
    then show ?thesis by (simp add: within_last[OF n] m1_def)
  qed
  finally show ?case .
qed simp

text \<open>Two offsets into regions that end within the address space, compared as numbers.\<close>

lemma offset_eq:
  fixes s d :: addr
  assumes "unat s + i < 2 ^ 64" and "unat d + j < 2 ^ 64"
  shows "s + of_nat i = d + of_nat j \<longleftrightarrow> unat s + i = unat d + j"
proof -
  have u: "unat (s + of_nat i) = unat s + i" if "unat s + i < 2 ^ 64" for s :: addr and i
  proof -
    have "i < 2 ^ 64" using that by simp
    then have "unat (of_nat i :: addr) = i" by (simp add: unat_of_nat take_bit_eq_mod)
    with that show ?thesis by (simp add: unat_word_ariths)
  qed
  show ?thesis using u[OF assms(1)] u[OF assms(2)] by (metis word_unat_eq_iff)
qed

lemma unat_offset:
  fixes s :: addr
  assumes "unat s + i < 2 ^ 64" shows "unat (s + of_nat i) = unat s + i"
proof -
  have "i < 2 ^ 64" using assms by simp
  then have "unat (of_nat i :: addr) = i" by (simp add: unat_of_nat take_bit_eq_mod)
  with assms show ?thesis by (simp add: unat_word_ariths)
qed

lemma memmove_apply:
  assumes "unat s + n < 2 ^ 64" and "unat d + n < 2 ^ 64"
  shows "memmove m d s n a = (if within a d n then m (s + (a - d)) else m a)"
proof (cases "n = 0")
  case True
  then show ?thesis by (simp add: memmove_def)
next
  case False
  show ?thesis
  proof (cases "s < d \<and> d < s + of_nat n")
    case True
    have lt: "unat s < unat d" using True by (simp add: word_less_nat_alt)
    have "copy_down m (d + of_nat n) (s + of_nat n) n a =
      (if within a d n then m (s + (a - d)) else m a)"
    proof (rule copy_down_apply)
      fix i j :: nat assume ij: "i < j" "j < n"
      have "unat s + i \<noteq> unat d + j" using lt ij by simp
      then show "s + of_nat i \<noteq> d + of_nat j" using offset_eq[of s i d j] assms ij by simp
    qed (use assms in simp)
    with True False show ?thesis by (simp add: memmove_def)
  next
    case no: False
    have apart: "unat d \<le> unat s \<or> unat s + n \<le> unat d"
      using no assms(1) unat_offset[of s n] by (auto simp: word_less_nat_alt not_less)
    have "copy_up m d s n a = (if within a d n then m (s + (a - d)) else m a)"
    proof (rule copy_up_apply)
      fix i j :: nat assume ij: "j < i" "i < n"
      have "unat s + i \<noteq> unat d + j" using apart ij by auto
      then show "s + of_nat i \<noteq> d + of_nat j" using offset_eq[of s i d j] assms ij by simp
    qed (use assms in simp)
    with False no show ?thesis by (auto simp: memmove_def)
  qed
qed

section \<open>Comparisons\<close>

lemma memcmp_eq_0: "memcmp m p q n = 0 \<longleftrightarrow> (\<forall>i < n. m (p + of_nat i) = m (q + of_nat i))"
proof (induction m p q n rule: memcmp.induct)
  case (2 m p q n)
  have "(\<forall>i < Suc n. m (p + of_nat i) = m (q + of_nat i)) \<longleftrightarrow>
    m p = m q \<and> (\<forall>i < n. m (p + 1 + of_nat i) = m (q + 1 + of_nat i))"
    by (subst All_less_Suc2) (simp add: add.assoc)
  moreover have "uint (m p) - uint (m q) = 0 \<longleftrightarrow> m p = m q" by (simp add: word_uint_eq_iff)
  ultimately show ?case using 2 by auto
qed simp

text \<open>The NUL-terminated string \<open>cs\<close> lies at \<open>p\<close>.\<close>

fun cstr_at :: "bytes \<Rightarrow> addr \<Rightarrow> byte list \<Rightarrow> bool" where
  "cstr_at m p [] \<longleftrightarrow> m p = 0"
| "cstr_at m p (c # cs) \<longleftrightarrow> m p = c \<and> c \<noteq> 0 \<and> cstr_at m (p + 1) cs"

lemma strlen_from_cstr:
  "cstr_at m (p + of_nat k) cs \<Longrightarrow> strlen_from m p k = Some (k + length cs)"
proof (induction cs arbitrary: k)
  case Nil
  then show ?case by (simp add: strlen_from.simps)
next
  case (Cons c cs)
  then have "strlen_from m p (k + 1) = Some (k + 1 + length cs)"
    by (intro Cons.IH) (simp add: add.commute add.left_commute)
  with Cons.prems show ?case by (subst strlen_from.simps) auto
qed

lemma strncmp_eq_0:
  "cstr_at m p xs \<Longrightarrow> cstr_at m q ys \<Longrightarrow> strncmp m p q n = 0 \<longleftrightarrow> take n xs = take n ys"
proof (induction n arbitrary: p q xs ys)
  case (Suc n)
  show ?case
  proof (cases xs)
    case Nil
    with Suc.prems show ?thesis by (cases ys) (auto simp: word_uint_eq_iff)
  next
    case (Cons x xs')
    note x = Cons
    show ?thesis
    proof (cases ys)
      case Nil
      with x Suc.prems show ?thesis by (auto simp: word_uint_eq_iff)
    next
      case (Cons y ys')
      with x Suc.prems Suc.IH[of "p + 1" xs' "q + 1" ys'] show ?thesis
        by (auto simp: word_uint_eq_iff)
    qed
  qed
qed simp

section \<open>Copies of strings\<close>

lemma cstr_at_cong:
  assumes "\<And>i. i \<le> length cs \<Longrightarrow> m' (p + of_nat i) = m (p + of_nat i)"
  shows "cstr_at m' p cs = cstr_at m p cs"
  using assms
proof (induction cs arbitrary: p)
  case Nil
  then show ?case using Nil[of 0] by simp
next
  case (Cons c cs)
  have "cstr_at m' (p + 1) cs = cstr_at m (p + 1) cs"
  proof (rule Cons.IH)
    fix i assume "i \<le> length cs"
    then show "m' (p + 1 + of_nat i) = m (p + 1 + of_nat i)"
      using Cons.prems[of "Suc i"] by (simp add: add.assoc)
  qed
  then show ?case using Cons.prems[of 0] by simp
qed

lemma safe_copy_outside: "n < 2 ^ 64 \<Longrightarrow> \<not> within a s (Suc n) \<Longrightarrow> safe_copy m s t n a = m a"
proof (induction n arbitrary: m s t)
  case 0
  then show ?case by (auto simp: within_def)
next
  case (Suc n)
  then have "\<not> within a (s + 1) (Suc n)" "a \<noteq> s" by (simp_all add: within_Suc)
  moreover from this have "a \<noteq> s + 1" by (auto simp: within_def)
  ultimately show ?case using Suc by (simp add: Let_def)
qed

text \<open>
  The destination is terminated within its size, holds as much of the source as fits, and the
  source is left alone.
\<close>

lemma safe_copy_cstr:
  assumes "n < 2 ^ 64" and "cstr_at m t cs"
    and "\<And>i. i \<le> length cs \<Longrightarrow> \<not> within (t + of_nat i) s (Suc n)"
  shows "cstr_at (safe_copy m s t n) s (take n cs)"
  using assms
proof (induction n arbitrary: m s t cs)
  case 0
  then show ?case by simp
next
  case (Suc n)
  have n: "n < 2 ^ 64" using Suc.prems(1) by simp
  define m' where "m' = m(s := m t)"
  have keep: "m' (t + of_nat i) = m (t + of_nat i)" if "i \<le> length cs" for i
    using Suc.prems(3)[OF that] by (auto simp: m'_def within_def)
  show ?case
  proof (cases cs)
    case Nil
    with Suc.prems(2) show ?thesis by (simp add: Let_def)
  next
    case (Cons c cs')
    have src: "cstr_at m' (t + 1) cs'"
    proof -
      have "cstr_at m (t + 1) cs'" using Suc.prems(2) Cons by simp
      moreover have "cstr_at m' (t + 1) cs' = cstr_at m (t + 1) cs'"
      proof (rule cstr_at_cong)
        fix i assume "i \<le> length cs'"
        then show "m' (t + 1 + of_nat i) = m (t + 1 + of_nat i)"
          using keep[of "Suc i"] Cons by (simp add: add.assoc)
      qed
      ultimately show ?thesis by simp
    qed
    have apart: "\<not> within (t + 1 + of_nat i) (s + 1) (Suc n)" if "i \<le> length cs'" for i
    proof -
      have "\<not> within (t + of_nat (Suc i)) s (Suc (Suc n))"
        by (rule Suc.prems(3)) (use that Cons in simp)
      then show ?thesis using Suc.prems(1) by (simp add: within_Suc add.assoc)
    qed
    have "cstr_at (safe_copy m' (s + 1) (t + 1) n) (s + 1) (take n cs')"
      by (rule Suc.IH[OF n src apart])
    moreover have "safe_copy m' (s + 1) (t + 1) n s = c"
    proof -
      have "\<not> within s (s + 1) (Suc n)" by (rule not_within_start[OF Suc.prems(1)])
      then have "safe_copy m' (s + 1) (t + 1) n s = m' s" by (rule safe_copy_outside[OF n])
      with Suc.prems(2) Cons show ?thesis by (simp add: m'_def)
    qed
    moreover have "m' = m(s := c)" "m t = c" "c \<noteq> 0" using Suc.prems(2) Cons by (simp_all add: m'_def)
    ultimately show ?thesis using Cons by (simp add: Let_def)
  qed
qed

lemma strncpy_apply:
  assumes "n < 2 ^ 64" and "\<And>i. i < n \<Longrightarrow> \<not> within (t + of_nat i) s n" and "cstr_at m t cs"
    and "length cs < n"
  shows "cstr_at (strncpy m s t n) s cs"
  using assms
proof (induction n arbitrary: m s t cs)
  case (Suc n)
  have n: "n < 2 ^ 64" using Suc.prems(1) by simp
  define m' where "m' = m(s := m t)"
  have frame: "strncpy m' s' t' k a = m' a" if "\<not> within a s' k" "k < 2 ^ 64" for m' s' t' k a
    using that
  proof (induction k arbitrary: m' s' t')
    case (Suc k)
    then have "a \<noteq> s'" "\<not> within a (s' + 1) k" by (simp_all add: within_Suc)
    with Suc show ?case by (simp add: Let_def memset_apply)
  qed simp
  have here: "strncpy m' (s + 1) (t + 1) n s = m t"
    using frame[OF not_within_start[OF n] n] by (simp add: m'_def)
  show ?case
  proof (cases cs)
    case Nil
    with Suc.prems(3) show ?thesis
      using not_within_start[OF n, of s] n by (simp add: Let_def memset_apply)
  next
    case (Cons c cs')
    have "cstr_at m' (t + 1) cs' = cstr_at m (t + 1) cs'"
    proof (rule cstr_at_cong)
      fix i assume "i \<le> length cs'"
      then have "\<not> within (t + of_nat (Suc i)) s (Suc n)"
        using Suc.prems(4) Cons by (intro Suc.prems(2)) simp
      then have "t + 1 + of_nat i \<noteq> s" by (auto simp: within_def add.assoc)
      then show "m' (t + 1 + of_nat i) = m (t + 1 + of_nat i)" by (simp add: m'_def)
    qed
    then have "cstr_at (strncpy m' (s + 1) (t + 1) n) (s + 1) cs'"
    proof (intro Suc.IH)
      fix i assume "i < n"
      then have "\<not> within (t + of_nat (Suc i)) s (Suc n)" by (intro Suc.prems(2)) simp
      then show "\<not> within (t + 1 + of_nat i) (s + 1) n" using n by (simp add: within_Suc add.assoc)
    qed (use Suc.prems Cons n in simp_all)
    moreover have "m' = m(s := c)" "m t = c" "c \<noteq> 0" using Suc.prems(3) Cons by (simp_all add: m'_def)
    ultimately show ?thesis using here Cons by (simp add: Let_def)
  qed
qed simp

end
