(* ===== verification/K_Alloc.thy ===== *)
theory K_Alloc
  imports K_Printk K_String
begin

unbundle bit_operations_syntax

text \<open>
  \<open>xv6/kernel/kalloc.c\<close>.  The free list is where the code has it: its head in \<open>kmem.freelist\<close>, each
  link in the first eight bytes of a free page.  \<open>kend\<close> is the linker's symbol \<open>end\<close>.
\<close>

section \<open>64-bit loads and stores\<close>

definition byte_of :: "64 word \<Rightarrow> nat \<Rightarrow> byte" where
  "byte_of v k = ucast (drop_bit (8 * k) v)"

definition st64 :: "bytes \<Rightarrow> addr \<Rightarrow> 64 word \<Rightarrow> bytes" where
  "st64 m a v = m(a := byte_of v 0, a + 1 := byte_of v 1, a + 2 := byte_of v 2, a + 3 := byte_of v 3,
     a + 4 := byte_of v 4, a + 5 := byte_of v 5, a + 6 := byte_of v 6, a + 7 := byte_of v 7)"

definition ld64 :: "bytes \<Rightarrow> addr \<Rightarrow> 64 word" where
  "ld64 m a = ucast (m a) OR push_bit 8 (ucast (m (a + 1))) OR push_bit 16 (ucast (m (a + 2))) OR
     push_bit 24 (ucast (m (a + 3))) OR push_bit 32 (ucast (m (a + 4))) OR
     push_bit 40 (ucast (m (a + 5))) OR push_bit 48 (ucast (m (a + 6))) OR push_bit 56 (ucast (m (a + 7)))"

lemma bit_byte: 
  "n < 64 \<Longrightarrow> bit (push_bit (8 * k) (ucast (byte_of v k)) :: 64 word) n \<longleftrightarrow> 8 * k \<le> n \<and> n < 8 * k + 8 \<and> bit v n"
  unfolding byte_of_def by (auto simp: bit_simps)

lemma bytes_join:
  "ucast (byte_of v 0) OR push_bit 8 (ucast (byte_of v 1)) OR push_bit 16 (ucast (byte_of v 2)) OR
   push_bit 24 (ucast (byte_of v 3)) OR push_bit 32 (ucast (byte_of v 4)) OR
   push_bit 40 (ucast (byte_of v 5)) OR push_bit 48 (ucast (byte_of v 6)) OR
   push_bit 56 (ucast (byte_of v 7)) = v"  (is "?l = v")
proof (rule bit_word_eqI)
  fix n assume "n < LENGTH(64)"
  then have n: "n < 64" by simp
  have "n < 8 \<or> 8 \<le> n \<and> n < 16 \<or> 16 \<le> n \<and> n < 24 \<or> 24 \<le> n \<and> n < 32 \<or> 32 \<le> n \<and> n < 40 \<or>
    40 \<le> n \<and> n < 48 \<or> 48 \<le> n \<and> n < 56 \<or> 56 \<le> n \<and> n < 64" using n by arith
  then show "bit ?l n = bit v n"
    using bit_byte[OF n, of 0 v] bit_byte[OF n, of 1 v] bit_byte[OF n, of 2 v] bit_byte[OF n, of 3 v]
      bit_byte[OF n, of 4 v] bit_byte[OF n, of 5 v] bit_byte[OF n, of 6 v] bit_byte[OF n, of 7 v]
    by (simp add: bit_or_iff) blast
qed

lemma ld64_st64 [simp]: "ld64 (st64 m a v) a = v"
proof -
  have "ld64 (st64 m a v) a = ucast (byte_of v 0) OR push_bit 8 (ucast (byte_of v 1)) OR
    push_bit 16 (ucast (byte_of v 2)) OR push_bit 24 (ucast (byte_of v 3)) OR
    push_bit 32 (ucast (byte_of v 4)) OR push_bit 40 (ucast (byte_of v 5)) OR
    push_bit 48 (ucast (byte_of v 6)) OR push_bit 56 (ucast (byte_of v 7))"
    by (simp add: ld64_def st64_def)
  then show ?thesis by (simp only: bytes_join)
qed

text \<open>A load is unchanged by stores that miss its eight bytes.\<close>

lemma ld64_cong:
  "(\<And>i. i < 8 \<Longrightarrow> m' (a + of_nat i) = m (a + of_nat i)) \<Longrightarrow> ld64 m' a = ld64 m a"
proof -
  assume eq: "\<And>i. i < 8 \<Longrightarrow> m' (a + of_nat i) = m (a + of_nat i)"
  show ?thesis
    using eq[of 0] eq[of 1] eq[of 2] eq[of 3] eq[of 4] eq[of 5] eq[of 6] eq[of 7]
    by (simp add: ld64_def)
qed

lemma st64_other: "\<not> within b a 8 \<Longrightarrow> st64 m a v b = m b"
proof -
  assume "\<not> within b a 8"
  then have "b \<noteq> a + of_nat i" if "i < 8" for i
    using that by (auto simp: within_def unat_of_nat take_bit_eq_mod)
  from this[of 0] this[of 1] this[of 2] this[of 3] this[of 4] this[of 5] this[of 6] this[of 7]
  show ?thesis by (simp add: st64_def)
qed

section \<open>The code\<close>

abbreviation PGSIZE :: addr where "PGSIZE \<equiv> 4096"

definition KERNBASE :: addr where "KERNBASE = 0x80000000"

definition PHYSTOP :: addr where "PHYSTOP = KERNBASE + 128 * 1024 * 1024"

definition PGROUNDUP :: "64 word \<Rightarrow> 64 word" where
  "PGROUNDUP sz = (sz + PGSIZE - 1) AND NOT (PGSIZE - 1)"

definition PGROUNDDOWN :: "64 word \<Rightarrow> 64 word" where
  "PGROUNDDOWN a = a AND NOT (PGSIZE - 1)"

record mem_st = out_st +
  mem :: bytes
  kmem_free :: addr
  kend :: addr

definition kfree :: "addr \<Rightarrow> 'a mem_st_scheme \<Rightarrow> 'a mem_st_scheme res" where
  "kfree pa s =
     bnd (assertk (pa mod PGSIZE = 0 \<and> kend s \<le> pa \<and> pa < PHYSTOP) ''kfree'') (\<lambda>_.
       let s = s\<lparr>mem := memset (mem s) pa 1 4096\<rparr> in
       bnd (acquire L_kmem s) (\<lambda>s.
         let s = s\<lparr>mem := st64 (mem s) pa (kmem_free s)\<rparr>;
             s = s\<lparr>kmem_free := pa\<rparr>
         in release L_kmem s))"

definition kalloc :: "'a mem_st_scheme \<Rightarrow> (addr \<times> 'a mem_st_scheme) res" where
  "kalloc s =
     bnd (acquire L_kmem s) (\<lambda>s.
       let r = kmem_free s;
           s = (if r \<noteq> 0 then s\<lparr>kmem_free := ld64 (mem s) r\<rparr> else s)
       in bnd (release L_kmem s) (\<lambda>s.
            Ok (r, if r \<noteq> 0 then s\<lparr>mem := memset (mem s) r 5 4096\<rparr> else s)))"

text \<open>The loop of \<open>freerange\<close>; \<open>n\<close> bounds its turns.\<close>

fun freerange_from :: "nat \<Rightarrow> addr \<Rightarrow> addr \<Rightarrow> 'a mem_st_scheme \<Rightarrow> 'a mem_st_scheme res" where
  "freerange_from 0 p e s = (if p + PGSIZE \<le> e then Spin else Ok s)"
| "freerange_from (Suc n) p e s =
     (if p + PGSIZE \<le> e then bnd (kfree p s) (freerange_from n (p + PGSIZE) e) else Ok s)"

definition freerange :: "nat \<Rightarrow> addr \<Rightarrow> addr \<Rightarrow> 'a mem_st_scheme \<Rightarrow> 'a mem_st_scheme res" where
  "freerange n pa_start pa_end s = freerange_from n (PGROUNDUP pa_start) pa_end s"

text \<open>The 128 megabytes of RAM are 32768 pages.\<close>

definition kinit :: "'a mem_st_scheme \<Rightarrow> 'a mem_st_scheme res" where
  "kinit s = freerange 32768 (kend s) PHYSTOP s"

section \<open>Pages\<close>

definition aligned :: "addr \<Rightarrow> bool" where
  "aligned p \<longleftrightarrow> p mod PGSIZE = 0"

definition page_ok :: "'a mem_st_scheme \<Rightarrow> addr \<Rightarrow> bool" where
  "page_ok s p \<longleftrightarrow> aligned p \<and> kend s \<le> p \<and> p < PHYSTOP"

lemma aligned_unat: "aligned p \<longleftrightarrow> unat p mod 4096 = 0"
proof -
  have "unat (p mod PGSIZE) = unat p mod 4096" by (simp add: unat_mod_distrib)
  then show ?thesis by (metis aligned_def unat_eq_0)
qed

lemma page_of_byte:
  assumes "aligned p" and "within a p 4096"
  shows "unat p = unat a - unat a mod 4096"
proof -
  have p: "unat p mod 4096 = 0" using assms(1) by (simp add: aligned_unat)
  have d: "unat (a - p) < 4096" using assms(2) by (simp add: within_def)
  have "unat p < 2 ^ 64" using unsigned_less[of p] by simp
  moreover obtain k where "unat p = 4096 * k" using p by (auto simp: mod_eq_0_iff_dvd)
  ultimately have "unat p + 4096 \<le> 2 ^ 64" by simp
  with d have "unat p + unat (a - p) < 2 ^ 64" by simp
  then have "unat (p + (a - p)) = unat p + unat (a - p)"
    using unat_add_lem by fastforce
  then have "unat a = unat p + unat (a - p)" by simp
  moreover from this p d have "unat a mod 4096 = unat (a - p)" by (simp add: mod_add_eq[symmetric, of "unat p"])
  ultimately show ?thesis by simp
qed

lemma pages_apart:
  assumes "aligned p" "aligned q" "within a p 4096" "within a q 4096"
  shows "p = q"
  using page_of_byte[OF assms(1,3)] page_of_byte[OF assms(2,4)] by (simp add: word_unat_eq_iff)

lemma within_mono: "within a p n \<Longrightarrow> n \<le> k \<Longrightarrow> within a p k"
  by (simp add: within_def)

lemma within_offset: "i < n \<Longrightarrow> n \<le> 2 ^ 64 \<Longrightarrow> within (p + of_nat i) p n"
  by (simp add: within_def unat_of_nat take_bit_eq_mod)

section \<open>The free list\<close>

text \<open>The pages on the list that starts at \<open>p\<close>, in order.\<close>

fun flist :: "bytes \<Rightarrow> addr \<Rightarrow> addr list \<Rightarrow> bool" where
  "flist m p [] \<longleftrightarrow> p = 0"
| "flist m p (q # qs) \<longleftrightarrow> p = q \<and> q \<noteq> 0 \<and> flist m (ld64 m q) qs"

definition kmem_ok :: "'a mem_st_scheme \<Rightarrow> addr list \<Rightarrow> bool" where
  "kmem_ok s ps \<longleftrightarrow>
     flist (mem s) (kmem_free s) ps \<and> distinct ps \<and> (\<forall>p \<in> set ps. page_ok s p) \<and>
     0 < kend s \<and> L_kmem \<notin> set (held s)"

lemma flist_cong:
  "(\<And>q i. q \<in> set ps \<Longrightarrow> i < 8 \<Longrightarrow> m' (q + of_nat i) = m (q + of_nat i)) \<Longrightarrow> flist m' p ps = flist m p ps"
proof (induction ps arbitrary: p)
  case (Cons q qs)
  have "ld64 m' q = ld64 m q" by (rule ld64_cong) (rule Cons.prems, simp_all)
  moreover have "flist m' (ld64 m q) qs = flist m (ld64 m q) qs"
    by (rule Cons.IH) (rule Cons.prems, simp_all)
  ultimately show ?case by simp
qed simp

text \<open>Writes inside one page leave the links in the other pages.\<close>

lemma flist_other_page:
  assumes "flist m p ps" and "\<And>a. \<not> within a q 4096 \<Longrightarrow> m' a = m a"
    and "aligned q" and "q \<notin> set ps" and "\<forall>r \<in> set ps. aligned r"
  shows "flist m' p ps"
proof -
  have "flist m' p ps = flist m p ps"
  proof (rule flist_cong)
    fix r i :: "_" assume r: "r \<in> set ps" and i: "i < (8 :: nat)"
    have "within (r + of_nat i) r 4096" by (rule within_offset) (use i in simp_all)
    then have "\<not> within (r + of_nat i) q 4096"
      using pages_apart[of r q "r + of_nat i"] assms(3-5) r by auto
    then show "m' (r + of_nat i) = m (r + of_nat i)" by (rule assms(2))
  qed
  with assms(1) show ?thesis by simp
qed

lemma memset_page: "\<not> within a p 4096 \<Longrightarrow> memset m p c 4096 a = m a"
  by (simp add: memset_apply)

lemma st64_page: "\<not> within a p 4096 \<Longrightarrow> st64 m p v a = m a"
  using st64_other[of a p m v] within_mono[of a p 8 4096] by auto

lemma kmem_ok_head: "kmem_ok s ps \<Longrightarrow> kmem_free s = (case ps of [] \<Rightarrow> 0 | p # _ \<Rightarrow> p)"
  by (cases ps) (simp_all add: kmem_ok_def)

lemma page_ok_simps [simp]:
  "page_ok (s\<lparr>mem := m\<rparr>) = page_ok s" "page_ok (s\<lparr>kmem_free := f\<rparr>) = page_ok s"
  "page_ok (s\<lparr>held := h\<rparr>) = page_ok s"
  by (simp_all add: page_ok_def fun_eq_iff)

text \<open>What \<open>kalloc\<close> returns, and what it does to the memory.\<close>

lemma kalloc_empty: "kmem_ok s [] \<Longrightarrow> kalloc s = Ok (0, s)"
  by (simp add: kmem_ok_def kalloc_def Let_def)

definition took :: "addr \<Rightarrow> 'a mem_st_scheme \<Rightarrow> 'a mem_st_scheme" where
  "took p s = s\<lparr>mem := memset (mem s) p 5 4096, kmem_free := ld64 (mem s) p\<rparr>"

definition gave :: "addr \<Rightarrow> 'a mem_st_scheme \<Rightarrow> 'a mem_st_scheme" where
  "gave p s = s\<lparr>mem := st64 (memset (mem s) p 1 4096) p (kmem_free s), kmem_free := p\<rparr>"

lemma kalloc_page:
  assumes "kmem_ok s (p # ps)"
  shows "kalloc s = Ok (p, took p s)" and "kmem_ok (took p s) ps"
proof -
  have nz: "kmem_free s = p" "p \<noteq> 0" "flist (mem s) (ld64 (mem s) p) ps" "p \<notin> set ps"
    "L_kmem \<notin> set (held s)" using assms by (auto simp: kmem_ok_def)
  have al: "aligned p" "\<forall>q \<in> set ps. aligned q" using assms by (auto simp: kmem_ok_def page_ok_def)
  have "flist (memset (mem s) p 5 4096) (ld64 (mem s) p) ps"
    by (rule flist_other_page[OF nz(3) memset_page[of _ p "mem s" 5]]) (use nz al in auto)
  then show "kmem_ok (took p s) ps" using assms by (simp add: kmem_ok_def took_def)
  show "kalloc s = Ok (p, took p s)" using nz by (simp add: kalloc_def Let_def took_def)
qed

lemma gave_outside: "\<not> within a p 4096 \<Longrightarrow> mem (gave p s) a = mem s a"
  by (simp add: gave_def st64_page memset_page)

lemma took_outside: "\<not> within a p 4096 \<Longrightarrow> mem (took p s) a = mem s a"
  by (simp add: took_def memset_page)

lemma took_inside: "within a p 4096 \<Longrightarrow> mem (took p s) a = 5"
  by (simp add: took_def memset_apply)

lemma kfree_page:
  assumes ok: "kmem_ok s ps" and p: "page_ok s p" "p \<notin> set ps"
  shows "kfree p s = Ok (gave p s)" and "kmem_ok (gave p s) (p # ps)"
proof -
  have lk: "L_kmem \<notin> set (held s)" using ok by (simp add: kmem_ok_def)
  have al: "aligned p" "\<forall>q \<in> set ps. aligned q" using ok p by (auto simp: kmem_ok_def page_ok_def)
  have "flist (mem (gave p s)) (kmem_free s) ps"
    by (rule flist_other_page[OF _ gave_outside[of _ p s]]) (use ok p al in \<open>auto simp: kmem_ok_def\<close>)
  moreover have "ld64 (mem (gave p s)) p = kmem_free s" by (simp add: gave_def)
  moreover have "p \<noteq> 0" using p ok by (auto simp: page_ok_def kmem_ok_def)
  ultimately show "kmem_ok (gave p s) (p # ps)" using ok p by (simp add: kmem_ok_def gave_def)
  show "kfree p s = Ok (gave p s)"
    using p lk by (simp add: kfree_def Let_def gave_def page_ok_def aligned_def)
qed

lemma kfree_bad: "\<not> page_ok s p \<Longrightarrow> kfree p s = Panic ''kfree''"
  by (simp only: kfree_def page_ok_def aligned_def assertk_def if_False bnd_simps)

lemma gave_simps [simp]:
  "held (gave p s) = held s" "kend (gave p s) = kend s" "page_ok (gave p s) = page_ok s" "kmem_free (gave p s) = p"
  by (simp_all add: gave_def)

lemma took_simps [simp]:
  "held (took p s) = held s" "kend (took p s) = kend s" "page_ok (took p s) = page_ok s"
  by (simp_all add: took_def)

section \<open>The allocator as an interface\<close>

text \<open>
  What the rest of the kernel relies on: \<open>avail s ps\<close> says which pages are free, in the order they
  will be handed out, and \<open>usable s p\<close> which pages there are.
\<close>

locale page_allocator =
  fixes alloc :: "'s \<Rightarrow> (addr \<times> 's) res" and free :: "addr \<Rightarrow> 's \<Rightarrow> 's res"
    and avail :: "'s \<Rightarrow> addr list \<Rightarrow> bool" and usable :: "'s \<Rightarrow> addr \<Rightarrow> bool"
  assumes alloc_none: "avail s [] \<Longrightarrow> alloc s = Ok (0, s)"
    and alloc_some: "avail s (p # ps) \<Longrightarrow> \<exists>s'. alloc s = Ok (p, s') \<and> avail s' ps \<and> usable s' = usable s"
    and free_ok: "avail s ps \<Longrightarrow> usable s p \<Longrightarrow> p \<notin> set ps \<Longrightarrow>
      \<exists>s'. free p s = Ok s' \<and> avail s' (p # ps) \<and> usable s' = usable s"
    and avail_sound: "avail s ps \<Longrightarrow> distinct ps \<and> 0 \<notin> set ps \<and> (\<forall>p \<in> set ps. usable s p)"
begin

lemma alloc_total: "avail s ps \<Longrightarrow> \<exists>p s' qs. alloc s = Ok (p, s') \<and> avail s' qs \<and> usable s' = usable s \<and>
    (p = 0 \<longleftrightarrow> ps = []) \<and> (p \<noteq> 0 \<longrightarrow> ps = p # qs) \<and> p \<notin> set qs"
proof (cases ps)
  case Nil
  moreover assume "avail s ps"
  ultimately show ?thesis using alloc_none by auto
next
  case (Cons p qs)
  moreover assume "avail s ps"
  ultimately have a: "avail s (p # qs)" by simp
  then obtain s' where "alloc s = Ok (p, s')" "avail s' qs" "usable s' = usable s"
    using alloc_some by blast
  then show ?thesis using avail_sound[OF a] Cons by auto
qed

lemma free_then_alloc:
  assumes "avail s ps" "usable s p" "p \<notin> set ps"
  obtains s' s'' where "free p s = Ok s'" "alloc s' = Ok (p, s'')" "avail s'' ps"
  using free_ok[OF assms] alloc_some by metis

lemma two_allocs_distinct:
  assumes "avail s ps" "alloc s = Ok (p, s')" "alloc s' = Ok (q, s'')" "p \<noteq> 0" "q \<noteq> 0"
  shows "p \<noteq> q \<and> usable s p \<and> usable s q"
proof -
  from alloc_total[OF assms(1)] assms(2,4) obtain qs where a: "ps = p # qs" "avail s' qs" "usable s' = usable s"
    by auto
  from alloc_total[OF a(2)] assms(3,5) obtain rs where "qs = q # rs" by auto
  with avail_sound[OF assms(1)] a(1) show ?thesis by auto
qed

text \<open>Freeing a list of distinct pages, as \<open>freerange\<close> does, makes all of them available.\<close>

lemma free_all:
  "avail s ps \<Longrightarrow> distinct qs \<Longrightarrow> set qs \<inter> set ps = {} \<Longrightarrow> (\<forall>q \<in> set qs. usable s q) \<Longrightarrow>
   \<exists>s'. for_each free qs s = Ok s' \<and> avail s' (rev qs @ ps) \<and> usable s' = usable s"
proof (induction qs arbitrary: s ps)
  case (Cons q qs)
  then obtain s1 where s1: "free q s = Ok s1" "avail s1 (q # ps)" "usable s1 = usable s"
    using free_ok[of s ps q] by auto
  moreover have "\<exists>s'. for_each free qs s1 = Ok s' \<and> avail s' (rev qs @ q # ps) \<and> usable s' = usable s1"
    by (rule Cons.IH[OF s1(2)]) (use Cons.prems s1(3) in auto)
  ultimately show ?case by auto
qed auto

end

interpretation ram: page_allocator kalloc kfree kmem_ok page_ok
proof
  fix s :: "'a mem_st_scheme" and p ps
  show "kmem_ok s [] \<Longrightarrow> kalloc s = Ok (0, s)" by (rule kalloc_empty)
  show "kmem_ok s (p # ps) \<Longrightarrow> \<exists>s'. kalloc s = Ok (p, s') \<and> kmem_ok s' ps \<and> page_ok s' = page_ok s"
    using kalloc_page[of s p ps] by auto
  show "kmem_ok s ps \<Longrightarrow> page_ok s p \<Longrightarrow> p \<notin> set ps \<Longrightarrow>
      \<exists>s'. kfree p s = Ok s' \<and> kmem_ok s' (p # ps) \<and> page_ok s' = page_ok s"
    using kfree_page[of s ps p] by auto
  show "kmem_ok s ps \<Longrightarrow> distinct ps \<and> 0 \<notin> set ps \<and> (\<forall>p \<in> set ps. page_ok s p)"
    by (auto simp: kmem_ok_def page_ok_def)
qed

section \<open>Rounding to pages\<close>

lemma and_not_page: "(a :: 64 word) AND NOT (PGSIZE - 1) = push_bit 12 (drop_bit 12 a)"
proof (rule bit_word_eqI)
  fix n assume "n < LENGTH(64)"
  have "PGSIZE - 1 = mask 12" by (simp add: mask_eq_exp_minus_1)
  then have "bit (a AND NOT (PGSIZE - 1)) n = bit (a AND NOT (mask 12)) n" by argo
  also have "\<dots> = bit (push_bit 12 (drop_bit 12 a)) n"
    using \<open>n < LENGTH(64)\<close> by (auto simp: bit_simps not_less)
  finally show "bit (a AND NOT (PGSIZE - 1)) n = bit (push_bit 12 (drop_bit 12 a)) n" .
qed

lemma unat_PGROUNDDOWN: "unat (PGROUNDDOWN a) = unat a div 4096 * 4096"
proof -
  have a: "unat a < 2 ^ 64" using unsigned_less[of a] by simp
  have "unat (PGROUNDDOWN a) = unat (push_bit 12 (drop_bit 12 a))"
    by (simp only: PGROUNDDOWN_def and_not_page)
  also have "\<dots> = take_bit 64 (push_bit 12 (drop_bit 12 (unat a)))"
    by (simp add: unsigned_push_bit_eq unat_drop_bit_eq)
  also have "drop_bit 12 (unat a) = unat a div 4096" by (simp add: drop_bit_eq_div)
  also have "take_bit 64 (push_bit 12 (unat a div 4096)) = unat a div 4096 * 4096"
  proof -
    have "unat a div 4096 * 4096 < 2 ^ 64" using a by (simp add: less_mult_imp_div_less)
    then show ?thesis by (simp add: push_bit_eq_mult take_bit_eq_mod)
  qed
  finally show ?thesis .
qed

lemma PGROUNDUP_down: "PGROUNDUP a = PGROUNDDOWN (a + (PGSIZE - 1))"
  by (simp only: PGROUNDUP_def PGROUNDDOWN_def add_diff_eq)

lemma unat_PGROUNDUP:
  assumes "unat a + 4095 < 2 ^ 64"
  shows "unat (PGROUNDUP a) = (unat a + 4095) div 4096 * 4096"
proof -
  have "unat (a + (PGSIZE - 1)) = unat a + 4095"
    using unat_offset[of a 4095] assms by simp
  then show ?thesis by (simp add: PGROUNDUP_down unat_PGROUNDDOWN)
qed

lemma aligned_PGROUNDDOWN [simp]: "aligned (PGROUNDDOWN a)"
  by (simp add: aligned_unat unat_PGROUNDDOWN)

lemma aligned_PGROUNDUP [simp]: "aligned (PGROUNDUP a)"
  by (simp add: PGROUNDUP_down)

lemma PGROUNDDOWN_aligned: "aligned p \<Longrightarrow> PGROUNDDOWN p = p"
  by (auto simp: word_unat_eq_iff unat_PGROUNDDOWN aligned_unat mod_eq_0_iff_dvd)

section \<open>Initialising the allocator\<close>

text \<open>The pages from \<open>p\<close> on, \<open>n\<close> of them.\<close>

fun pages_from :: "addr \<Rightarrow> nat \<Rightarrow> addr list" where
  "pages_from p 0 = []"
| "pages_from p (Suc n) = p # pages_from (p + PGSIZE) n"

lemma pages_from_map: "pages_from p n = map (\<lambda>i. p + of_nat (4096 * i)) [0..<n]"
proof (induction n arbitrary: p)
  case (Suc n)
  have "map (\<lambda>i. p + of_nat (4096 * i)) [0..<Suc n] =
    p # map (\<lambda>i. p + of_nat (4096 * Suc i)) [0..<n]"
    by (simp add: upt_conv_Cons map_Suc_upt[symmetric] del: upt_Suc)
  with Suc show ?case by (simp add: algebra_simps)
qed simp

lemma freerange_pages:
  assumes "unat p + 4096 * n \<le> unat e" and "unat e < unat p + 4096 * n + 4096"
    and "unat p + 4096 * n + 4096 < 2 ^ 64" and "n \<le> k"
  shows "freerange_from k p e (s :: 'a mem_st_scheme) = for_each kfree (pages_from p n) s"
  using assms
proof (induction n arbitrary: k p s)
  case 0
  have "unat (p + PGSIZE) = unat p + 4096" using unat_offset[of p 4096] 0 by simp
  then have "\<not> p + PGSIZE \<le> e" using 0 by (simp add: word_le_nat_alt)
  then show ?case by (cases k) simp_all
next
  case (Suc n)
  have u: "unat (p + PGSIZE) = unat p + 4096" using unat_offset[of p 4096] Suc.prems by simp
  then have le: "p + PGSIZE \<le> e" using Suc.prems by (simp add: word_le_nat_alt)
  obtain j where k: "k = Suc j" "n \<le> j" using Suc.prems by (cases k) auto
  have "freerange_from j (p + PGSIZE) e t = for_each kfree (pages_from (p + PGSIZE) n) t"
    for t :: "'a mem_st_scheme"
    by (rule Suc.IH) (use Suc.prems k u in auto)
  with le k show ?case by (auto intro: bnd_cong)
qed

lemma pages_from_distinct:
  assumes "unat p + 4096 * n < 2 ^ 64" shows "distinct (pages_from p n)"
proof -
  have "i = j" if "i < n" "j < n" "p + of_nat (4096 * i) = p + of_nat (4096 * j)" for i j
  proof -
    have "unat p + 4096 * i = unat p + 4096 * j"
      using offset_eq[of p "4096 * i" p "4096 * j"] that assms by simp
    then show ?thesis by simp
  qed
  then show ?thesis by (simp add: pages_from_map distinct_map inj_on_def)
qed

lemma mem_pages_from:
  assumes "unat p + 4096 * n < 2 ^ 64" and "aligned p"
  shows "q \<in> set (pages_from p n) \<longleftrightarrow> aligned q \<and> p \<le> q \<and> unat q < unat p + 4096 * n"
proof
  assume "q \<in> set (pages_from p n)"
  then obtain i where i: "i < n" "q = p + of_nat (4096 * i)" by (auto simp: pages_from_map)
  then have "unat q = unat p + 4096 * i" using unat_offset[of p "4096 * i"] assms by simp
  with i assms(2) show "aligned q \<and> p \<le> q \<and> unat q < unat p + 4096 * n"
    by (auto simp: aligned_unat word_le_nat_alt)
next
  assume q: "aligned q \<and> p \<le> q \<and> unat q < unat p + 4096 * n"
  define i where "i = (unat q - unat p) div 4096"
  have "(unat q - unat p) mod 4096 = 0"
    using q assms(2) by (auto simp: aligned_unat mod_eq_0_iff_dvd)
  then have d: "unat q = unat p + 4096 * i" using q by (auto simp: i_def word_le_nat_alt)
  then have "i < n" using q by simp
  moreover have "q = p + of_nat (4096 * i)"
    using unat_offset[of p "4096 * i"] d assms \<open>i < n\<close> by (simp add: word_unat_eq_iff)
  ultimately show "q \<in> set (pages_from p n)" by (auto simp: pages_from_map)
qed

definition ram_pages :: "addr \<Rightarrow> nat" where
  "ram_pages e = (unat PHYSTOP - unat (PGROUNDUP e)) div 4096"

lemma unat_PHYSTOP [simp]: "unat PHYSTOP = 2281701376"
  by (simp add: PHYSTOP_def KERNBASE_def)

lemma kinit_avail:
  assumes "KERNBASE \<le> kend s" and "kend s \<le> PHYSTOP" and "kmem_free s = 0" and "L_kmem \<notin> set (held s)"
  shows "\<exists>s' ps. kinit s = Ok s' \<and> kmem_ok s' ps \<and> (\<forall>p. p \<in> set ps \<longleftrightarrow> page_ok s p)"
proof -
  let ?p = "PGROUNDUP (kend s)"
  define n where "n = ram_pages (kend s)"
  have k: "2147483648 \<le> unat (kend s)" "unat (kend s) \<le> 2281701376"
    using assms(1,2) unat_PHYSTOP by (simp_all add: word_le_nat_alt KERNBASE_def)
  have up: "unat ?p = (unat (kend s) + 4095) div 4096 * 4096"
    by (rule unat_PGROUNDUP) (use k in simp)
  have dm: "unat ?p + (unat (kend s) + 4095) mod 4096 = unat (kend s) + 4095"
    unfolding up by simp
  moreover have "(unat (kend s) + 4095) mod 4096 < 4096" by simp
  ultimately have ple: "unat (kend s) \<le> unat ?p" "unat ?p < unat (kend s) + 4096" by linarith+
  have "(unat (kend s) + 4095) div 4096 < 557057" using k by (simp add: div_less_iff_less_mult)
  then have top: "unat ?p \<le> 2281701376" unfolding up by simp
  have dv: "4096 * n = 2281701376 - unat ?p"
  proof -
    have "(2281701376 - unat ?p) mod 4096 = 0"
      unfolding up using \<open>(unat (kend s) + 4095) div 4096 < 557057\<close>
      by (simp add: mod_eq_0_iff_dvd)
    then show ?thesis by (auto simp: n_def ram_pages_def mod_eq_0_iff_dvd)
  qed
  have n: "n \<le> 32768" using dv top ple k by linarith
  have eq: "kinit s = for_each kfree (pages_from ?p n) s"
    unfolding kinit_def freerange_def
    by (rule freerange_pages) (use dv top ple n in simp_all)
  have small: "unat ?p + 4096 * n < 2 ^ 64" using dv top ple by simp
  have mem: "q \<in> set (pages_from ?p n) \<longleftrightarrow> page_ok s q" for q
  proof -
    have "kend s \<le> q \<and> aligned q \<longleftrightarrow> ?p \<le> q \<and> aligned q"
    proof -
      have "unat (kend s) \<le> unat q \<longleftrightarrow> unat ?p \<le> unat q" if al: "aligned q"
      proof
        assume "unat (kend s) \<le> unat q"
        moreover obtain j where "unat q = 4096 * j"
          using dvdE[OF al[unfolded aligned_unat mod_eq_0_iff_dvd]] .
        ultimately show "unat ?p \<le> unat q" unfolding up by (simp add: div_le_mono)
      qed (use ple in linarith)
      then show ?thesis by (auto simp: word_le_nat_alt)
    qed
    moreover have "unat q < unat ?p + 4096 * n \<longleftrightarrow> q < PHYSTOP"
      using dv top ple by (simp add: word_less_nat_alt)
    ultimately show ?thesis
      using mem_pages_from[OF small, of q] by (auto simp: page_ok_def)
  qed
  have "kmem_ok s []" using assms k by (auto simp: kmem_ok_def word_less_nat_alt)
  then have "\<exists>s'. for_each kfree (pages_from ?p n) s = Ok s' \<and>
      kmem_ok s' (rev (pages_from ?p n) @ []) \<and> page_ok s' = page_ok s"
    by (rule ram.free_all) (use pages_from_distinct[OF small] mem in auto)
  with eq mem show ?thesis by (metis append_Nil2 set_rev)
qed

end
