(* ===== verification/K_Vm.thy ===== *)
theory K_Vm
  imports K_Alloc
begin

text \<open>
  \<open>xv6/kernel/vm.c\<close> with \<open>proc_mapstacks\<close> of \<open>proc.c\<close>, over the pages of physical memory: a page table is a
  page of 512 entries of eight bytes in the byte memory, and \<open>walk\<close> returns the address of an entry.
  A loop that steps by pages has as fuel the number of pages it can visit; \<open>Spin\<close> is never its result
  when the fuel is the one given here.  \<open>etext\<close> and \<open>trampoline\<close> are the linker's symbols.
\<close>

section \<open>The code\<close>

abbreviation PTE_V :: "64 word" where "PTE_V \<equiv> 1"
abbreviation PTE_R :: "64 word" where "PTE_R \<equiv> 2"
abbreviation PTE_W :: "64 word" where "PTE_W \<equiv> 4"
abbreviation PTE_X :: "64 word" where "PTE_X \<equiv> 8"
abbreviation PTE_U :: "64 word" where "PTE_U \<equiv> 16"

definition PA2PTE :: "addr \<Rightarrow> 64 word" where
  "PA2PTE pa = push_bit 10 (drop_bit 12 pa)"

definition PTE2PA :: "64 word \<Rightarrow> addr" where
  "PTE2PA pte = push_bit 12 (drop_bit 10 pte)"

definition PTE_FLAGS :: "64 word \<Rightarrow> 64 word" where
  "PTE_FLAGS pte = pte AND 0x3FF"

definition PX :: "nat \<Rightarrow> addr \<Rightarrow> 64 word" where
  "PX level va = drop_bit (12 + 9 * level) va AND 0x1FF"

definition MAXVA :: "64 word" where "MAXVA = 2 ^ 38"

definition TRAMPOLINE :: addr where "TRAMPOLINE = MAXVA - PGSIZE"

definition TRAPFRAME :: addr where "TRAPFRAME = TRAMPOLINE - PGSIZE"

definition KSTACK :: "nat \<Rightarrow> addr" where
  "KSTACK p = TRAMPOLINE - (of_nat p + 1) * 2 * PGSIZE"

definition UART0 :: addr where "UART0 = 0x10000000"
definition VIRTIO0 :: addr where "VIRTIO0 = 0x10001000"
definition PLIC :: addr where "PLIC = 0x0c000000"

definition NPROC :: nat where "NPROC = 64"

record vm_st = mem_st +
  kernel_pagetable :: addr
  etext :: addr
  trampoline :: addr

definition zero_page :: "addr \<Rightarrow> 'a mem_st_scheme \<Rightarrow> 'a mem_st_scheme" where
  "zero_page p s = s\<lparr>mem := memset (mem s) p 0 4096\<rparr>"

definition set_pte :: "addr \<Rightarrow> 64 word \<Rightarrow> 'a mem_st_scheme \<Rightarrow> 'a mem_st_scheme" where
  "set_pte a v s = s\<lparr>mem := st64 (mem s) a v\<rparr>"

text \<open>The loop of \<open>walk\<close> from \<open>level\<close> down; a null pointer is 0.\<close>

fun walk_from :: "nat \<Rightarrow> addr \<Rightarrow> addr \<Rightarrow> bool \<Rightarrow> 'a mem_st_scheme \<Rightarrow> (addr \<times> 'a mem_st_scheme) res" where
  "walk_from 0 pagetable va alloc s = Ok (pagetable + 8 * PX 0 va, s)"
| "walk_from (Suc k) pagetable va alloc s =
     (let pte = pagetable + 8 * PX (Suc k) va;
          v = ld64 (mem s) pte
      in if v AND PTE_V \<noteq> 0 then walk_from k (PTE2PA v) va alloc s
         else if \<not> alloc then Ok (0, s)
         else bnd (kalloc s) (\<lambda>(pg, s).
           if pg = 0 then Ok (0, s)
           else walk_from k pg va alloc (set_pte pte (PA2PTE pg OR PTE_V) (zero_page pg s))))"

definition walk :: "addr \<Rightarrow> addr \<Rightarrow> bool \<Rightarrow> 'a mem_st_scheme \<Rightarrow> (addr \<times> 'a mem_st_scheme) res" where
  "walk pagetable va alloc s =
     bnd (assertk (va < MAXVA) ''walk'') (\<lambda>_. walk_from 2 pagetable va alloc s)"

definition walkaddr :: "addr \<Rightarrow> addr \<Rightarrow> 'a mem_st_scheme \<Rightarrow> addr res" where
  "walkaddr pagetable va s =
     (if MAXVA \<le> va then Ok 0
      else bnd (walk pagetable va False s) (\<lambda>(pte, _).
        if pte = 0 then Ok 0
        else let v = ld64 (mem s) pte in
          if v AND PTE_V = 0 then Ok 0
          else if v AND PTE_U = 0 then Ok 0
          else Ok (PTE2PA v)))"

fun mappages_from :: "nat \<Rightarrow> addr \<Rightarrow> addr \<Rightarrow> addr \<Rightarrow> addr \<Rightarrow> 64 word \<Rightarrow> 'a mem_st_scheme \<Rightarrow>
    (int \<times> 'a mem_st_scheme) res" where
  "mappages_from 0 pagetable a lst pa perm s = Spin"
| "mappages_from (Suc n) pagetable a lst pa perm s =
     bnd (walk pagetable a True s) (\<lambda>(pte, s).
       if pte = 0 then Ok (-1, s)
       else bnd (assertk (ld64 (mem s) pte AND PTE_V = 0) ''mappages: remap'') (\<lambda>_.
         let s = set_pte pte (PA2PTE pa OR perm OR PTE_V) s in
         if a = lst then Ok (0, s)
         else mappages_from n pagetable (a + PGSIZE) lst (pa + PGSIZE) perm s))"

definition mappages :: "addr \<Rightarrow> addr \<Rightarrow> 64 word \<Rightarrow> addr \<Rightarrow> 64 word \<Rightarrow> 'a mem_st_scheme \<Rightarrow>
    (int \<times> 'a mem_st_scheme) res" where
  "mappages pagetable va len pa perm s =
     bnd (assertk (va mod PGSIZE = 0) ''mappages: va not aligned'') (\<lambda>_.
     bnd (assertk (len mod PGSIZE = 0) ''mappages: size not aligned'') (\<lambda>_.
     bnd (assertk (len \<noteq> 0) ''mappages: size'') (\<lambda>_.
       mappages_from (unat (len div PGSIZE)) pagetable va (va + len - PGSIZE) pa perm s)))"

definition kvmmap :: "addr \<Rightarrow> addr \<Rightarrow> addr \<Rightarrow> 64 word \<Rightarrow> 64 word \<Rightarrow> 'a mem_st_scheme \<Rightarrow> 'a mem_st_scheme res" where
  "kvmmap kpgtbl va pa sz perm s =
     bnd (mappages kpgtbl va sz pa perm s) (\<lambda>(r, s).
     bnd (assertk (r = 0) ''kvmmap'') (\<lambda>_. Ok s))"

definition proc_mapstacks :: "addr \<Rightarrow> 'a mem_st_scheme \<Rightarrow> 'a mem_st_scheme res" where
  "proc_mapstacks kpgtbl =
     for_each (\<lambda>i s.
       bnd (kalloc s) (\<lambda>(pa, s).
       bnd (assertk (pa \<noteq> 0) ''kalloc'') (\<lambda>_.
         kvmmap kpgtbl (KSTACK i) pa PGSIZE (PTE_R OR PTE_W) s))) [0..<NPROC]"

text \<open>\<open>kvmmake\<close> does not look at what \<open>kalloc\<close> returned: out of memory it would clear page 0.\<close>

definition kvmmake :: "'a vm_st_scheme \<Rightarrow> (addr \<times> 'a vm_st_scheme) res" where
  "kvmmake s =
     bnd (kalloc s) (\<lambda>(kpgtbl, s).
     bnd (kvmmap kpgtbl UART0 UART0 PGSIZE (PTE_R OR PTE_W) (zero_page kpgtbl s)) (\<lambda>s.
     bnd (kvmmap kpgtbl VIRTIO0 VIRTIO0 PGSIZE (PTE_R OR PTE_W) s) (\<lambda>s.
     bnd (kvmmap kpgtbl PLIC PLIC 0x4000000 (PTE_R OR PTE_W) s) (\<lambda>s.
     bnd (kvmmap kpgtbl KERNBASE KERNBASE (etext s - KERNBASE) (PTE_R OR PTE_X) s) (\<lambda>s.
     bnd (kvmmap kpgtbl (etext s) (etext s) (PHYSTOP - etext s) (PTE_R OR PTE_W) s) (\<lambda>s.
     bnd (kvmmap kpgtbl TRAMPOLINE (trampoline s) PGSIZE (PTE_R OR PTE_X) s) (\<lambda>s.
     bnd (proc_mapstacks kpgtbl s) (\<lambda>s.
       Ok (kpgtbl, s)))))))))"

definition kvminit :: "'a vm_st_scheme \<Rightarrow> 'a vm_st_scheme res" where
  "kvminit s = bnd (kvmmake s) (\<lambda>(p, s). Ok (s\<lparr>kernel_pagetable := p\<rparr>))"

definition uvmcreate :: "'a mem_st_scheme \<Rightarrow> (addr \<times> 'a mem_st_scheme) res" where
  "uvmcreate s =
     bnd (kalloc s) (\<lambda>(p, s). if p = 0 then Ok (0, s) else Ok (p, zero_page p s))"

fun uvmunmap_from :: "nat \<Rightarrow> addr \<Rightarrow> addr \<Rightarrow> addr \<Rightarrow> bool \<Rightarrow> 'a mem_st_scheme \<Rightarrow> 'a mem_st_scheme res" where
  "uvmunmap_from 0 pagetable a limit do_free s = (if a < limit then Spin else Ok s)"
| "uvmunmap_from (Suc n) pagetable a limit do_free s =
     (if a < limit then
        bnd (bnd (walk pagetable a False s) (\<lambda>(pte, s).
          if pte = 0 then Ok s
          else if ld64 (mem s) pte AND PTE_V = 0 then Ok s
          else bnd (if do_free then kfree (PTE2PA (ld64 (mem s) pte)) s else Ok s) (\<lambda>s.
            Ok (set_pte pte 0 s)))) (uvmunmap_from n pagetable (a + PGSIZE) limit do_free)
      else Ok s)"

definition uvmunmap :: "addr \<Rightarrow> addr \<Rightarrow> 64 word \<Rightarrow> bool \<Rightarrow> 'a mem_st_scheme \<Rightarrow> 'a mem_st_scheme res" where
  "uvmunmap pagetable va npages do_free s =
     bnd (assertk (va mod PGSIZE = 0) ''uvmunmap: not aligned'') (\<lambda>_.
       uvmunmap_from (unat npages) pagetable va (va + npages * PGSIZE) do_free s)"

text \<open>\<open>int npages\<close> keeps the low 32 bits of the quotient.\<close>

definition uvmdealloc :: "addr \<Rightarrow> 64 word \<Rightarrow> 64 word \<Rightarrow> 'a mem_st_scheme \<Rightarrow> (64 word \<times> 'a mem_st_scheme) res" where
  "uvmdealloc pagetable oldsz newsz s =
     (if oldsz \<le> newsz then Ok (oldsz, s)
      else if PGROUNDUP newsz < PGROUNDUP oldsz then
        let npages = to_int32 (uint ((PGROUNDUP oldsz - PGROUNDUP newsz) div PGSIZE)) in
        bnd (uvmunmap pagetable (PGROUNDUP newsz) (word_of_int npages) True s) (\<lambda>s. Ok (newsz, s))
      else Ok (newsz, s))"

fun uvmalloc_from :: "nat \<Rightarrow> addr \<Rightarrow> 64 word \<Rightarrow> 64 word \<Rightarrow> 64 word \<Rightarrow> 64 word \<Rightarrow> 'a mem_st_scheme \<Rightarrow>
    (64 word \<times> 'a mem_st_scheme) res" where
  "uvmalloc_from 0 pagetable oldsz a newsz xperm s = (if a < newsz then Spin else Ok (newsz, s))"
| "uvmalloc_from (Suc n) pagetable oldsz a newsz xperm s =
     (if a < newsz then
        bnd (kalloc s) (\<lambda>(pg, s).
          if pg = 0 then bnd (uvmdealloc pagetable a oldsz s) (\<lambda>(_, s). Ok (0, s))
          else bnd (mappages pagetable a PGSIZE pg (PTE_R OR PTE_U OR xperm) (zero_page pg s)) (\<lambda>(r, s).
            if r \<noteq> 0 then
              bnd (kfree pg s) (\<lambda>s. bnd (uvmdealloc pagetable a oldsz s) (\<lambda>(_, s). Ok (0, s)))
            else uvmalloc_from n pagetable oldsz (a + PGSIZE) newsz xperm s))
      else Ok (newsz, s))"

definition uvmalloc :: "addr \<Rightarrow> 64 word \<Rightarrow> 64 word \<Rightarrow> 64 word \<Rightarrow> 'a mem_st_scheme \<Rightarrow>
    (64 word \<times> 'a mem_st_scheme) res" where
  "uvmalloc pagetable oldsz newsz xperm s =
     (if newsz < oldsz then Ok (oldsz, s)
      else uvmalloc_from (Suc (unat (newsz div PGSIZE))) pagetable (PGROUNDUP oldsz) (PGROUNDUP oldsz)
             newsz xperm s)"

text \<open>\<open>n\<close> bounds the depth of the recursion; a user page table has three levels.\<close>

fun freewalk :: "nat \<Rightarrow> addr \<Rightarrow> 'a mem_st_scheme \<Rightarrow> 'a mem_st_scheme res" where
  "freewalk 0 pagetable s = Spin"
| "freewalk (Suc n) pagetable s =
     bnd (for_each (\<lambda>i s.
            let a = pagetable + 8 * of_nat i;
                pte = ld64 (mem s) a
            in if pte AND PTE_V \<noteq> 0 \<and> pte AND (PTE_R OR PTE_W OR PTE_X) = 0
               then bnd (freewalk n (PTE2PA pte) s) (\<lambda>s. Ok (set_pte a 0 s))
               else if pte AND PTE_V \<noteq> 0 then Panic ''freewalk: leaf''
               else Ok s) [0..<512] s)
       (kfree pagetable)"

definition uvmfree :: "addr \<Rightarrow> 64 word \<Rightarrow> 'a mem_st_scheme \<Rightarrow> 'a mem_st_scheme res" where
  "uvmfree pagetable sz s =
     bnd (if 0 < sz then uvmunmap pagetable 0 (PGROUNDUP sz div PGSIZE) True s else Ok s)
       (freewalk 3 pagetable)"

text \<open>\<open>uvmcopy\<close> undoes its mappings up to \<open>i\<close> where a page or a table is not to be had.\<close>

fun uvmcopy_from :: "nat \<Rightarrow> addr \<Rightarrow> addr \<Rightarrow> 64 word \<Rightarrow> 64 word \<Rightarrow> 'a mem_st_scheme \<Rightarrow>
    (int \<times> 'a mem_st_scheme) res" where
  "uvmcopy_from 0 old new i sz s = (if i < sz then Spin else Ok (0, s))"
| "uvmcopy_from (Suc n) old new i sz s =
     (if i < sz then
        bnd (walk old i False s) (\<lambda>(pte, s).
          if pte = 0 then uvmcopy_from n old new (i + PGSIZE) sz s
          else if ld64 (mem s) pte AND PTE_V = 0 then uvmcopy_from n old new (i + PGSIZE) sz s
          else
            let pa = PTE2PA (ld64 (mem s) pte);
                flags = PTE_FLAGS (ld64 (mem s) pte);
                undo = (\<lambda>s. bnd (uvmunmap new 0 (i div PGSIZE) True s) (\<lambda>s. Ok (-1, s)))
            in bnd (kalloc s) (\<lambda>(pg, s).
              if pg = 0 then undo s
              else let s = s\<lparr>mem := memmove (mem s) pg pa 4096\<rparr> in
                bnd (mappages new i PGSIZE pg flags s) (\<lambda>(r, s).
                  if r \<noteq> 0 then bnd (kfree pg s) undo
                  else uvmcopy_from n old new (i + PGSIZE) sz s)))
      else Ok (0, s))"

definition uvmcopy :: "addr \<Rightarrow> addr \<Rightarrow> 64 word \<Rightarrow> 'a mem_st_scheme \<Rightarrow> (int \<times> 'a mem_st_scheme) res" where
  "uvmcopy old new sz s = uvmcopy_from (Suc (unat (sz div PGSIZE))) old new 0 sz s"

definition uvmclear :: "addr \<Rightarrow> addr \<Rightarrow> 'a mem_st_scheme \<Rightarrow> 'a mem_st_scheme res" where
  "uvmclear pagetable va s =
     bnd (walk pagetable va False s) (\<lambda>(pte, s).
     bnd (assertk (pte \<noteq> 0) ''uvmclear'') (\<lambda>_.
       Ok (set_pte pte (ld64 (mem s) pte AND NOT PTE_U) s)))"

definition ismapped :: "addr \<Rightarrow> addr \<Rightarrow> 'a mem_st_scheme \<Rightarrow> bool res" where
  "ismapped pagetable va s =
     bnd (walk pagetable va False s) (\<lambda>(pte, _).
       if pte = 0 then Ok False
       else Ok (ld64 (mem s) pte AND PTE_V \<noteq> 0))"

text \<open>A page of the lazily allocated heap; the argument \<open>read\<close> of the code is unused.\<close>

definition vmfault :: "addr \<Rightarrow> 64 word \<Rightarrow> addr \<Rightarrow> 'a mem_st_scheme \<Rightarrow> (addr \<times> 'a mem_st_scheme) res" where
  "vmfault pagetable psz va s =
     (if psz \<le> va then Ok (0, s)
      else
        let va = PGROUNDDOWN va in
        bnd (ismapped pagetable va s) (\<lambda>b.
          if b then Ok (0, s)
          else bnd (kalloc s) (\<lambda>(pg, s).
            if pg = 0 then Ok (0, s)
            else bnd (mappages pagetable va PGSIZE pg (PTE_W OR PTE_U OR PTE_R) (zero_page pg s)) (\<lambda>(r, s).
              if r \<noteq> 0 then bnd (kfree pg s) (\<lambda>s. Ok (0, s))
              else Ok (pg, s)))))"

text \<open>\<open>walkaddr\<close>, then \<open>vmfault\<close> where there is no mapping: 0 is a bad address.\<close>

definition user_page :: "addr \<Rightarrow> 64 word \<Rightarrow> addr \<Rightarrow> 'a mem_st_scheme \<Rightarrow> (addr \<times> 'a mem_st_scheme) res" where
  "user_page pagetable psz va0 s =
     bnd (walkaddr pagetable va0 s) (\<lambda>pa0.
       if pa0 = 0 then vmfault pagetable psz va0 s else Ok (pa0, s))"

text \<open>The copies go page by page; every turn copies a byte at least, so \<open>len\<close> turns are enough.\<close>

fun copyout_from :: "nat \<Rightarrow> addr \<Rightarrow> 64 word \<Rightarrow> addr \<Rightarrow> addr \<Rightarrow> 64 word \<Rightarrow> 'a mem_st_scheme \<Rightarrow>
    (int \<times> 'a mem_st_scheme) res" where
  "copyout_from 0 pagetable psz dstva src len s = (if 0 < len then Spin else Ok (0, s))"
| "copyout_from (Suc k) pagetable psz dstva src len s =
     (if 0 < len then
        let va0 = PGROUNDDOWN dstva in
        if MAXVA \<le> va0 then Ok (-1, s)
        else bnd (user_page pagetable psz va0 s) (\<lambda>(pa0, s).
          if pa0 = 0 then Ok (-1, s)
          else bnd (walk pagetable va0 False s) (\<lambda>(pte, s).
          bnd (guard (pte \<noteq> 0) ''null pte'') (\<lambda>_.
            if ld64 (mem s) pte AND PTE_W = 0 then Ok (-1, s)
            else
              let n = min (PGSIZE - (dstva - va0)) len;
                  s = s\<lparr>mem := memmove (mem s) (pa0 + (dstva - va0)) src (unat n)\<rparr>
              in copyout_from k pagetable psz (va0 + PGSIZE) (src + n) (len - n) s)))
      else Ok (0, s))"

definition copyout :: "addr \<Rightarrow> 64 word \<Rightarrow> addr \<Rightarrow> addr \<Rightarrow> 64 word \<Rightarrow> 'a mem_st_scheme \<Rightarrow>
    (int \<times> 'a mem_st_scheme) res" where
  "copyout pagetable psz dstva src len s = copyout_from (unat len) pagetable psz dstva src len s"

fun copyin_from :: "nat \<Rightarrow> addr \<Rightarrow> 64 word \<Rightarrow> addr \<Rightarrow> addr \<Rightarrow> 64 word \<Rightarrow> 'a mem_st_scheme \<Rightarrow>
    (int \<times> 'a mem_st_scheme) res" where
  "copyin_from 0 pagetable psz dst srcva len s = (if 0 < len then Spin else Ok (0, s))"
| "copyin_from (Suc k) pagetable psz dst srcva len s =
     (if 0 < len then
        let va0 = PGROUNDDOWN srcva in
        bnd (user_page pagetable psz va0 s) (\<lambda>(pa0, s).
          if pa0 = 0 then Ok (-1, s)
          else
            let n = min (PGSIZE - (srcva - va0)) len;
                s = s\<lparr>mem := memmove (mem s) dst (pa0 + (srcva - va0)) (unat n)\<rparr>
            in copyin_from k pagetable psz (dst + n) (va0 + PGSIZE) (len - n) s)
      else Ok (0, s))"

definition copyin :: "addr \<Rightarrow> 64 word \<Rightarrow> addr \<Rightarrow> addr \<Rightarrow> 64 word \<Rightarrow> 'a mem_st_scheme \<Rightarrow>
    (int \<times> 'a mem_st_scheme) res" where
  "copyin pagetable psz dst srcva len s = copyin_from (unat len) pagetable psz dst srcva len s"

text \<open>The inner loop of \<open>copyinstr\<close> over \<open>n\<close> bytes of one page: whether it met the NUL, and the memory.\<close>

fun copy_str :: "bytes \<Rightarrow> addr \<Rightarrow> addr \<Rightarrow> nat \<Rightarrow> bool \<times> bytes" where
  "copy_str m dst p 0 = (False, m)"
| "copy_str m dst p (Suc n) =
     (if m p = 0 then (True, m(dst := 0)) else copy_str (m(dst := m p)) (dst + 1) (p + 1) n)"

fun copyinstr_from :: "nat \<Rightarrow> addr \<Rightarrow> 64 word \<Rightarrow> addr \<Rightarrow> addr \<Rightarrow> 64 word \<Rightarrow> 'a mem_st_scheme \<Rightarrow>
    (int \<times> 'a mem_st_scheme) res" where
  "copyinstr_from 0 pagetable psz dst srcva mx s = (if 0 < mx then Spin else Ok (-1, s))"
| "copyinstr_from (Suc k) pagetable psz dst srcva mx s =
     (if 0 < mx then
        let va0 = PGROUNDDOWN srcva in
        bnd (user_page pagetable psz va0 s) (\<lambda>(pa0, s).
          if pa0 = 0 then Ok (-1, s)
          else
            let n = min (PGSIZE - (srcva - va0)) mx;
                (got_null, m) = copy_str (mem s) dst (pa0 + (srcva - va0)) (unat n);
                s = s\<lparr>mem := m\<rparr>
            in if got_null then Ok (0, s)
               else copyinstr_from k pagetable psz (dst + n) (va0 + PGSIZE) (mx - n) s)
      else Ok (-1, s))"

definition copyinstr :: "addr \<Rightarrow> 64 word \<Rightarrow> addr \<Rightarrow> addr \<Rightarrow> 64 word \<Rightarrow> 'a mem_st_scheme \<Rightarrow>
    (int \<times> 'a mem_st_scheme) res" where
  "copyinstr pagetable psz dst srcva mx s = copyinstr_from (unat mx) pagetable psz dst srcva mx s"

section \<open>Page tables as trees\<close>

text \<open>The entry of a table for \<open>va\<close>, and its address.\<close>

definition slot :: "addr \<Rightarrow> 64 word \<Rightarrow> addr" where
  "slot p i = p + 8 * i"

text \<open>The address of the leaf entry that a walk which allocates nothing finds.\<close>

fun down :: "bytes \<Rightarrow> nat \<Rightarrow> addr \<Rightarrow> addr \<Rightarrow> addr option" where
  "down m 0 p va = Some (slot p (PX 0 va))"
| "down m (Suc k) p va =
     (let v = ld64 m (slot p (PX (Suc k) va)) in
      if v AND PTE_V \<noteq> 0 then down m k (PTE2PA v) va else None)"

text \<open>What the table maps \<open>va\<close> to: the valid leaf entry, 0 where there is none.\<close>

definition entry :: "64 word \<Rightarrow> 64 word" where
  "entry v = (if v AND PTE_V \<noteq> 0 then v else 0)"

definition tr :: "bytes \<Rightarrow> nat \<Rightarrow> addr \<Rightarrow> addr \<Rightarrow> 64 word" where
  "tr m k p va = (case down m k p va of None \<Rightarrow> 0 | Some a \<Rightarrow> entry (ld64 m a))"

lemma tr_simps:
  "tr m 0 p va = entry (ld64 m (slot p (PX 0 va)))"
  "tr m (Suc k) p va = (let v = ld64 m (slot p (PX (Suc k) va)) in
     if v AND PTE_V \<noteq> 0 then tr m k (PTE2PA v) va else 0)"
  by (simp_all add: tr_def Let_def)

lemma walk_reads: "walk_from k p va False s = Ok (case down (mem s) k p va of None \<Rightarrow> 0 | Some a \<Rightarrow> a, s)"
  by (induction k arbitrary: p) (simp_all add: slot_def Let_def)

text \<open>
  \<open>tbl m k p T\<close>: the table page \<open>p\<close> at level \<open>k\<close> is the root of a tree of the table pages \<open>T\<close>, no page
  in it twice.
\<close>

fun tbl :: "bytes \<Rightarrow> nat \<Rightarrow> addr \<Rightarrow> addr set \<Rightarrow> bool" where
  "tbl m 0 p T \<longleftrightarrow> aligned p \<and> T = {p}"
| "tbl m (Suc k) p T \<longleftrightarrow> aligned p \<and>
     (\<exists>f. (\<forall>i < 512. let v = ld64 m (slot p i) in
             if v AND PTE_V \<noteq> 0 then tbl m k (PTE2PA v) (f i) else f i = {}) \<and>
          (\<forall>i < 512. p \<notin> f i) \<and>
          (\<forall>i < 512. \<forall>j < 512. i \<noteq> j \<longrightarrow> f i \<inter> f j = {}) \<and>
          T = insert p (\<Union>i \<in> {..<512}. f i))"

text \<open>The subtrees \<open>f\<close> of a table, one per entry.\<close>

definition branches :: "bytes \<Rightarrow> nat \<Rightarrow> addr \<Rightarrow> (64 word \<Rightarrow> addr set) \<Rightarrow> addr set \<Rightarrow> bool" where
  "branches m k p f T \<longleftrightarrow> aligned p \<and>
     (\<forall>i < 512. let v = ld64 m (slot p i) in
        if v AND PTE_V \<noteq> 0 then tbl m k (PTE2PA v) (f i) else f i = {}) \<and>
     (\<forall>i < 512. p \<notin> f i) \<and>
     (\<forall>i < 512. \<forall>j < 512. i \<noteq> j \<longrightarrow> f i \<inter> f j = {}) \<and>
     T = insert p (\<Union>i \<in> {..<512}. f i)"

lemma tbl_Suc: "tbl m (Suc k) p T \<longleftrightarrow> (\<exists>f. branches m k p f T)"
  by (simp add: branches_def)

lemma branchesD:
  assumes "branches m k p f T"
  shows "aligned p"
    "i < 512 \<Longrightarrow> ld64 m (slot p i) AND PTE_V \<noteq> 0 \<Longrightarrow> tbl m k (PTE2PA (ld64 m (slot p i))) (f i)"
    "i < 512 \<Longrightarrow> ld64 m (slot p i) AND PTE_V = 0 \<Longrightarrow> f i = {}"
    "i < 512 \<Longrightarrow> p \<notin> f i" "i < 512 \<Longrightarrow> j < 512 \<Longrightarrow> i \<noteq> j \<Longrightarrow> f i \<inter> f j = {}"
    "T = insert p (\<Union>i \<in> {..<512}. f i)" "i < 512 \<Longrightarrow> f i \<subseteq> T"
  using assms by (auto simp: branches_def Let_def)

declare tbl.simps(2) [simp del]

definition inpages :: "addr set \<Rightarrow> addr \<Rightarrow> bool" where
  "inpages T a \<longleftrightarrow> (\<exists>p \<in> T. within a p 4096)"

lemma inpagesI: "p \<in> T \<Longrightarrow> within a p 4096 \<Longrightarrow> inpages T a"
  by (auto simp: inpages_def)

lemma inpages_mono: "inpages S a \<Longrightarrow> S \<subseteq> T \<Longrightarrow> inpages T a"
  by (auto simp: inpages_def)

lemma PX_lt [simp]: "PX k va < 512"
proof -
  have "PX k va = take_bit 9 (drop_bit (12 + 9 * k) va)"
    by (simp add: PX_def take_bit_eq_mask mask_eq_exp_minus_1)
  moreover have "take_bit 9 w < (512 :: 64 word)" for w :: "64 word"
    by (simp only: word_less_nat_alt unsigned_take_bit_eq) (simp add: take_bit_eq_mod)
  ultimately show ?thesis by simp
qed

lemma unat_slot_off: "i < 512 \<Longrightarrow> unat (8 * i :: 64 word) = 8 * unat i"
proof -
  assume "i < (512 :: 64 word)"
  then have "unat i < 512" by (simp add: word_less_nat_alt)
  then show ?thesis by (simp add: unat_word_ariths)
qed

lemma slot_within:
  assumes "i < 512" and "j < 8"
  shows "within (slot p i + of_nat j) p 4096"
proof -
  have i: "unat i < 512" using assms(1) by (simp add: word_less_nat_alt)
  have "slot p i + of_nat j - p = 8 * i + of_nat j" by (simp add: slot_def)
  moreover have "unat (8 * i + of_nat j :: 64 word) = 8 * unat i + j"
    using unat_offset[of "8 * i" j] assms i by (simp add: unat_slot_off)
  ultimately have "unat (slot p i + of_nat j - p) = 8 * unat i + j" by argo
  then show ?thesis unfolding within_def using i assms(2) by linarith
qed

lemma slot_apart:
  assumes "i < 512" "j < 512" "i \<noteq> j"
  shows "\<not> within (slot p i + of_nat n) (slot p j) 8 \<or> 8 \<le> n"
proof (rule ccontr)
  assume "\<not> ?thesis"
  then have w: "within (slot p i + of_nat n) (slot p j) 8" and n: "n < 8" by auto
  have ij: "unat i < 512" "unat j < 512" "unat i \<noteq> unat j"
    using assms by (simp_all add: word_less_nat_alt word_unat_eq_iff)
  define d where "d = slot p i + of_nat n - slot p j"
  have "unat d < 8" using w by (simp add: within_def d_def)
  moreover have "8 * i + of_nat n = 8 * j + of_nat (unat d)"
    by (simp add: d_def slot_def algebra_simps)
  ultimately have "8 * unat i + n = 8 * unat j + unat d"
    using offset_eq[of "8 * i" n "8 * j" "unat d"] ij n assms by (simp add: unat_slot_off)
  then have "(8 * unat i + n) div 8 = (8 * unat j + unat d) div 8" by simp
  with n \<open>unat d < 8\<close> ij show False by simp
qed

lemma ld64_page:
  assumes "i < 512" and "\<And>a. within a p 4096 \<Longrightarrow> m' a = m a"
  shows "ld64 m' (slot p i) = ld64 m (slot p i)"
  by (rule ld64_cong) (use assms slot_within in blast)

text \<open>A tree depends on the bytes of its pages only.\<close>

lemma tbl_cong:
  assumes "tbl m k p T" and "\<And>a. inpages T a \<Longrightarrow> m' a = m a"
  shows "tbl m' k p T" and "down m' k p va = down m k p va" and "tr m' k p va = tr m k p va"
proof -
  have "tbl m' k p T \<and> down m' k p va = down m k p va \<and> tr m' k p va = tr m k p va"
    using assms
  proof (induction k arbitrary: p T)
    case 0
    then have "ld64 m' (slot p (PX 0 va)) = ld64 m (slot p (PX 0 va))"
      by (intro ld64_page) (auto simp: inpages_def)
    with 0 show ?case by (simp add: tr_def)
  next
    case (Suc k)
    from Suc.prems(1) obtain f where br: "branches m k p f T" by (auto simp: tbl_Suc)
    note b = branchesD[OF br]
    have same: "ld64 m' (slot p i) = ld64 m (slot p i)" if "i < 512" for i
      using that by (rule ld64_page) (use Suc.prems(2) b(6) in \<open>auto simp: inpages_def\<close>)
    have sub: "tbl m' k (PTE2PA v) (f i) \<and> down m' k (PTE2PA v) va = down m k (PTE2PA v) va \<and>
        tr m' k (PTE2PA v) va = tr m k (PTE2PA v) va"
      if "i < 512" "v = ld64 m (slot p i)" "v AND PTE_V \<noteq> 0" for i v
    proof (rule Suc.IH)
      show "tbl m k (PTE2PA v) (f i)" using b(2)[OF that(1)] that by simp
      show "m' a = m a" if "inpages (f i) a" for a
        by (rule Suc.prems(2)) (rule inpages_mono[OF that b(7)[OF \<open>i < 512\<close>]])
    qed
    have "branches m' k p f T"
      using br same sub unfolding branches_def by (simp add: Let_def)
    then have "tbl m' (Suc k) p T" by (auto simp: tbl_Suc)
    moreover have "down m' (Suc k) p va = down m (Suc k) p va"
      using same[of "PX (Suc k) va"] sub[of "PX (Suc k) va"] by (simp add: Let_def)
    moreover have "tr m' (Suc k) p va = tr m (Suc k) p va"
      using same[of "PX (Suc k) va"] sub[of "PX (Suc k) va"] by (simp add: Let_def tr_simps)
    ultimately show ?case by simp
  qed
  then show "tbl m' k p T" "down m' k p va = down m k p va" "tr m' k p va = tr m k p va" by simp_all
qed

lemma tbl_aligned: "tbl m k p T \<Longrightarrow> p \<in> T \<and> (\<forall>q \<in> T. aligned q)"
proof (induction k arbitrary: p T)
  case (Suc k)
  from Suc.prems obtain f where "branches m k p f T" by (auto simp: tbl_Suc)
  note b = branchesD[OF this]
  have "aligned q" if "i < 512" "q \<in> f i" for i q
    using b(2,3)[OF that(1)] that(2) Suc.IH by blast
  with b(1,6) show ?case by auto
qed simp

text \<open>A page of zeros is an empty table.\<close>

lemma ld64_zero:
  assumes "i < 512" and "\<And>a. within a p 4096 \<Longrightarrow> m a = 0"
  shows "ld64 m (slot p i) = 0"
proof -
  have "ld64 m (slot p i) = ld64 (\<lambda>_. 0) (slot p i)" by (rule ld64_page) (use assms in simp_all)
  then show ?thesis by (simp add: ld64_def)
qed

lemma tbl_zero:
  assumes "aligned p" and "\<And>a. within a p 4096 \<Longrightarrow> m a = 0"
  shows "tbl m k p {p}" and "tr m k p va = 0"
proof -
  note z = ld64_zero[OF _ assms(2), where ?p = p]
  show "tbl m k p {p}"
  proof (cases k)
    case (Suc j)
    have "branches m j p (\<lambda>_. {}) {p}" using assms(1) z by (simp add: branches_def)
    with Suc show ?thesis by (auto simp: tbl_Suc)
  qed (use assms in simp)
  show "tr m k p va = 0" using z by (cases k) (simp_all add: tr_simps entry_def)
qed

text \<open>
  Replacing one subtree: \<open>m'\<close> differs from \<open>m\<close> only inside the subtree below entry \<open>i\<close> and in pages \<open>N\<close>
  outside the tree, and has a tree below that entry again.
\<close>

lemma tbl_replace:
  assumes t: "tbl m (Suc k) p T" and i: "i < 512" and v: "ld64 m (slot p i) AND PTE_V \<noteq> 0"
    and c: "tbl m k (PTE2PA (ld64 m (slot p i))) C"
    and c': "tbl m' k (PTE2PA (ld64 m (slot p i))) C'"
    and frame: "\<And>a. \<not> inpages (C \<union> N) a \<Longrightarrow> m' a = m a"
    and C': "C' \<subseteq> C \<union> N" and N: "N \<inter> T = {}" "\<forall>q \<in> N. aligned q"
    and CT: "\<And>f. tbl m k (PTE2PA (ld64 m (slot p i))) f \<Longrightarrow> f = C"
  shows "tbl m' (Suc k) p (T - C \<union> C')"
    and "\<And>va. PX (Suc k) va \<noteq> i \<Longrightarrow> tr m' (Suc k) p va = tr m (Suc k) p va \<and> down m' (Suc k) p va = down m (Suc k) p va"
    and "\<And>j. j < 512 \<Longrightarrow> ld64 m' (slot p j) = ld64 m (slot p j)"
proof -
  obtain f where br: "branches m k p f T" using t by (auto simp: tbl_Suc)
  note al = branchesD(1)[OF br] and f1 = branchesD(2)[OF br] and f0 = branchesD(3)[OF br]
    and pf = branchesD(4)[OF br] and dj = branchesD(5)[OF br] and T = branchesD(6)[OF br]
  have fi: "f i = C" by (rule CT) (rule f1[OF i v])
  have ap: "aligned q" if "q \<in> T \<union> N" for q using that N tbl_aligned[OF t] by auto
  have keep: "m' a = m a" if "inpages S a" "S \<subseteq> T - C" for S a
  proof (rule frame, rule notI)
    assume "inpages (C \<union> N) a"
    then obtain q where q: "q \<in> C \<union> N" "within a q 4096" by (auto simp: inpages_def)
    from that obtain r where r: "r \<in> T - C" "within a r 4096" by (auto simp: inpages_def)
    have "C \<subseteq> T" using fi T i by auto
    then have "q = r" using pages_apart[of q r a] q r ap by auto
    with q r N show False by auto
  qed
  have pC: "p \<notin> C" using pf[OF i] fi by simp
  have here: "m' a = m a" if "within a p 4096" for a
    by (rule keep[of "{p}"]) (use that pC T in \<open>auto simp: inpages_def\<close>)
  show same: "\<And>j. j < 512 \<Longrightarrow> ld64 m' (slot p j) = ld64 m (slot p j)"
    by (rule ld64_page) (use here in simp_all)
  have sub: "tbl m' k (PTE2PA (ld64 m (slot p j))) (f j)"
    "tr m' k (PTE2PA (ld64 m (slot p j))) va = tr m k (PTE2PA (ld64 m (slot p j))) va"
    "down m' k (PTE2PA (ld64 m (slot p j))) va = down m k (PTE2PA (ld64 m (slot p j))) va"
    if "j < 512" "j \<noteq> i" "ld64 m (slot p j) AND PTE_V \<noteq> 0" for j va
  proof -
    have "f j \<subseteq> T - C" using dj[OF that(1) i that(2)] fi T that(1) by auto
    note k = keep[OF _ this]
    show "tbl m' k (PTE2PA (ld64 m (slot p j))) (f j)"
      "tr m' k (PTE2PA (ld64 m (slot p j))) va = tr m k (PTE2PA (ld64 m (slot p j))) va"
      "down m' k (PTE2PA (ld64 m (slot p j))) va = down m k (PTE2PA (ld64 m (slot p j))) va"
      using tbl_cong[OF f1[OF that(1,3)] k] by simp_all
  qed
  show "\<And>va. PX (Suc k) va \<noteq> i \<Longrightarrow> tr m' (Suc k) p va = tr m (Suc k) p va \<and> down m' (Suc k) p va = down m (Suc k) p va"
    using same sub by (simp add: tr_simps Let_def)
  let ?f = "f(i := C')"
  have Nf: "N \<inter> f j = {}" if "j < 512" for j using N T that by auto
  have parts: "T - C \<union> C' = insert p (\<Union>j \<in> {..<512}. ?f j)"
  proof -
    have "f j \<inter> C = {}" if "j < 512" "j \<noteq> i" for j using dj[OF that(1) i that(2)] fi by simp
    then show ?thesis using T fi i pC by (auto split: if_splits)
  qed
  show "tbl m' (Suc k) p (T - C \<union> C')"
    unfolding parts tbl_Suc branches_def Let_def
  proof (intro conjI exI[of _ ?f] allI impI al)
    fix j :: "64 word" assume j: "j < 512"
    show "if ld64 m' (slot p j) AND PTE_V \<noteq> 0 then tbl m' k (PTE2PA (ld64 m' (slot p j))) (?f j)
      else ?f j = {}"
      using same[OF j] c' v sub(1)[OF j] f0[OF j] by (cases "j = i") auto
    show "p \<notin> ?f j" using pf[OF j] pf[OF i] fi C' N T by (cases "j = i") auto
  next
    fix j l :: "64 word" assume jl: "j < 512" "l < 512" "j \<noteq> l"
    have "C' \<inter> f j = {}" if "j < 512" "j \<noteq> i" for j
      using dj[OF i that(1)] Nf[OF that(1)] fi C' that(2) by blast
    then show "?f j \<inter> ?f l = {}" using jl dj[OF jl] by auto
  qed simp
qed

text \<open>The pages of a tree are determined by the memory.\<close>

lemma tbl_unique: "tbl m k p S \<Longrightarrow> tbl m k p T \<Longrightarrow> S = T"
proof (induction k arbitrary: p S T)
  case (Suc k)
  from Suc.prems obtain f g where f: "branches m k p f S" and g: "branches m k p g T" by (auto simp: tbl_Suc)
  have "f i = g i" if "i < 512" for i
    using Suc.IH[OF branchesD(2)[OF f that] branchesD(2)[OF g that]]
      branchesD(3)[OF f that] branchesD(3)[OF g that] by fastforce
  with branchesD(6)[OF f] branchesD(6)[OF g] show ?case by simp
qed simp

text \<open>A store into a leaf entry: the tree stays, and only the addresses with these indices change.\<close>

definition same_page :: "nat \<Rightarrow> addr \<Rightarrow> addr \<Rightarrow> bool" where
  "same_page k va vb \<longleftrightarrow> (\<forall>i \<le> k. PX i va = PX i vb)"

lemma same_page_Suc: "same_page (Suc k) va vb \<longleftrightarrow> PX (Suc k) va = PX (Suc k) vb \<and> same_page k va vb"
  by (auto simp: same_page_def le_Suc_eq)

lemma st64_slot:
  assumes "i < 512" "j < 512"
  shows "ld64 (st64 m (slot p i) v) (slot p j) = (if i = j then v else ld64 m (slot p j))"
proof (cases "i = j")
  case False
  have "ld64 (st64 m (slot p i) v) (slot p j) = ld64 m (slot p j)"
  proof (rule ld64_cong)
    fix n :: nat assume "n < 8"
    then have "\<not> within (slot p j + of_nat n) (slot p i) 8"
      using slot_apart[OF assms(2,1), of p n] False by simp
    then show "st64 m (slot p i) v (slot p j + of_nat n) = m (slot p j + of_nat n)"
      by (rule st64_other)
  qed
  with False show ?thesis by simp
qed simp

lemma st64_slot_frame:
  assumes "i < 512" and "\<not> within b p 4096"
  shows "st64 m (slot p i) v b = m b"
proof (rule st64_other, rule notI)
  assume "within b (slot p i) 8"
  then have "unat (b - slot p i) < 8" by (simp add: within_def)
  then have "within (slot p i + of_nat (unat (b - slot p i))) p 4096" by (rule slot_within[OF assms(1)])
  with assms(2) show False by simp
qed

lemma tbl_set_leaf:
  assumes "tbl m k p T" and "down m k p va = Some a"
  shows "tbl (st64 m a v) k p T \<and> (\<forall>b. \<not> inpages T b \<longrightarrow> st64 m a v b = m b) \<and>
    (\<forall>vb. down (st64 m a v) k p vb = down m k p vb \<and>
      tr (st64 m a v) k p vb = (if same_page k va vb then entry v else tr m k p vb))"
  using assms
proof (induction k arbitrary: p T)
  case 0
  then have a: "a = slot p (PX 0 va)" and p: "aligned p" "T = {p}" by simp_all
  have "tr (st64 m a v) 0 p vb = (if same_page 0 va vb then entry v else tr m 0 p vb)" for vb
    by (simp add: a tr_simps st64_slot same_page_def)
  then show ?case using p by (auto simp: a inpages_def intro: st64_slot_frame)
next
  case (Suc k)
  define i where "i = PX (Suc k) va"
  define c where "c = PTE2PA (ld64 m (slot p i))"
  have i: "i < 512" and v: "ld64 m (slot p i) AND PTE_V \<noteq> 0" and d: "down m k c va = Some a"
    using Suc.prems(2) by (auto simp: i_def c_def Let_def split: if_splits)
  from Suc.prems(1) obtain f where br: "branches m k p f T" by (auto simp: tbl_Suc)
  have C: "tbl m k c (f i)" unfolding c_def by (rule branchesD(2)[OF br i v])
  note ih = Suc.IH[OF C d]
  let ?m = "st64 m a v"
  have fr: "\<And>b. \<not> inpages (f i \<union> {}) b \<Longrightarrow> ?m b = m b" using ih by simp
  have C': "tbl ?m k c (f i)" using ih by simp
  note r = tbl_replace[OF Suc.prems(1) i v C[unfolded c_def] C'[unfolded c_def] fr _ _ _ tbl_unique[OF _ C[unfolded c_def]]]
  have "tbl ?m (Suc k) p (T - f i \<union> f i)" by (rule r) auto
  then have t: "tbl ?m (Suc k) p T"
    using branchesD(7)[OF br i] by (simp add: Un_absorb2 sup.absorb_iff1)
  have same: "ld64 ?m (slot p j) = ld64 m (slot p j)" if "j < 512" for j by (rule r(3)) (use that in auto)
  have "down ?m (Suc k) p vb = down m (Suc k) p vb \<and>
      tr ?m (Suc k) p vb = (if same_page (Suc k) va vb then entry v else tr m (Suc k) p vb)" for vb
  proof (cases "PX (Suc k) vb = i")
    case True
    have "down ?m (Suc k) p vb = down ?m k c vb" "down m (Suc k) p vb = down m k c vb"
      "tr ?m (Suc k) p vb = tr ?m k c vb" "tr m (Suc k) p vb = tr m k c vb"
      using True same[OF i] v by (simp_all add: Let_def tr_simps c_def)
    then show ?thesis using ih True by (simp add: same_page_Suc i_def)
  next
    case False
    then have "tr ?m (Suc k) p vb = tr m (Suc k) p vb \<and> down ?m (Suc k) p vb = down m (Suc k) p vb"
      by (intro r(2)) auto
    with False show ?thesis by (auto simp: same_page_Suc i_def)
  qed
  moreover have "?m b = m b" if "\<not> inpages T b" for b
    using that fr inpages_mono[OF _ branchesD(7)[OF br i]] by auto
  ultimately show ?case using t by blast
qed

section \<open>Walking with allocation\<close>

lemma flags_simp: "aligned pg \<Longrightarrow> PTE2PA (PA2PTE pg OR PTE_V) = pg"
proof (rule bit_word_eqI)
  fix n assume al: "aligned pg" and "n < LENGTH(64)"
  then have n: "n < 64" by simp
  have "PGROUNDDOWN pg = pg" using al by (rule PGROUNDDOWN_aligned)
  then have "push_bit 12 (drop_bit 12 pg) = pg" by (simp only: PGROUNDDOWN_def and_not_page)
  then have low: "bit pg n \<longleftrightarrow> 12 \<le> n \<and> bit pg n" using n by (metis bit_push_bit_iff)
  show "bit (PTE2PA (PA2PTE pg OR PTE_V)) n = bit pg n"
    using n low by (auto simp: PTE2PA_def PA2PTE_def bit_simps bit_1_iff)
qed

lemma flags_V [simp]: "(x OR PTE_V) AND PTE_V \<noteq> 0"
proof
  assume "(x OR PTE_V) AND PTE_V = 0"
  then have "bit ((x OR PTE_V) AND PTE_V) 0 = bit (0 :: 64 word) 0" by simp
  then show False by (simp add: bit_simps)
qed

definition mem_only :: "'a mem_st_scheme \<Rightarrow> 'a mem_st_scheme \<Rightarrow> bool" where
  "mem_only s s' \<longleftrightarrow> s' = s\<lparr>mem := mem s', kmem_free := kmem_free s'\<rparr>"

lemma mem_only_refl [simp]: "mem_only s s"
  by (simp add: mem_only_def)

lemma mem_only_trans: "mem_only s t \<Longrightarrow> mem_only t u \<Longrightarrow> mem_only s u"
  unfolding mem_only_def by (cases s; cases t; cases u) simp

lemma mem_only_simps [simp]:
  "mem_only s (zero_page p s)" "mem_only s (set_pte a v s)" "mem_only s (took p s)" "mem_only s (gave p s)"
  "mem_only s (s\<lparr>mem := m\<rparr>)"
  by (simp_all add: mem_only_def zero_page_def set_pte_def took_def gave_def)

lemma mem_only_held: "mem_only s s' \<Longrightarrow> held s' = held s \<and> kend s' = kend s"
proof -
  assume "mem_only s s'"
  then have e: "s' = s\<lparr>mem := mem s', kmem_free := kmem_free s'\<rparr>" by (simp add: mem_only_def)
  show ?thesis using arg_cong[OF e, of held] arg_cong[OF e, of kend] by simp
qed

text \<open>Writes into a page that is not free leave the free list.\<close>

lemma kmem_ok_write:
  assumes "kmem_ok s ps" "aligned q" "q \<notin> set ps" "\<And>a. \<not> within a q 4096 \<Longrightarrow> m a = mem s a"
  shows "kmem_ok (s\<lparr>mem := m\<rparr>) ps"
proof -
  have "flist m (kmem_free s) ps"
    by (rule flist_other_page[OF _ assms(4)]) (use assms in \<open>auto simp: kmem_ok_def page_ok_def\<close>)
  with assms(1) show ?thesis by (simp add: kmem_ok_def)
qed

lemma kmem_ok_zero_page: "kmem_ok s ps \<Longrightarrow> aligned q \<Longrightarrow> q \<notin> set ps \<Longrightarrow> kmem_ok (zero_page q s) ps"
  unfolding zero_page_def by (rule kmem_ok_write) (auto simp: memset_page)

lemma kmem_ok_set_pte:
  "kmem_ok s ps \<Longrightarrow> aligned q \<Longrightarrow> q \<notin> set ps \<Longrightarrow> i < 512 \<Longrightarrow> kmem_ok (set_pte (slot q i) v s) ps"
  unfolding set_pte_def by (rule kmem_ok_write) (auto simp: st64_slot_frame)

text \<open>How many table pages are missing on the way to \<open>va\<close>: below an empty entry, one for every level.\<close>

fun missing :: "bytes \<Rightarrow> nat \<Rightarrow> addr \<Rightarrow> addr \<Rightarrow> nat" where
  "missing m 0 p va = 0"
| "missing m (Suc k) p va =
     (let v = ld64 m (slot p (PX (Suc k) va)) in
      if v AND PTE_V \<noteq> 0 then missing m k (PTE2PA v) va else Suc k)"

lemma missing_le: "missing m k p va \<le> k"
  by (induction m k p va rule: missing.induct) (auto simp: Let_def intro: le_SucI)

lemma missing_down: "missing m k p va = 0 \<longleftrightarrow> down m k p va \<noteq> None"
  by (induction m k p va rule: missing.induct) (auto simp: Let_def)

lemma missing_single: "tbl m k p {p} \<Longrightarrow> missing m k p va = k"
proof (cases k)
  case (Suc j)
  assume "tbl m k p {p}"
  with Suc obtain f where br: "branches m j p f {p}" by (auto simp: tbl_Suc)
  note b = branchesD[OF br]
  let ?i = "PX (Suc j) va"
  have "ld64 m (slot p ?i) AND PTE_V = 0"
  proof (rule ccontr)
    assume "ld64 m (slot p ?i) AND PTE_V \<noteq> 0"
    then have "PTE2PA (ld64 m (slot p ?i)) \<in> f ?i" using b(2)[of ?i] tbl_aligned by simp
    then show False using b(4)[of ?i] b(7)[of ?i] by auto
  qed
  with Suc show ?thesis by simp
qed simp

lemma missing_cong:
  assumes "tbl m k p T" and "\<And>a. inpages T a \<Longrightarrow> m' a = m a"
  shows "missing m' k p va = missing m k p va"
  using assms
proof (induction k arbitrary: p T)
  case (Suc k)
  from Suc.prems(1) obtain f where br: "branches m k p f T" by (auto simp: tbl_Suc)
  note b = branchesD[OF br]
  let ?i = "PX (Suc k) va"
  let ?v = "ld64 m (slot p ?i)"
  have same: "ld64 m' (slot p ?i) = ?v"
    by (rule ld64_page) (use Suc.prems(2) b(6) in \<open>auto simp: inpages_def\<close>)
  have "missing m' k (PTE2PA ?v) va = missing m k (PTE2PA ?v) va" if "?v AND PTE_V \<noteq> 0"
  proof (rule Suc.IH)
    show "tbl m k (PTE2PA ?v) (f ?i)" using b(2)[of ?i] that by simp
    show "m' a = m a" if "inpages (f ?i) a" for a
      by (rule Suc.prems(2)) (rule inpages_mono[OF that b(7)], simp)
  qed
  then show ?case using same by (simp add: Let_def)
qed simp

text \<open>
  What a walk leaves: the missing tables have been taken off the free list, or all there was of it
  where it did not reach, and every address maps as before.
\<close>

definition walked :: "nat \<Rightarrow> addr \<Rightarrow> addr \<Rightarrow> 'a mem_st_scheme \<Rightarrow> addr list \<Rightarrow> addr set \<Rightarrow> addr \<Rightarrow>
    'a mem_st_scheme \<Rightarrow> addr list \<Rightarrow> addr set \<Rightarrow> bool" where
  "walked k p va s ps T a s' ps' T' \<longleftrightarrow>
     tbl (mem s') k p T' \<and> kmem_ok s' ps' \<and> T' \<inter> set ps' = {} \<and> 0 \<notin> T' \<and> set ps' \<subseteq> set ps \<and>
     T \<subseteq> T' \<and> T' \<subseteq> T \<union> set ps \<and> mem_only s s' \<and>
     (\<forall>b. \<not> inpages (T \<union> set ps) b \<longrightarrow> mem s' b = mem s b) \<and>
     (if a = 0 then ps' = [] else down (mem s') k p va = Some a) \<and>
     (\<forall>vb. tr (mem s') k p vb = tr (mem s) k p vb) \<and>
     T' = T \<union> set (take (missing (mem s) k p va) ps) \<and> ps' = drop (missing (mem s) k p va) ps \<and>
     (a = 0 \<longleftrightarrow> length ps < missing (mem s) k p va)"

lemma slot_nonzero: "aligned p \<Longrightarrow> p \<noteq> 0 \<Longrightarrow> i < 512 \<Longrightarrow> slot p i \<noteq> 0"
proof
  assume "aligned p" "p \<noteq> 0" "i < 512" "slot p i = 0"
  then have "within 0 p 4096" using slot_within[of i 0 p] by simp
  moreover have "within 0 (0 :: addr) 4096" "aligned 0" by (simp_all add: within_def aligned_def)
  ultimately show False using pages_apart[of p 0 0] \<open>aligned p\<close> \<open>p \<noteq> 0\<close> by simp
qed

lemma walked_child:
  fixes s :: "'a mem_st_scheme"
  assumes t: "tbl (mem s) (Suc k) p T" and i: "i = PX (Suc k) va"
    and v: "ld64 (mem s) (slot p i) AND PTE_V \<noteq> 0" and T: "T \<inter> set ps = {}" "0 \<notin> T" and ok: "kmem_ok s ps"
    and C: "tbl (mem s) k (PTE2PA (ld64 (mem s) (slot p i))) C" "C \<subseteq> T"
    and w: "walked k (PTE2PA (ld64 (mem s) (slot p i))) va s ps C a s' ps' C'"
  shows "\<exists>T'. walked (Suc k) p va s ps T a s' ps' T'"
proof -
  let ?c = "PTE2PA (ld64 (mem s) (slot p i))"
  note w' = w[unfolded walked_def]
  have ilt: "i < 512" by (simp add: i)
  have free: "kmem_ok s' ps'" "mem_only s s'" "set ps' \<subseteq> set ps" using w' by auto
  have al: "\<forall>q \<in> set ps. aligned q \<and> q \<noteq> 0" using ok by (auto simp: kmem_ok_def page_ok_def)
  have C': "tbl (mem s') k ?c C'" using w' by blast
  have fr: "\<And>b. \<not> inpages (C \<union> set ps) b \<Longrightarrow> mem s' b = mem s b" using w' by blast
  note r = tbl_replace[where N = "set ps", OF t ilt v C(1) C' fr _ _ _ tbl_unique[OF _ C(1)]]
  have al': "\<forall>q \<in> set ps. aligned q" and dis: "set ps \<inter> T = {}" and CC: "C' \<subseteq> C \<union> set ps"
    using al T w' by auto
  define T' where "T' = T - C \<union> C'"
  have T': "tbl (mem s') (Suc k) p T'" unfolding T'_def by (rule r(1)[OF _ CC dis al'])
  have same: "ld64 (mem s') (slot p i) = ld64 (mem s) (slot p i)" by (rule r(3)[OF _ CC dis al' _ ilt])
  have trs: "tr (mem s') (Suc k) p vb = tr (mem s) (Suc k) p vb" for vb
  proof (cases "PX (Suc k) vb = i")
    case True
    then have "tr (mem s') (Suc k) p vb = tr (mem s') k ?c vb" "tr (mem s) (Suc k) p vb = tr (mem s) k ?c vb"
      using v same by (simp_all add: tr_simps Let_def)
    with w' show ?thesis by simp
  next
    case False
    then show ?thesis using r(2)[OF _ CC dis al'] by blast
  qed
  have sub: "T \<subseteq> T'" "T' \<subseteq> T \<union> set ps" using w' C(2) by (auto simp: T'_def)
  have dw: "if a = 0 then ps' = [] else down (mem s') (Suc k) p va = Some a"
    using w' v same by (auto simp: Let_def i[symmetric])
  have frame: "mem s' b = mem s b" if "\<not> inpages (T \<union> set ps) b" for b
    using that fr inpages_mono[of "C \<union> set ps" b "T \<union> set ps"] C(2) by blast
  have mi: "missing (mem s) (Suc k) p va = missing (mem s) k ?c va" using v by (simp add: i Let_def)
  have cnt: "T' = T \<union> set (take (missing (mem s) (Suc k) p va) ps)"
    "ps' = drop (missing (mem s) (Suc k) p va) ps" "a = 0 \<longleftrightarrow> length ps < missing (mem s) (Suc k) p va"
    using w' C(2) unfolding mi T'_def by auto
  have "T' \<inter> set ps' = {}" using w' T(1) by (auto simp: T'_def)
  moreover have "0 \<notin> T'" using sub(2) T(2) al by auto
  ultimately have "walked (Suc k) p va s ps T a s' ps' T'"
    unfolding walked_def using T' sub dw frame free trs cnt by blast
  then show ?thesis ..
qed

text \<open>The state after a new table page has been hung below an empty entry.\<close>

lemma new_table:
  fixes s :: "'a mem_st_scheme"
  assumes t: "tbl (mem s) (Suc k) p T" and i: "i < 512" and v: "ld64 (mem s) (slot p i) AND PTE_V = 0"
    and T: "T \<inter> set (pg # ps) = {}" "0 \<notin> T" and ok: "kmem_ok s (pg # ps)"
  defines "s1 \<equiv> set_pte (slot p i) (PA2PTE pg OR PTE_V) (zero_page pg (took pg s))"
  shows "tbl (mem s1) (Suc k) p (insert pg T)" and "tbl (mem s1) k pg {pg}"
    and "ld64 (mem s1) (slot p i) = PA2PTE pg OR PTE_V" and "PTE2PA (PA2PTE pg OR PTE_V) = pg"
    and "kmem_ok s1 ps" and "mem_only s s1"
    and "\<And>b. \<not> inpages (insert pg T) b \<Longrightarrow> mem s1 b = mem s b"
    and "\<And>vb. tr (mem s1) (Suc k) p vb = tr (mem s) (Suc k) p vb"
proof -
  have pg: "aligned pg" "pg \<noteq> 0" "pg \<notin> set ps" "pg \<notin> T" using ok T by (auto simp: kmem_ok_def page_ok_def)
  have p: "p \<in> T" "aligned p" "\<forall>q \<in> T. aligned q" using tbl_aligned[OF t] by auto
  have pp: "p \<noteq> pg" "p \<notin> set ps" using pg p T by auto
  have m1: "mem s1 = st64 (memset (memset (mem s) pg 5 4096) pg 0 4096) (slot p i) (PA2PTE pg OR PTE_V)"
    by (simp add: s1_def set_pte_def zero_page_def took_def)
  have out: "mem s1 b = mem s b" if "\<not> within b pg 4096" "\<not> within b p 4096" for b
    using that by (simp add: m1 st64_slot_frame[OF i] memset_page)
  have z: "mem s1 a = 0" if "within a pg 4096" for a
  proof -
    have "\<not> within a p 4096" using pages_apart[OF pg(1) p(2) that] pp(1) by auto
    then show ?thesis using that by (simp add: m1 st64_slot_frame[OF i] memset_apply)
  qed
  show pa: "PTE2PA (PA2PTE pg OR PTE_V) = pg" by (rule flags_simp[OF pg(1)])
  show new: "tbl (mem s1) k pg {pg}" by (rule tbl_zero(1)[OF pg(1) z])
  show e: "ld64 (mem s1) (slot p i) = PA2PTE pg OR PTE_V" by (simp add: m1)
  have eq: "ld64 (mem s1) (slot p j) = ld64 (mem s) (slot p j)" if "j < 512" "j \<noteq> i" for j
  proof -
    have "ld64 (mem s1) (slot p j) = ld64 (memset (memset (mem s) pg 5 4096) pg 0 4096) (slot p j)"
      using that i by (simp add: m1 st64_slot)
    also have "\<dots> = ld64 (mem s) (slot p j)"
    proof (rule ld64_page[OF that(1)])
      fix a assume "within a p 4096"
      then have "\<not> within a pg 4096" using pages_apart[OF pg(1) p(2)] pp(1) by auto
      then show "memset (memset (mem s) pg 5 4096) pg 0 4096 a = mem s a" by (simp add: memset_page)
    qed
    finally show ?thesis .
  qed
  show "kmem_ok s1 ps" unfolding s1_def
    by (rule kmem_ok_set_pte[OF kmem_ok_zero_page[OF kalloc_page(2)[OF ok] pg(1,3)] p(2) pp(2) i])
  show "mem_only s s1" unfolding s1_def
    by (rule mem_only_trans[OF mem_only_trans[OF mem_only_simps(3) mem_only_simps(1)] mem_only_simps(2)])
  show "\<And>b. \<not> inpages (insert pg T) b \<Longrightarrow> mem s1 b = mem s b"
    by (rule out) (use p in \<open>auto simp: inpages_def\<close>)
  from t obtain f where br: "branches (mem s) k p f T" by (auto simp: tbl_Suc)
  note b = branchesD[OF br]
  have keep: "mem s1 a = mem s a" if ij: "inpages (f j) a" "j < 512" for a j
  proof -
    obtain q where q: "q \<in> f j" "within a q 4096" using ij(1) by (auto simp: inpages_def)
    then have "q \<in> T" using b(7)[OF ij(2)] by auto
    then have "q \<noteq> pg" "q \<noteq> p" "aligned q" using pg(4) b(4)[OF ij(2)] q(1) p(3) by auto
    then show ?thesis using out pages_apart[OF _ pg(1) q(2)] pages_apart[OF _ p(2) q(2)] by blast
  qed
  have sub: "tbl (mem s1) k (PTE2PA (ld64 (mem s) (slot p j))) (f j)"
    "tr (mem s1) k (PTE2PA (ld64 (mem s) (slot p j))) vb = tr (mem s) k (PTE2PA (ld64 (mem s) (slot p j))) vb"
    if "j < 512" "ld64 (mem s) (slot p j) AND PTE_V \<noteq> 0" for j vb
    using tbl_cong[OF b(2)[OF that] keep[OF _ that(1)]] by simp_all
  show "tbl (mem s1) (Suc k) p (insert pg T)"
    unfolding tbl_Suc
  proof
    have fi: "f i = {}" by (rule b(3)[OF i v])
    show "branches (mem s1) k p (f(i := {pg})) (insert pg T)"
      unfolding branches_def Let_def
    proof (intro conjI allI impI b(1))
      fix j :: "64 word" assume j: "j < 512"
      show "if ld64 (mem s1) (slot p j) AND PTE_V \<noteq> 0
        then tbl (mem s1) k (PTE2PA (ld64 (mem s1) (slot p j))) ((f(i := {pg})) j)
        else (f(i := {pg})) j = {}"
        using e pa new eq[OF j] sub(1)[OF j] b(3)[OF j] by (cases "j = i") auto
      show "p \<notin> (f(i := {pg})) j" using b(4)[OF j] pp(1) by simp
    next
      fix j l :: "64 word" assume jl: "j < 512" "l < 512" "j \<noteq> l"
      have "pg \<notin> f j" if "j < 512" for j using b(7)[OF that] pg(4) by auto
      then show "(f(i := {pg})) j \<inter> (f(i := {pg})) l = {}" using b(5)[OF jl] jl by auto
    next
      show "insert pg T = insert p (\<Union>j \<in> {..<512}. (f(i := {pg})) j)"
        using b(6) fi i by (auto split: if_splits)
    qed
  qed
  show "\<And>vb. tr (mem s1) (Suc k) p vb = tr (mem s) (Suc k) p vb"
  proof -
    fix vb
    show "tr (mem s1) (Suc k) p vb = tr (mem s) (Suc k) p vb"
    proof (cases "PX (Suc k) vb = i")
      case True
      then show ?thesis using e pa v tbl_zero(2)[OF pg(1) z] by (simp add: tr_simps Let_def)
    next
      case False
      then show ?thesis using eq[of "PX (Suc k) vb"] sub(2)[of "PX (Suc k) vb"] by (simp add: tr_simps Let_def)
    qed
  qed
qed

lemma walk_alloc:
  fixes s :: "'a mem_st_scheme"
  assumes "tbl (mem s) k p T" "kmem_ok s ps" "T \<inter> set ps = {}" "0 \<notin> T"
  shows "\<exists>a s' ps' T'. walk_from k p va True s = Ok (a, s') \<and> walked k p va s ps T a s' ps' T'"
  using assms
proof (induction k arbitrary: p s ps T)
  case 0
  have "slot p (PX 0 va) \<noteq> 0" using 0 by (intro slot_nonzero) auto
  with 0 have "walked 0 p va s ps T (slot p (PX 0 va)) s ps T" by (auto simp: walked_def)
  then show ?case by (intro exI) (auto simp: slot_def)
next
  case (Suc k)
  define i where "i = PX (Suc k) va"
  have i: "i < 512" by (simp add: i_def)
  have descend: "\<exists>a s' ps' T'. walk_from k (PTE2PA (ld64 (mem t) (slot p i))) va True t = Ok (a, s') \<and>
      walked (Suc k) p va t ps T a s' ps' T'"
    if t: "tbl (mem t) (Suc k) p T" "ld64 (mem t) (slot p i) AND PTE_V \<noteq> 0" "kmem_ok t ps"
      "T \<inter> set ps = {}" "0 \<notin> T" for t :: "'a mem_st_scheme" and ps T
  proof -
    from t(1) obtain f where br: "branches (mem t) k p f T" by (auto simp: tbl_Suc)
    note C = branchesD(2)[OF br i t(2)]
    have sub: "f i \<subseteq> T" by (rule branchesD(7)[OF br i])
    obtain a s' ps' C' where w: "walk_from k (PTE2PA (ld64 (mem t) (slot p i))) va True t = Ok (a, s')"
      "walked k (PTE2PA (ld64 (mem t) (slot p i))) va t ps (f i) a s' ps' C'"
      using Suc.IH[OF C t(3)] t(4,5) sub by blast
    from walked_child[OF t(1) i_def t(2,4,5,3) C sub w(2)] w(1) show ?thesis by blast
  qed
  show ?case
  proof (cases "ld64 (mem s) (slot p i) AND PTE_V = 0")
    case False
    with descend[OF Suc.prems(1) False Suc.prems(2-4)] show ?thesis
      by (simp add: Let_def i_def slot_def)
  next
    case True
    show ?thesis
    proof (cases ps)
      case Nil
      with Suc.prems True have "walk_from (Suc k) p va True s = Ok (0, s)"
        by (simp add: Let_def i_def slot_def kalloc_empty)
      moreover have "walked (Suc k) p va s ps T 0 s ps T"
        using Suc.prems Nil True by (simp add: walked_def i_def)
      ultimately show ?thesis by blast
    next
      case (Cons pg qs)
      define s1 where "s1 = set_pte (slot p i) (PA2PTE pg OR PTE_V) (zero_page pg (took pg s))"
      have ok: "kmem_ok s (pg # qs)" and T: "T \<inter> set (pg # qs) = {}" using Suc.prems Cons by auto
      note n = new_table[OF Suc.prems(1) i True T Suc.prems(4) ok, folded s1_def]
      have pg: "pg \<noteq> 0" "pg \<notin> set qs" using ok by (auto simp: kmem_ok_def page_ok_def)
      have "\<exists>a s' ps' T'. walk_from k (PTE2PA (ld64 (mem s1) (slot p i))) va True s1 = Ok (a, s') \<and>
        walked (Suc k) p va s1 qs (insert pg T) a s' ps' T'"
        by (rule descend[OF n(1) _ n(5)]) (use n(3) T pg Suc.prems(4) in auto)
      then obtain a s' ps' T' where w: "walk_from k pg va True s1 = Ok (a, s')"
        "walked (Suc k) p va s1 qs (insert pg T) a s' ps' T'" using n(3,4) by auto
      have "walk_from (Suc k) p va True s = Ok (a, s')"
        using True pg(1) kalloc_page(1)[OF ok] w(1) by (simp add: Let_def i_def slot_def s1_def)
      moreover have "walked (Suc k) p va s ps T a s' ps' T'"
      proof -
        have "\<not> inpages (insert pg T \<union> set qs) b \<and> \<not> inpages (insert pg T) b"
          if "\<not> inpages (T \<union> set ps) b" for b
          using that Cons by (auto simp: inpages_def)
        moreover have mi: "missing (mem s) (Suc k) p va = Suc k" "missing (mem s1) (Suc k) p va = k"
          using True missing_single[OF n(2)] n(3,4) by (simp_all add: i_def Let_def)
        moreover have "insert pg T \<union> set (take k qs) = T \<union> set (take (Suc k) ps)" "drop k qs = drop (Suc k) ps"
          "length qs < k \<longleftrightarrow> length ps < Suc k"
          using Cons by auto
        ultimately show ?thesis
          using w(2) n(6,7,8) Cons mem_only_trans[OF n(6)] unfolding walked_def by auto
      qed
      ultimately show ?thesis by blast
    qed
  qed
qed

section \<open>Mapping a page\<close>

text \<open>A page table of a process, its table pages and the free pages.\<close>

definition vm_ok :: "'a mem_st_scheme \<Rightarrow> addr \<Rightarrow> addr set \<Rightarrow> addr list \<Rightarrow> bool" where
  "vm_ok s pt T ps \<longleftrightarrow> tbl (mem s) 2 pt T \<and> kmem_ok s ps \<and> T \<inter> set ps = {} \<and> 0 \<notin> T"

text \<open>The map a page table stands for: the entry of each address, 0 for none.\<close>

definition mapped :: "'a mem_st_scheme \<Rightarrow> addr \<Rightarrow> addr \<Rightarrow> 64 word" where
  "mapped s pt va = tr (mem s) 2 pt va"

lemma down_slot: "tbl m k p T \<Longrightarrow> down m k p va = Some a \<Longrightarrow> \<exists>q \<in> T. \<exists>i < 512. a = slot q i"
proof (induction k arbitrary: p T)
  case (Suc k)
  define i where "i = PX (Suc k) va"
  have i: "i < 512" by (simp add: i_def)
  from Suc.prems(1) obtain f where br: "branches m k p f T" by (auto simp: tbl_Suc)
  have v: "ld64 m (slot p i) AND PTE_V \<noteq> 0" "down m k (PTE2PA (ld64 m (slot p i))) va = Some a"
    using Suc.prems(2) by (auto simp: i_def Let_def split: if_splits)
  have "\<exists>q \<in> f i. \<exists>i < 512. a = slot q i" by (rule Suc.IH[OF branchesD(2)[OF br i v(1)] v(2)])
  then show ?case using branchesD(7)[OF br i] by blast
next
  case 0
  then have "p \<in> T" "a = slot p (PX 0 va)" by auto
  then show ?case using PX_lt[of 0 va] by blast
qed

lemma same_page_iff:
  assumes "va < MAXVA" "vb < MAXVA"
  shows "same_page 2 va vb \<longleftrightarrow> PGROUNDDOWN va = PGROUNDDOWN vb"
proof
  have px: "bit (PX k x) n \<longleftrightarrow> n < 9 \<and> bit x (12 + 9 * k + n)" for k x n
  proof -
    have "PX k x = take_bit 9 (drop_bit (12 + 9 * k) x)"
      by (simp add: PX_def take_bit_eq_mask mask_eq_exp_minus_1)
    then show ?thesis by (simp add: bit_simps)
  qed
  have dn: "bit (PGROUNDDOWN x) n \<longleftrightarrow> 12 \<le> n \<and> bit x n" for x n
    by (simp only: PGROUNDDOWN_def and_not_page) (auto simp: bit_simps dest: bit_imp_le_length)
  have hi: "\<not> bit x n" if "x < MAXVA" "38 \<le> n" for x :: addr and n
  proof -
    have "unat x < 2 ^ 38" using that(1) by (simp add: MAXVA_def word_less_nat_alt)
    then have "unat (take_bit 38 x) = unat x" by (simp add: unsigned_take_bit_eq take_bit_nat_eq_self)
    then have "x = take_bit 38 x" by (simp add: word_unat_eq_iff)
    then show ?thesis using that(2) by (metis bit_take_bit_iff leD)
  qed
  {
    assume sp: "same_page 2 va vb"
    show "PGROUNDDOWN va = PGROUNDDOWN vb"
    proof (rule bit_word_eqI)
      fix n
      have "bit va n = bit vb n" if n: "12 \<le> n" "n < 38"
      proof -
        define k where "k = (n - 12) div 9"
        have k: "k \<le> 2" "n = 12 + 9 * k + (n - 12) mod 9" using n by (auto simp: k_def)
        have "bit (PX k va) ((n - 12) mod 9) = bit (PX k vb) ((n - 12) mod 9)"
          using sp k(1) by (simp add: same_page_def)
        then show ?thesis using k(2) by (simp add: px)
      qed
      then show "bit (PGROUNDDOWN va) n = bit (PGROUNDDOWN vb) n"
        using hi[OF assms(1), of n] hi[OF assms(2), of n] by (cases "n < 38") (auto simp: dn)
    qed
  next
    assume eq: "PGROUNDDOWN va = PGROUNDDOWN vb"
    have "PX k va = PX k vb" for k
    proof (rule bit_word_eqI)
      fix n
      have "bit (PGROUNDDOWN va) (12 + 9 * k + n) = bit (PGROUNDDOWN vb) (12 + 9 * k + n)" by (simp add: eq)
      then show "bit (PX k va) n = bit (PX k vb) n" by (simp add: px dn)
    qed
    then show "same_page 2 va vb" by (simp add: same_page_def)
  }
qed

lemma entry_V [simp]: "entry (x OR PTE_V) = x OR PTE_V" "entry (x OR y OR PTE_V) = x OR y OR PTE_V"
proof -
  show "entry (x OR PTE_V) = x OR PTE_V" for x by (simp add: entry_def)
  from this[of "x OR y"] show "entry (x OR y OR PTE_V) = x OR y OR PTE_V" by (simp only: or.assoc)
qed

lemma entry_eq_0: "entry v = 0 \<longleftrightarrow> v AND PTE_V = 0"
  by (auto simp: entry_def)

lemma map_one:
  fixes s :: "'a mem_st_scheme"
  assumes ok: "vm_ok s pt T ps" and va: "va < MAXVA" "aligned va" and free: "mapped s pt va = 0"
  shows "\<exists>r s' ps' T'. mappages pt va PGSIZE pa perm s = Ok (r, s') \<and> vm_ok s' pt T' ps' \<and> mem_only s s' \<and>
    set ps' \<subseteq> set ps \<and> T \<subseteq> T' \<and> T' \<subseteq> T \<union> set ps \<and>
    (\<forall>b. \<not> inpages (T \<union> set ps) b \<longrightarrow> mem s' b = mem s b) \<and>
    (r = 0 \<and> (\<forall>vb < MAXVA. mapped s' pt vb =
        (if PGROUNDDOWN vb = va then PA2PTE pa OR perm OR PTE_V else mapped s pt vb))
     \<or> r = -1 \<and> ps' = [] \<and> mapped s' pt = mapped s pt) \<and>
    (let n = missing (mem s) 2 pt va in
      T' = T \<union> set (take n ps) \<and> ps' = drop n ps \<and> (r = 0 \<longleftrightarrow> n \<le> length ps))"
proof -
  obtain a s1 ps1 T1 where w: "walk_from 2 pt va True s = Ok (a, s1)" "walked 2 pt va s ps T a s1 ps1 T1"
    using walk_alloc[of s 2 pt T ps va] ok by (auto simp: vm_ok_def)
  note w' = w(2)[unfolded walked_def]
  have eq: "mappages pt va PGSIZE pa perm s = mappages_from 1 pt va va pa perm s"
    using va(2) by (simp add: mappages_def aligned_def)
  have wk: "walk pt va True s = Ok (a, s1)" using w(1) va(1) by (simp add: walk_def)
  show ?thesis
  proof (cases "a = 0")
    case True
    then have "mappages pt va PGSIZE pa perm s = Ok (-1, s1)" by (simp add: eq wk)
    moreover have "mapped s1 pt = mapped s pt" using w' by (auto simp: mapped_def)
    ultimately show ?thesis using w' True by (intro exI[of _ "-1"] exI[of _ s1] exI[of _ ps1] exI[of _ T1])
        (auto simp: vm_ok_def Let_def)
  next
    case False
    define s2 where "s2 = set_pte a (PA2PTE pa OR perm OR PTE_V) s1"
    have d: "down (mem s1) 2 pt va = Some a" and t1: "tbl (mem s1) 2 pt T1" using w' False by auto
    obtain q i where q: "q \<in> T1" "i < 512" "a = slot q i" using down_slot[OF t1 d] by blast
    have "entry (ld64 (mem s1) a) = tr (mem s1) 2 pt va" by (simp add: tr_def d)
    also have "\<dots> = 0" using w' free by (simp add: mapped_def)
    finally have "ld64 (mem s1) a AND PTE_V = 0" by (simp add: entry_eq_0)
    then have run: "mappages pt va PGSIZE pa perm s = Ok (0, s2)" using False by (simp add: eq wk s2_def)
    note l = tbl_set_leaf[OF t1 d, of "PA2PTE pa OR perm OR PTE_V"]
    have m2: "mem s2 = st64 (mem s1) a (PA2PTE pa OR perm OR PTE_V)" by (simp add: s2_def set_pte_def)
    have k2: "kmem_ok s2 ps1" unfolding s2_def q(3)
      by (rule kmem_ok_set_pte) (use w' q tbl_aligned[OF t1] in auto)
    have "mapped s2 pt vb = (if PGROUNDDOWN vb = va then PA2PTE pa OR perm OR PTE_V else mapped s pt vb)"
      if "vb < MAXVA" for vb
      using l w' same_page_iff[OF va(1) that] PGROUNDDOWN_aligned[OF va(2)]
      by (auto simp: mapped_def m2)
    moreover have "vm_ok s2 pt T1 ps1" using k2 l w' unfolding vm_ok_def m2 by blast
    moreover have "mem_only s s2" unfolding s2_def using mem_only_trans[OF _ mem_only_simps(2)] w' by blast
    moreover have "mem s2 b = mem s b" if "\<not> inpages (T \<union> set ps) b" for b
    proof -
      have "\<not> inpages T1 b" using that w' inpages_mono[of T1 b "T \<union> set ps"] by blast
      then have "st64 (mem s1) a (PA2PTE pa OR perm OR PTE_V) b = mem s1 b" using l by blast
      moreover have "mem s1 b = mem s b" using that w' by blast
      ultimately show ?thesis by (simp add: m2)
    qed
    ultimately show ?thesis using run w'
      by (intro exI[of _ 0] exI[of _ s2] exI[of _ ps1] exI[of _ T1]) (auto simp: False Let_def)
  qed
qed

lemma map_oneE:
  fixes s :: "'a mem_st_scheme"
  assumes "vm_ok s pt T ps" and "va < MAXVA" "aligned va" and "mapped s pt va = 0"
    and n: "missing (mem s) 2 pt va = n"
  obtains r s' where "mappages pt va PGSIZE pa perm s = Ok (r, s')"
    and "vm_ok s' pt (T \<union> set (take n ps)) (drop n ps)" and "mem_only s s'"
    and "r = 0 \<longleftrightarrow> n \<le> length ps" and "r = 0 \<or> r = -1"
    and "\<And>vb. vb < MAXVA \<Longrightarrow> mapped s' pt vb =
      (if r = 0 \<and> PGROUNDDOWN vb = va then PA2PTE pa OR perm OR PTE_V else mapped s pt vb)"
proof -
  from map_one[OF assms(1-4), of pa perm, unfolded n Let_def] obtain r s' ps' T' where
    m: "mappages pt va PGSIZE pa perm s = Ok (r, s')" "vm_ok s' pt T' ps'" "mem_only s s'"
    "set ps' \<subseteq> set ps" "T \<subseteq> T'" "T' \<subseteq> T \<union> set ps"
    "\<forall>b. \<not> inpages (T \<union> set ps) b \<longrightarrow> mem s' b = mem s b"
    "r = 0 \<and> (\<forall>vb < MAXVA. mapped s' pt vb =
        (if PGROUNDDOWN vb = va then PA2PTE pa OR perm OR PTE_V else mapped s pt vb))
     \<or> r = -1 \<and> ps' = [] \<and> mapped s' pt = mapped s pt"
    "T' = T \<union> set (take n ps)" "ps' = drop n ps" "r = 0 \<longleftrightarrow> n \<le> length ps"
    by (elim exE conjE) (rule that)
  show ?thesis by (rule that[OF m(1) m(2)[unfolded m(9,10)] m(3,11)]) (use m(8) in auto)
qed

lemma ismapped_mapped: "va < MAXVA \<Longrightarrow> vm_ok s pt T ps \<Longrightarrow> ismapped pt va s = Ok (mapped s pt va \<noteq> 0)"
proof -
  assume va: "va < MAXVA" and ok: "vm_ok s pt T ps"
  have t: "tbl (mem s) 2 pt T" "0 \<notin> T" using ok by (auto simp: vm_ok_def)
  have "slot q i \<noteq> 0" if "q \<in> T" "i < 512" for q i
    using that t tbl_aligned[OF t(1)] by (metis slot_nonzero)
  then have "a \<noteq> 0" if "down (mem s) 2 pt va = Some a" for a using down_slot[OF t(1) that] by auto
  then show ?thesis using va
    by (auto simp: ismapped_def walk_def walk_reads mapped_def tr_def entry_eq_0 split: option.split)
qed

lemma user_va: "va < MAXVA \<Longrightarrow> PGROUNDDOWN va < MAXVA"
proof -
  assume "va < MAXVA"
  moreover have "unat va div 4096 * 4096 \<le> unat va" by simp
  ultimately show ?thesis by (simp only: word_less_nat_alt unat_PGROUNDDOWN)
qed

lemma PGROUNDDOWN_idem [simp]: "PGROUNDDOWN (PGROUNDDOWN a) = PGROUNDDOWN a"
  by (rule PGROUNDDOWN_aligned) simp

text \<open>Filling or freeing a page outside the tree.\<close>

lemma vm_ok_other:
  assumes "tbl (mem s) 2 pt T" "aligned p" "p \<notin> T" "\<And>a. \<not> within a p 4096 \<Longrightarrow> m a = mem s a"
  shows "tbl m 2 pt T" and "tr m 2 pt va = tr (mem s) 2 pt va"
    and "missing m 2 pt va = missing (mem s) 2 pt va"
proof -
  have "m a = mem s a" if "inpages T a" for a
    using that assms(4) pages_apart[OF _ assms(2)] tbl_aligned[OF assms(1)] assms(3)
    by (auto simp: inpages_def)
  from tbl_cong[OF assms(1) this] missing_cong[OF assms(1) this]
  show "tbl m 2 pt T" "tr m 2 pt va = tr (mem s) 2 pt va" "missing m 2 pt va = missing (mem s) 2 pt va" by auto
qed

text \<open>
  A page fault gives a fresh page of zeros at the faulting address, or returns 0 where there are fewer
  free pages than the page and the tables missing on the way; either way no other address is touched.
\<close>

lemma vmfault_maps:
  fixes s :: "'a mem_st_scheme"
  assumes ok: "vm_ok s pt T (p # ps)" and va: "va < psz" "va < MAXVA"
    and free: "mapped s pt (PGROUNDDOWN va) = 0"
  defines "n \<equiv> missing (mem s) 2 pt (PGROUNDDOWN va)"
  shows "\<exists>a s' T' ps'. vmfault pt psz va s = Ok (a, s') \<and> vm_ok s' pt T' ps' \<and> mem_only s s' \<and>
    (\<forall>b. \<not> inpages (T \<union> set (p # ps)) b \<longrightarrow> mem s' b = mem s b) \<and>
    (a = p \<and> (\<forall>vb < MAXVA. mapped s' pt vb =
        (if PGROUNDDOWN vb = PGROUNDDOWN va then PA2PTE p OR (PTE_W OR PTE_U OR PTE_R) OR PTE_V
         else mapped s pt vb)) \<and> (\<forall>b. within b p 4096 \<longrightarrow> mem s' b = 0) \<and> n \<le> length ps \<and> ps' = drop n ps
     \<or> a = 0 \<and> mapped s' pt = mapped s pt \<and> length ps < n \<and> ps' = [p])"
proof -
  let ?perm = "PTE_W OR PTE_U OR PTE_R"
  define s1 where "s1 = zero_page p (took p s)"
  have k: "kmem_ok s (p # ps)" and T: "tbl (mem s) 2 pt T" "T \<inter> set (p # ps) = {}" "0 \<notin> T"
    using ok by (auto simp: vm_ok_def)
  have p: "aligned p" "p \<noteq> 0" "p \<notin> set ps" "p \<notin> T" "page_ok s p" "\<forall>q \<in> set ps. aligned q"
    using k T by (auto simp: kmem_ok_def page_ok_def)
  have out: "mem s1 a = mem s a" if "\<not> within a p 4096" for a
    using that by (simp add: s1_def zero_page_def took_def memset_page)
  have zero: "mem s1 a = 0" if "within a p 4096" for a
    using that by (simp add: s1_def zero_page_def memset_apply)
  note t1 = vm_ok_other[OF T(1) p(1,4) out]
  have k1: "kmem_ok s1 ps" unfolding s1_def by (rule kmem_ok_zero_page[OF kalloc_page(2)[OF k] p(1,3)])
  have ok1: "vm_ok s1 pt T ps" using t1(1) k1 T by (auto simp: vm_ok_def)
  have m1: "mapped s1 pt = mapped s pt" using t1(2) by (simp add: mapped_def fun_eq_iff)
  have o1: "mem_only s s1" unfolding s1_def by (rule mem_only_trans[OF mem_only_simps(3) mem_only_simps(1)])
  have pd: "PGROUNDDOWN va < MAXVA" by (rule user_va[OF va(2)])
  have free1: "mapped s1 pt (PGROUNDDOWN va) = 0" using m1 free by simp
  have n: "missing (mem s1) 2 pt (PGROUNDDOWN va) = n" unfolding n_def by (rule t1(3))
  obtain r s2 ps2 T2 where m: "mappages pt (PGROUNDDOWN va) PGSIZE p ?perm s1 = Ok (r, s2)"
    "vm_ok s2 pt T2 ps2" "mem_only s1 s2" "set ps2 \<subseteq> set ps" "T \<subseteq> T2" "T2 \<subseteq> T \<union> set ps"
    "\<forall>b. \<not> inpages (T \<union> set ps) b \<longrightarrow> mem s2 b = mem s1 b"
    "r = 0 \<and> (\<forall>vb < MAXVA. mapped s2 pt vb =
        (if PGROUNDDOWN vb = PGROUNDDOWN va then PA2PTE p OR ?perm OR PTE_V
         else mapped s1 pt vb)) \<or> r = -1 \<and> ps2 = [] \<and> mapped s2 pt = mapped s1 pt"
    "T2 = T \<union> set (take n ps)" "ps2 = drop n ps" "r = 0 \<longleftrightarrow> n \<le> length ps"
    using map_one[OF ok1 pd aligned_PGROUNDDOWN free1, of p ?perm] unfolding Let_def n
    by (elim exE conjE) (rule that)
  have nle: "\<not> psz \<le> va" using va(1) by simp
  have run: "vmfault pt psz va s = (if r \<noteq> 0 then bnd (kfree p s2) (\<lambda>s. Ok (0, s)) else Ok (p, s2))"
    using nle ismapped_mapped[OF pd ok] free kalloc_page(1)[OF k] p(2) m(1)
    by (simp add: vmfault_def Let_def s1_def)
  have frame: "mem s2 b = mem s b" if "\<not> inpages (T \<union> set (p # ps)) b" for b
    using that m(7) out by (auto simp: inpages_def)
  have o2: "mem_only s s2" by (rule mem_only_trans[OF o1 m(3)])
  show ?thesis
  proof (cases "r = 0")
    case True
    have "mem s2 b = 0" if "within b p 4096" for b
    proof -
      have "\<not> inpages (T \<union> set ps) b"
        using that pages_apart[OF _ p(1) _ that] tbl_aligned[OF T(1)] p(3,4,6) by (auto simp: inpages_def)
      with m(7) zero[OF that] show ?thesis by simp
    qed
    then show ?thesis using True m(2,8,10,11) run frame o2 m1
      by (intro exI[of _ p] exI[of _ s2] exI[of _ T2] exI[of _ ps2]) auto
  next
    case False
    have e: "ps2 = []" "mapped s2 pt = mapped s pt" using False m(8) m1 by auto
    have pT2: "p \<notin> T2" using m(6) p(3,4) by auto
    have k2: "kmem_ok s2 []" and tb2: "tbl (mem s2) 2 pt T2" "0 \<notin> T2" using m(2) e by (auto simp: vm_ok_def)
    have pk: "page_ok s2 p" using p(5) mem_only_held[OF o2] by (simp add: page_ok_def)
    note f = kfree_page[OF k2 pk]
    note t3 = vm_ok_other[OF tb2(1) p(1) pT2 gave_outside[of _ p s2]]
    have "vm_ok (gave p s2) pt T2 [p]" using f(2) t3(1) tb2 pT2 by (simp add: vm_ok_def)
    moreover have "mapped (gave p s2) pt = mapped s pt" using t3(2) e(2) by (simp add: mapped_def fun_eq_iff)
    moreover have "mem (gave p s2) b = mem s b" if "\<not> inpages (T \<union> set (p # ps)) b" for b
      using frame[OF that] that gave_outside[of b p s2] by (auto simp: inpages_def)
    ultimately show ?thesis using False m(11) f(1) run mem_only_trans[OF o2 mem_only_simps(4)]
      by (intro exI[of _ 0] exI[of _ "gave p s2"] exI[of _ T2] exI[of _ "[p]"]) auto
  qed
qed

text \<open>The three cases of a fault: refused, served, out of memory.\<close>

lemma vmfault_cases:
  fixes s :: "'a mem_st_scheme"
  assumes ok: "vm_ok s pt T ps" and va: "va < MAXVA"
  shows "\<exists>a s' T' ps'. vmfault pt psz va s = Ok (a, s') \<and> vm_ok s' pt T' ps' \<and> mem_only s s' \<and>
    (\<forall>b. \<not> inpages (T \<union> set ps) b \<longrightarrow> mem s' b = mem s b) \<and>
    (let n = missing (mem s) 2 pt (PGROUNDDOWN va) in
     if psz \<le> va \<or> mapped s pt (PGROUNDDOWN va) \<noteq> 0 \<or> ps = [] then a = 0 \<and> s' = s
     else if Suc n \<le> length ps then
       a = hd ps \<and> ps' = drop (Suc n) ps \<and> (\<forall>b. within b a 4096 \<longrightarrow> mem s' b = 0) \<and>
       (\<forall>vb < MAXVA. mapped s' pt vb =
          (if PGROUNDDOWN vb = PGROUNDDOWN va then PA2PTE a OR (PTE_W OR PTE_U OR PTE_R) OR PTE_V
           else mapped s pt vb))
     else a = 0 \<and> ps' = [hd ps] \<and> mapped s' pt = mapped s pt)"
proof (cases "psz \<le> va \<or> mapped s pt (PGROUNDDOWN va) \<noteq> 0 \<or> ps = []")
  case True
  have "vmfault pt psz va s = Ok (0, s)"
    using True ismapped_mapped[OF user_va[OF va] ok] ok
    by (auto simp: vmfault_def Let_def kalloc_empty vm_ok_def)
  then show ?thesis using True ok
    by (intro exI[of _ 0] exI[of _ s] exI[of _ T] exI[of _ ps]) (simp add: Let_def)
next
  case False
  then obtain p qs where ps: "ps = p # qs" by (cases ps) auto
  from False have f: "va < psz" "mapped s pt (PGROUNDDOWN va) = 0" by auto
  obtain a s' T' ps' where r: "vmfault pt psz va s = Ok (a, s')" "vm_ok s' pt T' ps'" "mem_only s s'"
    "\<forall>b. \<not> inpages (T \<union> set (p # qs)) b \<longrightarrow> mem s' b = mem s b"
    "a = p \<and> (\<forall>vb < MAXVA. mapped s' pt vb =
        (if PGROUNDDOWN vb = PGROUNDDOWN va then PA2PTE p OR (PTE_W OR PTE_U OR PTE_R) OR PTE_V
         else mapped s pt vb)) \<and> (\<forall>b. within b p 4096 \<longrightarrow> mem s' b = 0) \<and>
        missing (mem s) 2 pt (PGROUNDDOWN va) \<le> length qs \<and>
        ps' = drop (missing (mem s) 2 pt (PGROUNDDOWN va)) qs
     \<or> a = 0 \<and> mapped s' pt = mapped s pt \<and>
        length qs < missing (mem s) 2 pt (PGROUNDDOWN va) \<and> ps' = [p]"
    using vmfault_maps[OF ok[unfolded ps] f(1) va f(2)] by blast
  show ?thesis using r False unfolding ps
    by (intro exI[of _ a] exI[of _ s'] exI[of _ T'] exI[of _ ps']) (auto simp: Let_def)
qed

section \<open>A table for a new process\<close>

lemma uvmcreate_page:
  fixes s :: "'a mem_st_scheme"
  assumes ok: "kmem_ok s (q # qs)"
  defines "t \<equiv> zero_page q (took q s)"
  shows "uvmcreate s = Ok (q, t)" and "vm_ok t q {q} qs" and "mapped t q va = 0"
    and "missing (mem t) 2 q va = 2" and "mem_only s t"
proof -
  have q: "aligned q" "q \<noteq> 0" "q \<notin> set qs" using ok by (auto simp: kmem_ok_def page_ok_def)
  show "uvmcreate s = Ok (q, t)" using kalloc_page(1)[OF ok] q(2) by (simp add: uvmcreate_def t_def)
  have z: "mem t a = 0" if "within a q 4096" for a
    using that by (simp add: t_def zero_page_def memset_apply)
  note e = tbl_zero[OF q(1) z]
  have "kmem_ok t qs" unfolding t_def by (rule kmem_ok_zero_page[OF kalloc_page(2)[OF ok] q(1,3)])
  with e(1) q show "vm_ok t q {q} qs" by (simp add: vm_ok_def)
  show "mapped t q va = 0" using e(2) by (simp add: mapped_def)
  show "missing (mem t) 2 q va = 2" by (rule missing_single[OF e(1)])
  show "mem_only s t" unfolding t_def by (rule mem_only_trans[OF mem_only_simps(3) mem_only_simps(1)])
qed

text \<open>Addresses under the same leaf table miss the same tables.\<close>

lemma missing_same: "(\<And>j. 1 \<le> j \<Longrightarrow> j \<le> k \<Longrightarrow> PX j va = PX j vb) \<Longrightarrow> missing m k p va = missing m k p vb"
  by (induction k arbitrary: p) (simp_all add: Let_def)

lemma valid_nonzero: "x OR y OR PTE_V \<noteq> (0 :: 64 word)"
  using flags_V[of "x OR y"] by (metis or.assoc zero_and_eq)

lemma mapped_missing: "mapped s pt va \<noteq> 0 \<Longrightarrow> missing (mem s) 2 pt va = 0"
  by (auto simp: missing_down mapped_def tr_def split: option.splits)

lemma high_pages:
  "TRAMPOLINE < MAXVA" "TRAPFRAME < MAXVA" "aligned TRAMPOLINE" "aligned TRAPFRAME" "TRAMPOLINE \<noteq> TRAPFRAME"
  "PGROUNDDOWN TRAMPOLINE = TRAMPOLINE" "PGROUNDDOWN TRAPFRAME = TRAPFRAME"
proof -
  show "aligned TRAMPOLINE" "aligned TRAPFRAME"
    by (simp_all add: aligned_def TRAMPOLINE_def TRAPFRAME_def MAXVA_def)
  then show "PGROUNDDOWN TRAMPOLINE = TRAMPOLINE" "PGROUNDDOWN TRAPFRAME = TRAPFRAME"
    by (simp_all add: PGROUNDDOWN_aligned)
qed (simp_all add: TRAMPOLINE_def TRAPFRAME_def MAXVA_def)

lemma high_pages_share: "1 \<le> j \<Longrightarrow> j \<le> 2 \<Longrightarrow> PX j TRAPFRAME = PX j TRAMPOLINE"
proof -
  assume "1 \<le> j" "j \<le> 2"
  then have "j = 1 \<or> j = 2" by arith
  then show ?thesis by (auto simp: PX_def TRAMPOLINE_def TRAPFRAME_def MAXVA_def)
qed

section \<open>Frames\<close>

text \<open>The operations change the memory and the free list, and give back the lock they take.\<close>

named_theorems frames \<open>an operation leaves everything but the memory and the free list\<close>

lemma mem_onlyE:
  assumes "mem_only s s'" obtains m f where "s' = s\<lparr>mem := m, kmem_free := f\<rparr>"
  using assms unfolding mem_only_def by blast

lemma mem_only_step [frames]:
  "mem_only s t \<Longrightarrow> mem_only s (zero_page p t)" "mem_only s t \<Longrightarrow> mem_only s (set_pte a v t)"
  "mem_only s t \<Longrightarrow> mem_only s (t\<lparr>mem := m\<rparr>)"
  by (erule mem_only_trans, simp)+

lemma kalloc_frame [frames]: "mem_only s0 s \<Longrightarrow> post (kalloc s) (\<lambda>(p, t). mem_only s0 t)"
proof (rule postI)
  fix x assume "mem_only s0 s" and k: "kalloc s = Ok x"
  obtain p t where x: "x = (p, t)" by (cases x)
  with k have "mem_only s t"
    by (auto simp: kalloc_def bnd_eq_Ok acquire_Ok release_Ok Let_def mem_only_def split: if_splits)
  with \<open>mem_only s0 s\<close> x show "case x of (p, t) \<Rightarrow> mem_only s0 t" by (auto intro: mem_only_trans)
qed

lemma kfree_frame [frames]: "mem_only s0 s \<Longrightarrow> post (kfree p s) (mem_only s0)"
proof (rule postI)
  fix t assume "mem_only s0 s" and k: "kfree p s = Ok t"
  from k have "mem_only s t"
    by (auto simp: kfree_def bnd_eq_Ok acquire_Ok release_Ok Let_def mem_only_def bnd_assertk split: if_splits)
  with \<open>mem_only s0 s\<close> show "mem_only s0 t" by (rule mem_only_trans)
qed

lemma walk_from_frame [frames]: "mem_only s0 s \<Longrightarrow> post (walk_from k pt va al s) (\<lambda>(a, t). mem_only s0 t)"
proof (induction k arbitrary: pt s)
  case 0
  then show ?case by (simp add: post_def)
next
  case (Suc k)
  show ?case unfolding walk_from.simps
    by (intro keeps frames Suc) (auto intro!: frames Suc.prems)
qed

lemma walk_frame [frames]: "mem_only s0 s \<Longrightarrow> post (walk pt va al s) (\<lambda>(a, t). mem_only s0 t)"
  unfolding walk_def by (intro keeps frames)

lemma mappages_from_frame [frames]:
  "mem_only s0 s \<Longrightarrow> post (mappages_from n pt a l pa perm s) (\<lambda>(r, t). mem_only s0 t)"
proof (induction n arbitrary: a pa s)
  case 0
  then show ?case by (simp add: post_def)
next
  case (Suc n)
  show ?case unfolding mappages_from.simps by (intro keeps frames Suc) (auto intro!: frames Suc.prems)
qed

lemma mappages_frame [frames]: "mem_only s0 s \<Longrightarrow> post (mappages pt va l pa perm s) (\<lambda>(r, t). mem_only s0 t)"
  unfolding mappages_def by (intro keeps frames)

lemma uvmcreate_frame [frames]: "mem_only s0 s \<Longrightarrow> post (uvmcreate s) (\<lambda>(p, t). mem_only s0 t)"
  unfolding uvmcreate_def by (intro keeps frames) (auto intro!: frames)

lemma uvmunmap_from_frame [frames]: "mem_only s0 s \<Longrightarrow> post (uvmunmap_from n pt a l fr s) (mem_only s0)"
proof (induction n arbitrary: a s)
  case 0
  then show ?case by (simp add: post_def)
next
  case (Suc n)
  show ?case unfolding uvmunmap_from.simps by (intro keeps frames Suc) (auto intro!: frames Suc.prems)
qed

lemma uvmunmap_frame [frames]: "mem_only s0 s \<Longrightarrow> post (uvmunmap pt va n fr s) (mem_only s0)"
  unfolding uvmunmap_def by (intro keeps frames)

lemma freewalk_frame [frames]: "mem_only s0 s \<Longrightarrow> post (freewalk n pt s) (mem_only s0)"
proof (induction n arbitrary: pt s)
  case 0
  then show ?case by (simp add: post_def)
next
  case (Suc n)
  show ?case unfolding freewalk.simps
  proof (rule post_bnd[OF post_for_each[where P = "mem_only s0"]])
    show "mem_only s0 s" by (rule Suc.prems)
  qed (intro keeps frames Suc.IH; (auto intro!: frames)?)+
qed

lemma uvmfree_frame [frames]: "mem_only s0 s \<Longrightarrow> post (uvmfree pt sz s) (mem_only s0)"
  unfolding uvmfree_def by (intro keeps frames) (auto intro!: frames)

lemma uvmdealloc_frame [frames]: "mem_only s0 s \<Longrightarrow> post (uvmdealloc pt a b s) (\<lambda>(r, t). mem_only s0 t)"
  unfolding uvmdealloc_def by (intro keeps frames) auto

lemma uvmalloc_from_frame [frames]:
  "mem_only s0 s \<Longrightarrow> post (uvmalloc_from n pt oldsz a newsz x s) (\<lambda>(r, t). mem_only s0 t)"
proof (induction n arbitrary: a s)
  case 0
  then show ?case by (simp add: post_def)
next
  case (Suc n)
  show ?case unfolding uvmalloc_from.simps by (intro keeps frames Suc) (auto intro!: frames Suc.prems)
qed

lemma uvmalloc_frame [frames]: "mem_only s0 s \<Longrightarrow> post (uvmalloc pt a b x s) (\<lambda>(r, t). mem_only s0 t)"
  unfolding uvmalloc_def by (intro keeps frames) auto

lemma uvmcopy_from_frame [frames]:
  "mem_only s0 s \<Longrightarrow> post (uvmcopy_from n old new i sz s) (\<lambda>(r, t). mem_only s0 t)"
proof (induction n arbitrary: i s)
  case 0
  then show ?case by (simp add: post_def)
next
  case (Suc n)
  show ?case unfolding uvmcopy_from.simps by (intro keeps frames Suc) (auto intro!: keeps frames Suc.prems)
qed

lemma uvmcopy_frame [frames]: "mem_only s0 s \<Longrightarrow> post (uvmcopy old new sz s) (\<lambda>(r, t). mem_only s0 t)"
  unfolding uvmcopy_def by (intro keeps frames)

lemma uvmclear_frame [frames]: "mem_only s0 s \<Longrightarrow> post (uvmclear pt va s) (mem_only s0)"
  unfolding uvmclear_def by (intro keeps frames)

lemma keep_read [keeps]:
  "(\<And>b. post (f b) P) \<Longrightarrow> post (bnd (ismapped pt va s) f) P"
  "(\<And>a. post (g a) P) \<Longrightarrow> post (bnd (walkaddr pt va s) g) P"
  by (rule post_bnd_any, simp)+

lemma vmfault_frame [frames]: "mem_only s0 s \<Longrightarrow> post (vmfault pt psz va s) (\<lambda>(a, t). mem_only s0 t)"
  unfolding vmfault_def by (intro keeps frames) auto

lemma user_page_frame [frames]: "mem_only s0 s \<Longrightarrow> post (user_page pt psz va s) (\<lambda>(a, t). mem_only s0 t)"
  unfolding user_page_def by (intro keeps frames) auto

lemma copyout_from_frame [frames]:
  "mem_only s0 s \<Longrightarrow> post (copyout_from k pt psz dst src len s) (\<lambda>(r, t). mem_only s0 t)"
proof (induction k arbitrary: dst src len s)
  case 0
  then show ?case by (simp add: post_def)
next
  case (Suc k)
  show ?case unfolding copyout_from.simps by (intro keeps frames Suc) (auto intro!: frames Suc.prems)
qed

lemma copyout_frame [frames]: "mem_only s0 s \<Longrightarrow> post (copyout pt psz dst src len s) (\<lambda>(r, t). mem_only s0 t)"
  unfolding copyout_def by (intro frames)

lemma copyin_from_frame [frames]:
  "mem_only s0 s \<Longrightarrow> post (copyin_from k pt psz dst src len s) (\<lambda>(r, t). mem_only s0 t)"
proof (induction k arbitrary: dst src len s)
  case 0
  then show ?case by (simp add: post_def)
next
  case (Suc k)
  show ?case unfolding copyin_from.simps by (intro keeps frames Suc) (auto intro!: frames Suc.prems)
qed

lemma copyin_frame [frames]: "mem_only s0 s \<Longrightarrow> post (copyin pt psz dst src len s) (\<lambda>(r, t). mem_only s0 t)"
  unfolding copyin_def by (intro frames)

lemma copyinstr_from_frame [frames]:
  "mem_only s0 s \<Longrightarrow> post (copyinstr_from k pt psz dst src len s) (\<lambda>(r, t). mem_only s0 t)"
proof (induction k arbitrary: dst src len s)
  case 0
  then show ?case by (simp add: post_def)
next
  case (Suc k)
  show ?case unfolding copyinstr_from.simps by (intro keeps frames Suc) (auto intro!: frames Suc.prems)
qed

lemma copyinstr_frame [frames]: "mem_only s0 s \<Longrightarrow> post (copyinstr pt psz dst src len s) (\<lambda>(r, t). mem_only s0 t)"
  unfolding copyinstr_def by (intro frames)

end
