(* ===== verification/K_Proc.thy ===== *)
theory K_Proc
  imports K_Vm
begin

text \<open>
  Processes, \<open>xv6/kernel/proc.c\<close> and \<open>proc.h\<close>, as one hart runs them: the process table, allocation and
  freeing of its slots, the switch to the scheduler, sleeping and waking, killing, and the MLFQ
  bookkeeping.  A process is its index in the table, None the null pointer, and a channel names the
  object whose address the code sleeps on.
\<close>

section \<open>The state\<close>

datatype procstate = UNUSED | USED | SLEEPING | RUNNABLE | RUNNING | ZOMBIE

datatype chan =
    Ch_proc nat | Ch_ticks | Ch_nread addr | Ch_nwrite addr | Ch_log | Ch_sleeplock slockid
  | Ch_cons | Ch_uart | Ch_disk | Ch_buf nat

text \<open>\<open>struct context\<close>: \<open>ra\<close>, \<open>sp\<close> and the twelve saved registers.\<close>

record regs =
  r_ra :: "64 word"
  r_sp :: "64 word"
  r_s :: "64 word list"

record kproc =
  p_state :: procstate
  p_chan :: "chan option"
  p_killed :: bool
  p_xstate :: int
  p_pid :: int
  p_parent :: "nat option"
  p_kstack :: addr
  p_sz :: "64 word"
  p_pagetable :: addr
  p_trapframe :: addr
  p_context :: regs
  p_ofile :: "nat option list"
  p_cwd :: "nat option"
  p_name :: string
  creation_time :: "32 word"
  first_run_time :: int
  end_time :: "32 word"
  cpu_ticks :: int
  queue :: nat
  ticks_used :: int

record proc_st = vm_st +
  procs :: "kproc list"
  initproc :: "nat option"
  nextpid :: int
  ticks :: "32 word"
  curproc :: "nat option"
  forkret_addr :: addr
  mlfq_last :: "nat list"

text \<open>
  What the hart's process meets while it does not run: \<open>others\<close> takes the state in which it gave up
  the hart to the state in which it has it again, with its own lock held, after anything the rest of
  the machine has done.  \<open>patience\<close> bounds the turns of a loop that waits.
\<close>

record 's kenv =
  others :: "'s \<Rightarrow> 's res"
  patience :: nat

definition NMLFQ :: nat where "NMLFQ = 4"

definition BOOST_TICKS :: "32 word" where "BOOST_TICKS = 48"

definition mlfq_slice :: "int list" where "mlfq_slice = [1, 4, 8, 16]"

definition proc_at :: "'a proc_st_scheme \<Rightarrow> nat \<Rightarrow> kproc" where
  "proc_at s p = procs s ! p"

definition upd_proc :: "nat \<Rightarrow> (kproc \<Rightarrow> kproc) \<Rightarrow> 'a proc_st_scheme \<Rightarrow> 'a proc_st_scheme" where
  "upd_proc p f s = s\<lparr>procs := (procs s)[p := f (procs s ! p)]\<rparr>"

definition myproc :: "'a proc_st_scheme \<Rightarrow> nat res" where
  "myproc s = (case curproc s of None \<Rightarrow> Undef ''null process'' | Some p \<Rightarrow> Ok p)"

section \<open>MLFQ\<close>

definition mlfq_boost :: "'a proc_st_scheme \<Rightarrow> 'a proc_st_scheme res" where
  "mlfq_boost =
     for_each (\<lambda>p s.
       bnd (acquire (L_proc p) s) (\<lambda>s.
       bnd (if p_state (proc_at s p) \<noteq> UNUSED \<and> p_state (proc_at s p) \<noteq> ZOMBIE
            then let s = upd_proc p (\<lambda>q. q\<lparr>queue := 0, ticks_used := 0\<rparr>) s in
              printk (''MLFQLOG,%d,%d,0'' @ nl) [A32 (ticks s), A32 (word_of_int (p_pid (proc_at s p)))] s
            else Ok s)
         (release (L_proc p)))) [0..<NPROC]"

definition tick_queue :: "kproc \<Rightarrow> kproc" where
  "tick_queue q =
     (if mlfq_slice ! queue q \<le> ticks_used q
      then q\<lparr>queue := (if queue q < NMLFQ - 1 then queue q + 1 else queue q), ticks_used := 0\<rparr>
      else q)"

definition mlfq_timer_tick :: "'a proc_st_scheme \<Rightarrow> 'a proc_st_scheme res" where
  "mlfq_timer_tick s =
     (case curproc s of
        None \<Rightarrow> Ok s
      | Some p \<Rightarrow>
          bnd (sadd32 (cpu_ticks (proc_at s p)) 1) (\<lambda>ct.
          bnd (sadd32 (ticks_used (proc_at s p)) 1) (\<lambda>tu.
          bnd (guard (queue (proc_at s p) < NMLFQ) ''mlfq_slice'') (\<lambda>_.
            Ok (upd_proc p (\<lambda>q. tick_queue (q\<lparr>cpu_ticks := ct, ticks_used := tu\<rparr>)) s)))))"

section \<open>The process table\<close>

definition procinit :: "'a proc_st_scheme \<Rightarrow> 'a proc_st_scheme" where
  "procinit s =
     s\<lparr>procs := map (\<lambda>p. (procs s ! p)\<lparr>p_state := UNUSED, p_kstack := KSTACK p\<rparr>) [0..<NPROC],
       mlfq_last := map (\<lambda>_. 0) [0..<NMLFQ]\<rparr>"

definition allocpid :: "'a proc_st_scheme \<Rightarrow> (int \<times> 'a proc_st_scheme) res" where
  "allocpid s =
     bnd (acquire L_pid s) (\<lambda>s.
       let pid = nextpid s in
       bnd (sadd32 (nextpid s) 1) (\<lambda>n.
       bnd (release L_pid (s\<lparr>nextpid := n\<rparr>)) (\<lambda>s. Ok (pid, s))))"

definition proc_pagetable :: "nat \<Rightarrow> 'a proc_st_scheme \<Rightarrow> (addr \<times> 'a proc_st_scheme) res" where
  "proc_pagetable p s =
     bnd (uvmcreate s) (\<lambda>(pt, s).
       if pt = 0 then Ok (0, s)
       else bnd (mappages pt TRAMPOLINE PGSIZE (trampoline s) (PTE_R OR PTE_X) s) (\<lambda>(r, s).
         if r < 0 then bnd (uvmfree pt 0 s) (\<lambda>s. Ok (0, s))
         else bnd (mappages pt TRAPFRAME PGSIZE (p_trapframe (proc_at s p)) (PTE_R OR PTE_W) s) (\<lambda>(r, s).
           if r < 0 then
             bnd (uvmunmap pt TRAMPOLINE 1 False s) (\<lambda>s.
             bnd (uvmfree pt 0 s) (\<lambda>s. Ok (0, s)))
           else Ok (pt, s))))"

definition proc_freepagetable :: "addr \<Rightarrow> 64 word \<Rightarrow> 'a mem_st_scheme \<Rightarrow> 'a mem_st_scheme res" where
  "proc_freepagetable pt sz s =
     bnd (uvmunmap pt TRAMPOLINE 1 False s) (\<lambda>s.
     bnd (uvmunmap pt TRAPFRAME 1 False s) (uvmfree pt sz))"

definition freeproc :: "nat \<Rightarrow> 'a proc_st_scheme \<Rightarrow> 'a proc_st_scheme res" where
  "freeproc p s =
     bnd (if p_trapframe (proc_at s p) \<noteq> 0 then kfree (p_trapframe (proc_at s p)) s else Ok s) (\<lambda>s.
       let s = upd_proc p (\<lambda>q. q\<lparr>p_trapframe := 0\<rparr>) s in
       bnd (if p_pagetable (proc_at s p) \<noteq> 0
            then proc_freepagetable (p_pagetable (proc_at s p)) (p_sz (proc_at s p)) s else Ok s) (\<lambda>s.
         Ok (upd_proc p (\<lambda>q. q\<lparr>p_pagetable := 0, p_sz := 0, p_pid := 0, p_name := [], p_chan := None,
               p_killed := False, p_xstate := 0, p_state := UNUSED\<rparr>) s)))"

text \<open>The loop of \<open>allocproc\<close>: the first unused slot, with its lock held.\<close>

fun find_unused :: "nat list \<Rightarrow> 'a proc_st_scheme \<Rightarrow> (nat option \<times> 'a proc_st_scheme) res" where
  "find_unused [] s = Ok (None, s)"
| "find_unused (p # ps) s =
     bnd (acquire (L_proc p) s) (\<lambda>s.
       if p_state (proc_at s p) = UNUSED then Ok (Some p, s)
       else bnd (release (L_proc p) s) (find_unused ps))"

definition give_up :: "nat \<Rightarrow> 'a proc_st_scheme \<Rightarrow> (nat option \<times> 'a proc_st_scheme) res" where
  "give_up p s = bnd (freeproc p s) (\<lambda>s. bnd (release (L_proc p) s) (\<lambda>s. Ok (None, s)))"

definition new_context :: "addr \<Rightarrow> addr \<Rightarrow> regs" where
  "new_context ra kstack = \<lparr>r_ra = ra, r_sp = kstack + PGSIZE, r_s = replicate 12 0\<rparr>"

definition allocproc :: "'a proc_st_scheme \<Rightarrow> (nat option \<times> 'a proc_st_scheme) res" where
  "allocproc s =
     bnd (find_unused [0..<NPROC] s) (\<lambda>(r, s).
       case r of
         None \<Rightarrow> Ok (None, s)
       | Some p \<Rightarrow>
           bnd (allocpid s) (\<lambda>(pid, s).
           bnd (kalloc (upd_proc p (\<lambda>q. q\<lparr>p_pid := pid, p_state := USED\<rparr>) s)) (\<lambda>(tf, s).
             let s = upd_proc p (\<lambda>q. q\<lparr>p_trapframe := tf\<rparr>) s in
             if tf = 0 then give_up p s
             else bnd (proc_pagetable p s) (\<lambda>(pt, s).
               let s = upd_proc p (\<lambda>q. q\<lparr>p_pagetable := pt\<rparr>) s in
               if pt = 0 then give_up p s
               else Ok (Some p, upd_proc p (\<lambda>q. q\<lparr>p_context := new_context (forkret_addr s) (p_kstack q),
                      creation_time := ticks s, first_run_time := -1, end_time := 0, cpu_ticks := 0,
                      queue := 0, ticks_used := 0\<rparr>) s)))))"

text \<open>\<open>growproc\<close>: \<open>n\<close> is an \<open>int\<close>, sign-extended where it is added to \<open>sz\<close>.\<close>

definition growproc :: "int \<Rightarrow> 'a proc_st_scheme \<Rightarrow> (int \<times> 'a proc_st_scheme) res" where
  "growproc n s =
     bnd (myproc s) (\<lambda>p.
       let sz = p_sz (proc_at s p); pt = p_pagetable (proc_at s p) in
       if 0 < n then
         (if TRAPFRAME < sz + word_of_int n then Ok (-1, s)
          else bnd (uvmalloc pt sz (sz + word_of_int n) PTE_W s) (\<lambda>(sz', s).
            if sz' = 0 then Ok (-1, s)
            else Ok (0, upd_proc p (\<lambda>q. q\<lparr>p_sz := sz'\<rparr>) s)))
       else if n < 0 then
         bnd (uvmdealloc pt sz (sz + word_of_int n) s) (\<lambda>(sz', s).
           Ok (0, upd_proc p (\<lambda>q. q\<lparr>p_sz := sz'\<rparr>) s))
       else Ok (0, upd_proc p (\<lambda>q. q\<lparr>p_sz := sz\<rparr>) s))"

section \<open>Switching, sleeping and waking\<close>

text \<open>
  The checks of \<open>sched\<close>, the switch, and the restored \<open>intena\<close>: \<open>noff\<close> is the number of locks held.
\<close>

definition sched :: "'a proc_st_scheme kenv \<Rightarrow> 'a proc_st_scheme \<Rightarrow> 'a proc_st_scheme res" where
  "sched e s =
     bnd (myproc s) (\<lambda>p.
     bnd (assertk (L_proc p \<in> set (held s)) ''sched p->lock'') (\<lambda>_.
     bnd (assertk (length (held s) = 1) ''sched locks'') (\<lambda>_.
     bnd (assertk (p_state (proc_at s p) \<noteq> RUNNING) ''sched RUNNING'') (\<lambda>_.
     bnd (assertk (\<not> intr_get s) ''sched interruptible'') (\<lambda>_.
     bnd (others e s) (\<lambda>t. Ok (t\<lparr>irq := irq s\<rparr>)))))))"

definition yield_k :: "'a proc_st_scheme kenv \<Rightarrow> 'a proc_st_scheme \<Rightarrow> 'a proc_st_scheme res" where
  "yield_k e s =
     bnd (myproc s) (\<lambda>p.
     bnd (acquire (L_proc p) s) (\<lambda>s.
     bnd (sched e (upd_proc p (\<lambda>q. q\<lparr>p_state := RUNNABLE\<rparr>) s)) (release (L_proc p))))"

text \<open>What \<open>sleep_prepare\<close> and \<open>sleep\<close> write into the process.\<close>

definition prepare :: "chan option \<Rightarrow> kproc \<Rightarrow> kproc" where
  "prepare ch q = q\<lparr>p_chan := ch\<rparr>"

definition doze :: "kproc \<Rightarrow> kproc" where
  "doze q = q\<lparr>ticks_used := 0, p_state := SLEEPING\<rparr>"

definition sleep_prepare :: "chan option \<Rightarrow> 'a proc_st_scheme \<Rightarrow> 'a proc_st_scheme res" where
  "sleep_prepare ch s =
     bnd (myproc s) (\<lambda>p.
     bnd (acquire (L_proc p) s) (\<lambda>s.
     bnd (assertk (ch \<noteq> None) ''sleep_prepare: zero chan'') (\<lambda>_.
       release (L_proc p) (upd_proc p (prepare ch) s))))"

definition sleep :: "'a proc_st_scheme kenv \<Rightarrow> 'a proc_st_scheme \<Rightarrow> 'a proc_st_scheme res" where
  "sleep e s =
     bnd (myproc s) (\<lambda>p.
     bnd (acquire (L_proc p) s) (\<lambda>s.
     bnd (if p_chan (proc_at s p) \<noteq> None
          then sched e (upd_proc p doze s)
          else Ok s)
       (release (L_proc p))))"

text \<open>What \<open>wakeup\<close> does to one process.\<close>

definition wake :: "chan option \<Rightarrow> kproc \<Rightarrow> kproc" where
  "wake ch q =
     (if p_chan q = ch
      then q\<lparr>p_chan := None, p_state := (if p_state q = SLEEPING then RUNNABLE else p_state q)\<rparr>
      else q)"

definition wakeup :: "chan option \<Rightarrow> 'a proc_st_scheme \<Rightarrow> 'a proc_st_scheme res" where
  "wakeup ch =
     for_each (\<lambda>p s.
       bnd (acquire (L_proc p) s) (\<lambda>s.
         release (L_proc p) (upd_proc p (wake ch) s))) [0..<NPROC]"

text \<open>What \<open>kkill\<close> does to the process it finds, and its loop.\<close>

definition kill1 :: "kproc \<Rightarrow> kproc" where
  "kill1 q = q\<lparr>p_killed := True, p_state := (if p_state q = SLEEPING then RUNNABLE else p_state q)\<rparr>"

fun kkill_from :: "int \<Rightarrow> nat list \<Rightarrow> 'a proc_st_scheme \<Rightarrow> (int \<times> 'a proc_st_scheme) res" where
  "kkill_from pid [] s = Ok (-1, s)"
| "kkill_from pid (p # ps) s =
     bnd (acquire (L_proc p) s) (\<lambda>s.
       if p_pid (proc_at s p) = pid then
         bnd (release (L_proc p) (upd_proc p kill1 s)) (\<lambda>s. Ok (0, s))
       else bnd (release (L_proc p) s) (kkill_from pid ps))"

definition kkill :: "int \<Rightarrow> 'a proc_st_scheme \<Rightarrow> (int \<times> 'a proc_st_scheme) res" where
  "kkill pid = kkill_from pid [0..<NPROC]"

definition setkilled :: "nat \<Rightarrow> 'a proc_st_scheme \<Rightarrow> 'a proc_st_scheme res" where
  "setkilled p s =
     bnd (acquire (L_proc p) s) (\<lambda>s. release (L_proc p) (upd_proc p (\<lambda>q. q\<lparr>p_killed := True\<rparr>) s))"

definition killed :: "nat \<Rightarrow> 'a proc_st_scheme \<Rightarrow> (bool \<times> 'a proc_st_scheme) res" where
  "killed p s =
     bnd (acquire (L_proc p) s) (\<lambda>s.
       let k = p_killed (proc_at s p) in
       bnd (release (L_proc p) s) (\<lambda>s. Ok (k, s)))"

text \<open>\<open>memmove\<close> takes the low 32 bits of the length.\<close>

definition either_copyout :: "bool \<Rightarrow> addr \<Rightarrow> addr \<Rightarrow> 64 word \<Rightarrow> 'a proc_st_scheme \<Rightarrow> (int \<times> 'a proc_st_scheme) res" where
  "either_copyout user_dst dst src len s =
     bnd (myproc s) (\<lambda>p.
       if user_dst then copyout (p_pagetable (proc_at s p)) (p_sz (proc_at s p)) dst src len s
       else Ok (0, s\<lparr>mem := memmove (mem s) dst src (unat (ucast len :: 32 word))\<rparr>))"

definition either_copyin :: "addr \<Rightarrow> bool \<Rightarrow> addr \<Rightarrow> 64 word \<Rightarrow> 'a proc_st_scheme \<Rightarrow> (int \<times> 'a proc_st_scheme) res" where
  "either_copyin dst user_src src len s =
     bnd (myproc s) (\<lambda>p.
       if user_src then copyin (p_pagetable (proc_at s p)) (p_sz (proc_at s p)) dst src len s
       else Ok (0, s\<lparr>mem := memmove (mem s) dst src (unat (ucast len :: 32 word))\<rparr>))"

fun state_name :: "procstate \<Rightarrow> string" where
  "state_name UNUSED = ''unused ''"
| "state_name USED = ''used   ''"
| "state_name SLEEPING = ''sleep  ''"
| "state_name RUNNABLE = ''runble ''"
| "state_name RUNNING = ''run    ''"
| "state_name ZOMBIE = ''zombie ''"

definition a_int :: "int \<Rightarrow> karg" where "a_int n = A32 (word_of_int n)"

text \<open>\<open>procdump\<close> as it is compiled with MLFQ, then without; it takes no lock.\<close>

definition procdump_mlfq :: "'a proc_st_scheme \<Rightarrow> 'a proc_st_scheme res" where
  "procdump_mlfq s =
     bnd (printk nl [] s) (\<lambda>s.
     bnd (printk (''PID  STATE    NAME            Q  TICK_USED  CPU_TICKS  CREATED  FIRST_RUN'' @ nl) [] s) (\<lambda>s.
     bnd (printk (''----+--------+---------------+-+----------+---------+---------+---------'' @ nl) [] s) (\<lambda>s.
     bnd (for_each (\<lambda>p s.
        let q = proc_at s p in
        if p_state q = UNUSED then Ok s
        else printk (''%-4d %-8s %-15s %d  %-10d %-9d %-9d %-9d'' @ nl)
          [a_int (p_pid q), AStr (Some (state_name (p_state q))), AStr (Some (p_name q)), a_int (int (queue q)),
           a_int (ticks_used q), a_int (cpu_ticks q), A32 (creation_time q), a_int (first_run_time q)] s) [0..<NPROC] s)
       (printk nl []))))"

definition procdump :: "'a proc_st_scheme \<Rightarrow> 'a proc_st_scheme res" where
  "procdump s =
     bnd (printk nl [] s) (\<lambda>s.
     bnd (printk (''PID  STATE    NAME            CREATED  FIRST_RUN  END  CPU_TICKS'' @ nl) [] s) (\<lambda>s.
     bnd (for_each (\<lambda>p s.
        let q = proc_at s p in
        if p_state q = UNUSED then Ok s
        else printk (''%-4d %-8s %-15s %-9d %-10d %-5d %d'' @ nl)
          [a_int (p_pid q), AStr (Some (state_name (p_state q))), AStr (Some (p_name q)), A32 (creation_time q),
           a_int (first_run_time q), A32 (end_time q), a_int (cpu_ticks q)] s) [0..<NPROC] s)
       (printk nl [])))"

section \<open>Well-formed process tables\<close>

text \<open>
  What holds of a process between critical sections, \<open>n\<close> being the next pid: a free slot has given
  everything back, a process sleeps only on a channel some \<open>wakeup\<close> can name, and its place in the
  queues is one \<open>mlfq_slice\<close> has an entry for, its slice not used up.
\<close>

definition proc_ok :: "int \<Rightarrow> kproc \<Rightarrow> bool" where
  "proc_ok n q \<longleftrightarrow>
     (p_state q = UNUSED \<longrightarrow> p_pid q = 0 \<and> p_chan q = None \<and> p_trapframe q = 0 \<and> p_pagetable q = 0) \<and>
     (p_state q \<noteq> UNUSED \<longrightarrow> 0 < p_pid q \<and> p_pid q < n) \<and>
     (p_state q = SLEEPING \<longrightarrow> p_chan q \<noteq> None) \<and>
     queue q < NMLFQ \<and> 0 \<le> ticks_used q \<and> ticks_used q < mlfq_slice ! queue q"

definition pids_distinct :: "kproc list \<Rightarrow> bool" where
  "pids_distinct ps \<longleftrightarrow>
     (\<forall>i < length ps. \<forall>j < length ps. i \<noteq> j \<longrightarrow> p_state (ps ! i) \<noteq> UNUSED \<longrightarrow> p_state (ps ! j) \<noteq> UNUSED \<longrightarrow>
        p_pid (ps ! i) \<noteq> p_pid (ps ! j))"

definition table_ok :: "'a proc_st_scheme \<Rightarrow> bool" where
  "table_ok s \<longleftrightarrow>
     length (procs s) = NPROC \<and> (\<forall>p < NPROC. proc_ok (nextpid s) (procs s ! p)) \<and>
     pids_distinct (procs s) \<and> 0 < nextpid s"

lemma slice_pos: "k < NMLFQ \<Longrightarrow> 0 < mlfq_slice ! k"
proof -
  assume "k < NMLFQ"
  then have "k = 0 \<or> k = 1 \<or> k = 2 \<or> k = 3" by (simp add: NMLFQ_def) arith
  then show ?thesis by (auto simp: mlfq_slice_def)
qed

lemma proc_okD: "proc_ok n q \<Longrightarrow> queue q < NMLFQ" "proc_ok n q \<Longrightarrow> 0 < mlfq_slice ! queue q"
  by (simp_all add: proc_ok_def slice_pos)

lemma proc_ok_less: "proc_ok n q \<Longrightarrow> 0 < n \<Longrightarrow> p_pid q < n"
  by (cases "p_state q = UNUSED") (auto simp: proc_ok_def)

lemma upd_proc_simps [simp]:
  "procs (upd_proc p f s) = (procs s)[p := f (procs s ! p)]" "held (upd_proc p f s) = held s"
  "nextpid (upd_proc p f s) = nextpid s" "ticks (upd_proc p f s) = ticks s" "mem (upd_proc p f s) = mem s"
  "curproc (upd_proc p f s) = curproc s" "kout (upd_proc p f s) = kout s" "irq (upd_proc p f s) = irq s"
  "kmem_free (upd_proc p f s) = kmem_free s" "kend (upd_proc p f s) = kend s" "panicking (upd_proc p f s) = panicking s"
  "initproc (upd_proc p f s) = initproc s" "trampoline (upd_proc p f s) = trampoline s"
  "mlfq_last (upd_proc p f s) = mlfq_last s" "forkret_addr (upd_proc p f s) = forkret_addr s"
  by (simp_all add: upd_proc_def)

lemma proc_at_upd [simp]:
  "p < length (procs s) \<Longrightarrow> proc_at (upd_proc p f s) p = f (proc_at s p)"
  "p \<noteq> k \<Longrightarrow> proc_at (upd_proc p f s) k = proc_at s k"
  by (simp_all add: proc_at_def)

lemma proc_at_other [simp]:
  "proc_at (s\<lparr>held := h\<rparr>) p = proc_at s p" "proc_at (s\<lparr>irq := i\<rparr>) p = proc_at s p"
  "proc_at (s\<lparr>kout := ko\<rparr>) p = proc_at s p" "proc_at (s\<lparr>mem := m\<rparr>) p = proc_at s p"
  "proc_at (s\<lparr>kmem_free := a\<rparr>) p = proc_at s p" "proc_at (s\<lparr>nextpid := n\<rparr>) p = proc_at s p"
  "proc_at (s\<lparr>ticks := w\<rparr>) p = proc_at s p" "proc_at (s\<lparr>curproc := c\<rparr>) p = proc_at s p"
  "proc_at (s\<lparr>mlfq_last := l\<rparr>) p = proc_at s p"
  by (simp_all add: proc_at_def)

lemma table_ok_at: "table_ok s \<Longrightarrow> p < NPROC \<Longrightarrow> proc_ok (nextpid s) (proc_at s p)"
  by (simp add: table_ok_def proc_at_def)

lemma table_ok_len: "table_ok s \<Longrightarrow> length (procs s) = NPROC"
  by (simp add: table_ok_def)

text \<open>One process changed.\<close>

lemma table_ok_upd:
  assumes "table_ok s" and "proc_ok (nextpid s) (f (proc_at s p))"
    and "p_state (f (proc_at s p)) \<noteq> UNUSED \<longrightarrow>
      p_pid (f (proc_at s p)) = p_pid (proc_at s p) \<and> p_state (proc_at s p) \<noteq> UNUSED
      \<or> (\<forall>k < NPROC. k \<noteq> p \<longrightarrow> p_pid (proc_at s k) \<noteq> p_pid (f (proc_at s p)))"
  shows "table_ok (upd_proc p f s)"
proof (cases "p < NPROC")
  case True
  have "pids_distinct ((procs s)[p := f (procs s ! p)])"
    unfolding pids_distinct_def
  proof (intro allI impI)
    fix i j
    assume ij: "i < length ((procs s)[p := f (procs s ! p)])" "j < length ((procs s)[p := f (procs s ! p)])" "i \<noteq> j"
      and st: "p_state ((procs s)[p := f (procs s ! p)] ! i) \<noteq> UNUSED"
      "p_state ((procs s)[p := f (procs s ! p)] ! j) \<noteq> UNUSED"
    have d: "\<And>i j. i < NPROC \<Longrightarrow> j < NPROC \<Longrightarrow> i \<noteq> j \<Longrightarrow> p_state (procs s ! i) \<noteq> UNUSED \<Longrightarrow>
        p_state (procs s ! j) \<noteq> UNUSED \<Longrightarrow> p_pid (procs s ! i) \<noteq> p_pid (procs s ! j)"
      using assms(1) by (simp add: table_ok_def pids_distinct_def)
    show "p_pid ((procs s)[p := f (procs s ! p)] ! i) \<noteq> p_pid ((procs s)[p := f (procs s ! p)] ! j)"
      using ij st assms(3) d[of i j] d[of p j] d[of i p] table_ok_len[OF assms(1)]
      by (cases "i = p"; cases "j = p") (auto simp: proc_at_def)
  qed
  with assms(1,2) True show ?thesis
    by (auto simp: table_ok_def proc_at_def nth_list_update)
next
  case False
  with assms(1) show ?thesis by (simp add: table_ok_def list_update_beyond)
qed

lemma table_ok_same:
  "procs t = procs s \<Longrightarrow> nextpid t = nextpid s \<Longrightarrow> table_ok t = table_ok s"
  by (simp add: table_ok_def)

lemma table_ok_held [simp]: "table_ok (s\<lparr>held := h\<rparr>) = table_ok s"
  by (rule table_ok_same) simp_all

lemma mem_only_procs:
  assumes "mem_only s t"
  shows "procs t = procs s" "nextpid t = nextpid s" "ticks t = ticks s" "curproc t = curproc s"
    "held t = held s" "trampoline t = trampoline s" "forkret_addr t = forkret_addr s" "initproc t = initproc s"
    "kout t = kout s" "irq t = irq s" "panicking t = panicking s" "mlfq_last t = mlfq_last s"
  using assms by (auto elim!: mem_onlyE)

named_theorems tables \<open>operations keep the process table well-formed\<close>

lemma acquire_table [tables]: "table_ok s \<Longrightarrow> post (acquire l s) table_ok"
  by (auto simp: post_def acquire_Ok)

lemma release_table [tables]: "table_ok s \<Longrightarrow> post (release l s) table_ok"
  by (auto simp: post_def release_Ok)

lemma post_mem_only:
  "(\<And>s0. mem_only s0 s \<Longrightarrow> post m (\<lambda>(r, t). mem_only s0 t)) \<Longrightarrow> table_ok s \<Longrightarrow> post m (\<lambda>(r, t). table_ok t)"
  "(\<And>s0. mem_only s0 s \<Longrightarrow> post n (mem_only s0)) \<Longrightarrow> table_ok s \<Longrightarrow> post n table_ok"
proof -
  have k: "mem_only s t \<Longrightarrow> table_ok s \<Longrightarrow> table_ok t" for t
    using table_ok_same[of t s] mem_only_procs(1,2)[of s t] by simp
  show "(\<And>s0. mem_only s0 s \<Longrightarrow> post m (\<lambda>(r, t). mem_only s0 t)) \<Longrightarrow> table_ok s \<Longrightarrow> post m (\<lambda>(r, t). table_ok t)"
    by (rule post_mono[of _ "\<lambda>(r, t). mem_only s t"]) (use k in auto)
  show "(\<And>s0. mem_only s0 s \<Longrightarrow> post n (mem_only s0)) \<Longrightarrow> table_ok s \<Longrightarrow> post n table_ok"
    by (rule post_mono[of _ "mem_only s"]) (use k in auto)
qed

lemmas memory_tables [tables] =
  post_mem_only(1)[OF kalloc_frame] post_mem_only(2)[OF kfree_frame] post_mem_only(1)[OF uvmcreate_frame]
  post_mem_only(1)[OF mappages_frame] post_mem_only(2)[OF uvmfree_frame] post_mem_only(2)[OF uvmunmap_frame]
  post_mem_only(1)[OF uvmalloc_frame] post_mem_only(1)[OF uvmdealloc_frame] post_mem_only(1)[OF uvmcopy_frame]
  post_mem_only(1)[OF copyout_frame] post_mem_only(1)[OF copyin_frame] post_mem_only(1)[OF copyinstr_frame]
  post_mem_only(1)[OF vmfault_frame]

lemma table_ok_step:
  assumes "table_ok s"
    and "\<And>q. p < NPROC \<Longrightarrow> q = proc_at s p \<Longrightarrow> proc_ok (nextpid s) q \<Longrightarrow>
      proc_ok (nextpid s) (f q) \<and>
      (p_state (f q) \<noteq> UNUSED \<longrightarrow> p_pid (f q) = p_pid q \<and> p_state q \<noteq> UNUSED)"
  shows "table_ok (upd_proc p f s)"
proof (cases "p < NPROC")
  case True
  note a = assms(2)[OF True refl table_ok_at[OF assms(1) True]]
  from a show ?thesis by (intro table_ok_upd[OF assms(1)]) auto
next
  case False
  with assms(1) show ?thesis by (simp add: table_ok_def list_update_beyond)
qed

section \<open>Each operation\<close>

lemma printk_frame:
  "post (printk fmt ap s) (\<lambda>t. \<exists>u. t = s\<lparr>kout := kout s @ u\<rparr>)"
proof (rule postI)
  fix t assume "printk fmt ap s = Ok t"
  then show "\<exists>u. t = s\<lparr>kout := kout s @ u\<rparr>"
    by (auto simp: printk_def Let_def bnd_eq_Ok put_string_append acquire_Ok release_Ok split: if_splits)
qed

lemma printk_table [tables]: "table_ok s \<Longrightarrow> post (printk fmt ap s) table_ok"
  by (rule post_mono[OF printk_frame]) (auto simp: table_ok_def)

lemma mlfq_boost_table [tables]: "table_ok s \<Longrightarrow> post (mlfq_boost s) table_ok"
  unfolding mlfq_boost_def
  by (rule post_for_each, intro keeps tables)
    (auto intro!: tables keeps table_ok_step simp: proc_ok_def mlfq_slice_def NMLFQ_def Let_def)

lemma tick_queue_ok:
  "proc_ok n q \<Longrightarrow> proc_ok n (tick_queue (q\<lparr>cpu_ticks := c, ticks_used := ticks_used q + 1\<rparr>))"
proof -
  assume q: "proc_ok n q"
  then have b: "queue q < NMLFQ" "0 \<le> ticks_used q" by (simp_all add: proc_ok_def)
  then have "0 < mlfq_slice ! (queue q + 1)" if "queue q < NMLFQ - 1"
    using slice_pos[of "queue q + 1"] that by simp
  with q b slice_pos[OF b(1)] show ?thesis
    by (auto simp: proc_ok_def tick_queue_def)
qed

lemma tick_queue_simps [simp]:
  "p_state (tick_queue q) = p_state q" "p_pid (tick_queue q) = p_pid q" "p_chan (tick_queue q) = p_chan q"
  by (simp_all add: tick_queue_def)

lemma mlfq_timer_tick_table [tables]: "table_ok s \<Longrightarrow> post (mlfq_timer_tick s) table_ok"
  unfolding mlfq_timer_tick_def
  by (intro keeps) (auto intro!: table_ok_step tick_queue_ok)

lemma allocpid_table:
  "table_ok s \<Longrightarrow> post (allocpid s) (\<lambda>(pid, t). table_ok t \<and> procs t = procs s \<and> pid = nextpid s \<and>
     nextpid t = pid + 1 \<and> held t = held s)"
proof (rule postI)
  fix x assume ok: "table_ok s" and "allocpid s = Ok x"
  then have x: "x = (nextpid s, s\<lparr>nextpid := nextpid s + 1\<rparr>)"
    by (auto simp: allocpid_def bnd_eq_Ok acquire_Ok release_Ok Let_def sadd32_def split: if_splits)
  have "proc_ok (nextpid s + 1) q" if "proc_ok (nextpid s) q" for q using that by (auto simp: proc_ok_def)
  with ok show "case x of (pid, t) \<Rightarrow> table_ok t \<and> procs t = procs s \<and> pid = nextpid s \<and>
     nextpid t = pid + 1 \<and> held t = held s"
    by (simp add: x table_ok_def)
qed

lemma proc_freepagetable_frame [frames]: "mem_only s0 s \<Longrightarrow> post (proc_freepagetable pt sz s) (mem_only s0)"
  unfolding proc_freepagetable_def by (intro keeps frames)

lemma proc_pagetable_frame [frames]: "mem_only s0 s \<Longrightarrow> post (proc_pagetable p s) (\<lambda>(pt, t). mem_only s0 t)"
  unfolding proc_pagetable_def by (intro keeps frames) auto

lemmas pagetable_tables [tables] =
  post_mem_only(2)[OF proc_freepagetable_frame] post_mem_only(1)[OF proc_pagetable_frame]

definition freed :: "kproc \<Rightarrow> kproc" where
  "freed q = q\<lparr>p_trapframe := 0, p_pagetable := 0, p_sz := 0, p_pid := 0, p_name := [], p_chan := None,
     p_killed := False, p_xstate := 0, p_state := UNUSED\<rparr>"

lemma upd_proc_mem [simp]:
  "upd_proc p f (s\<lparr>mem := m\<rparr>) = (upd_proc p f s)\<lparr>mem := m\<rparr>"
  "upd_proc p f (s\<lparr>kmem_free := a\<rparr>) = (upd_proc p f s)\<lparr>kmem_free := a\<rparr>"
  "upd_proc p f (s\<lparr>held := l\<rparr>) = (upd_proc p f s)\<lparr>held := l\<rparr>"
  by (simp_all add: upd_proc_def)

lemma upd_proc_twice: "upd_proc p f (upd_proc p g s) = upd_proc p (f \<circ> g) s"
  by (cases "p < length (procs s)") (simp_all add: upd_proc_def list_update_beyond)

lemma mem_only_upd: "mem_only s t \<Longrightarrow> mem_only (upd_proc p f s) (upd_proc p f t)"
  by (erule mem_onlyE) (simp add: mem_only_def upd_proc_def)

text \<open>What \<open>freeproc\<close> leaves: the slot free, the memory changed, the rest as it was.\<close>

lemma freeproc_post: "post (freeproc p s) (\<lambda>t. mem_only (upd_proc p freed s) t)"
proof -
  let ?f1 = "\<lambda>q. q\<lparr>p_trapframe := 0\<rparr>"
  let ?f2 = "\<lambda>q. q\<lparr>p_pagetable := 0, p_sz := 0, p_pid := 0, p_name := [], p_chan := None,
               p_killed := False, p_xstate := 0, p_state := UNUSED\<rparr>"
  have fr: "?f2 \<circ> ?f1 = freed" by (simp add: fun_eq_iff freed_def)
  have up2: "mem_only (upd_proc p freed s) (upd_proc p ?f2 t)" if "mem_only (upd_proc p ?f1 s) t" for t
    using mem_only_upd[OF that, of p ?f2] by (simp only: upd_proc_twice fr)
  show ?thesis
    unfolding freeproc_def Let_def
  proof (rule post_bnd)
    show "post (if p_trapframe (proc_at s p) \<noteq> 0 then kfree (p_trapframe (proc_at s p)) s else Ok s) (mem_only s)"
      by (intro keeps frames) auto
    fix t assume "mem_only s t"
    then have t: "mem_only (upd_proc p ?f1 s) (upd_proc p ?f1 t)" by (rule mem_only_upd)
    let ?t = "upd_proc p ?f1 t"
    show "post (bnd (if p_pagetable (proc_at ?t p) \<noteq> 0
            then proc_freepagetable (p_pagetable (proc_at ?t p)) (p_sz (proc_at ?t p)) ?t else Ok ?t)
        (\<lambda>s. Ok (upd_proc p ?f2 s))) (mem_only (upd_proc p freed s))"
      by (rule post_bnd[where Q = "mem_only (upd_proc p ?f1 s)"]) (use t up2 in \<open>auto intro!: keeps frames\<close>)
  qed
qed

lemma freed_ok: "proc_ok n q \<Longrightarrow> proc_ok n (freed q)"
  by (simp add: freed_def proc_ok_def)

lemma freeproc_table [tables]: "table_ok s \<Longrightarrow> post (freeproc p s) table_ok"
proof (rule post_mono[OF freeproc_post])
  fix t assume "table_ok s" "mem_only (upd_proc p freed s) t"
  moreover from this have "table_ok (upd_proc p freed s)"
    by (intro table_ok_step) (auto simp: freed_ok, simp_all add: freed_def)
  ultimately show "table_ok t" using table_ok_same[of t "upd_proc p freed s"] mem_only_procs(1,2) by blast
qed

lemma growproc_table [tables]: "table_ok s \<Longrightarrow> post (growproc n s) (\<lambda>(r, t). table_ok t)"
  unfolding growproc_def myproc_def
  by (intro keeps tables post_bnd_any) (auto intro!: table_ok_step simp: proc_ok_def)

text \<open>The process a hart runs is in the table and running.\<close>

definition cur_ok :: "'a proc_st_scheme \<Rightarrow> bool" where
  "cur_ok s \<longleftrightarrow> (\<forall>p. curproc s = Some p \<longrightarrow> p < NPROC \<and> p_state (proc_at s p) = RUNNING)"

lemma myproc_Ok: "myproc s = Ok p \<longleftrightarrow> curproc s = Some p"
  by (simp add: myproc_def split: option.split)

lemma sleep_prepare_table [tables]: "table_ok s \<Longrightarrow> cur_ok s \<Longrightarrow> post (sleep_prepare ch s) table_ok"
proof (rule postI)
  fix t assume s: "table_ok s" "cur_ok s" and r: "sleep_prepare ch s = Ok t"
  then obtain p where p: "curproc s = Some p" "t = (upd_proc p (prepare ch) s)\<lparr>held := held t\<rparr>"
    by (auto simp: sleep_prepare_def bnd_eq_Ok myproc_Ok acquire_Ok release_Ok bnd_assertk split: if_splits)
  moreover have "ch \<noteq> None"
    using r by (auto simp: sleep_prepare_def bnd_eq_Ok bnd_assertk split: if_splits)
  ultimately have "table_ok (upd_proc p (prepare ch) s)"
    using s by (intro table_ok_step) (auto simp: prepare_def proc_ok_def cur_ok_def)
  then show "table_ok t" by (subst p(2)) simp
qed

lemma wakeup_table [tables]: "table_ok s \<Longrightarrow> post (wakeup ch s) table_ok"
  unfolding wakeup_def
  by (rule post_for_each, intro keeps tables table_ok_step) (auto simp: proc_ok_def wake_def)

lemma kkill_table [tables]: "table_ok s \<Longrightarrow> post (kkill pid s) (\<lambda>(r, t). table_ok t)"
proof -
  have "table_ok s \<Longrightarrow> post (kkill_from pid ps s) (\<lambda>(r, t). table_ok t)" for ps
  proof (induction ps arbitrary: s)
    case (Cons p ps)
    show ?case unfolding kkill_from.simps
      by (intro keeps tables table_ok_step Cons) (auto simp: proc_ok_def kill1_def)
  qed (auto simp: post_def)
  then show "table_ok s \<Longrightarrow> post (kkill pid s) (\<lambda>(r, t). table_ok t)" by (simp add: kkill_def)
qed

lemma setkilled_table [tables]: "table_ok s \<Longrightarrow> post (setkilled p s) table_ok"
  unfolding setkilled_def by (intro keeps tables table_ok_step) (auto simp: proc_ok_def)

lemma killed_table [tables]: "table_ok s \<Longrightarrow> post (killed p s) (\<lambda>(r, t). table_ok t)"
  unfolding killed_def by (intro keeps tables)

section \<open>Allocating a process\<close>

text \<open>No process lock is held.\<close>

definition no_proc_lock :: "'a proc_st_scheme \<Rightarrow> bool" where
  "no_proc_lock s \<longleftrightarrow> (\<forall>p. L_proc p \<notin> set (held s))"

lemma find_unused_eq:
  "no_proc_lock s \<Longrightarrow> find_unused ps s =
     (case find (\<lambda>p. p_state (proc_at s p) = UNUSED) ps of
        None \<Rightarrow> Ok (None, s) | Some p \<Rightarrow> Ok (Some p, s\<lparr>held := L_proc p # held s\<rparr>))"
proof (induction ps)
  case (Cons p ps)
  have "s\<lparr>held := held s\<rparr> = s" by simp
  with Cons show ?case by (auto simp: no_proc_lock_def proc_at_def)
qed simp

lemma allocpid_post:
  "post (allocpid s) (\<lambda>x. x = (nextpid s, s\<lparr>nextpid := nextpid s + 1\<rparr>))"
proof (rule postI)
  fix x assume "allocpid s = Ok x"
  then show "x = (nextpid s, s\<lparr>nextpid := nextpid s + 1\<rparr>)"
    by (auto simp: allocpid_def bnd_eq_Ok acquire_Ok release_Ok Let_def sadd32_def split: if_splits)
qed

definition given :: "int \<Rightarrow> addr \<Rightarrow> addr \<Rightarrow> addr \<Rightarrow> 32 word \<Rightarrow> kproc \<Rightarrow> kproc" where
  "given pid tf pt fr now q = q\<lparr>p_pid := pid, p_state := USED, p_trapframe := tf, p_pagetable := pt,
     p_context := new_context fr (p_kstack q), creation_time := now, first_run_time := -1, end_time := 0,
     cpu_ticks := 0, queue := 0, ticks_used := 0\<rparr>"

lemma give_up_post: "L_proc p \<in> set (held s) \<Longrightarrow>
  post (give_up p s) (\<lambda>x. \<exists>t. x = (None, t\<lparr>held := remove1 (L_proc p) (held s)\<rparr>) \<and> mem_only (upd_proc p freed s) t)"
  unfolding give_up_def
proof (rule post_bnd[OF freeproc_post])
  fix t assume "L_proc p \<in> set (held s)" and m: "mem_only (upd_proc p freed s) t"
  then show "post (bnd (release (L_proc p) t) (\<lambda>s. Ok (None, s)))
    (\<lambda>x. \<exists>t. x = (None, t\<lparr>held := remove1 (L_proc p) (held s)\<rparr>) \<and> mem_only (upd_proc p freed s) t)"
    using mem_only_procs(5)[OF m] by (auto simp: post_def release_def bnd_assertk)
qed

text \<open>
  What \<open>allocproc\<close> writes into the table: the first free slot with the next pid, or that slot reset and
  the counter moved on, or nothing where there is no free slot.
\<close>

definition alloc_frame :: "'a proc_st_scheme \<Rightarrow> nat option \<Rightarrow> 'a proc_st_scheme \<Rightarrow> bool" where
  "alloc_frame s r t \<longleftrightarrow>
     (case r of
        None \<Rightarrow> find (\<lambda>p. p_state (proc_at s p) = UNUSED) [0..<NPROC] = None \<and> t = s \<or> (\<exists>p. find (\<lambda>p. p_state (proc_at s p) = UNUSED) [0..<NPROC] = Some p \<and>
          mem_only ((upd_proc p freed s)\<lparr>nextpid := nextpid s + 1\<rparr>) t)
      | Some p \<Rightarrow> find (\<lambda>p. p_state (proc_at s p) = UNUSED) [0..<NPROC] = Some p \<and>
          (\<exists>tf pt. tf \<noteq> 0 \<and> pt \<noteq> 0 \<and>
             mem_only ((upd_proc p (given (nextpid s) tf pt (forkret_addr s) (ticks s)) s)
               \<lparr>held := L_proc p # held s, nextpid := nextpid s + 1\<rparr>) t))"

lemma find_less: "find P [0..<n] = Some p \<Longrightarrow> p < n \<and> P p"
  by (auto simp: find_Some_iff)

lemma upd_proc_nextpid [simp]: "upd_proc p f (s\<lparr>nextpid := n\<rparr>) = (upd_proc p f s)\<lparr>nextpid := n\<rparr>"
  by (simp add: upd_proc_def)

lemma mem_only_held_upd: "mem_only s t \<Longrightarrow> mem_only (s\<lparr>held := h\<rparr>) (t\<lparr>held := h\<rparr>)"
  by (erule mem_onlyE) (simp add: mem_only_def)

lemma give_up_alloc:
  fixes s :: "'a proc_st_scheme"
  assumes "find (\<lambda>p. p_state (proc_at s p) = UNUSED) [0..<NPROC] = Some p"
    and m: "mem_only (upd_proc p f (s\<lparr>held := L_proc p # held s, nextpid := nextpid s + 1\<rparr>)) t"
    and f: "freed \<circ> f = freed"
  shows "post (give_up p t) (\<lambda>(r, t). alloc_frame s r t)"
proof (rule post_mono[OF give_up_post])
  have h: "held t = L_proc p # held s" using mem_only_procs(5)[OF m] by simp
  then show "L_proc p \<in> set (held t)" by simp
  fix x :: "nat option \<times> 'a proc_st_scheme"
  assume "\<exists>u. x = (None, u\<lparr>held := remove1 (L_proc p) (held t)\<rparr>) \<and> mem_only (upd_proc p freed t) u"
  then obtain u where x: "x = (None, u\<lparr>held := held s\<rparr>)" and u: "mem_only (upd_proc p freed t) u" using h by auto
  have "mem_only (upd_proc p freed (s\<lparr>held := L_proc p # held s, nextpid := nextpid s + 1\<rparr>)) u"
    using mem_only_trans[OF mem_only_upd[OF m, of p freed] u] by (simp only: upd_proc_twice f)
  note mem_only_held_upd[OF this, of "held s"]
  moreover have "(upd_proc p freed (s\<lparr>held := L_proc p # held s, nextpid := nextpid s + 1\<rparr>))\<lparr>held := held s\<rparr>
      = (upd_proc p freed s)\<lparr>nextpid := nextpid s + 1\<rparr>"
    by (simp add: upd_proc_def)
  ultimately have "mem_only ((upd_proc p freed s)\<lparr>nextpid := nextpid s + 1\<rparr>) (u\<lparr>held := held s\<rparr>)"
    by metis
  with assms(1) show "case x of (r, t) \<Rightarrow> alloc_frame s r t" by (auto simp: x alloc_frame_def)
qed

lemma allocproc_post:
  assumes "no_proc_lock s" and len: "length (procs s) = NPROC"
  shows "post (allocproc s) (\<lambda>(r, t). alloc_frame s r t)"
proof (cases "find (\<lambda>p. p_state (proc_at s p) = UNUSED) [0..<NPROC]")
  case None
  then show ?thesis using find_unused_eq[OF assms(1), of "[0..<NPROC]"]
    by (simp add: allocproc_def post_def alloc_frame_def)
next
  case (Some p)
  have p: "p < NPROC" "p < length (procs s)" using find_less[OF Some] len by auto
  define pid where "pid = nextpid s"
  define s1 where "s1 = s\<lparr>held := L_proc p # held s, nextpid := pid + 1\<rparr>"
  define f1 where "f1 = (\<lambda>q :: kproc. q\<lparr>p_pid := pid, p_state := USED\<rparr>)"
  define f2 where "f2 tf = (\<lambda>q. q\<lparr>p_trapframe := tf\<rparr>) \<circ> f1" for tf
  define f3 where "f3 tf pt = (\<lambda>q. q\<lparr>p_pagetable := pt\<rparr>) \<circ> f2 tf" for tf pt
  have fr: "freed \<circ> f2 tf = freed" "freed \<circ> f3 tf pt = freed" for tf pt
    by (simp_all add: fun_eq_iff freed_def f1_def f2_def f3_def)
  have run: "allocproc s = bnd (allocpid (s\<lparr>held := L_proc p # held s\<rparr>)) (\<lambda>(pid, s).
           bnd (kalloc (upd_proc p (\<lambda>q. q\<lparr>p_pid := pid, p_state := USED\<rparr>) s)) (\<lambda>(tf, s).
             let s = upd_proc p (\<lambda>q. q\<lparr>p_trapframe := tf\<rparr>) s in
             if tf = 0 then give_up p s
             else bnd (proc_pagetable p s) (\<lambda>(pt, s).
               let s = upd_proc p (\<lambda>q. q\<lparr>p_pagetable := pt\<rparr>) s in
               if pt = 0 then give_up p s
               else Ok (Some p, upd_proc p (\<lambda>q. q\<lparr>p_context := new_context (forkret_addr s) (p_kstack q),
                      creation_time := ticks s, first_run_time := -1, end_time := 0, cpu_ticks := 0,
                      queue := 0, ticks_used := 0\<rparr>) s))))"
    using find_unused_eq[OF assms(1), of "[0..<NPROC]"] Some by (simp add: allocproc_def)
  show ?thesis
    unfolding run
  proof (rule post_bnd[OF allocpid_post], simp only: prod.case, rule post_bnd_pair[OF kalloc_frame[OF mem_only_refl]])
    fix x tf t
    assume "x = (nextpid (s\<lparr>held := L_proc p # held s\<rparr>), s\<lparr>held := L_proc p # held s, nextpid := nextpid (s\<lparr>held := L_proc p # held s\<rparr>) + 1\<rparr>)"
      and "mem_only (upd_proc p (\<lambda>q. q\<lparr>p_pid := nextpid (s\<lparr>held := L_proc p # held s\<rparr>), p_state := USED\<rparr>)
          (s\<lparr>held := L_proc p # held s, nextpid := nextpid (s\<lparr>held := L_proc p # held s\<rparr>) + 1\<rparr>)) t"
    then have m: "mem_only (upd_proc p f1 s1) t" by (simp add: f1_def s1_def pid_def)
    let ?t = "upd_proc p (\<lambda>q. q\<lparr>p_trapframe := tf\<rparr>) t"
    have m2: "mem_only (upd_proc p (f2 tf) s1) ?t"
      using mem_only_upd[OF m] by (simp only: f2_def upd_proc_twice[symmetric])
    show "post (let s = ?t in if tf = 0 then give_up p s
             else bnd (proc_pagetable p s) (\<lambda>(pt, s).
               let s = upd_proc p (\<lambda>q. q\<lparr>p_pagetable := pt\<rparr>) s in
               if pt = 0 then give_up p s
               else Ok (Some p, upd_proc p (\<lambda>q. q\<lparr>p_context := new_context (forkret_addr s) (p_kstack q),
                      creation_time := ticks s, first_run_time := -1, end_time := 0, cpu_ticks := 0,
                      queue := 0, ticks_used := 0\<rparr>) s))) (\<lambda>(r, t). alloc_frame s r t)"
      unfolding Let_def
    proof (rule post_if, rule give_up_alloc[OF Some m2[unfolded s1_def pid_def] fr(1)],
        rule post_bnd_pair[OF proc_pagetable_frame[OF m2]])
      fix pt u assume tf: "tf \<noteq> 0" and m3: "mem_only (upd_proc p (f2 tf) s1) u"
      let ?u = "upd_proc p (\<lambda>q. q\<lparr>p_pagetable := pt\<rparr>) u"
      let ?f4 = "\<lambda>q. q\<lparr>p_context := new_context (forkret_addr ?u) (p_kstack q),
                      creation_time := ticks ?u, first_run_time := -1, end_time := 0, cpu_ticks := 0,
                      queue := 0, ticks_used := 0\<rparr>"
      have m4: "mem_only (upd_proc p (f3 tf pt) s1) ?u"
        using mem_only_upd[OF m3] by (simp only: f3_def upd_proc_twice[symmetric])
      have "?f4 \<circ> f3 tf pt = given pid tf pt (forkret_addr s) (ticks s)"
        using mem_only_procs(3,7)[OF m4] by (simp add: fun_eq_iff given_def f3_def f2_def f1_def s1_def)
      then have m5: "mem_only (upd_proc p (given pid tf pt (forkret_addr s) (ticks s)) s1) (upd_proc p ?f4 ?u)"
        using mem_only_upd[OF m4, of p ?f4] by (simp only: upd_proc_twice)
      show "post (if pt = 0 then give_up p ?u else Ok (Some p, upd_proc p ?f4 ?u)) (\<lambda>(r, t). alloc_frame s r t)"
      proof (rule post_if, rule give_up_alloc[OF Some m4[unfolded s1_def pid_def] fr(2)], rule post_Ok_pair)
        assume "pt \<noteq> 0"
        with tf m5 Some show "alloc_frame s (Some p) (upd_proc p ?f4 ?u)"
          by (auto simp: alloc_frame_def s1_def pid_def)
      qed
    qed
  qed
qed

lemma allocproc_table:
  assumes "no_proc_lock s" and ok: "table_ok s"
  shows "post (allocproc s) (\<lambda>(r, t). table_ok t)"
proof (rule post_mono[OF allocproc_post[OF assms(1) table_ok_len[OF ok]]])
  fix x assume "case x of (r, t) \<Rightarrow> alloc_frame s r t"
  then obtain r t where x: "x = (r, t)" and r: "alloc_frame s r t" by (cases x) auto
  have inc: "table_ok (u\<lparr>nextpid := nextpid u + 1\<rparr>)" if "table_ok u" for u :: "'a proc_st_scheme"
  proof -
    have "proc_ok (nextpid u + 1) q" if "proc_ok (nextpid u) q" for q using that by (auto simp: proc_ok_def)
    with that show ?thesis by (simp add: table_ok_def)
  qed
  have fr: "table_ok ((upd_proc p freed s)\<lparr>nextpid := nextpid s + 1\<rparr>)" for p
    using inc[OF table_ok_step[OF ok, of p freed]] freed_ok by (simp add: freed_def)
  have gv: "table_ok ((upd_proc p (given (nextpid s) tf pt a now) s)\<lparr>held := h, nextpid := nextpid s + 1\<rparr>)"
    if "p < NPROC" for p tf pt a now h
  proof -
    let ?s = "s\<lparr>nextpid := nextpid s + 1\<rparr>"
    have ok1: "table_ok ?s" by (rule inc[OF ok])
    have "table_ok (upd_proc p (given (nextpid s) tf pt a now) ?s)"
    proof (rule table_ok_upd[OF ok1])
      show "proc_ok (nextpid ?s) (given (nextpid s) tf pt a now (proc_at ?s p))"
        using ok by (simp add: given_def proc_ok_def table_ok_def NMLFQ_def mlfq_slice_def)
      have "p_pid (proc_at s k) < nextpid s" if "k < NPROC" for k
        using proc_ok_less[OF table_ok_at[OF ok that]] ok by (simp add: table_ok_def)
      then show "p_state (given (nextpid s) tf pt a now (proc_at ?s p)) \<noteq> UNUSED \<longrightarrow>
        p_pid (given (nextpid s) tf pt a now (proc_at ?s p)) = p_pid (proc_at ?s p) \<and> p_state (proc_at ?s p) \<noteq> UNUSED \<or>
        (\<forall>k < NPROC. k \<noteq> p \<longrightarrow> p_pid (proc_at ?s k) \<noteq> p_pid (given (nextpid s) tf pt a now (proc_at ?s p)))"
        by (fastforce simp: given_def proc_at_def)
    qed
    then show ?thesis by (simp add: table_ok_def)
  qed
  have mem: "table_ok t" if "mem_only u t" "table_ok u" for u
    using that table_ok_same[of t u] mem_only_procs(1,2) by blast
  show "case x of (r, t) \<Rightarrow> table_ok t"
    using r ok mem[OF _ fr] mem[OF _ gv] find_less
    by (auto simp: x alloc_frame_def split: option.splits)
qed

text \<open>
  With four free pages, one for the trap frame and three for the tables, \<open>allocproc\<close> succeeds; with
  fewer it cannot.
\<close>

lemma kmem_ok_proc [simp]:
  "kmem_ok (upd_proc p f s) ps = kmem_ok s ps" "kmem_ok (s\<lparr>nextpid := n\<rparr>) ps = kmem_ok s ps"
  "kmem_ok (s\<lparr>held := L_proc p # held s\<rparr>) ps = kmem_ok s ps"
  by (simp_all add: kmem_ok_def page_ok_def)

lemma vm_ok_proc [simp]:
  "vm_ok (upd_proc p f s) pt T ps = vm_ok s pt T ps" "mapped (upd_proc p f s) pt = mapped s pt"
  by (simp_all add: vm_ok_def mapped_def fun_eq_iff)

text \<open>The two pages every user page table has.\<close>

definition high_map :: "addr \<Rightarrow> addr \<Rightarrow> addr \<Rightarrow> 64 word" where
  "high_map tramp tf va =
     (if PGROUNDDOWN va = TRAMPOLINE then PA2PTE tramp OR (PTE_R OR PTE_X) OR PTE_V
      else if PGROUNDDOWN va = TRAPFRAME then PA2PTE tf OR (PTE_R OR PTE_W) OR PTE_V else 0)"

lemma proc_pagetable_maps:
  fixes s :: "'a proc_st_scheme"
  assumes k: "kmem_ok s (q # qs)" and n: "2 \<le> length qs"
  shows "\<exists>t. proc_pagetable p s = Ok (q, t) \<and> mem_only s t \<and>
    vm_ok t q ({q} \<union> set (take 2 qs)) (drop 2 qs) \<and>
    (\<forall>va < MAXVA. mapped t q va = high_map (trampoline s) (p_trapframe (proc_at s p)) va)"
proof -
  note u = uvmcreate_page[OF k]
  let ?s1 = "zero_page q (took q s)"
  have q: "q \<noteq> 0" using k by (auto simp: kmem_ok_def page_ok_def)
  have tr1: "trampoline ?s1 = trampoline s" by (rule mem_only_procs(6)[OF u(5)])
  obtain r s2 where a: "mappages q TRAMPOLINE PGSIZE (trampoline s) (PTE_R OR PTE_X) ?s1 = Ok (r, s2)"
    "vm_ok s2 q ({q} \<union> set (take 2 qs)) (drop 2 qs)" "mem_only ?s1 s2" "r = 0 \<longleftrightarrow> 2 \<le> length qs" "r = 0 \<or> r = -1"
    "\<And>vb. vb < MAXVA \<Longrightarrow> mapped s2 q vb = (if r = 0 \<and> PGROUNDDOWN vb = TRAMPOLINE
       then PA2PTE (trampoline s) OR (PTE_R OR PTE_X) OR PTE_V else mapped ?s1 q vb)"
    by (rule map_oneE[OF u(2) high_pages(1,3) u(3,4), of "trampoline s" "PTE_R OR PTE_X"]) (rule that)
  have r: "r = 0" using a(4) n by simp
  have m2: "mapped s2 q vb =
      (if PGROUNDDOWN vb = TRAMPOLINE then PA2PTE (trampoline s) OR (PTE_R OR PTE_X) OR PTE_V else 0)"
    if "vb < MAXVA" for vb using a(6)[OF that] u(3) r by simp
  have "mapped s2 q TRAMPOLINE \<noteq> 0"
    unfolding m2[OF high_pages(1)] high_pages(6) by (simp only: simp_thms if_True valid_nonzero)
  then have mi: "missing (mem s2) 2 q TRAPFRAME = 0"
    using mapped_missing missing_same[of 2 TRAPFRAME TRAMPOLINE "mem s2" q] high_pages_share by simp
  have free: "mapped s2 q TRAPFRAME = 0" using m2[OF high_pages(2)] high_pages(5,7) by simp
  have tf2: "p_trapframe (proc_at s2 p) = p_trapframe (proc_at s p)"
    using mem_only_procs(1)[OF mem_only_trans[OF u(5) a(3)]] by (simp add: proc_at_def)
  let ?tf = "p_trapframe (proc_at s p)"
  obtain r3 s3 where b: "mappages q TRAPFRAME PGSIZE ?tf (PTE_R OR PTE_W) s2 = Ok (r3, s3)"
    "vm_ok s3 q ({q} \<union> set (take 2 qs) \<union> set (take 0 (drop 2 qs))) (drop 0 (drop 2 qs))" "mem_only s2 s3"
    "r3 = 0 \<longleftrightarrow> 0 \<le> length (drop 2 qs)" "r3 = 0 \<or> r3 = -1"
    "\<And>vb. vb < MAXVA \<Longrightarrow> mapped s3 q vb = (if r3 = 0 \<and> PGROUNDDOWN vb = TRAPFRAME
       then PA2PTE ?tf OR (PTE_R OR PTE_W) OR PTE_V else mapped s2 q vb)"
    by (rule map_oneE[OF a(2) high_pages(2,4) free mi, of ?tf "PTE_R OR PTE_W"]) (rule that)
  have r3: "r3 = 0" using b(4) by simp
  have "mapped s3 q va = high_map (trampoline s) ?tf va" if "va < MAXVA" for va
    using b(6)[OF that] r3 m2[OF that] high_pages(5) by (auto simp: high_map_def)
  moreover have "proc_pagetable p s = Ok (q, s3)"
    using u(1) q a(1) r b(1) r3 by (simp add: proc_pagetable_def tr1 tf2)
  moreover have "mem_only s s3" using mem_only_trans[OF mem_only_trans[OF u(5) a(3)] b(3)] .
  moreover have "vm_ok s3 q ({q} \<union> set (take 2 qs)) (drop 2 qs)" using b(2) by simp
  ultimately show ?thesis by blast
qed

lemma proc_pagetable_short:
  fixes s :: "'a proc_st_scheme"
  assumes k: "kmem_ok s qs" and n: "length qs < 3"
  shows "post (proc_pagetable p s) (\<lambda>(pt, t). pt = 0)"
proof (cases qs)
  case Nil
  with k show ?thesis by (simp add: proc_pagetable_def uvmcreate_def kalloc_empty post_def)
next
  case (Cons q ps)
  note u = uvmcreate_page[OF k[unfolded Cons]]
  let ?s1 = "zero_page q (took q s)"
  have q: "q \<noteq> 0" using k Cons by (auto simp: kmem_ok_def page_ok_def)
  have tr1: "trampoline ?s1 = trampoline s" by (rule mem_only_procs(6)[OF u(5)])
  obtain r s2 where a: "mappages q TRAMPOLINE PGSIZE (trampoline s) (PTE_R OR PTE_X) ?s1 = Ok (r, s2)"
    "vm_ok s2 q ({q} \<union> set (take 2 ps)) (drop 2 ps)" "mem_only ?s1 s2" "r = 0 \<longleftrightarrow> 2 \<le> length ps"
    "r = 0 \<or> r = -1" "\<And>vb. vb < MAXVA \<Longrightarrow> mapped s2 q vb = (if r = 0 \<and> PGROUNDDOWN vb = TRAMPOLINE
       then PA2PTE (trampoline s) OR (PTE_R OR PTE_X) OR PTE_V else mapped ?s1 q vb)"
    by (rule map_oneE[OF u(2) high_pages(1,3) u(3,4), of "trampoline s" "PTE_R OR PTE_X"]) (rule that)
  then have "r = -1" using n Cons by auto
  with a(1) u(1) q show ?thesis
    by (auto simp: proc_pagetable_def tr1 post_def bnd_eq_Ok)
qed

lemma allocproc_succeeds:
  fixes s :: "'a proc_st_scheme"
  assumes "no_proc_lock s" "L_pid \<notin> set (held s)" and ok: "table_ok s" and "nextpid s < INT_MAX"
    and k: "kmem_ok s (tf # q # qs)" and n: "2 \<le> length qs"
    and p: "find (\<lambda>p. p_state (proc_at s p) = UNUSED) [0..<NPROC] = Some p"
  shows "\<exists>t. allocproc s = Ok (Some p, t) \<and> vm_ok t q ({q} \<union> set (take 2 qs)) (drop 2 qs) \<and>
    p_trapframe (proc_at t p) = tf \<and> p_pagetable (proc_at t p) = q \<and>
    (\<forall>va < MAXVA. mapped t q va = high_map (trampoline s) tf va)"
proof -
  have pl: "p < length (procs s)" using find_less[OF p] table_ok_len[OF ok] by simp
  have nz: "tf \<noteq> 0" "q \<noteq> 0" using k by (auto simp: kmem_ok_def page_ok_def)
  define s1 where "s1 = upd_proc p (\<lambda>q. q\<lparr>p_pid := nextpid s, p_state := USED\<rparr>)
    (s\<lparr>held := L_proc p # held s, nextpid := nextpid s + 1\<rparr>)"
  have "0 < nextpid s" using ok by (simp add: table_ok_def)
  then have pid: "allocpid (s\<lparr>held := L_proc p # held s\<rparr>) =
      Ok (nextpid s, s\<lparr>held := L_proc p # held s, nextpid := nextpid s + 1\<rparr>)"
    using assms(2,4) by (simp add: allocpid_def sadd32_def INT_MAX_def)
  have "kmem_ok (s\<lparr>nextpid := nextpid s + 1, held := L_proc p # held (s\<lparr>nextpid := nextpid s + 1\<rparr>)\<rparr>) (tf # q # qs)"
    using k by (simp only: kmem_ok_proc)
  then have k1: "kmem_ok s1 (tf # q # qs)" unfolding s1_def kmem_ok_proc by simp
  let ?s2 = "upd_proc p (\<lambda>q. q\<lparr>p_trapframe := tf\<rparr>) (took tf s1)"
  have k2: "kmem_ok ?s2 (q # qs)" using kalloc_page(2)[OF k1] by simp
  have l2: "p < length (procs (took tf s1))" using pl by (simp add: took_def s1_def)
  then have tf2: "p_trapframe (proc_at ?s2 p) = tf" by simp
  have tr2: "trampoline ?s2 = trampoline s" by (simp add: took_def s1_def upd_proc_def)
  obtain t where t: "proc_pagetable p ?s2 = Ok (q, t)" "mem_only ?s2 t"
    "vm_ok t q ({q} \<union> set (take 2 qs)) (drop 2 qs)"
    "\<forall>va < MAXVA. mapped t q va = high_map (trampoline s) tf va"
    using proc_pagetable_maps[OF k2 n, of p] unfolding tf2 tr2 by blast
  have lt: "p < length (procs t)" using mem_only_procs(1)[OF t(2)] l2 by simp
  have ptf: "p_trapframe (proc_at t p) = tf" using mem_only_procs(1)[OF t(2)] tf2 by (simp add: proc_at_def)
  let ?t1 = "upd_proc p (\<lambda>k. k\<lparr>p_pagetable := q\<rparr>) t"
  let ?t = "upd_proc p (\<lambda>q. q\<lparr>p_context := new_context (forkret_addr ?t1) (p_kstack q),
                      creation_time := ticks ?t1, first_run_time := -1, end_time := 0, cpu_ticks := 0,
                      queue := 0, ticks_used := 0\<rparr>) ?t1"
  have "allocproc s = Ok (Some p, ?t)"
    unfolding allocproc_def find_unused_eq[OF assms(1)] p option.case bnd_simps prod.case pid
    unfolding s1_def[symmetric] kalloc_page(1)[OF k1] bnd_simps prod.case Let_def
    using t(1) nz by simp
  moreover have "p_trapframe (proc_at ?t p) = tf" "p_pagetable (proc_at ?t p) = q"
    using lt ptf by simp_all
  ultimately show ?thesis using t(3,4) by (intro exI[of _ ?t]) simp
qed

lemma allocproc_short:
  fixes s :: "'a proc_st_scheme"
  assumes nl: "no_proc_lock s" and k: "kmem_ok s ps" and n: "length ps < 4"
  shows "post (allocproc s) (\<lambda>(r, t). r = None)"
proof (cases "find (\<lambda>p. p_state (proc_at s p) = UNUSED) [0..<NPROC]")
  case None
  then show ?thesis using find_unused_eq[OF nl, of "[0..<NPROC]"] by (simp add: allocproc_def post_def)
next
  case (Some p)
  have g: "post (give_up p t) (\<lambda>(r, t). r = None)" for t :: "'a proc_st_scheme"
    by (auto simp: give_up_def post_def bnd_eq_Ok)
  define s1 where "s1 = upd_proc p (\<lambda>q. q\<lparr>p_pid := nextpid s, p_state := USED\<rparr>)
    (s\<lparr>held := L_proc p # held s, nextpid := nextpid s + 1\<rparr>)"
  have "kmem_ok (s\<lparr>nextpid := nextpid s + 1, held := L_proc p # held (s\<lparr>nextpid := nextpid s + 1\<rparr>)\<rparr>) ps"
    using k by (simp only: kmem_ok_proc)
  then have k1: "kmem_ok s1 ps" unfolding s1_def kmem_ok_proc by simp
  have run: "allocproc s = bnd (allocpid (s\<lparr>held := L_proc p # held s\<rparr>)) (\<lambda>(pid, s).
           bnd (kalloc (upd_proc p (\<lambda>q. q\<lparr>p_pid := pid, p_state := USED\<rparr>) s)) (\<lambda>(tf, s).
             let s = upd_proc p (\<lambda>q. q\<lparr>p_trapframe := tf\<rparr>) s in
             if tf = 0 then give_up p s
             else bnd (proc_pagetable p s) (\<lambda>(pt, s).
               let s = upd_proc p (\<lambda>q. q\<lparr>p_pagetable := pt\<rparr>) s in
               if pt = 0 then give_up p s
               else Ok (Some p, upd_proc p (\<lambda>q. q\<lparr>p_context := new_context (forkret_addr s) (p_kstack q),
                      creation_time := ticks s, first_run_time := -1, end_time := 0, cpu_ticks := 0,
                      queue := 0, ticks_used := 0\<rparr>) s))))"
    using find_unused_eq[OF nl, of "[0..<NPROC]"] Some by (simp add: allocproc_def)
  show ?thesis
    unfolding run
  proof (rule post_bnd[OF allocpid_post])
    fix x assume x: "x = (nextpid (s\<lparr>held := L_proc p # held s\<rparr>), s\<lparr>held := L_proc p # held s,
        nextpid := nextpid (s\<lparr>held := L_proc p # held s\<rparr>) + 1\<rparr>)"
    show "post (case x of (pid, s) \<Rightarrow> bnd (kalloc (upd_proc p (\<lambda>q. q\<lparr>p_pid := pid, p_state := USED\<rparr>) s))
        (\<lambda>(tf, s).
             let s = upd_proc p (\<lambda>q. q\<lparr>p_trapframe := tf\<rparr>) s in
             if tf = 0 then give_up p s
             else bnd (proc_pagetable p s) (\<lambda>(pt, s).
               let s = upd_proc p (\<lambda>q. q\<lparr>p_pagetable := pt\<rparr>) s in
               if pt = 0 then give_up p s
               else Ok (Some p, upd_proc p (\<lambda>q. q\<lparr>p_context := new_context (forkret_addr s) (p_kstack q),
                      creation_time := ticks s, first_run_time := -1, end_time := 0, cpu_ticks := 0,
                      queue := 0, ticks_used := 0\<rparr>) s)))) (\<lambda>(r, t). r = None)"
    proof (cases ps)
      case Nil
      with k1 have "kalloc s1 = Ok (0, s1)" by (simp add: kalloc_empty)
      then show ?thesis using x g by (simp add: s1_def Let_def)
    next
      case (Cons tf qs)
      note ka = kalloc_page[OF k1[unfolded Cons]]
      let ?s2 = "upd_proc p (\<lambda>q. q\<lparr>p_trapframe := tf\<rparr>) (took tf s1)"
      have "kmem_ok ?s2 qs" using ka(2) by simp
      then have "post (proc_pagetable p ?s2) (\<lambda>(pt, t). pt = 0)"
        by (rule proc_pagetable_short) (use n Cons in simp)
      then show ?thesis using x ka(1) g
        by (auto simp: s1_def Let_def post_def bnd_eq_Ok)
    qed
  qed
qed

text \<open>
  The contract of \<open>allocproc\<close>, \<open>ps\<close> being the free pages: nothing changes where no slot is free; the
  slot is reset and the pid used up where fewer than four pages are free; else the first free slot has
  the next pid, the first free page as its trap frame and the second as its page table, which maps the
  trampoline and the trap frame and nothing else.
\<close>

definition alloc_result :: "addr list \<Rightarrow> 'a proc_st_scheme \<Rightarrow> nat option \<Rightarrow> 'a proc_st_scheme \<Rightarrow> bool" where
  "alloc_result ps s r t \<longleftrightarrow>
     (let slot = find (\<lambda>p. p_state (proc_at s p) = UNUSED) [0..<NPROC] in
      case r of
        None \<Rightarrow> slot = None \<and> t = s \<or>
          (\<exists>p. slot = Some p \<and> length ps < 4 \<and>
             mem_only ((upd_proc p freed s)\<lparr>nextpid := nextpid s + 1\<rparr>) t)
      | Some p \<Rightarrow> slot = Some p \<and> 4 \<le> length ps \<and>
          mem_only ((upd_proc p (given (nextpid s) (ps ! 0) (ps ! 1) (forkret_addr s) (ticks s)) s)
            \<lparr>held := L_proc p # held s, nextpid := nextpid s + 1\<rparr>) t \<and>
          vm_ok t (ps ! 1) {ps ! 1, ps ! 2, ps ! 3} (drop 4 ps) \<and>
          (\<forall>va < MAXVA. mapped t (ps ! 1) va = high_map (trampoline s) (ps ! 0) va))"

lemma allocproc_pid:
  fixes s :: "'a proc_st_scheme"
  assumes "no_proc_lock s" and "find (\<lambda>p. p_state (proc_at s p) = UNUSED) [0..<NPROC] = Some p"
    and "allocproc s = Ok x"
  shows "L_pid \<notin> set (held s)" and "nextpid s < INT_MAX"
proof -
  obtain y where "allocpid (s\<lparr>held := L_proc p # held s\<rparr>) = Ok y"
    using assms(3) unfolding allocproc_def find_unused_eq[OF assms(1)] assms(2) option.case bnd_simps prod.case
    by (auto simp: bnd_eq_Ok)
  then show "L_pid \<notin> set (held s)" "nextpid s < INT_MAX"
    by (auto simp: allocpid_def bnd_eq_Ok acquire_Ok sadd32_def split: if_splits)
qed

lemma allocproc_Some:
  fixes s :: "'a proc_st_scheme"
  assumes "no_proc_lock s" "L_pid \<notin> set (held s)" "table_ok s" "nextpid s < INT_MAX"
    and k: "kmem_ok s ps" and n: "4 \<le> length ps"
    and p: "find (\<lambda>p. p_state (proc_at s p) = UNUSED) [0..<NPROC] = Some p"
  obtains t where "allocproc s = Ok (Some p, t)" and "vm_ok t (ps ! 1) {ps ! 1, ps ! 2, ps ! 3} (drop 4 ps)"
    and "p_trapframe (proc_at t p) = ps ! 0" and "p_pagetable (proc_at t p) = ps ! 1"
    and "\<forall>va < MAXVA. mapped t (ps ! 1) va = high_map (trampoline s) (ps ! 0) va"
proof -
  obtain a b c d qs where ps: "ps = a # b # c # d # qs"
    using n by (cases ps; cases "tl ps"; cases "tl (tl ps)"; cases "tl (tl (tl ps))") auto
  from allocproc_succeeds[OF assms(1-4) k[unfolded ps] _ p]
  show ?thesis using that by (auto simp: ps insert_commute)
qed

lemma allocproc_result:
  fixes s :: "'a proc_st_scheme"
  assumes nl: "no_proc_lock s" and ok: "table_ok s" and k: "kmem_ok s ps" and run: "allocproc s = Ok (r, t)"
  shows "alloc_result ps s r t"
proof -
  have f: "alloc_frame s r t"
    using postD[OF allocproc_post[OF nl table_ok_len[OF ok]] run] by simp
  have some: "\<exists>u. allocproc s = Ok (Some p, u) \<and> vm_ok u (ps ! 1) {ps ! 1, ps ! 2, ps ! 3} (drop 4 ps) \<and>
      p_trapframe (proc_at u p) = ps ! 0 \<and> p_pagetable (proc_at u p) = ps ! 1 \<and>
      (\<forall>va < MAXVA. mapped u (ps ! 1) va = high_map (trampoline s) (ps ! 0) va)"
    if "find (\<lambda>p. p_state (proc_at s p) = UNUSED) [0..<NPROC] = Some p" "4 \<le> length ps" for p
    by (rule allocproc_Some[OF nl allocproc_pid(1)[OF nl that(1) run] ok allocproc_pid(2)[OF nl that(1) run]
        k that(2,1)]) blast
  show ?thesis
  proof (cases r)
    case None
    have "length ps < 4" if "find (\<lambda>p. p_state (proc_at s p) = UNUSED) [0..<NPROC] = Some p" for p
      using some[OF that] run None by (auto simp: not_le[symmetric])
    with f None show ?thesis by (auto simp: alloc_frame_def alloc_result_def)
  next
    case (Some p)
    from f Some obtain tf pt where p: "find (\<lambda>p. p_state (proc_at s p) = UNUSED) [0..<NPROC] = Some p"
      and m: "mem_only ((upd_proc p (given (nextpid s) tf pt (forkret_addr s) (ticks s)) s)
               \<lparr>held := L_proc p # held s, nextpid := nextpid s + 1\<rparr>) t"
      by (auto simp: alloc_frame_def)
    have n: "4 \<le> length ps"
      using postD[OF allocproc_short[OF nl k] run] Some by (auto simp: not_le[symmetric])
    from some[OF p n] run Some have v: "vm_ok t (ps ! 1) {ps ! 1, ps ! 2, ps ! 3} (drop 4 ps)"
      "p_trapframe (proc_at t p) = ps ! 0" "p_pagetable (proc_at t p) = ps ! 1"
      "\<forall>va < MAXVA. mapped t (ps ! 1) va = high_map (trampoline s) (ps ! 0) va" by auto
    have "p < length (procs s)" using find_less[OF p] table_ok_len[OF ok] by simp
    then have "proc_at t p = given (nextpid s) tf pt (forkret_addr s) (ticks s) (proc_at s p)"
      using mem_only_procs(1)[OF m] by (simp add: proc_at_def)
    then have "tf = ps ! 0" "pt = ps ! 1" using v(2,3) by (simp_all add: given_def)
    with m n p v Some show ?thesis by (simp add: alloc_result_def)
  qed
qed

section \<open>Waking and killing\<close>

lemma each_proc:
  assumes "no_proc_lock s" and "n \<le> length (procs s)"
    and "\<And>p t. p < n \<Longrightarrow> no_proc_lock t \<Longrightarrow> f p t = Ok (upd_proc p g t)"
  shows "for_each f [0..<n] s = Ok (s\<lparr>procs := map g (take n (procs s)) @ drop n (procs s)\<rparr>)"
  using assms(2,3)
proof (induction n)
  case (Suc n)
  let ?t = "s\<lparr>procs := map g (take n (procs s)) @ drop n (procs s)\<rparr>"
  have "for_each f [0..<n] s = Ok ?t" by (rule Suc.IH) (use Suc.prems in auto)
  moreover have "f n ?t = Ok (upd_proc n g ?t)"
    by (rule Suc.prems(2)) (use assms(1) in \<open>auto simp: no_proc_lock_def\<close>)
  moreover have "upd_proc n g ?t = s\<lparr>procs := map g (take (Suc n) (procs s)) @ drop (Suc n) (procs s)\<rparr>"
  proof -
    have n: "n < length (procs s)" using Suc.prems by simp
    have "(map g (take n (procs s)) @ drop n (procs s))[n := g ((map g (take n (procs s)) @ drop n (procs s)) ! n)]
      = map g (take (Suc n) (procs s)) @ drop (Suc n) (procs s)"
      using n by (simp add: take_Suc_conv_app_nth list_update_append nth_append flip: Cons_nth_drop_Suc)
    then show ?thesis by (simp add: upd_proc_def)
  qed
  ultimately show ?case by (simp add: for_each_append)
qed simp

lemma wakeup_eq:
  assumes "no_proc_lock s" and "length (procs s) = NPROC"
  shows "wakeup ch s = Ok (s\<lparr>procs := map (wake ch) (procs s)\<rparr>)"
proof -
  have "bnd (acquire (L_proc p) t) (\<lambda>s. release (L_proc p) (upd_proc p (wake ch) s)) = Ok (upd_proc p (wake ch) t)"
    if "no_proc_lock t" for p and t :: "'a proc_st_scheme"
  proof -
    have "t\<lparr>held := held t, procs := ps\<rparr> = t\<lparr>procs := ps\<rparr>" for ps by simp
    then show ?thesis using that by (simp add: no_proc_lock_def upd_proc_def)
  qed
  then show ?thesis unfolding wakeup_def
    by (subst each_proc[OF assms(1), where g = "wake ch"]) (use assms(2) in auto)
qed

lemma kkill_eq:
  assumes "no_proc_lock s"
  shows "kkill pid s = (case find (\<lambda>p. p_pid (proc_at s p) = pid) [0..<NPROC] of
     None \<Rightarrow> Ok (-1, s) | Some p \<Rightarrow> Ok (0, upd_proc p kill1 s))"
proof -
  have "kkill_from pid ps s = (case find (\<lambda>p. p_pid (proc_at s p) = pid) ps of
     None \<Rightarrow> Ok (-1, s) | Some p \<Rightarrow> Ok (0, upd_proc p kill1 s))" for ps
  proof (induction ps)
    case (Cons p ps)
    have "s\<lparr>held := held s\<rparr> = s" by simp
    with Cons assms show ?case by (auto simp: no_proc_lock_def proc_at_def upd_proc_def)
  qed simp
  then show ?thesis by (simp add: kkill_def)
qed

end
