(* ===== verification/K_Sched.thy ===== *)
theory K_Sched
  imports K_Proc
begin

text \<open>
  The three schedulers of \<open>proc.c\<close>: MLFQ, FIFO and round robin.  One turn of each endless loop is a
  function; \<open>run\<close> is what happens between the \<open>swtch\<close> to the chosen process and its \<open>swtch\<close> back.
  The policies are compared through one interface, a choice among the runnable processes.
\<close>

section \<open>The code\<close>

text \<open>\<open>intr_on()\<close>; the hart holds no lock in the scheduler.\<close>

definition intr_on :: "'a kst_scheme \<Rightarrow> 'a kst_scheme" where "intr_on s = s\<lparr>irq := True\<rparr>"

definition intr_off :: "'a kst_scheme \<Rightarrow> 'a kst_scheme" where "intr_off s = s\<lparr>irq := False\<rparr>"

text \<open>The first run is noted, the process made running and the hart's own; \<open>ticks\<close> is read as an \<open>int\<close>.\<close>

definition dispatch :: "nat \<Rightarrow> 'a proc_st_scheme \<Rightarrow> 'a proc_st_scheme" where
  "dispatch p s =
     (upd_proc p (\<lambda>q. q\<lparr>first_run_time := (if first_run_time q = -1 then sint (ticks s) else first_run_time q),
        p_state := RUNNING\<rparr>) s)\<lparr>curproc := Some p\<rparr>"

definition switched_back :: "'a proc_st_scheme \<Rightarrow> 'a proc_st_scheme" where
  "switched_back s = s\<lparr>irq := False, curproc := None\<rparr>"

text \<open>MLFQ: the boost, then the scan of one level from the place after the last process chosen there.\<close>

definition maybe_boost :: "32 word \<Rightarrow> 'a proc_st_scheme \<Rightarrow> (32 word \<times> 'a proc_st_scheme) res" where
  "maybe_boost last_boost s =
     (let cur = ticks s in
      if cur \<noteq> 0 \<and> BOOST_TICKS \<le> cur - last_boost then bnd (mlfq_boost s) (\<lambda>s. Ok (cur, s))
      else Ok (last_boost, s))"

fun scan_level :: "nat \<Rightarrow> nat list \<Rightarrow> 'a proc_st_scheme \<Rightarrow> (nat option \<times> 'a proc_st_scheme) res" where
  "scan_level q [] s = Ok (None, s)"
| "scan_level q (idx # is) s =
     bnd (acquire (L_proc idx) s) (\<lambda>s.
       if p_state (proc_at s idx) = RUNNABLE \<and> queue (proc_at s idx) = q
       then Ok (Some idx, s\<lparr>mlfq_last := (mlfq_last s)[q := idx]\<rparr>)
       else bnd (release (L_proc idx) s) (scan_level q is))"

definition cyc :: "nat \<Rightarrow> nat list" where
  "cyc start = map (\<lambda>i. (start + i) mod NPROC) [1..<Suc NPROC]"

fun scan_levels :: "nat list \<Rightarrow> 'a proc_st_scheme \<Rightarrow> (nat option \<times> 'a proc_st_scheme) res" where
  "scan_levels [] s = Ok (None, s)"
| "scan_levels (q # qs) s =
     bnd (scan_level q (cyc (mlfq_last s ! q)) s) (\<lambda>(r, s).
       case r of None \<Rightarrow> scan_levels qs s | Some p \<Rightarrow> Ok (Some p, s))"

definition mlfq_pick :: "'a proc_st_scheme \<Rightarrow> (nat option \<times> 'a proc_st_scheme) res" where
  "mlfq_pick = scan_levels [0..<NMLFQ]"

definition mlfq_turn :: "('a proc_st_scheme \<Rightarrow> 'a proc_st_scheme res) \<Rightarrow> 32 word \<Rightarrow> 'a proc_st_scheme \<Rightarrow>
    (32 word \<times> 'a proc_st_scheme) res" where
  "mlfq_turn run last_boost s =
     bnd (maybe_boost last_boost (intr_on s)) (\<lambda>(lb, s).
     bnd (mlfq_pick s) (\<lambda>(r, s).
       case r of
         None \<Rightarrow> Ok (lb, s)
       | Some p \<Rightarrow>
           bnd (run (dispatch p s)) (\<lambda>s.
           bnd (release (L_proc p) (switched_back s)) (\<lambda>s. Ok (lb, s)))))"

text \<open>FIFO: the runnable process with the lowest pid, looked at again with its lock held.\<close>

fun fifo_scan :: "nat list \<Rightarrow> nat option \<Rightarrow> 'a proc_st_scheme \<Rightarrow> (nat option \<times> 'a proc_st_scheme) res" where
  "fifo_scan [] chosen s = Ok (chosen, s)"
| "fifo_scan (p # ps) chosen s =
     bnd (acquire (L_proc p) s) (\<lambda>s.
       let better = (case chosen of None \<Rightarrow> True | Some c \<Rightarrow> p_pid (proc_at s p) < p_pid (proc_at s c));
           chosen = (if p_state (proc_at s p) = RUNNABLE \<and> better then Some p else chosen)
       in bnd (release (L_proc p) s) (fifo_scan ps chosen))"

definition fifo_pick :: "'a proc_st_scheme \<Rightarrow> (nat option \<times> 'a proc_st_scheme) res" where
  "fifo_pick s =
     bnd (fifo_scan [0..<NPROC] None s) (\<lambda>(r, s).
       case r of
         None \<Rightarrow> Ok (None, s)
       | Some c \<Rightarrow>
           bnd (acquire (L_proc c) s) (\<lambda>s.
             if p_state (proc_at s c) = RUNNABLE then Ok (Some c, s)
             else bnd (release (L_proc c) s) (\<lambda>s. Ok (None, s))))"

definition fifo_turn :: "('a proc_st_scheme \<Rightarrow> 'a proc_st_scheme res) \<Rightarrow> 'a proc_st_scheme \<Rightarrow> 'a proc_st_scheme res" where
  "fifo_turn run s =
     bnd (fifo_pick (intr_on s)) (\<lambda>(r, s).
       case r of
         None \<Rightarrow> Ok s
       | Some p \<Rightarrow> bnd (run (dispatch p s)) (\<lambda>s. release (L_proc p) (switched_back s)))"

text \<open>Round robin: one pass over the table; every process found runnable is run.\<close>

definition rr_one :: "('a proc_st_scheme \<Rightarrow> 'a proc_st_scheme res) \<Rightarrow> nat \<Rightarrow> bool \<times> 'a proc_st_scheme \<Rightarrow>
    (bool \<times> 'a proc_st_scheme) res" where
  "rr_one run p = (\<lambda>(found, s).
     bnd (acquire (L_proc p) s) (\<lambda>s.
     bnd (if p_state (proc_at s p) = RUNNABLE
          then bnd (run (dispatch p s)) (\<lambda>s. Ok (True, switched_back s))
          else Ok (found, s)) (\<lambda>(found, s).
     bnd (release (L_proc p) s) (\<lambda>s. Ok (found, s)))))"

definition rr_pass :: "('a proc_st_scheme \<Rightarrow> 'a proc_st_scheme res) \<Rightarrow> 'a proc_st_scheme \<Rightarrow>
    (bool \<times> 'a proc_st_scheme) res" where
  "rr_pass run s = for_each (rr_one run) [0..<NPROC] (False, intr_off (intr_on s))"

text \<open>The endless loops, \<open>n\<close> turns of them.\<close>

fun scheduler_mlfq :: "nat \<Rightarrow> ('a proc_st_scheme \<Rightarrow> 'a proc_st_scheme res) \<Rightarrow> 32 word \<Rightarrow> 'a proc_st_scheme \<Rightarrow>
    'a proc_st_scheme res" where
  "scheduler_mlfq 0 run lb s = Ok s"
| "scheduler_mlfq (Suc n) run lb s = bnd (mlfq_turn run lb s) (\<lambda>(lb, s). scheduler_mlfq n run lb s)"

fun scheduler_fifo :: "nat \<Rightarrow> ('a proc_st_scheme \<Rightarrow> 'a proc_st_scheme res) \<Rightarrow> 'a proc_st_scheme \<Rightarrow> 'a proc_st_scheme res" where
  "scheduler_fifo 0 run s = Ok s"
| "scheduler_fifo (Suc n) run s = bnd (fifo_turn run s) (scheduler_fifo n run)"

fun scheduler_rr :: "nat \<Rightarrow> ('a proc_st_scheme \<Rightarrow> 'a proc_st_scheme res) \<Rightarrow> 'a proc_st_scheme \<Rightarrow> 'a proc_st_scheme res" where
  "scheduler_rr 0 run s = Ok s"
| "scheduler_rr (Suc n) run s = bnd (rr_pass run s) (\<lambda>(_, s). scheduler_rr n run s)"

text \<open>\<open>scheduler()\<close>: \<open>c->proc = 0\<close>, then the loop.\<close>

datatype policy = MLFQ | FIFO | RR

definition scheduler :: "policy \<Rightarrow> nat \<Rightarrow> ('a proc_st_scheme \<Rightarrow> 'a proc_st_scheme res) \<Rightarrow> 'a proc_st_scheme \<Rightarrow>
    'a proc_st_scheme res" where
  "scheduler pol n run s =
     (let s = s\<lparr>curproc := None\<rparr> in
      case pol of MLFQ \<Rightarrow> scheduler_mlfq n run 0 s | FIFO \<Rightarrow> scheduler_fifo n run s | RR \<Rightarrow> scheduler_rr n run s)"

section \<open>What is chosen\<close>

definition runnable :: "'a proc_st_scheme \<Rightarrow> nat \<Rightarrow> bool" where
  "runnable s p \<longleftrightarrow> p < NPROC \<and> p_state (proc_at s p) = RUNNABLE"

text \<open>The hart is in the scheduler: it holds no lock.\<close>

definition idle :: "'a proc_st_scheme \<Rightarrow> bool" where
  "idle s \<longleftrightarrow> held s = [] \<and> table_ok s"

lemma idle_no_lock: "idle s \<Longrightarrow> no_proc_lock s"
  by (simp add: idle_def no_proc_lock_def)

lemma scan_level_eq:
  "no_proc_lock s \<Longrightarrow> scan_level q is s =
     (case find (\<lambda>p. p_state (proc_at s p) = RUNNABLE \<and> queue (proc_at s p) = q) is of
        None \<Rightarrow> Ok (None, s)
      | Some p \<Rightarrow> Ok (Some p, s\<lparr>held := L_proc p # held s, mlfq_last := (mlfq_last s)[q := p]\<rparr>))"
proof (induction "is")
  case (Cons p ps)
  have "s\<lparr>held := held s\<rparr> = s" by simp
  with Cons show ?case by (auto simp: no_proc_lock_def)
qed simp

definition level_choice :: "'a proc_st_scheme \<Rightarrow> nat \<Rightarrow> nat option" where
  "level_choice s q =
     find (\<lambda>p. p_state (proc_at s p) = RUNNABLE \<and> queue (proc_at s p) = q) (cyc (mlfq_last s ! q))"

lemma scan_levels_eq:
  "no_proc_lock s \<Longrightarrow> scan_levels qs s =
     (case find (\<lambda>q. level_choice s q \<noteq> None) qs of
        None \<Rightarrow> Ok (None, s)
      | Some q \<Rightarrow> (case level_choice s q of None \<Rightarrow> Ok (None, s) | Some p \<Rightarrow>
          Ok (Some p, s\<lparr>held := L_proc p # held s, mlfq_last := (mlfq_last s)[q := p]\<rparr>)))"
proof (induction qs)
  case (Cons q qs)
  then show ?case
    using scan_level_eq[OF Cons.prems, of q "cyc (mlfq_last s ! q)"]
    by (cases "level_choice s q") (simp_all add: level_choice_def)
qed simp

lemma mem_cyc: "p \<in> set (cyc start) \<longleftrightarrow> p < NPROC"
proof
  show "p \<in> set (cyc start) \<Longrightarrow> p < NPROC" by (auto simp: cyc_def NPROC_def)
  assume p: "p < NPROC"
  define r where "r = start mod NPROC"
  have m: "r < NPROC" by (simp add: r_def NPROC_def)
  define i where "i = (if r < p then p - r else p + NPROC - r)"
  have i: "1 \<le> i" "i \<le> NPROC" using p m by (auto simp: i_def)
  have "(start + i) mod NPROC = (r + i) mod NPROC" by (simp add: mod_simps r_def)
  also have "\<dots> = p" using p m by (auto simp: i_def)
  finally have "p = (start + i) mod NPROC" ..
  moreover have "i \<in> set [1..<Suc NPROC]" using i by auto
  ultimately show "p \<in> set (cyc start)" unfolding cyc_def by (simp only: set_map) blast
qed

lemma level_choice_None: "level_choice s q = None \<longleftrightarrow> (\<forall>p. runnable s p \<longrightarrow> queue (proc_at s p) \<noteq> q)"
  by (auto simp: level_choice_def find_None_iff mem_cyc runnable_def)

lemma level_choice_Some: "level_choice s q = Some p \<Longrightarrow> runnable s p \<and> queue (proc_at s p) = q"
  using mem_cyc[of p "mlfq_last s ! q"]
  by (auto simp: level_choice_def find_Some_iff runnable_def)

text \<open>The MLFQ choice: the lowest level with a runnable process, the cursor of that level moved on.\<close>

lemma mlfq_pick_eq:
  "no_proc_lock s \<Longrightarrow> mlfq_pick s =
     (case find (\<lambda>q. level_choice s q \<noteq> None) [0..<NMLFQ] of
        None \<Rightarrow> Ok (None, s)
      | Some q \<Rightarrow> (case level_choice s q of None \<Rightarrow> Ok (None, s) | Some p \<Rightarrow>
          Ok (Some p, s\<lparr>held := L_proc p # held s, mlfq_last := (mlfq_last s)[q := p]\<rparr>)))"
  by (simp add: mlfq_pick_def scan_levels_eq)

lemma mlfq_pick_cases:
  assumes "idle s"
  obtains (none) "mlfq_pick s = Ok (None, s)" "\<And>p. \<not> runnable s p"
  | (some) q p where "mlfq_pick s = Ok (Some p, s\<lparr>held := [L_proc p], mlfq_last := (mlfq_last s)[q := p]\<rparr>)"
      "q < NMLFQ" "level_choice s q = Some p" "\<And>k. runnable s k \<Longrightarrow> q \<le> queue (proc_at s k)"
proof (cases "find (\<lambda>q. level_choice s q \<noteq> None) [0..<NMLFQ]")
  case None
  have "queue (proc_at s p) < NMLFQ" if "runnable s p" for p
    using table_ok_at[of s p] assms that by (auto simp: idle_def runnable_def proc_ok_def)
  with None have "\<not> runnable s p" for p by (auto simp: find_None_iff level_choice_None)
  then show ?thesis using none None mlfq_pick_eq[OF idle_no_lock[OF assms]] by simp
next
  case (Some q)
  then have q: "q < NMLFQ" "level_choice s q \<noteq> None" "\<And>r. r < q \<Longrightarrow> level_choice s r = None"
    by (auto simp: find_Some_iff)
  then obtain p where p: "level_choice s q = Some p" by auto
  have "q \<le> queue (proc_at s k)" if "runnable s k" for k
    using q(3)[of "queue (proc_at s k)"] that by (force simp: level_choice_None not_le[symmetric])
  with some[of p q] q(1) p Some mlfq_pick_eq[OF idle_no_lock[OF assms]] assms show ?thesis
    by (simp add: idle_def)
qed

text \<open>The FIFO choice.\<close>

lemma fifo_scan_eq:
  "no_proc_lock s \<Longrightarrow> fifo_scan ps c s =
     Ok (foldl (\<lambda>c p. if p_state (proc_at s p) = RUNNABLE \<and>
           (case c of None \<Rightarrow> True | Some d \<Rightarrow> p_pid (proc_at s p) < p_pid (proc_at s d)) then Some p else c) c ps, s)"
proof (induction ps arbitrary: c)
  case (Cons p ps)
  have "s\<lparr>held := held s\<rparr> = s" by simp
  with Cons show ?case by (cases c) (simp_all add: no_proc_lock_def Let_def)
qed simp

lemma fold_least:
  fixes f :: "nat \<Rightarrow> int" and R :: "nat \<Rightarrow> bool"
  defines "g \<equiv> \<lambda>c p. if R p \<and> (case c of None \<Rightarrow> True | Some d \<Rightarrow> f p < f d) then Some p else c"
  shows "(case foldl g None ps of
      None \<Rightarrow> \<forall>p \<in> set ps. \<not> R p
    | Some c \<Rightarrow> c \<in> set ps \<and> R c \<and> (\<forall>p \<in> set ps. R p \<longrightarrow> f c \<le> f p))"
proof (induction ps rule: rev_induct)
  case (snoc p ps)
  then show ?case by (cases "foldl g None ps") (auto simp: g_def)
qed simp

lemma fifo_pick_cases:
  assumes "idle s"
  obtains (none) "fifo_pick s = Ok (None, s)" "\<And>p. \<not> runnable s p"
  | (some) p where "fifo_pick s = Ok (Some p, s\<lparr>held := [L_proc p]\<rparr>)" "runnable s p"
      "\<And>k. runnable s k \<Longrightarrow> p_pid (proc_at s p) \<le> p_pid (proc_at s k)"
proof -
  define r where "r = foldl (\<lambda>c p. if p_state (proc_at s p) = RUNNABLE \<and>
           (case c of None \<Rightarrow> True | Some d \<Rightarrow> p_pid (proc_at s p) < p_pid (proc_at s d)) then Some p else c)
      None [0..<NPROC]"
  have l: "case r of None \<Rightarrow> \<forall>p \<in> set [0..<NPROC]. p_state (proc_at s p) \<noteq> RUNNABLE
    | Some c \<Rightarrow> c \<in> set [0..<NPROC] \<and> p_state (proc_at s c) = RUNNABLE \<and>
        (\<forall>p \<in> set [0..<NPROC]. p_state (proc_at s p) = RUNNABLE \<longrightarrow> p_pid (proc_at s c) \<le> p_pid (proc_at s p))"
    unfolding r_def by (rule fold_least)
  have run: "fifo_scan [0..<NPROC] None s = Ok (r, s)"
    using fifo_scan_eq[OF idle_no_lock[OF assms]] by (simp add: r_def)
  show ?thesis
  proof (cases r)
    case None
    with run l none show ?thesis by (simp add: fifo_pick_def runnable_def)
  next
    case (Some c)
    with run l some[of c] assms show ?thesis by (simp add: fifo_pick_def runnable_def idle_def proc_at_def)
  qed
qed

section \<open>A scheduling policy\<close>

text \<open>
  \<open>pick\<close> chooses among the processes \<open>able\<close> to run; \<open>rank\<close> is the order it promises to respect and
  \<open>wait\<close> how many choices within a rank may come before a process.
\<close>

locale sched_policy =
  fixes ready :: "'s \<Rightarrow> bool" and able :: "'s \<Rightarrow> nat \<Rightarrow> bool"
    and pick :: "'s \<Rightarrow> (nat option \<times> 's) res" and rank :: "'s \<Rightarrow> nat \<Rightarrow> int"
  assumes pick_returns: "ready s \<Longrightarrow> \<exists>r t. pick s = Ok (r, t)"
    and pick_some: "ready s \<Longrightarrow> pick s = Ok (Some p, t) \<Longrightarrow> able s p \<and> (\<forall>k. able s k \<longrightarrow> rank s p \<le> rank s k)"
    and pick_none: "ready s \<Longrightarrow> pick s = Ok (None, t) \<Longrightarrow> \<not> able s k"
begin

text \<open>No process that could run is left waiting while the hart idles.\<close>

lemma work_conserving: "ready s \<Longrightarrow> able s k \<Longrightarrow> \<exists>p t. pick s = Ok (Some p, t) \<and> able s p \<and> rank s p \<le> rank s k"
  using pick_returns pick_none pick_some by (metis option.exhaust)

lemma picks_best: "ready s \<Longrightarrow> pick s = Ok (Some p, t) \<Longrightarrow> able s k \<Longrightarrow> rank s p \<le> rank s k"
  using pick_some by blast

end

locale fair_policy = sched_policy +
  fixes wait :: "'s \<Rightarrow> nat \<Rightarrow> nat"
  assumes wait_less: "ready s \<Longrightarrow> pick s = Ok (Some p, t) \<Longrightarrow> able s k \<Longrightarrow> rank s k = rank s p \<Longrightarrow> k \<noteq> p \<Longrightarrow>
    wait t k < wait s k"
begin

text \<open>
  A run of choices: from each state the choice, then anything that does not move the cursor of the
  rank before the next.
\<close>

inductive run_of :: "nat \<Rightarrow> 's \<Rightarrow> nat list \<Rightarrow> bool" for k where
  run_nil: "run_of k s []"
| run_cons: "ready s \<Longrightarrow> able s k \<Longrightarrow> pick s = Ok (Some p, t) \<Longrightarrow> rank s k = rank s p \<Longrightarrow> wait u k \<le> wait t k \<Longrightarrow>
    run_of k u ps \<Longrightarrow> run_of k s (p # ps)"

lemma bounded_wait: "run_of k s ps \<Longrightarrow> wait s k < length ps \<Longrightarrow> k \<in> set ps"
proof (induction rule: run_of.induct)
  case (run_cons s p t u ps)
  show ?case
  proof (cases "k = p")
    case False
    then have "wait t k < wait s k" using wait_less run_cons.hyps by blast
    then have "wait u k < length ps" using run_cons.hyps(5) run_cons.prems by simp
    then show ?thesis using run_cons.IH by simp
  qed simp
qed simp

end

text \<open>How many places after the cursor \<open>p\<close> comes.\<close>

definition gap :: "nat \<Rightarrow> nat \<Rightarrow> nat" where
  "gap cursor p = (if cursor < p then p - cursor - 1 else p + NPROC - cursor - 1)"

definition cursors_ok :: "'a proc_st_scheme \<Rightarrow> bool" where
  "cursors_ok s \<longleftrightarrow> length (mlfq_last s) = NMLFQ \<and> (\<forall>q < NMLFQ. mlfq_last s ! q < NPROC)"

lemma cyc_nth: "i < NPROC \<Longrightarrow> cyc c ! i = (c + i + 1) mod NPROC"
  by (simp add: cyc_def nth_append del: upt_Suc)

lemma cyc_gap: "c < NPROC \<Longrightarrow> p < NPROC \<Longrightarrow> cyc c ! gap c p = p \<and> gap c p < NPROC"
  by (auto simp: gap_def cyc_nth mod_if)

lemma level_choice_first:
  assumes "level_choice s q = Some p" and c: "mlfq_last s ! q < NPROC"
    and k: "runnable s k" "queue (proc_at s k) = q"
  shows "gap (mlfq_last s ! q) p \<le> gap (mlfq_last s ! q) k"
proof -
  let ?c = "mlfq_last s ! q"
  from assms(1) obtain i where i: "i < length (cyc ?c)" "cyc ?c ! i = p"
    "\<And>j. j < i \<Longrightarrow> \<not> (p_state (proc_at s (cyc ?c ! j)) = RUNNABLE \<and> queue (proc_at s (cyc ?c ! j)) = q)"
    by (auto simp: level_choice_def find_Some_iff)
  have ilt: "i < NPROC" using i(1) by (simp add: cyc_def del: upt_Suc)
  have kk: "cyc ?c ! gap ?c k = k" using cyc_gap[OF c] k(1) by (simp add: runnable_def)
  have le: "i \<le> gap ?c k" using i(3)[of "gap ?c k"] kk k by (auto simp: runnable_def not_less[symmetric])
  have "gap ?c p = i"
    using i(2) ilt c by (auto simp: cyc_nth gap_def mod_if split: if_splits)
  with le show ?thesis by simp
qed

lemma gap_next: "c < NPROC \<Longrightarrow> p < NPROC \<Longrightarrow> k < NPROC \<Longrightarrow> k \<noteq> p \<Longrightarrow> gap c p \<le> gap c k \<Longrightarrow> gap p k < gap c k"
  by (auto simp: gap_def split: if_splits)

definition mlfq_ready :: "'a proc_st_scheme \<Rightarrow> bool" where
  "mlfq_ready s \<longleftrightarrow> idle s \<and> cursors_ok s"

definition mlfq_rank :: "'a proc_st_scheme \<Rightarrow> nat \<Rightarrow> int" where
  "mlfq_rank s p = int (queue (proc_at s p))"

definition mlfq_wait :: "'a proc_st_scheme \<Rightarrow> nat \<Rightarrow> nat" where
  "mlfq_wait s p = gap (mlfq_last s ! queue (proc_at s p)) p"

interpretation mlfq: fair_policy mlfq_ready runnable mlfq_pick mlfq_rank mlfq_wait
proof
  fix s t :: "'a proc_st_scheme" and p k
  show "mlfq_ready s \<Longrightarrow> \<exists>r t. mlfq_pick s = Ok (r, t)"
    by (auto simp: mlfq_ready_def elim: mlfq_pick_cases)
  show "mlfq_ready s \<Longrightarrow> mlfq_pick s = Ok (Some p, t) \<Longrightarrow>
      runnable s p \<and> (\<forall>k. runnable s k \<longrightarrow> mlfq_rank s p \<le> mlfq_rank s k)"
    using level_choice_Some by (auto simp: mlfq_ready_def mlfq_rank_def elim!: mlfq_pick_cases)
  show "mlfq_ready s \<Longrightarrow> mlfq_pick s = Ok (None, t) \<Longrightarrow> \<not> runnable s k"
    by (auto simp: mlfq_ready_def elim: mlfq_pick_cases)
  assume r: "mlfq_ready s" and pk: "mlfq_pick s = Ok (Some p, t)" and k: "runnable s k"
    "mlfq_rank s k = mlfq_rank s p" "k \<noteq> p"
  from r have id: "idle s" and cu: "cursors_ok s" by (auto simp: mlfq_ready_def)
  show "mlfq_wait t k < mlfq_wait s k"
  proof (cases rule: mlfq_pick_cases[OF id])
    case 1
    with pk show ?thesis by simp
  next
    case (2 q p')
    with pk have p: "p' = p" and t: "t = s\<lparr>held := [L_proc p], mlfq_last := (mlfq_last s)[q := p]\<rparr>" by auto
    have l: "runnable s p" "queue (proc_at s p) = q" using level_choice_Some 2(3) p by auto
    have kq: "queue (proc_at s k) = q" using k(2) l(2) by (simp add: mlfq_rank_def)
    have c: "mlfq_last s ! q < NPROC" "q < length (mlfq_last s)" using cu 2(2) by (auto simp: cursors_ok_def)
    have "gap (mlfq_last s ! q) p \<le> gap (mlfq_last s ! q) k"
      using level_choice_first[OF 2(3) c(1) k(1) kq] p by simp
    then have "gap p k < gap (mlfq_last s ! q) k"
      using gap_next c(1) l(1) k(1,3) by (simp add: runnable_def)
    then show ?thesis using kq c(2) by (simp add: mlfq_wait_def t)
  qed
qed

definition fifo_rank :: "'a proc_st_scheme \<Rightarrow> nat \<Rightarrow> int" where
  "fifo_rank s p = p_pid (proc_at s p)"

interpretation fifo: sched_policy idle runnable fifo_pick fifo_rank
proof
  fix s t :: "'a proc_st_scheme" and p k
  show "idle s \<Longrightarrow> \<exists>r t. fifo_pick s = Ok (r, t)"
    by (auto elim: fifo_pick_cases)
  show "idle s \<Longrightarrow> fifo_pick s = Ok (Some p, t) \<Longrightarrow>
      runnable s p \<and> (\<forall>k. runnable s k \<longrightarrow> fifo_rank s p \<le> fifo_rank s k)"
    by (auto simp: fifo_rank_def elim!: fifo_pick_cases)
  show "idle s \<Longrightarrow> fifo_pick s = Ok (None, t) \<Longrightarrow> \<not> runnable s k"
    by (auto elim: fifo_pick_cases)
qed

text \<open>Two pids are never equal, so the FIFO choice is the one runnable process with the lowest.\<close>

lemma fifo_unique:
  assumes "idle s" "fifo_pick s = Ok (Some p, t)" "runnable s k" "k \<noteq> p"
  shows "p_pid (proc_at s p) < p_pid (proc_at s k)"
proof -
  have p: "runnable s p" using fifo.pick_some[OF assms(1,2)] by simp
  have "p_pid (proc_at s p) \<noteq> p_pid (proc_at s k)"
    using assms(1,3,4) p by (auto simp: idle_def table_ok_def pids_distinct_def runnable_def proc_at_def)
  moreover have "fifo_rank s p \<le> fifo_rank s k" by (rule fifo.picks_best[OF assms(1-3)])
  ultimately show ?thesis by (simp add: fifo_rank_def)
qed

section \<open>The boost\<close>

definition boosted :: "kproc \<Rightarrow> kproc" where
  "boosted q = (if p_state q \<noteq> UNUSED \<and> p_state q \<noteq> ZOMBIE then q\<lparr>queue := 0, ticks_used := 0\<rparr> else q)"

lemma mlfq_boost_procs:
  assumes "no_proc_lock s" "n \<le> length (procs s)"
    and "for_each (\<lambda>p s.
       bnd (acquire (L_proc p) s) (\<lambda>s.
       bnd (if p_state (proc_at s p) \<noteq> UNUSED \<and> p_state (proc_at s p) \<noteq> ZOMBIE
            then let s = upd_proc p (\<lambda>q. q\<lparr>queue := 0, ticks_used := 0\<rparr>) s in
              printk (''MLFQLOG,%d,%d,0'' @ nl) [A32 (ticks s), A32 (word_of_int (p_pid (proc_at s p)))] s
            else Ok s)
         (release (L_proc p)))) [0..<n] s = Ok t"
  shows "procs t = map boosted (take n (procs s)) @ drop n (procs s) \<and> held t = held s \<and>
    (\<exists>u. kout t = kout s @ u) \<and> ticks t = ticks s \<and> nextpid t = nextpid s \<and> mlfq_last t = mlfq_last s"
  using assms(2,3)
proof (induction n arbitrary: t)
  case (Suc n)
  let ?f = "\<lambda>p s. bnd (acquire (L_proc p) s) (\<lambda>s.
       bnd (if p_state (proc_at s p) \<noteq> UNUSED \<and> p_state (proc_at s p) \<noteq> ZOMBIE
            then let s = upd_proc p (\<lambda>q. q\<lparr>queue := 0, ticks_used := 0\<rparr>) s in
              printk (''MLFQLOG,%d,%d,0'' @ nl) [A32 (ticks s), A32 (word_of_int (p_pid (proc_at s p)))] s
            else Ok s)
         (release (L_proc p)))"
  from Suc.prems(2) obtain u where u: "for_each ?f [0..<n] s = Ok u" and f: "?f n u = Ok t"
    by (auto simp: for_each_append bnd_eq_Ok)
  note ih = Suc.IH[OF _ u]
  have n: "n < length (procs s)" using Suc.prems by simp
  then have ih': "procs u = map boosted (take n (procs s)) @ drop n (procs s)" "held u = held s"
    "\<exists>v. kout u = kout s @ v" "ticks u = ticks s" "nextpid u = nextpid s" "mlfq_last u = mlfq_last s" using ih by auto
  have at: "procs u ! n = procs s ! n" using n by (simp add: ih'(1) nth_append)
  from f have t: "procs t = (procs u)[n := boosted (procs u ! n)] \<and> held t = held u \<and> (\<exists>v. kout t = kout u @ v) \<and>
      ticks t = ticks u \<and> nextpid t = nextpid u \<and> mlfq_last t = mlfq_last u"
    by (auto simp: bnd_eq_Ok acquire_Ok release_Ok Let_def boosted_def proc_at_def split: if_splits
        dest!: postD[OF printk_frame])
  have "(map boosted (take n (procs s)) @ drop n (procs s))[n := boosted (procs s ! n)]
      = map boosted (take (Suc n) (procs s)) @ drop (Suc n) (procs s)"
    using n by (simp add: take_Suc_conv_app_nth list_update_append flip: Cons_nth_drop_Suc)
  with t ih' at show ?case by auto
qed simp

text \<open>After a boost every live process is at the top level with its slice unused.\<close>

lemma mlfq_boost_result:
  assumes "idle s" "mlfq_boost s = Ok t"
  shows "procs t = map boosted (procs s)" "held t = held s" "mlfq_last t = mlfq_last s" "ticks t = ticks s"
proof -
  have len: "length (procs s) = NPROC" using assms(1) by (simp add: idle_def table_ok_def)
  note r = mlfq_boost_procs[OF idle_no_lock[OF assms(1)], of NPROC, OF _ assms(2)[unfolded mlfq_boost_def]]
  show "procs t = map boosted (procs s)" "held t = held s" "mlfq_last t = mlfq_last s" "ticks t = ticks s"
    using r len by auto
qed

end
