(* ===== verification/K_Sleeplock.thy ===== *)
theory K_Sleeplock
  imports K_Sched
begin

text \<open>
  \<open>xv6/kernel/sleeplock.c\<close>: locks a process may sleep for.  Such a lock is a flag and the pid of its owner,
  under a spin lock of its own.
\<close>

section \<open>The code\<close>

record sleeplock =
  sl_locked :: bool
  sl_pid :: int

record sl_st = proc_st +
  sleeplocks :: "slockid \<Rightarrow> sleeplock"

definition upd_sleeplock :: "slockid \<Rightarrow> (sleeplock \<Rightarrow> sleeplock) \<Rightarrow> 'a sl_st_scheme \<Rightarrow> 'a sl_st_scheme" where
  "upd_sleeplock l f s = s\<lparr>sleeplocks := (sleeplocks s)(l := f (sleeplocks s l))\<rparr>"

definition initsleeplock :: "slockid \<Rightarrow> 'a sl_st_scheme \<Rightarrow> 'a sl_st_scheme" where
  "initsleeplock l = upd_sleeplock l (\<lambda>k. k\<lparr>sl_locked := False, sl_pid := 0\<rparr>)"

text \<open>The body of every loop that waits for a condition under the spin lock \<open>lk\<close>:
  \<open>sleep_prepare(ch); release(lk); sleep(); acquire(lk);\<close>\<close>

definition sleep_on :: "'a proc_st_scheme kenv \<Rightarrow> chan \<Rightarrow> lockid \<Rightarrow> 'a proc_st_scheme \<Rightarrow> 'a proc_st_scheme res" where
  "sleep_on e ch lk s =
     bnd (sleep_prepare (Some ch) s) (\<lambda>s.
     bnd (release lk s) (\<lambda>s.
     bnd (sleep e s) (acquire lk)))"

text \<open>\<open>while (cond) body\<close> for a loop that waits, at most \<open>n\<close> turns.\<close>

fun wait_while :: "nat \<Rightarrow> ('s \<Rightarrow> bool) \<Rightarrow> ('s \<Rightarrow> 's res) \<Rightarrow> 's \<Rightarrow> 's res" where
  "wait_while 0 c body s = (if c s then Spin else Ok s)"
| "wait_while (Suc n) c body s = (if c s then bnd (body s) (wait_while n c body) else Ok s)"

definition acquiresleep :: "'a sl_st_scheme kenv \<Rightarrow> slockid \<Rightarrow> 'a sl_st_scheme \<Rightarrow> 'a sl_st_scheme res" where
  "acquiresleep e l s =
     bnd (acquire (L_sleep l) s) (\<lambda>s.
     bnd (wait_while (patience e) (\<lambda>s. sl_locked (sleeplocks s l)) (sleep_on e (Ch_sleeplock l) (L_sleep l)) s) (\<lambda>s.
     bnd (myproc s) (\<lambda>p.
       release (L_sleep l)
         (upd_sleeplock l (\<lambda>k. k\<lparr>sl_locked := True, sl_pid := p_pid (proc_at s p)\<rparr>) s))))"

definition releasesleep :: "slockid \<Rightarrow> 'a sl_st_scheme \<Rightarrow> 'a sl_st_scheme res" where
  "releasesleep l s =
     bnd (acquire (L_sleep l) s) (\<lambda>s.
     bnd (wakeup (Some (Ch_sleeplock l)) (upd_sleeplock l (\<lambda>k. k\<lparr>sl_locked := False, sl_pid := 0\<rparr>) s))
       (release (L_sleep l)))"

definition holdingsleep :: "slockid \<Rightarrow> 'a sl_st_scheme \<Rightarrow> (bool \<times> 'a sl_st_scheme) res" where
  "holdingsleep l s =
     bnd (acquire (L_sleep l) s) (\<lambda>s.
     bnd (if sl_locked (sleeplocks s l)
          then bnd (myproc s) (\<lambda>p. Ok (sl_pid (sleeplocks s l) = p_pid (proc_at s p))) else Ok False) (\<lambda>r.
     bnd (release (L_sleep l) s) (\<lambda>s. Ok (r, s))))"

section \<open>Between system calls\<close>

text \<open>Process \<open>p\<close> runs on the hart and holds no spin lock.\<close>

definition runs :: "nat \<Rightarrow> 'a proc_st_scheme \<Rightarrow> bool" where
  "runs p s \<longleftrightarrow> curproc s = Some p \<and> p < NPROC \<and> length (procs s) = NPROC \<and> held s = [] \<and>
     p_state (proc_at s p) = RUNNING"

lemma runsD:
  assumes "runs p s"
  shows "curproc s = Some p" "p < NPROC" "length (procs s) = NPROC" "held s = []" "p_state (proc_at s p) = RUNNING"
    "myproc s = Ok p" "no_proc_lock s"
  using assms by (simp_all add: runs_def myproc_def no_proc_lock_def)

text \<open>What a wakeup does to the table.\<close>

definition woke :: "chan \<Rightarrow> 'a proc_st_scheme \<Rightarrow> 'a proc_st_scheme" where
  "woke c s = s\<lparr>procs := map (wake (Some c)) (procs s)\<rparr>"

lemma woke_simps [simp]:
  "held (woke c s) = held s" "curproc (woke c s) = curproc s" "length (procs (woke c s)) = length (procs s)"
  by (simp_all add: woke_def)

lemma woke_at: "p < length (procs s) \<Longrightarrow> proc_at (woke c s) p = wake (Some c) (proc_at s p)"
  by (simp add: woke_def proc_at_def)

lemma wake_simps [simp]: "p_pid (wake c q) = p_pid q" "p_state q \<noteq> SLEEPING \<Longrightarrow> p_state (wake c q) = p_state q"
  by (simp_all add: wake_def)

lemma wakeup_woke: "no_proc_lock s \<Longrightarrow> length (procs s) = NPROC \<Longrightarrow> wakeup (Some c) s = Ok (woke c s)"
  by (simp add: wakeup_eq woke_def)

lemma runs_woke [simp]: "runs p s \<Longrightarrow> runs p (woke c s)"
  by (simp add: runs_def woke_at)

text \<open>What only the process itself changes of its slot while it waits.\<close>

definition pinfo :: "kproc \<Rightarrow> int \<times> addr \<times> 64 word \<times> bool \<times> nat option list \<times> nat option \<times> addr" where
  "pinfo q = (p_pid q, p_pagetable q, p_sz q, p_killed q, p_ofile q, p_cwd q, p_trapframe q)"

lemma pinfo_wake [simp]: "pinfo (wake c q) = pinfo q"
  by (simp add: pinfo_def wake_def)

lemma pinfo_pids: "map pinfo qs = map pinfo ps \<Longrightarrow> map p_pid qs = map p_pid ps"
  by (drule arg_cong[of _ _ "map fst"]) (simp add: comp_def pinfo_def)

lemma upd_sleeplock_simps [simp]:
  "sleeplocks (upd_sleeplock l f s) = (sleeplocks s)(l := f (sleeplocks s l))" "held (upd_sleeplock l f s) = held s"
  "procs (upd_sleeplock l f s) = procs s" "curproc (upd_sleeplock l f s) = curproc s"
  "proc_at (upd_sleeplock l f s) p = proc_at s p"
  by (simp_all add: upd_sleeplock_def proc_at_def)

lemma sl_both [simp]: "(k :: sleeplock)\<lparr>sl_locked := a, sl_pid := b\<rparr> = \<lparr>sl_locked = a, sl_pid = b\<rparr>"
  by (cases k) simp

section \<open>Taking and dropping a lock\<close>

definition free_lock :: sleeplock where "free_lock = \<lparr>sl_locked = False, sl_pid = 0\<rparr>"

text \<open>A free lock is taken at once.\<close>

lemma acquiresleep_free:
  assumes "runs p s" and "\<not> sl_locked (sleeplocks s l)"
  shows "acquiresleep e l s = Ok (upd_sleeplock l (\<lambda>_. \<lparr>sl_locked = True, sl_pid = p_pid (proc_at s p)\<rparr>) s)"
proof -
  note r = runsD[OF assms(1)]
  have "wait_while (patience e) (\<lambda>s. sl_locked (sleeplocks s l)) (sleep_on e (Ch_sleeplock l) (L_sleep l)) (s\<lparr>held := [L_sleep l]\<rparr>)
      = Ok (s\<lparr>held := [L_sleep l]\<rparr>)"
    using assms(2) by (cases "patience e") simp_all
  moreover have "s\<lparr>held := [], sleeplocks := k\<rparr> = s\<lparr>sleeplocks := k\<rparr>" for k using r(4) by simp
  ultimately show ?thesis using r by (simp add: acquiresleep_def myproc_def upd_sleeplock_def proc_at_def)
qed

lemma releasesleep_eq:
  assumes "runs p s"
  shows "releasesleep l s = Ok (woke (Ch_sleeplock l) (upd_sleeplock l (\<lambda>_. free_lock) s))"
proof -
  note r = runsD[OF assms]
  have "wakeup (Some c) (upd_sleeplock l (\<lambda>_. free_lock) (s\<lparr>held := [L_sleep l]\<rparr>)) =
      Ok (woke c (upd_sleeplock l (\<lambda>_. free_lock) (s\<lparr>held := [L_sleep l]\<rparr>)))"
    for c by (rule wakeup_woke) (use r in \<open>simp_all add: no_proc_lock_def\<close>)
  moreover have "s\<lparr>held := [], sleeplocks := k, procs := ps\<rparr> = s\<lparr>sleeplocks := k, procs := ps\<rparr>" for k ps using r(4) by simp
  ultimately show ?thesis using r by (simp add: releasesleep_def release_Ok woke_def upd_sleeplock_def free_lock_def)
qed

lemma holdingsleep_eq:
  assumes "runs p s"
  shows "holdingsleep l s = Ok (sl_locked (sleeplocks s l) \<and> sl_pid (sleeplocks s l) = p_pid (proc_at s p), s)"
proof -
  note r = runsD[OF assms]
  have "s\<lparr>held := []\<rparr> = s" using r(4) by simp
  then show ?thesis using r by (simp add: holdingsleep_def myproc_def proc_at_def)
qed

end
