(* ===== verification/K_Disk.thy ===== *)
theory K_Disk
  imports K_Sleeplock
begin

text \<open>
  \<open>xv6/kernel/virtio_disk.c\<close>, the driver of the disk, with the buffers of \<open>buf.h\<close> it moves blocks to and
  from.  What the driver shares with the device - descriptors, the two rings, requests and status
  bytes - is state; the device is not code of the kernel and comes in through the environment, as what
  happens while the requesting process sleeps.
\<close>

section \<open>The state\<close>

definition NBUF :: nat where "NBUF = 30"

definition NDESC :: nat where "NDESC = 8"

text \<open>\<open>struct buf\<close>; \<open>prev\<close> and \<open>next\<close> are indices, \<open>NBUF\<close> the head of the list.\<close>

record buf =
  b_valid :: bool
  b_disk :: bool
  b_dev :: "32 word"
  b_blockno :: "32 word"
  b_refcnt :: "32 word"
  b_prev :: nat
  b_next :: nat
  b_data :: "byte list"

text \<open>The address in a descriptor: a request, the data of a buffer, a status byte.\<close>

datatype dref = D_null | D_req nat | D_data nat | D_status nat

record vdesc =
  d_addr :: dref
  d_len :: "32 word"
  d_flags :: "16 word"
  d_nxt :: "16 word"

record vreq =
  q_type :: "32 word"
  q_reserved :: "32 word"
  q_sector :: "64 word"

record vinfo =
  i_buf :: "nat option"
  i_status :: byte

record virtq =
  v_desc :: "vdesc list"
  v_ring :: "nat list"
  v_aidx :: "16 word"
  v_used :: "nat list"
  v_uidx :: "16 word"
  v_free :: "bool list"
  v_seen :: "16 word"
  v_info :: "vinfo list"
  v_ops :: "vreq list"

text \<open>
  \<open>media\<close> is the disk, the bytes of a block by its first sector; \<open>writes\<close> are the writes that reached it,
  the oldest first.
\<close>

record disk_st = sl_st +
  bufs :: "buf list"
  vq :: virtq
  media :: "64 word \<Rightarrow> byte list"
  writes :: "(64 word \<times> byte list) list"

definition upd_buf :: "nat \<Rightarrow> (buf \<Rightarrow> buf) \<Rightarrow> 'a disk_st_scheme \<Rightarrow> 'a disk_st_scheme" where
  "upd_buf b f s = s\<lparr>bufs := (bufs s)[b := f (bufs s ! b)]\<rparr>"

abbreviation F_NEXT :: "16 word" where "F_NEXT \<equiv> 1"
abbreviation F_WRITE :: "16 word" where "F_WRITE \<equiv> 2"

definition null_desc :: vdesc where
  "null_desc = \<lparr>d_addr = D_null, d_len = 0, d_flags = 0, d_nxt = 0\<rparr>"

section \<open>The driver\<close>

definition alloc_desc :: "'a disk_st_scheme \<Rightarrow> nat option \<times> 'a disk_st_scheme" where
  "alloc_desc s =
     (case find (\<lambda>i. v_free (vq s) ! i) [0..<NDESC] of
        None \<Rightarrow> (None, s)
      | Some i \<Rightarrow> (Some i, s\<lparr>vq := (vq s)\<lparr>v_free := (v_free (vq s))[i := False]\<rparr>\<rparr>))"

definition free_desc :: "nat \<Rightarrow> 'a disk_st_scheme \<Rightarrow> 'a disk_st_scheme res" where
  "free_desc i s =
     bnd (assertk (i < NDESC) ''free_desc 1'') (\<lambda>_.
     bnd (assertk (\<not> v_free (vq s) ! i) ''free_desc 2'') (\<lambda>_.
       wakeup (Some Ch_disk)
         (s\<lparr>vq := (vq s)\<lparr>v_desc := (v_desc (vq s))[i := null_desc], v_free := (v_free (vq s))[i := True]\<rparr>\<rparr>)))"

text \<open>No chain has more than \<open>NDESC\<close> descriptors, or one of them is freed twice.\<close>

fun free_chain :: "nat \<Rightarrow> nat \<Rightarrow> 'a disk_st_scheme \<Rightarrow> 'a disk_st_scheme res" where
  "free_chain 0 i s = Spin"
| "free_chain (Suc n) i s =
     (let flag = d_flags (v_desc (vq s) ! i);
          nxt = unat (d_nxt (v_desc (vq s) ! i))
      in bnd (guard (i < NDESC) ''disk.desc'') (\<lambda>_.
         bnd (free_desc i s) (\<lambda>s. if flag AND F_NEXT \<noteq> 0 then free_chain n nxt s else Ok s)))"

fun alloc3_from :: "nat list \<Rightarrow> nat \<Rightarrow> 'a disk_st_scheme \<Rightarrow> (nat list option \<times> 'a disk_st_scheme) res" where
  "alloc3_from got 0 s = Ok (Some got, s)"
| "alloc3_from got (Suc k) s =
     (case alloc_desc s of
        (Some i, s) \<Rightarrow> alloc3_from (got @ [i]) k s
      | (None, s) \<Rightarrow> bnd (for_each free_desc got s) (\<lambda>s. Ok (None, s)))"

definition alloc3_desc :: "'a disk_st_scheme \<Rightarrow> (nat list option \<times> 'a disk_st_scheme) res" where
  "alloc3_desc = alloc3_from [] 3"

fun get_descs :: "nat \<Rightarrow> 'a disk_st_scheme kenv \<Rightarrow> 'a disk_st_scheme \<Rightarrow> (nat list \<times> 'a disk_st_scheme) res" where
  "get_descs 0 e s = Spin"
| "get_descs (Suc n) e s =
     bnd (alloc3_desc s) (\<lambda>(r, s).
       case r of
         Some idx \<Rightarrow> Ok (idx, s)
       | None \<Rightarrow> bnd (sleep_on e Ch_disk L_disk s) (get_descs n e))"

text \<open>The three descriptors of a request, its header, and its place in the ring.\<close>

definition submit :: "nat list \<Rightarrow> nat \<Rightarrow> bool \<Rightarrow> 64 word \<Rightarrow> 'a disk_st_scheme \<Rightarrow> 'a disk_st_scheme" where
  "submit idx b write sector s =
     (let i0 = idx ! 0; i1 = idx ! 1; i2 = idx ! 2;
          s = s\<lparr>vq := (vq s)\<lparr>v_ops := (v_ops (vq s))[i0 :=
                 \<lparr>q_type = (if write then 1 else 0), q_reserved = 0, q_sector = sector\<rparr>]\<rparr>\<rparr>;
          s = s\<lparr>vq := (vq s)\<lparr>v_desc := (v_desc (vq s))[i0 :=
                 \<lparr>d_addr = D_req i0, d_len = 16, d_flags = F_NEXT, d_nxt = of_nat i1\<rparr>]\<rparr>\<rparr>;
          s = s\<lparr>vq := (vq s)\<lparr>v_desc := (v_desc (vq s))[i1 :=
                 \<lparr>d_addr = D_data b, d_len = 1024, d_flags = (if write then 0 else F_WRITE) OR F_NEXT,
                  d_nxt = of_nat i2\<rparr>]\<rparr>\<rparr>;
          s = s\<lparr>vq := (vq s)\<lparr>v_info := (v_info (vq s))[i0 := (v_info (vq s) ! i0)\<lparr>i_status := 0xff\<rparr>]\<rparr>\<rparr>;
          s = s\<lparr>vq := (vq s)\<lparr>v_desc := (v_desc (vq s))[i2 :=
                 \<lparr>d_addr = D_status i0, d_len = 1, d_flags = F_WRITE, d_nxt = 0\<rparr>]\<rparr>\<rparr>;
          s = upd_buf b (\<lambda>k. k\<lparr>b_disk := True\<rparr>) s;
          s = s\<lparr>vq := (vq s)\<lparr>v_info := (v_info (vq s))[i0 := (v_info (vq s) ! i0)\<lparr>i_buf := Some b\<rparr>]\<rparr>\<rparr>;
          s = s\<lparr>vq := (vq s)\<lparr>v_ring := (v_ring (vq s))[unat (v_aidx (vq s)) mod NDESC := i0]\<rparr>\<rparr>
      in s\<lparr>vq := (vq s)\<lparr>v_aidx := v_aidx (vq s) + 1\<rparr>\<rparr>)"

text \<open>\<open>b->blockno * (BSIZE / 512)\<close> is a \<open>uint\<close>.\<close>

definition sector_of :: "32 word \<Rightarrow> 64 word" where
  "sector_of bn = ucast (bn * 2)"

definition virtio_disk_rw :: "'a disk_st_scheme kenv \<Rightarrow> nat \<Rightarrow> bool \<Rightarrow> 'a disk_st_scheme \<Rightarrow> 'a disk_st_scheme res" where
  "virtio_disk_rw e b write s =
     (let sector = sector_of (b_blockno (bufs s ! b)) in
      bnd (acquire L_disk s) (\<lambda>s.
      bnd (get_descs (patience e) e s) (\<lambda>(idx, s).
      bnd (wait_while (patience e) (\<lambda>s. b_disk (bufs s ! b)) (sleep_on e (Ch_buf b) L_disk)
             (submit idx b write sector s)) (\<lambda>s.
      bnd (free_chain (Suc NDESC) (idx ! 0)
             (s\<lparr>vq := (vq s)\<lparr>v_info := (v_info (vq s))[idx ! 0 := (v_info (vq s) ! (idx ! 0))\<lparr>i_buf := None\<rparr>]\<rparr>\<rparr>))
        (release L_disk)))))"

text \<open>The loop over the used ring: \<open>n\<close> is how far the driver is behind the device.\<close>

fun intr_loop :: "nat \<Rightarrow> 'a disk_st_scheme \<Rightarrow> 'a disk_st_scheme res" where
  "intr_loop 0 s = Ok s"
| "intr_loop (Suc n) s =
     (let id = v_used (vq s) ! (unat (v_seen (vq s)) mod NDESC);
          info = v_info (vq s) ! id
      in bnd (guard (id < NDESC) ''disk.info'') (\<lambda>_.
         bnd (assertk (i_status info = 0) ''virtio_disk_intr status'') (\<lambda>_.
         case i_buf info of
           None \<Rightarrow> Undef ''null buf''
         | Some b \<Rightarrow>
             bnd (wakeup (Some (Ch_buf b)) (upd_buf b (\<lambda>k. k\<lparr>b_disk := False\<rparr>) s)) (\<lambda>s.
               intr_loop n (s\<lparr>vq := (vq s)\<lparr>v_seen := v_seen (vq s) + 1\<rparr>\<rparr>)))))"

definition virtio_disk_intr :: "'a disk_st_scheme \<Rightarrow> 'a disk_st_scheme res" where
  "virtio_disk_intr s =
     bnd (acquire L_disk s) (\<lambda>s.
     bnd (intr_loop (unat (v_uidx (vq s) - v_seen (vq s))) s) (release L_disk))"

section \<open>The contract of the disk\<close>

text \<open>No request under way.\<close>

definition drv_idle :: "'a disk_st_scheme \<Rightarrow> bool" where
  "drv_idle s \<longleftrightarrow> v_free (vq s) = replicate NDESC True \<and> length (v_desc (vq s)) = NDESC \<and> length (v_ring (vq s)) = NDESC \<and>
     length (v_used (vq s)) = NDESC \<and> length (v_info (vq s)) = NDESC \<and> length (v_ops (vq s)) = NDESC \<and>
     v_uidx (vq s) = v_aidx (vq s) \<and> v_seen (vq s) = v_aidx (vq s)"

text \<open>The transfer of one block, as the user of the driver sees it.\<close>

definition xfer :: "nat \<Rightarrow> bool \<Rightarrow> 'a disk_st_scheme \<Rightarrow> 'a disk_st_scheme" where
  "xfer b write s =
     (let sector = sector_of (b_blockno (bufs s ! b)) in
      if write then s\<lparr>media := (media s)(sector := b_data (bufs s ! b)), writes := writes s @ [(sector, b_data (bufs s ! b))]\<rparr>
      else upd_buf b (\<lambda>k. k\<lparr>b_data := media s sector\<rparr>) s)"

text \<open>A state up to what others did to processes and the driver while a process slept.\<close>

definition slept :: "nat \<Rightarrow> 'a disk_st_scheme \<Rightarrow> 'a disk_st_scheme \<Rightarrow> bool" where
  "slept p s t \<longleftrightarrow> t = s\<lparr>procs := procs t, vq := vq t\<rparr> \<and> map pinfo (procs t) = map pinfo (procs s) \<and>
     runs p t \<and> drv_idle t"

locale disk_env =
  fixes e :: "'a disk_st_scheme kenv"
  assumes transfers: "runs p s \<Longrightarrow> drv_idle s \<Longrightarrow> b < length (bufs s) \<Longrightarrow> \<not> b_disk (bufs s ! b) \<Longrightarrow>
    \<exists>t. virtio_disk_rw e b write s = Ok t \<and> slept p (xfer b write s) t"


section \<open>Sleeping once\<close>

text \<open>The process as the scheduler finds it after \<open>sleep_on\<close> has given up the hart.\<close>

definition asleep :: "nat \<Rightarrow> chan \<Rightarrow> 'a proc_st_scheme \<Rightarrow> 'a proc_st_scheme" where
  "asleep p ch s = upd_proc p (\<lambda>q. doze (prepare (Some ch) q)) (s\<lparr>held := [L_proc p]\<rparr>)"

lemma sleep_on_once:
  assumes "curproc s = Some p" "p < length (procs s)" "held s = [lk]" "lk \<noteq> L_proc p"
    and "others e (asleep p ch s) = Ok t" "held t = [L_proc p]"
  shows "sleep_on e ch lk s = Ok (t\<lparr>irq := irq s, held := [lk]\<rparr>)"
proof -
  let ?s1 = "upd_proc p (prepare (Some ch)) s"
  have h: "s\<lparr>held := [lk]\<rparr> = s" using assms(3) by simp
  have "sleep_prepare (Some ch) s = Ok ?s1"
    using assms(1-4) h by (simp add: sleep_prepare_def myproc_def release_def)
  moreover have "release lk ?s1 = Ok (?s1\<lparr>held := []\<rparr>)" using assms(3) by simp
  moreover have "sleep e (?s1\<lparr>held := []\<rparr>) = Ok (t\<lparr>irq := irq s, held := []\<rparr>)"
  proof -
    have "upd_proc p doze (?s1\<lparr>held := [L_proc p]\<rparr>) = asleep p ch s"
      by (simp add: asleep_def upd_proc_twice comp_def)
    moreover have "p_chan (proc_at ?s1 p) \<noteq> None" using assms(2) by (simp add: prepare_def)
    moreover have "p_state (proc_at (asleep p ch s) p) \<noteq> RUNNING" "irq (asleep p ch s) = irq s"
      "held (asleep p ch s) = [L_proc p]" "curproc (asleep p ch s) = Some p"
      using assms(1,2) by (simp_all add: asleep_def doze_def)
    ultimately show ?thesis
      using assms(1,5,6) by (simp add: sleep_def myproc_def sched_def intr_get_def)
  qed
  ultimately show ?thesis by (simp add: sleep_on_def)
qed

section \<open>A machine with a disk\<close>

text \<open>
  What the device does with the request at the head of the ring, as the virtio specification says:
  the transfer, status 0, and the chain's first descriptor in the used ring.
\<close>

definition serve_one :: "'a disk_st_scheme \<Rightarrow> 'a disk_st_scheme" where
  "serve_one s =
     (let v = vq s; head = v_ring v ! (unat (v_uidx v) mod NDESC);
          d0 = v_desc v ! head; d1 = v_desc v ! unat (d_nxt d0); d2 = v_desc v ! unat (d_nxt d1)
      in case (d_addr d0, d_addr d1, d_addr d2) of
           (D_req r, D_data b, D_status i) \<Rightarrow>
             let sector = q_sector (v_ops v ! r);
                 s = (if q_type (v_ops v ! r) = 1
                      then s\<lparr>media := (media s)(sector := b_data (bufs s ! b)),
                             writes := writes s @ [(sector, b_data (bufs s ! b))]\<rparr>
                      else upd_buf b (\<lambda>k. k\<lparr>b_data := media s sector\<rparr>) s)
             in s\<lparr>vq := v\<lparr>v_info := (v_info v)[i := (v_info v ! i)\<lparr>i_status := 0\<rparr>],
                          v_used := (v_used v)[unat (v_uidx v) mod NDESC := head],
                          v_uidx := v_uidx v + 1\<rparr>\<rparr>
         | _ \<Rightarrow> s)"

definition serve :: "'a disk_st_scheme \<Rightarrow> 'a disk_st_scheme" where
  "serve s = (serve_one ^^ unat (v_aidx (vq s) - v_uidx (vq s))) s"

text \<open>
  One hart, one process that wants the disk: while it sleeps the device serves it and interrupts, and
  the scheduler finds it runnable again.
\<close>

definition device_env :: "'a disk_st_scheme kenv" where
  "device_env = \<lparr>others = (\<lambda>s.
     case curproc s of
       None \<Rightarrow> Spin
     | Some p \<Rightarrow>
         bnd (release (L_proc p) s) (\<lambda>s.
         bnd (virtio_disk_intr (serve s)) (\<lambda>s.
           if p_state (proc_at s p) = RUNNABLE
           then bnd (acquire (L_proc p) s) (\<lambda>s. Ok (dispatch p s)) else Spin))),
     patience = 1\<rparr>"

lemma upd_buf_simps [simp]:
  "bufs (upd_buf b f s) = (bufs s)[b := f (bufs s ! b)]" "vq (upd_buf b f s) = vq s" "media (upd_buf b f s) = media s"
  "writes (upd_buf b f s) = writes s" "procs (upd_buf b f s) = procs s" "held (upd_buf b f s) = held s"
  "curproc (upd_buf b f s) = curproc s" "irq (upd_buf b f s) = irq s" "sleeplocks (upd_buf b f s) = sleeplocks s"
  by (simp_all add: upd_buf_def)

text \<open>The driver's tables with the one request in them, and after the device has served it.\<close>

definition with_request :: "nat \<Rightarrow> bool \<Rightarrow> 64 word \<Rightarrow> virtq \<Rightarrow> virtq" where
  "with_request b write sector v = v\<lparr>
     v_ops := (v_ops v)[0 := \<lparr>q_type = (if write then 1 else 0), q_reserved = 0, q_sector = sector\<rparr>],
     v_desc := (v_desc v)[0 := \<lparr>d_addr = D_req 0, d_len = 16, d_flags = F_NEXT, d_nxt = 1\<rparr>,
       1 := \<lparr>d_addr = D_data b, d_len = 1024, d_flags = (if write then 0 else F_WRITE) OR F_NEXT, d_nxt = 2\<rparr>,
       2 := \<lparr>d_addr = D_status 0, d_len = 1, d_flags = F_WRITE, d_nxt = 0\<rparr>],
     v_info := (v_info v)[0 := \<lparr>i_buf = Some b, i_status = 0xff\<rparr>],
     v_ring := (v_ring v)[unat (v_aidx v) mod NDESC := 0],
     v_aidx := v_aidx v + 1,
     v_free := [False, False, False, True, True, True, True, True]\<rparr>"

definition served :: "nat \<Rightarrow> virtq \<Rightarrow> virtq" where
  "served b v = v\<lparr>v_info := (v_info v)[0 := \<lparr>i_buf = Some b, i_status = 0\<rparr>],
     v_used := (v_used v)[unat (v_uidx v) mod NDESC := 0], v_uidx := v_uidx v + 1\<rparr>"

lemma drv_idleD:
  assumes "drv_idle s"
  shows "v_free (vq s) = [True, True, True, True, True, True, True, True]" "length (v_desc (vq s)) = 8"
    "length (v_ring (vq s)) = 8" "length (v_used (vq s)) = 8" "length (v_info (vq s)) = 8" "length (v_ops (vq s)) = 8"
    "v_uidx (vq s) = v_aidx (vq s)" "v_seen (vq s) = v_aidx (vq s)"
  using assms by (simp_all add: drv_idle_def NDESC_def numeral_eq_Suc)


lemma vinfo_both [simp]: "(k :: vinfo)\<lparr>i_status := b, i_buf := a\<rparr> = \<lparr>i_buf = a, i_status = b\<rparr>"
  by (cases k) simp

lemma alloc3_idle:
  assumes "drv_idle s"
  shows "alloc3_desc s =
    Ok (Some [0, 1, 2], s\<lparr>vq := (vq s)\<lparr>v_free := [False, False, False, True, True, True, True, True]\<rparr>\<rparr>)"
  using drv_idleD(1)[OF assms]
  by (simp add: alloc3_desc_def numeral_3_eq_3 alloc_desc_def NDESC_def upt_conv_Cons)

lemma submit_request:
  assumes "drv_idle s"
  shows "submit [0, 1, 2] b write sector (s\<lparr>vq := (vq s)\<lparr>v_free := [False, False, False, True, True, True, True, True]\<rparr>\<rparr>) =
    (upd_buf b (\<lambda>k. k\<lparr>b_disk := True\<rparr>) s)\<lparr>vq := with_request b write sector (vq s)\<rparr>"
  using drv_idleD[OF assms]
  by (cases "vq s") (simp add: submit_def Let_def with_request_def upd_buf_def numeral_2_eq_2)

lemma request_tables:
  assumes "drv_idle s" and v_def: "v = with_request b write sector (vq s)" and k_def: "k = unat (v_aidx (vq s)) mod NDESC"
  shows "k < 8" "v_uidx v = v_aidx (vq s)" "v_aidx v = v_aidx (vq s) + 1" "v_seen v = v_aidx (vq s)"
    "v_ring v ! k = 0" "v_desc v ! 0 = \<lparr>d_addr = D_req 0, d_len = 16, d_flags = F_NEXT, d_nxt = 1\<rparr>"
    "v_desc v ! 1 = \<lparr>d_addr = D_data b, d_len = 1024, d_flags = (if write then 0 else F_WRITE) OR F_NEXT, d_nxt = 2\<rparr>"
    "v_desc v ! 2 = \<lparr>d_addr = D_status 0, d_len = 1, d_flags = F_WRITE, d_nxt = 0\<rparr>"
    "v_ops v ! 0 = \<lparr>q_type = (if write then 1 else 0), q_reserved = 0, q_sector = sector\<rparr>"
    "v_info v ! 0 = \<lparr>i_buf = Some b, i_status = 0xff\<rparr>" "length (v_info v) = 8" "length (v_used v) = 8"
proof -
  show "k < 8" by (simp add: k_def NDESC_def)
  then show "v_uidx v = v_aidx (vq s)" "v_aidx v = v_aidx (vq s) + 1" "v_seen v = v_aidx (vq s)"
    "v_ring v ! k = 0" "v_desc v ! 0 = \<lparr>d_addr = D_req 0, d_len = 16, d_flags = F_NEXT, d_nxt = 1\<rparr>"
    "v_desc v ! 1 = \<lparr>d_addr = D_data b, d_len = 1024, d_flags = (if write then 0 else F_WRITE) OR F_NEXT, d_nxt = 2\<rparr>"
    "v_desc v ! 2 = \<lparr>d_addr = D_status 0, d_len = 1, d_flags = F_WRITE, d_nxt = 0\<rparr>"
    "v_ops v ! 0 = \<lparr>q_type = (if write then 1 else 0), q_reserved = 0, q_sector = sector\<rparr>"
    "v_info v ! 0 = \<lparr>i_buf = Some b, i_status = 0xff\<rparr>" "length (v_info v) = 8" "length (v_used v) = 8"
    using drv_idleD[OF assms(1)] by (simp_all add: v_def with_request_def k_def[symmetric])
qed

lemma serve_request:
  fixes s t :: "'a disk_st_scheme"
  assumes "drv_idle s" and t: "vq t = with_request b write sector (vq s)"
  shows "serve t = (if write then t\<lparr>media := (media t)(sector := b_data (bufs t ! b)), writes := writes t @ [(sector, b_data (bufs t ! b))]\<rparr>
      else upd_buf b (\<lambda>k. k\<lparr>b_data := media t sector\<rparr>) t)\<lparr>vq := served b (vq t)\<rparr>"
proof -
  note r = request_tables[OF assms(1) t refl]
  have "serve t = serve_one t" using r(2,3) by (simp add: serve_def)
  moreover have "(v_info (vq t) ! 0)\<lparr>i_status := 0\<rparr> = \<lparr>i_buf = Some b, i_status = 0\<rparr>" using r(10) by simp
  ultimately show ?thesis using r by (simp add: serve_one_def Let_def served_def One_nat_def[symmetric] del: One_nat_def)
qed


lemma intr_served:
  fixes s d :: "'a disk_st_scheme"
  assumes "drv_idle s" and v: "vq d = served b (with_request b write sector (vq s))"
    and h: "held d = []" "length (procs d) = NPROC"
  shows "virtio_disk_intr d = Ok ((woke (Ch_buf b) (upd_buf b (\<lambda>k. k\<lparr>b_disk := False\<rparr>) d))
    \<lparr>vq := (vq d)\<lparr>v_seen := v_seen (vq d) + 1\<rparr>\<rparr>)"
proof -
  define w where "w = with_request b write sector (vq s)"
  note r = request_tables[OF assms(1) w_def refl]
  let ?k = "unat (v_aidx (vq s)) mod NDESC"
  have q: "v_seen (vq d) = v_aidx (vq s)" "v_uidx (vq d) = v_aidx (vq s) + 1" "v_used (vq d) ! ?k = 0"
    "v_info (vq d) ! 0 = \<lparr>i_buf = Some b, i_status = 0\<rparr>"
    using r by (simp_all add: v served_def flip: w_def)
  let ?d = "d\<lparr>held := [L_disk]\<rparr>"
  let ?u = "upd_buf b (\<lambda>k. k\<lparr>b_disk := False\<rparr>) ?d"
  have w: "wakeup (Some (Ch_buf b)) ?u = Ok (woke (Ch_buf b) ?u)"
    by (rule wakeup_woke) (use h in \<open>simp_all add: no_proc_lock_def\<close>)
  have n: "unat (v_uidx (vq ?d) - v_seen (vq ?d)) = Suc 0" using q by simp
  have "intr_loop (Suc 0) ?d = Ok ((woke (Ch_buf b) ?u)\<lparr>vq := (vq d)\<lparr>v_seen := v_seen (vq d) + 1\<rparr>\<rparr>)"
    using q w by (simp add: NDESC_def woke_def)
  then show ?thesis using h n by (simp add: virtio_disk_intr_def release_Ok woke_def upd_buf_def)
qed

lemma upd_buf_twice: "upd_buf b f (upd_buf b g s) = upd_buf b (f \<circ> g) s"
  by (cases "b < length (bufs s)") (simp_all add: upd_buf_def list_update_beyond)

lemma asleep_simps [simp]:
  "held (asleep p c s) = [L_proc p]" "curproc (asleep p c s) = curproc s" "length (procs (asleep p c s)) = length (procs s)"
  by (simp_all add: asleep_def)

lemma asleep_disk [simp]:
  "vq (asleep p c s) = vq s" "bufs (asleep p c s) = bufs s" "media (asleep p c s) = media s" "writes (asleep p c s) = writes s"
  by (simp_all add: asleep_def upd_proc_def)

lemma map_pid_upd: "(\<And>q. pinfo (f q) = pinfo q) \<Longrightarrow> map pinfo (procs (upd_proc p f s)) = map pinfo (procs s)"
  by (cases "p < length (procs s)") (simp_all add: upd_proc_def map_update list_update_same_conv list_update_beyond)

lemma device_turn:
  fixes s t :: "'a disk_st_scheme"
  assumes idle: "drv_idle s" and v: "vq t = with_request b write sector (vq s)"
    and p: "curproc t = Some p" "p < NPROC" "length (procs t) = NPROC"
  defines "x \<equiv> (if write then t\<lparr>media := (media t)(sector := b_data (bufs t ! b)), writes := writes t @ [(sector, b_data (bufs t ! b))]\<rparr>
      else upd_buf b (\<lambda>k. k\<lparr>b_data := media t sector\<rparr>) t)"
  shows "\<exists>u. others device_env (asleep p (Ch_buf b) t) = Ok u \<and>
    u = (upd_buf b (\<lambda>k. k\<lparr>b_disk := False\<rparr>) x)\<lparr>held := [L_proc p], procs := procs u,
      vq := (served b (vq t))\<lparr>v_seen := v_aidx (vq s) + 1\<rparr>\<rparr> \<and>
    length (procs u) = NPROC \<and> p_state (proc_at u p) = RUNNING \<and> map pinfo (procs u) = map pinfo (procs t)"
proof -
  define a where "a = (asleep p (Ch_buf b) t)\<lparr>held := []\<rparr>"
  define d where "d = (if write then a\<lparr>media := (media a)(sector := b_data (bufs a ! b)), writes := writes a @ [(sector, b_data (bufs a ! b))]\<rparr>
      else upd_buf b (\<lambda>k. k\<lparr>b_data := media a sector\<rparr>) a)\<lparr>vq := served b (vq a)\<rparr>"
  have va: "vq a = with_request b write sector (vq s)" by (simp add: a_def v)
  have sv: "serve a = d" unfolding d_def by (rule serve_request[OF idle va])
  have dp: "procs d = procs (asleep p (Ch_buf b) t)" "held d = []" "curproc d = Some p" "vq d = served b (vq t)"
    using p(1) by (simp_all add: d_def a_def)
  have di: "virtio_disk_intr d = Ok ((woke (Ch_buf b) (upd_buf b (\<lambda>k. k\<lparr>b_disk := False\<rparr>) d))
    \<lparr>vq := (vq d)\<lparr>v_seen := v_seen (vq d) + 1\<rparr>\<rparr>)" (is "_ = Ok ?w")
    by (rule intr_served[OF idle _ dp(2), of b "write" sector]) (use dp p v in simp_all)
  have wp: "procs ?w = map (wake (Some (Ch_buf b))) (procs (asleep p (Ch_buf b) t))" "held ?w = []"
    by (simp_all add: woke_def dp)
  have at: "proc_at ?w p = wake (Some (Ch_buf b)) (doze (prepare (Some (Ch_buf b)) (proc_at t p)))"
    using p by (simp add: proc_at_def wp asleep_def)
  then have st: "p_state (proc_at ?w p) = RUNNABLE" by (simp add: wake_def doze_def prepare_def)
  define u where "u = dispatch p (?w\<lparr>held := [L_proc p]\<rparr>)"
  have run: "others device_env (asleep p (Ch_buf b) t) = Ok u"
    using p di st wp(2) sv by (simp add: device_env_def a_def[symmetric] u_def)
  have seen: "v_seen (vq d) = v_aidx (vq s)"
    using request_tables(4)[OF idle v refl] by (simp add: dp served_def)
  have len: "length (procs u) = NPROC" using p by (simp add: u_def dispatch_def wp)
  have stu: "p_state (proc_at u p) = RUNNING"
    using p by (simp add: u_def dispatch_def proc_at_def wp)
  have ids: "map pinfo (procs u) = map pinfo (procs t)"
  proof -
    have "map pinfo (procs u) = map pinfo (procs ?w)"
      unfolding u_def dispatch_def by (simp add: map_pid_upd pinfo_def del: upd_proc_simps(1))
    also have "\<dots> = map pinfo (procs (asleep p (Ch_buf b) t))" by (simp add: wp)
    also have "\<dots> = map pinfo (procs t)" unfolding asleep_def by (simp add: map_pid_upd doze_def prepare_def pinfo_def del: upd_proc_simps(1))
    finally show ?thesis .
  qed
  have "u = (upd_buf b (\<lambda>k. k\<lparr>b_disk := False\<rparr>) x)\<lparr>held := [L_proc p], procs := procs u,
      vq := (served b (vq t))\<lparr>v_seen := v_aidx (vq s) + 1\<rparr>\<rparr>"
    using p(1) seen unfolding u_def dispatch_def
    by (simp add: woke_def upd_buf_def upd_proc_def d_def a_def asleep_def x_def v)
  with run len stu ids show ?thesis by blast
qed


lemma free_desc_eq:
  assumes "no_proc_lock s" "length (procs s) = NPROC" "i < 8" "\<not> v_free (vq s) ! i"
  shows "free_desc i s = Ok (woke Ch_disk
    (s\<lparr>vq := (vq s)\<lparr>v_desc := (v_desc (vq s))[i := null_desc], v_free := (v_free (vq s))[i := True]\<rparr>\<rparr>))"
  using assms by (simp add: free_desc_def NDESC_def wakeup_woke no_proc_lock_def)

lemma no_proc_lock_woke [simp]: "no_proc_lock (woke c s) = no_proc_lock s"
  by (simp add: no_proc_lock_def)

lemma no_proc_lock_vq [simp]: "no_proc_lock (s\<lparr>vq := v\<rparr>) = no_proc_lock s"
  by (simp add: no_proc_lock_def)

lemma vq_woke [simp]: "vq (woke c s) = vq s" "(woke c s)\<lparr>vq := v\<rparr> = woke c (s\<lparr>vq := v\<rparr>)"
  by (simp_all add: woke_def)

text \<open>The chain of a request is its three descriptors.\<close>

lemma free_chain_request:
  assumes "no_proc_lock s" "length (procs s) = NPROC" "length (v_desc (vq s)) = 8"
    and "v_free (vq s) = [False, False, False, True, True, True, True, True]"
    and "d_flags (v_desc (vq s) ! 0) = F_NEXT" "d_nxt (v_desc (vq s) ! 0) = 1"
    and "d_flags (v_desc (vq s) ! 1) AND F_NEXT \<noteq> 0" "d_nxt (v_desc (vq s) ! 1) = 2"
    and "d_flags (v_desc (vq s) ! 2) = F_WRITE"
  shows "free_chain (Suc NDESC) 0 s = Ok (woke Ch_disk (woke Ch_disk (woke Ch_disk
    (s\<lparr>vq := (vq s)\<lparr>v_desc := (v_desc (vq s))[0 := null_desc, 1 := null_desc, 2 := null_desc],
       v_free := replicate NDESC True\<rparr>\<rparr>))))"
proof -
  have n: "replicate NDESC True = [True, True, True, True, True, True, True, True]"
    by (simp_all add: NDESC_def numeral_eq_Suc)
  have l: "(a # xs)[0 := c] = c # xs" "(a # b # xs)[1 := c] = a # c # xs" "(a # b # d # xs)[2 := c] = a # b # c # xs"
    for a b c d and xs :: "bool list" by (simp_all add: numeral_2_eq_2)
  obtain m where m: "Suc NDESC = Suc (Suc (Suc m))" by (simp add: NDESC_def)
  have f: "(F_NEXT :: 16 word) AND F_NEXT \<noteq> 0" "(F_WRITE :: 16 word) AND F_NEXT = 0" by simp_all
  show ?thesis
    unfolding n m using assms f by (simp add: free_desc_eq Let_def NDESC_def l del: One_nat_def list_update.simps(2))
qed


lemma device_transfers:
  fixes s :: "'a disk_st_scheme"
  assumes r: "runs p s" and idle: "drv_idle s" and b: "b < length (bufs s)" "\<not> b_disk (bufs s ! b)"
  shows "\<exists>t. virtio_disk_rw device_env b write s = Ok t \<and> slept p (xfer b write s) t"
proof -
  note rd = runsD[OF r]
  define sector where "sector = sector_of (b_blockno (bufs s ! b))"
  define s1 where "s1 = s\<lparr>held := [L_disk]\<rparr>"
  have idle1: "drv_idle s1" using idle by (simp add: s1_def drv_idle_def)
  define t where "t = (upd_buf b (\<lambda>k. k\<lparr>b_disk := True\<rparr>) s1)\<lparr>vq := with_request b write sector (vq s1)\<rparr>"
  define x where "x = (if write then t\<lparr>media := (media t)(sector := b_data (bufs t ! b)), writes := writes t @ [(sector, b_data (bufs t ! b))]\<rparr>
      else upd_buf b (\<lambda>k. k\<lparr>b_data := media t sector\<rparr>) t)"
  have vt: "vq t = with_request b write sector (vq s1)" by (simp add: t_def)
  have pt: "curproc t = Some p" "length (procs t) = NPROC" "held t = [L_disk]"
    using rd by (simp_all add: t_def s1_def)
  obtain u where u: "others device_env (asleep p (Ch_buf b) t) = Ok u"
    "u = (upd_buf b (\<lambda>k. k\<lparr>b_disk := False\<rparr>) x)\<lparr>held := [L_proc p], procs := procs u,
      vq := (served b (vq t))\<lparr>v_seen := v_aidx (vq s1) + 1\<rparr>\<rparr>"
    "length (procs u) = NPROC" "p_state (proc_at u p) = RUNNING" "map pinfo (procs u) = map pinfo (procs t)"
    using device_turn[OF idle1 vt pt(1) rd(2) pt(2)] unfolding x_def by blast
  define w where "w = u\<lparr>irq := irq t, held := [L_disk]\<rparr>"
  have so: "sleep_on device_env (Ch_buf b) L_disk t = Ok w"
    unfolding w_def by (rule sleep_on_once[OF pt(1) _ pt(3) _ u(1)]) (use rd pt(2) in \<open>simp, simp, subst u(2), simp\<close>)
  have bw: "bufs w = (bufs x)[b := (bufs x ! b)\<lparr>b_disk := False\<rparr>]" "length (bufs x) = length (bufs s)"
    unfolding w_def by (subst u(2), simp) (simp add: x_def t_def s1_def)
  have turn: "wait_while (Suc 0) (\<lambda>s. b_disk (bufs s ! b)) (sleep_on device_env (Ch_buf b) L_disk) t = Ok w"
    using so bw b(1) by (simp add: t_def s1_def)
  let ?v = "(served b (vq t))\<lparr>v_seen := v_aidx (vq s1) + 1\<rparr>"
  have vw: "vq w = ?v" unfolding w_def by (subst u(2)) simp
  define y where "y = w\<lparr>vq := ?v\<lparr>v_info := (v_info ?v)[0 := (v_info ?v ! 0)\<lparr>i_buf := None\<rparr>]\<rparr>\<rparr>"
  define y' where "y' = woke Ch_disk (woke Ch_disk (woke Ch_disk
    (y\<lparr>vq := (vq y)\<lparr>v_desc := (v_desc (vq y))[0 := null_desc, 1 := null_desc, 2 := null_desc],
       v_free := replicate NDESC True\<rparr>\<rparr>)))"
  have yw: "held y = [L_disk]" "procs y = procs u" "curproc y = curproc u" by (simp_all add: y_def w_def)
  note rt = request_tables[OF idle1 vt refl]
  have fc: "free_chain (Suc NDESC) 0 y = Ok y'"
    unfolding y'_def
    by (rule free_chain_request)
      (use yw u(3) rt drv_idleD[OF idle1] in \<open>simp_all add: no_proc_lock_def, simp_all add: y_def served_def vt with_request_def\<close>)
  have run: "virtio_disk_rw device_env b write s = release L_disk y'"
  proof -
    have "get_descs (Suc 0) device_env s1 =
        Ok ([0, 1, 2], s1\<lparr>vq := (vq s1)\<lparr>v_free := [False, False, False, True, True, True, True, True]\<rparr>\<rparr>)"
      by (simp add: alloc3_idle[OF idle1])
    moreover have "patience (device_env :: 'a disk_st_scheme kenv) = Suc 0" by (simp add: device_env_def)
    ultimately show ?thesis
      using rd(4) turn fc[unfolded y_def] submit_request[OF idle1, of b "write" sector, folded t_def] vw
      by (simp add: virtio_disk_rw_def s1_def[symmetric] sector_def[symmetric] del: wait_while.simps get_descs.simps free_chain.simps)
  qed
  have hy: "held y' = [L_disk]" by (simp add: y'_def yw)
  define z where "z = y'\<lparr>held := []\<rparr>"
  have "virtio_disk_rw device_env b write s = Ok z" using run hy by (simp add: z_def)
  moreover have "slept p (xfer b write s) z"
  proof -
    have pz: "procs z = map (wake (Some Ch_disk) \<circ> (wake (Some Ch_disk) \<circ> wake (Some Ch_disk))) (procs u)"
      by (simp add: z_def y'_def woke_def yw)
    have cu: "curproc u = Some p" by (subst u(2)) (simp add: x_def t_def s1_def rd)
    have "map pinfo (procs t) = map pinfo (procs (xfer b write s))"
      by (simp add: t_def s1_def xfer_def Let_def)
    then have ids: "map pinfo (procs z) = map pinfo (procs (xfer b write s))"
      using u(5) by (simp add: pz comp_def)
    have "proc_at z p = (wake (Some Ch_disk) \<circ> (wake (Some Ch_disk) \<circ> wake (Some Ch_disk))) (proc_at u p)"
      using u(3) rd(2) by (simp add: proc_at_def pz)
    then have rz: "runs p z"
      using u(3,4) rd(2) cu by (simp add: runs_def pz) (simp add: z_def y'_def yw)
    have dz: "drv_idle z"
      using drv_idleD[OF idle1] rt
      by (simp add: drv_idle_def z_def y'_def y_def vw served_def vt with_request_def NDESC_def)
    define xx where "xx = upd_buf b (\<lambda>k. k\<lparr>b_disk := False\<rparr>) x"
    obtain pu vu where ux: "u = xx\<lparr>held := [L_proc p], procs := pu, vq := vu\<rparr>" using u(2) unfolding xx_def by blast
    have "\<exists>v ps. y' = w\<lparr>vq := v, procs := ps\<rparr>" unfolding y'_def y_def woke_def by simp blast
    then obtain v ps where yx: "y' = w\<lparr>vq := v, procs := ps\<rparr>" by blast
    have "irq t = irq s" "irq xx = irq s" by (simp_all add: t_def s1_def xx_def x_def)
    then have "z = xx\<lparr>held := [], procs := procs z, vq := vq z\<rparr>"
      unfolding z_def yx w_def ux by (cases xx) simp
    also have "\<dots> = (xfer b write s)\<lparr>procs := procs z, vq := vq z\<rparr>"
    proof -
      have k: "(bufs s ! b)\<lparr>b_disk := False\<rparr> = bufs s ! b" "(bufs s ! b)\<lparr>b_data := d, b_disk := False\<rparr> = (bufs s ! b)\<lparr>b_data := d\<rparr>" for d
        using b(2) by (cases "bufs s ! b", simp)+
      show ?thesis
        using rd(4) b(1) k by (cases s) (simp add: xx_def x_def t_def s1_def xfer_def Let_def sector_def upd_buf_def list_update_overwrite)
    qed
    finally have "z = (xfer b write s)\<lparr>procs := procs z, vq := vq z\<rparr>" .
    with ids rz dz show ?thesis by (simp add: slept_def)
  qed
  ultimately show ?thesis by blast
qed


interpretation vd: disk_env device_env
  by unfold_locales (rule device_transfers)

end
