(* ===== verification/K_Bio.thy ===== *)
theory K_Bio
  imports K_Disk
begin

text \<open>
  \<open>xv6/kernel/bio.c\<close>: the cache of disk blocks.  The buffers are linked in a ring through the head, in the
  order of their last use; the code's pointer assignments are kept, and the ring is read back as a list.
\<close>

section \<open>The code\<close>

definition set_next :: "nat \<Rightarrow> nat \<Rightarrow> buf list \<Rightarrow> buf list" where
  "set_next a x bs = bs[a := (bs ! a)\<lparr>b_next := x\<rparr>]"

definition set_prev :: "nat \<Rightarrow> nat \<Rightarrow> buf list \<Rightarrow> buf list" where
  "set_prev a x bs = bs[a := (bs ! a)\<lparr>b_prev := x\<rparr>]"

definition binit :: "'a disk_st_scheme \<Rightarrow> 'a disk_st_scheme" where
  "binit s =
     (let s = s\<lparr>bufs := set_next NBUF NBUF (set_prev NBUF NBUF (bufs s))\<rparr> in
      foldl (\<lambda>s b.
        let s = s\<lparr>bufs := set_next b (b_next (bufs s ! NBUF)) (bufs s)\<rparr>;
            s = s\<lparr>bufs := set_prev b NBUF (bufs s)\<rparr>;
            s = initsleeplock (SL_buf b) s;
            s = s\<lparr>bufs := set_prev (b_next (bufs s ! NBUF)) b (bufs s)\<rparr>
        in s\<lparr>bufs := set_next NBUF b (bufs s)\<rparr>) s [0..<NBUF])"

text \<open>A loop along one of the links up to the head.\<close>

fun chase :: "nat \<Rightarrow> (buf \<Rightarrow> nat) \<Rightarrow> (buf \<Rightarrow> bool) \<Rightarrow> buf list \<Rightarrow> nat \<Rightarrow> nat option res" where
  "chase 0 link P bs b = (if b = NBUF then Ok None else if P (bs ! b) then Ok (Some b) else Spin)"
| "chase (Suc n) link P bs b =
     (if b = NBUF then Ok None else if P (bs ! b) then Ok (Some b) else chase n link P bs (link (bs ! b)))"

definition bget :: "'a disk_st_scheme kenv \<Rightarrow> 32 word \<Rightarrow> 32 word \<Rightarrow> 'a disk_st_scheme \<Rightarrow> (nat \<times> 'a disk_st_scheme) res" where
  "bget e dev bn s =
     bnd (acquire L_bcache s) (\<lambda>s.
     bnd (chase NBUF b_next (\<lambda>k. b_dev k = dev \<and> b_blockno k = bn) (bufs s) (b_next (bufs s ! NBUF))) (\<lambda>r.
       case r of
         Some b \<Rightarrow>
           bnd (release L_bcache (upd_buf b (\<lambda>k. k\<lparr>b_refcnt := b_refcnt k + 1\<rparr>) s)) (\<lambda>s.
           bnd (acquiresleep e (SL_buf b) s) (\<lambda>s. Ok (b, s)))
       | None \<Rightarrow>
           bnd (chase NBUF b_prev (\<lambda>k. b_refcnt k = 0) (bufs s) (b_prev (bufs s ! NBUF))) (\<lambda>r.
             case r of
               Some b \<Rightarrow>
                 bnd (release L_bcache
                   (upd_buf b (\<lambda>k. k\<lparr>b_dev := dev, b_blockno := bn, b_valid := False, b_refcnt := 1\<rparr>) s)) (\<lambda>s.
                 bnd (acquiresleep e (SL_buf b) s) (\<lambda>s. Ok (b, s)))
             | None \<Rightarrow> Panic ''bget: no buffers'')))"

definition bread :: "'a disk_st_scheme kenv \<Rightarrow> 32 word \<Rightarrow> 32 word \<Rightarrow> 'a disk_st_scheme \<Rightarrow> (nat \<times> 'a disk_st_scheme) res" where
  "bread e dev bn s =
     bnd (bget e dev bn s) (\<lambda>(b, s).
       if \<not> b_valid (bufs s ! b) then
         bnd (virtio_disk_rw e b False s) (\<lambda>s. Ok (b, upd_buf b (\<lambda>k. k\<lparr>b_valid := True\<rparr>) s))
       else Ok (b, s))"

definition bwrite :: "'a disk_st_scheme kenv \<Rightarrow> nat \<Rightarrow> 'a disk_st_scheme \<Rightarrow> 'a disk_st_scheme res" where
  "bwrite e b s =
     bnd (holdingsleep (SL_buf b) s) (\<lambda>(h, s).
     bnd (assertk h ''bwrite'') (\<lambda>_. virtio_disk_rw e b True s))"

definition move_front :: "nat \<Rightarrow> buf list \<Rightarrow> buf list" where
  "move_front b bs =
     (let bs = set_prev (b_next (bs ! b)) (b_prev (bs ! b)) bs;
          bs = set_next (b_prev (bs ! b)) (b_next (bs ! b)) bs;
          bs = set_next b (b_next (bs ! NBUF)) bs;
          bs = set_prev b NBUF bs;
          bs = set_prev (b_next (bs ! NBUF)) b bs
      in set_next NBUF b bs)"

definition brelse :: "nat \<Rightarrow> 'a disk_st_scheme \<Rightarrow> 'a disk_st_scheme res" where
  "brelse b s =
     bnd (holdingsleep (SL_buf b) s) (\<lambda>(h, s).
     bnd (assertk h ''brelse'') (\<lambda>_.
     bnd (releasesleep (SL_buf b) s) (\<lambda>s.
     bnd (acquire L_bcache s) (\<lambda>s.
       let s = upd_buf b (\<lambda>k. k\<lparr>b_refcnt := b_refcnt k - 1\<rparr>) s;
           s = (if b_refcnt (bufs s ! b) = 0 then s\<lparr>bufs := move_front b (bufs s)\<rparr> else s)
       in release L_bcache s))))"

definition bpin :: "nat \<Rightarrow> 'a disk_st_scheme \<Rightarrow> 'a disk_st_scheme res" where
  "bpin b s =
     bnd (acquire L_bcache s) (\<lambda>s. release L_bcache (upd_buf b (\<lambda>k. k\<lparr>b_refcnt := b_refcnt k + 1\<rparr>) s))"

definition bunpin :: "nat \<Rightarrow> 'a disk_st_scheme \<Rightarrow> 'a disk_st_scheme res" where
  "bunpin b s =
     bnd (acquire L_bcache s) (\<lambda>s. release L_bcache (upd_buf b (\<lambda>k. k\<lparr>b_refcnt := b_refcnt k - 1\<rparr>) s))"

section \<open>The ring\<close>

text \<open>The links \<open>N\<close> and \<open>P\<close> run along the list both ways.\<close>

fun chain :: "(nat \<Rightarrow> nat) \<Rightarrow> (nat \<Rightarrow> nat) \<Rightarrow> nat list \<Rightarrow> bool" where
  "chain N P (a # b # r) \<longleftrightarrow> N a = b \<and> P b = a \<and> chain N P (b # r)"
| "chain N P _ \<longleftrightarrow> True"

lemma chain_append: "chain N P (xs @ a # ys) \<longleftrightarrow> chain N P (xs @ [a]) \<and> chain N P (a # ys)"
proof (induction xs)
  case (Cons x xs)
  then show ?case by (cases xs) auto
qed simp

lemma chain_cong:
  "(\<And>a. a \<in> set (butlast xs) \<Longrightarrow> N' a = N a) \<Longrightarrow> (\<And>a. a \<in> set (tl xs) \<Longrightarrow> P' a = P a) \<Longrightarrow>
   chain N' P' xs = chain N P xs"
proof (induction N P xs rule: chain.induct)
  case (1 N P a b r)
  have "chain N' P' (b # r) = chain N P (b # r)"
  proof (rule "1.IH")
    show "N' x = N x" if "x \<in> set (butlast (b # r))" for x
      by (rule "1.prems"(1)) (use that in \<open>simp only: butlast.simps list.distinct if_False list.set insert_iff simp_thms\<close>)
    show "P' x = P x" if "x \<in> set (tl (b # r))" for x
      by (rule "1.prems"(2)) (use that in \<open>simp only: list.sel list.set insert_iff simp_thms\<close>)
  qed
  moreover have "N' a = N a" by (rule "1.prems"(1)) simp
  moreover have "P' b = P b" by (rule "1.prems"(2)) simp
  ultimately show ?case by (simp only: chain.simps)
qed auto

lemma chain_unlink:
  assumes c: "chain N P (us @ l # b # r # vs)"
    and d: "distinct (butlast (us @ l # b # r # vs))" "distinct (tl (us @ l # b # r # vs))"
  shows "chain (N(l := r)) (P(r := l)) (us @ l # r # vs)"
proof -
  have s: "chain N P (us @ [l])" "chain N P (r # vs)"
    using c chain_append[of N P us l "b # r # vs"] by simp_all
  have l: "l \<notin> set us" "l \<notin> set (butlast (r # vs))"
    using d(1) by (auto simp: butlast_append)
  have r: "r \<notin> set (tl (us @ [l]))" "r \<notin> set vs"
    using d(2) by (cases us; auto)+
  have "chain (N(l := r)) (P(r := l)) (us @ [l])"
    using s(1) l r by (subst chain_cong[where N = N and P = P]) (auto simp: butlast_append)
  moreover have "chain (N(l := r)) (P(r := l)) (r # vs)"
    using s(2) l r by (subst chain_cong[where N = N and P = P]) auto
  ultimately show ?thesis using chain_append[of "N(l := r)" "P(r := l)" us l "r # vs"] by simp
qed

lemma chain_insert:
  assumes c: "chain N P (h # c # vs)" and d: "distinct (butlast (h # c # vs))" "distinct (c # vs)"
    and b: "b \<notin> set (h # c # vs)"
  shows "chain (N(b := c, h := b)) (P(b := h, c := b)) (h # b # c # vs)"
proof -
  have "chain (N(b := c, h := b)) (P(b := h, c := b)) (c # vs)"
    using c d b by (subst chain_cong[where N = N and P = P]) (auto split: if_splits dest: in_set_butlastD)
  with b show ?thesis by auto
qed

definition links :: "buf list \<Rightarrow> nat list \<Rightarrow> bool" where
  "links bs = chain (\<lambda>a. b_next (bs ! a)) (\<lambda>a. b_prev (bs ! a))"

text \<open>The buffers from the most to the least recently used.\<close>

definition ring :: "buf list \<Rightarrow> nat list \<Rightarrow> bool" where
  "ring bs xs \<longleftrightarrow> length bs = Suc NBUF \<and> distinct xs \<and> set xs = {..<NBUF} \<and> links bs (NBUF # xs @ [NBUF])"

lemma chase_head [simp]: "chase n link P bs NBUF = Ok None"
  by (cases n) simp_all

lemma chase_next:
  "links bs (a # ys @ [NBUF]) \<Longrightarrow> NBUF \<notin> set ys \<Longrightarrow> length ys \<le> n \<Longrightarrow>
   chase n b_next P bs (b_next (bs ! a)) = Ok (find (\<lambda>i. P (bs ! i)) ys)"
proof (induction ys arbitrary: a n)
  case (Cons y ys)
  then obtain k where k: "n = Suc k" by (cases n) auto
  have "chase k b_next P bs (b_next (bs ! y)) = Ok (find (\<lambda>i. P (bs ! i)) ys)"
    by (rule Cons.IH) (use Cons.prems k in \<open>simp_all add: links_def\<close>)
  then show ?case using Cons.prems k by (simp add: links_def)
qed (simp add: links_def)

lemma chase_prev:
  "links bs (NBUF # ys @ [z]) \<Longrightarrow> NBUF \<notin> set ys \<Longrightarrow> length ys \<le> n \<Longrightarrow>
   chase n b_prev P bs (b_prev (bs ! z)) = Ok (find (\<lambda>i. P (bs ! i)) (rev ys))"
proof (induction ys arbitrary: z n rule: rev_induct)
  case (snoc y ys)
  then obtain k where k: "n = Suc k" by (cases n) auto
  have l: "links bs (NBUF # ys @ [y])" "b_prev (bs ! z) = y"
    using snoc.prems(1) chain_append[of _ _ "NBUF # ys" y "[z]"] by (auto simp: links_def)
  have "chase k b_prev P bs (b_prev (bs ! y)) = Ok (find (\<lambda>i. P (bs ! i)) (rev ys))"
    by (rule snoc.IH[OF l(1)]) (use snoc.prems k in simp_all)
  then show ?case using snoc.prems k l by simp
qed (simp add: links_def)


section \<open>Moving to the front\<close>

lemma set_link_simps [simp]:
  "length (set_next a x bs) = length bs" "length (set_prev a x bs) = length bs"
  "i < length bs \<Longrightarrow> b_next (set_next a x bs ! i) = (if i = a then x else b_next (bs ! i))"
  "b_next (set_prev a x bs ! i) = b_next (bs ! i)"
  "i < length bs \<Longrightarrow> b_prev (set_prev a x bs ! i) = (if i = a then x else b_prev (bs ! i))"
  "b_prev (set_next a x bs ! i) = b_prev (bs ! i)"
  by (cases "a < length bs"; cases "i = a"; simp add: set_next_def set_prev_def list_update_beyond)+

text \<open>What the links leave alone.\<close>

definition core :: "buf \<Rightarrow> bool \<times> bool \<times> 32 word \<times> 32 word \<times> 32 word \<times> byte list" where
  "core k = (b_valid k, b_disk k, b_dev k, b_blockno k, b_refcnt k, b_data k)"

lemma core_links [simp]:
  "core (set_next a x bs ! i) = core (bs ! i)" "core (set_prev a x bs ! i) = core (bs ! i)"
  by (cases "a < length bs"; cases "i = a"; simp add: set_next_def set_prev_def list_update_beyond core_def)+

lemma core_move_front [simp]: "core (move_front b bs ! i) = core (bs ! i)" "length (move_front b bs) = length bs"
  by (simp_all add: move_front_def Let_def)

lemma links_cong:
  "(\<And>a. a \<in> set xs \<Longrightarrow> b_next (bs' ! a) = b_next (bs ! a) \<and> b_prev (bs' ! a) = b_prev (bs ! a)) \<Longrightarrow>
   links bs' xs = links bs xs"
  unfolding links_def by (rule chain_cong) (auto dest: in_set_butlastD, cases xs, auto)

lemma ring_cong:
  "(\<And>a. a \<le> NBUF \<Longrightarrow> b_next (bs' ! a) = b_next (bs ! a) \<and> b_prev (bs' ! a) = b_prev (bs ! a)) \<Longrightarrow>
   length bs' = length bs \<Longrightarrow> ring bs' xs = ring bs xs"
proof -
  assume a: "\<And>a. a \<le> NBUF \<Longrightarrow> b_next (bs' ! a) = b_next (bs ! a) \<and> b_prev (bs' ! a) = b_prev (bs ! a)"
    and l: "length bs' = length bs"
  have "links bs' (NBUF # xs @ [NBUF]) = links bs (NBUF # xs @ [NBUF])" if "set xs = {..<NBUF}"
    by (rule links_cong) (use that a in \<open>auto simp: less_imp_le\<close>)
  with l show ?thesis by (auto simp: ring_def)
qed

lemma move_front_ring:
  assumes "ring bs (us @ b # vs)"
  shows "ring (move_front b bs) (b # us @ vs)"
proof -
  note r = assms[unfolded ring_def]
  have len: "length bs = Suc NBUF" and di: "distinct (us @ b # vs)" and st: "set (us @ b # vs) = {..<NBUF}"
    and lk: "links bs (NBUF # (us @ b # vs) @ [NBUF])" using r by auto
  have lt: "i < NBUF" if "i \<in> set us \<or> i = b \<or> i \<in> set vs" for i using st that by auto
  define N where "N = (\<lambda>a. b_next (bs ! a))"
  define P where "P = (\<lambda>a. b_prev (bs ! a))"
  define l where "l = last (NBUF # us)"
  define q where "q = hd (vs @ [NBUF])"
  have us: "NBUF # us = butlast (NBUF # us) @ [l]" unfolding l_def by (rule append_butlast_last_id[symmetric]) simp
  have vs: "vs @ [NBUF] = q # tl (vs @ [NBUF])" by (simp add: q_def)
  have e1: "NBUF # (us @ b # vs) @ [NBUF] = butlast (NBUF # us) @ l # b # q # tl (vs @ [NBUF])"
    using us vs by (metis append.assoc append_Cons append_Nil)
  have e2: "NBUF # (us @ vs) @ [NBUF] = butlast (NBUF # us) @ l # q # tl (vs @ [NBUF])"
    using us vs by (metis append.assoc append_Cons append_Nil)
  have nb: "NBUF \<notin> set us" "NBUF \<notin> set vs" "NBUF \<noteq> b" using lt by auto
  have c1: "chain N P (butlast (NBUF # us) @ l # b # q # tl (vs @ [NBUF]))"
    using lk unfolding links_def e1 N_def P_def .
  have "chain (N(l := q)) (P(q := l)) (NBUF # (us @ vs) @ [NBUF])"
    unfolding e2
  proof (rule chain_unlink[OF c1])
    have "butlast (NBUF # (us @ b # vs) @ [NBUF]) = NBUF # us @ b # vs" "tl (NBUF # (us @ b # vs) @ [NBUF]) = us @ b # vs @ [NBUF]"
      by (simp_all add: butlast_append)
    then show "distinct (butlast (butlast (NBUF # us) @ l # b # q # tl (vs @ [NBUF])))"
      "distinct (tl (butlast (NBUF # us) @ l # b # q # tl (vs @ [NBUF])))"
      unfolding e1[symmetric] using di nb by auto
  qed
  then have c2: "chain (N(l := q)) (P(q := l)) (NBUF # hd ((us @ vs) @ [NBUF]) # tl ((us @ vs) @ [NBUF]))"
    by simp
  define c where "c = hd ((us @ vs) @ [NBUF])"
  have nq: "N b = q" "P b = l" using c1 chain_append[of N P "butlast (NBUF # us)" l "b # q # tl (vs @ [NBUF])"] by simp_all
  have nc: "(N(l := q)) NBUF = c" using c2 unfolding c_def by (simp only: chain.simps)
  have ne: "l \<noteq> b" "q \<noteq> b" "c \<noteq> b"
    using di nb by (auto simp: l_def q_def c_def hd_append split: if_splits dest: last_in_set hd_in_set)
  have ll: "l \<le> NBUF" "q \<le> NBUF" "c \<le> NBUF" "b < NBUF"
    using lt by (auto simp: l_def q_def c_def hd_append less_imp_le split: if_splits dest!: last_in_set hd_in_set)
  have fin: "chain ((N(l := q))(b := c, NBUF := b)) ((P(q := l))(b := NBUF, c := b)) (NBUF # b # c # tl ((us @ vs) @ [NBUF]))"
  proof (rule chain_insert[OF c2[folded c_def]])
    have "c # tl ((us @ vs) @ [NBUF]) = us @ vs @ [NBUF]" by (simp add: c_def)
    then show "distinct (butlast (NBUF # c # tl ((us @ vs) @ [NBUF])))" "distinct (c # tl ((us @ vs) @ [NBUF]))"
      "b \<notin> set (NBUF # c # tl ((us @ vs) @ [NBUF]))"
      using di nb by (simp_all add: butlast_append)
  qed
  have nx: "b_next (move_front b bs ! a) = ((N(l := q))(b := c, NBUF := b)) a"
    "b_prev (move_front b bs ! a) = ((P(q := l))(b := NBUF, c := b)) a" if "a \<le> NBUF" for a
  proof -
    define b1 where "b1 = set_prev q l bs"
    define b2 where "b2 = set_next l q b1"
    define b4 where "b4 = set_prev b NBUF (set_next b c b2)"
    have g: "b_next (bs ! b) = q" "b_prev (bs ! b) = l" using nq by (simp_all add: N_def P_def)
    then have g1: "b_next (b1 ! b) = q" "b_prev (b1 ! b) = l" using ne(2) ll len by (simp_all add: b1_def)
    have g2: "b_next (b2 ! NBUF) = c" using nc len by (auto simp: b2_def b1_def N_def split: if_splits)
    then have g4: "b_next (b4 ! NBUF) = c" using nb(3) len by (simp add: b4_def b2_def b1_def)
    have mf: "move_front b bs = set_next NBUF b (set_prev c b b4)"
      by (simp only: move_front_def Let_def g g1 g2 g4 b4_def[symmetric] b2_def[symmetric] b1_def[symmetric])
    show "b_next (move_front b bs ! a) = ((N(l := q))(b := c, NBUF := b)) a"
      using that len by (simp add: mf b4_def b2_def b1_def N_def)
    show "b_prev (move_front b bs ! a) = ((P(q := l))(b := NBUF, c := b)) a"
      using that len by (simp add: mf b4_def b2_def b1_def P_def)
  qed
  have "links (move_front b bs) (NBUF # (b # us @ vs) @ [NBUF])"
  proof -
    have eq: "NBUF # b # c # tl ((us @ vs) @ [NBUF]) = NBUF # (b # us @ vs) @ [NBUF]" by (simp add: c_def)
    have "links (move_front b bs) (NBUF # (b # us @ vs) @ [NBUF]) =
        chain ((N(l := q))(b := c, NBUF := b)) ((P(q := l))(b := NBUF, c := b)) (NBUF # (b # us @ vs) @ [NBUF])"
      unfolding links_def
    proof (rule chain_cong)
      fix a assume "a \<in> set (butlast (NBUF # (b # us @ vs) @ [NBUF]))"
      then have "a \<le> NBUF" using lt by (auto dest!: in_set_butlastD simp: less_imp_le)
      then show "b_next (move_front b bs ! a) = ((N(l := q))(b := c, NBUF := b)) a" by (rule nx)
    next
      fix a assume "a \<in> set (tl (NBUF # (b # us @ vs) @ [NBUF]))"
      then have "a \<le> NBUF" using lt by (auto simp: less_imp_le)
      then show "b_prev (move_front b bs ! a) = ((P(q := l))(b := NBUF, c := b)) a" by (rule nx)
    qed
    then show ?thesis using fin unfolding eq by simp
  qed
  then show ?thesis using di st len by (auto simp: ring_def)
qed


section \<open>The cache as one process sees it\<close>

text \<open>
  Between operations process \<open>p\<close> holds the buffers \<open>H\<close>, the blocks \<open>P\<close> of the device are pinned once, and
  nobody else uses the cache.  A buffer nobody refers to has what is on the disk.
\<close>

definition buf_ok :: "32 word \<Rightarrow> 32 word set \<Rightarrow> nat set \<Rightarrow> (64 word \<Rightarrow> byte list) \<Rightarrow> nat \<Rightarrow> buf \<Rightarrow> bool" where
  "buf_ok dev P H m i k \<longleftrightarrow>
     \<not> b_disk k \<and> b_refcnt k = of_bool (b_dev k = dev \<and> b_blockno k \<in> P) + of_bool (i \<in> H) \<and>
     (i \<in> H \<longrightarrow> b_dev k = dev) \<and> (b_dev k = dev \<longrightarrow> b_valid k \<and> b_blockno k < 0x80000000) \<and>
     (b_dev k = dev \<longrightarrow> b_blockno k \<notin> P \<longrightarrow> i \<notin> H \<longrightarrow> b_data k = m (sector_of (b_blockno k)))"

definition uniq :: "32 word \<Rightarrow> buf list \<Rightarrow> bool" where
  "uniq dev bs \<longleftrightarrow>
     (\<forall>i < NBUF. \<forall>j < NBUF. b_dev (bs ! i) = dev \<and> b_dev (bs ! j) = dev \<and> b_blockno (bs ! i) = b_blockno (bs ! j) \<longrightarrow> i = j)"

definition cached :: "buf list \<Rightarrow> 32 word \<Rightarrow> 32 word \<Rightarrow> nat option" where
  "cached bs dev bn = find (\<lambda>i. b_dev (bs ! i) = dev \<and> b_blockno (bs ! i) = bn) [0..<NBUF]"

definition cache :: "nat \<Rightarrow> 32 word \<Rightarrow> 32 word set \<Rightarrow> nat set \<Rightarrow> 'a disk_st_scheme \<Rightarrow> bool" where
  "cache p dev P H s \<longleftrightarrow>
     runs p s \<and> drv_idle s \<and> (\<exists>xs. ring (bufs s) xs) \<and> H \<subseteq> {..<NBUF} \<and> uniq dev (bufs s) \<and>
     (\<forall>i < NBUF. buf_ok dev P H (media s) i (bufs s ! i)) \<and>
     (\<forall>i < NBUF. (sl_locked (sleeplocks s (SL_buf i)) \<longleftrightarrow> i \<in> H) \<and>
        (i \<in> H \<longrightarrow> sl_pid (sleeplocks s (SL_buf i)) = p_pid (proc_at s p))) \<and>
     (\<forall>bn \<in> P. cached (bufs s) dev bn \<noteq> None)"

text \<open>What a block holds: the buffer's bytes where there is one, the disk's otherwise.\<close>

definition content :: "32 word \<Rightarrow> 'a disk_st_scheme \<Rightarrow> 32 word \<Rightarrow> byte list" where
  "content dev s bn = (case cached (bufs s) dev bn of Some i \<Rightarrow> b_data (bufs s ! i) | None \<Rightarrow> media s (sector_of bn))"

definition bio_only :: "'a disk_st_scheme \<Rightarrow> 'a disk_st_scheme \<Rightarrow> bool" where
  "bio_only s t \<longleftrightarrow>
     t = s\<lparr>procs := procs t, sleeplocks := sleeplocks t, bufs := bufs t, vq := vq t, media := media t, writes := writes t\<rparr> \<and>
     map pinfo (procs t) = map pinfo (procs s) \<and> (\<forall>i. sleeplocks t (SL_inode i) = sleeplocks s (SL_inode i))"

definition same_content :: "32 word \<Rightarrow> 'a disk_st_scheme \<Rightarrow> 'a disk_st_scheme \<Rightarrow> bool" where
  "same_content dev s t \<longleftrightarrow> (\<forall>n < 0x80000000. content dev t n = content dev s n)"

lemma bio_only_refl [simp]: "bio_only s s"
  by (simp add: bio_only_def)

lemma bio_only_trans: "bio_only s t \<Longrightarrow> bio_only t u \<Longrightarrow> bio_only s u"
proof -
  assume a: "bio_only s t" "bio_only t u"
  obtain pr sl bs v m w where t: "t = s\<lparr>procs := pr, sleeplocks := sl, bufs := bs, vq := v, media := m, writes := w\<rparr>"
    using a(1) unfolding bio_only_def by blast
  obtain pr' sl' bs' v' m' w' where u: "u = t\<lparr>procs := pr', sleeplocks := sl', bufs := bs', vq := v', media := m', writes := w'\<rparr>"
    using a(2) unfolding bio_only_def by blast
  have "u = s\<lparr>procs := procs u, sleeplocks := sleeplocks u, bufs := bufs u, vq := vq u, media := media u, writes := writes u\<rparr>"
    unfolding u t by (cases s) simp
  with a show ?thesis by (simp add: bio_only_def)
qed

lemma cacheD:
  assumes "cache p dev P H s"
  shows "runs p s" "drv_idle s" "\<exists>xs. ring (bufs s) xs" "length (bufs s) = Suc NBUF" "uniq dev (bufs s)"
    "i \<in> H \<Longrightarrow> i < NBUF" "i < NBUF \<Longrightarrow> buf_ok dev P H (media s) i (bufs s ! i)"
    "i < NBUF \<Longrightarrow> sl_locked (sleeplocks s (SL_buf i)) \<longleftrightarrow> i \<in> H"
    "i \<in> H \<Longrightarrow> sl_pid (sleeplocks s (SL_buf i)) = p_pid (proc_at s p)"
    "bn \<in> P \<Longrightarrow> cached (bufs s) dev bn \<noteq> None"
  using assms by (auto simp: cache_def ring_def)

lemma cached_Some: "cached bs dev bn = Some i \<Longrightarrow> i < NBUF \<and> b_dev (bs ! i) = dev \<and> b_blockno (bs ! i) = bn"
  by (auto simp: cached_def find_Some_iff)

lemma cached_None: "cached bs dev bn = None \<longleftrightarrow> (\<forall>i < NBUF. \<not> (b_dev (bs ! i) = dev \<and> b_blockno (bs ! i) = bn))"
  by (auto simp: cached_def find_None_iff)

lemma cached_uniq: "uniq dev bs \<Longrightarrow> i < NBUF \<Longrightarrow> b_dev (bs ! i) = dev \<Longrightarrow> b_blockno (bs ! i) = bn \<Longrightarrow> cached bs dev bn = Some i"
  using cached_Some[of bs dev bn] cached_None[of bs dev bn] unfolding uniq_def by (metis option.exhaust)

lemma cached_cong:
  "(\<And>i. i < NBUF \<Longrightarrow> b_dev (bs' ! i) = b_dev (bs ! i) \<and> b_blockno (bs' ! i) = b_blockno (bs ! i)) \<Longrightarrow>
   cached bs' dev bn = cached bs dev bn"
  by (auto simp: cached_def intro!: find_cong)

lemma sector_inj: "a < 0x80000000 \<Longrightarrow> b < 0x80000000 \<Longrightarrow> sector_of a = sector_of b \<Longrightarrow> a = b"
proof -
  assume lt: "a < 0x80000000" "b < 0x80000000" and e: "sector_of a = sector_of b"
  have u: "unat (x * 2) = unat x * 2" if "x < 0x80000000" for x :: "32 word"
    using that by (simp add: word_less_nat_alt unat_word_ariths)
  have c: "unat (ucast x :: 64 word) = unat x" for x :: "32 word" by transfer simp
  have "unat (a * 2) = unat (b * 2)"
    using arg_cong[OF e, of unat] by (simp add: sector_of_def c)
  then show "a = b" using u lt by (simp add: word_unat_eq_iff)
qed


section \<open>Looking a block up\<close>

lemma ring_links: "ring bs xs \<Longrightarrow> links bs (NBUF # xs @ [NBUF]) \<and> NBUF \<notin> set xs \<and> length xs = NBUF"
  using distinct_card[of xs] by (auto simp: ring_def)

lemma lookup_eq:
  assumes "ring bs xs" "uniq dev bs"
  shows "chase NBUF b_next (\<lambda>k. b_dev k = dev \<and> b_blockno k = bn) bs (b_next (bs ! NBUF)) = Ok (cached bs dev bn)"
proof -
  have "find (\<lambda>i. b_dev (bs ! i) = dev \<and> b_blockno (bs ! i) = bn) xs = cached bs dev bn"
  proof (cases "find (\<lambda>i. b_dev (bs ! i) = dev \<and> b_blockno (bs ! i) = bn) xs")
    case None
    then have "cached bs dev bn = None" using assms(1) by (auto simp: cached_None find_None_iff ring_def)
    with None show ?thesis by simp
  next
    case (Some i)
    then have "i \<in> set xs" "b_dev (bs ! i) = dev" "b_blockno (bs ! i) = bn" by (auto simp: find_Some_iff)
    moreover from this(1) have "i < NBUF" using assms(1) by (auto simp: ring_def)
    ultimately show ?thesis using Some cached_uniq[OF assms(2)] by simp
  qed
  then show ?thesis using chase_next[of bs NBUF xs NBUF] ring_links[OF assms(1)] by simp
qed

lemma victim_eq:
  assumes "ring bs xs"
  shows "chase NBUF b_prev Q bs (b_prev (bs ! NBUF)) = Ok (find (\<lambda>i. Q (bs ! i)) (rev xs))"
  using chase_prev[of bs xs NBUF NBUF] ring_links[OF assms] by simp

lemma find_mem: "find P xs = Some x \<Longrightarrow> x \<in> set xs \<and> P x"
  by (induction xs) (auto split: if_splits)

definition take_lock :: "nat \<Rightarrow> nat \<Rightarrow> 'a disk_st_scheme \<Rightarrow> 'a disk_st_scheme" where
  "take_lock p b s = upd_sleeplock (SL_buf b) (\<lambda>_. \<lparr>sl_locked = True, sl_pid = p_pid (proc_at s p)\<rparr>) s"

lemma runs_upd_buf [simp]: "runs p (upd_buf b f s) = runs p s" "proc_at (upd_buf b f s) = proc_at s"
  by (simp_all add: runs_def proc_at_def fun_eq_iff)

lemma bcache_section:
  assumes "runs p s"
  shows "bnd (acquire L_bcache s) (\<lambda>s. release L_bcache (upd_buf b f s)) = Ok (upd_buf b f s)"
    "release L_bcache (upd_buf b f (s\<lparr>held := [L_bcache]\<rparr>)) = Ok (upd_buf b f s)"
proof -
  have h: "held s = []" using runsD(4)[OF assms] .
  have "upd_buf b f (s\<lparr>held := [L_bcache]\<rparr>)\<lparr>held := []\<rparr> = upd_buf b f s"
    using h by (cases s) (simp add: upd_buf_def)
  then show "release L_bcache (upd_buf b f (s\<lparr>held := [L_bcache]\<rparr>)) = Ok (upd_buf b f s)" by simp
  then show "bnd (acquire L_bcache s) (\<lambda>s. release L_bcache (upd_buf b f s)) = Ok (upd_buf b f s)" using h by simp
qed

lemma bget_hit:
  assumes c: "cache p dev P H s" and hit: "cached (bufs s) dev bn = Some b" and b: "b \<notin> H"
  shows "bget e dev bn s = Ok (b, take_lock p b (upd_buf b (\<lambda>k. k\<lparr>b_refcnt := b_refcnt k + 1\<rparr>) s))"
proof -
  obtain xs where r: "ring (bufs s) xs" using cacheD(3)[OF c] by blast
  have run: "runs p s" by (rule cacheD(1)[OF c])
  let ?t = "upd_buf b (\<lambda>k. k\<lparr>b_refcnt := b_refcnt k + 1\<rparr>) s"
  have "\<not> sl_locked (sleeplocks ?t (SL_buf b))" using cacheD(8)[OF c, of b] cached_Some[OF hit] b by simp
  then have "acquiresleep e (SL_buf b) ?t = Ok (take_lock p b ?t)"
    unfolding take_lock_def by (intro acquiresleep_free) (simp_all add: run)
  then show ?thesis
    using runsD(4)[OF run] lookup_eq[OF r cacheD(5)[OF c], of bn] hit bcache_section(2)[OF run] by (simp add: bget_def)
qed

lemma refs_zero: "of_bool a + of_bool b = (0 :: 32 word) \<longleftrightarrow> \<not> a \<and> \<not> b"
  by (cases a; cases b) simp_all

lemma bget_miss:
  assumes c: "cache p dev P H s" and miss: "cached (bufs s) dev bn = None" and f: "i < NBUF" "b_refcnt (bufs s ! i) = 0"
  shows "\<exists>b < NBUF. b_refcnt (bufs s ! b) = 0 \<and> b \<notin> H \<and> bget e dev bn s =
    Ok (b, take_lock p b (upd_buf b (\<lambda>k. k\<lparr>b_dev := dev, b_blockno := bn, b_valid := False, b_refcnt := 1\<rparr>) s))"
proof -
  obtain xs where r: "ring (bufs s) xs" using cacheD(3)[OF c] by blast
  have run: "runs p s" by (rule cacheD(1)[OF c])
  obtain b where fb: "find (\<lambda>i. b_refcnt (bufs s ! i) = 0) (rev xs) = Some b"
    using f r by (cases "find (\<lambda>i. b_refcnt (bufs s ! i) = 0) (rev xs)") (auto simp: find_None_iff ring_def)
  then have "b \<in> set (rev xs)" and z: "b_refcnt (bufs s ! b) = 0" using find_mem[OF fb] by simp_all
  then have b: "b < NBUF" using r by (auto simp: ring_def)
  have nb: "b \<notin> H" using cacheD(7)[OF c b] z refs_zero by (auto simp: buf_ok_def)
  let ?t = "upd_buf b (\<lambda>k. k\<lparr>b_dev := dev, b_blockno := bn, b_valid := False, b_refcnt := 1\<rparr>) s"
  have "\<not> sl_locked (sleeplocks ?t (SL_buf b))" using cacheD(8)[OF c b] nb by simp
  then have "acquiresleep e (SL_buf b) ?t = Ok (take_lock p b ?t)"
    unfolding take_lock_def by (intro acquiresleep_free) (simp_all add: run)
  then have "bget e dev bn s = Ok (b, take_lock p b ?t)"
    using runsD(4)[OF run] lookup_eq[OF r cacheD(5)[OF c], of bn] miss bcache_section(2)[OF run]
      victim_eq[OF r, of "\<lambda>k. b_refcnt k = 0"] fb by (simp add: bget_def)
  with b nb z show ?thesis by blast
qed


section \<open>Each operation on the cache\<close>

lemma core_eqD: "core k = core k' \<Longrightarrow> b_valid k = b_valid k' \<and> b_disk k = b_disk k' \<and> b_dev k = b_dev k' \<and>
    b_blockno k = b_blockno k' \<and> b_refcnt k = b_refcnt k' \<and> b_data k = b_data k'"
  by (simp add: core_def)

text \<open>One buffer changed.\<close>

lemma cache_change:
  assumes c: "cache p dev P H s"
    and t: "runs p t" "drv_idle t" "\<exists>xs. ring (bufs t) xs" "map p_pid (procs t) = map p_pid (procs s)"
    and oth: "\<And>i. i < NBUF \<Longrightarrow> i \<noteq> b \<Longrightarrow> core (bufs t ! i) = core (bufs s ! i)"
    and b: "b < NBUF" "buf_ok dev P' H' (media t) b (bufs t ! b)"
    and H: "\<And>i. i \<noteq> b \<Longrightarrow> i \<in> H' \<longleftrightarrow> i \<in> H"
    and P: "\<And>i. i < NBUF \<Longrightarrow> i \<noteq> b \<Longrightarrow> b_dev (bufs s ! i) = dev \<Longrightarrow> b_blockno (bufs s ! i) \<in> P' \<longleftrightarrow> b_blockno (bufs s ! i) \<in> P"
    and M: "\<And>i. i < NBUF \<Longrightarrow> i \<noteq> b \<Longrightarrow> b_dev (bufs s ! i) = dev \<Longrightarrow>
      media t (sector_of (b_blockno (bufs s ! i))) = media s (sector_of (b_blockno (bufs s ! i)))"
    and U: "\<And>i. i < NBUF \<Longrightarrow> i \<noteq> b \<Longrightarrow> b_dev (bufs t ! b) = dev \<Longrightarrow> b_dev (bufs s ! i) = dev \<Longrightarrow>
      b_blockno (bufs s ! i) \<noteq> b_blockno (bufs t ! b)"
    and L: "\<And>i. i \<noteq> b \<Longrightarrow> sleeplocks t (SL_buf i) = sleeplocks s (SL_buf i)"
    "sl_locked (sleeplocks t (SL_buf b)) \<longleftrightarrow> b \<in> H'" "b \<in> H' \<Longrightarrow> sl_pid (sleeplocks t (SL_buf b)) = p_pid (proc_at s p)"
    and Q: "\<And>bn. bn \<in> P' \<Longrightarrow> cached (bufs t) dev bn \<noteq> None"
  shows "cache p dev P' H' t"
proof -
  note d = cacheD[OF c]
  have pid: "p_pid (proc_at t p) = p_pid (proc_at s p)"
    using t(4) runsD(2,3)[OF t(1)] runsD(3)[OF d(1)] by (metis nth_map proc_at_def)
  have sub: "H' \<subseteq> {..<NBUF}"
  proof
    fix i assume "i \<in> H'"
    then show "i \<in> {..<NBUF}" using H[of i] d(6)[of i] b(1) by (cases "i = b") auto
  qed
  have un: "uniq dev (bufs t)"
    unfolding uniq_def
  proof (intro allI impI, elim conjE)
    fix i j assume ij: "i < NBUF" "j < NBUF" "b_dev (bufs t ! i) = dev" "b_dev (bufs t ! j) = dev"
      "b_blockno (bufs t ! i) = b_blockno (bufs t ! j)"
    have o: "b_dev (bufs s ! k) = dev \<and> b_blockno (bufs s ! k) = b_blockno (bufs t ! k)"
      if "k < NBUF" "k \<noteq> b" "b_dev (bufs t ! k) = dev" for k
      using core_eqD[OF oth[OF that(1,2)]] that(3) by metis
    consider "i = b" "j = b" | "i = b" "j \<noteq> b" | "i \<noteq> b" "j = b" | "i \<noteq> b" "j \<noteq> b" by blast
    then show "i = j"
    proof cases
      case 2
      then show ?thesis using U[OF ij(2) 2(2)] o[OF ij(2) 2(2) ij(4)] ij(3,5) by metis
    next
      case 3
      then show ?thesis using U[OF ij(1) 3(1)] o[OF ij(1) 3(1) ij(3)] ij(4,5) by metis
    next
      case 4
      then show ?thesis using d(5) ij o[OF ij(1) 4(1) ij(3)] o[OF ij(2) 4(2) ij(4)] unfolding uniq_def by metis
    qed simp
  qed
  have ok: "buf_ok dev P' H' (media t) i (bufs t ! i)" if i: "i < NBUF" for i
  proof (cases "i = b")
    case False
    then show ?thesis
      using d(7)[OF i] core_eqD[OF oth[OF i]] H[OF False] P[OF i False] M[OF i False] by (auto simp: buf_ok_def)
  qed (use b in simp)
  have lk: "(sl_locked (sleeplocks t (SL_buf i)) \<longleftrightarrow> i \<in> H') \<and>
      (i \<in> H' \<longrightarrow> sl_pid (sleeplocks t (SL_buf i)) = p_pid (proc_at t p))" if i: "i < NBUF" for i
  proof (cases "i = b")
    case True
    then show ?thesis using L(2,3) pid by metis
  next
    case False
    then show ?thesis using L(1)[OF False] d(8)[OF i] d(9)[of i] H[OF False] pid by simp
  qed
  show ?thesis unfolding cache_def using t sub un ok lk Q by blast
qed

text \<open>The effect of \<open>bread\<close>.\<close>

definition got :: "nat \<Rightarrow> 32 word \<Rightarrow> 32 word set \<Rightarrow> nat set \<Rightarrow> 'a disk_st_scheme \<Rightarrow> 32 word \<Rightarrow> nat \<Rightarrow> 'a disk_st_scheme \<Rightarrow> bool" where
  "got p dev P H s bn b t \<longleftrightarrow>
     cache p dev P (insert b H) t \<and> b \<notin> H \<and> b < NBUF \<and> b_blockno (bufs t ! b) = bn \<and>
     content dev t = content dev s \<and> media t = media s \<and> writes t = writes s \<and> bio_only s t \<and>
     (\<forall>j \<in> H. b_blockno (bufs t ! j) = b_blockno (bufs s ! j))"

lemma content_at:
  "cache p dev P H s \<Longrightarrow> i < NBUF \<Longrightarrow> b_dev (bufs s ! i) = dev \<Longrightarrow> content dev s (b_blockno (bufs s ! i)) = b_data (bufs s ! i)"
  using cached_uniq[OF cacheD(5), of p dev P H s i] by (simp add: content_def)

lemma held_dev: "cache p dev P H s \<Longrightarrow> i \<in> H \<Longrightarrow> b_dev (bufs s ! i) = dev"
  using cacheD(6,7)[of p dev P H s i] by (auto simp: buf_ok_def)

lemma take_lock_simps [simp]:
  "bufs (take_lock p b s) = bufs s" "media (take_lock p b s) = media s" "writes (take_lock p b s) = writes s"
  "vq (take_lock p b s) = vq s" "procs (take_lock p b s) = procs s" "runs q (take_lock p b s) = runs q s"
  "sleeplocks (take_lock p b s) = (sleeplocks s)(SL_buf b := \<lparr>sl_locked = True, sl_pid = p_pid (proc_at s p)\<rparr>)"
  by (simp_all add: take_lock_def upd_sleeplock_def runs_def proc_at_def)

lemma drv_idle_vq: "vq t = vq s \<Longrightarrow> drv_idle t = drv_idle s"
  by (simp add: drv_idle_def)

lemma bio_only_steps [simp]:
  "bio_only s (take_lock p b (upd_buf b f s))"
  by (cases s) (simp add: bio_only_def take_lock_def upd_sleeplock_def upd_buf_def)

lemma ring_upd_buf:
  assumes "ring bs xs" "\<And>k. b_next (f k) = b_next k" "\<And>k. b_prev (f k) = b_prev k"
  shows "ring (bs[b := f (bs ! b)]) xs"
proof -
  have "length bs = Suc NBUF" using assms(1) by (simp add: ring_def)
  then show ?thesis using assms
    by (subst ring_cong[where bs = bs]) (auto simp: nth_list_update le_imp_less_Suc split: if_split, (cases "b < length bs"; simp add: nth_list_update)+)
qed


lemma bio_only_slept: "slept p s t \<Longrightarrow> bio_only s t"
proof -
  assume s: "slept p s t"
  then obtain pr v where t: "t = s\<lparr>procs := pr, vq := v\<rparr>" unfolding slept_def by blast
  have "t = s\<lparr>procs := procs t, sleeplocks := sleeplocks t, bufs := bufs t, vq := vq t, media := media t, writes := writes t\<rparr>"
    unfolding t by (cases s) simp
  moreover have "sleeplocks t = sleeplocks s" by (simp add: t)
  ultimately show ?thesis using s by (simp add: bio_only_def slept_def)
qed

lemma sleptD:
  assumes "slept p s t"
  shows "bufs t = bufs s" "media t = media s" "writes t = writes s" "sleeplocks t = sleeplocks s" "runs p t" "drv_idle t"
    "map p_pid (procs t) = map p_pid (procs s)" "map pinfo (procs t) = map pinfo (procs s)"
proof -
  obtain pr v where t: "t = s\<lparr>procs := pr, vq := v\<rparr>" using assms unfolding slept_def by blast
  show "bufs t = bufs s" "media t = media s" "writes t = writes s" "sleeplocks t = sleeplocks s" by (simp_all add: t)
  show "runs p t" "drv_idle t" "map pinfo (procs t) = map pinfo (procs s)" "map p_pid (procs t) = map p_pid (procs s)"
    using assms pinfo_pids[of "procs t" "procs s"] by (simp_all add: slept_def)
qed

lemma bio_only_upd_buf: "bio_only s t \<Longrightarrow> bio_only s (upd_buf b f t)"
proof -
  assume a: "bio_only s t"
  have "bio_only t (upd_buf b f t)" by (cases t) (simp add: bio_only_def upd_buf_def)
  with a show ?thesis by (rule bio_only_trans)
qed

context disk_env
begin

text \<open>A block in the cache.\<close>

lemma bread_hit:
  assumes c: "cache p dev P H s" and hit: "cached (bufs s) dev bn = Some b" and b: "b \<notin> H"
  shows "\<exists>t. bread e dev bn s = Ok (b, t) \<and> got p dev P H s bn b t"
proof -
  define t where "t = take_lock p b (upd_buf b (\<lambda>k. k\<lparr>b_refcnt := b_refcnt k + 1\<rparr>) s)"
  note d = cacheD[OF c]
  note h = cached_Some[OF hit]
  have bl: "b < length (bufs s)" using h d(4) by simp
  have ok: "buf_ok dev P H (media s) b (bufs s ! b)" using d(7) h by blast
  have bt: "bufs t = (bufs s)[b := (bufs s ! b)\<lparr>b_refcnt := b_refcnt (bufs s ! b) + 1\<rparr>]" by (simp add: t_def)
  have o: "core (bufs t ! i) = core (bufs s ! i)" if "i \<noteq> b" for i using that by (simp add: bt)
  have same: "cached (bufs t) dev n = cached (bufs s) dev n" for n
    by (rule cached_cong) (use bl in \<open>auto simp: bt nth_list_update\<close>)
  have data: "b_data (bufs t ! i) = b_data (bufs s ! i)" "b_blockno (bufs t ! i) = b_blockno (bufs s ! i)" for i
    using bl by (auto simp: bt nth_list_update)
  have "cache p dev P (insert b H) t"
  proof (rule cache_change[OF c, where b = b])
    show "\<exists>xs. ring (bufs t) xs" using d(3) ring_upd_buf[where f = "\<lambda>k. k\<lparr>b_refcnt := b_refcnt k + 1\<rparr>"] unfolding bt by fastforce
    show "runs p t" "drv_idle t" using d(1) drv_idle_vq[of t s] d(2) by (simp_all add: t_def)
    show "buf_ok dev P (insert b H) (media t) b (bufs t ! b)"
      using ok b h bl by (auto simp: buf_ok_def bt t_def)
    show "cached (bufs t) dev n \<noteq> None" if "n \<in> P" for n using d(10)[OF that] same by simp
    fix i assume "i < NBUF" "i \<noteq> b" "b_dev (bufs s ! i) = dev"
    then show "b_blockno (bufs s ! i) \<noteq> b_blockno (bufs t ! b)"
      using d(5) h by (auto simp: data uniq_def)
  qed (use h o in \<open>auto simp: t_def\<close>)
  moreover have "content dev t = content dev s"
    using same data by (auto simp: fun_eq_iff content_def t_def split: option.split)
  moreover have "bread e dev bn s = Ok (b, t)"
  proof -
    have "b_valid (bufs t ! b)" using ok h bl by (auto simp: buf_ok_def bt)
    then show ?thesis using bget_hit[OF c hit b, of e] by (simp add: bread_def t_def)
  qed
  moreover have "bio_only s t" by (simp add: t_def)
  ultimately show ?thesis using h b data by (auto simp: got_def t_def)
qed

text \<open>A block to be read from the disk, while some buffer is not referred to.\<close>

lemma bread_miss:
  assumes c: "cache p dev P H s" and miss: "cached (bufs s) dev bn = None" and lt: "bn < 0x80000000"
    and f: "i < NBUF" "b_refcnt (bufs s ! i) = 0"
  shows "\<exists>b t. bread e dev bn s = Ok (b, t) \<and> got p dev P H s bn b t"
proof -
  note d = cacheD[OF c]
  let ?rec = "\<lambda>k. k\<lparr>b_dev := dev, b_blockno := bn, b_valid := False, b_refcnt := 1\<rparr>"
  obtain b where b: "b < NBUF" "b_refcnt (bufs s ! b) = 0" "b \<notin> H" "bget e dev bn s = Ok (b, take_lock p b (upd_buf b ?rec s))"
    using bget_miss[OF c miss f, of e] by blast
  define s1 where "s1 = take_lock p b (upd_buf b ?rec s)"
  have bl: "b < length (bufs s)" using b(1) d(4) by simp
  have ok: "buf_ok dev P H (media s) b (bufs s ! b)" using d(7) b(1) by blast
  have np: "\<not> (b_dev (bufs s ! b) = dev \<and> b_blockno (bufs s ! b) \<in> P)"
    using ok b(2) refs_zero by (auto simp: buf_ok_def)
  have bnP: "bn \<notin> P" using d(10)[of bn] miss by blast
  have b1: "bufs s1 = (bufs s)[b := ?rec (bufs s ! b)]" by (simp add: s1_def)
  have r1: "runs p s1" "drv_idle s1" using d(1) drv_idle_vq[of s1 s] d(2) by (simp_all add: s1_def)
  have nd: "\<not> b_disk (bufs s1 ! b)" using ok bl by (simp add: b1 buf_ok_def)
  obtain s2 where s2: "virtio_disk_rw e b False s1 = Ok s2" "slept p (xfer b False s1) s2"
    using transfers[OF r1 _ nd, of False] bl b1 by auto
  note sl = sleptD[OF s2(2)]
  define t where "t = upd_buf b (\<lambda>k. k\<lparr>b_valid := True\<rparr>) s2"
  define kb where "kb = (bufs s ! b)\<lparr>b_dev := dev, b_blockno := bn, b_valid := True, b_refcnt := 1, b_data := media s (sector_of bn)\<rparr>"
  have bt: "bufs t = (bufs s)[b := kb]"
  proof -
    have "bufs s2 = (bufs s)[b := (?rec (bufs s ! b))\<lparr>b_data := media s (sector_of bn)\<rparr>]"
      using bl by (simp add: sl(1) xfer_def b1 Let_def) (simp add: s1_def)
    then show ?thesis using bl by (simp add: t_def kb_def) (cases "bufs s ! b", simp)
  qed
  have mt: "media t = media s" "writes t = writes s" "sleeplocks t = sleeplocks s1"
    by (simp_all add: t_def sl xfer_def upd_buf_def s1_def)
  have o: "bufs t ! i = bufs s ! i" if "i \<noteq> b" for i using that by (simp add: bt)
  have tb: "bufs t ! b = kb" using bl by (simp add: bt)
  have nb: "b_blockno (bufs s ! i) \<noteq> bn" if "i < NBUF" "b_dev (bufs s ! i) = dev" for i
    using miss that by (auto simp: cached_None)
  have inP: "n \<noteq> bn" "i \<noteq> b" if "n \<in> P" "cached (bufs s) dev n = Some i" for n i
    using that bnP cached_Some[OF that(2)] np by auto
  have ct: "cache p dev P (insert b H) t"
  proof (rule cache_change[OF c, where b = b])
    show "\<exists>xs. ring (bufs t) xs"
      using d(3) ring_upd_buf[where f = "\<lambda>k. k\<lparr>b_dev := dev, b_blockno := bn, b_valid := True, b_refcnt := 1,
        b_data := media s (sector_of bn)\<rparr>"] unfolding bt kb_def by fastforce
    show "runs p t" "drv_idle t" using sl drv_idle_vq[of t s2] by (simp_all add: t_def)
    show "map p_pid (procs t) = map p_pid (procs s)" using sl(7) by (simp add: t_def s1_def xfer_def)
    show "buf_ok dev P (insert b H) (media t) b (bufs t ! b)"
      using ok bnP lt by (simp add: tb kb_def buf_ok_def)
    show "cached (bufs t) dev n \<noteq> None" if n: "n \<in> P" for n
    proof -
      obtain i where i: "cached (bufs s) dev n = Some i" using d(10)[OF n] by blast
      show ?thesis using cached_Some[OF i] o[OF inP(2)[OF n i]] by (auto simp: cached_None)
    qed
  qed (use b o nb in \<open>auto simp: mt tb kb_def s1_def\<close>)
  have "content dev t n = content dev s n" for n
  proof (cases "n = bn")
    case True
    have "cached (bufs t) dev bn = Some b" by (rule cached_uniq[OF cacheD(5)[OF ct] b(1)]) (simp_all add: tb kb_def)
    then show ?thesis using True miss by (simp add: content_def tb kb_def)
  next
    case n: False
    show ?thesis
    proof (cases "cached (bufs s) dev n")
      case None
      have "cached (bufs t) dev n = None"
        unfolding cached_None
      proof (intro allI impI)
        fix i assume "i < NBUF"
        then show "\<not> (b_dev (bufs t ! i) = dev \<and> b_blockno (bufs t ! i) = n)"
          using None n o[of i] by (cases "i = b") (simp_all add: tb kb_def cached_None)
      qed
      with None show ?thesis by (simp add: content_def mt)
    next
      case (Some i)
      note ci = cached_Some[OF Some]
      show ?thesis
      proof (cases "i = b")
        case False
        have "cached (bufs t) dev n = Some i"
          by (rule cached_uniq[OF cacheD(5)[OF ct]]) (use ci o[OF False] in simp_all)
        with Some False show ?thesis by (simp add: content_def o)
      next
        case True
        have "cached (bufs t) dev n = None"
          unfolding cached_None
        proof (intro allI impI notI)
          fix j assume j: "j < NBUF" "b_dev (bufs t ! j) = dev \<and> b_blockno (bufs t ! j) = n"
          have "j \<noteq> b"
          proof
            assume "j = b"
            then have "b_blockno kb = n" using j(2) tb by metis
            with n show False by (simp add: kb_def)
          qed
          with j o[of j] have "cached (bufs s) dev n = Some j" by (intro cached_uniq[OF d(5)]) simp_all
          with Some True \<open>j \<noteq> b\<close> show False by simp
        qed
        moreover have "b_data (bufs s ! b) = media s (sector_of n)"
          using ok[unfolded buf_ok_def] ci[unfolded True] np b(3) by metis
        ultimately show ?thesis using Some True by (simp add: content_def mt)
      qed
    qed
  qed
  then have "content dev t = content dev s" by (simp add: fun_eq_iff)
  moreover have "bio_only s t"
  proof -
    have "bio_only s1 (xfer b False s1)" by (simp add: xfer_def bio_only_upd_buf)
    then have "bio_only s s2"
      using bio_only_trans[OF bio_only_trans[OF _ \<open>bio_only s1 (xfer b False s1)\<close>] bio_only_slept[OF s2(2)], of s]
      by (simp add: s1_def)
    then show ?thesis unfolding t_def by (rule bio_only_upd_buf)
  qed
  moreover have "bread e dev bn s = Ok (b, t)"
  proof -
    have "\<not> b_valid (bufs s1 ! b)" using bl by (simp add: b1)
    then show ?thesis using b(4) s2(1) by (simp add: bread_def s1_def t_def)
  qed
  moreover have "\<forall>j \<in> H. b_blockno (bufs t ! j) = b_blockno (bufs s ! j)" using b(3) o by (metis)
  ultimately show ?thesis using ct b by (auto simp: got_def mt tb kb_def)
qed

lemma bread_ok:
  assumes c: "cache p dev P H s" and lt: "bn < 0x80000000" and nh: "\<And>i. i \<in> H \<Longrightarrow> b_blockno (bufs s ! i) \<noteq> bn"
    and f: "i < NBUF" "b_refcnt (bufs s ! i) = 0"
  shows "\<exists>b t. bread e dev bn s = Ok (b, t) \<and> got p dev P H s bn b t"
proof (cases "cached (bufs s) dev bn")
  case None
  then show ?thesis using bread_miss[OF c _ lt f] by blast
next
  case (Some b)
  then have "b \<notin> H" using cached_Some[OF Some] nh by blast
  then show ?thesis using bread_hit[OF c Some] by blast
qed

text \<open>Writing a held buffer through to the disk.\<close>

lemma bwrite_ok:
  assumes c: "cache p dev P H s" and b: "b \<in> H"
  shows "\<exists>t. bwrite e b s = Ok t \<and> cache p dev P H t \<and> bufs t = bufs s \<and> same_content dev s t \<and>
    media t = (media s)(sector_of (b_blockno (bufs s ! b)) := b_data (bufs s ! b)) \<and>
    writes t = writes s @ [(sector_of (b_blockno (bufs s ! b)), b_data (bufs s ! b))] \<and> bio_only s t"
proof -
  note d = cacheD[OF c]
  have bl: "b < NBUF" "b < length (bufs s)" using d(4) d(6)[OF b] by simp_all
  have ok: "buf_ok dev P H (media s) b (bufs s ! b)" by (rule d(7)[OF bl(1)])
  obtain t where t: "virtio_disk_rw e b True s = Ok t" "slept p (xfer b True s) t"
    using transfers[OF d(1,2) bl(2), of True] ok by (auto simp: buf_ok_def)
  note sl = sleptD[OF t(2)]
  have st: "bufs t = bufs s" "sleeplocks t = sleeplocks s"
    "media t = (media s)(sector_of (b_blockno (bufs s ! b)) := b_data (bufs s ! b))"
    "writes t = writes s @ [(sector_of (b_blockno (bufs s ! b)), b_data (bufs s ! b))]"
    using sl by (simp_all add: xfer_def Let_def)
  have bw: "bwrite e b s = Ok t"
    using t(1) holdingsleep_eq[OF d(1), of "SL_buf b"] d(8)[OF bl(1)] d(9)[OF b] b by (simp add: bwrite_def)
  have dev: "b_dev (bufs s ! b) = dev" "b_blockno (bufs s ! b) < 0x80000000" using ok b by (auto simp: buf_ok_def)
  have ct: "cache p dev P H t"
  proof (rule cache_change[OF c, where b = b])
    show "map p_pid (procs t) = map p_pid (procs s)" using sl(7) by (simp add: xfer_def Let_def)
    show "buf_ok dev P H (media t) b (bufs t ! b)" using ok b by (simp add: st buf_ok_def)
    fix i assume i: "i < NBUF" "i \<noteq> b" "b_dev (bufs s ! i) = dev"
    then have ne: "b_blockno (bufs s ! i) \<noteq> b_blockno (bufs s ! b)" using d(5) bl(1) dev(1) unfolding uniq_def by metis
    then show "b_blockno (bufs s ! i) \<noteq> b_blockno (bufs t ! b)" by (simp add: st)
    have "b_blockno (bufs s ! i) < 0x80000000" using d(7)[OF i(1)] i(3) by (simp add: buf_ok_def)
    then have "sector_of (b_blockno (bufs s ! i)) \<noteq> sector_of (b_blockno (bufs s ! b))"
      using sector_inj dev(2) ne by blast
    then show "media t (sector_of (b_blockno (bufs s ! i))) = media s (sector_of (b_blockno (bufs s ! i)))"
      by (simp add: st(3))
  qed (use d sl bl b in \<open>auto simp: st\<close>)
  have "same_content dev s t"
    unfolding same_content_def
  proof (intro allI impI)
    fix n :: "32 word" assume n: "n < 0x80000000"
    show "content dev t n = content dev s n"
    proof (cases "cached (bufs s) dev n")
      case None
      then have "n \<noteq> b_blockno (bufs s ! b)" using bl(1) dev(1) unfolding cached_None by metis
      then have "sector_of n \<noteq> sector_of (b_blockno (bufs s ! b))" using sector_inj n dev(2) by blast
      with None show ?thesis by (simp add: content_def st)
    qed (simp add: content_def st)
  qed
  moreover have "bio_only s t"
  proof -
    have "bio_only s (xfer b True s)" by (cases s) (simp add: bio_only_def xfer_def Let_def)
    then show ?thesis using bio_only_trans bio_only_slept[OF t(2)] by blast
  qed
  ultimately show ?thesis using bw ct st by blast
qed

end

text \<open>Changing the bytes of a held buffer.\<close>

definition set_data :: "nat \<Rightarrow> byte list \<Rightarrow> 'a disk_st_scheme \<Rightarrow> 'a disk_st_scheme" where
  "set_data b x s = upd_buf b (\<lambda>k. k\<lparr>b_data := x\<rparr>) s"

lemma set_data_simps [simp]:
  "media (set_data b x s) = media s" "writes (set_data b x s) = writes s" "procs (set_data b x s) = procs s"
  "sleeplocks (set_data b x s) = sleeplocks s" "runs p (set_data b x s) = runs p s" "held (set_data b x s) = held s"
  "vq (set_data b x s) = vq s"
  by (simp_all add: set_data_def)

lemma set_data_ok:
  assumes c: "cache p dev P H s" and b: "b \<in> H"
  shows "cache p dev P H (set_data b x s)" and "content dev (set_data b x s) = (content dev s)(b_blockno (bufs s ! b) := x)"
    and "bufs (set_data b x s) ! b = (bufs s ! b)\<lparr>b_data := x\<rparr>" and "i \<noteq> b \<Longrightarrow> bufs (set_data b x s) ! i = bufs s ! i"
    and "bio_only s (set_data b x s)"
proof -
  let ?t = "set_data b x s"
  note d = cacheD[OF c]
  have bl: "b < NBUF" "b < length (bufs s)" using d(4) d(6)[OF b] by simp_all
  have dev: "b_dev (bufs s ! b) = dev" by (rule held_dev[OF c b])
  show tb: "bufs ?t ! b = (bufs s ! b)\<lparr>b_data := x\<rparr>" and o: "\<And>i. i \<noteq> b \<Longrightarrow> bufs ?t ! i = bufs s ! i"
    using bl by (simp_all add: set_data_def)
  have same: "cached (bufs ?t) dev n = cached (bufs s) dev n" for n
    by (rule cached_cong) (use bl in \<open>auto simp: set_data_def nth_list_update\<close>)
  show ct: "cache p dev P H ?t"
  proof (rule cache_change[OF c, where b = b])
    show "\<exists>xs. ring (bufs ?t) xs"
      using d(3) ring_upd_buf[where f = "\<lambda>k. k\<lparr>b_data := x\<rparr>"] by (fastforce simp: set_data_def)
    show "drv_idle ?t" using d(2) drv_idle_vq[of ?t s] by simp
    show "buf_ok dev P H (media ?t) b (bufs ?t ! b)" using d(7)[OF bl(1)] b by (simp add: tb buf_ok_def)
    fix i assume i: "i < NBUF" "i \<noteq> b" "b_dev (bufs s ! i) = dev"
    then show "b_blockno (bufs s ! i) \<noteq> b_blockno (bufs ?t ! b)"
      using d(5) bl(1) dev unfolding uniq_def tb by simp metis
  qed (use d bl b o same in \<open>auto simp: tb\<close>)
  have "content dev ?t n = ((content dev s)(b_blockno (bufs s ! b) := x)) n" for n
  proof (cases "n = b_blockno (bufs s ! b)")
    case True
    then show ?thesis using content_at[OF ct bl(1)] dev by (simp add: tb)
  next
    case False
    then have "cached (bufs s) dev n \<noteq> Some b" using cached_Some by blast
    then show ?thesis using False o by (auto simp: content_def same split: option.split)
  qed
  then show "content dev ?t = (content dev s)(b_blockno (bufs s ! b) := x)" by (simp add: fun_eq_iff)
  show "bio_only s ?t" unfolding set_data_def by (rule bio_only_upd_buf) simp
qed


text \<open>Changes of reference counts and links leave the contents.\<close>

lemma same_blocks:
  assumes "\<And>i. i < NBUF \<Longrightarrow> b_dev (bufs t ! i) = b_dev (bufs s ! i) \<and> b_blockno (bufs t ! i) = b_blockno (bufs s ! i) \<and>
      b_data (bufs t ! i) = b_data (bufs s ! i)"
    and "media t = media s"
  shows "cached (bufs t) dev n = cached (bufs s) dev n" "content dev t = content dev s"
proof -
  show c: "cached (bufs t) dev n = cached (bufs s) dev n" for n by (rule cached_cong) (use assms in simp)
  show "content dev t = content dev s"
    using assms cached_Some[of "bufs s" dev] by (fastforce simp: fun_eq_iff content_def c split: option.split)
qed

lemma refcnt_ok:
  assumes c: "cache p dev P H s" and b: "b \<in> H"
    and ok: "buf_ok dev P' H (media s) b ((bufs s ! b)\<lparr>b_refcnt := g (bufs s ! b)\<rparr>)"
    and P': "\<And>m. m \<noteq> b_blockno (bufs s ! b) \<Longrightarrow> m \<in> P' \<longleftrightarrow> m \<in> P"
  defines "t \<equiv> upd_buf b (\<lambda>k. k\<lparr>b_refcnt := g k\<rparr>) s"
  shows "cache p dev P' H t \<and> content dev t = content dev s \<and> media t = media s \<and> writes t = writes s \<and> bio_only s t \<and>
    (\<forall>i. b_blockno (bufs t ! i) = b_blockno (bufs s ! i) \<and> b_data (bufs t ! i) = b_data (bufs s ! i))"
proof -
  note d = cacheD[OF c]
  have bl: "b < NBUF" "b < length (bufs s)" using d(4) d(6)[OF b] by simp_all
  have dev: "b_dev (bufs s ! b) = dev" by (rule held_dev[OF c b])
  have bt: "bufs t = (bufs s)[b := (bufs s ! b)\<lparr>b_refcnt := g (bufs s ! b)\<rparr>]" by (simp add: t_def)
  have al: "b_dev (bufs t ! i) = b_dev (bufs s ! i) \<and> b_blockno (bufs t ! i) = b_blockno (bufs s ! i) \<and>
      b_data (bufs t ! i) = b_data (bufs s ! i)" for i using bl by (simp add: bt nth_list_update)
  note sb = same_blocks[of t s, OF al]
  have mt: "media t = media s" by (simp add: t_def)
  have un: "b_blockno (bufs s ! i) \<noteq> b_blockno (bufs s ! b)" if "i < NBUF" "i \<noteq> b" "b_dev (bufs s ! i) = dev" for i
    using that d(5) bl(1) dev unfolding uniq_def by metis
  have "cache p dev P' H t"
  proof (rule cache_change[OF c, where b = b])
    show "\<exists>xs. ring (bufs t) xs"
      using d(3) ring_upd_buf[where f = "\<lambda>k. k\<lparr>b_refcnt := g k\<rparr>"] unfolding bt by fastforce
    show "runs p t" "drv_idle t" using d(1,2) drv_idle_vq[of t s] by (simp_all add: t_def)
    show "buf_ok dev P' H (media t) b (bufs t ! b)" using ok bl by (simp add: bt mt)
    show "cached (bufs t) dev m \<noteq> None" if "m \<in> P'" for m
      using that d(10)[of m] P'[of m] cached_uniq[OF d(5) bl(1) dev refl] sb(1)[OF mt]
      by (cases "m = b_blockno (bufs s ! b)") auto
    show "core (bufs t ! i) = core (bufs s ! i)" if "i \<noteq> b" for i using that by (simp add: bt)
  qed (use un al bl b P' d(8)[OF bl(1)] d(9)[OF b] in \<open>auto simp: t_def\<close>)
  moreover have "bio_only s t" unfolding t_def by (rule bio_only_upd_buf) simp
  ultimately show ?thesis using al sb(2)[OF mt] by (auto simp: t_def)
qed

lemma bpin_ok:
  assumes c: "cache p dev P H s" and b: "b \<in> H" and n: "b_blockno (bufs s ! b) \<notin> P"
  shows "\<exists>t. bpin b s = Ok t \<and> cache p dev (insert (b_blockno (bufs s ! b)) P) H t \<and> content dev t = content dev s \<and>
    media t = media s \<and> writes t = writes s \<and> bio_only s t \<and>
    (\<forall>i. b_blockno (bufs t ! i) = b_blockno (bufs s ! i) \<and> b_data (bufs t ! i) = b_data (bufs s ! i))"
proof -
  have "buf_ok dev (insert (b_blockno (bufs s ! b)) P) H (media s) b ((bufs s ! b)\<lparr>b_refcnt := b_refcnt (bufs s ! b) + 1\<rparr>)"
    using cacheD(7)[OF c cacheD(6)[OF c b]] n b by (auto simp: buf_ok_def)
  note r = refcnt_ok[OF c b, where g = "\<lambda>k. b_refcnt k + 1", OF this]
  show ?thesis unfolding bpin_def bcache_section(1)[OF cacheD(1)[OF c]] using r by simp
qed

lemma bunpin_ok:
  assumes c: "cache p dev P H s" and b: "b \<in> H" and n: "b_blockno (bufs s ! b) \<in> P"
  shows "\<exists>t. bunpin b s = Ok t \<and> cache p dev (P - {b_blockno (bufs s ! b)}) H t \<and> content dev t = content dev s \<and>
    media t = media s \<and> writes t = writes s \<and> bio_only s t \<and>
    (\<forall>i. b_blockno (bufs t ! i) = b_blockno (bufs s ! i) \<and> b_data (bufs t ! i) = b_data (bufs s ! i))"
proof -
  have "buf_ok dev (P - {b_blockno (bufs s ! b)}) H (media s) b ((bufs s ! b)\<lparr>b_refcnt := b_refcnt (bufs s ! b) - 1\<rparr>)"
    using cacheD(7)[OF c cacheD(6)[OF c b]] n b by (auto simp: buf_ok_def)
  note r = refcnt_ok[OF c b, where g = "\<lambda>k. b_refcnt k - 1", OF this]
  show ?thesis unfolding bunpin_def bcache_section(1)[OF cacheD(1)[OF c]] using r by simp
qed

text \<open>Letting go of a buffer that is pinned or has what is on the disk.\<close>

lemma brelse_ok:
  assumes c: "cache p dev P H s" and b: "b \<in> H"
    and cl: "b_blockno (bufs s ! b) \<in> P \<or> b_data (bufs s ! b) = media s (sector_of (b_blockno (bufs s ! b)))"
  shows "\<exists>t. brelse b s = Ok t \<and> cache p dev P (H - {b}) t \<and> content dev t = content dev s \<and>
    media t = media s \<and> writes t = writes s \<and> bio_only s t \<and>
    (\<forall>i. b_blockno (bufs t ! i) = b_blockno (bufs s ! i) \<and> b_data (bufs t ! i) = b_data (bufs s ! i))"
proof -
  note d = cacheD[OF c]
  have bl: "b < NBUF" "b < length (bufs s)" using d(4) d(6)[OF b] by simp_all
  have dev: "b_dev (bufs s ! b) = dev" by (rule held_dev[OF c b])
  have ok: "buf_ok dev P H (media s) b (bufs s ! b)" by (rule d(7)[OF bl(1)])
  obtain xs where xs: "ring (bufs s) xs" using d(3) by blast
  let ?f = "\<lambda>k. k\<lparr>b_refcnt := b_refcnt k - 1\<rparr>"
  define b1 where "b1 = (bufs s)[b := ?f (bufs s ! b)]"
  define b2 where "b2 = (if b_refcnt (b1 ! b) = 0 then move_front b b1 else b1)"
  define s1 where "s1 = woke (Ch_sleeplock (SL_buf b)) (upd_sleeplock (SL_buf b) (\<lambda>_. free_lock) s)"
  define t where "t = s1\<lparr>bufs := b2\<rparr>"
  have r1': "runs p s1" using d(1) unfolding s1_def by (intro runs_woke) (simp add: runs_def upd_sleeplock_def proc_at_def)
  have rl: "releasesleep (SL_buf b) s = Ok s1" unfolding s1_def by (rule releasesleep_eq[OF d(1)])
  have bs1: "bufs s1 = bufs s" "media s1 = media s" "writes s1 = writes s" "vq s1 = vq s" "held s1 = []"
    using runsD(4)[OF r1'] by (simp_all add: s1_def woke_def upd_sleeplock_def)
  have run: "brelse b s = Ok t"
  proof -
    have "s1\<lparr>bufs := b2, held := []\<rparr> = s1\<lparr>bufs := b2\<rparr>" using bs1(5) by (cases s1) simp
    then have "release L_bcache ((upd_buf b ?f (s1\<lparr>held := [L_bcache]\<rparr>))\<lparr>bufs := b2\<rparr>) = Ok t"
      "release L_bcache (s1\<lparr>held := [L_bcache], bufs := b2\<rparr>) = Ok t"
      by (simp_all add: t_def upd_buf_def)
    moreover have "b_refcnt (b1 ! b) \<noteq> 0 \<Longrightarrow> b2 = b1" "b_refcnt (b1 ! b) = 0 \<Longrightarrow> move_front b b1 = b2" by (simp_all add: b2_def)
    moreover have "bufs (upd_buf b ?f (s1\<lparr>held := [L_bcache]\<rparr>)) = b1" by (simp add: bs1 b1_def)
    ultimately show ?thesis
      using holdingsleep_eq[OF d(1), of "SL_buf b"] d(8)[OF bl(1)] d(9)[OF b] b rl bs1(5)
      by (cases "b_refcnt (b1 ! b) = 0") (simp_all add: brelse_def Let_def upd_buf_def bs1 flip: b1_def)
  qed
  have co: "core (b2 ! i) = core (b1 ! i)" for i by (simp add: b2_def)
  have bt: "core (bufs t ! i) = core (if i = b then ?f (bufs s ! b) else bufs s ! i)" for i
    using bl by (simp add: t_def co) (simp add: b1_def)
  have al: "b_dev (bufs t ! i) = b_dev (bufs s ! i) \<and> b_blockno (bufs t ! i) = b_blockno (bufs s ! i) \<and>
      b_data (bufs t ! i) = b_data (bufs s ! i)" for i using core_eqD[OF bt[of i]] by (cases "i = b") simp_all
  have mt: "media t = media s" "writes t = writes s" "vq t = vq s" "procs t = procs s1" "sleeplocks t = sleeplocks s1"
    by (simp_all add: t_def bs1)
  note sb = same_blocks[of t s, OF al mt(1)]
  have un: "b_blockno (bufs s ! i) \<noteq> b_blockno (bufs s ! b)" if "i < NBUF" "i \<noteq> b" "b_dev (bufs s ! i) = dev" for i
    using that d(5) bl(1) dev unfolding uniq_def by metis
  have ct: "cache p dev P (H - {b}) t"
  proof (rule cache_change[OF c, where b = b])
    have r1: "ring b1 xs" using ring_upd_buf[where f = ?f, OF xs] by (simp add: b1_def)
    obtain us vs where "xs = us @ b # vs" using xs bl(1) split_list[of b xs] by (auto simp: ring_def)
    with r1 move_front_ring[of b1 us b vs] show "\<exists>xs. ring (bufs t) xs" by (auto simp: t_def b2_def)
    show "runs p t" using r1' by (simp add: t_def runs_def proc_at_def)
    show "drv_idle t" using d(2) drv_idle_vq[of t s] mt(3) by simp
    show "map p_pid (procs t) = map p_pid (procs s)" by (simp add: mt s1_def woke_def)
    show "buf_ok dev P (H - {b}) (media t) b (bufs t ! b)"
      using ok b cl core_eqD[OF bt[of b]] by (auto simp: buf_ok_def mt)
    show "cached (bufs t) dev m \<noteq> None" if "m \<in> P" for m using that d(10)[of m] sb(1) by auto
    show "core (bufs t ! i) = core (bufs s ! i)" if "i \<noteq> b" for i using that by (simp add: bt)
  qed (use un al bl in \<open>auto simp: mt s1_def woke_def upd_sleeplock_def free_lock_def\<close>)
  have "bio_only s t"
  proof -
    have "bio_only s s1" by (cases s) (simp add: bio_only_def s1_def woke_def upd_sleeplock_def)
    moreover have "bio_only s1 t" by (cases s1) (simp add: bio_only_def t_def)
    ultimately show ?thesis by (rule bio_only_trans)
  qed
  with run ct sb(2) mt al show ?thesis by blast
qed


section \<open>Setting up\<close>

definition link_front :: "nat \<Rightarrow> buf list \<Rightarrow> buf list" where
  "link_front b bs =
     (let bs = set_prev b NBUF (set_next b (b_next (bs ! NBUF)) bs) in set_next NBUF b (set_prev (b_next (bs ! NBUF)) b bs))"

lemma link_front_links:
  assumes len: "length bs = Suc NBUF" and l: "links bs (NBUF # ys @ [NBUF])"
    and ys: "distinct ys" "set ys \<subseteq> {..<NBUF}" "b < NBUF" "b \<notin> set ys"
  shows "links (link_front b bs) (NBUF # (b # ys) @ [NBUF])"
proof -
  define N where "N = (\<lambda>a. b_next (bs ! a))"
  define P where "P = (\<lambda>a. b_prev (bs ! a))"
  define c where "c = hd (ys @ [NBUF])"
  have cs: "ys @ [NBUF] = c # tl (ys @ [NBUF])" by (simp add: c_def)
  have ch: "chain N P (NBUF # c # tl (ys @ [NBUF]))"
    unfolding cs[symmetric] using l by (simp add: links_def N_def P_def)
  have nc: "b_next (bs ! NBUF) = c" using ch by (simp only: chain.simps N_def)
  have b: "NBUF \<notin> set ys" "NBUF \<noteq> b" using ys by auto
  have cb: "c \<noteq> b" "c \<le> NBUF" using ys by (cases ys; auto simp: c_def)+
  have "chain (N(b := c, NBUF := b)) (P(b := NBUF, c := b)) (NBUF # b # c # tl (ys @ [NBUF]))"
  proof (rule chain_insert[OF ch])
    show "distinct (butlast (NBUF # c # tl (ys @ [NBUF])))" "distinct (c # tl (ys @ [NBUF]))" "b \<notin> set (NBUF # c # tl (ys @ [NBUF]))"
      unfolding cs[symmetric] using ys b by (simp_all add: butlast_append)
  qed
  then have "chain (N(b := c, NBUF := b)) (P(b := NBUF, c := b)) (NBUF # (b # ys) @ [NBUF])"
    unfolding cs[symmetric] by simp
  moreover have nx: "b_next (link_front b bs ! a) = (N(b := c, NBUF := b)) a"
    "b_prev (link_front b bs ! a) = (P(b := NBUF, c := b)) a" if "a \<le> NBUF" for a
    using that len nc b cb ys(3) by (simp_all add: link_front_def Let_def N_def P_def)
  moreover have le: "a \<le> NBUF" if "a \<in> set (NBUF # (b # ys) @ [NBUF])" for a using that ys by auto
  have "links (link_front b bs) (NBUF # (b # ys) @ [NBUF]) =
      chain (N(b := c, NBUF := b)) (P(b := NBUF, c := b)) (NBUF # (b # ys) @ [NBUF])"
    unfolding links_def
  proof (rule chain_cong)
    show "b_next (link_front b bs ! a) = (N(b := c, NBUF := b)) a"
      if "a \<in> set (butlast (NBUF # (b # ys) @ [NBUF]))" for a
      by (rule nx(1), rule le, rule in_set_butlastD[OF that])
    show "b_prev (link_front b bs ! a) = (P(b := NBUF, c := b)) a"
      if "a \<in> set (tl (NBUF # (b # ys) @ [NBUF]))" for a
      by (rule nx(2), rule le) (use that in simp)
  qed
  ultimately show ?thesis by blast
qed

text \<open>After \<open>binit\<close> the ring is complete, the last buffer first.\<close>

lemma binit_ring:
  assumes "length (bufs s) = Suc NBUF"
  shows "ring (bufs (binit s)) (rev [0..<NBUF])"
proof -
  define body where "body = (\<lambda>(s :: 'a disk_st_scheme) b.
        let s = s\<lparr>bufs := set_next b (b_next (bufs s ! NBUF)) (bufs s)\<rparr>;
            s = s\<lparr>bufs := set_prev b NBUF (bufs s)\<rparr>;
            s = initsleeplock (SL_buf b) s;
            s = s\<lparr>bufs := set_prev (b_next (bufs s ! NBUF)) b (bufs s)\<rparr>
        in s\<lparr>bufs := set_next NBUF b (bufs s)\<rparr>)"
  have step: "bufs (body t b) = link_front b (bufs t)" for t b
    by (simp add: body_def Let_def link_front_def initsleeplock_def upd_sleeplock_def)
  define s0 where "s0 = s\<lparr>bufs := set_next NBUF NBUF (set_prev NBUF NBUF (bufs s))\<rparr>"
  have "k \<le> NBUF \<Longrightarrow> length (bufs (foldl body s0 [0..<k])) = Suc NBUF \<and>
      links (bufs (foldl body s0 [0..<k])) (NBUF # rev [0..<k] @ [NBUF])" for k
  proof (induction k)
    case 0
    then show ?case using assms by (simp add: s0_def links_def)
  next
    case (Suc k)
    have "length (link_front b bs) = length bs" for b bs by (simp add: link_front_def Let_def)
    moreover have "set (rev [0..<k]) \<subseteq> {..<NBUF}" using Suc.prems by auto
    ultimately show ?case using Suc link_front_links[of "bufs (foldl body s0 [0..<k])" "rev [0..<k]" k] by (simp add: step)
  qed
  from this[of NBUF] have "ring (bufs (foldl body s0 [0..<NBUF])) (rev [0..<NBUF])" by (auto simp: ring_def)
  then show ?thesis by (simp add: binit_def Let_def body_def s0_def)
qed

end
