(* ===== verification/K_Log.thy ===== *)
theory K_Log
  imports K_Bio
begin

text \<open>
  \<open>xv6/kernel/log.c\<close>: the write-ahead log.  After the code, what recovery does to a disk is stated as a
  function of the disk alone; the code is proved to implement it, and the writes of a commit are shown
  to be all or nothing at whatever write the machine stops.
\<close>

section \<open>The state\<close>

definition LOGBLOCKS :: nat where "LOGBLOCKS = 30"

definition MAXOPBLOCKS :: int where "MAXOPBLOCKS = 10"

text \<open>\<open>struct superblock\<close> of \<open>fs.h\<close>.\<close>

record superblock =
  sb_magic :: "32 word"
  sb_size :: "32 word"
  sb_nblocks :: "32 word"
  sb_ninodes :: "32 word"
  sb_nlog :: "32 word"
  sb_logstart :: "32 word"
  sb_inodestart :: "32 word"
  sb_bmapstart :: "32 word"

text \<open>\<open>struct logheader\<close>; the block numbers are \<open>int\<close> in the code and used as \<open>uint\<close>.\<close>

record logheader =
  lh_n :: int
  lh_block :: "32 word list"

record logv =
  lg_start :: "32 word"
  lg_outstanding :: int
  lg_committing :: bool
  lg_dev :: "32 word"
  lg_ncommit :: int
  lg_lh :: logheader

record log_st = disk_st +
  klog :: logv

definition upd_lh :: "(logheader \<Rightarrow> logheader) \<Rightarrow> 'a log_st_scheme \<Rightarrow> 'a log_st_scheme" where
  "upd_lh f s = s\<lparr>klog := (klog s)\<lparr>lg_lh := f (lg_lh (klog s))\<rparr>\<rparr>"

text \<open>The little-endian words of a block.\<close>

definition get32 :: "byte list \<Rightarrow> nat \<Rightarrow> 32 word" where
  "get32 d i = ucast (d ! (4 * i)) OR push_bit 8 (ucast (d ! (4 * i + 1))) OR
     push_bit 16 (ucast (d ! (4 * i + 2))) OR push_bit 24 (ucast (d ! (4 * i + 3)))"

definition put32 :: "nat \<Rightarrow> 32 word \<Rightarrow> byte list \<Rightarrow> byte list" where
  "put32 i w d = d[4 * i := ucast w, 4 * i + 1 := ucast (drop_bit 8 w),
     4 * i + 2 := ucast (drop_bit 16 w), 4 * i + 3 := ucast (drop_bit 24 w)]"

section \<open>The code\<close>

text \<open>\<open>log.start + tail + 1\<close>, an \<open>int\<close> passed as a \<open>uint\<close>.\<close>

definition log_block :: "'a log_st_scheme \<Rightarrow> nat \<Rightarrow> 32 word" where
  "log_block s tail = lg_start (klog s) + of_nat tail + 1"

definition home_block :: "'a log_st_scheme \<Rightarrow> nat \<Rightarrow> 32 word" where
  "home_block s tail = lh_block (lg_lh (klog s)) ! tail"

definition install_one :: "'a log_st_scheme kenv \<Rightarrow> bool \<Rightarrow> nat \<Rightarrow> 'a log_st_scheme \<Rightarrow> 'a log_st_scheme res" where
  "install_one e recovering tail s =
     bnd (guard (tail < LOGBLOCKS) ''lh.block'') (\<lambda>_.
     bnd (if recovering
          then printk (''recovering tail %d dst %d'' @ nl) [A32 (of_nat tail), A32 (home_block s tail)] s
          else Ok s) (\<lambda>s.
     bnd (bread e (lg_dev (klog s)) (log_block s tail) s) (\<lambda>(lbuf, s).
     bnd (bread e (lg_dev (klog s)) (home_block s tail) s) (\<lambda>(dbuf, s).
     bnd (bwrite e dbuf (set_data dbuf (b_data (bufs s ! lbuf)) s)) (\<lambda>s.
     bnd (if \<not> recovering then bunpin dbuf s else Ok s) (\<lambda>s.
     bnd (brelse lbuf s) (brelse dbuf)))))))"

definition install_trans :: "'a log_st_scheme kenv \<Rightarrow> bool \<Rightarrow> 'a log_st_scheme \<Rightarrow> 'a log_st_scheme res" where
  "install_trans e recovering s =
     for_each (install_one e recovering) [0..<nat (lh_n (lg_lh (klog s)))] s"

definition read_head :: "'a log_st_scheme kenv \<Rightarrow> 'a log_st_scheme \<Rightarrow> 'a log_st_scheme res" where
  "read_head e s =
     bnd (bread e (lg_dev (klog s)) (lg_start (klog s)) s) (\<lambda>(b, s).
       let lh = b_data (bufs s ! b);
           s = upd_lh (\<lambda>h. h\<lparr>lh_n := sint (get32 lh 0)\<rparr>) s in
       bnd (for_each (\<lambda>i s.
              bnd (guard (i < LOGBLOCKS) ''lh.block'') (\<lambda>_.
                Ok (upd_lh (\<lambda>h. h\<lparr>lh_block := (lh_block h)[i := get32 lh (Suc i)]\<rparr>) s)))
            [0..<nat (lh_n (lg_lh (klog s)))] s)
         (brelse b))"

text \<open>The header as it is written over what the buffer held.\<close>

definition put_head :: "logheader \<Rightarrow> byte list \<Rightarrow> byte list" where
  "put_head h d = foldl (\<lambda>d i. put32 (Suc i) (lh_block h ! i) d) (put32 0 (word_of_int (lh_n h)) d) [0..<nat (lh_n h)]"

definition write_head :: "'a log_st_scheme kenv \<Rightarrow> 'a log_st_scheme \<Rightarrow> 'a log_st_scheme res" where
  "write_head e s =
     bnd (bread e (lg_dev (klog s)) (lg_start (klog s)) s) (\<lambda>(b, s).
     bnd (guard (nat (lh_n (lg_lh (klog s))) \<le> LOGBLOCKS) ''lh.block'') (\<lambda>_.
     bnd (bwrite e b (set_data b (put_head (lg_lh (klog s)) (b_data (bufs s ! b))) s)) (brelse b)))"

definition recover_from_log :: "'a log_st_scheme kenv \<Rightarrow> 'a log_st_scheme \<Rightarrow> 'a log_st_scheme res" where
  "recover_from_log e s =
     bnd (read_head e s) (\<lambda>s.
     bnd (install_trans e True s) (\<lambda>s.
       write_head e (upd_lh (\<lambda>h. h\<lparr>lh_n := 0\<rparr>) s)))"

text \<open>\<open>sizeof(struct logheader)\<close> is 124.\<close>

definition initlog :: "'a log_st_scheme kenv \<Rightarrow> 32 word \<Rightarrow> superblock \<Rightarrow> 'a log_st_scheme \<Rightarrow> 'a log_st_scheme res" where
  "initlog e dev sb s =
     bnd (assertk (\<not> (1024 :: nat) \<le> 124) ''initlog: too big logheader'') (\<lambda>_.
       recover_from_log e (s\<lparr>klog := (klog s)\<lparr>lg_start := sb_logstart sb, lg_dev := dev\<rparr>\<rparr>))"

fun begin_loop :: "nat \<Rightarrow> 'a log_st_scheme kenv \<Rightarrow> 'a log_st_scheme \<Rightarrow> 'a log_st_scheme res" where
  "begin_loop 0 e s = Spin"
| "begin_loop (Suc n) e s =
     (if lg_committing (klog s) then bnd (sleep_on e Ch_log L_log s) (begin_loop n e)
      else if int LOGBLOCKS < lh_n (lg_lh (klog s)) + (lg_outstanding (klog s) + 1) * MAXOPBLOCKS
      then bnd (sleep_on e Ch_log L_log s) (begin_loop n e)
      else release L_log (s\<lparr>klog := (klog s)\<lparr>lg_outstanding := lg_outstanding (klog s) + 1\<rparr>\<rparr>))"

definition begin_op :: "'a log_st_scheme kenv \<Rightarrow> 'a log_st_scheme \<Rightarrow> 'a log_st_scheme res" where
  "begin_op e s = bnd (acquire L_log s) (begin_loop (patience e) e)"

definition write_log_one :: "'a log_st_scheme kenv \<Rightarrow> nat \<Rightarrow> 'a log_st_scheme \<Rightarrow> 'a log_st_scheme res" where
  "write_log_one e tail s =
     bnd (guard (tail < LOGBLOCKS) ''lh.block'') (\<lambda>_.
     bnd (bread e (lg_dev (klog s)) (log_block s tail) s) (\<lambda>(to, s).
     bnd (bread e (lg_dev (klog s)) (home_block s tail) s) (\<lambda>(from, s).
     bnd (bwrite e to (set_data to (b_data (bufs s ! from)) s)) (\<lambda>s.
     bnd (brelse from s) (brelse to)))))"

definition write_log :: "'a log_st_scheme kenv \<Rightarrow> 'a log_st_scheme \<Rightarrow> 'a log_st_scheme res" where
  "write_log e s = for_each (write_log_one e) [0..<nat (lh_n (lg_lh (klog s)))] s"

definition commit :: "'a log_st_scheme kenv \<Rightarrow> 'a log_st_scheme \<Rightarrow> 'a log_st_scheme res" where
  "commit e s =
     (if 0 < lh_n (lg_lh (klog s)) then
        bnd (write_log e s) (\<lambda>s.
        bnd (write_head e s) (\<lambda>s.
        bnd (install_trans e False s) (\<lambda>s.
          write_head e (upd_lh (\<lambda>h. h\<lparr>lh_n := 0\<rparr>) s))))
      else Ok s)"

definition end_op :: "'a log_st_scheme kenv \<Rightarrow> 'a log_st_scheme \<Rightarrow> 'a log_st_scheme res" where
  "end_op e s =
     bnd (acquire L_log s) (\<lambda>s.
       let s = s\<lparr>klog := (klog s)\<lparr>lg_outstanding := lg_outstanding (klog s) - 1\<rparr>\<rparr> in
       bnd (assertk (\<not> lg_committing (klog s)) ''log.committing'') (\<lambda>_.
         let do_commit = lg_outstanding (klog s) = 0 in
         bnd (if do_commit then Ok (s\<lparr>klog := (klog s)\<lparr>lg_committing := True\<rparr>\<rparr>) else wakeup (Some Ch_log) s) (\<lambda>s.
         bnd (release L_log s) (\<lambda>s.
           if do_commit then
             bnd (commit e s) (\<lambda>s.
             bnd (acquire L_log s) (\<lambda>s.
             bnd (sadd32 (lg_ncommit (klog s)) 1) (\<lambda>nc.
             bnd (wakeup (Some Ch_log) (s\<lparr>klog := (klog s)\<lparr>lg_committing := False, lg_ncommit := nc\<rparr>\<rparr>))
               (release L_log))))
           else Ok s))))"

text \<open>The index in the header a block goes to: its own if it is there, else the next.\<close>

definition log_slot :: "32 word \<Rightarrow> logheader \<Rightarrow> nat" where
  "log_slot bn h =
     (case find (\<lambda>i. lh_block h ! i = bn) [0..<nat (lh_n h)] of None \<Rightarrow> nat (lh_n h) | Some i \<Rightarrow> i)"

definition log_write :: "nat \<Rightarrow> 'a log_st_scheme \<Rightarrow> 'a log_st_scheme res" where
  "log_write b s =
     bnd (acquire L_log s) (\<lambda>s.
     bnd (assertk (lh_n (lg_lh (klog s)) < int LOGBLOCKS) ''too big a transaction'') (\<lambda>_.
     bnd (assertk (1 \<le> lg_outstanding (klog s)) ''log_write outside of trans'') (\<lambda>_.
       let bn = b_blockno (bufs s ! b);
           i = log_slot bn (lg_lh (klog s));
           s = upd_lh (\<lambda>h. h\<lparr>lh_block := (lh_block h)[i := bn]\<rparr>) s in
       bnd (if int i = lh_n (lg_lh (klog s))
            then bnd (bpin b s) (\<lambda>s. Ok (upd_lh (\<lambda>h. h\<lparr>lh_n := lh_n h + 1\<rparr>) s))
            else Ok s) (release L_log))))"

definition sys_sync :: "'a log_st_scheme kenv \<Rightarrow> 'a log_st_scheme \<Rightarrow> (64 word \<times> 'a log_st_scheme) res" where
  "sys_sync e s =
     bnd (acquire L_log s) (\<lambda>s.
     bnd (if lg_committing (klog s) \<or> 0 < lg_outstanding (klog s)
          then bnd (sadd32 (lg_ncommit (klog s)) 1) (\<lambda>n.
            wait_while (patience e) (\<lambda>s. lg_ncommit (klog s) < n) (sleep_on e Ch_log L_log) s)
          else Ok s) (\<lambda>s.
     bnd (release L_log s) (\<lambda>s. Ok (0, s))))"

section \<open>Words in a block\<close>

lemma put32_length [simp]: "length (put32 i w d) = length d"
  by (simp add: put32_def)

lemma get32_put32:
  assumes "4 * i + 3 < length d" shows "get32 (put32 i w d) i = w"
proof -
  have b: "bit (ucast (x :: 32 word) :: byte) k = (k < 8 \<and> bit x k)" for x k
    by (auto simp: bit_simps)
  show ?thesis
  proof (rule bit_word_eqI)
    fix n assume n: "n < LENGTH(32)"
    then consider "n < 8" | "8 \<le> n" "n < 16" | "16 \<le> n" "n < 24" | "24 \<le> n" "n < 32" by fastforce
    then show "bit (get32 (put32 i w d) i) n = bit w n"
      using assms by cases (auto simp: get32_def put32_def bit_simps)
  qed
qed

lemma get32_other: "i \<noteq> j \<Longrightarrow> get32 (put32 i w d) j = get32 d j"
proof -
  assume ne: "i \<noteq> j"
  have k: "put32 i w d ! k = d ! k" if "k \<noteq> 4 * i" "k \<noteq> 4 * i + 1" "k \<noteq> 4 * i + 2" "k \<noteq> 4 * i + 3" for k
    using that by (simp add: put32_def)
  have "4 * j + a \<noteq> 4 * i + b" if "a < 4" "b < 4" for a b :: nat using ne that by presburger
  from this[of 0 0] this[of 0 1] this[of 0 2] this[of 0 3] this[of 1 0] this[of 1 1] this[of 1 2] this[of 1 3]
    this[of 2 0] this[of 2 1] this[of 2 2] this[of 2 3] this[of 3 0] this[of 3 1] this[of 3 2] this[of 3 3]
  show ?thesis by (simp add: get32_def k)
qed


section \<open>Two buffers at a time\<close>

lemma free_buf:
  assumes c: "cache p dev P H s" and f: "finite P" "card P + card H < NBUF"
  shows "\<exists>i < NBUF. b_refcnt (bufs s ! i) = 0"
proof (rule ccontr)
  assume n: "\<not> (\<exists>i < NBUF. b_refcnt (bufs s ! i) = 0)"
  define A where "A = {i. i < NBUF \<and> b_dev (bufs s ! i) = dev \<and> b_blockno (bufs s ! i) \<in> P}"
  have "i \<in> A \<union> H" if i: "i < NBUF" for i
    using cacheD(7)[OF c i] n i by (auto simp: A_def buf_ok_def refs_zero)
  then have sub: "{..<NBUF} \<subseteq> A \<union> H" by auto
  have "inj_on (\<lambda>i. b_blockno (bufs s ! i)) A"
    using cacheD(5)[OF c] by (auto simp: A_def inj_on_def uniq_def)
  moreover have "(\<lambda>i. b_blockno (bufs s ! i)) ` A \<subseteq> P" by (auto simp: A_def)
  ultimately have "card A \<le> card P" using f(1) by (rule card_inj_on_le)
  moreover have fin: "finite A" "finite H" using cacheD(6)[OF c] by (auto simp: A_def intro: finite_subset[of H "{..<NBUF}"])
  moreover have "NBUF \<le> card (A \<union> H)" using card_mono[OF _ sub] fin by simp
  ultimately show False using f(2) card_Un_le[of A H] by linarith
qed

lemma bio_only_klog: "bio_only s t \<Longrightarrow> klog t = klog s"
proof -
  assume "bio_only s t"
  then obtain a b c d m w where "t = s\<lparr>procs := a, sleeplocks := b, bufs := c, vq := d, media := m, writes := w\<rparr>"
    unfolding bio_only_def by blast
  then show ?thesis by simp
qed

text \<open>The log over a disk that keeps its contract.\<close>

locale log_env = disk_env e for e :: "'a log_st_scheme kenv"

context disk_env
begin

lemma read_two:
  assumes c: "cache p dev P {} s" and ab: "a < 0x80000000" "c < 0x80000000" "a \<noteq> c"
    and f: "finite P" "card P < NBUF" "c \<in> P \<or> Suc (card P) < NBUF"
  shows "\<exists>i j s1 s2. bread e dev a s = Ok (i, s1) \<and> bread e dev c s1 = Ok (j, s2) \<and> i \<noteq> j \<and> cache p dev P {j, i} s2 \<and>
    b_blockno (bufs s2 ! i) = a \<and> b_blockno (bufs s2 ! j) = c \<and> content dev s2 = content dev s \<and>
    media s2 = media s \<and> writes s2 = writes s \<and> bio_only s s1 \<and> bio_only s s2"
proof -
  obtain k where k: "k < NBUF" "b_refcnt (bufs s ! k) = 0" using free_buf[OF c f(1)] f(2) by auto
  obtain i s1 where i: "bread e dev a s = Ok (i, s1)" "got p dev P {} s a i s1"
    using bread_ok[OF c ab(1) _ k] by blast
  note g1 = i(2)[unfolded got_def]
  have c1: "cache p dev P {i} s1" using g1 by simp
  have nh: "b_blockno (bufs s1 ! h) \<noteq> c" if "h \<in> {i}" for h using that g1 ab(3) by auto
  have "\<exists>j s2. bread e dev c s1 = Ok (j, s2) \<and> got p dev P {i} s1 c j s2"
  proof (cases "cached (bufs s1) dev c")
    case (Some j)
    then have "j \<notin> {i}" using cached_Some[OF Some] nh by blast
    then show ?thesis using bread_hit[OF c1 Some] by blast
  next
    case None
    then have "c \<notin> P" using cacheD(10)[OF c1] by blast
    then have "card P + card {i} < NBUF" using f(3) by simp
    then obtain k where "k < NBUF" "b_refcnt (bufs s1 ! k) = 0" using free_buf[OF c1 f(1)] by blast
    then show ?thesis using bread_ok[OF c1 ab(2) nh] by blast
  qed
  then obtain j s2 where j: "bread e dev c s1 = Ok (j, s2)" "got p dev P {i} s1 c j s2" by blast
  note g2 = j(2)[unfolded got_def]
  show ?thesis
    using i(1) j(1) g1 g2 bio_only_trans[of s s1 s2] by (intro exI[of _ i] exI[of _ j] exI[of _ s1] exI[of _ s2]) auto
qed

text \<open>New bytes for a held block, written through.\<close>

lemma overwrite:
  assumes c: "cache p dev P H s" and b: "b \<in> H"
  shows "\<exists>t. bwrite e b (set_data b x s) = Ok t \<and> cache p dev P H t \<and>
    (\<forall>n < 0x80000000. content dev t n = ((content dev s)(b_blockno (bufs s ! b) := x)) n) \<and>
    media t = (media s)(sector_of (b_blockno (bufs s ! b)) := x) \<and>
    writes t = writes s @ [(sector_of (b_blockno (bufs s ! b)), x)] \<and> bio_only s t \<and>
    (\<forall>i. b_blockno (bufs t ! i) = b_blockno (bufs s ! i)) \<and> b_data (bufs t ! b) = x \<and>
    (\<forall>i. i \<noteq> b \<longrightarrow> b_data (bufs t ! i) = b_data (bufs s ! i))"
proof -
  note sd = set_data_ok[OF c b, where x = x]
  obtain t where t: "bwrite e b (set_data b x s) = Ok t" "cache p dev P H t" "bufs t = bufs (set_data b x s)"
    "same_content dev (set_data b x s) t" "media t = (media s)(sector_of (b_blockno (bufs s ! b)) := x)"
    "writes t = writes s @ [(sector_of (b_blockno (bufs s ! b)), x)]" "bio_only (set_data b x s) t"
    using bwrite_ok[OF sd(1) b] by (auto simp: sd(3))
  have "b_blockno (bufs t ! i) = b_blockno (bufs s ! i) \<and> (i \<noteq> b \<longrightarrow> b_data (bufs t ! i) = b_data (bufs s ! i))" for i
    using sd(3) sd(4)[of i] by (cases "i = b") (simp_all add: t(3))
  with t sd bio_only_trans[OF sd(5) t(7)] show ?thesis by (auto simp: same_content_def)
qed

end


section \<open>Where the log is\<close>

definition lblk :: "32 word \<Rightarrow> nat \<Rightarrow> 32 word" where
  "lblk S i = S + of_nat i + 1"

text \<open>A block outside the log, of a disk of less than \<open>2 ^ 31\<close> blocks.\<close>

definition home :: "32 word \<Rightarrow> 32 word \<Rightarrow> bool" where
  "home S b \<longleftrightarrow> b < 0x80000000 \<and> (b < S \<or> S + of_nat LOGBLOCKS < b)"

definition layout :: "32 word \<Rightarrow> 32 word list \<Rightarrow> bool" where
  "layout S bs \<longleftrightarrow> length bs \<le> LOGBLOCKS \<and> distinct bs \<and> unat S + LOGBLOCKS + 1 < 2 ^ 31 \<and> (\<forall>b \<in> set bs. home S b)"

lemma unat_lblk: "unat S + LOGBLOCKS + 1 < 2 ^ 31 \<Longrightarrow> i < LOGBLOCKS \<Longrightarrow> unat (lblk S i) = unat S + i + 1"
  by (simp add: lblk_def LOGBLOCKS_def unat_word_ariths unat_of_nat take_bit_eq_mod)

lemma layoutD:
  assumes "layout S bs"
  shows "length bs \<le> LOGBLOCKS" "distinct bs" "unat S + LOGBLOCKS + 1 < 2 ^ 31" "S < 0x80000000"
    "b \<in> set bs \<Longrightarrow> home S b" "i < length bs \<Longrightarrow> home S (bs ! i)" "i < length bs \<Longrightarrow> i < LOGBLOCKS"
  using assms by (auto simp: layout_def word_less_nat_alt)

lemma log_apart:
  assumes S: "unat S + LOGBLOCKS + 1 < 2 ^ 31"
  shows "i < LOGBLOCKS \<Longrightarrow> lblk S i < 0x80000000" "i < LOGBLOCKS \<Longrightarrow> lblk S i \<noteq> S"
    "i < LOGBLOCKS \<Longrightarrow> j < LOGBLOCKS \<Longrightarrow> lblk S i = lblk S j \<longleftrightarrow> i = j"
    "i < LOGBLOCKS \<Longrightarrow> home S b \<Longrightarrow> lblk S i \<noteq> b" "home S b \<Longrightarrow> b \<noteq> S" "home S b \<Longrightarrow> b < 0x80000000"
proof -
  note u = unat_lblk[OF S]
  have e: "unat (S + of_nat LOGBLOCKS) = unat S + LOGBLOCKS"
    using S by (simp add: LOGBLOCKS_def unat_word_ariths)
  show "i < LOGBLOCKS \<Longrightarrow> lblk S i < 0x80000000" using u[of i] S by (simp add: word_less_nat_alt)
  show "i < LOGBLOCKS \<Longrightarrow> lblk S i \<noteq> S" using u[of i] by (auto simp: word_unat_eq_iff)
  show "i < LOGBLOCKS \<Longrightarrow> j < LOGBLOCKS \<Longrightarrow> lblk S i = lblk S j \<longleftrightarrow> i = j"
    using u[of i] u[of j] by (auto simp: word_unat_eq_iff)
  show "i < LOGBLOCKS \<Longrightarrow> home S b \<Longrightarrow> lblk S i \<noteq> b" using u[of i] e by (auto simp: home_def word_less_nat_alt)
  show "home S b \<Longrightarrow> b \<noteq> S" using e by (auto simp: home_def word_less_nat_alt)
  show "home S b \<Longrightarrow> b < 0x80000000" by (simp add: home_def)
qed

section \<open>Runs of block writes\<close>

definition on_blocks :: "(32 word \<times> byte list) list \<Rightarrow> (32 word \<Rightarrow> byte list) \<Rightarrow> 32 word \<Rightarrow> byte list" where
  "on_blocks ws C = foldl (\<lambda>C (a, x). C(a := x)) C ws"

definition on_media :: "(64 word \<times> byte list) list \<Rightarrow> (64 word \<Rightarrow> byte list) \<Rightarrow> 64 word \<Rightarrow> byte list" where
  "on_media ws m = foldl (\<lambda>m (a, x). m(a := x)) m ws"

definition sectors :: "(32 word \<times> byte list) list \<Rightarrow> (64 word \<times> byte list) list" where
  "sectors ws = map (\<lambda>(a, x). (sector_of a, x)) ws"

lemma on_blocks_simps [simp]:
  "on_blocks [] C = C" "on_blocks ((a, x) # ws) C = on_blocks ws (C(a := x))"
  "on_blocks (ws @ ws') C = on_blocks ws' (on_blocks ws C)"
  by (simp_all add: on_blocks_def)

lemma on_media_simps [simp]:
  "on_media [] m = m" "on_media ((a, x) # ws) m = on_media ws (m(a := x))"
  "on_media (ws @ ws') m = on_media ws' (on_media ws m)"
  by (simp_all add: on_media_def)

lemma sectors_simps [simp]:
  "sectors [] = []" "sectors ((a, x) # ws) = (sector_of a, x) # sectors ws" "sectors (ws @ ws') = sectors ws @ sectors ws'"
  "length (sectors ws) = length ws" "sectors (take k ws) = take k (sectors ws)"
  by (simp_all add: sectors_def take_map)

lemma on_blocks_cong: "C n = C' n \<Longrightarrow> on_blocks ws C n = on_blocks ws C' n"
proof (induction ws arbitrary: C C')
  case (Cons w ws)
  obtain a x where "w = (a, x)" by (cases w)
  moreover have "on_blocks ws (C(a := x)) n = on_blocks ws (C'(a := x)) n"
    by (rule Cons.IH) (simp add: Cons.prems)
  ultimately show ?case by simp
qed simp

lemma on_media_sector:
  assumes "\<And>a x. (a, x) \<in> set ws \<Longrightarrow> a < 0x80000000" and "n < 0x80000000"
  shows "on_media (sectors ws) m (sector_of n) = on_blocks ws (\<lambda>b. m (sector_of b)) n"
  using assms(1)
proof (induction ws arbitrary: m)
  case (Cons w ws)
  obtain a x where w: "w = (a, x)" by (cases w)
  have a: "a < 0x80000000" using Cons.prems[of a x] w by simp
  have "on_media (sectors ws) (m(sector_of a := x)) (sector_of n) =
      on_blocks ws (\<lambda>b. (m(sector_of a := x)) (sector_of b)) n"
    by (rule Cons.IH) (use Cons.prems in auto)
  also have "\<dots> = on_blocks ws ((\<lambda>b. m (sector_of b))(a := x)) n"
    by (rule on_blocks_cong) (use sector_inj[OF a assms(2)] in auto)
  finally show ?case by (simp add: w)
qed simp

lemma on_blocks_other: "n \<notin> fst ` set ws \<Longrightarrow> on_blocks ws C n = C n"
  by (induction ws arbitrary: C) auto

lemma on_blocks_at:
  assumes "distinct (map f [0..<n])" and "i < n"
  shows "on_blocks (map (\<lambda>i. (f i, g i)) [0..<n]) C (f i) = g i"
  using assms
proof (induction n)
  case (Suc n)
  show ?case
  proof (cases "i = n")
    case False
    then have "f i \<in> f ` {0..<n}" using Suc.prems by auto
    then have "f i \<noteq> f n" using Suc.prems by auto
    with False Suc show ?thesis by simp
  qed simp
qed simp


text \<open>Between operations the process holds no buffer; \<open>ws\<close> is what has been written to the disk.\<close>

definition did :: "nat \<Rightarrow> 32 word \<Rightarrow> 32 word set \<Rightarrow> 'a log_st_scheme \<Rightarrow> (32 word \<times> byte list) list \<Rightarrow> 'a log_st_scheme \<Rightarrow> bool" where
  "did p dev P s ws t \<longleftrightarrow>
     cache p dev P {} t \<and> klog t = klog s \<and> panicking t = panicking s \<and>
     writes t = writes s @ sectors ws \<and> media t = on_media (sectors ws) (media s) \<and>
     (\<forall>n < 0x80000000. content dev t n = on_blocks ws (content dev s) n)"

lemma didD: "did p dev P s ws t \<Longrightarrow> cache p dev P {} t"
  by (simp add: did_def)

lemma did_refl: "cache p dev P {} s \<Longrightarrow> did p dev P s [] s"
  by (simp add: did_def)

lemma did_trans: "did p dev P s ws t \<Longrightarrow> did p dev P' t ws' u \<Longrightarrow> did p dev P' s (ws @ ws') u"
  unfolding did_def using on_blocks_cong[of "content dev t" _ "on_blocks ws (content dev s)" ws'] by auto

lemma did_cong: "did p dev P s ws t \<Longrightarrow> ws = ws' \<Longrightarrow> did p dev P s ws' t"
  by simp

text \<open>A block that is neither pinned nor held is the same in the cache and on the disk.\<close>

lemma clean:
  assumes "cache p dev P {} s" "n \<notin> P" shows "content dev s n = media s (sector_of n)"
proof (cases "cached (bufs s) dev n")
  case (Some i)
  then show ?thesis using cached_Some[OF Some] cacheD(7)[OF assms(1), of i] assms(2) by (auto simp: content_def buf_ok_def)
qed (simp add: content_def)

lemma bio_only_panicking: "bio_only s t \<Longrightarrow> panicking t = panicking s"
proof -
  assume "bio_only s t"
  then obtain a b c d m w where "t = s\<lparr>procs := a, sleeplocks := b, bufs := c, vq := d, media := m, writes := w\<rparr>"
    unfolding bio_only_def by blast
  then show ?thesis by simp
qed

lemmas bio_frame = bio_only_klog bio_only_panicking

text \<open>Two held buffers let go of.\<close>

lemma release_two:
  assumes c: "cache p dev P {j, i} s" and ij: "i \<noteq> j"
    and i: "b_blockno (bufs s ! i) \<in> P \<or> b_data (bufs s ! i) = media s (sector_of (b_blockno (bufs s ! i)))"
    and j: "b_blockno (bufs s ! j) \<in> P \<or> b_data (bufs s ! j) = media s (sector_of (b_blockno (bufs s ! j)))"
  shows "\<exists>t. bnd (brelse i s) (brelse j) = Ok t \<and> cache p dev P {} t \<and> content dev t = content dev s \<and>
    media t = media s \<and> writes t = writes s \<and> klog t = klog s \<and> panicking t = panicking s"
proof -
  obtain u where u: "brelse i s = Ok u" "cache p dev P ({j, i} - {i}) u" "content dev u = content dev s" "media u = media s"
    "writes u = writes s" "bio_only s u"
    "\<forall>k. b_blockno (bufs u ! k) = b_blockno (bufs s ! k) \<and> b_data (bufs u ! k) = b_data (bufs s ! k)"
    using brelse_ok[OF c _ i] by auto
  have cu: "cache p dev P {j} u" using u(2) ij by (simp add: insert_Diff_if)
  obtain t where "brelse j u = Ok t" "cache p dev P ({j} - {j}) t" "content dev t = content dev u" "media t = media u"
    "writes t = writes u" "bio_only u t"
    using brelse_ok[OF cu, of j] j u(4,7) by auto
  then show ?thesis using u bio_frame[of s u] bio_frame[of u t] by auto
qed


context log_env
begin

text \<open>Two blocks in hand, the second's buffer with the block's bytes.\<close>

lemma read_pair:
  assumes c: "cache p dev P {} s" and ab: "a < 0x80000000" "b < 0x80000000" "a \<noteq> b" "a \<notin> P"
    and f: "finite P" "card P < NBUF" "b \<in> P \<or> Suc (card P) < NBUF"
  obtains i j s1 s2 where "bread e dev a s = Ok (i, s1)" "bread e dev b s1 = Ok (j, s2)" "i \<noteq> j" "cache p dev P {j, i} s2"
    "b_blockno (bufs s2 ! i) = a" "b_blockno (bufs s2 ! j) = b" "b_data (bufs s2 ! i) = content dev s a"
    "b_data (bufs s2 ! j) = content dev s b" "content dev s a = media s (sector_of a)" "content dev s2 = content dev s"
    "media s2 = media s" "writes s2 = writes s" "klog s1 = klog s" "klog s2 = klog s" "panicking s2 = panicking s"
proof -
  obtain i j s1 s2 where r: "bread e dev a s = Ok (i, s1)" "bread e dev b s1 = Ok (j, s2)" "i \<noteq> j" "cache p dev P {j, i} s2"
    "b_blockno (bufs s2 ! i) = a" "b_blockno (bufs s2 ! j) = b" "content dev s2 = content dev s"
    "media s2 = media s" "writes s2 = writes s" "bio_only s s1" "bio_only s s2"
    using read_two[OF c ab(1,2,3) f] by blast
  have "b_data (bufs s2 ! i) = content dev s2 a" "b_data (bufs s2 ! j) = content dev s2 b"
    using content_at[OF r(4) cacheD(6)[OF r(4)] held_dev[OF r(4)], of i] content_at[OF r(4) cacheD(6)[OF r(4)] held_dev[OF r(4)], of j] r(5,6)
    by simp_all
  with r bio_frame[OF r(10)] bio_frame[OF r(11)] clean[OF c ab(4)] show ?thesis by (intro that[of i s1 j s2]) simp_all
qed

lemma write_log_one_ok:
  assumes c: "cache p dev P {} s" "lg_dev (klog s) = dev" and t: "tail < LOGBLOCKS"
    and a: "log_block s tail < 0x80000000" "log_block s tail \<notin> P"
    and b: "home_block s tail < 0x80000000" "home_block s tail \<in> P" and f: "finite P" "card P < NBUF"
  shows "\<exists>t. write_log_one e tail s = Ok t \<and> did p dev P s [(log_block s tail, content dev s (home_block s tail))] t"
proof -
  have ne: "log_block s tail \<noteq> home_block s tail" using a b by auto
  obtain i j s1 s2 where r: "bread e dev (log_block s tail) s = Ok (i, s1)" "bread e dev (home_block s tail) s1 = Ok (j, s2)"
    "i \<noteq> j" "cache p dev P {j, i} s2" "b_blockno (bufs s2 ! i) = log_block s tail" "b_blockno (bufs s2 ! j) = home_block s tail"
    "b_data (bufs s2 ! i) = content dev s (log_block s tail)" "b_data (bufs s2 ! j) = content dev s (home_block s tail)"
    "content dev s (log_block s tail) = media s (sector_of (log_block s tail))" "content dev s2 = content dev s"
    "media s2 = media s" "writes s2 = writes s" "klog s1 = klog s" "klog s2 = klog s" "panicking s2 = panicking s"
    by (rule read_pair[OF c(1) a(1) b(1) ne a(2) f]) (use b in simp_all)
  define x where "x = content dev s (home_block s tail)"
  obtain u where u: "bwrite e i (set_data i x s2) = Ok u" "cache p dev P {j, i} u"
    "\<forall>n < 0x80000000. content dev u n = ((content dev s2)(log_block s tail := x)) n"
    "media u = (media s2)(sector_of (log_block s tail) := x)" "writes u = writes s2 @ [(sector_of (log_block s tail), x)]"
    "bio_only s2 u" "\<forall>k. b_blockno (bufs u ! k) = b_blockno (bufs s2 ! k)" "b_data (bufs u ! i) = x"
    using overwrite[OF r(4), of i x] r(5) by auto
  have cu: "cache p dev P {i, j} u" using u(2) by (simp add: insert_commute)
  obtain t where t': "bnd (brelse j u) (brelse i) = Ok t" "cache p dev P {} t" "content dev t = content dev u"
    "media t = media u" "writes t = writes u" "klog t = klog u" "panicking t = panicking u"
    using release_two[OF cu r(3)[symmetric]] u r b by auto
  have "write_log_one e tail s = Ok t"
    using t r(1,2) c(2) t'(1) u(1) r(8,13) by (simp add: write_log_one_def guard_def x_def home_block_def)
  then show ?thesis using t' u r bio_frame[OF u(6)] by (auto simp: did_def x_def)
qed

lemma install_one_ok:
  assumes c: "cache p dev P {} s" "lg_dev (klog s) = dev" and t: "tail < LOGBLOCKS"
    and a: "log_block s tail < 0x80000000" "log_block s tail \<notin> P"
    and b: "home_block s tail < 0x80000000" "home_block s tail \<in> P" and f: "finite P" "card P < NBUF"
  shows "\<exists>t. install_one e False tail s = Ok t \<and>
    did p dev (P - {home_block s tail}) s [(home_block s tail, content dev s (log_block s tail))] t"
proof -
  have ne: "log_block s tail \<noteq> home_block s tail" using a b by auto
  obtain i j s1 s2 where r: "bread e dev (log_block s tail) s = Ok (i, s1)" "bread e dev (home_block s tail) s1 = Ok (j, s2)"
    "i \<noteq> j" "cache p dev P {j, i} s2" "b_blockno (bufs s2 ! i) = log_block s tail" "b_blockno (bufs s2 ! j) = home_block s tail"
    "b_data (bufs s2 ! i) = content dev s (log_block s tail)" "b_data (bufs s2 ! j) = content dev s (home_block s tail)"
    "content dev s (log_block s tail) = media s (sector_of (log_block s tail))" "content dev s2 = content dev s"
    "media s2 = media s" "writes s2 = writes s" "klog s1 = klog s" "klog s2 = klog s" "panicking s2 = panicking s"
    by (rule read_pair[OF c(1) a(1) b(1) ne a(2) f]) (use b in simp_all)
  define x where "x = content dev s (log_block s tail)"
  obtain u where u: "bwrite e j (set_data j x s2) = Ok u" "cache p dev P {j, i} u"
    "\<forall>n < 0x80000000. content dev u n = ((content dev s2)(home_block s tail := x)) n"
    "media u = (media s2)(sector_of (home_block s tail) := x)" "writes u = writes s2 @ [(sector_of (home_block s tail), x)]"
    "bio_only s2 u" "\<forall>k. b_blockno (bufs u ! k) = b_blockno (bufs s2 ! k)" "b_data (bufs u ! j) = x"
    "\<forall>k. k \<noteq> j \<longrightarrow> b_data (bufs u ! k) = b_data (bufs s2 ! k)"
    using overwrite[OF r(4), of j x] r(6) by auto
  obtain v where v: "bunpin j u = Ok v" "cache p dev (P - {home_block s tail}) {j, i} v" "content dev v = content dev u"
    "media v = media u" "writes v = writes u" "bio_only u v"
    "\<forall>k. b_blockno (bufs v ! k) = b_blockno (bufs u ! k) \<and> b_data (bufs v ! k) = b_data (bufs u ! k)"
    using bunpin_ok[OF u(2), of j] u(7) r(6) b(2) by auto
  have "sector_of (log_block s tail) \<noteq> sector_of (home_block s tail)" using sector_inj[OF a(1) b(1)] ne by blast
  then obtain t where t': "bnd (brelse i v) (brelse j) = Ok t" "cache p dev (P - {home_block s tail}) {} t"
    "content dev t = content dev v" "media t = media v" "writes t = writes v" "klog t = klog v" "panicking t = panicking v"
    using release_two[OF v(2) r(3)] v u r x_def by auto
  have "install_one e False tail s = Ok t"
    using t r(1,2) c(2) t'(1) u(1) v(1) r(7,13) by (simp add: install_one_def guard_def x_def home_block_def)
  then show ?thesis using t' u v r bio_frame[OF u(6)] bio_frame[OF v(6)] by (auto simp: did_def x_def)
qed

lemma printk_cache:
  assumes c: "cache p dev P H s" "\<not> panicking s" and t: "printk_text fmt ap = Ok tx"
  shows "printk fmt ap s = Ok (s\<lparr>kout := kout s @ tx\<rparr>)" "cache p dev P H (s\<lparr>kout := kout s @ tx\<rparr>)"
    "content dev (s\<lparr>kout := kout s @ tx\<rparr>) = content dev s"
proof -
  show "printk fmt ap s = Ok (s\<lparr>kout := kout s @ tx\<rparr>)"
    by (rule printk_Ok) (use runsD(4)[OF cacheD(1)[OF c(1)]] c(2) t in simp_all)
  show "cache p dev P H (s\<lparr>kout := kout s @ tx\<rparr>)"
    using c(1) by (simp add: cache_def runs_def proc_at_def drv_idle_def)
  show "content dev (s\<lparr>kout := kout s @ tx\<rparr>) = content dev s"
    by (simp add: fun_eq_iff content_def split: option.split)
qed

end

lemma recovering_text:
  "\<exists>t. printk_text (''recovering tail %d dst %d'' @ nl) [A32 x, A32 y] = Ok t"
proof -
  have "sint w \<noteq> - (2 ^ 63)" for w :: "32 word" using sint_ge[of w] by auto
  then have p: "\<exists>t. printint (scast w) 10 True = Ok t" for w :: "32 word"
    using printint_fits[of 10 True "scast w"] by (auto simp: sint_scast32)
  obtain t u where tu: "printint (scast x) 10 True = Ok t" "printint (scast y) 10 True = Ok u"
    using p by blast
  show ?thesis by (simp add: nl_def conversion_def nth0_def va_int_def Let_def tu)
qed


context log_env
begin

lemma recover_one_ok:
  assumes c: "cache p dev {} {} s" "lg_dev (klog s) = dev" "\<not> panicking s" and t: "tail < LOGBLOCKS"
    and a: "log_block s tail < 0x80000000" and b: "home_block s tail < 0x80000000" "log_block s tail \<noteq> home_block s tail"
  shows "\<exists>t. install_one e True tail s = Ok t \<and> did p dev {} s [(home_block s tail, content dev s (log_block s tail))] t"
proof -
  obtain tx where tx: "printk_text (''recovering tail %d dst %d'' @ nl) [A32 (of_nat tail), A32 (home_block s tail)] = Ok tx"
    using recovering_text by blast
  define s0 where "s0 = s\<lparr>kout := kout s @ tx\<rparr>"
  note pk = printk_cache[OF c(1,3) tx, folded s0_def]
  have s0: "log_block s0 tail = log_block s tail" "home_block s0 tail = home_block s tail" "klog s0 = klog s"
    "media s0 = media s" "writes s0 = writes s" "panicking s0 = panicking s"
    by (simp_all add: s0_def log_block_def home_block_def)
  obtain i j s1 s2 where r: "bread e dev (log_block s tail) s0 = Ok (i, s1)" "bread e dev (home_block s tail) s1 = Ok (j, s2)"
    "i \<noteq> j" "cache p dev {} {j, i} s2" "b_blockno (bufs s2 ! i) = log_block s tail" "b_blockno (bufs s2 ! j) = home_block s tail"
    "b_data (bufs s2 ! i) = content dev s0 (log_block s tail)" "b_data (bufs s2 ! j) = content dev s0 (home_block s tail)"
    "content dev s0 (log_block s tail) = media s0 (sector_of (log_block s tail))" "content dev s2 = content dev s0"
    "media s2 = media s0" "writes s2 = writes s0" "klog s1 = klog s0" "klog s2 = klog s0" "panicking s2 = panicking s0"
    by (rule read_pair[OF pk(2) a b]) (simp_all add: NBUF_def)
  define x where "x = content dev s (log_block s tail)"
  obtain u where u: "bwrite e j (set_data j x s2) = Ok u" "cache p dev {} {j, i} u"
    "\<forall>n < 0x80000000. content dev u n = ((content dev s2)(home_block s tail := x)) n"
    "media u = (media s2)(sector_of (home_block s tail) := x)" "writes u = writes s2 @ [(sector_of (home_block s tail), x)]"
    "bio_only s2 u" "\<forall>k. b_blockno (bufs u ! k) = b_blockno (bufs s2 ! k)" "b_data (bufs u ! j) = x"
    "\<forall>k. k \<noteq> j \<longrightarrow> b_data (bufs u ! k) = b_data (bufs s2 ! k)"
    using overwrite[OF r(4), of j x] r(6) by auto
  have ne: "sector_of (log_block s tail) \<noteq> sector_of (home_block s tail)" using sector_inj[OF a b(1)] b(2) by blast
  have "b_data (bufs u ! i) = x" "media u (sector_of (log_block s tail)) = x"
    using u(4,9) r(3,7,9,11) ne by (simp_all add: x_def pk(3))
  then obtain t where t': "bnd (brelse i u) (brelse j) = Ok t" "cache p dev {} {} t"
    "content dev t = content dev u" "media t = media u" "writes t = writes u" "klog t = klog u" "panicking t = panicking u"
    using release_two[OF u(2) r(3)] u(4,7,8) r(5,6) by auto
  have "install_one e True tail s = Ok t"
    using t r(1,2) c(2) t'(1) u(1) r(7,13) pk by (simp add: install_one_def guard_def x_def s0 home_block_def)
  then show ?thesis using t' u r bio_frame[OF u(6)] pk(3) by (auto simp: did_def x_def s0)
qed

lemma write_head_ok:
  assumes c: "cache p dev P {} s" "lg_dev (klog s) = dev" and S: "lg_start (klog s) < 0x80000000" "lg_start (klog s) \<notin> P"
    and f: "finite P" "card P < NBUF" and n: "lh_n (lg_lh (klog s)) \<le> int LOGBLOCKS"
  shows "\<exists>t. write_head e s = Ok t \<and>
    did p dev P s [(lg_start (klog s), put_head (lg_lh (klog s)) (content dev s (lg_start (klog s))))] t"
proof -
  define S where "S = lg_start (klog s)"
  define x where "x = put_head (lg_lh (klog s)) (content dev s S)"
  obtain k where k: "k < NBUF" "b_refcnt (bufs s ! k) = 0" using free_buf[OF c(1) f(1)] f(2) by auto
  obtain i s1 where i: "bread e dev S s = Ok (i, s1)" "got p dev P {} s S i s1"
    using bread_ok[OF c(1) S(1) _ k] unfolding S_def by blast
  note g = i(2)[unfolded got_def]
  have c1: "cache p dev P {i} s1" using g by simp
  have dt: "b_data (bufs s1 ! i) = content dev s S" using content_at[OF c1 _ held_dev[OF c1]] g by simp
  obtain u where u: "bwrite e i (set_data i x s1) = Ok u" "cache p dev P {i} u"
    "\<forall>n < 0x80000000. content dev u n = ((content dev s1)(S := x)) n"
    "media u = (media s1)(sector_of S := x)" "writes u = writes s1 @ [(sector_of S, x)]"
    "bio_only s1 u" "\<forall>k. b_blockno (bufs u ! k) = b_blockno (bufs s1 ! k)" "b_data (bufs u ! i) = x"
    using overwrite[OF c1, of i x] g by auto
  obtain t where t: "brelse i u = Ok t" "cache p dev P ({i} - {i}) t" "content dev t = content dev u" "media t = media u"
    "writes t = writes u" "bio_only u t"
    using brelse_ok[OF u(2), of i] u g by auto
  have s1: "klog s1 = klog s" "panicking s1 = panicking s" using g bio_frame[of s s1] by simp_all
  have le: "nat (lh_n (lg_lh (klog s))) \<le> LOGBLOCKS" using n by simp
  have "write_head e s = Ok t"
    using i(1) c(2) u(1) t(1) le dt s1 by (simp add: write_head_def guard_def x_def S_def)
  then show ?thesis using t u g s1 bio_frame[OF u(6)] bio_frame[OF t(6)] by (auto simp: did_def x_def S_def)
qed

end


section \<open>The header as bytes\<close>

lemma put_head_length [simp]: "length (put_head h d) = length d"
proof -
  have "length (foldl (\<lambda>d i. put32 (Suc i) (lh_block h ! i) d) d is) = length d" for "is" d
    by (induction "is" arbitrary: d) simp_all
  then show ?thesis by (simp add: put_head_def)
qed

text \<open>A block with the header of a log of the blocks \<open>bs\<close>.\<close>

definition head_block :: "32 word list \<Rightarrow> byte list \<Rightarrow> bool" where
  "head_block bs d \<longleftrightarrow> length d = 1024 \<and> get32 d 0 = of_nat (length bs) \<and> (\<forall>i < length bs. get32 d (Suc i) = bs ! i)"

lemma put_head_get:
  fixes w :: "32 word" and bs :: "32 word list"
  assumes "length d = 1024" "n \<le> LOGBLOCKS"
  defines "d' \<equiv> foldl (\<lambda>d i. put32 (Suc i) (bs ! i) d) (put32 0 w d) [0..<n]"
  shows "length d' = 1024" "get32 d' 0 = w" "\<And>i. i < n \<Longrightarrow> get32 d' (Suc i) = bs ! i"
proof -
  have "length d' = 1024 \<and> get32 d' 0 = w \<and> (\<forall>i < n. get32 d' (Suc i) = bs ! i)"
    using assms(2) unfolding d'_def
  proof (induction n)
    case 0
    then show ?case using assms(1) by (simp add: get32_put32)
  next
    case (Suc n)
    then show ?case by (auto simp: get32_other LOGBLOCKS_def less_Suc_eq intro!: get32_put32)
  qed
  then show "length d' = 1024" "get32 d' 0 = w" "\<And>i. i < n \<Longrightarrow> get32 d' (Suc i) = bs ! i" by simp_all
qed

lemma put_head_ok:
  assumes "length d = 1024" "lh_n h = int (length bs)" "take (length bs) (lh_block h) = bs" "length bs \<le> LOGBLOCKS"
  shows "head_block bs (put_head h d)"
proof -
  have nth: "lh_block h ! i = bs ! i" if "i < length bs" for i using assms(3) that by (metis nth_take)
  show ?thesis
    using put_head_get[OF assms(1,4), where bs = "lh_block h" and w = "of_nat (length bs)"] assms(2) nth
    by (simp add: head_block_def put_head_def)
qed


section \<open>Commit and recovery\<close>

lemma did_loop:
  assumes c: "cache p dev (Q 0) {} s"
    and step: "\<And>i t. i < n \<Longrightarrow> did p dev (Q i) s (map w [0..<i]) t \<Longrightarrow> \<exists>u. f i t = Ok u \<and> did p dev (Q (Suc i)) t [w i] u"
  shows "\<exists>t. for_each f [0..<n] s = Ok t \<and> did p dev (Q n) s (map w [0..<n]) t"
  using step
proof (induction n)
  case 0
  then show ?case using did_refl[OF c] by simp
next
  case (Suc n)
  obtain t where t: "for_each f [0..<n] s = Ok t" "did p dev (Q n) s (map w [0..<n]) t" using Suc by auto
  obtain u where u: "f n t = Ok u" "did p dev (Q (Suc n)) t [w n] u" using Suc.prems[OF lessI t(2)] by blast
  have "did p dev (Q (Suc n)) s (map w [0..<n] @ [w n]) u" by (rule did_trans[OF t(2) u(2)])
  with t(1) u(1) show ?case by (auto simp: for_each_append)
qed

text \<open>The log in memory holds the blocks \<open>bs\<close>.\<close>

definition logs :: "32 word \<Rightarrow> 32 word \<Rightarrow> 32 word list \<Rightarrow> 'a log_st_scheme \<Rightarrow> bool" where
  "logs dev S bs s \<longleftrightarrow>
     lg_dev (klog s) = dev \<and> lg_start (klog s) = S \<and> lh_n (lg_lh (klog s)) = int (length bs) \<and>
     length (lh_block (lg_lh (klog s))) = LOGBLOCKS \<and> take (length bs) (lh_block (lg_lh (klog s))) = bs"

lemma logsD:
  assumes "logs dev S bs s"
  shows "lg_dev (klog s) = dev" "lg_start (klog s) = S" "lh_n (lg_lh (klog s)) = int (length bs)"
    "log_block s i = lblk S i" "i < length bs \<Longrightarrow> home_block s i = bs ! i"
proof -
  show "lg_dev (klog s) = dev" "lg_start (klog s) = S" "lh_n (lg_lh (klog s)) = int (length bs)" "log_block s i = lblk S i"
    using assms by (simp_all add: logs_def log_block_def lblk_def)
  show "i < length bs \<Longrightarrow> home_block s i = bs ! i"
    using assms unfolding logs_def home_block_def by (metis nth_take)
qed

lemma logs_klog: "klog t = klog s \<Longrightarrow> logs dev S bs t = logs dev S bs s"
  by (simp add: logs_def)

text \<open>The writes of the three phases, the blocks having the bytes \<open>C\<close>.\<close>

definition log_ws :: "32 word \<Rightarrow> 32 word list \<Rightarrow> (32 word \<Rightarrow> byte list) \<Rightarrow> (32 word \<times> byte list) list" where
  "log_ws S bs C = map (\<lambda>i. (lblk S i, C (bs ! i))) [0..<length bs]"

definition home_ws :: "32 word \<Rightarrow> 32 word list \<Rightarrow> (32 word \<Rightarrow> byte list) \<Rightarrow> (32 word \<times> byte list) list" where
  "home_ws S bs C = map (\<lambda>i. (bs ! i, C (lblk S i))) [0..<length bs]"

lemma fst_ws: "fst ` set (log_ws S bs C) = lblk S ` {..<length bs}" "fst ` set (home_ws S bs C) = set bs"
  "fst ` set (take k (log_ws S bs C)) \<subseteq> lblk S ` {..<length bs}" "fst ` set (take k (home_ws S bs C)) \<subseteq> set bs"
proof -
  show "fst ` set (log_ws S bs C) = lblk S ` {..<length bs}" by (auto simp: log_ws_def image_image)
  show "fst ` set (home_ws S bs C) = set bs" by (auto simp: home_ws_def image_image in_set_conv_nth)
  then show "fst ` set (take k (home_ws S bs C)) \<subseteq> set bs" using set_take_subset by fast
  show "fst ` set (take k (log_ws S bs C)) \<subseteq> lblk S ` {..<length bs}"
    using set_take_subset[of k "log_ws S bs C"] by (auto simp: log_ws_def)
qed


lemma notin_map: "(\<And>j. j < i \<Longrightarrow> x \<noteq> f j) \<Longrightarrow> x \<notin> fst ` set (map (\<lambda>j. (f j, g j)) [0..<i])"
  by fastforce

lemma log_ws_at: "unat S + LOGBLOCKS + 1 < 2 ^ 31 \<Longrightarrow> length bs \<le> LOGBLOCKS \<Longrightarrow> i < length bs \<Longrightarrow>
  on_blocks (log_ws S bs C) D (lblk S i) = C (bs ! i)"
  unfolding log_ws_def
  by (rule on_blocks_at) (auto simp: distinct_map inj_on_def log_apart)

lemma home_ws_at:
  assumes "distinct bs" "i < length bs"
  shows "on_blocks (home_ws S bs C) D (bs ! i) = C (lblk S i)"
proof -
  have "map ((!) bs) [0..<length bs] = bs" by (simp add: map_nth)
  then show ?thesis
    unfolding home_ws_def using assms by (intro on_blocks_at) simp_all
qed

context log_env
begin

lemma write_log_ok:
  assumes c: "cache p dev (set bs) {} s" and l: "logs dev S bs s" and y: "layout S bs" "length bs < NBUF"
  shows "\<exists>t. write_log e s = Ok t \<and> did p dev (set bs) s (log_ws S bs (content dev s)) t"
  unfolding write_log_def log_ws_def logsD(3)[OF l] nat_int
proof (rule did_loop[where Q = "\<lambda>_. set bs", OF c])
  note L = layoutD[OF y(1)] and ap = log_apart[OF layoutD(3)[OF y(1)]]
  fix i t assume i: "i < length bs" and t: "did p dev (set bs) s (map (\<lambda>i. (lblk S i, content dev s (bs ! i))) [0..<i]) t"
  have lt: "logs dev S bs t" using l t logs_klog[of t s] by (simp add: did_def)
  note g = logsD[OF lt]
  have h: "home S (bs ! i)" "i < LOGBLOCKS" using L(6,7) i by simp_all
  have fr: "lblk S i \<notin> set bs" using ap(4)[OF h(2)] L(5) by blast
  have cf: "finite (set bs)" "card (set bs) < NBUF" using y(2) card_length[of bs] by simp_all
  obtain u where u: "write_log_one e i t = Ok u" "did p dev (set bs) t [(lblk S i, content dev t (bs ! i))] u"
    using write_log_one_ok[of p dev "set bs" t i] t g i h fr cf ap(1)[OF h(2)] ap(6)[OF h(1)] by (auto simp: did_def)
  have "bs ! i \<noteq> lblk S j" if "j < i" for j using ap(4)[OF _ h(1), of j] L(7)[of j] that i by fastforce
  then have "bs ! i \<notin> fst ` set (map (\<lambda>i. (lblk S i, content dev s (bs ! i))) [0..<i])"
    by (rule notin_map)
  then have "content dev t (bs ! i) = content dev s (bs ! i)"
    using t on_blocks_other ap(6)[OF h(1)] by (simp add: did_def)
  with u show "\<exists>u. write_log_one e i t = Ok u \<and> did p dev (set bs) t [(lblk S i, content dev s (bs ! i))] u" by auto
qed

lemma install_ok:
  assumes c: "cache p dev (set bs) {} s" and l: "logs dev S bs s" and y: "layout S bs" "length bs < NBUF"
  shows "\<exists>t. install_trans e False s = Ok t \<and> did p dev {} s (home_ws S bs (content dev s)) t"
proof -
  note L = layoutD[OF y(1)] and ap = log_apart[OF layoutD(3)[OF y(1)]]
  define Q where "Q i = set (drop i bs)" for i
  have "\<exists>t. for_each (install_one e False) [0..<length bs] s = Ok t \<and>
      did p dev (Q (length bs)) s (map (\<lambda>i. (bs ! i, content dev s (lblk S i))) [0..<length bs]) t"
  proof (rule did_loop[where Q = Q])
    show "cache p dev (Q 0) {} s" using c by (simp add: Q_def)
    fix i t assume i: "i < length bs" and t: "did p dev (Q i) s (map (\<lambda>i. (bs ! i, content dev s (lblk S i))) [0..<i]) t"
    have lt: "logs dev S bs t" using l t logs_klog[of t s] by (simp add: did_def)
    note g = logsD[OF lt]
    have h: "home S (bs ! i)" "i < LOGBLOCKS" using L(6,7) i by simp_all
    have fr: "lblk S i \<notin> Q i" using ap(4)[OF h(2)] L(5) unfolding Q_def by (blast dest: in_set_dropD)
    have inQ: "bs ! i \<in> Q i" using i by (simp add: Q_def Cons_nth_drop_Suc[symmetric])
    have sub: "card (Q i) \<le> length bs" unfolding Q_def using card_length[of "drop i bs"] by simp
    have cf: "finite (Q i)" "card (Q i) < NBUF" using sub y(2) by (simp_all add: Q_def)
    have dQ: "Q i - {bs ! i} = Q (Suc i)"
    proof -
      have "distinct (drop i bs)" using L(2) by simp
      then show ?thesis using i by (auto simp: Q_def Cons_nth_drop_Suc[symmetric])
    qed
    obtain u where u: "install_one e False i t = Ok u" "did p dev (Q i - {bs ! i}) t [(bs ! i, content dev t (lblk S i))] u"
      using install_one_ok[of p dev "Q i" t i] t g i h fr inQ cf ap(1)[OF h(2)] ap(6)[OF h(1)] by (auto simp: did_def)
    have "lblk S i \<noteq> bs ! j" if "j < i" for j using ap(4)[OF h(2), of "bs ! j"] L(6)[of j] that i by fastforce
    then have "lblk S i \<notin> fst ` set (map (\<lambda>i. (bs ! i, content dev s (lblk S i))) [0..<i])"
    by (rule notin_map)
    then have "content dev t (lblk S i) = content dev s (lblk S i)"
      using t on_blocks_other ap(1)[OF h(2)] by (simp add: did_def)
    with u dQ show "\<exists>u. install_one e False i t = Ok u \<and> did p dev (Q (Suc i)) t [(bs ! i, content dev s (lblk S i))] u" by auto
  qed
  then show ?thesis unfolding install_trans_def home_ws_def logsD(3)[OF l] nat_int by (simp add: Q_def)
qed

lemma recover_ok:
  assumes c: "cache p dev {} {} s" "\<not> panicking s" and l: "logs dev S bs s" and y: "layout S bs"
  shows "\<exists>t. install_trans e True s = Ok t \<and> did p dev {} s (home_ws S bs (content dev s)) t"
  unfolding install_trans_def home_ws_def logsD(3)[OF l] nat_int
proof (rule did_loop[where Q = "\<lambda>_. {}", OF c(1)])
  note L = layoutD[OF y(1)] and ap = log_apart[OF layoutD(3)[OF y(1)]]
  fix i t assume i: "i < length bs" and t: "did p dev {} s (map (\<lambda>i. (bs ! i, content dev s (lblk S i))) [0..<i]) t"
  have lt: "logs dev S bs t" using l t logs_klog[of t s] by (simp add: did_def)
  note g = logsD[OF lt]
  have h: "home S (bs ! i)" "i < LOGBLOCKS" using L(6,7) i by simp_all
  obtain u where u: "install_one e True i t = Ok u" "did p dev {} t [(bs ! i, content dev t (lblk S i))] u"
    using recover_one_ok[of p dev t i] c(2) t g i h ap(1)[OF h(2)] ap(6)[OF h(1)] ap(4)[OF h(2,1)] by (auto simp: did_def)
  have "lblk S i \<noteq> bs ! j" if "j < i" for j using ap(4)[OF h(2), of "bs ! j"] L(6)[of j] that i by fastforce
  then have "lblk S i \<notin> fst ` set (map (\<lambda>i. (bs ! i, content dev s (lblk S i))) [0..<i])"
    by (rule notin_map)
  then have "content dev t (lblk S i) = content dev s (lblk S i)"
    using t on_blocks_other ap(1)[OF h(2)] by (simp add: did_def)
  with u show "\<exists>u. install_one e True i t = Ok u \<and> did p dev {} t [(bs ! i, content dev s (lblk S i))] u" by auto
qed

end


lemma upd_lh_simps [simp]:
  "bufs (upd_lh f s) = bufs s" "media (upd_lh f s) = media s" "writes (upd_lh f s) = writes s"
  "panicking (upd_lh f s) = panicking s" "klog (upd_lh f s) = (klog s)\<lparr>lg_lh := f (lg_lh (klog s))\<rparr>"
  "content dev (upd_lh f s) = content dev s" "cache p dev P H (upd_lh f s) = cache p dev P H s"
  by (simp_all add: upd_lh_def cache_def runs_def proc_at_def drv_idle_def fun_eq_iff content_def split: option.split)

text \<open>All the writes of a commit, the cache holding \<open>C\<close>.\<close>

definition commit_writes :: "32 word \<Rightarrow> 32 word list \<Rightarrow> logheader \<Rightarrow> (32 word \<Rightarrow> byte list) \<Rightarrow> (32 word \<times> byte list) list" where
  "commit_writes S bs h C =
     log_ws S bs C @ [(S, put_head h (C S))] @ map (\<lambda>b. (b, C b)) bs @ [(S, put32 0 0 (put_head h (C S)))]"

lemma home_ws_eq:
  "(\<And>i. i < length bs \<Longrightarrow> D (lblk S i) = C (bs ! i)) \<Longrightarrow> home_ws S bs D = map (\<lambda>b. (b, C b)) bs"
  by (rule nth_equalityI) (simp_all add: home_ws_def)

context log_env
begin

lemma commit_ok:
  assumes c: "cache p dev (set bs) {} s" and l: "logs dev S bs s" and y: "layout S bs" "length bs < NBUF" "bs \<noteq> []"
  defines "W \<equiv> commit_writes S bs (lg_lh (klog s)) (content dev s)"
  shows "\<exists>t. commit e s = Ok t \<and> cache p dev {} {} t \<and> klog t = (klog s)\<lparr>lg_lh := (lg_lh (klog s))\<lparr>lh_n := 0\<rparr>\<rparr> \<and>
    writes t = writes s @ sectors W \<and> media t = on_media (sectors W) (media s) \<and>
    (\<forall>n < 0x80000000. content dev t n = on_blocks W (content dev s) n)"
proof -
  note L = layoutD[OF y(1)] and ap = log_apart[OF layoutD(3)[OF y(1)]]
  define C where "C = content dev s"
  define x where "x = put_head (lg_lh (klog s)) (C S)"
  have Sn: "S \<notin> set bs" using L(5) ap(5) by blast
  have cf: "finite (set bs)" "card (set bs) < NBUF" using y(2) card_length[of bs] by simp_all
  obtain t1 where t1: "write_log e s = Ok t1" "did p dev (set bs) s (log_ws S bs C) t1"
    using write_log_ok[OF c l y(1,2)] C_def by blast
  have l1: "logs dev S bs t1" using l t1 logs_klog[of t1 s] by (simp add: did_def)
  have "S \<notin> fst ` set (log_ws S bs C)"
  proof
    assume "S \<in> fst ` set (log_ws S bs C)"
    then obtain i where "i < length bs" "S = lblk S i" by (auto simp: fst_ws)
    then show False using L(1) ap(2)[of i] by simp
  qed
  then have S1: "content dev t1 S = C S" using t1(2) L(4) on_blocks_other by (simp add: did_def C_def)
  obtain t2 where t2: "write_head e t1 = Ok t2" "did p dev (set bs) t1 [(S, x)] t2"
    using write_head_ok[of p dev "set bs" t1] t1(2) logsD[OF l1] L(1,4) Sn cf S1 by (auto simp: did_def x_def)
  have d2: "did p dev (set bs) s (log_ws S bs C @ [(S, x)]) t2" by (rule did_trans[OF t1(2) t2(2)])
  have l2: "logs dev S bs t2" using l d2 logs_klog[of t2 s] by (simp add: did_def)
  obtain t3 where t3: "install_trans e False t2 = Ok t3" "did p dev {} t2 (home_ws S bs (content dev t2)) t3"
    using install_ok[OF didD[OF d2] l2 y(1,2)] by blast
  have "home_ws S bs (content dev t2) = map (\<lambda>b. (b, C b)) bs"
  proof (rule home_ws_eq)
    fix i assume i: "i < length bs"
    then have "i < LOGBLOCKS" using L(1) by simp
    then show "content dev t2 (lblk S i) = C (bs ! i)"
      using d2 ap(1,2)[of i] log_ws_at[OF L(3,1) i, of C] by (simp add: did_def on_blocks_other)
  qed
  then have d3: "did p dev {} s (log_ws S bs C @ [(S, x)] @ map (\<lambda>b. (b, C b)) bs) t3"
    using did_trans[OF d2 t3(2)] by simp
  define u where "u = upd_lh (\<lambda>h. h\<lparr>lh_n := 0\<rparr>) t3"
  have S3: "content dev u S = x"
    using d3 L(4) Sn by (simp add: did_def u_def on_blocks_other image_image)
  obtain t where t: "write_head e u = Ok t" "did p dev {} u [(S, put32 0 0 x)] t"
    using write_head_ok[of p dev "{}" u] d3 logsD[OF l] L(4) S3
    by (auto simp: did_def u_def NBUF_def LOGBLOCKS_def put_head_def)
  have "commit e s = Ok t" using logsD(3)[OF l] y(3) t1(1) t2(1) t3(1) t(1) by (simp add: commit_def u_def)
  moreover have W: "W = (log_ws S bs C @ [(S, x)] @ map (\<lambda>b. (b, C b)) bs) @ [(S, put32 0 0 x)]"
    by (simp add: W_def commit_writes_def C_def x_def)
  moreover have "content dev t n = on_blocks W C n" if n: "n < 0x80000000" for n
  proof -
    have "content dev t n = on_blocks [(S, put32 0 0 x)] (content dev t3) n" using t(2) n by (simp add: did_def u_def)
    also have "\<dots> = on_blocks [(S, put32 0 0 x)] (on_blocks (log_ws S bs C @ [(S, x)] @ map (\<lambda>b. (b, C b)) bs) C) n"
      by (rule on_blocks_cong) (use d3 n in \<open>simp add: did_def C_def\<close>)
    finally show ?thesis by (simp add: W)
  qed
  ultimately show ?thesis using t(2) d3 by (simp add: did_def u_def C_def)
qed

end


context log_env
begin

text \<open>Reading the header in.\<close>

lemma read_head_ok:
  assumes c: "cache p dev {} {} s" "lg_dev (klog s) = dev" "lg_start (klog s) = S" and S: "S < 0x80000000"
    and hd: "head_block bs (content dev s S)" "length bs \<le> LOGBLOCKS" "length (lh_block (lg_lh (klog s))) = LOGBLOCKS"
  shows "\<exists>t. read_head e s = Ok t \<and> cache p dev {} {} t \<and> logs dev S bs t \<and> content dev t = content dev s \<and>
    media t = media s \<and> writes t = writes s \<and> panicking t = panicking s"
proof -
  obtain k where k: "k < NBUF" "b_refcnt (bufs s ! k) = 0" using free_buf[OF c(1)] by (auto simp: NBUF_def)
  obtain i s1 where i: "bread e dev S s = Ok (i, s1)" "got p dev {} {} s S i s1" using bread_ok[OF c(1) S _ k] by blast
  note g = i(2)[unfolded got_def]
  have c1: "cache p dev {} {i} s1" using g by simp
  have dt: "b_data (bufs s1 ! i) = content dev s S" using content_at[OF c1 _ held_dev[OF c1]] g by simp
  have s1: "klog s1 = klog s" "panicking s1 = panicking s" using g bio_frame[of s s1] by simp_all
  define d where "d = content dev s S"
  have n: "sint (get32 d 0) = int (length bs)"
  proof -
    have "sint (word_of_int (int (length bs)) :: 32 word) = int (length bs)"
      unfolding sint_sbintrunc' using hd(2) by (intro signed_take_bit_int_eq_self) (simp_all add: LOGBLOCKS_def)
    then show ?thesis using hd(1) by (simp add: head_block_def d_def)
  qed
  define step where "step i s = bnd (guard (i < LOGBLOCKS) ''lh.block'') (\<lambda>_.
      Ok (upd_lh (\<lambda>h. h\<lparr>lh_block := (lh_block h)[i := get32 d (Suc i)]\<rparr>) s))" for i and s :: "'a log_st_scheme"
  define B where "B = lh_block (lg_lh (klog s1))"
  have B: "length B = LOGBLOCKS" using hd(3) s1 by (simp add: B_def)
  define U where "U bk = upd_lh (\<lambda>h. h\<lparr>lh_n := int (length bs), lh_block := bk\<rparr>) s1" for bk
  define s2 where "s2 = upd_lh (\<lambda>h. h\<lparr>lh_n := int (length bs)\<rparr>) s1"
  have s2U: "s2 = U B" by (simp add: s2_def U_def upd_lh_def B_def)
  have stepU: "step m (U bk) = Ok (U (bk[m := get32 d (Suc m)]))" if "m < LOGBLOCKS" for m bk
    using that by (simp add: step_def U_def upd_lh_def)
  have loop: "m \<le> length bs \<Longrightarrow> for_each step [0..<m] s2 = Ok (U (take m bs @ drop m B))" for m
  proof (induction m)
    case 0
    then show ?case by (simp add: s2U)
  next
    case (Suc m)
    have m: "m < length bs" "m < LOGBLOCKS" "get32 d (Suc m) = bs ! m" using Suc.prems hd by (simp_all add: head_block_def d_def)
    have "(take m bs @ drop m B)[m := bs ! m] = take (Suc m) bs @ drop (Suc m) B"
      using m B by (simp add: list_update_append take_Suc_conv_app_nth flip: Cons_nth_drop_Suc)
    with Suc m stepU[OF m(2)] show ?case by (simp add: for_each_append)
  qed
  define t0 where "t0 = U (bs @ drop (length bs) B)"
  have fe: "for_each step [0..<length bs] s2 = Ok t0" using loop[OF order_refl] by (simp add: t0_def)
  have t0: "bufs t0 = bufs s1" "media t0 = media s1" "writes t0 = writes s1" "panicking t0 = panicking s1"
    "content dev t0 = content dev s1" "klog t0 = (klog s1)\<lparr>lg_lh := \<lparr>lh_n = int (length bs), lh_block = bs @ drop (length bs) B\<rparr>\<rparr>"
    by (simp_all add: t0_def U_def)
  have c0: "cache p dev {} {i} t0" using c1 by (simp add: t0_def U_def)
  obtain t where t: "brelse i t0 = Ok t" "cache p dev {} ({i} - {i}) t" "content dev t = content dev t0" "media t = media t0"
    "writes t = writes t0" "bio_only t0 t"
    using brelse_ok[OF c0, of i] clean[OF c(1), of S] g dt by (auto simp: t0)
  have "read_head e s = bnd (for_each step [0..<length bs] s2) (brelse i)"
    using i(1) c(2,3) s1 n dt by (simp add: read_head_def Let_def s2_def step_def[abs_def] d_def)
  then have "read_head e s = Ok t" using fe t(1) by simp
  moreover have "logs dev S bs t"
    using bio_frame[OF t(6)] s1 c(2,3) hd(2) B by (simp add: logs_def t0)
  ultimately show ?thesis using t g s1 bio_frame[OF t(6)] by (auto simp: t0)
qed

end


lemma on_blocks_map: "on_blocks (map (\<lambda>b. (b, C b)) bs) D b = (if b \<in> set bs then C b else D b)"
proof (induction bs arbitrary: D)
  case (Cons a bs)
  have "on_blocks (map (\<lambda>b. (b, C b)) bs) (D(a := C a)) b = (if b \<in> set bs then C b else (D(a := C a)) b)"
    by (rule Cons.IH)
  then show ?case by (simp split del: if_split) auto
qed simp

text \<open>The blocks of a disk.\<close>

definition blocks :: "(64 word \<Rightarrow> byte list) \<Rightarrow> 32 word \<Rightarrow> byte list" where
  "blocks m b = m (sector_of b)"

lemma on_media_blocks:
  "(\<And>a x. (a, x) \<in> set ws \<Longrightarrow> a < 0x80000000) \<Longrightarrow> n < 0x80000000 \<Longrightarrow>
   blocks (on_media (sectors ws) m) n = on_blocks ws (blocks m) n"
  unfolding blocks_def using on_media_sector by (simp add: blocks_def)

text \<open>What recovery writes, to a disk whose log has the blocks \<open>bs\<close>.\<close>

definition recovery_writes :: "32 word \<Rightarrow> 32 word list \<Rightarrow> (32 word \<Rightarrow> byte list) \<Rightarrow> (32 word \<times> byte list) list" where
  "recovery_writes S bs D = home_ws S bs D @ [(S, put32 0 0 (D S))]"

context log_env
begin

lemma initlog_ok:
  assumes c: "cache p dev {} {} r" "\<not> panicking r" and lh: "length (lh_block (lg_lh (klog r))) = LOGBLOCKS"
    and y: "layout (sb_logstart sb) bs" and hd: "head_block bs (blocks (media r) (sb_logstart sb))"
  shows "\<exists>u. initlog e dev sb r = Ok u \<and> cache p dev {} {} u \<and> lh_n (lg_lh (klog u)) = 0 \<and>
    media u = on_media (sectors (recovery_writes (sb_logstart sb) bs (blocks (media r)))) (media r)"
proof -
  define S where "S = sb_logstart sb"
  note L = layoutD[OF y, folded S_def]
  define r0 where "r0 = r\<lparr>klog := (klog r)\<lparr>lg_start := sb_logstart sb, lg_dev := dev\<rparr>\<rparr>"
  have c0: "cache p dev {} {} r0"
    using c(1) by (simp add: r0_def cache_def runs_def proc_at_def drv_idle_def)
  have cl: "content dev r0 = blocks (media r)" using clean[OF c0] by (simp add: fun_eq_iff blocks_def r0_def)
  obtain t where t: "read_head e r0 = Ok t" "cache p dev {} {} t" "logs dev S bs t" "content dev t = content dev r0"
    "media t = media r0" "panicking t = panicking r0"
    using read_head_ok[OF c0, of S bs] L(1,4) hd lh cl by (auto simp: r0_def S_def)
  obtain u where u: "install_trans e True t = Ok u" "did p dev {} t (home_ws S bs (content dev t)) u"
    using recover_ok[OF t(2) _ t(3)] y c(2) t(6) unfolding S_def by (auto simp: r0_def)
  define v where "v = upd_lh (\<lambda>h. h\<lparr>lh_n := 0\<rparr>) u"
  have "S \<notin> fst ` set (home_ws S bs (content dev t))" using L(5) log_apart(5)[OF L(3)] by (auto simp: fst_ws)
  then have Sv: "content dev v S = blocks (media r) S"
    using u(2) L(4) t(4) cl by (simp add: did_def v_def on_blocks_other)
  have kv: "lg_dev (klog v) = dev" "lg_start (klog v) = S" "lg_lh (klog v) = (lg_lh (klog u))\<lparr>lh_n := 0\<rparr>"
    using u(2) logsD[OF t(3)] by (simp_all add: did_def v_def)
  obtain w where w: "write_head e v = Ok w" "did p dev {} v [(S, put32 0 0 (blocks (media r) S))] w"
    using write_head_ok[of p dev "{}" v] didD[OF u(2)] kv L(4) Sv
    by (auto simp: v_def NBUF_def LOGBLOCKS_def put_head_def)
  have "initlog e dev sb r = Ok w" using t(1) u(1) w(1) by (simp add: initlog_def recover_from_log_def r0_def v_def)
  moreover have "media w = on_media (sectors (recovery_writes S bs (blocks (media r)))) (media r)"
    using u(2) w(2) t(4,5) cl by (simp add: did_def v_def recovery_writes_def r0_def)
  moreover have "lh_n (lg_lh (klog w)) = 0" using w(2) kv by (simp add: did_def)
  ultimately show ?thesis using didD[OF w(2)] by (auto simp: S_def)
qed

end


text \<open>
  A machine that stops after \<open>k\<close> of the writes of a commit has a log that is empty or whole, and what
  recovery then makes of the home blocks is all old up to the write of the header, all new from it on.
\<close>

lemma take_commit:
  obtains (before) "k \<le> length bs" "take k (commit_writes S bs h C) = take k (log_ws S bs C)"
  | (during) j where "length bs < k" "j \<le> length bs"
      "take k (commit_writes S bs h C) = log_ws S bs C @ [(S, put_head h (C S))] @ map (\<lambda>b. (b, C b)) (take j bs)"
  | (after) "length bs < k" "take k (commit_writes S bs h C) = commit_writes S bs h C"
proof -
  have n: "length (log_ws S bs C) = length bs" by (simp add: log_ws_def)
  consider "k \<le> length bs" | "length bs < k" "k \<le> 2 * length bs + 1" | "2 * length bs + 1 < k" by linarith
  then show ?thesis
  proof cases
    case 1
    then show ?thesis using before n by (simp add: commit_writes_def)
  next
    case 2
    define j where "j = k - length bs - 1"
    have j: "k = length bs + Suc j" "j \<le> length bs" using 2 by (simp_all add: j_def)
    show ?thesis by (rule during[of j]) (use 2 j n in \<open>simp_all add: commit_writes_def take_map\<close>)
  next
    case 3
    then show ?thesis using after n by (simp add: commit_writes_def)
  qed
qed

lemma crash_log:
  assumes y: "layout S bs" and h: "lh_n h = int (length bs)" "take (length bs) (lh_block h) = bs"
    and D0: "head_block [] (Old S)" "C S = Old S" and out: "\<And>b. home S b \<Longrightarrow> b \<notin> set bs \<Longrightarrow> C b = Old b"
  defines "D k \<equiv> on_blocks (take k (commit_writes S bs h C)) Old"
  obtains bs' where "layout S bs'" "head_block bs' (D k S)"
    "\<And>b. home S b \<Longrightarrow> on_blocks (recovery_writes S bs' (D k)) (D k) b = (if k \<le> length bs then Old b else C b)"
proof -
  note L = layoutD[OF y] and ap = log_apart[OF layoutD(3)[OF y]]
  define x where "x = put_head h (C S)"
  have x: "head_block bs x" unfolding x_def by (rule put_head_ok) (use D0 h L(1) in \<open>simp_all add: head_block_def\<close>)
  have Sn: "S \<notin> set bs" using L(5) ap(5) by blast
  have lS: "S \<notin> fst ` set (take k (log_ws S bs C))" for k
  proof
    assume "S \<in> fst ` set (take k (log_ws S bs C))"
    then obtain i where "i < length bs" "S = lblk S i" using fst_ws(3)[of k S bs C] by blast
    then show False using L(1) ap(2)[of i] by simp
  qed
  have lh: "b \<notin> fst ` set (take k (log_ws S bs C))" if "home S b" for b k
  proof
    assume "b \<in> fst ` set (take k (log_ws S bs C))"
    then obtain i where "i < length bs" "b = lblk S i" using fst_ws(3)[of k S bs C] by blast
    then show False using L(1) ap(4)[OF _ that, of i] by simp
  qed
  have ne: "home S b \<Longrightarrow> b \<noteq> S" for b using ap(5) by blast
  have e: "layout S []" using L(3) by (simp add: layout_def)
  show ?thesis
  proof (cases rule: take_commit[of k bs S h C])
    case before
    have "D k S = Old S" "home S b \<Longrightarrow> D k b = Old b" for b using lS lh by (simp_all add: D_def before(2) on_blocks_other)
    then show ?thesis using before(1) D0 ne by (intro that[OF e]) (simp_all add: recovery_writes_def home_ws_def)
  next
    case (during j)
    have l0: "take (length bs) (log_ws S bs C) = log_ws S bs C" by (simp add: log_ws_def)
    have DS: "D k S = x"
      using Sn set_take_subset[of j bs] by (auto simp: D_def during(3) on_blocks_map x_def)
    have Dl: "D k (lblk S i) = C (bs ! i)" if "i < length bs" for i
    proof -
      have "lblk S i \<notin> set (take j bs)" using L(1,5) ap(4) that set_take_subset[of j bs] by (metis in_set_takeD order_less_le_trans)
      then show ?thesis
        using log_ws_at[OF L(3,1) that, of C] ap(2)[of i] L(1) that by (simp add: D_def during(3) on_blocks_map)
    qed
    have Dh: "D k b = (if b \<in> set (take j bs) then C b else Old b)" if "home S b" for b
      using lh[OF that, of "length bs"] ne[OF that] l0 by (simp add: D_def during(3) on_blocks_map on_blocks_other)
    have hw: "home_ws S bs (D k) = map (\<lambda>b. (b, C b)) bs" by (rule home_ws_eq) (rule Dl)
    show ?thesis
    proof (rule that[OF y])
      fix b assume b: "home S b"
      then show "on_blocks (recovery_writes S bs (D k)) (D k) b = (if k \<le> length bs then Old b else C b)"
        using ne[OF b] during(1) Dh[OF b] out[OF b] by (auto simp: recovery_writes_def hw on_blocks_map)
    qed (use DS x in simp)
  next
    case after
    have l0: "take (length bs) (log_ws S bs C) = log_ws S bs C" by (simp add: log_ws_def)
    have Dk: "D k = on_blocks (commit_writes S bs h C) Old" by (simp only: D_def after(2))
    have "D k S = put32 0 0 x" by (simp add: Dk commit_writes_def x_def)
    moreover have "head_block [] (put32 0 0 x)" using x by (simp add: head_block_def get32_put32)
    moreover have "D k b = C b" if "home S b" for b
      using lh[OF that, of "length bs"] ne[OF that] l0 out[OF that]
      by (auto simp: Dk commit_writes_def on_blocks_map on_blocks_other)
    ultimately show ?thesis using after(1) ne by (intro that[OF e]) (simp_all add: recovery_writes_def home_ws_def)
  qed
qed


text \<open>
  \<open>recovers e dev S m F\<close>: whatever machine finds the disk \<open>m\<close> at its start, with nothing of the disk in its
  buffers but what the disk holds, \<open>initlog\<close> returns, leaves an empty log and the home blocks \<open>F\<close>.
\<close>

definition recovers :: "'a log_st_scheme kenv \<Rightarrow> 32 word \<Rightarrow> 32 word \<Rightarrow> (64 word \<Rightarrow> byte list) \<Rightarrow> (32 word \<Rightarrow> byte list) \<Rightarrow> bool" where
  "recovers e dev S m F \<longleftrightarrow>
     (\<forall>q r sb. cache q dev {} {} r \<and> \<not> panicking r \<and> length (lh_block (lg_lh (klog r))) = LOGBLOCKS \<and>
        sb_logstart sb = S \<and> media r = m \<longrightarrow>
        (\<exists>u. initlog e dev sb r = Ok u \<and> lh_n (lg_lh (klog u)) = 0 \<and> (\<forall>b. home S b \<longrightarrow> blocks (media u) b = F b)))"

lemma commit_in_range:
  assumes y: "layout S bs" and "(a, x) \<in> set (commit_writes S bs h C)" shows "a < 0x80000000"
proof -
  note L = layoutD[OF y] and ap = log_apart[OF layoutD(3)[OF y]]
  have "a \<in> lblk S ` {..<length bs} \<or> a = S \<or> a \<in> set bs"
    using assms(2) fst_ws(1)[of S bs C] by (force simp: commit_writes_def)
  then show ?thesis using L(1,4,5) ap(1,6) by fastforce
qed

context log_env
begin

lemma crash_safe:
  assumes c: "cache p dev (set bs) {} s" and l: "logs dev S bs s" and y: "layout S bs" "length bs < NBUF" "bs \<noteq> []"
    and old: "head_block [] (media s (sector_of S))"
  shows "\<exists>t W. commit e s = Ok t \<and> cache p dev {} {} t \<and> lh_n (lg_lh (klog t)) = 0 \<and>
    writes t = writes s @ W \<and> media t = on_media W (media s) \<and>
    (\<forall>b. home S b \<longrightarrow> content dev t b = content dev s b) \<and>
    (\<forall>k. recovers e dev S (on_media (take k W) (media s)) (if k \<le> length bs then blocks (media s) else content dev s))"
proof -
  note L = layoutD[OF y(1)] and ap = log_apart[OF layoutD(3)[OF y(1)]]
  define C where "C = content dev s"
  define W where "W = commit_writes S bs (lg_lh (klog s)) C"
  note rng = commit_in_range[OF y(1), of _ _ "lg_lh (klog s)" C, folded W_def]
  obtain t where t: "commit e s = Ok t" "cache p dev {} {} t" "klog t = (klog s)\<lparr>lg_lh := (lg_lh (klog s))\<lparr>lh_n := 0\<rparr>\<rparr>"
    "writes t = writes s @ sectors W" "media t = on_media (sectors W) (media s)"
    "\<forall>n < 0x80000000. content dev t n = on_blocks W C n"
    using commit_ok[OF c l y] by (auto simp: W_def C_def)
  have h: "lh_n (lg_lh (klog s)) = int (length bs)" "take (length bs) (lh_block (lg_lh (klog s))) = bs"
    using l by (simp_all add: logs_def)
  have Sn: "S \<notin> set bs" using L(5) ap(5) by blast
  have D0: "head_block [] (blocks (media s) S)" "C S = blocks (media s) S"
    using old clean[OF c Sn] by (simp_all add: blocks_def C_def)
  have out: "C b = blocks (media s) b" if "b \<notin> set bs" for b using clean[OF c that] by (simp add: C_def blocks_def)
  have "content dev t b = C b" if b: "home S b" for b
  proof -
    have ne: "b \<noteq> S" using ap(5)[OF b] by simp
    moreover have "b \<noteq> lblk S i" if "i < length bs" for i using ap(4)[OF _ b, of i] L(1) that by simp
    then have "b \<notin> fst ` set (log_ws S bs C)" by (auto simp: fst_ws(1))
    moreover note out[of b]
    moreover have "on_blocks (log_ws S bs C) C b = C b" using calculation(2) by (rule on_blocks_other)
    ultimately
    show ?thesis using t(6) ap(6)[OF b] by (auto simp: W_def commit_writes_def on_blocks_map)
  qed
  moreover have "\<exists>u. initlog e dev sb r = Ok u \<and> lh_n (lg_lh (klog u)) = 0 \<and>
      (\<forall>b. home S b \<longrightarrow> blocks (media u) b = (if k \<le> length bs then blocks (media s) else C) b)"
    if r: "cache q dev {} {} r" "\<not> panicking r" "length (lh_block (lg_lh (klog r))) = LOGBLOCKS" "sb_logstart sb = S"
      "media r = on_media (take k (sectors W)) (media s)" for k q r sb
  proof -
    define D where "D = on_blocks (take k W) (blocks (media s))"
    have rk: "a < 0x80000000" if "(a, x) \<in> set (take k W)" for a x using rng in_set_takeD[OF that] by blast
    have Dr: "blocks (media r) n = D n" if "n < 0x80000000" for n
      unfolding r(5) sectors_simps(5)[symmetric] D_def by (rule on_media_blocks[OF rk that])
    obtain bs' where b': "layout S bs'" "head_block bs' (D S)"
      "\<And>b. home S b \<Longrightarrow> on_blocks (recovery_writes S bs' D) D b = (if k \<le> length bs then blocks (media s) b else C b)"
      by (rule crash_log[where C = C and Old = "blocks (media s)" and k = k, OF y(1) h D0]) (use out in \<open>simp_all add: D_def W_def\<close>)
    note L' = layoutD[OF b'(1)]
    obtain u where u: "initlog e dev sb r = Ok u" "lh_n (lg_lh (klog u)) = 0"
      "media u = on_media (sectors (recovery_writes S bs' (blocks (media r)))) (media r)"
      using initlog_ok[OF r(1,2,3), of sb bs'] r(4) b'(1,2) Dr[OF L'(4)] by auto
    have eq: "recovery_writes S bs' (blocks (media r)) = recovery_writes S bs' D"
      using Dr[OF ap(1)] Dr[OF L'(4)] L'(1) by (auto simp: recovery_writes_def home_ws_def)
    have rr: "a < 0x80000000" if "(a, x) \<in> set (recovery_writes S bs' D)" for a x
      using that L'(4,5) ap(6) by (auto simp: recovery_writes_def home_ws_def)
    have "blocks (media u) b = (if k \<le> length bs then blocks (media s) else C) b" if b: "home S b" for b
    proof -
      have "blocks (media u) b = on_blocks (recovery_writes S bs' D) (blocks (media r)) b"
        using on_media_blocks[OF rr ap(6)[OF b], where m = "media r"] u(3) eq by simp
      also have "\<dots> = on_blocks (recovery_writes S bs' D) D b" by (rule on_blocks_cong) (rule Dr[OF ap(6)[OF b]])
      finally show ?thesis using b'(3)[OF b] by simp
    qed
    with u show ?thesis by blast
  qed
  then have "recovers e dev S (on_media (take k (sectors W)) (media s)) (if k \<le> length bs then blocks (media s) else C)" for k
    unfolding recovers_def by blast
  ultimately show ?thesis using t unfolding C_def[symmetric] by (intro exI[of _ t] exI[of _ "sectors W"]) simp
qed

end

interpretation vdl: log_env device_env
  by (rule log_env.intro) (rule vd.disk_env_axioms)


section \<open>A transaction\<close>

text \<open>Admission: an operation begins only when the log has room for all that are under way, and not during a commit.\<close>

lemma begin_loop_room:
  "post (begin_loop n e s) (\<lambda>t. \<not> lg_committing (klog t) \<and>
     lh_n (lg_lh (klog t)) + lg_outstanding (klog t) * MAXOPBLOCKS \<le> int LOGBLOCKS)"
proof (induction n arbitrary: s)
  case (Suc n)
  show ?case by (auto simp: release_def bnd_assertk post_def bnd_eq_Ok dest: postD[OF Suc.IH])
qed (simp add: post_def)

lemma begin_op_room:
  "post (begin_op e s) (\<lambda>t. \<not> lg_committing (klog t) \<and>
     lh_n (lg_lh (klog t)) + lg_outstanding (klog t) * MAXOPBLOCKS \<le> int LOGBLOCKS)"
  unfolding begin_op_def by (rule post_bnd_any) (rule begin_loop_room)

lemma log_slot_find:
  assumes l: "logs dev S bs s"
  shows "log_slot bn (lg_lh (klog s)) = (case find (\<lambda>i. bs ! i = bn) [0..<length bs] of None \<Rightarrow> length bs | Some i \<Rightarrow> i)"
proof -
  have "find (\<lambda>i. lh_block (lg_lh (klog s)) ! i = bn) [0..<length bs] = find (\<lambda>i. bs ! i = bn) [0..<length bs]"
    using l by (intro find_cong) (auto simp: logs_def, (metis nth_take)+)
  moreover have "nat (lh_n (lg_lh (klog s))) = length bs" using logsD(3)[OF l] by simp
  ultimately show ?thesis unfolding log_slot_def by (simp split: option.split)
qed

lemma logs_absorb:
  assumes l: "logs dev S bs s" and bn: "bs ! i = bn" "i < length bs"
  shows "logs dev S bs (upd_lh (\<lambda>h. h\<lparr>lh_block := (lh_block h)[i := bn]\<rparr>) s)"
proof -
  have "lh_block (lg_lh (klog s)) ! i = bn" using l bn unfolding logs_def by (metis nth_take)
  then have "(lh_block (lg_lh (klog s)))[i := bn] = lh_block (lg_lh (klog s))" using list_update_id by metis
  then show ?thesis using l by (simp add: logs_def)
qed

lemma logs_append:
  assumes l: "logs dev S bs s" and n: "length bs < LOGBLOCKS"
  shows "logs dev S (bs @ [bn]) (upd_lh (\<lambda>h. h\<lparr>lh_block := (lh_block h)[length bs := bn], lh_n := lh_n h + 1\<rparr>) s)"
  using l n by (auto simp: logs_def take_Suc_conv_app_nth)

text \<open>\<open>log_write\<close> adds the block at the end unless it is there, and pins it the first time.\<close>

definition absorb :: "32 word \<Rightarrow> 32 word list \<Rightarrow> 32 word list" where
  "absorb bn bs = (if bn \<in> set bs then bs else bs @ [bn])"

lemma absorb_simps [simp]: "set (absorb bn bs) = insert bn (set bs)" "distinct (absorb bn bs) = distinct bs"
  by (auto simp: absorb_def)

lemma log_write_ok:
  assumes c: "cache p dev (set bs) H s" and b: "b \<in> H" and l: "logs dev S bs s"
    and n: "length bs < LOGBLOCKS" and o: "1 \<le> lg_outstanding (klog s)"
  defines "bn \<equiv> b_blockno (bufs s ! b)"
  shows "\<exists>t. log_write b s = Ok t \<and> cache p dev (insert bn (set bs)) H t \<and> logs dev S (absorb bn bs) t \<and>
    content dev t = content dev s \<and> media t = media s \<and> writes t = writes s \<and>
    (\<forall>k. b_blockno (bufs t ! k) = b_blockno (bufs s ! k) \<and> b_data (bufs t ! k) = b_data (bufs s ! k))"
proof -
  have h: "held s = []" by (rule runsD(4)[OF cacheD(1)[OF c]])
  define i where "i = log_slot bn (lg_lh (klog s))"
  note g = logsD[OF l]
  show ?thesis
  proof (cases "find (\<lambda>i. bs ! i = bn) [0..<length bs]")
    case (Some j)
    then have j: "j < length bs" "bs ! j = bn" "i = j" using find_mem[OF Some] log_slot_find[OF l, of bn] by (simp_all add: i_def)
    define t where "t = upd_lh (\<lambda>h. h\<lparr>lh_block := (lh_block h)[i := bn]\<rparr>) s"
    have "upd_lh f (s\<lparr>held := [L_log]\<rparr>)\<lparr>held := []\<rparr> = upd_lh f s" for f using h by (cases s) (simp add: upd_lh_def)
    then have "log_write b s = Ok t"
      using n o h g(3) j by (simp add: log_write_def upd_lh_def assertk_def t_def flip: i_def bn_def)
    moreover have "bn \<in> set bs" using j by auto
    ultimately show ?thesis using c logs_absorb[OF l j(2,1)] j(3) by (auto simp: t_def absorb_def insert_absorb)
  next
    case None
    have "i = length bs" using log_slot_find[OF l, of bn] unfolding None i_def by simp
    moreover have "bn \<notin> set bs" using None by (auto simp: find_None_iff in_set_conv_nth)
    ultimately have j: "bn \<notin> set bs" "i = length bs" by simp_all
    obtain u where u: "bpin b s = Ok u" "cache p dev (insert bn (set bs)) H u" "content dev u = content dev s"
      "media u = media s" "writes u = writes s" "bio_only s u"
      "\<forall>k. b_blockno (bufs u ! k) = b_blockno (bufs s ! k) \<and> b_data (bufs u ! k) = b_data (bufs s ! k)"
      using bpin_ok[OF c b] j(1) by (auto simp: bn_def)
    have uu: "u = upd_buf b (\<lambda>k. k\<lparr>b_refcnt := b_refcnt k + 1\<rparr>) s"
      using u(1) bcache_section(1)[OF cacheD(1)[OF c]] by (simp add: bpin_def)
    define t where "t = upd_lh (\<lambda>h. h\<lparr>lh_block := (lh_block h)[length bs := bn], lh_n := lh_n h + 1\<rparr>) u"
    have sl: "log_slot (b_blockno (bufs s ! b)) (lg_lh (klog s)) = length bs" using j(2) by (simp add: i_def bn_def)
    have "log_write b s = Ok t"
      using n o h g(3) sl unfolding t_def uu bn_def
      by (cases s) (simp add: log_write_def upd_lh_def assertk_def bpin_def upd_buf_def Let_def)
    moreover have "logs dev S (absorb bn bs) t"
      using logs_append[OF _ n, of dev S u bn] l logs_klog[OF bio_only_klog[OF u(6)]] j(1) by (simp add: t_def absorb_def)
    ultimately show ?thesis using u by (simp add: t_def)
  qed
qed


lemma cache_klog [simp]:
  "cache p dev P H (s\<lparr>klog := k\<rparr>) = cache p dev P H s" "content dev (s\<lparr>klog := k\<rparr>) = content dev s"
  by (simp_all add: cache_def runs_def proc_at_def drv_idle_def fun_eq_iff content_def split: option.split)

lemma cache_woke:
  assumes "cache p dev P H s"
  shows "cache p dev P H (woke c s)" "content dev (woke c s) = content dev s"
proof -
  have a: "runs p (woke c s)" "p_pid (proc_at (woke c s) p) = p_pid (proc_at s p)"
    using runs_woke[OF cacheD(1)[OF assms]] runsD[OF cacheD(1)[OF assms]] by (simp_all add: woke_at)
  have b: "bufs (woke c s) = bufs s" "media (woke c s) = media s" "sleeplocks (woke c s) = sleeplocks s"
    "vq (woke c s) = vq s" by (simp_all add: woke_def)
  show "cache p dev P H (woke c s)" using assms a b by (simp add: cache_def drv_idle_def)
  show "content dev (woke c s) = content dev s" by (simp add: fun_eq_iff content_def b split: option.split)
qed

context log_env
begin

text \<open>The last operation to end commits, and leaves the log as it is at the start of a transaction.\<close>

lemma end_op_commits:
  assumes c: "cache p dev (set bs) {} s" and l: "logs dev S bs s" and y: "layout S bs" "length bs < NBUF" "bs \<noteq> []"
    and old: "head_block [] (media s (sector_of S))"
    and o: "lg_outstanding (klog s) = 1" "\<not> lg_committing (klog s)" "0 \<le> lg_ncommit (klog s)" "lg_ncommit (klog s) < 2 ^ 31 - 1"
  shows "\<exists>t W. end_op e s = Ok t \<and> cache p dev {} {} t \<and> logs dev S [] t \<and> lg_outstanding (klog t) = 0 \<and>
    \<not> lg_committing (klog t) \<and> writes t = writes s @ W \<and> (\<forall>b. home S b \<longrightarrow> content dev t b = content dev s b) \<and>
    (\<forall>k. recovers e dev S (on_media (take k W) (media s)) (if k \<le> length bs then blocks (media s) else content dev s))"
proof -
  define s0 where "s0 = s\<lparr>klog := (klog s)\<lparr>lg_outstanding := 0, lg_committing := True\<rparr>\<rparr>"
  have c0: "cache p dev (set bs) {} s0" "content dev s0 = content dev s" using c by (simp_all add: s0_def)
  have l0: "logs dev S bs s0" using l by (simp add: logs_def s0_def)
  have m0: "media s0 = media s" "writes s0 = writes s" by (simp_all add: s0_def)
  obtain t where t: "commit e s0 = Ok t" "cache p dev {} {} t" "klog t = (klog s0)\<lparr>lg_lh := (lg_lh (klog s0))\<lparr>lh_n := 0\<rparr>\<rparr>"
    using commit_ok[OF c0(1) l0 y] by blast
  obtain t' W where w: "commit e s0 = Ok t'" "writes t' = writes s0 @ W" "\<forall>b. home S b \<longrightarrow> content dev t' b = content dev s0 b"
    "\<forall>k. recovers e dev S (on_media (take k W) (media s0)) (if k \<le> length bs then blocks (media s0) else content dev s0)"
    using crash_safe[OF c0(1) l0 y] old m0 by auto
  have tt: "t' = t" using t(1) w(1) by simp
  have h: "held s = []" "held t = []" using runsD(4)[OF cacheD(1)[OF c]] runsD(4)[OF cacheD(1)[OF t(2)]] by simp_all
  have ar: "bnd (acquire L_log s) (\<lambda>s. release L_log (s\<lparr>klog := k\<rparr>)) = Ok (s\<lparr>klog := k\<rparr>)" for k
    using h(1) by (cases s) simp
  define u where "u = t\<lparr>klog := (klog t)\<lparr>lg_committing := False, lg_ncommit := lg_ncommit (klog s) + 1\<rparr>\<rparr>"
  have cu: "cache p dev {} {} u" "content dev u = content dev t" using t(2) by (simp_all add: u_def)
  have "no_proc_lock (u\<lparr>held := [L_log]\<rparr>)" "length (procs (u\<lparr>held := [L_log]\<rparr>)) = NPROC"
    using runsD(3)[OF cacheD(1)[OF cu(1)]] by (simp_all add: no_proc_lock_def)
  then have wk: "wakeup (Some Ch_log) (u\<lparr>held := [L_log]\<rparr>) = Ok (woke Ch_log (u\<lparr>held := [L_log]\<rparr>))" by (rule wakeup_woke)
  have rl: "release L_log (woke Ch_log (u\<lparr>held := [L_log]\<rparr>)) = Ok (woke Ch_log u)"
    using h(2) unfolding u_def by (cases t) (simp add: woke_def)
  have nc: "sadd32 (lg_ncommit (klog s)) 1 = Ok (lg_ncommit (klog s) + 1)" using o(3,4) by (simp add: sadd32_def INT_MAX_def)
  have kt: "lg_ncommit (klog t) = lg_ncommit (klog s)" by (simp add: t(3) s0_def)
  have s0r: "release L_log (s\<lparr>held := [L_log], klog := (klog s)\<lparr>lg_outstanding := 0, lg_committing := True\<rparr>\<rparr>) = Ok s0"
    using h(1) by (cases s) (simp add: s0_def)
  have ur: "t\<lparr>held := [L_log], klog := (klog t)\<lparr>lg_committing := False, lg_ncommit := lg_ncommit (klog s) + 1\<rparr>\<rparr> = u\<lparr>held := [L_log]\<rparr>"
    by (simp add: u_def)
  have "end_op e s = Ok (woke Ch_log u)"
    using h o(1,2) s0r t(1) nc kt wk rl ur by (simp add: end_op_def assertk_def)
  moreover have "logs dev S [] (woke Ch_log u)" "lg_outstanding (klog (woke Ch_log u)) = 0" "\<not> lg_committing (klog (woke Ch_log u))"
    "writes (woke Ch_log u) = writes t"
    using l by (simp_all add: woke_def u_def logs_def t(3) s0_def)
  ultimately show ?thesis using cache_woke[OF cu(1)] cu(2) w(2,3) w(4)[unfolded m0 c0(2)] m0 c0(2) tt
    by (intro exI[of _ "woke Ch_log u"] exI[of _ W]) (simp split del: if_split)
qed

end

end
