(* ===== verification/K_Ring.thy ===== *)
theory K_Ring
  imports K_String
begin

text \<open>
  Byte rings with free-running 32-bit indices, as the pipes and the console have them: byte number \<open>k\<close>
  is at \<open>k\<close> modulo the size of the buffer.  The queue a ring holds is a list; what holds of every
  queue is proved once, over an interface.
\<close>

section \<open>The interface of a bounded queue\<close>

locale bounded_queue =
  fixes put :: "byte \<Rightarrow> 'q \<Rightarrow> 'q" and get :: "'q \<Rightarrow> byte \<times> 'q" and contents :: "'q \<Rightarrow> byte list"
    and room :: "'q \<Rightarrow> bool" and ok :: "'q \<Rightarrow> bool"
  assumes contents_put: "ok q \<Longrightarrow> room q \<Longrightarrow> contents (put c q) = contents q @ [c]"
    and ok_put: "ok q \<Longrightarrow> room q \<Longrightarrow> ok (put c q)"
    and contents_get: "ok q \<Longrightarrow> contents q \<noteq> [] \<Longrightarrow> get q = (c, q') \<Longrightarrow> contents q = c # contents q'"
    and ok_get: "ok q \<Longrightarrow> contents q \<noteq> [] \<Longrightarrow> get q = (c, q') \<Longrightarrow> ok q'"

text \<open>A history: bytes put in and taken out, in any order the queue allows.\<close>

datatype qop = Put byte | Get

context bounded_queue
begin

fun play :: "qop list \<Rightarrow> 'q \<Rightarrow> (byte list \<times> 'q) option" where
  "play [] q = Some ([], q)"
| "play (Put c # ops) q = (if room q then play ops (put c q) else None)"
| "play (Get # ops) q =
     (if contents q = [] then None
      else let (c, q) = get q in map_option (\<lambda>(cs, q). (c # cs, q)) (play ops q))"

definition puts :: "qop list \<Rightarrow> byte list" where
  "puts ops = concat (map (\<lambda>x. case x of Put c \<Rightarrow> [c] | Get \<Rightarrow> []) ops)"

text \<open>First in, first out.\<close>

lemma fifo:
  assumes "ok q" and "play ops q = Some (out, q')"
  shows "ok q' \<and> contents q @ puts ops = out @ contents q'"
  using assms
proof (induction ops arbitrary: q out)
  case Nil
  then show ?case by (simp add: puts_def)
next
  case (Cons x ops)
  show ?case
  proof (cases x)
    case (Put c)
    with Cons.prems have r: "room q" "play ops (put c q) = Some (out, q')" by (simp_all split: if_splits)
    from Cons.IH[OF ok_put[OF Cons.prems(1) r(1)] r(2)] contents_put[OF Cons.prems(1) r(1)] Put
    show ?thesis by (simp add: puts_def)
  next
    case Get
    obtain c q1 where g: "get q = (c, q1)" by (cases "get q")
    with Cons.prems Get obtain cs where r: "contents q \<noteq> []" "play ops q1 = Some (cs, q')" "out = c # cs"
      by (auto split: if_splits)
    from Cons.IH[OF ok_get[OF Cons.prems(1) r(1) g] r(2)] contents_get[OF Cons.prems(1) r(1) g] r(3) Get
    show ?thesis by (simp add: puts_def)
  qed
qed

end

section \<open>Rings\<close>

definition at_index :: "byte list \<Rightarrow> 32 word \<Rightarrow> nat" where
  "at_index d k = unat k mod length d"

text \<open>The bytes from index \<open>r\<close> up to \<open>w\<close>.\<close>

definition ring_bytes :: "byte list \<Rightarrow> 32 word \<Rightarrow> 32 word \<Rightarrow> byte list" where
  "ring_bytes d r w = map (\<lambda>k. d ! at_index d (r + of_nat k)) [0..<unat (w - r)]"

definition ring_fits :: "nat \<Rightarrow> byte list \<Rightarrow> 32 word \<Rightarrow> 32 word \<Rightarrow> bool" where
  "ring_fits n d r w \<longleftrightarrow> length d = n \<and> 0 < n \<and> n dvd 2 ^ 32 \<and> unat (w - r) \<le> n"

lemma ring_bytes_length [simp]: "length (ring_bytes d r w) = unat (w - r)"
  by (simp add: ring_bytes_def)

lemma ring_bytes_empty: "ring_bytes d r w = [] \<longleftrightarrow> r = w"
  by (auto simp: ring_bytes_def unat_eq_0 right_minus_eq)

text \<open>Indices less than the size apart are at different places, also over the wrap of the counter.\<close>

lemma at_index_offset:
  assumes "n dvd 2 ^ 32" "length d = n" shows "at_index d (r + of_nat k) = (unat r + k) mod n"
proof -
  have "unat (r + of_nat k) = (unat r + k) mod 2 ^ 32"
    by (simp add: unat_word_ariths unat_of_nat mod_simps take_bit_eq_mod)
  then show ?thesis using assms by (simp add: at_index_def mod_mod_cancel)
qed

lemma at_index_apart:
  assumes "n dvd 2 ^ 32" "length d = n" "j < k" "k < j + n"
  shows "at_index d (r + of_nat j) \<noteq> at_index d (r + of_nat k)"
proof
  assume "at_index d (r + of_nat j) = at_index d (r + of_nat k)"
  then have "(unat r + k) mod n = (unat r + j) mod n" using at_index_offset[OF assms(1,2)] by simp
  then have "n dvd (unat r + k) - (unat r + j)" by (rule mod_eq_dvd_iff_nat[THEN iffD1, rotated]) (use assms in simp)
  then have "n dvd k - j" by simp
  then show False using assms(3,4) by (auto dest: dvd_imp_le)
qed

lemma word_split: "unat (w - r) = m \<Longrightarrow> w = r + of_nat m" for w r :: "32 word"
proof -
  assume "unat (w - r) = m"
  then have "of_nat m = w - r" by (simp flip: \<open>unat (w - r) = m\<close>)
  then show ?thesis by simp
qed

lemma ring_put:
  assumes f: "ring_fits n d r w" and room: "unat (w - r) < n" and n: "n < 2 ^ 32"
  shows "ring_bytes (d[at_index d w := c]) r (w + 1) = ring_bytes d r w @ [c]"
    "ring_fits n (d[at_index d w := c]) r (w + 1)"
proof -
  note f' = f[unfolded ring_fits_def]
  define m where "m = unat (w - r)"
  have w: "w = r + of_nat m" by (rule word_split) (simp add: m_def)
  have u: "unat (w + 1 - r) = Suc m"
  proof -
    define x where "x = w - r"
    have "w + 1 - r = x + 1" by (simp add: x_def)
    moreover have "unat (x + 1) = unat x + 1" using room n by (simp add: unat_word_ariths x_def[symmetric])
    ultimately have "unat (w + 1 - r) = unat x + 1" by metis
    then show ?thesis by (simp add: m_def x_def)
  qed
  have idx: "at_index (d[i := c]) k = at_index d k" for i k by (simp add: at_index_def)
  have lt: "at_index d k < length d" for k using f' by (simp add: at_index_def)
  have "d[at_index d w := c] ! at_index d (r + of_nat k) = d ! at_index d (r + of_nat k)" if "k < m" for k
  proof -
    have "at_index d (r + of_nat k) \<noteq> at_index d w"
      unfolding w using at_index_apart[of n d k m r] that f' room by (simp add: m_def)
    then show ?thesis by (metis nth_list_update_neq)
  qed
  then have "map (\<lambda>k. d[at_index d w := c] ! at_index d (r + of_nat k)) [0..<m] = map (\<lambda>k. d ! at_index d (r + of_nat k)) [0..<m]"
    by (intro map_cong) auto
  then show "ring_bytes (d[at_index d w := c]) r (w + 1) = ring_bytes d r w @ [c]"
    using lt[of w] by (simp add: ring_bytes_def u idx m_def[symmetric] w[symmetric])
  show "ring_fits n (d[at_index d w := c]) r (w + 1)" using f' u room by (simp add: ring_fits_def m_def)
qed

lemma ring_get:
  assumes f: "ring_fits n d r w" and ne: "r \<noteq> w"
  shows "ring_bytes d r w = d ! at_index d r # ring_bytes d (r + 1) w" "ring_fits n d (r + 1) w"
proof -
  obtain m where m: "unat (w - r) = Suc m" using ne by (metis nat.exhaust right_minus_eq unat_eq_0)
  have u: "unat (w - (r + 1)) = m"
  proof -
    define x where "x = w - r"
    have "w - (r + 1) = x - 1" by (simp add: x_def)
    moreover have "unat (x - 1) = m" using m by (simp add: unat_sub_if' x_def[symmetric])
    ultimately show ?thesis by metis
  qed
  have "map (\<lambda>k. d ! at_index d (r + of_nat k)) [0..<Suc m] =
      d ! at_index d r # map (\<lambda>k. d ! at_index d (r + 1 + of_nat k)) [0..<m]"
    by (rule nth_equalityI) (auto simp: nth_Cons ac_simps split: nat.split simp del: upt_Suc)
  then show "ring_bytes d r w = d ! at_index d r # ring_bytes d (r + 1) w"
    by (simp add: ring_bytes_def m u del: upt_Suc)
  show "ring_fits n d (r + 1) w" using f u m by (simp add: ring_fits_def)
qed

end
