(* ===== verification/K_Pipe.thy ===== *)
theory K_Pipe
  imports K_Log K_Ring
begin

text \<open>
  \<open>xv6/kernel/pipe.c\<close> but for \<open>pipealloc\<close>, which is with the files.  A pipe is a record under the address of
  its page; what a system call copies goes through an automatic object of the kernel at \<open>auto_addr\<close>.
\<close>

section \<open>The state\<close>

definition PIPESIZE :: nat where "PIPESIZE = 512"

record pipe =
  pi_data :: "byte list"
  pi_nread :: "32 word"
  pi_nwrite :: "32 word"
  pi_readopen :: bool
  pi_writeopen :: bool

record pipe_st = log_st +
  pipes :: "addr \<Rightarrow> pipe"
  auto_addr :: addr

definition upd_pipe :: "addr \<Rightarrow> (pipe \<Rightarrow> pipe) \<Rightarrow> 'a pipe_st_scheme \<Rightarrow> 'a pipe_st_scheme" where
  "upd_pipe pi f s = s\<lparr>pipes := (pipes s)(pi := f (pipes s pi))\<rparr>"

section \<open>The code\<close>

definition pipeclose :: "addr \<Rightarrow> bool \<Rightarrow> 'a pipe_st_scheme \<Rightarrow> 'a pipe_st_scheme res" where
  "pipeclose pi writable s =
     bnd (acquire (L_pipe pi) s) (\<lambda>s.
     bnd (if writable then wakeup (Some (Ch_nread pi)) (upd_pipe pi (\<lambda>q. q\<lparr>pi_writeopen := False\<rparr>) s)
          else wakeup (Some (Ch_nwrite pi)) (upd_pipe pi (\<lambda>q. q\<lparr>pi_readopen := False\<rparr>) s)) (\<lambda>s.
       if \<not> pi_readopen (pipes s pi) \<and> \<not> pi_writeopen (pipes s pi) then
         bnd (release (L_pipe pi) s) (kfree pi)
       else release (L_pipe pi) s))"

text \<open>A byte put into the ring and the next one taken out.\<close>

definition put_byte :: "byte \<Rightarrow> pipe \<Rightarrow> pipe" where
  "put_byte ch q = q\<lparr>pi_data := (pi_data q)[unat (pi_nwrite q) mod PIPESIZE := ch], pi_nwrite := pi_nwrite q + 1\<rparr>"

definition next_byte :: "pipe \<Rightarrow> byte" where
  "next_byte q = pi_data q ! (unat (pi_nread q) mod PIPESIZE)"

definition pipe_full :: "pipe \<Rightarrow> bool" where
  "pipe_full q \<longleftrightarrow> pi_nwrite q = pi_nread q + 512"

definition pipewrite_end :: "addr \<Rightarrow> int \<Rightarrow> 'a pipe_st_scheme \<Rightarrow> (int \<times> 'a pipe_st_scheme) res" where
  "pipewrite_end pi i s =
     bnd (wakeup (Some (Ch_nread pi)) s) (\<lambda>s.
     bnd (release (L_pipe pi) s) (\<lambda>s. Ok (i, s)))"

text \<open>The loop of \<open>pipewrite\<close>: at most \<open>k\<close> times it sleeps.\<close>

function pipewrite_loop :: "nat \<Rightarrow> 'a pipe_st_scheme kenv \<Rightarrow> nat \<Rightarrow> addr \<Rightarrow> addr \<Rightarrow> int \<Rightarrow> int \<Rightarrow>
    'a pipe_st_scheme \<Rightarrow> (int \<times> 'a pipe_st_scheme) res" where
  "pipewrite_loop k e pr pi a n i s =
     (if i < n then
        if \<not> pi_readopen (pipes s pi) then bnd (release (L_pipe pi) s) (\<lambda>s. Ok (-1, s))
        else bnd (killed pr s) (\<lambda>(kd, s).
          if kd then bnd (release (L_pipe pi) s) (\<lambda>s. Ok (-1, s))
          else if pipe_full (pipes s pi) then
            bnd (wakeup (Some (Ch_nread pi)) s) (\<lambda>s.
              case k of
                0 \<Rightarrow> Spin
              | Suc k \<Rightarrow> bnd (sleep_on e (Ch_nwrite pi) (L_pipe pi) s) (pipewrite_loop k e pr pi a n i))
          else
            bnd (copyin (p_pagetable (proc_at s pr)) (p_sz (proc_at s pr)) (auto_addr s) (a + word_of_int i) 1 s) (\<lambda>(r, s).
              if r = -1 then pipewrite_end pi (if i = 0 then -1 else i) s
              else pipewrite_loop k e pr pi a n (i + 1) (upd_pipe pi (put_byte (mem s (auto_addr s))) s)))
      else pipewrite_end pi i s)"
  by pat_completeness auto
termination
  by (relation "measure (\<lambda>(k, e, pr, pi, a, n, i, s). k + nat (n - i))") auto

declare pipewrite_loop.simps [simp del]

definition pipewrite :: "'a pipe_st_scheme kenv \<Rightarrow> addr \<Rightarrow> addr \<Rightarrow> int \<Rightarrow> 'a pipe_st_scheme \<Rightarrow> (int \<times> 'a pipe_st_scheme) res" where
  "pipewrite e pi a n s =
     bnd (myproc s) (\<lambda>pr.
     bnd (acquire (L_pipe pi) s) (pipewrite_loop (patience e) e pr pi a n 0))"

text \<open>The wait of \<open>piperead\<close>: whether it found the process killed.\<close>

fun piperead_wait :: "nat \<Rightarrow> 'a pipe_st_scheme kenv \<Rightarrow> nat \<Rightarrow> addr \<Rightarrow> 'a pipe_st_scheme \<Rightarrow> (bool \<times> 'a pipe_st_scheme) res" where
  "piperead_wait k e pr pi s =
     (if pi_nread (pipes s pi) = pi_nwrite (pipes s pi) \<and> pi_writeopen (pipes s pi) then
        bnd (killed pr s) (\<lambda>(kd, s).
          if kd then Ok (True, s)
          else (case k of
                  0 \<Rightarrow> Spin
                | Suc k \<Rightarrow> bnd (sleep_on e (Ch_nread pi) (L_pipe pi) s) (piperead_wait k e pr pi)))
      else Ok (False, s))"

declare piperead_wait.simps [simp del]

function piperead_copy :: "nat \<Rightarrow> addr \<Rightarrow> addr \<Rightarrow> int \<Rightarrow> int \<Rightarrow> 'a pipe_st_scheme \<Rightarrow> (int \<times> 'a pipe_st_scheme) res" where
  "piperead_copy pr pi a n i s =
     (if i < n \<and> pi_nread (pipes s pi) \<noteq> pi_nwrite (pipes s pi) then
        let ch = next_byte (pipes s pi);
            s = s\<lparr>mem := (mem s)(auto_addr s := ch)\<rparr> in
        bnd (copyout (p_pagetable (proc_at s pr)) (p_sz (proc_at s pr)) (a + word_of_int i) (auto_addr s) 1 s) (\<lambda>(r, s).
          if r = -1 then Ok (if i = 0 then -1 else i, s)
          else piperead_copy pr pi a n (i + 1) (upd_pipe pi (\<lambda>q. q\<lparr>pi_nread := pi_nread q + 1\<rparr>) s))
      else Ok (i, s))"
  by pat_completeness auto
termination
  by (relation "measure (\<lambda>(pr, pi, a, n, i, s). nat (n - i))") auto

declare piperead_copy.simps [simp del]

definition piperead :: "'a pipe_st_scheme kenv \<Rightarrow> addr \<Rightarrow> addr \<Rightarrow> int \<Rightarrow> 'a pipe_st_scheme \<Rightarrow> (int \<times> 'a pipe_st_scheme) res" where
  "piperead e pi a n s =
     bnd (myproc s) (\<lambda>pr.
     bnd (acquire (L_pipe pi) s) (\<lambda>s.
     bnd (piperead_wait (patience e) e pr pi s) (\<lambda>(kd, s).
       if kd then bnd (release (L_pipe pi) s) (\<lambda>s. Ok (-1, s))
       else bnd (piperead_copy pr pi a n 0 s) (\<lambda>(i, s).
            bnd (wakeup (Some (Ch_nwrite pi)) s) (\<lambda>s.
            bnd (release (L_pipe pi) s) (\<lambda>s. Ok (i, s)))))))"

section \<open>A pipe is a queue of bytes\<close>

definition pipe_ok :: "pipe \<Rightarrow> bool" where
  "pipe_ok q \<longleftrightarrow> ring_fits PIPESIZE (pi_data q) (pi_nread q) (pi_nwrite q)"

definition pipe_bytes :: "pipe \<Rightarrow> byte list" where
  "pipe_bytes q = ring_bytes (pi_data q) (pi_nread q) (pi_nwrite q)"

definition take_byte :: "pipe \<Rightarrow> byte \<times> pipe" where
  "take_byte q = (next_byte q, q\<lparr>pi_nread := pi_nread q + 1\<rparr>)"

lemma pipe_full_iff: "pipe_ok q \<Longrightarrow> pipe_full q \<longleftrightarrow> length (pipe_bytes q) = PIPESIZE"
proof -
  have "unat (w - r) = 512 \<longleftrightarrow> w = r + 512" for w r :: "32 word"
  proof
    assume "unat (w - r) = 512"
    from word_split[OF this] show "w = r + 512" by simp
  qed simp
  then show ?thesis by (simp add: pipe_full_def pipe_bytes_def PIPESIZE_def)
qed

interpretation pq: bounded_queue put_byte take_byte pipe_bytes "\<lambda>q. \<not> pipe_full q" pipe_ok
proof unfold_locales
  fix q c assume q: "pipe_ok q" "\<not> pipe_full q"
  have at: "unat (pi_nwrite q) mod PIPESIZE = at_index (pi_data q) (pi_nwrite q)"
    using q(1) by (simp add: pipe_ok_def ring_fits_def at_index_def)
  have f: "ring_fits PIPESIZE (pi_data q) (pi_nread q) (pi_nwrite q)" using q(1) by (simp add: pipe_ok_def)
  have "unat (pi_nwrite q - pi_nread q) < PIPESIZE"
    using q pipe_full_iff[OF q(1)] by (simp add: pipe_ok_def ring_fits_def pipe_bytes_def)
  moreover have "PIPESIZE < 2 ^ 32" by (simp add: PIPESIZE_def)
  ultimately have r: "ring_bytes ((pi_data q)[at_index (pi_data q) (pi_nwrite q) := c]) (pi_nread q) (pi_nwrite q + 1) =
      ring_bytes (pi_data q) (pi_nread q) (pi_nwrite q) @ [c]"
    "ring_fits PIPESIZE ((pi_data q)[at_index (pi_data q) (pi_nwrite q) := c]) (pi_nread q) (pi_nwrite q + 1)"
    by (rule ring_put[OF f])+
  show "pipe_bytes (put_byte c q) = pipe_bytes q @ [c]" "pipe_ok (put_byte c q)"
    using r by (simp_all add: pipe_bytes_def pipe_ok_def put_byte_def at)
next
  fix q c q' assume q: "pipe_ok q" "pipe_bytes q \<noteq> []" "take_byte q = (c, q')"
  have at: "unat (pi_nread q) mod PIPESIZE = at_index (pi_data q) (pi_nread q)"
    using q(1) by (simp add: pipe_ok_def ring_fits_def at_index_def)
  have f: "ring_fits PIPESIZE (pi_data q) (pi_nread q) (pi_nwrite q)" using q(1) by (simp add: pipe_ok_def)
  have "pi_nread q \<noteq> pi_nwrite q" using q(2) by (simp add: pipe_bytes_def ring_bytes_empty)
  note r = ring_get[OF f this]
  have q': "c = next_byte q" "q' = q\<lparr>pi_nread := pi_nread q + 1\<rparr>" using q(3) by (simp_all add: take_byte_def)
  show "pipe_bytes q = c # pipe_bytes q'" using r(1) by (simp add: q' pipe_bytes_def next_byte_def at)
  show "pipe_ok q'" using r(2) by (simp add: q' pipe_ok_def)
qed

end
