(* ===== verification/K_Fs.thy ===== *)
theory K_Fs
  imports K_Pipe
begin

text \<open>
  \<open>xv6/kernel/fs.c\<close> up to the directories: the free map, the inodes and their contents.  An inode in memory
  is its index in the table.  The bytes of a buffer are also in memory while a copy is made from or to them,
  at \<open>buf_addr\<close>.
\<close>

section \<open>The state\<close>

record inode =
  i_dev :: "32 word"
  i_inum :: "32 word"
  i_ref :: int
  i_valid :: bool
  i_type :: "16 word"
  i_major :: "16 word"
  i_minor :: "16 word"
  i_nlink :: "16 word"
  i_size :: "32 word"
  i_addrs :: "32 word list"

record fs_st = pipe_st +
  superb :: superblock
  inodes :: "inode list"
  buf_addr :: "nat \<Rightarrow> addr"

abbreviation T_DIR :: "16 word" where "T_DIR \<equiv> 1"
abbreviation T_FILE :: "16 word" where "T_FILE \<equiv> 2"
abbreviation T_DEVICE :: "16 word" where "T_DEVICE \<equiv> 3"

definition NINODE :: nat where "NINODE = 50"

definition FSMAGIC :: "32 word" where "FSMAGIC = 0x10203040"

definition inode_at :: "'a fs_st_scheme \<Rightarrow> nat \<Rightarrow> inode" where
  "inode_at s ip = inodes s ! ip"

definition upd_inode :: "nat \<Rightarrow> (inode \<Rightarrow> inode) \<Rightarrow> 'a fs_st_scheme \<Rightarrow> 'a fs_st_scheme" where
  "upd_inode ip f s = s\<lparr>inodes := (inodes s)[ip := f (inodes s ! ip)]\<rparr>"

text \<open>\<open>IBLOCK\<close> and \<open>BBLOCK\<close>, and where an inode is in its block: \<open>IPB\<close> is 16, an on-disk inode 64 bytes.\<close>

definition IBLOCK :: "32 word \<Rightarrow> superblock \<Rightarrow> 32 word" where
  "IBLOCK i sb = i div 16 + sb_inodestart sb"

definition BBLOCK :: "32 word \<Rightarrow> superblock \<Rightarrow> 32 word" where
  "BBLOCK b sb = b div 8192 + sb_bmapstart sb"

text \<open>The \<open>short\<close> at byte \<open>i\<close> of a block.\<close>

definition get16 :: "byte list \<Rightarrow> nat \<Rightarrow> 16 word" where
  "get16 d i = ucast (d ! i) OR push_bit 8 (ucast (d ! (i + 1)))"

definition put16 :: "nat \<Rightarrow> 16 word \<Rightarrow> byte list \<Rightarrow> byte list" where
  "put16 i w d = d[i := ucast w, i + 1 := ucast (drop_bit 8 w)]"

record dinode =
  di_type :: "16 word"
  di_major :: "16 word"
  di_minor :: "16 word"
  di_nlink :: "16 word"
  di_size :: "32 word"
  di_addrs :: "32 word list"

text \<open>The inode number \<open>inum\<close> in the bytes \<open>d\<close> of its block.\<close>

definition dip :: "32 word \<Rightarrow> nat" where
  "dip inum = 64 * (unat inum mod 16)"

definition get_dinode :: "byte list \<Rightarrow> 32 word \<Rightarrow> dinode" where
  "get_dinode d inum =
     (let o' = dip inum in
      \<lparr>di_type = get16 d o', di_major = get16 d (o' + 2), di_minor = get16 d (o' + 4), di_nlink = get16 d (o' + 6),
       di_size = get32 d (o' div 4 + 2), di_addrs = map (\<lambda>i. get32 d (o' div 4 + 3 + i)) [0..<13]\<rparr>)"

definition put_dinode :: "32 word \<Rightarrow> dinode \<Rightarrow> byte list \<Rightarrow> byte list" where
  "put_dinode inum di d =
     (let o' = dip inum;
          d = put16 o' (di_type di) d;
          d = put16 (o' + 2) (di_major di) d;
          d = put16 (o' + 4) (di_minor di) d;
          d = put16 (o' + 6) (di_nlink di) d;
          d = put32 (o' div 4 + 2) (di_size di) d
      in foldl (\<lambda>d i. put32 (o' div 4 + 3 + i) (di_addrs di ! i) d) d [0..<13])"

section \<open>Blocks\<close>

definition sb_of :: "byte list \<Rightarrow> superblock" where
  "sb_of d = \<lparr>sb_magic = get32 d 0, sb_size = get32 d 1, sb_nblocks = get32 d 2, sb_ninodes = get32 d 3,
     sb_nlog = get32 d 4, sb_logstart = get32 d 5, sb_inodestart = get32 d 6, sb_bmapstart = get32 d 7\<rparr>"

definition readsb :: "'a fs_st_scheme kenv \<Rightarrow> 32 word \<Rightarrow> 'a fs_st_scheme \<Rightarrow> 'a fs_st_scheme res" where
  "readsb e dev s =
     bnd (bread e dev 1 s) (\<lambda>(bp, s). brelse bp (s\<lparr>superb := sb_of (b_data (bufs s ! bp))\<rparr>))"

definition bzero :: "'a fs_st_scheme kenv \<Rightarrow> 32 word \<Rightarrow> 32 word \<Rightarrow> 'a fs_st_scheme \<Rightarrow> 'a fs_st_scheme res" where
  "bzero e dev bno s =
     bnd (bread e dev bno s) (\<lambda>(bp, s).
     bnd (log_write bp (set_data bp (replicate 1024 0) s)) (brelse bp))"

text \<open>The bit of block \<open>bi\<close> of a map block.\<close>

definition bit_clear :: "byte list \<Rightarrow> nat \<Rightarrow> bool" where
  "bit_clear d bi \<longleftrightarrow> d ! (bi div 8) AND push_bit (bi mod 8) 1 = 0"

definition set_bit_of :: "nat \<Rightarrow> byte list \<Rightarrow> byte list" where
  "set_bit_of bi d = d[bi div 8 := d ! (bi div 8) OR push_bit (bi mod 8) 1]"

definition clear_bit_of :: "nat \<Rightarrow> byte list \<Rightarrow> byte list" where
  "clear_bit_of bi d = d[bi div 8 := d ! (bi div 8) AND NOT (push_bit (bi mod 8) 1)]"

text \<open>The inner loop of \<open>balloc\<close> over one block of the map.\<close>

definition free_in_map :: "byte list \<Rightarrow> int \<Rightarrow> superblock \<Rightarrow> nat option" where
  "free_in_map d b sb = find (bit_clear d) (takeWhile (\<lambda>bi. (word_of_int (b + int bi) :: 32 word) < sb_size sb) [0..<8192])"

fun balloc_from :: "nat \<Rightarrow> 'a fs_st_scheme kenv \<Rightarrow> 32 word \<Rightarrow> int \<Rightarrow> 'a fs_st_scheme \<Rightarrow> (32 word \<times> 'a fs_st_scheme) res" where
  "balloc_from 0 e dev b s = Spin"
| "balloc_from (Suc n) e dev b s =
     (if (word_of_int b :: 32 word) < sb_size (superb s) then
        bnd (bread e dev (BBLOCK (word_of_int b) (superb s)) s) (\<lambda>(bp, s).
          case free_in_map (b_data (bufs s ! bp)) b (superb s) of
            Some bi \<Rightarrow>
              bnd (log_write bp (set_data bp (set_bit_of bi (b_data (bufs s ! bp))) s)) (\<lambda>s.
              bnd (brelse bp s) (\<lambda>s.
              bnd (bzero e dev (word_of_int (b + int bi)) s) (\<lambda>s. Ok (word_of_int (b + int bi), s))))
          | None \<Rightarrow> bnd (brelse bp s) (\<lambda>s. bnd (sadd32 b 8192) (\<lambda>b. balloc_from n e dev b s)))
      else bnd (printk (''balloc: out of blocks'' @ nl) [] s) (\<lambda>s. Ok (0, s)))"

text \<open>A map block has the bits of 8192 blocks.\<close>

definition balloc :: "'a fs_st_scheme kenv \<Rightarrow> 32 word \<Rightarrow> 'a fs_st_scheme \<Rightarrow> (32 word \<times> 'a fs_st_scheme) res" where
  "balloc e dev s = balloc_from (unat (sb_size (superb s)) div 8192 + 2) e dev 0 s"

definition bfree :: "'a fs_st_scheme kenv \<Rightarrow> 32 word \<Rightarrow> 32 word \<Rightarrow> 'a fs_st_scheme \<Rightarrow> 'a fs_st_scheme res" where
  "bfree e dev b s =
     bnd (bread e dev (BBLOCK b (superb s)) s) (\<lambda>(bp, s).
       let bi = unat b mod 8192; d = b_data (bufs s ! bp) in
       bnd (assertk (\<not> bit_clear d bi) ''freeing free block'') (\<lambda>_.
       bnd (log_write bp (set_data bp (clear_bit_of bi d) s)) (brelse bp)))"

section \<open>Inodes\<close>

definition iinit :: "'a fs_st_scheme \<Rightarrow> 'a fs_st_scheme" where
  "iinit s = foldl (\<lambda>s i. initsleeplock (SL_inode i) s) s [0..<NINODE]"

definition iget :: "32 word \<Rightarrow> 32 word \<Rightarrow> 'a fs_st_scheme \<Rightarrow> (nat \<times> 'a fs_st_scheme) res" where
  "iget dev inum s =
     bnd (acquire L_itable s) (\<lambda>s.
       case find (\<lambda>i. 0 < i_ref (inodes s ! i) \<and> i_dev (inodes s ! i) = dev \<and> i_inum (inodes s ! i) = inum) [0..<NINODE] of
         Some ip \<Rightarrow>
           bnd (sadd32 (i_ref (inodes s ! ip)) 1) (\<lambda>r.
           bnd (release L_itable (upd_inode ip (\<lambda>k. k\<lparr>i_ref := r\<rparr>) s)) (\<lambda>s. Ok (ip, s)))
       | None \<Rightarrow>
           (case find (\<lambda>i. i_ref (inodes s ! i) = 0) [0..<NINODE] of
              None \<Rightarrow> Panic ''iget: no inodes''
            | Some ip \<Rightarrow>
                bnd (release L_itable (upd_inode ip (\<lambda>k. k\<lparr>i_dev := dev, i_inum := inum, i_ref := 1, i_valid := False\<rparr>) s))
                  (\<lambda>s. Ok (ip, s))))"

fun ialloc_from :: "nat list \<Rightarrow> 'a fs_st_scheme kenv \<Rightarrow> 32 word \<Rightarrow> 16 word \<Rightarrow> 'a fs_st_scheme \<Rightarrow>
    (nat option \<times> 'a fs_st_scheme) res" where
  "ialloc_from [] e dev ty s = bnd (printk (''ialloc: no inodes'' @ nl) [] s) (\<lambda>s. Ok (None, s))"
| "ialloc_from (i # is) e dev ty s =
     (let inum = of_nat i in
      bnd (bread e dev (IBLOCK inum (superb s)) s) (\<lambda>(bp, s).
        let d = b_data (bufs s ! bp) in
        if get16 d (dip inum) = 0 then
          let d = take (dip inum) d @ replicate 64 0 @ drop (dip inum + 64) d;
              d = put16 (dip inum) ty d in
          bnd (log_write bp (set_data bp d s)) (\<lambda>s.
          bnd (brelse bp s) (\<lambda>s.
          bnd (iget dev inum s) (\<lambda>(ip, s). Ok (Some ip, s))))
        else bnd (brelse bp s) (\<lambda>s. bnd (sadd32 (int i) 1) (\<lambda>_. ialloc_from is e dev ty s))))"

definition ialloc :: "'a fs_st_scheme kenv \<Rightarrow> 32 word \<Rightarrow> 16 word \<Rightarrow> 'a fs_st_scheme \<Rightarrow> (nat option \<times> 'a fs_st_scheme) res" where
  "ialloc e dev ty s = ialloc_from [1..<unat (sb_ninodes (superb s))] e dev ty s"

definition to_dinode :: "inode \<Rightarrow> dinode" where
  "to_dinode k = \<lparr>di_type = i_type k, di_major = i_major k, di_minor = i_minor k, di_nlink = i_nlink k,
     di_size = i_size k, di_addrs = i_addrs k\<rparr>"

definition iupdate :: "'a fs_st_scheme kenv \<Rightarrow> nat \<Rightarrow> 'a fs_st_scheme \<Rightarrow> 'a fs_st_scheme res" where
  "iupdate e ip s =
     bnd (bread e (i_dev (inode_at s ip)) (IBLOCK (i_inum (inode_at s ip)) (superb s)) s) (\<lambda>(bp, s).
     bnd (log_write bp (set_data bp (put_dinode (i_inum (inode_at s ip)) (to_dinode (inode_at s ip)) (b_data (bufs s ! bp))) s))
       (brelse bp))"

definition idup :: "nat \<Rightarrow> 'a fs_st_scheme \<Rightarrow> (nat \<times> 'a fs_st_scheme) res" where
  "idup ip s =
     bnd (acquire L_itable s) (\<lambda>s.
     bnd (sadd32 (i_ref (inode_at s ip)) 1) (\<lambda>r.
     bnd (release L_itable (upd_inode ip (\<lambda>k. k\<lparr>i_ref := r\<rparr>) s)) (\<lambda>s. Ok (ip, s))))"

definition load_inode :: "dinode \<Rightarrow> inode \<Rightarrow> inode" where
  "load_inode di k = k\<lparr>i_valid := True, i_type := di_type di, i_major := di_major di, i_minor := di_minor di,
     i_nlink := di_nlink di, i_size := di_size di, i_addrs := di_addrs di\<rparr>"

definition ilock :: "'a fs_st_scheme kenv \<Rightarrow> nat \<Rightarrow> 'a fs_st_scheme \<Rightarrow> 'a fs_st_scheme res" where
  "ilock e ip s =
     bnd (assertk (1 \<le> i_ref (inode_at s ip)) ''ilock'') (\<lambda>_.
     bnd (acquiresleep e (SL_inode ip) s) (\<lambda>s.
       if \<not> i_valid (inode_at s ip) then
         bnd (bread e (i_dev (inode_at s ip)) (IBLOCK (i_inum (inode_at s ip)) (superb s)) s) (\<lambda>(bp, s).
           let di = get_dinode (b_data (bufs s ! bp)) (i_inum (inode_at s ip)) in
           bnd (brelse bp s) (\<lambda>s.
             let s = upd_inode ip (load_inode di) s in
             bnd (assertk (i_type (inode_at s ip) \<noteq> 0) ''ilock: no type'') (\<lambda>_. Ok s)))
       else Ok s))"

definition iunlock :: "nat \<Rightarrow> 'a fs_st_scheme \<Rightarrow> 'a fs_st_scheme res" where
  "iunlock ip s =
     bnd (holdingsleep (SL_inode ip) s) (\<lambda>(h, s).
     bnd (assertk (h \<and> 1 \<le> i_ref (inode_at s ip)) ''iunlock'') (\<lambda>_. releasesleep (SL_inode ip) s))"

definition ifree :: "'a fs_st_scheme kenv \<Rightarrow> 32 word \<Rightarrow> 32 word \<Rightarrow> 'a fs_st_scheme \<Rightarrow> 'a fs_st_scheme res" where
  "ifree e dev inum s =
     bnd (bread e dev (IBLOCK inum (superb s)) s) (\<lambda>(bp, s).
     bnd (log_write bp (set_data bp (put16 (dip inum) 0 (b_data (bufs s ! bp))) s)) (brelse bp))"

section \<open>The contents of an inode\<close>

definition bmap :: "'a fs_st_scheme kenv \<Rightarrow> nat \<Rightarrow> 32 word \<Rightarrow> 'a fs_st_scheme \<Rightarrow> (32 word \<times> 'a fs_st_scheme) res" where
  "bmap e ip bn s =
     (let dev = i_dev (inode_at s ip) in
      if bn < 12 then
        let addr = i_addrs (inode_at s ip) ! unat bn in
        if addr = 0 then
          bnd (balloc e dev s) (\<lambda>(addr, s).
            if addr = 0 then Ok (0, s)
            else Ok (addr, upd_inode ip (\<lambda>k. k\<lparr>i_addrs := (i_addrs k)[unat bn := addr]\<rparr>) s))
        else Ok (addr, s)
      else
        let bn = bn - 12 in
        if bn < 256 then
          bnd (if i_addrs (inode_at s ip) ! 12 = 0
               then bnd (balloc e dev s) (\<lambda>(addr, s).
                      Ok (addr, if addr = 0 then s else upd_inode ip (\<lambda>k. k\<lparr>i_addrs := (i_addrs k)[12 := addr]\<rparr>) s))
               else Ok (i_addrs (inode_at s ip) ! 12, s)) (\<lambda>(ind, s).
            if ind = 0 then Ok (0, s)
            else bnd (bread e dev ind s) (\<lambda>(bp, s).
              let addr = get32 (b_data (bufs s ! bp)) (unat bn) in
              bnd (if addr = 0
                   then bnd (balloc e dev s) (\<lambda>(addr, s).
                          if addr \<noteq> 0
                          then bnd (log_write bp (set_data bp (put32 (unat bn) addr (b_data (bufs s ! bp))) s)) (\<lambda>s. Ok (addr, s))
                          else Ok (0, s))
                   else Ok (addr, s)) (\<lambda>(addr, s).
              bnd (brelse bp s) (\<lambda>s. Ok (addr, s)))))
        else Panic ''bmap: out of range'')"

definition itrunc :: "'a fs_st_scheme kenv \<Rightarrow> nat \<Rightarrow> 'a fs_st_scheme \<Rightarrow> 'a fs_st_scheme res" where
  "itrunc e ip s =
     (let dev = i_dev (inode_at s ip) in
      bnd (for_each (\<lambda>i s.
             let addr = i_addrs (inode_at s ip) ! i in
             if addr \<noteq> 0 then
               bnd (bfree e dev addr s) (\<lambda>s. Ok (upd_inode ip (\<lambda>k. k\<lparr>i_addrs := (i_addrs k)[i := 0]\<rparr>) s))
             else Ok s) [0..<12] s) (\<lambda>s.
      bnd (let ind = i_addrs (inode_at s ip) ! 12 in
           if ind \<noteq> 0 then
             bnd (bread e dev ind s) (\<lambda>(bp, s).
             bnd (for_each (\<lambda>j s.
                    let a = get32 (b_data (bufs s ! bp)) j in
                    if a \<noteq> 0 then bfree e dev a s else Ok s) [0..<256] s) (\<lambda>s.
             bnd (brelse bp s) (\<lambda>s.
             bnd (bfree e dev ind s) (\<lambda>s.
               Ok (upd_inode ip (\<lambda>k. k\<lparr>i_addrs := (i_addrs k)[12 := 0]\<rparr>) s)))))
           else Ok s) (\<lambda>s.
        iupdate e ip (upd_inode ip (\<lambda>k. k\<lparr>i_size := 0\<rparr>) s))))"

definition iput :: "'a fs_st_scheme kenv \<Rightarrow> nat \<Rightarrow> 'a fs_st_scheme \<Rightarrow> 'a fs_st_scheme res" where
  "iput e ip s =
     bnd (acquire L_itable s) (\<lambda>s.
       let k = inode_at s ip;
           is_last = (i_ref k = 1 \<and> i_valid k \<and> i_nlink k = 0) in
       bnd (if is_last then
              bnd (acquiresleep e (SL_inode ip) s) (\<lambda>s.
              bnd (release L_itable s) (\<lambda>s.
              bnd (itrunc e ip s) (\<lambda>s.
              bnd (releasesleep (SL_inode ip) (upd_inode ip (\<lambda>k. k\<lparr>i_valid := False\<rparr>) s)) (acquire L_itable))))
            else Ok s) (\<lambda>s.
       bnd (sadd32 (i_ref (inode_at s ip)) (-1)) (\<lambda>r.
       bnd (release L_itable (upd_inode ip (\<lambda>k. k\<lparr>i_ref := r\<rparr>) s)) (\<lambda>s.
         if is_last then ifree e (i_dev k) (i_inum k) s else Ok s))))"

definition iunlockput :: "'a fs_st_scheme kenv \<Rightarrow> nat \<Rightarrow> 'a fs_st_scheme \<Rightarrow> 'a fs_st_scheme res" where
  "iunlockput e ip s = bnd (iunlock ip s) (iput e ip)"

definition ireclaim :: "'a fs_st_scheme kenv \<Rightarrow> 32 word \<Rightarrow> 'a fs_st_scheme \<Rightarrow> 'a fs_st_scheme res" where
  "ireclaim e dev s =
     for_each (\<lambda>i s.
       let inum = of_nat i in
       bnd (bread e dev (IBLOCK inum (superb s)) s) (\<lambda>(bp, s).
         let di = get_dinode (b_data (bufs s ! bp)) inum in
         bnd (if di_type di \<noteq> 0 \<and> di_nlink di = 0 then
                bnd (printk (''ireclaim: orphaned inode %d'' @ nl) [A32 inum] s) (\<lambda>s.
                bnd (iget dev inum s) (\<lambda>(ip, s). Ok (Some ip, s)))
              else Ok (None, s)) (\<lambda>(r, s).
         bnd (brelse bp s) (\<lambda>s.
           case r of
             None \<Rightarrow> Ok s
           | Some ip \<Rightarrow>
               bnd (begin_op e s) (\<lambda>s.
               bnd (ilock e ip s) (\<lambda>s.
               bnd (iunlock ip s) (\<lambda>s.
               bnd (iput e ip s) (end_op e))))))))
       [1..<unat (sb_ninodes (superb s))] s"

definition fsinit :: "'a fs_st_scheme kenv \<Rightarrow> 32 word \<Rightarrow> 'a fs_st_scheme \<Rightarrow> 'a fs_st_scheme res" where
  "fsinit e dev s =
     bnd (readsb e dev s) (\<lambda>s.
     bnd (assertk (sb_magic (superb s) = FSMAGIC) ''invalid file system'') (\<lambda>_.
     bnd (initlog e dev (superb s) s) (ireclaim e dev)))"

record stat =
  st_dev :: "32 word"
  st_ino :: "32 word"
  st_type :: "16 word"
  st_nlink :: "16 word"
  st_size :: "64 word"

definition stati :: "nat \<Rightarrow> 'a fs_st_scheme \<Rightarrow> stat" where
  "stati ip s = (let k = inode_at s ip in
     \<lparr>st_dev = i_dev k, st_ino = i_inum k, st_type = i_type k, st_nlink = i_nlink k, st_size = ucast (i_size k)\<rparr>)"

text \<open>The bytes of an object of the kernel, put into memory where it is, and read back from there.\<close>

definition put_bytes :: "addr \<Rightarrow> byte list \<Rightarrow> bytes \<Rightarrow> bytes" where
  "put_bytes a bs m = (\<lambda>x. if within x a (length bs) then bs ! unat (x - a) else m x)"

definition get_bytes :: "bytes \<Rightarrow> addr \<Rightarrow> nat \<Rightarrow> byte list" where
  "get_bytes m a n = map (\<lambda>i. m (a + of_nat i)) [0..<n]"

definition show_buf :: "nat \<Rightarrow> 'a fs_st_scheme \<Rightarrow> 'a fs_st_scheme" where
  "show_buf bp s = s\<lparr>mem := put_bytes (buf_addr s bp) (b_data (bufs s ! bp)) (mem s)\<rparr>"

definition keep_buf :: "nat \<Rightarrow> 'a fs_st_scheme \<Rightarrow> 'a fs_st_scheme" where
  "keep_buf bp s = set_data bp (get_bytes (mem s) (buf_addr s bp) 1024) s"

text \<open>Every turn of the loops of \<open>readi\<close> and \<open>writei\<close> moves a byte at least.\<close>

fun readi_loop :: "nat \<Rightarrow> 'a fs_st_scheme kenv \<Rightarrow> nat \<Rightarrow> bool \<Rightarrow> addr \<Rightarrow> 32 word \<Rightarrow> 32 word \<Rightarrow> 32 word \<Rightarrow>
    'a fs_st_scheme \<Rightarrow> (32 word \<times> 'a fs_st_scheme) res" where
  "readi_loop k e ip user dst off n tot s =
     (if tot < n then
        (case k of
           0 \<Rightarrow> Spin
         | Suc k \<Rightarrow>
             bnd (bmap e ip (off div 1024) s) (\<lambda>(addr, s).
               if addr = 0 then Ok (tot, s)
               else bnd (bread e (i_dev (inode_at s ip)) addr s) (\<lambda>(bp, s).
                 let m = min (n - tot) (1024 - off mod 1024);
                     s = show_buf bp s in
                 bnd (either_copyout user dst (buf_addr s bp + ucast (off mod 1024)) (ucast m) s) (\<lambda>(r, s).
                 bnd (brelse bp s) (\<lambda>s.
                   if r = -1 then Ok (-1, s)
                   else readi_loop k e ip user (dst + ucast m) (off + m) n (tot + m) s)))))
      else Ok (tot, s))"

declare readi_loop.simps [simp del]

definition readi :: "'a fs_st_scheme kenv \<Rightarrow> nat \<Rightarrow> bool \<Rightarrow> addr \<Rightarrow> 32 word \<Rightarrow> 32 word \<Rightarrow> 'a fs_st_scheme \<Rightarrow>
    (int \<times> 'a fs_st_scheme) res" where
  "readi e ip user dst off n s =
     (let size = i_size (inode_at s ip) in
      if size < off \<or> off + n < off then Ok (0, s)
      else
        let n = (if size < off + n then size - off else n) in
        bnd (readi_loop (unat n) e ip user dst off n 0 s) (\<lambda>(tot, s). Ok (sint tot, s)))"

fun writei_loop :: "nat \<Rightarrow> 'a fs_st_scheme kenv \<Rightarrow> nat \<Rightarrow> bool \<Rightarrow> addr \<Rightarrow> 32 word \<Rightarrow> 32 word \<Rightarrow> 32 word \<Rightarrow>
    'a fs_st_scheme \<Rightarrow> ((32 word \<times> 32 word) \<times> 'a fs_st_scheme) res" where
  "writei_loop k e ip user src off n tot s =
     (if tot < n then
        (case k of
           0 \<Rightarrow> Spin
         | Suc k \<Rightarrow>
             bnd (bmap e ip (off div 1024) s) (\<lambda>(addr, s).
               if addr = 0 then Ok ((tot, off), s)
               else bnd (bread e (i_dev (inode_at s ip)) addr s) (\<lambda>(bp, s).
                 let m = min (n - tot) (1024 - off mod 1024);
                     s = show_buf bp s in
                 bnd (either_copyin (buf_addr s bp + ucast (off mod 1024)) user src (ucast m) s) (\<lambda>(r, s).
                 bnd (log_write bp (keep_buf bp s)) (\<lambda>s.
                 bnd (brelse bp s) (\<lambda>s.
                   if r = -1 then Ok ((tot, off), s)
                   else writei_loop k e ip user (src + ucast m) (off + m) n (tot + m) s))))))
      else Ok ((tot, off), s))"

declare writei_loop.simps [simp del]

text \<open>\<open>MAXFILE * BSIZE\<close> is 274432.\<close>

definition writei :: "'a fs_st_scheme kenv \<Rightarrow> nat \<Rightarrow> bool \<Rightarrow> addr \<Rightarrow> 32 word \<Rightarrow> 32 word \<Rightarrow> 'a fs_st_scheme \<Rightarrow>
    (int \<times> 'a fs_st_scheme) res" where
  "writei e ip user src off n s =
     (let size = i_size (inode_at s ip) in
      if size < off \<or> off + n < off then Ok (-1, s)
      else if 274432 < off + n then Ok (-1, s)
      else bnd (writei_loop (unat n) e ip user src off n 0 s) (\<lambda>((tot, off), s).
        let s = (if i_size (inode_at s ip) < off then upd_inode ip (\<lambda>k. k\<lparr>i_size := off\<rparr>) s else s) in
        bnd (iupdate e ip s) (\<lambda>s. Ok (sint tot, s))))"

end
