(* ===== verification/K_FsBlocks.thy ===== *)
theory K_FsBlocks
  imports K_Fs
begin

text \<open>
  The file system inside a transaction.  What a block holds is a function of its number; every operation of
  \<open>fs.c\<close> on blocks is shown to change that function as its name says, to log what it changes, and to
  leave the rest of the kernel as it was.
\<close>

section \<open>A transaction under way\<close>

text \<open>The log has the blocks \<open>bs\<close>, the process holds the buffers \<open>H\<close>.\<close>

definition tx :: "nat \<Rightarrow> 32 word \<Rightarrow> 32 word \<Rightarrow> 32 word list \<Rightarrow> nat set \<Rightarrow> 'a log_st_scheme \<Rightarrow> bool" where
  "tx p dev S bs H s \<longleftrightarrow>
     cache p dev (set bs) H s \<and> logs dev S bs s \<and> 1 \<le> lg_outstanding (klog s) \<and> distinct bs \<and> finite H"

lemma txD:
  assumes "tx p dev S bs H s"
  shows "cache p dev (set bs) H s" "logs dev S bs s" "1 \<le> lg_outstanding (klog s)" "distinct bs" "finite H" "runs p s"
  using assms cacheD(1) by (auto simp: tx_def)

text \<open>Room in the log and in the cache for \<open>k\<close> more blocks.\<close>

definition room :: "nat \<Rightarrow> 32 word list \<Rightarrow> nat set \<Rightarrow> bool" where
  "room k bs H \<longleftrightarrow> length bs + card H + k \<le> LOGBLOCKS"

lemma room_less: "room k bs H \<Longrightarrow> j \<le> k \<Longrightarrow> room j bs H"
  by (simp add: room_def)

lemma length_absorb: "length (absorb b bs) \<le> Suc (length bs)"
  by (simp add: absorb_def)

lemma room_absorb: "room (Suc k) bs H \<Longrightarrow> room k (absorb b bs) H"
  using length_absorb[of b bs] by (simp add: room_def)

text \<open>What storage changes, and no more.\<close>

definition sto_only :: "'a log_st_scheme \<Rightarrow> 'a log_st_scheme \<Rightarrow> bool" where
  "sto_only s t \<longleftrightarrow>
     t = s\<lparr>kout := kout t, procs := procs t, sleeplocks := sleeplocks t, bufs := bufs t, vq := vq t, media := media t,
       writes := writes t, klog := klog t\<rparr> \<and>
     map pinfo (procs t) = map pinfo (procs s) \<and> (\<forall>i. sleeplocks t (SL_inode i) = sleeplocks s (SL_inode i)) \<and>
     lg_outstanding (klog t) = lg_outstanding (klog s)"

lemma sto_only_refl [simp]: "sto_only s s"
  by (simp add: sto_only_def)

lemma sto_only_trans: "sto_only s t \<Longrightarrow> sto_only t u \<Longrightarrow> sto_only s u"
proof -
  assume a: "sto_only s t" "sto_only t u"
  obtain ko pr sl bs v m w k where t: "t = s\<lparr>kout := ko, procs := pr, sleeplocks := sl, bufs := bs, vq := v, media := m, writes := w, klog := k\<rparr>"
    using a(1) unfolding sto_only_def by blast
  obtain ko' pr' sl' bs' v' m' w' k' where u: "u = t\<lparr>kout := ko', procs := pr', sleeplocks := sl', bufs := bs', vq := v', media := m', writes := w', klog := k'\<rparr>"
    using a(2) unfolding sto_only_def by blast
  have "u = s\<lparr>kout := kout u, procs := procs u, sleeplocks := sleeplocks u, bufs := bufs u, vq := vq u, media := media u, writes := writes u, klog := klog u\<rparr>"
    unfolding u t by (cases s) simp
  with a show ?thesis by (simp add: sto_only_def)
qed

lemma bio_only_sto: "bio_only s t \<Longrightarrow> sto_only s t"
proof -
  assume a: "bio_only s t"
  then obtain pr sl bs v m w where t: "t = s\<lparr>procs := pr, sleeplocks := sl, bufs := bs, vq := v, media := m, writes := w\<rparr>"
    unfolding bio_only_def by blast
  have "t = s\<lparr>kout := kout t, procs := procs t, sleeplocks := sleeplocks t, bufs := bufs t, vq := vq t, media := media t, writes := writes t, klog := klog t\<rparr>"
    unfolding t by (cases s) simp
  with a bio_only_klog[OF a] show ?thesis by (simp add: sto_only_def bio_only_def)
qed

text \<open>The fields of the file system are out of reach.\<close>

lemma sto_only_fields:
  fixes s t :: "'a fs_st_scheme"
  assumes "sto_only s t"
  shows "superb t = superb s" "inodes t = inodes s" "buf_addr t = buf_addr s" "mem t = mem s" "pipes t = pipes s"
    "auto_addr t = auto_addr s" "panicking t = panicking s" "curproc t = curproc s" "held t = held s"
    "inode_at t ip = inode_at s ip"
proof -
  obtain ko pr sl bs v m w k where "t = s\<lparr>kout := ko, procs := pr, sleeplocks := sl, bufs := bs, vq := v, media := m, writes := w, klog := k\<rparr>"
    using assms unfolding sto_only_def by blast
  then show "superb t = superb s" "inodes t = inodes s" "buf_addr t = buf_addr s" "mem t = mem s" "pipes t = pipes s"
    "auto_addr t = auto_addr s" "panicking t = panicking s" "curproc t = curproc s" "held t = held s"
    "inode_at t ip = inode_at s ip"
    by (simp_all add: inode_at_def)
qed

lemma log_write_sto: "log_write b s = Ok t \<Longrightarrow> held s = [] \<Longrightarrow> sto_only s t"
proof -
  assume a: "log_write b s = Ok t" "held s = []"
  have "t = s\<lparr>bufs := bufs t, klog := klog t\<rparr> \<and> lg_outstanding (klog t) = lg_outstanding (klog s)"
    using a unfolding log_write_def
    by (cases s) (auto simp: bnd_eq_Ok assertk_def upd_lh_def bpin_def upd_buf_def Let_def release_Ok split: if_splits)
  then obtain bs k where t: "t = s\<lparr>bufs := bs, klog := k\<rparr>" "lg_outstanding k = lg_outstanding (klog s)" by metis
  have "t = s\<lparr>kout := kout t, procs := procs t, sleeplocks := sleeplocks t, bufs := bufs t, vq := vq t, media := media t, writes := writes t, klog := klog t\<rparr>"
    unfolding t(1) by (cases s) simp
  with t show ?thesis by (simp add: sto_only_def)
qed


section \<open>Reading and changing a block\<close>

definition not_held :: "'a log_st_scheme \<Rightarrow> nat set \<Rightarrow> 32 word \<Rightarrow> bool" where
  "not_held s H bn \<longleftrightarrow> (\<forall>i \<in> H. b_blockno (bufs s ! i) \<noteq> bn)"

text \<open>The held buffers keep their blocks.\<close>

definition same_held :: "'a log_st_scheme \<Rightarrow> nat set \<Rightarrow> 'a log_st_scheme \<Rightarrow> bool" where
  "same_held s H t \<longleftrightarrow> (\<forall>i \<in> H. b_blockno (bufs t ! i) = b_blockno (bufs s ! i))"

lemma same_held_simps [simp]: "same_held s H s" "same_held s {} t" "not_held s {} bn"
  by (simp_all add: same_held_def not_held_def)

lemma same_held_trans: "same_held s H t \<Longrightarrow> same_held t H u \<Longrightarrow> same_held s H u"
  by (simp add: same_held_def)

lemma not_held_same: "same_held s H t \<Longrightarrow> not_held t H bn = not_held s H bn"
  by (auto simp: same_held_def not_held_def)

lemma clean_held:
  assumes "cache p dev P H s" "n \<notin> P" "not_held s H n" shows "content dev s n = media s (sector_of n)"
proof (cases "cached (bufs s) dev n")
  case (Some i)
  note ci = cached_Some[OF Some]
  have "i \<notin> H" using ci assms(3) by (auto simp: not_held_def)
  then show ?thesis using Some ci cacheD(7)[OF assms(1), of i] assms(2) by (auto simp: content_def buf_ok_def)
qed (simp add: content_def)

context log_env
begin

lemma read_block:
  assumes x: "tx p dev S bs H s" and bn: "bn < 0x80000000" "not_held s H bn" and r: "room 1 bs H"
  shows "\<exists>b t. bread e dev bn s = Ok (b, t) \<and> b \<notin> H \<and> tx p dev S bs (insert b H) t \<and> b_blockno (bufs t ! b) = bn \<and>
    b_data (bufs t ! b) = content dev s bn \<and> content dev t = content dev s \<and> media t = media s \<and>
    sto_only s t \<and> same_held s H t"
proof -
  note d = txD[OF x]
  have "card (set bs) + card H < NBUF" using r card_length[of bs] by (simp add: room_def LOGBLOCKS_def NBUF_def)
  then obtain k where k: "k < NBUF" "b_refcnt (bufs s ! k) = 0" using free_buf[OF d(1)] by auto
  obtain b t where b: "bread e dev bn s = Ok (b, t)" "got p dev (set bs) H s bn b t"
    using bread_ok[OF d(1) bn(1) _ k] bn(2) by (auto simp: not_held_def)
  note g = b(2)[unfolded got_def]
  have dt: "b_data (bufs t ! b) = content dev t bn"
    using content_at[of p dev "set bs" "insert b H" t b] held_dev[of p dev "set bs" "insert b H" t b] g by auto
  have "tx p dev S bs (insert b H) t"
    using g d logs_klog[OF bio_only_klog[of s t]] bio_only_klog[of s t] by (simp add: tx_def)
  with b(1) g dt bio_only_sto[of s t] show ?thesis by (auto simp: same_held_def)
qed

end

lemma log_block_ok:
  assumes x: "tx p dev S bs H s" and b: "b \<in> H" and n: "length bs < LOGBLOCKS"
  defines "bn \<equiv> b_blockno (bufs s ! b)"
  shows "\<exists>t. log_write b (set_data b d s) = Ok t \<and> tx p dev S (absorb bn bs) H t \<and>
    content dev t = (content dev s)(bn := d) \<and> media t = media s \<and> sto_only s t \<and>
    (\<forall>k. b_blockno (bufs t ! k) = b_blockno (bufs s ! k))"
proof -
  note d = txD[OF x]
  define s1 where "s1 = set_data b d s"
  note sd = set_data_ok[OF d(1) b, where x = d, folded s1_def]
  have k: "klog s1 = klog s" by (rule bio_only_klog[OF sd(5)])
  have bl: "b_blockno (bufs s1 ! i) = b_blockno (bufs s ! i)" for i using sd(3,4) by (cases "i = b") simp_all
  obtain t where t: "log_write b s1 = Ok t" "cache p dev (insert bn (set bs)) H t" "logs dev S (absorb bn bs) t"
    "content dev t = content dev s1" "media t = media s1" "\<forall>i. b_blockno (bufs t ! i) = b_blockno (bufs s1 ! i)"
    using log_write_ok[OF sd(1) b _ n, of S] d(2,3) k logs_klog[OF k] bl by (auto simp: bn_def)
  have h: "held s1 = []" using runsD(4)[OF d(6)] by (simp add: s1_def)
  have so: "sto_only s t" by (rule sto_only_trans[OF bio_only_sto[OF sd(5)] log_write_sto[OF t(1) h]])
  then have "1 \<le> lg_outstanding (klog t)" using d(3) by (simp add: sto_only_def)
  then have "tx p dev S (absorb bn bs) H t" using t(2,3) d by (simp add: tx_def)
  with t so sd(2) bl show ?thesis by (auto simp: bn_def s1_def)
qed

lemma let_go:
  assumes x: "tx p dev S bs (insert b H) s" and b: "b \<notin> H"
    and cl: "b_blockno (bufs s ! b) \<in> set bs \<or> b_data (bufs s ! b) = media s (sector_of (b_blockno (bufs s ! b)))"
  shows "\<exists>t. brelse b s = Ok t \<and> tx p dev S bs H t \<and> content dev t = content dev s \<and> media t = media s \<and>
    sto_only s t \<and> (\<forall>k. b_blockno (bufs t ! k) = b_blockno (bufs s ! k))"
proof -
  note d = txD[OF x]
  obtain t where t: "brelse b s = Ok t" "cache p dev (set bs) (insert b H - {b}) t" "content dev t = content dev s"
    "media t = media s" "bio_only s t" "\<forall>i. b_blockno (bufs t ! i) = b_blockno (bufs s ! i)"
    using brelse_ok[OF d(1) _ cl] by auto
  have "tx p dev S bs H t"
    using t(2) d b logs_klog[OF bio_only_klog[OF t(5)]] bio_only_klog[OF t(5)] by (simp add: tx_def)
  with t bio_only_sto show ?thesis by blast
qed

lemma put_block:
  assumes x: "tx p dev S bs (insert b H) s" and b: "b \<notin> H" and n: "length bs < LOGBLOCKS"
  defines "bn \<equiv> b_blockno (bufs s ! b)"
  shows "\<exists>t. bnd (log_write b (set_data b d s)) (brelse b) = Ok t \<and> tx p dev S (absorb bn bs) H t \<and>
    content dev t = (content dev s)(bn := d) \<and> media t = media s \<and> sto_only s t \<and> same_held s H t"
proof -
  obtain u where u: "log_write b (set_data b d s) = Ok u" "tx p dev S (absorb bn bs) (insert b H) u"
    "content dev u = (content dev s)(bn := d)" "media u = media s" "sto_only s u" "\<forall>k. b_blockno (bufs u ! k) = b_blockno (bufs s ! k)"
    using log_block_ok[OF x insertI1 n, of d] unfolding bn_def by blast
  obtain t where t: "brelse b u = Ok t" "tx p dev S (absorb bn bs) H t" "content dev t = content dev u" "media t = media u"
    "sto_only u t" "\<forall>k. b_blockno (bufs t ! k) = b_blockno (bufs u ! k)"
    using let_go[OF u(2) b] u(6) by (auto simp: bn_def)
  show ?thesis using u t sto_only_trans[OF u(5) t(5)] by (auto simp: same_held_def)
qed


text \<open>Printing.\<close>

lemma tx_printk:
  assumes x: "tx p dev S bs H s" "\<not> panicking s" and t: "printk_text fmt ap = Ok tx'"
  shows "\<exists>t. printk fmt ap s = Ok t \<and> tx p dev S bs H t \<and> content dev t = content dev s \<and> media t = media s \<and>
    sto_only s t \<and> same_held s H t"
proof -
  note d = txD[OF x(1)]
  define t where "t = s\<lparr>kout := kout s @ tx'\<rparr>"
  have pk: "printk fmt ap s = Ok t"
    unfolding t_def by (rule printk_Ok) (use runsD(4)[OF d(6)] x(2) t in simp_all)
  have "cache p dev (set bs) H t" using d(1) by (simp add: t_def cache_def runs_def proc_at_def drv_idle_def)
  then have "tx p dev S bs H t" using d by (simp add: tx_def logs_def t_def)
  moreover have "content dev t = content dev s" by (simp add: t_def fun_eq_iff content_def split: option.split)
  moreover have "t = s\<lparr>kout := kout t, procs := procs t, sleeplocks := sleeplocks t, bufs := bufs t, vq := vq t,
      media := media t, writes := writes t, klog := klog t\<rparr>" unfolding t_def by (cases s) simp
  then have "sto_only s t" by (simp add: sto_only_def t_def)
  ultimately show ?thesis using pk by (auto simp: t_def same_held_def)
qed

section \<open>The free map\<close>

text \<open>A disk small enough for \<open>int\<close> block numbers, with the map before the end of it.\<close>

definition sb_ok :: "superblock \<Rightarrow> bool" where
  "sb_ok sb \<longleftrightarrow> sb_size sb < 0x40000000 \<and> unat (sb_bmapstart sb) + unat (sb_size sb) div 8192 < unat (sb_size sb) \<and>
     unat (sb_inodestart sb) + unat (sb_ninodes sb) div 16 < unat (sb_size sb) \<and> sb_ninodes sb < 0x40000000"

definition free_at :: "(32 word \<Rightarrow> byte list) \<Rightarrow> superblock \<Rightarrow> 32 word \<Rightarrow> bool" where
  "free_at C sb b \<longleftrightarrow> bit_clear (C (BBLOCK b sb)) (unat b mod 8192)"

text \<open>The first free block, if there is one.\<close>

definition first_free :: "(32 word \<Rightarrow> byte list) \<Rightarrow> superblock \<Rightarrow> 32 word option" where
  "first_free C sb = find (free_at C sb) (map of_nat [0..<unat (sb_size sb)])"

text \<open>The blocks after the allocation or the release of \<open>b\<close>.\<close>

definition marked :: "superblock \<Rightarrow> 32 word \<Rightarrow> (32 word \<Rightarrow> byte list) \<Rightarrow> 32 word \<Rightarrow> byte list" where
  "marked sb b C = C(BBLOCK b sb := set_bit_of (unat b mod 8192) (C (BBLOCK b sb)))"

definition unmarked :: "superblock \<Rightarrow> 32 word \<Rightarrow> (32 word \<Rightarrow> byte list) \<Rightarrow> 32 word \<Rightarrow> byte list" where
  "unmarked sb b C = C(BBLOCK b sb := clear_bit_of (unat b mod 8192) (C (BBLOCK b sb)))"

lemma find_append: "find P (xs @ ys) = (case find P xs of None \<Rightarrow> find P ys | Some x \<Rightarrow> Some x)"
  by (induction xs) simp_all

lemma find_map: "find P (map f xs) = map_option f (find (\<lambda>x. P (f x)) xs)"
  by (induction xs) simp_all

lemma takeWhile_upt: "takeWhile (\<lambda>i. i < n) [0..<m] = [0..<min m n]"
proof (induction m)
  case (Suc m)
  then show ?case by (cases "m < n") (simp_all add: takeWhile_append min_def, auto)
qed simp

lemma BBLOCK_same: "unat b mod 8192 = 0 \<Longrightarrow> k < 8192 \<Longrightarrow> unat b + k < 2 ^ 32 \<Longrightarrow> BBLOCK (b + of_nat k) sb = BBLOCK b sb"
proof -
  assume a: "unat b mod 8192 = 0" "k < 8192" "unat b + k < 2 ^ 32"
  have u: "unat (b + of_nat k) = unat b + k" using a(3) by (simp add: unat_word_ariths unat_of_nat take_bit_eq_mod)
  obtain q where "unat b = 8192 * q" using a(1) by (metis mod_0_imp_dvd dvdE)
  then have "(unat b + k) div 8192 = unat b div 8192" using a(2) by simp
  then have "(b + of_nat k) div 8192 = b div 8192" using u by (simp add: word_unat_eq_iff unat_div_distrib)
  then show ?thesis by (simp add: BBLOCK_def)
qed

lemma BBLOCK_lt: "sb_ok sb \<Longrightarrow> b < sb_size sb \<Longrightarrow> BBLOCK b sb < sb_size sb"
proof -
  assume a: "sb_ok sb" "b < sb_size sb"
  have "unat b div 8192 \<le> unat (sb_size sb) div 8192" using a(2) by (simp add: div_le_mono word_less_nat_alt)
  then have le: "unat (b div 8192) + unat (sb_bmapstart sb) < unat (sb_size sb)" using a(1) by (simp add: sb_ok_def unat_div_distrib)
  moreover have "unat (sb_size sb) < 2 ^ 32" using unsigned_less[of "sb_size sb"] by simp
  ultimately have "unat (b div 8192 + sb_bmapstart sb) = unat (b div 8192) + unat (sb_bmapstart sb)"
    by (simp add: unat_word_ariths)
  with le show ?thesis by (simp add: BBLOCK_def word_less_nat_alt)
qed


text \<open>A map block at a time.\<close>

definition free_from :: "(32 word \<Rightarrow> byte list) \<Rightarrow> superblock \<Rightarrow> nat \<Rightarrow> 32 word option" where
  "free_from C sb q = find (free_at C sb) (map of_nat [8192 * q..<unat (sb_size sb)])"

lemma unat_small: "sb_ok sb \<Longrightarrow> unat (sb_size sb) < 0x40000000"
  by (simp add: sb_ok_def word_less_nat_alt)

lemma small_block: "sb_ok sb \<Longrightarrow> b < sb_size sb \<Longrightarrow> b < 0x80000000"
  by (simp add: sb_ok_def word_less_nat_alt)

lemma unat_nat32: "n < 2 ^ 32 \<Longrightarrow> unat (of_nat n :: 32 word) = n"
  by (simp add: unat_of_nat take_bit_eq_mod)

lemma free_at_chunk:
  assumes "k < 8192" "8192 * q + k < 2 ^ 32"
  shows "free_at C sb (of_nat (8192 * q + k)) = bit_clear (C (BBLOCK (of_nat (8192 * q)) sb)) k"
    "BBLOCK (of_nat (8192 * q + k)) sb = BBLOCK (of_nat (8192 * q)) sb"
proof -
  have u: "unat (of_nat (8192 * q) :: 32 word) = 8192 * q" using assms by (intro unat_nat32) simp
  have v: "unat (of_nat (8192 * q + k) :: 32 word) = 8192 * q + k" using assms(2) by (rule unat_nat32)
  show B: "BBLOCK (of_nat (8192 * q + k)) sb = BBLOCK (of_nat (8192 * q)) sb"
    using BBLOCK_same[of "of_nat (8192 * q)" k sb] assms u by (simp del: of_nat_mult)
  show "free_at C sb (of_nat (8192 * q + k)) = bit_clear (C (BBLOCK (of_nat (8192 * q)) sb)) k"
    unfolding free_at_def B v using assms(1) by simp
qed

lemma free_in_map_find:
  assumes "sb_ok sb" "8192 * q < unat (sb_size sb)"
  shows "free_in_map d (8192 * int q) sb = find (bit_clear d) [0..<min 8192 (unat (sb_size sb) - 8192 * q)]"
proof -
  note s = unat_small[OF assms(1)]
  have "((word_of_int (8192 * int q + int k) :: 32 word) < sb_size sb) = (k < unat (sb_size sb) - 8192 * q)" if "k < 8192" for k
  proof -
    have w: "(word_of_int (8192 * int q + int k) :: 32 word) = of_nat (8192 * q + k)" by simp
    have "unat (of_nat (8192 * q + k) :: 32 word) = 8192 * q + k" by (rule unat_nat32) (use assms(2) s that in simp)
    then show ?thesis unfolding w word_less_nat_alt by linarith
  qed
  then have "takeWhile (\<lambda>bi. (word_of_int (8192 * int q + int bi) :: 32 word) < sb_size sb) [0..<8192] =
      takeWhile (\<lambda>i. i < unat (sb_size sb) - 8192 * q) [0..<8192]" by (intro takeWhile_cong) (auto simp del: upt_Suc)
  then show ?thesis unfolding free_in_map_def takeWhile_upt by simp
qed

lemma free_from_chunk:
  assumes "sb_ok sb" "8192 * q < unat (sb_size sb)"
  shows "free_from C sb q = (case free_in_map (C (BBLOCK (of_nat (8192 * q)) sb)) (8192 * int q) sb of
     Some k \<Rightarrow> Some (of_nat (8192 * q + k)) | None \<Rightarrow> free_from C sb (Suc q))"
proof -
  note s = unat_small[OF assms(1)]
  define m where "m = min 8192 (unat (sb_size sb) - 8192 * q)"
  have m: "m \<le> 8192" "8192 * q + m \<le> unat (sb_size sb)" "m < 8192 \<Longrightarrow> 8192 * q + m = unat (sb_size sb)"
    using assms(2) by (auto simp: m_def)
  have "[8192 * q..<unat (sb_size sb)] = [8192 * q..<8192 * q + m] @ [8192 * q + m..<unat (sb_size sb)]"
    using m(2) by (metis le_add1 le_Suc_ex upt_add_eq_append)
  moreover have "[8192 * q..<8192 * q + m] = map (\<lambda>k. 8192 * q + k) [0..<m]"
    by (rule nth_equalityI) simp_all
  moreover have "[8192 * q + m..<unat (sb_size sb)] = [8192 * Suc q..<unat (sb_size sb)]"
    using m(1,3) by (cases "m = 8192") (auto simp: add.commute)
  ultimately have "free_from C sb q = (case find (free_at C sb) (map of_nat (map (\<lambda>k. 8192 * q + k) [0..<m])) of
      None \<Rightarrow> free_from C sb (Suc q) | Some x \<Rightarrow> Some x)"
    unfolding free_from_def by (simp only: map_append find_append)
  moreover have "find (free_at C sb) (map of_nat (map (\<lambda>k. 8192 * q + k) [0..<m])) =
      map_option (\<lambda>k. of_nat (8192 * q + k)) (find (\<lambda>k. free_at C sb (of_nat (8192 * q + k))) [0..<m])"
    by (simp add: find_map comp_def del: of_nat_add of_nat_mult)
  moreover have "find (\<lambda>k. free_at C sb (of_nat (8192 * q + k))) [0..<m] =
      find (bit_clear (C (BBLOCK (of_nat (8192 * q)) sb))) [0..<m]"
    by (rule find_cong) (use free_at_chunk(1) m(1,2) s in \<open>auto simp del: of_nat_add of_nat_mult\<close>)
  ultimately show ?thesis unfolding free_in_map_find[OF assms] m_def by (simp split: option.split)
qed


lemma find_lt: "find P [0..<m] = Some k \<Longrightarrow> k < m \<and> P k"
  by (auto simp: find_Some_iff)

lemma free_from_less: "sb_ok sb \<Longrightarrow> free_from C sb q = Some b \<Longrightarrow> b < sb_size sb"
  using unat_small[of sb]
  by (auto simp: free_from_def find_Some_iff word_less_nat_alt unat_nat32 simp del: of_nat_add of_nat_mult)

lemma free_from_end: "unat (sb_size sb) \<le> 8192 * q \<Longrightarrow> free_from C sb q = None"
  by (simp add: free_from_def)


locale fs_env = log_env e for e :: "'a fs_st_scheme kenv"

interpretation vdf: fs_env device_env
  by (rule fs_env.intro) (rule vdl.log_env_axioms)

context fs_env
begin

lemma bzero_ok:
  assumes x: "tx p dev S bs H s" and bn: "bn < 0x80000000" "not_held s H bn" and r: "room 1 bs H"
  shows "\<exists>t. bzero e dev bn s = Ok t \<and> tx p dev S (absorb bn bs) H t \<and>
    content dev t = (content dev s)(bn := replicate 1024 0) \<and> sto_only s t \<and> same_held s H t"
proof -
  obtain b t where b: "bread e dev bn s = Ok (b, t)" "b \<notin> H" "tx p dev S bs (insert b H) t" "b_blockno (bufs t ! b) = bn"
    "content dev t = content dev s" "sto_only s t" "same_held s H t"
    using read_block[OF x bn r] by blast
  obtain u where "bnd (log_write b (set_data b (replicate 1024 0) t)) (brelse b) = Ok u" "tx p dev S (absorb bn bs) H u"
    "content dev u = (content dev t)(bn := replicate 1024 0)" "sto_only t u" "same_held t H u"
    using put_block[OF b(3,2), of "replicate 1024 0"] r b(4) by (auto simp: room_def)
  with b show ?thesis unfolding bzero_def by (auto intro: sto_only_trans same_held_trans)
qed

lemma balloc_from_none:
  assumes a: "tx p dev S bs H s" "sb_ok (superb s)" "\<not> panicking s"
    "unat (sb_size (superb s)) \<le> 8192 * q" "8192 * q < unat (sb_size (superb s)) + 8192"
  shows "\<exists>t. balloc_from (Suc n) e dev (8192 * int q) s = Ok (0, t) \<and> sto_only s t \<and> same_held s H t \<and>
    tx p dev S bs H t \<and> content dev t = content dev s"
proof -
  note sm = unat_small[OF a(2)]
  have w: "(word_of_int (8192 * int q) :: 32 word) = of_nat (8192 * q)" by simp
  have "unat (of_nat (8192 * q) :: 32 word) = 8192 * q" by (rule unat_nat32) (use a(5) sm in simp)
  then have "\<not> (word_of_int (8192 * int q) :: 32 word) < sb_size (superb s)" unfolding w word_less_nat_alt using a(4) by simp
  moreover obtain t where "printk (''balloc: out of blocks'' @ nl) [] s = Ok t" "tx p dev S bs H t" "content dev t = content dev s"
    "sto_only s t" "same_held s H t"
    using tx_printk[OF a(1,3), of "''balloc: out of blocks'' @ nl" "[]"] by (auto simp: nl_def)
  ultimately show ?thesis by simp
qed

lemma balloc_from_ok:
  assumes "tx p dev S bs H s" "sb_ok (superb s)" "\<not> panicking s" "room 2 bs H"
    "\<forall>b < sb_size (superb s). not_held s H (BBLOCK b (superb s)) \<and>
       (free_from (content dev s) (superb s) q = Some b \<longrightarrow> not_held s H b)"
    "unat (sb_size (superb s)) \<le> 8192 * (q + n)" "8192 * q < unat (sb_size (superb s)) + 8192"
  shows "\<exists>r t. balloc_from (Suc n) e dev (8192 * int q) s = Ok (r, t) \<and> sto_only s t \<and> same_held s H t \<and>
    (case free_from (content dev s) (superb s) q of
       None \<Rightarrow> r = 0 \<and> tx p dev S bs H t \<and> content dev t = content dev s
     | Some b \<Rightarrow> r = b \<and> tx p dev S (absorb b (absorb (BBLOCK b (superb s)) bs)) H t \<and>
         content dev t = (marked (superb s) b (content dev s))(b := replicate 1024 0))"
  using assms
proof (induction n arbitrary: q s)
  case 0
  then have "unat (sb_size (superb s)) \<le> 8192 * q" by simp
  then show ?case using balloc_from_none[OF 0(1-3) _ 0(7)] free_from_end[of "superb s" q] by auto
next
  case (Suc n)
  note a = Suc.prems
  let ?sb = "superb s" and ?C = "content dev s"
  note sm = unat_small[OF a(2)]
  show ?case
  proof (cases "8192 * q < unat (sb_size ?sb)")
    case False
    then show ?thesis using balloc_from_none[OF a(1-3) _ a(7)] free_from_end[of ?sb q] by auto
  next
    case q: True
    have w: "(word_of_int (8192 * int q) :: 32 word) = of_nat (8192 * q)" by simp
    define B where "B = BBLOCK (of_nat (8192 * q)) ?sb"
    have u: "unat (of_nat (8192 * q) :: 32 word) = 8192 * q" by (rule unat_nat32) (use q sm in simp)
    have lt: "(of_nat (8192 * q) :: 32 word) < sb_size ?sb" unfolding word_less_nat_alt u by (rule q)
    then have Bl: "B < sb_size ?sb" unfolding B_def by (rule BBLOCK_lt[OF a(2)])
    have B: "B < 0x80000000" "not_held s H B" using small_block[OF a(2) Bl] a(5) lt by (auto simp: B_def)
    obtain b t where b: "bread e dev B s = Ok (b, t)" "b \<notin> H" "tx p dev S bs (insert b H) t" "b_blockno (bufs t ! b) = B"
      "b_data (bufs t ! b) = ?C B" "content dev t = ?C" "media t = media s" "sto_only s t" "same_held s H t"
      using read_block[OF a(1) B] a(4) room_less by fastforce
    note f = sto_only_fields[OF b(8)]
    have wB: "BBLOCK (word_of_int (8192 * int q)) ?sb = B" "(word_of_int (8192 * int q) :: 32 word) < sb_size ?sb"
      using lt unfolding w B_def by simp_all
    show ?thesis
    proof (cases "free_in_map (?C B) (8192 * int q) ?sb")
      case (Some k)
      have k: "k < 8192" "8192 * q + k < unat (sb_size ?sb)"
        using Some[unfolded free_in_map_find[OF a(2) q]] find_lt by fastforce+
      define x where "x = (of_nat (8192 * q + k) :: 32 word)"
      have ux: "unat x = 8192 * q + k" unfolding x_def by (rule unat_nat32) (use k sm in simp)
      have xl: "x < sb_size ?sb" unfolding word_less_nat_alt ux by (rule k)
      have wx: "(word_of_int (8192 * int q + int k) :: 32 word) = x" by (simp add: x_def)
      have fr: "free_from ?C ?sb q = Some x" using free_from_chunk[OF a(2) q, of ?C] Some by (simp add: B_def x_def)
      have xB: "BBLOCK x ?sb = B" "unat x mod 8192 = k"
        using free_at_chunk(2)[OF k(1), of q ?sb] k sm ux by (simp_all add: B_def x_def)
      obtain v where v: "bnd (log_write b (set_data b (set_bit_of k (?C B)) t)) (brelse b) = Ok v" "tx p dev S (absorb B bs) H v"
        "content dev v = ?C(B := set_bit_of k (?C B))" "sto_only t v" "same_held t H v"
        using put_block[OF b(3,2), of "set_bit_of k (?C B)"] a(4) b(4,6) by (auto simp: room_def)
      have h: "same_held s H v" by (rule same_held_trans[OF b(9) v(5)])
      have "not_held v H x" using a(5) xl fr h by (simp add: not_held_same)
      then obtain t' where z: "bzero e dev x v = Ok t'" "tx p dev S (absorb x (absorb B bs)) H t'"
        "content dev t' = (content dev v)(x := replicate 1024 0)" "sto_only v t'" "same_held v H t'"
        using bzero_ok[OF v(2), of x] small_block[OF a(2) xl] room_absorb[of 1 bs H B] a(4) by (auto simp: numeral_2_eq_2)
      obtain v0 where v0: "log_write b (set_data b (set_bit_of k (?C B)) t) = Ok v0" "brelse b v0 = Ok v"
        using v(1) by (auto simp: bnd_eq_Ok)
      have "balloc_from (Suc (Suc n)) e dev (8192 * int q) s = Ok (x, t')"
        by (subst balloc_from.simps(2))
          (simp only: wB if_True b(1,5) f(1) Some v0 z(1) wx bnd_simps prod.case option.case)
      moreover have "content dev t' = (marked ?sb x ?C)(x := replicate 1024 0)"
        unfolding z(3) v(3) marked_def xB ..
      ultimately show ?thesis
        using fr z(2) xB(1) sto_only_trans[OF b(8) sto_only_trans[OF v(4) z(4)]] same_held_trans[OF h z(5)] by auto
    next
      case None
      then have fr: "free_from ?C ?sb q = free_from ?C ?sb (Suc q)" using free_from_chunk[OF a(2) q, of ?C] by (simp add: B_def)
      have "B \<in> set bs \<or> ?C B = media s (sector_of B)" using clean_held[OF txD(1)[OF a(1)] _ B(2)] by blast
      then obtain v where v: "brelse b t = Ok v" "tx p dev S bs H v" "content dev v = ?C" "sto_only t v" "same_held t H v"
        using let_go[OF b(3,2)] b(4-7) by (auto simp: same_held_def)
      note g = sto_only_fields[OF sto_only_trans[OF b(8) v(4)]]
      have h: "same_held s H v" by (rule same_held_trans[OF b(9) v(5)])
      have nq: "sadd32 (8192 * int q) 8192 = Ok (8192 * int (Suc q))" using q sm by (simp add: sadd32_def INT_MAX_def)
      have "balloc_from (Suc (Suc n)) e dev (8192 * int q) s = balloc_from (Suc n) e dev (8192 * int (Suc q)) v"
        by (subst balloc_from.simps(2))
          (simp only: wB if_True b(1,5) f(1) None v(1) nq bnd_simps prod.case option.case)
      moreover obtain r t' where "balloc_from (Suc n) e dev (8192 * int (Suc q)) v = Ok (r, t')" "sto_only v t'" "same_held v H t'"
        "case free_from ?C ?sb (Suc q) of
           None \<Rightarrow> r = 0 \<and> tx p dev S bs H t' \<and> content dev t' = ?C
         | Some b \<Rightarrow> r = b \<and> tx p dev S (absorb b (absorb (BBLOCK b ?sb) bs)) H t' \<and>
             content dev t' = (marked ?sb b ?C)(b := replicate 1024 0)"
      proof -
        have "\<forall>b < sb_size ?sb. not_held v H (BBLOCK b ?sb) \<and> (free_from ?C ?sb (Suc q) = Some b \<longrightarrow> not_held v H b)"
          using a(5) unfolding fr not_held_same[OF h] .
        moreover have "8192 * Suc q < unat (sb_size ?sb) + 8192" "unat (sb_size ?sb) \<le> 8192 * (Suc q + n)" using q a(6) by simp_all
        ultimately show thesis using Suc.IH[OF v(2), of "Suc q", unfolded g v(3), OF a(2,3,4)] that by blast
      qed
      ultimately show ?thesis
        unfolding fr using sto_only_trans[OF sto_only_trans[OF b(8) v(4)], of t'] same_held_trans[OF h, of t'] by auto
    qed
  qed
qed

lemma balloc_ok:
  assumes x: "tx p dev S bs H s" "sb_ok (superb s)" "\<not> panicking s" "room 2 bs H"
    and h: "\<forall>b < sb_size (superb s). not_held s H (BBLOCK b (superb s)) \<and>
       (first_free (content dev s) (superb s) = Some b \<longrightarrow> not_held s H b)"
  shows "\<exists>r t. balloc e dev s = Ok (r, t) \<and> sto_only s t \<and> same_held s H t \<and>
    (case first_free (content dev s) (superb s) of
       None \<Rightarrow> r = 0 \<and> tx p dev S bs H t \<and> content dev t = content dev s
     | Some b \<Rightarrow> r = b \<and> tx p dev S (absorb b (absorb (BBLOCK b (superb s)) bs)) H t \<and>
         content dev t = (marked (superb s) b (content dev s))(b := replicate 1024 0))"
proof -
  have f: "free_from (content dev s) (superb s) 0 = first_free (content dev s) (superb s)"
    by (simp add: free_from_def first_free_def)
  have "unat (sb_size (superb s)) \<le> 8192 * (0 + (unat (sb_size (superb s)) div 8192 + 1))" by simp
  then show ?thesis
    using balloc_from_ok[OF x, of 0 "unat (sb_size (superb s)) div 8192 + 1", unfolded f, OF h] by (simp add: balloc_def)
qed

lemma bfree_ok:
  assumes x: "tx p dev S bs H s" "sb_ok (superb s)" "room 1 bs H"
    and b: "b < sb_size (superb s)" "not_held s H (BBLOCK b (superb s))" "\<not> free_at (content dev s) (superb s) b"
  shows "\<exists>t. bfree e dev b s = Ok t \<and> tx p dev S (absorb (BBLOCK b (superb s)) bs) H t \<and>
    content dev t = unmarked (superb s) b (content dev s) \<and> sto_only s t \<and> same_held s H t"
proof -
  let ?B = "BBLOCK b (superb s)" and ?C = "content dev s"
  have B: "?B < 0x80000000" using small_block[OF x(2) BBLOCK_lt[OF x(2) b(1)]] .
  obtain i t where t: "bread e dev ?B s = Ok (i, t)" "i \<notin> H" "tx p dev S bs (insert i H) t" "b_blockno (bufs t ! i) = ?B"
    "b_data (bufs t ! i) = ?C ?B" "content dev t = ?C" "sto_only s t" "same_held s H t"
    using read_block[OF x(1) B b(2) x(3)] by blast
  obtain v where v: "bnd (log_write i (set_data i (clear_bit_of (unat b mod 8192) (?C ?B)) t)) (brelse i) = Ok v"
    "tx p dev S (absorb ?B bs) H v" "content dev v = ?C(?B := clear_bit_of (unat b mod 8192) (?C ?B))" "sto_only t v" "same_held t H v"
    using put_block[OF t(3,2), of "clear_bit_of (unat b mod 8192) (?C ?B)"] x(3) t(4,6) by (auto simp: room_def)
  have "bfree e dev b s = Ok v"
    using t(1,5) v(1) b(3) by (simp add: bfree_def free_at_def assertk_def Let_def)
  with v t show ?thesis by (auto simp: unmarked_def intro: sto_only_trans same_held_trans)
qed

lemma bfree_free:
  assumes x: "tx p dev S bs H s" "sb_ok (superb s)" "room 1 bs H"
    and b: "b < sb_size (superb s)" "not_held s H (BBLOCK b (superb s))" "free_at (content dev s) (superb s) b"
  shows "bfree e dev b s = Panic ''freeing free block''"
proof -
  have B: "BBLOCK b (superb s) < 0x80000000" using small_block[OF x(2) BBLOCK_lt[OF x(2) b(1)]] .
  show ?thesis using read_block[OF x(1) B b(2) x(3)] b(3) by (auto simp: bfree_def free_at_def assertk_def Let_def)
qed

end

section \<open>The map and its bits\<close>

lemma bit_clear_bit: "bit_clear d k = (\<not> bit (d ! (k div 8)) (k mod 8))"
proof -
  have "(w AND push_bit n 1 = 0) = (\<not> bit w n)" if "n < 8" for w :: byte and n
    using that by (auto simp: bit_eq_iff[where 'a = byte] bit_simps)
  then show ?thesis by (simp add: bit_clear_def)
qed

lemma bit_clear_set:
  assumes "k < 8192" "j < 8192" "length d = 1024"
  shows "bit_clear (set_bit_of k d) j = (bit_clear d j \<and> j \<noteq> k)" "bit_clear (clear_bit_of k d) j = (bit_clear d j \<or> j = k)"
proof -
  have l: "k div 8 < length d" using assms by simp
  have e: "(j = k) = (j div 8 = k div 8 \<and> j mod 8 = k mod 8)" by (metis div_mult_mod_eq)
  have m: "j mod 8 < 8" "k mod 8 < 8" by simp_all
  show "bit_clear (set_bit_of k d) j = (bit_clear d j \<and> j \<noteq> k)"
    unfolding bit_clear_bit e set_bit_of_def using l m by (auto simp: bit_simps nth_list_update)
  show "bit_clear (clear_bit_of k d) j = (bit_clear d j \<or> j = k)"
    unfolding bit_clear_bit e clear_bit_of_def using l m by (auto simp: bit_simps nth_list_update)
qed

lemma BBLOCK_inj: "unat b div 8192 = unat c div 8192 \<longleftrightarrow> BBLOCK b sb = BBLOCK c sb"
  by (simp add: BBLOCK_def word_unat_eq_iff[of "b div 8192"] unat_div_distrib)

lemma free_at_marked:
  assumes "length (C (BBLOCK b sb)) = 1024"
  shows "free_at (marked sb b C) sb c = (free_at C sb c \<and> c \<noteq> b)" "free_at (unmarked sb b C) sb c = (free_at C sb c \<or> c = b)"
proof -
  have e: "(c = b) = (BBLOCK c sb = BBLOCK b sb \<and> unat c mod 8192 = unat b mod 8192)"
    unfolding BBLOCK_inj[symmetric] by (metis div_mult_mod_eq word_unat_eq_iff)
  have m: "unat b mod 8192 < 8192" "unat c mod 8192 < 8192" by simp_all
  show "free_at (marked sb b C) sb c = (free_at C sb c \<and> c \<noteq> b)"
    unfolding e free_at_def marked_def using bit_clear_set[OF m assms] by auto
  show "free_at (unmarked sb b C) sb c = (free_at C sb c \<or> c = b)"
    unfolding e free_at_def unmarked_def using bit_clear_set[OF m assms] by auto
qed

lemma unmarked_marked:
  assumes "length (C (BBLOCK b sb)) = 1024" "free_at C sb b" shows "unmarked sb b (marked sb b C) = C"
proof -
  define k where "k = unat b mod 8192"
  have k: "k div 8 < length (C (BBLOCK b sb))" using assms(1) by (simp add: k_def)
  have "\<not> bit (C (BBLOCK b sb) ! (k div 8)) (k mod 8)" using assms(2) by (simp add: free_at_def bit_clear_bit k_def)
  then have "(w OR push_bit n 1) AND NOT (push_bit n 1) = w" if "w = C (BBLOCK b sb) ! (k div 8)" "n = k mod 8" for w n
    using that by (auto simp: bit_eq_iff[where 'a = byte] bit_simps)
  then have "clear_bit_of k (set_bit_of k (C (BBLOCK b sb))) = C (BBLOCK b sb)"
    using k by (simp add: clear_bit_of_def set_bit_of_def)
  then show ?thesis by (simp add: unmarked_def marked_def k_def fun_upd_idem)
qed

lemma first_free_Some: "sb_ok sb \<Longrightarrow> first_free C sb = Some b \<Longrightarrow> free_at C sb b \<and> b < sb_size sb \<and> (\<forall>c < b. \<not> free_at C sb c)"
proof -
  assume a: "sb_ok sb" "first_free C sb = Some b"
  note s = unat_small[OF a(1)]
  obtain i where i: "i < unat (sb_size sb)" "b = of_nat i" "free_at C sb b" "\<forall>j<i. \<not> free_at C sb (of_nat j)"
    using a(2) by (auto simp: first_free_def find_Some_iff)
  have u: "unat b = i" using i(1,2) s unat_nat32[of i] by simp
  have "\<not> free_at C sb c" if "c < b" for c
    using i(4)[rule_format, of "unat c"] that u by (simp add: word_less_nat_alt)
  with i u show ?thesis by (simp add: word_less_nat_alt)
qed

lemma first_free_None: "first_free C sb = None \<Longrightarrow> b < sb_size sb \<Longrightarrow> \<not> free_at C sb b"
proof -
  assume a: "first_free C sb = None" "b < sb_size sb"
  have "unat b < unat (sb_size sb)" "b = of_nat (unat b)" using a(2) by (simp_all add: word_less_nat_alt)
  with a(1) show ?thesis by (metis find_None_iff first_free_def image_eqI list.set_map set_upt atLeastLessThan_iff zero_le)
qed

end
