(* ===== verification/K_Inode.thy ===== *)
theory K_Inode
  imports K_FsBlocks
begin

text \<open>
  Inodes: on disk, in memory, and the blocks they are made of.
\<close>

section \<open>An inode in its block\<close>

lemma put16_length [simp]: "length (put16 i w d) = length d"
  by (simp add: put16_def)

lemma put16_nth: "j \<noteq> i \<Longrightarrow> j \<noteq> i + 1 \<Longrightarrow> put16 i w d ! j = d ! j"
  by (simp add: put16_def)

lemma put32_nth: "j < 4 * i \<or> 4 * i + 4 \<le> j \<Longrightarrow> put32 i w d ! j = d ! j"
  by (auto simp: put32_def)

lemma get16_put16: "i + 1 < length d \<Longrightarrow> get16 (put16 i w d) i = w"
proof -
  assume l: "i + 1 < length d"
  show ?thesis
  proof (rule bit_word_eqI)
    fix n assume n: "n < LENGTH(16)"
    then have n: "n < 16" by simp
    consider "n < 8" | "8 \<le> n" "n < 16" using n by linarith
    then show "bit (get16 (put16 i w d) i) n = bit w n"
      using l by cases (auto simp: get16_def put16_def bit_simps)
  qed
qed

lemma get16_cong: "d ! i = d' ! i \<Longrightarrow> d ! (i + 1) = d' ! (i + 1) \<Longrightarrow> get16 d i = get16 d' i"
  by (simp add: get16_def)

lemma get32_cong: "(\<And>j. 4 * i \<le> j \<Longrightarrow> j < 4 * i + 4 \<Longrightarrow> d ! j = d' ! j) \<Longrightarrow> get32 d i = get32 d' i"
  by (simp add: get32_def)

lemma foldl_put32:
  fixes n k :: nat and d :: "byte list" and ws :: "32 word list"
  defines "d' \<equiv> foldl (\<lambda>d i. put32 (k + i) (ws ! i) d) d [0..<n]"
  shows "length d' = length d" "j < 4 * k \<or> 4 * (k + n) \<le> j \<Longrightarrow> d' ! j = d ! j"
    "4 * (k + n) \<le> length d \<Longrightarrow> i < n \<Longrightarrow> get32 d' (k + i) = ws ! i"
proof -
  have a: "length d' = length d \<and> (\<forall>j. j < 4 * k \<or> 4 * (k + n) \<le> j \<longrightarrow> d' ! j = d ! j) \<and>
      (4 * (k + n) \<le> length d \<longrightarrow> (\<forall>i < n. get32 d' (k + i) = ws ! i))"
    unfolding d'_def
  proof (induction n)
    case (Suc n)
    then show ?case by (auto simp: put32_nth get32_put32 get32_other less_Suc_eq)
  qed simp
  then show "length d' = length d" "j < 4 * k \<or> 4 * (k + n) \<le> j \<Longrightarrow> d' ! j = d ! j"
    "4 * (k + n) \<le> length d \<Longrightarrow> i < n \<Longrightarrow> get32 d' (k + i) = ws ! i" by blast+
qed

lemma dip_le: "dip inum + 64 \<le> 1024" "dip inum div 4 = 16 * (unat inum mod 16)"
proof -
  have "unat inum mod 16 \<le> 15" by simp
  then show "dip inum + 64 \<le> 1024" "dip inum div 4 = 16 * (unat inum mod 16)" unfolding dip_def by simp_all
qed

text \<open>The bytes written are those of the inode, and they are read back.\<close>

lemma put_dinode_length [simp]: "length (put_dinode inum di d) = length d"
  by (simp add: put_dinode_def Let_def foldl_put32(1))

lemma put_dinode_nth: "j < dip inum \<or> dip inum + 64 \<le> j \<Longrightarrow> put_dinode inum di d ! j = d ! j"
proof -
  assume j: "j < dip inum \<or> dip inum + 64 \<le> j"
  define q where "q = unat inum mod 16"
  have q: "dip inum = 64 * q" by (simp add: dip_def q_def)
  show ?thesis using j unfolding put_dinode_def Let_def q
    by (subst foldl_put32(2)) (auto simp: put32_nth put16_nth)
qed

lemma get_put_dinode:
  assumes "length d = 1024" "length (di_addrs di) = 13" shows "get_dinode (put_dinode inum di d) inum = di"
proof -
  define q where "q = unat inum mod 16"
  have q: "dip inum = 64 * q" "64 * q + 64 \<le> 1024" using dip_le(1)[of inum] by (simp_all add: dip_def q_def)
  define d1 where "d1 = put32 (16 * q + 2) (di_size di) (put16 (64 * q + 6) (di_nlink di) (put16 (64 * q + 4) (di_minor di)
    (put16 (64 * q + 2) (di_major di) (put16 (64 * q) (di_type di) d))))"
  define d2 where "d2 = foldl (\<lambda>d i. put32 (16 * q + 3 + i) (di_addrs di ! i) d) d1 [0..<13]"
  have d2: "put_dinode inum di d = d2" by (simp add: put_dinode_def Let_def q d1_def d2_def)
  have l: "length d1 = 1024" using assms(1) by (simp add: d1_def)
  have n: "d2 ! j = d1 ! j" if "j < 64 * q + 12" for j unfolding d2_def by (rule foldl_put32(2)) (use that in simp)
  have m: "d1 ! j = put16 (64 * q + 6) (di_nlink di) (put16 (64 * q + 4) (di_minor di)
    (put16 (64 * q + 2) (di_major di) (put16 (64 * q) (di_type di) d))) ! j" if "j < 64 * q + 8" for j
    unfolding d1_def using that by (simp add: put32_nth)
  have a: "map (\<lambda>i. get32 d2 (16 * q + 3 + i)) [0..<13] = di_addrs di"
    by (rule nth_equalityI) (use assms(2) q l in \<open>auto simp: d2_def foldl_put32(3)\<close>)
  have s: "get32 d2 (16 * q + 2) = di_size di"
    using get32_cong[of "16 * q + 2" d2 d1] n get32_put32[of "16 * q + 2"] q assms(1) by (simp add: d1_def)
  have g: "get16 d2 (64 * q + r) = get16 x (64 * q + r)" if "r < 7" "x ! (64 * q + r) = d1 ! (64 * q + r)"
    "x ! (64 * q + r + 1) = d1 ! (64 * q + r + 1)" for r x using that n by (simp add: get16_def)
  have h: "get16 d2 (64 * q) = di_type di" "get16 d2 (64 * q + 2) = di_major di" "get16 d2 (64 * q + 4) = di_minor di"
    "get16 d2 (64 * q + 6) = di_nlink di"
    using g[of 0 "put16 (64 * q) (di_type di) d"]
      g[of 2 "put16 (64 * q + 2) (di_major di) (put16 (64 * q) (di_type di) d)"]
      g[of 4 "put16 (64 * q + 4) (di_minor di) (put16 (64 * q + 2) (di_major di) (put16 (64 * q) (di_type di) d))"]
      g[of 6 "put16 (64 * q + 6) (di_nlink di) (put16 (64 * q + 4) (di_minor di) (put16 (64 * q + 2) (di_major di)
        (put16 (64 * q) (di_type di) d)))"] q assms(1)
    by (simp_all add: m put16_nth get16_put16)
  show ?thesis using a s h q by (simp add: get_dinode_def Let_def d2)
qed


lemma get_dinode_cong: "(\<And>j. dip inum \<le> j \<Longrightarrow> j < dip inum + 64 \<Longrightarrow> d ! j = d' ! j) \<Longrightarrow> get_dinode d inum = get_dinode d' inum"
proof -
  assume a: "\<And>j. dip inum \<le> j \<Longrightarrow> j < dip inum + 64 \<Longrightarrow> d ! j = d' ! j"
  define q where "q = unat inum mod 16"
  have q: "dip inum = 64 * q" by (simp add: dip_def q_def)
  show ?thesis using a unfolding get_dinode_def Let_def q by (auto intro!: get16_cong get32_cong)
qed

lemma get_put_other: "dip inum \<noteq> dip inum' \<Longrightarrow> get_dinode (put_dinode inum di d) inum' = get_dinode d inum'"
proof (rule get_dinode_cong)
  fix j assume a: "dip inum \<noteq> dip inum'" "dip inum' \<le> j" "j < dip inum' + 64"
  show "put_dinode inum di d ! j = d ! j"
    by (rule put_dinode_nth) (use a in \<open>auto simp: dip_def\<close>)
qed

text \<open>The inode number \<open>inum\<close> as the blocks hold it.\<close>

definition inode_on :: "(32 word \<Rightarrow> byte list) \<Rightarrow> superblock \<Rightarrow> 32 word \<Rightarrow> dinode" where
  "inode_on C sb inum = get_dinode (C (IBLOCK inum sb)) inum"

definition with_inode :: "superblock \<Rightarrow> 32 word \<Rightarrow> dinode \<Rightarrow> (32 word \<Rightarrow> byte list) \<Rightarrow> 32 word \<Rightarrow> byte list" where
  "with_inode sb inum di C = C(IBLOCK inum sb := put_dinode inum di (C (IBLOCK inum sb)))"

lemma IBLOCK_inj: "unat i div 16 = unat j div 16 \<longleftrightarrow> IBLOCK i sb = IBLOCK j sb"
  by (simp add: IBLOCK_def word_unat_eq_iff[of "i div 16"] unat_div_distrib)

lemma inode_on_with:
  assumes "length (C (IBLOCK inum sb)) = 1024" "length (di_addrs di) = 13"
  shows "inode_on (with_inode sb inum di C) sb j = (if j = inum then di else inode_on C sb j)"
proof -
  have e: "(j = inum) = (IBLOCK j sb = IBLOCK inum sb \<and> dip j = dip inum)"
    unfolding IBLOCK_inj[symmetric] dip_def by (metis div_mult_mod_eq mult_cancel1 word_unat_eq_iff zero_neq_numeral)
  show ?thesis
    using get_put_dinode[OF assms, of inum] get_put_other[of inum j di "C (IBLOCK inum sb)"] e
    by (cases "j = inum") (auto simp: inode_on_def with_inode_def)
qed

lemma IBLOCK_lt: "sb_ok sb \<Longrightarrow> i < sb_ninodes sb \<Longrightarrow> IBLOCK i sb < sb_size sb"
proof -
  assume a: "sb_ok sb" "i < sb_ninodes sb"
  have "unat i div 16 \<le> unat (sb_ninodes sb) div 16" using a(2) by (simp add: div_le_mono word_less_nat_alt)
  then have le: "unat (i div 16) + unat (sb_inodestart sb) < unat (sb_size sb)" using a(1) by (simp add: sb_ok_def unat_div_distrib)
  moreover have "unat (sb_size sb) < 2 ^ 32" using unsigned_less[of "sb_size sb"] by simp
  ultimately have "unat (i div 16 + sb_inodestart sb) = unat (i div 16) + unat (sb_inodestart sb)"
    by (simp add: unat_word_ariths)
  with le show ?thesis by (simp add: IBLOCK_def word_less_nat_alt)
qed

section \<open>Storing and loading\<close>

context fs_env
begin

lemma iupdate_ok:
  fixes s :: "'a fs_st_scheme"
  defines "k \<equiv> \<lambda>ip. inode_at s ip"
  assumes x: "tx p dev S bs H s" "sb_ok (superb s)" "room 1 bs H" "i_dev (k ip) = dev" "i_inum (k ip) < sb_ninodes (superb s)"
    and h: "not_held s H (IBLOCK (i_inum (k ip)) (superb s))"
  shows "\<exists>t. iupdate e ip s = Ok t \<and> tx p dev S (absorb (IBLOCK (i_inum (k ip)) (superb s)) bs) H t \<and>
    content dev t = with_inode (superb s) (i_inum (k ip)) (to_dinode (k ip)) (content dev s) \<and> sto_only s t \<and> same_held s H t"
proof -
  let ?B = "IBLOCK (i_inum (k ip)) (superb s)" and ?C = "content dev s"
  have B: "?B < 0x80000000" using small_block[OF x(2) IBLOCK_lt[OF x(2,5)]] .
  obtain i t where t: "bread e dev ?B s = Ok (i, t)" "i \<notin> H" "tx p dev S bs (insert i H) t" "b_blockno (bufs t ! i) = ?B"
    "b_data (bufs t ! i) = ?C ?B" "content dev t = ?C" "sto_only s t" "same_held s H t"
    using read_block[OF x(1) B h x(3)] by blast
  let ?d = "put_dinode (i_inum (k ip)) (to_dinode (k ip)) (?C ?B)"
  obtain v where v: "bnd (log_write i (set_data i ?d t)) (brelse i) = Ok v"
    "tx p dev S (absorb ?B bs) H v" "content dev v = ?C(?B := ?d)" "sto_only t v" "same_held t H v"
    using put_block[OF t(3,2), of ?d] x(3) t(4,6) by (auto simp: room_def)
  note f = sto_only_fields[OF t(7)]
  have "iupdate e ip s = Ok v" using t(1,5) v(1) x(4) f by (simp add: iupdate_def k_def)
  with v t show ?thesis by (auto simp: with_inode_def intro: sto_only_trans same_held_trans)
qed

end

end
