(* ===== verification/K_Dir.thy ===== *)
theory K_Dir
  imports K_Inode
begin

text \<open>
  Directories and paths, the end of \<open>xv6/kernel/fs.c\<close>.  A string of the kernel is the list of the bytes before
  its NUL, an array the list of its bytes; a directory entry is read into the automatic object at \<open>auto_addr\<close>.
\<close>

section \<open>Names\<close>

definition DIRSIZ :: nat where "DIRSIZ = 14"

definition byte0 :: "byte list \<Rightarrow> byte" where
  "byte0 xs = (case xs of [] \<Rightarrow> 0 | x # _ \<Rightarrow> x)"

text \<open>\<open>strncmp\<close> and \<open>strncpy\<close> on arrays and strings given by their bytes.\<close>

fun strncmp_bytes :: "nat \<Rightarrow> byte list \<Rightarrow> byte list \<Rightarrow> int" where
  "strncmp_bytes 0 p q = 0"
| "strncmp_bytes (Suc n) p q =
     (if byte0 p \<noteq> 0 \<and> byte0 p = byte0 q then strncmp_bytes n (tl p) (tl q) else uint (byte0 p) - uint (byte0 q))"

fun strncpy_bytes :: "nat \<Rightarrow> byte list \<Rightarrow> byte list" where
  "strncpy_bytes 0 t = []"
| "strncpy_bytes (Suc n) t = byte0 t # (if byte0 t \<noteq> 0 then strncpy_bytes n (tl t) else replicate n 0)"

definition namecmp :: "byte list \<Rightarrow> byte list \<Rightarrow> int" where
  "namecmp s t = strncmp_bytes DIRSIZ s t"

section \<open>Entries\<close>

record dirent =
  de_inum :: "16 word"
  de_name :: "byte list"

definition get_dirent :: "byte list \<Rightarrow> dirent" where
  "get_dirent d = \<lparr>de_inum = get16 d 0, de_name = take 14 (drop 2 d)\<rparr>"

definition put_dirent :: "dirent \<Rightarrow> byte list" where
  "put_dirent de = [ucast (de_inum de), ucast (drop_bit 8 (de_inum de))] @ de_name de"

text \<open>The values of \<open>off\<close> in \<open>for(off = 0; off < size; off += sizeof(de))\<close>.\<close>

definition dir_offs :: "32 word \<Rightarrow> 32 word list" where
  "dir_offs sz = map (\<lambda>k. of_nat (16 * k)) [0..<(unat sz + 15) div 16]"

definition auto_bytes :: "nat \<Rightarrow> 'a fs_st_scheme \<Rightarrow> byte list" where
  "auto_bytes n s = get_bytes (mem s) (auto_addr s) n"

definition put_auto :: "byte list \<Rightarrow> 'a fs_st_scheme \<Rightarrow> 'a fs_st_scheme" where
  "put_auto bs s = s\<lparr>mem := put_bytes (auto_addr s) bs (mem s)\<rparr>"

fun dirlookup_loop :: "32 word list \<Rightarrow> 'a fs_st_scheme kenv \<Rightarrow> nat \<Rightarrow> byte list \<Rightarrow> 'a fs_st_scheme \<Rightarrow>
    ((nat \<times> 32 word) option \<times> 'a fs_st_scheme) res" where
  "dirlookup_loop [] e dp name s = Ok (None, s)"
| "dirlookup_loop (off # offs) e dp name s =
     bnd (readi e dp False (auto_addr s) off 16 s) (\<lambda>(r, s).
     bnd (assertk (r = 16) ''dirlookup read'') (\<lambda>_.
       let de = get_dirent (auto_bytes 16 s) in
       if de_inum de = 0 then dirlookup_loop offs e dp name s
       else if namecmp name (de_name de) = 0 then
         bnd (iget (i_dev (inode_at s dp)) (ucast (de_inum de)) s) (\<lambda>(ip, s). Ok (Some (ip, off), s))
       else dirlookup_loop offs e dp name s))"

text \<open>The inode and the offset of the entry.\<close>

definition dirlookup :: "'a fs_st_scheme kenv \<Rightarrow> nat \<Rightarrow> byte list \<Rightarrow> 'a fs_st_scheme \<Rightarrow>
    ((nat \<times> 32 word) option \<times> 'a fs_st_scheme) res" where
  "dirlookup e dp name s =
     bnd (assertk (i_type (inode_at s dp) = T_DIR) ''dirlookup not DIR'') (\<lambda>_.
       dirlookup_loop (dir_offs (i_size (inode_at s dp))) e dp name s)"

text \<open>The loop of \<open>dirlink\<close>: the offset of the first empty entry, or the one past the last.\<close>

fun empty_entry :: "32 word list \<Rightarrow> 32 word \<Rightarrow> 'a fs_st_scheme kenv \<Rightarrow> nat \<Rightarrow> 'a fs_st_scheme \<Rightarrow>
    (32 word \<times> 'a fs_st_scheme) res" where
  "empty_entry [] off e dp s = Ok (off, s)"
| "empty_entry (off # offs) _ e dp s =
     bnd (readi e dp False (auto_addr s) off 16 s) (\<lambda>(r, s).
     bnd (assertk (r = 16) ''dirlink read'') (\<lambda>_.
       if de_inum (get_dirent (auto_bytes 16 s)) = 0 then Ok (off, s)
       else empty_entry offs (off + 16) e dp s))"

definition dirlink :: "'a fs_st_scheme kenv \<Rightarrow> nat \<Rightarrow> byte list \<Rightarrow> 32 word \<Rightarrow> 'a fs_st_scheme \<Rightarrow> (int \<times> 'a fs_st_scheme) res" where
  "dirlink e dp name inum s =
     bnd (dirlookup e dp name s) (\<lambda>(found, s).
       case found of
         Some (ip, _) \<Rightarrow> bnd (iput e ip s) (\<lambda>s. Ok (-1, s))
       | None \<Rightarrow>
           bnd (empty_entry (dir_offs (i_size (inode_at s dp))) 0 e dp s) (\<lambda>(off, s).
             let s = put_auto (put_dirent \<lparr>de_inum = ucast inum, de_name = strncpy_bytes DIRSIZ name\<rparr>) s in
             bnd (writei e dp False (auto_addr s) off 16 s) (\<lambda>(r, s).
               Ok (if r \<noteq> 16 then -1 else 0, s))))"

section \<open>Paths\<close>

abbreviation slash :: byte where "slash \<equiv> 47"

text \<open>The next element of a path, cut to \<open>DIRSIZ\<close> bytes, and the path after it.\<close>

definition skipelem :: "byte list \<Rightarrow> (byte list \<times> byte list) option" where
  "skipelem path =
     (let s = dropWhile (\<lambda>c. c = slash) path in
      if s = [] then None
      else
        let el = takeWhile (\<lambda>c. c \<noteq> slash) s in
        Some (if DIRSIZ \<le> length el then take DIRSIZ el else el,
              dropWhile (\<lambda>c. c = slash) (dropWhile (\<lambda>c. c \<noteq> slash) s)))"

lemma skipelem_shorter: "skipelem path = Some (el, rest) \<Longrightarrow> length rest < length path"
proof -
  assume a: "skipelem path = Some (el, rest)"
  define s where "s = dropWhile (\<lambda>c. c = slash) path"
  have s: "s \<noteq> []" "rest = dropWhile (\<lambda>c. c = slash) (dropWhile (\<lambda>c. c \<noteq> slash) s)"
    using a by (auto simp: skipelem_def s_def Let_def split: if_splits)
  have "hd s \<noteq> slash" using s(1) hd_dropWhile[of "\<lambda>c. c = slash" path] by (simp add: s_def)
  then obtain c s' where c: "s = c # s'" "c \<noteq> slash" using s(1) by (cases s) auto
  have "length rest \<le> length s'"
    using c length_dropWhile_le[of "\<lambda>c. c = slash" "dropWhile (\<lambda>c. c \<noteq> slash) s'"] length_dropWhile_le[of "\<lambda>c. c \<noteq> slash" s']
    by (simp add: s(2))
  also have "\<dots> < length s" by (simp add: c)
  also have "\<dots> \<le> length path" unfolding s_def by (rule length_dropWhile_le)
  finally show ?thesis .
qed

text \<open>The loop of \<open>namex\<close> from the inode \<open>ip\<close>: the inode found and the last element.\<close>

function namex_loop :: "'a fs_st_scheme kenv \<Rightarrow> bool \<Rightarrow> byte list \<Rightarrow> byte list \<Rightarrow> nat \<Rightarrow> 'a fs_st_scheme \<Rightarrow>
    ((nat \<times> byte list) option \<times> 'a fs_st_scheme) res" where
  "namex_loop e parent path name ip s =
     (case skipelem path of
        None \<Rightarrow>
          if parent then bnd (iput e ip s) (\<lambda>s. Ok (None, s)) else Ok (Some (ip, name), s)
      | Some (name, path) \<Rightarrow>
          bnd (ilock e ip s) (\<lambda>s.
            if i_type (inode_at s ip) \<noteq> T_DIR then bnd (iunlockput e ip s) (\<lambda>s. Ok (None, s))
            else if i_nlink (inode_at s ip) = 0 then bnd (iunlockput e ip s) (\<lambda>s. Ok (None, s))
            else if parent \<and> path = [] then bnd (iunlock ip s) (\<lambda>s. Ok (Some (ip, name), s))
            else bnd (dirlookup e ip name s) (\<lambda>(found, s).
                   case found of
                     None \<Rightarrow> bnd (iunlockput e ip s) (\<lambda>s. Ok (None, s))
                   | Some (nxt, _) \<Rightarrow> bnd (iunlockput e ip s) (namex_loop e parent path name nxt))))"
  by pat_completeness auto
termination
  by (relation "measure (\<lambda>(e, parent, path, name, ip, s). length path)") (auto dest: skipelem_shorter)

declare namex_loop.simps [simp del]

definition ROOTDEV :: "32 word" where "ROOTDEV = 1"

definition ROOTINO :: "32 word" where "ROOTINO = 1"

definition namex :: "'a fs_st_scheme kenv \<Rightarrow> bool \<Rightarrow> byte list \<Rightarrow> 'a fs_st_scheme \<Rightarrow>
    ((nat \<times> byte list) option \<times> 'a fs_st_scheme) res" where
  "namex e parent path s =
     bnd (if byte0 path = slash then iget ROOTDEV ROOTINO s
          else bnd (myproc s) (\<lambda>p.
               bnd (case p_cwd (proc_at s p) of None \<Rightarrow> Undef ''null inode'' | Some ip \<Rightarrow> Ok ip) (\<lambda>ip. idup ip s)))
       (\<lambda>(ip, s). namex_loop e parent path [] ip s)"

definition namei :: "'a fs_st_scheme kenv \<Rightarrow> byte list \<Rightarrow> 'a fs_st_scheme \<Rightarrow> (nat option \<times> 'a fs_st_scheme) res" where
  "namei e path s = bnd (namex e False path s) (\<lambda>(r, s). Ok (map_option fst r, s))"

definition nameiparent :: "'a fs_st_scheme kenv \<Rightarrow> byte list \<Rightarrow> 'a fs_st_scheme \<Rightarrow>
    ((nat \<times> byte list) option \<times> 'a fs_st_scheme) res" where
  "nameiparent e path s = namex e True path s"

section \<open>The elements of a path\<close>

function elements :: "byte list \<Rightarrow> byte list list" where
  "elements path = (case skipelem path of None \<Rightarrow> [] | Some (el, rest) \<Rightarrow> el # elements rest)"
  by pat_completeness auto
termination
  by (relation "measure length") (auto dest: skipelem_shorter)

declare elements.simps [simp del]

text \<open>Putting a path together and taking it apart again.\<close>

definition join_path :: "byte list list \<Rightarrow> byte list" where
  "join_path els = concat (map (\<lambda>el. slash # el) els)"

definition name_ok :: "byte list \<Rightarrow> bool" where
  "name_ok el \<longleftrightarrow> el \<noteq> [] \<and> length el \<le> DIRSIZ \<and> slash \<notin> set el \<and> 0 \<notin> set el"

lemma elements_slashes: "elements (replicate k slash @ path) = elements path"
proof -
  have "dropWhile (\<lambda>c. c = slash) (replicate k slash @ path) = dropWhile (\<lambda>c. c = slash) path"
    by (rule dropWhile_append2) simp
  then have "skipelem (replicate k slash @ path) = skipelem path" by (simp only: skipelem_def)
  then show ?thesis by (simp only: elements.simps[of "replicate k slash @ path"] elements.simps[of path])
qed

lemma elements_join: "\<forall>el \<in> set els. name_ok el \<Longrightarrow> elements (join_path els) = els"
proof (induction els)
  case Nil
  then show ?case by (simp add: join_path_def elements.simps skipelem_def)
next
  case (Cons el els)
  have e: "el \<noteq> []" "length el \<le> DIRSIZ" "slash \<notin> set el" using Cons.prems by (auto simp: name_ok_def)
  define r where "r = join_path els"
  have r: "takeWhile (\<lambda>c. c \<noteq> slash) r = []" "dropWhile (\<lambda>c. c \<noteq> slash) r = r"
    by (cases els; simp add: r_def join_path_def)+
  have d: "dropWhile (\<lambda>c. c = slash) (el @ r) = el @ r" using e(1,3) by (cases el) auto
  have t: "takeWhile (\<lambda>c. c \<noteq> slash) (el @ r) = el" "dropWhile (\<lambda>c. c \<noteq> slash) (el @ r) = r"
    using e(3) r by (subst takeWhile_append2 dropWhile_append2; force)+
  have j: "join_path (el # els) = slash # el @ r" by (simp add: join_path_def r_def)
  have "skipelem (join_path (el # els)) = Some (el, dropWhile (\<lambda>c. c = slash) r)"
    using e(1,2) unfolding skipelem_def j Let_def by (simp only: dropWhile.simps simp_thms if_True d t) simp
  moreover obtain k where "r = replicate k slash @ dropWhile (\<lambda>c. c = slash) r"
    using takeWhile_dropWhile_id[of "\<lambda>c. c = slash" r] replicate_eqI[of "takeWhile (\<lambda>c. c = slash) r" _ slash]
    by (metis set_takeWhileD)
  ultimately show ?case using Cons elements_slashes by (simp add: elements.simps[of "join_path (el # els)"] r_def) metis
qed

end
