(* ===== verification/K_Console.thy ===== *)
theory K_Console
  imports K_Dir
begin

text \<open>
  The console: \<open>xv6/kernel/uart.c\<close> and \<open>console.c\<close>.  Of the UART the model has the characters that wait in
  its receiver, and whether its transmitter is free each time the status is read; \<open>uartputc_sync\<close>, which spins
  until it is, is the output of \<open>consputc\<close>.
\<close>

section \<open>The state\<close>

definition INPUT_BUF_SIZE :: nat where "INPUT_BUF_SIZE = 128"

record console =
  c_buf :: "byte list"
  c_r :: "32 word"
  c_w :: "32 word"
  c_e :: "32 word"

record uart =
  u_rx :: "byte list"
  u_ready :: "nat \<Rightarrow> bool"
  u_reads :: nat

record con_st = fs_st +
  cons :: console
  uart :: uart

definition upd_cons :: "(console \<Rightarrow> console) \<Rightarrow> 'a con_st_scheme \<Rightarrow> 'a con_st_scheme" where
  "upd_cons f s = s\<lparr>cons := f (cons s)\<rparr>"

section \<open>The UART\<close>

abbreviation byte_char :: "byte \<Rightarrow> char" where "byte_char b \<equiv> char_of (unat b)"

text \<open>\<open>ReadReg(LSR) & LSR_TX_IDLE\<close>.\<close>

definition tx_idle :: "'a con_st_scheme \<Rightarrow> bool \<times> 'a con_st_scheme" where
  "tx_idle s = (u_ready (uart s) (u_reads (uart s)), s\<lparr>uart := (uart s)\<lparr>u_reads := Suc (u_reads (uart s))\<rparr>\<rparr>)"

fun uartwrite_loop :: "nat \<Rightarrow> 'a con_st_scheme kenv \<Rightarrow> byte list \<Rightarrow> 'a con_st_scheme \<Rightarrow> 'a con_st_scheme res" where
  "uartwrite_loop k e [] s = Ok s"
| "uartwrite_loop k e (b # bs) s =
     bnd (sleep_prepare (Some Ch_uart) s) (\<lambda>s.
       let (free, s) = tx_idle s in
       if free then uartwrite_loop k e bs (consputc (byte_char b) s)
       else (case k of 0 \<Rightarrow> Spin | Suc k \<Rightarrow> bnd (sleep e s) (uartwrite_loop k e (b # bs))))"

definition uartwrite :: "'a con_st_scheme kenv \<Rightarrow> byte list \<Rightarrow> 'a con_st_scheme \<Rightarrow> 'a con_st_scheme res" where
  "uartwrite e buf s =
     bnd (acquiresleep e SL_uart s) (\<lambda>s.
     bnd (uartwrite_loop (patience e) e buf s) (releasesleep SL_uart))"

section \<open>The console\<close>

abbreviation BACKSPACE :: int where "BACKSPACE \<equiv> 0x100"

definition consputc_int :: "int \<Rightarrow> 'a con_st_scheme \<Rightarrow> 'a con_st_scheme" where
  "consputc_int c s =
     (if c = BACKSPACE then consputc (char_of (8 :: nat)) (consputc CHR '' '' (consputc (char_of (8 :: nat)) s))
      else consputc (byte_char (word_of_int c)) s)"

function consolewrite :: "'a con_st_scheme kenv \<Rightarrow> bool \<Rightarrow> addr \<Rightarrow> int \<Rightarrow> int \<Rightarrow> 'a con_st_scheme \<Rightarrow>
    (int \<times> 'a con_st_scheme) res" where
  "consolewrite e user src n i s =
     (if i < n then
        let nn = min 32 (n - i) in
        bnd (either_copyin (auto_addr s) user (src + word_of_int i) (word_of_int nn) s) (\<lambda>(r, s).
          if r = -1 then Ok (i, s)
          else bnd (uartwrite e (auto_bytes (nat nn) s) s) (consolewrite e user src n (i + nn)))
      else Ok (i, s))"
  by pat_completeness auto
termination
  by (relation "measure (\<lambda>(e, user, src, n, i, s). nat (n - i))") auto

declare consolewrite.simps [simp del]

text \<open>The wait of \<open>consoleread\<close>: whether it found the process killed.\<close>

fun consoleread_wait :: "nat \<Rightarrow> 'a con_st_scheme kenv \<Rightarrow> 'a con_st_scheme \<Rightarrow> (bool \<times> 'a con_st_scheme) res" where
  "consoleread_wait k e s =
     (if c_r (cons s) = c_w (cons s) then
        bnd (myproc s) (\<lambda>p.
        bnd (killed p s) (\<lambda>(kd, s).
          if kd then bnd (release L_cons s) (\<lambda>s. Ok (True, s))
          else (case k of
                  0 \<Rightarrow> Spin
                | Suc k \<Rightarrow> bnd (sleep_on e Ch_cons L_cons s) (consoleread_wait k e))))
      else Ok (False, s))"

declare consoleread_wait.simps [simp del]

definition next_char :: "console \<Rightarrow> byte" where
  "next_char c = c_buf c ! (unat (c_r c) mod INPUT_BUF_SIZE)"

definition end_read :: "32 word \<Rightarrow> int \<Rightarrow> 'a con_st_scheme \<Rightarrow> (int \<times> 'a con_st_scheme) res" where
  "end_read target n s = bnd (release L_cons s) (\<lambda>s. Ok (sint (target - word_of_int n), s))"

function consoleread_loop :: "'a con_st_scheme kenv \<Rightarrow> bool \<Rightarrow> addr \<Rightarrow> int \<Rightarrow> 32 word \<Rightarrow> 'a con_st_scheme \<Rightarrow>
    (int \<times> 'a con_st_scheme) res" where
  "consoleread_loop e user dst n target s =
     (if 0 < n then
        bnd (consoleread_wait (patience e) e s) (\<lambda>(kd, s).
          if kd then Ok (-1, s)
          else
            let c = next_char (cons s);
                s = upd_cons (\<lambda>q. q\<lparr>c_r := c_r q + 1\<rparr>) s in
            if c = 4 then
              end_read target n (if word_of_int n < target then upd_cons (\<lambda>q. q\<lparr>c_r := c_r q - 1\<rparr>) s else s)
            else
              bnd (either_copyout user dst (auto_addr s) 1 (put_auto [c] s)) (\<lambda>(r, s).
                if r = -1 then end_read target n s
                else if c = 10 then end_read target (n - 1) s
                else consoleread_loop e user (dst + 1) (n - 1) target s))
      else end_read target n s)"
  by pat_completeness auto
termination
  by (relation "measure (\<lambda>(e, user, dst, n, target, s). nat n)") auto

declare consoleread_loop.simps [simp del]

definition consoleread :: "'a con_st_scheme kenv \<Rightarrow> bool \<Rightarrow> addr \<Rightarrow> int \<Rightarrow> 'a con_st_scheme \<Rightarrow> (int \<times> 'a con_st_scheme) res" where
  "consoleread e user dst n s =
     bnd (acquire L_cons s) (consoleread_loop e user dst n (word_of_int n))"

text \<open>The loop of control-u.\<close>

function kill_line :: "'a con_st_scheme \<Rightarrow> 'a con_st_scheme" where
  "kill_line s =
     (if c_e (cons s) \<noteq> c_w (cons s) \<and> c_buf (cons s) ! (unat (c_e (cons s) - 1) mod INPUT_BUF_SIZE) \<noteq> 10
      then kill_line (consputc_int BACKSPACE (upd_cons (\<lambda>q. q\<lparr>c_e := c_e q - 1\<rparr>) s))
      else s)"
  by pat_completeness auto

lemma cons_consputc_int [simp]: "cons (consputc_int c s) = cons s"
  by (simp add: consputc_int_def consputc_def)

lemma cons_upd_cons [simp]: "cons (upd_cons f s) = f (cons s)"
  by (simp add: upd_cons_def)

lemma word_back_less: "e \<noteq> w \<Longrightarrow> unat (e - 1 - w) < unat (e - w)" for e w :: "32 word"
proof -
  assume "e \<noteq> w"
  define x where "x = e - w"
  have "x \<noteq> 0" "e - 1 - w = x - 1" using \<open>e \<noteq> w\<close> by (simp_all add: x_def)
  moreover have "unat (x - 1) < unat x" using \<open>x \<noteq> 0\<close> by (metis measure_unat)
  ultimately show ?thesis by (metis x_def)
qed

termination kill_line
  by (relation "measure (\<lambda>s. unat (c_e (cons s) - c_w (cons s)))") (auto simp: word_back_less)

declare kill_line.simps [simp del]

definition store_char :: "byte \<Rightarrow> console \<Rightarrow> console" where
  "store_char c q = q\<lparr>c_buf := (c_buf q)[unat (c_e q) mod INPUT_BUF_SIZE := c], c_e := c_e q + 1\<rparr>"

definition cons_room :: "console \<Rightarrow> bool" where
  "cons_room q \<longleftrightarrow> c_e q - c_r q < 128"

text \<open>What the handler does with a character that is not a control.\<close>

definition take_input :: "byte \<Rightarrow> 'a con_st_scheme \<Rightarrow> 'a con_st_scheme res" where
  "take_input c s =
     (if c \<noteq> 0 \<and> cons_room (cons s) then
        let c = (if c = 13 then 10 else c);
            s = consputc_int (uint c) s;
            s = upd_cons (store_char c) s in
        if c = 10 \<or> c = 4 \<or> c_e (cons s) - c_r (cons s) = 128
        then wakeup (Some Ch_cons) (upd_cons (\<lambda>q. q\<lparr>c_w := c_e q\<rparr>) s)
        else Ok s
      else Ok s)"

definition consoleintr :: "byte \<Rightarrow> 'a con_st_scheme \<Rightarrow> 'a con_st_scheme res" where
  "consoleintr c s =
     bnd (acquire L_cons s) (\<lambda>s.
     bnd (if c = 16 then procdump s
          else if c = 21 then Ok (kill_line s)
          else if c = 8 \<or> c = 0x7f then
            Ok (if c_e (cons s) \<noteq> c_w (cons s)
                then consputc_int BACKSPACE (upd_cons (\<lambda>q. q\<lparr>c_e := c_e q - 1\<rparr>) s) else s)
          else take_input c s)
       (release L_cons))"

text \<open>The interrupt: the transmitter may be free, and every character that has arrived is taken.\<close>

definition uartintr :: "'a con_st_scheme \<Rightarrow> 'a con_st_scheme res" where
  "uartintr s =
     (let (free, s) = tx_idle s in
      bnd (if free then wakeup (Some Ch_uart) s else Ok s) (\<lambda>s.
        for_each consoleintr (u_rx (uart s)) (s\<lparr>uart := (uart s)\<lparr>u_rx := []\<rparr>\<rparr>)))"

section \<open>The line buffer is a queue\<close>

text \<open>What has been typed and not read; the reader takes a byte only of a line that is complete.\<close>

definition cons_bytes :: "console \<Rightarrow> byte list" where
  "cons_bytes q = ring_bytes (c_buf q) (c_r q) (c_e q)"

definition cons_ok :: "console \<Rightarrow> bool" where
  "cons_ok q \<longleftrightarrow> ring_fits INPUT_BUF_SIZE (c_buf q) (c_r q) (c_e q)"

definition take_char :: "console \<Rightarrow> byte \<times> console" where
  "take_char q = (next_char q, q\<lparr>c_r := c_r q + 1\<rparr>)"

interpretation cq: bounded_queue store_char take_char cons_bytes cons_room cons_ok
proof unfold_locales
  fix q c assume q: "cons_ok q" "cons_room q"
  have f: "ring_fits INPUT_BUF_SIZE (c_buf q) (c_r q) (c_e q)" using q(1) by (simp add: cons_ok_def)
  have at: "unat (c_e q) mod INPUT_BUF_SIZE = at_index (c_buf q) (c_e q)" using f by (simp add: ring_fits_def at_index_def)
  have "unat (c_e q - c_r q) < INPUT_BUF_SIZE" "INPUT_BUF_SIZE < 2 ^ 32"
    using q(2) by (simp_all add: cons_room_def INPUT_BUF_SIZE_def word_less_nat_alt)
  note r = ring_put[OF f this, of c]
  show "cons_bytes (store_char c q) = cons_bytes q @ [c]" "cons_ok (store_char c q)"
    using r by (simp_all add: cons_bytes_def cons_ok_def store_char_def at)
next
  fix q c q' assume q: "cons_ok q" "cons_bytes q \<noteq> []" "take_char q = (c, q')"
  have f: "ring_fits INPUT_BUF_SIZE (c_buf q) (c_r q) (c_e q)" using q(1) by (simp add: cons_ok_def)
  have at: "unat (c_r q) mod INPUT_BUF_SIZE = at_index (c_buf q) (c_r q)" using f by (simp add: ring_fits_def at_index_def)
  have "c_r q \<noteq> c_e q" using q(2) by (simp add: cons_bytes_def ring_bytes_empty)
  note r = ring_get[OF f this]
  have q': "c = next_char q" "q' = q\<lparr>c_r := c_r q + 1\<rparr>" using q(3) by (simp_all add: take_char_def)
  show "cons_bytes q = c # cons_bytes q'" using r(1) by (simp add: q' cons_bytes_def next_char_def at)
  show "cons_ok q'" using r(2) by (simp add: q' cons_ok_def)
qed

end
