(* ===== verification/K_File.thy ===== *)
theory K_File
  imports K_Console
begin

text \<open>
  Open files: \<open>xv6/kernel/file.c\<close>, and \<open>pipealloc\<close> of \<open>pipe.c\<close>.  A file is its index in the table; a device of
  the switch is named, None where the code has a null pointer.
\<close>

section \<open>The state\<close>

datatype filetype = FD_NONE | FD_PIPE | FD_INODE | FD_DEVICE

record kfile =
  f_type :: filetype
  f_ref :: int
  f_readable :: bool
  f_writable :: bool
  f_pipe :: addr
  f_ip :: nat
  f_off :: "32 word"
  f_major :: "16 word"

datatype device = Dev_console

record file_st = con_st +
  ftable :: "kfile list"
  devsw_read :: "device option list"
  devsw_write :: "device option list"

definition NFILE :: nat where "NFILE = 100"

definition NDEV :: nat where "NDEV = 10"

definition CONSOLE :: nat where "CONSOLE = 1"

definition file_at :: "'a file_st_scheme \<Rightarrow> nat \<Rightarrow> kfile" where
  "file_at s f = ftable s ! f"

definition upd_file :: "nat \<Rightarrow> (kfile \<Rightarrow> kfile) \<Rightarrow> 'a file_st_scheme \<Rightarrow> 'a file_st_scheme" where
  "upd_file f g s = s\<lparr>ftable := (ftable s)[f := g (ftable s ! f)]\<rparr>"

text \<open>\<open>consoleinit\<close> after \<open>uartinit\<close>.\<close>

definition consoleinit :: "'a file_st_scheme \<Rightarrow> 'a file_st_scheme" where
  "consoleinit s =
     s\<lparr>devsw_read := (devsw_read s)[CONSOLE := Some Dev_console],
       devsw_write := (devsw_write s)[CONSOLE := Some Dev_console]\<rparr>"

section \<open>The table\<close>

definition filealloc :: "'a file_st_scheme \<Rightarrow> (nat option \<times> 'a file_st_scheme) res" where
  "filealloc s =
     bnd (acquire L_ftable s) (\<lambda>s.
       case find (\<lambda>f. f_ref (file_at s f) = 0) [0..<NFILE] of
         Some f \<Rightarrow> bnd (release L_ftable (upd_file f (\<lambda>k. k\<lparr>f_ref := 1\<rparr>) s)) (\<lambda>s. Ok (Some f, s))
       | None \<Rightarrow> bnd (release L_ftable s) (\<lambda>s. Ok (None, s)))"

definition filedup :: "nat \<Rightarrow> 'a file_st_scheme \<Rightarrow> (nat \<times> 'a file_st_scheme) res" where
  "filedup f s =
     bnd (acquire L_ftable s) (\<lambda>s.
     bnd (assertk (1 \<le> f_ref (file_at s f)) ''filedup'') (\<lambda>_.
     bnd (sadd32 (f_ref (file_at s f)) 1) (\<lambda>r.
     bnd (release L_ftable (upd_file f (\<lambda>k. k\<lparr>f_ref := r\<rparr>) s)) (\<lambda>s. Ok (f, s)))))"

definition fileclose :: "'a file_st_scheme kenv \<Rightarrow> nat \<Rightarrow> 'a file_st_scheme \<Rightarrow> 'a file_st_scheme res" where
  "fileclose e f s =
     bnd (acquire L_ftable s) (\<lambda>s.
     bnd (assertk (1 \<le> f_ref (file_at s f)) ''fileclose'') (\<lambda>_.
     bnd (sadd32 (f_ref (file_at s f)) (-1)) (\<lambda>r.
       let s = upd_file f (\<lambda>k. k\<lparr>f_ref := r\<rparr>) s in
       if 0 < r then release L_ftable s
       else
         let ff = file_at s f;
             s = upd_file f (\<lambda>k. k\<lparr>f_ref := 0, f_type := FD_NONE\<rparr>) s in
         bnd (release L_ftable s) (\<lambda>s.
           if f_type ff = FD_PIPE then pipeclose (f_pipe ff) (f_writable ff) s
           else if f_type ff = FD_INODE \<or> f_type ff = FD_DEVICE then
             bnd (begin_op e s) (\<lambda>s.
             bnd (iput e (f_ip ff) s) (end_op e))
           else Ok s))))"

definition pipealloc :: "'a file_st_scheme kenv \<Rightarrow> 'a file_st_scheme \<Rightarrow> ((nat \<times> nat) option \<times> 'a file_st_scheme) res" where
  "pipealloc e s =
     bnd (filealloc s) (\<lambda>(r0, s).
       case r0 of
         None \<Rightarrow> Ok (None, s)
       | Some f0 \<Rightarrow>
           bnd (filealloc s) (\<lambda>(r1, s).
             case r1 of
               None \<Rightarrow> bnd (fileclose e f0 s) (\<lambda>s. Ok (None, s))
             | Some f1 \<Rightarrow>
                 bnd (kalloc s) (\<lambda>(pi, s).
                   if pi = 0 then
                     bnd (fileclose e f0 s) (\<lambda>s.
                     bnd (fileclose e f1 s) (\<lambda>s. Ok (None, s)))
                   else
                     let s = s\<lparr>pipes := (pipes s)(pi := \<lparr>pi_data = replicate PIPESIZE 5, pi_nread = 0, pi_nwrite = 0,
                               pi_readopen = True, pi_writeopen = True\<rparr>)\<rparr>;
                         s = upd_file f0 (\<lambda>k. k\<lparr>f_type := FD_PIPE, f_readable := True, f_writable := False, f_pipe := pi\<rparr>) s;
                         s = upd_file f1 (\<lambda>k. k\<lparr>f_type := FD_PIPE, f_readable := False, f_writable := True, f_pipe := pi\<rparr>) s
                     in Ok (Some (f0, f1), s))))"

section \<open>Reading and writing\<close>

text \<open>\<open>struct stat\<close> in memory: between \<open>nlink\<close> and \<open>size\<close> are four bytes that nobody writes.\<close>

definition le_bytes :: "nat \<Rightarrow> 64 word \<Rightarrow> byte list" where
  "le_bytes n w = map (\<lambda>i. ucast (drop_bit (8 * i) w)) [0..<n]"

definition put_stat :: "stat \<Rightarrow> 'a fs_st_scheme \<Rightarrow> 'a fs_st_scheme" where
  "put_stat st s = s\<lparr>mem := put_bytes (auto_addr s + 16) (le_bytes 8 (st_size st))
     (put_bytes (auto_addr s)
        (le_bytes 4 (ucast (st_dev st)) @ le_bytes 4 (ucast (st_ino st)) @ le_bytes 2 (ucast (st_type st)) @
         le_bytes 2 (ucast (st_nlink st))) (mem s))\<rparr>"

definition filestat :: "'a file_st_scheme kenv \<Rightarrow> nat \<Rightarrow> addr \<Rightarrow> 'a file_st_scheme \<Rightarrow> (int \<times> 'a file_st_scheme) res" where
  "filestat e f a s =
     bnd (myproc s) (\<lambda>p.
       if f_type (file_at s f) = FD_INODE \<or> f_type (file_at s f) = FD_DEVICE then
         bnd (ilock e (f_ip (file_at s f)) s) (\<lambda>s.
           let st = stati (f_ip (file_at s f)) s in
           bnd (iunlock (f_ip (file_at s f)) s) (\<lambda>s.
             let s = put_stat st s in
             bnd (copyout (p_pagetable (proc_at s p)) (p_sz (proc_at s p)) a (auto_addr s) 24 s) (\<lambda>(r, s).
               Ok (if r < 0 then -1 else 0, s))))
       else Ok (-1, s))"

definition major_ok :: "16 word \<Rightarrow> bool" where
  "major_ok m \<longleftrightarrow> 0 \<le> sint m \<and> sint m < int NDEV"

definition fileread :: "'a file_st_scheme kenv \<Rightarrow> nat \<Rightarrow> addr \<Rightarrow> int \<Rightarrow> 'a file_st_scheme \<Rightarrow> (int \<times> 'a file_st_scheme) res" where
  "fileread e f a n s =
     (let k = file_at s f in
      if \<not> f_readable k \<or> n < 0 then Ok (-1, s)
      else case f_type k of
        FD_PIPE \<Rightarrow> piperead e (f_pipe k) a n s
      | FD_DEVICE \<Rightarrow>
          if \<not> major_ok (f_major k) then Ok (-1, s)
          else (case devsw_read s ! unat (f_major k) of
                  None \<Rightarrow> Ok (-1, s)
                | Some Dev_console \<Rightarrow> consoleread e True a n s)
      | FD_INODE \<Rightarrow>
          bnd (ilock e (f_ip k) s) (\<lambda>s.
          bnd (readi e (f_ip k) True a (f_off k) (word_of_int n) s) (\<lambda>(r, s).
            let s = (if 0 < r then upd_file f (\<lambda>k. k\<lparr>f_off := f_off k + word_of_int r\<rparr>) s else s) in
            bnd (iunlock (f_ip k) s) (\<lambda>s. Ok (r, s))))
      | FD_NONE \<Rightarrow> Panic ''fileread'')"

text \<open>As many blocks at a time as one transaction has room for.\<close>

definition write_max :: int where
  "write_max = (MAXOPBLOCKS - 1 - 1 - 2) div 2 * 1024"

function filewrite_loop :: "'a file_st_scheme kenv \<Rightarrow> nat \<Rightarrow> addr \<Rightarrow> int \<Rightarrow> int \<Rightarrow> 'a file_st_scheme \<Rightarrow>
    (int \<times> 'a file_st_scheme) res" where
  "filewrite_loop e f a n i s =
     (if i < n then
        let n1 = (if write_max < n - i then write_max else n - i); ip = f_ip (file_at s f) in
        bnd (begin_op e s) (\<lambda>s.
        bnd (ilock e ip s) (\<lambda>s.
        bnd (writei e ip True (a + word_of_int i) (f_off (file_at s f)) (word_of_int n1) s) (\<lambda>(r, s).
          let s = (if 0 < r then upd_file f (\<lambda>k. k\<lparr>f_off := f_off k + word_of_int r\<rparr>) s else s) in
          bnd (iunlock ip s) (\<lambda>s.
          bnd (end_op e s) (\<lambda>s.
            if r \<noteq> n1 then Ok (i, s) else filewrite_loop e f a n (i + r) s)))))
      else Ok (i, s))"
  by pat_completeness auto
termination
  by (relation "measure (\<lambda>(e, f, a, n, i, s). nat (n - i))") (auto simp: write_max_def MAXOPBLOCKS_def split: if_splits)

declare filewrite_loop.simps [simp del]

definition filewrite :: "'a file_st_scheme kenv \<Rightarrow> nat \<Rightarrow> addr \<Rightarrow> int \<Rightarrow> 'a file_st_scheme \<Rightarrow> (int \<times> 'a file_st_scheme) res" where
  "filewrite e f a n s =
     (let k = file_at s f in
      if \<not> f_writable k \<or> n < 0 then Ok (-1, s)
      else case f_type k of
        FD_PIPE \<Rightarrow> pipewrite e (f_pipe k) a n s
      | FD_DEVICE \<Rightarrow>
          if \<not> major_ok (f_major k) then Ok (-1, s)
          else (case devsw_write s ! unat (f_major k) of
                  None \<Rightarrow> Ok (-1, s)
                | Some Dev_console \<Rightarrow> consolewrite e True a n 0 s)
      | FD_INODE \<Rightarrow> bnd (filewrite_loop e f a n 0 s) (\<lambda>(i, s). Ok (if i = n then n else -1, s))
      | FD_NONE \<Rightarrow> Panic ''filewrite'')"

end
