(* ===== verification/K_Life.thy ===== *)
theory K_Life
  imports K_File
begin

text \<open>
  The life of a process in \<open>xv6/kernel/proc.c\<close>: the first one, \<open>kfork\<close>, \<open>kexit\<close> and \<open>kwait\<close>.
\<close>

section \<open>The code\<close>

definition NOFILE :: nat where "NOFILE = 16"

text \<open>Words of the trap frame of a process; \<open>a0\<close> is at byte 112.\<close>

definition tf_get :: "nat \<Rightarrow> 64 word \<Rightarrow> 'a proc_st_scheme \<Rightarrow> 64 word" where
  "tf_get p o' s = ld64 (mem s) (p_trapframe (proc_at s p) + o')"

definition tf_set :: "nat \<Rightarrow> 64 word \<Rightarrow> 64 word \<Rightarrow> 'a proc_st_scheme \<Rightarrow> 'a proc_st_scheme" where
  "tf_set p o' v s = s\<lparr>mem := st64 (mem s) (p_trapframe (proc_at s p) + o') v\<rparr>"

definition the_inode :: "nat option \<Rightarrow> nat res" where
  "the_inode r = (case r of None \<Rightarrow> Undef ''null inode'' | Some ip \<Rightarrow> Ok ip)"

definition userinit :: "'a file_st_scheme kenv \<Rightarrow> 'a file_st_scheme \<Rightarrow> 'a file_st_scheme res" where
  "userinit e s =
     bnd (allocproc s) (\<lambda>(r, s).
       let s = s\<lparr>initproc := r\<rparr> in
       bnd (namei e [slash] s) (\<lambda>(ip, s).
         case r of
           None \<Rightarrow> Undef ''null process''
         | Some p \<Rightarrow> release (L_proc p) (upd_proc p (\<lambda>q. q\<lparr>p_cwd := ip, p_state := RUNNABLE\<rparr>) s)))"

text \<open>The loop of \<open>kfork\<close> over the descriptors.\<close>

definition dup_file :: "nat \<Rightarrow> nat \<Rightarrow> nat \<Rightarrow> 'a file_st_scheme \<Rightarrow> 'a file_st_scheme res" where
  "dup_file p np i s =
     (case p_ofile (proc_at s p) ! i of
        None \<Rightarrow> Ok s
      | Some f \<Rightarrow> bnd (filedup f s) (\<lambda>(f, s). Ok (upd_proc np (\<lambda>q. q\<lparr>p_ofile := (p_ofile q)[i := Some f]\<rparr>) s)))"

definition kfork :: "'a file_st_scheme \<Rightarrow> (int \<times> 'a file_st_scheme) res" where
  "kfork s =
     bnd (myproc s) (\<lambda>p.
     bnd (allocproc s) (\<lambda>(r, s).
       case r of
         None \<Rightarrow> Ok (-1, s)
       | Some np \<Rightarrow>
           bnd (uvmcopy (p_pagetable (proc_at s p)) (p_pagetable (proc_at s np)) (p_sz (proc_at s p)) s) (\<lambda>(c, s).
             if c < 0 then
               bnd (freeproc np s) (\<lambda>s. bnd (release (L_proc np) s) (\<lambda>s. Ok (-1, s)))
             else
               let s = upd_proc np (\<lambda>q. q\<lparr>p_sz := p_sz (proc_at s p)\<rparr>) s;
                   s = s\<lparr>mem := memmove (mem s) (p_trapframe (proc_at s np)) (p_trapframe (proc_at s p)) 288\<rparr>;
                   s = tf_set np 112 0 s in
               bnd (for_each (dup_file p np) [0..<NOFILE] s) (\<lambda>s.
               bnd (the_inode (p_cwd (proc_at s p))) (\<lambda>cwd.
               bnd (idup cwd s) (\<lambda>(cwd, s).
                 let s = upd_proc np (\<lambda>q. q\<lparr>p_cwd := Some cwd, p_name := take 15 (p_name (proc_at s p))\<rparr>) s;
                     pid = p_pid (proc_at s np) in
                 bnd (release (L_proc np) s) (\<lambda>s.
                 bnd (acquire L_wait s) (\<lambda>s.
                   let s = upd_proc np (\<lambda>q. q\<lparr>p_parent := Some p\<rparr>) s in
                   bnd (acquire (L_proc np) s) (\<lambda>s.
                   bnd (release L_wait s) (\<lambda>s.
                   bnd (release (L_proc np) (upd_proc np (\<lambda>q. q\<lparr>p_state := RUNNABLE\<rparr>) s)) (\<lambda>s.
                     Ok (pid, s))))))))))))"

definition reparent :: "nat \<Rightarrow> 'a proc_st_scheme \<Rightarrow> 'a proc_st_scheme res" where
  "reparent p =
     for_each (\<lambda>pp s.
       if p_parent (proc_at s pp) = Some p then
         let s = upd_proc pp (\<lambda>q. q\<lparr>p_parent := initproc s\<rparr>) s in
         wakeup (map_option Ch_proc (initproc s)) s
       else Ok s) [0..<NPROC]"

definition close_fd :: "'a file_st_scheme kenv \<Rightarrow> nat \<Rightarrow> nat \<Rightarrow> 'a file_st_scheme \<Rightarrow> 'a file_st_scheme res" where
  "close_fd e p fd s =
     (case p_ofile (proc_at s p) ! fd of
        None \<Rightarrow> Ok s
      | Some f \<Rightarrow> bnd (fileclose e f s) (\<lambda>s. Ok (upd_proc p (\<lambda>q. q\<lparr>p_ofile := (p_ofile q)[fd := None]\<rparr>) s)))"

text \<open>\<open>kexit\<close> up to the switch, from which it does not return.\<close>

definition make_zombie :: "nat \<Rightarrow> int \<Rightarrow> 'a proc_st_scheme \<Rightarrow> 'a proc_st_scheme res" where
  "make_zombie p st s =
     bnd (acquire L_wait s) (\<lambda>s.
     bnd (reparent p s) (\<lambda>s.
     bnd (wakeup (map_option Ch_proc (p_parent (proc_at s p))) s) (\<lambda>s.
     bnd (acquire (L_proc p) s) (\<lambda>s.
       let s = upd_proc p (\<lambda>q. q\<lparr>p_xstate := st, end_time := ticks s\<rparr>) s; q = proc_at s p in
       bnd (printk (''PROCSTATS,%d,%s,%d,%d,%d,%d'' @ nl)
              [a_int (p_pid q), AStr (Some (p_name q)), A32 (creation_time q), a_int (first_run_time q),
               A32 (end_time q), a_int (cpu_ticks q)] s) (\<lambda>s.
         release L_wait (upd_proc p (\<lambda>q. q\<lparr>p_state := ZOMBIE\<rparr>) s))))))"

definition kexit_body :: "'a file_st_scheme kenv \<Rightarrow> int \<Rightarrow> 'a file_st_scheme \<Rightarrow> 'a file_st_scheme res" where
  "kexit_body e st s =
     bnd (myproc s) (\<lambda>p.
     bnd (assertk (initproc s \<noteq> Some p) ''init exiting'') (\<lambda>_.
     bnd (for_each (close_fd e p) [0..<NOFILE] s) (\<lambda>s.
     bnd (begin_op e s) (\<lambda>s.
     bnd (the_inode (p_cwd (proc_at s p))) (\<lambda>cwd.
     bnd (iput e cwd s) (\<lambda>s.
     bnd (end_op e s) (\<lambda>s.
       make_zombie p st (upd_proc p (\<lambda>q. q\<lparr>p_cwd := None\<rparr>) s))))))))"

definition kexit :: "'a file_st_scheme kenv \<Rightarrow> int \<Rightarrow> 'a file_st_scheme \<Rightarrow> 'a file_st_scheme res" where
  "kexit e st s = bnd (kexit_body e st s) (\<lambda>s. bnd (sched e s) (\<lambda>_. Panic ''zombie exit''))"

text \<open>The scan of \<open>kwait\<close>: the value it returns, if it does, and whether there are children.\<close>

fun kwait_scan :: "nat list \<Rightarrow> nat \<Rightarrow> addr \<Rightarrow> bool \<Rightarrow> 'a fs_st_scheme \<Rightarrow> ((int option \<times> bool) \<times> 'a fs_st_scheme) res" where
  "kwait_scan [] p a kids s = Ok ((None, kids), s)"
| "kwait_scan (pp # pps) p a kids s =
     (if p_parent (proc_at s pp) = Some p then
        bnd (acquire (L_proc pp) s) (\<lambda>s.
          if p_state (proc_at s pp) = ZOMBIE then
            let pid = p_pid (proc_at s pp) in
            bnd (if a \<noteq> 0
                 then let s = put_auto (le_bytes 4 (word_of_int (p_xstate (proc_at s pp)))) s in
                      copyout (p_pagetable (proc_at s p)) (p_sz (proc_at s p)) a (auto_addr s) 4 s
                 else Ok (0, s)) (\<lambda>(r, s).
              if r < 0 then
                bnd (release (L_proc pp) s) (\<lambda>s.
                bnd (release L_wait s) (\<lambda>s. Ok ((Some (-1), True), s)))
              else
                bnd (freeproc pp (upd_proc pp (\<lambda>q. q\<lparr>p_parent := None\<rparr>) s)) (\<lambda>s.
                bnd (release (L_proc pp) s) (\<lambda>s.
                bnd (release L_wait s) (\<lambda>s. Ok ((Some pid, True), s)))))
          else bnd (release (L_proc pp) s) (kwait_scan pps p a True))
      else kwait_scan pps p a kids s)"

fun kwait_loop :: "nat \<Rightarrow> 'a fs_st_scheme kenv \<Rightarrow> nat \<Rightarrow> addr \<Rightarrow> 'a fs_st_scheme \<Rightarrow> (int \<times> 'a fs_st_scheme) res" where
  "kwait_loop k e p a s =
     bnd (kwait_scan [0..<NPROC] p a False s) (\<lambda>((r, kids), s).
       case r of
         Some v \<Rightarrow> Ok (v, s)
       | None \<Rightarrow>
           bnd (if \<not> kids then Ok (True, s) else killed p s) (\<lambda>(stop, s).
             if stop then bnd (release L_wait s) (\<lambda>s. Ok (-1, s))
             else (case k of
                     0 \<Rightarrow> Spin
                   | Suc k \<Rightarrow> bnd (sleep_on e (Ch_proc p) L_wait s) (kwait_loop k e p a))))"

declare kwait_loop.simps [simp del]

definition kwait :: "'a fs_st_scheme kenv \<Rightarrow> addr \<Rightarrow> 'a fs_st_scheme \<Rightarrow> (int \<times> 'a fs_st_scheme) res" where
  "kwait e a s =
     bnd (myproc s) (\<lambda>p.
     bnd (acquire L_wait s) (kwait_loop (patience e) e p a))"

end
