(* ===== verification/K_Table.thy ===== *)
theory K_Table
  imports K_Life
begin

text \<open>
  The process table through the operations that wait or go through the file system: what they call
  keeps a well-formed table with process \<open>p\<close> running, if the rest of the machine does while \<open>p\<close> has given
  up the hart.  Then \<open>yield\<close>, \<open>sleep\<close>, \<open>kfork\<close>, \<open>kexit\<close>, \<open>kwait\<close>, \<open>userinit\<close> and the turns of the schedulers.
\<close>

section \<open>What the rest of the machine keeps\<close>

definition alive :: "nat \<Rightarrow> 'a proc_st_scheme \<Rightarrow> bool" where
  "alive p s \<longleftrightarrow> table_ok s \<and> curproc s = Some p \<and> p < NPROC \<and> p_state (proc_at s p) = RUNNING"

text \<open>
  While \<open>p\<close> is off the hart, runnable or asleep, the others keep the table well formed; \<open>p\<close> comes back
  running.
\<close>

definition fair_others :: "nat \<Rightarrow> 'a proc_st_scheme kenv \<Rightarrow> bool" where
  "fair_others p e \<longleftrightarrow>
     (\<forall>s t. table_ok s \<longrightarrow> curproc s = Some p \<longrightarrow> p < NPROC \<longrightarrow> p_state (proc_at s p) \<in> {RUNNABLE, SLEEPING} \<longrightarrow>
        others e s = Ok t \<longrightarrow> alive p t)"

named_theorems lives \<open>operations that keep a process alive in a well-formed table\<close>

lemma alive_same:
  "procs t = procs s \<Longrightarrow> nextpid t = nextpid s \<Longrightarrow> curproc t = curproc s \<Longrightarrow> alive p t = alive p s"
  by (simp add: alive_def table_ok_def proc_at_def)

lemma alive_simps [simp]:
  "alive p (s\<lparr>held := h\<rparr>) = alive p s" "alive p (s\<lparr>irq := i\<rparr>) = alive p s" "alive p (s\<lparr>kout := k\<rparr>) = alive p s"
  "alive p (s\<lparr>mem := m\<rparr>) = alive p s" "alive p (s\<lparr>kmem_free := f\<rparr>) = alive p s"
  "alive p (upd_sleeplock l g d) = alive p d" "alive p (upd_buf b u x) = alive p x"
  "alive p (x\<lparr>vq := v\<rparr>) = alive p x" "alive p (x\<lparr>bufs := bs\<rparr>) = alive p x"
  "alive p (set_data b d' x) = alive p x"
  "alive p (y\<lparr>klog := kl\<rparr>) = alive p y" "alive p (upd_lh h' y) = alive p y"
  "alive p (upd_pipe pa q z) = alive p z" "alive p (upd_inode ip n w) = alive p w"
  "alive p (upd_file fi r v') = alive p v'"
  by (rule alive_same;
      simp add: upd_sleeplock_def upd_buf_def set_data_def upd_lh_def upd_pipe_def upd_inode_def upd_file_def)+

lemma acquire_alive [lives]: "alive p s \<Longrightarrow> post (acquire l s) (alive p)"
  by (auto simp: post_def acquire_Ok)

lemma release_alive [lives]: "alive p s \<Longrightarrow> post (release l s) (alive p)"
  by (auto simp: post_def release_Ok)

lemma myproc_alive [lives]: "alive p s \<Longrightarrow> post (f p) P \<Longrightarrow> post (bnd (myproc s) f) P"
  by (simp add: alive_def myproc_def)

lemma printk_alive [lives]: "alive p s \<Longrightarrow> post (printk fmt ap s) (alive p)"
  by (rule post_mono[OF printk_frame]) auto

lemma mem_only_alive: "mem_only s t \<Longrightarrow> alive p s \<Longrightarrow> alive p t"
  using alive_same[of t s p] by (simp add: mem_only_procs)

lemma post_mem_alive: "post m (\<lambda>(r, t). mem_only s t) \<Longrightarrow> alive p s \<Longrightarrow> post m (\<lambda>(r, t). alive p t)"
  by (erule post_mono) (auto intro: mem_only_alive)

lemma post_mem_alive1: "post n (mem_only s) \<Longrightarrow> alive p s \<Longrightarrow> post n (alive p)"
  by (erule post_mono) (auto intro: mem_only_alive)

lemmas memory_lives [lives] =
  post_mem_alive[OF kalloc_frame[OF mem_only_refl]] post_mem_alive1[OF kfree_frame[OF mem_only_refl]]
  post_mem_alive[OF uvmcopy_frame[OF mem_only_refl]] post_mem_alive[OF copyout_frame[OF mem_only_refl]]
  post_mem_alive[OF copyin_frame[OF mem_only_refl]]

text \<open>A change of one process that keeps it in its state.\<close>

lemma alive_upd:
  assumes "alive p s" and "\<And>q. q = proc_at s k \<Longrightarrow> proc_ok (nextpid s) q \<Longrightarrow>
      proc_ok (nextpid s) (f q) \<and> p_state (f q) = p_state q \<and> p_pid (f q) = p_pid q"
  shows "alive p (upd_proc k f s)"
proof -
  have t: "table_ok (upd_proc k f s)"
    by (rule table_ok_step) (use assms in \<open>auto simp: alive_def\<close>)
  have "p_state (proc_at (upd_proc k f s) p) = p_state (proc_at s p)"
  proof (cases "k = p")
    case True
    have "p < length (procs s)" "proc_ok (nextpid s) (proc_at s p)"
      using assms(1) table_ok_len[of s] table_ok_at[of s p] by (auto simp: alive_def)
    with assms(2) True show ?thesis by (simp add: proc_at_upd)
  qed simp
  with t assms(1) show ?thesis by (simp add: alive_def)
qed

section \<open>Giving up the hart\<close>

lemma sched_alive:
  assumes e: "fair_others p e" and s: "table_ok s" "curproc s = Some p" "p < NPROC"
    "p_state (proc_at s p) \<in> {RUNNABLE, SLEEPING}"
  shows "post (sched e s) (alive p)"
  using e s by (auto simp: sched_def myproc_def bnd_assertk post_def bnd_eq_Ok fair_others_def split: if_splits)

lemma yield_alive [lives]:
  assumes e: "fair_others p e" and s: "alive p s"
  shows "post (yield_k e s) (alive p)"
proof -
  have turn: "post (sched e (upd_proc p (\<lambda>q. q\<lparr>p_state := RUNNABLE\<rparr>) t)) (alive p)" if t: "alive p t" for t
  proof (rule sched_alive[OF e])
    show "table_ok (upd_proc p (\<lambda>q. q\<lparr>p_state := RUNNABLE\<rparr>) t)"
      by (rule table_ok_step) (use t in \<open>auto simp: alive_def proc_ok_def\<close>)
  qed (use t table_ok_len[of t] in \<open>auto simp: alive_def\<close>)
  with s show ?thesis unfolding yield_k_def by (intro keeps lives turn)
qed

lemma sleep_prepare_alive [lives]: "alive p s \<Longrightarrow> post (sleep_prepare ch s) (alive p)"
  unfolding sleep_prepare_def
  by (rule myproc_alive, assumption, intro keeps lives alive_upd) (auto simp: proc_ok_def prepare_def alive_def)

lemma sleep_alive [lives]:
  assumes e: "fair_others p e" and s: "alive p s"
  shows "post (sleep e s) (alive p)"
proof -
  have turn: "post (sched e (upd_proc p doze t)) (alive p)" if t: "alive p t" and c: "p_chan (proc_at t p) \<noteq> None" for t
  proof (rule sched_alive[OF e])
    show "table_ok (upd_proc p doze t)"
      by (rule table_ok_step) (use t c in \<open>auto simp: alive_def proc_ok_def doze_def slice_pos\<close>)
  qed (use t table_ok_len[of t] in \<open>auto simp: alive_def doze_def\<close>)
  with s show ?thesis unfolding sleep_def by (intro keeps lives turn)
qed

lemma wakeup_alive [lives]: "alive p s \<Longrightarrow> post (wakeup ch s) (alive p)"
proof -
  have w: "alive p (upd_proc k (wake ch) t)" if "alive p t" for k and t :: "'a proc_st_scheme"
  proof -
    have "table_ok (upd_proc k (wake ch) t)"
      by (rule table_ok_step) (use that in \<open>auto simp: alive_def proc_ok_def wake_def\<close>)
    moreover have "p_state (proc_at (upd_proc k (wake ch) t) p) = RUNNING"
      using that table_ok_len[of t] by (cases "k = p") (auto simp: alive_def wake_def)
    ultimately show ?thesis using that by (simp add: alive_def)
  qed
  then show "alive p s \<Longrightarrow> post (wakeup ch s) (alive p)"
    unfolding wakeup_def by (intro post_for_each keeps lives)
qed

lemma killed_alive [lives]: "alive p s \<Longrightarrow> post (killed k s) (\<lambda>(r, t). alive p t)"
  unfolding killed_def by (intro keeps lives)

lemma sleep_on_alive [lives]: "fair_others p e \<Longrightarrow> alive p s \<Longrightarrow> post (sleep_on e ch lk s) (alive p)"
  unfolding sleep_on_def by (intro keeps lives)

lemma wait_while_alive [lives]:
  "(\<And>t. alive p t \<Longrightarrow> post (body t) (alive p)) \<Longrightarrow> alive p s \<Longrightarrow> post (wait_while n c body s) (alive p)"
proof (induction n arbitrary: s)
  case (Suc n)
  show ?case unfolding wait_while.simps by (intro keeps Suc)
qed (simp add: post_def)

section \<open>Sleep locks, the disk and its cache\<close>

lemma post_Undef: "post (Undef m) P" "post (Panic m) P" "post Spin P"
  by (simp_all add: post_def)

lemma acquiresleep_alive [lives]: "fair_others p e \<Longrightarrow> alive p s \<Longrightarrow> post (acquiresleep e l s) (alive p)"
  unfolding acquiresleep_def by (intro keeps lives post_bnd_any) simp_all

lemma releasesleep_alive [lives]: "alive p s \<Longrightarrow> post (releasesleep l s) (alive p)"
  unfolding releasesleep_def by (intro keeps lives) simp_all

lemma holdingsleep_alive [lives]: "alive p s \<Longrightarrow> post (holdingsleep l s) (\<lambda>(r, t). alive p t)"
  unfolding holdingsleep_def by (intro keeps lives post_bnd_any) simp_all

lemma free_desc_alive [lives]: "alive p s \<Longrightarrow> post (free_desc i s) (alive p)"
  unfolding free_desc_def by (intro keeps lives) simp_all

lemma free_chain_alive [lives]: "alive p s \<Longrightarrow> post (free_chain n i s) (alive p)"
proof (induction n arbitrary: i s)
  case (Suc n)
  show ?case unfolding free_chain.simps by (intro keeps lives Suc)
qed (simp add: post_def)

lemma alloc_desc_alive: "alive p s \<Longrightarrow> alloc_desc s = (r, t) \<Longrightarrow> alive p t"
  by (auto simp: alloc_desc_def split: option.splits)

lemma alloc3_from_alive [lives]: "alive p s \<Longrightarrow> post (alloc3_from ds k s) (\<lambda>(r, t). alive p t)"
proof (induction ds k s rule: alloc3_from.induct)
  case (2 ds k s)
  obtain r t where a: "alloc_desc s = (r, t)" by fastforce
  with 2(2) have t: "alive p t" by (rule alloc_desc_alive)
  show ?case
  proof (cases r)
    case None
    have "post (bnd (for_each free_desc ds t) (\<lambda>s. Ok (None, s))) (\<lambda>(r, t). alive p t)"
      by (intro keeps lives post_for_each t)
    with a None show ?thesis by simp
  next
    case (Some i)
    with 2(1)[OF a[symmetric]] t a show ?thesis by simp
  qed
qed (simp add: post_def)

lemma get_descs_alive [lives]:
  "fair_others p e \<Longrightarrow> alive p s \<Longrightarrow> post (get_descs n e s) (\<lambda>(r, t). alive p t)"
proof (induction n arbitrary: s)
  case (Suc n)
  show ?case unfolding get_descs.simps alloc3_desc_def by (intro keeps lives Suc)
qed (simp add: post_def)

lemma submit_alive [simp]: "alive p (submit idx b w sec s) = alive p s"
  by (rule alive_same) (simp_all add: submit_def Let_def upd_buf_def)

lemma virtio_disk_rw_alive [lives]: "fair_others p e \<Longrightarrow> alive p s \<Longrightarrow> post (virtio_disk_rw e b w s) (alive p)"
  unfolding virtio_disk_rw_def by (intro keeps lives) simp_all

lemma bget_alive [lives]: "fair_others p e \<Longrightarrow> alive p s \<Longrightarrow> post (bget e dev bn s) (\<lambda>(r, t). alive p t)"
  unfolding bget_def by (intro keeps lives post_bnd_any) simp_all

lemma bread_alive [lives]: "fair_others p e \<Longrightarrow> alive p s \<Longrightarrow> post (bread e dev bn s) (\<lambda>(r, t). alive p t)"
  unfolding bread_def by (intro keeps lives) simp_all

lemma bwrite_alive [lives]: "fair_others p e \<Longrightarrow> alive p s \<Longrightarrow> post (bwrite e b s) (alive p)"
  unfolding bwrite_def by (intro keeps lives) simp_all

lemma brelse_alive [lives]: "alive p s \<Longrightarrow> post (brelse b s) (alive p)"
  unfolding brelse_def by (intro keeps lives) simp_all

lemma bpin_alive [lives]: "alive p s \<Longrightarrow> post (bpin b s) (alive p)" "alive p s \<Longrightarrow> post (bunpin b s) (alive p)"
  unfolding bpin_def bunpin_def by (intro keeps lives; simp)+

section \<open>The log, inodes, pipes and files\<close>

lemma install_trans_alive [lives]:
  "fair_others p e \<Longrightarrow> alive p s \<Longrightarrow> post (install_one e r i s) (alive p)"
  "fair_others p e \<Longrightarrow> alive p s \<Longrightarrow> post (install_trans e r s) (alive p)"
proof -
  show one: "fair_others p e \<Longrightarrow> alive p s \<Longrightarrow> post (install_one e r i s) (alive p)" for i s
    unfolding install_one_def by (intro keeps lives) simp_all
  show "fair_others p e \<Longrightarrow> alive p s \<Longrightarrow> post (install_trans e r s) (alive p)"
    unfolding install_trans_def by (intro post_for_each one)
qed

lemma write_head_alive [lives]: "fair_others p e \<Longrightarrow> alive p s \<Longrightarrow> post (write_head e s) (alive p)"
  unfolding write_head_def by (intro keeps lives) simp_all

lemma write_log_alive [lives]: "fair_others p e \<Longrightarrow> alive p s \<Longrightarrow> post (write_log e s) (alive p)"
  unfolding write_log_def by (intro post_for_each) (unfold write_log_one_def, (intro keeps lives; simp)+)

lemma commit_alive [lives]: "fair_others p e \<Longrightarrow> alive p s \<Longrightarrow> post (commit e s) (alive p)"
  unfolding commit_def by (intro keeps lives) simp_all

lemma begin_op_alive [lives]: "fair_others p e \<Longrightarrow> alive p s \<Longrightarrow> post (begin_op e s) (alive p)"
proof -
  have "fair_others p e \<Longrightarrow> alive p s \<Longrightarrow> post (begin_loop n e s) (alive p)" for n s
  proof (induction n arbitrary: s)
    case (Suc n)
    show ?case unfolding begin_loop.simps by (intro keeps lives Suc) (simp_all add: Suc)
  qed (simp add: post_def)
  then show "fair_others p e \<Longrightarrow> alive p s \<Longrightarrow> post (begin_op e s) (alive p)"
    unfolding begin_op_def by (intro keeps lives)
qed

lemma end_op_alive [lives]: "fair_others p e \<Longrightarrow> alive p s \<Longrightarrow> post (end_op e s) (alive p)"
  unfolding end_op_def by (intro keeps lives post_bnd_any) simp_all

lemma log_write_alive [lives]: "alive p s \<Longrightarrow> post (log_write b s) (alive p)"
  unfolding log_write_def by (intro keeps lives) simp_all

lemma bfree_alive [lives]: "fair_others p e \<Longrightarrow> alive p s \<Longrightarrow> post (bfree e dev b s) (alive p)"
  unfolding bfree_def by (intro keeps lives) simp_all

lemma iupdate_alive [lives]: "fair_others p e \<Longrightarrow> alive p s \<Longrightarrow> post (iupdate e ip s) (alive p)"
  unfolding iupdate_def by (intro keeps lives) simp_all

lemma ifree_alive [lives]: "fair_others p e \<Longrightarrow> alive p s \<Longrightarrow> post (ifree e dev inum s) (alive p)"
  unfolding ifree_def by (intro keeps lives) simp_all

lemma itrunc_alive [lives]: "fair_others p e \<Longrightarrow> alive p s \<Longrightarrow> post (itrunc e ip s) (alive p)"
  unfolding itrunc_def by (intro keeps lives post_for_each) simp_all

lemma iput_alive [lives]: "fair_others p e \<Longrightarrow> alive p s \<Longrightarrow> post (iput e ip s) (alive p)"
  unfolding iput_def by (intro keeps lives) simp_all

lemma pipeclose_alive [lives]: "alive p s \<Longrightarrow> post (pipeclose pa w s) (alive p)"
  unfolding pipeclose_def by (intro keeps lives) simp_all

lemma fileclose_alive [lives]: "fair_others p e \<Longrightarrow> alive p s \<Longrightarrow> post (fileclose e f s) (alive p)"
  unfolding fileclose_def by (intro keeps lives) simp_all

section \<open>The end of a process\<close>

text \<open>A zombie still on the hart: what \<open>kexit\<close> hands to the scheduler.\<close>

definition ended :: "nat \<Rightarrow> 'a proc_st_scheme \<Rightarrow> bool" where
  "ended p s \<longleftrightarrow> table_ok s \<and> curproc s = Some p \<and> p < NPROC \<and> p_state (proc_at s p) = ZOMBIE"

lemma reparent_alive [lives]: "alive p s \<Longrightarrow> post (reparent c s) (alive p)"
  unfolding reparent_def by (intro post_for_each keeps lives alive_upd) (simp_all add: proc_ok_def)

lemma make_zombie_ends: "alive p s \<Longrightarrow> post (make_zombie p st s) (ended p)"
proof -
  have z: "ended p (upd_proc p (\<lambda>q. q\<lparr>p_state := ZOMBIE\<rparr>) t)" if "alive p t" for t :: "'a proc_st_scheme"
  proof -
    have "table_ok (upd_proc p (\<lambda>q. q\<lparr>p_state := ZOMBIE\<rparr>) t)"
      by (rule table_ok_step) (use that in \<open>auto simp: alive_def proc_ok_def\<close>)
    with that table_ok_len[of t] show ?thesis by (simp add: ended_def alive_def)
  qed
  have r: "ended p t \<Longrightarrow> post (release l t) (ended p)" for l and t :: "'a proc_st_scheme"
    by (auto simp: post_def release_Ok ended_def)
  have a: "alive p t \<Longrightarrow> alive p (upd_proc p (\<lambda>q. q\<lparr>p_xstate := st, end_time := now\<rparr>) t)" for now and t :: "'a proc_st_scheme"
    by (rule alive_upd) (simp_all add: proc_ok_def)
  assume "alive p s"
  then show ?thesis unfolding make_zombie_def Let_def
    by (intro post_bnd[OF acquire_alive[of p]] post_bnd[OF reparent_alive[of p]] post_bnd[OF wakeup_alive[of p]]
          post_bnd[OF printk_alive[of p]] r z a)
qed

lemma close_fd_alive [lives]: "fair_others p e \<Longrightarrow> alive p s \<Longrightarrow> post (close_fd e p fd s) (alive p)"
  unfolding close_fd_def by (intro keeps lives alive_upd) (simp_all add: proc_ok_def)

lemma kexit_body_ends:
  assumes e: "fair_others p e" and s: "alive p s"
  shows "post (kexit_body e st s) (ended p)"
proof -
  have a: "alive p t \<Longrightarrow> alive p (upd_proc p (\<lambda>q. q\<lparr>p_cwd := None\<rparr>) t)" for t :: "'a file_st_scheme"
    by (rule alive_upd) (simp_all add: proc_ok_def)
  show ?thesis unfolding kexit_body_def
    by (rule myproc_alive[OF s], intro keep_check post_bnd[OF post_for_each[where P = "alive p"]] close_fd_alive e s
        post_bnd[OF begin_op_alive[OF e]] post_bnd[OF iput_alive[OF e]] post_bnd[OF end_op_alive[OF e]] post_bnd_any make_zombie_ends a)
qed

section \<open>Waiting for a child\<close>

lemma alive_other:
  assumes "alive p s" and "table_ok (upd_proc k f s)" and "k \<noteq> p"
  shows "alive p (upd_proc k f s)"
  using assms by (simp add: alive_def)

lemma freeproc_alive:
  assumes "alive p s" and "k \<noteq> p"
  shows "post (freeproc k s) (alive p)"
proof -
  have "table_ok (upd_proc k freed s)"
    by (rule table_ok_step) (use assms freed_ok in \<open>auto simp: alive_def freed_def\<close>)
  then have "alive p (upd_proc k freed s)" by (rule alive_other[OF assms(1) _ assms(2)])
  then show ?thesis by (rule post_mono[OF freeproc_post mem_only_alive, rotated])
qed

lemma reap_alive:
  assumes "alive p s" and "p_state (proc_at s k) = ZOMBIE"
  shows "post (freeproc k (upd_proc k (\<lambda>q. q\<lparr>p_parent := None\<rparr>) s)) (alive p)"
  by (rule freeproc_alive[OF alive_upd[OF assms(1)]]) (use assms in \<open>auto simp: proc_ok_def alive_def\<close>)

lemma put_auto_alive [simp]: "alive p (put_auto bs s) = alive p s" "proc_at (put_auto bs s) k = proc_at s k"
  by (rule alive_same; simp add: put_auto_def) (simp add: put_auto_def)

lemma copyout_table:
  "alive p s \<Longrightarrow> post (copyout pt sz a b n s) (\<lambda>(r, t). alive p t \<and> (\<forall>k. proc_at t k = proc_at s k))"
  by (rule post_mono[OF copyout_frame[OF mem_only_refl]])
    (auto intro: mem_only_alive simp: mem_only_procs(1) proc_at_def)

lemma kwait_scan_alive [lives]: "alive p s \<Longrightarrow> post (kwait_scan pps p a kids s) (\<lambda>(r, t). alive p t)"
proof (induction pps arbitrary: kids s)
  case (Cons pp pps)
  have z: "post (bnd (if a \<noteq> 0
                 then let s = put_auto (le_bytes 4 (word_of_int (p_xstate (proc_at s pp)))) s in
                      copyout (p_pagetable (proc_at s p)) (p_sz (proc_at s p)) a (auto_addr s) 4 s
                 else Ok (0, s)) (\<lambda>(r, s).
              if r < 0 then
                bnd (release (L_proc pp) s) (\<lambda>s.
                bnd (release L_wait s) (\<lambda>s. Ok ((Some (-1), True), s)))
              else
                bnd (freeproc pp (upd_proc pp (\<lambda>q. q\<lparr>p_parent := None\<rparr>) s)) (\<lambda>s.
                bnd (release (L_proc pp) s) (\<lambda>s.
                bnd (release L_wait s) (\<lambda>s. Ok ((Some (p_pid (proc_at t pp)), True), s)))))) (\<lambda>(r, t). alive p t)"
    if s: "alive p s" "p_state (proc_at s pp) = ZOMBIE" for s t :: "'a fs_st_scheme"
  proof (rule post_bnd_pair[where Q = "\<lambda>_ t. alive p t \<and> p_state (proc_at t pp) = ZOMBIE"])
    show "post (if a \<noteq> 0
                 then let s = put_auto (le_bytes 4 (word_of_int (p_xstate (proc_at s pp)))) s in
                      copyout (p_pagetable (proc_at s p)) (p_sz (proc_at s p)) a (auto_addr s) 4 s
                 else Ok (0, s)) (\<lambda>(r, t). alive p t \<and> p_state (proc_at t pp) = ZOMBIE)"
      unfolding Let_def by (intro post_if post_mono[OF copyout_table[where p = p]] post_Ok_pair) (use s in auto)
  qed (intro keeps lives reap_alive; simp)
  show ?case unfolding kwait_scan.simps Let_def
    by (intro post_if post_bnd[OF acquire_alive[of p]] post_bnd[OF release_alive[of p]] z[unfolded Let_def] Cons)
qed (simp add: post_def)

lemma post_split: "(\<And>x y. r = (x, y) \<Longrightarrow> post (f x y t) P) \<Longrightarrow> post ((case r of (x, y) \<Rightarrow> f x y) t) P"
  by (cases r) simp

lemma kwait_alive:
  assumes e: "fair_others p e" and s: "alive p s"
  shows "post (kwait e a s) (\<lambda>(r, t). alive p t)"
proof -
  have "alive p t \<Longrightarrow> post (kwait_loop n e p a t) (\<lambda>(r, t). alive p t)" for n and t :: "'a fs_st_scheme"
  proof (induction n arbitrary: t)
    case 0
    then show ?case by (subst kwait_loop.simps) (simp only: nat.case, intro keeps lives e post_split)
  next
    case (Suc n)
    show ?case by (subst kwait_loop.simps, simp only: nat.case, intro keeps lives e post_split Suc)
  qed
  then show ?thesis unfolding kwait_def by (intro myproc_alive[OF s] keeps lives s)
qed

section \<open>A new process\<close>

text \<open>The parent \<open>p\<close> on the hart and a child \<open>c\<close> that is being set up in another slot.\<close>

definition unborn :: "nat \<Rightarrow> nat \<Rightarrow> 'a proc_st_scheme \<Rightarrow> bool" where
  "unborn p c s \<longleftrightarrow> alive p s \<and> c < NPROC \<and> c \<noteq> p \<and> p_state (proc_at s c) = USED"

named_theorems births \<open>operations that leave a process and the child it sets up alone\<close>

lemma unborn_same:
  "procs t = procs s \<Longrightarrow> nextpid t = nextpid s \<Longrightarrow> curproc t = curproc s \<Longrightarrow> unborn p c t = unborn p c s"
  using alive_same[of t s p] by (simp add: unborn_def proc_at_def)

lemma unborn_simps [simp]:
  "unborn p c (s\<lparr>held := h\<rparr>) = unborn p c s" "unborn p c (s\<lparr>mem := m\<rparr>) = unborn p c s"
  "unborn p c (upd_inode ip n w) = unborn p c w" "unborn p c (upd_file fi r v') = unborn p c v'"
  "unborn p c (tf_set k o' w' s) = unborn p c s"
  by (rule unborn_same; simp add: upd_inode_def upd_file_def tf_set_def)+

lemma acquire_unborn [births]: "unborn p c s \<Longrightarrow> post (acquire l s) (unborn p c)"
  by (auto simp: post_def acquire_Ok)

lemma release_unborn [births]: "unborn p c s \<Longrightarrow> post (release l s) (unborn p c)"
  by (auto simp: post_def release_Ok)

lemma uvmcopy_unborn [births]: "unborn p c s \<Longrightarrow> post (uvmcopy a b n s) (\<lambda>(r, t). unborn p c t)"
proof (rule post_mono[OF uvmcopy_frame[OF mem_only_refl]])
  fix x assume "unborn p c s" "case x of (r, t) \<Rightarrow> mem_only s t"
  then show "case x of (r, t) \<Rightarrow> unborn p c t"
    using unborn_same[of "snd x" s p c] by (cases x) (simp add: mem_only_procs)
qed

lemma filedup_unborn [births]: "unborn p c s \<Longrightarrow> post (filedup f s) (\<lambda>(r, t). unborn p c t)"
  unfolding filedup_def by (intro keeps births) simp_all

lemma idup_unborn [births]: "unborn p c s \<Longrightarrow> post (idup ip s) (\<lambda>(r, t). unborn p c t)"
  unfolding idup_def by (intro keeps births) simp_all

text \<open>Work on the child's slot, and its first states.\<close>

lemma unborn_upd:
  assumes "unborn p c s" and "\<And>q n. proc_ok n q \<Longrightarrow> p_state q = USED \<Longrightarrow> proc_ok n (f q) \<and> p_pid (f q) = p_pid q"
    and "\<And>q. p_state q = USED \<Longrightarrow> p_state (f q) = USED"
  shows "unborn p c (upd_proc c f s)"
proof -
  have u: "p_state (proc_at s c) = USED" "c < length (procs s)" "c \<noteq> p"
    using assms(1) table_ok_len[of s] by (auto simp: unborn_def alive_def)
  have "table_ok (upd_proc c f s)"
    by (rule table_ok_step) (use assms u in \<open>auto simp: unborn_def alive_def\<close>)
  with alive_other[of p s c f] u assms show ?thesis by (simp add: unborn_def)
qed

lemma born:
  assumes "unborn p c s"
  shows "alive p (upd_proc c (\<lambda>q. q\<lparr>p_state := RUNNABLE\<rparr>) s)"
proof (rule alive_other)
  show "table_ok (upd_proc c (\<lambda>q. q\<lparr>p_state := RUNNABLE\<rparr>) s)"
    by (rule table_ok_step) (use assms in \<open>auto simp: unborn_def alive_def proc_ok_def\<close>)
qed (use assms in \<open>auto simp: unborn_def\<close>)

lemma dup_file_unborn [births]: "unborn p c s \<Longrightarrow> post (dup_file p c i s) (unborn p c)"
  unfolding dup_file_def by (intro keeps births unborn_upd) (simp_all add: proc_ok_def)

lemma allocproc_child:
  assumes nl: "no_proc_lock s" and s: "alive p s"
  shows "post (allocproc s) (\<lambda>(r, t). case r of None \<Rightarrow> alive p t | Some c \<Rightarrow> unborn p c t)"
proof (rule postI)
  fix x assume run: "allocproc s = Ok x"
  obtain r t where x: "x = (r, t)" by (cases x)
  have ok: "table_ok s" "length (procs s) = NPROC" using s table_ok_len[of s] by (auto simp: alive_def)
  have t: "table_ok t" using postD[OF allocproc_table[OF nl ok(1)] run] x by simp
  have f: "alloc_frame s r t" using postD[OF allocproc_post[OF nl ok(2)] run] x by simp
  show "case x of (r, t) \<Rightarrow> case r of None \<Rightarrow> alive p t | Some c \<Rightarrow> unborn p c t"
  proof (cases r)
    case None
    from f None consider "t = s" | c where "find (\<lambda>p. p_state (proc_at s p) = UNUSED) [0..<NPROC] = Some c"
      "mem_only ((upd_proc c freed s)\<lparr>nextpid := nextpid s + 1\<rparr>) t" by (auto simp: alloc_frame_def)
    then show ?thesis
    proof cases
      case 1
      with x None s show ?thesis by simp
    next
      case 2
      then have "c \<noteq> p" using find_less[OF 2(1)] s by (auto simp: alive_def)
      with x None s t mem_only_procs(1,4)[OF 2(2)] show ?thesis by (auto simp: alive_def proc_at_def)
    qed
  next
    case (Some c)
    with f obtain tf pt where c: "find (\<lambda>p. p_state (proc_at s p) = UNUSED) [0..<NPROC] = Some c"
      and m: "mem_only ((upd_proc c (given (nextpid s) tf pt (forkret_addr s) (ticks s)) s)
               \<lparr>held := L_proc c # held s, nextpid := nextpid s + 1\<rparr>) t" by (auto simp: alloc_frame_def)
    have "c \<noteq> p" "c < NPROC" using find_less[OF c] s by (auto simp: alive_def)
    with x Some s t ok(2) mem_only_procs(1,4)[OF m] show ?thesis
      by (auto simp: unborn_def alive_def proc_at_def given_def)
  qed
qed

lemma copy_files_unborn: "unborn p c s \<Longrightarrow> post (for_each (dup_file p c) [0..<NOFILE] s) (unborn p c)"
  by (intro post_for_each dup_file_unborn)

lemma kfork_alive:
  fixes s :: "'a file_st_scheme"
  assumes nl: "no_proc_lock s" and s: "alive p s"
  shows "post (kfork s) (\<lambda>(r, t). alive p t)"
proof -
  have fail: "post (bnd (freeproc c u) (\<lambda>s. bnd (release (L_proc c) s) (\<lambda>s. Ok (-1, s)))) (\<lambda>(r, t). alive p t)"
    if "unborn p c u" for c and u :: "'a file_st_scheme"
    using that by (intro post_bnd[OF freeproc_alive[of p]] keeps lives) (auto simp: unborn_def)
  have up: "unborn p c u \<Longrightarrow> unborn p c (upd_proc c (\<lambda>q. q\<lparr>p_sz := n\<rparr>) u)"
    "unborn p c u \<Longrightarrow> unborn p c (upd_proc c (\<lambda>q. q\<lparr>p_cwd := w, p_name := nm\<rparr>) u)"
    "unborn p c u \<Longrightarrow> unborn p c (upd_proc c (\<lambda>q. q\<lparr>p_parent := pp\<rparr>) u)"
    for c n w nm pp and u :: "'a file_st_scheme"
    by (rule unborn_upd; simp add: proc_ok_def)+
  have tail: "post (bnd (release (L_proc c) u) (\<lambda>s.
                 bnd (acquire L_wait s) (\<lambda>s.
                 bnd (acquire (L_proc c) (upd_proc c (\<lambda>q. q\<lparr>p_parent := Some p\<rparr>) s)) (\<lambda>s.
                 bnd (release L_wait s) (\<lambda>s.
                 bnd (release (L_proc c) (upd_proc c (\<lambda>q. q\<lparr>p_state := RUNNABLE\<rparr>) s)) (\<lambda>s.
                   Ok (pid, s))))))) (\<lambda>(r, t). alive p t)"
    if "unborn p c u" for c and u :: "'a file_st_scheme" and pid :: int
    by (intro post_bnd[OF release_unborn[of p c]] post_bnd[OF acquire_unborn[of p c]] that up(3)
        post_bnd[OF release_alive[of p]] post_Ok_pair born[of p c])
  have any: "(\<And>ip. post (f ip) P) \<Longrightarrow> post (bnd (the_inode w) f) P"
    for w f and P :: "int \<times> 'a file_st_scheme \<Rightarrow> bool" by (rule post_bnd_any)
  show ?thesis unfolding kfork_def Let_def
    by (rule myproc_alive[OF s], rule post_bnd_pair[OF allocproc_child[OF nl s]],
        intro post_case_option post_bnd_pair[OF uvmcopy_unborn[of p]] post_if fail
          post_bnd[OF copy_files_unborn[of p]] any post_bnd_pair[OF idup_unborn[of p]] tail up(2))
      (auto simp: post_def intro: up(1))
qed

text \<open>The first process: no one is on the hart yet.\<close>

lemma namei_root: "namei e [slash] s = bnd (iget ROOTDEV ROOTINO s) (\<lambda>(ip, s). Ok (Some ip, s))"
proof -
  have "skipelem [slash] = None" by (simp add: skipelem_def)
  then have step: "namex_loop e False [slash] [] ip t = Ok (Some (ip, []), t)" for ip t
    by (subst namex_loop.simps) simp
  then show ?thesis
    by (cases "iget ROOTDEV ROOTINO s") (auto simp: namei_def namex_def byte0_def step)
qed

definition embryo :: "nat \<Rightarrow> 'a proc_st_scheme \<Rightarrow> bool" where
  "embryo c s \<longleftrightarrow> table_ok s \<and> p_state (proc_at s c) = USED"

lemma embryo_simps [simp]:
  "embryo c (s\<lparr>held := h\<rparr>) = embryo c s" "embryo c (upd_inode ip f w) = embryo c w"
  "embryo c (s\<lparr>initproc := i\<rparr>) = embryo c s"
  by (simp_all add: embryo_def proc_at_def table_ok_def upd_inode_def)

lemma lock_embryo: "embryo c s \<Longrightarrow> post (acquire l s) (embryo c)" "embryo c s \<Longrightarrow> post (release l s) (embryo c)"
  by (auto simp: post_def acquire_Ok release_Ok)

lemma iget_embryo: "embryo c s \<Longrightarrow> post (iget dev i s) (\<lambda>(r, t). embryo c t)"
  unfolding iget_def by (intro keeps lock_embryo) simp_all

lemma userinit_table:
  fixes s :: "'a file_st_scheme"
  assumes nl: "no_proc_lock s" and ok: "table_ok s"
  shows "post (userinit e s) table_ok"
  unfolding userinit_def namei_root Let_def
proof (rule post_bnd_pair[where Q = "\<lambda>r t. case r of None \<Rightarrow> True | Some c \<Rightarrow> embryo c t"])
  show "post (allocproc s) (\<lambda>(r, t). case r of None \<Rightarrow> True | Some c \<Rightarrow> embryo c t)"
  proof (rule postI, clarify)
    fix r t assume run: "allocproc s = Ok (r, t)"
    have "table_ok t" "alloc_frame s r t"
      using postD[OF allocproc_table[OF nl ok] run] postD[OF allocproc_post[OF nl table_ok_len[OF ok]] run] by simp_all
    then show "case r of None \<Rightarrow> True | Some c \<Rightarrow> embryo c t"
      using find_less[of _ NPROC] table_ok_len[OF ok]
      by (fastforce simp: embryo_def alloc_frame_def proc_at_def given_def mem_only_procs(1) split: option.splits)
  qed
  have start: "table_ok (upd_proc c (\<lambda>q. q\<lparr>p_cwd := ip, p_state := RUNNABLE\<rparr>) u)" if "embryo c u"
    for c ip and u :: "'a file_st_scheme"
    by (rule table_ok_step) (use that in \<open>auto simp: embryo_def proc_ok_def\<close>)
  fix r and t :: "'a file_st_scheme" assume rt: "case r of None \<Rightarrow> True | Some c \<Rightarrow> embryo c t"
  show "post (bnd (bnd (iget ROOTDEV ROOTINO (t\<lparr>initproc := r\<rparr>)) (\<lambda>(ip, s). Ok (Some ip, s))) (\<lambda>(ip, s).
         case r of
           None \<Rightarrow> Undef ''null process''
         | Some p \<Rightarrow> release (L_proc p) (upd_proc p (\<lambda>q. q\<lparr>p_cwd := ip, p_state := RUNNABLE\<rparr>) s))) table_ok"
  proof (cases r)
    case None
    then show ?thesis by (auto simp: post_def bnd_eq_Ok)
  next
    case (Some c)
    with rt have "embryo c (t\<lparr>initproc := r\<rparr>)" by simp
    then have "post (bnd (iget ROOTDEV ROOTINO (t\<lparr>initproc := r\<rparr>)) (\<lambda>(ip, s). Ok (Some ip, s))) (\<lambda>(r, t). embryo c t)"
      by (intro post_bnd_pair[OF iget_embryo] post_Ok_pair) simp_all
    then show ?thesis
      by (rule post_bnd_pair) (auto simp: Some intro!: release_table start)
  qed
qed

section \<open>The schedulers\<close>

lemma dispatch_table:
  assumes "table_ok s" and "p_state (proc_at s p) = RUNNABLE"
  shows "table_ok (dispatch p s)"
proof -
  have "table_ok (upd_proc p (\<lambda>q. q\<lparr>first_run_time := (if first_run_time q = -1 then sint (ticks s) else first_run_time q),
        p_state := RUNNING\<rparr>) s)"
    by (rule table_ok_step) (use assms in \<open>auto simp: proc_ok_def\<close>)
  then show ?thesis by (simp add: dispatch_def table_ok_def)
qed

lemma dispatch_alive: "table_ok s \<Longrightarrow> runnable s p \<Longrightarrow> alive p (dispatch p s)"
  using dispatch_table[of s p] table_ok_len[of s]
  by (simp add: alive_def runnable_def) (simp add: dispatch_def proc_at_def)

text \<open>What a scheduler chooses is runnable.\<close>

definition chosen_ok :: "nat option \<Rightarrow> 'a proc_st_scheme \<Rightarrow> bool" where
  "chosen_ok r s \<longleftrightarrow> table_ok s \<and> (\<forall>p. r = Some p \<longrightarrow> runnable s p)"

lemma scan_level_chooses:
  "table_ok s \<Longrightarrow> set ps \<subseteq> {..<NPROC} \<Longrightarrow> post (scan_level q ps s) (\<lambda>(r, t). chosen_ok r t)"
proof (induction ps arbitrary: s)
  case (Cons p ps)
  show ?case unfolding scan_level.simps
    by (intro post_bnd[OF acquire_table] post_bnd[OF release_table] post_if post_Ok_pair Cons.IH)
      (use Cons.prems in \<open>auto simp: chosen_ok_def runnable_def table_ok_def proc_at_def\<close>)
qed (simp add: post_def chosen_ok_def)

lemma mlfq_pick_chooses: "table_ok s \<Longrightarrow> post (mlfq_pick s) (\<lambda>(r, t). chosen_ok r t)"
proof -
  have "table_ok s \<Longrightarrow> post (scan_levels qs s) (\<lambda>(r, t). chosen_ok r t)" for qs
  proof (induction qs arbitrary: s)
    case (Cons q qs)
    have "set (cyc (mlfq_last s ! q)) \<subseteq> {..<NPROC}" by (auto simp: mem_cyc)
    with Cons show ?case unfolding scan_levels.simps
      by (intro post_bnd_pair[OF scan_level_chooses] post_case_option post_Ok_pair) (auto simp: chosen_ok_def)
  qed (simp add: post_def chosen_ok_def)
  then show "table_ok s \<Longrightarrow> post (mlfq_pick s) (\<lambda>(r, t). chosen_ok r t)" by (simp add: mlfq_pick_def)
qed

lemma fifo_pick_chooses: "table_ok s \<Longrightarrow> post (fifo_pick s) (\<lambda>(r, t). chosen_ok r t)"
proof -
  have scan: "table_ok t \<Longrightarrow> set ps \<subseteq> {..<NPROC} \<Longrightarrow> (\<And>c. r = Some c \<Longrightarrow> c < NPROC) \<Longrightarrow>
      post (fifo_scan ps r t) (\<lambda>(r, t). table_ok t \<and> (\<forall>c. r = Some c \<longrightarrow> c < NPROC))" for ps r and t :: "'a proc_st_scheme"
  proof (induction ps arbitrary: r t)
    case (Cons p ps)
    show ?case unfolding fifo_scan.simps Let_def
      by (intro post_bnd[OF acquire_table] post_bnd[OF release_table] Cons.IH)
        (use Cons.prems in \<open>auto split: if_splits\<close>)
  qed (simp add: post_def)
  show "table_ok s \<Longrightarrow> post (fifo_pick s) (\<lambda>(r, t). chosen_ok r t)"
    unfolding fifo_pick_def
    by (rule post_bnd_pair[OF scan], assumption, force, simp,
        intro post_case_option post_bnd[OF acquire_table] post_if post_bnd[OF release_table] post_Ok_pair)
      (auto simp: chosen_ok_def runnable_def)
qed

text \<open>\<open>run\<close> keeps the table while the process it was given is on the hart.\<close>

definition keeps_table :: "('a proc_st_scheme \<Rightarrow> 'a proc_st_scheme res) \<Rightarrow> bool" where
  "keeps_table run \<longleftrightarrow> (\<forall>p s t. alive p s \<longrightarrow> run s = Ok t \<longrightarrow> table_ok t)"

lemma run_chosen: "keeps_table run \<Longrightarrow> chosen_ok (Some p) s \<Longrightarrow> post (run (dispatch p s)) table_ok"
  using dispatch_alive[of s p] by (auto simp: keeps_table_def chosen_ok_def post_def)

lemma switched_table [simp]:
  "table_ok (switched_back s) = table_ok s" "table_ok (intr_on s) = table_ok s" "table_ok (intr_off s) = table_ok s"
  by (rule table_ok_same; simp add: switched_back_def intr_on_def intr_off_def)+

lemma mlfq_turn_table:
  assumes "table_ok s" and run: "keeps_table run"
  shows "post (mlfq_turn run lb s) (\<lambda>(r, t). table_ok t)"
  unfolding mlfq_turn_def maybe_boost_def Let_def
  by (intro post_bnd_pair[where Q = "\<lambda>_. table_ok"] post_if post_bnd[OF mlfq_boost_table] post_Ok_pair
      post_bnd_pair[OF mlfq_pick_chooses] post_case_option post_bnd[OF run_chosen[OF run]] post_bnd[OF release_table])
    (use assms(1) in \<open>auto simp: chosen_ok_def\<close>)

lemma fifo_turn_table:
  assumes "table_ok s" and run: "keeps_table run"
  shows "post (fifo_turn run s) table_ok"
  unfolding fifo_turn_def
  by (intro post_bnd_pair[OF fifo_pick_chooses] post_case_option post_Ok post_bnd[OF run_chosen[OF run]] release_table)
    (use assms(1) in \<open>auto simp: chosen_ok_def\<close>)

lemma rr_pass_table:
  assumes "table_ok s" and run: "keeps_table run"
  shows "post (rr_pass run s) (\<lambda>(r, t). table_ok t)"
proof -
  have "post (rr_one run p (b, t)) (\<lambda>(r, t). table_ok t)" if "p < NPROC" "table_ok t" for p b t
    unfolding rr_one_def prod.case
    by (intro post_bnd[OF acquire_table] post_bnd_pair[where Q = "\<lambda>_. table_ok"] post_if post_bnd[OF run_chosen[OF run]]
        post_bnd[OF release_table] post_Ok_pair) (use that in \<open>auto simp: chosen_ok_def runnable_def\<close>)
  then show ?thesis unfolding rr_pass_def
    by (intro post_for_each) (use assms(1) in auto)
qed

lemma scheduler_table:
  assumes s: "table_ok s" and run: "keeps_table run"
  shows "post (scheduler pol n run s) table_ok"
proof -
  have m: "table_ok t \<Longrightarrow> post (scheduler_mlfq n run lb t) table_ok" for lb t
    by (induction n arbitrary: lb t) (auto simp: post_def bnd_eq_Ok dest: postD[OF mlfq_turn_table[OF _ run]])
  have f: "table_ok t \<Longrightarrow> post (scheduler_fifo n run t) table_ok" for t
    by (induction n arbitrary: t) (auto simp: post_def bnd_eq_Ok dest: postD[OF fifo_turn_table[OF _ run]])
  have r: "table_ok t \<Longrightarrow> post (scheduler_rr n run t) table_ok" for t
    by (induction n arbitrary: t) (auto simp: post_def bnd_eq_Ok dest: postD[OF rr_pass_table[OF _ run]])
  have "table_ok (s\<lparr>curproc := None\<rparr>)" using s table_ok_same[of "s\<lparr>curproc := None\<rparr>" s] by simp
  then show ?thesis by (cases pol) (simp_all add: scheduler_def m f r)
qed

section \<open>The first table, and others that are fair\<close>

text \<open>The table as the loader leaves it, in \<open>bss\<close>.\<close>

definition blank_table :: "'a proc_st_scheme \<Rightarrow> bool" where
  "blank_table s \<longleftrightarrow> length (procs s) = NPROC \<and> nextpid s = 1 \<and>
     (\<forall>q \<in> set (procs s). p_pid q = 0 \<and> p_chan q = None \<and> p_trapframe q = 0 \<and> p_pagetable q = 0 \<and>
        queue q = 0 \<and> ticks_used q = 0)"

lemma procinit_table: "blank_table s \<Longrightarrow> table_ok (procinit s)"
  by (auto simp: blank_table_def procinit_def table_ok_def pids_distinct_def proc_ok_def NMLFQ_def mlfq_slice_def
      proc_at_def)

text \<open>
  The machine with a disk is fair: the interrupt handler wakes the sleepers of the buffers it has served,
  and the scheduler comes back to a process it finds runnable.
\<close>

lemma serve_procs: "procs (serve s) = procs s" "nextpid (serve s) = nextpid s" "curproc (serve s) = curproc s"
proof -
  have one: "procs (serve_one s) = procs s \<and> nextpid (serve_one s) = nextpid s \<and> curproc (serve_one s) = curproc s"
    for s :: "'a disk_st_scheme"
    by (simp add: serve_one_def Let_def upd_buf_def split: dref.split)
  have "procs ((serve_one ^^ n) s) = procs s \<and> nextpid ((serve_one ^^ n) s) = nextpid s \<and>
      curproc ((serve_one ^^ n) s) = curproc s" for n
    by (induction n) (simp_all add: one)
  then show "procs (serve s) = procs s" "nextpid (serve s) = nextpid s" "curproc (serve s) = curproc s"
    by (simp_all add: serve_def)
qed

definition holds_cpu :: "nat \<Rightarrow> 'a proc_st_scheme \<Rightarrow> bool" where
  "holds_cpu p s \<longleftrightarrow> table_ok s \<and> curproc s = Some p"

lemma holds_cpu_simps [simp]:
  "holds_cpu p (s\<lparr>held := h\<rparr>) = holds_cpu p s" "holds_cpu p (upd_buf b f d) = holds_cpu p d"
  "holds_cpu p (d\<lparr>vq := v\<rparr>) = holds_cpu p d" "holds_cpu p (serve d) = holds_cpu p d"
  by (simp_all add: holds_cpu_def table_ok_def serve_procs) (simp add: upd_buf_def)

lemma lock_holds_cpu: "holds_cpu p s \<Longrightarrow> post (acquire l s) (holds_cpu p)" "holds_cpu p s \<Longrightarrow> post (release l s) (holds_cpu p)"
  by (auto simp: post_def acquire_Ok release_Ok)

lemma wakeup_holds_cpu: "holds_cpu p s \<Longrightarrow> post (wakeup ch s) (holds_cpu p)"
proof -
  have "holds_cpu p (upd_proc k (wake ch) t)" if "holds_cpu p t" for k and t :: "'a proc_st_scheme"
    using that table_ok_step[of t k "wake ch"] by (auto simp: holds_cpu_def proc_ok_def wake_def)
  then show "holds_cpu p s \<Longrightarrow> post (wakeup ch s) (holds_cpu p)"
    unfolding wakeup_def by (intro post_for_each post_bnd[OF lock_holds_cpu(1)] lock_holds_cpu(2))
qed

lemma disk_intr_holds_cpu: "holds_cpu p s \<Longrightarrow> post (virtio_disk_intr s) (holds_cpu p)"
proof -
  have "holds_cpu p t \<Longrightarrow> post (intr_loop n t) (holds_cpu p)" for n and t :: "'a disk_st_scheme"
  proof (induction n arbitrary: t)
    case (Suc n)
    show ?case unfolding intr_loop.simps Let_def
      by (intro keep_check post_case_option post_fail post_bnd[OF wakeup_holds_cpu[of p]]) (simp_all add: Suc)
  qed (simp add: post_def)
  then show "holds_cpu p s \<Longrightarrow> post (virtio_disk_intr s) (holds_cpu p)"
    unfolding virtio_disk_intr_def by (intro post_bnd[OF lock_holds_cpu(1)] post_bnd[where Q = "holds_cpu p"] lock_holds_cpu(2))
qed

lemma fair_device: "fair_others p device_env"
  unfolding fair_others_def
proof (intro allI impI)
  fix s t :: "'a disk_st_scheme"
  assume s: "table_ok s" "curproc s = Some p" "p < NPROC" and run: "others device_env s = Ok t"
  have "holds_cpu p s" using s by (simp add: holds_cpu_def)
  then have "post (bnd (release (L_proc p) s) (\<lambda>s.
         bnd (virtio_disk_intr (serve s)) (\<lambda>s.
           if p_state (proc_at s p) = RUNNABLE
           then bnd (acquire (L_proc p) s) (\<lambda>s. Ok (dispatch p s)) else Spin))) (alive p)"
    by (intro post_bnd[OF lock_holds_cpu(2)[of p]] post_bnd[OF disk_intr_holds_cpu[of p]] post_if)
      (use s in \<open>auto simp: post_def bnd_eq_Ok acquire_Ok holds_cpu_def runnable_def serve_procs table_ok_def
        intro!: dispatch_alive\<close>)
  then show "alive p t" using run s(2) by (auto simp: device_env_def dest: postD)
qed

end
