(* ===== verification/K_Wakeup.thy ===== *)
theory K_Wakeup
  imports K_Proc
begin

text \<open>
  Sleeping and waking of \<open>proc.c\<close> with the steps of two processes interleaved.  A sleeper runs
  \<open>acquire(lk); while(!cond) { sleep_prepare(ch); release(lk); sleep(); acquire(lk); } release(lk)\<close>,
  a waker \<open>acquire(lk); cond = 1; wakeup(ch); release(lk)\<close>, as every user of the two does.  A step is
  what happens under one holding of the sleeper's own lock, with the functions of the model of
  \<open>proc.c\<close>; wakeups by others, kills and the timer come in between.  The timer preempts the sleeper where
  it holds no spin lock, so that interrupts are on: \<open>yield\<close> leaves it runnable, with its channel.
\<close>

section \<open>The steps\<close>

datatype who = Sleeper | Waker

datatype spc = S_want | S_top | S_prepared | S_unlocked | S_asleep | S_out

datatype wpc = W_want | W_locked | W_set | W_waked | W_out

record sw =
  sq :: kproc
  cond :: bool
  lk :: "who option"
  spc :: spc
  wpc :: wpc

inductive sw_step :: "chan \<Rightarrow> sw \<Rightarrow> sw \<Rightarrow> bool" for ch where
  s_lock: "spc s = S_want \<Longrightarrow> p_state (sq s) = RUNNING \<Longrightarrow> lk s = None \<Longrightarrow> sw_step ch s (s\<lparr>spc := S_top, lk := Some Sleeper\<rparr>)"
| s_done: "spc s = S_top \<Longrightarrow> cond s \<Longrightarrow> sw_step ch s (s\<lparr>spc := S_out, lk := None\<rparr>)"
| s_prepare: "spc s = S_top \<Longrightarrow> \<not> cond s \<Longrightarrow>
    sw_step ch s (s\<lparr>spc := S_prepared, sq := prepare (Some ch) (sq s)\<rparr>)"
| s_unlock: "spc s = S_prepared \<Longrightarrow> sw_step ch s (s\<lparr>spc := S_unlocked, lk := None\<rparr>)"
| s_sleep: "spc s = S_unlocked \<Longrightarrow> p_state (sq s) = RUNNING \<Longrightarrow> p_chan (sq s) \<noteq> None \<Longrightarrow>
    sw_step ch s (s\<lparr>spc := S_asleep, sq := doze (sq s)\<rparr>)"
| s_no_sleep: "spc s = S_unlocked \<Longrightarrow> p_state (sq s) = RUNNING \<Longrightarrow> p_chan (sq s) = None \<Longrightarrow>
    sw_step ch s (s\<lparr>spc := S_want\<rparr>)"
| s_run: "spc s = S_asleep \<Longrightarrow> p_state (sq s) = RUNNABLE \<Longrightarrow>
    sw_step ch s (s\<lparr>spc := S_want, sq := (sq s)\<lparr>p_state := RUNNING\<rparr>\<rparr>)"
| s_preempt: "spc s = S_want \<or> spc s = S_unlocked \<or> spc s = S_out \<Longrightarrow> p_state (sq s) = RUNNING \<Longrightarrow>
    sw_step ch s (s\<lparr>sq := (sq s)\<lparr>p_state := RUNNABLE\<rparr>\<rparr>)"
| s_resume: "spc s = S_want \<or> spc s = S_unlocked \<or> spc s = S_out \<Longrightarrow> p_state (sq s) = RUNNABLE \<Longrightarrow>
    sw_step ch s (s\<lparr>sq := (sq s)\<lparr>p_state := RUNNING\<rparr>\<rparr>)"
| w_lock: "wpc s = W_want \<Longrightarrow> lk s = None \<Longrightarrow> sw_step ch s (s\<lparr>wpc := W_locked, lk := Some Waker\<rparr>)"
| w_set: "wpc s = W_locked \<Longrightarrow> sw_step ch s (s\<lparr>wpc := W_set, cond := True\<rparr>)"
| w_wake: "wpc s = W_set \<Longrightarrow> sw_step ch s (s\<lparr>wpc := W_waked, sq := wake (Some ch) (sq s)\<rparr>)"
| w_unlock: "wpc s = W_waked \<Longrightarrow> sw_step ch s (s\<lparr>wpc := W_out, lk := None\<rparr>)"
| other_wake: "sw_step ch s (s\<lparr>sq := wake c (sq s)\<rparr>)" if "c \<noteq> None"
| other_kill: "sw_step ch s (s\<lparr>sq := kill1 (sq s)\<rparr>)"

inductive sw_reach :: "chan \<Rightarrow> sw \<Rightarrow> sw \<Rightarrow> bool" for ch where
  sw_refl: "sw_reach ch s s"
| sw_more: "sw_reach ch s t \<Longrightarrow> sw_step ch t u \<Longrightarrow> sw_reach ch s u"

inductive_cases sw_stepE: "sw_step ch s t"

definition sw_start :: "sw \<Rightarrow> bool" where
  "sw_start s \<longleftrightarrow> spc s = S_want \<and> wpc s = W_want \<and> lk s = None \<and> \<not> cond s \<and> p_state (sq s) = RUNNING"

section \<open>No wakeup is lost\<close>

definition sleeper_in :: "spc \<Rightarrow> bool" where "sleeper_in p \<longleftrightarrow> p = S_top \<or> p = S_prepared"

definition waker_in :: "wpc \<Rightarrow> bool" where "waker_in w \<longleftrightarrow> w = W_locked \<or> w = W_set \<or> w = W_waked"

text \<open>The sleeper's process, by where the sleeper and the waker are.\<close>

definition proc_inv :: "chan \<Rightarrow> spc \<Rightarrow> bool \<Rightarrow> kproc \<Rightarrow> bool" where
  "proc_inv ch p past q \<longleftrightarrow>
     (case p of
        S_asleep \<Rightarrow> p_state q = RUNNABLE \<or> \<not> past \<and> p_state q = SLEEPING \<and> p_chan q = Some ch
      | S_unlocked \<Rightarrow> (p_state q = RUNNING \<or> p_state q = RUNNABLE) \<and> (p_chan q = None \<or> \<not> past \<and> p_chan q = Some ch)
      | S_prepared \<Rightarrow> p_state q = RUNNING \<and> \<not> past \<and> (p_chan q = None \<or> p_chan q = Some ch)
      | S_top \<Rightarrow> p_state q = RUNNING
      | _ \<Rightarrow> p_state q = RUNNING \<or> p_state q = RUNNABLE)"

definition past_wakeup :: "wpc \<Rightarrow> bool" where "past_wakeup w \<longleftrightarrow> w = W_waked \<or> w = W_out"

definition sw_inv :: "chan \<Rightarrow> sw \<Rightarrow> bool" where
  "sw_inv ch s \<longleftrightarrow>
     lk s = (if sleeper_in (spc s) then Some Sleeper else if waker_in (wpc s) then Some Waker else None) \<and>
     \<not> (sleeper_in (spc s) \<and> waker_in (wpc s)) \<and>
     (cond s \<longleftrightarrow> wpc s = W_set \<or> past_wakeup (wpc s)) \<and>
     proc_inv ch (spc s) (past_wakeup (wpc s)) (sq s)"

lemma proc_inv_wake: "c \<noteq> None \<Longrightarrow> proc_inv ch p b q \<Longrightarrow> proc_inv ch p b (wake c q)"
  by (cases p) (auto simp: proc_inv_def wake_def)

lemma proc_inv_waked: "proc_inv ch p b q \<Longrightarrow> p \<noteq> S_prepared \<Longrightarrow> proc_inv ch p True (wake (Some ch) q)"
  by (cases p) (auto simp: proc_inv_def wake_def)

lemma proc_inv_kill: "proc_inv ch p b q \<Longrightarrow> proc_inv ch p b (kill1 q)"
  by (cases p) (auto simp: proc_inv_def kill1_def)

lemmas sw_defs = sw_inv_def sleeper_in_def waker_in_def past_wakeup_def

lemma sw_inv_step: "sw_step ch s t \<Longrightarrow> sw_inv ch s \<Longrightarrow> sw_inv ch t"
proof (induction rule: sw_step.induct)
  case (s_prepare s)
  then show ?case by (cases "wpc s") (simp_all add: sw_defs proc_inv_def prepare_def)
next
  case (s_sleep s)
  then show ?case by (cases "wpc s") (auto simp: sw_defs proc_inv_def doze_def)
next
  case (w_wake s)
  then have "spc s \<noteq> S_prepared" by (auto simp: sw_defs)
  with w_wake show ?case using proc_inv_waked[of ch "spc s" False "sq s"] by (auto simp: sw_defs)
next
  case (other_wake c s)
  then show ?case using proc_inv_wake by (simp add: sw_inv_def)
next
  case (other_kill s)
  then show ?case using proc_inv_kill by (simp add: sw_inv_def)
qed (auto simp: sw_defs proc_inv_def split: if_splits)

lemma sw_inv_start: "sw_start s \<Longrightarrow> sw_inv ch s"
  by (simp add: sw_start_def sw_defs proc_inv_def)

lemma sw_inv_reach: "sw_reach ch s t \<Longrightarrow> sw_inv ch s \<Longrightarrow> sw_inv ch t"
  by (induction rule: sw_reach.induct) (auto intro: sw_inv_step)

text \<open>Once the waker is past its wakeup the sleeper does not sleep.\<close>

lemma woken: "sw_reach ch s t \<Longrightarrow> sw_start s \<Longrightarrow> wpc t = W_out \<Longrightarrow> p_state (sq t) \<noteq> SLEEPING"
proof -
  assume "sw_reach ch s t" "sw_start s" and w: "wpc t = W_out"
  then have "sw_inv ch t" using sw_inv_reach sw_inv_start by blast
  with w show ?thesis by (cases "spc t") (auto simp: sw_defs proc_inv_def)
qed

section \<open>The sleeper gets out\<close>

text \<open>
  The sleeper's own steps, and the scheduler's choice of it; and how many are left before it sees the
  condition, the waker being done.
\<close>

definition sleeper_step :: "chan \<Rightarrow> sw \<Rightarrow> sw \<Rightarrow> bool" where
  "sleeper_step ch s t \<longleftrightarrow>
     sw_step ch s t \<and> (spc t \<noteq> spc s \<or> p_state (sq s) = RUNNABLE \<and> p_state (sq t) = RUNNING)"

definition sleeper_left :: "sw \<Rightarrow> nat" where
  "sleeper_left s =
     2 * (case spc s of S_out \<Rightarrow> 0 | S_top \<Rightarrow> 1 | S_want \<Rightarrow> 2 | S_unlocked \<Rightarrow> 3 | S_asleep \<Rightarrow> 3 | S_prepared \<Rightarrow> 4) +
     (if p_state (sq s) = RUNNABLE then 1 else 0)"

lemma sleeper_resumes:
  assumes "spc s = S_want \<or> spc s = S_unlocked" "p_state (sq s) = RUNNABLE" "wpc s = W_out"
  shows "\<exists>t. sleeper_step ch s t \<and> wpc t = W_out \<and> sleeper_left t < sleeper_left s"
  using assms s_resume[of s ch]
  by (intro exI[of _ "s\<lparr>sq := (sq s)\<lparr>p_state := RUNNING\<rparr>\<rparr>"]) (auto simp: sleeper_step_def sleeper_left_def)

lemma sleeper_progress:
  assumes "sw_inv ch s" "wpc s = W_out" "spc s \<noteq> S_out"
  shows "\<exists>t. sleeper_step ch s t \<and> wpc t = W_out \<and> sleeper_left t < sleeper_left s"
proof (cases "(spc s = S_want \<or> spc s = S_unlocked) \<and> p_state (sq s) = RUNNABLE")
  case True
  with assms(2) show ?thesis by (intro sleeper_resumes) auto
next
  case awake: False
  show ?thesis
  proof (cases "spc s")
    case S_want
    then have "lk s = None" "p_state (sq s) = RUNNING" using assms(1,2) awake by (auto simp: sw_defs proc_inv_def)
    with S_want assms(2) show ?thesis
      by (intro exI[of _ "s\<lparr>spc := S_top, lk := Some Sleeper\<rparr>"]) (auto simp: sleeper_step_def sleeper_left_def intro: s_lock)
  next
    case S_top
    then have "cond s" "p_state (sq s) = RUNNING" using assms(1,2) by (auto simp: sw_defs proc_inv_def)
    with S_top assms(2) show ?thesis
      by (intro exI[of _ "s\<lparr>spc := S_out, lk := None\<rparr>"]) (auto simp: sleeper_step_def sleeper_left_def intro: s_done)
  next
    case S_prepared
    with assms show ?thesis by (auto simp: sw_defs proc_inv_def)
  next
    case S_unlocked
    then have "p_chan (sq s) = None" "p_state (sq s) = RUNNING" using assms awake by (auto simp: sw_defs proc_inv_def)
    with S_unlocked assms(2) show ?thesis
      by (intro exI[of _ "s\<lparr>spc := S_want\<rparr>"]) (auto simp: sleeper_step_def sleeper_left_def intro: s_no_sleep)
  next
    case S_asleep
    then have "p_state (sq s) = RUNNABLE" using assms by (auto simp: sw_defs proc_inv_def)
    with S_asleep assms(2) show ?thesis
      by (intro exI[of _ "s\<lparr>spc := S_want, sq := (sq s)\<lparr>p_state := RUNNING\<rparr>\<rparr>"])
        (auto simp: sleeper_step_def sleeper_left_def intro: s_run)
  qed (use assms in simp)
qed

text \<open>Whatever has happened, a sleeper whose waker is done can finish by its own steps and the scheduler's choices of it.\<close>

lemma sleeper_finishes:
  "sw_inv ch s \<Longrightarrow> wpc s = W_out \<Longrightarrow> \<exists>t. (sleeper_step ch)\<^sup>*\<^sup>* s t \<and> spc t = S_out"
proof (induction "sleeper_left s" arbitrary: s rule: less_induct)
  case less
  show ?case
  proof (cases "spc s = S_out")
    case False
    then obtain t where t: "sleeper_step ch s t" "wpc t = W_out" "sleeper_left t < sleeper_left s"
      using sleeper_progress less.prems by blast
    have "sw_inv ch t" using t(1) less.prems(1) by (auto simp: sleeper_step_def intro: sw_inv_step)
    from less.hyps[OF t(3) this t(2)] t(1) show ?thesis by (meson converse_rtranclp_into_rtranclp)
  qed auto
qed

end
