(* ===== verification/K_Properties.thy ===== *)
theory K_Properties
  imports K_Table K_Wakeup
begin

text \<open>
  The properties of the kernel.  Each is stated over the definitions of the components and proved from
  their lemmas; each has an instance at a concrete state after it.
\<close>

section \<open>States for the instances\<close>

definition free_proc :: kproc where
  "free_proc = \<lparr>p_state = UNUSED, p_chan = None, p_killed = False, p_xstate = 0, p_pid = 0, p_parent = None,
     p_kstack = 0, p_sz = 0, p_pagetable = 0, p_trapframe = 0, p_context = \<lparr>r_ra = 0, r_sp = 0, r_s = []\<rparr>,
     p_ofile = replicate 16 None, p_cwd = None, p_name = [], creation_time = 0, first_run_time = 0,
     end_time = 0, cpu_ticks = 0, queue = 0, ticks_used = 0\<rparr>"

definition ready_proc :: "int \<Rightarrow> nat \<Rightarrow> kproc" where
  "ready_proc pid q = free_proc\<lparr>p_state := RUNNABLE, p_pid := pid, queue := q\<rparr>"

text \<open>The first slots are \<open>ps\<close>, the others free.\<close>

definition table_of :: "kproc list \<Rightarrow> kproc list" where
  "table_of ps = ps @ replicate (NPROC - length ps) free_proc"

definition demo_kernel :: "kproc list \<Rightarrow> proc_st" where
  "demo_kernel ps =
     \<lparr>held = [], irq = True, kout = [], panicking = False, mem = (\<lambda>_. 0), kmem_free = 0, kend = KERNBASE,
      kernel_pagetable = 0, etext = KERNBASE, trampoline = KERNBASE, procs = table_of ps, initproc = None,
      nextpid = 100, ticks = 7, curproc = None, forkret_addr = 0, mlfq_last = [0, 0, 0, 0]\<rparr>"

lemma demo_kernel_simps [simp]:
  "held (demo_kernel ps) = []" "procs (demo_kernel ps) = table_of ps" "nextpid (demo_kernel ps) = 100"
  "mlfq_last (demo_kernel ps) = [0, 0, 0, 0]" "curproc (demo_kernel ps) = None"
  "kmem_free (demo_kernel ps) = 0" "kend (demo_kernel ps) = KERNBASE" "ticks (demo_kernel ps) = 7"
  "mem (demo_kernel ps) = (\<lambda>_. 0)"
  by (simp_all add: demo_kernel_def)

lemma table_of_length [simp]: "length ps \<le> NPROC \<Longrightarrow> length (table_of ps) = NPROC"
  by (simp add: table_of_def)

lemma table_of_nth: "length ps \<le> NPROC \<Longrightarrow> p < NPROC \<Longrightarrow> table_of ps ! p = (if p < length ps then ps ! p else free_proc)"
  by (simp add: table_of_def nth_append)

lemma free_proc_ok: "0 < n \<Longrightarrow> proc_ok n free_proc"
  by (simp add: proc_ok_def free_proc_def NMLFQ_def mlfq_slice_def)

lemma demo_idle:
  assumes "length ps \<le> NPROC" "\<forall>q \<in> set ps. proc_ok 100 q \<and> p_state q \<noteq> UNUSED" "distinct (map p_pid ps)"
  shows "idle (demo_kernel ps)"
proof -
  have "proc_ok 100 (table_of ps ! p)" if "p < NPROC" for p
    using that assms(1,2) free_proc_ok[of 100] by (auto simp: table_of_nth)
  moreover have "pids_distinct (table_of ps)"
    unfolding pids_distinct_def
  proof (intro allI impI)
    fix i j assume ij: "i < length (table_of ps)" "j < length (table_of ps)" "i \<noteq> j"
      "p_state (table_of ps ! i) \<noteq> UNUSED" "p_state (table_of ps ! j) \<noteq> UNUSED"
    then have "i < length ps" "j < length ps"
      using assms(1) by (auto simp: table_of_nth free_proc_def split: if_splits)
    then show "p_pid (table_of ps ! i) \<noteq> p_pid (table_of ps ! j)"
      using ij(3) assms(1,3) by (auto simp: table_of_def nth_append distinct_conv_nth)
  qed
  ultimately show ?thesis using assms(1) by (simp add: idle_def table_ok_def)
qed

lemma ready_proc_ok: "0 < pid \<Longrightarrow> pid < 100 \<Longrightarrow> q < NMLFQ \<Longrightarrow> proc_ok 100 (ready_proc pid q) \<and> p_state (ready_proc pid q) \<noteq> UNUSED"
  using slice_pos[of q] by (simp add: proc_ok_def ready_proc_def free_proc_def)


section \<open>Locks\<close>

text \<open>C14: Whatever the harts do, a lock between a hart's exchange and its store of zero is no other
  hart's, it reads as locked, its owner has interrupts off, and \<open>holding\<close> answers exactly whether the
  asking hart has it.\<close>

theorem lock_mutual_exclusion:
  assumes "lock_start m0" and "lock_reach m0 m" and "l \<in> owns m h"
  shows "(l \<in> owns m k \<longrightarrow> k = h) \<and> locked (locks m l) \<and> \<not> sie (harts m h) \<and> 0 < noff (harts m h) \<and>
    (pcs m k = Out \<longrightarrow> (holding k l m \<longleftrightarrow> k = h))"
proof -
  have inv: "lock_inv m" by (rule lock_inv_reach[OF assms(2) lock_inv_start[OF assms(1)]])
  have "finite (owns m h)" "noff (harts m h) = int (card (owns m h)) + depth_of (pcs m h)"
    using inv by (auto simp: lock_inv_def)
  moreover have "0 \<le> depth_of (pcs m h)" by (simp add: depth_of_def split: lpc.split)
  moreover have "0 < card (owns m h)" using calculation(1) assms(3) by (auto simp: card_gt_0_iff)
  ultimately have "0 < noff (harts m h)" by simp
  then show ?thesis
    using owned_exclusive[OF inv assms(3), of k] owner_quiet[OF inv assms(3)] holding_iff_owns[OF inv, of k l]
      inv assms(3) by (auto simp: lock_inv_def)
qed

definition idle_machine :: conc where
  "idle_machine = \<lparr>locks = (\<lambda>_. \<lparr>locked = False, lk_cpu = None\<rparr>),
     harts = (\<lambda>_. \<lparr>noff = 0, intena = False, sie = True\<rparr>), pcs = (\<lambda>_. Out), owns = (\<lambda>_. {})\<rparr>"

text \<open>Hart 0 in \<open>acquire(&wait_lock)\<close>, past the exchange.\<close>

definition machine_won :: conc where
  "machine_won = idle_machine\<lparr>
     harts := (harts idle_machine)(0 := \<lparr>noff = 1, intena = True, sie = False\<rparr>),
     locks := (locks idle_machine)(L_wait := \<lparr>locked = True, lk_cpu = None\<rparr>),
     pcs := (pcs idle_machine)(0 := Won L_wait), owns := (owns idle_machine)(0 := {L_wait})\<rparr>"

lemma machine_won_reached: "lock_reach idle_machine machine_won"
proof -
  define m1 where "m1 = idle_machine\<lparr>harts := (harts idle_machine)(0 := \<lparr>noff = 1, intena = True, sie = False\<rparr>)\<rparr>"
  have "push_off 0 idle_machine = Ok m1"
    by (simp add: push_off_def idle_machine_def m1_def sadd32_def INT_MAX_def upd_hart_def)
  then have "lock_step idle_machine (set_pc 0 (Spinning L_wait) m1)"
    by (rule acquire_begin[rotated]) (simp_all add: idle_machine_def m1_def holding_def)
  moreover have "lock_step (set_pc 0 (Spinning L_wait) m1) machine_won"
  proof -
    have e: "machine_won = set_pc 0 (Won L_wait) ((upd_lock L_wait (\<lambda>k. k\<lparr>locked := True\<rparr>)
        (set_pc 0 (Spinning L_wait) m1))\<lparr>owns := (owns (set_pc 0 (Spinning L_wait) m1))
          (0 := insert L_wait (owns (set_pc 0 (Spinning L_wait) m1) 0))\<rparr>)"
      by (simp add: machine_won_def m1_def idle_machine_def set_pc_def upd_lock_def)
    show ?thesis unfolding e by (rule acquire_exchange) (simp_all add: m1_def idle_machine_def)
  qed
  ultimately show ?thesis by (meson lock_refl lock_more)
qed

theorem lock_mutual_exclusion_witness:
  "L_wait \<in> owns machine_won 0 \<and> L_wait \<notin> owns machine_won 1 \<and> locked (locks machine_won L_wait) \<and>
   \<not> sie (harts machine_won 0) \<and> 0 < noff (harts machine_won 0) \<and> \<not> holding 1 L_wait machine_won"
proof -
  have o: "L_wait \<in> owns machine_won 0" "pcs machine_won 1 = Out" by (simp_all add: idle_machine_def machine_won_def)
  have "(L_wait \<in> owns machine_won 1 \<longrightarrow> (1 :: nat) = 0) \<and> locked (locks machine_won L_wait) \<and>
      \<not> sie (harts machine_won 0) \<and> 0 < noff (harts machine_won 0) \<and>
      (pcs machine_won 1 = Out \<longrightarrow> (holding 1 L_wait machine_won \<longleftrightarrow> (1 :: nat) = 0))"
    by (rule lock_mutual_exclusion[OF _ machine_won_reached])
      (simp_all add: lock_start_def idle_machine_def machine_won_def)
  with o show ?thesis by simp
qed

text \<open>C15: The one-hart lock state the kernel's components are written over implements the machine: where
  the machine's \<open>acquire\<close> or \<open>release\<close> returns or panics so does it, with corresponding states, as long
  as the depth of nesting stays an \<open>int\<close>.\<close>

theorem one_hart_locks:
  assumes "hart_view h m s" and "int (length (held s)) < INT_MAX"
  shows "res_rel (hart_view h) (acquire_hw h l m) (acquire l s) \<and>
    res_rel (hart_view h) (release_hw h l m) (release l s)"
  using hw_acquire[OF assms] hw_release[OF assms(1)] by simp

theorem one_hart_locks_witness:
  "res_rel (hart_view 0) (acquire_hw 0 L_wait idle_machine) (acquire L_wait \<lparr>held = [], irq = True\<rparr>) \<and>
   res_rel (hart_view 0) (release_hw 0 L_wait idle_machine) (release L_wait \<lparr>held = [], irq = True\<rparr>)"
  by (rule one_hart_locks) (simp_all add: hart_view_def idle_machine_def holding_def intr_get_def INT_MAX_def)

section \<open>Console text and byte strings\<close>

text \<open>C16: \<open>printint\<close> on any 64 bits, printed as a signed or as an unsigned number: its 20 characters hold
  the text, and the text reads back as the signed or the unsigned number of those bits.  The one exception is
  the least signed number, which \<open>%ld\<close> can pass: negating it overflows.\<close>

theorem printint_sound:
  assumes "base = 10 \<or> base = 16"
  shows "if sign \<and> sint xx = - (2 ^ 63) then printint xx base sign = Undef ''signed overflow''
    else \<exists>t. printint xx base sign = Ok t \<and> length t \<le> 20 \<and>
           read_int base t = (if sign then sint xx else uint xx)"
proof (cases "sign \<and> sint xx = - (2 ^ 63)")
  case True
  then show ?thesis by (simp add: printint_def)
next
  case False
  from printint_fits[OF assms False] obtain t where t: "printint xx base sign = Ok t" "length t \<le> 20"
    by blast
  with printint_reads_back[OF assms False t(1)] show ?thesis
    unfolding if_not_P[OF False] by (auto simp: print_value_def)
qed

theorem printint_sound_witness:
  "(\<exists>t. printint (- 42) 10 True = Ok t \<and> length t \<le> 20 \<and> read_int 10 t = -42) \<and>
   (\<exists>t. printint (- 42) 10 False = Ok t \<and> length t \<le> 20 \<and> read_int 10 t = 18446744073709551574) \<and>
   printint 0x8000000000000000 10 True = Undef ''signed overflow''"
  using printint_sound[where base = 10 and sign = True and xx = "- 42"]
    printint_sound[where base = 10 and sign = False and xx = "- 42"]
    printint_sound[where base = 10 and sign = True and xx = "0x8000000000000000"]
  by simp

text \<open>\<open>memmove\<close> copies every byte of the source as it was before, however the two ranges overlap, and
  writes nothing else.\<close>

theorem memmove_copies:
  assumes "unat s + n < 2 ^ 64" and "unat d + n < 2 ^ 64"
  shows "memmove m d s n a = (if within a d n then m (s + (a - d)) else m a)"
  by (rule memmove_apply[OF assms])

theorem memmove_copies_witness:
  "memmove (\<lambda>a. ucast a) 0x1001 0x1000 8 (0x1004 :: addr) =
     (if within 0x1004 0x1001 8 then ucast (0x1000 + (0x1004 - 0x1001 :: addr)) else ucast (0x1004 :: addr))"
  by (rule memmove_copies) simp_all


text \<open>\<open>safestrcpy\<close> leaves in its buffer of \<open>n\<close> bytes a terminated string, the source or the first
  \<open>n - 1\<close> characters of it, and writes nothing outside the buffer.\<close>

theorem safestrcpy_terminates:
  assumes "0 < n" and "n < 2 ^ 31" and "cstr_at m t cs"
    and "\<And>i. i \<le> length cs \<Longrightarrow> \<not> within (t + of_nat i) s (nat n)"
  shows "cstr_at (safestrcpy m s t n) s (take (nat n - 1) cs) \<and>
    (\<forall>a. \<not> within a s (nat n) \<longrightarrow> safestrcpy m s t n a = m a)"
proof -
  define k where "k = nat (n - 1)"
  have k: "nat n = Suc k" "k < 2 ^ 64" using assms(1,2) by (simp_all add: k_def)
  have eq: "safestrcpy m s t n = safe_copy m s t k" using assms(1) by (simp add: safestrcpy_def k_def)
  show ?thesis
    unfolding eq using safe_copy_cstr[OF k(2) assms(3)] safe_copy_outside[OF k(2)] assms(4) by (simp add: k(1))
qed

theorem safestrcpy_terminates_witness:
  "cstr_at (safestrcpy ((\<lambda>_. 0)(0x2000 := 105, 0x2001 := 110, 0x2002 := 105)) 0x1000 0x2000 3) 0x1000
     [105, 110] \<and>
   safestrcpy ((\<lambda>_. 0)(0x2000 := 105, 0x2001 := 110, 0x2002 := 105)) 0x1000 0x2000 3 0x1003 = 0"
proof -
  let ?m = "(\<lambda>_. 0)(0x2000 := 105, 0x2001 := 110, 0x2002 := 105) :: addr \<Rightarrow> byte"
  have w: "cstr_at (safestrcpy ?m 0x1000 0x2000 3) 0x1000 (take (nat 3 - 1) [105, 110, 105]) \<and>
      (\<forall>a. \<not> within a 0x1000 (nat 3) \<longrightarrow> safestrcpy ?m 0x1000 0x2000 3 a = ?m a)"
  proof (rule safestrcpy_terminates)
    fix i :: nat assume "i \<le> length [105, 110, 105 :: byte]"
    then have "i = 0 \<or> i = 1 \<or> i = 2 \<or> i = 3" by auto
    then show "\<not> within (0x2000 + of_nat i) 0x1000 (nat 3)" by (auto simp: within_def)
  qed simp_all
  have "\<not> within 0x1003 0x1000 (nat 3)" by (simp add: within_def)
  then have "safestrcpy ?m 0x1000 0x2000 3 0x1003 = ?m 0x1003" using w by blast
  moreover have "nat 3 - 1 = 2" "take 2 [105, 110, 105] = [105, 110 :: byte]" by simp_all
  ultimately show ?thesis using w by simp
qed

section \<open>Memory\<close>

text \<open>C17: After \<open>kinit\<close> every page of RAM above the kernel, and nothing else, is on the free list,
  each once.\<close>

theorem kinit_frees_ram:
  assumes "KERNBASE \<le> kend s" and "kend s \<le> PHYSTOP" and "kmem_free s = 0" and "held s = []"
  shows "\<exists>s' ps. kinit s = Ok s' \<and> kmem_ok s' ps \<and> distinct ps \<and> set ps = {p. page_ok s p}"
  using kinit_avail[OF assms(1-3)] assms(4) by (auto simp: kmem_ok_def)

theorem kinit_frees_ram_witness:
  "\<exists>s' ps. kinit (demo_kernel []) = Ok s' \<and> kmem_ok s' ps \<and> distinct ps \<and> set ps = {p. page_ok (demo_kernel []) p}"
  by (rule kinit_frees_ram) (simp_all add: PHYSTOP_def KERNBASE_def)

text \<open>C18: \<open>kfree\<close> of an allocated page puts it on the list and \<open>kalloc\<close> takes it off again, filled with
  junk; every other byte of memory is as it was.\<close>

theorem kfree_kalloc:
  assumes ok: "kmem_ok s ps" and p: "page_ok s p" "p \<notin> set ps"
  shows "\<exists>s' s''. kfree p s = Ok s' \<and> kmem_ok s' (p # ps) \<and> kalloc s' = Ok (p, s'') \<and> kmem_ok s'' ps \<and>
    (\<forall>a. mem s'' a = (if within a p 4096 then 5 else mem s a))"
proof -
  note f = kfree_page[OF ok p]
  note a = kalloc_page[OF f(2)]
  have "mem (took p (gave p s)) b = (if within b p 4096 then 5 else mem s b)" for b
    by (simp add: took_inside took_outside gave_outside)
  with f a show ?thesis by blast
qed

lemma demo_free: "kmem_ok (demo_kernel ps) []"
  by (simp add: kmem_ok_def KERNBASE_def)

lemma demo_page: "aligned p \<Longrightarrow> 0x80000000 \<le> p \<Longrightarrow> p < 0x88000000 \<Longrightarrow> page_ok (demo_kernel ps) p"
  by (simp add: page_ok_def KERNBASE_def PHYSTOP_def)

theorem kfree_kalloc_witness:
  "\<exists>s' s''. kfree 0x80001000 (demo_kernel []) = Ok s' \<and> kmem_ok s' [0x80001000] \<and>
     kalloc s' = Ok (0x80001000, s'') \<and> kmem_ok s'' [] \<and>
     (\<forall>a. mem s'' a = (if within a 0x80001000 4096 then 5 else mem (demo_kernel []) a))"
  by (rule kfree_kalloc[OF demo_free demo_page]) (simp_all add: aligned_def)


text \<open>C19: \<open>mappages\<close> of one page either maps exactly that page, allocating tables from the free list
  only, or fails with every mapping as it was; it fails just where fewer pages are free than tables are
  missing on the way to the entry.\<close>

theorem mappages_maps_page:
  assumes "vm_ok s pt T ps" and "va < MAXVA" "aligned va" and "mapped s pt va = 0"
  shows "\<exists>r s' ps' T'. mappages pt va PGSIZE pa perm s = Ok (r, s') \<and> vm_ok s' pt T' ps' \<and>
    set ps' \<subseteq> set ps \<and> T' \<subseteq> T \<union> set ps \<and> (\<forall>b. \<not> inpages (T \<union> set ps) b \<longrightarrow> mem s' b = mem s b) \<and>
    (r = 0 \<and> (\<forall>vb < MAXVA. mapped s' pt vb =
        (if PGROUNDDOWN vb = va then PA2PTE pa OR perm OR PTE_V else mapped s pt vb))
     \<or> r = -1 \<and> ps' = [] \<and> mapped s' pt = mapped s pt) \<and>
    (r = 0 \<longleftrightarrow> missing (mem s) 2 pt va \<le> length ps)"
  using map_one[OF assms, of pa perm] unfolding Let_def by blast

text \<open>An empty page table at \<open>0x80001000\<close> and three free pages.\<close>

definition demo_pages :: "addr list" where "demo_pages = [0x80002000, 0x80003000, 0x80004000]"

definition demo_vm :: proc_st where
  "demo_vm = gave 0x80002000 (gave 0x80003000 (gave 0x80004000 (demo_kernel [])))"

lemma demo_vm_free: "kmem_ok demo_vm demo_pages"
proof -
  have "kmem_ok (gave 0x80004000 (demo_kernel [])) [0x80004000]"
    by (rule kfree_page(2)[OF demo_free demo_page]) (simp_all add: aligned_def)
  then have "kmem_ok (gave 0x80003000 (gave 0x80004000 (demo_kernel []))) [0x80003000, 0x80004000]"
    by (rule kfree_page(2)) (simp_all add: demo_page aligned_def)
  then show ?thesis unfolding demo_vm_def demo_pages_def
    by (rule kfree_page(2)) (simp_all add: demo_page aligned_def)
qed

lemma demo_table: "tbl (\<lambda>_. 0) 2 0x80001000 {0x80001000}"
  unfolding numeral_2_eq_2 by (rule iffD2[OF tbl_Suc], rule exI[of _ "\<lambda>_. {}"])
    (simp add: branches_def ld64_def aligned_def)

lemma demo_table_mem: "inpages {0x80001000} a \<Longrightarrow> mem demo_vm a = 0"
proof -
  have al: "aligned (0x80001000 :: addr)" "aligned (0x80002000 :: addr)" "aligned (0x80003000 :: addr)" "aligned (0x80004000 :: addr)"
    by (simp_all add: aligned_def)
  assume "inpages {0x80001000} a"
  then have "within a 0x80001000 4096" by (simp add: inpages_def)
  then have "\<not> within a 0x80002000 4096" "\<not> within a 0x80003000 4096" "\<not> within a 0x80004000 4096"
    using pages_apart[OF al(1,2)] pages_apart[OF al(1,3)] pages_apart[OF al(1,4)] by auto
  then show ?thesis by (simp add: demo_vm_def gave_outside)
qed

lemma demo_vm_table: "tbl (mem demo_vm) 2 0x80001000 {0x80001000}"
  "tr (mem demo_vm) 2 0x80001000 va = tr (\<lambda>_. 0) 2 0x80001000 va"
  by (rule tbl_cong[OF demo_table], simp add: demo_table_mem)+

lemma demo_vm_ok: "vm_ok demo_vm 0x80001000 {0x80001000} demo_pages"
  using demo_vm_table(1) demo_vm_free by (simp add: vm_ok_def demo_pages_def)

lemma demo_vm_unmapped: "mapped demo_vm 0x80001000 va = 0"
  unfolding mapped_def demo_vm_table(2) by (simp add: numeral_2_eq_2 tr_simps ld64_def Let_def)

lemma demo_vm_missing: "missing (mem demo_vm) 2 0x80001000 va = 2"
  by (rule missing_single[OF demo_vm_table(1)])

theorem mappages_maps_page_witness:
  "\<exists>s'. mappages 0x80001000 0x5000 PGSIZE 0x80004000 PTE_R demo_vm = Ok (0, s') \<and>
    (\<forall>b. \<not> inpages ({0x80001000} \<union> set demo_pages) b \<longrightarrow> mem s' b = mem demo_vm b) \<and>
    (\<forall>vb < MAXVA. mapped s' 0x80001000 vb =
        (if PGROUNDDOWN vb = 0x5000 then PA2PTE 0x80004000 OR PTE_R OR PTE_V else 0))"
proof -
  have "(0x5000 :: addr) < MAXVA" "aligned (0x5000 :: addr)" by (simp_all add: MAXVA_def aligned_def)
  from mappages_maps_page[OF demo_vm_ok this demo_vm_unmapped, where pa = "0x80004000" and perm = PTE_R]
  show ?thesis by (auto simp: demo_vm_missing demo_vm_unmapped demo_pages_def)
qed

text \<open>C20: A fault on an address is refused, with nothing changed, just where the address is past the
  end of the process, is mapped already or no page is free.  Otherwise the process gets the first free
  page there, zeroed and mapped readable and writable for the user, and no other address changes, if the
  page tables missing on the way can be had too; if they cannot, the page goes back on the list and the
  mappings are as they were.\<close>

theorem vmfault_gives_page:
  assumes "vm_ok s pt T ps" and "va < MAXVA"
  shows "\<exists>a s' T' ps'. vmfault pt psz va s = Ok (a, s') \<and> vm_ok s' pt T' ps' \<and>
    (\<forall>b. \<not> inpages (T \<union> set ps) b \<longrightarrow> mem s' b = mem s b) \<and>
    (let n = missing (mem s) 2 pt (PGROUNDDOWN va) in
     if psz \<le> va \<or> mapped s pt (PGROUNDDOWN va) \<noteq> 0 \<or> ps = [] then a = 0 \<and> s' = s
     else if Suc n \<le> length ps then
       a = hd ps \<and> a \<noteq> 0 \<and> ps' = drop (Suc n) ps \<and> (\<forall>b. within b a 4096 \<longrightarrow> mem s' b = 0) \<and>
       (\<forall>vb < MAXVA. mapped s' pt vb =
          (if PGROUNDDOWN vb = PGROUNDDOWN va then PA2PTE a OR (PTE_W OR PTE_U OR PTE_R) OR PTE_V
           else mapped s pt vb))
     else a = 0 \<and> ps' = [hd ps] \<and> mapped s' pt = mapped s pt)"
proof -
  have "hd ps \<noteq> 0" if "ps \<noteq> []"
    using assms(1) that by (cases ps) (auto simp: vm_ok_def kmem_ok_def page_ok_def)
  moreover obtain a s' T' ps' where "vmfault pt psz va s = Ok (a, s')" "vm_ok s' pt T' ps'" "mem_only s s'"
    "\<forall>b. \<not> inpages (T \<union> set ps) b \<longrightarrow> mem s' b = mem s b"
    "let n = missing (mem s) 2 pt (PGROUNDDOWN va) in
     if psz \<le> va \<or> mapped s pt (PGROUNDDOWN va) \<noteq> 0 \<or> ps = [] then a = 0 \<and> s' = s
     else if Suc n \<le> length ps then
       a = hd ps \<and> ps' = drop (Suc n) ps \<and> (\<forall>b. within b a 4096 \<longrightarrow> mem s' b = 0) \<and>
       (\<forall>vb < MAXVA. mapped s' pt vb =
          (if PGROUNDDOWN vb = PGROUNDDOWN va then PA2PTE a OR (PTE_W OR PTE_U OR PTE_R) OR PTE_V
           else mapped s pt vb))
     else a = 0 \<and> ps' = [hd ps] \<and> mapped s' pt = mapped s pt"
    using vmfault_cases[OF assms, of psz] by (elim exE conjE) (rule that)
  ultimately show ?thesis
    by (intro exI[of _ a] exI[of _ s'] exI[of _ T'] exI[of _ ps']) (simp add: Let_def)
qed

text \<open>Two tables are missing and three pages free: the page is given.  Past the end it is refused.\<close>

theorem vmfault_gives_page_witness:
  "(\<exists>s'. vmfault 0x80001000 0x6000 0x5010 demo_vm = Ok (0x80002000, s') \<and>
    (\<forall>vb < MAXVA. mapped s' 0x80001000 vb =
        (if PGROUNDDOWN vb = PGROUNDDOWN 0x5010 then PA2PTE 0x80002000 OR (PTE_W OR PTE_U OR PTE_R) OR PTE_V else 0)) \<and>
    (\<forall>b. within b 0x80002000 4096 \<longrightarrow> mem s' b = 0)) \<and>
   vmfault 0x80001000 0x6000 0x6000 demo_vm = Ok (0, demo_vm)"
proof -
  have va: "(0x5010 :: addr) < MAXVA" "(0x6000 :: addr) < MAXVA" by (simp_all add: MAXVA_def)
  from vmfault_gives_page[OF demo_vm_ok va(1), where psz = "0x6000"] vmfault_gives_page[OF demo_vm_ok va(2), where psz = "0x6000"]
  show ?thesis by (auto simp: demo_vm_missing demo_vm_unmapped demo_pages_def Let_def)
qed


section \<open>Processes\<close>


text \<open>A state with four free pages.\<close>

definition four_pages :: "addr list" where "four_pages = 0x80005000 # demo_pages"

definition stocked :: "proc_st \<Rightarrow> proc_st" where
  "stocked s = gave 0x80005000 (gave 0x80002000 (gave 0x80003000 (gave 0x80004000 s)))"

lemma stocked_simps [simp]:
  "procs (stocked s) = procs s" "held (stocked s) = held s" "nextpid (stocked s) = nextpid s" "proc_at (stocked s) p = proc_at s p"
  by (simp_all add: stocked_def gave_def proc_at_def)

lemma stocked_free:
  assumes "kmem_ok s []" and "kend s = KERNBASE"
  shows "kmem_ok (stocked s) four_pages"
proof -
  have p: "aligned p \<Longrightarrow> 0x80000000 \<le> p \<Longrightarrow> p < 0x88000000 \<Longrightarrow> page_ok s p" for p
    using assms(2) by (simp add: page_ok_def KERNBASE_def PHYSTOP_def)
  have "kmem_ok (gave 0x80004000 s) [0x80004000]"
    by (rule kfree_page(2)[OF assms(1) p]) (simp_all add: aligned_def)
  then have "kmem_ok (gave 0x80003000 (gave 0x80004000 s)) [0x80003000, 0x80004000]"
    by (rule kfree_page(2)) (simp_all add: p aligned_def)
  then have "kmem_ok (gave 0x80002000 (gave 0x80003000 (gave 0x80004000 s))) [0x80002000, 0x80003000, 0x80004000]"
    by (rule kfree_page(2)) (simp_all add: p aligned_def)
  then show ?thesis unfolding stocked_def four_pages_def demo_pages_def
    by (rule kfree_page(2)) (simp_all add: p aligned_def)
qed

definition demo_running :: proc_st where
  "demo_running = (demo_kernel [ready_proc 1 0, (ready_proc 2 1)\<lparr>p_state := RUNNING\<rparr>])\<lparr>curproc := Some 1\<rparr>"

lemma demo_running_ok: "table_ok demo_running" "cur_ok demo_running" "no_proc_lock demo_running"
proof -
  have "idle (demo_kernel [ready_proc 1 0, (ready_proc 2 1)\<lparr>p_state := RUNNING\<rparr>])"
    by (rule demo_idle) (simp_all add: NPROC_def proc_ok_def ready_proc_def free_proc_def NMLFQ_def mlfq_slice_def)
  then show "table_ok demo_running" by (simp add: demo_running_def idle_def table_ok_def)
  show "cur_ok demo_running" "no_proc_lock demo_running"
    by (simp_all add: demo_running_def cur_ok_def no_proc_lock_def proc_at_def table_of_def ready_proc_def free_proc_def NPROC_def)
qed

lemma demo_running_simps:
  "held demo_running = []" "nextpid demo_running = 100" "p_state (proc_at demo_running 2) = UNUSED"
  "k < 2 \<Longrightarrow> p_state (proc_at demo_running k) \<noteq> UNUSED"
  by (auto simp: demo_running_def proc_at_def table_of_def ready_proc_def free_proc_def NPROC_def less_2_cases_iff)

lemma demo_stocked:
  "kmem_ok (stocked demo_running) four_pages" "table_ok (stocked demo_running)" "no_proc_lock (stocked demo_running)"
proof -
  have "kmem_ok demo_running []" "kend demo_running = KERNBASE"
    by (simp_all add: demo_running_def kmem_ok_def KERNBASE_def)
  then show "kmem_ok (stocked demo_running) four_pages" by (rule stocked_free)
  show "table_ok (stocked demo_running)" "no_proc_lock (stocked demo_running)"
    using demo_running_ok by (simp_all add: table_ok_def no_proc_lock_def)
qed


text \<open>C22: The functions of \<open>proc.c\<close> keep the process table well formed: distinct pids below the next one,
  sleeping only on a channel, free slots empty, queue levels and used slices in range.  The timer, \<open>wakeup\<close>,
  \<open>kill\<close>, \<open>freeproc\<close>, \<open>growproc\<close> do so from any such table; \<open>allocproc\<close> and \<open>userinit\<close> with no process lock
  held; the schedulers, whichever is chosen and however long, if what they switch to does; \<open>procinit\<close> sets the
  table up from zeroes.  What a process does - \<open>fork\<close>, \<open>sleep\<close>, \<open>yield\<close>, \<open>wait\<close>, and \<open>exit\<close> through closing its
  files to the switch it does not return from - keeps the table and the process on the hart, running or at last
  a zombie, if the others keep the table while the process is off the hart.\<close>

theorem process_table_invariant:
  fixes s :: "'a file_st_scheme"
  assumes "table_ok s"
  shows "post (mlfq_timer_tick s) table_ok \<and> post (mlfq_boost s) table_ok \<and> post (wakeup ch s) table_ok \<and>
    post (kkill pid s) (\<lambda>(r, t). table_ok t) \<and> post (setkilled p s) table_ok \<and> post (killed p s) (\<lambda>(r, t). table_ok t) \<and>
    post (freeproc k s) table_ok \<and> post (growproc n s) (\<lambda>(r, t). table_ok t) \<and>
    (cur_ok s \<longrightarrow> post (sleep_prepare ch s) table_ok) \<and>
    (no_proc_lock s \<longrightarrow> post (allocproc s) (\<lambda>(r, t). table_ok t) \<and> post (userinit e s) table_ok) \<and>
    (runnable s q \<longrightarrow> alive q (dispatch q s)) \<and>
    (keeps_table run \<longrightarrow> post (scheduler pol m run s) table_ok) \<and>
    (blank_table b \<longrightarrow> table_ok (procinit b)) \<and>
    (alive p s \<longrightarrow>
      post (sleep_prepare ch s) (alive p) \<and> post (reparent c s) (alive p) \<and> post (make_zombie p st s) (ended p) \<and>
      (no_proc_lock s \<longrightarrow> post (kfork s) (\<lambda>(r, t). alive p t)) \<and>
      (fair_others p e \<longrightarrow>
        post (yield_k e s) (alive p) \<and> post (sleep e s) (alive p) \<and> post (kwait e a s) (\<lambda>(r, t). alive p t) \<and>
        post (kexit_body e st s) (ended p)))"
  using assms
  by (simp add: mlfq_timer_tick_table mlfq_boost_table wakeup_table kkill_table setkilled_table killed_table freeproc_table
      growproc_table sleep_prepare_table allocproc_table userinit_table dispatch_alive scheduler_table procinit_table
      sleep_prepare_alive reparent_alive make_zombie_ends kfork_alive yield_alive sleep_alive kwait_alive kexit_body_ends)

text \<open>A whole kernel, the first process running and a second one ready; and a process that yields at once.\<close>

definition demo_world :: file_st where
  "demo_world =
     \<lparr>held = [], irq = True, kout = [], panicking = False, mem = (\<lambda>_. 0), kmem_free = 0, kend = KERNBASE,
      kernel_pagetable = 0, etext = KERNBASE, trampoline = KERNBASE,
      procs = table_of [(ready_proc 1 0)\<lparr>p_state := RUNNING\<rparr>, ready_proc 2 0], initproc = Some 0,
      nextpid = 100, ticks = 7, curproc = Some 0, forkret_addr = 0, mlfq_last = [0, 0, 0, 0],
      sleeplocks = (\<lambda>_. free_lock), bufs = [],
      vq = \<lparr>v_desc = replicate 8 null_desc, v_ring = replicate 8 0, v_aidx = 0, v_used = replicate 8 0, v_uidx = 0,
        v_free = replicate 8 True, v_seen = 0, v_info = replicate 8 \<lparr>i_buf = None, i_status = 0\<rparr>,
        v_ops = replicate 8 \<lparr>q_type = 0, q_reserved = 0, q_sector = 0\<rparr>\<rparr>,
      media = (\<lambda>_. replicate 1024 0), writes = [],
      klog = \<lparr>lg_start = 2, lg_outstanding = 0, lg_committing = False, lg_dev = 1, lg_ncommit = 0,
        lg_lh = \<lparr>lh_n = 0, lh_block = replicate LOGBLOCKS 0\<rparr>\<rparr>,
      pipes = (\<lambda>_. \<lparr>pi_data = replicate 512 0, pi_nread = 0, pi_nwrite = 0, pi_readopen = False, pi_writeopen = False\<rparr>),
      auto_addr = 0x80008000, superb = sb_of (replicate 1024 0), inodes = [], buf_addr = (\<lambda>_. 0),
      cons = \<lparr>c_buf = replicate 128 0, c_r = 0, c_w = 0, c_e = 0\<rparr>,
      uart = \<lparr>u_rx = [], u_ready = (\<lambda>_. True), u_reads = 0\<rparr>,
      ftable = [], devsw_read = replicate 10 None, devsw_write = replicate 10 None\<rparr>"

definition yields_back :: "'a proc_st_scheme \<Rightarrow> 'a proc_st_scheme res" where
  "yields_back s = (case curproc s of
     None \<Rightarrow> Panic ''sched'' | Some p \<Rightarrow> Ok (upd_proc p (\<lambda>q. q\<lparr>p_state := RUNNABLE\<rparr>) s))"

lemma yields_back_keeps: "keeps_table yields_back"
  unfolding keeps_table_def
proof (intro allI impI)
  fix p and s t :: "'b proc_st_scheme" assume s: "alive p s" and "yields_back s = Ok t"
  then have "t = upd_proc p (\<lambda>q. q\<lparr>p_state := RUNNABLE\<rparr>) s" by (auto simp: yields_back_def alive_def)
  moreover have "table_ok (upd_proc p (\<lambda>q. q\<lparr>p_state := RUNNABLE\<rparr>) s)"
    by (rule table_ok_step) (use s in \<open>auto simp: alive_def proc_ok_def\<close>)
  ultimately show "table_ok t" by simp
qed

lemma demo_world_simps:
  "held demo_world = []" "procs demo_world = table_of [(ready_proc 1 0)\<lparr>p_state := RUNNING\<rparr>, ready_proc 2 0]"
  "nextpid demo_world = 100" "curproc demo_world = Some 0" "irq demo_world = True"
  "vq demo_world = \<lparr>v_desc = replicate 8 null_desc, v_ring = replicate 8 0, v_aidx = 0, v_used = replicate 8 0, v_uidx = 0,
        v_free = replicate 8 True, v_seen = 0, v_info = replicate 8 \<lparr>i_buf = None, i_status = 0\<rparr>,
        v_ops = replicate 8 \<lparr>q_type = 0, q_reserved = 0, q_sector = 0\<rparr>\<rparr>"
  by (simp_all add: demo_world_def)

lemma demo_world_ok: "table_ok demo_world" "alive 0 demo_world" "runnable demo_world 1" "no_proc_lock demo_world"
  "cur_ok demo_world"
proof -
  have "idle (demo_kernel [(ready_proc 1 0)\<lparr>p_state := RUNNING\<rparr>, ready_proc 2 0])"
    by (rule demo_idle) (simp_all add: NPROC_def proc_ok_def ready_proc_def free_proc_def NMLFQ_def mlfq_slice_def)
  then show ok: "table_ok demo_world" by (simp add: demo_world_simps idle_def table_ok_def)
  show "alive 0 demo_world" "runnable demo_world 1" "no_proc_lock demo_world" "cur_ok demo_world"
    using ok by (simp_all add: alive_def runnable_def cur_ok_def no_proc_lock_def proc_at_def demo_world_simps
        table_of_def ready_proc_def free_proc_def NPROC_def)
qed

text \<open>There a yield comes back.\<close>

lemma demo_yields: "\<exists>t. yield_k device_env demo_world = Ok t"
  by (simp add: yield_k_def sched_def myproc_def demo_world_simps device_env_def serve_def virtio_disk_intr_def
      intr_get_def dispatch_def proc_at_def table_of_def ready_proc_def NPROC_def upd_proc_def)

theorem process_table_invariant_witness:
  "post (scheduler MLFQ 3 yields_back demo_world) table_ok \<and> post (userinit device_env demo_world) table_ok \<and>
   post (kfork demo_world) (\<lambda>(r, t). alive 0 t) \<and> alive 1 (dispatch 1 demo_world) \<and>
   (\<exists>t. yield_k device_env demo_world = Ok t \<and> alive 0 t) \<and> post (sleep device_env demo_world) (alive 0) \<and>
   post (kwait device_env 0 demo_world) (\<lambda>(r, t). alive 0 t) \<and> post (kexit_body device_env 0 demo_world) (ended 0) \<and>
   post (kkill 2 demo_world) (\<lambda>(r, t). table_ok t)"
proof -
  note inv = process_table_invariant[OF demo_world_ok(1), where p = 0 and q = 1 and e = device_env and run = yields_back
      and pol = MLFQ and m = 3 and pid = 2 and a = 0 and st = 0]
  have y: "post (yield_k device_env demo_world) (alive 0)"
    using inv demo_world_ok fair_device by blast
  show ?thesis
    using inv demo_world_ok fair_device yields_back_keeps demo_yields postD[OF y] by blast
qed

text \<open>C23: \<open>wakeup\<close> makes runnable exactly the processes asleep on the channel, takes the channel from
  those about to sleep on it, and changes nothing else.\<close>

theorem wakeup_wakes:
  assumes "no_proc_lock s" and "table_ok s"
  shows "\<exists>t. wakeup (Some c) s = Ok t \<and> t = s\<lparr>procs := procs t\<rparr> \<and> length (procs t) = NPROC \<and>
    (\<forall>p < NPROC. proc_at t p =
      (if p_chan (proc_at s p) = Some c
       then (proc_at s p)\<lparr>p_chan := None, p_state := (if p_state (proc_at s p) = SLEEPING then RUNNABLE
         else p_state (proc_at s p))\<rparr> else proc_at s p))"
  using wakeup_eq[OF assms(1) table_ok_len[OF assms(2)], of "Some c"] table_ok_len[OF assms(2)]
  by (auto simp: wake_def proc_at_def)

theorem wakeup_wakes_witness:
  "\<exists>t. wakeup (Some Ch_ticks) demo_running = Ok t \<and> t = demo_running\<lparr>procs := procs t\<rparr> \<and> length (procs t) = NPROC \<and>
    (\<forall>p < NPROC. proc_at t p =
      (if p_chan (proc_at demo_running p) = Some Ch_ticks
       then (proc_at demo_running p)\<lparr>p_chan := None, p_state := (if p_state (proc_at demo_running p) = SLEEPING then RUNNABLE
         else p_state (proc_at demo_running p))\<rparr> else proc_at demo_running p))"
  by (rule wakeup_wakes[OF demo_running_ok(3,1)])

lemma find_first: "p < n \<Longrightarrow> P p \<Longrightarrow> (\<And>k. k < p \<Longrightarrow> \<not> P k) \<Longrightarrow> find P [0..<n] = Some p"
  unfolding find_Some_iff by (rule exI[of _ p]) simp

text \<open>C24: \<open>kill(0)\<close> finds the first free slot, reports success and marks the slot killed; \<open>allocproc\<close>
  does not clear the mark, so the next process created there starts out killed - and with four free pages
  and a pid left one is created there.\<close>

theorem kill_zero_poisons_slot:
  assumes "no_proc_lock s" and "table_ok s" and "p < NPROC" and "p_state (proc_at s p) = UNUSED"
    and "\<And>k. k < p \<Longrightarrow> p_state (proc_at s k) \<noteq> UNUSED"
  shows "\<exists>t. kkill 0 s = Ok (0, t) \<and> (\<forall>k u. allocproc t = Ok (Some k, u) \<longrightarrow> k = p \<and> p_killed (proc_at u k)) \<and>
    (\<forall>ps. kmem_ok s ps \<and> 4 \<le> length ps \<and> nextpid s < INT_MAX \<and> L_pid \<notin> set (held s) \<longrightarrow>
       (\<exists>u. allocproc t = Ok (Some p, u) \<and> p_killed (proc_at u p)))"
proof -
  have ok: "proc_ok (nextpid s) (proc_at s k)" if "k < NPROC" for k using table_ok_at[OF assms(2) that] .
  have pid: "p_pid (proc_at s k) = 0 \<longleftrightarrow> p_state (proc_at s k) = UNUSED" if "k < NPROC" for k
    using ok[OF that] by (cases "p_state (proc_at s k) = UNUSED") (simp_all add: proc_ok_def)
  have len: "length (procs s) = NPROC" by (rule table_ok_len[OF assms(2)])
  have "find (\<lambda>k. p_pid (proc_at s k) = 0) [0..<NPROC] = Some p"
    by (rule find_first[OF assms(3)]) (use assms(3-5) pid in auto)
  then have k: "kkill 0 s = Ok (0, upd_proc p kill1 s)" by (simp add: kkill_eq[OF assms(1)])
  let ?t = "upd_proc p kill1 s"
  have nl: "no_proc_lock ?t" "length (procs ?t) = NPROC" using assms(1) len by (simp_all add: no_proc_lock_def)
  have st: "p_state (proc_at ?t k) = UNUSED \<longleftrightarrow> p_state (proc_at s k) = UNUSED" for k
    using assms(3,4) len by (cases "k = p") (simp_all add: kill1_def)
  have f: "find (\<lambda>p. p_state (proc_at ?t p) = UNUSED) [0..<NPROC] = Some p"
    unfolding st by (rule find_first[OF assms(3)]) (simp_all add: assms(4,5))
  have poisoned: "k = p \<and> p_killed (proc_at u k)" if a: "allocproc ?t = Ok (Some k, u)" for k u
  proof -
    have "alloc_frame ?t (Some k) u" using postD[OF allocproc_post[OF nl] a] by simp
    then obtain tf pt where kp: "k = p" and m: "mem_only ((upd_proc p (given (nextpid ?t) tf pt (forkret_addr ?t) (ticks ?t)) ?t)
        \<lparr>held := L_proc p # held ?t, nextpid := nextpid ?t + 1\<rparr>) u"
      using f by (auto simp: alloc_frame_def)
    show ?thesis using mem_only_procs(1)[OF m] kp len assms(3) by (simp add: proc_at_def given_def kill1_def)
  qed
  have "\<exists>u. allocproc ?t = Ok (Some p, u) \<and> p_killed (proc_at u p)"
    if h: "kmem_ok s ps \<and> 4 \<le> length ps \<and> nextpid s < INT_MAX \<and> L_pid \<notin> set (held s)" for ps
  proof -
    have ok: "table_ok ?t" using postD[OF kkill_table[OF assms(2)] k] by simp
    obtain u where u: "allocproc ?t = Ok (Some p, u)"
      by (rule allocproc_Some[OF nl(1) _ ok _ _ _ f, of ps]) (use h in auto)
    with poisoned[OF u] show ?thesis by blast
  qed
  with k poisoned show ?thesis by blast
qed

theorem kill_zero_poisons_slot_witness:
  "\<exists>t u. kkill 0 (stocked demo_running) = Ok (0, t) \<and> allocproc t = Ok (Some 2, u) \<and> p_killed (proc_at u 2)"
proof -
  have "\<exists>t. kkill 0 (stocked demo_running) = Ok (0, t) \<and>
      (\<forall>k u. allocproc t = Ok (Some k, u) \<longrightarrow> k = 2 \<and> p_killed (proc_at u k)) \<and>
      (\<forall>ps. kmem_ok (stocked demo_running) ps \<and> 4 \<le> length ps \<and> nextpid (stocked demo_running) < INT_MAX \<and>
          L_pid \<notin> set (held (stocked demo_running)) \<longrightarrow>
         (\<exists>u. allocproc t = Ok (Some 2, u) \<and> p_killed (proc_at u 2)))"
    by (rule kill_zero_poisons_slot[OF demo_stocked(3,2)]) (simp_all add: demo_running_simps NPROC_def)
  moreover have "4 \<le> length four_pages" by (simp add: four_pages_def demo_pages_def)
  ultimately show ?thesis using demo_stocked(1) by (auto simp: demo_running_simps INT_MAX_def)
qed


section \<open>Scheduling\<close>

text \<open>C25: The MLFQ scheduler never idles while a process is runnable, and the one it picks is on the
  lowest-numbered level that has a runnable process.\<close>

theorem mlfq_picks_highest:
  assumes "mlfq_ready s" and "runnable s k"
  shows "\<exists>p t. mlfq_pick s = Ok (Some p, t) \<and> runnable s p \<and> queue (proc_at s p) \<le> queue (proc_at s k) \<and>
    held t = [L_proc p] \<and> procs t = procs s"
proof -
  obtain p t where p: "mlfq_pick s = Ok (Some p, t)" "runnable s p" "mlfq_rank s p \<le> mlfq_rank s k"
    using mlfq.work_conserving[OF assms] by blast
  have "idle s" using assms(1) by (simp add: mlfq_ready_def)
  then have "held t = [L_proc p] \<and> procs t = procs s" using p(1) by (cases rule: mlfq_pick_cases) auto
  with p show ?thesis by (auto simp: mlfq_rank_def)
qed

definition demo_ready :: proc_st where
  "demo_ready = demo_kernel [ready_proc 1 2, ready_proc 2 1, ready_proc 3 1]"

lemma demo_ready_ok: "mlfq_ready demo_ready" "runnable demo_ready 0" "runnable demo_ready 1" "runnable demo_ready 2"
proof -
  have "idle demo_ready" unfolding demo_ready_def
    by (rule demo_idle) (use ready_proc_ok[of 1 2] ready_proc_ok[of 2 1] ready_proc_ok[of 3 1] in
      \<open>simp_all add: NPROC_def NMLFQ_def, simp add: ready_proc_def\<close>)
  moreover have "cursors_ok demo_ready"
    by (auto simp: cursors_ok_def demo_ready_def NMLFQ_def NPROC_def less_Suc_eq numeral_eq_Suc)
  ultimately show "mlfq_ready demo_ready" by (simp add: mlfq_ready_def)
  show "runnable demo_ready 0" "runnable demo_ready 1" "runnable demo_ready 2"
    by (simp_all add: runnable_def demo_ready_def proc_at_def table_of_def ready_proc_def NPROC_def)
qed

theorem mlfq_picks_highest_witness:
  "\<exists>p t. mlfq_pick demo_ready = Ok (Some p, t) \<and> runnable demo_ready p \<and>
     queue (proc_at demo_ready p) \<le> queue (proc_at demo_ready 0) \<and> held t = [L_proc p] \<and> procs t = procs demo_ready"
  by (rule mlfq_picks_highest[OF demo_ready_ok(1,2)])

text \<open>C26: Among the processes of one level the MLFQ choice is round robin: in a run of choices on a
  process's level, with whatever happens in between that leaves the level's cursor alone, the process is
  chosen within as many choices as places it is after the cursor, so within \<open>NPROC\<close>.\<close>

theorem mlfq_bounded_wait:
  assumes "mlfq.run_of k s ps" and "mlfq_wait s k < length ps"
  shows "k \<in> set ps"
  by (rule mlfq.bounded_wait[OF assms])

definition demo_moved :: proc_st where
  "demo_moved = demo_ready\<lparr>mlfq_last := [0, 1, 0, 0]\<rparr>"

lemma demo_at: "proc_at demo_ready 0 = ready_proc 1 2" "proc_at demo_ready (Suc 0) = ready_proc 2 1"
  "proc_at demo_ready 2 = ready_proc 3 1" "3 \<le> p \<Longrightarrow> p < NPROC \<Longrightarrow> proc_at demo_ready p = free_proc"
  "proc_at demo_moved p = proc_at demo_ready p"
  by (simp_all add: proc_at_def demo_ready_def demo_moved_def table_of_def NPROC_def nth_append)

lemma demo_runnable: "runnable demo_ready p \<longleftrightarrow> p < 3" "runnable demo_moved p \<longleftrightarrow> p < 3"
proof -
  have "p = 0 \<or> p = 1 \<or> p = 2 \<or> 3 \<le> p" by auto
  then show "runnable demo_ready p \<longleftrightarrow> p < 3" "runnable demo_moved p \<longleftrightarrow> p < 3"
    by (auto simp: runnable_def demo_at ready_proc_def free_proc_def NPROC_def)
qed

lemma demo_picks: "\<exists>t. mlfq_pick demo_ready = Ok (Some 1, t) \<and> mlfq_last t = [0, 1, 0, 0] \<and> proc_at t 2 = ready_proc 3 1"
  "\<exists>t. mlfq_pick demo_moved = Ok (Some 2, t)"
proof -
  have n: "no_proc_lock demo_ready" "no_proc_lock demo_moved"
    by (simp_all add: no_proc_lock_def demo_ready_def demo_moved_def)
  have q: "queue (proc_at demo_ready p) \<noteq> 0" if "runnable demo_ready p" for p
  proof -
    have "p = 0 \<or> p = 1 \<or> p = 2" using that by (auto simp: demo_runnable)
    then show ?thesis by (auto simp: demo_at ready_proc_def)
  qed
  have l: "mlfq_last demo_ready = [0, 0, 0, 0]" "mlfq_last demo_moved = [0, 1, 0, 0]"
    by (simp_all add: demo_ready_def demo_moved_def)
  have c: "cyc 0 = 1 # map (\<lambda>i. i mod 64) [2..<65]" "cyc (Suc 0) = 2 # map (\<lambda>i. (1 + i) mod 64) [2..<65]"
    by (simp_all add: cyc_def NPROC_def upt_conv_Cons del: upt_Suc)
  have lc: "level_choice demo_ready 0 = None" "level_choice demo_moved 0 = None"
    "level_choice demo_ready 1 = Some 1" "level_choice demo_moved 1 = Some 2"
    using q by (auto simp: level_choice_None demo_runnable demo_at(5))
      (simp_all add: level_choice_def l c demo_at ready_proc_def)
  show "\<exists>t. mlfq_pick demo_ready = Ok (Some 1, t) \<and> mlfq_last t = [0, 1, 0, 0] \<and> proc_at t 2 = ready_proc 3 1"
    using lc n by (simp add: mlfq_pick_eq NMLFQ_def upt_conv_Cons l demo_at)
  show "\<exists>t. mlfq_pick demo_moved = Ok (Some 2, t)"
    using lc n by (simp add: mlfq_pick_eq NMLFQ_def upt_conv_Cons l)
qed

lemma demo_turns: "mlfq.run_of 2 demo_ready [1, 2]"
proof -
  obtain t u where t: "mlfq_pick demo_ready = Ok (Some 1, t)" "mlfq_last t = [0, 1, 0, 0]" "proc_at t 2 = ready_proc 3 1"
    and u: "mlfq_pick demo_moved = Ok (Some 2, u)" using demo_picks by blast
  have r: "mlfq_ready demo_moved"
    using demo_ready_ok(1) by (auto simp: mlfq_ready_def idle_def table_ok_def demo_moved_def cursors_ok_def NPROC_def
        NMLFQ_def less_Suc_eq numeral_eq_Suc)
  have "mlfq.run_of 2 demo_moved [2]"
    by (rule mlfq.run_cons[OF r _ u _ order_refl mlfq.run_nil]) (simp_all add: demo_runnable)
  moreover have "mlfq_wait demo_moved 2 \<le> mlfq_wait t 2"
    by (simp add: mlfq_wait_def demo_at t ready_proc_def) (simp add: demo_moved_def)
  moreover have "mlfq_rank demo_ready 2 = mlfq_rank demo_ready 1" "runnable demo_ready 2"
    by (simp_all add: mlfq_rank_def demo_at demo_runnable ready_proc_def)
  ultimately show ?thesis using mlfq.run_cons[OF demo_ready_ok(1) _ t(1)] by blast
qed

text \<open>Two processes wait on level 1; the second is one place after the cursor and so comes second.\<close>

theorem mlfq_bounded_wait_witness:
  "mlfq.run_of 2 demo_ready [1, 2] \<and> mlfq_wait demo_ready 2 = 1 \<and> 2 \<in> set (take (Suc (mlfq_wait demo_ready 2)) [1, 2])"
proof -
  have "mlfq_last demo_ready ! 1 = 0" by (simp add: demo_ready_def)
  then have w: "mlfq_wait demo_ready 2 = 1"
    by (simp add: mlfq_wait_def demo_at ready_proc_def gap_def)
  have "2 \<in> set [1, 2 :: nat]" by (rule mlfq_bounded_wait[OF demo_turns]) (simp add: w)
  with w demo_turns show ?thesis by simp
qed


text \<open>C27: The FIFO scheduler runs the runnable process with the lowest pid, the oldest: never idling
  while one is runnable, and never another than that one.\<close>

theorem fifo_runs_oldest:
  assumes "idle s" and "runnable s k" and "\<And>j. runnable s j \<Longrightarrow> j \<noteq> k \<Longrightarrow> p_pid (proc_at s k) < p_pid (proc_at s j)"
  shows "\<exists>t. fifo_pick s = Ok (Some k, t) \<and> held t = [L_proc k] \<and> procs t = procs s"
proof (cases rule: fifo_pick_cases[OF assms(1)])
  case 1
  with assms(2) show ?thesis by blast
next
  case (2 p)
  have "p = k" using assms(2,3) 2(2,3) by (metis not_less)
  with 2(1) show ?thesis by simp
qed

theorem fifo_runs_oldest_witness:
  "\<exists>t. fifo_pick demo_ready = Ok (Some 0, t) \<and> held t = [L_proc 0] \<and> procs t = procs demo_ready"
proof (rule fifo_runs_oldest)
  show "idle demo_ready" using demo_ready_ok(1) by (simp add: mlfq_ready_def)
  fix j assume "runnable demo_ready j" "j \<noteq> 0"
  then have "j = Suc 0 \<or> j = 2" by (auto simp: demo_runnable)
  then show "p_pid (proc_at demo_ready 0) < p_pid (proc_at demo_ready j)" by (auto simp: demo_at ready_proc_def)
qed (simp add: demo_runnable)

lemma timer_tick_at:
  assumes "curproc s = Some p" "p < length (procs s)" "queue (proc_at s p) < NMLFQ"
    and "0 \<le> cpu_ticks (proc_at s p)" "cpu_ticks (proc_at s p) < INT_MAX"
    and "0 \<le> ticks_used (proc_at s p)" "ticks_used (proc_at s p) < INT_MAX"
  shows "mlfq_timer_tick s = Ok (upd_proc p (\<lambda>q. tick_queue (q\<lparr>cpu_ticks := cpu_ticks (proc_at s p) + 1,
    ticks_used := ticks_used (proc_at s p) + 1\<rparr>)) s)"
  using assms by (simp add: mlfq_timer_tick_def sadd32_def INT_MAX_def)

text \<open>C28: A process that keeps the hart stays on its level for exactly the ticks of that level's slice,
  then goes one level down (the last level keeps it) with a new slice; no other process is touched.\<close>

theorem slice_then_demoted:
  assumes "table_ok s" and "curproc s = Some p" "p < NPROC" and "ticks_used (proc_at s p) = 0"
    and "0 \<le> cpu_ticks (proc_at s p)" "cpu_ticks (proc_at s p) < INT_MAX - 16"
    and "int n \<le> mlfq_slice ! queue (proc_at s p)"
  shows "\<exists>t. for_each (\<lambda>_. mlfq_timer_tick) [0..<n] s = Ok t \<and> (\<forall>j. j \<noteq> p \<longrightarrow> proc_at t j = proc_at s j) \<and>
    cpu_ticks (proc_at t p) = cpu_ticks (proc_at s p) + int n \<and>
    (if int n < mlfq_slice ! queue (proc_at s p)
     then queue (proc_at t p) = queue (proc_at s p) \<and> ticks_used (proc_at t p) = int n
     else queue (proc_at t p) = min (queue (proc_at s p) + 1) (NMLFQ - 1) \<and> ticks_used (proc_at t p) = 0)"
proof -
  define k where "k = queue (proc_at s p)"
  have k: "k < NMLFQ" using table_ok_at[OF assms(1,3)] by (simp add: proc_ok_def k_def)
  then have "k = 0 \<or> k = 1 \<or> k = 2 \<or> k = 3" by (simp add: NMLFQ_def) arith
  then have sl: "mlfq_slice ! k \<le> 16" "0 < mlfq_slice ! k" by (auto simp: mlfq_slice_def)
  have "\<exists>t. for_each (\<lambda>_. mlfq_timer_tick) [0..<n] s = Ok t \<and> (\<forall>j. j \<noteq> p \<longrightarrow> proc_at t j = proc_at s j) \<and>
    curproc t = Some p \<and> length (procs t) = NPROC \<and> cpu_ticks (proc_at t p) = cpu_ticks (proc_at s p) + int n \<and>
    (if int n < mlfq_slice ! k then queue (proc_at t p) = k \<and> ticks_used (proc_at t p) = int n
     else queue (proc_at t p) = min (k + 1) (NMLFQ - 1) \<and> ticks_used (proc_at t p) = 0)"
    using assms(7)[folded k_def]
  proof (induction n)
    case 0
    show ?case using assms(2,4) sl table_ok_len[OF assms(1)] by (simp add: k_def)
  next
    case (Suc n)
    then have lt: "int n < mlfq_slice ! k" by simp
    with Suc obtain t where t: "for_each (\<lambda>_. mlfq_timer_tick) [0..<n] s = Ok t" "\<forall>j. j \<noteq> p \<longrightarrow> proc_at t j = proc_at s j"
      "curproc t = Some p" "length (procs t) = NPROC" "cpu_ticks (proc_at t p) = cpu_ticks (proc_at s p) + int n"
      "queue (proc_at t p) = k" "ticks_used (proc_at t p) = int n" by auto
    let ?u = "upd_proc p (\<lambda>q. tick_queue (q\<lparr>cpu_ticks := cpu_ticks (proc_at t p) + 1,
      ticks_used := ticks_used (proc_at t p) + 1\<rparr>)) t"
    have "mlfq_timer_tick t = Ok ?u"
      by (rule timer_tick_at) (use t k sl lt assms(3,5,6) in \<open>auto simp: INT_MAX_def\<close>)
    with t show ?case using assms(3) k Suc.prems lt
      by (intro exI[of _ ?u]) (auto simp: for_each_append tick_queue_def NMLFQ_def min_def)
  qed
  then show ?thesis by (auto simp: k_def)
qed

theorem slice_then_demoted_witness:
  "\<exists>t. for_each (\<lambda>_. mlfq_timer_tick) [0..<4] demo_running = Ok t \<and>
    (\<forall>j. j \<noteq> 1 \<longrightarrow> proc_at t j = proc_at demo_running j) \<and>
    cpu_ticks (proc_at t 1) = cpu_ticks (proc_at demo_running 1) + int 4 \<and>
    (if int 4 < mlfq_slice ! queue (proc_at demo_running 1)
     then queue (proc_at t 1) = queue (proc_at demo_running 1) \<and> ticks_used (proc_at t 1) = int 4
     else queue (proc_at t 1) = min (queue (proc_at demo_running 1) + 1) (NMLFQ - 1) \<and> ticks_used (proc_at t 1) = 0)"
proof -
  have "proc_at demo_running 1 = (ready_proc 2 1)\<lparr>p_state := RUNNING\<rparr>"
    by (simp add: proc_at_def demo_running_def table_of_def)
  then show ?thesis
    by (intro slice_then_demoted[OF demo_running_ok(1)])
      (simp_all add: demo_running_def ready_proc_def free_proc_def NPROC_def INT_MAX_def mlfq_slice_def)
qed


section \<open>Sleeping\<close>

text \<open>C29: No wakeup is lost: whatever other wakeups, kills and timer preemptions come in between, once the
  waker has set the condition and called \<open>wakeup\<close> the sleeper is not asleep on the channel, and from there it
  can see the condition and leave its loop by steps of its own alone, each time the scheduler runs it.\<close>

theorem no_lost_wakeup:
  assumes "sw_start s" and "sw_reach ch s t" and "wpc t = W_out"
  shows "p_state (sq t) \<noteq> SLEEPING \<and> (\<exists>u. (sleeper_step ch)\<^sup>*\<^sup>* t u \<and> spc u = S_out)"
  using woken[OF assms(2,1,3)] sleeper_finishes[OF sw_inv_reach[OF assms(2) sw_inv_start[OF assms(1)]] assms(3)]
  by blast

definition sw0 :: sw where
  "sw0 = \<lparr>sq = free_proc\<lparr>p_state := RUNNING, p_pid := 2\<rparr>, cond = False, lk = None, spc = S_want, wpc = W_want\<rparr>"

text \<open>The timer preempts the sleeper between releasing the lock and \<open>sleep()\<close>, and the waker runs.\<close>

definition sw_race :: sw where
  "sw_race = sw0\<lparr>sq := wake (Some Ch_ticks) ((prepare (Some Ch_ticks) (sq sw0))\<lparr>p_state := RUNNABLE\<rparr>), cond := True, spc := S_unlocked, wpc := W_out\<rparr>"

lemma sw_race_reached: "sw_reach Ch_ticks sw0 sw_race"
proof -
  define s1 where "s1 = sw0\<lparr>spc := S_top, lk := Some Sleeper\<rparr>"
  define s2 where "s2 = s1\<lparr>spc := S_prepared, sq := prepare (Some Ch_ticks) (sq s1)\<rparr>"
  define s3 where "s3 = s2\<lparr>spc := S_unlocked, lk := None\<rparr>"
  define s3' where "s3' = s3\<lparr>sq := (sq s3)\<lparr>p_state := RUNNABLE\<rparr>\<rparr>"
  define s4 where "s4 = s3'\<lparr>wpc := W_locked, lk := Some Waker\<rparr>"
  define s5 where "s5 = s4\<lparr>wpc := W_set, cond := True\<rparr>"
  define s6 where "s6 = s5\<lparr>wpc := W_waked, sq := wake (Some Ch_ticks) (sq s5)\<rparr>"
  note d = sw0_def s1_def s2_def s3_def s3'_def s4_def s5_def s6_def
  have "sw_step Ch_ticks sw0 s1" unfolding s1_def by (rule s_lock) (simp_all add: d free_proc_def)
  moreover have "sw_step Ch_ticks s1 s2" unfolding s2_def by (rule s_prepare) (simp_all add: d)
  moreover have "sw_step Ch_ticks s2 s3" unfolding s3_def by (rule s_unlock) (simp_all add: d)
  moreover have "sw_step Ch_ticks s3 s3'" unfolding s3'_def by (rule s_preempt) (simp_all add: d prepare_def)
  moreover have "sw_step Ch_ticks s3' s4" unfolding s4_def by (rule w_lock) (simp_all add: d)
  moreover have "sw_step Ch_ticks s4 s5" unfolding s5_def by (rule w_set) (simp_all add: d)
  moreover have "sw_step Ch_ticks s5 s6" unfolding s6_def by (rule w_wake) (simp_all add: d)
  moreover have "sw_step Ch_ticks s6 (s6\<lparr>wpc := W_out, lk := None\<rparr>)" by (rule w_unlock) (simp add: d)
  moreover have "s6\<lparr>wpc := W_out, lk := None\<rparr> = sw_race" by (simp add: d sw_race_def)
  ultimately show ?thesis by (metis sw_refl sw_more)
qed

theorem no_lost_wakeup_witness:
  "p_state (sq sw_race) \<noteq> SLEEPING \<and> (\<exists>u. (sleeper_step Ch_ticks)\<^sup>*\<^sup>* sw_race u \<and> spc u = S_out)"
  by (rule no_lost_wakeup[OF _ sw_race_reached]) (simp_all add: sw_start_def sw0_def sw_race_def)

end
