(* ===== verification/M_Mkfs.thy ===== *)
theory M_Mkfs
  imports K_Dir
begin

text \<open>
  \<open>xv6/mkfs/mkfs.c\<close>: the program that builds the first file system, on the same on-disk structures as the kernel's
  \<open>fs.c\<close>.  The image is a function from block numbers to bytes; \<open>xshort\<close> and \<open>xint\<close> are the byte order in which
  \<open>put16\<close> and \<open>put32\<close> write.  An assertion that fails, and a file that cannot be opened, end the program.
\<close>

section \<open>The code\<close>

record mkfs_st =
  img :: "32 word \<Rightarrow> byte list"
  freeinode :: "32 word"
  freeblock :: "32 word"

definition FSSIZE :: nat where "FSSIZE = 2000"
definition NINODES :: nat where "NINODES = 200"
definition nbitmap :: nat where "nbitmap = FSSIZE div 8192 + 1"
definition ninodeblocks :: nat where "ninodeblocks = NINODES div 16 + 1"
definition nlog :: nat where "nlog = LOGBLOCKS + 1"
definition nmeta :: nat where "nmeta = 2 + nlog + ninodeblocks + nbitmap"

definition mk_sb :: superblock where
  "mk_sb = \<lparr>sb_magic = FSMAGIC, sb_size = of_nat FSSIZE, sb_nblocks = of_nat (FSSIZE - nmeta), sb_ninodes = of_nat NINODES,
     sb_nlog = of_nat nlog, sb_logstart = 2, sb_inodestart = of_nat (2 + nlog), sb_bmapstart = of_nat (2 + nlog + ninodeblocks)\<rparr>"

definition zeroes :: "byte list" where "zeroes = replicate 1024 0"

definition wsect :: "32 word \<Rightarrow> byte list \<Rightarrow> mkfs_st \<Rightarrow> mkfs_st" where
  "wsect sec b s = s\<lparr>img := (img s)(sec := b)\<rparr>"

text \<open>The image file has \<open>FSSIZE\<close> blocks, and a read past its end is short.\<close>

definition rsect :: "32 word \<Rightarrow> mkfs_st \<Rightarrow> byte list res" where
  "rsect sec s = (if unat sec < FSSIZE then Ok (img s sec) else Panic ''read'')"

text \<open>
  The block of an inode is always in the image: the root directory has at most \<open>268 * 64\<close> entries, so no inode number
  reaches 31000 (lemma \<open>inode_block_in_image\<close> below).
\<close>

definition winode :: "32 word \<Rightarrow> dinode \<Rightarrow> mkfs_st \<Rightarrow> mkfs_st" where
  "winode inum di s = (let bn = IBLOCK inum mk_sb in wsect bn (put_dinode inum di (img s bn)) s)"

definition rinode :: "32 word \<Rightarrow> mkfs_st \<Rightarrow> dinode" where
  "rinode inum s = get_dinode (img s (IBLOCK inum mk_sb)) inum"

definition mk_ialloc :: "16 word \<Rightarrow> mkfs_st \<Rightarrow> 32 word \<times> mkfs_st" where
  "mk_ialloc type s =
     (let inum = freeinode s;
          s = s\<lparr>freeinode := freeinode s + 1\<rparr>;
          din = \<lparr>di_type = type, di_major = 0, di_minor = 0, di_nlink = 1, di_size = 0, di_addrs = replicate 13 0\<rparr>
      in (inum, winode inum din s))"

text \<open>The block of the file in which byte \<open>fbn * 1024\<close> stands, allocated if need be.\<close>

definition new_block :: "nat \<Rightarrow> dinode \<Rightarrow> mkfs_st \<Rightarrow> dinode \<times> mkfs_st" where
  "new_block i din s =
     (if di_addrs din ! i = 0 then
        (din\<lparr>di_addrs := (di_addrs din)[i := freeblock s]\<rparr>, s\<lparr>freeblock := freeblock s + 1\<rparr>)
      else (din, s))"

definition data_block :: "nat \<Rightarrow> dinode \<Rightarrow> mkfs_st \<Rightarrow> (32 word \<times> dinode \<times> mkfs_st) res" where
  "data_block fbn din s =
     (if fbn < 12 then
        let (din, s) = new_block fbn din s in Ok (di_addrs din ! fbn, din, s)
      else
        let (din, s) = new_block 12 din s; ib = di_addrs din ! 12 in
        bnd (rsect ib s) (\<lambda>indirect.
          if get32 indirect (fbn - 12) = 0 then
            let x = freeblock s in
            Ok (x, din, wsect ib (put32 (fbn - 12) x indirect) (s\<lparr>freeblock := freeblock s + 1\<rparr>))
          else Ok (get32 indirect (fbn - 12), din, s)))"

definition patch :: "nat \<Rightarrow> byte list \<Rightarrow> byte list \<Rightarrow> byte list" where
  "patch i xs d = take i d @ xs @ drop (i + length xs) d"

lemma less_1024: "off < (off div 1024 + 1) * (1024 :: nat)"
  using dividend_less_div_times[of 1024 off] by simp

function iappend_loop :: "byte list \<Rightarrow> nat \<Rightarrow> dinode \<Rightarrow> mkfs_st \<Rightarrow> (nat \<times> dinode \<times> mkfs_st) res" where
  "iappend_loop p off din s =
     (if p = [] then Ok (off, din, s)
      else
        let fbn = off div 1024 in
        if \<not> fbn < 268 then Panic ''fbn < MAXFILE''
        else
          let n1 = min (length p) ((fbn + 1) * 1024 - off) in
          bnd (data_block fbn din s) (\<lambda>(x, din, s).
          bnd (rsect x s) (\<lambda>buf.
            iappend_loop (drop n1 p) (off + n1) din (wsect x (patch (off - fbn * 1024) (take n1 p) buf) s))))"
  by pat_completeness auto
termination
proof (relation "measure (\<lambda>(p, _). length p)")
  fix p :: "byte list" and off fbn n1 :: nat
  assume "p \<noteq> []" "fbn = off div 1024" "n1 = min (length p) ((fbn + 1) * 1024 - off)"
  moreover from this have "off < (fbn + 1) * 1024" using less_1024[of off] by simp
  ultimately have "0 < n1" "p \<noteq> []" by auto
  then show "((drop n1 p, off + n1, din', s'), p, off, din, s) \<in> measure (\<lambda>(p, _). length p)" for din' s' din s
    by simp
qed auto

declare iappend_loop.simps [simp del]

definition iappend :: "32 word \<Rightarrow> byte list \<Rightarrow> mkfs_st \<Rightarrow> mkfs_st res" where
  "iappend inum p s =
     (let din = rinode inum s in
      bnd (iappend_loop p (unat (di_size din)) din s) (\<lambda>(off, din, s).
        Ok (winode inum (din\<lparr>di_size := of_nat off\<rparr>) s)))"

definition mk_balloc :: "32 word \<Rightarrow> mkfs_st \<Rightarrow> mkfs_st res" where
  "mk_balloc used s =
     (if \<not> unat used < 8192 then Panic ''used < BPB''
      else Ok (wsect (sb_bmapstart mk_sb) (foldl (\<lambda>d i. set_bit_of i d) zeroes [0..<unat used]) s))"

text \<open>The first block of the super block's bytes.\<close>

definition super_bytes :: "byte list" where
  "super_bytes =
     put32 0 (sb_magic mk_sb) (put32 1 (sb_size mk_sb) (put32 2 (sb_nblocks mk_sb) (put32 3 (sb_ninodes mk_sb)
       (put32 4 (sb_nlog mk_sb) (put32 5 (sb_logstart mk_sb) (put32 6 (sb_inodestart mk_sb) (put32 7 (sb_bmapstart mk_sb) zeroes)))))))"

text \<open>The name of a file without \<open>user/\<close> and \<open>_\<close>.\<close>

abbreviation slash :: byte where "slash \<equiv> 47"

definition user_prefix :: "byte list" where "user_prefix = [117, 115, 101, 114, 47]"

definition short_name :: "byte list \<Rightarrow> byte list res" where
  "short_name arg =
     (let n = (if take 5 arg = user_prefix then drop 5 arg else arg) in
      if slash \<in> set n then Panic ''index(shortname, '/') == 0''
      else Ok n)"

definition disk_name :: "byte list \<Rightarrow> byte list" where
  "disk_name n = (if n \<noteq> [] \<and> hd n = 95 then tl n else n)"

definition mk_dirent :: "32 word \<Rightarrow> byte list \<Rightarrow> byte list" where
  "mk_dirent inum name = put_dirent \<lparr>de_inum = ucast inum, de_name = strncpy_bytes DIRSIZ name\<rparr>"

text \<open>A file to put in: its argument, and what the reads of it return; \<open>None\<close> does not open.\<close>

type_synonym mk_file = "byte list \<times> byte list list option"

fun append_all :: "32 word \<Rightarrow> byte list list \<Rightarrow> mkfs_st \<Rightarrow> mkfs_st res" where
  "append_all inum [] s = Ok s"
| "append_all inum (p # ps) s = (if p = [] then Ok s else bnd (iappend inum p s) (append_all inum ps))"

definition add_file :: "32 word \<Rightarrow> mk_file \<Rightarrow> mkfs_st \<Rightarrow> mkfs_st res" where
  "add_file rootino f s =
     bnd (short_name (fst f)) (\<lambda>n.
       case snd f of
         None \<Rightarrow> Panic ''open''
       | Some reads \<Rightarrow>
           let n = disk_name n in
           if DIRSIZ < length n then Panic ''strlen(shortname) <= DIRSIZ''
           else
             let (inum, s) = mk_ialloc T_FILE s in
             bnd (iappend rootino (mk_dirent inum n) s) (append_all inum reads))"

fun add_files :: "32 word \<Rightarrow> mk_file list \<Rightarrow> mkfs_st \<Rightarrow> mkfs_st res" where
  "add_files rootino [] s = Ok s"
| "add_files rootino (f # fs) s = bnd (add_file rootino f s) (add_files rootino fs)"

definition round_root :: "32 word \<Rightarrow> mkfs_st \<Rightarrow> mkfs_st" where
  "round_root rootino s =
     (let din = rinode rootino s; off = (unat (di_size din) div 1024 + 1) * 1024
      in winode rootino (din\<lparr>di_size := of_nat off\<rparr>) s)"

definition blank_image :: "mkfs_st" where
  "blank_image = \<lparr>img = (\<lambda>_. zeroes)(1 := super_bytes), freeinode = 1, freeblock = of_nat nmeta\<rparr>"

definition mkfs :: "mk_file list \<Rightarrow> mkfs_st res" where
  "mkfs fs =
     (let (rootino, s) = mk_ialloc T_DIR blank_image in
      if rootino \<noteq> 1 then Panic ''rootino == ROOTINO''
      else
        bnd (iappend rootino (mk_dirent rootino [46]) s) (\<lambda>s.
        bnd (iappend rootino (mk_dirent rootino [46, 46]) s) (\<lambda>s.
        bnd (add_files rootino fs s) (\<lambda>s.
          let s = round_root rootino s in mk_balloc (freeblock s) s))))"

section \<open>Files in the image\<close>

text \<open>
  An inode with the addresses \<open>ad\<close> has the data blocks \<open>bs\<close>: the first 12 are in the inode, the others in its indirect
  block, which it has if there are others, and the other entries are 0.
\<close>

type_synonym image = "32 word \<Rightarrow> byte list"

definition has_blocks :: "image \<Rightarrow> 32 word list \<Rightarrow> 32 word list \<Rightarrow> bool" where
  "has_blocks C ad bs \<longleftrightarrow> length ad = 13 \<and> length bs \<le> 268 \<and> (\<forall>k < 12. ad ! k = (if k < length bs then bs ! k else 0)) \<and>
     (if length bs \<le> 12 then ad ! 12 = 0
      else ad ! 12 \<noteq> 0 \<and> (\<forall>j < 256. get32 (C (ad ! 12)) j = (if 12 + j < length bs then bs ! (12 + j) else 0)))"

text \<open>The blocks of the file, with its indirect block; none of them twice.\<close>

definition own :: "32 word list \<Rightarrow> 32 word list \<Rightarrow> 32 word set" where
  "own ad bs = set bs \<union> (if length bs \<le> 12 then {} else {ad ! 12})"

definition own_ok :: "32 word list \<Rightarrow> 32 word list \<Rightarrow> bool" where
  "own_ok ad bs \<longleftrightarrow> distinct bs \<and> (12 < length bs \<longrightarrow> ad ! 12 \<notin> set bs)"

definition blocks_for :: "nat \<Rightarrow> nat" where
  "blocks_for n = (n + 1023) div 1024"

text \<open>The file has the bytes \<open>F\<close>.\<close>

definition file_is :: "image \<Rightarrow> 32 word list \<Rightarrow> 32 word list \<Rightarrow> byte list \<Rightarrow> bool" where
  "file_is C ad bs F \<longleftrightarrow> has_blocks C ad bs \<and> own_ok ad bs \<and> length bs = blocks_for (length F) \<and>
     take (length F) (concat (map C bs)) = F"


lemma get32_zeroes: "4 * i + 3 < 1024 \<Longrightarrow> get32 zeroes i = 0"
  by (simp add: get32_def zeroes_def)

lemma get32_put: "4 * j + 3 < length d \<Longrightarrow> 4 * i + 3 < length d \<Longrightarrow> get32 (put32 j w d) i = (if i = j then w else get32 d i)"
  by (simp add: get32_put32 get32_other)

lemma has_blocks_cong: "(12 < length bs \<Longrightarrow> D (ad ! 12) = C (ad ! 12)) \<Longrightarrow> has_blocks C ad bs = has_blocks D ad bs"
  by (auto simp: has_blocks_def)

lemma file_is_frame: "file_is C ad bs F \<Longrightarrow> (\<And>b. b \<in> own ad bs \<Longrightarrow> D b = C b) \<Longrightarrow> file_is D ad bs F"
proof -
  assume f: "file_is C ad bs F" and e: "\<And>b. b \<in> own ad bs \<Longrightarrow> D b = C b"
  have "map D bs = map C bs" using e by (auto simp: own_def)
  then have "concat (map D bs) = concat (map C bs)" by (rule arg_cong)
  moreover have "has_blocks D ad bs" using f has_blocks_cong[of bs D ad C] e by (auto simp: file_is_def own_def)
  ultimately show ?thesis using f by (simp add: file_is_def)
qed

section \<open>Appending\<close>

text \<open>The blocks that are not handed out yet are blank, all blocks have 1024 bytes, and \<open>k\<close> more can be handed out.\<close>

definition stock :: "nat \<Rightarrow> mkfs_st \<Rightarrow> bool" where
  "stock k s \<longleftrightarrow> (\<forall>b. length (img s b) = 1024) \<and> (\<forall>b. freeblock s \<le> b \<longrightarrow> img s b = zeroes) \<and>
     0 < freeblock s \<and> unat (freeblock s) + k < 2 ^ 32"

text \<open>The number of blocks that a file takes.\<close>

definition cost :: "32 word list \<Rightarrow> nat" where
  "cost bs = length bs + (if length bs \<le> 12 then 0 else 1)"

definition handed_out :: "mkfs_st \<Rightarrow> 32 word set" where
  "handed_out s = {b. 0 < b \<and> b < freeblock s}"

lemma next_block:
  assumes "stock (Suc k) s"
  shows "unat (freeblock s + 1) = unat (freeblock s) + 1" "freeblock s < freeblock s + 1" "stock k (s\<lparr>freeblock := freeblock s + 1\<rparr>)"
proof -
  show u: "unat (freeblock s + 1) = unat (freeblock s) + 1" using assms by (simp add: stock_def unat_word_ariths)
  then show l: "freeblock s < freeblock s + 1" by (simp add: word_less_nat_alt)
  then show "stock k (s\<lparr>freeblock := freeblock s + 1\<rparr>)" using assms u by (auto simp: stock_def)
qed

text \<open>What \<open>data_block\<close> does, for a block of the file or the first after it.\<close>

definition block_got :: "nat \<Rightarrow> dinode \<Rightarrow> 32 word list \<Rightarrow> mkfs_st \<Rightarrow> nat \<Rightarrow> dinode \<Rightarrow> 32 word list \<Rightarrow> mkfs_st \<Rightarrow> bool" where
  "block_got k din bs s n din' bs' s' \<longleftrightarrow>
     has_blocks (img s') (di_addrs din') bs' \<and> own_ok (di_addrs din') bs' \<and> (bs' = bs \<and> k < length bs \<or> (\<exists>x. bs' = bs @ [x] \<and> img s x = zeroes) \<and> k = length bs) \<and>
     own (di_addrs din) bs \<subseteq> own (di_addrs din') bs' \<and> own (di_addrs din') bs' \<subseteq> own (di_addrs din) bs \<union> (handed_out s' - handed_out s) \<and>
     handed_out s \<subseteq> handed_out s' \<and> din' = din\<lparr>di_addrs := di_addrs din'\<rparr> \<and> freeinode s' = freeinode s \<and>
     unat (freeblock s') + cost bs = unat (freeblock s) + cost bs' \<and> stock n s' \<and>
     (\<forall>b. b \<notin> own (di_addrs din') bs' - set bs' \<longrightarrow> img s' b = img s b)"

lemma has_blocks_snoc:
  assumes "has_blocks C ad bs" "length bs < 12"
  shows "has_blocks D (ad[length bs := x]) (bs @ [x])"
  using assms by (auto simp: has_blocks_def nth_append nth_list_update less_Suc_eq)

lemma has_blocks_indirect:
  assumes "has_blocks C ad bs" "12 < length bs" "length bs < 268" "length (C (ad ! 12)) = 1024"
  shows "has_blocks (C(ad ! 12 := put32 (length bs - 12) x (C (ad ! 12)))) ad (bs @ [x])"
  using assms by (auto simp: has_blocks_def nth_append get32_put)

lemma has_blocks_first:
  assumes "has_blocks C ad bs" "length bs = 12" "y \<noteq> 0" "C y = zeroes"
  shows "has_blocks (C(y := put32 0 x zeroes)) (ad[12 := y]) (bs @ [x])"
proof -
  have l: "length zeroes = 1024" by (simp add: zeroes_def)
  have "get32 (put32 0 x zeroes) j = (if j = 0 then x else 0)" if "j < 256" for j
    using get32_put[of 0 zeroes j x] get32_zeroes[of j] that by (simp add: l)
  then show ?thesis using assms by (auto simp: has_blocks_def nth_append nth_list_update)
qed

lemma data_block_ok:
  assumes h: "has_blocks (img s) (di_addrs din) bs" "own_ok (di_addrs din) bs" "own (di_addrs din) bs \<subseteq> handed_out s"
    and s: "stock (n + 2) s" and k: "k \<le> length bs" "k < 268"
  shows "\<exists>din' bs' s'. (unat (freeblock s') \<le> FSSIZE \<longrightarrow> data_block k din s = Ok (bs' ! k, din', s')) \<and> block_got k din bs s n din' bs' s'"
proof -
  let ?ad = "di_addrs din" and ?x = "freeblock s"
  note H = h(1)[unfolded has_blocks_def]
  have nz: "0 \<notin> own ?ad bs" "?x \<notin> own ?ad bs" using h(3) by (auto simp: handed_out_def)
  have nb: "bs ! i \<noteq> 0" if "i < length bs" for i using nz(1) nth_mem[OF that] by (auto simp: own_def)
  have s2: "stock (Suc (Suc n)) s" using s by simp
  have sn: "stock n s" using s by (simp add: stock_def)
  note f1 = next_block[OF s2] and f2 = next_block[OF next_block(3)[OF s2]]
  have x0: "?x \<noteq> 0" "img s ?x = zeroes" using s by (auto simp: stock_def)
  have xp: "0 < ?x" "0 < ?x + 1" using x0(1) f1(1) by (simp_all add: word_less_nat_alt unat_gt_0)
  have inside: "unat b < FSSIZE" if "b \<in> own ?ad bs" "unat ?x \<le> FSSIZE" for b
    using that h(3) by (auto simp: handed_out_def word_less_nat_alt)
  have ind: "?ad ! 12 \<in> own ?ad bs" if "12 < length bs" using that by (simp add: own_def)
  show ?thesis
  proof (cases "k < length bs")
    case True
    have "data_block k din s = Ok (bs ! k, din, s)" if fits: "unat ?x \<le> FSSIZE"
      using H True nb[OF True] inside[OF ind fits] by (auto simp: data_block_def new_block_def rsect_def Let_def)
    moreover have "block_got k din bs s n din bs s" using h True sn by (simp add: block_got_def)
    ultimately show ?thesis by blast
  next
    case False
    then have kl: "k = length bs" using k by simp
    consider "k < 12" | "k = 12" | "12 < k" by linarith
    then show ?thesis
    proof cases
      case 1
      let ?s = "s\<lparr>freeblock := ?x + 1\<rparr>" and ?din = "din\<lparr>di_addrs := ?ad[k := ?x]\<rparr>"
      have "data_block k din s = Ok ((bs @ [?x]) ! k, ?din, ?s)"
        using H 1 kl by (simp add: data_block_def new_block_def)
      moreover have "block_got k din bs s n ?din (bs @ [?x]) ?s"
        unfolding block_got_def using h 1 kl nz f1 x0 has_blocks_snoc[OF h(1), of "img s" ?x] s
        by (auto simp: own_def own_ok_def cost_def handed_out_def stock_def)
      ultimately show ?thesis by blast
    next
      case 2
      let ?y = "?x + 1"
      let ?C = "(img s)(?x := put32 0 ?y zeroes)"
      let ?s = "s\<lparr>freeblock := ?x + 1 + 1, img := ?C\<rparr>" and ?din = "din\<lparr>di_addrs := ?ad[12 := ?x]\<rparr>"
      have l: "length ?ad = 13" "?ad ! 12 = 0" using H 2 kl by simp_all
      have l2: "length zeroes = 1024" by (simp add: zeroes_def)
      have x1: "img s ?y = zeroes" using s f1(2) by (auto simp: stock_def)
      have "data_block k din s = Ok ((bs @ [?y]) ! k, ?din, ?s)" if "unat (?x + 1 + 1) \<le> FSSIZE"
        using 2 kl l x0 that f1(1) f2(1) by (simp add: data_block_def new_block_def rsect_def wsect_def get32_zeroes Let_def nth_append)
      moreover have "block_got k din bs s n ?din (bs @ [?y]) ?s"
        unfolding block_got_def
      proof (intro conjI)
        show "has_blocks (img ?s) (di_addrs ?din) (bs @ [?y])"
          using has_blocks_first[OF h(1) _ x0, of ?y] 2 kl by simp
        have "?y \<notin> own ?ad bs" "?y \<noteq> ?x" using h(3) f1(2) by (auto simp: handed_out_def)
        then show "own_ok (di_addrs ?din) (bs @ [?y])" using h(2) nz l by (auto simp: own_ok_def own_def)
        have "?x < ?x + 1 + 1" using f1(2) f2(2) by simp
        then show "stock n ?s" using f2(3) l2 by (auto simp: stock_def)
      qed (use h 2 kl nz f1 f2 x0 xp l x1 in \<open>auto simp: own_def cost_def handed_out_def\<close>)
      ultimately show ?thesis by (intro exI[of _ ?din] exI[of _ "bs @ [?y]"] exI[of _ ?s]) simp
    next
      case 3
      let ?C = "(img s)(?ad ! 12 := put32 (k - 12) ?x (img s (?ad ! 12)))"
      let ?s = "s\<lparr>freeblock := ?x + 1, img := ?C\<rparr>"
      have ni: "?ad ! 12 \<notin> set bs" using h(2) 3 kl by (auto simp: own_ok_def)
      have i3: "?ad ! 12 \<in> handed_out s" using h(3) 3 kl by (auto simp: own_def)
      have z: "?ad ! 12 \<noteq> 0" "get32 (img s (?ad ! 12)) (k - 12) = 0" using H 3 kl k(2) by auto
      have "data_block k din s = Ok ((bs @ [?x]) ! k, din, ?s)" if "unat (?x + 1) \<le> FSSIZE"
        using 3 kl z inside[OF ind] that f1(1) by (simp add: data_block_def new_block_def rsect_def wsect_def Let_def)
      moreover have "block_got k din bs s n din (bs @ [?x]) ?s"
        unfolding block_got_def
      proof (intro conjI)
        show "has_blocks (img ?s) (di_addrs din) (bs @ [?x])"
          using has_blocks_indirect[OF h(1), of ?x] 3 kl k s by (simp add: stock_def)
        show "own_ok (di_addrs din) (bs @ [?x])" using h(2) nz 3 kl by (auto simp: own_ok_def own_def)
        show "stock n ?s" using f1 s i3 by (auto simp: stock_def handed_out_def)
      qed (use h 3 kl nz f1 x0 xp i3 ni in \<open>auto simp: own_def cost_def handed_out_def\<close>)
      ultimately show ?thesis by (intro exI[of _ din] exI[of _ "bs @ [?x]"] exI[of _ ?s]) simp
    qed
  qed
qed


text \<open>Bytes written at the end of a file whose last block is \<open>bs ! k\<close>.\<close>

lemma patch_length: "i + length xs \<le> length d \<Longrightarrow> length (patch i xs d) = length d"
  by (simp add: patch_def)

lemma concat_blocks_length: "(\<And>b. length (C b) = 1024) \<Longrightarrow> length (concat (map C bs)) = 1024 * length bs"
  by (induction bs) simp_all

lemma write_end:
  assumes l: "\<And>b. length (C b) = 1024" and bs: "distinct (cs @ [x])" "off = 1024 * length cs + r" "r + length q \<le> 1024"
    and F: "take off (concat (map C (cs @ [x]))) = F"
  shows "take (off + length q) (concat (map (C(x := patch r q (C x))) (cs @ [x]))) = F @ q"
proof -
  have "map (C(x := patch r q (C x))) cs = map C cs" using bs(1) by auto
  then have "concat (map (C(x := patch r q (C x))) cs) = concat (map C cs)" by (rule arg_cong)
  then have c: "concat (map (C(x := patch r q (C x))) (cs @ [x])) = concat (map C cs) @ patch r q (C x)"
    unfolding map_append concat_append by simp
  have lc: "length (concat (map C cs)) = 1024 * length cs" by (rule concat_blocks_length[OF l])
  have F': "F = concat (map C cs) @ take r (C x)" using F bs(2) lc by simp
  have "take (r + length q) (patch r q (C x)) = take r (C x) @ q" using bs(3) l[of x] by (simp add: patch_def)
  then show ?thesis unfolding c F' bs(2) by (simp add: lc)
qed

lemma blocks_for_step:
  "0 < q \<Longrightarrow> off mod 1024 + q \<le> 1024 \<Longrightarrow> blocks_for (off + q) = off div 1024 + 1"
  "off div 1024 \<le> blocks_for off" "blocks_for off \<le> off div 1024 + 1" "off div 1024 < blocks_for off \<longleftrightarrow> off mod 1024 \<noteq> 0"
proof -
  have e: "off = 1024 * (off div 1024) + off mod 1024" by simp
  have m: "off mod 1024 < 1024" by simp
  define a r where "a = off div 1024" and "r = off mod 1024"
  have o: "off = 1024 * a + r" "r < 1024" using e m unfolding a_def r_def by auto
  have d: "(1024 * a + t) div 1024 = a + t div 1024" for t by simp
  show "blocks_for (off + q) = off div 1024 + 1" if "0 < q" "off mod 1024 + q \<le> 1024"
  proof -
    have "off + q + 1023 = 1024 * a + (r + q + 1023)" using o by simp
    then have "blocks_for (off + q) = a + (r + q + 1023) div 1024" unfolding blocks_for_def by (simp only: d)
    moreover have "(r + q + 1023) div 1024 = 1" by (rule div_nat_eqI) (use that r_def in auto)
    ultimately show ?thesis by (simp add: a_def)
  qed
  have "off + 1023 = 1024 * a + (r + 1023)" using o by simp
  then have b: "blocks_for off = a + (r + 1023) div 1024" unfolding blocks_for_def by (simp only: d)
  have c: "(r + 1023) div 1024 = (if r = 0 then 0 else 1)"
    using o(2) by (auto intro!: div_nat_eqI)
  show "off div 1024 \<le> blocks_for off" "blocks_for off \<le> off div 1024 + 1" "off div 1024 < blocks_for off \<longleftrightarrow> off mod 1024 \<noteq> 0"
    unfolding b c a_def[symmetric] r_def[symmetric] by simp_all
qed

text \<open>What appending \<open>p\<close> to a file with the bytes \<open>F\<close> does.\<close>

definition appended :: "dinode \<Rightarrow> 32 word list \<Rightarrow> mkfs_st \<Rightarrow> byte list \<Rightarrow> nat \<Rightarrow> dinode \<Rightarrow> 32 word list \<Rightarrow> mkfs_st \<Rightarrow> bool" where
  "appended din bs s F n din' bs' s' \<longleftrightarrow>
     file_is (img s') (di_addrs din') bs' F \<and> own (di_addrs din) bs \<subseteq> own (di_addrs din') bs' \<and>
     own (di_addrs din') bs' \<subseteq> own (di_addrs din) bs \<union> (handed_out s' - handed_out s) \<and> handed_out s \<subseteq> handed_out s' \<and>
     din' = din\<lparr>di_addrs := di_addrs din'\<rparr> \<and> freeinode s' = freeinode s \<and>
     unat (freeblock s') + cost bs = unat (freeblock s) + cost bs' \<and> stock n s' \<and>
     (\<forall>b. b \<notin> own (di_addrs din') bs' \<longrightarrow> img s' b = img s b)"

lemma appended_trans:
  assumes "appended din bs s F n din1 bs1 s1" "appended din1 bs1 s1 G m din2 bs2 s2"
  shows "appended din bs s G m din2 bs2 s2"
proof -
  note A = assms(1)[unfolded appended_def] and B = assms(2)[unfolded appended_def]
  have "din2 = din\<lparr>di_addrs := di_addrs din2\<rparr>"
  proof -
    have "din1 = din\<lparr>di_addrs := di_addrs din1\<rparr>" "din2 = din1\<lparr>di_addrs := di_addrs din2\<rparr>" using A B by blast+
    then show ?thesis by (metis dinode.update_convs(6) dinode.surjective)
  qed
  moreover have "own (di_addrs din2) bs2 \<subseteq> own (di_addrs din) bs \<union> (handed_out s2 - handed_out s)" using A B by blast
  moreover have "\<forall>b. b \<notin> own (di_addrs din2) bs2 \<longrightarrow> img s2 b = img s b" using A B by (metis subsetD)
  ultimately show ?thesis unfolding appended_def using A B by auto
qed


lemma stock_less: "stock m s \<Longrightarrow> n \<le> m \<Longrightarrow> stock n s"
  by (simp add: stock_def)

text \<open>One round of the loop.\<close>

lemma iappend_round:
  assumes f: "file_is (img s) (di_addrs din) bs F" and o: "own (di_addrs din) bs \<subseteq> handed_out s" and st: "stock (n + 2) s"
    and q: "0 < length q" "length F mod 1024 + length q \<le> 1024" "length F div 1024 < 268"
  shows "\<exists>x din' bs' s'. (unat (freeblock s') \<le> FSSIZE \<longrightarrow>
      data_block (length F div 1024) din s = Ok (x, din', s') \<and> rsect x s' = Ok (img s' x)) \<and>
    appended din bs s (F @ q) n din' bs' (wsect x (patch (length F mod 1024) q (img s' x)) s')"
proof -
  let ?k = "length F div 1024" and ?r = "length F mod 1024"
  note f' = f[unfolded file_is_def]
  have kb: "?k \<le> length bs" using f' blocks_for_step(2)[of "length F"] by simp
  obtain din' bs' s' where d: "unat (freeblock s') \<le> FSSIZE \<longrightarrow> data_block ?k din s = Ok (bs' ! ?k, din', s')" "block_got ?k din bs s n din' bs' s'"
    using data_block_ok[OF conjunct1[OF f'] _ o st kb q(3)] f' by auto
  note D = d(2)[unfolded block_got_def]
  have lb: "length bs' = ?k + 1" using D f' blocks_for_step(3)[of "length F"] by auto
  define cs x where "cs = take ?k bs'" and "x = bs' ! ?k"
  have bs': "bs' = cs @ [x]" using lb unfolding cs_def x_def by (metis Suc_eq_plus1 lessI take_Suc_conv_app_nth take_all_iff order_refl)
  have dist: "distinct (cs @ [x])" using D bs' by (auto simp: own_ok_def)
  have len: "length (img s' b) = 1024" for b using D by (simp add: stock_def)
  have F: "take (length F) (concat (map (img s') (cs @ [x]))) = F"
  proof -
    have same: "map (img s') bs = map (img s) bs"
    proof (rule map_cong[OF refl])
      fix b assume b: "b \<in> set bs"
      then have "b \<in> set bs'" using D by auto
      then show "img s' b = img s b" using D by blast
    qed
    then have "concat (map (img s') bs) = concat (map (img s) bs)" by (rule arg_cong)
    moreover have "length F \<le> length (concat (map (img s) bs))" using f' by (metis length_take min.cobounded2 min.absorb_iff2 nat_le_linear)
    ultimately show ?thesis using D f' bs' by auto
  qed
  have lc: "length F = 1024 * length cs + ?r" using lb by (simp add: cs_def)
  let ?t = "wsect x (patch ?r q (img s' x)) s'"
  have W: "take (length F + length q) (concat (map (img ?t) bs')) = F @ q"
    using write_end[of "img s'" cs x "length F" ?r q F, OF len dist lc q(2) F] by (simp add: wsect_def bs')
  have x: "x \<in> set bs'" "12 < length bs' \<Longrightarrow> di_addrs din' ! 12 \<noteq> x" using D bs' by (auto simp: own_ok_def)
  have "file_is (img ?t) (di_addrs din') bs' (F @ q)" unfolding file_is_def
  proof (intro conjI)
    show "has_blocks (img ?t) (di_addrs din') bs'" using D x(2) has_blocks_cong[of bs' "img ?t" "di_addrs din'" "img s'"] by (simp add: wsect_def)
    show "length bs' = blocks_for (length (F @ q))" using blocks_for_step(1)[OF q(1,2)] lb by simp
  qed (use D W in auto)
  moreover have xs: "x < freeblock s'"
  proof -
    have "x \<in> own (di_addrs din') bs'" using x(1) by (simp add: own_def)
    moreover have "own (di_addrs din') bs' \<subseteq> handed_out s'" using D o by blast
    ultimately show ?thesis by (auto simp: handed_out_def)
  qed
  moreover have "stock n ?t"
  proof -
    have "length (patch ?r q (img s' x)) = 1024" using patch_length[of ?r q "img s' x"] q(2) len by simp
    then show ?thesis using D xs by (auto simp: stock_def wsect_def)
  qed
  ultimately have "appended din bs s (F @ q) n din' bs' ?t"
    unfolding appended_def using D x(1) by (auto simp: wsect_def handed_out_def own_def)
  moreover have "rsect x s' = Ok (img s' x)" if "unat (freeblock s') \<le> FSSIZE"
    using that xs by (simp add: rsect_def word_less_nat_alt)
  ultimately show ?thesis using d(1) unfolding x_def by blast
qed

lemma handed_mono: "handed_out s \<subseteq> handed_out t \<Longrightarrow> stock n t \<Longrightarrow> unat (freeblock s) \<le> unat (freeblock t)"
proof (rule ccontr)
  assume h: "handed_out s \<subseteq> handed_out t" "stock n t" and "\<not> unat (freeblock s) \<le> unat (freeblock t)"
  then have "freeblock t \<in> handed_out s" by (auto simp: handed_out_def stock_def word_less_nat_alt)
  then show False using h by (auto simp: handed_out_def)
qed

lemma appended_mono: "appended din bs s F n din' bs' s' \<Longrightarrow> unat (freeblock s) \<le> unat (freeblock s')"
  unfolding appended_def using handed_mono by blast

lemma iappend_loop_ok:
  assumes "file_is (img s) (di_addrs din) bs F" "own (di_addrs din) bs \<subseteq> handed_out s" "stock (n + 2 * length p) s"
    and "length F + length p \<le> 268 * 1024"
  shows "\<exists>din' bs' s'. (unat (freeblock s') \<le> FSSIZE \<longrightarrow> iappend_loop p (length F) din s = Ok (length F + length p, din', s')) \<and> appended din bs s (F @ p) n din' bs' s'"
  using assms
proof (induction "length p" arbitrary: p din bs s F rule: less_induct)
  case less
  let ?k = "length F div 1024" and ?r = "length F mod 1024"
  show ?case
  proof (cases "p = []")
    case True
    have "stock n s" using less.prems(3) by (rule stock_less) simp
    then show ?thesis using True less.prems by (intro exI[of _ din] exI[of _ bs] exI[of _ s], subst iappend_loop.simps) (simp add: appended_def)
  next
    case False
    define n1 where "n1 = min (length p) ((?k + 1) * 1024 - length F)"
    define q where "q = take n1 p"
    have e: "length F = 1024 * ?k + ?r" "?r < 1024" by simp_all
    have off: "length F - ?k * 1024 = ?r" using e by linarith
    have lq: "length q = n1" "0 < n1" "?r + n1 \<le> 1024" "n1 \<le> length p" using False e off unfolding q_def n1_def by auto
    have k: "?k < 268"
    proof -
      have "0 < length p" using False by simp
      then have "1024 * ?k < 1024 * 268" using e less.prems(4) by linarith
      then show ?thesis by simp
    qed
    have "stock (n + 2 * (length p - n1) + 2) s" using less.prems(3) by (rule stock_less) (use lq in linarith)
    then obtain x din1 bs1 s1 where d: "unat (freeblock s1) \<le> FSSIZE \<longrightarrow> data_block ?k din s = Ok (x, din1, s1) \<and> rsect x s1 = Ok (img s1 x)"
      "appended din bs s (F @ q) (n + 2 * (length p - n1)) din1 bs1 (wsect x (patch ?r q (img s1 x)) s1)"
      using iappend_round[OF less.prems(1,2), of "n + 2 * (length p - n1)" q] lq k by auto
    let ?t = "wsect x (patch ?r q (img s1 x)) s1"
    note A = d(2)[unfolded appended_def]
    have "own (di_addrs din1) bs1 \<subseteq> handed_out ?t" using A less.prems(2) by blast
    moreover have "stock (n + 2 * length (drop n1 p)) ?t" using A by simp
    ultimately have "\<exists>din' bs' s'. (unat (freeblock s') \<le> FSSIZE \<longrightarrow>
        iappend_loop (drop n1 p) (length (F @ q)) din1 ?t = Ok (length (F @ q) + length (drop n1 p), din', s')) \<and>
      appended din1 bs1 ?t ((F @ q) @ drop n1 p) n din' bs' s'"
      by (intro less.hyps) (use A lq less.prems(4) in \<open>simp_all del: append_assoc\<close>)
    then obtain din2 bs2 s2 where r: "unat (freeblock s2) \<le> FSSIZE \<longrightarrow> iappend_loop (drop n1 p) (length (F @ q)) din1 ?t = Ok (length (F @ q) + length (drop n1 p), din2, s2)"
      "appended din1 bs1 ?t ((F @ q) @ drop n1 p) n din2 bs2 s2" by blast
    have "appended din bs s (F @ p) n din2 bs2 s2" using appended_trans[OF d(2) r(2)] by (simp add: q_def)
    moreover have "iappend_loop p (length F) din s = Ok (length F + length p, din2, s2)" if fits: "unat (freeblock s2) \<le> FSSIZE"
    proof -
      have "unat (freeblock s1) \<le> FSSIZE" using appended_mono[OF r(2)] fits by (simp add: wsect_def)
      then have "data_block ?k din s = Ok (x, din1, s1)" "rsect x s1 = Ok (img s1 x)" using d(1) by auto
      then have "iappend_loop p (length F) din s = iappend_loop (drop n1 p) (length F + n1) din1 ?t"
        using False k by (subst iappend_loop.simps) (simp add: Let_def n1_def q_def off)
      then show ?thesis using r(1) lq fits by simp
    qed
    ultimately show ?thesis by (intro exI[of _ din2] exI[of _ bs2] exI[of _ s2]) simp
  qed
qed


section \<open>The image as a whole\<close>

text \<open>
  The inode \<open>i\<close> has the data blocks \<open>B i\<close> and the bytes \<open>F i\<close>; no two inodes share a block, the blocks that were given out
  are just those of the inodes after the first ones, and the others are blank.
\<close>

definition inums :: "mkfs_st \<Rightarrow> 32 word set" where
  "inums s = {i. 1 \<le> i \<and> i < freeinode s}"

definition inode_of :: "mkfs_st \<Rightarrow> 32 word \<Rightarrow> dinode" where
  "inode_of s i = inode_on (img s) mk_sb i"

definition image_ok :: "nat \<Rightarrow> mkfs_st \<Rightarrow> (32 word \<Rightarrow> 32 word list) \<Rightarrow> (32 word \<Rightarrow> byte list) \<Rightarrow> bool" where
  "image_ok n s B F \<longleftrightarrow> stock n s \<and> nmeta \<le> unat (freeblock s) \<and> 1 \<le> freeinode s \<and> unat (freeinode s) \<le> NINODES \<and>
     (\<forall>i \<in> inums s. length (F i) \<le> 268 * 1024 \<and> di_size (inode_of s i) = of_nat (length (F i)) \<and>
        file_is (img s) (di_addrs (inode_of s i)) (B i) (F i) \<and>
        own (di_addrs (inode_of s i)) (B i) \<subseteq> {b. nmeta \<le> unat b \<and> b < freeblock s}) \<and>
     (\<forall>i \<in> inums s. \<forall>j \<in> inums s. i \<noteq> j \<longrightarrow>
        own (di_addrs (inode_of s i)) (B i) \<inter> own (di_addrs (inode_of s j)) (B j) = {}) \<and>
     unat (freeblock s) = nmeta + (\<Sum>i \<in> inums s. cost (B i)) \<and> img s 1 = super_bytes"

lemma meta_values: "nlog = 31" "ninodeblocks = 13" "nbitmap = 1" "nmeta = 47"
  by (simp_all add: nlog_def ninodeblocks_def nbitmap_def nmeta_def NINODES_def FSSIZE_def LOGBLOCKS_def)

lemma mk_sb_values: "sb_inodestart mk_sb = 33" "sb_bmapstart mk_sb = 46" "sb_size mk_sb = 2000" "sb_ninodes mk_sb = 200"
  by (simp_all add: mk_sb_def meta_values FSSIZE_def NINODES_def)

text \<open>The kernel accepts the super block.\<close>

lemma mk_sb_ok: "sb_ok mk_sb"
  by (simp add: sb_ok_def mk_sb_values)

lemma inode_block: "unat i \<le> NINODES \<Longrightarrow> 33 \<le> unat (IBLOCK i mk_sb) \<and> unat (IBLOCK i mk_sb) < 46"
proof -
  assume i: "unat i \<le> NINODES"
  have "unat i div 16 \<le> 200 div 16" using i by (intro div_le_mono) (simp add: NINODES_def)
  then have d: "unat (i div 16) \<le> 12" by (simp add: unat_div_distrib)
  then have "unat (IBLOCK i mk_sb) = unat (i div 16) + 33" by (simp add: IBLOCK_def mk_sb_values unat_word_ariths)
  with d show ?thesis by simp
qed

lemma inode_block_in_image: "unat i < 31000 \<Longrightarrow> unat (IBLOCK i mk_sb) < FSSIZE"
proof -
  assume "unat i < 31000"
  then have "unat i div 16 < 1938" by (intro less_mult_imp_div_less) simp
  then have "unat (i div 16) < 1938" by (simp add: unat_div_distrib)
  then show ?thesis by (simp add: IBLOCK_def mk_sb_values unat_word_ariths FSSIZE_def)
qed

lemma not_super: "unat i \<le> NINODES \<Longrightarrow> IBLOCK i mk_sb \<noteq> 1"
  using inode_block[of i] by auto

text \<open>The inodes in the blocks for them, after one of them is stored.\<close>

lemma inode_of_winode:
  assumes "length (img s (IBLOCK i mk_sb)) = 1024" "length (di_addrs di) = 13"
  shows "inode_of (winode i di s) j = (if j = i then di else inode_of s j)"
  using inode_on_with[of "img s" i mk_sb di j] assms by (simp add: inode_of_def winode_def wsect_def Let_def with_inode_def)

lemma winode_img: "b \<noteq> IBLOCK i mk_sb \<Longrightarrow> img (winode i di s) b = img s b"
  by (simp add: winode_def wsect_def Let_def)

lemma winode_simps [simp]: "freeblock (winode i di s) = freeblock s" "freeinode (winode i di s) = freeinode s"
  by (simp_all add: winode_def wsect_def Let_def)

lemma stock_winode:
  assumes "stock n s" "IBLOCK i mk_sb < freeblock s" shows "stock n (winode i di s)"
  using assms by (auto simp: stock_def winode_def wsect_def Let_def)

lemma inode_of_same: "img t (IBLOCK i mk_sb) = img s (IBLOCK i mk_sb) \<Longrightarrow> inode_of t i = inode_of s i"
  by (simp add: inode_of_def inode_on_def)

lemma iappend_ok:
  assumes ok: "image_ok (n + 2 * length p) s B F" and i: "i \<in> inums s" and fits: "length (F i) + length p \<le> 268 * 1024"
  shows "\<exists>bs t. (unat (freeblock t) \<le> FSSIZE \<longrightarrow> iappend i p s = Ok t) \<and> freeblock s \<le> freeblock t \<and> image_ok n t (B(i := bs)) (F(i := F i @ p)) \<and> freeinode t = freeinode s \<and>
    (\<forall>j \<in> inums s. di_type (inode_of t j) = di_type (inode_of s j))"
proof -
  note O = ok[unfolded image_ok_def]
  let ?di = "inode_of s i"
  have fi: "file_is (img s) (di_addrs ?di) (B i) (F i)" "own (di_addrs ?di) (B i) \<subseteq> {b. nmeta \<le> unat b \<and> b < freeblock s}"
    "di_size ?di = of_nat (length (F i))" using O i by auto
  have ow: "own (di_addrs ?di) (B i) \<subseteq> handed_out s"
    using fi(2) by (auto simp: handed_out_def meta_values word_less_nat_alt)
  obtain din' bs s' where l: "unat (freeblock s') \<le> FSSIZE \<longrightarrow> iappend_loop p (length (F i)) ?di s = Ok (length (F i) + length p, din', s')"
    "appended ?di (B i) s (F i @ p) n din' bs s'"
    using iappend_loop_ok[OF fi(1) ow conjunct1[OF O] fits] by blast
  note A = l(2)[unfolded appended_def]
  have sz: "unat (di_size ?di) = length (F i)" using fits by (simp add: fi(3) unat_of_nat take_bit_eq_mod)
  let ?dn = "din'\<lparr>di_size := of_nat (length (F i) + length p)\<rparr>"
  let ?t = "winode i ?dn s'"
  have r: "unat (freeblock ?t) \<le> FSSIZE \<longrightarrow> iappend i p s = Ok ?t"
    using l(1) sz by (simp add: iappend_def rinode_def inode_of_def inode_on_def)
  have own': "own (di_addrs din') bs \<subseteq> {b. nmeta \<le> unat b \<and> b < freeblock s'}"
  proof
    fix b assume "b \<in> own (di_addrs din') bs"
    then have "b \<in> own (di_addrs ?di) (B i) \<or> b \<in> handed_out s' - handed_out s" using A by blast
    then show "b \<in> {b. nmeta \<le> unat b \<and> b < freeblock s'}"
      using fi(2) A O ow by (auto simp: handed_out_def word_less_nat_alt)
  qed
  have ib: "IBLOCK j mk_sb \<notin> own (di_addrs din') bs" "unat (IBLOCK j mk_sb) < nmeta" if "j \<in> inums s" for j
  proof -
    have "unat j \<le> NINODES" using that O by (auto simp: inums_def word_less_nat_alt)
    then show "unat (IBLOCK j mk_sb) < nmeta" using inode_block[of j] by (simp add: meta_values)
    then show "IBLOCK j mk_sb \<notin> own (di_addrs din') bs" using own' by auto
  qed
  have len: "length (img s' (IBLOCK i mk_sb)) = 1024" using A by (simp add: stock_def)
  have l13: "length (di_addrs ?dn) = 13" using A by (simp add: file_is_def has_blocks_def)
  have ino: "inode_of ?t j = (if j = i then ?dn else inode_of s j)" if "j \<in> inums s" for j
    using inode_of_winode[OF len l13, of j] inode_of_same[of s' j s] A ib(1)[OF that] by auto
  have iu: "inums ?t = inums s" using A by (simp add: inums_def)
  have img_t: "img ?t b = img s' b" if "nmeta \<le> unat b" for b
    using that ib(2)[OF i] by (intro winode_img) auto
  have fb: "freeblock s \<le> freeblock s'" using appended_mono[OF l(2)] by (simp add: word_le_nat_alt)
  have other: "own (di_addrs (inode_of s j)) (B j) \<inter> own (di_addrs din') bs = {}" "file_is (img ?t) (di_addrs (inode_of s j)) (B j) (F j)"
    if j: "j \<in> inums s" "j \<noteq> i" for j
  proof -
    have oj: "own (di_addrs (inode_of s j)) (B j) \<subseteq> {b. nmeta \<le> unat b \<and> b < freeblock s}" "file_is (img s) (di_addrs (inode_of s j)) (B j) (F j)"
      "own (di_addrs (inode_of s j)) (B j) \<inter> own (di_addrs ?di) (B i) = {}" using O i j by auto
    then have "own (di_addrs (inode_of s j)) (B j) \<subseteq> handed_out s" by (auto simp: handed_out_def meta_values word_less_nat_alt)
    then show d: "own (di_addrs (inode_of s j)) (B j) \<inter> own (di_addrs din') bs = {}" using A oj(3) by blast
    show "file_is (img ?t) (di_addrs (inode_of s j)) (B j) (F j)"
    proof (rule file_is_frame[OF oj(2)])
      fix b assume b: "b \<in> own (di_addrs (inode_of s j)) (B j)"
      then have "img s' b = img s b" using A d by blast
      then show "img ?t b = img s b" using img_t b oj(1) by auto
    qed
  qed
  have file_i: "file_is (img ?t) (di_addrs din') bs (F i @ p)"
    by (rule file_is_frame[of "img s'"]) (use A own' img_t in auto)
  have sum: "unat (freeblock s') = nmeta + (\<Sum>j \<in> inums s. cost ((B(i := bs)) j))"
  proof -
    have fin: "finite (inums s)" by simp
    have "(\<Sum>j \<in> inums s. cost (B j)) = cost (B i) + (\<Sum>j \<in> inums s - {i}. cost (B j))"
      by (rule sum.remove[OF fin i])
    moreover have "(\<Sum>j \<in> inums s. cost ((B(i := bs)) j)) = cost bs + (\<Sum>j \<in> inums s - {i}. cost ((B(i := bs)) j))"
      using sum.remove[OF fin i, of "\<lambda>j. cost ((B(i := bs)) j)"] by simp
    moreover have "(\<Sum>j \<in> inums s - {i}. cost ((B(i := bs)) j)) = (\<Sum>j \<in> inums s - {i}. cost (B j))" by (rule sum.cong) auto
    ultimately show ?thesis using A O by simp
  qed
  have "stock n ?t" using A ib(2)[OF i] O fb by (intro stock_winode) (auto simp: word_less_nat_alt word_le_nat_alt)
  moreover have "\<forall>j \<in> inums s. length ((F(i := F i @ p)) j) \<le> 268 * 1024 \<and> di_size (inode_of ?t j) = of_nat (length ((F(i := F i @ p)) j)) \<and>
        file_is (img ?t) (di_addrs (inode_of ?t j)) ((B(i := bs)) j) ((F(i := F i @ p)) j) \<and>
        own (di_addrs (inode_of ?t j)) ((B(i := bs)) j) \<subseteq> {b. nmeta \<le> unat b \<and> b < freeblock s'}"
  proof
    fix j assume j: "j \<in> inums s"
    show "length ((F(i := F i @ p)) j) \<le> 268 * 1024 \<and> di_size (inode_of ?t j) = of_nat (length ((F(i := F i @ p)) j)) \<and>
        file_is (img ?t) (di_addrs (inode_of ?t j)) ((B(i := bs)) j) ((F(i := F i @ p)) j) \<and>
        own (di_addrs (inode_of ?t j)) ((B(i := bs)) j) \<subseteq> {b. nmeta \<le> unat b \<and> b < freeblock s'}"
    proof (cases "j = i")
      case True
      have "di_addrs (inode_of ?t j) = di_addrs din'" "di_size (inode_of ?t j) = of_nat (length (F i) + length p)"
        using ino[OF j] True by simp_all
      then show ?thesis using True file_i own' fits by simp
    next
      case False
      have "inode_of ?t j = inode_of s j" using ino[OF j] False by simp
      moreover have "own (di_addrs (inode_of s j)) (B j) \<subseteq> {b. nmeta \<le> unat b \<and> b < freeblock s'}" using O j fb by fastforce
      ultimately show ?thesis using False other(2)[OF j False] O j by simp
    qed
  qed
  moreover have "\<forall>j \<in> inums s. \<forall>k \<in> inums s. j \<noteq> k \<longrightarrow>
      own (di_addrs (inode_of ?t j)) ((B(i := bs)) j) \<inter> own (di_addrs (inode_of ?t k)) ((B(i := bs)) k) = {}"
  proof (intro ballI impI)
    fix j k assume jk: "j \<in> inums s" "k \<in> inums s" "j \<noteq> k"
    show "own (di_addrs (inode_of ?t j)) ((B(i := bs)) j) \<inter> own (di_addrs (inode_of ?t k)) ((B(i := bs)) k) = {}"
      using ino[OF jk(1)] ino[OF jk(2)] other(1)[OF jk(1)] other(1)[OF jk(2)] O jk by (cases "j = i"; cases "k = i") auto
  qed
  moreover have "nmeta \<le> unat (freeblock s')" using O fb by (simp add: word_le_nat_alt)
  moreover have "img ?t 1 = super_bytes"
  proof -
    have "1 \<notin> own (di_addrs din') bs" using own' by (auto simp: meta_values)
    moreover have "1 \<noteq> IBLOCK i mk_sb" using not_super[of i] i O by (auto simp: inums_def word_less_nat_alt)
    ultimately show ?thesis using A O winode_img[of 1 i ?dn s'] by simp
  qed
  ultimately have "image_ok n ?t (B(i := bs)) (F(i := F i @ p))"
    unfolding image_ok_def iu using O A sum by simp
  moreover have "di_type ?dn = di_type ?di"
  proof -
    have "din' = ?di\<lparr>di_addrs := di_addrs din'\<rparr>" using A by blast
    then show ?thesis by (metis dinode.simps(13) dinode.surjective dinode.update_convs(5,6) dinode.select_convs(1))
  qed
  then have "di_type (inode_of ?t j) = di_type (inode_of s j)" if "j \<in> inums s" for j using ino[OF that] by simp
  ultimately show ?thesis using r A fb by (intro exI[of _ bs] exI[of _ ?t]) simp
qed


section \<open>Building the file system\<close>

lemma mk_ialloc_ok:
  assumes ok: "image_ok n s B F" and room: "unat (freeinode s) < NINODES"
  shows "\<exists>t. mk_ialloc ty s = (freeinode s, t) \<and> freeblock t = freeblock s \<and> image_ok n t (B(freeinode s := [])) (F(freeinode s := [])) \<and>
    unat (freeinode t) = unat (freeinode s) + 1 \<and> inums t = insert (freeinode s) (inums s) \<and> freeinode s \<notin> inums s \<and>
    (\<forall>j \<in> inums t. di_type (inode_of t j) = (if j = freeinode s then ty else di_type (inode_of s j)))"
proof -
  note O = ok[unfolded image_ok_def]
  let ?i = "freeinode s" and ?s = "s\<lparr>freeinode := freeinode s + 1\<rparr>"
  define din where "din = \<lparr>di_type = ty, di_major = 0, di_minor = 0, di_nlink = 1, di_size = 0, di_addrs = replicate 13 (0 :: 32 word)\<rparr>"
  define t where "t = winode ?i din ?s"
  have m: "mk_ialloc ty s = (?i, t)" by (simp add: mk_ialloc_def t_def din_def Let_def)
  have u: "unat (?i + 1) = unat ?i + 1" using room by (simp add: unat_word_ariths NINODES_def)
  have iu: "inums t = insert ?i (inums s)" "?i \<notin> inums s"
    using u O by (auto simp: inums_def t_def word_less_nat_alt word_le_nat_alt word_unat_eq_iff)
  have len: "length (img ?s (IBLOCK ?i mk_sb)) = 1024" "length (di_addrs din) = 13" using O by (simp_all add: stock_def din_def)
  have ino: "inode_of t j = (if j = ?i then din else inode_of s j)" for j
    using inode_of_winode[OF len, of j] by (simp add: t_def inode_of_def)
  have ib: "unat (IBLOCK ?i mk_sb) < 46" using inode_block[of ?i] room by simp
  have img_t: "img t b = img s b" if "nmeta \<le> unat b" for b
    using that ib winode_img[of b ?i din ?s] by (force simp: t_def meta_values)
  have fb: "freeblock t = freeblock s" by (simp add: t_def)
  have new: "file_is (img t) (di_addrs din) [] []"
    by (simp add: file_is_def has_blocks_def own_ok_def blocks_for_def din_def nth_append)
  have filej: "file_is (img t) (di_addrs (inode_of s j)) (B j) (F j)" if j: "j \<in> inums s" for j
  proof (rule file_is_frame)
    show "file_is (img s) (di_addrs (inode_of s j)) (B j) (F j)" using O j by blast
    fix b assume "b \<in> own (di_addrs (inode_of s j)) (B j)"
    then have "nmeta \<le> unat b" using O j by blast
    then show "img t b = img s b" by (rule img_t)
  qed
  have oN: "own (di_addrs din) [] = {}" by (simp add: own_def)
  have st: "stock n t"
  proof -
    have "stock n ?s" using O by (simp add: stock_def)
    then show ?thesis unfolding t_def by (rule stock_winode) (use O ib in \<open>simp add: word_less_nat_alt meta_values\<close>)
  qed
  have each: "\<forall>j \<in> inums t. length ((F(?i := [])) j) \<le> 268 * 1024 \<and> di_size (inode_of t j) = of_nat (length ((F(?i := [])) j)) \<and>
        file_is (img t) (di_addrs (inode_of t j)) ((B(?i := [])) j) ((F(?i := [])) j) \<and>
        own (di_addrs (inode_of t j)) ((B(?i := [])) j) \<subseteq> {b. nmeta \<le> unat b \<and> b < freeblock t}"
  proof
    fix j assume "j \<in> inums t"
    then show "length ((F(?i := [])) j) \<le> 268 * 1024 \<and> di_size (inode_of t j) = of_nat (length ((F(?i := [])) j)) \<and>
        file_is (img t) (di_addrs (inode_of t j)) ((B(?i := [])) j) ((F(?i := [])) j) \<and>
        own (di_addrs (inode_of t j)) ((B(?i := [])) j) \<subseteq> {b. nmeta \<le> unat b \<and> b < freeblock t}"
      using O filej[of j] new oN iu by (cases "j = ?i") (auto simp: ino fb din_def)
  qed
  have disj: "\<forall>j \<in> inums t. \<forall>k \<in> inums t. j \<noteq> k \<longrightarrow>
      own (di_addrs (inode_of t j)) ((B(?i := [])) j) \<inter> own (di_addrs (inode_of t k)) ((B(?i := [])) k) = {}"
  proof (intro ballI impI)
    fix j k assume "j \<in> inums t" "k \<in> inums t" "j \<noteq> k"
    then show "own (di_addrs (inode_of t j)) ((B(?i := [])) j) \<inter> own (di_addrs (inode_of t k)) ((B(?i := [])) k) = {}"
      using O oN iu by (cases "j = ?i"; cases "k = ?i") (auto simp: ino)
  qed
  have "(\<Sum>j \<in> inums t. cost ((B(?i := [])) j)) = (\<Sum>j \<in> inums s. cost (B j))"
    unfolding iu(1) using iu(2) by (simp add: cost_def) (intro sum.cong, auto)
  moreover have "img t 1 = super_bytes"
    using O not_super[of ?i] room winode_img[of 1 ?i din ?s] by (auto simp: t_def)
  ultimately have "image_ok n t (B(?i := [])) (F(?i := []))"
    unfolding image_ok_def using O st each disj u room by (simp add: fb) (simp add: t_def word_le_nat_alt)
  moreover have "\<forall>j \<in> inums t. di_type (inode_of t j) = (if j = ?i then ty else di_type (inode_of s j))" by (simp add: ino din_def)
  moreover have "unat (freeinode t) = unat ?i + 1" using u by (simp add: t_def)
  ultimately show ?thesis using m iu fb by blast
qed

lemma append_all_ok:
  assumes "image_ok (n + 2 * length (concat ps)) s B F" "i \<in> inums s" "length (F i) + length (concat ps) \<le> 268 * 1024" "[] \<notin> set ps"
  shows "\<exists>bs t. (unat (freeblock t) \<le> FSSIZE \<longrightarrow> append_all i ps s = Ok t) \<and> freeblock s \<le> freeblock t \<and> image_ok n t (B(i := bs)) (F(i := F i @ concat ps)) \<and> freeinode t = freeinode s \<and>
    (\<forall>j \<in> inums s. di_type (inode_of t j) = di_type (inode_of s j))"
  using assms
proof (induction ps arbitrary: s B F)
  case Nil
  then show ?case by (intro exI[of _ "B i"] exI[of _ s]) (simp add: fun_upd_triv)
next
  case (Cons p ps)
  have n: "n + 2 * length (concat (p # ps)) = n + 2 * length (concat ps) + 2 * length p" by simp
  obtain bs t where t: "unat (freeblock t) \<le> FSSIZE \<longrightarrow> iappend i p s = Ok t" "freeblock s \<le> freeblock t" "image_ok (n + 2 * length (concat ps)) t (B(i := bs)) (F(i := F i @ p))"
    "freeinode t = freeinode s" "\<forall>j \<in> inums s. di_type (inode_of t j) = di_type (inode_of s j)"
    using iappend_ok[OF Cons.prems(1)[unfolded n] Cons.prems(2)] Cons.prems(3) by auto
  have iu: "inums t = inums s" using t(4) by (simp add: inums_def)
  have "\<exists>bs' u. (unat (freeblock u) \<le> FSSIZE \<longrightarrow> append_all i ps t = Ok u) \<and> freeblock t \<le> freeblock u \<and> image_ok n u ((B(i := bs))(i := bs')) ((F(i := F i @ p))(i := (F(i := F i @ p)) i @ concat ps)) \<and>
    freeinode u = freeinode t \<and> (\<forall>j \<in> inums t. di_type (inode_of u j) = di_type (inode_of t j))"
    by (rule Cons.IH[OF t(3)]) (use Cons.prems iu in auto)
  then obtain bs' u where u: "unat (freeblock u) \<le> FSSIZE \<longrightarrow> append_all i ps t = Ok u" "freeblock t \<le> freeblock u" "image_ok n u (B(i := bs')) (F(i := F i @ concat (p # ps)))"
    "freeinode u = freeinode t" "\<forall>j \<in> inums t. di_type (inode_of u j) = di_type (inode_of t j)" by auto
  have "append_all i (p # ps) s = Ok u" if "unat (freeblock u) \<le> FSSIZE"
  proof -
    have "unat (freeblock t) \<le> FSSIZE" using that u(2) by (simp add: word_le_nat_alt)
    then show ?thesis using that t(1) u(1) Cons.prems(4) by auto
  qed
  moreover have "freeblock s \<le> freeblock u" using t(2) u(2) by (rule order_trans)
  ultimately show ?case using t u iu by (intro exI[of _ bs'] exI[of _ u]) (auto simp del: fun_upd_apply append_all.simps)
qed


text \<open>The files that can be put in, with the names and bytes they get.\<close>

definition good_file :: "mk_file \<Rightarrow> bool" where
  "good_file f \<longleftrightarrow> (\<exists>n ps. short_name (fst f) = Ok n \<and> length (disk_name n) \<le> DIRSIZ \<and> snd f = Some ps \<and> [] \<notin> set ps \<and>
     length (concat ps) \<le> 268 * 1024)"

definition file_name :: "mk_file \<Rightarrow> byte list" where
  "file_name f = (case short_name (fst f) of Ok n \<Rightarrow> disk_name n | _ \<Rightarrow> [])"

definition file_data :: "mk_file \<Rightarrow> byte list" where
  "file_data f = (case snd f of Some ps \<Rightarrow> concat ps | None \<Rightarrow> [])"

lemma length_mk_dirent: "length (mk_dirent i n) = 16"
proof -
  have "length (strncpy_bytes k n) = k" for k by (induction k arbitrary: n) auto
  then show ?thesis by (simp add: mk_dirent_def put_dirent_def DIRSIZ_def)
qed

lemma add_file_ok:
  assumes ok: "image_ok (n + 2 * (16 + length (file_data f))) s B F" and r: "1 \<in> inums s" and f: "good_file f"
    and room: "unat (freeinode s) < NINODES" "length (F 1) + 16 \<le> 268 * 1024"
  shows "\<exists>B' t. (unat (freeblock t) \<le> FSSIZE \<longrightarrow> add_file 1 f s = Ok t) \<and> freeblock s \<le> freeblock t \<and>
    image_ok n t B' (F(1 := F 1 @ mk_dirent (freeinode s) (file_name f), freeinode s := file_data f)) \<and>
    unat (freeinode t) = unat (freeinode s) + 1 \<and> inums t = insert (freeinode s) (inums s) \<and> freeinode s \<notin> inums s \<and>
    (\<forall>j \<in> inums t. di_type (inode_of t j) = (if j = freeinode s then T_FILE else di_type (inode_of s j)))"
proof -
  let ?i = "freeinode s"
  obtain nm ps where g: "short_name (fst f) = Ok nm" "length (disk_name nm) \<le> DIRSIZ" "snd f = Some ps" "[] \<notin> set ps" "length (concat ps) \<le> 268 * 1024"
    using f by (auto simp: good_file_def)
  have d: "file_data f = concat ps" "file_name f = disk_name nm" using g by (simp_all add: file_data_def file_name_def)
  obtain t1 where t1: "mk_ialloc T_FILE s = (?i, t1) \<and> freeblock t1 = freeblock s" "image_ok (n + 2 * (16 + length (file_data f))) t1 (B(?i := [])) (F(?i := []))"
    "unat (freeinode t1) = unat ?i + 1" "inums t1 = insert ?i (inums s)" "?i \<notin> inums s"
    "\<forall>j \<in> inums t1. di_type (inode_of t1 j) = (if j = ?i then T_FILE else di_type (inode_of s j))"
    using mk_ialloc_ok[OF ok room(1), of T_FILE] by blast
  have ne: "?i \<noteq> 1" using t1(5) r by auto
  let ?de = "mk_dirent ?i (disk_name nm)"
  have n: "n + 2 * (16 + length (file_data f)) = n + 2 * length (concat ps) + 2 * length ?de" by (simp add: d length_mk_dirent)
  have "1 \<in> inums t1" using r t1(4) by simp
  moreover have "length ((F(?i := [])) 1) + length ?de \<le> 268 * 1024" using room(2) ne by (simp add: length_mk_dirent)
  ultimately obtain bs t2 where t2: "(unat (freeblock t2) \<le> FSSIZE \<longrightarrow> iappend 1 ?de t1 = Ok t2) \<and> freeblock t1 \<le> freeblock t2"
    "image_ok (n + 2 * length (concat ps)) t2 ((B(?i := []))(1 := bs)) ((F(?i := []))(1 := (F(?i := [])) 1 @ ?de))"
    "freeinode t2 = freeinode t1" "\<forall>j \<in> inums t1. di_type (inode_of t2 j) = di_type (inode_of t1 j)"
    using iappend_ok[OF t1(2)[unfolded n]] by blast
  have iu: "inums t2 = inums t1" using t2(3) by (simp add: inums_def)
  let ?F = "(F(?i := []))(1 := (F(?i := [])) 1 @ ?de)"
  have Fi: "?F ?i = []" using ne by simp
  obtain bs' t3 where t3: "(unat (freeblock t3) \<le> FSSIZE \<longrightarrow> append_all ?i ps t2 = Ok t3) \<and> freeblock t2 \<le> freeblock t3" "image_ok n t3 (((B(?i := []))(1 := bs))(?i := bs')) (?F(?i := ?F ?i @ concat ps))"
    "freeinode t3 = freeinode t2" "\<forall>j \<in> inums t2. di_type (inode_of t3 j) = di_type (inode_of t2 j)"
    using append_all_ok[OF t2(2), of ?i] Fi g(4,5) iu t1(4) by auto
  have F3: "?F(?i := ?F ?i @ concat ps) = F(1 := F 1 @ ?de, ?i := concat ps)" using ne by (auto simp: fun_eq_iff)
  have "add_file 1 f s = Ok t3" if "unat (freeblock t3) \<le> FSSIZE"
  proof -
    have "unat (freeblock t2) \<le> FSSIZE" using that t3(1) by (simp add: word_le_nat_alt)
    then show ?thesis using g t1(1) t2(1) t3(1) that by (simp add: add_file_def Let_def)
  qed
  moreover have "freeblock s \<le> freeblock t3" using t1(1) t2(1) t3(1) by (metis order_trans)
  moreover have iu3: "inums t3 = inums t1" using t3(3) t2(3) by (simp add: inums_def)
  moreover have "\<forall>j \<in> inums t3. di_type (inode_of t3 j) = (if j = ?i then T_FILE else di_type (inode_of s j))"
    unfolding iu3 using t1(6) t2(4) t3(4) iu by metis
  ultimately show ?thesis using t3(2)[unfolded F3] t1(3-5) t2(3) t3(3) d iu3 by metis
qed

definition need :: "mk_file list \<Rightarrow> nat" where
  "need fs = (\<Sum>f\<leftarrow>fs. 2 * (16 + length (file_data f)))"

definition dirents_of :: "32 word \<Rightarrow> mk_file list \<Rightarrow> byte list" where
  "dirents_of i fs = concat (map (\<lambda>k. mk_dirent (i + of_nat k) (file_name (fs ! k))) [0..<length fs])"

lemma dirents_of_Cons: "dirents_of i (f # fs) = mk_dirent i (file_name f) @ dirents_of (i + 1) fs"
  unfolding dirents_of_def length_Cons upt_conv_Cons[OF zero_less_Suc] map_Suc_upt[symmetric]
  by (simp add: comp_def add.assoc)

lemma length_dirents_of: "length (dirents_of i fs) = 16 * length fs"
  by (induction fs arbitrary: i) (simp_all add: dirents_of_Cons length_mk_dirent, simp add: dirents_of_def)

lemma add_files_ok:
  assumes "image_ok (n + need fs) s B F" "1 \<in> inums s" "\<forall>f \<in> set fs. good_file f"
    and "unat (freeinode s) + length fs \<le> NINODES" "length (F 1) + 16 * length fs \<le> 268 * 1024"
  shows "\<exists>B' F' t. (unat (freeblock t) \<le> FSSIZE \<longrightarrow> add_files 1 fs s = Ok t) \<and> freeblock s \<le> freeblock t \<and> image_ok n t B' F' \<and> unat (freeinode t) = unat (freeinode s) + length fs \<and>
    F' 1 = F 1 @ dirents_of (freeinode s) fs \<and> (\<forall>k < length fs. F' (freeinode s + of_nat k) = file_data (fs ! k)) \<and>
    (\<forall>k < length fs. di_type (inode_of t (freeinode s + of_nat k)) = T_FILE) \<and>
    (\<forall>j \<in> inums s. di_type (inode_of t j) = di_type (inode_of s j)) \<and> (\<forall>j \<in> inums s. j \<noteq> 1 \<longrightarrow> F' j = F j)"
  using assms
proof (induction fs arbitrary: s B F)
  case Nil
  then show ?case by (intro exI[of _ B] exI[of _ F] exI[of _ s]) (simp add: need_def dirents_of_def)
next
  case (Cons f fs)
  let ?i = "freeinode s"
  have n: "n + need (f # fs) = n + need fs + 2 * (16 + length (file_data f))" by (simp add: need_def)
  let ?F = "F(1 := F 1 @ mk_dirent ?i (file_name f), ?i := file_data f)"
  have room: "good_file f" "unat ?i < NINODES" "length (F 1) + 16 \<le> 268 * 1024" using Cons.prems(3-5) by auto
  obtain B1 t1 where t1: "(unat (freeblock t1) \<le> FSSIZE \<longrightarrow> add_file 1 f s = Ok t1) \<and> freeblock s \<le> freeblock t1" "image_ok (n + need fs) t1 B1 ?F" "unat (freeinode t1) = unat ?i + 1"
    "inums t1 = insert ?i (inums s)" "?i \<notin> inums s" "\<forall>j \<in> inums t1. di_type (inode_of t1 j) = (if j = ?i then T_FILE else di_type (inode_of s j))"
    using add_file_ok[OF Cons.prems(1)[unfolded n] Cons.prems(2) room] by blast
  have ne: "?i \<noteq> 1" using t1(5) Cons.prems(2) by auto
  have i1: "freeinode t1 = ?i + 1" using t1(3) Cons.prems(4) by (simp add: word_unat_eq_iff unat_word_ariths NINODES_def)
  have F1: "?F 1 = F 1 @ mk_dirent ?i (file_name f)" "?F ?i = file_data f" using ne by simp_all
  obtain B' F' t where t: "(unat (freeblock t) \<le> FSSIZE \<longrightarrow> add_files 1 fs t1 = Ok t) \<and> freeblock t1 \<le> freeblock t" "image_ok n t B' F'" "unat (freeinode t) = unat (freeinode t1) + length fs"
    "F' 1 = ?F 1 @ dirents_of (freeinode t1) fs" "\<forall>k < length fs. F' (freeinode t1 + of_nat k) = file_data (fs ! k)"
    "\<forall>k < length fs. di_type (inode_of t (freeinode t1 + of_nat k)) = T_FILE"
    "\<forall>j \<in> inums t1. di_type (inode_of t j) = di_type (inode_of t1 j)" "\<forall>j \<in> inums t1. j \<noteq> 1 \<longrightarrow> F' j = ?F j"
    using Cons.IH[OF t1(2)] Cons.prems t1(3,4) F1(1) by (auto simp: length_mk_dirent simp del: fun_upd_apply add_files.simps)
  have each: "F' (?i + of_nat k) = file_data ((f # fs) ! k) \<and> di_type (inode_of t (?i + of_nat k)) = T_FILE" if "k < length (f # fs)" for k
  proof (cases k)
    case 0
    have "?i \<in> inums t1" using t1(4) by simp
    then show ?thesis using 0 t(7,8) t1(6) ne F1(2) by simp
  next
    case (Suc m)
    then show ?thesis using t(5,6) that i1 by (auto simp: add.assoc)
  qed
  have "F' 1 = F 1 @ dirents_of ?i (f # fs)" using t(4) F1(1) by (simp only: i1 dirents_of_Cons append_assoc)
  moreover have "\<forall>j \<in> inums s. j \<noteq> 1 \<longrightarrow> F' j = F j" using t(8) t1(4,5) by auto
  moreover have "\<forall>j \<in> inums s. di_type (inode_of t j) = di_type (inode_of s j)" using t(7) t1(4-6) by auto
  moreover have "unat (freeblock t) \<le> FSSIZE \<longrightarrow> add_files 1 (f # fs) s = Ok t"
    using t1(1) t(1) by (auto simp: word_le_nat_alt)
  moreover have "freeblock s \<le> freeblock t" using t1(1) t(1) by (metis order_trans)
  moreover have "unat (freeinode t) = unat ?i + length (f # fs)" using t(3) t1(3) by simp
  ultimately show ?case using t(2) each by blast
qed


section \<open>Reading the image back\<close>

text \<open>The bytes of a file as the kernel finds them from its inode.\<close>

definition blk_addr :: "image \<Rightarrow> 32 word list \<Rightarrow> nat \<Rightarrow> 32 word" where
  "blk_addr C ad k = (if k < 12 then ad ! k else get32 (C (ad ! 12)) (k - 12))"

definition blocks_bytes :: "image \<Rightarrow> 32 word list \<Rightarrow> byte list" where
  "blocks_bytes C ad = concat (map (\<lambda>k. C (blk_addr C ad k)) [0..<268])"

definition file_bytes :: "image \<Rightarrow> dinode \<Rightarrow> byte list" where
  "file_bytes C di = take (unat (di_size di)) (blocks_bytes C (di_addrs di))"

lemma blocks_bytes_file:
  assumes f: "file_is C ad bs F" and l: "\<And>b. length (C b) = 1024"
  shows "take (length F) (blocks_bytes C ad) = F"
proof -
  note f' = f[unfolded file_is_def has_blocks_def]
  have a: "blk_addr C ad k = bs ! k" if "k < length bs" for k
    using f' that by (cases "k < 12") (auto simp: blk_addr_def)
  have "[0..<268] = [0..<length bs] @ [length bs..<268]" using f' upt_add_eq_append[of 0 "length bs" "268 - length bs"] by simp
  then have s: "blocks_bytes C ad = concat (map (\<lambda>k. C (bs ! k)) [0..<length bs]) @ concat (map (\<lambda>k. C (blk_addr C ad k)) [length bs..<268])"
  proof -
    have "map (\<lambda>k. C (blk_addr C ad k)) [0..<length bs] = map (\<lambda>k. C (bs ! k)) [0..<length bs]" by (rule map_cong) (use a in auto)
    with \<open>[0..<268] = _\<close> show ?thesis unfolding blocks_bytes_def by (simp only: map_append concat_append)
  qed
  have m: "map (\<lambda>k. C (bs ! k)) [0..<length bs] = map C bs" by (rule nth_equalityI) simp_all
  have "length F \<le> length (concat (map C bs))"
  proof -
    have "length F \<le> 1024 * blocks_for (length F)" unfolding blocks_for_def by simp
    then show ?thesis using f' concat_blocks_length[of C bs, OF l] by simp
  qed
  then show ?thesis using f' unfolding s m by simp
qed

lemma map_bits:
  assumes "n \<le> 8192"
  shows "length (foldl (\<lambda>d i. set_bit_of i d) zeroes [0..<n]) = 1024 \<and>
    (\<forall>j < 8192. bit_clear (foldl (\<lambda>d i. set_bit_of i d) zeroes [0..<n]) j \<longleftrightarrow> n \<le> j)"
  using assms
proof (induction n)
  case 0
  then show ?case by (simp add: bit_clear_def zeroes_def)
next
  case (Suc n)
  let ?d = "foldl (\<lambda>d i. set_bit_of i d) zeroes [0..<n]"
  have "length ?d = 1024" "\<forall>j < 8192. bit_clear ?d j \<longleftrightarrow> n \<le> j" using Suc by auto
  then show ?case using bit_clear_set(1)[of n _ ?d] Suc.prems by (auto simp: set_bit_of_def)
qed

lemma blank_image_ok:
  assumes "n < 4294967000" shows "image_ok n blank_image B F"
proof -
  have i: "inums blank_image = {}" by (auto simp: inums_def blank_image_def word_le_nat_alt word_less_nat_alt)
  have l: "length (img blank_image b) = 1024" for b
    by (simp add: blank_image_def super_bytes_def zeroes_def)
  have "img blank_image b = zeroes" if "47 \<le> b" for b
    using that by (auto simp: blank_image_def word_le_nat_alt)
  then have "stock n blank_image" using assms l by (simp add: stock_def) (simp add: blank_image_def meta_values)
  then show ?thesis unfolding image_ok_def i by (simp add: blank_image_def meta_values NINODES_def)
qed

text \<open>The number of blocks for \<open>n\<close> bytes, with the indirect one.\<close>

definition fblocks :: "nat \<Rightarrow> nat" where
  "fblocks n = blocks_for n + (if blocks_for n \<le> 12 then 0 else 1)"

lemma cost_fblocks: "file_is C ad bs F \<Longrightarrow> cost bs = fblocks (length F)"
  by (simp add: file_is_def cost_def fblocks_def)

lemma inums_image:
  assumes "unat (freeinode s) = 2 + m" "m < 200"
  shows "inums s = insert 1 ((\<lambda>k. 2 + of_nat k) ` {..<m})" "inj_on (\<lambda>k. 2 + of_nat k :: 32 word) {..<m}"
    "1 \<notin> (\<lambda>k. 2 + of_nat k :: 32 word) ` {..<m}"
proof -
  have u: "unat (2 + of_nat k :: 32 word) = 2 + k" if "k < m" for k
    using that assms(2) by (simp add: unat_word_ariths unat_of_nat take_bit_eq_mod)
  show "inj_on (\<lambda>k. 2 + of_nat k :: 32 word) {..<m}" by (rule inj_onI) (metis add_left_cancel lessThan_iff u)
  show "1 \<notin> (\<lambda>k. 2 + of_nat k :: 32 word) ` {..<m}"
  proof
    assume "1 \<in> (\<lambda>k. 2 + of_nat k :: 32 word) ` {..<m}"
    then obtain k where "k < m" "(1 :: 32 word) = 2 + of_nat k" by auto
    then have "unat (1 :: 32 word) = 2 + k" using u by metis
    then show False by simp
  qed
  show "inums s = insert 1 ((\<lambda>k. 2 + of_nat k) ` {..<m})"
  proof (intro equalityI subsetI)
    fix i :: "32 word" assume i: "i \<in> inums s"
    then have r: "1 \<le> unat i" "unat i < 2 + m" using assms(1) by (auto simp: inums_def word_le_nat_alt word_less_nat_alt)
    show "i \<in> insert 1 ((\<lambda>k. 2 + of_nat k) ` {..<m})"
    proof (cases "unat i = 1")
      case True
      then show ?thesis by (simp add: word_unat_eq_iff)
    next
      case False
      then have k: "unat i - 2 < m" using r by linarith
      then have "unat (2 + of_nat (unat i - 2) :: 32 word) = unat i" using u[OF k] r False by linarith
      then have "i = 2 + of_nat (unat i - 2)" by (simp only: word_unat_eq_iff)
      then show ?thesis using k by blast
    qed
  next
    fix i :: "32 word" assume "i \<in> insert 1 ((\<lambda>k. 2 + of_nat k) ` {..<m})"
    then consider "i = 1" | k where "k < m" "i = 2 + of_nat k" by auto
    then show "i \<in> inums s"
      by cases (use assms(1) u in \<open>auto simp: inums_def word_le_nat_alt word_less_nat_alt\<close>)
  qed
qed

lemma need_less:
  assumes "\<forall>f \<in> set fs. good_file f" shows "need fs \<le> 548896 * length fs"
proof -
  have "2 * (16 + length (file_data f)) \<le> 548896" if "good_file f" for f
    using that by (auto simp: good_file_def file_data_def)
  then show ?thesis using assms by (induction fs) (fastforce simp: need_def)+
qed


lemma sb_of_super: "sb_of super_bytes = mk_sb"
  by (simp add: sb_of_def super_bytes_def get32_put zeroes_def mk_sb_def)

text \<open>The last steps change the size of the root directory and the free map, and nothing else.\<close>

lemma finish_ok:
  assumes ok: "image_ok n s B F" and r: "1 \<in> inums s" and small: "unat (freeblock s) \<le> FSSIZE"
  shows "\<exists>t z. mk_balloc (freeblock (round_root 1 s)) (round_root 1 s) = Ok t \<and> img t 1 = super_bytes \<and>
    (\<forall>b. length (img t b) = 1024) \<and>
    (\<forall>j \<in> inums s. file_is (img t) (di_addrs (inode_of t j)) (B j) (F j)) \<and>
    (\<forall>j \<in> inums s. inode_of t j = (if j = 1 then (inode_of s 1)\<lparr>di_size := of_nat z\<rparr> else inode_of s j)) \<and>
    length (F 1) \<le> z \<and> z < 2 ^ 32 \<and> z mod 1024 = 0 \<and>
    (\<forall>b < 8192. free_at (img t) mk_sb (of_nat b) \<longleftrightarrow> unat (freeblock s) \<le> b)"
proof -
  note O = ok[unfolded image_ok_def]
  let ?di = "inode_of s 1"
  define z where "z = (length (F 1) div 1024 + 1) * 1024"
  have F1: "length (F 1) \<le> 268 * 1024" "di_size ?di = of_nat (length (F 1))" "file_is (img s) (di_addrs ?di) (B 1) (F 1)" using O r by auto
  have zb: "length (F 1) \<le> z" "z \<le> 269 * 1024" "z mod 1024 = 0"
    using less_1024[of "length (F 1)"] F1(1) by (auto simp: z_def intro: div_le_mono)
  have sz: "unat (di_size ?di) = length (F 1)" using F1 by (simp add: unat_of_nat take_bit_eq_mod)
  define u where "u = winode 1 (?di\<lparr>di_size := of_nat z\<rparr>) s"
  have ru: "round_root 1 s = u" using sz by (simp add: round_root_def Let_def u_def z_def rinode_def inode_of_def inode_on_def)
  define t where "t = wsect 46 (foldl (\<lambda>d i. set_bit_of i d) zeroes [0..<unat (freeblock s)]) u"
  have fb: "unat (freeblock s) < 8192" "freeblock u = freeblock s" using small by (simp_all add: FSSIZE_def u_def)
  have mt: "mk_balloc (freeblock u) u = Ok t" using fb by (simp add: mk_balloc_def mk_sb_values t_def)
  have l13: "length (di_addrs ?di) = 13" using F1(3) by (simp add: file_is_def has_blocks_def)
  have one: "unat (1 :: 32 word) \<le> NINODES" by (simp add: NINODES_def)
  have nj: "unat j \<le> NINODES" if "j \<in> inums s" for j using that O by (auto simp: inums_def word_less_nat_alt)
  have iu: "inode_of u j = (if j = 1 then ?di\<lparr>di_size := of_nat z\<rparr> else inode_of s j)" for j
    unfolding u_def by (rule inode_of_winode) (use O l13 in \<open>simp_all add: stock_def\<close>)
  have it: "inode_of t j = inode_of u j" if "j \<in> inums s" for j
    using inode_block[OF nj[OF that]] by (intro inode_of_same) (auto simp: t_def wsect_def)
  have ti: "img t b = img s b" if "nmeta \<le> unat b" for b
  proof -
    have "b \<noteq> 46" "b \<noteq> IBLOCK 1 mk_sb" using that inode_block[OF one] by (auto simp: meta_values)
    then show ?thesis using winode_img[of b 1] by (simp add: t_def wsect_def u_def)
  qed
  have bits: "length (foldl (\<lambda>d i. set_bit_of i d) zeroes [0..<unat (freeblock s)]) = 1024"
    "\<forall>j < 8192. bit_clear (foldl (\<lambda>d i. set_bit_of i d) zeroes [0..<unat (freeblock s)]) j \<longleftrightarrow> unat (freeblock s) \<le> j"
    using map_bits[of "unat (freeblock s)"] fb(1) by auto
  have len: "length (img t b) = 1024" for b
    using O bits(1) by (simp add: t_def u_def wsect_def winode_def Let_def stock_def)
  have filej: "file_is (img t) (di_addrs (inode_of t j)) (B j) (F j)" if j: "j \<in> inums s" for j
  proof -
    have "di_addrs (inode_of t j) = di_addrs (inode_of s j)" using it[OF j] iu by simp
    moreover have "file_is (img t) (di_addrs (inode_of s j)) (B j) (F j)"
    proof (rule file_is_frame)
      show "file_is (img s) (di_addrs (inode_of s j)) (B j) (F j)" using O j by blast
      fix b assume "b \<in> own (di_addrs (inode_of s j)) (B j)"
      then have "nmeta \<le> unat b" using O j by blast
      then show "img t b = img s b" by (rule ti)
    qed
    ultimately show ?thesis by simp
  qed
  have "free_at (img t) mk_sb (of_nat b) \<longleftrightarrow> unat (freeblock s) \<le> b" if b: "b < 8192" for b
  proof -
    have u: "unat (of_nat b :: 32 word) = b" using b by (simp add: unat_of_nat take_bit_eq_mod)
    have "unat ((of_nat b :: 32 word) div 8192) = 0" using b u by (simp add: unat_div_distrib)
    then have "BBLOCK (of_nat b) mk_sb = 46" by (simp add: BBLOCK_def mk_sb_values unat_eq_zero)
    then show ?thesis using bits(2) b u by (simp add: free_at_def t_def wsect_def)
  qed
  moreover have "img t 1 = super_bytes"
    using O not_super[OF one] winode_img[of 1 1] by (auto simp: t_def wsect_def u_def)
  ultimately show ?thesis using mt ru zb len filej it iu by (intro exI[of _ t] exI[of _ z]) auto
qed

text \<open>The blocks in use when the files are in the image: those before the data, the root directory's, and the files'.\<close>

definition image_blocks :: "mk_file list \<Rightarrow> nat" where
  "image_blocks fs = nmeta + fblocks (16 * (length fs + 2)) + (\<Sum>f\<leftarrow>fs. fblocks (length (file_data f)))"

text \<open>An entry more in the root directory.\<close>

lemma append_entry:
  assumes "image_ok (n + 32) s B F" "1 \<in> inums s" "length (F 1) + 16 \<le> 268 * 1024" "length p = 16"
  obtains B' F' t where "unat (freeblock t) \<le> FSSIZE \<longrightarrow> iappend 1 p s = Ok t" "freeblock s \<le> freeblock t" "image_ok n t B' F'"
    "F' 1 = F 1 @ p" "freeinode t = freeinode s" "di_type (inode_of t 1) = di_type (inode_of s 1)"
proof -
  have k: "image_ok (n + 2 * length p) s B F" "length (F 1) + length p \<le> 268 * 1024" using assms by simp_all
  obtain bs t where t: "unat (freeblock t) \<le> FSSIZE \<longrightarrow> iappend 1 p s = Ok t" "freeblock s \<le> freeblock t"
    "image_ok n t (B(1 := bs)) (F(1 := F 1 @ p))" "freeinode t = freeinode s" "\<forall>j \<in> inums s. di_type (inode_of t j) = di_type (inode_of s j)"
    using iappend_ok[OF k(1) assms(2) k(2)] by blast
  show thesis by (rule that[OF t(1-3) _ t(4)]) (use t(5) assms(2) in auto)
qed

text \<open>Until the last steps: the files are in the image, if it is large enough.\<close>

lemma fill_ok:
  assumes good: "\<forall>f \<in> set fs. good_file f" and count: "length fs + 2 \<le> NINODES"
  shows "\<exists>s1 s2 s3 s B F. mk_ialloc T_DIR blank_image = (1, s1) \<and>
    (unat (freeblock s) \<le> FSSIZE \<longrightarrow> iappend 1 (mk_dirent 1 [46]) s1 = Ok s2 \<and> iappend 1 (mk_dirent 1 [46, 46]) s2 = Ok s3 \<and> add_files 1 fs s3 = Ok s) \<and>
    image_ok 0 s B F \<and> unat (freeinode s) = 2 + length fs \<and> F 1 = mk_dirent 1 [46] @ mk_dirent 1 [46, 46] @ dirents_of 2 fs \<and>
    (\<forall>k < length fs. F (2 + of_nat k) = file_data (fs ! k) \<and> di_type (inode_of s (2 + of_nat k)) = T_FILE) \<and> di_type (inode_of s 1) = T_DIR"
proof -
  let ?d1 = "mk_dirent 1 [46]" and ?d2 = "mk_dirent 1 [46, 46]"
  have small: "need fs + 32 + 32 < 4294967000" using need_less[OF good] count by (simp add: NINODES_def)
  have len: "length ?d1 = 16" "length ?d2 = 16" by (simp_all add: length_mk_dirent)
  have b: "freeinode blank_image = 1" "inums blank_image = {}" by (auto simp: blank_image_def inums_def word_le_nat_alt word_less_nat_alt)
  obtain s1 B1 F1 where s1: "mk_ialloc T_DIR blank_image = (1, s1)" "image_ok (need fs + 32 + 32) s1 B1 F1" "F1 1 = []"
    "unat (freeinode s1) = 2" "inums s1 = {1}" "di_type (inode_of s1 1) = T_DIR"
    using mk_ialloc_ok[OF blank_image_ok[OF small, of "\<lambda>_. []" "\<lambda>_. []"], of T_DIR] b by (auto simp: NINODES_def)
  have r1: "1 \<in> inums s1" using s1(5) by simp
  obtain B2 F2 s2 where s2: "unat (freeblock s2) \<le> FSSIZE \<longrightarrow> iappend 1 ?d1 s1 = Ok s2" "freeblock s1 \<le> freeblock s2"
    "image_ok (need fs + 32) s2 B2 F2" "F2 1 = F1 1 @ ?d1" "freeinode s2 = freeinode s1" "di_type (inode_of s2 1) = di_type (inode_of s1 1)"
    by (rule append_entry[of "need fs + 32" s1 B1 F1 ?d1]) (use s1 r1 len in simp_all)
  have i2: "1 \<in> inums s2" using r1 s2(5) by (simp add: inums_def)
  obtain B3 F3 s3 where s3: "unat (freeblock s3) \<le> FSSIZE \<longrightarrow> iappend 1 ?d2 s2 = Ok s3" "freeblock s2 \<le> freeblock s3"
    "image_ok (need fs) s3 B3 F3" "F3 1 = F2 1 @ ?d2" "freeinode s3 = freeinode s2" "di_type (inode_of s3 1) = di_type (inode_of s2 1)"
    by (rule append_entry[of "need fs" s2 B2 F2 ?d2]) (use s1 s2 i2 len in simp_all)
  have i3: "1 \<in> inums s3" using i2 s3(5) by (simp add: inums_def)
  have f3: "unat (freeinode s3) = 2" "freeinode s3 = 2" using s1(4) s2(5) s3(5) by (simp_all add: word_unat_eq_iff)
  have F3: "F3 1 = ?d1 @ ?d2" "di_type (inode_of s3 1) = T_DIR" using s1(3,6) s2(4,6) s3(4,6) by simp_all
  have pre: "image_ok (0 + need fs) s3 B3 F3" "unat (freeinode s3) + length fs \<le> NINODES" "length (F3 1) + 16 * length fs \<le> 268 * 1024"
    using s3(3) f3(1) F3(1) len count by (simp_all add: NINODES_def)
  obtain B F s where s: "(unat (freeblock s) \<le> FSSIZE \<longrightarrow> add_files 1 fs s3 = Ok s) \<and> freeblock s3 \<le> freeblock s"
    "image_ok 0 s B F" "unat (freeinode s) = unat (2 :: 32 word) + length fs" "F 1 = (?d1 @ ?d2) @ dirents_of 2 fs"
    "\<forall>k < length fs. F (2 + of_nat k) = file_data (fs ! k)" "\<forall>k < length fs. di_type (inode_of s (2 + of_nat k)) = T_FILE"
    "\<forall>j \<in> inums s3. di_type (inode_of s j) = di_type (inode_of s3 j)"
    using add_files_ok[OF pre(1) i3 good pre(2,3), unfolded f3(2) F3(1)] by blast
  have "iappend 1 ?d1 s1 = Ok s2 \<and> iappend 1 ?d2 s2 = Ok s3 \<and> add_files 1 fs s3 = Ok s" if "unat (freeblock s) \<le> FSSIZE"
  proof -
    have "unat (freeblock s2) \<le> FSSIZE" "unat (freeblock s3) \<le> FSSIZE" using that s(1) s3(2) by (auto simp: word_le_nat_alt)
    then show ?thesis using that s(1) s2(1) s3(1) by blast
  qed
  moreover have "di_type (inode_of s 1) = T_DIR" using s(7) i3 F3(2) by simp
  ultimately show ?thesis using s1(1) s(2-6) by (intro exI[of _ s1] exI[of _ s2] exI[of _ s3] exI[of _ s] exI[of _ B] exI[of _ F]) simp
qed

lemma blocks_used:
  assumes ok: "image_ok n s B F" and i: "unat (freeinode s) = 2 + length fs" "length fs < 200"
    and F: "length (F 1) = 16 * (length fs + 2)" "\<forall>k < length fs. F (2 + of_nat k) = file_data (fs ! k)"
  shows "unat (freeblock s) = image_blocks fs"
proof -
  note O = ok[unfolded image_ok_def] and I = inums_image[OF i]
  let ?g = "\<lambda>k. 2 + of_nat k :: 32 word"
  have c: "cost (B j) = fblocks (length (F j))" if "j \<in> inums s" for j using O that cost_fblocks by blast
  have "(\<Sum>j \<in> inums s. cost (B j)) = (\<Sum>j \<in> inums s. fblocks (length (F j)))" using c by (rule sum.cong[OF refl])
  also have "\<dots> = fblocks (length (F 1)) + (\<Sum>j \<in> ?g ` {..<length fs}. fblocks (length (F j)))"
    unfolding I(1) using I(3) by (intro sum.insert) simp_all
  also have "(\<Sum>j \<in> ?g ` {..<length fs}. fblocks (length (F j))) = (\<Sum>k < length fs. fblocks (length (F (?g k))))"
    by (rule sum.reindex_cong[OF I(2)]) simp_all
  also have "\<dots> = (\<Sum>k < length fs. fblocks (length (file_data (fs ! k))))" using F(2) by (intro sum.cong) auto
  also have "\<dots> = (\<Sum>f\<leftarrow>fs. fblocks (length (file_data f)))"
    by (simp add: sum_list_sum_nth atLeast0LessThan)
  finally show ?thesis using O F(1) by (simp add: image_blocks_def)
qed

text \<open>
  The files of the image, in detail: file \<open>k\<close> has the inode \<open>2 + k\<close> with its size, and its bytes in blocks of its own
  behind the meta data.
\<close>

lemma mkfs_image:
  assumes good: "\<forall>f \<in> set fs. good_file f" and count: "length fs + 2 \<le> NINODES" and space: "image_blocks fs \<le> FSSIZE"
  shows "\<exists>t B. mkfs fs = Ok t \<and> img t 1 = super_bytes \<and> (\<forall>b. length (img t b) = 1024) \<and> di_type (inode_of t 1) = T_DIR \<and>
    take (16 * (length fs + 2)) (file_bytes (img t) (inode_of t 1)) = mk_dirent 1 [46] @ mk_dirent 1 [46, 46] @ dirents_of 2 fs \<and>
    (\<forall>k < length fs. di_type (inode_of t (2 + of_nat k)) = T_FILE \<and>
       di_size (inode_of t (2 + of_nat k)) = of_nat (length (file_data (fs ! k))) \<and> length (file_data (fs ! k)) \<le> 268 * 1024 \<and>
       file_is (img t) (di_addrs (inode_of t (2 + of_nat k))) (B k) (file_data (fs ! k)) \<and>
       own (di_addrs (inode_of t (2 + of_nat k))) (B k) \<subseteq> {b. nmeta \<le> unat b \<and> unat b < image_blocks fs}) \<and>
    (\<forall>b < FSSIZE. free_at (img t) mk_sb (of_nat b) \<longleftrightarrow> image_blocks fs \<le> b)"
proof -
  obtain s1 s2 s3 s B F where s: "mk_ialloc T_DIR blank_image = (1, s1)"
    "unat (freeblock s) \<le> FSSIZE \<longrightarrow> iappend 1 (mk_dirent 1 [46]) s1 = Ok s2 \<and> iappend 1 (mk_dirent 1 [46, 46]) s2 = Ok s3 \<and> add_files 1 fs s3 = Ok s"
    "image_ok 0 s B F" "unat (freeinode s) = 2 + length fs" "F 1 = mk_dirent 1 [46] @ mk_dirent 1 [46, 46] @ dirents_of 2 fs"
    "\<forall>k < length fs. F (2 + of_nat k) = file_data (fs ! k) \<and> di_type (inode_of s (2 + of_nat k)) = T_FILE" "di_type (inode_of s 1) = T_DIR"
    using fill_ok[OF good count] by blast
  note I = inums_image[OF s(4)] and O = s(3)[unfolded image_ok_def]
  have n: "length fs < 200" using count by (simp add: NINODES_def)
  have l1: "length (F 1) = 16 * (length fs + 2)" by (simp add: s(5) length_mk_dirent length_dirents_of)
  have fb: "unat (freeblock s) = image_blocks fs" using blocks_used[OF s(3,4) n l1] s(6) by simp
  have in1: "1 \<in> inums s" using I(1)[OF n] by simp
  have ink: "2 + of_nat k \<in> inums s \<and> 2 + of_nat k \<noteq> (1 :: 32 word)" if "k < length fs" for k using I[OF n] that by auto
  obtain t z where t: "mk_balloc (freeblock (round_root 1 s)) (round_root 1 s) = Ok t" "img t 1 = super_bytes"
    "\<forall>b. length (img t b) = 1024" "\<forall>j \<in> inums s. file_is (img t) (di_addrs (inode_of t j)) (B j) (F j)"
    "\<forall>j \<in> inums s. inode_of t j = (if j = 1 then (inode_of s 1)\<lparr>di_size := of_nat z\<rparr> else inode_of s j)"
    "length (F 1) \<le> z" "z < 2 ^ 32" "\<forall>b < 8192. free_at (img t) mk_sb (of_nat b) \<longleftrightarrow> unat (freeblock s) \<le> b"
    using finish_ok[OF s(3) in1] fb space by auto
  have "mkfs fs = Ok t" using s(1,2) t(1) fb space by (simp add: mkfs_def Let_def)
  moreover have "take (16 * (length fs + 2)) (file_bytes (img t) (inode_of t 1)) = F 1"
  proof -
    have "inode_of t 1 = (inode_of s 1)\<lparr>di_size := of_nat z\<rparr>" using t(5) in1 by simp
    moreover have "unat (of_nat z :: 32 word) = z" using t(7) by (simp add: unat_of_nat take_bit_eq_mod)
    moreover have "take (length (F 1)) (blocks_bytes (img t) (di_addrs (inode_of t 1))) = F 1" using blocks_bytes_file t(3,4) in1 by blast
    ultimately show ?thesis using t(6) l1 by (simp add: file_bytes_def min_absorb1)
  qed
  moreover have "di_type (inode_of t (2 + of_nat k)) = T_FILE \<and>
       di_size (inode_of t (2 + of_nat k)) = of_nat (length (file_data (fs ! k))) \<and> length (file_data (fs ! k)) \<le> 268 * 1024 \<and>
       file_is (img t) (di_addrs (inode_of t (2 + of_nat k))) (B (2 + of_nat k)) (file_data (fs ! k)) \<and>
       own (di_addrs (inode_of t (2 + of_nat k))) (B (2 + of_nat k)) \<subseteq> {b. nmeta \<le> unat b \<and> unat b < image_blocks fs}"
    if k: "k < length fs" for k
  proof -
    let ?j = "2 + of_nat k :: 32 word"
    have e: "inode_of t ?j = inode_of s ?j" and Fk: "F ?j = file_data (fs ! k)" using t(5) ink[OF k] s(6) k by simp_all
    have o: "own (di_addrs (inode_of s ?j)) (B ?j) \<subseteq> {b. nmeta \<le> unat b \<and> b < freeblock s}" "di_size (inode_of s ?j) = of_nat (length (F ?j))"
      "length (F ?j) \<le> 268 * 1024" using O ink[OF k] by blast+
    have "{b. nmeta \<le> unat b \<and> b < freeblock s} = {b. nmeta \<le> unat b \<and> unat b < image_blocks fs}" by (simp add: word_less_nat_alt fb)
    moreover have "file_is (img t) (di_addrs (inode_of t ?j)) (B ?j) (F ?j)" using t(4) ink[OF k] by blast
    ultimately show ?thesis using o s(6) k unfolding e Fk by simp
  qed
  moreover have "\<forall>b < FSSIZE. free_at (img t) mk_sb (of_nat b) \<longleftrightarrow> image_blocks fs \<le> b" using t(8) fb by (simp add: FSSIZE_def)
  moreover have "di_type (inode_of t 1) = T_DIR" using t(5) in1 s(7) by simp
  ultimately show ?thesis using t(2,3) s(5) by (intro exI[of _ t] exI[of _ "\<lambda>k. B (2 + of_nat k)"]) (simp del: One_nat_def)
qed

text \<open>C40: \<open>mkfs\<close> builds a file system that the kernel can read: if the names and the files are not too long, there are inodes
  for them and the blocks are enough, it ends without a failed assertion; the super block in block 1 is the one it laid out,
  inode 1 is the root directory with \<open>.\<close>, \<open>..\<close> and one entry per file, in order, and following the addresses in the
  inode of each file, over its indirect block where it has one, gives just the file's bytes; and the kernel's free map has
  exactly the blocks in use marked.
\<close>

theorem mkfs_builds_file_system:
  assumes good: "\<forall>f \<in> set fs. good_file f" and count: "length fs + 2 \<le> NINODES" and space: "image_blocks fs \<le> FSSIZE"
  shows "\<exists>s. mkfs fs = Ok s \<and> sb_of (img s 1) = mk_sb \<and> di_type (inode_of s 1) = T_DIR \<and>
    take (16 * (length fs + 2)) (file_bytes (img s) (inode_of s 1)) = mk_dirent 1 [46] @ mk_dirent 1 [46, 46] @ dirents_of 2 fs \<and>
    (\<forall>k < length fs. di_type (inode_of s (2 + of_nat k)) = T_FILE \<and>
       file_bytes (img s) (inode_of s (2 + of_nat k)) = file_data (fs ! k)) \<and>
    (\<forall>b < FSSIZE. free_at (img s) mk_sb (of_nat b) \<longleftrightarrow> image_blocks fs \<le> b)"
proof -
  obtain t B where t: "mkfs fs = Ok t" "img t 1 = super_bytes" "\<forall>b. length (img t b) = 1024" "di_type (inode_of t 1) = T_DIR"
    "take (16 * (length fs + 2)) (file_bytes (img t) (inode_of t 1)) = mk_dirent 1 [46] @ mk_dirent 1 [46, 46] @ dirents_of 2 fs"
    "\<forall>k < length fs. di_type (inode_of t (2 + of_nat k)) = T_FILE \<and>
       di_size (inode_of t (2 + of_nat k)) = of_nat (length (file_data (fs ! k))) \<and> length (file_data (fs ! k)) \<le> 268 * 1024 \<and>
       file_is (img t) (di_addrs (inode_of t (2 + of_nat k))) (B k) (file_data (fs ! k)) \<and>
       own (di_addrs (inode_of t (2 + of_nat k))) (B k) \<subseteq> {b. nmeta \<le> unat b \<and> unat b < image_blocks fs}"
    "\<forall>b < FSSIZE. free_at (img t) mk_sb (of_nat b) \<longleftrightarrow> image_blocks fs \<le> b"
    using mkfs_image[OF assms] by blast
  have "file_bytes (img t) (inode_of t (2 + of_nat k)) = file_data (fs ! k)" if k: "k < length fs" for k
  proof -
    have f: "di_size (inode_of t (2 + of_nat k)) = of_nat (length (file_data (fs ! k)))" "length (file_data (fs ! k)) \<le> 268 * 1024"
      "file_is (img t) (di_addrs (inode_of t (2 + of_nat k))) (B k) (file_data (fs ! k))" using t(6) k by blast+
    have "unat (di_size (inode_of t (2 + of_nat k))) = length (file_data (fs ! k))" using f(1,2) by (simp add: unat_of_nat take_bit_eq_mod)
    then show ?thesis using blocks_bytes_file[OF f(3)] t(3) by (simp add: file_bytes_def)
  qed
  then have "\<forall>k < length fs. di_type (inode_of t (2 + of_nat k)) = T_FILE \<and>
      file_bytes (img t) (inode_of t (2 + of_nat k)) = file_data (fs ! k)" using t(6) by blast
  moreover have "sb_of (img t 1) = mk_sb" using t(2) sb_of_super by simp
  ultimately show ?thesis using t(1,4,5,7) by (intro exI[of _ t]) simp
qed

text \<open>One program of three bytes.\<close>

theorem mkfs_builds_file_system_witness:
  "\<exists>s. mkfs [([95, 99], Some [[1, 2, 3]])] = Ok s \<and> file_bytes (img s) (inode_of s 2) = [1, 2, 3] \<and>
    take 48 (file_bytes (img s) (inode_of s 1)) = mk_dirent 1 [46] @ mk_dirent 1 [46, 46] @ mk_dirent 2 [99] \<and>
    free_at (img s) mk_sb 49 \<and> \<not> free_at (img s) mk_sb 48"
proof -
  let ?fs = "[([95, 99], Some [[1, 2, 3]])] :: mk_file list"
  have g: "\<forall>f \<in> set ?fs. good_file f"
    by (simp add: good_file_def short_name_def user_prefix_def disk_name_def DIRSIZ_def)
  have c: "length ?fs + 2 \<le> NINODES" by (simp add: NINODES_def)
  have i: "image_blocks ?fs = 49" by (simp add: image_blocks_def fblocks_def blocks_for_def meta_values file_data_def)
  then have sp: "image_blocks ?fs \<le> FSSIZE" by (simp add: FSSIZE_def)
  have d: "dirents_of 2 ?fs = mk_dirent 2 [99]"
    by (simp add: dirents_of_def file_name_def short_name_def user_prefix_def disk_name_def)
  obtain s where s: "mkfs ?fs = Ok s"
    "take (16 * (length ?fs + 2)) (file_bytes (img s) (inode_of s 1)) = mk_dirent 1 [46] @ mk_dirent 1 [46, 46] @ dirents_of 2 ?fs"
    "\<forall>k < length ?fs. file_bytes (img s) (inode_of s (2 + of_nat k)) = file_data (?fs ! k)"
    "\<forall>b < FSSIZE. free_at (img s) mk_sb (of_nat b) \<longleftrightarrow> image_blocks ?fs \<le> b"
    using mkfs_builds_file_system[OF g c sp] by blast
  have "free_at (img s) mk_sb 49" "\<not> free_at (img s) mk_sb 48"
    using s(4)[rule_format, of 49] s(4)[rule_format, of 48] i by (simp_all add: FSSIZE_def)
  moreover have "file_bytes (img s) (inode_of s 2) = [1, 2, 3]" using s(3) by (simp add: file_data_def)
  ultimately show ?thesis using s(1,2) d by auto
qed

end
