(* ===== verification/K_Readi.thy ===== *)
theory K_Readi
  imports M_Mkfs
begin

text \<open>
  \<open>readi\<close> of \<open>fs.c\<close>: reading the contents of an inode into the kernel's memory, for a file laid out on the disk as
  \<open>mkfs\<close> and \<open>writei\<close> lay it out (\<open>file_is\<close>).
\<close>

section \<open>The bytes of a file and of a range\<close>

lemma concat_blocks_nth:
  "(\<And>b. b \<in> set bs \<Longrightarrow> length (C b) = 1024) \<Longrightarrow> j < 1024 * length bs \<Longrightarrow> concat (map C bs) ! j = C (bs ! (j div 1024)) ! (j mod 1024)"
proof (induction bs arbitrary: j)
  case (Cons b bs)
  show ?case
  proof (cases "j < 1024")
    case False
    then have "j div 1024 = Suc ((j - 1024) div 1024)" "(j - 1024) mod 1024 = j mod 1024"
      by (simp_all add: le_div_geq le_mod_geq)
    then show ?thesis using Cons.IH[of "j - 1024"] Cons.prems False by (simp add: nth_append)
  qed (use Cons.prems in \<open>simp add: nth_append\<close>)
qed simp

text \<open>A byte of the file is in its block.\<close>

lemma file_is_nth:
  assumes "file_is C ad bs F" "\<And>b. b \<in> set bs \<Longrightarrow> length (C b) = 1024" "i < length F"
  shows "i div 1024 < length bs" "F ! i = C (bs ! (i div 1024)) ! (i mod 1024)"
proof -
  note f = assms(1)[unfolded file_is_def]
  have l: "length F \<le> 1024 * length bs" using f by (simp add: blocks_for_def)
  then show "i div 1024 < length bs" using assms(3) by (intro less_mult_imp_div_less) simp
  have "F ! i = take (length F) (concat (map C bs)) ! i" using f by simp
  then show "F ! i = C (bs ! (i div 1024)) ! (i mod 1024)"
    using concat_blocks_nth[of bs C i] assms(2,3) l by simp
qed

lemma within_split:
  fixes d :: addr
  assumes "unat d + n < 2 ^ 64" "k \<le> n"
  shows "within a d n \<longleftrightarrow> within a d k \<or> within a (d + of_nat k) (n - k)"
    "within a (d + of_nat k) (n - k) \<Longrightarrow> unat (a - d) = k + unat (a - (d + of_nat k))"
proof -
  have k: "unat (of_nat k :: addr) = k" using assms by (simp add: unat_of_nat take_bit_eq_mod)
  have e: "a - (d + of_nat k) = (a - d) - of_nat k" by simp
  have s: "unat ((a - d) - of_nat k) = unat (a - d) - k" if "k \<le> unat (a - d)"
    using that k by (simp add: unat_sub word_le_nat_alt)
  have big: "n - k \<le> unat ((a - d) - of_nat k)" if "unat (a - d) < k"
  proof -
    have "unat ((a - d) - of_nat k) = 2 ^ 64 + unat (a - d) - k"
      using that k by (simp add: unat_sub_if_size word_size)
    then show ?thesis using assms by linarith
  qed
  show "within a d n \<longleftrightarrow> within a d k \<or> within a (d + of_nat k) (n - k)"
    unfolding within_def e using s big assms(2) by (cases "unat (a - d) < k") auto
  show "unat (a - d) = k + unat (a - (d + of_nat k))" if "within a (d + of_nat k) (n - k)"
    using that s big unfolding within_def e by (cases "unat (a - d) < k") auto
qed


section \<open>Reading a block and letting it go\<close>

text \<open>From \<open>s\<close> to \<open>t\<close> no block, no inode and no write to the disk has changed, and the same buffers are held.\<close>

definition stays :: "nat \<Rightarrow> 32 word \<Rightarrow> 32 word set \<Rightarrow> nat set \<Rightarrow> 'a fs_st_scheme \<Rightarrow> 'a fs_st_scheme \<Rightarrow> bool" where
  "stays p dev P H s t \<longleftrightarrow> cache p dev P H t \<and> content dev t = content dev s \<and> writes t = writes s \<and>
     inodes t = inodes s \<and> buf_addr t = buf_addr s \<and> same_held s H t"

lemma stays_trans: "stays p dev P H s t \<Longrightarrow> stays p dev P H t u \<Longrightarrow> stays p dev P H s u"
  by (simp add: stays_def same_held_def)

lemma stays_refl: "cache p dev P H s \<Longrightarrow> stays p dev P H s s"
  by (simp add: stays_def)

lemma cache_mem: "cache p dev P H (s\<lparr>mem := m\<rparr>) = cache p dev P H s" "content dev (s\<lparr>mem := m\<rparr>) = content dev s"
  by (simp_all add: cache_def runs_def proc_at_def drv_idle_def content_def fun_eq_iff split: option.split)

lemma cache_upd_inode: "cache p dev P H (upd_inode ip f s) = cache p dev P H s" "content dev (upd_inode ip f s) = content dev s"
    "buf_addr (upd_inode ip f s) = buf_addr s" "bufs (upd_inode ip f s) = bufs s"
  by (simp_all add: upd_inode_def cache_def runs_def proc_at_def drv_idle_def content_def fun_eq_iff split: option.split)

definition spare :: "32 word set \<Rightarrow> nat set \<Rightarrow> bool" where
  "spare P H \<longleftrightarrow> finite P \<and> card P + card H < NBUF"

context fs_env
begin

lemma read_hold:
  assumes c: "cache p dev P H s" and sp: "spare P H" and bn: "bn < 0x80000000" "not_held s H bn"
  shows "\<exists>b t. bread e dev bn s = Ok (b, t) \<and> b < NBUF \<and> b_data (bufs t ! b) = content dev s bn \<and> mem t = mem s \<and>
    inodes t = inodes s \<and> buf_addr t = buf_addr s \<and> runs p t \<and>
    (\<forall>m. \<exists>u. brelse b (t\<lparr>mem := m\<rparr>) = Ok u \<and> stays p dev P H s u \<and> mem u = m)"
proof -
  obtain k where k: "k < NBUF" "b_refcnt (bufs s ! k) = 0" using free_buf[OF c] sp by (auto simp: spare_def)
  obtain b t where b: "bread e dev bn s = Ok (b, t)" "got p dev P H s bn b t"
    using bread_ok[OF c bn(1) _ k] bn(2) by (auto simp: not_held_def)
  note g = b(2)[unfolded got_def]
  have ct: "cache p dev P (insert b H) t" using g by simp
  have dt: "b_data (bufs t ! b) = content dev s bn"
    using content_at[OF ct, of b] held_dev[OF ct, of b] g by auto
  note f = sto_only_fields[OF bio_only_sto[of s t]]
  have rel: "\<exists>u. brelse b (t\<lparr>mem := m\<rparr>) = Ok u \<and> stays p dev P H s u \<and> mem u = m" for m
  proof -
    let ?t = "t\<lparr>mem := m\<rparr>"
    have cl: "b_blockno (bufs ?t ! b) \<in> P \<or> b_data (bufs ?t ! b) = media ?t (sector_of (b_blockno (bufs ?t ! b)))"
      using dt g clean_held[OF c _ bn(2)] by auto
    have c': "cache p dev P (insert b H) ?t" using ct by (simp add: cache_mem)
    obtain u where u: "brelse b ?t = Ok u" "cache p dev P (insert b H - {b}) u" "content dev u = content dev ?t"
      "writes u = writes ?t" "bio_only ?t u" "\<forall>i. b_blockno (bufs u ! i) = b_blockno (bufs ?t ! i)"
      using brelse_ok[OF c' insertI1 cl] by blast
    have H: "insert b H - {b} = H" using g by simp
    have "stays p dev P H s u"
      using u g f sto_only_fields[OF bio_only_sto[OF u(5)]] unfolding H stays_def by (simp add: same_held_def cache_mem)
    then show ?thesis using u(1) sto_only_fields[OF bio_only_sto[OF u(5)]] by auto
  qed
  show ?thesis using b(1) g dt f rel cacheD(1)[OF ct] by (intro exI[of _ b] exI[of _ t]) simp
qed

end


section \<open>The contents of an inode\<close>

text \<open>The inode \<open>ip\<close> of the table has the bytes \<open>F\<close>, in blocks that the process does not hold.\<close>

definition holds_bytes :: "32 word \<Rightarrow> nat set \<Rightarrow> nat \<Rightarrow> 32 word list \<Rightarrow> byte list \<Rightarrow> 'a fs_st_scheme \<Rightarrow> bool" where
  "holds_bytes dev H ip bs F s \<longleftrightarrow>
     i_dev (inode_at s ip) = dev \<and> i_size (inode_at s ip) = of_nat (length F) \<and> length F \<le> 268 * 1024 \<and>
     file_is (content dev s) (i_addrs (inode_at s ip)) bs F \<and>
     (\<forall>b \<in> own (i_addrs (inode_at s ip)) bs. b \<noteq> 0 \<and> b < 0x80000000 \<and> length (content dev s b) = 1024 \<and> not_held s H b)"

lemma holds_bytes_stays: "holds_bytes dev H ip bs F s \<Longrightarrow> stays p dev P H s t \<Longrightarrow> holds_bytes dev H ip bs F t"
  unfolding holds_bytes_def stays_def inode_at_def using not_held_same[of s H t] by (elim conjE) simp

text \<open>The memory at \<open>d\<close> is not in a buffer; nothing is at the very end of the address space.\<close>

definition outside :: "'a fs_st_scheme \<Rightarrow> addr \<Rightarrow> bool" where
  "outside s a \<longleftrightarrow> (\<forall>b < NBUF. \<not> within a (buf_addr s b) 1024)"

definition apart :: "'a fs_st_scheme \<Rightarrow> addr \<Rightarrow> nat \<Rightarrow> bool" where
  "apart s d n \<longleftrightarrow> unat d + n < 2 ^ 64 \<and> (\<forall>b < NBUF. unat (buf_addr s b) + 1024 < 2 ^ 64) \<and> (\<forall>a. within a d n \<longrightarrow> outside s a)"

lemma outside_stays: "stays p dev P H s t \<Longrightarrow> outside t = outside s" "stays p dev P H s t \<Longrightarrow> apart t = apart s"
  by (simp_all add: outside_def apart_def stays_def fun_eq_iff)

lemma apart_rest: "apart s d n \<Longrightarrow> k \<le> n \<Longrightarrow> apart s (d + of_nat k) (n - k)"
proof -
  assume a: "apart s d n" "k \<le> n"
  then have "unat (d + of_nat k) = unat d + k" by (simp add: apart_def unat_word_ariths unat_of_nat take_bit_eq_mod)
  then show ?thesis using a within_split(1)[of d n k] by (auto simp: apart_def)
qed

context fs_env
begin

lemma bmap_reads:
  assumes c: "cache p dev P H s" "spare P H" and h: "holds_bytes dev H ip bs F s" and k: "unat bn < length bs"
  shows "\<exists>t. bmap e ip bn s = Ok (bs ! unat bn, t) \<and> stays p dev P H s t \<and> mem t = mem s"
proof -
  let ?ad = "i_addrs (inode_at s ip)"
  note h' = h[unfolded holds_bytes_def]
  note hb = conjunct1[OF h'[unfolded file_is_def, THEN conjunct2, THEN conjunct2, THEN conjunct2, THEN conjunct1], unfolded has_blocks_def]
  have nz: "bs ! unat bn \<noteq> 0" using h' k by (auto simp: own_def)
  show ?thesis
  proof (cases "unat bn < 12")
    case True
    then have "bn < 12" by (simp add: word_less_nat_alt)
    moreover have "?ad ! unat bn = bs ! unat bn" using hb k True by simp
    ultimately have "bmap e ip bn s = Ok (bs ! unat bn, s)" using nz by (simp add: bmap_def Let_def)
    then show ?thesis using stays_refl[OF c(1)] by blast
  next
    case False
    have b12: "unat (bn - 12) = unat bn - 12" using False by (simp add: unat_sub word_le_nat_alt)
    have "length bs \<le> 268" using hb by simp
    then have lt: "\<not> bn < 12" "bn - 12 < 256" using False b12 k by (simp_all add: word_less_nat_alt)
    have l: "12 < length bs" using False k by simp
    then have ind: "?ad ! 12 \<in> own ?ad bs" by (simp add: own_def)
    then have i: "?ad ! 12 \<noteq> 0" "?ad ! 12 < 0x80000000" "not_held s H (?ad ! 12)" using h' by blast+
    obtain b t where b: "bread e dev (?ad ! 12) s = Ok (b, t)" "b_data (bufs t ! b) = content dev s (?ad ! 12)" "mem t = mem s"
      "\<forall>m. \<exists>u. brelse b (t\<lparr>mem := m\<rparr>) = Ok u \<and> stays p dev P H s u \<and> mem u = m"
      using read_hold[OF c i(2,3)] by blast
    have same: "t\<lparr>mem := mem t\<rparr> = t" for t :: "'a fs_st_scheme" by (cases t) simp
    obtain u where u: "brelse b t = Ok u" "stays p dev P H s u" "mem u = mem s"
      using b(4)[rule_format, of "mem t"] b(3) unfolding same by auto
    have "get32 (content dev s (?ad ! 12)) (unat bn - 12) = bs ! unat bn"
    proof -
      have "unat bn - 12 < 256" "12 + (unat bn - 12) = unat bn" using \<open>length bs \<le> 268\<close> k False by simp_all
      then show ?thesis using hb l k by (metis not_le)
    qed
    then have "bmap e ip bn s = Ok (bs ! unat bn, u)"
      using lt i(1) b(1,2) u(1) nz h' b12 by (simp add: bmap_def Let_def)
    then show ?thesis using u by blast
  qed
qed

text \<open>One turn of the loop: the bytes of a block, from \<open>off mod 1024\<close> on, are at \<open>dst\<close>.\<close>

lemma copy_from_block:
  assumes ap: "apart s dst m" and b: "b < NBUF" and l: "length X = 1024" "r + m \<le> 1024" and o: "outside s a"
  shows "memmove (put_bytes (buf_addr s b) X M) dst (buf_addr s b + of_nat r) m a = (if within a dst m then X ! (r + unat (a - dst)) else M a)"
proof -
  have ub: "unat (buf_addr s b) + 1024 < 2 ^ 64" "unat dst + m < 2 ^ 64" using ap b by (simp_all add: apart_def)
  have r: "unat (of_nat r :: addr) = r" using l(2) by (simp add: unat_of_nat take_bit_eq_mod)
  have us: "unat (buf_addr s b + of_nat r) = unat (buf_addr s b) + r" using ub r l(2) by (simp add: unat_word_ariths)
  have "put_bytes (buf_addr s b) X M (buf_addr s b + of_nat r + (a - dst)) = X ! (r + unat (a - dst))" if w: "within a dst m"
  proof -
    have "buf_addr s b + of_nat r + (a - dst) - buf_addr s b = of_nat r + (a - dst)" by simp
    moreover have "unat (of_nat r + (a - dst)) = r + unat (a - dst)"
      using w r l(2) by (simp add: within_def unat_word_ariths)
    ultimately show ?thesis using w l by (simp add: put_bytes_def within_def)
  qed
  moreover have "put_bytes (buf_addr s b) X M a = M a" using o b l(1) by (simp add: put_bytes_def outside_def)
  ultimately show ?thesis using memmove_apply[of "buf_addr s b + of_nat r" m dst] us ub l(2) by simp
qed

end

text \<open>The memory after the bytes \<open>F\<close> from \<open>off\<close> on were copied to \<open>d\<close>.\<close>

definition copied :: "'a fs_st_scheme \<Rightarrow> byte list \<Rightarrow> nat \<Rightarrow> addr \<Rightarrow> nat \<Rightarrow> 'a fs_st_scheme \<Rightarrow> bool" where
  "copied s F off d n t \<longleftrightarrow> (\<forall>a. outside s a \<longrightarrow> mem t a = (if within a d n then F ! (off + unat (a - d)) else mem s a))"

lemma copied_join:
  assumes "copied s F off d k t" "copied t F (off + k) (d + of_nat k) (n - k) u" "k \<le> n" "unat d + n < 2 ^ 64" "outside t = outside s"
  shows "copied s F off d n u"
  unfolding copied_def
proof (intro allI impI)
  fix a assume o: "outside s a"
  note w = within_split[OF assms(4,3), of a]
  show "mem u a = (if within a d n then F ! (off + unat (a - d)) else mem s a)"
    using assms(1,2,5) o w unfolding copied_def by (auto simp: add.assoc)
qed

context fs_env
begin

lemma readi_turn:
  assumes c: "cache p dev P H s" "spare P H" and h: "holds_bytes dev H ip bs F s"
    and m: "m = min (n - tot) (1024 - off mod 1024)" "tot < n" "unat off + unat m \<le> length F" and ap: "apart s dst (unat m)"
  shows "\<exists>u. readi_loop (Suc k) e ip False dst off n tot s = readi_loop k e ip False (dst + ucast m) (off + m) n (tot + m) u \<and>
    stays p dev P H s u \<and> copied s F (unat off) dst (unat m) u"
proof -
  have r: "unat (off mod 1024) = unat off mod 1024" "unat off mod 1024 < 1024" "unat (off div 1024) = unat off div 1024"
    by (simp_all add: unat_mod_distrib unat_div_distrib)
  have m0: "0 < unat m" "unat off mod 1024 + unat m \<le> 1024"
  proof -
    have "n - tot \<noteq> 0" using m(2) by auto
    moreover have q: "unat (1024 - off mod 1024) = 1024 - unat off mod 1024" using r by (simp add: unat_sub word_le_nat_alt)
    moreover have "unat m = min (unat (n - tot)) (unat (1024 - off mod 1024))" unfolding m(1) by (simp add: min_def word_le_nat_alt)
    ultimately show "0 < unat m" "unat off mod 1024 + unat m \<le> 1024" using r(2) by (simp_all add: unat_gt_0)
  qed
  note h' = h[unfolded holds_bytes_def]
  have bl: "length (content dev s b) = 1024" if "b \<in> set bs" for b using h' that by (auto simp: own_def)
  note nth = file_is_nth[of "content dev s" "i_addrs (inode_at s ip)" bs F, OF _ bl]
  have kb: "unat off div 1024 < length bs" using nth(1)[of "unat off"] h' m(3) m0(1) by simp
  let ?b = "bs ! (unat off div 1024)"
  obtain t where t: "bmap e ip (off div 1024) s = Ok (?b, t)" "stays p dev P H s t" "mem t = mem s"
    using bmap_reads[OF c h, of "off div 1024"] kb r(3) by auto
  have ct: "cache p dev P H t" using t(2) by (simp add: stays_def)
  have ht: "i_dev (inode_at t ip) = dev" using t(2) h' by (simp add: stays_def inode_at_def)
  have bo: "?b \<noteq> 0" "?b < 0x80000000" "not_held s H ?b" using h' kb by (auto simp: own_def)
  then have nh: "not_held t H ?b" using t(2) not_held_same by (auto simp: stays_def)
  obtain i v where i: "bread e dev ?b t = Ok (i, v)" "i < NBUF" "b_data (bufs v ! i) = content dev t ?b" "mem v = mem t"
    "buf_addr v = buf_addr t" "runs p v" "\<forall>M. \<exists>u. brelse i (v\<lparr>mem := M\<rparr>) = Ok u \<and> stays p dev P H t u \<and> mem u = M"
    using read_hold[OF ct c(2) bo(2) nh] by blast
  have X: "content dev t ?b = content dev s ?b" "buf_addr t = buf_addr s" using t(2) by (simp_all add: stays_def)
  let ?M = "memmove (put_bytes (buf_addr s i) (content dev s ?b) (mem s)) dst (buf_addr s i + ucast (off mod 1024)) (unat m)"
  obtain u where u: "brelse i (v\<lparr>mem := ?M\<rparr>) = Ok u" "stays p dev P H t u" "mem u = ?M" using i(7) by blast
  have um: "unat (ucast (ucast m :: 64 word) :: 32 word) = unat m"
    by (rule arg_cong[where f = unat]) (rule bit_word_eqI, simp add: bit_simps)
  have co: "either_copyout False dst (buf_addr s i + ucast (off mod 1024)) (ucast m) (show_buf i v) = Ok (0, v\<lparr>mem := ?M\<rparr>)"
    using i(3-6) t(3) X runsD(6)[OF i(6)] um by (simp add: either_copyout_def show_buf_def myproc_def runs_def)
  have "readi_loop (Suc k) e ip False dst off n tot s = readi_loop k e ip False (dst + ucast m) (off + m) n (tot + m) u"
    by (subst readi_loop.simps) (use m(1,2) t(1) bo(1) ht i(1,5) X co u(1) in \<open>simp add: Let_def show_buf_def\<close>)
  moreover have "copied s F (unat off) dst (unat m) u"
    unfolding copied_def
  proof (intro allI impI)
    fix a assume o: "outside s a"
    have uc: "(ucast (off mod 1024) :: addr) = of_nat (unat off mod 1024)" by (simp only: r(1)[symmetric] of_nat_unat)
    have "F ! (unat off + unat (a - dst)) = content dev s ?b ! (unat off mod 1024 + unat (a - dst))" if w: "within a dst (unat m)"
    proof -
      let ?j = "unat off + unat (a - dst)"
      have j: "?j < length F" "unat off mod 1024 + unat (a - dst) < 1024" using w m(3) m0(2) by (simp_all add: within_def)
      have "?j = 1024 * (unat off div 1024) + (unat off mod 1024 + unat (a - dst))" by simp
      then have "?j div 1024 = unat off div 1024" "?j mod 1024 = unat off mod 1024 + unat (a - dst)"
        using j(2) by (metis div_mult_self4 div_less add.right_neutral zero_neq_numeral, metis mod_mult_self4 mod_less)
      then show ?thesis using nth(2)[of ?j] h' j(1) by simp
    qed
    then show "mem u a = (if within a dst (unat m) then F ! (unat off + unat (a - dst)) else mem s a)"
      unfolding u(3) uc using copy_from_block[OF ap i(2) bl[OF nth_mem[OF kb]] m0(2) o] by simp
  qed
  ultimately show ?thesis using stays_trans[OF t(2) u(2)] by blast
qed

lemma readi_loop_ok:
  assumes "cache p dev P H s" "spare P H" "holds_bytes dev H ip bs F s" "tot \<le> n" "unat off + (unat n - unat tot) \<le> length F"
    and "apart s dst (unat n - unat tot)" "unat n - unat tot \<le> k"
  shows "\<exists>t. readi_loop k e ip False dst off n tot s = Ok (n, t) \<and> stays p dev P H s t \<and>
    copied s F (unat off) dst (unat n - unat tot) t"
  using assms
proof (induction k arbitrary: s tot off dst)
  case 0
  then have "\<not> tot < n" "tot = n" by (simp_all add: word_less_nat_alt word_le_nat_alt word_unat_eq_iff)
  then show ?case using 0(1) by (intro exI[of _ s], subst readi_loop.simps) (simp add: stays_refl copied_def)
next
  case (Suc k)
  show ?case
  proof (cases "tot < n")
    case False
    then have "tot = n" using Suc.prems(4) by simp
    then show ?thesis using Suc.prems(1) by (intro exI[of _ s], subst readi_loop.simps) (simp add: stays_refl copied_def)
  next
    case True
    define m where "m = min (n - tot) (1024 - off mod 1024)"
    let ?N = "unat n - unat tot"
    have nt: "unat (n - tot) = ?N" using Suc.prems(4) by (simp add: unat_sub word_le_nat_alt)
    have q: "unat (1024 - off mod 1024) = 1024 - unat off mod 1024" by (simp add: unat_sub word_le_nat_alt unat_mod_distrib)
    have um: "unat m = min ?N (1024 - unat off mod 1024)" unfolding m_def by (simp add: min_def word_le_nat_alt nt q)
    have N: "0 < ?N" using True by (simp add: word_less_nat_alt)
    have mN: "unat m \<le> ?N" "0 < unat m" using um N by auto
    have ap: "apart s dst (unat m)"
    proof -
      have "within a dst (unat m) \<Longrightarrow> within a dst ?N" for a using within_mono mN(1) by blast
      then show ?thesis using Suc.prems(6) mN(1) unfolding apart_def by auto
    qed
    have fit: "unat off + unat m \<le> length F" using Suc.prems(5) mN(1) by simp
    obtain u where u: "readi_loop (Suc k) e ip False dst off n tot s = readi_loop k e ip False (dst + ucast m) (off + m) n (tot + m) u"
      "stays p dev P H s u" "copied s F (unat off) dst (unat m) u"
      using readi_turn[OF Suc.prems(1-3) m_def True fit ap] by blast
    have F: "length F < 2 ^ 32" using Suc.prems(3) by (simp add: holds_bytes_def)
    have ut: "unat (tot + m) = unat tot + unat m"
    proof -
      have "unat tot + unat m \<le> unat n" using mN(1) N by linarith
      then have "unat tot + unat m < 2 ^ 32" using unsigned_less[of n, where 'a = nat] by simp
      then show ?thesis by (simp add: unat_word_ariths)
    qed
    have uo: "unat (off + m) = unat off + unat m" using fit F by (simp add: unat_word_ariths)
    have um64: "(ucast m :: addr) = of_nat (unat m)" by (simp only: of_nat_unat)
    have rest: "unat n - unat (tot + m) = ?N - unat m" using ut by simp
    have "\<exists>t. readi_loop k e ip False (dst + ucast m) (off + m) n (tot + m) u = Ok (n, t) \<and> stays p dev P H u t \<and>
      copied u F (unat (off + m)) (dst + ucast m) (unat n - unat (tot + m)) t"
    proof (rule Suc.IH)
      show "cache p dev P H u" using u(2) by (simp add: stays_def)
      show "holds_bytes dev H ip bs F u" by (rule holds_bytes_stays[OF Suc.prems(3) u(2)])
      show "tot + m \<le> n" using ut mN(1) N by (simp add: word_le_nat_alt)
      show "unat (off + m) + (unat n - unat (tot + m)) \<le> length F" using Suc.prems(5) mN(1) unfolding rest uo by simp
      show "apart u (dst + ucast m) (unat n - unat (tot + m))"
        using apart_rest[OF Suc.prems(6) mN(1)] unfolding rest um64 outside_stays(2)[OF u(2)] .
      show "unat n - unat (tot + m) \<le> k" using Suc.prems(7) mN(2) unfolding rest by linarith
    qed (rule Suc.prems(2))
    then obtain t where t: "readi_loop k e ip False (dst + ucast m) (off + m) n (tot + m) u = Ok (n, t)" "stays p dev P H u t"
      "copied u F (unat off + unat m) (dst + of_nat (unat m)) (?N - unat m) t" unfolding rest uo um64 by blast
    have "unat dst + ?N < 2 ^ 64" using Suc.prems(6) by (simp add: apart_def)
    then have "copied s F (unat off) dst ?N t"
      using copied_join[OF u(3) t(3) mN(1)] outside_stays(1)[OF u(2)] by blast
    then show ?thesis using u(1) t(1) stays_trans[OF u(2) t(2)] by (intro exI[of _ t]) simp
  qed
qed

lemma readi_ok:
  assumes c: "cache p dev P H s" "spare P H" and h: "holds_bytes dev H ip bs F s" and off: "unat off \<le> length F" "unat off + unat n < 2 ^ 32"
    and ap: "apart s dst (min (unat n) (length F - unat off))"
  shows "\<exists>t. readi e ip False dst off n s = Ok (int (min (unat n) (length F - unat off)), t) \<and> stays p dev P H s t \<and>
    copied s F (unat off) dst (min (unat n) (length F - unat off)) t"
proof -
  note h' = h[unfolded holds_bytes_def]
  define N where "N = min (unat n) (length F - unat off)"
  have sz: "i_size (inode_at s ip) = of_nat (length F)" "length F \<le> 268 * 1024" using h' by simp_all
  have us: "unat (of_nat (length F) :: 32 word) = length F" using sz(2) by (simp add: unat_of_nat take_bit_eq_mod)
  have uon: "unat (off + n) = unat off + unat n" using off(2) by (simp add: unat_word_ariths)
  define n' where "n' = (if of_nat (length F) < off + n then of_nat (length F) - off else n)"
  have un: "unat n' = N"
    unfolding n'_def N_def using off us uon by (auto simp: word_less_nat_alt unat_sub word_le_nat_alt)
  have ok: "\<not> of_nat (length F) < off" "\<not> off + n < off" using off us uon by (simp_all add: word_less_nat_alt)
  have pre: "(0 :: 32 word) \<le> n'" "unat off + (unat n' - unat (0 :: 32 word)) \<le> length F" "apart s dst (unat n' - unat (0 :: 32 word))"
    "unat n' - unat (0 :: 32 word) \<le> unat n'" using un ap off(1) by (simp_all add: N_def)
  obtain t where t: "readi_loop (unat n') e ip False dst off n' 0 s = Ok (n', t)" "stays p dev P H s t" "copied s F (unat off) dst N t"
    using readi_loop_ok[OF c h pre] un by auto
  have "N < 2 ^ 31" using sz(2) unfolding N_def by simp
  moreover have "n' = of_nat N" using un by (metis of_nat_unat ucast_id)
  ultimately have "sint n' = int N" by (simp add: signed_of_nat signed_take_bit_int_eq_self)
  then have "readi e ip False dst off n s = Ok (int N, t)"
    using t(1) ok sz(1) by (simp add: readi_def Let_def n'_def)
  then show ?thesis using t(2,3) unfolding N_def by blast
qed

text \<open>The inode is loaded when it is locked for the first time.\<close>

lemma ilock_loads:
  fixes s :: "'a fs_st_scheme" and ip :: nat
  defines "k \<equiv> inode_at s ip"
  assumes c: "cache p dev P H s" "spare P H"
    and k: "ip < length (inodes s)" "1 \<le> i_ref k" "\<not> i_valid k" "i_dev k = dev" "\<not> sl_locked (sleeplocks s (SL_inode ip))"
    and B: "IBLOCK (i_inum k) (superb s) < 0x80000000" "not_held s H (IBLOCK (i_inum k) (superb s))"
    and di: "di = inode_on (content dev s) (superb s) (i_inum k)" "di_type di \<noteq> 0"
  shows "\<exists>t. ilock e ip s = Ok t \<and> cache p dev P H t \<and> content dev t = content dev s \<and> inode_at t ip = load_inode di k \<and>
    buf_addr t = buf_addr s \<and> same_held s H t"
proof -
  define v where "v = upd_sleeplock (SL_inode ip) (\<lambda>_. \<lparr>sl_locked = True, sl_pid = p_pid (proc_at s p)\<rparr>) s"
  have a: "acquiresleep e (SL_inode ip) s = Ok v" unfolding v_def using cacheD(1)[OF c(1)] k(5) by (rule acquiresleep_free)
  have v: "bufs v = bufs s" "media v = media s" "inodes v = inodes s" "superb v = superb s" "buf_addr v = buf_addr s" "procs v = procs s"
    "curproc v = curproc s" "held v = held s" "vq v = vq s" "sleeplocks v (SL_buf i) = sleeplocks s (SL_buf i)" for i
    by (simp_all add: v_def upd_sleeplock_def)
  have cv: "cache p dev P H v" using c(1) by (simp add: cache_def runs_def proc_at_def drv_idle_def v)
  have cc: "content dev v = content dev s" by (simp add: content_def v fun_eq_iff split: option.split)
  have kv: "inode_at v ip = k" by (simp add: k_def inode_at_def v)
  let ?B = "IBLOCK (i_inum k) (superb s)"
  have nh: "not_held v H ?B" using B(2) by (simp add: not_held_def v)
  obtain b t where b: "bread e dev ?B v = Ok (b, t)" "b_data (bufs t ! b) = content dev v ?B" "mem t = mem v" "inodes t = inodes v"
    "\<forall>m. \<exists>u. brelse b (t\<lparr>mem := m\<rparr>) = Ok u \<and> stays p dev P H v u \<and> mem u = m"
    using read_hold[OF cv c(2) B(1) nh] by blast
  have same: "t\<lparr>mem := mem t\<rparr> = t" by (cases t) simp
  obtain u where u: "brelse b t = Ok u" "stays p dev P H v u" using b(5)[rule_format, of "mem t"] unfolding same by blast
  note U = u(2)[unfolded stays_def]
  have kt: "inode_at t ip = k" "inode_at u ip = k" using kv b(4) U by (simp_all add: inode_at_def)
  have d: "get_dinode (b_data (bufs t ! b)) (i_inum k) = di" using b(2) di(1) cc by (simp add: inode_on_def)
  let ?w = "upd_inode ip (load_inode di) u"
  have kw: "inode_at ?w ip = load_inode di k" using kt(2) k(1) U v by (simp add: inode_at_def upd_inode_def)
  have "ilock e ip s = Ok ?w"
    using a k kv v(4) b(1) u(1) kt d kw di(2) by (simp add: ilock_def assertk_def k_def[symmetric] Let_def) (simp add: load_inode_def)
  moreover have "cache p dev P H ?w" "content dev ?w = content dev s" "buf_addr ?w = buf_addr s" "same_held s H ?w"
    using U cc v(1,5) by (simp_all add: cache_upd_inode same_held_def)
  ultimately show ?thesis using kw by blast
qed

end

end
