(* ===== verification/K_Writei.thy ===== *)
theory K_Writei
  imports K_Readi
begin

text \<open>
  \<open>writei\<close> of \<open>fs.c\<close> from the kernel's memory: in place and past the end of the file, with the blocks that \<open>bmap\<close>
  allocates on the way.
\<close>

section \<open>Free blocks and those of a file\<close>

definition in_map :: "superblock \<Rightarrow> 32 word set" where
  "in_map sb = (\<lambda>c. BBLOCK c sb) ` {c. c < sb_size sb}"

definition free_blocks :: "image \<Rightarrow> superblock \<Rightarrow> 32 word set" where
  "free_blocks C sb = {b. b < sb_size sb \<and> free_at C sb b}"

text \<open>The map does not give out block 0 or a block of its own.\<close>

definition map_ok :: "image \<Rightarrow> superblock \<Rightarrow> bool" where
  "map_ok C sb \<longleftrightarrow> (\<forall>b \<in> in_map sb. length (C b) = 1024) \<and> 0 \<notin> free_blocks C sb \<and> free_blocks C sb \<inter> in_map sb = {}"

definition used_ok :: "image \<Rightarrow> superblock \<Rightarrow> 32 word set \<Rightarrow> bool" where
  "used_ok C sb A \<longleftrightarrow> (\<forall>b \<in> A. b < sb_size sb \<and> b \<noteq> 0 \<and> b \<notin> free_blocks C sb \<and> b \<notin> in_map sb \<and> length (C b) = 1024)"

text \<open>The blocks after \<open>b\<close> is allocated.\<close>

definition taking :: "superblock \<Rightarrow> 32 word \<Rightarrow> image \<Rightarrow> image" where
  "taking sb b C = (marked sb b C)(b := replicate 1024 0)"

lemma marked_other: "c \<notin> in_map sb \<Longrightarrow> b < sb_size sb \<Longrightarrow> marked sb b C c = C c"
  by (auto simp: marked_def in_map_def)

lemma set_bit_length [simp]: "length (set_bit_of k d) = length d"
  by (simp add: set_bit_of_def)

lemma taking_ok:
  assumes m: "map_ok C sb" and b: "b \<in> free_blocks C sb"
  shows "free_blocks (taking sb b C) sb = free_blocks C sb - {b}" "map_ok (taking sb b C) sb"
    "used_ok C sb A \<Longrightarrow> used_ok (taking sb b C) sb (insert b A)"
    "c \<notin> in_map sb \<Longrightarrow> c \<noteq> b \<Longrightarrow> taking sb b C c = C c" "taking sb b C b = zeroes"
proof -
  have b': "b < sb_size sb" "b \<noteq> 0" "b \<notin> in_map sb" using m b by (auto simp: map_ok_def free_blocks_def)
  have mapped: "taking sb b C (BBLOCK c sb) = marked sb b C (BBLOCK c sb)" if "c < sb_size sb" for c
    using that b'(3) by (auto simp: taking_def in_map_def)
  have l: "length (C (BBLOCK b sb)) = 1024" using m b'(1) by (auto simp: map_ok_def in_map_def)
  have f: "free_at (taking sb b C) sb c = (free_at C sb c \<and> c \<noteq> b)" if "c < sb_size sb" for c
    using free_at_marked(1)[of C b sb c] l mapped[OF that] by (simp add: free_at_def)
  then show fb: "free_blocks (taking sb b C) sb = free_blocks C sb - {b}" by (auto simp: free_blocks_def)
  have "length (taking sb b C c) = 1024" if "c \<in> in_map sb" for c
    using that m by (auto simp: taking_def marked_def map_ok_def)
  then show "map_ok (taking sb b C) sb" using m by (auto simp: map_ok_def fb)
  show other: "taking sb b C c = C c" if "c \<notin> in_map sb" "c \<noteq> b" for c
    using that marked_other[OF that(1) b'(1), of C] by (simp add: taking_def)
  show z: "taking sb b C b = zeroes" by (simp add: taking_def zeroes_def)
  show "used_ok (taking sb b C) sb (insert b A)" if u: "used_ok C sb A"
    unfolding used_ok_def
  proof
    fix c assume c: "c \<in> insert b A"
    show "c < sb_size sb \<and> c \<noteq> 0 \<and> c \<notin> free_blocks (taking sb b C) sb \<and> c \<notin> in_map sb \<and> length (taking sb b C c) = 1024"
    proof (cases "c = b")
      case True
      then show ?thesis using b' fb z by (simp add: zeroes_def)
    next
      case False
      then show ?thesis using u c other[of c] fb by (auto simp: used_ok_def)
    qed
  qed
qed

lemma used_ok_cong: "used_ok C sb A \<Longrightarrow> free_blocks D sb = free_blocks C sb \<Longrightarrow> (\<And>b. b \<in> A \<Longrightarrow> length (D b) = length (C b)) \<Longrightarrow> used_ok D sb A"
  by (simp add: used_ok_def)

lemma free_blocks_cong: "(\<And>b. b \<in> in_map sb \<Longrightarrow> D b = C b) \<Longrightarrow> free_blocks D sb = free_blocks C sb"
  by (auto simp: free_blocks_def free_at_def in_map_def)

lemma map_ok_cong: "(\<And>b. b \<in> in_map sb \<Longrightarrow> D b = C b) \<Longrightarrow> map_ok D sb = map_ok C sb"
  using free_blocks_cong[of sb D C] by (simp add: map_ok_def)

section \<open>Allocating\<close>

text \<open>The buffers that the process holds are not those of the map and not of free blocks.\<close>

definition clear_of_map :: "'a fs_st_scheme \<Rightarrow> nat set \<Rightarrow> 32 word \<Rightarrow> bool" where
  "clear_of_map s H dev \<longleftrightarrow> (\<forall>i \<in> H. b_blockno (bufs s ! i) \<notin> in_map (superb s) \<union> free_blocks (content dev s) (superb s))"

lemma clear_of_map_empty [simp]: "clear_of_map s {} dev"
  by (simp add: clear_of_map_def)

context fs_env
begin

lemma balloc_some:
  assumes x: "tx p dev S L H s" "sb_ok (superb s)" "\<not> panicking s" "room 2 L H" and h: "clear_of_map s H dev"
    and m: "map_ok (content dev s) (superb s)" "free_blocks (content dev s) (superb s) \<noteq> {}"
  shows "\<exists>b t L'. balloc e dev s = Ok (b, t) \<and> b \<in> free_blocks (content dev s) (superb s) \<and> b \<noteq> 0 \<and> tx p dev S L' H t \<and>
    length L' \<le> length L + 2 \<and> content dev t = taking (superb s) b (content dev s) \<and> sto_only s t \<and> same_held s H t"
proof -
  let ?C = "content dev s" and ?sb = "superb s"
  obtain b where b: "first_free ?C ?sb = Some b"
  proof (cases "first_free ?C ?sb")
    case None
    then show ?thesis using m(2) first_free_None[OF None] by (auto simp: free_blocks_def)
  qed
  have bf: "b \<in> free_blocks ?C ?sb" using first_free_Some[OF x(2) b] by (simp add: free_blocks_def)
  have h': "\<forall>c < sb_size ?sb. not_held s H (BBLOCK c ?sb) \<and> (first_free ?C ?sb = Some c \<longrightarrow> not_held s H c)"
    using h bf b by (auto simp: clear_of_map_def not_held_def in_map_def)
  obtain r t where t: "balloc e dev s = Ok (r, t)" "sto_only s t" "same_held s H t"
    "r = b" "tx p dev S (absorb b (absorb (BBLOCK b ?sb) L)) H t" "content dev t = (marked ?sb b ?C)(b := replicate 1024 0)"
    using balloc_ok[OF x h'] b by auto
  have "length (absorb b (absorb (BBLOCK b ?sb) L)) \<le> length L + 2"
    using length_absorb[of b "absorb (BBLOCK b ?sb) L"] length_absorb[of "BBLOCK b ?sb" L] by simp
  moreover have "b \<noteq> 0" using m(1) bf by (auto simp: map_ok_def)
  ultimately show ?thesis using t bf by (auto simp: taking_def)
qed

end

text \<open>The second half of \<open>bmap\<close>: the entry \<open>j\<close> of the indirect block.\<close>

definition ind_entry :: "'a fs_st_scheme kenv \<Rightarrow> 32 word \<Rightarrow> 32 word \<Rightarrow> nat \<Rightarrow> 'a fs_st_scheme \<Rightarrow> (32 word \<times> 'a fs_st_scheme) res" where
  "ind_entry e dev ind j s =
     bnd (bread e dev ind s) (\<lambda>(bp, s).
       let addr = get32 (b_data (bufs s ! bp)) j in
       bnd (if addr = 0
            then bnd (balloc e dev s) (\<lambda>(addr, s).
                   if addr \<noteq> 0
                   then bnd (log_write bp (set_data bp (put32 j addr (b_data (bufs s ! bp))) s)) (\<lambda>s. Ok (addr, s))
                   else Ok (0, s))
            else Ok (addr, s)) (\<lambda>(addr, s).
       bnd (brelse bp s) (\<lambda>s. Ok (addr, s))))"

lemma bmap_direct:
  "bn < 12 \<Longrightarrow> i_addrs (inode_at s ip) ! unat bn \<noteq> 0 \<Longrightarrow> bmap e ip bn s = Ok (i_addrs (inode_at s ip) ! unat bn, s)"
  "bn < 12 \<Longrightarrow> i_addrs (inode_at s ip) ! unat bn = 0 \<Longrightarrow> bmap e ip bn s =
     bnd (balloc e (i_dev (inode_at s ip)) s) (\<lambda>(addr, s).
       if addr = 0 then Ok (0, s) else Ok (addr, upd_inode ip (\<lambda>k. k\<lparr>i_addrs := (i_addrs k)[unat bn := addr]\<rparr>) s))"
  by (simp_all add: bmap_def Let_def)

lemma bmap_indirect:
  assumes "\<not> bn < 12" "bn - 12 < 256"
  shows "i_addrs (inode_at s ip) ! 12 \<noteq> 0 \<Longrightarrow>
      bmap e ip bn s = ind_entry e (i_dev (inode_at s ip)) (i_addrs (inode_at s ip) ! 12) (unat (bn - 12)) s"
    "i_addrs (inode_at s ip) ! 12 = 0 \<Longrightarrow> balloc e (i_dev (inode_at s ip)) s = Ok (ind, t) \<Longrightarrow> ind \<noteq> 0 \<Longrightarrow>
      bmap e ip bn s = ind_entry e (i_dev (inode_at s ip)) ind (unat (bn - 12)) (upd_inode ip (\<lambda>k. k\<lparr>i_addrs := (i_addrs k)[12 := ind]\<rparr>) t)"
  using assms by (simp_all add: bmap_def ind_entry_def Let_def)

context fs_env
begin

lemma ind_entry_old:
  assumes x: "tx p dev S L {} s" "room 1 L {}" and ind: "ind < 0x80000000" "get32 (content dev s ind) j = a" "a \<noteq> 0"
  shows "\<exists>t. ind_entry e dev ind j s = Ok (a, t) \<and> tx p dev S L {} t \<and> content dev t = content dev s \<and> sto_only s t"
proof -
  obtain b t where t: "bread e dev ind s = Ok (b, t)" "b \<notin> {}" "tx p dev S L (insert b {}) t" "b_blockno (bufs t ! b) = ind"
    "b_data (bufs t ! b) = content dev s ind" "content dev t = content dev s" "media t = media s" "sto_only s t"
    using read_block[OF x(1) ind(1) _ x(2)] by auto
  have cl: "b_blockno (bufs t ! b) \<in> set L \<or> b_data (bufs t ! b) = media t (sector_of (b_blockno (bufs t ! b)))"
    using t(4,5,7) clean_held[OF txD(1)[OF x(1)], of ind] by auto
  obtain u where u: "brelse b t = Ok u" "tx p dev S L {} u" "content dev u = content dev t" "sto_only t u"
    using let_go[OF t(3,2) cl] by blast
  have "ind_entry e dev ind j s = Ok (a, u)" using t(1,5) u(1) ind(2,3) by (simp add: ind_entry_def)
  then show ?thesis using u t(6) sto_only_trans[OF t(8) u(4)] by auto
qed

lemma ind_entry_new:
  assumes x: "tx p dev S L {} s" "sb_ok (superb s)" "\<not> panicking s" "room 4 L {}"
    and m: "map_ok (content dev s) (superb s)" "free_blocks (content dev s) (superb s) \<noteq> {}"
    and ind: "used_ok (content dev s) (superb s) {ind}" "get32 (content dev s ind) j = 0"
  shows "\<exists>b t L'. ind_entry e dev ind j s = Ok (b, t) \<and> b \<in> free_blocks (content dev s) (superb s) \<and> b \<noteq> 0 \<and> tx p dev S L' {} t \<and>
    length L' \<le> length L + 3 \<and> content dev t = (taking (superb s) b (content dev s))(ind := put32 j b (content dev s ind)) \<and> sto_only s t"
proof -
  let ?C = "content dev s" and ?sb = "superb s"
  have i: "ind < 0x80000000" "ind \<notin> in_map ?sb" "ind \<notin> free_blocks ?C ?sb" using ind(1) small_block[OF x(2)] by (auto simp: used_ok_def)
  have r1: "room 1 L {}" using x(4) by (rule room_less) simp
  obtain bp t where t: "bread e dev ind s = Ok (bp, t)" "tx p dev S L {bp} t" "b_blockno (bufs t ! bp) = ind"
    "b_data (bufs t ! bp) = ?C ind" "content dev t = ?C" "sto_only s t"
    using read_block[OF x(1) i(1) _ r1] by auto
  note f = sto_only_fields[OF t(6)]
  have y: "sb_ok (superb t)" "\<not> panicking t" "room 2 L {bp}" "clear_of_map t {bp} dev" "map_ok (content dev t) (superb t)"
    "free_blocks (content dev t) (superb t) \<noteq> {}"
    using x(2-4) m i t(3,5) f by (simp_all add: room_def clear_of_map_def)
  obtain b u L' where u: "balloc e dev t = Ok (b, u)" "b \<in> free_blocks (content dev t) (superb t)" "b \<noteq> 0" "tx p dev S L' {bp} u"
    "length L' \<le> length L + 2" "content dev u = taking (superb t) b (content dev t)" "sto_only t u" "same_held t {bp} u"
    using balloc_some[OF t(2) y] by blast
  have bi: "b_blockno (bufs u ! bp) = ind" using u(8) t(3) by (simp add: same_held_def)
  have ne: "ind \<noteq> b" using i(3) u(2) t(5) f by auto
  have Ci: "content dev u ind = ?C ind" using taking_ok(4)[OF m(1), of b ind] u(2,6) t(5) f i(2) ne by simp
  have cu: "cache p dev (set L') {bp} u" using u(4) by (simp add: tx_def)
  have bd: "b_data (bufs u ! bp) = ?C ind"
    using content_at[OF cu, of bp] held_dev[OF cu, of bp] cacheD(6)[OF cu, of bp] bi Ci by simp
  have n: "length L' < LOGBLOCKS" using u(5) x(4) by (simp add: room_def)
  have u4: "tx p dev S L' (insert bp {}) u" using u(4) by simp
  obtain v where v: "bnd (log_write bp (set_data bp (put32 j b (?C ind)) u)) (brelse bp) = Ok v"
    "tx p dev S (absorb (b_blockno (bufs u ! bp)) L') {} v" "content dev v = (content dev u)(b_blockno (bufs u ! bp) := put32 j b (?C ind))"
    "sto_only u v"
    using put_block[OF u4 _ n, of "put32 j b (?C ind)"] by auto
  have "ind_entry e dev ind j s = Ok (b, v)"
  proof -
    obtain w where w: "log_write bp (set_data bp (put32 j b (?C ind)) u) = Ok w" "brelse bp w = Ok v"
      using v(1) by (auto simp: bnd_eq_Ok)
    then show ?thesis using t(1,4) u(1,3) ind(2) bd by (simp add: ind_entry_def)
  qed
  moreover have "length (absorb (b_blockno (bufs u ! bp)) L') \<le> length L + 3" using length_absorb[of "b_blockno (bufs u ! bp)" L'] u(5) by simp
  moreover have "sto_only s v" by (rule sto_only_trans[OF sto_only_trans[OF t(6) u(7)] v(4)])
  ultimately show ?thesis using v(2,3) u(2,3,6) t(5) f bi by (intro exI[of _ b] exI[of _ v]) auto
qed

end

section \<open>A file and its next block\<close>

definition file_at :: "image \<Rightarrow> superblock \<Rightarrow> 32 word list \<Rightarrow> 32 word list \<Rightarrow> bool" where
  "file_at C sb ad bs \<longleftrightarrow> has_blocks C ad bs \<and> own_ok ad bs \<and> used_ok C sb (own ad bs) \<and> map_ok C sb"

text \<open>From the content \<open>C\<close> to \<open>D\<close> the file has got at most blocks that were free, and nothing else but the map has changed.\<close>

definition grown :: "image \<Rightarrow> superblock \<Rightarrow> 32 word list \<Rightarrow> 32 word list \<Rightarrow> image \<Rightarrow> 32 word list \<Rightarrow> 32 word list \<Rightarrow> bool" where
  "grown C sb ad bs D ad' bs' \<longleftrightarrow> file_at D sb ad' bs' \<and> own ad bs \<subseteq> own ad' bs' \<and> own ad' bs' \<subseteq> own ad bs \<union> free_blocks C sb \<and>
     free_blocks D sb = free_blocks C sb - own ad' bs' \<and> (\<forall>b \<in> set bs. D b = C b) \<and>
     (\<forall>b. b \<notin> own ad' bs' \<longrightarrow> b \<notin> in_map sb \<longrightarrow> D b = C b)"

lemma grown_refl: "file_at C sb ad bs \<Longrightarrow> grown C sb ad bs C ad bs"
  by (auto simp: grown_def file_at_def used_ok_def)

lemma grow_direct:
  assumes f: "file_at C sb ad bs" and n: "length bs < 12" and b: "b \<in> free_blocks C sb"
  shows "grown C sb ad bs (taking sb b C) (ad[length bs := b]) (bs @ [b])"
proof -
  note F = f[unfolded file_at_def]
  have m: "map_ok C sb" using F by simp
  note T = taking_ok[OF m b]
  have o: "own ad bs = set bs" "own (ad[length bs := b]) (bs @ [b]) = insert b (set bs)" using n by (auto simp: own_def)
  have nb: "b \<notin> set bs" using F b o by (auto simp: used_ok_def)
  have "has_blocks (taking sb b C) (ad[length bs := b]) (bs @ [b])" using has_blocks_snoc[of C ad bs] F n by blast
  moreover have "own_ok (ad[length bs := b]) (bs @ [b])" using F nb n by (simp add: own_ok_def)
  moreover have "used_ok (taking sb b C) sb (insert b (set bs))" using T(3) F o by simp
  ultimately have "file_at (taking sb b C) sb (ad[length bs := b]) (bs @ [b])" using T(2) o by (simp add: file_at_def)
  moreover have "free_blocks C sb \<inter> set bs = {}" using F o by (auto simp: used_ok_def)
  moreover have "taking sb b C c = C c" if "c \<in> set bs" for c using T(4)[of c] F o nb that by (auto simp: used_ok_def)
  ultimately show ?thesis using T(1,4) b nb by (auto simp: grown_def o)
qed

lemma grow_indirect:
  assumes f: "file_at C sb ad bs" and n: "12 < length bs" "length bs < 268" and b: "b \<in> free_blocks C sb"
  defines "D \<equiv> (taking sb b C)(ad ! 12 := put32 (length bs - 12) b (C (ad ! 12)))"
  shows "grown C sb ad bs D ad (bs @ [b])"
proof -
  note F = f[unfolded file_at_def]
  have m: "map_ok C sb" using F by simp
  note T = taking_ok[OF m b]
  have o: "own ad bs = insert (ad ! 12) (set bs)" "own ad (bs @ [b]) = insert b (own ad bs)" using n by (auto simp: own_def)
  have u: "used_ok C sb (own ad bs)" using F by simp
  have nb: "b \<notin> own ad bs" using u b by (auto simp: used_ok_def)
  have i: "ad ! 12 \<notin> in_map sb" "length (C (ad ! 12)) = 1024" "ad ! 12 \<notin> set bs" "ad ! 12 \<noteq> b" using u F n nb o by (auto simp: used_ok_def own_ok_def)
  have t12: "taking sb b C (ad ! 12) = C (ad ! 12)" using T(4) i by blast
  have "has_blocks (C(ad ! 12 := put32 (length bs - 12) b (C (ad ! 12)))) ad (bs @ [b])"
    using has_blocks_indirect[of C ad bs b] F n i(2) by simp
  then have h: "has_blocks D ad (bs @ [b])" using has_blocks_cong[of "bs @ [b]" D ad "C(ad ! 12 := put32 (length bs - 12) b (C (ad ! 12)))"] by (simp add: D_def)
  have dm: "D c = taking sb b C c" if "c \<in> in_map sb" for c using that i(1) by (auto simp: D_def)
  have fD: "free_blocks D sb = free_blocks C sb - {b}" using free_blocks_cong[OF dm] T(1) by simp
  have "used_ok D sb (insert b (own ad bs))"
    by (rule used_ok_cong[OF T(3)[OF u]]) (use fD T(1) i(2) t12 in \<open>simp_all add: D_def\<close>)
  moreover have "map_ok D sb" using map_ok_cong[OF dm] T(2) by simp
  moreover have "own_ok ad (bs @ [b])" using F nb i o by (auto simp: own_ok_def)
  ultimately have fa: "file_at D sb ad (bs @ [b])" using h o by (simp add: file_at_def)
  have same: "D c = C c" if "c \<in> set bs" for c using T(4)[of c] u o nb i(3) that by (auto simp: D_def used_ok_def)
  have rest: "D c = C c" if "c \<notin> own ad (bs @ [b])" "c \<notin> in_map sb" for c using T(4)[of c] o that by (auto simp: D_def)
  have "free_blocks C sb \<inter> own ad bs = {}" using u by (auto simp: used_ok_def)
  then have "free_blocks D sb = free_blocks C sb - own ad (bs @ [b])" using fD o by auto
  then show ?thesis using fa same rest b o unfolding grown_def by auto
qed

lemma grow_first:
  assumes f: "file_at C sb ad bs" and n: "length bs = 12" and y: "y \<in> free_blocks C sb" and b: "b \<in> free_blocks (taking sb y C) sb"
  defines "D \<equiv> (taking sb b (taking sb y C))(y := put32 0 b zeroes)"
  shows "grown C sb ad bs D (ad[12 := y]) (bs @ [b])"
proof -
  note F = f[unfolded file_at_def]
  have m: "map_ok C sb" using F by simp
  note T = taking_ok[OF m y]
  note U = taking_ok[OF T(2) b]
  have l: "length ad = 13" using F by (simp add: has_blocks_def)
  have o: "own ad bs = set bs" "own (ad[12 := y]) (bs @ [b]) = insert b (insert y (set bs))" using n l by (auto simp: own_def)
  have u: "used_ok C sb (set bs)" using F o by simp
  have bfy: "b \<noteq> y" "b \<in> free_blocks C sb" using b T(1) by auto
  have nb: "y \<notin> set bs" "b \<notin> set bs" "y \<noteq> 0" "y \<notin> in_map sb" using u bfy y m by (auto simp: used_ok_def map_ok_def)
  have ty: "taking sb b (taking sb y C) y = zeroes" using U(4)[OF nb(4)] bfy(1) T(5) by simp
  have "has_blocks ((taking sb y C)(y := put32 0 b zeroes)) (ad[12 := y]) (bs @ [b])"
    using has_blocks_first[of "taking sb y C" ad bs y b] has_blocks_cong[of bs "taking sb y C" ad C] F n nb(3) T(5) by simp
  then have h: "has_blocks D (ad[12 := y]) (bs @ [b])"
    using has_blocks_cong[of "bs @ [b]" D "ad[12 := y]" "(taking sb y C)(y := put32 0 b zeroes)"] l by (simp add: D_def)
  have dm: "D c = taking sb b (taking sb y C) c" if "c \<in> in_map sb" for c using that nb(4) by (auto simp: D_def)
  have fD: "free_blocks D sb = free_blocks C sb - {y, b}" using free_blocks_cong[OF dm] U(1) T(1) by auto
  have "used_ok D sb (insert b (insert y (set bs)))"
    by (rule used_ok_cong[OF U(3)[OF T(3)[OF u]]]) (use fD U(1) T(1) ty in \<open>auto simp: D_def\<close>)
  moreover have "map_ok D sb" using map_ok_cong[OF dm] U(2) by simp
  moreover have "own_ok (ad[12 := y]) (bs @ [b])" using F nb bfy l by (auto simp: own_ok_def)
  ultimately have fa: "file_at D sb (ad[12 := y]) (bs @ [b])" using h o by (simp add: file_at_def)
  have same: "D c = C c" if "c \<in> set bs" for c
  proof -
    have "c \<noteq> y" "c \<noteq> b" "c \<notin> in_map sb" using that nb u by (auto simp: used_ok_def)
    then show ?thesis using T(4)[of c] U(4)[of c] by (simp add: D_def)
  qed
  have rest: "D c = C c" if "c \<notin> own (ad[12 := y]) (bs @ [b])" "c \<notin> in_map sb" for c
    using T(4)[of c] U(4)[of c] o that by (simp add: D_def)
  have "free_blocks C sb \<inter> set bs = {}" using u by (auto simp: used_ok_def)
  then have "free_blocks D sb = free_blocks C sb - own (ad[12 := y]) (bs @ [b])" using fD o by auto
  then show ?thesis using fa same rest y bfy(2) o unfolding grown_def by auto
qed

lemma grown_card:
  assumes "grown C sb ad bs D ad' bs'" "file_at C sb ad bs" "bs' = bs \<or> (\<exists>x. bs' = bs @ [x])"
  shows "card (free_blocks C sb) \<le> card (free_blocks D sb) + 2"
proof -
  have u: "free_blocks C sb \<inter> own ad bs = {}" using assms(2) by (auto simp: file_at_def used_ok_def)
  obtain x where x: "bs' = bs \<or> bs' = bs @ [x]" using assms(3) by blast
  have "own ad' bs' \<inter> free_blocks C sb \<subseteq> {x, ad' ! 12}" using u x by (auto simp: own_def split: if_splits)
  then have "free_blocks C sb - {x, ad' ! 12} \<subseteq> free_blocks D sb" using assms(1) by (auto simp: grown_def)
  then have "card (free_blocks C sb - {x, ad' ! 12}) \<le> card (free_blocks D sb)" by (intro card_mono) simp_all
  moreover have "card (free_blocks C sb) - card {x, ad' ! 12} \<le> card (free_blocks C sb - {x, ad' ! 12})" by (rule diff_card_le_card_Diff) simp
  moreover have "card {x, ad' ! 12} \<le> 2" by (simp add: card_insert_if)
  ultimately show ?thesis by linarith
qed

text \<open>The rest of the state stays.\<close>

definition same_rest :: "'a fs_st_scheme \<Rightarrow> 'a fs_st_scheme \<Rightarrow> bool" where
  "same_rest s t \<longleftrightarrow> superb t = superb s \<and> buf_addr t = buf_addr s \<and> panicking t = panicking s"

lemma same_rest_sto: "sto_only s t \<Longrightarrow> same_rest s t"
  using sto_only_fields[of s t] by (simp add: same_rest_def)

lemma upd_inode_rest [simp]:
  "tx p dev S L H (upd_inode ip f s) = tx p dev S L H s" "mem (upd_inode ip f s) = mem s" "superb (upd_inode ip f s) = superb s"
  "panicking (upd_inode ip f s) = panicking s" "buf_addr (upd_inode ip f s) = buf_addr s"
  by (simp_all add: tx_def cache_upd_inode logs_def) (simp_all add: upd_inode_def)

context fs_env
begin

lemma bmap_grows:
  assumes x: "tx p dev S L {} s" "sb_ok (superb s)" "\<not> panicking s" "room 6 L {}"
    and k: "i_dev (inode_at s ip) = dev" "i_addrs (inode_at s ip) = ad" "ip < length (inodes s)"
    and f: "file_at (content dev s) (superb s) ad bs" and fr: "2 \<le> card (free_blocks (content dev s) (superb s))"
    and n: "unat bn \<le> length bs" "unat bn < 268"
  shows "\<exists>ad' bs' t L'. bmap e ip bn s = Ok (bs' ! unat bn, t) \<and> tx p dev S L' {} t \<and> length L' \<le> length L + 5 \<and>
    grown (content dev s) (superb s) ad bs (content dev t) ad' bs' \<and>
    (bs' = bs \<and> unat bn < length bs \<or> (\<exists>x. bs' = bs @ [x]) \<and> unat bn = length bs) \<and>
    inodes t = (inodes s)[ip := (inode_at s ip)\<lparr>i_addrs := ad'\<rparr>] \<and> same_rest s t \<and> mem t = mem s"
    (is "\<exists>ad' bs' t L'. ?P ad' bs' t L'")
proof -
  let ?C = "content dev s" and ?sb = "superb s" and ?k = "inode_at s ip"
  note F = f[unfolded file_at_def]
  note H = conjunct1[OF F, unfolded has_blocks_def]
  have m: "map_ok ?C ?sb" using F by simp
  have ne: "free_blocks ?C ?sb \<noteq> {}" using fr by auto
  have same: "(inodes s)[ip := ?k\<lparr>i_addrs := ad\<rparr>] = inodes s" using k(2) by (simp add: inode_at_def list_update_id flip: k(2))
  have nz: "b \<noteq> 0" if "b \<in> own ad bs" for b using F that by (auto simp: used_ok_def)
  show ?thesis
  proof (cases "unat bn < 12")
    case True
    then have b12: "bn < 12" by (simp add: word_less_nat_alt)
    show ?thesis
    proof (cases "unat bn < length bs")
      case old: True
      have "ad ! unat bn = bs ! unat bn" using H True old by simp
      moreover have "bs ! unat bn \<noteq> 0" using nz old by (simp add: own_def)
      ultimately have "bmap e ip bn s = Ok (bs ! unat bn, s)" using bmap_direct(1)[OF b12, of s ip e] k(2) by simp
      then have "?P ad bs s L" using x(1) grown_refl[OF f] old same by (simp add: same_rest_def)
      then show ?thesis by blast
    next
      case False
      then have kl: "unat bn = length bs" using n(1) by simp
      then have z: "ad ! unat bn = 0" using H True by simp
      have r2: "room 2 L {}" using x(4) by (rule room_less) simp
      obtain b t L' where t: "balloc e dev s = Ok (b, t)" "b \<in> free_blocks ?C ?sb" "b \<noteq> 0" "tx p dev S L' {} t"
        "length L' \<le> length L + 2" "content dev t = taking ?sb b ?C" "sto_only s t"
        using balloc_some[OF x(1-3) r2 _ m ne] by auto
      let ?t = "upd_inode ip (\<lambda>k. k\<lparr>i_addrs := (i_addrs k)[unat bn := b]\<rparr>) t"
      have "bmap e ip bn s = Ok ((bs @ [b]) ! unat bn, ?t)" using bmap_direct(2)[OF b12, of s ip e] k z t(1,3) kl by simp
      moreover have "inodes ?t = (inodes s)[ip := ?k\<lparr>i_addrs := ad[unat bn := b]\<rparr>]"
        using sto_only_fields(2)[OF t(7)] k(2) by (simp add: upd_inode_def inode_at_def)
      moreover have "same_rest s ?t" "mem ?t = mem s"
        using same_rest_sto[OF t(7)] sto_only_fields(4)[OF t(7)] by (simp_all add: same_rest_def)
      moreover have "grown ?C ?sb ad bs (content dev ?t) (ad[unat bn := b]) (bs @ [b])"
        using grow_direct[OF f _ t(2)] True kl t(6) by (simp add: cache_upd_inode)
      ultimately have "?P (ad[unat bn := b]) (bs @ [b]) ?t L'" using t(4,5) kl by simp
      then show ?thesis by blast
    qed
  next
    case False
    have b12: "unat (bn - 12) = unat bn - 12" using False by (simp add: unat_sub word_le_nat_alt)
    have lt: "\<not> bn < 12" "bn - 12 < 256" using False b12 n(2) by (simp_all add: word_less_nat_alt)
    note bi = bmap_indirect[OF lt, of s ip e]
    show ?thesis
    proof (cases "12 < length bs")
      case True
      have i: "ad ! 12 \<in> own ad bs" using True by (simp add: own_def)
      have i0: "ad ! 12 \<noteq> 0" "ad ! 12 < 0x80000000" "used_ok ?C ?sb {ad ! 12}"
        using F i nz small_block[OF x(2)] by (auto simp: used_ok_def)
      have ent: "get32 (?C (ad ! 12)) j = (if 12 + j < length bs then bs ! (12 + j) else 0)" if "j < 256" for j using H True that by auto
      have e12: "get32 (?C (ad ! 12)) (unat bn - 12) = (if unat bn < length bs then bs ! unat bn else 0)"
        using ent[of "unat bn - 12"] False n(2) by simp
      show ?thesis
      proof (cases "unat bn < length bs")
        case old: True
        have "bs ! unat bn \<noteq> 0" using nz old by (simp add: own_def)
        moreover have "room 1 L {}" using x(4) by (rule room_less) simp
        ultimately obtain t where t: "ind_entry e dev (ad ! 12) (unat bn - 12) s = Ok (bs ! unat bn, t)" "tx p dev S L {} t"
          "content dev t = ?C" "sto_only s t"
          using ind_entry_old[OF x(1) _ i0(2), of "unat bn - 12" "bs ! unat bn"] e12 old by auto
        have "bmap e ip bn s = Ok (bs ! unat bn, t)" using bi(1) i0(1) k t(1) b12 by simp
        then have "?P ad bs t L"
          using t(2,3) grown_refl[OF f] old same same_rest_sto[OF t(4)] sto_only_fields(2,4)[OF t(4)] by simp
        then show ?thesis by blast
      next
        case new: False
        then have kl: "unat bn = length bs" using n(1) by simp
        have r4: "room 4 L {}" using x(4) by (rule room_less) simp
        obtain b t L' where t: "ind_entry e dev (ad ! 12) (unat bn - 12) s = Ok (b, t)" "b \<in> free_blocks ?C ?sb" "tx p dev S L' {} t"
          "length L' \<le> length L + 3" "content dev t = (taking ?sb b ?C)(ad ! 12 := put32 (unat bn - 12) b (?C (ad ! 12)))" "sto_only s t"
          using ind_entry_new[OF x(1-3) r4 m ne i0(3), of "unat bn - 12"] e12 new by auto
        have "bmap e ip bn s = Ok ((bs @ [b]) ! unat bn, t)" using bi(1) i0(1) k t(1) b12 kl by simp
        moreover have "grown ?C ?sb ad bs (content dev t) ad (bs @ [b])"
          using grow_indirect[OF f True _ t(2)] n(2) kl t(5) by simp
        ultimately have "?P ad (bs @ [b]) t L'"
          using t(3,4) kl same same_rest_sto[OF t(6)] sto_only_fields(2,4)[OF t(6)] by simp
        then show ?thesis by blast
      qed
    next
      case first: False
      then have kl: "unat bn = length bs" "length bs = 12" using False n(1) by auto
      have z: "ad ! 12 = 0" using H kl(2) by simp
      have r2: "room 2 L {}" using x(4) by (rule room_less) simp
      obtain y u L1 where u: "balloc e dev s = Ok (y, u)" "y \<in> free_blocks ?C ?sb" "y \<noteq> 0" "tx p dev S L1 {} u"
        "length L1 \<le> length L + 2" "content dev u = taking ?sb y ?C" "sto_only s u"
        using balloc_some[OF x(1-3) r2 _ m ne] by auto
      note T = taking_ok[OF m u(2)] and fu = sto_only_fields[OF u(7)]
      let ?u = "upd_inode ip (\<lambda>k. k\<lparr>i_addrs := (i_addrs k)[12 := y]\<rparr>) u"
      have cu: "content dev ?u = taking ?sb y ?C" "superb ?u = ?sb" "tx p dev S L1 {} ?u" "\<not> panicking ?u"
        using u(4,6) fu x(3) by (simp_all add: cache_upd_inode)
      have r4: "room 4 L1 {}" using x(4) u(5) by (simp add: room_def)
      have ne2: "free_blocks (taking ?sb y ?C) ?sb \<noteq> {}"
      proof
        assume "free_blocks (taking ?sb y ?C) ?sb = {}"
        then have "free_blocks ?C ?sb \<subseteq> {y}" using T(1) by auto
        then have "card (free_blocks ?C ?sb) \<le> card {y}" by (intro card_mono) simp_all
        then show False using fr by simp
      qed
      have uy: "used_ok (taking ?sb y ?C) ?sb {y}" using T(3)[of "{}"] by (simp add: used_ok_def)
      have e0: "get32 (taking ?sb y ?C y) 0 = 0" using T(5) by (simp add: get32_zeroes)
      have pre: "sb_ok (superb ?u)" "map_ok (content dev ?u) (superb ?u)" "free_blocks (content dev ?u) (superb ?u) \<noteq> {}"
        "used_ok (content dev ?u) (superb ?u) {y}" "get32 (content dev ?u y) 0 = 0"
        using x(2) T(2) ne2 uy e0 unfolding cu by simp_all
      obtain b t L' where t: "ind_entry e dev y 0 ?u = Ok (b, t)" "b \<in> free_blocks (taking ?sb y ?C) ?sb" "tx p dev S L' {} t"
        "length L' \<le> length L1 + 3" "content dev t = (taking ?sb b (taking ?sb y ?C))(y := put32 0 b (taking ?sb y ?C y))" "sto_only ?u t"
        using ind_entry_new[OF cu(3) pre(1) cu(4) r4 pre(2-5)] unfolding cu(1,2) by blast
      note ft = sto_only_fields[OF t(6)]
      have "bmap e ip bn s = Ok ((bs @ [b]) ! unat bn, t)" using bi(2)[of y u] z k u(1,3) t(1) b12 kl by (simp add: nth_append)
      moreover have "grown ?C ?sb ad bs (content dev t) (ad[12 := y]) (bs @ [b])"
        using grow_first[OF f kl(2) u(2) t(2)] t(5) T(5) by simp
      moreover have "inodes t = (inodes s)[ip := ?k\<lparr>i_addrs := ad[12 := y]\<rparr>]"
        using ft(2) fu(2) k(2) by (simp add: upd_inode_def inode_at_def)
      moreover have "same_rest s t" "mem t = mem s"
        using same_rest_sto[OF t(6)] same_rest_sto[OF u(7)] ft(4) fu(4) by (simp_all add: same_rest_def)
      ultimately have "?P (ad[12 := y]) (bs @ [b]) t L'" using t(3,4) u(5) kl by simp
      then show ?thesis by blast
    qed
  qed
qed

end

section \<open>The bytes of a file that is written\<close>

definition has_bytes :: "image \<Rightarrow> 32 word list \<Rightarrow> byte list \<Rightarrow> bool" where
  "has_bytes C bs F \<longleftrightarrow> length bs = blocks_for (length F) \<and> (\<forall>i < length F. F ! i = C (bs ! (i div 1024)) ! (i mod 1024))"

lemma blocks_for_le: "n \<le> 1024 * blocks_for n"
  by (simp add: blocks_for_def)

lemma has_bytes_index: "has_bytes C bs F \<Longrightarrow> i < length F \<Longrightarrow> i div 1024 < length bs"
  using blocks_for_le[of "length F"] by (intro less_mult_imp_div_less) (simp add: has_bytes_def)

lemma file_is_bytes:
  assumes "\<And>b. b \<in> set bs \<Longrightarrow> length (C b) = 1024"
  shows "file_is C ad bs F \<longleftrightarrow> has_blocks C ad bs \<and> own_ok ad bs \<and> has_bytes C bs F"
proof
  assume "file_is C ad bs F"
  then show "has_blocks C ad bs \<and> own_ok ad bs \<and> has_bytes C bs F"
    using file_is_nth(2)[of C ad bs F] assms by (simp add: file_is_def has_bytes_def)
next
  assume h: "has_blocks C ad bs \<and> own_ok ad bs \<and> has_bytes C bs F"
  have l: "length F \<le> length (concat (map C bs))"
  proof -
    have "length (concat (map C bs)) = 1024 * length bs" using assms by (induction bs) simp_all
    then show ?thesis using h blocks_for_le[of "length F"] by (simp add: has_bytes_def)
  qed
  have "take (length F) (concat (map C bs)) = F"
  proof (rule nth_equalityI)
    fix i assume "i < length (take (length F) (concat (map C bs)))"
    then have i: "i < length F" by simp
    have "i < 1024 * length bs" using i h blocks_for_le[of "length F"] by (simp add: has_bytes_def)
    then show "take (length F) (concat (map C bs)) ! i = F ! i"
      using concat_blocks_nth[of bs C i] assms i h by (simp add: has_bytes_def)
  qed (use l in simp)
  then show "file_is C ad bs F" using h by (simp add: file_is_def has_bytes_def)
qed

definition overwritten :: "nat \<Rightarrow> byte list \<Rightarrow> byte list \<Rightarrow> byte list" where
  "overwritten off q F = take off F @ q @ drop (off + length q) F"

lemma overwritten_length: "off \<le> length F \<Longrightarrow> length (overwritten off q F) = max (length F) (off + length q)"
  by (auto simp: overwritten_def)

lemma overwritten_nth:
  assumes "off \<le> length F" "i < length (overwritten off q F)"
  shows "overwritten off q F ! i = (if off \<le> i \<and> i < off + length q then q ! (i - off) else F ! i)"
  using assms by (auto simp: overwritten_def nth_append min_def)

lemma overwritten_join:
  "off \<le> length F \<Longrightarrow> overwritten (off + length q) q' (overwritten off q F) = overwritten off (q @ q') F"
  by (simp add: overwritten_def ac_simps)

lemma patch_nth:
  "r + length q \<le> length d \<Longrightarrow> j < length d \<Longrightarrow> patch r q d ! j = (if r \<le> j \<and> j < r + length q then q ! (j - r) else d ! j)"
  by (auto simp: patch_def nth_append min_def)

text \<open>A write inside block number \<open>off div 1024\<close>, which is the file's last or a new one at its end.\<close>

lemma write_block:
  assumes f: "has_bytes C bs F" and off: "off \<le> length F" "0 < length q" "off mod 1024 + length q \<le> 1024"
    and bs: "bs' = bs \<and> off div 1024 < length bs \<or> (\<exists>x. bs' = bs @ [x]) \<and> off div 1024 = length bs"
    and d: "distinct bs'" "\<And>b. b \<in> set bs \<Longrightarrow> D b = C b" "\<And>b. b \<in> set bs' \<Longrightarrow> length (D b) = 1024"
  defines "x \<equiv> bs' ! (off div 1024)"
  shows "has_bytes (D(x := patch (off mod 1024) q (D x))) bs' (overwritten off q F)"
proof -
  let ?k = "off div 1024" and ?r = "off mod 1024" and ?F = "overwritten off q F"
  have k: "?k < length bs'" and pre: "j < length bs \<Longrightarrow> bs' ! j = bs ! j" for j using bs by (auto simp: nth_append)
  have x: "x \<in> set bs'" using k by (simp add: x_def)
  have len: "length bs' = blocks_for (length ?F)"
  proof (cases "bs' = bs \<and> length ?F = length F")
    case True
    then show ?thesis using f by (simp add: has_bytes_def)
  next
    case False
    have b1: "blocks_for (off + length q) = ?k + 1" using blocks_for_step(1)[of "length q" off] off by simp
    have mono: "blocks_for a \<le> blocks_for b" if "a \<le> b" for a b using that by (auto simp: blocks_for_def intro: div_le_mono)
    have lb: "length bs = blocks_for (length F)" using f by (simp add: has_bytes_def)
    have m: "length ?F = max (length F) (off + length q)" by (rule overwritten_length[OF off(1)])
    show ?thesis
    proof (cases "off + length q \<le> length F")
      case True
      then have "?k + 1 \<le> length bs" using mono[OF True] b1 lb by simp
      then have "bs' = bs" using bs by auto
      then show ?thesis using lb m True by simp
    next
      case less: False
      then have "length ?F = off + length q" using m by simp
      moreover have "length bs \<le> ?k + 1" using mono[of "length F" "off + length q"] less b1 lb by simp
      ultimately show ?thesis using bs b1 by auto
    qed
  qed
  have "?F ! i = (D(x := patch ?r q (D x))) (bs' ! (i div 1024)) ! (i mod 1024)" if i: "i < length ?F" for i
  proof -
    have ib: "i div 1024 < length bs'"
    proof -
      have "i < 1024 * length bs'" using i len blocks_for_le[of "length ?F"] by simp
      then show ?thesis by (simp add: less_mult_imp_div_less mult.commute)
    qed
    have e: "i = 1024 * (i div 1024) + i mod 1024" "off = 1024 * ?k + ?r" by simp_all
    have same: "bs' ! (i div 1024) = x \<longleftrightarrow> i div 1024 = ?k" using d(1) ib k by (simp add: x_def nth_eq_iff_index_eq)
    have old: "F ! i = D (bs' ! (i div 1024)) ! (i mod 1024)" if "i < length F"
      using f that has_bytes_index[OF f that] pre d(2) by (simp add: has_bytes_def)
    have px: "patch ?r q (D x) ! (i mod 1024) = (if ?r \<le> i mod 1024 \<and> i mod 1024 < ?r + length q then q ! (i mod 1024 - ?r) else D x ! (i mod 1024))"
      using patch_nth[of ?r q "D x" "i mod 1024"] off(3) d(3)[OF x] by simp
    show ?thesis
    proof (cases "off \<le> i \<and> i < off + length q")
      case True
      have ik: "i div 1024 = ?k"
      proof (rule div_nat_eqI)
        show "1024 * ?k \<le> i" using True e(2) by linarith
        show "i < 1024 * Suc ?k" using True e(2) off(3) unfolding mult_Suc_right by linarith
      qed
      then have "i mod 1024 - ?r = i - off" "?r \<le> i mod 1024" "i mod 1024 < ?r + length q" using e True by linarith+
      then show ?thesis using overwritten_nth[OF off(1) i] True same ik px by simp
    next
      case False
      have iF: "i < length F" using i overwritten_length[OF off(1), of q] False off(1) by (auto simp: max_def split: if_splits)
      show ?thesis
      proof (cases "i div 1024 = ?k")
        case True
        then have "\<not> (?r \<le> i mod 1024 \<and> i mod 1024 < ?r + length q)" using e False by linarith
        then show ?thesis using overwritten_nth[OF off(1) i] False old[OF iF] same True px by auto
      next
        case other: False
        then show ?thesis using overwritten_nth[OF off(1) i] False old[OF iF] same by auto
      qed
    qed
  qed
  then show ?thesis using len by (simp add: has_bytes_def)
qed

section \<open>The loop\<close>

lemma tx_mem: "tx p dev S L H (s\<lparr>mem := m\<rparr>) = tx p dev S L H s"
  by (simp add: tx_def cache_mem logs_def)

text \<open>Bytes of the kernel's memory put into a buffer that is shown there, and taken back from there.\<close>

lemma copy_to_block:
  assumes ap: "apart s src m" and b: "b < NBUF" and l: "length X = 1024" "r + m \<le> 1024"
  shows "get_bytes (memmove (put_bytes (buf_addr s b) X M) (buf_addr s b + of_nat r) src m) (buf_addr s b) 1024 = patch r (get_bytes M src m) X"
proof (rule nth_equalityI)
  let ?A = "buf_addr s b"
  have ub: "unat ?A + 1024 < 2 ^ 64" "unat src + m < 2 ^ 64" using ap b by (simp_all add: apart_def)
  have r: "unat (of_nat r :: addr) = r" using l(2) by (simp add: unat_of_nat take_bit_eq_mod)
  have ud: "unat (?A + of_nat r) = unat ?A + r" using ub r l(2) by (simp add: unat_word_ariths)
  have lq: "length (get_bytes M src m) = m" by (simp add: get_bytes_def)
  fix j assume "j < length (get_bytes (memmove (put_bytes ?A X M) (?A + of_nat r) src m) ?A 1024)"
  then have j: "j < 1024" by (simp add: get_bytes_def)
  have uj: "unat (of_nat j :: addr) = j" using j by (simp add: unat_of_nat take_bit_eq_mod)
  have mm: "memmove (put_bytes ?A X M) (?A + of_nat r) src m a =
      (if within a (?A + of_nat r) m then put_bytes ?A X M (src + (a - (?A + of_nat r))) else put_bytes ?A X M a)" for a
    using memmove_apply[of src m "?A + of_nat r"] ub ud l(2) by simp
  have w: "within (?A + of_nat j) (?A + of_nat r) m \<longleftrightarrow> r \<le> j \<and> j < r + m"
    "r \<le> j \<Longrightarrow> unat (?A + of_nat j - (?A + of_nat r)) = j - r"
  proof -
    have e: "?A + of_nat j - (?A + of_nat r) = of_nat j - (of_nat r :: addr)" by simp
    show u: "unat (?A + of_nat j - (?A + of_nat r)) = j - r" if "r \<le> j" unfolding e using that uj r by (simp add: unat_sub word_le_nat_alt)
    have "\<not> within (?A + of_nat j) (?A + of_nat r) m" if "j < r"
    proof -
      have "unat (of_nat j - (of_nat r :: addr)) = 2 ^ 64 + j - r" using that uj r by (simp add: unat_sub_if_size word_size)
      moreover have "m \<le> 2 ^ 64 + j - r" using l(2) that by simp
      ultimately show ?thesis unfolding within_def e by linarith
    qed
    then show "within (?A + of_nat j) (?A + of_nat r) m \<longleftrightarrow> r \<le> j \<and> j < r + m"
      using u by (cases "r \<le> j") (auto simp: within_def)
  qed
  have own: "put_bytes ?A X M (?A + of_nat j) = X ! j" using uj j l(1) by (simp add: put_bytes_def within_def)
  have from_src: "put_bytes ?A X M (src + (?A + of_nat j - (?A + of_nat r))) = get_bytes M src m ! (j - r)" if rj: "r \<le> j" "j < r + m"
  proof -
    have d: "?A + of_nat j - (?A + of_nat r) = of_nat (j - r)" using w(2)[OF rj(1)] by (metis of_nat_unat ucast_id)
    have "within (src + of_nat (j - r)) src m" by (rule within_offset) (use rj ub(2) in auto)
    then have "\<not> within (src + of_nat (j - r)) ?A 1024" using ap b by (auto simp: apart_def outside_def)
    moreover have "j - r < m" using rj by linarith
    ultimately show ?thesis unfolding d using l(1) by (simp add: put_bytes_def get_bytes_def del: of_nat_diff)
  qed
  have "get_bytes (memmove (put_bytes ?A X M) (?A + of_nat r) src m) ?A 1024 ! j
      = (if r \<le> j \<and> j < r + m then get_bytes M src m ! (j - r) else X ! j)"
  proof -
    have g: "get_bytes N ?A 1024 ! j = N (?A + of_nat j)" for N using j by (simp add: get_bytes_def)
    show ?thesis unfolding g unfolding mm w(1) own using from_src by (cases "r \<le> j \<and> j < r + m") (simp_all only: if_True if_False)
  qed
  then show "get_bytes (memmove (put_bytes ?A X M) (?A + of_nat r) src m) ?A 1024 ! j = patch r (get_bytes M src m) X ! j"
    using patch_nth[of r "get_bytes M src m" X j] j l lq by simp
qed (use l in \<open>simp add: get_bytes_def patch_def\<close>)

lemma get_bytes_split: "k \<le> n \<Longrightarrow> get_bytes M a n = get_bytes M a k @ get_bytes M (a + of_nat k) (n - k)"
proof -
  assume k: "k \<le> n"
  have "[k..<n] = map (\<lambda>i. i + k) [0..<n - k]" using map_add_upt[of k "n - k"] k by simp
  moreover have "[0..<n] = [0..<k] @ [k..<n]" using upt_add_eq_append[of 0 k "n - k"] k by simp
  ultimately show ?thesis by (simp add: get_bytes_def ac_simps)
qed

lemma get_bytes_same: "apart s a n \<Longrightarrow> (\<And>x. outside s x \<Longrightarrow> M x = N x) \<Longrightarrow> get_bytes M a n = get_bytes N a n"
proof -
  assume a: "apart s a n" and e: "\<And>x. outside s x \<Longrightarrow> M x = N x"
  have "outside s (a + of_nat i)" if "i < n" for i
  proof -
    have "within (a + of_nat i) a n" using that a by (simp add: apart_def within_def unat_of_nat take_bit_eq_mod)
    then show ?thesis using a by (simp add: apart_def)
  qed
  then show ?thesis using e by (simp add: get_bytes_def)
qed

text \<open>From the content \<open>C\<close> to \<open>D\<close> the file may have got blocks that were free, and only its blocks and the map have changed.\<close>

definition written :: "image \<Rightarrow> superblock \<Rightarrow> 32 word list \<Rightarrow> 32 word list \<Rightarrow> image \<Rightarrow> 32 word list \<Rightarrow> 32 word list \<Rightarrow> bool" where
  "written C sb ad bs D ad' bs' \<longleftrightarrow> file_at D sb ad' bs' \<and> own ad bs \<subseteq> own ad' bs' \<and> own ad' bs' \<subseteq> own ad bs \<union> free_blocks C sb \<and>
     free_blocks D sb = free_blocks C sb - own ad' bs' \<and> (\<forall>b. b \<notin> own ad' bs' \<longrightarrow> b \<notin> in_map sb \<longrightarrow> D b = C b)"

lemma written_refl: "file_at C sb ad bs \<Longrightarrow> written C sb ad bs C ad bs"
  by (auto simp: written_def file_at_def used_ok_def)

lemma written_trans: "written C sb ad bs D ad1 bs1 \<Longrightarrow> written D sb ad1 bs1 E ad2 bs2 \<Longrightarrow> written C sb ad bs E ad2 bs2"
proof -
  assume a: "written C sb ad bs D ad1 bs1" and b: "written D sb ad1 bs1 E ad2 bs2"
  note A = a[unfolded written_def] and B = b[unfolded written_def]
  have "free_blocks E sb = free_blocks C sb - own ad2 bs2" using A B by auto
  moreover have "own ad2 bs2 \<subseteq> own ad bs \<union> free_blocks C sb" using A B by blast
  moreover have "E c = C c" if "c \<notin> own ad2 bs2" "c \<notin> in_map sb" for c
    using that A B by (metis subsetD)
  ultimately show ?thesis using A B by (auto simp: written_def)
qed

text \<open>A block of the data gets other bytes.\<close>

lemma written_data:
  assumes g: "grown C sb ad bs D ad' bs'" and x: "x \<in> set bs'" "length Y = 1024"
  shows "written C sb ad bs (D(x := Y)) ad' bs'"
proof -
  note G = g[unfolded grown_def]
  have f: "has_blocks D ad' bs'" "own_ok ad' bs'" "used_ok D sb (own ad' bs')" "map_ok D sb" using G by (auto simp: file_at_def)
  have xo: "x \<in> own ad' bs'" "x \<notin> in_map sb" using x f(3) by (auto simp: own_def used_ok_def)
  have m: "(D(x := Y)) c = D c" if "c \<in> in_map sb" for c using that xo(2) by auto
  have fr: "free_blocks (D(x := Y)) sb = free_blocks D sb" by (rule free_blocks_cong[OF m])
  have "12 < length bs' \<Longrightarrow> ad' ! 12 \<noteq> x" using f(2) x(1) by (auto simp: own_ok_def)
  then have "has_blocks (D(x := Y)) ad' bs'" using has_blocks_cong[of bs' "D(x := Y)" ad' D] f(1) by simp
  moreover have "used_ok (D(x := Y)) sb (own ad' bs')" by (rule used_ok_cong[OF f(3) fr]) (use x(2) f(3) in \<open>auto simp: used_ok_def\<close>)
  moreover have "map_ok (D(x := Y)) sb" using map_ok_cong[of sb "D(x := Y)" D, OF m] f(4) by blast
  ultimately have "file_at (D(x := Y)) sb ad' bs'" using f(2) by (simp add: file_at_def)
  then show ?thesis using G fr xo by (auto simp: written_def)
qed

text \<open>A transaction that writes the inode \<open>ip\<close>, whose blocks \<open>bs\<close> have the bytes \<open>F\<close>.\<close>

definition writing :: "nat \<Rightarrow> 32 word \<Rightarrow> 32 word \<Rightarrow> 32 word list \<Rightarrow> nat \<Rightarrow> 32 word list \<Rightarrow> byte list \<Rightarrow> 'a fs_st_scheme \<Rightarrow> bool" where
  "writing p dev S L ip bs F s \<longleftrightarrow>
     tx p dev S L {} s \<and> sb_ok (superb s) \<and> \<not> panicking s \<and> i_dev (inode_at s ip) = dev \<and> ip < length (inodes s) \<and>
     file_at (content dev s) (superb s) (i_addrs (inode_at s ip)) bs \<and> has_bytes (content dev s) bs F"

text \<open>What one or more turns have changed: addresses of the inode, blocks of the file, the map and the buffers in memory.\<close>

definition advanced :: "32 word \<Rightarrow> nat \<Rightarrow> 32 word list \<Rightarrow> 'a fs_st_scheme \<Rightarrow> 32 word list \<Rightarrow> 'a fs_st_scheme \<Rightarrow> bool" where
  "advanced dev ip bs s bs' t \<longleftrightarrow>
     written (content dev s) (superb s) (i_addrs (inode_at s ip)) bs (content dev t) (i_addrs (inode_at t ip)) bs' \<and>
     (\<exists>ad. inodes t = (inodes s)[ip := (inode_at s ip)\<lparr>i_addrs := ad\<rparr>]) \<and> same_rest s t \<and> (\<forall>a. outside s a \<longrightarrow> mem t a = mem s a)"

lemma advanced_refl: "writing p dev S L ip bs F s \<Longrightarrow> advanced dev ip bs s bs s"
  using written_refl by (auto simp: advanced_def writing_def same_rest_def inode_at_def intro!: exI[of _ "i_addrs (inodes s ! ip)"])

lemma outside_rest: "same_rest s t \<Longrightarrow> outside t = outside s" "same_rest s t \<Longrightarrow> apart t = apart s"
  by (simp_all add: outside_def apart_def same_rest_def fun_eq_iff)

lemma advanced_trans: "advanced dev ip bs s bs1 t \<Longrightarrow> advanced dev ip bs1 t bs2 u \<Longrightarrow> ip < length (inodes s) \<Longrightarrow> advanced dev ip bs s bs2 u"
proof -
  assume a: "advanced dev ip bs s bs1 t" and b: "advanced dev ip bs1 t bs2 u" and l: "ip < length (inodes s)"
  note A = a[unfolded advanced_def] and B = b[unfolded advanced_def]
  have sr: "same_rest s t" "superb t = superb s" using A by (simp_all add: same_rest_def)
  obtain ad ad' where i: "inodes t = (inodes s)[ip := (inode_at s ip)\<lparr>i_addrs := ad\<rparr>]" "inodes u = (inodes t)[ip := (inode_at t ip)\<lparr>i_addrs := ad'\<rparr>]"
    using A B by blast
  have "inodes u = (inodes s)[ip := (inode_at s ip)\<lparr>i_addrs := ad'\<rparr>]" using i l by (simp add: inode_at_def)
  moreover have "written (content dev s) (superb s) (i_addrs (inode_at s ip)) bs (content dev u) (i_addrs (inode_at u ip)) bs2"
    using A B sr(2) written_trans by metis
  moreover have "same_rest s u" using A B by (simp add: same_rest_def)
  moreover have "\<forall>a. outside s a \<longrightarrow> mem u a = mem s a" using A B outside_rest(1)[OF sr(1)] by simp
  ultimately show ?thesis unfolding advanced_def by blast
qed

context fs_env
begin

lemma writei_turn:
  assumes w: "writing p dev S L ip bs F s" and r: "room 6 L {}" and fr: "2 \<le> card (free_blocks (content dev s) (superb s))"
    and m: "m = min (n - tot) (1024 - off mod 1024)" "tot < n" and off: "unat off \<le> length F" "unat off + unat m \<le> 268 * 1024"
    and ap: "apart s src (unat m)"
  shows "\<exists>bs' L' u. writei_loop (Suc k) e ip False src off n tot s = writei_loop k e ip False (src + ucast m) (off + m) n (tot + m) u \<and>
    writing p dev S L' ip bs' (overwritten (unat off) (get_bytes (mem s) src (unat m)) F) u \<and> length L' \<le> length L + 6 \<and>
    advanced dev ip bs s bs' u \<and> card (free_blocks (content dev s) (superb s)) \<le> card (free_blocks (content dev u) (superb s)) + 2"
proof -
  note W = w[unfolded writing_def]
  let ?C = "content dev s" and ?sb = "superb s" and ?ad = "i_addrs (inode_at s ip)"
  have rr: "unat (off mod 1024) = unat off mod 1024" "unat off mod 1024 < 1024" "unat (off div 1024) = unat off div 1024"
    by (simp_all add: unat_mod_distrib unat_div_distrib)
  have m0: "0 < unat m" "unat off mod 1024 + unat m \<le> 1024"
  proof -
    have "n - tot \<noteq> 0" using m(2) by auto
    moreover have q: "unat (1024 - off mod 1024) = 1024 - unat off mod 1024" using rr by (simp add: unat_sub word_le_nat_alt)
    moreover have "unat m = min (unat (n - tot)) (unat (1024 - off mod 1024))" unfolding m(1) by (simp add: min_def word_le_nat_alt)
    ultimately show "0 < unat m" "unat off mod 1024 + unat m \<le> 1024" using rr(2) by (simp_all add: unat_gt_0)
  qed
  let ?k = "unat off div 1024"
  have lb: "length bs = blocks_for (length F)" using W by (simp add: has_bytes_def)
  have kb: "?k \<le> length bs"
  proof -
    have "?k \<le> length F div 1024" using off(1) by (rule div_le_mono)
    then show ?thesis using blocks_for_step(2)[of "length F"] lb by simp
  qed
  have k268: "?k < 268" using off(2) m0(1) by (intro less_mult_imp_div_less) simp
  have x: "tx p dev S L {} s" "sb_ok ?sb" "\<not> panicking s" "i_dev (inode_at s ip) = dev" "ip < length (inodes s)" "file_at ?C ?sb ?ad bs"
    using W by simp_all
  have pre: "unat (off div 1024) \<le> length bs" "unat (off div 1024) < 268" using kb k268 rr(3) by simp_all
  obtain ad' bs' t L1 where t: "bmap e ip (off div 1024) s = Ok (bs' ! ?k, t)" "tx p dev S L1 {} t" "length L1 \<le> length L + 5"
    "grown ?C ?sb ?ad bs (content dev t) ad' bs'" "bs' = bs \<and> ?k < length bs \<or> (\<exists>x. bs' = bs @ [x]) \<and> ?k = length bs"
    "inodes t = (inodes s)[ip := (inode_at s ip)\<lparr>i_addrs := ad'\<rparr>]" "same_rest s t" "mem t = mem s"
    using bmap_grows[OF x(1-3) r x(4) refl x(5,6) fr pre, unfolded rr(3)] by blast
  note G = t(4)[unfolded grown_def]
  let ?D = "content dev t" and ?b = "bs' ! ?k"
  have kl: "?k < length bs'" using t(5) by auto
  have bset: "?b \<in> set bs'" using kl by simp
  have u: "used_ok ?D ?sb (own ad' bs')" using G by (simp add: file_at_def)
  have bprop: "c \<noteq> 0 \<and> c < 0x80000000 \<and> length (?D c) = 1024" if "c \<in> set bs'" for c
  proof -
    have "c \<in> own ad' bs'" using that by (simp add: own_def)
    then show ?thesis using u small_block[OF x(2)] by (auto simp: used_ok_def)
  qed
  have it: "inode_at t ip = (inode_at s ip)\<lparr>i_addrs := ad'\<rparr>" using t(6) x(5) by (simp add: inode_at_def)
  have r1: "room 1 L1 {}" using t(3) r by (simp add: room_def)
  obtain i v where i: "bread e dev ?b t = Ok (i, v)" "tx p dev S L1 {i} v" "b_blockno (bufs v ! i) = ?b" "b_data (bufs v ! i) = ?D ?b"
    "content dev v = ?D" "sto_only t v"
    using read_block[OF t(2) _ _ r1, of ?b] bprop[OF bset] by auto
  note fv = sto_only_fields[OF i(6)]
  have iN: "i < NBUF" using cacheD(6)[OF txD(1)[OF i(2)], of i] by simp
  have ba: "buf_addr v = buf_addr s" "mem v = mem s" using fv t(7,8) by (simp_all add: same_rest_def)
  let ?q = "get_bytes (mem s) src (unat m)"
  let ?M = "memmove (put_bytes (buf_addr s i) (?D ?b) (mem s)) (buf_addr s i + of_nat (unat off mod 1024)) src (unat m)"
  have um: "unat (ucast (ucast m :: 64 word) :: 32 word) = unat m"
    by (rule arg_cong[where f = unat]) (rule bit_word_eqI, simp add: bit_simps)
  have uc: "(ucast (off mod 1024) :: addr) = of_nat (unat off mod 1024)" by (simp only: rr(1)[symmetric] of_nat_unat)
  have run: "myproc v = Ok p" using runsD(6) txD(6)[OF i(2)] by blast
  have co: "either_copyin (buf_addr v i + ucast (off mod 1024)) False src (ucast m) (show_buf i v) = Ok (0, v\<lparr>mem := ?M\<rparr>)"
    using i(4) ba run um uc by (simp add: either_copyin_def show_buf_def myproc_def)
  have kd: "keep_buf i (v\<lparr>mem := ?M\<rparr>) = set_data i (patch (unat off mod 1024) ?q (?D ?b)) (v\<lparr>mem := ?M\<rparr>)"
    using copy_to_block[OF ap iN _ m0(2), of "?D ?b" "mem s"] bprop[OF bset] ba(1) by (simp add: keep_buf_def)
  have xv: "tx p dev S L1 (insert i {}) (v\<lparr>mem := ?M\<rparr>)" using i(2) by (simp add: tx_mem)
  have n1: "length L1 < LOGBLOCKS" using r1 by (simp add: room_def)
  obtain z where z: "bnd (log_write i (set_data i (patch (unat off mod 1024) ?q (?D ?b)) (v\<lparr>mem := ?M\<rparr>))) (brelse i) = Ok z"
    "tx p dev S (absorb ?b L1) {} z" "content dev z = (content dev v)(?b := patch (unat off mod 1024) ?q (?D ?b))" "sto_only (v\<lparr>mem := ?M\<rparr>) z"
    using put_block[OF xv _ n1, of "patch (unat off mod 1024) ?q (?D ?b)"] i(3) by (auto simp: cache_mem)
  note fz = sto_only_fields[OF z(4)]
  obtain y where y: "log_write i (set_data i (patch (unat off mod 1024) ?q (?D ?b)) (v\<lparr>mem := ?M\<rparr>)) = Ok y" "brelse i y = Ok z"
    using z(1) by (auto simp: bnd_eq_Ok)
  have step: "writei_loop (Suc k) e ip False src off n tot s = writei_loop k e ip False (src + ucast m) (off + m) n (tot + m) z"
    by (subst writei_loop.simps)
      (use m(1,2) t(1) bprop[OF bset] it x(4) i(1) ba(1) co kd y in \<open>simp add: Let_def show_buf_def\<close>)
  have zi: "inodes z = (inodes s)[ip := (inode_at s ip)\<lparr>i_addrs := ad'\<rparr>]" using fz(2) fv(2) t(6) by simp
  have za: "inode_at z ip = (inode_at s ip)\<lparr>i_addrs := ad'\<rparr>" using zi x(5) by (simp add: inode_at_def)
  have sz: "same_rest s z" using t(7) fv fz by (simp add: same_rest_def)
  have Dz: "content dev z = ?D(?b := patch (unat off mod 1024) ?q (?D ?b))" using z(3) i(5) by simp
  have lq: "length ?q = unat m" by (simp add: get_bytes_def)
  have pl: "length (patch (unat off mod 1024) ?q (?D ?b)) = 1024" using bprop[OF bset] m0(2) lq by (simp add: patch_length)
  have wr: "written ?C ?sb ?ad bs (content dev z) ad' bs'" unfolding Dz by (rule written_data[OF t(4) bset pl])
  have dist: "distinct bs'" using G by (simp add: file_at_def own_ok_def)
  have "has_bytes (content dev z) bs' (overwritten (unat off) ?q F)"
    unfolding Dz by (rule write_block[of ?C bs F "unat off" ?q bs' ?D]) (use W off(1) lq m0 t(5) dist G bprop in auto)
  then have "writing p dev S (absorb ?b L1) ip bs' (overwritten (unat off) ?q F) z"
    using z(2) x(2-5) sz za zi wr by (simp add: writing_def written_def same_rest_def)
  moreover have "length (absorb ?b L1) \<le> length L + 6" using length_absorb[of ?b L1] t(3) by simp
  moreover have "\<forall>a. outside s a \<longrightarrow> mem z a = mem s a"
  proof (intro allI impI)
    fix a assume o: "outside s a"
    have nb: "\<not> within a (buf_addr s i) 1024" using o iN by (simp add: outside_def)
    have ub: "unat (buf_addr s i) + 1024 < 2 ^ 64" "unat src + unat m < 2 ^ 64" using ap iN by (simp_all add: apart_def)
    have ud: "unat (buf_addr s i + of_nat (unat off mod 1024)) = unat (buf_addr s i) + unat off mod 1024"
      using ub by (simp add: unat_word_ariths unat_of_nat take_bit_eq_mod)
    have "\<not> within a (buf_addr s i + of_nat (unat off mod 1024)) (unat m)"
    proof
      assume "within a (buf_addr s i + of_nat (unat off mod 1024)) (unat m)"
      then have "within a (buf_addr s i + of_nat (unat off mod 1024)) (1024 - unat off mod 1024)"
        using m0(2) by (auto intro: within_mono)
      then show False using within_split(1)[of "buf_addr s i" 1024 "unat off mod 1024" a] ub(1) nb by simp
    qed
    then have "?M a = mem s a"
      using memmove_apply[of src "unat m" "buf_addr s i + of_nat (unat off mod 1024)"] ub ud m0(2) nb bprop[OF bset] by (simp add: put_bytes_def)
    then show "mem z a = mem s a" using fz(4) by simp
  qed
  then have "advanced dev ip bs s bs' z" using wr za zi sz unfolding advanced_def by auto
  moreover have "card (free_blocks ?C ?sb) \<le> card (free_blocks (content dev z) ?sb) + 2"
  proof -
    have "free_blocks (content dev z) ?sb = free_blocks ?D ?sb" using wr G by (simp add: written_def)
    then show ?thesis using grown_card[OF t(4) x(6)] t(5) by auto
  qed
  ultimately show ?thesis using step by blast
qed

text \<open>\<open>T\<close> bounds the number of blocks, and so of turns.\<close>

lemma writei_loop_ok:
  assumes "writing p dev S L ip bs F s" "tot \<le> n" "unat off \<le> length F" "unat off + (unat n - unat tot) \<le> 268 * 1024"
    and "apart s src (unat n - unat tot)" "unat n - unat tot \<le> k"
    and "unat n - unat tot = 0 \<or> unat off mod 1024 + (unat n - unat tot) \<le> 1024 * T"
    and "room (6 * T) L {}" "2 * T \<le> card (free_blocks (content dev s) (superb s))"
  shows "\<exists>bs' L' t. writei_loop k e ip False src off n tot s = Ok ((n, off + (n - tot)), t) \<and>
    writing p dev S L' ip bs' (overwritten (unat off) (get_bytes (mem s) src (unat n - unat tot)) F) t \<and>
    length L' \<le> length L + 6 * T \<and> advanced dev ip bs s bs' t"
  using assms
proof (induction k arbitrary: s tot off src bs F L T)
  case 0
  then have "\<not> tot < n" "tot = n" by (simp_all add: word_less_nat_alt word_le_nat_alt word_unat_eq_iff)
  then show ?case using 0(1) advanced_refl[OF 0(1)]
    by (intro exI[of _ bs] exI[of _ L] exI[of _ s], subst writei_loop.simps) (simp add: get_bytes_def overwritten_def)
next
  case (Suc k)
  note w = Suc.prems(1)
  show ?case
  proof (cases "tot < n")
    case False
    then have "tot = n" using Suc.prems(2) by simp
    then show ?thesis using w advanced_refl[OF w]
      by (intro exI[of _ bs] exI[of _ L] exI[of _ s], subst writei_loop.simps) (simp add: get_bytes_def overwritten_def)
  next
    case True
    define m where "m = min (n - tot) (1024 - off mod 1024)"
    let ?N = "unat n - unat tot" and ?C = "content dev s" and ?sb = "superb s"
    have nt: "unat (n - tot) = ?N" using Suc.prems(2) by (simp add: unat_sub word_le_nat_alt)
    have q: "unat (1024 - off mod 1024) = 1024 - unat off mod 1024" by (simp add: unat_sub word_le_nat_alt unat_mod_distrib)
    have um: "unat m = min ?N (1024 - unat off mod 1024)" unfolding m_def by (simp add: min_def word_le_nat_alt nt q)
    have N: "0 < ?N" using True by (simp add: word_less_nat_alt)
    have mN: "unat m \<le> ?N" "0 < unat m" using um N by auto
    obtain T' where T: "T = Suc T'" using Suc.prems(7) N by (cases T) auto
    have ap: "apart s src (unat m)"
    proof -
      have "within a src (unat m) \<Longrightarrow> within a src ?N" for a using within_mono mN(1) by blast
      then show ?thesis using Suc.prems(5) mN(1) unfolding apart_def by auto
    qed
    have r6: "room 6 L {}" "2 \<le> card (free_blocks ?C ?sb)" using Suc.prems(8,9) by (simp_all add: T room_def)
    have fit: "unat off + unat m \<le> 268 * 1024" using Suc.prems(4) mN(1) by simp
    let ?q = "get_bytes (mem s) src (unat m)"
    obtain bs1 L1 u where u: "writei_loop (Suc k) e ip False src off n tot s = writei_loop k e ip False (src + ucast m) (off + m) n (tot + m) u"
      "writing p dev S L1 ip bs1 (overwritten (unat off) ?q F) u" "length L1 \<le> length L + 6" "advanced dev ip bs s bs1 u"
      "card (free_blocks ?C ?sb) \<le> card (free_blocks (content dev u) ?sb) + 2"
      using writei_turn[OF w r6 m_def True Suc.prems(3) fit ap] by blast
    have sr: "same_rest s u" "superb u = ?sb" using u(4) by (simp_all add: advanced_def same_rest_def)
    have ut: "unat (tot + m) = unat tot + unat m"
    proof -
      have "unat tot + unat m \<le> unat n" using mN(1) N by linarith
      then have "unat tot + unat m < 2 ^ 32" using unsigned_less[of n, where 'a = nat] by simp
      then show ?thesis by (simp add: unat_word_ariths)
    qed
    have uo: "unat (off + m) = unat off + unat m" using fit by (simp add: unat_word_ariths)
    have um64: "(ucast m :: addr) = of_nat (unat m)" by (simp only: of_nat_unat)
    have rest: "unat n - unat (tot + m) = ?N - unat m" using ut by simp
    have lF: "unat (off + m) \<le> length (overwritten (unat off) ?q F)"
      using overwritten_length[OF Suc.prems(3), of ?q] uo by (simp add: get_bytes_def)
    have turns: "unat n - unat (tot + m) = 0 \<or> unat (off + m) mod 1024 + (unat n - unat (tot + m)) \<le> 1024 * T'"
    proof (cases "unat m = ?N")
      case True
      then show ?thesis unfolding rest by simp
    next
      case False
      then have e: "unat m = 1024 - unat off mod 1024" using um by linarith
      have d: "unat off = 1024 * (unat off div 1024) + unat off mod 1024" by simp
      have "unat off + unat m = 1024 * (unat off div 1024 + 1)"
      proof -
        define a r where "a = unat off div 1024" and "r = unat off mod 1024"
        have "unat off = 1024 * a + r" "unat m = 1024 - r" "r < 1024" using e d by (simp_all add: a_def r_def)
        then show ?thesis unfolding a_def[symmetric] by simp
      qed
      then have z: "unat (off + m) mod 1024 = 0" unfolding uo by (metis mod_mult_self1_is_0)
      have "unat off mod 1024 + ?N \<le> 1024 * T" using Suc.prems(7) N by simp
      moreover have "unat off mod 1024 < 1024" by simp
      ultimately have "?N - unat m \<le> 1024 * T'" unfolding T mult_Suc_right using e by linarith
      then show ?thesis unfolding rest z by simp
    qed
    have "\<exists>bs' L' t. writei_loop k e ip False (src + ucast m) (off + m) n (tot + m) u = Ok ((n, off + m + (n - (tot + m))), t) \<and>
      writing p dev S L' ip bs' (overwritten (unat (off + m)) (get_bytes (mem u) (src + ucast m) (unat n - unat (tot + m))) (overwritten (unat off) ?q F)) t \<and>
      length L' \<le> length L1 + 6 * T' \<and> advanced dev ip bs1 u bs' t"
    proof (rule Suc.IH[OF u(2) _ lF _ _ _ turns])
      show "tot + m \<le> n" using ut mN(1) N by (simp add: word_le_nat_alt)
      show "unat (off + m) + (unat n - unat (tot + m)) \<le> 268 * 1024" using Suc.prems(4) mN(1) unfolding rest uo by simp
      show "apart u (src + ucast m) (unat n - unat (tot + m))"
        using apart_rest[OF Suc.prems(5) mN(1)] unfolding rest um64 outside_rest(2)[OF sr(1)] .
      show "unat n - unat (tot + m) \<le> k" using Suc.prems(6) mN(2) unfolding rest by linarith
      show "room (6 * T') L1 {}" using Suc.prems(8) u(3) by (simp add: T room_def)
      show "2 * T' \<le> card (free_blocks (content dev u) (superb u))" using Suc.prems(9) u(5) unfolding sr(2) T mult_Suc_right by linarith
    qed
    then obtain bs2 L2 t where t: "writei_loop k e ip False (src + ucast m) (off + m) n (tot + m) u = Ok ((n, off + m + (n - (tot + m))), t)"
      "writing p dev S L2 ip bs2 (overwritten (unat (off + m)) (get_bytes (mem u) (src + ucast m) (unat n - unat (tot + m))) (overwritten (unat off) ?q F)) t"
      "length L2 \<le> length L1 + 6 * T'" "advanced dev ip bs1 u bs2 t" by blast
    have mq: "get_bytes (mem u) (src + ucast m) (?N - unat m) = get_bytes (mem s) (src + ucast m) (?N - unat m)"
    proof (rule get_bytes_same)
      show "apart s (src + ucast m) (?N - unat m)" using apart_rest[OF Suc.prems(5) mN(1)] unfolding um64 .
      show "outside s x \<Longrightarrow> mem u x = mem s x" for x using u(4) by (simp add: advanced_def)
    qed
    have sp: "get_bytes (mem s) src ?N = ?q @ get_bytes (mem s) (src + ucast m) (?N - unat m)"
      using get_bytes_split[OF mN(1), of "mem s" src] unfolding um64 .
    have lq: "length ?q = unat m" by (simp add: get_bytes_def)
    have F2: "overwritten (unat (off + m)) (get_bytes (mem u) (src + ucast m) (unat n - unat (tot + m))) (overwritten (unat off) ?q F)
        = overwritten (unat off) (get_bytes (mem s) src ?N) F"
      unfolding rest uo mq sp
      using overwritten_join[OF Suc.prems(3), of ?q "get_bytes (mem s) (src + ucast m) (?N - unat m)"] unfolding lq .
    have adv: "advanced dev ip bs s bs2 t" using advanced_trans[OF u(4) t(4)] w by (simp add: writing_def)
    have "off + m + (n - (tot + m)) = off + (n - tot)" by simp
    then show ?thesis using u(1,3) t(1,2,3) F2 adv by (intro exI[of _ bs2] exI[of _ L2] exI[of _ t]) (simp add: T)
  qed
qed

end

section \<open>Writing\<close>

text \<open>The inode \<open>ip\<close>, whose own block is \<open>IB\<close>, has the bytes \<open>F\<close> in the blocks \<open>bs\<close>, all marked as in use.\<close>

definition on_disk :: "32 word \<Rightarrow> nat \<Rightarrow> 32 word list \<Rightarrow> byte list \<Rightarrow> 'a fs_st_scheme \<Rightarrow> bool" where
  "on_disk dev ip bs F s \<longleftrightarrow>
     (let k = inode_at s ip; C = content dev s; sb = superb s; IB = IBLOCK (i_inum k) sb in
      sb_ok sb \<and> ip < length (inodes s) \<and> i_dev k = dev \<and> i_inum k < sb_ninodes sb \<and>
      i_size k = of_nat (length F) \<and> length F \<le> 268 * 1024 \<and>
      file_is C (i_addrs k) bs F \<and> used_ok C sb (own (i_addrs k) bs) \<and> map_ok C sb \<and>
      IB \<notin> in_map sb \<and> IB \<notin> free_blocks C sb \<and> IB \<notin> own (i_addrs k) bs \<and> length (C IB) = 1024)"

lemma used_data: "used_ok C sb (own ad bs) \<Longrightarrow> b \<in> set bs \<Longrightarrow> length (C b) = 1024"
  by (auto simp: used_ok_def own_def)

lemma on_disk_reads: "on_disk dev ip bs F s \<Longrightarrow> holds_bytes dev {} ip bs F s"
  using small_block[of "superb s"] by (auto simp: on_disk_def holds_bytes_def used_ok_def Let_def)

lemma file_at_frame:
  assumes f: "file_at C sb ad bs" and b: "c \<notin> in_map sb" "c \<notin> own ad bs"
  shows "file_at (C(c := Y)) sb ad bs" "free_blocks (C(c := Y)) sb = free_blocks C sb" "has_bytes C bs F \<Longrightarrow> has_bytes (C(c := Y)) bs F"
proof -
  have m: "(C(c := Y)) x = C x" if "x \<in> in_map sb" for x using that b by auto
  show fr: "free_blocks (C(c := Y)) sb = free_blocks C sb" by (rule free_blocks_cong[OF m])
  have u: "used_ok C sb (own ad bs)" using f by (simp add: file_at_def)
  have "used_ok (C(c := Y)) sb (own ad bs)" by (rule used_ok_cong[OF u fr]) (use b in auto)
  moreover have "map_ok (C(c := Y)) sb" using map_ok_cong[of sb "C(c := Y)" C, OF m] f by (simp add: file_at_def)
  moreover have "12 < length bs \<Longrightarrow> ad ! 12 \<noteq> c" using b(2) by (auto simp: own_def)
  then have "has_blocks (C(c := Y)) ad bs" using has_blocks_cong[of bs "C(c := Y)" ad C] f by (simp add: file_at_def)
  ultimately show "file_at (C(c := Y)) sb ad bs" using f by (simp add: file_at_def)
  show "has_bytes (C(c := Y)) bs F" if h: "has_bytes C bs F"
  proof -
    have "bs ! (i div 1024) \<noteq> c" if "i < length F" for i
      using has_bytes_index[OF h that] b(2) nth_mem[of "i div 1024" bs] by (auto simp: own_def)
    then show ?thesis using h by (simp add: has_bytes_def)
  qed
qed

context fs_env
begin

lemma writei_ok:
  assumes x: "tx p dev S L {} s" "\<not> panicking s" and d: "on_disk dev ip bs F s"
    and off: "unat off \<le> length F" "unat off + unat n \<le> 268 * 1024" and ap: "apart s src (unat n)"
    and T: "unat off mod 1024 + unat n \<le> 1024 * T" "room (6 * T + 1) L {}" "2 * T \<le> card (free_blocks (content dev s) (superb s))"
  defines "F' \<equiv> overwritten (unat off) (get_bytes (mem s) src (unat n)) F"
  shows "\<exists>bs' L' t. writei e ip False src off n s = Ok (int (unat n), t) \<and> tx p dev S L' {} t \<and> length L' \<le> length L + 6 * T + 1 \<and>
    on_disk dev ip bs' F' t \<and> superb t = superb s \<and> buf_addr t = buf_addr s \<and> inode_on (content dev t) (superb s) (i_inum (inode_at s ip)) = to_dinode (inode_at t ip) \<and>
    inodes t = (inodes s)[ip := (inode_at s ip)\<lparr>i_addrs := i_addrs (inode_at t ip), i_size := of_nat (length F')\<rparr>] \<and>
    own (i_addrs (inode_at t ip)) bs' \<subseteq> own (i_addrs (inode_at s ip)) bs \<union> free_blocks (content dev s) (superb s) \<and>
    free_blocks (content dev t) (superb s) = free_blocks (content dev s) (superb s) - own (i_addrs (inode_at t ip)) bs' \<and>
    (\<forall>b. b \<notin> own (i_addrs (inode_at t ip)) bs' \<longrightarrow> b \<notin> in_map (superb s) \<longrightarrow> b \<noteq> IBLOCK (i_inum (inode_at s ip)) (superb s) \<longrightarrow>
       content dev t b = content dev s b) \<and>
    content dev t (IBLOCK (i_inum (inode_at s ip)) (superb s)) =
      put_dinode (i_inum (inode_at s ip)) (to_dinode (inode_at t ip)) (content dev s (IBLOCK (i_inum (inode_at s ip)) (superb s))) \<and>
    (\<forall>a. outside s a \<longrightarrow> mem t a = mem s a)"
proof -
  let ?C = "content dev s" and ?sb = "superb s" and ?k = "inode_at s ip"
  let ?IB = "IBLOCK (i_inum ?k) ?sb"
  note D = d[unfolded on_disk_def Let_def]
  have bl: "b \<in> set bs \<Longrightarrow> length (?C b) = 1024" for b using D used_data by blast
  have fi: "has_blocks ?C (i_addrs ?k) bs" "own_ok (i_addrs ?k) bs" "has_bytes ?C bs F" using D file_is_bytes[of bs ?C "i_addrs ?k" F, OF bl] by auto
  have w: "writing p dev S L ip bs F s" using x D fi by (simp add: writing_def file_at_def)
  have n: "unat n \<le> 268 * 1024" using off(2) by simp
  have uon: "unat (off + n) = unat off + unat n" using off(2) by (simp add: unat_word_ariths)
  have pre: "(0 :: 32 word) \<le> n" "unat off + (unat n - unat (0 :: 32 word)) \<le> 268 * 1024" "apart s src (unat n - unat (0 :: 32 word))"
    "unat n - unat (0 :: 32 word) \<le> unat n" "unat n - unat (0 :: 32 word) = 0 \<or> unat off mod 1024 + (unat n - unat (0 :: 32 word)) \<le> 1024 * T"
    "room (6 * T) L {}"
    using off(2) ap T(1,2) by (simp_all add: room_def)
  obtain bs' L1 t where t: "writei_loop (unat n) e ip False src off n 0 s = Ok ((n, off + (n - 0)), t)" "writing p dev S L1 ip bs' F' t"
    "length L1 \<le> length L + 6 * T" "advanced dev ip bs s bs' t"
    using writei_loop_ok[OF w pre(1) off(1) pre(2-6) T(3)] unfolding F'_def by auto
  note W = t(2)[unfolded writing_def] and A = t(4)[unfolded advanced_def same_rest_def]
  let ?D = "content dev t" and ?ad = "i_addrs (inode_at t ip)"
  obtain ad where i: "inodes t = (inodes s)[ip := ?k\<lparr>i_addrs := ad\<rparr>]" using A by blast
  then have kt: "inode_at t ip = ?k\<lparr>i_addrs := ?ad\<rparr>" and ad: "ad = ?ad" using D by (simp_all add: inode_at_def)
  have isz: "i_size (inode_at t ip) = of_nat (length F)" by (subst kt) (use D in simp)
  have sb: "superb t = ?sb" using A by simp
  note wr = conjunct1[OF A, unfolded written_def]
  have lF: "length F' = max (length F) (unat off + unat n)" unfolding F'_def using overwritten_length[OF off(1)] by (simp add: get_bytes_def)
  have lF2: "length F' \<le> 268 * 1024" using lF D off(2) by simp
  have uF: "unat (of_nat (length F) :: 32 word) = length F" "unat (of_nat (length F') :: 32 word) = length F'"
    using D lF2 by (simp_all add: unat_of_nat take_bit_eq_mod)
  define v where "v = (if i_size (inode_at t ip) < off + n then upd_inode ip (\<lambda>k. k\<lparr>i_size := off + n\<rparr>) t else t)"
  have v: "tx p dev S L1 {} v" "content dev v = ?D" "superb v = ?sb" "panicking v = panicking t"
    using W sb by (simp_all add: v_def cache_upd_inode)
  have iv: "inodes v = (inodes s)[ip := ?k\<lparr>i_addrs := ?ad, i_size := of_nat (length F')\<rparr>]"
  proof (cases "i_size (inode_at t ip) < off + n")
    case True
    then have "length F < unat off + unat n" using isz uon uF by (simp add: word_less_nat_alt)
    then have "off + n = of_nat (length F')" using lF uon uF(2) by (simp add: word_unat_eq_iff)
    then show ?thesis unfolding ad[symmetric] using True i D by (simp add: v_def upd_inode_def inode_at_def)
  next
    case False
    then have "\<not> length F < unat off + unat n" using isz uon uF by (simp add: word_less_nat_alt)
    then have "length F' = length F" using lF by simp
    then have "?k\<lparr>i_addrs := ?ad, i_size := of_nat (length F')\<rparr> = ?k\<lparr>i_addrs := ?ad\<rparr>" using D by (cases ?k) simp
    then show ?thesis unfolding ad[symmetric] using False i by (simp add: v_def)
  qed
  have kv: "inode_at v ip = ?k\<lparr>i_addrs := ?ad, i_size := of_nat (length F')\<rparr>" using iv D by (simp add: inode_at_def)
  have r1: "room 1 L1 {}" using T(2) t(3) by (simp add: room_def)
  have pv: "sb_ok (superb v)" "i_dev (inode_at v ip) = dev" "i_inum (inode_at v ip) < sb_ninodes (superb v)"
    "not_held v {} (IBLOCK (i_inum (inode_at v ip)) (superb v))" using D v(3) kv by simp_all
  obtain z where z: "iupdate e ip v = Ok z" "tx p dev S (absorb ?IB L1) {} z"
    "content dev z = with_inode ?sb (i_inum ?k) (to_dinode (inode_at v ip)) ?D" "sto_only v z"
    using iupdate_ok[OF v(1) pv(1) r1 pv(2-4)] v(2,3) kv by auto
  note fz = sto_only_fields[OF z(4)]
  have IB: "?IB \<notin> in_map ?sb" "?IB \<notin> own ?ad bs'" "?D ?IB = ?C ?IB" "?IB \<notin> free_blocks ?D ?sb"
    using D wr by auto
  define Y where "Y = put_dinode (i_inum ?k) (to_dinode (inode_at v ip)) (?D ?IB)"
  have Cz: "content dev z = ?D(?IB := Y)" using z(3) by (simp add: with_inode_def Y_def)
  have fa: "file_at ?D ?sb ?ad bs'" "has_bytes ?D bs' F'" using W sb by simp_all
  note fr = file_at_frame[OF fa(1) IB(1,2), where Y = Y]
  have kz: "inode_at z ip = inode_at v ip" using fz(2) by (simp add: inode_at_def)
  have az: "i_addrs (inode_at z ip) = ?ad" using kz kv by simp
  have "file_is (content dev z) ?ad bs' F'"
    using file_is_bytes[of bs' "content dev z" ?ad F'] used_data[of "content dev z" ?sb ?ad bs'] fr fa unfolding Cz by (simp add: file_at_def)
  moreover have "length (content dev z ?IB) = 1024" using D IB(3) unfolding Cz Y_def by simp
  moreover have "used_ok (content dev z) ?sb (own ?ad bs')" "map_ok (content dev z) ?sb" using fr(1) unfolding Cz by (simp_all add: file_at_def)
  moreover have fbz: "free_blocks (content dev z) ?sb = free_blocks ?D ?sb" using fr(2) unfolding Cz .
  moreover have lz: "length (inodes z) = length (inodes s)" using fz(2) iv by simp
  ultimately have od: "on_disk dev ip bs' F' z"
    using D kz kv v(3) fz(1) IB lF2 unfolding on_disk_def Let_def by simp
  have dn: "inode_on (content dev z) ?sb (i_inum ?k) = to_dinode (inode_at z ip)"
  proof -
    have "length (?D ?IB) = 1024" using IB(3) D by simp
    moreover have "length (di_addrs (to_dinode (inode_at v ip))) = 13" using fa(1) kv by (simp add: to_dinode_def file_at_def has_blocks_def)
    ultimately show ?thesis using inode_on_with[of ?D "i_inum ?k" ?sb] kz unfolding z(3) by simp
  qed
  have nsmall: "sint n = int (unat n)"
  proof -
    define N where "N = unat n"
    have "N < 2 ^ 31" "n = of_nat N" using n by (simp_all add: N_def)
    then show ?thesis unfolding N_def[symmetric] by (simp add: signed_of_nat signed_take_bit_int_eq_self)
  qed
  have ok: "\<not> i_size ?k < off" "\<not> off + n < off" "\<not> 274432 < off + n"
    using D off uF uon by (simp_all add: word_less_nat_alt)
  have "writei e ip False src off n s = Ok (int (unat n), z)"
    using ok t(1) z(1) nsmall by (simp add: writei_def Let_def v_def)
  moreover have "inodes z = (inodes s)[ip := ?k\<lparr>i_addrs := i_addrs (inode_at z ip), i_size := of_nat (length F')\<rparr>]"
    using fz(2) iv az by simp
  moreover have "\<forall>b. b \<notin> own (i_addrs (inode_at z ip)) bs' \<longrightarrow> b \<notin> in_map ?sb \<longrightarrow> b \<noteq> ?IB \<longrightarrow> content dev z b = ?C b"
    using wr unfolding Cz az by simp
  moreover have "free_blocks (content dev z) ?sb = free_blocks ?C ?sb - own (i_addrs (inode_at z ip)) bs'"
    "own (i_addrs (inode_at z ip)) bs' \<subseteq> own (i_addrs ?k) bs \<union> free_blocks ?C ?sb" using wr fbz unfolding az by simp_all
  moreover have "buf_addr z = buf_addr s" using fz(3) A by (simp add: v_def)
  moreover have "content dev z ?IB = put_dinode (i_inum ?k) (to_dinode (inode_at z ip)) (?C ?IB)"
    using IB(3) kz unfolding Cz Y_def by simp
  moreover have "\<forall>a. outside s a \<longrightarrow> mem z a = mem s a" using fz(4) A by (simp add: v_def)
  moreover have "length (absorb ?IB L1) \<le> length L + 6 * T + 1" using length_absorb[of ?IB L1] t(3) by simp
  ultimately show ?thesis using z(2) od dn fz(1) v(3) by (intro exI[of _ bs'] exI[of _ "absorb ?IB L1"] exI[of _ z]) simp
qed

end

end
