(* ===== verification/KS_Properties.thy ===== *)
theory KS_Properties
  imports K_Properties K_Writei
begin

text \<open>
  The properties of the kernel's storage: the disk, its cache, its log and the files on it.  Each has an instance after it,
  at a machine that has just started.
\<close>

section \<open>A machine that has started\<close>

definition new_buf :: buf where
  "new_buf = \<lparr>b_valid = False, b_disk = False, b_dev = 0, b_blockno = 0, b_refcnt = 0, b_prev = 0, b_next = 0, b_data = []\<rparr>"

definition new_virtq :: virtq where
  "new_virtq = \<lparr>v_desc = replicate 8 null_desc, v_ring = replicate 8 0, v_aidx = 0, v_used = replicate 8 0, v_uidx = 0,
     v_free = replicate 8 True, v_seen = 0, v_info = replicate 8 \<lparr>i_buf = None, i_status = 0\<rparr>,
     v_ops = replicate 8 \<lparr>q_type = 0, q_reserved = 0, q_sector = 0\<rparr>\<rparr>"

definition first_proc :: kproc where
  "first_proc = (ready_proc 1 0)\<lparr>p_state := RUNNING\<rparr>"

text \<open>
  The first process runs, the buffers are as \<open>binit\<close> leaves them, the disk \<open>m\<close> has not been read; \<open>x\<close> is the state of
  the layers above.
\<close>

definition loaded :: "(64 word \<Rightarrow> byte list) \<Rightarrow> 'a \<Rightarrow> 'a log_st_scheme" where
  "loaded m x =
     \<lparr>held = [], irq = True, kout = [], panicking = False, mem = (\<lambda>_. 0), kmem_free = 0, kend = KERNBASE,
      kernel_pagetable = 0, etext = KERNBASE, trampoline = KERNBASE, procs = table_of [first_proc], initproc = None,
      nextpid = 100, ticks = 7, curproc = Some 0, forkret_addr = 0, mlfq_last = [0, 0, 0, 0],
      sleeplocks = (\<lambda>_. free_lock), bufs = replicate (Suc NBUF) new_buf, vq = new_virtq, media = m, writes = [],
      klog = \<lparr>lg_start = 2, lg_outstanding = 1, lg_committing = False, lg_dev = 1, lg_ncommit = 0,
        lg_lh = \<lparr>lh_n = 0, lh_block = replicate LOGBLOCKS 0\<rparr>\<rparr>, \<dots> = x\<rparr>"

lemma loaded_mem: "mem (loaded m x) = (\<lambda>_. 0)" and loaded_unlocked: "sleeplocks (loaded m x) = (\<lambda>_. free_lock)"
  by (simp_all add: loaded_def)

definition started_with :: "(64 word \<Rightarrow> byte list) \<Rightarrow> 'a \<Rightarrow> 'a log_st_scheme" where
  "started_with m x = binit (loaded m x)"

abbreviation started :: "(64 word \<Rightarrow> byte list) \<Rightarrow> log_st" where
  "started m \<equiv> started_with m ()"

lemma foldl_invariant: "P s \<Longrightarrow> (\<And>t b. P t \<Longrightarrow> P (f t b)) \<Longrightarrow> P (foldl f s xs)"
  by (induction xs arbitrary: s) simp_all

lemma binit_frame:
  assumes "sleeplocks s = (\<lambda>_. free_lock)"
  shows "binit s = s\<lparr>bufs := bufs (binit s)\<rparr> \<and> length (bufs (binit s)) = length (bufs s) \<and>
    (\<forall>i. core (bufs (binit s) ! i) = core (bufs s ! i))"
  unfolding binit_def Let_def[of "s\<lparr>bufs := _\<rparr>"]
proof (rule foldl_invariant)
  fix t :: "'a disk_st_scheme" and b
  assume t: "t = s\<lparr>bufs := bufs t\<rparr> \<and> length (bufs t) = length (bufs s) \<and> (\<forall>i. core (bufs t ! i) = core (bufs s ! i))"
  then obtain bs where bs: "t = s\<lparr>bufs := bs\<rparr>" "length bs = length (bufs s)" "\<forall>i. core (bs ! i) = core (bufs s ! i)" by auto
  have "(\<lambda>_. free_lock)(SL_buf b := \<lparr>sl_locked = False, sl_pid = 0\<rparr>) = (\<lambda>_. free_lock)" by (auto simp: free_lock_def)
  then show "(let s = t\<lparr>bufs := set_next b (b_next (bufs t ! NBUF)) (bufs t)\<rparr>; s = s\<lparr>bufs := set_prev b NBUF (bufs s)\<rparr>;
        s = initsleeplock (SL_buf b) s; s = s\<lparr>bufs := set_prev (b_next (bufs s ! NBUF)) b (bufs s)\<rparr>
      in s\<lparr>bufs := set_next NBUF b (bufs s)\<rparr>) = s\<lparr>bufs := bufs
        (let s = t\<lparr>bufs := set_next b (b_next (bufs t ! NBUF)) (bufs t)\<rparr>; s = s\<lparr>bufs := set_prev b NBUF (bufs s)\<rparr>;
          s = initsleeplock (SL_buf b) s; s = s\<lparr>bufs := set_prev (b_next (bufs s ! NBUF)) b (bufs s)\<rparr>
        in s\<lparr>bufs := set_next NBUF b (bufs s)\<rparr>)\<rparr> \<and>
      length (bufs (let s = t\<lparr>bufs := set_next b (b_next (bufs t ! NBUF)) (bufs t)\<rparr>; s = s\<lparr>bufs := set_prev b NBUF (bufs s)\<rparr>;
          s = initsleeplock (SL_buf b) s; s = s\<lparr>bufs := set_prev (b_next (bufs s ! NBUF)) b (bufs s)\<rparr>
        in s\<lparr>bufs := set_next NBUF b (bufs s)\<rparr>)) = length (bufs s) \<and>
      (\<forall>i. core (bufs (let s = t\<lparr>bufs := set_next b (b_next (bufs t ! NBUF)) (bufs t)\<rparr>; s = s\<lparr>bufs := set_prev b NBUF (bufs s)\<rparr>;
          s = initsleeplock (SL_buf b) s; s = s\<lparr>bufs := set_prev (b_next (bufs s ! NBUF)) b (bufs s)\<rparr>
        in s\<lparr>bufs := set_next NBUF b (bufs s)\<rparr>) ! i) = core (bufs s ! i))"
    using bs assms by (cases s) (simp add: Let_def initsleeplock_def upd_sleeplock_def)
qed (use assms in simp)

lemma started_cache: "cache 0 1 {} {} (started_with m x)"
  and started_simps: "media (started_with m x) = m" "writes (started_with m x) = []" "lg_outstanding (klog (started_with m x)) = 1"
    "logs 1 2 [] (started_with m x)" "\<not> panicking (started_with m x)" "\<not> lg_committing (klog (started_with m x))" "lg_ncommit (klog (started_with m x)) = 0"
proof -
  define s0 where "s0 = loaded m x"
  have st: "started_with m x = binit s0" by (simp add: started_with_def s0_def)
  have f: "binit s0 = s0\<lparr>bufs := bufs (binit s0)\<rparr>" "length (bufs (binit s0)) = Suc NBUF"
    "core (bufs (binit s0) ! i) = core (bufs s0 ! i)" for i
    using binit_frame[of s0] by (simp_all add: s0_def loaded_def)
  have r: "ring (bufs (binit s0)) (rev [0..<NBUF])" by (rule binit_ring) (simp add: s0_def loaded_def)
  define bs where "bs = bufs (binit s0)"
  have rb: "\<exists>xs. ring bs xs" unfolding bs_def using r by blast
  have e: "started_with m x = s0\<lparr>bufs := bs\<rparr>" using f(1) st by (simp add: bs_def)
  have c: "core (bs ! i) = core new_buf" if "i < NBUF" for i using f(3)[of i] that by (simp add: bs_def) (simp add: s0_def loaded_def nth_Cons split: nat.split)
  then have d: "b_dev (bs ! i) = 0 \<and> b_refcnt (bs ! i) = 0 \<and> \<not> b_disk (bs ! i)" if "i < NBUF" for i
    using that core_eqD[OF c[OF that]] by (simp add: new_buf_def)
  have run: "runs 0 (started_with m x)"
    by (simp add: e s0_def loaded_def runs_def proc_at_def NPROC_def table_of_def first_proc_def ready_proc_def)
  have dv: "drv_idle (started_with m x)" by (simp add: e s0_def loaded_def drv_idle_def new_virtq_def NDESC_def numeral_eq_Suc)
  show "cache 0 1 {} {} (started_with m x)"
    unfolding cache_def using run dv rb d by (simp add: e uniq_def buf_ok_def) (simp add: s0_def loaded_def free_lock_def)
  show "media (started_with m x) = m" "writes (started_with m x) = []" "lg_outstanding (klog (started_with m x)) = 1" "logs 1 2 [] (started_with m x)"
    "\<not> panicking (started_with m x)" "\<not> lg_committing (klog (started_with m x))" "lg_ncommit (klog (started_with m x)) = 0"
    by (simp_all add: e s0_def loaded_def logs_def)
qed

lemma upd_bufs_sleeplocks: "sleeplocks (s\<lparr>bufs := b\<rparr>) = sleeplocks s"
  by simp

lemma started_unlocked: "sleeplocks (started_with m x) (SL_inode i) = free_lock"
proof -
  have "binit (loaded m x) = (loaded m x)\<lparr>bufs := bufs (binit (loaded m x))\<rparr>"
    using binit_frame[of "loaded m x"] by (simp add: loaded_def)
  then have "sleeplocks (binit (loaded m x)) = sleeplocks (loaded m x)"
    by (metis upd_bufs_sleeplocks)
  then show ?thesis by (simp add: started_with_def loaded_def)
qed

text \<open>A first transaction: block 50 is overwritten and logged.\<close>

lemma first_transaction:
  "\<exists>s :: log_st. cache 0 1 {50} {} s \<and> logs 1 2 [50] s \<and> content 1 s = (blocks m)(50 := x) \<and> media s = m \<and> writes s = []"
proof -
  let ?e = "device_env :: log_st kenv"
  note st = started_cache[of m "()"]
  have b: "home 2 50" by (simp add: home_def LOGBLOCKS_def)
  obtain k where k: "k < NBUF" "b_refcnt (bufs (started m) ! k) = 0" using free_buf[OF st] by (auto simp: NBUF_def)
  obtain i s1 where i: "bread ?e 1 50 (started m) = Ok (i, s1)" "got 0 1 {} {} (started m) 50 i s1"
    using vd.bread_ok[OF st _ _ k, of 50] by auto
  note g = i(2)[unfolded got_def]
  have c1: "cache 0 1 {} {i} s1" using g by simp
  define s2 where "s2 = set_data i x s1"
  note sd = set_data_ok[OF c1, where b = i and x = x, folded s2_def, simplified]
  have k2: "klog s2 = klog (started m)" using bio_only_klog[OF bio_only_trans[of _ s1 s2]] g sd by auto
  have c2: "cache 0 1 (set []) {i} s2" using sd(1) by simp
  have l2: "logs 1 2 [] s2" using started_simps(4)[of m "()"] logs_klog[OF k2] by simp
  have bn: "b_blockno (bufs s2 ! i) = 50" using sd(3) g by simp
  obtain s3 where s3: "log_write i s2 = Ok s3" "cache 0 1 {50} {i} s3" "logs 1 2 [50] s3" "content 1 s3 = content 1 s2"
    "media s3 = media s2" "writes s3 = writes s2" "\<forall>k. b_blockno (bufs s3 ! k) = b_blockno (bufs s2 ! k) \<and> b_data (bufs s3 ! k) = b_data (bufs s2 ! k)"
    using log_write_ok[OF c2 _ l2] k2 bn started_simps(3)[of m "()"] by (auto simp: LOGBLOCKS_def absorb_def)
  obtain t where "brelse i s3 = Ok t" "cache 0 1 {50} ({i} - {i}) t" "content 1 t = content 1 s3" "media t = media s3"
    "writes t = writes s3" "bio_only s3 t"
    using brelse_ok[OF s3(2), of i] s3(7) bn by auto
  moreover have "content 1 s1 = blocks m" using clean[OF st] g started_simps(1)[of m "()"] by (simp add: fun_eq_iff blocks_def)
  ultimately show ?thesis
    using s3 sd(2) g logs_klog[OF bio_only_klog[of s3 t]] started_simps(1,2)[of m "()"] by (intro exI[of _ t]) (simp add: s2_def)
qed

text \<open>C30: Crash atomicity of the log.  A commit of a transaction of the blocks \<open>bs\<close> returns, and whatever
  number \<open>k\<close> of its disk writes have reached the disk when the machine stops, the recovery at the next start
  returns and leaves every block outside the log as before the transaction (if the header had not been written)
  or as after it (from the write of the header on), never a mixture.\<close>

theorem commit_all_or_nothing:
  fixes e :: "'a log_st_scheme kenv"
  assumes "disk_env e" and "cache p dev (set bs) {} s" "logs dev S bs s" and "layout S bs" "length bs < NBUF" "bs \<noteq> []"
    and "head_block [] (media s (sector_of S))"
  shows "\<exists>t W. commit e s = Ok t \<and> writes t = writes s @ W \<and> media t = on_media W (media s) \<and>
    lh_n (lg_lh (klog t)) = 0 \<and> (\<forall>b. home S b \<longrightarrow> content dev t b = content dev s b) \<and>
    (\<forall>k. recovers e dev S (on_media (take k W) (media s)) (if k \<le> length bs then blocks (media s) else content dev s))"
  using log_env.crash_safe[OF log_env.intro[OF assms(1)] assms(2-7)] by blast

definition demo_sb :: superblock where
  "demo_sb = \<lparr>sb_magic = 0x10203040, sb_size = 2000, sb_nblocks = 1954, sb_ninodes = 200, sb_nlog = 31,
     sb_logstart = 2, sb_inodestart = 33, sb_bmapstart = 46\<rparr>"

theorem commit_all_or_nothing_witness:
  "\<exists>(s :: log_st) t W u u'. content 1 s 50 = replicate 1024 7 \<and> media s (sector_of 50) = replicate 1024 0 \<and>
    commit device_env s = Ok t \<and> writes t = writes s @ W \<and>
    initlog device_env 1 demo_sb (started (on_media (take 1 W) (media s))) = Ok u \<and> media u (sector_of 50) = replicate 1024 0 \<and>
    initlog device_env 1 demo_sb (started (on_media (take 2 W) (media s))) = Ok u' \<and> media u' (sector_of 50) = replicate 1024 7"
proof -
  let ?e = "device_env :: log_st kenv"
  define m :: "64 word \<Rightarrow> byte list" where "m = (\<lambda>_. replicate 1024 0)"
  obtain s :: log_st where s: "cache 0 1 {50} {} s" "logs 1 2 [50] s" "content 1 s = (blocks m)(50 := replicate 1024 7)" "media s = m"
    using first_transaction by blast
  have hb: "head_block [] (media s (sector_of 2))" by (simp add: s m_def head_block_def get32_def)
  have ly: "layout 2 [50]" by (simp add: layout_def home_def LOGBLOCKS_def)
  have h: "home 2 50" by (simp add: home_def LOGBLOCKS_def)
  obtain t W where t: "commit ?e s = Ok t" "writes t = writes s @ W"
    "\<forall>k. recovers ?e 1 2 (on_media (take k W) (media s)) (if k \<le> length [50 :: 32 word] then blocks (media s) else content 1 s)"
    using commit_all_or_nothing[of ?e 0 1 "[50]" s 2, OF vd.disk_env_axioms] s(1,2) ly hb by (auto simp: NBUF_def)
  have r: "\<exists>u. initlog ?e 1 demo_sb (started d) = Ok u \<and> blocks (media u) 50 = F 50" if "recovers ?e 1 2 d F" for d F
  proof -
    have b: "cache 0 1 {} {} (started d)" "\<not> panicking (started d)" "length (lh_block (lg_lh (klog (started d)))) = LOGBLOCKS"
      "sb_logstart demo_sb = 2" "media (started d) = d"
      using started_cache[of d "()"] started_simps(1,4,5)[of d "()"] by (simp_all add: logs_def demo_sb_def)
    show ?thesis using that[unfolded recovers_def, rule_format, of 0 "started d" demo_sb] b h by blast
  qed
  obtain u where u: "initlog ?e 1 demo_sb (started (on_media (take 1 W) (media s))) = Ok u" "blocks (media u) 50 = blocks (media s) 50"
    using r[OF t(3)[rule_format, of 1]] by auto
  obtain u' where u': "initlog ?e 1 demo_sb (started (on_media (take 2 W) (media s))) = Ok u'" "blocks (media u') 50 = content 1 s 50"
    using r[OF t(3)[rule_format, of 2]] by auto
  show ?thesis
    using t(1,2) s u u' by (intro exI[of _ s] exI[of _ t] exI[of _ W] exI[of _ u] exI[of _ u']) (simp add: m_def blocks_def)
qed

text \<open>C31: The block cache is transparent.  Whatever is cached, pinned or held, while some buffer is unreferenced
  \<open>bread\<close> of a block not held returns a buffer with the block's bytes - the cached ones or those of the disk -
  locked and counted, keeps the ring and its invariant, and changes the bytes of no block, cached or on the disk.\<close>

theorem bread_transparent:
  fixes e :: "'a disk_st_scheme kenv"
  assumes "disk_env e" and "cache p dev P H s" and "bn < 0x80000000" and "\<And>i. i \<in> H \<Longrightarrow> b_blockno (bufs s ! i) \<noteq> bn"
    and "k < NBUF" "b_refcnt (bufs s ! k) = 0"
  shows "\<exists>b t. bread e dev bn s = Ok (b, t) \<and> b \<notin> H \<and> cache p dev P (insert b H) t \<and>
    b_blockno (bufs t ! b) = bn \<and> b_data (bufs t ! b) = content dev s bn \<and>
    content dev t = content dev s \<and> media t = media s \<and> writes t = writes s"
proof -
  obtain b t where b: "bread e dev bn s = Ok (b, t)" "got p dev P H s bn b t"
    using disk_env.bread_ok[OF assms] by blast
  note g = b(2)[unfolded got_def]
  have "b_data (bufs t ! b) = content dev t bn"
    using content_at[of p dev P "insert b H" t b] held_dev[of p dev P "insert b H" t b] g by auto
  with b(1) g show ?thesis by auto
qed

theorem bread_transparent_witness:
  "\<exists>b t. bread device_env 1 50 (started (\<lambda>_. [1, 2, 3])) = Ok (b, t) \<and> b_data (bufs t ! b) = [1, 2, 3]"
proof -
  note st = started_cache[of "\<lambda>_. [1, 2, 3]" "()"]
  obtain k where k: "k < NBUF" "b_refcnt (bufs (started (\<lambda>_. [1, 2, 3])) ! k) = 0" using free_buf[OF st] by (auto simp: NBUF_def)
  have "content 1 (started (\<lambda>_. [1, 2, 3])) 50 = [1, 2, 3]" using clean[OF st] started_simps(1)[of "\<lambda>_. [1, 2, 3]" "()"] by simp
  with bread_transparent[OF vd.disk_env_axioms st _ _ k, of 50] show ?thesis by fastforce
qed


section \<open>Reading files\<close>

lemma copied_get_bytes:
  assumes "copied s F off d n t" "apart s d n" "off + n \<le> length F"
  shows "get_bytes (mem t) d n = take n (drop off F)"
proof (rule nth_equalityI)
  fix i assume "i < length (get_bytes (mem t) d n)"
  then have i: "i < n" by (simp add: get_bytes_def)
  have n: "n < 2 ^ 64" using assms(2) by (simp add: apart_def)
  have w: "within (d + of_nat i) d n" "unat (of_nat i :: addr) = i" using i n by (simp_all add: within_def unat_of_nat take_bit_eq_mod)
  then have "mem t (d + of_nat i) = F ! (off + i)" using assms(1,2) by (simp add: copied_def apart_def)
  then show "get_bytes (mem t) d n ! i = take n (drop off F) ! i" using i assms(3) by (simp add: get_bytes_def)
qed (use assms(3) in \<open>simp add: get_bytes_def\<close>)

text \<open>C32: Reading a file.  For an inode whose addresses lead, over the indirect block where there is one, to the bytes
  \<open>F\<close>, \<open>readi\<close> into kernel memory apart from the buffers returns the number of bytes asked for, or of those up to the end of
  the file if they are fewer; these bytes of the file are then at \<open>dst\<close>, the rest of memory is as before but for the buffers,
  and no block of the disk, inode or cached block has changed.\<close>

theorem readi_reads_file:
  fixes e :: "'a fs_st_scheme kenv"
  assumes "fs_env e" "cache p dev P H s" "spare P H" "holds_bytes dev H ip bs F s" "unat off \<le> length F" "unat off + unat n < 2 ^ 32"
    and m: "m = min (unat n) (length F - unat off)" and ap: "apart s dst m"
  shows "\<exists>t. readi e ip False dst off n s = Ok (int m, t) \<and> get_bytes (mem t) dst m = take m (drop (unat off) F) \<and>
    (\<forall>a. outside s a \<and> \<not> within a dst m \<longrightarrow> mem t a = mem s a) \<and>
    cache p dev P H t \<and> content dev t = content dev s \<and> writes t = writes s \<and> inodes t = inodes s"
proof -
  obtain t where t: "readi e ip False dst off n s = Ok (int m, t)" "stays p dev P H s t" "copied s F (unat off) dst m t"
    using fs_env.readi_ok[OF assms(1-6)] ap unfolding m by blast
  moreover have "unat off + m \<le> length F" using assms(5) unfolding m by simp
  then have "get_bytes (mem t) dst m = take m (drop (unat off) F)" by (rule copied_get_bytes[OF t(3) ap])
  ultimately show ?thesis by (auto simp: stays_def copied_def)
qed

text \<open>The kernel with the image \<open>C\<close> on its disk, \<open>mkfs\<close>'s super block and the inode \<open>k\<close> in its table.\<close>

definition fs_started :: "(32 word \<Rightarrow> byte list) \<Rightarrow> inode \<Rightarrow> fs_st" where
  "fs_started C k = (started_with (\<lambda>x. C (ucast (x div 2))) undefined)
     \<lparr>pipes := \<lambda>_. \<lparr>pi_data = [], pi_nread = 0, pi_nwrite = 0, pi_readopen = False, pi_writeopen = False\<rparr>, auto_addr := 0,
      superb := mk_sb, inodes := [k], buf_addr := \<lambda>b. 0x80010000 + 0x1000 * of_nat b\<rparr>"

lemma fs_started_simps:
  "superb (fs_started C k) = mk_sb" "inode_at (fs_started C k) 0 = k" "inodes (fs_started C k) = [k]" "\<not> panicking (fs_started C k)"
  "buf_addr (fs_started C k) = (\<lambda>b. 0x80010000 + 0x1000 * of_nat b)" "sleeplocks (fs_started C k) = sleeplocks (started_with (\<lambda>x. C (ucast (x div 2))) (undefined :: unit fs_st_ext pipe_st_ext))"
  "media (fs_started C k) = (\<lambda>x. C (ucast (x div 2)))"
  using started_simps(1,5) by (simp_all add: fs_started_def inode_at_def)

lemma fs_started_mem: "mem (fs_started C k) = (\<lambda>_. 0)"
proof -
  have "mem (s\<lparr>bufs := b\<rparr>) = mem s" for s :: "'a disk_st_scheme" and b by simp
  then have "mem (started_with m x) = (\<lambda>_. 0)" for m and x :: "unit fs_st_ext pipe_st_ext"
    using binit_frame[of "loaded m x"] by (metis loaded_mem loaded_unlocked started_with_def)
  then show ?thesis by (simp add: fs_started_def)
qed

lemma cache_above: "cache p dev P H (s\<lparr>pipes := a, auto_addr := b, superb := c, inodes := d, buf_addr := f\<rparr>) = cache p dev P H s"
  for s :: "'a fs_st_scheme"
  by (simp add: cache_def runs_def proc_at_def drv_idle_def)

lemma fs_started_cache: "cache 0 1 {} {} (fs_started C k)"
  unfolding fs_started_def cache_above by (rule started_cache)

lemma fs_started_content:
  assumes "b < 0x80000000" shows "content 1 (fs_started C k) b = C b"
proof -
  have u: "unat b < 2 ^ 31" using assms by (simp add: word_less_nat_alt)
  have t: "unat (b * 2) = unat b * 2" using u by (simp add: unat_word_ariths)
  have c: "unat (ucast (b * 2) :: 64 word) = unat b * 2" using t u by (simp add: unsigned_ucast_eq take_bit_eq_mod)
  have "unat ((ucast (b * 2) :: 64 word) div 2) = unat b" using c by (simp add: unat_div_distrib)
  then have "(ucast ((ucast (b * 2) :: 64 word) div 2) :: 32 word) = b"
    using u by (simp add: word_unat_eq_iff unsigned_ucast_eq take_bit_eq_mod)
  then show ?thesis using clean[OF fs_started_cache] fs_started_simps(7) by (simp add: sector_of_def)
qed

lemma within_bounds: "within a d n \<Longrightarrow> unat d + n < 2 ^ 64 \<Longrightarrow> unat d \<le> unat a \<and> unat a < unat d + n"
proof -
  assume w: "within a d n" "unat d + n < 2 ^ 64"
  obtain x where x: "a = d + x" by (metis add.commute diff_add_cancel)
  then show ?thesis using w by (simp add: within_def unat_word_ariths)
qed

lemma fs_started_apart: "n \<le> 65536 \<Longrightarrow> 0x80100000 \<le> d \<Longrightarrow> d \<le> 0x90000000 \<Longrightarrow> apart (fs_started C k) d n"
proof -
  assume n: "n \<le> 65536" and d: "0x80100000 \<le> d" "d \<le> 0x90000000"
  have ud: "0x80100000 \<le> unat d" "unat d + n < 2 ^ 64" using d n by (simp_all add: word_le_nat_alt)
  have u: "unat (0x80010000 + 0x1000 * of_nat b :: addr) = 0x80010000 + 0x1000 * b" if "b < 30" for b
    using that by (simp add: unat_word_ariths unat_of_nat take_bit_eq_mod)
  have "\<not> within a (0x80010000 + 0x1000 * of_nat b) 1024" if a: "within a d n" and b: "b < 30" for a b
  proof
    assume "within a (0x80010000 + 0x1000 * of_nat b) 1024"
    then have "unat a < 0x80010000 + 0x1000 * b + 1024" using within_bounds[of a "0x80010000 + 0x1000 * of_nat b" 1024] u[OF b] b by simp
    moreover have "0x80100000 \<le> unat a" using within_bounds[OF a ud(2)] ud(1) by simp
    ultimately show False using b by simp
  qed
  then show ?thesis using ud u by (simp add: apart_def outside_def fs_started_simps NBUF_def)
qed

theorem readi_reads_file_witness:
  "\<exists>(s :: fs_st) t. readi device_env 0 False 0x80100000 1 100 s = Ok (2, t) \<and> get_bytes (mem t) 0x80100000 2 = [2, 3]"
proof -
  define C :: "32 word \<Rightarrow> byte list" where "C = (\<lambda>b. [1, 2, 3] @ replicate 1021 0)"
  define k where "k = \<lparr>i_dev = 1, i_inum = 2, i_ref = 1, i_valid = True, i_type = T_FILE, i_major = 0, i_minor = 0, i_nlink = 1,
    i_size = 3, i_addrs = 50 # replicate 12 0\<rparr>"
  have sp: "spare {} {}" by (simp add: spare_def NBUF_def)
  have c50: "content 1 (fs_started C k) 50 = C 50" by (rule fs_started_content) simp
  have "has_blocks (content 1 (fs_started C k)) (50 # replicate 12 0) [50]"
    by (simp add: has_blocks_def nth_Cons split: nat.split)
  then have "file_is (content 1 (fs_started C k)) (50 # replicate 12 0) [50] [1, 2, 3]"
    using c50 by (simp add: file_is_def own_ok_def blocks_for_def C_def)
  then have h: "holds_bytes 1 {} 0 [50] [1, 2, 3] (fs_started C k)"
    using c50 by (simp add: holds_bytes_def fs_started_simps k_def own_def C_def)
  have m: "(2 :: nat) = min (unat (100 :: 32 word)) (length [1, 2, 3 :: byte] - unat (1 :: 32 word))" by simp
  have ap: "apart (fs_started C k) 0x80100000 2" by (rule fs_started_apart) simp_all
  show ?thesis
    using readi_reads_file[OF vdf.fs_env_axioms fs_started_cache sp h _ _ m ap] by auto
qed

text \<open>C34: The kernel reads what \<open>mkfs\<close> wrote.  On a disk with the image of \<open>mkfs\<close>, whatever of it is cached, locking the
  unused inode of the \<open>k\<close>th file loads it, and \<open>readi\<close> of at least its size then returns the size, with the very bytes that
  the file had on the host at \<open>dst\<close>.\<close>

theorem kernel_reads_mkfs_file:
  fixes e :: "'a fs_st_scheme kenv"
  assumes fs: "\<forall>f \<in> set fs. good_file f" "length fs + 2 \<le> NINODES" "image_blocks fs \<le> FSSIZE" "mkfs fs = Ok i0" "k < length fs"
    and e: "fs_env e" and c: "cache p dev P {} s" "spare P {}"
    and disk: "\<And>b. unat b < FSSIZE \<Longrightarrow> content dev s b = img i0 b" "superb s = mk_sb"
    and ip: "ip < length (inodes s)" "1 \<le> i_ref (inode_at s ip)" "\<not> i_valid (inode_at s ip)" "i_dev (inode_at s ip) = dev"
      "i_inum (inode_at s ip) = 2 + of_nat k" "\<not> sl_locked (sleeplocks s (SL_inode ip))"
    and n: "length (file_data (fs ! k)) \<le> unat n" and ap: "apart s dst (length (file_data (fs ! k)))"
  shows "\<exists>t u. ilock e ip s = Ok t \<and> readi e ip False dst 0 n t = Ok (int (length (file_data (fs ! k))), u) \<and>
    get_bytes (mem u) dst (length (file_data (fs ! k))) = file_data (fs ! k)"
proof -
  let ?F = "file_data (fs ! k)" and ?j = "2 + of_nat k :: 32 word"
  obtain B where i: "di_type (inode_of i0 ?j) = T_FILE" "di_size (inode_of i0 ?j) = of_nat (length ?F)" "length ?F \<le> 268 * 1024"
    "file_is (img i0) (di_addrs (inode_of i0 ?j)) B ?F" "own (di_addrs (inode_of i0 ?j)) B \<subseteq> {b. nmeta \<le> unat b \<and> unat b < image_blocks fs}"
    and len: "\<forall>b. length (img i0 b) = 1024"
    using mkfs_image[OF fs(1-3)] fs(4,5) by auto
  have "unat ?j = 2 + k" using fs(2,5) by (simp add: NINODES_def unat_word_ariths unat_of_nat take_bit_eq_mod)
  then have jb: "unat (IBLOCK ?j mk_sb) < 46" using inode_block[of ?j] fs(2,5) by simp
  have cj: "inode_on (content dev s) (superb s) (i_inum (inode_at s ip)) = inode_of i0 ?j"
    using disk jb ip(5) by (simp add: inode_on_def inode_of_def FSSIZE_def)
  have B: "IBLOCK (i_inum (inode_at s ip)) (superb s) < 0x80000000" "not_held s {} (IBLOCK (i_inum (inode_at s ip)) (superb s))"
    using jb ip(5) disk(2) by (simp_all add: word_less_nat_alt)
  obtain t where t: "ilock e ip s = Ok t" "cache p dev P {} t" "content dev t = content dev s"
    "inode_at t ip = load_inode (inode_of i0 ?j) (inode_at s ip)" "buf_addr t = buf_addr s"
    using fs_env.ilock_loads[OF e c ip(1-4,6) B cj[symmetric]] i(1) by auto
  have own: "b \<noteq> 0 \<and> b < 0x80000000 \<and> content dev s b = img i0 b" if "b \<in> own (di_addrs (inode_of i0 ?j)) B" for b
  proof -
    have b: "47 \<le> unat b" "unat b < FSSIZE" using that i(5) fs(3) by (auto simp: meta_values)
    then have "b \<noteq> 0" by auto
    moreover have "b < 0x80000000" using b(2) by (simp add: FSSIZE_def word_less_nat_alt)
    ultimately show ?thesis using disk(1)[OF b(2)] by simp
  qed
  have "file_is (content dev s) (di_addrs (inode_of i0 ?j)) B ?F" by (rule file_is_frame[OF i(4)]) (use own in blast)
  then have h: "holds_bytes dev {} ip B ?F t"
    unfolding holds_bytes_def t(3,4) using own len i(2,3) ip(4) by (simp add: load_inode_def)
  have m: "length ?F = min (unat n) (length ?F - unat (0 :: 32 word))" using n by simp
  have "apart t dst (length ?F)" using ap by (simp add: apart_def outside_def t(5))
  then have "\<exists>u. readi e ip False dst 0 n t = Ok (int (length ?F), u) \<and> copied t ?F (unat (0 :: 32 word)) dst (length ?F) u"
    using fs_env.readi_ok[OF e t(2) c(2) h, of 0 n dst] m unsigned_less[of n, where 'a = nat] by auto
  then obtain u where u: "readi e ip False dst 0 n t = Ok (int (length ?F), u)" "copied t ?F (unat (0 :: 32 word)) dst (length ?F) u" by blast
  have "get_bytes (mem u) dst (length ?F) = take (length ?F) (drop (unat (0 :: 32 word)) ?F)"
    by (rule copied_get_bytes[OF u(2)]) (use \<open>apart t dst (length ?F)\<close> in simp_all)
  then show ?thesis using t(1) u(1) by auto
qed

theorem kernel_reads_mkfs_file_witness:
  "\<exists>i0 (s :: fs_st) t u. mkfs [([95, 99], Some [[1, 2, 3]])] = Ok i0 \<and> ilock device_env 0 s = Ok t \<and>
    readi device_env 0 False 0x80100000 0 100 t = Ok (3, u) \<and> get_bytes (mem u) 0x80100000 3 = [1, 2, 3]"
proof -
  let ?fs = "[([95, 99], Some [[1, 2, 3]])] :: mk_file list"
  have g: "\<forall>f \<in> set ?fs. good_file f" "length ?fs + 2 \<le> NINODES" "image_blocks ?fs \<le> FSSIZE"
    by (simp_all add: good_file_def short_name_def user_prefix_def disk_name_def DIRSIZ_def NINODES_def FSSIZE_def
      image_blocks_def fblocks_def blocks_for_def meta_values file_data_def)
  obtain i0 where i0: "mkfs ?fs = Ok i0" using mkfs_image[OF g] by blast
  define k where "k = \<lparr>i_dev = 1, i_inum = 2, i_ref = 1, i_valid = False, i_type = 0, i_major = 0, i_minor = 0, i_nlink = 0,
    i_size = 0, i_addrs = replicate 13 0\<rparr>"
  let ?s = "fs_started (img i0) k"
  have sp: "spare {} {}" by (simp add: spare_def NBUF_def)
  have disk: "content 1 ?s b = img i0 b" if "unat b < FSSIZE" for b
    by (rule fs_started_content) (use that in \<open>simp add: FSSIZE_def word_less_nat_alt\<close>)
  have ip: "0 < length (inodes ?s)" "1 \<le> i_ref (inode_at ?s 0)" "\<not> i_valid (inode_at ?s 0)" "i_dev (inode_at ?s 0) = 1"
    "i_inum (inode_at ?s 0) = 2 + of_nat 0" "\<not> sl_locked (sleeplocks ?s (SL_inode 0))"
    by (simp_all add: fs_started_simps k_def started_unlocked free_lock_def)
  have F: "file_data (?fs ! 0) = [1, 2, 3]" and l: "length (file_data (?fs ! 0)) = 3" by (simp_all add: file_data_def)
  have n: "length (file_data (?fs ! 0)) \<le> unat (100 :: 32 word)" "apart ?s 0x80100000 (length (file_data (?fs ! 0)))"
    unfolding F by (simp_all add: fs_started_apart)
  have "\<exists>t u. ilock device_env 0 ?s = Ok t \<and> readi device_env 0 False 0x80100000 0 100 t = Ok (int (length (file_data (?fs ! 0))), u) \<and>
      get_bytes (mem u) 0x80100000 (length (file_data (?fs ! 0))) = file_data (?fs ! 0)"
    by (rule kernel_reads_mkfs_file[OF g i0 _ vdf.fs_env_axioms fs_started_cache sp disk fs_started_simps(1) ip n]) simp
  then show ?thesis unfolding l unfolding F using i0 by (metis of_nat_numeral)
qed

section \<open>Writing files\<close>

text \<open>C33: What is written is read back, and nothing else changes.  Inside a transaction with room in the log and enough
  free blocks, \<open>writei\<close> of the \<open>n\<close> bytes at \<open>src\<close> to offset \<open>off\<close> of a file with the bytes \<open>F\<close>, in place or past its end,
  returns \<open>n\<close>.  The inode, on the disk as in the table, then stands for the overwritten bytes, in blocks that it had or
  that were free and are now marked, and \<open>readi\<close> of the whole file gives just those bytes.  Every block but the file's,
  the map's and the inode's is as it was; in the inode's block only the 64 bytes of the inode differ, so that its
  neighbours are the inodes they were; in the table only this inode changes, and of it only the addresses and the size;
  memory outside the buffers is as it was.\<close>

theorem writei_then_readi:
  fixes e :: "'a fs_st_scheme kenv"
  assumes "fs_env e" and x: "tx p dev S L {} s" "\<not> panicking s" and d: "on_disk dev ip bs F s"
    and off: "unat off \<le> length F" "unat off + unat n \<le> 268 * 1024" and src: "apart s src (unat n)"
    and T: "unat off mod 1024 + unat n \<le> 1024 * T" "room (6 * T + 2) L {}" "2 * T \<le> card (free_blocks (content dev s) (superb s))"
    and F': "F' = overwritten (unat off) (get_bytes (mem s) src (unat n)) F" and dst: "apart s dst (length F')"
  shows "\<exists>bs' t u. writei e ip False src off n s = Ok (int (unat n), t) \<and> on_disk dev ip bs' F' t \<and>
    inode_on (content dev t) (superb s) (i_inum (inode_at s ip)) = to_dinode (inode_at t ip) \<and>
    own (i_addrs (inode_at t ip)) bs' \<subseteq> own (i_addrs (inode_at s ip)) bs \<union> free_blocks (content dev s) (superb s) \<and>
    free_blocks (content dev t) (superb s) = free_blocks (content dev s) (superb s) - own (i_addrs (inode_at t ip)) bs' \<and>
    (\<forall>b. b \<notin> own (i_addrs (inode_at t ip)) bs' \<longrightarrow> b \<notin> in_map (superb s) \<longrightarrow> b \<noteq> IBLOCK (i_inum (inode_at s ip)) (superb s) \<longrightarrow>
       content dev t b = content dev s b) \<and>
    (\<forall>j. j < dip (i_inum (inode_at s ip)) \<or> dip (i_inum (inode_at s ip)) + 64 \<le> j \<longrightarrow>
       content dev t (IBLOCK (i_inum (inode_at s ip)) (superb s)) ! j = content dev s (IBLOCK (i_inum (inode_at s ip)) (superb s)) ! j) \<and>
    (\<forall>i. i \<noteq> i_inum (inode_at s ip) \<longrightarrow> IBLOCK i (superb s) = IBLOCK (i_inum (inode_at s ip)) (superb s) \<longrightarrow>
       inode_on (content dev t) (superb s) i = inode_on (content dev s) (superb s) i) \<and>
    inodes t = (inodes s)[ip := (inode_at s ip)\<lparr>i_addrs := i_addrs (inode_at t ip), i_size := of_nat (length F')\<rparr>] \<and>
    superb t = superb s \<and> (\<forall>a. outside s a \<longrightarrow> mem t a = mem s a) \<and>
    readi e ip False dst 0 (of_nat (length F')) t = Ok (int (length F'), u) \<and> get_bytes (mem u) dst (length F') = F'"
proof -
  let ?C = "content dev s" and ?sb = "superb s" and ?i = "i_inum (inode_at s ip)"
  have T1: "room (6 * T + 1) L {}" using T(2) by (rule room_less) simp
  obtain bs' L' t where t: "writei e ip False src off n s = Ok (int (unat n), t)" "tx p dev S L' {} t" "length L' \<le> length L + 6 * T + 1"
    "on_disk dev ip bs' F' t" "superb t = ?sb" "buf_addr t = buf_addr s"
    "inode_on (content dev t) ?sb ?i = to_dinode (inode_at t ip)"
    "inodes t = (inodes s)[ip := (inode_at s ip)\<lparr>i_addrs := i_addrs (inode_at t ip), i_size := of_nat (length F')\<rparr>]"
    "own (i_addrs (inode_at t ip)) bs' \<subseteq> own (i_addrs (inode_at s ip)) bs \<union> free_blocks ?C ?sb"
    "free_blocks (content dev t) ?sb = free_blocks ?C ?sb - own (i_addrs (inode_at t ip)) bs'"
    "\<forall>b. b \<notin> own (i_addrs (inode_at t ip)) bs' \<longrightarrow> b \<notin> in_map ?sb \<longrightarrow> b \<noteq> IBLOCK ?i ?sb \<longrightarrow> content dev t b = ?C b"
    "content dev t (IBLOCK ?i ?sb) = put_dinode ?i (to_dinode (inode_at t ip)) (?C (IBLOCK ?i ?sb))"
    "\<forall>a. outside s a \<longrightarrow> mem t a = mem s a"
    using fs_env.writei_ok[OF assms(1) x d off src T(1) T1 T(3), folded F'] by (elim exE conjE) (rule that)
  have c: "cache p dev (set L') {} t" using t(2) by (simp add: tx_def)
  have sp: "spare (set L') {}" using card_length[of L'] t(3) T(2) by (simp add: spare_def room_def NBUF_def LOGBLOCKS_def)
  have h: "holds_bytes dev {} ip bs' F' t" by (rule on_disk_reads[OF t(4)])
  have l: "length F' \<le> 268 * 1024" using h by (simp add: holds_bytes_def)
  have ul: "unat (of_nat (length F') :: 32 word) = length F'" using l by (simp add: unat_of_nat take_bit_eq_mod)
  have ap: "apart t dst (length F')" using dst by (simp add: apart_def outside_def t(6))
  have pre: "unat (0 :: 32 word) \<le> length F'" "unat (0 :: 32 word) + unat (of_nat (length F') :: 32 word) < 2 ^ 32"
    "apart t dst (min (unat (of_nat (length F') :: 32 word)) (length F' - unat (0 :: 32 word)))" using ul l ap by simp_all
  obtain u where u: "readi e ip False dst 0 (of_nat (length F')) t = Ok (int (length F'), u)" "copied t F' (unat (0 :: 32 word)) dst (length F') u"
    using fs_env.readi_ok[OF assms(1) c sp h pre] ul by auto
  have "get_bytes (mem u) dst (length F') = take (length F') (drop (unat (0 :: 32 word)) F')"
    by (rule copied_get_bytes[OF u(2) ap]) simp
  moreover have "\<forall>j. j < dip ?i \<or> dip ?i + 64 \<le> j \<longrightarrow> content dev t (IBLOCK ?i ?sb) ! j = ?C (IBLOCK ?i ?sb) ! j"
    unfolding t(12) by (simp add: put_dinode_nth)
  moreover have "inode_on (content dev t) ?sb i = inode_on ?C ?sb i" if "i \<noteq> ?i" "IBLOCK i ?sb = IBLOCK ?i ?sb" for i
  proof -
    have "dip ?i \<noteq> dip i"
      using that unfolding IBLOCK_inj[symmetric] dip_def
      by (metis div_mult_mod_eq mult_cancel1 word_unat_eq_iff zero_neq_numeral)
    then show ?thesis unfolding inode_on_def that(2) t(12) by (rule get_put_other)
  qed
  ultimately show ?thesis using t(1,4,5,7-11,13) u(1)
    by (intro exI[of _ bs'] exI[of _ t] exI[of _ u]) simp
qed

text \<open>A disk with \<open>mkfs\<close>'s layout, the first 51 blocks in use, and a file of three bytes in block 50: 1100 bytes more take a
  second block.\<close>

theorem writei_then_readi_witness:
  "\<exists>(s :: fs_st) t u. writei device_env 0 False 0x80100000 3 1100 s = Ok (1100, t) \<and>
    readi device_env 0 False 0x80200000 0 1103 t = Ok (1103, u) \<and>
    get_bytes (mem u) 0x80200000 1103 = [1, 2, 3] @ replicate 1100 0"
proof -
  define C :: "32 word \<Rightarrow> byte list" where
    "C = (\<lambda>_. zeroes)(46 := foldl (\<lambda>d i. set_bit_of i d) zeroes [0..<51], 50 := [1, 2, 3] @ replicate 1021 0)"
  define k where "k = \<lparr>i_dev = 1, i_inum = 2, i_ref = 1, i_valid = True, i_type = T_FILE, i_major = 0, i_minor = 0, i_nlink = 1,
    i_size = 3, i_addrs = 50 # replicate 12 0\<rparr>"
  let ?s = "fs_started C k"
  have bits: "length (C 46) = 1024" "j < 8192 \<Longrightarrow> bit_clear (C 46) j \<longleftrightarrow> 51 \<le> j" for j using map_bits[of 51] by (simp_all add: C_def)
  have bb: "BBLOCK c mk_sb = 46" if "c < 2000" for c
  proof -
    have "unat c < 2000" using that by (simp add: word_less_nat_alt)
    then have "unat (c div 8192) = 0" by (simp add: unat_div_distrib)
    then show ?thesis by (simp add: BBLOCK_def mk_sb_values unat_eq_zero)
  qed
  have im: "in_map mk_sb = {46}"
  proof -
    have "in_map mk_sb = (\<lambda>_. 46) ` {c :: 32 word. c < 2000}" unfolding in_map_def mk_sb_values using bb by (intro image_cong) auto
    also have "\<dots> = {46}" by (rule image_constant[of 0]) simp
    finally show ?thesis .
  qed
  have cont: "content 1 ?s b = C b" if "b < 0x80000000" for b using fs_started_content[OF that] .
  have fb: "free_blocks (content 1 ?s) mk_sb = {b. 51 \<le> b \<and> b < 2000}"
  proof -
    have "free_at (content 1 ?s) mk_sb b \<longleftrightarrow> 51 \<le> b" if "b < 2000" for b
    proof -
      have "unat b < 2000" using that by (simp add: word_less_nat_alt)
      then show ?thesis using bits(2)[of "unat b"] cont[of 46] by (simp add: free_at_def bb[OF that] word_le_nat_alt)
    qed
    then show ?thesis by (auto simp: free_blocks_def mk_sb_values)
  qed
  have ib: "IBLOCK 2 mk_sb = 33" by (simp add: IBLOCK_def mk_sb_values word_unat_eq_iff unat_word_ariths unat_div_distrib)
  have lens: "length (content 1 ?s 46) = 1024" "length (content 1 ?s 33) = 1024" "content 1 ?s 50 = [1, 2, 3] @ replicate 1021 0"
    using cont[of 46] cont[of 33] cont[of 50] bits(1) by (simp_all add: C_def zeroes_def)
  have own: "own (50 # replicate 12 0) [50] = {50 :: 32 word}" by (simp add: own_def)
  have m: "map_ok (content 1 ?s) mk_sb" using lens(1) by (auto simp: map_ok_def im fb)
  have u: "used_ok (content 1 ?s) mk_sb {50}" using lens(3) by (simp add: used_ok_def im fb mk_sb_values)
  have "has_blocks (content 1 ?s) (50 # replicate 12 0) [50]" by (simp add: has_blocks_def nth_Cons split: nat.split)
  then have f: "file_is (content 1 ?s) (50 # replicate 12 0) [50] [1, 2, 3]" using lens(3) by (simp add: file_is_def own_ok_def blocks_for_def)
  have kf: "i_dev k = 1" "i_inum k = 2" "i_size k = 3" "i_addrs k = 50 # replicate 12 0" by (simp_all add: k_def)
  have d: "on_disk 1 0 [50] [1, 2, 3] ?s"
    using mk_sb_ok m u f lens ib by (simp add: on_disk_def fs_started_simps kf own im fb mk_sb_values)
  have tx: "tx 0 1 2 [] {} ?s"
    using fs_started_cache[of C k] started_simps(3,4)[of "\<lambda>x. C (ucast (x div 2))" "undefined :: unit fs_st_ext pipe_st_ext"]
    by (simp add: tx_def fs_started_def logs_def)
  have card: "2 * 2 \<le> card (free_blocks (content 1 ?s) (superb ?s))"
  proof -
    have "{51, 52, 53, 54 :: 32 word} \<subseteq> free_blocks (content 1 ?s) (superb ?s)" by (simp add: fb fs_started_simps)
    then have "card {51, 52, 53, 54 :: 32 word} \<le> card (free_blocks (content 1 ?s) (superb ?s))" by (intro card_mono) simp_all
    then show ?thesis by simp
  qed
  have room: "room (6 * 2 + 2) [] {}" by (simp add: room_def LOGBLOCKS_def)
  have mem0: "get_bytes (mem ?s) 0x80100000 (unat (1100 :: 32 word)) = replicate 1100 0"
    by (simp add: get_bytes_def fs_started_mem map_replicate_const)
  have F': "[1, 2, 3] @ replicate 1100 0 = overwritten (unat (3 :: 32 word)) (get_bytes (mem ?s) 0x80100000 (unat (1100 :: 32 word))) [1, 2, 3]"
    unfolding mem0 by (simp add: overwritten_def)
  have np: "\<not> panicking ?s" by (rule fs_started_simps(4))
  have l: "length ([1, 2, 3] @ replicate 1100 0 :: byte list) = 1103" by simp
  have n: "unat (3 :: 32 word) \<le> length [1, 2, 3 :: byte]" "unat (3 :: 32 word) + unat (1100 :: 32 word) \<le> 268 * 1024"
    "unat (3 :: 32 word) mod 1024 + unat (1100 :: 32 word) \<le> 1024 * 2" by simp_all
  have ap: "apart ?s 0x80100000 (unat (1100 :: 32 word))" "apart ?s 0x80200000 (length ([1, 2, 3] @ replicate 1100 0 :: byte list))"
    by (rule fs_started_apart; simp)+
  obtain t u where "writei device_env 0 False 0x80100000 3 1100 ?s = Ok (int (unat (1100 :: 32 word)), t)"
    "readi device_env 0 False 0x80200000 0 (of_nat (length ([1, 2, 3] @ replicate 1100 0 :: byte list))) t
       = Ok (int (length ([1, 2, 3] @ replicate 1100 0 :: byte list)), u)"
    "get_bytes (mem u) 0x80200000 (length ([1, 2, 3] @ replicate 1100 0 :: byte list)) = [1, 2, 3] @ replicate 1100 0"
    using writei_then_readi[OF vdf.fs_env_axioms tx np d n(1,2) ap(1) n(3) room card F' ap(2)] by blast
  then show ?thesis unfolding l by (intro exI[of _ ?s] exI[of _ t] exI[of _ u]) simp
qed

end
