(* ===== verification/K_Exec.thy ===== *)
theory K_Exec
  imports K_Life
begin

text \<open>
  \<open>xv6/kernel/exec.c\<close>: a process takes the image of a program file.  A path is the list of its bytes; an argument
  is the address of a string in kernel memory.
\<close>

section \<open>The code\<close>

definition ELF_MAGIC :: "32 word" where "ELF_MAGIC = 0x464C457F"

text \<open>Little-endian fields of an object given by its bytes.\<close>

definition le_at :: "byte list \<Rightarrow> nat \<Rightarrow> nat \<Rightarrow> 64 word" where
  "le_at d i n = of_nat (\<Sum>k<n. unat (d ! (i + k)) * 256 ^ k)"

record elfhdr =
  e_magic :: "32 word"
  e_entry :: "64 word"
  e_phoff :: "64 word"
  e_phnum :: nat

definition get_elfhdr :: "byte list \<Rightarrow> elfhdr" where
  "get_elfhdr d = \<lparr>e_magic = ucast (le_at d 0 4), e_entry = le_at d 24 8, e_phoff = le_at d 32 8, e_phnum = unat (le_at d 56 2)\<rparr>"

record proghdr =
  ph_type :: "32 word"
  ph_flags :: "32 word"
  ph_off :: "64 word"
  ph_vaddr :: "64 word"
  ph_filesz :: "64 word"
  ph_memsz :: "64 word"

definition get_proghdr :: "byte list \<Rightarrow> proghdr" where
  "get_proghdr d = \<lparr>ph_type = ucast (le_at d 0 4), ph_flags = ucast (le_at d 4 4), ph_off = le_at d 8 8,
     ph_vaddr = le_at d 16 8, ph_filesz = le_at d 32 8, ph_memsz = le_at d 40 8\<rparr>"

definition flags2perm :: "32 word \<Rightarrow> 64 word" where
  "flags2perm flags =
     (let perm = (if flags AND 1 \<noteq> 0 then PTE_X else 0) in
      if flags AND 2 \<noteq> 0 then perm OR PTE_W else perm)"

text \<open>A page of the segment each turn, from byte \<open>i\<close>, which wraps after \<open>2 ^ 20\<close> turns.\<close>

fun loadseg_from :: "nat \<Rightarrow> 'a fs_st_scheme kenv \<Rightarrow> addr \<Rightarrow> 64 word \<Rightarrow> nat \<Rightarrow> 32 word \<Rightarrow> 32 word \<Rightarrow> 32 word \<Rightarrow>
    'a fs_st_scheme \<Rightarrow> (int \<times> 'a fs_st_scheme) res" where
  "loadseg_from k e pt va ip off sz i s =
     (if i < sz then
        (case k of
           0 \<Rightarrow> Spin
         | Suc k \<Rightarrow>
             bnd (walkaddr pt (va + ucast i) s) (\<lambda>pa.
             bnd (assertk (pa \<noteq> 0) ''loadseg: address should exist'') (\<lambda>_.
               let n = (if sz - i < 4096 then sz - i else 4096) in
               bnd (readi e ip False pa (off + i) n s) (\<lambda>(r, s).
                 if word_of_int r \<noteq> n then Ok (-1, s)
                 else loadseg_from k e pt va ip off sz (i + 4096) s))))
      else Ok (0, s))"

declare loadseg_from.simps [simp del]

definition loadseg :: "'a fs_st_scheme kenv \<Rightarrow> addr \<Rightarrow> 64 word \<Rightarrow> nat \<Rightarrow> 32 word \<Rightarrow> 32 word \<Rightarrow> 'a fs_st_scheme \<Rightarrow>
    (int \<times> 'a fs_st_scheme) res" where
  "loadseg e pt va ip off sz s = loadseg_from (2 ^ 20) e pt va ip off sz 0 s"

text \<open>The loop over the program headers; the new size of the image, None for \<open>goto bad\<close>.\<close>

fun load_segments :: "nat \<Rightarrow> 'a fs_st_scheme kenv \<Rightarrow> addr \<Rightarrow> nat \<Rightarrow> 32 word \<Rightarrow> 64 word \<Rightarrow> 'a fs_st_scheme \<Rightarrow>
    ((bool \<times> 64 word) \<times> 'a fs_st_scheme) res" where
  "load_segments 0 e pt ip off sz s = Ok ((True, sz), s)"
| "load_segments (Suc k) e pt ip off sz s =
     bnd (readi e ip False (auto_addr s) off 56 s) (\<lambda>(r, s).
       if r \<noteq> 56 then Ok ((False, sz), s)
       else
         let ph = get_proghdr (auto_bytes 56 s) in
         if ph_type ph \<noteq> 1 then load_segments k e pt ip (off + 56) sz s
         else if ph_memsz ph < ph_filesz ph then Ok ((False, sz), s)
         else if ph_vaddr ph + ph_memsz ph < ph_vaddr ph then Ok ((False, sz), s)
         else if ph_vaddr ph mod PGSIZE \<noteq> 0 then Ok ((False, sz), s)
         else
           bnd (uvmalloc pt sz (ph_vaddr ph + ph_memsz ph) (flags2perm (ph_flags ph)) s) (\<lambda>(sz1, s).
             if sz1 = 0 then Ok ((False, sz), s)
             else
               bnd (loadseg e pt (ph_vaddr ph) ip (ucast (ph_off ph)) (ucast (ph_filesz ph)) s) (\<lambda>(r, s).
                 if r < 0 then Ok ((False, sz1), s)
                 else load_segments k e pt ip (off + 56) sz1 s)))"

definition MAXARG :: nat where "MAXARG = 32"

definition kstrlen :: "bytes \<Rightarrow> addr \<Rightarrow> nat res" where
  "kstrlen m a = (case strlen m a of None \<Rightarrow> Spin | Some n \<Rightarrow> Ok n)"

text \<open>The loop over the arguments: the stack pointer and the addresses of the strings on the stack.\<close>

fun push_args :: "addr list \<Rightarrow> addr \<Rightarrow> 64 word \<Rightarrow> addr \<Rightarrow> addr \<Rightarrow> addr list \<Rightarrow> 'a mem_st_scheme \<Rightarrow>
    ((addr \<times> addr list) option \<times> 'a mem_st_scheme) res" where
  "push_args [] pt sz stackbase sp us s = Ok (Some (sp, us), s)"
| "push_args (a # as) pt sz stackbase sp us s =
     bnd (kstrlen (mem s) a) (\<lambda>n.
       let sp = sp - of_nat (n + 1); sp = sp - sp mod 16 in
       if sp < stackbase then Ok (None, s)
       else bnd (copyout pt sz sp a (of_nat (n + 1)) s) (\<lambda>(r, s).
         if r < 0 then Ok (None, s)
         else bnd (guard (length us < MAXARG) ''ustack'') (\<lambda>_.
           push_args as pt sz stackbase sp (us @ [sp]) s)))"

definition exec_bad :: "'a fs_st_scheme kenv \<Rightarrow> addr \<Rightarrow> 64 word \<Rightarrow> nat option \<Rightarrow> 'a fs_st_scheme \<Rightarrow>
    (int \<times> 'a fs_st_scheme) res" where
  "exec_bad e pt sz ip s =
     bnd (if pt \<noteq> 0 then proc_freepagetable pt sz s else Ok s) (\<lambda>s.
     bnd (case ip of None \<Rightarrow> Ok s | Some ip \<Rightarrow> bnd (iunlockput e ip s) (end_op e)) (\<lambda>s. Ok (-1, s)))"

text \<open>The user stack and the arguments on it, once the program is in memory.\<close>

definition build_stack :: "addr \<Rightarrow> 64 word \<Rightarrow> addr list \<Rightarrow> 'a fs_st_scheme \<Rightarrow> ((addr option \<times> 64 word) \<times> 'a fs_st_scheme) res" where
  "build_stack pt sz argv s =
     (let sz = PGROUNDUP sz in
      bnd (uvmalloc pt sz (sz + 2 * PGSIZE) PTE_W s) (\<lambda>(sz1, s).
        if sz1 = 0 then Ok ((None, sz), s)
        else
          let sz = sz1 in
          bnd (uvmclear pt (sz - 2 * PGSIZE) s) (\<lambda>s.
          bnd (push_args argv pt sz (sz - PGSIZE) sz [] s) (\<lambda>(r, s).
            case r of
              None \<Rightarrow> Ok ((None, sz), s)
            | Some (sp, us) \<Rightarrow>
                bnd (guard (length us < MAXARG) ''ustack'') (\<lambda>_.
                  let sp = sp - of_nat ((length us + 1) * 8); sp = sp - sp mod 16 in
                  if sp < sz - PGSIZE then Ok ((None, sz), s)
                  else
                    let s = put_auto (concat (map (le_bytes 8) (us @ [0]))) s in
                    bnd (copyout pt sz sp (auto_addr s) (of_nat ((length us + 1) * 8)) s) (\<lambda>(r, s).
                      Ok ((if r < 0 then None else Some sp, sz), s)))))))"

text \<open>The name of the program, for debugging.\<close>

definition last_elem :: "byte list \<Rightarrow> byte list" where
  "last_elem path = rev (takeWhile (\<lambda>c. c \<noteq> slash) (rev path))"

definition exec_commit :: "nat \<Rightarrow> byte list \<Rightarrow> addr \<Rightarrow> 64 word \<Rightarrow> addr \<Rightarrow> 64 word \<Rightarrow> 'a proc_st_scheme \<Rightarrow> 'a proc_st_scheme res" where
  "exec_commit p path pt sz sp start s =
     (let oldsz = p_sz (proc_at s p);
          s = tf_set p 120 sp s;
          s = upd_proc p (\<lambda>q. q\<lparr>p_name := map byte_char (take 15 (last_elem path))\<rparr>) s;
          oldpt = p_pagetable (proc_at s p);
          s = upd_proc p (\<lambda>q. q\<lparr>p_pagetable := pt, p_sz := sz\<rparr>) s;
          s = tf_set p 24 start s;
          s = tf_set p 48 sp s
      in proc_freepagetable oldpt oldsz s)"

definition kexec :: "'a fs_st_scheme kenv \<Rightarrow> byte list \<Rightarrow> addr list \<Rightarrow> 'a fs_st_scheme \<Rightarrow> (int \<times> 'a fs_st_scheme) res" where
  "kexec e path argv s =
     bnd (myproc s) (\<lambda>p.
     bnd (begin_op e s) (\<lambda>s.
     bnd (namei e path s) (\<lambda>(r, s).
       case r of
         None \<Rightarrow> bnd (end_op e s) (\<lambda>s. Ok (-1, s))
       | Some ip \<Rightarrow>
           bnd (ilock e ip s) (\<lambda>s.
           bnd (readi e ip False (auto_addr s) 0 64 s) (\<lambda>(r, s).
             let elf = get_elfhdr (auto_bytes 64 s) in
             if r \<noteq> 64 then exec_bad e 0 0 (Some ip) s
             else if e_magic elf \<noteq> ELF_MAGIC then exec_bad e 0 0 (Some ip) s
             else bnd (proc_pagetable p s) (\<lambda>(pt, s).
               if pt = 0 then exec_bad e 0 0 (Some ip) s
               else bnd (load_segments (e_phnum elf) e pt ip (ucast (e_phoff elf)) 0 s) (\<lambda>((good, sz), s).
                 if \<not> good then exec_bad e pt sz (Some ip) s
                 else
                   bnd (iunlockput e ip s) (\<lambda>s.
                   bnd (end_op e s) (\<lambda>s.
                   bnd (build_stack pt sz argv s) (\<lambda>((r, sz), s).
                     case r of
                       None \<Rightarrow> exec_bad e pt sz None s
                     | Some sp \<Rightarrow>
                         bnd (exec_commit p path pt sz sp (e_entry elf) s) (\<lambda>s. Ok (int (length argv), s))))))))))))"

end
