(* ===== verification/K_Syscall.thy ===== *)
theory K_Syscall
  imports K_Exec
begin

text \<open>
  System calls: \<open>xv6/kernel/syscall.c\<close>, \<open>sysproc.c\<close> and \<open>sysfile.c\<close>.  Arguments are in the trap frame of the
  process; a result is the word that goes back in \<open>a0\<close>.
\<close>

section \<open>Arguments\<close>

definition argraw :: "nat \<Rightarrow> 'a proc_st_scheme \<Rightarrow> (64 word) res" where
  "argraw n s =
     bnd (myproc s) (\<lambda>p. if n \<le> 5 then Ok (tf_get p (112 + 8 * of_nat n) s) else Panic ''argraw'')"

definition argint :: "nat \<Rightarrow> 'a proc_st_scheme \<Rightarrow> int res" where
  "argint n s = bnd (argraw n s) (\<lambda>w. Ok (sint (ucast w :: 32 word)))"

definition argaddr :: "nat \<Rightarrow> 'a proc_st_scheme \<Rightarrow> (64 word) res" where
  "argaddr n s = argraw n s"

definition fetchaddr :: "addr \<Rightarrow> 'a pipe_st_scheme \<Rightarrow> (addr option \<times> 'a pipe_st_scheme) res" where
  "fetchaddr a s =
     bnd (myproc s) (\<lambda>p.
       let sz = p_sz (proc_at s p) in
       if sz \<le> a \<or> sz < a + 8 then Ok (None, s)
       else bnd (copyin (p_pagetable (proc_at s p)) sz (auto_addr s) a 8 s) (\<lambda>(r, s).
              Ok (if r \<noteq> 0 then None else Some (ld64 (mem s) (auto_addr s)), s)))"

definition fetchstr :: "addr \<Rightarrow> addr \<Rightarrow> int \<Rightarrow> 'a proc_st_scheme \<Rightarrow> (int \<times> 'a proc_st_scheme) res" where
  "fetchstr a buf mx s =
     bnd (myproc s) (\<lambda>p.
     bnd (copyinstr (p_pagetable (proc_at s p)) (p_sz (proc_at s p)) buf a (word_of_int mx) s) (\<lambda>(r, s).
       if r < 0 then Ok (-1, s)
       else bnd (kstrlen (mem s) buf) (\<lambda>n. Ok (int n, s))))"

text \<open>A path argument, fetched into an array of \<open>MAXPATH\<close> bytes.\<close>

definition MAXPATH :: nat where "MAXPATH = 128"

definition argstr :: "nat \<Rightarrow> 'a fs_st_scheme \<Rightarrow> (byte list option \<times> 'a fs_st_scheme) res" where
  "argstr n s =
     bnd (argaddr n s) (\<lambda>a.
     bnd (fetchstr a (auto_addr s) (int MAXPATH) s) (\<lambda>(r, s).
       Ok (if r < 0 then None else Some (auto_bytes (nat r) s), s)))"

text \<open>The descriptor and the file of an argument.\<close>

definition argfd :: "nat \<Rightarrow> 'a proc_st_scheme \<Rightarrow> (nat \<times> nat) option res" where
  "argfd n s =
     bnd (argint n s) (\<lambda>fd.
     bnd (myproc s) (\<lambda>p.
       Ok (if fd < 0 \<or> int NOFILE \<le> fd then None
           else map_option (\<lambda>f. (nat fd, f)) (p_ofile (proc_at s p) ! nat fd))))"

definition fdalloc :: "nat \<Rightarrow> 'a proc_st_scheme \<Rightarrow> (int \<times> 'a proc_st_scheme) res" where
  "fdalloc f s =
     bnd (myproc s) (\<lambda>p.
       case find (\<lambda>fd. p_ofile (proc_at s p) ! fd = None) [0..<NOFILE] of
         Some fd \<Rightarrow> Ok (int fd, upd_proc p (\<lambda>q. q\<lparr>p_ofile := (p_ofile q)[fd := Some f]\<rparr>) s)
       | None \<Rightarrow> Ok (-1, s))"

definition set_fd :: "nat \<Rightarrow> nat option \<Rightarrow> 'a proc_st_scheme \<Rightarrow> 'a proc_st_scheme res" where
  "set_fd fd f s = bnd (myproc s) (\<lambda>p. Ok (upd_proc p (\<lambda>q. q\<lparr>p_ofile := (p_ofile q)[fd := f]\<rparr>) s))"

abbreviation ret :: "int \<Rightarrow> 's \<Rightarrow> (64 word \<times> 's) res" where
  "ret r s \<equiv> Ok (word_of_int r, s)"

section \<open>Processes\<close>

definition sys_exit :: "'a file_st_scheme kenv \<Rightarrow> 'a file_st_scheme \<Rightarrow> (64 word \<times> 'a file_st_scheme) res" where
  "sys_exit e s = bnd (argint 0 s) (\<lambda>n. bnd (kexit e n s) (\<lambda>s. ret 0 s))"

definition sys_getpid :: "'a proc_st_scheme \<Rightarrow> (64 word \<times> 'a proc_st_scheme) res" where
  "sys_getpid s = bnd (myproc s) (\<lambda>p. ret (p_pid (proc_at s p)) s)"

definition sys_fork :: "'a file_st_scheme \<Rightarrow> (64 word \<times> 'a file_st_scheme) res" where
  "sys_fork s = bnd (kfork s) (\<lambda>(r, s). ret r s)"

definition sys_wait :: "'a fs_st_scheme kenv \<Rightarrow> 'a fs_st_scheme \<Rightarrow> (64 word \<times> 'a fs_st_scheme) res" where
  "sys_wait e s = bnd (argaddr 0 s) (\<lambda>a. bnd (kwait e a s) (\<lambda>(r, s). ret r s))"

definition SBRK_EAGER :: int where "SBRK_EAGER = 1"

definition sys_sbrk :: "'a proc_st_scheme \<Rightarrow> (64 word \<times> 'a proc_st_scheme) res" where
  "sys_sbrk s =
     bnd (argint 0 s) (\<lambda>n.
     bnd (argint 1 s) (\<lambda>t.
     bnd (myproc s) (\<lambda>p.
       let a = p_sz (proc_at s p) in
       if t = SBRK_EAGER \<or> n < 0 then
         bnd (growproc n s) (\<lambda>(r, s). if r < 0 then ret (-1) s else Ok (a, s))
       else if a + word_of_int n < a then ret (-1) s
       else if TRAPFRAME < a + word_of_int n then ret (-1) s
       else Ok (a, upd_proc p (\<lambda>q. q\<lparr>p_sz := p_sz q + word_of_int n\<rparr>) s))))"

text \<open>The loop of \<open>sys_pause\<close> and \<open>sys_sleep\<close>, which have the same body.\<close>

fun pause_loop :: "nat \<Rightarrow> 'a proc_st_scheme kenv \<Rightarrow> 32 word \<Rightarrow> int \<Rightarrow> 'a proc_st_scheme \<Rightarrow> (64 word \<times> 'a proc_st_scheme) res" where
  "pause_loop k e ticks0 n s =
     (if ticks s - ticks0 < word_of_int n then
        bnd (myproc s) (\<lambda>p.
        bnd (killed p s) (\<lambda>(kd, s).
          if kd then bnd (release L_ticks s) (\<lambda>s. ret (-1) s)
          else (case k of
                  0 \<Rightarrow> Spin
                | Suc k \<Rightarrow> bnd (sleep_on e Ch_ticks L_ticks s) (pause_loop k e ticks0 n))))
      else bnd (release L_ticks s) (\<lambda>s. ret 0 s))"

declare pause_loop.simps [simp del]

definition sys_pause :: "'a proc_st_scheme kenv \<Rightarrow> 'a proc_st_scheme \<Rightarrow> (64 word \<times> 'a proc_st_scheme) res" where
  "sys_pause e s =
     bnd (argint 0 s) (\<lambda>n.
       let n = (if n < 0 then 0 else n) in
       bnd (acquire L_ticks s) (\<lambda>s. pause_loop (patience e) e (ticks s) n s))"

definition sys_sleep :: "'a proc_st_scheme kenv \<Rightarrow> 'a proc_st_scheme \<Rightarrow> (64 word \<times> 'a proc_st_scheme) res" where
  "sys_sleep e s =
     bnd (argint 0 s) (\<lambda>n.
       let n = (if n < 0 then 0 else n) in
       bnd (acquire L_ticks s) (\<lambda>s. pause_loop (patience e) e (ticks s) n s))"

definition sys_kill :: "'a proc_st_scheme \<Rightarrow> (64 word \<times> 'a proc_st_scheme) res" where
  "sys_kill s = bnd (argint 0 s) (\<lambda>pid. bnd (kkill pid s) (\<lambda>(r, s). ret r s))"

definition sys_uptime :: "'a proc_st_scheme \<Rightarrow> (64 word \<times> 'a proc_st_scheme) res" where
  "sys_uptime s =
     bnd (acquire L_ticks s) (\<lambda>s.
       let x = ticks s in
       bnd (release L_ticks s) (\<lambda>s. Ok (ucast x, s)))"

section \<open>Descriptors\<close>

definition sys_dup :: "'a file_st_scheme \<Rightarrow> (64 word \<times> 'a file_st_scheme) res" where
  "sys_dup s =
     bnd (argfd 0 s) (\<lambda>r.
       case r of
         None \<Rightarrow> ret (-1) s
       | Some (_, f) \<Rightarrow>
           bnd (fdalloc f s) (\<lambda>(fd, s).
             if fd < 0 then ret (-1) s
             else bnd (filedup f s) (\<lambda>(_, s). ret fd s)))"

definition sys_read :: "'a file_st_scheme kenv \<Rightarrow> 'a file_st_scheme \<Rightarrow> (64 word \<times> 'a file_st_scheme) res" where
  "sys_read e s =
     bnd (argaddr 1 s) (\<lambda>a.
     bnd (argint 2 s) (\<lambda>n.
     bnd (argfd 0 s) (\<lambda>r.
       case r of None \<Rightarrow> ret (-1) s | Some (_, f) \<Rightarrow> bnd (fileread e f a n s) (\<lambda>(r, s). ret r s))))"

definition sys_write :: "'a file_st_scheme kenv \<Rightarrow> 'a file_st_scheme \<Rightarrow> (64 word \<times> 'a file_st_scheme) res" where
  "sys_write e s =
     bnd (argaddr 1 s) (\<lambda>a.
     bnd (argint 2 s) (\<lambda>n.
     bnd (argfd 0 s) (\<lambda>r.
       case r of None \<Rightarrow> ret (-1) s | Some (_, f) \<Rightarrow> bnd (filewrite e f a n s) (\<lambda>(r, s). ret r s))))"

definition sys_close :: "'a file_st_scheme kenv \<Rightarrow> 'a file_st_scheme \<Rightarrow> (64 word \<times> 'a file_st_scheme) res" where
  "sys_close e s =
     bnd (argfd 0 s) (\<lambda>r.
       case r of
         None \<Rightarrow> ret (-1) s
       | Some (fd, f) \<Rightarrow> bnd (set_fd fd None s) (\<lambda>s. bnd (fileclose e f s) (\<lambda>s. ret 0 s)))"

definition sys_fstat :: "'a file_st_scheme kenv \<Rightarrow> 'a file_st_scheme \<Rightarrow> (64 word \<times> 'a file_st_scheme) res" where
  "sys_fstat e s =
     bnd (argaddr 1 s) (\<lambda>a.
     bnd (argfd 0 s) (\<lambda>r.
       case r of None \<Rightarrow> ret (-1) s | Some (_, f) \<Rightarrow> bnd (filestat e f a s) (\<lambda>(r, s). ret r s)))"

definition put_fd :: "addr \<Rightarrow> int \<Rightarrow> nat \<Rightarrow> 'a fs_st_scheme \<Rightarrow> (int \<times> 'a fs_st_scheme) res" where
  "put_fd a fd p s =
     (let s = put_auto (le_bytes 4 (word_of_int fd)) s in
      copyout (p_pagetable (proc_at s p)) (p_sz (proc_at s p)) a (auto_addr s) 4 s)"

definition sys_pipe :: "'a file_st_scheme kenv \<Rightarrow> 'a file_st_scheme \<Rightarrow> (64 word \<times> 'a file_st_scheme) res" where
  "sys_pipe e s =
     bnd (myproc s) (\<lambda>p.
     bnd (argaddr 0 s) (\<lambda>a.
     bnd (pipealloc e s) (\<lambda>(r, s).
       case r of
         None \<Rightarrow> ret (-1) s
       | Some (rfile, wfile) \<Rightarrow>
           bnd (fdalloc rfile s) (\<lambda>(fd0, s).
           bnd (if fd0 < 0 then Ok (-1, s) else fdalloc wfile s) (\<lambda>(fd1, s).
             if fd0 < 0 \<or> fd1 < 0 then
               bnd (if 0 \<le> fd0 then set_fd (nat fd0) None s else Ok s) (\<lambda>s.
               bnd (fileclose e rfile s) (\<lambda>s.
               bnd (fileclose e wfile s) (\<lambda>s. ret (-1) s)))
             else
               bnd (put_fd a fd0 p s) (\<lambda>(r0, s).
               bnd (if r0 < 0 then Ok (-1, s) else put_fd (a + 4) fd1 p s) (\<lambda>(r1, s).
                 if r0 < 0 \<or> r1 < 0 then
                   bnd (set_fd (nat fd0) None s) (\<lambda>s.
                   bnd (set_fd (nat fd1) None s) (\<lambda>s.
                   bnd (fileclose e rfile s) (\<lambda>s.
                   bnd (fileclose e wfile s) (\<lambda>s. ret (-1) s))))
                 else ret 0 s)))))))"

end
