(* ===== verification/K_Sysfile.thy ===== *)
theory K_Sysfile
  imports K_Syscall
begin

text \<open>
  The system calls of \<open>xv6/kernel/sysfile.c\<close> that take paths, and the switch of \<open>syscall.c\<close>.
\<close>

section \<open>Links\<close>

definition NLINK_MAX :: int where "NLINK_MAX = 32767"

definition add_nlink :: "nat \<Rightarrow> 16 word \<Rightarrow> 'a fs_st_scheme \<Rightarrow> 'a fs_st_scheme" where
  "add_nlink ip d = upd_inode ip (\<lambda>k. k\<lparr>i_nlink := i_nlink k + d\<rparr>)"

text \<open>\<open>return -1\<close> out of a transaction.\<close>

definition fail_op :: "'a log_st_scheme kenv \<Rightarrow> 'a log_st_scheme \<Rightarrow> (64 word \<times> 'a log_st_scheme) res" where
  "fail_op e s = bnd (end_op e s) (\<lambda>s. ret (-1) s)"

definition link_bad :: "'a fs_st_scheme kenv \<Rightarrow> nat \<Rightarrow> 'a fs_st_scheme \<Rightarrow> (64 word \<times> 'a fs_st_scheme) res" where
  "link_bad e ip s =
     bnd (ilock e ip s) (\<lambda>s.
     bnd (iupdate e ip (add_nlink ip (-1) s)) (\<lambda>s.
     bnd (iunlockput e ip s) (fail_op e)))"

definition link_in :: "'a fs_st_scheme kenv \<Rightarrow> nat \<Rightarrow> byte list \<Rightarrow> 'a fs_st_scheme \<Rightarrow> (64 word \<times> 'a fs_st_scheme) res" where
  "link_in e ip new s =
     bnd (nameiparent e new s) (\<lambda>(r, s).
       case r of
         None \<Rightarrow> link_bad e ip s
       | Some (dp, name) \<Rightarrow>
           bnd (ilock e dp s) (\<lambda>s.
             if i_nlink (inode_at s dp) = 0 then bnd (iunlockput e dp s) (link_bad e ip)
             else
               bnd (if i_dev (inode_at s dp) \<noteq> i_dev (inode_at s ip) then Ok (-1, s)
                    else dirlink e dp name (i_inum (inode_at s ip)) s) (\<lambda>(r, s).
                 if r < 0 then bnd (iunlockput e dp s) (link_bad e ip)
                 else
                   bnd (iunlockput e dp s) (\<lambda>s.
                   bnd (iput e ip s) (\<lambda>s.
                   bnd (end_op e s) (\<lambda>s. ret 0 s))))))"

definition sys_link :: "'a fs_st_scheme kenv \<Rightarrow> 'a fs_st_scheme \<Rightarrow> (64 word \<times> 'a fs_st_scheme) res" where
  "sys_link e s =
     bnd (argstr 0 s) (\<lambda>(old, s).
     bnd (if old = None then Ok (None, s) else argstr 1 s) (\<lambda>(new, s).
       case (old, new) of
         (Some old, Some new) \<Rightarrow>
           bnd (begin_op e s) (\<lambda>s.
           bnd (namei e old s) (\<lambda>(r, s).
             case r of
               None \<Rightarrow> fail_op e s
             | Some ip \<Rightarrow>
                 bnd (ilock e ip s) (\<lambda>s.
                   if i_type (inode_at s ip) = T_DIR then bnd (iunlockput e ip s) (fail_op e)
                   else if NLINK_MAX \<le> sint (i_nlink (inode_at s ip)) then bnd (iunlockput e ip s) (fail_op e)
                   else
                     bnd (iupdate e ip (add_nlink ip 1 s)) (\<lambda>s.
                     bnd (iunlock ip s) (link_in e ip new)))))
       | _ \<Rightarrow> ret (-1) s))"

text \<open>The loop of \<open>isdirempty\<close>, from the third entry.\<close>

fun entries_free :: "32 word list \<Rightarrow> 'a fs_st_scheme kenv \<Rightarrow> nat \<Rightarrow> 'a fs_st_scheme \<Rightarrow> (bool \<times> 'a fs_st_scheme) res" where
  "entries_free [] e dp s = Ok (True, s)"
| "entries_free (off # offs) e dp s =
     bnd (readi e dp False (auto_addr s) off 16 s) (\<lambda>(r, s).
     bnd (assertk (r = 16) ''isdirempty: readi'') (\<lambda>_.
       if de_inum (get_dirent (auto_bytes 16 s)) \<noteq> 0 then Ok (False, s)
       else entries_free offs e dp s))"

definition isdirempty :: "'a fs_st_scheme kenv \<Rightarrow> nat \<Rightarrow> 'a fs_st_scheme \<Rightarrow> (bool \<times> 'a fs_st_scheme) res" where
  "isdirempty e dp s = entries_free (drop 2 (dir_offs (i_size (inode_at s dp)))) e dp s"

abbreviation dot :: "byte list" where "dot \<equiv> [46]"
abbreviation dotdot :: "byte list" where "dotdot \<equiv> [46, 46]"

definition unlink_bad :: "'a fs_st_scheme kenv \<Rightarrow> nat \<Rightarrow> 'a fs_st_scheme \<Rightarrow> (64 word \<times> 'a fs_st_scheme) res" where
  "unlink_bad e dp s = bnd (iunlockput e dp s) (fail_op e)"

text \<open>The entry at \<open>off\<close> of \<open>dp\<close> is cleared and \<open>ip\<close> loses a link.\<close>

definition unlink_entry :: "'a fs_st_scheme kenv \<Rightarrow> nat \<Rightarrow> nat \<Rightarrow> 32 word \<Rightarrow> 'a fs_st_scheme \<Rightarrow> (64 word \<times> 'a fs_st_scheme) res" where
  "unlink_entry e dp ip off s =
     bnd (writei e dp False (auto_addr s) off 16 (put_auto (replicate 16 0) s)) (\<lambda>(r, s).
     bnd (assertk (r = 16) ''unlink: writei'') (\<lambda>_.
     bnd (if i_type (inode_at s ip) = T_DIR then iupdate e dp (add_nlink dp (-1) s) else Ok s) (\<lambda>s.
     bnd (iunlockput e dp s) (\<lambda>s.
     bnd (iupdate e ip (add_nlink ip (-1) s)) (\<lambda>s.
     bnd (iunlockput e ip s) (\<lambda>s.
     bnd (end_op e s) (\<lambda>s. ret 0 s)))))))"

definition sys_unlink :: "'a fs_st_scheme kenv \<Rightarrow> 'a fs_st_scheme \<Rightarrow> (64 word \<times> 'a fs_st_scheme) res" where
  "sys_unlink e s =
     bnd (argstr 0 s) (\<lambda>(path, s).
       case path of
         None \<Rightarrow> ret (-1) s
       | Some path \<Rightarrow>
           bnd (begin_op e s) (\<lambda>s.
           bnd (nameiparent e path s) (\<lambda>(r, s).
             case r of
               None \<Rightarrow> fail_op e s
             | Some (dp, name) \<Rightarrow>
                 bnd (ilock e dp s) (\<lambda>s.
                   if namecmp name dot = 0 \<or> namecmp name dotdot = 0 then unlink_bad e dp s
                   else bnd (dirlookup e dp name s) (\<lambda>(found, s).
                     case found of
                       None \<Rightarrow> unlink_bad e dp s
                     | Some (ip, off) \<Rightarrow>
                         bnd (ilock e ip s) (\<lambda>s.
                         bnd (assertk (1 \<le> sint (i_nlink (inode_at s ip))) ''unlink: nlink < 1'') (\<lambda>_.
                         bnd (if i_type (inode_at s ip) = T_DIR then isdirempty e ip s else Ok (True, s)) (\<lambda>(free, s).
                           if \<not> free then bnd (iunlockput e ip s) (unlink_bad e dp)
                           else unlink_entry e dp ip off s))))))))"

section \<open>Creating\<close>

definition create_fail :: "'a fs_st_scheme kenv \<Rightarrow> nat \<Rightarrow> nat \<Rightarrow> 'a fs_st_scheme \<Rightarrow> (nat option \<times> 'a fs_st_scheme) res" where
  "create_fail e dp ip s =
     bnd (iupdate e ip (upd_inode ip (\<lambda>k. k\<lparr>i_nlink := 0\<rparr>) s)) (\<lambda>s.
     bnd (iunlockput e ip s) (\<lambda>s.
     bnd (iunlockput e dp s) (\<lambda>s. Ok (None, s))))"

text \<open>A new inode, with \<open>.\<close> and \<open>..\<close> if it is a directory, under \<open>name\<close> in \<open>dp\<close>.\<close>

definition create_new :: "'a fs_st_scheme kenv \<Rightarrow> nat \<Rightarrow> byte list \<Rightarrow> 16 word \<Rightarrow> 16 word \<Rightarrow> 16 word \<Rightarrow> 'a fs_st_scheme \<Rightarrow>
    (nat option \<times> 'a fs_st_scheme) res" where
  "create_new e dp name ty maj mnr s =
     bnd (ialloc e (i_dev (inode_at s dp)) ty s) (\<lambda>(r, s).
       case r of
         None \<Rightarrow> bnd (iunlockput e dp s) (\<lambda>s. Ok (None, s))
       | Some ip \<Rightarrow>
           bnd (ilock e ip s) (\<lambda>s.
           bnd (iupdate e ip (upd_inode ip (\<lambda>k. k\<lparr>i_major := maj, i_minor := mnr, i_nlink := 1\<rparr>) s)) (\<lambda>s.
           bnd (if ty = T_DIR then
                  bnd (dirlink e ip dot (i_inum (inode_at s ip)) s) (\<lambda>(r, s).
                    if r < 0 then Ok (-1, s) else dirlink e ip dotdot (i_inum (inode_at s dp)) s)
                else Ok (0, s)) (\<lambda>(r, s).
             if r < 0 then create_fail e dp ip s
             else bnd (dirlink e dp name (i_inum (inode_at s ip)) s) (\<lambda>(r, s).
               if r < 0 then create_fail e dp ip s
               else
                 bnd (if ty = T_DIR then iupdate e dp (add_nlink dp 1 s) else Ok s) (\<lambda>s.
                 bnd (iunlockput e dp s) (\<lambda>s. Ok (Some ip, s))))))))"

definition create :: "'a fs_st_scheme kenv \<Rightarrow> byte list \<Rightarrow> 16 word \<Rightarrow> 16 word \<Rightarrow> 16 word \<Rightarrow> 'a fs_st_scheme \<Rightarrow>
    (nat option \<times> 'a fs_st_scheme) res" where
  "create e path ty maj mnr s =
     bnd (nameiparent e path s) (\<lambda>(r, s).
       case r of
         None \<Rightarrow> Ok (None, s)
       | Some (dp, name) \<Rightarrow>
           bnd (ilock e dp s) (\<lambda>s.
             if i_nlink (inode_at s dp) = 0 then bnd (iunlockput e dp s) (\<lambda>s. Ok (None, s))
             else if ty = T_DIR \<and> NLINK_MAX \<le> sint (i_nlink (inode_at s dp)) then
               bnd (iunlockput e dp s) (\<lambda>s. Ok (None, s))
             else bnd (dirlookup e dp name s) (\<lambda>(found, s).
               case found of
                 Some (ip, _) \<Rightarrow>
                   bnd (iunlockput e dp s) (\<lambda>s.
                   bnd (ilock e ip s) (\<lambda>s.
                     if ty = T_FILE \<and> (i_type (inode_at s ip) = T_FILE \<or> i_type (inode_at s ip) = T_DEVICE)
                     then Ok (Some ip, s)
                     else bnd (iunlockput e ip s) (\<lambda>s. Ok (None, s))))
               | None \<Rightarrow> create_new e dp name ty maj mnr s)))"

text \<open>The file of an open inode, \<open>omode\<close> with the bits 1, 2 and 0x400.\<close>

definition open_file :: "nat \<Rightarrow> nat \<Rightarrow> 32 word \<Rightarrow> 'a file_st_scheme \<Rightarrow> 'a file_st_scheme" where
  "open_file f ip omode s =
     upd_file f (\<lambda>k.
       (if i_type (inode_at s ip) = T_DEVICE then k\<lparr>f_type := FD_DEVICE, f_major := i_major (inode_at s ip)\<rparr>
        else k\<lparr>f_type := FD_INODE, f_off := 0\<rparr>)
       \<lparr>f_ip := ip, f_readable := (omode AND 1 = 0), f_writable := (omode AND 1 \<noteq> 0 \<or> omode AND 2 \<noteq> 0)\<rparr>) s"

definition open_locked :: "'a file_st_scheme kenv \<Rightarrow> nat \<Rightarrow> 32 word \<Rightarrow> 'a file_st_scheme \<Rightarrow> (64 word \<times> 'a file_st_scheme) res" where
  "open_locked e ip omode s =
     (if i_type (inode_at s ip) = T_DEVICE \<and> \<not> major_ok (i_major (inode_at s ip)) then
        bnd (iunlockput e ip s) (fail_op e)
      else bnd (filealloc s) (\<lambda>(r, s).
        case r of
          None \<Rightarrow> bnd (iunlockput e ip s) (fail_op e)
        | Some f \<Rightarrow>
            bnd (fdalloc f s) (\<lambda>(fd, s).
              if fd < 0 then
                bnd (fileclose e f s) (\<lambda>s.
                bnd (iunlockput e ip s) (fail_op e))
              else
                let s = open_file f ip omode s in
                bnd (if omode AND 0x400 \<noteq> 0 \<and> i_type (inode_at s ip) = T_FILE then itrunc e ip s else Ok s) (\<lambda>s.
                bnd (iunlock ip s) (\<lambda>s.
                bnd (end_op e s) (\<lambda>s. ret fd s))))))"

definition sys_open :: "'a file_st_scheme kenv \<Rightarrow> 'a file_st_scheme \<Rightarrow> (64 word \<times> 'a file_st_scheme) res" where
  "sys_open e s =
     bnd (argint 1 s) (\<lambda>m.
     bnd (argstr 0 s) (\<lambda>(path, s).
       let omode = word_of_int m :: 32 word in
       case path of
         None \<Rightarrow> ret (-1) s
       | Some path \<Rightarrow>
           bnd (begin_op e s) (\<lambda>s.
             if omode AND 0x200 \<noteq> 0 then
               bnd (create e path T_FILE 0 0 s) (\<lambda>(r, s).
                 case r of None \<Rightarrow> fail_op e s | Some ip \<Rightarrow> open_locked e ip omode s)
             else
               bnd (namei e path s) (\<lambda>(r, s).
                 case r of
                   None \<Rightarrow> fail_op e s
                 | Some ip \<Rightarrow>
                     bnd (ilock e ip s) (\<lambda>s.
                       if i_type (inode_at s ip) = T_DIR \<and> omode \<noteq> 0 then bnd (iunlockput e ip s) (fail_op e)
                       else open_locked e ip omode s)))))"

definition sys_mkdir :: "'a fs_st_scheme kenv \<Rightarrow> 'a fs_st_scheme \<Rightarrow> (64 word \<times> 'a fs_st_scheme) res" where
  "sys_mkdir e s =
     bnd (begin_op e s) (\<lambda>s.
     bnd (argstr 0 s) (\<lambda>(path, s).
     bnd (case path of None \<Rightarrow> Ok (None, s) | Some path \<Rightarrow> create e path T_DIR 0 0 s) (\<lambda>(r, s).
       case r of
         None \<Rightarrow> fail_op e s
       | Some ip \<Rightarrow> bnd (iunlockput e ip s) (\<lambda>s. bnd (end_op e s) (\<lambda>s. ret 0 s)))))"

definition sys_mknod :: "'a fs_st_scheme kenv \<Rightarrow> 'a fs_st_scheme \<Rightarrow> (64 word \<times> 'a fs_st_scheme) res" where
  "sys_mknod e s =
     bnd (begin_op e s) (\<lambda>s.
     bnd (argint 1 s) (\<lambda>maj.
     bnd (argint 2 s) (\<lambda>mnr.
     bnd (argstr 0 s) (\<lambda>(path, s).
     bnd (case path of
            None \<Rightarrow> Ok (None, s)
          | Some path \<Rightarrow> create e path T_DEVICE (word_of_int maj) (word_of_int mnr) s) (\<lambda>(r, s).
       case r of
         None \<Rightarrow> fail_op e s
       | Some ip \<Rightarrow> bnd (iunlockput e ip s) (\<lambda>s. bnd (end_op e s) (\<lambda>s. ret 0 s)))))))"

definition sys_chdir :: "'a fs_st_scheme kenv \<Rightarrow> 'a fs_st_scheme \<Rightarrow> (64 word \<times> 'a fs_st_scheme) res" where
  "sys_chdir e s =
     bnd (myproc s) (\<lambda>p.
     bnd (begin_op e s) (\<lambda>s.
     bnd (argstr 0 s) (\<lambda>(path, s).
     bnd (case path of None \<Rightarrow> Ok (None, s) | Some path \<Rightarrow> namei e path s) (\<lambda>(r, s).
       case r of
         None \<Rightarrow> fail_op e s
       | Some ip \<Rightarrow>
           bnd (ilock e ip s) (\<lambda>s.
             if i_type (inode_at s ip) \<noteq> T_DIR then bnd (iunlockput e ip s) (fail_op e)
             else
               bnd (iunlock ip s) (\<lambda>s.
               bnd (the_inode (p_cwd (proc_at s p))) (\<lambda>cwd.
               bnd (iput e cwd s) (\<lambda>s.
               bnd (end_op e s) (\<lambda>s.
                 ret 0 (upd_proc p (\<lambda>q. q\<lparr>p_cwd := Some ip\<rparr>) s))))))))))"

section \<open>\<open>exec\<close>\<close>

text \<open>The loop of \<open>sys_exec\<close>: whether it met the end of \<open>argv\<close>, and the pages fetched so far.\<close>

function exec_args :: "nat \<Rightarrow> addr \<Rightarrow> addr list \<Rightarrow> 'a fs_st_scheme \<Rightarrow> ((bool \<times> addr list) \<times> 'a fs_st_scheme) res" where
  "exec_args i uargv argv s =
     (if MAXARG \<le> i then Ok ((False, argv), s)
      else bnd (fetchaddr (uargv + 8 * of_nat i) s) (\<lambda>(r, s).
        case r of
          None \<Rightarrow> Ok ((False, argv), s)
        | Some uarg \<Rightarrow>
            if uarg = 0 then Ok ((True, argv), s)
            else bnd (kalloc s) (\<lambda>(pg, s).
              if pg = 0 then Ok ((False, argv), s)
              else bnd (fetchstr uarg pg 4096 s) (\<lambda>(r, s).
                if r < 0 then Ok ((False, argv @ [pg]), s)
                else exec_args (i + 1) uargv (argv @ [pg]) s))))"
  by pat_completeness auto
termination
  by (relation "measure (\<lambda>(i, uargv, argv, s). MAXARG - i)") auto

declare exec_args.simps [simp del]

definition sys_exec :: "'a fs_st_scheme kenv \<Rightarrow> 'a fs_st_scheme \<Rightarrow> (64 word \<times> 'a fs_st_scheme) res" where
  "sys_exec e s =
     bnd (argaddr 1 s) (\<lambda>uargv.
     bnd (argstr 0 s) (\<lambda>(path, s).
       case path of
         None \<Rightarrow> ret (-1) s
       | Some path \<Rightarrow>
           bnd (exec_args 0 uargv [] s) (\<lambda>((good, argv), s).
           bnd (if good then kexec e path argv s else Ok (-1, s)) (\<lambda>(r, s).
           bnd (for_each kfree argv s) (\<lambda>s. ret r s)))))"

section \<open>The switch\<close>

definition sys_call :: "nat \<Rightarrow> 'a file_st_scheme kenv \<Rightarrow> 'a file_st_scheme \<Rightarrow> (64 word \<times> 'a file_st_scheme) res" where
  "sys_call num e s =
     (if num = 1 then sys_fork s
      else if num = 2 then sys_exit e s
      else if num = 3 then sys_wait e s
      else if num = 4 then sys_pipe e s
      else if num = 5 then sys_read e s
      else if num = 6 then sys_kill s
      else if num = 7 then sys_exec e s
      else if num = 8 then sys_fstat e s
      else if num = 9 then sys_chdir e s
      else if num = 10 then sys_dup s
      else if num = 11 then sys_getpid s
      else if num = 12 then sys_sbrk s
      else if num = 13 then sys_pause e s
      else if num = 14 then sys_uptime s
      else if num = 15 then sys_open e s
      else if num = 16 then sys_write e s
      else if num = 17 then sys_mknod e s
      else if num = 18 then sys_unlink e s
      else if num = 19 then sys_link e s
      else if num = 20 then sys_mkdir e s
      else if num = 21 then sys_close e s
      else if num = 22 then sys_sync e s
      else sys_sleep e s)"

text \<open>\<open>a7\<close> is at byte 168 of the trap frame.\<close>

definition syscall :: "'a file_st_scheme kenv \<Rightarrow> 'a file_st_scheme \<Rightarrow> 'a file_st_scheme res" where
  "syscall e s =
     bnd (myproc s) (\<lambda>p.
       let num = sint (ucast (tf_get p 168 s) :: 32 word) in
       if 0 < num \<and> num < 24 then
         bnd (sys_call (nat num) e s) (\<lambda>(r, s). Ok (tf_set p 112 r s))
       else
         bnd (printk (''%d %s: unknown sys call %d'' @ nl)
                [a_int (p_pid (proc_at s p)), AStr (Some (p_name (proc_at s p))), a_int num] s) (\<lambda>s.
           Ok (tf_set p 112 (-1) s)))"

end
