(* ===== verification/K_Trap.thy ===== *)
theory K_Trap
  imports K_Sysfile
begin

text \<open>
  Traps: \<open>xv6/kernel/trap.c\<close>, \<open>plic.c\<close> and \<open>forkret\<close> of \<open>proc.c\<close>.  The supervisor's control registers are fields
  of the state; \<open>irq\<close> is \<open>SIE\<close>.  The PLIC is the list of the interrupts it will hand out.
\<close>

section \<open>The state\<close>

record trap_st = file_st +
  scause :: "64 word"
  sepc :: "64 word"
  stval :: "64 word"
  stvec :: "64 word"
  satp :: "64 word"
  stimecmp :: "64 word"
  rtime :: "64 word"
  spp :: bool
  spie :: bool
  hartid :: nat
  plic_irqs :: "int list"
  kernelvec :: addr
  uservec :: addr
  usertrap_addr :: addr
  init_path :: addr
  forkret_first :: bool

section \<open>Interrupts\<close>

definition plic_claim :: "'a trap_st_scheme \<Rightarrow> int \<times> 'a trap_st_scheme" where
  "plic_claim s = (case plic_irqs s of [] \<Rightarrow> (0, s) | i # is \<Rightarrow> (i, s\<lparr>plic_irqs := is\<rparr>))"

abbreviation UART0_IRQ :: int where "UART0_IRQ \<equiv> 10"
abbreviation VIRTIO0_IRQ :: int where "VIRTIO0_IRQ \<equiv> 1"

definition clockintr :: "'a trap_st_scheme \<Rightarrow> 'a trap_st_scheme res" where
  "clockintr s =
     bnd (if hartid s = 0 then
            bnd (acquire L_ticks s) (\<lambda>s.
            bnd (wakeup (Some Ch_ticks) (s\<lparr>ticks := ticks s + 1\<rparr>)) (release L_ticks))
          else Ok s) (\<lambda>s.
       Ok (s\<lparr>stimecmp := rtime s + 1000000\<rparr>))"

text \<open>2 for the timer, 1 for a device, 0 for what is not an interrupt.\<close>

definition devintr :: "'a trap_st_scheme \<Rightarrow> (nat \<times> 'a trap_st_scheme) res" where
  "devintr s =
     (if scause s = 0x8000000000000009 then
        let (i, s) = plic_claim s in
        bnd (if i = UART0_IRQ then uartintr s
             else if i = VIRTIO0_IRQ then virtio_disk_intr s
             else if i \<noteq> 0 then printk (''unexpected interrupt irq=%d'' @ nl) [a_int i] s
             else Ok s) (\<lambda>s. Ok (1, s))
      else if scause s = 0x8000000000000005 then bnd (clockintr s) (\<lambda>s. Ok (2, s))
      else Ok (0, s))"

text \<open>The bookkeeping of a timer interrupt, which depends on the scheduler the kernel is built for.\<close>

definition count_tick :: "policy \<Rightarrow> 'a proc_st_scheme \<Rightarrow> 'a proc_st_scheme res" where
  "count_tick pol s =
     (if pol = MLFQ then mlfq_timer_tick s
      else bnd (myproc s) (\<lambda>p.
           bnd (sadd32 (cpu_ticks (proc_at s p)) 1) (\<lambda>n. Ok (upd_proc p (\<lambda>q. q\<lparr>cpu_ticks := n\<rparr>) s))))"

section \<open>From and to user space\<close>

definition MAKE_SATP :: "addr \<Rightarrow> 64 word" where
  "MAKE_SATP pt = push_bit 60 8 OR drop_bit 12 pt"

definition prepare_return :: "'a trap_st_scheme \<Rightarrow> 'a trap_st_scheme res" where
  "prepare_return s =
     bnd (myproc s) (\<lambda>p.
       let s = intr_off s;
           s = s\<lparr>stvec := TRAMPOLINE + (uservec s - trampoline s)\<rparr>;
           s = tf_set p 0 (satp s) s;
           s = tf_set p 8 (p_kstack (proc_at s p) + PGSIZE) s;
           s = tf_set p 16 (usertrap_addr s) s;
           s = tf_set p 32 (of_nat (hartid s)) s
       in Ok (s\<lparr>spp := False, spie := True, sepc := tf_get p 24 s\<rparr>))"

text \<open>\<open>if(killed(p)) kexit(-1)\<close>.\<close>

definition exit_if_killed :: "'a file_st_scheme kenv \<Rightarrow> nat \<Rightarrow> 'a file_st_scheme \<Rightarrow> 'a file_st_scheme res" where
  "exit_if_killed e p s = bnd (killed p s) (\<lambda>(kd, s). if kd then kexit e (-1) s else Ok s)"

definition usertrap_cause :: "'a trap_st_scheme kenv \<Rightarrow> nat \<Rightarrow> 'a trap_st_scheme \<Rightarrow> (nat \<times> 'a trap_st_scheme) res" where
  "usertrap_cause e p s =
     (if scause s = 8 then
        bnd (exit_if_killed e p s) (\<lambda>s.
        bnd (syscall e (intr_on (tf_set p 24 (tf_get p 24 s + 4) s))) (\<lambda>s. Ok (0, s)))
      else bnd (devintr s) (\<lambda>(which_dev, s).
        if which_dev \<noteq> 0 then Ok (which_dev, s)
        else
          bnd (if scause s = 15 \<or> scause s = 13
               then vmfault (p_pagetable (proc_at s p)) (p_sz (proc_at s p)) (stval s) s
               else Ok (0, s)) (\<lambda>(pg, s).
            if pg \<noteq> 0 then Ok (0, s)
            else
              bnd (printk (''usertrap(): unexpected scause 0x%lx pid=%d'' @ nl) [A64 (scause s), a_int (p_pid (proc_at s p))] s) (\<lambda>s.
              bnd (printk (''            sepc=0x%lx stval=0x%lx'' @ nl) [A64 (sepc s), A64 (stval s)] s) (\<lambda>s.
              bnd (setkilled p s) (\<lambda>s. Ok (0, s)))))))"

definition usertrap :: "policy \<Rightarrow> 'a trap_st_scheme kenv \<Rightarrow> 'a trap_st_scheme \<Rightarrow> (64 word \<times> 'a trap_st_scheme) res" where
  "usertrap pol e s =
     bnd (assertk (\<not> spp s) ''usertrap: not from user mode'') (\<lambda>_.
       let s = s\<lparr>stvec := kernelvec s\<rparr> in
       bnd (myproc s) (\<lambda>p.
         let s = tf_set p 24 (sepc s) s in
         bnd (usertrap_cause e p s) (\<lambda>(which_dev, s).
         bnd (exit_if_killed e p s) (\<lambda>s.
         bnd (if which_dev = 2 then bnd (count_tick pol s) (yield_k e) else Ok s) (\<lambda>s.
         bnd (prepare_return s) (\<lambda>s.
           Ok (MAKE_SATP (p_pagetable (proc_at s p)), s)))))))"

definition kerneltrap :: "policy \<Rightarrow> 'a trap_st_scheme kenv \<Rightarrow> 'a trap_st_scheme \<Rightarrow> 'a trap_st_scheme res" where
  "kerneltrap pol e s0 =
     bnd (assertk (spp s0) ''kerneltrap: not from supervisor mode'') (\<lambda>_.
     bnd (assertk (\<not> intr_get s0) ''kerneltrap: interrupts enabled'') (\<lambda>_.
     bnd (devintr s0) (\<lambda>(which_dev, s).
     bnd (if which_dev = 0 then
            bnd (printk (''scause=0x%lx sepc=0x%lx stval=0x%lx'' @ nl) [A64 (scause s0), A64 (sepc s), A64 (stval s)] s) (\<lambda>_.
              Panic ''kerneltrap'')
          else Ok s) (\<lambda>s.
     bnd (if which_dev = 2 \<and> curproc s \<noteq> None then bnd (count_tick pol s) (yield_k e) else Ok s) (\<lambda>s.
       Ok (s\<lparr>sepc := sepc s0, spp := spp s0, spie := spie s0, irq := irq s0\<rparr>))))))"

text \<open>A new process starts here, with its lock held; the first one brings up the file system and \<open>/init\<close>.\<close>

definition forkret :: "'a trap_st_scheme kenv \<Rightarrow> 'a trap_st_scheme \<Rightarrow> (64 word \<times> 'a trap_st_scheme) res" where
  "forkret e s =
     bnd (myproc s) (\<lambda>p.
     bnd (release (L_proc p) s) (\<lambda>s.
     bnd (if forkret_first s then
            bnd (fsinit e ROOTDEV s) (\<lambda>s.
            bnd (kexec e [47, 105, 110, 105, 116] [init_path s] (s\<lparr>forkret_first := False\<rparr>)) (\<lambda>(r, s).
              let s = tf_set p 112 (word_of_int r) s in
              bnd (assertk (tf_get p 112 s \<noteq> -1) ''exec'') (\<lambda>_. Ok s)))
          else Ok s) (\<lambda>s.
     bnd (prepare_return s) (\<lambda>s.
       Ok (MAKE_SATP (p_pagetable (proc_at s p)), s)))))"

end
