(* ===== verification/K_Boot.thy ===== *)
theory K_Boot
  imports K_Trap
begin

text \<open>
  Booting: \<open>xv6/kernel/start.c\<close>, \<open>main.c\<close> and the set-up of the devices.  Device registers are 32-bit words by
  address; what a device does when one is written is a parameter, a function of all of them.
\<close>

section \<open>Machine mode\<close>

record mregs =
  mstatus :: "64 word"
  mepc :: "64 word"
  m_satp :: "64 word"
  medeleg :: "64 word"
  mideleg :: "64 word"
  sie :: "64 word"
  pmpaddr0 :: "64 word"
  pmpcfg0 :: "64 word"
  menvcfg :: "64 word"
  mcounteren :: "64 word"
  m_stimecmp :: "64 word"
  m_time :: "64 word"
  mhartid :: "64 word"
  tp :: "64 word"

definition timerinit :: "mregs \<Rightarrow> mregs" where
  "timerinit m =
     (let m = m\<lparr>menvcfg := menvcfg m OR push_bit 63 1\<rparr>;
          m = m\<lparr>mcounteren := mcounteren m OR 2\<rparr>
      in m\<lparr>m_stimecmp := m_time m + 1000000\<rparr>)"

text \<open>\<open>main_addr\<close> is where \<open>mret\<close> goes.\<close>

definition start :: "addr \<Rightarrow> mregs \<Rightarrow> mregs" where
  "start main_addr m =
     (let x = mstatus m;
          x = x AND NOT (push_bit 11 3);
          x = x OR push_bit 11 1;
          m = m\<lparr>mstatus := x, mepc := main_addr, m_satp := 0, medeleg := 0xffff, mideleg := 0xffff,
                sie := sie m OR push_bit 9 1 OR push_bit 5 1, pmpaddr0 := 0x3fffffffffffff, pmpcfg0 := 0xf,
                menvcfg := menvcfg m OR push_bit 61 1\<rparr>;
          m = timerinit m
      in m\<lparr>tp := mhartid m\<rparr>)"

section \<open>Devices\<close>

record boot_st = trap_st +
  mmio :: "addr \<Rightarrow> 32 word"
  vq_desc_page :: addr
  vq_avail_page :: addr
  vq_used_page :: addr

type_synonym device_reaction = "addr \<Rightarrow> 32 word \<Rightarrow> (addr \<Rightarrow> 32 word) \<Rightarrow> (addr \<Rightarrow> 32 word)"

definition reg_write :: "device_reaction \<Rightarrow> addr \<Rightarrow> 32 word \<Rightarrow> 'a boot_st_scheme \<Rightarrow> 'a boot_st_scheme" where
  "reg_write wr a v s = s\<lparr>mmio := wr a v (mmio s)\<rparr>"

definition plicinit :: "device_reaction \<Rightarrow> 'a boot_st_scheme \<Rightarrow> 'a boot_st_scheme" where
  "plicinit wr s = reg_write wr (0x0c000000 + 1 * 4) 1 (reg_write wr (0x0c000000 + 10 * 4) 1 s)"

definition plicinithart :: "device_reaction \<Rightarrow> 'a boot_st_scheme \<Rightarrow> 'a boot_st_scheme" where
  "plicinithart wr s =
     (let hart = of_nat (hartid s);
          s = reg_write wr (0x0c000000 + 0x2080 + hart * 0x100) (push_bit 10 1 OR push_bit 1 1) s
      in reg_write wr (0x0c000000 + 0x201000 + hart * 0x2000) 0 s)"

text \<open>The registers of the UART are bytes; \<open>IER\<close> 1, \<open>FCR\<close> 2, \<open>LCR\<close> 3.\<close>

definition uartinit :: "device_reaction \<Rightarrow> 'a boot_st_scheme \<Rightarrow> 'a boot_st_scheme" where
  "uartinit wr s =
     (let s = reg_write wr (0x10000000 + 1) 0 s;
          s = reg_write wr (0x10000000 + 3) (push_bit 7 1) s;
          s = reg_write wr (0x10000000 + 0) 3 s;
          s = reg_write wr (0x10000000 + 1) 0 s;
          s = reg_write wr (0x10000000 + 3) (push_bit 0 3) s;
          s = reg_write wr (0x10000000 + 2) (push_bit 0 1 OR push_bit 1 3) s;
          s = reg_write wr (0x10000000 + 1) (push_bit 1 1 OR push_bit 0 1) s
      in initsleeplock SL_uart s)"

text \<open>The set-up of the disk, by the offsets of its registers.\<close>

definition vreg :: "addr \<Rightarrow> 'a boot_st_scheme \<Rightarrow> 32 word" where
  "vreg r s = mmio s (0x10001000 + r)"

definition vset :: "device_reaction \<Rightarrow> addr \<Rightarrow> 32 word \<Rightarrow> 'a boot_st_scheme \<Rightarrow> 'a boot_st_scheme" where
  "vset wr r v s = reg_write wr (0x10001000 + r) v s"

text \<open>The features that are turned down, by their bits.\<close>

definition refused :: "nat list" where
  "refused = [5, 7, 9, 11, 12, 27, 29, 28]"

definition set_queue :: "device_reaction \<Rightarrow> addr \<Rightarrow> addr \<Rightarrow> 'a boot_st_scheme \<Rightarrow> 'a boot_st_scheme" where
  "set_queue wr r pg s = vset wr (r + 4) (ucast (drop_bit 32 pg)) (vset wr r (ucast pg) s)"

definition virtio_negotiate :: "device_reaction \<Rightarrow> 'a boot_st_scheme \<Rightarrow> 'a boot_st_scheme" where
  "virtio_negotiate wr s =
     (let s = vset wr 0x70 0 s;
          s = vset wr 0x70 1 s;
          s = vset wr 0x70 (1 OR 2) s;
          f = foldl (\<lambda>f b. f AND NOT (push_bit b 1)) (vreg 0x10 s) refused;
          s = vset wr 0x20 f s
      in vset wr 0x70 (1 OR 2 OR 8) s)"

definition virtio_disk_init :: "device_reaction \<Rightarrow> 'a boot_st_scheme \<Rightarrow> 'a boot_st_scheme res" where
  "virtio_disk_init wr s =
     bnd (assertk (vreg 0 s = 0x74726976 \<and> vreg 4 s = 2 \<and> vreg 8 s = 2 \<and> vreg 0xc s = 0x554d4551)
            ''could not find virtio disk'') (\<lambda>_.
       let s = virtio_negotiate wr s; status = vreg 0x70 s in
       bnd (assertk (status AND 8 \<noteq> 0) ''virtio disk FEATURES_OK unset'') (\<lambda>_.
         let s = vset wr 0x30 0 s in
         bnd (assertk (vreg 0x44 s = 0) ''virtio disk should not be ready'') (\<lambda>_.
           let mx = vreg 0x34 s in
           bnd (assertk (mx \<noteq> 0) ''virtio disk has no queue 0'') (\<lambda>_.
           bnd (assertk (8 \<le> mx) ''virtio disk max queue too short'') (\<lambda>_.
           bnd (kalloc s) (\<lambda>(d, s).
           bnd (kalloc s) (\<lambda>(a, s).
           bnd (kalloc s) (\<lambda>(u, s).
           bnd (assertk (d \<noteq> 0 \<and> a \<noteq> 0 \<and> u \<noteq> 0) ''virtio disk kalloc'') (\<lambda>_.
             let s = zero_page u (zero_page a (zero_page d s));
                 s = s\<lparr>vq_desc_page := d, vq_avail_page := a, vq_used_page := u,
                       vq := (vq s)\<lparr>v_desc := replicate 8 null_desc, v_ring := replicate 8 0, v_aidx := 0,
                               v_used := replicate 8 0, v_uidx := 0\<rparr>\<rparr>;
                 s = vset wr 0x38 8 s;
                 s = set_queue wr 0x80 d s;
                 s = set_queue wr 0x90 a s;
                 s = set_queue wr 0xa0 u s;
                 s = vset wr 0x44 1 s;
                 s = s\<lparr>vq := (vq s)\<lparr>v_free := replicate 8 True\<rparr>\<rparr>
             in Ok (vset wr 0x70 (status OR 4) s))))))))))"

section \<open>Supervisor mode\<close>

definition kvminithart :: "'a trap_st_scheme \<Rightarrow> 'a trap_st_scheme" where
  "kvminithart s = s\<lparr>satp := MAKE_SATP (kernel_pagetable s)\<rparr>"

definition trapinithart :: "'a trap_st_scheme \<Rightarrow> 'a trap_st_scheme" where
  "trapinithart s = s\<lparr>stvec := kernelvec s\<rparr>"

text \<open>\<open>main\<close> on hart 0, up to the scheduler.\<close>

definition main0 :: "device_reaction \<Rightarrow> 'a boot_st_scheme kenv \<Rightarrow> 'a boot_st_scheme \<Rightarrow> 'a boot_st_scheme res" where
  "main0 wr e s =
     bnd (printk nl [] (consoleinit (uartinit wr s))) (\<lambda>s.
     bnd (printk (''xv6 kernel is booting'' @ nl) [] s) (\<lambda>s.
     bnd (printk nl [] s) (\<lambda>s.
     bnd (kinit s) (\<lambda>s.
     bnd (kvminit s) (\<lambda>s.
       let s = plicinithart wr (plicinit wr (trapinithart (procinit (kvminithart s)))) in
     bnd (virtio_disk_init wr (iinit (binit s))) (userinit e))))))"

text \<open>\<open>main\<close> on another hart, once hart 0 has set \<open>started\<close>.\<close>

definition main_other :: "device_reaction \<Rightarrow> 'a boot_st_scheme \<Rightarrow> 'a boot_st_scheme res" where
  "main_other wr s =
     bnd (printk (''hart %d starting'' @ nl) [A32 (of_nat (hartid s))] s) (\<lambda>s.
       Ok (plicinithart wr (trapinithart (kvminithart s))))"

end
