(* ===== verification/U_Grep.thy ===== *)
theory U_Grep
  imports Prelude
begin

text \<open>
  \<open>xv6/user/grep.c\<close>: the matcher for \<open>^ . * $\<close> and the program.  A C string is the list of its characters before
  the NUL.
\<close>

section \<open>The code\<close>

abbreviation NUL :: char where "NUL \<equiv> CHR 0x00"
abbreviation newline :: char where "newline \<equiv> CHR 0x0A"

text \<open>The character at an index, which is the NUL at the end.\<close>

definition at0 :: "string \<Rightarrow> nat \<Rightarrow> char" where
  "at0 s i = (if i < length s then s ! i else NUL)"

function matchhere :: "string \<Rightarrow> string \<Rightarrow> bool"
  and matchstar :: "char \<Rightarrow> string \<Rightarrow> string \<Rightarrow> bool" where
  "matchhere re t =
     (if re = [] then True
      else if at0 re 1 = CHR ''*'' then matchstar (at0 re 0) (drop 2 re) t
      else if at0 re 0 = CHR ''$'' \<and> at0 re 1 = NUL then t = []
      else if t \<noteq> [] \<and> (at0 re 0 = CHR ''.'' \<or> at0 re 0 = at0 t 0) then matchhere (tl re) (tl t)
      else False)"
| "matchstar c re t =
     (if matchhere re t then True
      else if t \<noteq> [] \<and> (at0 t 0 = c \<or> c = CHR ''.'') then matchstar c re (tl t)
      else False)"
  by pat_completeness auto
termination
proof (relation "measures [\<lambda>x. case x of Inl (re, t) \<Rightarrow> 2 * length re | Inr (c, re, t) \<Rightarrow> 2 * length re + 1,
    \<lambda>x. case x of Inl (re, t) \<Rightarrow> length t | Inr (c, re, t) \<Rightarrow> length t]", goal_cases)
qed (auto simp: at0_def split: if_splits)

declare matchhere.simps [simp del] matchstar.simps [simp del]

text \<open>The loop of \<open>match\<close>, which looks at the empty string too.\<close>

fun match_loop :: "string \<Rightarrow> string \<Rightarrow> bool" where
  "match_loop re [] = matchhere re []"
| "match_loop re (c # t) = (matchhere re (c # t) \<or> match_loop re t)"

definition match :: "string \<Rightarrow> string \<Rightarrow> bool" where
  "match re t = (if at0 re 0 = CHR ''^'' then matchhere (tl re) t else match_loop re t)"

text \<open>The lines of the buffer that end in it, and what is left: \<open>strchr\<close> stops at a NUL of the input.\<close>

function grep_lines :: "string \<Rightarrow> string \<Rightarrow> string \<times> string" where
  "grep_lines re p =
     (let s = takeWhile (\<lambda>c. c \<noteq> NUL) p in
      if newline \<in> set s then
        let l = takeWhile (\<lambda>c. c \<noteq> newline) p;
            (out, rest) = grep_lines re (drop (length l + 1) p)
        in ((if match re l then l @ [newline] else []) @ out, rest)
      else ([], p))"
  by pat_completeness auto
termination
proof (relation "measure (\<lambda>(re, p). length p)")
  fix re p s l
  assume "s = takeWhile (\<lambda>c. c \<noteq> NUL) p" "newline \<in> set s"
  then have "p \<noteq> []" by auto
  then show "((re, drop (length l + 1) p), re, p) \<in> measure (\<lambda>(re, p). length p)" by (cases p) auto
qed auto

declare grep_lines.simps [simp del]

text \<open>
  \<open>grep\<close> on a file with the characters \<open>inp\<close> to come: \<open>buf\<close> has 1024 bytes and holds \<open>left\<close>, and read number
  \<open>k\<close> returns at most \<open>chunk k\<close> of them, one at least unless the file has ended.
\<close>

function grep_loop :: "(nat \<Rightarrow> nat) \<Rightarrow> nat \<Rightarrow> string \<Rightarrow> string \<Rightarrow> string \<Rightarrow> string" where
  "grep_loop chunk k re left inp =
     (let n = min (min (max 1 (chunk k)) (1024 - length left - 1)) (length inp) in
      if 0 < n then
        let (out, rest) = grep_lines re (left @ take n inp) in
        out @ grep_loop chunk (Suc k) re rest (drop n inp)
      else [])"
  by pat_completeness auto
termination
  by (relation "measure (\<lambda>(chunk, k, re, left, inp). length inp)") auto

declare grep_loop.simps [simp del]

definition grep :: "(nat \<Rightarrow> nat) \<Rightarrow> string \<Rightarrow> string \<Rightarrow> string" where
  "grep chunk re inp = grep_loop chunk 0 re [] inp"

text \<open>\<open>main\<close>: what it prints on the standard output and on the standard error, and its exit status.\<close>

fun grep_files :: "(string \<Rightarrow> string option) \<Rightarrow> (nat \<Rightarrow> nat) \<Rightarrow> string \<Rightarrow> string list \<Rightarrow> string \<times> int" where
  "grep_files fs chunk re [] = ([], 0)"
| "grep_files fs chunk re (f # files) =
     (case fs f of
        None \<Rightarrow> (''grep: cannot open '' @ f @ [newline], 1)
      | Some inp \<Rightarrow> let (out, r) = grep_files fs chunk re files in (grep chunk re inp @ out, r))"

definition grep_main :: "(string \<Rightarrow> string option) \<Rightarrow> (nat \<Rightarrow> nat) \<Rightarrow> string \<Rightarrow> string list \<Rightarrow> string \<times> string \<times> int" where
  "grep_main fs chunk stdin argv =
     (if length argv \<le> 1 then ([], ''usage: grep pattern [file ...]'' @ [newline], 1)
      else if length argv \<le> 2 then (grep chunk (argv ! 1) stdin, [], 0)
      else let (out, r) = grep_files fs chunk (argv ! 1) (drop 2 argv) in (out, [], r))"

section \<open>What the patterns mean\<close>

datatype item = One char | Star char

fun items :: "string \<Rightarrow> item list" where
  "items [] = []"
| "items [c] = (if c = CHR ''$'' then [] else [One c])"
| "items (c # d # re) = (if d = CHR ''*'' then Star c # items re else One c # items (d # re))"

text \<open>Whether the pattern ends in an anchor.\<close>

fun anchored :: "string \<Rightarrow> bool" where
  "anchored [] = False"
| "anchored [c] = (c = CHR ''$'')"
| "anchored (c # d # re) = (if d = CHR ''*'' then anchored re else anchored (d # re))"

definition fits :: "char \<Rightarrow> char \<Rightarrow> bool" where
  "fits c x \<longleftrightarrow> c = CHR ''.'' \<or> x = c"

fun item_lang :: "item \<Rightarrow> string set" where
  "item_lang (One c) = {[x] | x. fits c x}"
| "item_lang (Star c) = {xs. \<forall>x \<in> set xs. fits c x}"

fun lang :: "item list \<Rightarrow> string set" where
  "lang [] = {[]}"
| "lang (i # is) = {xs @ ys | xs ys. xs \<in> item_lang i \<and> ys \<in> lang is}"

text \<open>The pattern describes a prefix of the text.\<close>

definition prefix_match :: "string \<Rightarrow> string \<Rightarrow> bool" where
  "prefix_match re t \<longleftrightarrow> (\<exists>p q. t = p @ q \<and> p \<in> lang (items re) \<and> (anchored re \<longrightarrow> q = []))"

lemma prefix_match_Nil: "prefix_match [] t" "prefix_match [CHR ''$''] t \<longleftrightarrow> t = []"
  by (simp_all add: prefix_match_def)

lemma prefix_match_Star:
  "prefix_match (c # CHR ''*'' # re) t \<longleftrightarrow> (\<exists>xs ys. t = xs @ ys \<and> (\<forall>x \<in> set xs. fits c x) \<and> prefix_match re ys)"
proof
  assume "prefix_match (c # CHR ''*'' # re) t"
  then obtain p q where "t = p @ q" "p \<in> lang (Star c # items re)" "anchored re \<longrightarrow> q = []"
    unfolding prefix_match_def by auto
  moreover from this(2) obtain xs ys where "p = xs @ ys" "\<forall>x \<in> set xs. fits c x" "ys \<in> lang (items re)" by auto
  ultimately have "t = xs @ ys @ q" "\<forall>x \<in> set xs. fits c x" "ys \<in> lang (items re)" "anchored re \<longrightarrow> q = []" by simp_all
  then show "\<exists>xs ys. t = xs @ ys \<and> (\<forall>x \<in> set xs. fits c x) \<and> prefix_match re ys"
    by (intro exI[of _ xs] exI[of _ "ys @ q"]) (auto simp: prefix_match_def)
next
  assume "\<exists>xs ys. t = xs @ ys \<and> (\<forall>x \<in> set xs. fits c x) \<and> prefix_match re ys"
  then obtain xs p q where "t = xs @ p @ q" "\<forall>x \<in> set xs. fits c x" "p \<in> lang (items re)" "anchored re \<longrightarrow> q = []"
    unfolding prefix_match_def by auto
  then show "prefix_match (c # CHR ''*'' # re) t"
    unfolding prefix_match_def by (intro exI[of _ "xs @ p"] exI[of _ q]) auto
qed

lemma prefix_match_One:
  assumes "at0 re 0 \<noteq> CHR ''*''" "\<not> (c = CHR ''$'' \<and> re = [])"
  shows "prefix_match (c # re) t \<longleftrightarrow> t \<noteq> [] \<and> fits c (hd t) \<and> prefix_match re (tl t)"
proof -
  have i: "items (c # re) = One c # items re" "anchored (c # re) = anchored re"
    using assms by (cases re; auto simp: at0_def)+
  show ?thesis
  proof
    assume "prefix_match (c # re) t"
    then obtain p q where "t = p @ q" "p \<in> lang (One c # items re)" "anchored re \<longrightarrow> q = []"
      unfolding prefix_match_def i by blast
    moreover from this(2) obtain x ys where "p = x # ys" "fits c x" "ys \<in> lang (items re)" by auto
    ultimately show "t \<noteq> [] \<and> fits c (hd t) \<and> prefix_match re (tl t)" by (auto simp: prefix_match_def)
  next
    assume "t \<noteq> [] \<and> fits c (hd t) \<and> prefix_match re (tl t)"
    then obtain x p q where "t = (x # p) @ q" "fits c x" "p \<in> lang (items re)" "anchored re \<longrightarrow> q = []"
      unfolding prefix_match_def by (cases t) auto
    moreover from this have "x # p \<in> lang (One c # items re)" by simp (rule exI[of _ "[x]"], simp)
    ultimately show "prefix_match (c # re) t" unfolding prefix_match_def i by blast
  qed
qed

lemma star_unfold:
  "(\<exists>xs ys. t = xs @ ys \<and> (\<forall>x \<in> set xs. fits c x) \<and> P ys) \<longleftrightarrow>
     P t \<or> (t \<noteq> [] \<and> fits c (hd t) \<and> (\<exists>xs ys. tl t = xs @ ys \<and> (\<forall>x \<in> set xs. fits c x) \<and> P ys))"
  (is "?L t \<longleftrightarrow> P t \<or> (t \<noteq> [] \<and> fits c (hd t) \<and> ?L (tl t))")
proof
  assume "?L t"
  then obtain xs ys where "t = xs @ ys" "\<forall>x \<in> set xs. fits c x" "P ys" by blast
  then show "P t \<or> (t \<noteq> [] \<and> fits c (hd t) \<and> ?L (tl t))" by (cases xs) auto
next
  assume "P t \<or> (t \<noteq> [] \<and> fits c (hd t) \<and> ?L (tl t))"
  then show "?L t"
  proof
    assume "t \<noteq> [] \<and> fits c (hd t) \<and> ?L (tl t)"
    then obtain x xs ys where "t = x # xs @ ys" "fits c x" "\<forall>x \<in> set xs. fits c x" "P ys" by (cases t) auto
    then show ?thesis by (intro exI[of _ "x # xs"] exI[of _ ys]) simp
  qed (intro exI[of _ "[]"] exI[of _ t], simp)
qed

lemma matcher_correct:
  "NUL \<notin> set re \<Longrightarrow> matchhere re t = prefix_match re t"
  "NUL \<notin> set re \<Longrightarrow> matchstar c re t = (\<exists>xs ys. t = xs @ ys \<and> (\<forall>x \<in> set xs. fits c x) \<and> prefix_match re ys)"
proof (induction re t and c re t rule: matchhere_matchstar.induct)
  case (1 re t)
  consider "re = []" | c r where "re = c # CHR ''*'' # r" | "re = [CHR ''$'']"
    | c r where "re = c # r" "at0 r 0 \<noteq> CHR ''*''" "\<not> (c = CHR ''$'' \<and> r = [])"
    by (cases re rule: items.cases) (auto simp: at0_def)
  then show ?case
  proof cases
    case (2 c r)
    then show ?thesis using 1 by (simp add: matchhere.simps[of "c # CHR ''*'' # r"] prefix_match_Star at0_def)
  next
    case (4 c r)
    have a: "at0 re 1 = at0 r 0" "at0 re 0 = c" using 4(1) by (auto simp: at0_def)
    have "r = [] \<or> hd r \<in> set r" by (cases r) simp_all
    then have nul: "at0 r 0 = NUL \<longleftrightarrow> r = []" using 1(3) 4(1) by (auto simp: at0_def hd_conv_nth)
    have h: "at0 t 0 = hd t" if "t \<noteq> []" using that by (simp add: at0_def hd_conv_nth)
    have "matchhere r (tl t) = prefix_match r (tl t)" if "t \<noteq> []" "fits c (hd t)"
    proof -
      have "at0 re 1 \<noteq> CHR ''*''" "\<not> (at0 re 0 = CHR ''$'' \<and> at0 re 1 = NUL)" "at0 re 0 = CHR ''.'' \<or> at0 re 0 = at0 t 0"
        using that 4 a nul h by (auto simp: fits_def)
      then show ?thesis using 1(2) 1(3) that(1) 4(1) by simp
    qed
    moreover have "matchhere re t = (t \<noteq> [] \<and> fits c (hd t) \<and> matchhere r (tl t))"
      using 4 a nul h by (subst matchhere.simps) (auto simp: fits_def)
    ultimately show ?thesis using prefix_match_One[OF 4(2,3), of t] 4(1) by auto
  qed (simp_all add: matchhere.simps prefix_match_Nil at0_def)
next
  case (2 c re t)
  have "fits c (hd t) = (at0 t 0 = c \<or> c = CHR ''.'')" if "t \<noteq> []" using that by (cases t) (auto simp: fits_def at0_def)
  then show ?case using 2 star_unfold[of t c "prefix_match re"] by (auto simp: matchstar.simps[of c re t])
qed

section \<open>Lines\<close>

text \<open>The lines that end, and what comes after the last of them.\<close>

function full_lines :: "string \<Rightarrow> string list \<times> string" where
  "full_lines p =
     (if newline \<in> set p then
        let l = takeWhile (\<lambda>c. c \<noteq> newline) p; (ls, rest) = full_lines (drop (length l + 1) p) in (l # ls, rest)
      else ([], p))"
  by pat_completeness auto
termination
proof (relation "measure length")
  fix p and l :: string
  assume "newline \<in> set p"
  then have "p \<noteq> []" by auto
  then show "(drop (length l + 1) p, p) \<in> measure length" by (cases p) auto
qed auto

declare full_lines.simps [simp del]

definition grep_out :: "string \<Rightarrow> string list \<Rightarrow> string" where
  "grep_out re ls = concat (map (\<lambda>l. if match re l then l @ [newline] else []) ls)"

lemma grep_lines_full: "NUL \<notin> set p \<Longrightarrow> grep_lines re p = (grep_out re (fst (full_lines p)), snd (full_lines p))"
proof (induction p rule: full_lines.induct)
  case (1 p)
  have t: "takeWhile (\<lambda>c. c \<noteq> NUL) p = p" using 1(2) by (auto simp: takeWhile_eq_all_conv)
  have d: "NUL \<notin> set (drop (Suc (length (takeWhile (\<lambda>c. c \<noteq> newline) p))) p)" using 1(2) by (meson in_set_dropD)
  show ?case
    using 1(1)[OF _ refl] d
    by (cases "newline \<in> set p")
      (simp_all add: grep_lines.simps[of re p] full_lines.simps[of p] t Let_def split_beta grep_out_def)
qed

lemma full_lines_append:
  "full_lines (p @ q) = (fst (full_lines p) @ fst (full_lines (snd (full_lines p) @ q)), snd (full_lines (snd (full_lines p) @ q)))"
proof (induction p rule: full_lines.induct)
  case (1 p)
  show ?case
  proof (cases "newline \<in> set p")
    case True
    define l where "l = takeWhile (\<lambda>c. c \<noteq> newline) p"
    define d where "d = drop (length l + 1) p"
    have l: "takeWhile (\<lambda>c. c \<noteq> newline) (p @ q) = l" using True by (auto simp: l_def takeWhile_append1)
    have "length l < length p"
      unfolding l_def using True by (induction p) auto
    then have d: "drop (length l + 1) (p @ q) = d @ q" by (simp add: d_def)
    have "full_lines p = (l # fst (full_lines d), snd (full_lines d))"
      by (subst full_lines.simps) (simp add: True l_def[symmetric] Let_def split_beta d_def)
    moreover have "full_lines (p @ q) = (l # fst (full_lines (d @ q)), snd (full_lines (d @ q)))"
      by (subst full_lines.simps) (use True l d in \<open>simp add: Let_def split_beta\<close>)
    ultimately show ?thesis using 1[OF True l_def, folded d_def] by simp
  next
    case False
    then have "full_lines p = ([], p)" by (subst full_lines.simps) simp
    then show ?thesis by simp
  qed
qed

lemma full_lines_rest: "newline \<notin> set (snd (full_lines p))"
  by (induction p rule: full_lines.induct) (subst full_lines.simps, simp add: Let_def split_beta)

lemma full_lines_set: "set (snd (full_lines p)) \<subseteq> set p"
proof (induction p rule: full_lines.induct)
  case (1 p)
  show ?case
    using 1[OF _ refl] by (subst full_lines.simps) (auto simp: Let_def split_beta dest!: in_set_dropD subsetD)
qed

lemma grep_loop_lines:
  assumes "newline \<notin> set left" "NUL \<notin> set (left @ inp)" "\<forall>l \<in> set (fst (full_lines (left @ inp))). length l < 1023"
  shows "grep_loop chunk k re left inp = grep_out re (fst (full_lines (left @ inp)))"
  using assms
proof (induction chunk k re left inp rule: grep_loop.induct)
  case (1 chunk k re left inp)
  define n where "n = min (min (max 1 (chunk k)) (1024 - length left - 1)) (length inp)"
  show ?case
  proof (cases "0 < n")
    case True
    define x where "x = left @ take n inp"
    have x: "left @ inp = x @ drop n inp" by (simp add: x_def)
    have nz: "NUL \<notin> set x" "NUL \<notin> set (drop n inp)" using 1(3) by (auto simp: x_def dest: in_set_takeD in_set_dropD)
    define r where "r = snd (full_lines x)"
    have L: "fst (full_lines (left @ inp)) = fst (full_lines x) @ fst (full_lines (r @ drop n inp))"
      unfolding x full_lines_append[of x "drop n inp"] r_def by simp
    have "grep_loop chunk (Suc k) re r (drop n inp) = grep_out re (fst (full_lines (r @ drop n inp)))"
      by (rule 1(1)[OF n_def True, of _ "grep_out re (fst (full_lines x))" r, folded x_def])
        (use nz full_lines_set[of x] full_lines_rest[of x] 1(4) L in \<open>auto simp: grep_lines_full r_def\<close>)
    moreover have "grep_lines re x = (grep_out re (fst (full_lines x)), r)" by (simp add: grep_lines_full nz(1) r_def)
    ultimately show ?thesis
      by (simp only: grep_loop.simps[of chunk k re left inp] Let_def n_def[symmetric] x_def[symmetric] True if_True L prod.case)
        (simp add: grep_out_def)
  next
    case False
    then have n: "n = 0" by simp
    have "newline \<notin> set (left @ inp)"
    proof
      assume nl: "newline \<in> set (left @ inp)"
      with 1(2) False have "1023 \<le> length left" by (auto simp: n_def)
      moreover have "length (takeWhile (\<lambda>c. c \<noteq> newline) (left @ inp)) \<ge> length left" using 1(2) by (simp add: takeWhile_append)
      moreover have "takeWhile (\<lambda>c. c \<noteq> newline) (left @ inp) \<in> set (fst (full_lines (left @ inp)))"
        using nl by (subst full_lines.simps) (simp add: Let_def split_beta)
      ultimately show False using 1(4) by fastforce
    qed
    then have "fst (full_lines (left @ inp)) = []" by (subst full_lines.simps) simp
    then show ?thesis
      by (simp only: grep_loop.simps[of chunk k re left inp] Let_def n_def[symmetric] False if_False) (simp add: grep_out_def)
  qed
qed

lemma grep_correct:
  assumes "NUL \<notin> set inp" "\<forall>l \<in> set (fst (full_lines inp)). length l < 1023"
  shows "grep chunk re inp = grep_out re (fst (full_lines inp))"
  using grep_loop_lines[of "[]" inp chunk 0 re] assms by (simp add: grep_def)

text \<open>\<open>match\<close> finds the pattern anywhere in the text, or at its start.\<close>

lemma match_loop_correct: "NUL \<notin> set re \<Longrightarrow> match_loop re t = (\<exists>u v. t = u @ v \<and> prefix_match re v)"
proof (induction t)
  case Nil
  then show ?case by (simp add: matcher_correct)
next
  case (Cons c t)
  then show ?case by (auto simp: matcher_correct Cons_eq_append_conv)
qed

lemma match_correct:
  assumes "NUL \<notin> set re"
  shows "match re t = (if re \<noteq> [] \<and> hd re = CHR ''^'' then prefix_match (tl re) t else \<exists>u v. t = u @ v \<and> prefix_match re v)"
proof -
  have "at0 re 0 = CHR ''^'' \<longleftrightarrow> re \<noteq> [] \<and> hd re = CHR ''^''" by (cases re) (auto simp: at0_def)
  moreover have "NUL \<notin> set (tl re)" using assms by (cases re) auto
  ultimately show ?thesis using assms by (simp add: match_def matcher_correct match_loop_correct)
qed

end
