(* ===== verification/U_Sh.thy ===== *)
theory U_Sh
  imports Prelude
begin

text \<open>
  \<open>xv6/user/sh.c\<close>: the shell of xv6.  The parser runs on the characters of the line that are left; a token is
  the string it spells, as \<open>nulterminate\<close> leaves it.  \<open>n\<close> bounds the depth of its calls.
\<close>

section \<open>Commands\<close>

text \<open>The modes of a redirection are read, write and truncate, and write.\<close>

datatype mode = M_read | M_trunc | M_append

datatype cmd =
    Exec "string list" | Redir cmd string mode nat | Pipe cmd cmd | Lst cmd cmd | Back cmd

definition MAXARGS :: nat where "MAXARGS = 10"

section \<open>Tokens\<close>

definition whitespace :: string where
  "whitespace = [CHR '' '', CHR 0x09, CHR 0x0D, CHR 0x0A, CHR 0x0B]"

definition symbols :: string where
  "symbols = ''<|>&;()''"

definition skip_white :: "string \<Rightarrow> string" where
  "skip_white s = dropWhile (\<lambda>c. c \<in> set whitespace) s"

definition word_char :: "char \<Rightarrow> bool" where
  "word_char c \<longleftrightarrow> c \<notin> set whitespace \<and> c \<notin> set symbols"

text \<open>The kind of the token, as the code names it, its text and what follows; kind NUL is the end.\<close>

definition gettoken :: "string \<Rightarrow> char \<times> string \<times> string" where
  "gettoken s =
     (case skip_white s of
        [] \<Rightarrow> (CHR 0x00, [], [])
      | c # r \<Rightarrow>
          if c \<in> set ''|();&<'' then (c, [c], skip_white r)
          else if c = CHR ''>'' then
            (if r \<noteq> [] \<and> hd r = CHR ''>'' then (CHR ''+'', ''>>'', skip_white (tl r)) else (CHR ''>'', [c], skip_white r))
          else (CHR ''a'', takeWhile word_char (c # r), skip_white (dropWhile word_char (c # r))))"

definition peek_tok :: "string \<Rightarrow> string \<Rightarrow> bool" where
  "peek_tok s toks \<longleftrightarrow> skip_white s \<noteq> [] \<and> hd (skip_white s) \<in> set toks"

text \<open>What the parser looks for.\<close>

definition redir_ahead :: "string \<Rightarrow> bool" where "redir_ahead s = peek_tok s ''<>''"
definition args_end :: "string \<Rightarrow> bool" where "args_end s = peek_tok s ''|)&;''"
definition amp_ahead :: "string \<Rightarrow> bool" where "amp_ahead s = peek_tok s ''&''"
definition semi_ahead :: "string \<Rightarrow> bool" where "semi_ahead s = peek_tok s '';''"
definition bar_ahead :: "string \<Rightarrow> bool" where "bar_ahead s = peek_tok s ''|''"
definition open_ahead :: "string \<Rightarrow> bool" where "open_ahead s = peek_tok s ''(''"
definition close_ahead :: "string \<Rightarrow> bool" where "close_ahead s = peek_tok s '')''"

definition redir_of :: "char \<Rightarrow> cmd \<Rightarrow> string \<Rightarrow> cmd" where
  "redir_of tok c f =
     (if tok = CHR ''<'' then Redir c f M_read 0
      else if tok = CHR ''>'' then Redir c f M_trunc 1
      else Redir c f M_append 1)"

definition skip_token :: "string \<Rightarrow> string" where
  "skip_token s = snd (snd (gettoken s))"

section \<open>The parser\<close>

fun parseredirs :: "nat \<Rightarrow> cmd \<Rightarrow> string \<Rightarrow> (cmd \<times> string) res" where
  "parseredirs 0 c s = Spin"
| "parseredirs (Suc n) c s =
     (let s = skip_white s in
      if redir_ahead s then
        let (tok, _, s) = gettoken s; (k, f, s) = gettoken s in
        if k \<noteq> CHR ''a'' then Panic ''missing file for redirection''
        else
          parseredirs n (redir_of tok c f) s
      else Ok (c, s))"

text \<open>The command under the redirections of \<open>ret\<close> is the one whose \<open>argv\<close> the loop of \<open>parseexec\<close> fills.\<close>

fun add_arg :: "string \<Rightarrow> cmd \<Rightarrow> cmd" where
  "add_arg w (Exec ws) = Exec (ws @ [w])"
| "add_arg w (Redir c f m fd) = Redir (add_arg w c) f m fd"
| "add_arg w c = c"

fun parsewords :: "nat \<Rightarrow> nat \<Rightarrow> cmd \<Rightarrow> string \<Rightarrow> (cmd \<times> string) res" where
  "parsewords 0 argc c s = Spin"
| "parsewords (Suc n) argc c s =
     (let s = skip_white s in
      if args_end s then Ok (c, s)
      else
        let (k, w, s) = gettoken s in
        if k = CHR 0x00 then Ok (c, s)
        else if k \<noteq> CHR ''a'' then Panic ''syntax''
        else if MAXARGS \<le> argc + 1 then Panic ''too many args''
        else bnd (parseredirs n (add_arg w c) s) (\<lambda>(c, s). parsewords n (argc + 1) c s))"

text \<open>The loop of \<open>parseline\<close> over the ampersands.\<close>

fun parseback :: "nat \<Rightarrow> cmd \<Rightarrow> string \<Rightarrow> (cmd \<times> string) res" where
  "parseback 0 c s = Spin"
| "parseback (Suc n) c s =
     (let s = skip_white s in
      if amp_ahead s then parseback n (Back c) (skip_token s)
      else Ok (c, s))"

fun parseline :: "nat \<Rightarrow> string \<Rightarrow> (cmd \<times> string) res"
  and parsepipe :: "nat \<Rightarrow> string \<Rightarrow> (cmd \<times> string) res"
  and parseexec :: "nat \<Rightarrow> string \<Rightarrow> (cmd \<times> string) res"
  and parseblock :: "nat \<Rightarrow> string \<Rightarrow> (cmd \<times> string) res" where
  "parseline 0 s = Spin"
| "parseline (Suc n) s =
     bnd (parsepipe n s) (\<lambda>(c, s).
     bnd (parseback n c s) (\<lambda>(c, s).
       let s = skip_white s in
       if semi_ahead s then
         bnd (parseline n (skip_token s)) (\<lambda>(d, s). Ok (Lst c d, s))
       else Ok (c, s)))"
| "parsepipe 0 s = Spin"
| "parsepipe (Suc n) s =
     bnd (parseexec n s) (\<lambda>(c, s).
       let s = skip_white s in
       if bar_ahead s then
         bnd (parsepipe n (skip_token s)) (\<lambda>(d, s). Ok (Pipe c d, s))
       else Ok (c, s))"
| "parseexec 0 s = Spin"
| "parseexec (Suc n) s =
     (let s = skip_white s in
      if open_ahead s then parseblock n s
      else bnd (parseredirs n (Exec []) s) (\<lambda>(c, s). parsewords n 0 c s))"
| "parseblock 0 s = Spin"
| "parseblock (Suc n) s =
     (let s = skip_white s in
      if \<not> open_ahead s then Panic ''parseblock''
      else
        bnd (parseline n (skip_token s)) (\<lambda>(c, s).
          let s = skip_white s in
          if \<not> close_ahead s then Panic ''syntax - missing )''
          else parseredirs n c (skip_token s)))"

text \<open>Four calls take one character at least, so this depth is enough.  A panic says what the parser prints.\<close>

definition parse_depth :: "string \<Rightarrow> nat" where
  "parse_depth s = 4 * length s + 9"

definition parsecmd :: "string \<Rightarrow> cmd res" where
  "parsecmd s =
     bnd (parseline (parse_depth s) s) (\<lambda>(c, s).
       let s = skip_white s in
       if s \<noteq> [] then Panic (''leftovers: '' @ s @ [CHR 0x0A] @ ''syntax'') else Ok c)"


section \<open>The parser comes to an end\<close>

lemma length_skip_white: "length (skip_white s) \<le> length s"
  by (simp add: skip_white_def length_dropWhile_le)

lemma skip_white_idem [simp]: "skip_white (skip_white s) = skip_white s"
  by (simp add: skip_white_def dropWhile_eq_self_iff hd_dropWhile)

lemma ahead_skip [simp]: "peek_tok (skip_white s) T = peek_tok s T" "gettoken (skip_white s) = gettoken s"
  by (simp_all add: peek_tok_def gettoken_def)

lemma aheads_skip [simp]:
  "redir_ahead (skip_white s) = redir_ahead s" "args_end (skip_white s) = args_end s" "amp_ahead (skip_white s) = amp_ahead s"
  "semi_ahead (skip_white s) = semi_ahead s" "bar_ahead (skip_white s) = bar_ahead s" "open_ahead (skip_white s) = open_ahead s"
  "close_ahead (skip_white s) = close_ahead s" "skip_token (skip_white s) = skip_token s"
  by (simp_all add: redir_ahead_def args_end_def amp_ahead_def semi_ahead_def bar_ahead_def open_ahead_def close_ahead_def skip_token_def)

lemma gettoken_le: "length (snd (snd (gettoken s))) \<le> length s"
  and gettoken_less: "skip_white s \<noteq> [] \<Longrightarrow> length (snd (snd (gettoken s))) < length s"
proof -
  have l: "length (snd (snd (gettoken s))) < length (skip_white s)" if n: "skip_white s \<noteq> []"
  proof -
    obtain c r where c: "skip_white s = c # r" using n by (cases "skip_white s") auto
    have "c \<notin> set whitespace" using hd_dropWhile[OF n[unfolded skip_white_def]] c by (simp add: skip_white_def)
    then have w: "c \<notin> set ''|();&<'' \<Longrightarrow> c \<noteq> CHR ''>'' \<Longrightarrow> word_char c" by (auto simp: word_char_def symbols_def)
    have a: "length (skip_white (dropWhile word_char (c # r))) < Suc (length r)" if "word_char c"
      using that length_skip_white[of "dropWhile word_char r"] length_dropWhile_le[of word_char r] by simp
    have b: "length (skip_white (tl r)) < Suc (length r)" "length (skip_white r) < Suc (length r)"
      using length_skip_white[of "tl r"] length_skip_white[of r] by simp_all
    show ?thesis unfolding gettoken_def c list.case
      by (cases "c \<in> set ''|();&<''"; cases "c = CHR ''>''"; cases "r \<noteq> [] \<and> hd r = CHR ''>''") (use a b w in \<open>simp_all only: if_True if_False snd_conv list.size simp_thms add_Suc_right add_0_right\<close>)
  qed
  then show "length (snd (snd (gettoken s))) \<le> length s"
    using length_skip_white[of s] by (cases "skip_white s = []") (force simp: gettoken_def)+
  show "skip_white s \<noteq> [] \<Longrightarrow> length (snd (snd (gettoken s))) < length s"
    using l length_skip_white[of s] by linarith
qed

lemma skip_token_less: "peek_tok s T \<Longrightarrow> length (skip_token s) < length s"
  using gettoken_less by (simp add: peek_tok_def skip_token_def)

lemma aheads_less:
  "redir_ahead s \<Longrightarrow> length (skip_token s) < length s" "amp_ahead s \<Longrightarrow> length (skip_token s) < length s"
  "semi_ahead s \<Longrightarrow> length (skip_token s) < length s" "bar_ahead s \<Longrightarrow> length (skip_token s) < length s"
  "open_ahead s \<Longrightarrow> length (skip_token s) < length s" "close_ahead s \<Longrightarrow> length (skip_token s) < length s"
  using skip_token_less by (auto simp: redir_ahead_def amp_ahead_def semi_ahead_def bar_ahead_def open_ahead_def close_ahead_def)

text \<open>A parser that does not run out of depth and leaves no more than it was given.\<close>

definition done_in :: "(cmd \<times> string) res \<Rightarrow> nat \<Rightarrow> bool" where
  "done_in m k \<longleftrightarrow> m \<noteq> Spin \<and> (\<forall>e. m \<noteq> Undef e) \<and> (\<forall>c s. m = Ok (c, s) \<longrightarrow> length s \<le> k)"

lemma done_in_simps [simp]: "done_in (Ok (c, s)) k = (length s \<le> k)" "done_in (Panic e) k" "\<not> done_in Spin k" "\<not> done_in (Undef e) k"
  by (auto simp: done_in_def)

lemma done_in_bnd: "done_in m k \<Longrightarrow> (\<And>c s. length s \<le> k \<Longrightarrow> done_in (f (c, s)) j) \<Longrightarrow> done_in (bnd m f) j"
  by (cases m) (auto simp: done_in_def)

lemma done_in_less: "done_in m j \<Longrightarrow> j \<le> k \<Longrightarrow> done_in m k"
  by (fastforce simp: done_in_def)

lemma parseredirs_done: "length s < n \<Longrightarrow> done_in (parseredirs n c s) (length s)"
proof (induction n arbitrary: c s)
  case (Suc n)
  show ?case
  proof (cases "redir_ahead s")
    case True
    obtain tok x s1 where t: "gettoken s = (tok, x, s1)" by (cases "gettoken s") auto
    obtain k f s2 where u: "gettoken s1 = (k, f, s2)" by (cases "gettoken s1") auto
    have l: "length s1 < length s" "length s2 \<le> length s1"
      using aheads_less(1)[OF True] gettoken_le[of s1] by (simp_all add: skip_token_def t u)
    have "done_in (parseredirs n (redir_of tok c f) s2) (length s)"
      by (rule done_in_less[OF Suc.IH]) (use l Suc.prems in simp_all)
    then show ?thesis using True by (simp add: t u)
  qed (use length_skip_white in simp)
qed simp

lemma parseredirs_skip: "parseredirs n c (skip_white s) = parseredirs n c s"
  by (cases n) simp_all

lemma parseback_done: "length s < n \<Longrightarrow> done_in (parseback n c s) (length s)"
proof (induction n arbitrary: c s)
  case (Suc n)
  show ?case
  proof (cases "amp_ahead s")
    case True
    have "done_in (parseback n (Back c) (skip_token s)) (length s)"
      by (rule done_in_less[OF Suc.IH]) (use aheads_less(2)[OF True] Suc.prems in simp_all)
    then show ?thesis using True by simp
  qed (use length_skip_white in simp)
qed simp

lemma parsewords_done: "length s < n \<Longrightarrow> done_in (parsewords n argc c s) (length s)"
proof (induction n arbitrary: argc c s)
  case (Suc n)
  obtain k w s1 where t: "gettoken s = (k, w, s1)" by (cases "gettoken s") auto
  have k: "k = CHR 0x00" if "skip_white s = []" using that t by (simp add: gettoken_def)
  have l: "length s1 < length s" if "k \<noteq> CHR 0x00" using gettoken_less[of s] k that by (auto simp: t)
  have "done_in (bnd (parseredirs n (add_arg w c) s1) (\<lambda>(c, s). parsewords n (argc + 1) c s)) (length s)" if "k \<noteq> CHR 0x00"
  proof (rule done_in_bnd[OF parseredirs_done])
    show "length s1 < n" using l[OF that] Suc.prems by simp
    fix d and s2 :: string assume "length s2 \<le> length s1"
    then show "done_in (case (d, s2) of (c, s) \<Rightarrow> parsewords n (argc + 1) c s) (length s)"
      using done_in_less[OF Suc.IH[of s2 "argc + 1" d]] l[OF that] Suc.prems by simp
  qed
  then show ?case using length_skip_white[of s] gettoken_le[of s] by (simp add: t Let_def)
qed simp

lemma parser_done:
  "4 * length s + 4 \<le> n \<Longrightarrow> done_in (parseline n s) (length s)"
  "4 * length s + 3 \<le> n \<Longrightarrow> done_in (parsepipe n s) (length s)"
  "4 * length s + 2 \<le> n \<Longrightarrow> done_in (parseexec n s) (length s)"
  "open_ahead s \<Longrightarrow> 4 * length s + 1 \<le> n \<Longrightarrow> done_in (parseblock n s) (length s)"
proof (induction n arbitrary: s)
  case (Suc n)
  note ls = length_skip_white
  {
    case 1
    have "done_in (bnd (parseback n c s1) (\<lambda>(c, s).
        let s = skip_white s in
        if semi_ahead s then bnd (parseline n (skip_token s)) (\<lambda>(d, s). Ok (Lst c d, s)) else Ok (c, s))) (length s)"
      if "length s1 \<le> length s" for c s1
    proof (rule done_in_bnd[OF parseback_done])
      show "length s1 < n" using that 1 by simp
      fix c and s2 :: string assume l: "length s2 \<le> length s1"
      show "done_in (case (c, s2) of (c, s) \<Rightarrow> let s = skip_white s in
          if semi_ahead s then bnd (parseline n (skip_token s)) (\<lambda>(d, s). Ok (Lst c d, s)) else Ok (c, s)) (length s)"
      proof (cases "semi_ahead s2")
        case True
        note a = aheads_less(3)[OF True]
        have "done_in (bnd (parseline n (skip_token s2)) (\<lambda>(d, s). Ok (Lst c d, s))) (length s)"
          by (rule done_in_bnd[OF Suc.IH(1)]) (use a l that 1 in auto)
        then show ?thesis using True by simp
      qed (use l that ls[of s2] in simp)
    qed
    then show ?case using 1 by (auto intro!: done_in_bnd[OF Suc.IH(2)[of s]])
  next
    case 2
    have "done_in (let s1 = skip_white s1 in
        if bar_ahead s1 then bnd (parsepipe n (skip_token s1)) (\<lambda>(d, s). Ok (Pipe c d, s)) else Ok (c, s1)) (length s)"
      if "length s1 \<le> length s" for c s1
    proof (cases "bar_ahead s1")
      case True
      note a = aheads_less(4)[OF True]
      have "done_in (bnd (parsepipe n (skip_token s1)) (\<lambda>(d, s). Ok (Pipe c d, s))) (length s)"
        by (rule done_in_bnd[OF Suc.IH(2)]) (use a that 2 in auto)
      then show ?thesis using True by simp
    qed (use that ls[of s1] in simp)
    then show ?case using 2 by (auto intro!: done_in_bnd[OF Suc.IH(3)[of s]])
  next
    case 3
    have "done_in (bnd (parseredirs n (Exec []) s) (\<lambda>(c, s). parsewords n 0 c s)) (length s)"
    proof (rule done_in_bnd[OF parseredirs_done])
      show "length s < n" using 3 by simp
      fix c and s1 :: string assume "length s1 \<le> length s"
      then show "done_in (case (c, s1) of (c, s) \<Rightarrow> parsewords n 0 c s) (length s)"
        using done_in_less[OF parsewords_done[of s1 n 0 c]] 3 by simp
    qed
    then show ?case using 3 done_in_less[OF Suc.IH(4)[of "skip_white s"], of "length s"] ls[of s]
      by (simp add: parseredirs_skip Let_def)
  next
    case 4
    note a = aheads_less(5)[OF 4(1)]
    have "done_in (bnd (parseline n (skip_token s)) (\<lambda>(c, s).
        let s = skip_white s in
        if \<not> close_ahead s then Panic ''syntax - missing )'' else parseredirs n c (skip_token s))) (length s)"
    proof (rule done_in_bnd[OF Suc.IH(1)])
      show "4 * length (skip_token s) + 4 \<le> n" using a 4 by simp
      fix c and s1 :: string assume l: "length s1 \<le> length (skip_token s)"
      then show "done_in (case (c, s1) of (c, s) \<Rightarrow> let s = skip_white s in
          if \<not> close_ahead s then Panic ''syntax - missing )'' else parseredirs n c (skip_token s)) (length s)"
        using done_in_less[OF parseredirs_done[of "skip_token s1" n c], of "length s"] aheads_less(6)[of s1] a 4 by (cases "close_ahead s1") simp_all
    qed
    then show ?case using 4 by simp
  }
qed simp_all


lemma parsecmd_done: "parsecmd s \<noteq> Spin" "parsecmd s \<noteq> Undef e"
proof -
  have "done_in (parseline (parse_depth s) s) (length s)" by (rule parser_done(1)) (simp add: parse_depth_def)
  then show "parsecmd s \<noteq> Spin" "parsecmd s \<noteq> Undef e"
    by (cases "parseline (parse_depth s) s"; auto simp: parsecmd_def done_in_def Let_def split: if_splits)+
qed

section \<open>Writing a command down\<close>

text \<open>Redirections in the order in which they are written, the innermost first.\<close>

definition redir_text :: "string \<Rightarrow> mode \<Rightarrow> string" where
  "redir_text f m = (case m of M_read \<Rightarrow> '' < '' | M_trunc \<Rightarrow> '' > '' | M_append \<Rightarrow> '' >> '') @ f"

definition words_text :: "string list \<Rightarrow> string" where
  "words_text ws = concat (map (\<lambda>w. CHR '' '' # w) ws)"

text \<open>At the level of \<open>parseexec\<close>, of \<open>parsepipe\<close>, of the loop over the ampersands, and of \<open>parseline\<close>.\<close>

fun level :: "cmd \<Rightarrow> nat" where
  "level (Exec _) = 0"
| "level (Redir _ _ _ _) = 0"
| "level (Pipe _ _) = 1"
| "level (Back _) = 2"
| "level (Lst _ _) = 3"

fun text_of :: "nat \<Rightarrow> cmd \<Rightarrow> string" where
  "text_of l (Exec ws) = words_text ws"
| "text_of l (Redir c f m fd) = text_of 0 c @ redir_text f m"
| "text_of l (Pipe c d) =
     (if l < 1 then '' ('' @ text_of 0 c @ '' |'' @ text_of 1 d @ '' )'' else text_of 0 c @ '' |'' @ text_of 1 d)"
| "text_of l (Back c) =
     (if l < 2 then '' ('' @ text_of 2 c @ '' &'' @ '' )'' else text_of 2 c @ '' &'')"
| "text_of l (Lst c d) =
     (if l < 3 then '' ('' @ text_of 2 c @ '' ;'' @ text_of 3 d @ '' )'' else text_of 2 c @ '' ;'' @ text_of 3 d)"

definition unparse :: "cmd \<Rightarrow> string" where
  "unparse c = text_of 3 c"

definition word_ok :: "string \<Rightarrow> bool" where
  "word_ok w \<longleftrightarrow> w \<noteq> [] \<and> (\<forall>c \<in> set w. word_char c)"

fun fd_of :: "mode \<Rightarrow> nat" where
  "fd_of M_read = 0"
| "fd_of M_trunc = 1"
| "fd_of M_append = 1"

fun cmd_ok :: "cmd \<Rightarrow> bool" where
  "cmd_ok (Exec ws) = (length ws < MAXARGS \<and> (\<forall>w \<in> set ws. word_ok w))"
| "cmd_ok (Redir c f m fd) = (cmd_ok c \<and> word_ok f \<and> fd = fd_of m)"
| "cmd_ok (Pipe c d) = (cmd_ok c \<and> cmd_ok d)"
| "cmd_ok (Back c) = cmd_ok c"
| "cmd_ok (Lst c d) = (cmd_ok c \<and> cmd_ok d)"

section \<open>Reading it back\<close>

text \<open>A text at which a word ends.\<close>

definition bound :: "string \<Rightarrow> bool" where
  "bound t \<longleftrightarrow> t = [] \<or> \<not> word_char (hd t)"

lemma skip_space [simp]: "skip_white (CHR '' '' # s) = skip_white s"
  by (simp add: skip_white_def whitespace_def)

lemma skip_symbol: "c \<in> set symbols \<Longrightarrow> skip_white (c # s) = c # s"
  by (auto simp: skip_white_def whitespace_def symbols_def)

lemma skip_word: "word_ok w \<Longrightarrow> skip_white (w @ s) = w @ s"
  by (cases w) (auto simp: skip_white_def word_ok_def word_char_def)

lemma not_word_space [simp]: "\<not> word_char (CHR '' '')"
  by (simp add: word_char_def whitespace_def)

lemma gettoken_word:
  assumes "word_ok w" "bound t" shows "gettoken (w @ t) = (CHR ''a'', w, skip_white t)"
proof -
  obtain c r where w: "w = c # r" "word_char c" using assms(1) by (cases w) (auto simp: word_ok_def)
  have c: "c \<notin> set ''|();&<''" "c \<noteq> CHR ''>''" using w(2) by (auto simp: word_char_def symbols_def)
  have s: "skip_white (w @ t) = c # (r @ t)" using skip_word[OF assms(1)] w by simp
  have t: "takeWhile word_char t = []" "dropWhile word_char t = t" using assms(2) by (cases t; simp add: bound_def)+
  have "takeWhile word_char (w @ t) = w" "dropWhile word_char (w @ t) = t"
    using assms(1) t by (simp_all add: word_ok_def takeWhile_append2 dropWhile_append2)
  then show ?thesis unfolding gettoken_def s list.case using c w by (simp only: if_False) simp
qed

lemma peek_word: "word_ok w \<Longrightarrow> set T \<subseteq> set symbols \<Longrightarrow> \<not> peek_tok (w @ t) T"
proof -
  assume w: "word_ok w" "set T \<subseteq> set symbols"
  then have "hd (w @ t) \<notin> set symbols" by (cases w) (auto simp: word_ok_def word_char_def)
  with w show ?thesis unfolding peek_tok_def skip_word[OF w(1)] by auto
qed

lemma no_ahead_word:
  assumes "word_ok w"
  shows "\<not> redir_ahead (w @ t)" "\<not> args_end (w @ t)" "\<not> open_ahead (w @ t)"
  using peek_word[OF assms] by (auto simp: redir_ahead_def args_end_def open_ahead_def symbols_def)

lemma ahead_space [simp]:
  "redir_ahead (CHR '' '' # s) = redir_ahead s" "args_end (CHR '' '' # s) = args_end s" "amp_ahead (CHR '' '' # s) = amp_ahead s"
  "semi_ahead (CHR '' '' # s) = semi_ahead s" "bar_ahead (CHR '' '' # s) = bar_ahead s" "open_ahead (CHR '' '' # s) = open_ahead s"
  "close_ahead (CHR '' '' # s) = close_ahead s" "skip_token (CHR '' '' # s) = skip_token s" "gettoken (CHR '' '' # s) = gettoken s"
  by (metis aheads_skip skip_space ahead_skip)+

text \<open>What stands before the end of a command: nothing, or one of \<open>|)&;\<close>.\<close>

definition stops :: "string \<Rightarrow> bool" where
  "stops t \<longleftrightarrow> bound t \<and> (skip_white t = [] \<or> args_end t)"

lemma stops_redir: "stops t \<Longrightarrow> \<not> redir_ahead t"
  by (auto simp: stops_def redir_ahead_def args_end_def peek_tok_def)

lemma stops_open: "stops t \<Longrightarrow> \<not> open_ahead t"
  by (auto simp: stops_def open_ahead_def args_end_def peek_tok_def)

lemma symbol_ahead:
  "args_end (CHR ''|'' # s)" "bar_ahead (CHR ''|'' # s)" "skip_token (CHR ''|'' # s) = skip_white s"
  "args_end (CHR '')'' # s)" "close_ahead (CHR '')'' # s)" "skip_token (CHR '')'' # s) = skip_white s"
  "\<not> bar_ahead (CHR '')'' # s)" "\<not> amp_ahead (CHR '')'' # s)" "\<not> semi_ahead (CHR '')'' # s)"
  "args_end (CHR ''&'' # s)" "amp_ahead (CHR ''&'' # s)" "skip_token (CHR ''&'' # s) = skip_white s" "\<not> bar_ahead (CHR ''&'' # s)"
  "args_end (CHR '';'' # s)" "semi_ahead (CHR '';'' # s)" "skip_token (CHR '';'' # s) = skip_white s" "\<not> bar_ahead (CHR '';'' # s)"
  "\<not> amp_ahead (CHR '';'' # s)" "open_ahead (CHR ''('' # s)" "skip_token (CHR ''('' # s) = skip_white s"
  by (simp_all add: args_end_def bar_ahead_def close_ahead_def amp_ahead_def semi_ahead_def open_ahead_def peek_tok_def
      skip_token_def gettoken_def skip_symbol symbols_def)

lemma nothing_ahead:
  assumes "skip_white t = []"
  shows "\<not> redir_ahead t" "\<not> args_end t" "\<not> amp_ahead t" "\<not> semi_ahead t" "\<not> bar_ahead t" "\<not> open_ahead t" "\<not> close_ahead t"
    "gettoken t = (CHR 0x00, [], [])"
  using assms by (simp_all add: redir_ahead_def args_end_def amp_ahead_def semi_ahead_def bar_ahead_def open_ahead_def
      close_ahead_def peek_tok_def gettoken_def)


lemma redir_ahead_text: "redir_ahead (redir_text f m @ t)"
  by (cases m) (simp_all add: redir_text_def redir_ahead_def peek_tok_def skip_symbol symbols_def)

lemma redir_token:
  "\<exists>k x. gettoken (redir_text f m @ t) = (k, x, skip_white (CHR '' '' # f @ t)) \<and> redir_of k c g = Redir c g m (fd_of m)"
  by (cases m) (simp_all add: redir_text_def gettoken_def redir_of_def skip_symbol symbols_def)

fun redirs_text :: "(string \<times> mode) list \<Rightarrow> string" where
  "redirs_text [] = []"
| "redirs_text ((f, m) # rs) = redir_text f m @ redirs_text rs"

fun redirs_on :: "(string \<times> mode) list \<Rightarrow> cmd \<Rightarrow> cmd" where
  "redirs_on [] c = c"
| "redirs_on ((f, m) # rs) c = redirs_on rs (Redir c f m (fd_of m))"

lemma bound_redirs: "bound t \<Longrightarrow> bound (redirs_text rs @ t)"
  by (cases rs rule: redirs_text.cases) (auto simp: bound_def redir_text_def split: mode.split)

lemma parseredirs_text:
  assumes "\<forall>(f, m) \<in> set rs. word_ok f" "bound t" "\<not> redir_ahead t" "length (redirs_text rs @ t) < n"
  shows "parseredirs n c (redirs_text rs @ t) = Ok (redirs_on rs c, skip_white t)"
  using assms
proof (induction rs arbitrary: c n)
  case Nil
  then show ?case by (cases n) simp_all
next
  case (Cons r rs)
  obtain f m where r: "r = (f, m)" by (cases r)
  have f: "word_ok f" using Cons.prems(1) r by auto
  obtain n' where n: "n = Suc n'" using Cons.prems(4) by (cases n) auto
  obtain k x where k: "gettoken (redir_text f m @ redirs_text rs @ t) = (k, x, skip_white (CHR '' '' # f @ redirs_text rs @ t))"
    "redir_of k c f = Redir c f m (fd_of m)"
    using redir_token[of f m "redirs_text rs @ t" c f] by auto
  have w: "gettoken (f @ redirs_text rs @ t) = (CHR ''a'', f, skip_white (redirs_text rs @ t))"
    by (rule gettoken_word[OF f bound_redirs[OF Cons.prems(2)]])
  have l: "length (redirs_text rs @ t) < n'" using Cons.prems(4) r n by (simp add: redir_text_def split: mode.splits)
  show ?case
    using Cons.IH[OF _ Cons.prems(2,3) l, of "Redir c f m (fd_of m)"] Cons.prems(1) redir_ahead_text[of f m "redirs_text rs @ t"] k w
    by (simp add: r n parseredirs_skip Let_def)
qed

lemma add_arg_redirs: "add_arg w (redirs_on rs c) = redirs_on rs (add_arg w c)"
  by (induction rs c rule: redirs_on.induct) simp_all

lemma parsewords_end: "stops t \<Longrightarrow> 0 < n \<Longrightarrow> parsewords n argc c t = Ok (c, skip_white t)"
  by (cases n) (auto simp: stops_def nothing_ahead Let_def)

lemma bound_words: "ws \<noteq> [] \<Longrightarrow> bound (words_text ws @ t)"
  by (cases ws) (simp_all add: words_text_def bound_def)

lemma parsewords_text:
  assumes "\<forall>w \<in> set ws. word_ok w" "\<forall>(f, m) \<in> set rs. word_ok f" "stops t" "argc + length ws < MAXARGS"
    "ws = [] \<Longrightarrow> rs = []" "length (words_text ws @ redirs_text rs @ t) < n"
  shows "parsewords n argc (Exec vs) (words_text ws @ redirs_text rs @ t) = Ok (redirs_on rs (Exec (vs @ ws)), skip_white t)"
  using assms
proof (induction ws arbitrary: argc vs n)
  case Nil
  then show ?case using parsewords_end[OF Nil(3), of n argc] by (simp add: words_text_def)
next
  case (Cons w ws)
  have w: "word_ok w" using Cons.prems(1) by simp
  obtain n' where n: "n = Suc n'" using Cons.prems(6) by (cases n) auto
  have bt: "bound t" using Cons.prems(3) by (simp add: stops_def)
  have l: "length (words_text ws @ redirs_text rs @ t) < n'" using Cons.prems(6) n by (simp add: words_text_def)
  define u where "u = words_text ws @ redirs_text rs @ t"
  have b: "bound u" unfolding u_def
    by (cases ws) (use bound_redirs[OF bt] bound_words[of ws] in \<open>auto simp: words_text_def bound_def\<close>)
  have g: "gettoken (w @ u) = (CHR ''a'', w, skip_white u)" by (rule gettoken_word[OF w b])
  have p: "parsewords n argc (Exec vs) (words_text (w # ws) @ redirs_text rs @ t) =
      bnd (parseredirs n' (Exec (vs @ [w])) u) (\<lambda>(c, s). parsewords n' (argc + 1) c s)"
    using no_ahead_word[OF w, of u] g Cons.prems(4)
    by (simp add: n words_text_def u_def[unfolded words_text_def, symmetric] Let_def parseredirs_skip)
  show ?case
  proof (cases ws)
    case Nil
    have "parseredirs n' (Exec (vs @ [w])) u = Ok (redirs_on rs (Exec (vs @ [w])), skip_white t)"
      using parseredirs_text[OF Cons.prems(2) bt stops_redir[OF Cons.prems(3)], of n'] l Nil by (simp add: u_def words_text_def)
    moreover have "stops (skip_white t)" using Cons.prems(3) by (auto simp: stops_def bound_def args_end_def peek_tok_def symbols_def word_char_def)
    moreover have "0 < n'" using l by simp
    ultimately show ?thesis using p Nil parsewords_end[of "skip_white t" n'] by simp
  next
    case (Cons w' ws')
    have "\<not> redir_ahead u" using no_ahead_word(1)[of w'] Cons.prems(1) Cons by (simp add: u_def words_text_def)
    moreover have "length u < n'" using l by (simp add: u_def)
    ultimately have "parseredirs n' (Exec (vs @ [w])) u = Ok (Exec (vs @ [w]), skip_white u)"
      using parseredirs_text[of "[]" u n'] b by simp
    moreover have "parsewords n' (argc + 1) c (skip_white u) = parsewords n' (argc + 1) c u" for c
      using l by (cases n') (simp_all add: Let_def)
    ultimately show ?thesis
      using p Cons.IH[of "argc + 1" n' "vs @ [w]"] Cons.prems l Cons by (simp add: u_def)
  qed
qed


lemma parser_skip:
  "parseexec n (skip_white s) = parseexec n s" "parsepipe n (skip_white s) = parsepipe n s"
  "parseline n (skip_white s) = parseline n s"
proof -
  show e: "parseexec n (skip_white s) = parseexec n s" for n by (cases n) (simp_all add: parseredirs_skip)
  show p: "parsepipe n (skip_white s) = parsepipe n s" for n by (cases n) (simp_all add: e)
  show "parseline n (skip_white s) = parseline n s" by (cases n) (simp_all add: p)
qed

text \<open>A command read back at each level, before a text \<open>t\<close>.\<close>

definition redirs_ok :: "(string \<times> mode) list \<Rightarrow> bool" where
  "redirs_ok rs \<longleftrightarrow> (\<forall>(f, m) \<in> set rs. word_ok f)"

definition E_ok :: "cmd \<Rightarrow> bool" where
  "E_ok c \<longleftrightarrow> (\<forall>rs t n. redirs_ok rs \<longrightarrow> stops t \<longrightarrow> 4 * length (text_of 0 c @ redirs_text rs @ t) + 2 \<le> n \<longrightarrow>
     parseexec n (text_of 0 c @ redirs_text rs @ t) = Ok (redirs_on rs c, skip_white t))"

definition P_ok :: "cmd \<Rightarrow> bool" where
  "P_ok c \<longleftrightarrow> (\<forall>t n. stops t \<longrightarrow> \<not> bar_ahead t \<longrightarrow> 4 * length (text_of 1 c @ t) + 3 \<le> n \<longrightarrow>
     parsepipe n (text_of 1 c @ t) = Ok (c, skip_white t))"

definition B_ok :: "cmd \<Rightarrow> bool" where
  "B_ok c \<longleftrightarrow> (\<forall>t n m. stops t \<longrightarrow> \<not> bar_ahead t \<longrightarrow> 4 * length (text_of 2 c @ t) + 3 \<le> n \<longrightarrow> length (text_of 2 c @ t) < m \<longrightarrow>
     (\<exists>k > length t. bnd (parsepipe n (text_of 2 c @ t)) (\<lambda>(d, s). parseback m d s) = parseback k c (skip_white t)))"

definition L_ok :: "cmd \<Rightarrow> bool" where
  "L_ok c \<longleftrightarrow> (\<forall>t n. stops t \<longrightarrow> \<not> bar_ahead t \<longrightarrow> \<not> amp_ahead t \<longrightarrow> \<not> semi_ahead t \<longrightarrow> 4 * length (text_of 3 c @ t) + 4 \<le> n \<longrightarrow>
     parseline n (text_of 3 c @ t) = Ok (c, skip_white t))"

lemma stops_space: "args_end s \<Longrightarrow> stops (CHR '' '' # s)"
  by (simp add: stops_def bound_def)

lemma parseback_stop: "\<not> amp_ahead t \<Longrightarrow> 0 < k \<Longrightarrow> parseback k c (skip_white t) = Ok (c, skip_white t)"
  by (cases k) simp_all

lemma same_text:
  "level c \<noteq> 1 \<Longrightarrow> text_of 1 c = text_of 0 c" "level c \<noteq> 2 \<Longrightarrow> text_of 2 c = text_of 1 c" "level c \<noteq> 3 \<Longrightarrow> text_of 3 c = text_of 2 c"
  "level c \<noteq> 0 \<Longrightarrow> text_of 0 c = '' ('' @ text_of 3 c @ '' )''"
  by (cases c; simp)+

lemma P_from_E: "E_ok c \<Longrightarrow> level c \<noteq> 1 \<Longrightarrow> P_ok c"
  unfolding P_ok_def
proof (intro allI impI)
  fix t n assume a: "E_ok c" "level c \<noteq> 1" "stops t" "\<not> bar_ahead t" "4 * length (text_of 1 c @ t) + 3 \<le> n"
  obtain k where n: "n = Suc k" using a(5) by (cases n) auto
  have "parseexec k (text_of 0 c @ t) = Ok (c, skip_white t)"
    using a(1)[unfolded E_ok_def, rule_format, of "[]" t k] a n same_text(1)[OF a(2)] by (simp add: redirs_ok_def)
  then show "parsepipe n (text_of 1 c @ t) = Ok (c, skip_white t)"
    using a(4) same_text(1)[OF a(2)] by (simp add: n Let_def)
qed

lemma B_from_P: "P_ok c \<Longrightarrow> level c \<noteq> 2 \<Longrightarrow> B_ok c"
  unfolding B_ok_def
proof (intro allI impI)
  fix t n and m :: nat
  assume a: "P_ok c" "level c \<noteq> 2" "stops t" "\<not> bar_ahead t" "4 * length (text_of 2 c @ t) + 3 \<le> n" "length (text_of 2 c @ t) < m"
  have "parsepipe n (text_of 2 c @ t) = Ok (c, skip_white t)"
    using a(1)[unfolded P_ok_def, rule_format, of t n] a same_text(2)[OF a(2)] by simp
  then show "\<exists>k > length t. bnd (parsepipe n (text_of 2 c @ t)) (\<lambda>(d, s). parseback m d s) = parseback k c (skip_white t)"
    using a(6) by (intro exI[of _ m]) simp
qed

lemma L_from_B: "B_ok c \<Longrightarrow> level c \<noteq> 3 \<Longrightarrow> L_ok c"
  unfolding L_ok_def
proof (intro allI impI)
  fix t n
  assume a: "B_ok c" "level c \<noteq> 3" "stops t" "\<not> bar_ahead t" "\<not> amp_ahead t" "\<not> semi_ahead t" "4 * length (text_of 3 c @ t) + 4 \<le> n"
  obtain k where n: "n = Suc k" using a(7) by (cases n) auto
  obtain j where j: "length t < j" "bnd (parsepipe k (text_of 3 c @ t)) (\<lambda>(d, s). parseback k d s) = parseback j c (skip_white t)"
    using a(1)[unfolded B_ok_def, rule_format, of t k k] a n same_text(3)[OF a(2)] by auto
  have "parseline n (text_of 3 c @ t) = bnd (bnd (parsepipe k (text_of 3 c @ t)) (\<lambda>(d, s). parseback k d s)) (\<lambda>(c, s).
       let s = skip_white s in
       if semi_ahead s then bnd (parseline k (skip_token s)) (\<lambda>(d, s). Ok (Lst c d, s)) else Ok (c, s))"
    unfolding n parseline.simps bnd_assoc by (rule arg_cong[where f = "bnd _"]) (simp add: fun_eq_iff)
  then show "parseline n (text_of 3 c @ t) = Ok (c, skip_white t)"
    using j a(5,6) parseback_stop[of t j c] by (simp add: Let_def)
qed

lemma E_from_L: "L_ok c \<Longrightarrow> level c \<noteq> 0 \<Longrightarrow> E_ok c"
  unfolding E_ok_def
proof (intro allI impI)
  fix rs t n
  assume a: "L_ok c" "level c \<noteq> 0" "redirs_ok rs" "stops t" "4 * length (text_of 0 c @ redirs_text rs @ t) + 2 \<le> n"
  define u where "u = redirs_text rs @ t"
  have x: "text_of 0 c @ u = '' ('' @ text_of 3 c @ '' )'' @ u" using same_text(4)[OF a(2)] by simp
  obtain k where n: "n = Suc (Suc k)" using a(5) x by (cases n; cases "n - 1") auto
  have l: "4 * length (text_of 3 c @ '' )'' @ u) + 4 \<le> k" using a(5) x n unfolding u_def by simp
  have L: "parseline k (text_of 3 c @ '' )'' @ u) = Ok (c, skip_white ('')'' @ u))"
    using a(1)[unfolded L_ok_def, rule_format, of "'' )'' @ u" k] l by (simp add: stops_space symbol_ahead)
  have "length u < k" using l by simp
  then have r: "parseredirs k c u = Ok (redirs_on rs c, skip_white t)"
    unfolding u_def using parseredirs_text[of rs t k c] a(3,4) stops_redir[OF a(4)] by (simp add: redirs_ok_def stops_def)
  have "parseblock (Suc k) (text_of 0 c @ u) = Ok (redirs_on rs c, skip_white t)"
    unfolding x using L by (simp add: symbol_ahead parser_skip r Let_def parseredirs_skip)
  moreover have "open_ahead (text_of 0 c @ u)" unfolding x by (simp add: symbol_ahead)
  moreover have "parseblock (Suc k) (skip_white (text_of 0 c @ u)) = parseblock (Suc k) (text_of 0 c @ u)" by simp
  ultimately show "parseexec n (text_of 0 c @ redirs_text rs @ t) = Ok (redirs_on rs c, skip_white t)"
    unfolding n u_def[symmetric] parseexec.simps Let_def by (simp only: aheads_skip if_True)
qed

lemma E_Exec: "cmd_ok (Exec ws) \<Longrightarrow> E_ok (Exec ws)"
  unfolding E_ok_def
proof (intro allI impI)
  fix rs t n
  assume a: "cmd_ok (Exec ws)" "redirs_ok rs" "stops t" "4 * length (text_of 0 (Exec ws) @ redirs_text rs @ t) + 2 \<le> n"
  define u where "u = redirs_text rs @ t"
  have bt: "bound t" using a(3) by (simp add: stops_def)
  obtain k where n: "n = Suc k" using a(4) by (cases n) auto
  have rs: "\<forall>(f, m) \<in> set rs. word_ok f" using a(2) by (simp add: redirs_ok_def)
  show "parseexec n (text_of 0 (Exec ws) @ redirs_text rs @ t) = Ok (redirs_on rs (Exec ws), skip_white t)"
  proof (cases ws)
    case Nil
    have o: "\<not> open_ahead u"
      using stops_open[OF a(3)] by (cases rs rule: redirs_text.cases)
        (auto simp: u_def redir_text_def open_ahead_def peek_tok_def skip_symbol symbols_def split: mode.split)
    have "parseredirs k (Exec []) u = Ok (redirs_on rs (Exec []), skip_white t)"
      unfolding u_def by (rule parseredirs_text[OF rs bt stops_redir[OF a(3)]]) (use a(4) n in \<open>simp add: words_text_def\<close>)
    moreover have "stops (skip_white t)" using a(3) by (auto simp: stops_def bound_def args_end_def peek_tok_def symbols_def word_char_def)
    ultimately show ?thesis
      using o a(4) n parsewords_end[of "skip_white t" k 0] by (simp add: Nil words_text_def u_def[symmetric] parseredirs_skip)
  next
    case (Cons w ws')
    define v where "v = words_text ws @ u"
    have w: "word_ok w" using a(1) Cons by simp
    have v: "v = CHR '' '' # w @ words_text ws' @ u" by (simp add: v_def Cons words_text_def)
    have na: "\<not> redir_ahead v" "\<not> open_ahead v" "bound v" unfolding v using no_ahead_word[OF w] by (simp_all add: bound_def)
    have lv: "length v < k" using a(4) n by (simp add: v_def u_def)
    have "parseredirs k (Exec []) v = Ok (Exec [], skip_white v)"
      using parseredirs_text[of "[]" v k "Exec []"] na lv by simp
    moreover have "parsewords k 0 (Exec []) (skip_white v) = parsewords k 0 (Exec []) v" by (cases k) simp_all
    moreover have "parsewords k 0 (Exec []) v = Ok (redirs_on rs (Exec ([] @ ws)), skip_white t)"
      unfolding v_def u_def by (rule parsewords_text[OF _ rs a(3)]) (use a(1) Cons lv in \<open>auto simp: v_def u_def\<close>)
    ultimately show ?thesis using na by (simp add: n v_def[symmetric] u_def[symmetric] parseredirs_skip)
  qed
qed

lemma E_Redir: "E_ok c \<Longrightarrow> word_ok f \<Longrightarrow> E_ok (Redir c f m (fd_of m))"
  unfolding E_ok_def
proof (intro allI impI)
  fix rs t n
  assume a: "\<forall>rs t n. redirs_ok rs \<longrightarrow> stops t \<longrightarrow> 4 * length (text_of 0 c @ redirs_text rs @ t) + 2 \<le> n \<longrightarrow>
     parseexec n (text_of 0 c @ redirs_text rs @ t) = Ok (redirs_on rs c, skip_white t)"
    "word_ok f" "redirs_ok rs" "stops t" "4 * length (text_of 0 (Redir c f m (fd_of m)) @ redirs_text rs @ t) + 2 \<le> n"
  show "parseexec n (text_of 0 (Redir c f m (fd_of m)) @ redirs_text rs @ t) = Ok (redirs_on rs (Redir c f m (fd_of m)), skip_white t)"
    using a(1)[rule_format, of "(f, m) # rs" t n] a(2-5) by (simp add: redirs_ok_def)
qed


lemma P_Pipe: "E_ok c \<Longrightarrow> P_ok d \<Longrightarrow> P_ok (Pipe c d)"
  unfolding P_ok_def[of "Pipe c d"]
proof (intro allI impI)
  fix t n
  assume a: "E_ok c" "P_ok d" "stops t" "\<not> bar_ahead t" "4 * length (text_of 1 (Pipe c d) @ t) + 3 \<le> n"
  define u where "u = text_of 1 d @ t"
  obtain k where n: "n = Suc k" using a(5) by (cases n) auto
  have "parseexec k (text_of 0 c @ '' |'' @ u) = Ok (c, skip_white ('' |'' @ u))"
    using a(1)[unfolded E_ok_def, rule_format, of "[]" "'' |'' @ u" k] a(5) n
    by (simp add: u_def redirs_ok_def stops_space symbol_ahead)
  moreover have "parsepipe k u = Ok (d, skip_white t)"
    unfolding u_def using a(2)[unfolded P_ok_def, rule_format, of t k] a(3-5) n by simp
  moreover have "text_of 1 (Pipe c d) @ t = text_of 0 c @ '' |'' @ u" by (simp add: u_def)
  ultimately show "parsepipe n (text_of 1 (Pipe c d) @ t) = Ok (Pipe c d, skip_white t)"
    by (simp add: n symbol_ahead parser_skip Let_def)
qed

lemma B_Back: "B_ok c \<Longrightarrow> B_ok (Back c)"
  unfolding B_ok_def[of "Back c"]
proof (intro allI impI)
  fix t n and m :: nat
  assume a: "B_ok c" "stops t" "\<not> bar_ahead t" "4 * length (text_of 2 (Back c) @ t) + 3 \<le> n" "length (text_of 2 (Back c) @ t) < m"
  obtain k where k: "length ('' &'' @ t) < k"
    "bnd (parsepipe n (text_of 2 c @ '' &'' @ t)) (\<lambda>(d, s). parseback m d s) = parseback k c (skip_white ('' &'' @ t))"
    using a(1)[unfolded B_ok_def, rule_format, of "'' &'' @ t" n m] a by (auto simp: stops_space symbol_ahead)
  obtain j where j: "k = Suc j" using k(1) by (cases k) auto
  have "parseback j (Back c) s = parseback j (Back c) (skip_white s)" for s by (cases j) simp_all
  then have "parseback k c (skip_white ('' &'' @ t)) = parseback j (Back c) (skip_white t)"
    by (simp add: j symbol_ahead)
  with k j show "\<exists>k > length t. bnd (parsepipe n (text_of 2 (Back c) @ t)) (\<lambda>(d, s). parseback m d s) = parseback k (Back c) (skip_white t)"
    by (intro exI[of _ j]) simp
qed

lemma L_Lst: "B_ok c \<Longrightarrow> L_ok d \<Longrightarrow> L_ok (Lst c d)"
  unfolding L_ok_def[of "Lst c d"]
proof (intro allI impI)
  fix t n
  assume a: "B_ok c" "L_ok d" "stops t" "\<not> bar_ahead t" "\<not> amp_ahead t" "\<not> semi_ahead t" "4 * length (text_of 3 (Lst c d) @ t) + 4 \<le> n"
  define u where "u = text_of 3 d @ t"
  obtain k where n: "n = Suc k" using a(7) by (cases n) auto
  have l: "length (text_of 2 c @ '' ;'' @ u) < k" using a(7) n by (simp add: u_def)
  obtain j where j: "length ('' ;'' @ u) < j"
    "bnd (parsepipe k (text_of 2 c @ '' ;'' @ u)) (\<lambda>(d, s). parseback k d s) = parseback j c (skip_white ('' ;'' @ u))"
    using a(1)[unfolded B_ok_def, rule_format, of "'' ;'' @ u" k k] a(7) n l by (auto simp: u_def stops_space symbol_ahead)
  have "parseback j c (skip_white ('' ;'' @ u)) = Ok (c, skip_white ('' ;'' @ u))"
    by (rule parseback_stop) (use j(1) in \<open>auto simp: symbol_ahead\<close>)
  moreover have "parseline k u = Ok (d, skip_white t)"
    unfolding u_def using a(2)[unfolded L_ok_def, rule_format, of t k] a(3-7) n by simp
  moreover have "parseline n (text_of 2 c @ '' ;'' @ u) = bnd (bnd (parsepipe k (text_of 2 c @ '' ;'' @ u)) (\<lambda>(d, s). parseback k d s)) (\<lambda>(c, s).
       let s = skip_white s in
       if semi_ahead s then bnd (parseline k (skip_token s)) (\<lambda>(d, s). Ok (Lst c d, s)) else Ok (c, s))"
    unfolding n parseline.simps bnd_assoc by (rule arg_cong[where f = "bnd _"]) (simp add: fun_eq_iff)
  ultimately have "parseline n (text_of 2 c @ '' ;'' @ u) = Ok (Lst c d, skip_white t)"
    unfolding j(2) by (simp add: symbol_ahead parser_skip Let_def)
  then show "parseline n (text_of 3 (Lst c d) @ t) = Ok (Lst c d, skip_white t)" by (simp add: u_def)
qed

lemma reads_back: "cmd_ok c \<Longrightarrow> E_ok c \<and> P_ok c \<and> B_ok c \<and> L_ok c"
proof (induction c)
  case (Exec ws)
  then show ?case using E_Exec P_from_E B_from_P L_from_B by (metis level.simps(1) zero_neq_numeral zero_neq_one)
next
  case (Redir c f m fd)
  then show ?case using E_Redir[of c f m] P_from_E B_from_P L_from_B by (metis cmd_ok.simps(2) level.simps(2) zero_neq_numeral zero_neq_one)
next
  case (Pipe c d)
  then have "P_ok (Pipe c d)" using P_Pipe by simp
  moreover from this have "B_ok (Pipe c d)" by (rule B_from_P) simp
  moreover from this have "L_ok (Pipe c d)" by (rule L_from_B) simp
  moreover from this have "E_ok (Pipe c d)" by (rule E_from_L) simp
  ultimately show ?case by blast
next
  case (Lst c d)
  then have "L_ok (Lst c d)" using L_Lst by simp
  moreover from this have "E_ok (Lst c d)" by (rule E_from_L) simp
  moreover from this have "P_ok (Lst c d)" by (rule P_from_E) simp
  moreover from this have "B_ok (Lst c d)" by (rule B_from_P) simp
  ultimately show ?case by blast
next
  case (Back c)
  then have "B_ok (Back c)" using B_Back by simp
  moreover from this have "L_ok (Back c)" by (rule L_from_B) simp
  moreover from this have "E_ok (Back c)" by (rule E_from_L) simp
  moreover from this have "P_ok (Back c)" by (rule P_from_E) simp
  ultimately show ?case by blast
qed

lemma parsecmd_unparse: "cmd_ok c \<Longrightarrow> parsecmd (unparse c) = Ok c"
proof -
  assume "cmd_ok c"
  then have L: "L_ok c" using reads_back by blast
  have t: "stops []" "skip_white [] = []" by (simp_all add: stops_def bound_def skip_white_def)
  have "parseline (parse_depth (unparse c)) (text_of 3 c @ []) = Ok (c, skip_white [])"
    by (rule L[unfolded L_ok_def, rule_format])
      (use t nothing_ahead[OF t(2)] in \<open>simp_all add: parse_depth_def unparse_def\<close>)
  then show ?thesis by (simp add: parsecmd_def t unparse_def)
qed

end
