(* ===== verification/U_Lib.thy ===== *)
theory U_Lib
  imports K_String
begin

text \<open>
  \<open>xv6/user/ulib.c\<close>, over the memory of bytes of \<open>K_String\<close>; a loop that runs until it meets a NUL is \<open>None\<close> in a
  memory without one.
\<close>

section \<open>The code\<close>

text \<open>\<open>start\<close>: the status with which the process exits when \<open>main\<close> returns.\<close>

definition start :: "(nat \<Rightarrow> string list \<Rightarrow> int) \<Rightarrow> string list \<Rightarrow> int" where
  "start main argv = main (length argv) argv"

partial_function (option) strcpy :: "bytes \<Rightarrow> addr \<Rightarrow> addr \<Rightarrow> bytes option" where
  "strcpy m s t = (let m' = m(s := m t) in if m t \<noteq> 0 then strcpy m' (s + 1) (t + 1) else Some m')"

partial_function (option) strcmp :: "bytes \<Rightarrow> addr \<Rightarrow> addr \<Rightarrow> int option" where
  "strcmp m p q =
     (if m p \<noteq> 0 \<and> m p = m q then strcmp m (p + 1) (q + 1) else Some (uint (m p) - uint (m q)))"

partial_function (option) ustrlen_from :: "bytes \<Rightarrow> addr \<Rightarrow> nat \<Rightarrow> nat option" where
  "ustrlen_from m s n = (if m (s + of_nat n) \<noteq> 0 then ustrlen_from m s (n + 1) else Some n)"

definition ustrlen :: "bytes \<Rightarrow> addr \<Rightarrow> nat option" where
  "ustrlen m s = ustrlen_from m s 0"

fun umemset_from :: "bytes \<Rightarrow> addr \<Rightarrow> byte \<Rightarrow> nat \<Rightarrow> nat \<Rightarrow> bytes" where
  "umemset_from m d c i 0 = m"
| "umemset_from m d c i (Suc n) = umemset_from (m(d + of_nat i := c)) d c (i + 1) n"

definition umemset :: "bytes \<Rightarrow> addr \<Rightarrow> byte \<Rightarrow> nat \<Rightarrow> bytes" where
  "umemset m d c n = umemset_from m d c 0 n"

text \<open>The address of the first \<open>c\<close>, and 0 for none.\<close>

partial_function (option) strchr :: "bytes \<Rightarrow> addr \<Rightarrow> byte \<Rightarrow> addr option" where
  "strchr m s c = (if m s \<noteq> 0 then if m s = c then Some s else strchr m (s + 1) c else Some 0)"

text \<open>
  The characters that \<open>read(0, &c, 1)\<close> will return: \<open>None\<close> is a read that returns less than 1, as at an end of
  file, and so is every read after the list.
\<close>

type_synonym input = "char option list"

fun gets_loop :: "nat \<Rightarrow> input \<Rightarrow> string \<times> input" where
  "gets_loop 0 inp = ([], inp)"
| "gets_loop (Suc n) [] = ([], [])"
| "gets_loop (Suc n) (None # inp) = ([], inp)"
| "gets_loop (Suc n) (Some c # inp) =
     (if c = CHR 0x0A \<or> c = CHR 0x0D then ([c], inp)
      else let (l, inp) = gets_loop n inp in (c # l, inp))"

text \<open>What \<open>gets\<close> puts before the NUL, and the input that is left.\<close>

definition gets :: "nat \<Rightarrow> input \<Rightarrow> string \<times> input" where
  "gets k inp = gets_loop (k - 1) inp"

text \<open>\<open>stat\<close> over the system calls.\<close>

definition stat_of :: "(string \<Rightarrow> 's \<Rightarrow> int \<times> 's) \<Rightarrow> (int \<Rightarrow> 's \<Rightarrow> int \<times> 's) \<Rightarrow> (int \<Rightarrow> 's \<Rightarrow> 's) \<Rightarrow> string \<Rightarrow> 's \<Rightarrow> int \<times> 's" where
  "stat_of open_sys fstat_sys close_sys n s =
     (let (fd, s) = open_sys n s in
      if fd < 0 then (-1, s)
      else let (r, s) = fstat_sys fd s in (r, close_sys fd s))"

text \<open>The loop of \<open>atoi\<close>; an \<open>int\<close> that overflows has no meaning.\<close>

fun atoi_loop :: "int \<Rightarrow> string \<Rightarrow> int res" where
  "atoi_loop n [] = Ok n"
| "atoi_loop n (c # s) =
     (if (48 :: nat) \<le> of_char c \<and> of_char c \<le> (57 :: nat) then
        let v = n * 10 + of_char c in
        if v \<le> INT_MAX then atoi_loop (v - 48) s else Undef ''signed overflow''
      else Ok n)"

definition atoi :: "string \<Rightarrow> int res" where
  "atoi s = atoi_loop 0 s"

definition umemmove :: "bytes \<Rightarrow> addr \<Rightarrow> addr \<Rightarrow> nat \<Rightarrow> bytes" where
  "umemmove m d s n =
     (if s > d then copy_up m d s n else copy_down m (d + of_nat n) (s + of_nat n) n)"

text \<open>A \<open>char\<close> of this machine is unsigned.\<close>

fun umemcmp :: "bytes \<Rightarrow> addr \<Rightarrow> addr \<Rightarrow> nat \<Rightarrow> int" where
  "umemcmp m p q 0 = 0"
| "umemcmp m p q (Suc n) =
     (if m p \<noteq> m q then uint (m p) - uint (m q) else umemcmp m (p + 1) (q + 1) n)"

definition umemcpy :: "bytes \<Rightarrow> addr \<Rightarrow> addr \<Rightarrow> nat \<Rightarrow> bytes" where
  "umemcpy m d s n = umemmove m d s n"

definition SBRK_EAGER :: int where "SBRK_EAGER = 1"
definition SBRK_LAZY :: int where "SBRK_LAZY = 2"

definition sbrk :: "(int \<Rightarrow> int \<Rightarrow> 's \<Rightarrow> addr \<times> 's) \<Rightarrow> int \<Rightarrow> 's \<Rightarrow> addr \<times> 's" where
  "sbrk sys_sbrk n s = sys_sbrk n SBRK_EAGER s"

definition sbrklazy :: "(int \<Rightarrow> int \<Rightarrow> 's \<Rightarrow> addr \<times> 's) \<Rightarrow> int \<Rightarrow> 's \<Rightarrow> addr \<times> 's" where
  "sbrklazy sys_sbrk n s = sys_sbrk n SBRK_LAZY s"


section \<open>C strings\<close>

text \<open>The memory holds the string \<open>w\<close>, with the NUL after it, at \<open>a\<close>.\<close>

fun cstr :: "bytes \<Rightarrow> addr \<Rightarrow> byte list \<Rightarrow> bool" where
  "cstr m a [] = (m a = 0)"
| "cstr m a (c # w) = (c \<noteq> 0 \<and> m a = c \<and> cstr m (a + 1) w)"

lemma ustrlen_from_cstr: "cstr m (a + of_nat n) w \<Longrightarrow> ustrlen_from m a n = Some (n + length w)"
proof (induction w arbitrary: n)
  case Nil
  then show ?case by (subst ustrlen_from.simps) simp
next
  case (Cons c w)
  then have "ustrlen_from m a (n + 1) = Some (n + 1 + length w)" by (intro Cons.IH) (simp add: algebra_simps)
  with Cons.prems show ?case by (subst ustrlen_from.simps) simp
qed

lemma ustrlen_cstr: "cstr m a w \<Longrightarrow> ustrlen m a = Some (length w)"
  using ustrlen_from_cstr[of m a 0 w] by (simp add: ustrlen_def)

lemma strchr_cstr:
  "cstr m a w \<Longrightarrow> strchr m a c = Some (if c \<in> set w then a + of_nat (length (takeWhile (\<lambda>b. b \<noteq> c) w)) else 0)"
proof (induction w arbitrary: a)
  case Nil
  then show ?case by (subst strchr.simps) simp
next
  case (Cons b w)
  then have "strchr m (a + 1) c = Some (if c \<in> set w then a + 1 + of_nat (length (takeWhile (\<lambda>b. b \<noteq> c) w)) else 0)"
    by (intro Cons.IH) simp
  with Cons.prems show ?case by (subst strchr.simps) (auto simp: algebra_simps)
qed

text \<open>\<open>strcmp\<close> is 0 for equal strings only, and else has the sign of the first difference, the end being the least.\<close>

fun before :: "byte list \<Rightarrow> byte list \<Rightarrow> bool" where
  "before v [] = False"
| "before [] (c # w) = True"
| "before (b # v) (c # w) = (b < c \<or> b = c \<and> before v w)"

lemma strcmp_cstr:
  "cstr m p v \<Longrightarrow> cstr m q w \<Longrightarrow> \<exists>r. strcmp m p q = Some r \<and> (r = 0 \<longleftrightarrow> v = w) \<and> (r < 0 \<longleftrightarrow> before v w)"
proof (induction v w arbitrary: p q rule: before.induct)
  case (1 v)
  then show ?case by (subst strcmp.simps) (cases v; auto simp: word_less_def uint_0_iff)
next
  case (2 c w)
  then have "0 < uint c" by (simp add: word_neq_0_conv[symmetric] uint_0_iff)
       (metis unsigned_greater_eq uint_0_iff order_le_less)
  with 2 show ?case by (subst strcmp.simps) auto
next
  case (3 b v c w)
  show ?case
  proof (cases "b = c")
    case True
    with 3 show ?thesis by (subst strcmp.simps) auto
  next
    case False
    with 3 show ?thesis by (subst strcmp.simps) (auto simp: word_less_def word_uint_eq_iff)
  qed
qed

text \<open>\<open>strcpy\<close> copies the string and its NUL, and changes no other byte, if it does not overwrite what it reads.\<close>

lemma strcpy_cstr:
  "cstr m t w \<Longrightarrow> length w < 2 ^ 64 - 1 \<Longrightarrow>
   (\<And>i j. j < i \<Longrightarrow> i \<le> length w \<Longrightarrow> t + of_nat i \<noteq> s + of_nat j) \<Longrightarrow>
   \<exists>m'. strcpy m s t = Some m' \<and> cstr m' s w \<and> (\<forall>a. \<not> within a s (length w + 1) \<longrightarrow> m' a = m a)"
proof (induction w arbitrary: m s t)
  case Nil
  then show ?case by (subst strcpy.simps) (auto simp: within_def)
next
  case (Cons c w)
  have n: "length w + 1 < 2 ^ 64" using Cons.prems(2) by simp
  have keep: "cstr (m(s := c)) (t + 1) w"
  proof -
    have "cstr m a v \<Longrightarrow> (\<And>i. i \<le> length v \<Longrightarrow> a + of_nat i \<noteq> s) \<Longrightarrow> cstr (m(s := c)) a v" for a v
    proof (induction v arbitrary: a)
      case Nil
      then show ?case using Nil.prems(2)[of 0] by simp
    next
      case (Cons b v)
      have "cstr (m(s := c)) (a + 1) v"
        by (rule Cons.IH) (use Cons.prems(1) Cons.prems(2)[of "Suc i" for i] in \<open>auto simp: algebra_simps\<close>)
      moreover have "(m(s := c)) a = b" using Cons.prems(1) Cons.prems(2)[of 0] by simp
      ultimately show ?case using Cons.prems(1) unfolding cstr.simps by blast
    qed
    from this[of "t + 1" w] show ?thesis
      using Cons.prems(1) Cons.prems(3)[of 0 "Suc i" for i] by (auto simp: algebra_simps)
  qed
  obtain m' where m': "strcpy (m(s := c)) (s + 1) (t + 1) = Some m'" "cstr m' (s + 1) w"
    "\<forall>a. \<not> within a (s + 1) (length w + 1) \<longrightarrow> m' a = (m(s := c)) a"
  proof -
    have "\<exists>m'. strcpy (m(s := c)) (s + 1) (t + 1) = Some m' \<and> cstr m' (s + 1) w \<and>
       (\<forall>a. \<not> within a (s + 1) (length w + 1) \<longrightarrow> m' a = (m(s := c)) a)"
    proof (rule Cons.IH[OF keep])
      fix i j assume "j < i" "i \<le> length w"
      then show "t + 1 + of_nat i \<noteq> s + 1 + of_nat j" using Cons.prems(3)[of "Suc j" "Suc i"] by (simp add: algebra_simps)
    qed (use Cons.prems(2) in simp)
    then show ?thesis using that by blast
  qed
  have "m' s = c" using m'(3) not_within_start[OF n, of s] by simp
  moreover have "strcpy m s t = Some m'" using Cons.prems(1) m'(1) by (subst strcpy.simps) simp
  ultimately show ?case
    using m'(2,3) Cons.prems(1) by (auto simp: within_Suc[OF n, unfolded Suc_eq_plus1[symmetric]])
qed

section \<open>The same functions as the kernel's\<close>

lemma umemset_from_eq: "umemset_from m d c i n = memset m (d + of_nat i) c n"
  by (induction m d c i n rule: umemset_from.induct) (simp_all add: algebra_simps del: fun_upd_apply)

lemma umemset_eq: "umemset m d c n = memset m d c n"
  by (simp add: umemset_def umemset_from_eq)

lemma umemcmp_eq: "umemcmp m p q n = memcmp m p q n"
  by (induction m p q n rule: umemcmp.induct) auto

text \<open>\<open>memmove\<close> chooses its direction by another test, and copies the same.\<close>

lemma offset_neq:
  fixes s d :: addr
  assumes "unat s + n < 2 ^ 64" "unat d + n < 2 ^ 64" "i < n" "j < n" "unat s + i \<noteq> unat d + j"
  shows "s + of_nat i \<noteq> d + of_nat j"
proof -
  have "unat (s + of_nat i) = unat s + i" "unat (d + of_nat j) = unat d + j"
    using assms by (simp_all add: unat_word_ariths unat_of_nat take_bit_eq_mod)
  with assms(5) show ?thesis by metis
qed

lemma umemmove_eq:
  assumes "unat s + n < 2 ^ 64" and "unat d + n < 2 ^ 64"
  shows "umemmove m d s n = memmove m d s n"
proof
  fix a
  have n: "n < 2 ^ 64" using assms by simp
  show "umemmove m d s n a = memmove m d s n a"
  proof (cases "s > d")
    case True
    then have "unat d < unat s" by (simp add: word_less_nat_alt)
    then have "copy_up m d s n a = (if within a d n then m (s + (a - d)) else m a)"
      by (intro copy_up_apply) (use n offset_neq[OF assms] in auto)
    then show ?thesis using True by (simp add: umemmove_def memmove_apply[OF assms])
  next
    case False
    then have "unat s \<le> unat d" by (simp add: word_le_nat_alt[symmetric] not_less)
    then have "copy_down m (d + of_nat n) (s + of_nat n) n a = (if within a d n then m (s + (a - d)) else m a)"
      by (intro copy_down_apply) (use n offset_neq[OF assms] in auto)
    then show ?thesis using False by (simp add: umemmove_def memmove_apply[OF assms])
  qed
qed

section \<open>Numbers and lines\<close>

lemma gets_loop_length: "length (snd (gets_loop n inp)) \<le> length inp"
  by (induction n inp rule: gets_loop.induct) (auto split: prod.splits)

lemma gets_shorter: "2 \<le> k \<Longrightarrow> fst (gets k inp) \<noteq> [] \<Longrightarrow> length (snd (gets k inp)) < length inp"
proof -
  assume k: "2 \<le> k" "fst (gets k inp) \<noteq> []"
  obtain n where n: "k - 1 = Suc n" using k by (cases "k - 1") auto
  have "fst (gets_loop (Suc n) inp) \<noteq> []" using k(2) n by (simp add: gets_def)
  then have "length (snd (gets_loop (Suc n) inp)) < length inp" using gets_loop_length[of n "tl inp"]
    by (cases "(Suc n, inp)" rule: gets_loop.cases) (auto split: prod.splits if_splits)
  then show ?thesis by (simp only: gets_def n)
qed

text \<open>A line that fits is read whole, with its newline.\<close>

lemma gets_line:
  "length l + 2 \<le> k \<Longrightarrow> CHR 0x0A \<notin> set l \<Longrightarrow> CHR 0x0D \<notin> set l \<Longrightarrow>
   gets k (map Some (l @ [CHR 0x0A]) @ inp) = (l @ [CHR 0x0A], inp)"
proof -
  have "length l < n \<Longrightarrow> CHR 0x0A \<notin> set l \<Longrightarrow> CHR 0x0D \<notin> set l \<Longrightarrow>
     gets_loop n (map Some (l @ [CHR 0x0A]) @ inp) = (l @ [CHR 0x0A], inp)" for n
  proof (induction l arbitrary: n)
    case Nil
    then show ?case by (cases n) simp_all
  next
    case (Cons c l)
    then show ?case by (cases n) auto
  qed
  from this[of "k - 1"] show "length l + 2 \<le> k \<Longrightarrow> CHR 0x0A \<notin> set l \<Longrightarrow> CHR 0x0D \<notin> set l \<Longrightarrow> ?thesis" by (simp add: gets_def)
qed

end
