(* ===== verification/U_Run.thy ===== *)
theory U_Run
  imports U_Sh U_Lib
begin

text \<open>
  \<open>xv6/user/sh.c\<close>: what the shell does with a parsed command, and its main loop.  A process is the sequence of
  system calls it makes, with what it does after each result.
\<close>

section \<open>Processes\<close>

text \<open>
  A call comes with the processes that go on after it: \<open>P_exec\<close> with the one after a failed \<open>exec\<close>, \<open>P_open\<close> with
  the one that gets the descriptor and the one after a failure, \<open>P_pipe\<close> with the one that gets the read end and the
  write end and the one after a failure, \<open>P_fork\<close> with the child, the parent and the one after a failure.  \<open>P_spin\<close>
  is a loop that does not end.
\<close>

datatype proc =
    P_exit int
  | P_exec string "string list" proc
  | P_close nat proc
  | P_open string nat "nat \<Rightarrow> proc" proc
  | P_dup nat proc
  | P_pipe "nat \<Rightarrow> nat \<Rightarrow> proc" proc
  | P_fork proc proc proc
  | P_wait proc
  | P_chdir string proc proc
  | P_err string proc
  | P_spin

definition O_RDONLY :: nat where "O_RDONLY = 0"
definition O_WRONLY :: nat where "O_WRONLY = 1"
definition O_RDWR :: nat where "O_RDWR = 2"
definition O_CREATE :: nat where "O_CREATE = 0x200"
definition O_TRUNC :: nat where "O_TRUNC = 0x400"

fun flags_of :: "mode \<Rightarrow> nat" where
  "flags_of M_read = O_RDONLY"
| "flags_of M_trunc = O_WRONLY + O_CREATE + O_TRUNC"
| "flags_of M_append = O_WRONLY + O_CREATE"

section \<open>Running a command\<close>

definition panic :: "string \<Rightarrow> proc" where
  "panic s = P_err (s @ [CHR 0x0A]) (P_exit 1)"

definition fork1 :: "proc \<Rightarrow> proc \<Rightarrow> proc" where
  "fork1 child parent = P_fork child parent (panic ''fork'')"

fun runcmd :: "cmd \<Rightarrow> proc" where
  "runcmd (Exec ws) =
     (case ws of
        [] \<Rightarrow> P_exit 1
      | f # _ \<Rightarrow> P_exec f ws (P_err (''exec '' @ f @ '' failed'' @ [CHR 0x0A]) (P_exit 0)))"
| "runcmd (Redir c f m fd) =
     P_close fd (P_open f (flags_of m) (\<lambda>_. runcmd c)
       (P_err (''open '' @ f @ '' failed'' @ [CHR 0x0A]) (P_exit 1)))"
| "runcmd (Lst c d) = fork1 (runcmd c) (P_wait (runcmd d))"
| "runcmd (Pipe c d) =
     P_pipe (\<lambda>p0 p1.
       fork1 (P_close 1 (P_dup p1 (P_close p0 (P_close p1 (runcmd c)))))
         (fork1 (P_close 0 (P_dup p0 (P_close p0 (P_close p1 (runcmd d)))))
           (P_close p0 (P_close p1 (P_wait (P_wait (P_exit 0)))))))
       (panic ''pipe'')"
| "runcmd (Back c) = fork1 (runcmd c) (P_exit 0)"

section \<open>The main loop\<close>

text \<open>The line in the buffer is what stands before its first NUL; \<open>None\<close> is the end of the input.\<close>

definition BUFSZ :: nat where "BUFSZ = 100"

definition getcmd :: "input \<Rightarrow> string option \<times> input" where
  "getcmd inp =
     (let (buf, inp) = gets BUFSZ inp; s = takeWhile (\<lambda>c. c \<noteq> CHR 0x00) buf in
      (if s = [] then None else Some s, inp))"

definition is_cd :: "string \<Rightarrow> bool" where
  "is_cd s \<longleftrightarrow> take 3 s = ''cd ''"

text \<open>The child of the main loop.\<close>

definition shell_child :: "string \<Rightarrow> proc" where
  "shell_child s =
     (case parsecmd s of
        Ok c \<Rightarrow> runcmd c
      | Panic e \<Rightarrow> panic e
      | _ \<Rightarrow> P_spin)"

lemma getcmd_shorter: "getcmd inp = (Some s, inp') \<Longrightarrow> length inp' < length inp"
proof -
  assume g: "getcmd inp = (Some s, inp')"
  obtain a r where a: "gets BUFSZ inp = (a, r)" by (cases "gets BUFSZ inp")
  have "r = inp'" "a \<noteq> []" using g by (auto simp: getcmd_def a Let_def split: if_splits)
  moreover have "2 \<le> BUFSZ" by (simp add: BUFSZ_def)
  ultimately show ?thesis using gets_shorter[of BUFSZ inp] by (simp add: a)
qed

function main_loop :: "input \<Rightarrow> proc" where
  "main_loop inp =
     P_err ''$ ''
       (case getcmd inp of
          (None, _) \<Rightarrow> P_exit 0
        | (Some s, inp) \<Rightarrow>
            let s = dropWhile (\<lambda>c. c = CHR '' '' \<or> c = CHR 0x09) s in
            if s \<noteq> [] \<and> hd s = CHR 0x0A then main_loop inp
            else if is_cd s then
              let d = drop 3 (butlast s) in
              P_chdir d (main_loop inp) (P_err (''cannot cd '' @ d @ [CHR 0x0A]) (main_loop inp))
            else fork1 (shell_child s) (P_wait (main_loop inp)))"
  by pat_completeness auto
termination
  by (relation "measure length", simp) (metis getcmd_shorter in_measure)+

declare main_loop.simps [simp del]

text \<open>\<open>n\<close> bounds the number of times the console is opened.\<close>

fun open_console :: "nat \<Rightarrow> proc \<Rightarrow> proc" where
  "open_console 0 p = P_spin"
| "open_console (Suc n) p =
     P_open ''console'' O_RDWR (\<lambda>fd. if 3 \<le> fd then P_close fd p else open_console n p) p"

definition shell_main :: "input \<Rightarrow> proc" where
  "shell_main inp = open_console 4 (main_loop inp)"

section \<open>Running a process\<close>

text \<open>
  What a descriptor stands for: something the process started with, a file opened with these flags, or an end of a
  pipe.  Descriptors are given out as the kernel does, the lowest free one first.
\<close>

datatype handle = Given nat | Opened string nat | Rd nat | Wr nat

type_synonym fdtab = "handle option list"

definition lowest :: "fdtab \<Rightarrow> nat option" where
  "lowest t = find (\<lambda>i. t ! i = None) [0..<length t]"

text \<open>Which files open, which programs are there, which directories can be entered, which forks succeed.\<close>

record sh_env =
  opens :: "string \<Rightarrow> nat \<Rightarrow> bool"
  programs :: "string \<Rightarrow> bool"
  dirs :: "string \<Rightarrow> bool"
  forks_ok :: "nat \<Rightarrow> bool"

text \<open>The forks and pipes so far, the programs executed with their arguments and descriptors, the messages.\<close>

record sh_st =
  forks :: nat
  pipes :: nat
  launched :: "(string list \<times> fdtab) list"
  said :: string
  cwds :: "string list"

text \<open>
  The process and its children, run one after the other: a child has its own descriptors, so that what it executes
  does not depend on when it runs.
\<close>

primrec run :: "sh_env \<Rightarrow> proc \<Rightarrow> fdtab \<Rightarrow> sh_st \<Rightarrow> sh_st res" where
  "run e (P_exit r) = (\<lambda>t s. Ok s)"
| "run e (P_exec f ws k) =
     (\<lambda>t s. if programs e f then Ok (s\<lparr>launched := launched s @ [(ws, t)]\<rparr>) else run e k t s)"
| "run e (P_close fd k) = (\<lambda>t s. run e k (t[fd := None]) s)"
| "run e (P_open f m k1 k2) =
     (\<lambda>t s. case lowest t of
        Some fd \<Rightarrow> if opens e f m then run e (k1 fd) (t[fd := Some (Opened f m)]) s else run e k2 t s
      | None \<Rightarrow> run e k2 t s)"
| "run e (P_dup fd k) =
     (\<lambda>t s. case lowest t of
        Some j \<Rightarrow> if fd < length t \<and> t ! fd \<noteq> None then run e k (t[j := t ! fd]) s else run e k t s
      | None \<Rightarrow> run e k t s)"
| "run e (P_pipe k1 k2) =
     (\<lambda>t s. case lowest t of
        Some p0 \<Rightarrow> (case lowest (t[p0 := Some (Rd (pipes s))]) of
            Some p1 \<Rightarrow> run e (k1 p0 p1) (t[p0 := Some (Rd (pipes s)), p1 := Some (Wr (pipes s))]) (s\<lparr>pipes := pipes s + 1\<rparr>)
          | None \<Rightarrow> run e k2 t s)
      | None \<Rightarrow> run e k2 t s)"
| "run e (P_fork c p f) =
     (\<lambda>t s. if forks_ok e (forks s) then bnd (run e c t (s\<lparr>forks := forks s + 1\<rparr>)) (run e p t) else run e f t s)"
| "run e (P_wait k) = (\<lambda>t s. run e k t s)"
| "run e (P_chdir d k1 k2) =
     (\<lambda>t s. if dirs e d then run e k1 t (s\<lparr>cwds := cwds s @ [d]\<rparr>) else run e k2 t s)"
| "run e (P_err m k) = (\<lambda>t s. run e k t (s\<lparr>said := said s @ m\<rparr>))"
| "run e P_spin = (\<lambda>t s. Spin)"

section \<open>What a command means\<close>

text \<open>The programs of a command, in order, each with the descriptors it is to have; \<open>k\<close> pipes exist already.\<close>

fun wiring :: "cmd \<Rightarrow> fdtab \<Rightarrow> nat \<Rightarrow> (string list \<times> fdtab) list \<times> nat" where
  "wiring (Exec ws) t k = (if ws = [] then [] else [(ws, t)], k)"
| "wiring (Redir c f m fd) t k = wiring c (t[fd := Some (Opened f (flags_of m))]) k"
| "wiring (Pipe c d) t k =
     (let (as, k1) = wiring c (t[1 := Some (Wr k)]) (k + 1);
          (bs, k2) = wiring d (t[0 := Some (Rd k)]) k1
      in (as @ bs, k2))"
| "wiring (Lst c d) t k =
     (let (as, k1) = wiring c t k; (bs, k2) = wiring d t k1 in (as @ bs, k2))"
| "wiring (Back c) t k = wiring c t k"

definition all_well :: "sh_env \<Rightarrow> bool" where
  "all_well e \<longleftrightarrow> (\<forall>f m. opens e f m) \<and> (\<forall>f. programs e f) \<and> (\<forall>n. forks_ok e n)"

text \<open>Standard input and output are open and two descriptors are free.\<close>

definition roomy :: "fdtab \<Rightarrow> bool" where
  "roomy t \<longleftrightarrow> 2 < length t \<and> t ! 0 \<noteq> None \<and> t ! 1 \<noteq> None \<and>
     (\<exists>i j. i < j \<and> j < length t \<and> t ! i = None \<and> t ! j = None)"

lemma lowest_Some: "lowest t = Some i \<longleftrightarrow> i < length t \<and> t ! i = None \<and> (\<forall>j < i. t ! j \<noteq> None)"
  by (auto simp: lowest_def find_Some_iff)

lemma roomy_keeps: "roomy t \<Longrightarrow> i < 2 \<Longrightarrow> roomy (t[i := Some h])"
proof -
  assume r: "roomy t" and i: "i < 2"
  then obtain a b where ab: "a < b" "b < length t" "t ! a = None" "t ! b = None" "2 < length t" "t ! 0 \<noteq> None" "t ! 1 \<noteq> None"
    by (auto simp: roomy_def)
  have "a \<noteq> 0" "a \<noteq> 1" using ab by (metis, metis)
  then have "t[i := Some h] ! a = None" "t[i := Some h] ! b = None" using ab i by auto
  moreover have "t[i := Some h] ! k \<noteq> None" if "k < 2" for k
    using ab that less_2_cases[of k] by (cases "k = i") auto
  ultimately show ?thesis using ab unfolding roomy_def by fastforce
qed

lemma lowest_std: "roomy t \<Longrightarrow> i < 2 \<Longrightarrow> lowest (t[i := None]) = Some i"
  by (auto simp: lowest_Some roomy_def dest!: less_2_cases)

lemma roomy_pipe:
  assumes "roomy t"
  obtains i j where "lowest t = Some i" "lowest (t[i := Some (Rd k)]) = Some j"
    "1 < i" "i < j" "j < length t" "t ! i = None" "t ! j = None"
proof -
  obtain a b where ab: "a < b" "b < length t" "t ! a = None" "t ! b = None" and s: "t ! 0 \<noteq> None" "t ! 1 \<noteq> None"
    using assms by (auto simp: roomy_def)
  define i where "i = (LEAST x. t ! x = None)"
  have i: "t ! i = None" "\<And>x. x < i \<Longrightarrow> t ! x \<noteq> None" "i \<le> a"
    unfolding i_def using ab(3) by (rule LeastI, blast dest: not_less_Least, intro Least_le)
  define j where "j = (LEAST x. i < x \<and> t ! x = None)"
  have "i < b \<and> t ! b = None" using i(3) ab by simp
  then have j: "i < j \<and> t ! j = None" "\<And>x. x < j \<Longrightarrow> \<not> (i < x \<and> t ! x = None)" "j \<le> b"
    unfolding j_def by (rule LeastI, blast dest: not_less_Least, intro Least_le)
  have i1: "i \<noteq> 0" "i \<noteq> 1" using i(1) s by (metis, metis)
  show ?thesis
  proof (rule that)
    show "lowest t = Some i" using i ab by (auto simp: lowest_Some)
    show "lowest (t[i := Some (Rd k)]) = Some j" using i(2) j ab by (auto simp: lowest_Some nth_list_update) (metis linorder_neqE_nat)
  qed (use i1 i j ab in auto)
qed


section \<open>The children of a command\<close>

text \<open>What a process that ran to its end leaves.\<close>

definition ran :: "sh_st res \<Rightarrow> sh_st \<Rightarrow> (string list \<times> fdtab) list \<times> nat \<Rightarrow> bool" where
  "ran m s w \<longleftrightarrow> (\<exists>n. m = Ok (s\<lparr>forks := n, pipes := snd w, launched := launched s @ fst w\<rparr>))"

lemma ranI: "m = Ok (s\<lparr>forks := n, pipes := snd w, launched := launched s @ fst w\<rparr>) \<Longrightarrow> ran m s w"
  by (auto simp: ran_def)

lemma ran_then:
  assumes "ran m (s\<lparr>forks := n, pipes := k\<rparr>) (as, k1)"
    and "\<And>n'. ran (f (s\<lparr>forks := n', pipes := k1, launched := launched s @ as\<rparr>)) (s\<lparr>forks := n', pipes := k1, launched := launched s @ as\<rparr>) (bs, k2)"
  shows "ran (bnd m f) s (as @ bs, k2)"
proof -
  obtain n' where "m = Ok (s\<lparr>forks := n', pipes := k1, launched := launched s @ as\<rparr>)" using assms(1) by (auto simp: ran_def)
  with assms(2)[of n'] show ?thesis by (auto simp: ran_def)
qed

lemma run_fork1: "all_well e \<Longrightarrow> run e (fork1 c p) t s = bnd (run e c t (s\<lparr>forks := forks s + 1\<rparr>)) (run e p t)"
  by (simp add: fork1_def all_well_def)

text \<open>A child of a pipe moves its end to the standard descriptor and closes both ends.\<close>

lemma run_pipe_end:
  assumes t: "roomy t" and i: "i < 2" and p: "1 < p" "p < q" "q < length t" "t ! p = None" "t ! q = None"
    and h: "x \<in> {p, q}" "t[p := Some a, q := Some b] ! x = Some h"
  shows "run e (P_close i (P_dup x (P_close p (P_close q k)))) (t[p := Some a, q := Some b]) s = run e k (t[i := Some h]) s"
proof -
  let ?u = "t[p := Some a, q := Some b]"
  have d: "i < p" "i < q" using i p by auto
  have l: "i < length t" using d p by simp
  have std: "t ! j \<noteq> None" if "j < 2" for j using t that less_2_cases[of j] by (auto simp: roomy_def)
  have lo: "lowest (?u[i := None]) = Some i"
    unfolding lowest_Some using l d p std i by (auto simp: nth_list_update)
  have x: "?u[i := None] ! x = Some h" "x < length t" using h d p l by (auto simp: nth_list_update split: if_splits)
  have "?u[i := None, i := Some h, p := None, q := None] = t[i := Some h]"
    by (rule nth_equalityI) (use p d in \<open>auto simp: nth_list_update\<close>)
  then show ?thesis using lo x by simp
qed

lemma run_wiring:
  assumes "all_well e" "cmd_ok c" "roomy t"
  shows "ran (run e (runcmd c) t s) s (wiring c t (pipes s))"
  using assms(2,3)
proof (induction c arbitrary: t s)
  case (Exec ws)
  then show ?case using assms(1)
    by (cases ws) (auto intro!: ranI[where n = "forks s"] simp: all_well_def)
next
  case (Redir c f m fd)
  have i: "fd < 2" using Redir.prems by (cases m) auto
  have l: "fd < length t" using i Redir.prems by (simp add: roomy_def)
  have "ran (run e (runcmd c) (t[fd := Some (Opened f (flags_of m))]) s) s (wiring c (t[fd := Some (Opened f (flags_of m))]) (pipes s))"
    by (rule Redir.IH) (use Redir.prems roomy_keeps[OF _ i] in auto)
  then show ?case using lowest_std[OF Redir.prems(2) i] assms(1) by (simp add: all_well_def)
next
  case (Lst c d)
  obtain as k1 where a: "wiring c t (pipes s) = (as, k1)" by (cases "wiring c t (pipes s)")
  obtain bs k2 where b: "wiring d t k1 = (bs, k2)" by (cases "wiring d t k1")
  have A: "ran (run e (runcmd c) t (s\<lparr>forks := forks s + 1, pipes := pipes s\<rparr>)) (s\<lparr>forks := forks s + 1, pipes := pipes s\<rparr>) (as, k1)"
    using Lst.IH(1)[of t "s\<lparr>forks := forks s + 1, pipes := pipes s\<rparr>"] Lst.prems by (simp add: a)
  have B: "ran (run e (runcmd d) t u) u (bs, k2)" if "pipes u = k1" for u
    using Lst.IH(2)[of t u] Lst.prems by (simp add: that b)
  show ?case using ran_then[OF A, of "run e (P_wait (runcmd d)) t"] B by (simp add: a b run_fork1[OF assms(1)])
next
  case (Back c)
  obtain as k1 where a: "wiring c t (pipes s) = (as, k1)" by (cases "wiring c t (pipes s)")
  have A: "ran (run e (runcmd c) t (s\<lparr>forks := forks s + 1, pipes := pipes s\<rparr>)) (s\<lparr>forks := forks s + 1, pipes := pipes s\<rparr>) (as, k1)"
    using Back.IH[of t "s\<lparr>forks := forks s + 1, pipes := pipes s\<rparr>"] Back.prems by (simp add: a)
  have "ran (bnd (run e (runcmd c) t (s\<lparr>forks := forks s + 1\<rparr>)) (run e (P_exit 0) t)) s (as @ [], k1)"
    using ran_then[OF A, of "run e (P_exit 0) t" "[]" k1] by (fastforce simp: ran_def)
  then show ?case by (simp add: a run_fork1[OF assms(1)])
next
  case (Pipe c d)
  obtain p q where p: "lowest t = Some p" "lowest (t[p := Some (Rd (pipes s))]) = Some q"
    "1 < p" "p < q" "q < length t" "t ! p = None" "t ! q = None" using roomy_pipe[OF Pipe.prems(2)] by blast
  let ?u = "t[p := Some (Rd (pipes s)), q := Some (Wr (pipes s))]"
  obtain as k1 where a: "wiring c (t[1 := Some (Wr (pipes s))]) (pipes s + 1) = (as, k1)" by (cases "wiring c (t[1 := Some (Wr (pipes s))]) (pipes s + 1)")
  obtain bs k2 where b: "wiring d (t[0 := Some (Rd (pipes s))]) k1 = (bs, k2)" by (cases "wiring d (t[0 := Some (Rd (pipes s))]) k1")
  let ?s = "s\<lparr>forks := forks s + 1, pipes := pipes s + 1\<rparr>"
  let ?left = "P_close 1 (P_dup q (P_close p (P_close q (runcmd c))))"
  let ?right = "P_close 0 (P_dup p (P_close p (P_close q (runcmd d))))"
  let ?last = "P_close p (P_close q (P_wait (P_wait (P_exit 0))))"
  have A: "ran (run e ?left ?u ?s) ?s (as, k1)"
  proof -
    have "run e ?left ?u ?s = run e (runcmd c) (t[1 := Some (Wr (pipes s))]) ?s"
      by (rule run_pipe_end[OF Pipe.prems(2) _ p(3-7)]) (use p in auto)
    moreover have "ran (run e (runcmd c) (t[1 := Some (Wr (pipes s))]) ?s) ?s (wiring c (t[1 := Some (Wr (pipes s))]) (pipes ?s))"
      by (rule Pipe.IH(1)) (use Pipe.prems roomy_keeps[of t 1] in auto)
    moreover have "pipes ?s = pipes s + 1" by simp
    ultimately show ?thesis by (simp only: a)
  qed
  have B: "ran (run e ?right ?u v) v (bs, k2)" if v: "pipes v = k1" for v
  proof -
    have "run e ?right ?u v = run e (runcmd d) (t[0 := Some (Rd (pipes s))]) v"
      by (rule run_pipe_end[OF Pipe.prems(2) _ p(3-7)]) (use p in auto)
    then show ?thesis using Pipe.IH(2)[of "t[0 := Some (Rd (pipes s))]" v] Pipe.prems roomy_keeps[of t 0] by (simp add: v b)
  qed
  have B': "ran (run e (fork1 ?right ?last) ?u v) v (bs, k2)" if v: "pipes v = k1" for v
  proof -
    have "ran (run e ?right ?u (v\<lparr>forks := forks v + 1, pipes := pipes v\<rparr>)) (v\<lparr>forks := forks v + 1, pipes := pipes v\<rparr>) (bs, k2)"
      by (rule B) (simp add: v)
    from ran_then[OF this, of "run e ?last ?u" "[]" k2] show ?thesis
      by (fastforce simp: run_fork1[OF assms(1)] ran_def)
  qed
  have "ran (bnd (run e ?left ?u ?s) (run e (fork1 ?right ?last) ?u)) s (as @ bs, k2)"
    by (rule ran_then[OF A]) (simp add: B')
  moreover have "run e (runcmd (Pipe c d)) t s = bnd (run e ?left ?u ?s) (run e (fork1 ?right ?last) ?u)"
  proof -
    have eq: "s\<lparr>pipes := Suc (pipes s), forks := Suc (forks s)\<rparr> = s\<lparr>forks := Suc (forks s), pipes := Suc (pipes s)\<rparr>" by simp
    show ?thesis by (simp add: p run_fork1[OF assms(1)] del: run.simps(3,5), subst eq, rule refl)
  qed
  moreover have "wiring (Pipe c d) t (pipes s) = (as @ bs, k2)" by (simp only: wiring.simps a b Let_def prod.case)
  ultimately show ?case by (simp only:)
qed


section \<open>A line of input\<close>

text \<open>\<open>parsecmd\<close> on a written command and the newline after it, with or without the blank before it.\<close>

lemma parsecmd_line: "cmd_ok c \<Longrightarrow> unparse c = CHR '' '' # u \<Longrightarrow> parsecmd (u @ [CHR 0x0A]) = Ok c"
proof -
  assume c: "cmd_ok c" and u: "unparse c = CHR '' '' # u"
  have L: "L_ok c" using reads_back[OF c] by blast
  have nl: "skip_white [CHR 0x0A] = []" by (simp add: skip_white_def whitespace_def)
  have t: "stops [CHR 0x0A]" using nl by (simp add: stops_def bound_def word_char_def whitespace_def)
  have "parseline (parse_depth (u @ [CHR 0x0A])) (text_of 3 c @ [CHR 0x0A]) = Ok (c, [])"
    using L[unfolded L_ok_def, rule_format, of "[CHR 0x0A]" "parse_depth (u @ [CHR 0x0A])"] t nothing_ahead[OF nl] u nl
    by (simp add: parse_depth_def unparse_def)
  moreover have "parseline n (text_of 3 c @ [CHR 0x0A]) = parseline n (u @ [CHR 0x0A])" for n
    using parser_skip(3)[of n "CHR '' '' # u @ [CHR 0x0A]"] parser_skip(3)[of n "u @ [CHR 0x0A]"] u by (simp add: unparse_def)
  ultimately show ?thesis by (simp add: parsecmd_def skip_white_def)
qed

text \<open>The shell, told a command that fits in its buffer, executes what the command means and asks for the next.\<close>

lemma getcmd_line:
  "length l + 2 \<le> BUFSZ \<Longrightarrow> set l \<inter> {CHR 0x00, CHR 0x0A, CHR 0x0D} = {} \<Longrightarrow>
   getcmd (map Some (l @ [CHR 0x0A]) @ inp) = (Some (l @ [CHR 0x0A]), inp)"
proof -
  assume a: "length l + 2 \<le> BUFSZ" "set l \<inter> {CHR 0x00, CHR 0x0A, CHR 0x0D} = {}"
  have "takeWhile (\<lambda>c. c \<noteq> CHR 0x00) (l @ [CHR 0x0A]) = l @ [CHR 0x0A]" using a(2) by (auto simp: takeWhile_eq_all_conv)
  then show ?thesis using gets_line[of l BUFSZ inp] a by (simp add: getcmd_def Let_def)
qed

lemma main_loop_line:
  assumes e: "all_well e" and c: "cmd_ok c" and t: "roomy t"
    and u: "unparse c = CHR '' '' # u" and first: "u \<noteq> []" "hd u \<notin> {CHR '' '', CHR 0x09}" "\<not> is_cd (u @ [CHR 0x0A])"
    and fits: "length (unparse c) + 2 \<le> BUFSZ" "set (unparse c) \<inter> {CHR 0x00, CHR 0x0A, CHR 0x0D} = {}"
  shows "\<exists>n. run e (main_loop (map Some (unparse c @ [CHR 0x0A]) @ inp)) t s =
    run e (main_loop inp) t (s\<lparr>said := said s @ ''$ '', forks := n, pipes := snd (wiring c t (pipes s)), launched := launched s @ fst (wiring c t (pipes s))\<rparr>)"
proof -
  let ?l = "unparse c @ [CHR 0x0A]"
  let ?s = "s\<lparr>said := said s @ ''$ '', forks := forks s + 1\<rparr>"
  have d: "dropWhile (\<lambda>c. c = CHR '' '' \<or> c = CHR 0x09) ?l = u @ [CHR 0x0A]" using u first by (cases u) auto
  have h: "hd (u @ [CHR 0x0A]) \<noteq> CHR 0x0A" using fits(2) u first by (cases u) auto
  have "main_loop (map Some ?l @ inp) = P_err ''$ '' (fork1 (runcmd c) (P_wait (main_loop inp)))"
    by (subst main_loop.simps) (simp only: getcmd_line[OF fits] prod.case option.case Let_def d h first(3) shell_child_def
        parsecmd_line[OF c u] res.case simp_thms if_False)
  moreover obtain n where "run e (runcmd c) t ?s = Ok (?s\<lparr>forks := n, pipes := snd (wiring c t (pipes s)), launched := launched s @ fst (wiring c t (pipes s))\<rparr>)"
    using run_wiring[OF e c t, of ?s] by (auto simp: ran_def)
  ultimately show ?thesis by (intro exI[of _ n]) (simp add: run_fork1[OF e])
qed

end
