(* ===== verification/U_Malloc.thy ===== *)
theory U_Malloc
  imports Prelude
begin

text \<open>
  \<open>xv6/user/umalloc.c\<close>: the allocator over a circular list of free blocks in order of their addresses.  An address
  counts headers (16 bytes), as the pointer arithmetic of the code does; \<open>ptr\<close> and \<open>sz\<close> are the two fields of the
  header at an address.  A size is a \<open>nat\<close>: the machine's memory has far fewer than 2^32 headers.
\<close>

section \<open>The code\<close>

text \<open>\<open>brk\<close> is the end of the process's memory, which only \<open>sbrk\<close> moves; 0 is the null pointer.\<close>

record heap =
  ptr :: "nat \<Rightarrow> nat"
  sz :: "nat \<Rightarrow> nat"
  freep :: nat
  brk :: nat

text \<open>The walk of \<open>free\<close> to the block before \<open>bp\<close>; \<open>None\<close> is a walk that does not end.\<close>

partial_function (option) free_spot :: "heap \<Rightarrow> nat \<Rightarrow> nat \<Rightarrow> nat option" where
  "free_spot h bp p =
     (if p < bp \<and> bp < ptr h p then Some p
      else if ptr h p \<le> p \<and> (p < bp \<or> bp < ptr h p) then Some p
      else free_spot h bp (ptr h p))"

definition join_next :: "nat \<Rightarrow> nat \<Rightarrow> heap \<Rightarrow> heap" where
  "join_next bp p h =
     (if bp + sz h bp = ptr h p then
        h\<lparr>sz := (sz h)(bp := sz h bp + sz h (ptr h p)), ptr := (ptr h)(bp := ptr h (ptr h p))\<rparr>
      else h\<lparr>ptr := (ptr h)(bp := ptr h p)\<rparr>)"

definition join_prev :: "nat \<Rightarrow> nat \<Rightarrow> heap \<Rightarrow> heap" where
  "join_prev bp p h =
     (if p + sz h p = bp then
        h\<lparr>sz := (sz h)(p := sz h p + sz h bp), ptr := (ptr h)(p := ptr h bp)\<rparr>
      else h\<lparr>ptr := (ptr h)(p := bp)\<rparr>)"

definition free :: "nat \<Rightarrow> heap \<Rightarrow> heap option" where
  "free ap h =
     (let bp = ap - 1 in
      Option.bind (free_spot h bp (freep h)) (\<lambda>p.
        Some ((join_prev bp p (join_next bp p h))\<lparr>freep := p\<rparr>)))"

type_synonym sbrk = "int \<Rightarrow> heap \<Rightarrow> nat option \<times> heap"

text \<open>\<open>morecore\<close>: the new \<open>freep\<close>, and 0 when there is no memory.  The \<open>int\<close> of \<open>sbrk\<close> keeps 32 bits.\<close>

definition morecore :: "sbrk \<Rightarrow> nat \<Rightarrow> heap \<Rightarrow> (nat \<times> heap) option" where
  "morecore sbrk nu h =
     (let nu = (if nu < 4096 then 4096 else nu) in
      case sbrk (to_int32 (int (nu * 16))) h of
        (None, h) \<Rightarrow> Some (0, h)
      | (Some hp, h) \<Rightarrow>
          Option.bind (free (hp + 1) (h\<lparr>sz := (sz h)(hp := nu)\<rparr>)) (\<lambda>h. Some (freep h, h)))"

text \<open>Taking \<open>nunits\<close> from the block \<open>p\<close>: the whole block, or its tail.\<close>

definition take_block :: "nat \<Rightarrow> nat \<Rightarrow> nat \<Rightarrow> heap \<Rightarrow> nat \<times> heap" where
  "take_block nunits prevp p h =
     (if sz h p = nunits then (p + 1, h\<lparr>ptr := (ptr h)(prevp := ptr h p), freep := prevp\<rparr>)
      else
        let left = sz h p - nunits; q = p + left in
        (q + 1, h\<lparr>sz := (sz h)(p := left, q := nunits), freep := prevp\<rparr>))"

partial_function (option) malloc_loop :: "sbrk \<Rightarrow> nat \<Rightarrow> nat \<Rightarrow> nat \<Rightarrow> heap \<Rightarrow> (nat \<times> heap) option" where
  "malloc_loop sbrk nunits prevp p h =
     (if nunits \<le> sz h p then Some (take_block nunits prevp p h)
      else if p = freep h then
        Option.bind (morecore sbrk nunits h) (\<lambda>r. case r of (p, h) \<Rightarrow>
          if p = 0 then Some (0, h) else malloc_loop sbrk nunits p (ptr h p) h)
      else malloc_loop sbrk nunits p (ptr h p) h)"

definition units_for :: "nat \<Rightarrow> nat" where
  "units_for nbytes = (nbytes + 16 - 1) div 16 + 1"

text \<open>The address of the static \<open>base\<close> is \<open>b\<close>.\<close>

definition malloc :: "sbrk \<Rightarrow> nat \<Rightarrow> nat \<Rightarrow> heap \<Rightarrow> (nat \<times> heap) option" where
  "malloc sbrk b nbytes h =
     (let nunits = units_for nbytes;
          h = (if freep h = 0 then h\<lparr>ptr := (ptr h)(b := b), freep := b, sz := (sz h)(b := 0)\<rparr> else h)
      in malloc_loop sbrk nunits (freep h) (ptr h (freep h)) h)"

section \<open>The list of free blocks\<close>

fun chain :: "(nat \<Rightarrow> nat) \<Rightarrow> nat \<Rightarrow> nat list \<Rightarrow> nat \<Rightarrow> bool" where
  "chain f a [] b = (f a = b)"
| "chain f a (x # xs) b = (f a = x \<and> chain f x xs b)"

text \<open>Blocks in order of their addresses, the first behind \<open>a\<close>, with a gap between two neighbours.\<close>

fun spaced :: "(nat \<Rightarrow> nat) \<Rightarrow> nat \<Rightarrow> nat list \<Rightarrow> bool" where
  "spaced s a [] = True"
| "spaced s a (x # xs) = (a < x \<and> 0 < s x \<and> spaced s (x + s x) xs)"

definition block :: "heap \<Rightarrow> nat \<Rightarrow> nat set" where
  "block h x = {x ..< x + sz h x}"

text \<open>The free memory.\<close>

definition units :: "heap \<Rightarrow> nat list \<Rightarrow> nat set" where
  "units h xs = (\<Union>x \<in> set xs. block h x)"

definition heap_ok :: "nat \<Rightarrow> heap \<Rightarrow> nat list \<Rightarrow> bool" where
  "heap_ok b h xs \<longleftrightarrow> 0 < b \<and> b < brk h \<and> sz h b = 0 \<and> chain (ptr h) b xs b \<and> spaced (sz h) b xs \<and>
     freep h \<in> set (b # xs) \<and> units h xs \<subseteq> {..< brk h}"

lemma chain_ptr_append: "chain f a (xs @ y # ys) b \<longleftrightarrow> chain f a xs y \<and> chain f y ys b"
  by (induction xs arbitrary: a) auto

lemma chain_ptr_cong: "(\<And>x. x \<in> set (a # xs) \<Longrightarrow> f x = g x) \<Longrightarrow> chain f a xs b = chain g a xs b"
  by (induction xs arbitrary: a) auto

lemma spaced_cong: "(\<And>x. x \<in> set xs \<Longrightarrow> s x = t x) \<Longrightarrow> spaced s a xs = spaced t a xs"
  by (induction xs arbitrary: a) auto

lemma spaced_less: "spaced s a xs \<Longrightarrow> x \<in> set xs \<Longrightarrow> a < x \<and> 0 < s x"
  by (induction xs arbitrary: a) fastforce+

lemma spaced_distinct: "spaced s a xs \<Longrightarrow> distinct xs"
  by (induction xs arbitrary: a) (use spaced_less in fastforce)+

text \<open>The end of the blocks of a list that starts behind \<open>a\<close>.\<close>

fun end_of :: "(nat \<Rightarrow> nat) \<Rightarrow> nat \<Rightarrow> nat list \<Rightarrow> nat" where
  "end_of s a [] = a"
| "end_of s a (x # xs) = end_of s (x + s x) xs"

lemma spaced_append: "spaced s a (xs @ ys) \<longleftrightarrow> spaced s a xs \<and> spaced s (end_of s a xs) ys"
  by (induction xs arbitrary: a) auto

lemma end_of_append [simp]: "end_of s a (xs @ [x]) = x + s x"
  by (induction xs arbitrary: a) auto

lemma end_of_cong: "(\<And>x. x \<in> set xs \<Longrightarrow> s x = t x) \<Longrightarrow> end_of s a xs = end_of t a xs"
  by (induction xs arbitrary: a) auto

lemma end_of_ge: "spaced s a xs \<Longrightarrow> a \<le> end_of s a xs \<and> (\<forall>x \<in> set xs. x + s x \<le> end_of s a xs)"
  by (induction xs arbitrary: a) force+

lemma units_append: "units h (xs @ ys) = units h xs \<union> units h ys"
  by (auto simp: units_def)

lemma units_Cons: "units h (x # xs) = block h x \<union> units h xs"
  by (auto simp: units_def)

lemma units_Nil [simp]: "units h [] = {}"
  by (simp add: units_def)

lemma units_cong: "(\<And>x. x \<in> set xs \<Longrightarrow> sz h x = sz k x) \<Longrightarrow> units h xs = units k xs"
  by (auto simp: units_def block_def)

text \<open>The free blocks before and behind a block that is not free.\<close>

lemma split_blocks:
  assumes "spaced s a xs" "\<forall>x \<in> set xs. {x ..< x + s x} \<inter> {bp ..< bp + n} = {}" "0 < n" "a \<le> bp"
  obtains us vs where "xs = us @ vs" "\<forall>x \<in> set us. x < bp" "\<forall>x \<in> set vs. bp < x"
    "end_of s a us \<le> bp" "vs = [] \<or> bp + n \<le> hd vs"
  using assms
proof (induction xs arbitrary: a thesis)
  case Nil
  then show ?case by simp
next
  case (Cons x xs)
  have d: "{x ..< x + s x} \<inter> {bp ..< bp + n} = {}" and p: "0 < s x" "a < x" using Cons.prems by auto
  consider "x + s x \<le> bp" | "bp + n \<le> x" using d p Cons.prems(4) by (auto simp: disjoint_iff not_le)
  then show ?case
  proof cases
    case 1
    obtain us vs where s: "xs = us @ vs" "\<forall>x \<in> set us. x < bp" "\<forall>x \<in> set vs. bp < x" "end_of s (x + s x) us \<le> bp" "vs = [] \<or> bp + n \<le> hd vs"
      by (rule Cons.IH[of "x + s x"]) (use Cons.prems 1 in auto)
    show ?thesis by (rule Cons.prems(1)[of "x # us" vs]) (use s 1 p in auto)
  next
    case 2
    have "\<forall>y \<in> set (x # xs). bp < y" using spaced_less[of s "x + s x" xs] Cons.prems 2 by fastforce
    then show ?thesis by (intro Cons.prems(1)[of "[]" "x # xs"]) (use Cons.prems 2 in auto)
  qed
qed


section \<open>The walk of free\<close>

lemma spaced_sorted: "spaced s b xs \<Longrightarrow> sorted_wrt (<) (b # xs)"
proof (induction xs arbitrary: b)
  case (Cons x xs)
  then have "sorted_wrt (<) ((x + s x) # xs)" "b < x" "0 < s x" by auto
  then show ?case by fastforce
qed simp

lemma next_of:
  assumes "sorted_wrt (<) (b # xs)" "chain f b xs c" "x \<in> set (b # xs)"
  shows "(f x = c \<and> (\<forall>z \<in> set (b # xs). z \<le> x)) \<or> (f x \<in> set xs \<and> x < f x \<and> (\<forall>z \<in> set (b # xs). z \<le> x \<or> f x \<le> z))"
  using assms
proof (induction xs arbitrary: b)
  case (Cons y ys)
  show ?case
  proof (cases "x = b")
    case True
    then show ?thesis using Cons.prems by fastforce
  next
    case False
    then have "(f x = c \<and> (\<forall>z \<in> set (y # ys). z \<le> x)) \<or> (f x \<in> set ys \<and> x < f x \<and> (\<forall>z \<in> set (y # ys). z \<le> x \<or> f x \<le> z))"
      using Cons.prems by (intro Cons.IH) auto
    moreover have "b \<le> x" using Cons.prems False by fastforce
    ultimately show ?thesis by auto
  qed
qed simp

definition stop :: "heap \<Rightarrow> nat \<Rightarrow> nat \<Rightarrow> bool" where
  "stop h bp p \<longleftrightarrow> p < bp \<and> bp < ptr h p \<or> ptr h p \<le> p \<and> (p < bp \<or> bp < ptr h p)"

lemma free_spot_unfold: "free_spot h bp p = (if stop h bp p then Some p else free_spot h bp (ptr h p))"
  by (subst free_spot.simps) (auto simp: stop_def)

text \<open>\<open>t\<close> is the block before \<open>bp\<close>.\<close>

definition prec :: "nat \<Rightarrow> nat list \<Rightarrow> nat \<Rightarrow> bool" where
  "prec bp L t \<longleftrightarrow> t \<in> set L \<and> t < bp \<and> (\<forall>z \<in> set L. z \<le> t \<or> bp < z)"

lemma stop_iff:
  assumes "sorted_wrt (<) (b # xs)" "chain (ptr h) b xs b" "prec bp (b # xs) t" "x \<in> set (b # xs)"
  shows "stop h bp x \<longleftrightarrow> x = t"
proof -
  have b: "b < bp" "\<forall>z \<in> set (b # xs). b \<le> z" using assms(1,3) by (force simp: prec_def)+
  note t = assms(3)[unfolded prec_def]
  from next_of[OF assms(1,2,4)] show ?thesis
  proof
    assume n: "ptr h x = b \<and> (\<forall>z \<in> set (b # xs). z \<le> x)"
    then have "stop h bp x \<longleftrightarrow> x < bp" using b assms(4) by (auto simp: stop_def)
    then show ?thesis using t n assms(4) by (metis le_antisym not_less_iff_gr_or_eq)
  next
    assume n: "ptr h x \<in> set xs \<and> x < ptr h x \<and> (\<forall>z \<in> set (b # xs). z \<le> x \<or> ptr h x \<le> z)"
    then have s: "stop h bp x \<longleftrightarrow> x < bp \<and> bp < ptr h x" by (auto simp: stop_def)
    show ?thesis
    proof
      assume "stop h bp x"
      then have "x < bp" "bp < ptr h x" using s by auto
      then have "x \<le> t" "t \<le> x" using t n assms(4) by fastforce+
      then show "x = t" by simp
    next
      assume x: "x = t"
      have "ptr h x \<le> t \<or> bp < ptr h x" using t n by auto
      then show "stop h bp x" using s x t n by auto
    qed
  qed
qed

lemma free_spot_finds:
  assumes L: "sorted_wrt (<) (b # xs)" "chain (ptr h) b xs b" "prec bp (b # xs) t" and x: "x \<in> set (b # xs)"
  shows "free_spot h bp x = Some t"
proof -
  note t = L(3)[unfolded prec_def] and st = stop_iff[OF L] and nx = next_of[OF L(1,2)]
  have up: "free_spot h bp x = Some t" if "x \<in> set (b # xs)" "x \<le> t" for x
    using that
  proof (induction "t - x" arbitrary: x rule: less_induct)
    case less
    show ?case
    proof (cases "x = t")
      case True
      then show ?thesis using st[OF less.prems(1)] by (simp add: free_spot_unfold)
    next
      case False
      then have "x < t" using less.prems by simp
      then have n: "ptr h x \<in> set xs" "x < ptr h x" "ptr h x \<le> t" using nx[OF less.prems(1)] t by auto
      then have "free_spot h bp (ptr h x) = Some t" using \<open>x < t\<close> by (intro less.hyps) auto
      then show ?thesis using st[OF less.prems(1)] False by (simp add: free_spot_unfold[of h bp x])
    qed
  qed
  define M where "M = Max (set (b # xs))"
  have M: "x \<le> M" if "x \<in> set (b # xs)" for x using that by (simp add: M_def del: Max_insert)
  show ?thesis using x
  proof (induction "M - x" arbitrary: x rule: less_induct)
    case less
    show ?case
    proof (cases "x \<le> t")
      case True
      then show ?thesis using up less.prems by blast
    next
      case False
      have "free_spot h bp (ptr h x) = Some t"
      proof (cases "x < ptr h x \<and> ptr h x \<in> set xs")
        case True
        then show ?thesis using M[of "ptr h x"] by (intro less.hyps) auto
      next
        case False
        then have "ptr h x = b" using nx[OF less.prems] by blast
        moreover have "b \<le> t" using L(1) t by force
        ultimately show ?thesis using up[of b] by simp
      qed
      then show ?thesis using st[OF less.prems] False by (simp add: free_spot_unfold[of h bp x])
    qed
  qed
qed

section \<open>Freeing\<close>

text \<open>The block at \<open>bp\<close> is nobody else's and lies in the process's memory.\<close>

definition to_free :: "nat \<Rightarrow> heap \<Rightarrow> nat list \<Rightarrow> nat \<Rightarrow> bool" where
  "to_free b h xs bp \<longleftrightarrow> b < bp \<and> 0 < sz h bp \<and> bp + sz h bp \<le> brk h \<and> block h bp \<inter> units h xs = {}"

text \<open>Outside of the headers of the free list nothing changes.\<close>

definition same_outside :: "nat set \<Rightarrow> heap \<Rightarrow> heap \<Rightarrow> bool" where
  "same_outside A h k \<longleftrightarrow> (\<forall>x. x \<notin> A \<longrightarrow> ptr k x = ptr h x \<and> sz k x = sz h x)"

lemma last_greatest: "sorted_wrt (<) (b # xs) \<Longrightarrow> z \<in> set (b # xs) \<Longrightarrow> z \<le> last (b # xs)" for b :: nat
  by (induction xs arbitrary: b) force+

lemma in_units: "spaced (sz h) b xs \<Longrightarrow> x \<in> set xs \<Longrightarrow> x \<in> units h xs"
  using spaced_less by (fastforce simp: units_def block_def)

text \<open>What follows the first link of a chain.\<close>

definition chain_rest :: "(nat \<Rightarrow> nat) \<Rightarrow> nat list \<Rightarrow> nat \<Rightarrow> bool" where
  "chain_rest f xs c = (case xs of [] \<Rightarrow> True | x # xs \<Rightarrow> chain f x xs c)"

lemma chain_iff: "chain f a xs c \<longleftrightarrow> f a = hd (xs @ [c]) \<and> chain_rest f xs c"
  by (cases xs) (auto simp: chain_rest_def)

lemma chain_split: "chain f a (us @ vs) c \<longleftrightarrow> chain f a us (hd (vs @ [c])) \<and> chain_rest f vs c"
  by (cases vs) (auto simp: chain_rest_def chain_ptr_append)

lemma chain_rest_cong: "(\<And>x. x \<in> set xs \<Longrightarrow> f x = g x) \<Longrightarrow> chain_rest f xs c = chain_rest g xs c"
  by (cases xs) (auto simp: chain_rest_def intro!: chain_ptr_cong)

lemma chain_upd_last:
  "chain f a xs c \<Longrightarrow> distinct (a # xs) \<Longrightarrow> chain (f(last (a # xs) := d)) a xs d"
proof (induction xs arbitrary: a)
  case (Cons x xs)
  have "chain (f(last (x # xs) := d)) x xs d" by (rule Cons.IH) (use Cons.prems in auto)
  moreover have "a \<noteq> last (x # xs)" using Cons.prems last_in_set[of "x # xs"] by auto
  then have "(f(last (x # xs) := d)) a = x" using Cons.prems by simp
  moreover have "last (a # x # xs) = last (x # xs)" by simp
  ultimately show ?case unfolding chain.simps by metis
qed simp

lemma chain_hd_last: "chain f a xs c \<Longrightarrow> f (last (a # xs)) = c"
  by (induction xs arbitrary: a) auto

lemma join_next_ok:
  assumes "ptr h t = hd (vs @ [b])" "chain_rest (ptr h) vs b" "spaced (sz h) e vs" "\<forall>x \<in> set vs. bp < x"
    and "vs = [] \<or> bp + sz h bp \<le> hd vs" "0 < sz h bp" "b < bp"
  obtains ws n where "join_next bp t h = h\<lparr>sz := (sz h)(bp := n), ptr := (ptr h)(bp := hd (ws @ [b]))\<rparr>"
    "chain_rest (ptr h) ws b" "spaced (sz h) (bp + n) ws" "set ws \<subseteq> set vs" "0 < n"
    "{bp ..< bp + n} \<union> units h ws = block h bp \<union> units h vs"
proof (cases "bp + sz h bp = ptr h t")
  case True
  then obtain v vs' where vs: "vs = v # vs'" using assms(1,6,7) by (cases vs) auto
  show ?thesis
  proof (rule that[of "vs'" "sz h bp + sz h v"])
    show "join_next bp t h = h\<lparr>sz := (sz h)(bp := sz h bp + sz h v), ptr := (ptr h)(bp := hd (vs' @ [b]))\<rparr>"
      using True assms(1,2) vs by (simp add: join_next_def chain_rest_def chain_iff)
    show "{bp ..< bp + (sz h bp + sz h v)} \<union> units h vs' = block h bp \<union> units h vs"
      using True assms(1) vs by (auto simp: units_Cons block_def)
    have "chain (ptr h) v vs' b" using assms(2) vs by (simp add: chain_rest_def)
    then show "chain_rest (ptr h) vs' b" by (simp only: chain_iff)
    show "spaced (sz h) (bp + (sz h bp + sz h v)) vs'" using assms(1,3) vs True by (simp add: add.assoc[symmetric])
  qed (use vs assms in auto)
next
  case False
  show ?thesis
  proof (rule that[of vs "sz h bp"])
    have "sz h = (sz h)(bp := sz h bp)" by simp
    then show "join_next bp t h = h\<lparr>sz := (sz h)(bp := sz h bp), ptr := (ptr h)(bp := hd (vs @ [b]))\<rparr>"
      using False assms(1) by (simp add: join_next_def)
    show "spaced (sz h) (bp + sz h bp) vs" using False assms(1,3,5) by (cases vs) auto
  qed (use assms in \<open>auto simp: block_def\<close>)
qed

lemma free_ok:
  assumes h: "heap_ok b h xs" and f: "to_free b h xs bp"
  obtains k ys where "free (bp + 1) h = Some k" "heap_ok b k ys" "units k ys = units h xs \<union> block h bp"
    "brk k = brk h" "same_outside (insert b (units h xs \<union> block h bp)) h k"
proof -
  note H = h[unfolded heap_ok_def] and F = f[unfolded to_free_def] and fin = that
  let ?s = "sz h"
  have "\<forall>x \<in> set xs. {x ..< x + ?s x} \<inter> {bp ..< bp + ?s bp} = {}" using F by (fastforce simp: units_def block_def)
  then obtain us vs where xs: "xs = us @ vs" "\<forall>x \<in> set us. x < bp" "\<forall>x \<in> set vs. bp < x"
    "end_of ?s b us \<le> bp" "vs = [] \<or> bp + ?s bp \<le> hd vs"
    using split_blocks[of ?s b xs bp "?s bp"] H F by (metis less_imp_le)
  define t where "t = last (b # us)"
  have so: "sorted_wrt (<) (b # xs)" using H spaced_sorted by blast
  have t: "prec bp (b # xs) t"
  proof -
    have "t \<in> set (b # us)" unfolding t_def by (rule last_in_set) simp
    moreover have "\<forall>z \<in> set (b # us). z \<le> t"
    proof -
      have "sorted_wrt (<) (b # us)" using so by (auto simp: xs sorted_wrt_append)
      then show ?thesis unfolding t_def using last_greatest by blast
    qed
    ultimately show ?thesis using xs F by (auto simp: prec_def)
  qed
  then have spot: "free_spot h bp (freep h) = Some t" using free_spot_finds[OF so] H by blast
  have sz_t: "us = [] \<Longrightarrow> t = b" "us \<noteq> [] \<Longrightarrow> t \<in> set us" "us \<noteq> [] \<Longrightarrow> end_of ?s b us = t + ?s t"
    unfolding t_def by (auto dest: append_butlast_last_id[symmetric] intro!: last_in_set) (metis append_butlast_last_id end_of_append)
  have ch: "chain (ptr h) b us (hd (vs @ [b]))" "chain_rest (ptr h) vs b" "ptr h t = hd (vs @ [b])"
    using H chain_hd_last[of "ptr h" b us] unfolding xs(1) chain_split t_def by auto
  have sp: "spaced ?s b us" "spaced ?s (end_of ?s b us) vs" using H by (simp_all add: xs(1) spaced_append)
  obtain ws n where j: "join_next bp t h = h\<lparr>sz := (sz h)(bp := n), ptr := (ptr h)(bp := hd (ws @ [b]))\<rparr>"
    "chain_rest (ptr h) ws b" "spaced (sz h) (bp + n) ws" "set ws \<subseteq> set vs" "0 < n"
    "{bp ..< bp + n} \<union> units h ws = block h bp \<union> units h vs"
    using join_next_ok[OF ch(3,2) sp(2) xs(3,5)] F by metis
  have ne: "bp \<notin> set us" "bp \<notin> set ws" "t \<notin> set ws" "t \<noteq> bp" "b \<noteq> bp"
    using xs(2,3) j(4) F t by (force simp: prec_def)+
  have di: "distinct (b # us)" using so by (auto simp: xs(1) strict_sorted_iff dest!: spaced_distinct)
  define g where "g = (ptr h)(bp := hd (ws @ [b]))"
  have gu: "chain g b us (hd (vs @ [b]))" unfolding g_def using ch(1) ne chain_ptr_cong[of b us "ptr h"] by (metis fun_upd_other set_ConsD)
  have gw: "chain_rest g ws b" unfolding g_def using j(2) ne chain_rest_cong[of ws "ptr h"] by (metis fun_upd_other)
  have sub: "insert bp (set ws) \<subseteq> block h bp \<union> units h xs" "set us \<subseteq> units h xs"
    using j(4) F in_units[OF H[THEN conjunct2, THEN conjunct2, THEN conjunct2, THEN conjunct2, THEN conjunct1]]
    by (auto simp: xs(1) block_def)
  have un: "units h xs \<union> block h bp = units h us \<union> ({bp ..< bp + n} \<union> units h ws)" using j(6) by (auto simp: xs(1) units_append)
  have C: "chain (g(t := d)) b us d" "chain_rest (g(t := d)) ws b" for d
  proof -
    show "chain (g(t := d)) b us d" unfolding t_def by (rule chain_upd_last[OF gu di])
    show "chain_rest (g(t := d)) ws b" using gw ne(3) chain_rest_cong[of ws g "g(t := d)" b] by (metis fun_upd_other)
  qed
  have di': "distinct (us @ bp # ws)" "distinct (us @ ws)"
    using di ne(1,2) xs(2,3) j(4) spaced_distinct[OF j(3)] by fastforce+
  have k: thesis if "free (bp + 1) h = Some k" "sz k b = 0" "chain (ptr k) b ys b" "spaced (sz k) b ys" "freep k = t" "brk k = brk h"
    "units k ys = units h xs \<union> block h bp" "set us \<subseteq> set ys" "\<And>x. x \<notin> insert b (units h xs \<union> block h bp) \<Longrightarrow> ptr k x = ptr h x \<and> sz k x = sz h x" for k ys
  proof (rule fin[OF that(1)])
    show "heap_ok b k ys" unfolding heap_ok_def using that(2-8) H F sz_t(1,2)
      by (cases "us = []") (auto simp: block_def)
  qed (use that in \<open>auto simp: same_outside_def\<close>)
  have tin: "t = b \<or> t \<in> set us" using sz_t(1,2) by blast
  show ?thesis
  proof (cases "t + ?s t = bp")
    case True
    then have us: "us \<noteq> []" using sz_t(1) H ne by auto
    then obtain us' where us': "us = us' @ [t]" unfolding t_def by (metis append_butlast_last_id last.simps)
    let ?k = "h\<lparr>sz := (sz h)(bp := n, t := sz h t + n), ptr := g(t := hd (ws @ [b])), freep := t\<rparr>"
    have z: "x \<noteq> t \<Longrightarrow> x \<noteq> bp \<Longrightarrow> sz ?k x = sz h x" for x by simp
    have zs: "x \<in> set us' \<Longrightarrow> sz ?k x = sz h x" "x \<in> set ws \<Longrightarrow> sz ?k x = sz h x" for x
      using di di' ne us' by (intro z; auto)+
    show ?thesis
    proof (rule k[of ?k "us @ ws"])
      show "free (bp + 1) h = Some ?k" using True ne by (simp add: free_def spot j(1) join_prev_def g_def)
      show "chain (ptr ?k) b (us @ ws) b" using C by (simp add: chain_split)
      have "spaced (sz ?k) b us'" "end_of (sz ?k) b us' = end_of (sz h) b us'"
        using sp(1) zs(1) spaced_cong[of us' "sz ?k" "sz h" b] end_of_cong[of us' "sz ?k" "sz h" b] by (auto simp: us' spaced_append)
      moreover have "spaced (sz ?k) (bp + n) ws" using j(3) zs(2) spaced_cong[of ws "sz ?k" "sz h"] by blast
      moreover have "t + (sz h t + n) = bp + n" "sz ?k t = sz h t + n" using True by simp_all
      ultimately show "spaced (sz ?k) b (us @ ws)" using sp(1) j(5) by (simp only: us' spaced_append spaced.simps end_of_append append_assoc append.simps) simp
      have "units ?k us' = units h us'" "units ?k ws = units h ws" using zs by (auto intro!: units_cong)
      moreover have "block ?k t = block h t \<union> {bp ..< bp + n}" using True by (auto simp: block_def)
      ultimately show "units ?k (us @ ws) = units h xs \<union> block h bp" unfolding un by (auto simp: us' units_append units_Cons)
      show "sz ?k b = 0" using H ne di us' by auto
      show "ptr ?k x = ptr h x \<and> sz ?k x = sz h x" if "x \<notin> insert b (units h xs \<union> block h bp)" for x
        using that sub tin by (auto simp: g_def)
    qed auto
  next
    case False
    let ?k = "h\<lparr>sz := (sz h)(bp := n), ptr := g(t := bp), freep := t\<rparr>"
    have zs: "x \<in> set us \<union> set ws \<Longrightarrow> sz ?k x = sz h x" for x using ne by auto
    show ?thesis
    proof (rule k[of ?k "us @ bp # ws"])
      show "free (bp + 1) h = Some ?k" using False ne by (simp add: free_def spot j(1) join_prev_def g_def)
      have "chain (g(t := bp)) bp ws b" unfolding chain_iff using C(2)[of bp] ne(4) by (simp add: g_def)
      then show "chain (ptr ?k) b (us @ bp # ws) b" using C(1)[of bp] by (simp add: chain_ptr_append)
      have "spaced (sz ?k) b us" "end_of (sz ?k) b us = end_of (sz h) b us" "spaced (sz ?k) (bp + n) ws"
        using sp(1) j(3) zs spaced_cong[of us "sz ?k" "sz h" b] end_of_cong[of us "sz ?k" "sz h" b] spaced_cong[of ws "sz ?k" "sz h" "bp + n"] by blast+
      moreover have "end_of (sz h) b us < bp" using xs(4) False sz_t F by (cases "us = []") auto
      ultimately show "spaced (sz ?k) b (us @ bp # ws)" using j(5) by (simp add: spaced_append)
      have "units ?k us = units h us" "units ?k ws = units h ws" using zs by (auto intro!: units_cong)
      then show "units ?k (us @ bp # ws) = units h xs \<union> block h bp" unfolding un by (auto simp: units_append units_Cons block_def)
      show "ptr ?k x = ptr h x \<and> sz ?k x = sz h x" if "x \<notin> insert b (units h xs \<union> block h bp)" for x
        using that sub tin by (auto simp: g_def)
    qed (use H ne in auto)
  qed
qed


section \<open>Allocating\<close>

lemma spaced_mono: "spaced s a xs \<Longrightarrow> c \<le> a \<Longrightarrow> spaced s c xs"
  by (cases xs) auto

lemma spaced_interval:
  assumes "spaced s a xs" "{p ..< p + n} \<subseteq> (\<Union>x \<in> set xs. {x ..< x + s x})" "0 < n"
  shows "\<exists>x \<in> set xs. x \<le> p \<and> p + n \<le> x + s x"
  using assms
proof (induction xs arbitrary: a)
  case (Cons x xs)
  have gap: "x + s x \<notin> (\<Union>y \<in> set (x # xs). {y ..< y + s y})"
    using spaced_less[of s "x + s x" xs] Cons.prems(1) by fastforce
  have after: "y \<in> set xs \<Longrightarrow> x + s x < y" for y using spaced_less[of s "x + s x" xs] Cons.prems(1) by auto
  have "p \<in> {p ..< p + n}" using Cons.prems(3) by simp
  then have p: "p \<in> (\<Union>y \<in> set (x # xs). {y ..< y + s y})" using Cons.prems(2) by blast
  show ?case
  proof (cases "p < x + s x")
    case True
    then have "x \<le> p" using p after by fastforce
    moreover have "p + n \<le> x + s x" using Cons.prems(2) gap True by (meson atLeastLessThan_iff less_imp_le not_le subsetD)
    ultimately show ?thesis by auto
  next
    case False
    have "{p ..< p + n} \<subseteq> (\<Union>y \<in> set xs. {y ..< y + s y})" using Cons.prems(2) False by fastforce
    then have "\<exists>y \<in> set xs. y \<le> p \<and> p + n \<le> y + s y" using Cons.IH[of "x + s x"] Cons.prems(1,3) by auto
    then show ?thesis by auto
  qed
qed auto

text \<open>The list seen from \<open>freep\<close>.\<close>

lemma rotated:
  assumes "heap_ok b h xs"
  obtains zs where "chain (ptr h) (freep h) zs (freep h)" "distinct (freep h # zs)" "set (freep h # zs) = set (b # xs)"
proof -
  note H = assms[unfolded heap_ok_def]
  have d: "distinct (b # xs)" using H spaced_distinct spaced_less by fastforce
  show ?thesis
  proof (cases "freep h = b")
    case True
    then show ?thesis using that[of xs] H d by simp
  next
    case False
    then obtain us vs where xs: "xs = us @ freep h # vs" using H by (auto simp: in_set_conv_decomp)
    show ?thesis
      by (rule that[of "vs @ b # us"]) (use H d in \<open>auto simp: xs chain_ptr_append\<close>)
  qed
qed

lemma malloc_step:
  "malloc_loop sb n pv p h =
     (if n \<le> sz h p then Some (take_block n pv p h)
      else if p = freep h then
        Option.bind (morecore sb n h) (\<lambda>r. case r of (p, h) \<Rightarrow> if p = 0 then Some (0, h) else malloc_loop sb n p (ptr h p) h)
      else malloc_loop sb n p (ptr h p) h)"
  by (subst malloc_loop.simps) simp

lemma malloc_found:
  assumes "chain (ptr h) pv zs (freep h)" "freep h \<notin> set zs" "\<exists>x \<in> set (zs @ [freep h]). n \<le> sz h x"
  shows "\<exists>q x. q \<in> set (pv # zs) \<and> x \<in> set (zs @ [freep h]) \<and> ptr h q = x \<and> n \<le> sz h x \<and>
    malloc_loop sb n pv (ptr h pv) h = Some (take_block n q x h)"
  using assms
proof (induction zs arbitrary: pv)
  case Nil
  then show ?case by (simp add: malloc_step)
next
  case (Cons z zs)
  have z: "ptr h pv = z" "z \<noteq> freep h" using Cons.prems by auto
  show ?case
  proof (cases "n \<le> sz h z")
    case True
    then show ?thesis using z by (auto simp: malloc_step[of sb n pv])
  next
    case False
    obtain q x where q: "q \<in> set (z # zs)" "x \<in> set (zs @ [freep h])" "ptr h q = x" "n \<le> sz h x"
      "malloc_loop sb n z (ptr h z) h = Some (take_block n q x h)"
      using Cons.IH[of z] Cons.prems False by auto
    have "malloc_loop sb n pv (ptr h pv) h = Some (take_block n q x h)"
      using z False q(5) by (subst malloc_step) simp
    with q(1-4) show ?thesis by (intro exI[of _ q] exI[of _ x]) auto
  qed
qed

lemma malloc_none:
  assumes "chain (ptr h) pv zs (freep h)" "freep h \<notin> set zs" "\<forall>x \<in> set (zs @ [freep h]). sz h x < n"
  shows "malloc_loop sb n pv (ptr h pv) h =
    Option.bind (morecore sb n h) (\<lambda>r. case r of (p, h) \<Rightarrow> if p = 0 then Some (0, h) else malloc_loop sb n p (ptr h p) h)"
  using assms
proof (induction zs arbitrary: pv)
  case Nil
  then show ?case by (subst malloc_step) simp
next
  case (Cons z zs)
  have "malloc_loop sb n pv (ptr h pv) h = malloc_loop sb n z (ptr h z) h"
    using Cons.prems by (subst malloc_step) auto
  also have "\<dots> = Option.bind (morecore sb n h) (\<lambda>r. case r of (p, h) \<Rightarrow> if p = 0 then Some (0, h) else malloc_loop sb n p (ptr h p) h)"
    by (rule Cons.IH) (use Cons.prems in auto)
  finally show ?case .
qed

text \<open>A block was taken out of the free memory: \<open>q\<close> is its header.\<close>

definition taken :: "nat \<Rightarrow> nat \<Rightarrow> nat \<Rightarrow> heap \<Rightarrow> nat list \<Rightarrow> heap \<Rightarrow> bool" where
  "taken b n q h xs k \<longleftrightarrow> (\<exists>ys. heap_ok b k ys \<and> b < q \<and> sz k q = n \<and> block k q \<subseteq> units h xs \<and>
     units k ys = units h xs - block k q \<and> brk k = brk h \<and> same_outside (insert b (units h xs)) h k)"

lemma take_ok:
  assumes h: "heap_ok b h xs" and p: "pv \<in> set (b # xs)" "x \<in> set (b # xs)" "ptr h pv = x" and n: "n \<le> sz h x" "0 < n"
  obtains q k where "take_block n pv x h = (q + 1, k)" "taken b n q h xs k"
proof -
  note H = h[unfolded heap_ok_def]
  have x: "x \<in> set xs" "x \<noteq> b" using p n H by (auto split: if_splits)
  then obtain us vs where xs: "xs = us @ x # vs" by (auto simp: in_set_conv_decomp)
  have so: "sorted_wrt (<) (b # xs)" using H spaced_sorted by blast
  have ch: "chain (ptr h) b us x" "chain (ptr h) x vs b" using H by (simp_all add: xs chain_ptr_append)
  have sp: "spaced (sz h) b us" "end_of (sz h) b us < x" "spaced (sz h) (x + sz h x) vs" using H by (simp_all add: xs spaced_append)
  have before: "y + sz h y < x" if "y \<in> set us" for y using end_of_ge[OF sp(1)] that sp(2) by force
  have behind: "x + sz h x < y" if "y \<in> set vs" for y using spaced_less[OF sp(3) that] by simp
  have bx: "b < x" using so x by auto
  have c: "chain (ptr h) b xs b" using H by simp
  have pv: "pv = last (b # us)"
  proof -
    have "last (b # us) \<in> set (b # xs)" using last_in_set[of "b # us"] by (auto simp: xs)
    moreover have "ptr h (last (b # us)) = x" using chain_hd_last[OF ch(1)] .
    ultimately have "pv \<le> last (b # us)" "last (b # us) \<le> pv"
      using next_of[OF so c p(1)] next_of[OF so c, of "last (b # us)"] p(1,3) x by (metis not_le, metis not_le)
    then show ?thesis by simp
  qed
  have di: "distinct (b # us)" using spaced_distinct[OF sp(1)] spaced_less[OF sp(1)] by auto
  have frame: "freep h \<in> set (b # xs)" "0 < b" "b < brk h" "sz h b = 0" "units h xs \<subseteq> {..< brk h}" using H by auto
  have disj: "block h y \<inter> block h x = {}" if "y \<in> set us \<union> set vs" for y
    using that before behind by (fastforce simp: block_def)
  have un: "units h us \<inter> block h x = {}" "units h vs \<inter> block h x = {}" using disj by (auto simp: units_def)
  have inu: "y \<in> set xs \<Longrightarrow> y \<in> units h xs" for y using in_units H by blast
  have pvu: "pv = b \<or> pv \<in> units h xs" using p inu by auto
  show ?thesis
  proof (cases "sz h x = n")
    case True
    let ?k = "h\<lparr>ptr := (ptr h)(pv := ptr h x), freep := pv\<rparr>"
    have "x \<noteq> pv" using pv di bx before by (cases "us = []") (auto dest: last_in_set)
    have nv: "pv \<notin> set vs" using so pv by (cases "us = []") (auto simp: xs sorted_wrt_append dest!: last_in_set)
    have u: "units h xs - block h x = units h (us @ vs)" using un by (auto simp: xs units_append units_Cons)
    have "chain (ptr ?k) b us (ptr h x)" unfolding pv using chain_upd_last[OF ch(1) di, of "ptr h x"] by simp
    moreover have "ptr h x = hd (vs @ [b])" "chain_rest (ptr h) vs b" using ch(2) by (simp_all only: chain_iff)
    moreover have "chain_rest (ptr ?k) vs b = chain_rest (ptr h) vs b" by (rule chain_rest_cong) (use nv in auto)
    ultimately have "chain (ptr ?k) b (us @ vs) b" unfolding chain_split by metis
    moreover have "spaced (sz h) b (us @ vs)" using sp spaced_mono[OF sp(3)] by (simp add: spaced_append)
    moreover have "pv \<in> set (b # us @ vs)" unfolding pv using last_in_set[of "b # us"] by auto
    moreover have "units ?k (us @ vs) = units h (us @ vs)" by (rule units_cong) simp
    moreover have "units h (us @ vs) \<subseteq> {..< brk h}" using frame(5) by (auto simp: xs units_append units_Cons)
    ultimately have "heap_ok b ?k (us @ vs)" using frame by (simp add: heap_ok_def)
    moreover have "block ?k x = block h x" by (simp add: block_def)
    ultimately have "taken b n x h xs ?k" unfolding taken_def using u True bx x pvu \<open>units ?k (us @ vs) = units h (us @ vs)\<close>
      by (intro exI[of _ "us @ vs"]) (auto simp: same_outside_def units_def)
    then show ?thesis by (intro that[of x ?k]) (use True in \<open>simp_all add: take_block_def\<close>)
  next
    case False
    define l where "l = sz h x - n"
    let ?k = "h\<lparr>sz := (sz h)(x := l, x + l := n), freep := pv\<rparr>"
    have l: "0 < l" "l < sz h x" "sz h x = l + n" using n False by (auto simp: l_def)
    have no: "x + l \<notin> set (b # xs)"
      using before behind l bx by (force simp: xs)
    have zs: "y \<in> set us \<union> set vs \<Longrightarrow> sz ?k y = sz h y" for y using no before behind l by (force simp: xs)
    have "x \<noteq> x + l" using l(1) by simp
    then have zx: "sz ?k x = l" "sz ?k (x + l) = n" by simp_all
    have "spaced (sz ?k) b us" "end_of (sz ?k) b us = end_of (sz h) b us" "spaced (sz ?k) (x + sz h x) vs"
      using sp zs spaced_cong[of us "sz ?k" "sz h" b] end_of_cong[of us "sz ?k" "sz h" b] spaced_cong[of vs "sz ?k" "sz h" "x + sz h x"] by blast+
    then have "spaced (sz ?k) b xs" unfolding xs spaced_append spaced.simps zx
      using sp(2) l spaced_mono[of "sz ?k" "x + sz h x" vs "x + l"] by simp
    moreover have u: "units ?k xs = units h xs - block ?k (x + l)"
    proof -
      have "units ?k us = units h us" "units ?k vs = units h vs" using zs by (auto intro!: units_cong)
      moreover have "block ?k x = {x ..< x + l}" "block ?k (x + l) = {x + l ..< x + sz h x}" "block h x = {x ..< x + sz h x}"
        unfolding block_def zx using n l(3) by auto
      ultimately show ?thesis using un l unfolding xs units_append units_Cons by auto
    qed
    moreover have s: "block ?k (x + l) \<subseteq> units h xs"
    proof -
      have "block ?k (x + l) \<subseteq> block h x" unfolding block_def zx using n l(3) by auto
      then show ?thesis by (auto simp: xs units_append units_Cons)
    qed
    moreover have "sz ?k b = 0" using no frame(4) x(2) by simp
    ultimately have "heap_ok b ?k xs" unfolding heap_ok_def using c p(1) frame by auto
    moreover have "x + l \<in> units h xs" using s n(2) unfolding block_def zx by auto
    ultimately have "taken b n (x + l) h xs ?k" unfolding taken_def using u s zx bx inu[OF x(1)]
      by (intro exI[of _ xs]) (auto simp: same_outside_def)
    then show ?thesis by (intro that[of "x + l" ?k]) (use False n(2) l in \<open>simp_all add: take_block_def Let_def\<close>)
  qed
qed


text \<open>What the code relies on: \<open>sbrk\<close> gives memory behind all the memory the process has, or changes nothing.\<close>

definition sbrk_grows :: "sbrk \<Rightarrow> bool" where
  "sbrk_grows sb \<longleftrightarrow> (\<forall>n h. 0 \<le> n \<longrightarrow> (case sb n h of
      (None, k) \<Rightarrow> k = h
    | (Some a, k) \<Rightarrow> brk h \<le> a \<and> a + nat n div 16 \<le> brk k \<and> k = h\<lparr>brk := brk k\<rparr>))"

text \<open>\<open>sbrk\<close> refuses the memory that \<open>morecore\<close> asks for.\<close>

definition no_more :: "sbrk \<Rightarrow> nat \<Rightarrow> heap \<Rightarrow> bool" where
  "no_more sb n h \<longleftrightarrow> fst (sb (int (max n 4096 * 16)) h) = None"

text \<open>The free list after the heap has grown.\<close>

definition grown :: "nat \<Rightarrow> heap \<Rightarrow> nat list \<Rightarrow> heap \<Rightarrow> nat list \<Rightarrow> bool" where
  "grown b h xs k ys \<longleftrightarrow> heap_ok b k ys \<and> brk h \<le> brk k \<and> units h xs \<subseteq> units k ys \<and>
     units k ys \<subseteq> units h xs \<union> {brk h ..< brk k} \<and> same_outside (insert b (units h xs \<union> {brk h ..< brk k})) h k"

lemma morecore_ok:
  assumes h: "heap_ok b h xs" and s: "sbrk_grows sb" and n: "n * 16 < 2 ^ 31"
  shows "no_more sb n h \<and> morecore sb n h = Some (0, h) \<or>
    (\<exists>k ys. \<not> no_more sb n h \<and> morecore sb n h = Some (freep k, k) \<and> freep k \<noteq> 0 \<and> grown b h xs k ys \<and> (\<exists>x \<in> set (b # ys). n \<le> sz k x))"
proof -
  note H = h[unfolded heap_ok_def]
  define nu where "nu = (if n < 4096 then 4096 else n)"
  have nu: "n \<le> nu" "0 < nu" "nu * 16 < 2 ^ 31" using n by (auto simp: nu_def)
  have mx: "max n 4096 = nu" by (simp add: nu_def max_def)
  have i: "to_int32 (int (nu * 16)) = int (nu * 16)" by (rule to_int32_id) (use nu(3) in auto)
  obtain r k where sb: "sb (int (nu * 16)) h = (r, k)" by (cases "sb (int (nu * 16)) h")
  note law = s[unfolded sbrk_grows_def, rule_format, of "int (nu * 16)" h, unfolded sb prod.case]
  have m: "morecore sb n h = (case sb (int (nu * 16)) h of
        (None, h) \<Rightarrow> Some (0, h)
      | (Some hp, h) \<Rightarrow> Option.bind (free (hp + 1) (h\<lparr>sz := (sz h)(hp := nu)\<rparr>)) (\<lambda>h. Some (freep h, h)))"
    by (simp only: morecore_def Let_def nu_def[symmetric] i)
  show ?thesis
  proof (cases r)
    case None
    then show ?thesis using law m sb unfolding no_more_def mx by simp
  next
    case (Some a)
    have more: "\<not> no_more sb n h" unfolding no_more_def mx sb Some by simp
    from Some have a: "brk h \<le> a" "a + nu \<le> brk k" "k = h\<lparr>brk := brk k\<rparr>"
      using law nat_int[of "nu * 16"] by (simp_all del: of_nat_mult nat_int)
    define k1 where "k1 = k\<lparr>sz := (sz k)(a := nu)\<rparr>"
    have "ptr k = ptr h" "sz k = sz h" "freep k = freep h" by (subst a(3), simp)+
    then have k1: "ptr k1 = ptr h" "sz k1 = (sz h)(a := nu)" "freep k1 = freep h" "brk k1 = brk k"
      by (simp_all add: k1_def)
    have lt: "x < a" if "x \<in> units h xs \<or> x = b" for x using that H a(1) by auto
    have lt_all: "\<forall>x \<in> units h xs. x < a" "b < a" using lt by auto
    have na: "a \<notin> set (b # xs)" using lt in_units[of h b xs] H by fastforce
    have z: "sz k1 x = sz h x" if "x \<in> set (b # xs)" for x using that na by (auto simp: k1)
    have u: "units k1 xs = units h xs" using z by (intro units_cong) simp
    have "heap_ok b k1 xs" unfolding heap_ok_def u using H a z spaced_cong[of xs "sz k1" "sz h" b] by (auto simp: k1)
    moreover have f: "to_free b k1 xs a" "block k1 a = {a ..< a + nu}"
      using lt_all a nu by (auto simp: to_free_def u block_def k1 not_less)
    ultimately obtain k2 ys where k2: "free (a + 1) k1 = Some k2" "heap_ok b k2 ys" "units k2 ys = units k1 xs \<union> block k1 a"
      "brk k2 = brk k1" "same_outside (insert b (units k1 xs \<union> block k1 a)) k1 k2" by (metis free_ok)
    have m': "morecore sb n h = Some (freep k2, k2)" unfolding m sb Some using k2(1) by (simp add: k1_def[symmetric])
    have g: "grown b h xs k2 ys" unfolding grown_def
    proof (intro conjI)
      show "same_outside (insert b (units h xs \<union> {brk h ..< brk k2})) h k2"
        using k2(4,5) a f(2) u nu(2) by (auto simp: same_outside_def k1)
    qed (use k2 a f(2) u in \<open>auto simp: k1\<close>)
    have "{a ..< a + nu} \<subseteq> (\<Union>x \<in> set ys. {x ..< x + sz k2 x})" using k2(3) f(2) by (auto simp: units_def block_def)
    then have "\<exists>x \<in> set ys. x \<le> a \<and> a + nu \<le> x + sz k2 x" using k2(2) nu(2) by (intro spaced_interval[of _ b]) (auto simp: heap_ok_def)
    then have "\<exists>x \<in> set (b # ys). n \<le> sz k2 x" using nu(1) by fastforce
    moreover have "freep k2 \<noteq> 0" using k2(2) spaced_less by (fastforce simp: heap_ok_def)
    ultimately show ?thesis using m' g more by blast
  qed
qed

lemma malloc_loop_found:
  assumes h: "heap_ok b h xs" and n: "0 < n" and x: "\<exists>x \<in> set (b # xs). n \<le> sz h x"
  obtains q k where "malloc_loop sb n (freep h) (ptr h (freep h)) h = Some (q + 1, k)" "taken b n q h xs k"
proof -
  obtain zs where zs: "chain (ptr h) (freep h) zs (freep h)" "distinct (freep h # zs)" "set (freep h # zs) = set (b # xs)"
    using rotated[OF h] .
  obtain pv x where p: "pv \<in> set (b # xs)" "x \<in> set (b # xs)" "ptr h pv = x" "n \<le> sz h x"
    "malloc_loop sb n (freep h) (ptr h (freep h)) h = Some (take_block n pv x h)"
  proof -
    have "set (zs @ [freep h]) = set (b # xs)" using zs(3) by simp
    then show ?thesis using malloc_found[OF zs(1), of n sb] zs(2,3) x that by (metis distinct.simps(2))
  qed
  obtain q k where "take_block n pv x h = (q + 1, k)" "taken b n q h xs k" using take_ok[OF h p(1-4) n] .
  then show ?thesis using that p(5) by simp
qed

text \<open>
  \<open>malloc\<close> with a free list: where no free block is large enough and \<open>sbrk\<close> refuses it fails and changes nothing; else
  the block at \<open>q\<close> comes from the free memory, possibly after that has grown.
\<close>

lemma malloc_ok:
  assumes h: "heap_ok b h xs" and s: "sbrk_grows sb" and n: "units_for nbytes * 16 < 2 ^ 31"
  shows "(\<forall>x \<in> set xs. sz h x < units_for nbytes) \<and> no_more sb (units_for nbytes) h \<and> malloc sb b nbytes h = Some (0, h) \<or>
    (\<exists>q k g ys. ((\<exists>x \<in> set xs. units_for nbytes \<le> sz h x) \<or> \<not> no_more sb (units_for nbytes) h) \<and> malloc sb b nbytes h = Some (q + 1, k) \<and> grown b h xs g ys \<and> taken b (units_for nbytes) q g ys k)"
proof -
  let ?n = "units_for nbytes"
  have n0: "0 < ?n" by (simp add: units_for_def)
  have f: "freep h \<noteq> 0" using h spaced_less by (fastforce simp: heap_ok_def)
  have m: "malloc sb b nbytes h = malloc_loop sb ?n (freep h) (ptr h (freep h)) h" using f by (simp add: malloc_def)
  have gr: "grown b h xs h xs" using h by (simp add: grown_def same_outside_def)
  have b0: "sz h b = 0" using h by (simp add: heap_ok_def)
  show ?thesis
  proof (cases "\<exists>x \<in> set (b # xs). ?n \<le> sz h x")
    case True
    then have "\<exists>x \<in> set xs. ?n \<le> sz h x" using b0 n0 by auto
    moreover obtain q k where "malloc_loop sb ?n (freep h) (ptr h (freep h)) h = Some (q + 1, k)" "taken b ?n q h xs k"
      using malloc_loop_found[OF h n0 True] by metis
    ultimately show ?thesis using m gr by metis
  next
    case False
    obtain zs where zs: "chain (ptr h) (freep h) zs (freep h)" "distinct (freep h # zs)" "set (freep h # zs) = set (b # xs)"
      using rotated[OF h] .
    have small: "\<forall>x \<in> set (zs @ [freep h]). sz h x < ?n" using False zs(3) by (simp add: not_le)
    have l: "malloc_loop sb ?n (freep h) (ptr h (freep h)) h =
      Option.bind (morecore sb ?n h) (\<lambda>r. case r of (p, h) \<Rightarrow> if p = 0 then Some (0, h) else malloc_loop sb ?n p (ptr h p) h)"
      using malloc_none[OF zs(1) _ small] zs(2) by simp
    from morecore_ok[OF h s n] show ?thesis
    proof
      assume "no_more sb ?n h \<and> morecore sb ?n h = Some (0, h)"
      moreover have "\<forall>x \<in> set xs. sz h x < ?n" using False by (simp add: not_le)
      ultimately show ?thesis using m l by simp
    next
      assume "\<exists>k ys. \<not> no_more sb ?n h \<and> morecore sb ?n h = Some (freep k, k) \<and> freep k \<noteq> 0 \<and> grown b h xs k ys \<and> (\<exists>x \<in> set (b # ys). ?n \<le> sz k x)"
      then obtain g ys where more: "\<not> no_more sb ?n h"
        and g: "morecore sb ?n h = Some (freep g, g)" "freep g \<noteq> 0" "grown b h xs g ys" "\<exists>x \<in> set (b # ys). ?n \<le> sz g x" by blast
      then obtain q k where "malloc_loop sb ?n (freep g) (ptr g (freep g)) g = Some (q + 1, k)" "taken b ?n q g ys k"
        using malloc_loop_found[of b g ys, OF _ n0] by (metis grown_def)
      then have "malloc sb b nbytes h = Some (q + 1, k)" using m l g(1,2) by simp
      with g(3) more \<open>taken b ?n q g ys k\<close> show ?thesis by blast
    qed
  qed
qed


section \<open>The allocator as its users see it\<close>

text \<open>Before the first call there is no free list.\<close>

definition heap_inv :: "nat \<Rightarrow> heap \<Rightarrow> nat list \<Rightarrow> bool" where
  "heap_inv b h xs \<longleftrightarrow> heap_ok b h xs \<or> freep h = 0 \<and> 0 < b \<and> b < brk h \<and> xs = []"

definition based :: "nat \<Rightarrow> heap \<Rightarrow> heap" where
  "based b h = (if freep h = 0 then h\<lparr>ptr := (ptr h)(b := b), freep := b, sz := (sz h)(b := 0)\<rparr> else h)"

lemma heap_inv_start:
  assumes "heap_inv b h xs"
  obtains h0 where "h0 = based b h" "\<forall>x \<in> set xs. sz h0 x = sz h x" "heap_ok b h0 xs" "malloc sb b n h = malloc sb b n h0" "units h0 xs = units h xs" "brk h0 = brk h" "same_outside {b} h h0"
proof (cases "heap_ok b h xs")
  case True
  then have "freep h \<noteq> 0" using spaced_less by (fastforce simp: heap_ok_def)
  with True show ?thesis using that[of h] by (simp add: same_outside_def based_def)
next
  case False
  then have f: "freep h = 0" "0 < b" "b < brk h" "xs = []" using assms by (auto simp: heap_inv_def)
  let ?h = "h\<lparr>ptr := (ptr h)(b := b), freep := b, sz := (sz h)(b := 0)\<rparr>"
  have "malloc sb b n h = malloc sb b n ?h" using f by (simp add: malloc_def)
  moreover have "heap_ok b ?h xs" using f by (simp add: heap_ok_def)
  ultimately show ?thesis using f by (intro that[of ?h]) (auto simp: same_outside_def based_def)
qed

lemma malloc_inv:
  assumes h: "heap_inv b h xs" and s: "sbrk_grows sb" and n: "units_for nbytes * 16 < 2 ^ 31"
  obtains k where "\<forall>x \<in> set xs. sz h x < units_for nbytes" "no_more sb (units_for nbytes) (based b h)"
      "malloc sb b nbytes h = Some (0, k)" "heap_ok b k xs" "units k xs = units h xs" "brk k = brk h" "same_outside {b} h k"
  | q k g ys where "(\<exists>x \<in> set xs. units_for nbytes \<le> sz h x) \<or> \<not> no_more sb (units_for nbytes) (based b h)"
      "malloc sb b nbytes h = Some (q + 1, k)" "taken b (units_for nbytes) q g ys k" "heap_ok b g ys" "units h xs \<subseteq> units g ys"
      "units g ys \<subseteq> units h xs \<union> {brk h ..< brk g}" "brk h \<le> brk g" "same_outside (insert b (units h xs \<union> {brk h ..< brk g})) h g"
proof -
  obtain h0 where b: "h0 = based b h" "\<forall>x \<in> set xs. sz h0 x = sz h x" and h0: "heap_ok b h0 xs" "malloc sb b nbytes h = malloc sb b nbytes h0" "units h0 xs = units h xs" "brk h0 = brk h" "same_outside {b} h h0"
    using heap_inv_start[OF h] .
  from malloc_ok[OF h0(1) s n] show ?thesis
  proof
    assume "(\<forall>x \<in> set xs. sz h0 x < units_for nbytes) \<and> no_more sb (units_for nbytes) h0 \<and> malloc sb b nbytes h0 = Some (0, h0)"
    then show ?thesis using that(1)[of h0] h0 b by simp
  next
    assume "\<exists>q k g ys. ((\<exists>x \<in> set xs. units_for nbytes \<le> sz h0 x) \<or> \<not> no_more sb (units_for nbytes) h0) \<and> malloc sb b nbytes h0 = Some (q + 1, k) \<and> grown b h0 xs g ys \<and> taken b (units_for nbytes) q g ys k"
    then obtain q k g ys where f: "(\<exists>x \<in> set xs. units_for nbytes \<le> sz h0 x) \<or> \<not> no_more sb (units_for nbytes) h0"
      and g: "malloc sb b nbytes h0 = Some (q + 1, k)" "grown b h0 xs g ys" "taken b (units_for nbytes) q g ys k" by blast
    have "same_outside (insert b (units h xs \<union> {brk h ..< brk g})) h g"
      using g(2) h0(3-5) by (auto simp: grown_def same_outside_def)
    then show ?thesis using that(2)[of q k g ys] f g h0 b by (simp add: grown_def)
  qed
qed

lemma free_taken:
  assumes "taken b n q g ys k" "0 < n" "heap_ok b g ys"
  obtains k' zs where "free (q + 1) k = Some k'" "heap_ok b k' zs" "units k' zs = units g ys" "brk k' = brk g"
proof -
  obtain ys' where y: "heap_ok b k ys'" "b < q" "sz k q = n" "block k q \<subseteq> units g ys" "units k ys' = units g ys - block k q" "brk k = brk g"
    using assms(1) by (auto simp: taken_def)
  have "q + n - 1 \<in> block k q" using assms(2) y(3) by (auto simp: block_def)
  then have q: "q + n \<le> brk k" using y(4,6) assms(3) by (fastforce simp: heap_ok_def)
  have "to_free b k ys' q" using y assms(2) q by (auto simp: to_free_def)
  from free_ok[OF y(1) this] obtain k' zs where "free (q + 1) k = Some k'" "heap_ok b k' zs" "units k' zs = units k ys' \<union> block k q" "brk k' = brk k"
    by metis
  then show ?thesis using that[of k' zs] y by auto
qed

end
