(* ===== verification/U_Printf.thy ===== *)
theory U_Printf
  imports K_Printk
begin

text \<open>
  \<open>xv6/user/printf.c\<close>: the kernel's formatted printing again, with the digits of hexadecimal numbers in capitals
  and one \<open>write\<close> for every character.
\<close>

section \<open>The code\<close>

text \<open>The writes of the process so far: the descriptor and what is written.\<close>

type_synonym outs = "(int \<times> string) list"

definition putc :: "int \<Rightarrow> char \<Rightarrow> outs \<Rightarrow> outs" where
  "putc fd c w = w @ [(fd, [c])]"

definition udigits :: string where "udigits = ''0123456789ABCDEF''"

function udigit_loop :: "nat \<Rightarrow> nat \<Rightarrow> string" where
  "udigit_loop base x =
     (if base < 2 then [] else
      udigits ! (x mod base) # (if x div base \<noteq> 0 then udigit_loop base (x div base) else []))"
  by auto
termination
  by (relation "measure snd") (simp_all add: div_shrinks)

declare udigit_loop.simps [simp del]

text \<open>\<open>xx\<close> is a \<open>long long\<close> and \<open>x\<close> an \<open>unsigned long long\<close>; \<open>buf\<close> has 20 characters.\<close>

definition uprintint :: "64 word \<Rightarrow> nat \<Rightarrow> bool \<Rightarrow> string res" where
  "uprintint xx base sign =
     bnd (guard (\<not> (sign \<and> sint xx = - (2 ^ 63))) ''signed overflow'') (\<lambda>_.
       let neg = (sign \<and> sint xx < 0);
           x = (if neg then - xx else xx);
           buf = udigit_loop base (unat x);
           buf = (if neg then buf @ ''-'' else buf)
       in bnd (guard (length buf \<le> 20) ''buf overflow'') (\<lambda>_. Ok (rev buf)))"

definition uprintptr :: "64 word \<Rightarrow> string" where
  "uprintptr x = ''0x'' @ map (\<lambda>i. udigits ! unat (drop_bit 60 (push_bit (4 * i) x))) [0..<16]"

definition uconversion :: "string \<Rightarrow> karg list \<Rightarrow> (string \<times> nat \<times> karg list) res" where
  "uconversion f ap =
     (let c0 = nth0 f 0;
          c1 = (if c0 \<noteq> c_nul then nth0 f 1 else c_nul);
          c2 = (if c1 \<noteq> c_nul then nth0 f 2 else c_nul);
          num = (\<lambda>arg base sign n. bnd arg (\<lambda>(x, ap). bnd (uprintint x base sign) (\<lambda>t. Ok (t, n, ap))))
      in
      if c0 = CHR ''d'' then num (va_int ap) 10 True 1
      else if c0 = CHR ''l'' \<and> c1 = CHR ''d'' then num (va_64 ap) 10 True 2
      else if c0 = CHR ''l'' \<and> c1 = CHR ''l'' \<and> c2 = CHR ''d'' then num (va_64 ap) 10 True 3
      else if c0 = CHR ''u'' then num (va_uint ap) 10 False 1
      else if c0 = CHR ''l'' \<and> c1 = CHR ''u'' then num (va_64 ap) 10 False 2
      else if c0 = CHR ''l'' \<and> c1 = CHR ''l'' \<and> c2 = CHR ''u'' then num (va_64 ap) 10 False 3
      else if c0 = CHR ''x'' then num (va_uint ap) 16 False 1
      else if c0 = CHR ''l'' \<and> c1 = CHR ''x'' then num (va_64 ap) 16 False 2
      else if c0 = CHR ''l'' \<and> c1 = CHR ''l'' \<and> c2 = CHR ''x'' then num (va_64 ap) 16 False 3
      else if c0 = CHR ''p'' then bnd (va_ptr ap) (\<lambda>(x, ap). Ok (uprintptr x, 1, ap))
      else if c0 = CHR ''c'' then bnd (va_uint ap) (\<lambda>(x, ap). Ok ([char_of (unat x)], 1, ap))
      else if c0 = CHR ''s'' then bnd (va_str ap) (\<lambda>(t, ap). Ok (t, 1, ap))
      else if c0 = CHR ''%'' then Ok (''%'', 1, ap)
      else Ok ([CHR ''%'', c0], 1, ap))"

function vprintf_text :: "string \<Rightarrow> karg list \<Rightarrow> string res" where
  "vprintf_text [] ap = Ok []"
| "vprintf_text (c # f) ap =
     (if c \<noteq> CHR ''%'' then bnd (vprintf_text f ap) (\<lambda>t. Ok (c # t))
      else if f = [] then Ok []
      else bnd (uconversion f ap) (\<lambda>(t, n, ap).
             bnd (vprintf_text (drop n f) ap) (\<lambda>u. Ok (t @ u))))"
  by pat_completeness auto
termination
  by (relation "measure (length \<circ> fst)") auto

definition fprintf :: "int \<Rightarrow> string \<Rightarrow> karg list \<Rightarrow> outs \<Rightarrow> outs res" where
  "fprintf fd fmt ap w = bnd (vprintf_text fmt ap) (\<lambda>t. Ok (foldl (\<lambda>w c. putc fd c w) w t))"

definition printf :: "string \<Rightarrow> karg list \<Rightarrow> outs \<Rightarrow> outs res" where
  "printf fmt ap w = fprintf 1 fmt ap w"

section \<open>Numbers\<close>

text \<open>In base 10 the digits are the kernel's; in base 16 they are its digits in capitals.\<close>

definition capital :: "char \<Rightarrow> char" where
  "capital c = (if of_char c \<le> (57 :: nat) then c else char_of (of_char c - 32 :: nat))"

lemma udigits_capital: "d < 16 \<Longrightarrow> udigits ! d = capital (digits ! d)"
proof -
  assume "d < 16"
  then have "d = 0 \<or> d = 1 \<or> d = 2 \<or> d = 3 \<or> d = 4 \<or> d = 5 \<or> d = 6 \<or> d = 7 \<or> d = 8 \<or> d = 9 \<or>
    d = 10 \<or> d = 11 \<or> d = 12 \<or> d = 13 \<or> d = 14 \<or> d = 15" by arith
  then show ?thesis by (auto simp: udigits_def digits_def capital_def char_of_def bit_0)
qed

lemma udigit_loop_capital: "2 \<le> base \<Longrightarrow> base \<le> 16 \<Longrightarrow> udigit_loop base x = map capital (digit_loop base x)"
proof (induction x rule: less_induct)
  case (less x)
  have "x mod base < 16" using less.prems by (auto intro: order.strict_trans2[OF mod_less_divisor])
  note d = udigits_capital[OF this]
  show ?case
  proof (cases "x div base = 0")
    case True
    then show ?thesis using less.prems d by (subst udigit_loop.simps, subst digit_loop.simps) simp
  next
    case False
    then have "udigit_loop base (x div base) = map capital (digit_loop base (x div base))"
      using less.prems by (intro less.IH div_shrinks) simp_all
    then show ?thesis using less.prems d False by (subst udigit_loop.simps, subst digit_loop.simps) simp
  qed
qed

lemma uprintint_capital:
  assumes "base = 10 \<or> base = 16"
  shows "uprintint x base sign = bnd (printint x base sign) (\<lambda>t. Ok (map capital t))"
proof -
  have "udigit_loop base n = map capital (digit_loop base n)" for n using assms by (intro udigit_loop_capital) auto
  moreover have "capital CHR ''-'' = CHR ''-''" by (simp add: capital_def)
  ultimately show ?thesis by (auto simp: uprintint_def printint_def Let_def bnd_guard rev_map)
qed

lemma fprintf_writes: "vprintf_text fmt ap = Ok t \<Longrightarrow> fprintf fd fmt ap w = Ok (w @ map (\<lambda>c. (fd, [c])) t)"
proof -
  have "foldl (\<lambda>w c. putc fd c w) w t = w @ map (\<lambda>c. (fd, [c])) t" for t
    by (induction t arbitrary: w) (simp_all add: putc_def)
  then show "vprintf_text fmt ap = Ok t \<Longrightarrow> ?thesis" by (simp add: fprintf_def)
qed

end
