(* ===== verification/U_Tools.thy ===== *)
theory U_Tools
  imports U_Printf U_Lib
begin

text \<open>
  The small programs of \<open>xv6/user\<close>: what they print and how they exit.  A file is the list of what successive reads
  of it return, and whether the last one fails; files that cannot be opened are \<open>None\<close>.
\<close>

type_synonym file_reads = "string list \<times> bool"
type_synonym disk = "string \<Rightarrow> file_reads option"

text \<open>What a program wrote to the standard output and to the standard error, and its exit status.\<close>

type_synonym outcome = "string \<times> string \<times> int"

definition line :: "string \<Rightarrow> string" where
  "line s = s @ [c_nl]"

section \<open>cat\<close>

text \<open>\<open>wrote p\<close> is what \<open>write(1, p)\<close> returns.  \<open>cat\<close> returns the error with which it exits, if it does.\<close>

fun cat :: "(string \<Rightarrow> int) \<Rightarrow> string list \<Rightarrow> bool \<Rightarrow> string \<times> string option" where
  "cat wrote [] bad = ([], if bad then Some (line ''cat: read error'') else None)"
| "cat wrote (p # ps) bad =
     (if p = [] then ([], None)
      else if wrote p \<noteq> int (length p) then (take (nat (wrote p)) p, Some (line ''cat: write error''))
      else let (out, e) = cat wrote ps bad in (p @ out, e))"

fun cat_files :: "(string \<Rightarrow> int) \<Rightarrow> disk \<Rightarrow> string list \<Rightarrow> outcome" where
  "cat_files wrote d [] = ([], [], 0)"
| "cat_files wrote d (f # fs) =
     (case d f of
        None \<Rightarrow> ([], line (''cat: cannot open '' @ f), 1)
      | Some (ps, bad) \<Rightarrow>
          (case cat wrote ps bad of
             (out, Some e) \<Rightarrow> (out, e, 1)
           | (out, None) \<Rightarrow> let (o2, e2, r) = cat_files wrote d fs in (out @ o2, e2, r)))"

definition cat_main :: "(string \<Rightarrow> int) \<Rightarrow> disk \<Rightarrow> file_reads \<Rightarrow> string list \<Rightarrow> outcome" where
  "cat_main wrote d stdin argv =
     (if length argv \<le> 1 then
        (case cat wrote (fst stdin) (snd stdin) of
           (out, Some e) \<Rightarrow> (out, e, 1)
         | (out, None) \<Rightarrow> (out, [], 0))
      else cat_files wrote d (tl argv))"

text \<open>Files that can be read are copied to the output, whatever the reads return at a time.\<close>

lemma cat_copies: "[] \<notin> set ps \<Longrightarrow> (\<And>p. p \<in> set ps \<Longrightarrow> wrote p = int (length p)) \<Longrightarrow> cat wrote ps False = (concat ps, None)"
  by (induction ps) auto

lemma cat_files_copies:
  "(\<And>f. f \<in> set fs \<Longrightarrow> \<exists>ps. d f = Some (ps, False) \<and> [] \<notin> set ps) \<Longrightarrow> (\<And>p. wrote p = int (length p)) \<Longrightarrow>
   cat_files wrote d fs = (concat (map (\<lambda>f. concat (fst (the (d f)))) fs), [], 0)"
proof (induction fs)
  case (Cons f fs)
  obtain ps where "d f = Some (ps, False)" "[] \<notin> set ps" using Cons.prems(1)[of f] by auto
  moreover from this have "cat wrote ps False = (concat ps, None)" using cat_copies[of ps wrote] Cons.prems(2) by simp
  moreover have "cat_files wrote d fs = (concat (map (\<lambda>f. concat (fst (the (d f)))) fs), [], 0)" by (rule Cons.IH) (use Cons.prems in auto)
  ultimately show ?case by (simp del: cat.simps)
qed simp

section \<open>wc\<close>

record counts =
  n_lines :: nat
  n_words :: nat
  n_chars :: nat
  inword :: bool

definition wc_space :: "char \<Rightarrow> bool" where
  "wc_space c \<longleftrightarrow> c \<in> {CHR '' '', CHR 0x0D, CHR 0x09, CHR 0x0A, CHR 0x0B}"

definition wc_char :: "char \<Rightarrow> counts \<Rightarrow> counts" where
  "wc_char c s =
     (let s = s\<lparr>n_chars := n_chars s + 1\<rparr>;
          s = (if c = c_nl then s\<lparr>n_lines := n_lines s + 1\<rparr> else s)
      in if wc_space c then s\<lparr>inword := False\<rparr>
         else if \<not> inword s then s\<lparr>n_words := n_words s + 1, inword := True\<rparr>
         else s)"

fun wc_loop :: "string list \<Rightarrow> counts \<Rightarrow> counts" where
  "wc_loop [] s = s"
| "wc_loop (p # ps) s = (if p = [] then s else wc_loop ps (foldl (\<lambda>s c. wc_char c s) s p))"

definition wc_start :: counts where
  "wc_start = \<lparr>n_lines = 0, n_words = 0, n_chars = 0, inword = False\<rparr>"

text \<open>What \<open>wc\<close> prints, and whether it exits.\<close>

definition wc :: "string list \<Rightarrow> bool \<Rightarrow> string \<Rightarrow> (string \<times> bool) res" where
  "wc ps bad name =
     (let s = wc_loop ps wc_start in
      if bad \<and> [] \<notin> set ps then Ok (line ''wc: read error'', True)
      else bnd (vprintf_text (line ''%d %d %d %s'')
             [A32 (of_nat (n_lines s)), A32 (of_nat (n_words s)), A32 (of_nat (n_chars s)), AStr (Some name)])
           (\<lambda>t. Ok (t, False)))"

fun wc_files :: "disk \<Rightarrow> string list \<Rightarrow> (string \<times> int) res" where
  "wc_files d [] = Ok ([], 0)"
| "wc_files d (f # fs) =
     (case d f of
        None \<Rightarrow> Ok (line (''wc: cannot open '' @ f), 1)
      | Some (ps, bad) \<Rightarrow>
          bnd (wc ps bad f) (\<lambda>(t, stop).
            if stop then Ok (t, 1)
            else bnd (wc_files d fs) (\<lambda>(u, r). Ok (t @ u, r))))"

definition wc_main :: "disk \<Rightarrow> file_reads \<Rightarrow> string list \<Rightarrow> (string \<times> int) res" where
  "wc_main d stdin argv =
     (if length argv \<le> 1 then bnd (wc (fst stdin) (snd stdin) []) (\<lambda>(t, stop). Ok (t, if stop then 1 else 0))
      else wc_files d (tl argv))"

text \<open>The words are the longest stretches without white space.\<close>

function words :: "string \<Rightarrow> string list" where
  "words s =
     (case dropWhile wc_space s of
        [] \<Rightarrow> []
      | c # r \<Rightarrow> (c # takeWhile (\<lambda>x. \<not> wc_space x) r) # words (dropWhile (\<lambda>x. \<not> wc_space x) r))"
  by auto
termination
proof (relation "measure length")
  fix s :: string and c r assume "dropWhile wc_space s = c # r"
  then have "length (c # r) \<le> length s" by (metis length_dropWhile_le)
  then show "(dropWhile (\<lambda>x. \<not> wc_space x) r, s) \<in> measure length"
    using length_dropWhile_le[of "\<lambda>x. \<not> wc_space x" r] by simp
qed simp

declare words.simps [simp del]

lemma words_Nil: "words [] = []"
  by (simp add: words.simps)

lemma words_space: "wc_space c \<Longrightarrow> words (c # s) = words s"
  by (subst (1 2) words.simps) simp

lemma words_letter: "\<not> wc_space c \<Longrightarrow> length (words (c # s)) = length (words (dropWhile (\<lambda>x. \<not> wc_space x) s)) + 1"
  by (subst words.simps) simp

lemma wc_fold:
  "foldl (\<lambda>s c. wc_char c s) s t = \<lparr>n_lines = n_lines s + length (filter (\<lambda>c. c = c_nl) t),
     n_words = n_words s + length (words (if inword s then dropWhile (\<lambda>x. \<not> wc_space x) t else t)),
     n_chars = n_chars s + length t, inword = (if t = [] then inword s else \<not> wc_space (last t))\<rparr>"
proof (induction t arbitrary: s)
  case Nil
  then show ?case by (simp add: words_Nil)
next
  case (Cons c t)
  have nl: "wc_space c_nl" by (simp add: wc_space_def)
  show ?case unfolding foldl_Cons Cons.IH
    by (cases "wc_space c"; cases "inword s"; cases "c = c_nl") (auto simp: nl wc_char_def words_space words_letter words_Nil)
qed

lemma wc_loop_fold: "[] \<notin> set ps \<Longrightarrow> wc_loop ps s = foldl (\<lambda>s c. wc_char c s) s (concat ps)"
  by (induction ps arbitrary: s) auto

lemma wc_counts:
  "[] \<notin> set ps \<Longrightarrow> n_lines (wc_loop ps wc_start) = length (filter (\<lambda>c. c = c_nl) (concat ps)) \<and>
    n_words (wc_loop ps wc_start) = length (words (concat ps)) \<and> n_chars (wc_loop ps wc_start) = length (concat ps)"
  by (simp add: wc_loop_fold wc_fold wc_start_def)

section \<open>echo, kill, ln, mkdir, rm, sync\<close>

text \<open>The strings that \<open>echo\<close> writes, one after the other.\<close>

fun echo_args :: "string list \<Rightarrow> string list" where
  "echo_args [] = []"
| "echo_args [w] = [w, [c_nl]]"
| "echo_args (w # ws) = w # '' '' # echo_args ws"

definition echo_main :: "string list \<Rightarrow> outcome" where
  "echo_main argv = (concat (echo_args (tl argv)), [], 0)"

text \<open>The pids that \<open>kill\<close> is called with; what it returns is not looked at.\<close>

fun kill_all :: "string list \<Rightarrow> int list res" where
  "kill_all [] = Ok []"
| "kill_all (w # ws) = bnd (atoi w) (\<lambda>p. bnd (kill_all ws) (\<lambda>ps. Ok (p # ps)))"

definition kill_main :: "string list \<Rightarrow> (int list \<times> outcome) res" where
  "kill_main argv =
     (if length argv < 2 then Ok ([], [], line ''usage: kill pid...'', 1)
      else bnd (kill_all (tl argv)) (\<lambda>ps. Ok (ps, [], [], 0)))"

definition ln_main :: "(string \<Rightarrow> string \<Rightarrow> 's \<Rightarrow> int \<times> 's) \<Rightarrow> string list \<Rightarrow> 's \<Rightarrow> outcome \<times> 's" where
  "ln_main link argv s =
     (if length argv \<noteq> 3 then (([], line ''Usage: ln old new'', 1), s)
      else
        let (r, s) = link (argv ! 1) (argv ! 2) s in
        (([], if r < 0 then line (''link '' @ argv ! 1 @ '' '' @ argv ! 2 @ '': failed'') else [], 0), s))"

text \<open>The loops of \<open>mkdir\<close> and \<open>rm\<close>, which end at the first failure; the status is 0 all the same.\<close>

fun each_file :: "(string \<Rightarrow> 's \<Rightarrow> int \<times> 's) \<Rightarrow> (string \<Rightarrow> string) \<Rightarrow> string list \<Rightarrow> 's \<Rightarrow> string \<times> 's" where
  "each_file call complaint [] s = ([], s)"
| "each_file call complaint (f # fs) s =
     (let (r, s) = call f s in
      if r < 0 then (complaint f, s) else each_file call complaint fs s)"

definition mkdir_main :: "(string \<Rightarrow> 's \<Rightarrow> int \<times> 's) \<Rightarrow> string list \<Rightarrow> 's \<Rightarrow> outcome \<times> 's" where
  "mkdir_main mkdir argv s =
     (if length argv < 2 then (([], line ''Usage: mkdir files...'', 1), s)
      else let (e, s) = each_file mkdir (\<lambda>f. line (''mkdir: '' @ f @ '' failed to create'')) (tl argv) s in (([], e, 0), s))"

definition rm_main :: "(string \<Rightarrow> 's \<Rightarrow> int \<times> 's) \<Rightarrow> string list \<Rightarrow> 's \<Rightarrow> outcome \<times> 's" where
  "rm_main unlink argv s =
     (if length argv < 2 then (([], line ''Usage: rm files...'', 1), s)
      else let (e, s) = each_file unlink (\<lambda>f. line (''rm: '' @ f @ '' failed to delete'')) (tl argv) s in (([], e, 0), s))"

definition sync_main :: "('s \<Rightarrow> 's) \<Rightarrow> 's \<Rightarrow> int \<times> 's" where
  "sync_main sync s = (0, sync s)"

section \<open>ls\<close>

definition DIRSIZ :: nat where "DIRSIZ = 14"

text \<open>The text behind the last slash.\<close>

definition base_name :: "string \<Rightarrow> string" where
  "base_name path = rev (takeWhile (\<lambda>c. c \<noteq> CHR ''/'') (rev path))"

definition fmtname :: "string \<Rightarrow> string" where
  "fmtname path =
     (let p = base_name path in
      if DIRSIZ \<le> length p then p else p @ replicate (DIRSIZ - length p) CHR '' '')"

record ls_stat =
  st_type :: int
  st_ino :: int
  st_size :: int

text \<open>
  What \<open>ls\<close> asks the system: whether a path opens, what \<open>fstat\<close> then says, and for a directory the entries that can
  be read whole, each the inode number and the 14 bytes of the name.
\<close>

record ls_sys =
  can_open :: "string \<Rightarrow> bool"
  fstat_of :: "string \<Rightarrow> ls_stat option"
  entries_of :: "string \<Rightarrow> (int \<times> string) list"

definition ls_line :: "string \<Rightarrow> ls_stat \<Rightarrow> string res" where
  "ls_line path st =
     vprintf_text (line ''%s %d %d %d'')
       [AStr (Some (fmtname path)), A32 (word_of_int (st_type st)), A32 (word_of_int (st_ino st)), A32 (word_of_int (st_size st))]"

text \<open>\<open>stat\<close> of \<open>ulib.c\<close>.\<close>

definition ls_statof :: "ls_sys \<Rightarrow> string \<Rightarrow> ls_stat option" where
  "ls_statof y path = (if can_open y path then fstat_of y path else None)"

fun ls_entries :: "ls_sys \<Rightarrow> string \<Rightarrow> (int \<times> string) list \<Rightarrow> string res" where
  "ls_entries y path [] = Ok []"
| "ls_entries y path ((inum, name) # es) =
     (if inum = 0 then ls_entries y path es
      else
        let buf = path @ ''/'' @ takeWhile (\<lambda>c. c \<noteq> c_nul) name in
        bnd (case ls_statof y buf of
               None \<Rightarrow> Ok (line (''ls: cannot stat '' @ buf))
             | Some st \<Rightarrow> ls_line buf st) (\<lambda>t.
        bnd (ls_entries y path es) (\<lambda>u. Ok (t @ u))))"

text \<open>What \<open>ls\<close> prints on the standard output and on the standard error; \<open>T_DIR\<close> is 1, \<open>T_FILE\<close> 2, \<open>T_DEVICE\<close> 3.\<close>

definition ls :: "ls_sys \<Rightarrow> string \<Rightarrow> (string \<times> string) res" where
  "ls y path =
     (if \<not> can_open y path then Ok ([], line (''ls: cannot open '' @ path))
      else
        case fstat_of y path of
          None \<Rightarrow> Ok ([], line (''ls: cannot stat '' @ path))
        | Some st \<Rightarrow>
            bnd (if st_type st = 3 \<or> st_type st = 2 then ls_line path st
                 else if st_type st = 1 then
                   if 512 < length path + 1 + DIRSIZ + 1 then Ok (line ''ls: path too long'')
                   else ls_entries y path (entries_of y path)
                 else Ok []) (\<lambda>t. Ok (t, [])))"

fun ls_all :: "ls_sys \<Rightarrow> string list \<Rightarrow> (string \<times> string) res" where
  "ls_all y [] = Ok ([], [])"
| "ls_all y (f # fs) = bnd (ls y f) (\<lambda>(t, e). bnd (ls_all y fs) (\<lambda>(u, e2). Ok (t @ u, e @ e2)))"

definition ls_main :: "ls_sys \<Rightarrow> string list \<Rightarrow> outcome res" where
  "ls_main y argv =
     bnd (if length argv < 2 then ls y ''.'' else ls_all y (tl argv)) (\<lambda>(t, e). Ok (t, e, 0))"

lemma fmtname_length: "DIRSIZ \<le> length (fmtname path)"
  by (simp add: fmtname_def Let_def)

section \<open>init\<close>

text \<open>
  The first process: \<open>forks\<close> are the results of its forks in the parent, \<open>waits\<close> those of its waits.  The result is
  what it printed, and its status if it exits; without one it waits for ever.
\<close>

fun init_wait :: "int \<Rightarrow> int list \<Rightarrow> int list option \<times> bool" where
  "init_wait pid [] = (None, False)"
| "init_wait pid (w # ws) =
     (if w = pid then (Some ws, False)
      else if w < 0 then (None, True)
      else init_wait pid ws)"

fun init_loop :: "int list \<Rightarrow> int list \<Rightarrow> string \<times> int option" where
  "init_loop [] waits = (line ''init: starting sh'', None)"
| "init_loop (pid # forks) waits =
     (if pid < 0 then (line ''init: starting sh'' @ line ''init: fork failed'', Some 1)
      else
        case init_wait pid waits of
          (Some ws, _) \<Rightarrow> let (t, r) = init_loop forks ws in (line ''init: starting sh'' @ t, r)
        | (None, failed) \<Rightarrow>
            if failed then (line ''init: starting sh'' @ line ''init: wait returned an error'', Some 1)
            else (line ''init: starting sh'', None))"

text \<open>The descriptors: \<open>opens\<close> says whether the console opens before and after \<open>mknod\<close>.\<close>

definition init_setup :: "bool \<Rightarrow> string list" where
  "init_setup opens =
     (if opens then [''open console''] else [''open console'', ''mknod console'', ''open console'']) @ [''dup 0'', ''dup 0'']"

end
