(* ===== verification/U_Properties.thy ===== *)
theory U_Properties
  imports U_Grep U_Run U_Malloc U_Tools
begin

text \<open>The properties of the user programs of xv6, each with a run of it on a concrete input.\<close>

section \<open>grep\<close>

text \<open>What it means that a line matches: the pattern, without its \<open>^\<close>, describes a part of the line that starts
  anywhere, or at the start of the line if there is a \<open>^\<close>.\<close>

definition line_matches :: "string \<Rightarrow> string \<Rightarrow> bool" where
  "line_matches re l \<longleftrightarrow>
     (if re \<noteq> [] \<and> hd re = CHR ''^'' then prefix_match (tl re) l
      else \<exists>u v. l = u @ v \<and> prefix_match re v)"

text \<open>C35: \<open>grep\<close> prints exactly the lines that match.  For every pattern without a NUL, and for every way in which the
  reads cut the input into pieces, the output is the complete lines of the input that match, in order, each with its
  newline - if the input has no NUL and its complete lines fit in the buffer.\<close>

theorem grep_prints_matches:
  assumes "NUL \<notin> set re" and "NUL \<notin> set inp" and "\<forall>l \<in> set (fst (full_lines inp)). length l < 1023"
  shows "grep chunk re inp = concat (map (\<lambda>l. l @ [newline]) (filter (line_matches re) (fst (full_lines inp))))"
proof -
  have "match re = line_matches re" using match_correct[OF assms(1)] by (auto simp: fun_eq_iff line_matches_def)
  moreover have "concat (map (\<lambda>l. if P l then l @ [newline] else []) ls) = concat (map (\<lambda>l. l @ [newline]) (filter P ls))" for P ls
    by (induction ls) auto
  ultimately show ?thesis using grep_correct[OF assms(2,3)] by (simp add: grep_out_def)
qed

text \<open>A pattern with a star, read in pieces of 3 characters; the last line has no newline and is not printed.\<close>

theorem grep_prints_matches_witness:
  "\<exists>ls. fst (full_lines (''ab'' @ [newline] @ ''ba'' @ [newline] @ ''abb'')) = ls \<and>
     grep (\<lambda>_. 3) ''^ab*'' (''ab'' @ [newline] @ ''ba'' @ [newline] @ ''abb'') =
     concat (map (\<lambda>l. l @ [newline]) (filter (line_matches ''^ab*'') ls)) \<and> ls = [''ab'', ''ba'']"
proof -
  let ?i = "''ab'' @ [newline] @ ''ba'' @ [newline] @ ''abb''"
  have l: "fst (full_lines ?i) = [''ab'', ''ba'']" by code_simp
  have "grep (\<lambda>_. 3) ''^ab*'' ?i = concat (map (\<lambda>l. l @ [newline]) (filter (line_matches ''^ab*'') (fst (full_lines ?i))))"
    by (rule grep_prints_matches) (use l in simp_all)
  with l show ?thesis by simp
qed

section \<open>The shell of xv6\<close>

text \<open>C36: The shell of xv6 carries out every command.  A command written down with its blanks, parentheses and
  operators and typed with a newline, if it fits in the buffer and does not start with \<open>cd\<close>, is read and parsed back,
  and its processes execute its programs with the right arguments, each with the right pipe ends and files as its
  standard input and output and no other new descriptor; then the shell asks for the next command.\<close>

theorem shell_runs_command:
  assumes "all_well e" and "cmd_ok c" and "roomy t" and "unparse c = CHR '' '' # u"
    and "u \<noteq> []" and "hd u \<notin> {CHR '' '', CHR 0x09}" and "\<not> is_cd (u @ [CHR 0x0A])"
    and "length (unparse c) + 2 \<le> BUFSZ" and "set (unparse c) \<inter> {CHR 0x00, CHR 0x0A, CHR 0x0D} = {}"
  shows "\<exists>s'. run e (main_loop (map Some (unparse c @ [CHR 0x0A]) @ inp)) t s = run e (main_loop inp) t s' \<and>
    launched s' = launched s @ fst (wiring c t (pipes s)) \<and> pipes s' = snd (wiring c t (pipes s)) \<and>
    said s' = said s @ ''$ '' \<and> cwds s' = cwds s"
proof -
  let ?w = "wiring c t (pipes s)"
  obtain n where "run e (main_loop (map Some (unparse c @ [CHR 0x0A]) @ inp)) t s =
    run e (main_loop inp) t (s\<lparr>said := said s @ ''$ '', forks := n, pipes := snd ?w, launched := launched s @ fst ?w\<rparr>)"
    using main_loop_line[OF assms(1-9)] by blast
  then show ?thesis by (intro exI[of _ "s\<lparr>said := said s @ ''$ '', forks := n, pipes := snd ?w, launched := launched s @ fst ?w\<rparr>"]) simp
qed

definition demo_env :: sh_env where
  "demo_env = \<lparr>opens = \<lambda>_ _. True, programs = \<lambda>_. True, dirs = \<lambda>_. True, forks_ok = \<lambda>_. True\<rparr>"

definition demo_fds :: fdtab where
  "demo_fds = [Some (Given 0), Some (Given 1), Some (Given 2), None, None]"

definition demo_cmd :: cmd where
  "demo_cmd = Pipe (Exec [''ls'', ''a'']) (Redir (Exec [''wc'']) ''o'' M_trunc 1)"

definition demo_start :: sh_st where
  "demo_start = \<lparr>forks = 0, pipes = 0, launched = [], said = [], cwds = []\<rparr>"

text \<open>The line \<open>ls a | wc > o\<close>.\<close>

theorem shell_runs_command_witness:
  "\<exists>s'. run demo_env (main_loop (map Some ('' ls a | wc > o'' @ [CHR 0x0A]))) demo_fds demo_start = run demo_env (main_loop []) demo_fds s' \<and>
    launched s' = [([''ls'', ''a''], [Some (Given 0), Some (Wr 0), Some (Given 2), None, None]),
                   ([''wc''], [Some (Rd 0), Some (Opened ''o'' 0x601), Some (Given 2), None, None])]"
proof -
  have u: "unparse demo_cmd = '' ls a | wc > o''" by code_simp
  have w: "wiring demo_cmd demo_fds 0 =
    ([([''ls'', ''a''], [Some (Given 0), Some (Wr 0), Some (Given 2), None, None]),
      ([''wc''], [Some (Rd 0), Some (Opened ''o'' 0x601), Some (Given 2), None, None])], 1)" by code_simp
  have c: "cmd_ok demo_cmd" by (simp add: demo_cmd_def MAXARGS_def word_ok_def word_char_def whitespace_def symbols_def)
  have t: "roomy demo_fds" unfolding roomy_def by (simp add: demo_fds_def) (rule exI[of _ 3], rule exI[of _ 4], simp)
  have e: "all_well demo_env" by (simp add: all_well_def demo_env_def)
  show ?thesis
    using shell_runs_command[OF e c t, of "''ls a | wc > o''" "[]" demo_start] u w
    by (auto simp: BUFSZ_def is_cd_def demo_start_def)
qed

text \<open>C37: The parser of the xv6 shell always comes to an end: whatever the line, it returns a command or stops with an
  error.\<close>

theorem sh_parser_terminates: "(\<exists>c. parsecmd s = Ok c) \<or> (\<exists>e. parsecmd s = Panic e)"
  using parsecmd_done[of s] by (cases "parsecmd s") auto

section \<open>The allocator\<close>

text \<open>C38: \<open>malloc\<close> returns, and gives memory that nobody else has.  It fails, with the free memory as it was, just
  where no free block is large enough and \<open>sbrk\<close> refuses to give more.  Otherwise, whatever memory \<open>A\<close> the program has
  allocated, it gives a block with its header before it, large enough, that meets neither \<open>A\<close> nor what is free
  afterwards.  In both cases the free list stays in order and the headers of \<open>A\<close> are unchanged.\<close>

theorem malloc_gives_fresh_block:
  assumes "heap_inv b h xs" and "sbrk_grows sb" and "units_for nbytes * 16 < 2 ^ 31"
    and "A \<subseteq> {b<..<brk h}" and "A \<inter> units h xs = {}"
  shows "\<exists>r k ys. malloc sb b nbytes h = Some (r, k) \<and> heap_ok b k ys \<and> A \<inter> units k ys = {} \<and>
    (\<forall>x \<in> A. ptr k x = ptr h x \<and> sz k x = sz h x) \<and>
    (if (\<forall>x \<in> set xs. sz h x < units_for nbytes) \<and> no_more sb (units_for nbytes) (based b h)
     then r = 0 \<and> units k ys = units h xs
     else 0 < r \<and> nbytes \<le> 16 * (sz k (r - 1) - 1) \<and> block k (r - 1) \<subseteq> {b<..<brk k} \<and>
       block k (r - 1) \<inter> A = {} \<and> block k (r - 1) \<inter> units k ys = {})"
  using assms(1-3)
proof (cases rule: malloc_inv)
  case (1 k)
  have "\<forall>x \<in> A. ptr k x = ptr h x \<and> sz k x = sz h x" using 1(7) assms(4) by (auto simp: same_outside_def)
  then show ?thesis using 1 assms(5) by (intro exI[of _ 0] exI[of _ k] exI[of _ xs]) simp
next
  case (2 q k g ys)
  let ?n = "units_for nbytes"
  obtain zs where z: "heap_ok b k zs" "b < q" "sz k q = ?n" "block k q \<subseteq> units g ys" "units k zs = units g ys - block k q"
    "brk k = brk g" "same_outside (insert b (units g ys)) g k" using 2(3) by (auto simp: taken_def)
  have A: "A \<inter> units g ys = {}" "b \<notin> A" "A \<inter> (units h xs \<union> {brk h ..< brk g}) = {}" using 2(6) assms(4,5) by fastforce+
  then have "\<forall>x \<in> A. x \<notin> insert b (units g ys) \<and> x \<notin> insert b (units h xs \<union> {brk h ..< brk g})" by blast
  then have "\<forall>x \<in> A. ptr k x = ptr h x \<and> sz k x = sz h x" using z(7) 2(8) unfolding same_outside_def by metis
  moreover have "units g ys \<subseteq> {..< brk g}" using 2(4) by (simp add: heap_ok_def)
  then have "block k q \<subseteq> {b<..<brk k}" using z(2,4,6) by (force simp: block_def)
  moreover have "nbytes \<le> 16 * (?n - 1)" by (simp add: units_for_def)
  moreover have given: "\<not> ((\<forall>x \<in> set xs. sz h x < ?n) \<and> no_more sb ?n (based b h))" using 2(1) by (auto simp: not_le dest: leD)
  ultimately show ?thesis unfolding if_not_P[OF given] using 2(2) z A
    by (intro exI[of _ "q + 1"] exI[of _ k] exI[of _ zs]) auto
qed

text \<open>\<open>sbrk\<close> that always succeeds.\<close>

definition demo_sbrk :: sbrk where
  "demo_sbrk n h = (Some (brk h), h\<lparr>brk := brk h + nat n div 16\<rparr>)"

definition demo_heap :: heap where
  "demo_heap = \<lparr>ptr = \<lambda>_. 0, sz = \<lambda>_. 0, freep = 0, brk = 300\<rparr>"

lemma demo_sbrk_grows: "sbrk_grows demo_sbrk"
  by (simp add: sbrk_grows_def demo_sbrk_def)

text \<open>The first call in a program whose static data are below 300, the base of the list at 100.\<close>

theorem malloc_gives_fresh_block_witness:
  "\<exists>r k ys. malloc demo_sbrk 100 20 demo_heap = Some (r, k) \<and> heap_ok 100 k ys \<and> {200} \<inter> units k ys = {} \<and>
     0 < r \<and> 20 \<le> 16 * (sz k (r - 1) - 1) \<and> block k (r - 1) \<inter> {200} = {} \<and> block k (r - 1) \<inter> units k ys = {}"
proof -
  have "heap_inv 100 demo_heap []" by (simp add: heap_inv_def demo_heap_def)
  moreover have "\<not> no_more demo_sbrk n h" for n h by (simp add: no_more_def demo_sbrk_def)
  ultimately show ?thesis
    using malloc_gives_fresh_block[OF _ demo_sbrk_grows, of 100 demo_heap "[]" 20 "{200}"]
    by (auto simp: units_for_def demo_heap_def)
qed

text \<open>C39: Freeing what \<open>malloc\<close> gave puts it back: \<open>free\<close> returns, and joins the block with its neighbours so that the
  free memory is what it was before the call, with the memory by which the heap has grown meanwhile.\<close>

theorem free_undoes_malloc:
  assumes "heap_inv b h xs" and "sbrk_grows sb" and "units_for nbytes * 16 < 2 ^ 31"
    and "malloc sb b nbytes h = Some (r, k)" and "r \<noteq> 0"
  shows "\<exists>k' zs. free r k = Some k' \<and> heap_ok b k' zs \<and> units h xs \<subseteq> units k' zs \<and>
    units k' zs \<subseteq> units h xs \<union> {brk h ..< brk k'} \<and> brk k' = brk k"
  using assms(1-3)
proof (cases rule: malloc_inv)
  case (1 k)
  then show ?thesis using assms(4,5) by simp
next
  case (2 q k1 g ys)
  have k1: "k1 = k" "r = q + 1" using 2(2) assms(4) by simp_all
  have "0 < units_for nbytes" by (simp add: units_for_def)
  with 2(3,4) obtain k' zs where f: "free (q + 1) k1 = Some k'" "heap_ok b k' zs" "units k' zs = units g ys" "brk k' = brk g"
    using free_taken by metis
  moreover have "brk k1 = brk g" using 2(3) by (auto simp: taken_def)
  ultimately show ?thesis using 2(5,6) k1 by auto
qed

theorem free_undoes_malloc_witness:
  "\<exists>r k k' zs. malloc demo_sbrk 100 20 (demo_heap\<lparr>ptr := id, freep := 100, brk := 400, sz := (\<lambda>_. 0)(200 := 50), ptr := (\<lambda>_. 0)(100 := 200, 200 := 100)\<rparr>) = Some (r, k) \<and>
     free r k = Some k' \<and> heap_ok 100 k' zs \<and> units k' zs = {200 ..< 250}"
proof -
  let ?h = "demo_heap\<lparr>ptr := id, freep := 100, brk := 400, sz := (\<lambda>_. 0)(200 := 50), ptr := (\<lambda>_. 0)(100 := 200, 200 := 100)\<rparr>"
  have "{200 ..< 250} \<subseteq> {..< 400 :: nat}" by auto
  then have i: "heap_inv 100 ?h [200]" by (simp add: heap_inv_def heap_ok_def demo_heap_def units_def block_def)
  have n: "units_for 20 = 3" by (simp add: units_for_def)
  have m: "malloc demo_sbrk 100 20 ?h = Some (248, ?h\<lparr>sz := (sz ?h)(200 := 47, 247 := 3), freep := 100\<rparr>)" (is "_ = Some (248, ?k)")
    unfolding malloc_def n by (simp add: malloc_loop.simps take_block_def demo_heap_def fun_upd_twist)
  from free_undoes_malloc[OF i demo_sbrk_grows _ m] obtain k' zs where k: "free 248 ?k = Some k'" "heap_ok 100 k' zs"
    "units ?h [200] \<subseteq> units k' zs" "units k' zs \<subseteq> units ?h [200] \<union> {brk ?h ..< brk k'}" "brk k' = brk ?k" by (auto simp: n)
  have "units ?h [200] = {200 ..< 250}" by (simp add: units_def block_def demo_heap_def)
  with k have "units k' zs = {200 ..< 250}" by auto
  with k m show ?thesis by blast
qed

end
