(* ===== verification/Spec2Isabelle.thy ===== *)
theory Spec2Isabelle
  imports Sh_Properties KS_Properties K_Boot U_Properties
begin

text \<open>
  A verification of the programs of this repository, \<open>src/mini-project1\<close>: the C shell in \<open>c-shell\<close> and the operating
  system in \<open>xv6\<close> - its kernel with the added schedulers, its user programs, and \<open>mkfs\<close>, which builds its first disk.

  \<^bold>\<open>How the theories read.\<close>  A definition has the name of the function it translates, or of the loop in it with a
  suffix.  Machine integers are words of their width, C structs are records, the kernel's memory is a function from
  64-bit addresses to bytes, and C strings are the characters before the NUL.  Every operation that can fail returns
  \<open>'a res\<close> of \<open>Prelude\<close>: \<open>Ok\<close> with the new state, \<open>Panic\<close> for the kernel's panic or a failed assertion, \<open>Undef\<close> where C
  gives no meaning (an array written past its end, an uninitialised read), and \<open>Spin\<close> for a wait that nothing ends.  A
  state record of one layer extends the record of the layer below, so that the definitions of a layer apply to every
  state above it; what an operation changes is what its lemma says, and the rest of the record is kept.  A theory
  first has the code, then its invariant, then what the operations do.  The properties are in the \<open>Properties\<close>
  theories and at the end of \<open>M_Mkfs\<close>, each with an instance at a concrete input.

  \<^bold>\<open>Shared.\<close>  \<open>Prelude\<close> has \<open>res\<close>, its sequencing \<open>bnd\<close>, partial correctness \<open>post\<close> and lemmas on lists and maps;
  \<open>CLib\<close> has the functions of the C library that the shell uses on strings.

  \<^bold>\<open>The C shell\<close> (\<open>c-shell/src\<close>).
  \<^item> A line goes from \<open>main\<close> (\<open>Sh_Main\<close>, with \<open>prompt.c\<close>) through \<open>maketoken\<close> (\<open>Sh_Lexer\<close>) and the automaton of \<open>parsing\<close>
    (\<open>Sh_Parser\<close>) to \<open>run_cmd\<close>, which splits it into pipelines (\<open>Sh_Pipeline\<close>) and runs each (\<open>Sh_Exec\<close>) with the
    descriptors of \<open>Sh_Fds\<close> and the job table of \<open>Sh_Jobs\<close> (\<open>jobs.c\<close>, \<open>activites.c\<close>).  The builtins are \<open>Sh_Hop\<close>, \<open>Sh_Peek\<close>,
    \<open>Sh_Reveal\<close>, \<open>Sh_Spy\<close>, \<open>Sh_Snoop\<close> and, with the search for programs, \<open>Sh_Resolve\<close> (\<open>resolve.c\<close>, \<open>locate.c\<close>).
  \<^item> The operating system is a record of its answers: which files exist, what they hold, what \<open>waitpid\<close> reports.  The
    \<open>snoop\<close> table and the job table are fed by lists of such reports.
  \<^item> \<open>Sh_Run\<close> proves that \<open>run_cmd\<close> keeps descriptors and jobs in order, through one locale (\<open>pipeline_runner\<close>) for what
    runs a pipeline.  \<open>Sh_Properties\<close> has the properties: a line does what its syntax tree means; the check accepts just
    the language; no descriptor leaks on any path; redirections write and read whole files; reaping removes the dead;
    the frecency file; the counts of \<open>snoop\<close>; the tree that \<open>reveal\<close> prints.

  \<^bold>\<open>The kernel\<close> (\<open>xv6/kernel\<close>), from the bottom.
  \<^item> \<open>K_Lock\<close> (\<open>spinlock.c\<close>) has the machine with interleaved harts, in which mutual exclusion is proved, and the state
    of one hart's locks, which is shown to implement it and which all layers above use.  \<open>K_Printk\<close>, \<open>K_String\<close>,
    \<open>K_Alloc\<close> (\<open>kalloc.c\<close>, the free list in the pages themselves), \<open>K_Vm\<close> (\<open>vm.c\<close>: page tables in memory, with the map they
    stand for).
  \<^item> \<open>K_Proc\<close> (\<open>proc.c\<close>: the process table and its invariant, MLFQ accounting, sleeping, waking, killing), \<open>K_Sched\<close> (the
    three schedulers, compared through the locales \<open>sched_policy\<close> and \<open>fair_policy\<close>), \<open>K_Wakeup\<close> (sleep and wakeup
    interleaved), \<open>K_Life\<close> (fork, exit and wait).
  \<^item> Storage: \<open>K_Sleeplock\<close>, \<open>K_Disk\<close> (\<open>virtio_disk.c\<close>; the locale \<open>disk_env\<close> says what the driver needs of the device, and
    \<open>device_env\<close>, a device that serves each request, is its interpretation), \<open>K_Bio\<close> (\<open>bio.c\<close>), \<open>K_Log\<close> (\<open>log.c\<close>, crash
    safety).  Above them a block's content is a function of its number: \<open>K_Fs\<close> is \<open>fs.c\<close> up to directories, with
    \<open>K_FsBlocks\<close> (the free map), \<open>K_Inode\<close>, \<open>K_Readi\<close> and \<open>K_Writei\<close> for what its operations do: a file is the bytes that
    its addresses lead to, \<open>readi\<close> copies them out, \<open>writei\<close> overwrites and extends them; \<open>K_Dir\<close> has directories and
    paths.
  \<^item> \<open>K_Pipe\<close> and \<open>K_Console\<close> (\<open>console.c\<close>, \<open>uart.c\<close>) are rings, interpretations of the locale of \<open>K_Ring\<close>; \<open>K_File\<close>
    (\<open>file.c\<close>), \<open>K_Exec\<close> (\<open>exec.c\<close>), \<open>K_Syscall\<close> and \<open>K_Sysfile\<close> (\<open>syscall.c\<close>, \<open>sysproc.c\<close>, \<open>sysfile.c\<close>), \<open>K_Trap\<close> (\<open>trap.c\<close>,
    \<open>plic.c\<close>) and \<open>K_Boot\<close> (\<open>start.c\<close>, \<open>main.c\<close>) compose them as the code does.
  \<^item> \<open>K_Properties\<close> has the properties of processes and memory, \<open>KS_Properties\<close> those of storage.

  \<^bold>\<open>User programs and mkfs.\<close>  \<open>U_Sh\<close> and \<open>U_Run\<close> are the shell of xv6 (\<open>sh.c\<close>): its parser, and its execution as the
  sequence of system calls it makes, with what follows each result.  \<open>U_Lib\<close>, \<open>U_Printf\<close> and \<open>U_Malloc\<close> are the library,
  \<open>U_Grep\<close> and \<open>U_Tools\<close> the programs.  \<open>M_Mkfs\<close> is \<open>mkfs.c\<close> on the on-disk structures of \<open>K_Fs\<close>; what it builds is what the
  kernel reads (\<open>kernel_reads_mkfs_file\<close>).

  \<^bold>\<open>Bounds and fuel.\<close>
  \<^item> Array sizes are those of the code; an index past one is \<open>Undef\<close>.  The shell's are 1024 characters in a word, 256
    tokens, 100 arguments and stages, 20 redirections, 256 jobs and 16 processes in each; the kernel's are \<open>NPROC\<close> (64),
    \<open>NBUF\<close> and \<open>LOGBLOCKS\<close> (30), \<open>NINODE\<close> (50), \<open>NDESC\<close> (8).
  \<^item> A loop over a number of pages or bytes has that number as its fuel and never ends in \<open>Spin\<close>.  The loops that wait
    (for a lock, an interrupt, an exiting child) have the \<open>patience\<close> of the environment: what others do while a process
    sleeps is the parameter \<open>others\<close>, and \<open>Spin\<close> means that patience was too small.  With \<open>device_env\<close> a patience of 1
    is enough for every transfer (\<open>device_transfers\<close>).
  \<^item> The parser of the shell of xv6 runs to the depth \<open>4 * length line + 9\<close>, which \<open>sh_parser_terminates\<close> proves enough for
    every line; \<open>reveal\<close> runs on the depth of the tree (\<open>reveal_lists_the_tree\<close>); opening the console takes 4 tries.
  \<^item> A write of \<open>n\<close> bytes is proved for a log with room for 6 blocks per block of the file it touches and 2 free blocks for
    each (\<open>writei_then_readi\<close>); \<open>filewrite\<close> splits its work so that each transaction has at most four.
  \<^item> Sizes of \<open>malloc\<close> are natural numbers below \<open>2 ^ 32\<close> headers.

  \<^bold>\<open>Not modelled.\<close>
  \<^item> Assembly (\<open>entry.S\<close>, \<open>kernelvec.S\<close>, \<open>swtch.S\<close>, \<open>trampoline.S\<close>, \<open>usys.pl\<close>): \<open>swtch\<close> is a parameter, what happens until it
    returns.  Declarations in headers without code, and the inline assembly of \<open>riscv.h\<close>; control registers are fields.
  \<^item> The test programs (\<open>usertests.c\<close>, \<open>grind.c\<close>, \<open>forktest.c\<close>, \<open>stressfs.c\<close>, \<open>logstress.c\<close>, \<open>schedulertest.c\<close>, \<open>testfcfs.c\<close>,
    \<open>zombie.c\<close>, \<open>forphan.c\<close>, \<open>dorphan.c\<close>): they exercise the kernel and have no contract of their own.
  \<^item> Memory fences and TLB flushes; the wait for a free transmitter in \<open>uartputc_sync\<close>; signal set-up of the shell and its
    children; the rounding of the \<open>double\<close> seconds of \<open>snoop\<close>; the function \<open>executing\<close> of \<open>execute.c\<close>, which nothing calls.
  \<^item> Failures that the code does not look at: \<open>malloc\<close> in the constructors of the shell of xv6, the host's I/O errors
    other than a short read in \<open>mkfs\<close>.
  \<^item> Code under no file of \<open>src\<close> - the C library's \<open>stat\<close>, \<open>fork\<close>, \<open>waitpid\<close>, the firmware, the devices - is an argument of
    the definitions that use it.
\<close>

end
